(* ===== verification/Nova_Prelude.thy ===== *)
theory Nova_Prelude
  imports Main "HOL-Library.Word"
begin

text \<open>
  Shared vocabulary of the development: the return codes of \<open>src/src/include/ossErr.h\<close>
  that the modelled code uses, the C integer conversions written out on \<open>nat\<close> and
  \<open>int\<close>, the two sizing helpers of the operating-system layer
  (\<open>ossAlignX\<close>, \<open>ossIsPowerOf2\<close>), the predicated swaps of \<open>ossAtomic32\<close>, and the generic
  lemmas on lists, intervals and words that the component theories share.
\<close>

unbundle bit_operations_syntax

section \<open>Rule collections\<close>

named_theorems cast_simps \<open>C integer conversions that leave an in-range value alone\<close>
named_theorems frame_simps \<open>which fields an operation leaves unchanged\<close>

section \<open>Return codes\<close>

type_synonym rc = int

abbreviation (input) SDB_OK :: rc where "SDB_OK \<equiv> 0"
abbreviation (input) SDB_OOM :: rc where "SDB_OOM \<equiv> - 2"
abbreviation (input) SDB_INVALIDARG :: rc where "SDB_INVALIDARG \<equiv> - 6"
abbreviation (input) SDB_INTERRUPT :: rc where "SDB_INTERRUPT \<equiv> - 8"
abbreviation (input) SDB_SYS :: rc where "SDB_SYS \<equiv> - 10"
abbreviation (input) SDB_TIMEOUT :: rc where "SDB_TIMEOUT \<equiv> - 13"
abbreviation (input) SDB_INVALID_FILE_TYPE :: rc where "SDB_INVALID_FILE_TYPE \<equiv> - 20"
abbreviation (input) SDB_DMS_NOSPC :: rc where "SDB_DMS_NOSPC \<equiv> - 21"
abbreviation (input) SDB_DMS_EXIST :: rc where "SDB_DMS_EXIST \<equiv> - 22"
abbreviation (input) SDB_DMS_NOTEXIST :: rc where "SDB_DMS_NOTEXIST \<equiv> - 23"
abbreviation (input) SDB_DMS_RECORD_TOO_BIG :: rc where "SDB_DMS_RECORD_TOO_BIG \<equiv> - 24"
abbreviation (input) SDB_DMS_EOC :: rc where "SDB_DMS_EOC \<equiv> - 29"
abbreviation (input) SDB_DMS_INVALID_SU :: rc where "SDB_DMS_INVALID_SU \<equiv> - 35"
abbreviation (input) SDB_DMS_INCOMPATIBLE_VERSION :: rc where "SDB_DMS_INCOMPATIBLE_VERSION \<equiv> - 93"
abbreviation (input) SDB_DMS_CORRUPTED_SME :: rc where "SDB_DMS_CORRUPTED_SME \<equiv> - 115"
abbreviation (input) SDB_DMS_CORRUPTED_EXTENT :: rc where "SDB_DMS_CORRUPTED_EXTENT \<equiv> - 139"
abbreviation (input) SDB_OPERATION_INCOMPATIBLE :: rc where "SDB_OPERATION_INCOMPATIBLE \<equiv> - 315"
abbreviation (input) SDB_DMS_UNIQUEID_CONFLICT :: rc where "SDB_DMS_UNIQUEID_CONFLICT \<equiv> - 327"

text \<open>Page and record identifiers are signed 32-bit values; \<open>-1\<close> is the invalid one.\<close>

type_synonym dmsExtentID = int
type_synonym dmsOffset = int

abbreviation (input) DMS_INVALID_EXTENT :: dmsExtentID where "DMS_INVALID_EXTENT \<equiv> - 1"
abbreviation (input) DMS_INVALID_OFFSET :: dmsOffset where "DMS_INVALID_OFFSET \<equiv> - 1"

section \<open>C integer conversions\<close>

text \<open>The conversions to \<open>UINT16\<close>, \<open>UINT32\<close> and \<open>INT32\<close> keep the low bits of a value.\<close>

definition u16 :: "int \<Rightarrow> nat" where
  "u16 i = nat (i mod 65536)"

definition u32 :: "int \<Rightarrow> nat" where
  "u32 i = nat (i mod 4294967296)"

definition s32 :: "int \<Rightarrow> int" where
  "s32 i = (i + 2147483648) mod 4294967296 - 2147483648"

lemma u16_id [cast_simps]: "0 \<le> i \<Longrightarrow> i < 65536 \<Longrightarrow> u16 i = nat i"
  by (simp add: u16_def)

lemma u16_of_nat [cast_simps]: "n < 65536 \<Longrightarrow> u16 (int n) = n"
  by (simp add: u16_def)

lemma u16_less: "u16 i < 65536"
  by (simp add: u16_def nat_less_iff)

lemma u32_id [cast_simps]: "0 \<le> i \<Longrightarrow> i < 4294967296 \<Longrightarrow> u32 i = nat i"
  by (simp add: u32_def)

lemma u32_of_nat [cast_simps]: "n < 4294967296 \<Longrightarrow> u32 (int n) = n"
  by (simp add: u32_def)

lemma u32_less: "u32 i < 4294967296"
  by (simp add: u32_def nat_less_iff)

lemma s32_id [cast_simps]: "- 2147483648 \<le> i \<Longrightarrow> i < 2147483648 \<Longrightarrow> s32 i = i"
  by (simp add: s32_def)

lemma s32_range: "- 2147483648 \<le> s32 i \<and> s32 i < 2147483648"
  by (simp add: s32_def)

section \<open>Sizing helpers of the operating-system layer\<close>

text \<open>\<open>ossAlignX\<close> (\<open>ossTypes.hpp\<close>), the \<open>UINT32\<close> overload.\<close>

definition ossAlignX :: "32 word \<Rightarrow> 32 word \<Rightarrow> 32 word" where
  "ossAlignX i X = (i + (X - 1)) AND NOT (X - 1)"

text \<open>
  \<open>ossIsPowerOf2\<close> (\<open>ossUtil.cpp\<close>): the flag and, when it is set, the exponent counted by
  the shift loop.  The loop ends when the value is 1; on a value that is not 0 it does.
\<close>

function ossSquareLoop :: "nat \<Rightarrow> nat \<Rightarrow> nat" where
  "ossSquareLoop num sq = (if num = 1 \<or> num = 0 then sq else ossSquareLoop (num div 2) (Suc sq))"
  by pat_completeness auto
termination
  by (relation "measure fst") auto

declare ossSquareLoop.simps [simp del]

definition ossIsPowerOf2 :: "32 word \<Rightarrow> nat option" where
  "ossIsPowerOf2 num =
     (if num \<noteq> 0 \<and> num AND (num - 1) = 0 then Some (ossSquareLoop (unat num) 0) else None)"

lemma ossSquareLoop_power: "ossSquareLoop (2 ^ k) sq = sq + k"
proof (induction k arbitrary: sq)
  case 0
  show ?case by (simp add: ossSquareLoop.simps)
next
  case (Suc k)
  have "ossSquareLoop (2 ^ Suc k) sq = ossSquareLoop (2 ^ k) (Suc sq)"
    by (subst ossSquareLoop.simps) auto
  with Suc.IH show ?case by simp
qed

section \<open>Predicated swaps\<close>

text \<open>
  \<open>_ossAtomic32::swapPredicated\<close>, \<open>swapLesserThan\<close> and \<open>compareAndSwap\<close>
  (\<open>ossAtomic.hpp\<close>) as the effect one completed call has on the stored value.
\<close>

definition swapPredicated :: "(nat \<Rightarrow> nat \<Rightarrow> bool) \<Rightarrow> nat \<Rightarrow> nat \<Rightarrow> nat" where
  "swapPredicated pred cur val = (if pred val cur then val else cur)"

definition swapLesserThan :: "nat \<Rightarrow> nat \<Rightarrow> nat" where
  "swapLesserThan cur val = swapPredicated (<) cur val"

definition swapGreaterThan :: "nat \<Rightarrow> nat \<Rightarrow> nat" where
  "swapGreaterThan cur val = swapPredicated (>) cur val"

definition compareAndSwap :: "nat \<Rightarrow> nat \<Rightarrow> nat \<Rightarrow> nat" where
  "compareAndSwap cur compVal val = (if cur = compVal then val else cur)"

section \<open>Lists and intervals\<close>

lemma all_less_two: "(\<forall>k < Suc (Suc 0). P k) \<longleftrightarrow> P 0 \<and> P (Suc 0)"
  by (auto simp: less_Suc_eq)

lemma ceil_div:
  fixes d :: nat
  assumes "0 < d"
  shows "(i + d - 1) div d = (if i mod d = 0 then i div d else Suc (i div d))"
proof (cases "i mod d = 0")
  case True
  then obtain q where "i = q * d" by (metis div_mult_mod_eq add.right_neutral)
  then show ?thesis using assms by (simp add: div_nat_eqI algebra_simps)
next
  case False
  have "i + d - 1 = d + (i - 1)" using False by (cases i) auto
  moreover have "(d + (i - 1)) div d = (i - 1) div d + 1" using assms by (intro div_add_self1) simp
  ultimately have "(i + d - 1) div d = Suc ((i - 1) div d)" by simp
  moreover have "(i - 1) div d = i div d"
    using False by (cases i) (simp_all add: div_Suc)
  ultimately show ?thesis using False by simp
qed

lemma and_exp_minus_one:
  "(i::nat) AND (2 ^ n - 1) = i mod 2 ^ n" "(i::nat) AND (2 ^ n - Suc 0) = i mod 2 ^ n"
  by (metis take_bit_eq_mask mask_eq_exp_minus_1 take_bit_eq_mod One_nat_def)+

lemma unat_word32 [simp]: "n < 4294967296 \<Longrightarrow> unat (word_of_nat n :: 32 word) = n"
  by (simp add: unsigned_of_nat take_bit_nat_eq_self)

lemma take_bit_24_word32: "n < 16777216 \<Longrightarrow> take_bit 24 (word_of_nat n :: 32 word) = word_of_nat n"
  using of_nat_take_bit [of 24 n, where ?'a = "32 word"] by (simp add: take_bit_nat_eq_self)

end
