(* ===== verification/Dms_SME.thy ===== *)
theory Dms_SME
  imports Nova_Prelude
begin

text \<open>
  The space management extent (\<open>_dmsSpaceManagementExtent\<close> in \<open>dmsBlockData.hpp\<close>): one bit
  per data page of a storage unit, most significant bit first in each byte.  The byte array
  is a function from the byte index; the accessors are the source's shifts and masks.  The
  lemmas reduce them to reads and updates of single bits, which is all the allocator uses.
\<close>

section \<open>The bitmap and its accessors\<close>

type_synonym sme = "nat \<Rightarrow> 8 word"

abbreviation (input) DMS_MAX_PG :: nat where "DMS_MAX_PG \<equiv> 134217728"
abbreviation (input) DMS_SME_FREE :: "8 word" where "DMS_SME_FREE \<equiv> 0"
abbreviation (input) DMS_SME_ALLOCATED :: "8 word" where "DMS_SME_ALLOCATED \<equiv> 1"

definition sme_new :: sme where
  "sme_new = (\<lambda>_. 0)"

definition getBitMask :: "sme \<Rightarrow> nat \<Rightarrow> 8 word" where
  "getBitMask m bitNum = drop_bit (7 - (bitNum AND 7)) (m (drop_bit 3 bitNum)) AND 1"

definition freeBitMask :: "nat \<Rightarrow> sme \<Rightarrow> sme" where
  "freeBitMask bitNum m =
     m(drop_bit 3 bitNum := m (drop_bit 3 bitNum) AND NOT (push_bit (7 - (bitNum AND 7)) 1))"

definition setBitMask :: "nat \<Rightarrow> sme \<Rightarrow> sme" where
  "setBitMask bitNum m =
     m(drop_bit 3 bitNum := m (drop_bit 3 bitNum) OR push_bit (7 - (bitNum AND 7)) 1)"

text \<open>The two loops of the segment space that mark a run of pages.\<close>

fun setBits :: "nat \<Rightarrow> nat \<Rightarrow> sme \<Rightarrow> sme" where
  "setBits bitStart 0 m = m"
| "setBits bitStart (Suc n) m = setBits (Suc bitStart) n (setBitMask bitStart m)"

fun freeBits :: "nat \<Rightarrow> nat \<Rightarrow> sme \<Rightarrow> sme" where
  "freeBits bitStart 0 m = m"
| "freeBits bitStart (Suc n) m = freeBits (Suc bitStart) n (freeBitMask bitStart m)"

section \<open>Single bits\<close>

lemma nat_and_7: "(n::nat) AND 7 = n mod 8"
  using take_bit_eq_mask [of 3 n] by (simp add: take_bit_eq_mod mask_eq_exp_minus_1)

lemma nat_drop_3: "drop_bit 3 (n::nat) = n div 8"
  by (simp add: drop_bit_eq_div)

lemma bit_pos_less: "7 - (n AND 7) < (8::nat)"
  by simp

lemma page_split: "(m::nat) div 8 = n div 8 \<Longrightarrow> m mod 8 = n mod 8 \<Longrightarrow> m = n"
  by (metis div_mult_mod_eq)

lemma getBitMask_bit:
  "getBitMask m p = (if bit (m (p div 8)) (7 - p mod 8) then 1 else 0)"
  by (rule bit_word_eqI)
    (auto simp: getBitMask_def nat_and_7 nat_drop_3 bit_simps intro: gr0I)

lemma getBitMask_cases: "getBitMask m p = 0 \<or> getBitMask m p = 1"
  by (simp add: getBitMask_bit)

lemma getBitMask_not_zero [simp]: "(getBitMask m p \<noteq> 0) = (getBitMask m p = 1)"
  using getBitMask_cases [of m p] by auto

lemma bit_pos_eq: "(7::nat) - p mod 8 = 7 - q mod 8 \<longleftrightarrow> p mod 8 = q mod 8"
proof -
  have "p mod 8 < 8" and "q mod 8 < 8" by simp_all
  then show ?thesis by linarith
qed

lemma getBitMask_set [simp]:
  "getBitMask (setBitMask q m) p = (if p = q then 1 else getBitMask m p)"
proof (cases "p div 8 = q div 8")
  case True
  have "bit (push_bit (7 - q mod 8) (1 :: 8 word)) (7 - p mod 8) \<longleftrightarrow> p mod 8 = q mod 8"
    using bit_pos_eq [of p q] by (auto simp: bit_simps)
  with True show ?thesis
    using page_split [of p q]
    by (auto simp: getBitMask_bit setBitMask_def nat_and_7 nat_drop_3 bit_or_iff)
next
  case False
  then show ?thesis by (auto simp: getBitMask_bit setBitMask_def nat_drop_3)
qed

lemma getBitMask_free [simp]:
  "getBitMask (freeBitMask q m) p = (if p = q then 0 else getBitMask m p)"
proof (cases "p div 8 = q div 8")
  case True
  have "bit (push_bit (7 - q mod 8) (1 :: 8 word)) (7 - p mod 8) \<longleftrightarrow> p mod 8 = q mod 8"
    using bit_pos_eq [of p q] by (auto simp: bit_simps)
  with True show ?thesis
    using page_split [of p q]
    by (auto simp: getBitMask_bit freeBitMask_def nat_and_7 nat_drop_3 bit_and_iff bit_not_iff)
next
  case False
  then show ?thesis by (auto simp: getBitMask_bit freeBitMask_def nat_drop_3)
qed

lemma getBitMask_new [simp]: "getBitMask sme_new p = 0"
  by (simp add: getBitMask_bit sme_new_def)

section \<open>Runs of bits\<close>

lemma getBitMask_setBits [simp]:
  "getBitMask (setBits q n m) p = (if q \<le> p \<and> p < q + n then 1 else getBitMask m p)"
  by (induction n arbitrary: q m) auto

lemma getBitMask_freeBits [simp]:
  "getBitMask (freeBits q n m) p = (if q \<le> p \<and> p < q + n then 0 else getBitMask m p)"
  by (induction n arbitrary: q m) auto

text \<open>Marking a run allocated and freeing it again gives back the same page states.\<close>

lemma freeBits_setBits:
  assumes "\<And>p. q \<le> p \<Longrightarrow> p < q + n \<Longrightarrow> getBitMask m p = 0"
  shows "getBitMask (freeBits q n (setBits q n m)) p = getBitMask m p"
  using assms by simp

end
