(* ===== verification/Dms_SegmentSpace.thy ===== *)
theory Dms_SegmentSpace
  imports Dms_SME
begin

text \<open>
  The free space of one segment (\<open>_dmsSegmentSpace\<close> in \<open>dmsSMEMgr.cpp\<close>): a list of free
  runs, each packed into a 32-bit node (start in the high half, size in the low half), the
  size of the largest run, and the number of free pages.  \<open>reservePages\<close> takes pages from
  the first run that is large enough; \<open>releasePages\<close> puts pages back and merges the new run
  with its neighbours.  The fields of the manager and of the bitmap that the two operations
  write through \<open>_pSMEMgr\<close> are the record \<open>smeShared\<close>.  The mutex only serialises the
  operations, and each one is one atomic step here.
\<close>

section \<open>Packed nodes\<close>

type_synonym dmsSegmentNode = "32 word"

definition DMS_SEGMENT_NODE_GETSTART :: "dmsSegmentNode \<Rightarrow> nat" where
  "DMS_SEGMENT_NODE_GETSTART x = unat (drop_bit 16 x)"

definition DMS_SEGMENT_NODE_GETSIZE :: "dmsSegmentNode \<Rightarrow> nat" where
  "DMS_SEGMENT_NODE_GETSIZE x = unat (0xFFFF AND x)"

definition DMS_SEGMENT_NODE_SET :: "nat \<Rightarrow> nat \<Rightarrow> dmsSegmentNode" where
  "DMS_SEGMENT_NODE_SET y z = push_bit 16 (word_of_nat y) OR (0xFFFF AND word_of_nat z)"

definition DMS_SEGMENT_NODE_SETSIZE :: "dmsSegmentNode \<Rightarrow> nat \<Rightarrow> dmsSegmentNode" where
  "DMS_SEGMENT_NODE_SETSIZE x y = word_of_nat (u16 (int y)) OR (0xFFFF0000 AND x)"

abbreviation nstart :: "dmsSegmentNode \<Rightarrow> nat" where
  "nstart \<equiv> DMS_SEGMENT_NODE_GETSTART"
abbreviation nsize :: "dmsSegmentNode \<Rightarrow> nat" where
  "nsize \<equiv> DMS_SEGMENT_NODE_GETSIZE"
abbreviation nend :: "dmsSegmentNode \<Rightarrow> nat" where
  "nend x \<equiv> nstart x + nsize x"

section \<open>State\<close>

record smeShared =
  sh_pSME :: sme
  sh_totalFree :: nat
  sh_freePos :: nat

record dmsSegmentSpace =
  ss_freeSpaceList :: "dmsSegmentNode list"
  ss_maxNode :: nat
  ss_startExtent :: dmsExtentID
  ss_totalSize :: nat
  ss_totalFree :: nat

section \<open>Operations\<close>

definition dmsSegmentSpace_new :: "dmsExtentID \<Rightarrow> nat \<Rightarrow> dmsSegmentSpace" where
  "dmsSegmentSpace_new startExtent maxNode =
     \<lparr> ss_freeSpaceList = [], ss_maxNode = 0, ss_startExtent = startExtent,
       ss_totalSize = maxNode, ss_totalFree = 0 \<rparr>"

fun resetMaxLoop :: "nat \<Rightarrow> dmsSegmentNode list \<Rightarrow> nat" where
  "resetMaxLoop mx [] = mx"
| "resetMaxLoop mx (node # ns) = resetMaxLoop (if nsize node > mx then nsize node else mx) ns"

definition resetMax :: "dmsSegmentSpace \<Rightarrow> dmsSegmentSpace" where
  "resetMax ss = ss\<lparr>ss_maxNode := resetMaxLoop 0 (ss_freeSpaceList ss)\<rparr>"

text \<open>
  The search loop of \<open>reservePages\<close>: start and old size of the first run that holds
  \<open>numPages\<close> pages, and the list with the pages taken from the front of that run.
\<close>

fun reserveLoop :: "nat \<Rightarrow> dmsSegmentNode list \<Rightarrow> (nat \<times> nat \<times> dmsSegmentNode list) option" where
  "reserveLoop numPages [] = None"
| "reserveLoop numPages (node # ns) =
     (if nsize node \<ge> numPages
      then Some (nstart node, nsize node,
             (if nsize node = numPages then ns
              else DMS_SEGMENT_NODE_SET (nstart node + numPages) (nsize node - numPages) # ns))
      else (case reserveLoop numPages ns of
              None \<Rightarrow> None
            | Some (found, oldsize, ns') \<Rightarrow> Some (found, oldsize, node # ns')))"

definition seg_reservePages ::
  "nat \<Rightarrow> nat \<Rightarrow> dmsSegmentSpace \<Rightarrow> smeShared
    \<Rightarrow> rc \<times> dmsExtentID option \<times> dmsSegmentSpace \<times> smeShared" where
  "seg_reservePages numPages pos ss sh =
     (let sh1 = (if ss_totalFree ss = 0
                 then sh\<lparr>sh_freePos := compareAndSwap (sh_freePos sh) pos (u32 (int pos + 1))\<rparr>
                 else sh)
      in if numPages > ss_maxNode ss then (SDB_DMS_NOSPC, None, ss, sh1)
         else case reserveLoop numPages (ss_freeSpaceList ss) of
           None \<Rightarrow> (SDB_SYS, None, ss, sh1)
         | Some (found, oldsize, ns) \<Rightarrow>
             let foundPage = int found + ss_startExtent ss;
                 ss1 = ss\<lparr>ss_freeSpaceList := ns,
                          ss_totalFree := u16 (int (ss_totalFree ss) - int numPages)\<rparr>;
                 ss2 = (if oldsize = ss_maxNode ss then resetMax ss1 else ss1);
                 sh2 = sh1\<lparr>sh_pSME := setBits (u32 foundPage) numPages (sh_pSME sh1),
                           sh_totalFree := u32 (int (sh_totalFree sh1) - int numPages)\<rparr>
             in (SDB_OK, Some foundPage, ss2, sh2))"

text \<open>
  The loop of \<open>releasePages\<close>.  \<open>pre\<close> holds the nodes already passed, last first, so its
  head is \<open>*oldit\<close> and it is empty exactly when \<open>prevExist\<close> is false.  The result is the
  state at the \<open>break\<close>: the nodes passed, the node \<open>it1\<close>, the nodes after it, and \<open>newSize\<close>;
  or the overlap error.
\<close>

fun releaseLoop ::
  "nat \<Rightarrow> nat \<Rightarrow> dmsSegmentNode \<Rightarrow> dmsSegmentNode list \<Rightarrow> dmsSegmentNode list
    \<Rightarrow> (dmsSegmentNode list \<times> dmsSegmentNode \<times> dmsSegmentNode list \<times> nat) option" where
  "releaseLoop relaStart numPages newnode pre [] = Some (pre, newnode, [], numPages)"
| "releaseLoop relaStart numPages newnode pre (node # ns) =
     (if relaStart < nstart node
      then (if relaStart + numPages > nstart node then None
            else if relaStart + numPages = nstart node
                 then Some (pre, DMS_SEGMENT_NODE_SET relaStart (u16 (int (nsize node + numPages))),
                            ns, u16 (int (nsize node + numPages)))
                 else Some (pre, newnode, node # ns, numPages))
      else if relaStart = nstart node \<or> nend node > relaStart then None
      else releaseLoop relaStart numPages newnode (node # pre) ns)"

text \<open>
  The list part of \<open>releasePages\<close> between building \<open>newnode\<close> and the label \<open>done\<close>: return
  code, new list and new \<open>_maxNode\<close>.
\<close>

definition releaseList ::
  "nat \<Rightarrow> nat \<Rightarrow> dmsSegmentNode list \<Rightarrow> nat \<Rightarrow> rc \<times> dmsSegmentNode list \<times> nat" where
  "releaseList relaStart numPages ns mx =
     (let newnode = DMS_SEGMENT_NODE_SET relaStart numPages
      in if ns = [] then (SDB_OK, [newnode], numPages)
         else case releaseLoop relaStart numPages newnode [] ns of
           None \<Rightarrow> (SDB_SYS, ns, mx)
         | Some (pre, it1, suf, newSize) \<Rightarrow>
             let mx1 = (if newSize > mx then newSize else mx)
             in case pre of
                  [] \<Rightarrow> (SDB_OK, it1 # suf, mx1)
                | prevNode # ps \<Rightarrow>
                    if nend prevNode > relaStart
                    then (SDB_SYS, rev pre @ it1 # suf, mx1)
                    else if nend prevNode = relaStart
                    then (SDB_OK,
                          rev (DMS_SEGMENT_NODE_SETSIZE prevNode (newSize + nsize prevNode) # ps) @ suf,
                          if newSize + nsize prevNode > mx1 then u16 (int (newSize + nsize prevNode))
                          else mx1)
                    else (SDB_OK, rev pre @ it1 # suf, mx1))"

definition seg_releasePages ::
  "dmsExtentID \<Rightarrow> nat \<Rightarrow> bool \<Rightarrow> dmsSegmentSpace \<Rightarrow> smeShared
    \<Rightarrow> rc \<times> dmsSegmentSpace \<times> smeShared" where
  "seg_releasePages start numPages bitSet ss sh =
     (let relaStart = u16 (start - ss_startExtent ss);
          (rc, ns, mx) =
            (if start < ss_startExtent ss
                \<or> start + int numPages > ss_startExtent ss + int (ss_totalSize ss)
             then (SDB_SYS, ss_freeSpaceList ss, ss_maxNode ss)
             else if numPages = 0 then (SDB_OK, ss_freeSpaceList ss, ss_maxNode ss)
             else releaseList relaStart numPages (ss_freeSpaceList ss) (ss_maxNode ss));
          ss1 = ss\<lparr>ss_freeSpaceList := ns, ss_maxNode := mx\<rparr>
      in if rc \<noteq> SDB_OK then (rc, ss1, sh)
         else (rc, ss1\<lparr>ss_totalFree := u16 (int (ss_totalFree ss) + int numPages)\<rparr>,
               if bitSet
               then sh\<lparr>sh_pSME := freeBits (u32 start) numPages (sh_pSME sh),
                       sh_totalFree := u32 (int (sh_totalFree sh) + int numPages)\<rparr>
               else sh))"

section \<open>Nodes decode to what was packed\<close>

lemma mask_low16: "(0xFFFF :: 32 word) = mask 16"
  by (simp add: mask_eq_exp_minus_1)

lemma mask_high16: "(0xFFFF0000 :: 32 word) = NOT (mask 16)"
  by (simp add: mask_eq_exp_minus_1)

lemma word_of_nat_mod_16: "unat (take_bit 16 (word_of_nat z :: 32 word)) = z mod 65536"
proof -
  have "z mod 4294967296 mod 65536 = z mod 65536"
    by (rule mod_mod_cancel) simp
  then show ?thesis
    by (simp add: take_bit_eq_mod unat_mod unsigned_of_nat)
qed

lemma nsize_low: "DMS_SEGMENT_NODE_GETSIZE x = unat (take_bit 16 x)"
  by (simp only: DMS_SEGMENT_NODE_GETSIZE_def mask_low16 take_bit_eq_mask and.commute)

lemma nsize_less [simp]: "nsize x < 65536"
proof -
  have "unat (take_bit 16 x) = unat x mod 65536"
    by (simp add: take_bit_eq_mod unat_mod)
  then show ?thesis by (simp add: nsize_low)
qed

lemma nstart_less [simp]: "nstart x < 65536"
proof -
  have "unat (drop_bit 16 x) = unat x div 65536"
    by (simp add: drop_bit_eq_div unat_div)
  moreover have "unat x < 4294967296" using unsigned_less [of x] by simp
  ultimately show ?thesis by (simp add: DMS_SEGMENT_NODE_GETSTART_def)
qed

lemma nsize_SET [simp]: "nsize (DMS_SEGMENT_NODE_SET y z) = z mod 65536"
proof -
  have "take_bit 16 (DMS_SEGMENT_NODE_SET y z) = take_bit 16 (word_of_nat z)"
    by (rule bit_word_eqI) (auto simp: DMS_SEGMENT_NODE_SET_def mask_low16 bit_simps)
  then show ?thesis by (simp only: nsize_low word_of_nat_mod_16)
qed

lemma nstart_SET [simp]: "nstart (DMS_SEGMENT_NODE_SET y z) = y mod 65536"
proof -
  have "drop_bit 16 (DMS_SEGMENT_NODE_SET y z) = take_bit 16 (word_of_nat y)"
    by (rule bit_word_eqI) (auto simp: DMS_SEGMENT_NODE_SET_def mask_low16 bit_simps)
  then show ?thesis by (simp only: DMS_SEGMENT_NODE_GETSTART_def word_of_nat_mod_16)
qed

lemma nsize_SETSIZE [simp]: "nsize (DMS_SEGMENT_NODE_SETSIZE x y) = y mod 65536"
proof -
  have "take_bit 16 (DMS_SEGMENT_NODE_SETSIZE x y) = take_bit 16 (word_of_nat (u16 (int y)))"
    by (rule bit_word_eqI) (auto simp: DMS_SEGMENT_NODE_SETSIZE_def mask_high16 bit_simps)
  then show ?thesis
    by (simp only: nsize_low word_of_nat_mod_16) (simp add: u16_def nat_mod_distrib)
qed

lemma nstart_SETSIZE [simp]: "nstart (DMS_SEGMENT_NODE_SETSIZE x y) = nstart x"
proof -
  have "\<not> bit (u16 (int y)) n" if "16 \<le> n" for n
  proof -
    have "u16 (int y) = take_bit 16 (u16 (int y))"
      using u16_less [of "int y"] by (simp add: take_bit_eq_mod)
    with that show ?thesis by (metis bit_take_bit_iff not_le)
  qed
  then have "drop_bit 16 (DMS_SEGMENT_NODE_SETSIZE x y) = drop_bit 16 x"
    by (intro bit_word_eqI)
      (auto simp: DMS_SEGMENT_NODE_SETSIZE_def mask_high16 bit_simps dest: bit_imp_le_length)
  then show ?thesis by (simp only: DMS_SEGMENT_NODE_GETSTART_def)
qed

section \<open>Well-formed run lists\<close>

text \<open>
  \<open>chain lo hi ns\<close>: the runs are not empty, in ascending order, inside \<open>[lo, hi)\<close>, and two
  consecutive runs are separated by at least one page, so the list is fully merged.
\<close>

fun chain :: "nat \<Rightarrow> nat \<Rightarrow> dmsSegmentNode list \<Rightarrow> bool" where
  "chain lo hi [] \<longleftrightarrow> True"
| "chain lo hi (x # xs) \<longleftrightarrow>
     lo \<le> nstart x \<and> 0 < nsize x \<and> nend x \<le> hi \<and> chain (Suc (nend x)) hi xs"

definition run_pages :: "dmsSegmentNode list \<Rightarrow> nat set" where
  "run_pages ns = (\<Union>x \<in> set ns. {nstart x..<nend x})"

definition run_total :: "dmsSegmentNode list \<Rightarrow> nat" where
  "run_total ns = sum_list (map nsize ns)"

definition run_max :: "dmsSegmentNode list \<Rightarrow> nat" where
  "run_max ns = resetMaxLoop 0 ns"

lemma run_pages_simps [simp]:
  "run_pages [] = {}"
  "run_pages (x # xs) = {nstart x..<nend x} \<union> run_pages xs"
  "run_pages (xs @ ys) = run_pages xs \<union> run_pages ys"
  "run_pages (rev xs) = run_pages xs"
  by (auto simp: run_pages_def)

lemma run_total_simps [simp]:
  "run_total [] = 0"
  "run_total (x # xs) = nsize x + run_total xs"
  "run_total (xs @ ys) = run_total xs + run_total ys"
  by (auto simp: run_total_def)

lemma resetMaxLoop_max: "resetMaxLoop mx ns = max mx (run_max ns)"
  unfolding run_max_def
proof (induction ns arbitrary: mx)
  case Nil
  show ?case by simp
next
  case (Cons x xs)
  have "resetMaxLoop mx (x # xs) = resetMaxLoop (max mx (nsize x)) xs"
    by (simp add: max_def)
  also have "\<dots> = max (max mx (nsize x)) (resetMaxLoop 0 xs)" by (rule Cons.IH)
  also have "\<dots> = max mx (resetMaxLoop (nsize x) xs)"
    using Cons.IH [of "nsize x"] by simp
  finally show ?case by (simp add: max_def)
qed

lemma run_max_simps [simp]:
  "run_max [] = 0"
  "run_max (x # xs) = max (nsize x) (run_max xs)"
  using resetMaxLoop_max [of "nsize x" xs] by (simp_all add: run_max_def)

lemma run_max_append [simp]: "run_max (xs @ ys) = max (run_max xs) (run_max ys)"
  by (induction xs) auto

lemma run_max_rev [simp]: "run_max (rev xs) = run_max xs"
  by (induction xs) (auto simp: max.commute)

lemma run_max_le_total: "run_max ns \<le> run_total ns"
  by (induction ns) auto

lemma run_max_attained: "ns \<noteq> [] \<Longrightarrow> \<exists>x \<in> set ns. nsize x = run_max ns"
proof (induction ns)
  case (Cons x xs)
  then show ?case by (cases "xs = []") (auto simp: max_def)
qed simp

lemma nsize_le_run_max: "x \<in> set ns \<Longrightarrow> nsize x \<le> run_max ns"
  by (induction ns) auto

lemma chain_weaken: "chain lo hi ns \<Longrightarrow> lo' \<le> lo \<Longrightarrow> chain lo' hi ns"
  by (cases ns) auto

lemma chain_bounds: "chain lo hi ns \<Longrightarrow> p \<in> run_pages ns \<Longrightarrow> lo \<le> p \<and> p < hi"
  by (induction ns arbitrary: lo) force+

lemma chain_append:
  "chain lo hi (xs @ ys) \<longleftrightarrow>
     chain lo hi xs \<and> chain (if xs = [] then lo else Suc (nend (last xs))) hi ys"
  by (induction xs arbitrary: lo) auto

lemma finite_run_pages [simp]: "finite (run_pages ns)"
  by (simp add: run_pages_def)

lemma card_run_pages: "chain lo hi ns \<Longrightarrow> card (run_pages ns) = run_total ns"
proof (induction ns arbitrary: lo)
  case Nil
  show ?case by simp
next
  case (Cons x xs)
  then have rest: "chain (Suc (nend x)) hi xs" by simp
  then have "{nstart x..<nend x} \<inter> run_pages xs = {}"
    by (auto dest: chain_bounds)
  then show ?case
    using Cons.IH [OF rest] by (simp add: card_Un_disjoint)
qed

lemma run_total_le: "chain lo hi ns \<Longrightarrow> run_total ns \<le> hi - lo"
proof -
  assume c: "chain lo hi ns"
  then have "run_pages ns \<subseteq> {lo..<hi}" by (auto dest: chain_bounds)
  then have "card (run_pages ns) \<le> card {lo..<hi}" by (rule card_mono [rotated]) simp
  with c show ?thesis by (simp add: card_run_pages)
qed

lemma run_total_zero_iff: "chain lo hi ns \<Longrightarrow> run_total ns = 0 \<longleftrightarrow> ns = []"
  by (cases ns) auto

text \<open>Any block of consecutive free pages lies inside one run, since the runs are merged.\<close>

lemma chain_gap: "chain lo hi (x # xs) \<Longrightarrow> nend x \<notin> run_pages (x # xs)"
  by (auto dest: chain_bounds)

lemma block_in_one_run:
  assumes "chain lo hi ns" and "0 < n" and "{p..<p + n} \<subseteq> run_pages ns"
  shows "\<exists>x \<in> set ns. nstart x \<le> p \<and> p + n \<le> nend x"
  using assms
proof (induction ns arbitrary: lo)
  case Nil
  then show ?case by simp
next
  case (Cons x xs)
  have gap: "nend x \<notin> run_pages (x # xs)" using Cons.prems(1) by (rule chain_gap)
  have p_in: "p \<in> run_pages (x # xs)" using Cons.prems(2,3) by force
  show ?case
  proof (cases "p < nend x")
    case True
    with p_in Cons.prems(1) have "nstart x \<le> p" by (auto dest: chain_bounds)
    moreover have "p + n \<le> nend x"
    proof (rule ccontr)
      assume "\<not> p + n \<le> nend x"
      with True have "nend x \<in> {p..<p + n}" by simp
      with Cons.prems(3) gap show False by blast
    qed
    ultimately show ?thesis by auto
  next
    case False
    with Cons.prems(3) have "{p..<p + n} \<subseteq> run_pages xs" by auto
    moreover have "chain (Suc (nend x)) hi xs" using Cons.prems(1) by simp
    ultimately show ?thesis using Cons.IH Cons.prems(2) by auto
  qed
qed

section \<open>Taking pages from a run list\<close>

lemma reserveLoop_None: "reserveLoop n ns = None \<longleftrightarrow> run_max ns < n \<or> ns = []"
  by (induction ns) (auto split: option.splits)

lemma reserveLoop_Some:
  assumes "reserveLoop n ns = Some (f, old, ns')" and "chain lo hi ns" and "hi \<le> 65535" and "0 < n"
  shows "chain lo hi ns' \<and> {f..<f + n} \<subseteq> run_pages ns
    \<and> run_pages ns' = run_pages ns - {f..<f + n}
    \<and> run_total ns = run_total ns' + n
    \<and> n \<le> old \<and> old \<le> run_max ns \<and> max old (run_max ns') = run_max ns"
  using assms
proof (induction ns arbitrary: lo f old ns')
  case Nil
  then show ?case by simp
next
  case (Cons x xs)
  have rest: "chain (Suc (nend x)) hi xs" using Cons.prems(2) by simp
  have later: "p \<notin> run_pages xs" if "p < Suc (nend x)" for p
    using chain_bounds [OF rest] that by (meson leD)
  show ?case
  proof (cases "nsize x \<ge> n")
    case True
    then have f: "f = nstart x" and old: "old = nsize x" using Cons.prems(1) by auto
    have pages: "{f..<f + n} \<subseteq> run_pages (x # xs)" using True f by auto
    show ?thesis
    proof (cases "nsize x = n")
      case eq: True
      then have "ns' = xs" using Cons.prems(1) by auto
      moreover have "run_pages xs = run_pages (x # xs) - {f..<f + n}"
        using later eq f by auto
      ultimately show ?thesis
        using rest Cons.prems(2) pages eq old by (auto elim: chain_weaken)
    next
      case ne: False
      let ?y = "DMS_SEGMENT_NODE_SET (nstart x + n) (nsize x - n)"
      have ns': "ns' = ?y # xs" using True ne Cons.prems(1) by auto
      have y: "nstart ?y = nstart x + n" "nsize ?y = nsize x - n"
        using Cons.prems(2,3) True by auto
      have "run_pages ns' = run_pages (x # xs) - {f..<f + n}"
        using later f True unfolding ns' by (auto simp: y simp del: nstart_SET nsize_SET)
      then show ?thesis
        using Cons.prems(2) pages True ne old rest unfolding ns' by (auto simp: y simp del: nstart_SET nsize_SET)
    qed
  next
    case False
    then obtain ys where loop: "reserveLoop n xs = Some (f, old, ys)" and ns': "ns' = x # ys"
      using Cons.prems(1) by (auto split: option.splits)
    note IH = Cons.IH [OF loop rest Cons.prems(3,4)]
    then have "{f..<f + n} \<subseteq> run_pages xs" by simp
    then have "{f..<f + n} \<inter> {nstart x..<nend x} = {}" using later by fastforce
    then show ?thesis
      using IH Cons.prems(2) False unfolding ns' by auto
  qed
qed

section \<open>Putting pages back\<close>

lemma releaseLoop_None:
  "chain lo hi ns \<Longrightarrow> 0 < n \<Longrightarrow>
   releaseLoop rs n nn pre ns = None \<longleftrightarrow> {rs..<rs + n} \<inter> run_pages ns \<noteq> {}"
proof (induction ns arbitrary: lo pre)
  case Nil
  show ?case by simp
next
  case (Cons x xs)
  have rest: "chain (Suc (nend x)) hi xs" and pos: "0 < nsize x" using Cons.prems(1) by auto
  have later: "p \<notin> run_pages xs" if "p < Suc (nend x)" for p
    using chain_bounds [OF rest] that by (meson leD)
  consider (before) "rs < nstart x" "rs + n \<le> nstart x"
    | (over) "rs < nstart x" "nstart x < rs + n"
    | (inside) "nstart x \<le> rs" "rs < nend x"
    | (after) "nend x \<le> rs" by linarith
  then show ?case
  proof cases
    case before
    then have "{rs..<rs + n} \<inter> run_pages (x # xs) = {}" using later by fastforce
    with before show ?thesis by simp
  next
    case over
    then have "nstart x \<in> {rs..<rs + n} \<inter> run_pages (x # xs)" using pos by simp
    with over show ?thesis by (metis empty_iff releaseLoop.simps(2))
  next
    case inside
    then have "rs \<in> {rs..<rs + n} \<inter> run_pages (x # xs)" using Cons.prems(2) by simp
    with inside show ?thesis by (metis empty_iff releaseLoop.simps(2) not_le)
  next
    case after
    then have "{rs..<rs + n} \<inter> run_pages (x # xs) = {rs..<rs + n} \<inter> run_pages xs" by auto
    with after pos show ?thesis using Cons.IH [OF rest Cons.prems(2)] by simp
  qed
qed

lemma releaseLoop_Some:
  assumes "releaseLoop rs n nn pre ns = Some (pre', it1, suf, newSize)"
  shows "\<exists>mid. pre' = rev mid @ pre \<and> (\<forall>x \<in> set mid. nend x \<le> rs) \<and>
    ((ns = mid \<and> it1 = nn \<and> suf = [] \<and> newSize = n)
     \<or> (\<exists>x. ns = mid @ x # suf \<and> rs + n = nstart x \<and> newSize = u16 (int (nsize x + n))
          \<and> it1 = DMS_SEGMENT_NODE_SET rs newSize)
     \<or> (\<exists>x xs. ns = mid @ x # xs \<and> suf = x # xs \<and> rs + n < nstart x \<and> it1 = nn \<and> newSize = n))"
  using assms
proof (induction ns arbitrary: pre)
  case Nil
  then show ?case by simp
next
  case (Cons x xs)
  show ?case
  proof (cases "rs < nstart x")
    case True
    with Cons.prems show ?thesis by (intro exI [of _ "[]"]) (auto split: if_splits)
  next
    case False
    with Cons.prems have loop: "releaseLoop rs n nn (x # pre) xs = Some (pre', it1, suf, newSize)"
      and "nend x \<le> rs" by (auto split: if_splits)
    from Cons.IH [OF loop] obtain mid where mid:
      "pre' = rev mid @ x # pre" "\<forall>y \<in> set mid. nend y \<le> rs"
      "(xs = mid \<and> it1 = nn \<and> suf = [] \<and> newSize = n)
       \<or> (\<exists>x. xs = mid @ x # suf \<and> rs + n = nstart x \<and> newSize = u16 (int (nsize x + n))
            \<and> it1 = DMS_SEGMENT_NODE_SET rs newSize)
       \<or> (\<exists>x ys. xs = mid @ x # ys \<and> suf = x # ys \<and> rs + n < nstart x \<and> it1 = nn
            \<and> newSize = n)"
      by blast
    with \<open>nend x \<le> rs\<close> show ?thesis by (intro exI [of _ "x # mid"]) auto
  qed
qed

text \<open>
  What the loop leaves when the released block does not touch a free run: the runs before
  the block, the run \<open>it1\<close> that holds it (already merged with its right neighbour where they
  meet), and the runs after it.
\<close>

lemma releaseLoop_splice:
  assumes c: "chain 0 hi ns" and hi: "hi \<le> 65535" and n: "0 < n" and fits: "rs + n \<le> hi"
    and loop: "releaseLoop rs n (DMS_SEGMENT_NODE_SET rs n) [] ns = Some (pre', it1, suf, newSize)"
  obtains mid where "pre' = rev mid" and "\<forall>x \<in> set mid. nend x \<le> rs"
    and "nstart it1 = rs" and "nsize it1 = newSize" and "0 < newSize" and "rs + newSize \<le> hi"
    and "chain 0 hi mid" and "chain (Suc (rs + newSize)) hi suf"
    and "run_pages ns \<union> {rs..<rs + n} = run_pages mid \<union> {rs..<rs + newSize} \<union> run_pages suf"
    and "run_total ns + n = run_total mid + newSize + run_total suf"
    and "max newSize (run_max ns) = max (run_max mid) (max newSize (run_max suf))"
proof -
  let ?nn = "DMS_SEGMENT_NODE_SET rs n"
  have nn: "nstart ?nn = rs" "nsize ?nn = n" using hi fits n by auto
  obtain mid where pre': "pre' = rev mid @ []" and passed: "\<forall>x \<in> set mid. nend x \<le> rs"
    and cases: "(ns = mid \<and> it1 = ?nn \<and> suf = [] \<and> newSize = n)
     \<or> (\<exists>x. ns = mid @ x # suf \<and> rs + n = nstart x \<and> newSize = u16 (int (nsize x + n))
          \<and> it1 = DMS_SEGMENT_NODE_SET rs newSize)
     \<or> (\<exists>x xs. ns = mid @ x # xs \<and> suf = x # xs \<and> rs + n < nstart x \<and> it1 = ?nn \<and> newSize = n)"
    using releaseLoop_Some [OF loop] by (elim exE conjE)
  from cases show thesis
  proof (elim disjE exE conjE)
    assume "ns = mid" "it1 = ?nn" "suf = []" "newSize = n"
    with c nn n fits pre' passed show thesis
      by (intro that [of mid]) (simp_all del: nstart_SET nsize_SET)
  next
    fix x
    assume b: "ns = mid @ x # suf" "rs + n = nstart x" "newSize = u16 (int (nsize x + n))"
      "it1 = DMS_SEGMENT_NODE_SET rs newSize"
    then have x: "nend x \<le> hi" "0 < nsize x" "chain (Suc (nend x)) hi suf" "chain 0 hi mid"
      using c by (simp_all add: chain_append)
    have sz: "newSize = nsize x + n" using b x hi by (simp add: cast_simps)
    then have "chain (Suc (rs + newSize)) hi suf"
      using x(3) b(2) by (metis add.assoc add.commute)
    with sz b(1,2,4) x hi n pre' passed show thesis
      by (intro that [of mid]) auto
  next
    fix x xs
    assume b: "ns = mid @ x # xs" "suf = x # xs" "rs + n < nstart x" "it1 = ?nn" "newSize = n"
    with c nn n fits pre' passed show thesis
      by (intro that [of mid]) (auto simp: chain_append simp del: nstart_SET nsize_SET)
  qed
qed

lemma releaseList_disjoint:
  assumes c: "chain 0 hi ns" and hi: "hi \<le> 65535" and n: "0 < n" and fits: "rs + n \<le> hi"
    and free: "{rs..<rs + n} \<inter> run_pages ns = {}"
  shows "\<exists>ns'. releaseList rs n ns (run_max ns) = (SDB_OK, ns', run_max ns')
    \<and> chain 0 hi ns' \<and> run_pages ns' = run_pages ns \<union> {rs..<rs + n}
    \<and> run_total ns' = run_total ns + n"
proof (cases "ns = []")
  case True
  with hi fits n show ?thesis by (auto simp: releaseList_def)
next
  case nonempty: False
  let ?nn = "DMS_SEGMENT_NODE_SET rs n"
  obtain pre' it1 suf newSize
    where loop: "releaseLoop rs n ?nn [] ns = Some (pre', it1, suf, newSize)"
    using releaseLoop_None [OF c n] free by (metis not_None_eq prod_cases4)
  obtain mid where pre': "pre' = rev mid" and passed: "\<forall>x \<in> set mid. nend x \<le> rs"
    and it1: "nstart it1 = rs" "nsize it1 = newSize" "0 < newSize" "rs + newSize \<le> hi"
    and mid_c: "chain 0 hi mid" and suf_c: "chain (Suc (rs + newSize)) hi suf"
    and pages: "run_pages ns \<union> {rs..<rs + n} = run_pages mid \<union> {rs..<rs + newSize} \<union> run_pages suf"
    and total: "run_total ns + n = run_total mid + newSize + run_total suf"
    and mx: "max newSize (run_max ns) = max (run_max mid) (max newSize (run_max suf))"
    by (rule releaseLoop_splice [OF c hi n fits loop])
  show ?thesis
  proof (cases "mid = [] \<or> nend (last mid) \<noteq> rs")
    case True
    then have "mid \<noteq> [] \<longrightarrow> nend (last mid) < rs" using passed by (auto simp: less_le)
    then have "chain 0 hi (mid @ it1 # suf)"
      using mid_c suf_c it1 by (auto simp: chain_append)
    moreover have "releaseList rs n ns (run_max ns) =
        (SDB_OK, mid @ it1 # suf, max newSize (run_max ns))"
      using nonempty loop True passed
      by (cases mid rule: rev_cases) (auto simp: releaseList_def pre' Let_def max_def)
    ultimately show ?thesis using pages total mx it1 by auto
  next
    case False
    then obtain ms p where mid: "mid = ms @ [p]" and p: "nend p = rs"
      by (cases mid rule: rev_cases) auto
    let ?q = "DMS_SEGMENT_NODE_SETSIZE p (newSize + nsize p)"
    have q: "nsize ?q = newSize + nsize p" using it1(4) hi p by simp
    have pc: "chain 0 hi ms" "0 < nsize p" "chain (if ms = [] then 0 else Suc (nend (last ms))) hi [p]"
      using mid_c mid by (auto simp: chain_append)
    have "chain 0 hi (ms @ ?q # suf)"
      using pc suf_c it1 p by (auto simp: chain_append q add.commute add.left_commute
          simp del: nsize_SETSIZE)
    moreover have "releaseList rs n ns (run_max ns) =
        (SDB_OK, ms @ ?q # suf, max (newSize + nsize p) (run_max ns))"
      using nonempty loop p it1(4) hi
      by (auto simp: releaseList_def pre' mid Let_def max_def cast_simps simp del: nsize_SETSIZE)
    moreover have "run_max (ms @ ?q # suf) = max (newSize + nsize p) (run_max ns)"
      using mx mid by (simp add: q del: nsize_SETSIZE)
    moreover have "run_pages (ms @ ?q # suf) = run_pages ns \<union> {rs..<rs + n}"
    proof -
      have "{nstart ?q..<nend ?q} = {nstart p..<nend p} \<union> {rs..<rs + newSize}"
        using p by (auto simp: q simp del: nsize_SETSIZE)
      then show ?thesis using pages mid by auto
    qed
    moreover have "run_total (ms @ ?q # suf) = run_total ns + n"
      using total mid by (simp add: q del: nsize_SETSIZE)
    ultimately show ?thesis by metis
  qed
qed

lemma releaseList_overlap:
  assumes c: "chain 0 hi ns" and n: "0 < n" and "{rs..<rs + n} \<inter> run_pages ns \<noteq> {}"
  shows "releaseList rs n ns mx = (SDB_SYS, ns, mx)"
proof -
  have "releaseLoop rs n (DMS_SEGMENT_NODE_SET rs n) [] ns = None"
    using releaseLoop_None [OF c n] assms(3) by metis
  then show ?thesis using assms(3) by (cases ns) (simp_all add: releaseList_def Let_def)
qed

section \<open>Invariant and contract of the segment space\<close>

definition seg_inv :: "dmsSegmentSpace \<Rightarrow> bool" where
  "seg_inv ss \<longleftrightarrow>
     chain 0 (ss_totalSize ss) (ss_freeSpaceList ss) \<and> ss_totalSize ss \<le> 65535
     \<and> ss_maxNode ss = run_max (ss_freeSpaceList ss)
     \<and> ss_totalFree ss = run_total (ss_freeSpaceList ss)
     \<and> 0 \<le> ss_startExtent ss \<and> ss_startExtent ss + int (ss_totalSize ss) < 2147483648"

definition seg_free :: "dmsSegmentSpace \<Rightarrow> int set" where
  "seg_free ss = (\<lambda>p. ss_startExtent ss + int p) ` run_pages (ss_freeSpaceList ss)"

text \<open>\<open>pageRun p n\<close>: the \<open>n\<close> pages from \<open>p\<close> on.\<close>

abbreviation pageRun :: "int \<Rightarrow> nat \<Rightarrow> int set" where
  "pageRun p n \<equiv> {p..<p + int n}"

lemma pageRun_image: "(\<lambda>p. a + int p) ` {f..<f + n} = pageRun (a + int f) n"
proof -
  have "(\<lambda>p. a + int p) ` {f..<f + n} = (+) a ` int ` {f..<f + n}" by (simp add: image_image)
  then show ?thesis by (simp add: image_int_atLeastLessThan algebra_simps)
qed

lemma shift_inj: "inj (\<lambda>p. (a::int) + int p)"
  by (simp add: inj_on_def)

lemma seg_free_bounds:
  assumes "seg_inv ss" and "p \<in> seg_free ss"
  shows "ss_startExtent ss \<le> p \<and> p < ss_startExtent ss + int (ss_totalSize ss)"
  using assms chain_bounds by (force simp: seg_inv_def seg_free_def)

lemma seg_inv_chain: "seg_inv ss \<Longrightarrow> chain 0 (ss_totalSize ss) (ss_freeSpaceList ss)"
  by (simp add: seg_inv_def)

lemma card_seg_free: "seg_inv ss \<Longrightarrow> card (seg_free ss) = ss_totalFree ss"
  using card_run_pages [OF seg_inv_chain, of ss]
  by (simp add: seg_inv_def seg_free_def card_image [OF inj_on_subset [OF shift_inj]])

lemma finite_seg_free [simp]: "finite (seg_free ss)"
  by (simp add: seg_free_def)

lemma seg_inv_new:
  "n \<le> 65535 \<Longrightarrow> 0 \<le> start \<Longrightarrow> start + int n < 2147483648 \<Longrightarrow> seg_inv (dmsSegmentSpace_new start n)"
  by (simp add: seg_inv_def dmsSegmentSpace_new_def)

lemma seg_free_new [simp]: "seg_free (dmsSegmentSpace_new start n) = {}"
  by (simp add: seg_free_def dmsSegmentSpace_new_def)

lemma seg_full_iff: "seg_inv ss \<Longrightarrow> ss_totalFree ss = 0 \<longleftrightarrow> seg_free ss = {}"
  using card_seg_free [of ss] by auto

text \<open>A request is refused exactly when no block of that many free pages exists.\<close>

lemma run_max_block:
  assumes "chain lo hi ns" and "0 < n"
  shows "n \<le> run_max ns \<longleftrightarrow> (\<exists>p. {p..<p + n} \<subseteq> run_pages ns)"
proof
  assume le: "n \<le> run_max ns"
  with assms(2) have "ns \<noteq> []" by auto
  then obtain x where "x \<in> set ns" and "nsize x = run_max ns" using run_max_attained by blast
  with le have "{nstart x..<nstart x + n} \<subseteq> run_pages ns" by (auto simp: run_pages_def)
  then show "\<exists>p. {p..<p + n} \<subseteq> run_pages ns" ..
next
  assume "\<exists>p. {p..<p + n} \<subseteq> run_pages ns"
  then obtain p where "{p..<p + n} \<subseteq> run_pages ns" ..
  from block_in_one_run [OF assms this] obtain x
    where "x \<in> set ns" and "nstart x \<le> p" and "p + n \<le> nend x" by auto
  then show "n \<le> run_max ns" using nsize_le_run_max [of x ns] by linarith
qed

lemma seg_block_iff:
  assumes inv: "seg_inv ss" and n: "0 < n"
  shows "n \<le> ss_maxNode ss \<longleftrightarrow> (\<exists>p. pageRun p n \<subseteq> seg_free ss)"
proof
  assume "n \<le> ss_maxNode ss"
  then obtain q where "{q..<q + n} \<subseteq> run_pages (ss_freeSpaceList ss)"
    using run_max_block [OF seg_inv_chain [OF inv] n] inv by (auto simp: seg_inv_def)
  then have "pageRun (ss_startExtent ss + int q) n \<subseteq> seg_free ss"
    unfolding seg_free_def by (metis image_mono pageRun_image)
  then show "\<exists>p. pageRun p n \<subseteq> seg_free ss" ..
next
  assume "\<exists>p. pageRun p n \<subseteq> seg_free ss"
  then obtain p where p: "pageRun p n \<subseteq> seg_free ss" ..
  then have "p \<in> seg_free ss" using n by auto
  then obtain q where q: "p = ss_startExtent ss + int q" by (auto simp: seg_free_def)
  have "{q..<q + n} \<subseteq> run_pages (ss_freeSpaceList ss)"
    using p inj_image_subset_iff [OF shift_inj] unfolding q seg_free_def
    by (metis pageRun_image)
  then have "n \<le> run_max (ss_freeSpaceList ss)"
    using run_max_block [OF seg_inv_chain [OF inv] n] by blast
  with inv show "n \<le> ss_maxNode ss" by (simp add: seg_inv_def)
qed

lemma seg_reservePages_granted:
  assumes inv: "seg_inv ss" and n: "0 < n" and le: "n \<le> ss_maxNode ss"
  obtains p ss' where
    "seg_reservePages n pos ss sh = (SDB_OK, Some p, ss',
       sh\<lparr>sh_pSME := setBits (nat p) n (sh_pSME sh),
          sh_totalFree := u32 (int (sh_totalFree sh) - int n)\<rparr>)"
    and "seg_inv ss'" and "pageRun p n \<subseteq> seg_free ss" and "seg_free ss' = seg_free ss - pageRun p n"
    and "ss_startExtent ss' = ss_startExtent ss" and "ss_totalSize ss' = ss_totalSize ss"
    and "ss_totalFree ss = ss_totalFree ss' + n"
proof -
  let ?ns = "ss_freeSpaceList ss"
  have c: "chain 0 (ss_totalSize ss) ?ns" and hi: "ss_totalSize ss \<le> 65535"
    and mx: "ss_maxNode ss = run_max ?ns" and tot: "ss_totalFree ss = run_total ?ns"
    using inv by (simp_all add: seg_inv_def)
  have "reserveLoop n ?ns \<noteq> None" using le mx n by (auto simp: reserveLoop_None)
  then obtain f old ns' where loop: "reserveLoop n ?ns = Some (f, old, ns')" by auto
  note L = reserveLoop_Some [OF loop c hi n]
  define p where "p = int f + ss_startExtent ss"
  define ss' where "ss' = ss\<lparr>ss_freeSpaceList := ns', ss_totalFree := run_total ns',
    ss_maxNode := run_max ns'\<rparr>"
  have run: "pageRun p n = (\<lambda>q. ss_startExtent ss + int q) ` {f..<f + n}"
    by (simp add: pageRun_image p_def add.commute)
  have "f \<in> run_pages ?ns" using L n by force
  then have "f < ss_totalSize ss" using chain_bounds [OF c] by blast
  then have p32: "u32 p = nat p" using inv by (simp add: p_def seg_inv_def cast_simps)
  have tf: "u16 (int (ss_totalFree ss) - int n) = run_total ns'"
    using L tot hi run_total_le [OF c] by (simp add: cast_simps)
  have "ss_totalFree ss \<noteq> 0" using le n run_max_le_total [of ?ns] mx tot by auto
  moreover have "(if old = ss_maxNode ss then resetMaxLoop 0 ns' else ss_maxNode ss) = run_max ns'"
    using L mx by (auto simp: run_max_def max_def split: if_splits)
  ultimately have "seg_reservePages n pos ss sh = (SDB_OK, Some p, ss',
      sh\<lparr>sh_pSME := setBits (nat p) n (sh_pSME sh),
         sh_totalFree := u32 (int (sh_totalFree sh) - int n)\<rparr>)"
    using le loop p32
    by (auto simp: seg_reservePages_def Let_def p_def ss'_def resetMax_def tf split: if_splits)
  moreover have "seg_inv ss'" using L inv by (simp add: ss'_def seg_inv_def)
  moreover have "pageRun p n \<subseteq> seg_free ss" using L unfolding run seg_free_def by blast
  moreover have "seg_free ss' = seg_free ss - pageRun p n"
    using L unfolding run seg_free_def ss'_def by (simp add: image_set_diff [OF shift_inj])
  moreover have "ss_startExtent ss' = ss_startExtent ss" "ss_totalSize ss' = ss_totalSize ss"
    "ss_totalFree ss = ss_totalFree ss' + n"
    using L tot by (simp_all add: ss'_def)
  ultimately show thesis by (rule that)
qed

lemma seg_reservePages_refused:
  "ss_maxNode ss < n \<Longrightarrow> seg_reservePages n pos ss sh = (SDB_DMS_NOSPC, None, ss,
     if ss_totalFree ss = 0
     then sh\<lparr>sh_freePos := compareAndSwap (sh_freePos sh) pos (u32 (int pos + 1))\<rparr> else sh)"
  by (simp add: seg_reservePages_def)

lemma pageRun_segment:
  assumes "seg_inv ss" and "pageRun p n \<subseteq> seg_free ss" and "0 < n"
  shows "ss_startExtent ss \<le> p \<and> p + int n \<le> ss_startExtent ss + int (ss_totalSize ss)"
proof -
  have "p \<in> seg_free ss" and "p + int n - 1 \<in> seg_free ss" using assms(2,3) by auto
  then show ?thesis using seg_free_bounds [OF assms(1)] by fastforce
qed

lemma seg_releasePages_ok:
  assumes inv: "seg_inv ss" and lo: "ss_startExtent ss \<le> p"
    and hi: "p + int n \<le> ss_startExtent ss + int (ss_totalSize ss)"
    and disj: "pageRun p n \<inter> seg_free ss = {}"
  obtains ss' where
    "seg_releasePages p n b ss sh = (SDB_OK, ss',
       if b then sh\<lparr>sh_pSME := freeBits (nat p) n (sh_pSME sh),
                    sh_totalFree := u32 (int (sh_totalFree sh) + int n)\<rparr> else sh)"
    and "seg_inv ss'" and "seg_free ss' = seg_free ss \<union> pageRun p n"
    and "ss_startExtent ss' = ss_startExtent ss" and "ss_totalSize ss' = ss_totalSize ss"
    and "ss_totalFree ss' = ss_totalFree ss + n"
proof -
  let ?ns = "ss_freeSpaceList ss"
  have c: "chain 0 (ss_totalSize ss) ?ns" and size: "ss_totalSize ss \<le> 65535"
    and mx: "ss_maxNode ss = run_max ?ns" and tot: "ss_totalFree ss = run_total ?ns"
    using inv by (simp_all add: seg_inv_def)
  define rs where "rs = nat (p - ss_startExtent ss)"
  have p: "p = ss_startExtent ss + int rs" using lo by (simp add: rs_def)
  have fits: "rs + n \<le> ss_totalSize ss" using hi p by linarith
  have rs16: "u16 (p - ss_startExtent ss) = rs"
    using fits size p by (simp add: cast_simps)
  have p32: "u32 p = nat p" using inv fits p by (simp add: seg_inv_def cast_simps)
  have run: "pageRun p n = (\<lambda>q. ss_startExtent ss + int q) ` {rs..<rs + n}"
    by (simp add: pageRun_image p)
  have free: "{rs..<rs + n} \<inter> run_pages ?ns = {}"
    using disj unfolding run seg_free_def by (simp add: image_Int [OF shift_inj, symmetric])
  obtain ns' where
    upd: "n \<noteq> 0 \<Longrightarrow> releaseList rs n ?ns (ss_maxNode ss) = (SDB_OK, ns', run_max ns')"
      "n = 0 \<Longrightarrow> ns' = ?ns"
    and L: "chain 0 (ss_totalSize ss) ns'" "run_pages ns' = run_pages ?ns \<union> {rs..<rs + n}"
      "run_total ns' = run_total ?ns + n"
  proof (cases "n = 0")
    case True
    with c that [of ?ns] show thesis by simp
  next
    case False
    with releaseList_disjoint [OF c size _ fits free] mx that show thesis by auto
  qed
  define ss' where "ss' = ss\<lparr>ss_freeSpaceList := ns', ss_maxNode := run_max ns',
    ss_totalFree := run_total ns'\<rparr>"
  have "u16 (int (ss_totalFree ss) + int n) = run_total ns'"
    using L tot size run_total_le [OF L(1)] by (simp add: u16_def)
  then have "seg_releasePages p n b ss sh = (SDB_OK, ss',
       if b then sh\<lparr>sh_pSME := freeBits (nat p) n (sh_pSME sh),
                    sh_totalFree := u32 (int (sh_totalFree sh) + int n)\<rparr> else sh)"
    using lo hi upd mx p32 by (auto simp: seg_releasePages_def Let_def rs16 ss'_def)
  moreover have "seg_inv ss'" using L inv by (simp add: ss'_def seg_inv_def)
  moreover have "seg_free ss' = seg_free ss \<union> pageRun p n"
    using L unfolding run seg_free_def ss'_def by (simp add: image_Un)
  moreover have "ss_startExtent ss' = ss_startExtent ss" "ss_totalSize ss' = ss_totalSize ss"
    "ss_totalFree ss' = ss_totalFree ss + n"
    using L tot by (simp_all add: ss'_def)
  ultimately show thesis by (rule that)
qed

text \<open>
  Releasing a page that is already free is detected: the call fails and nothing changes.
\<close>

lemma seg_releasePages_overlap:
  assumes inv: "seg_inv ss" and overlap: "pageRun p n \<inter> seg_free ss \<noteq> {}"
  shows "seg_releasePages p n b ss sh = (SDB_SYS, ss, sh)"
proof (cases "ss_startExtent ss \<le> p \<and> p + int n \<le> ss_startExtent ss + int (ss_totalSize ss)")
  case True
  define rs where "rs = nat (p - ss_startExtent ss)"
  have p: "p = ss_startExtent ss + int rs" using True by (simp add: rs_def)
  have rs16: "u16 (p - ss_startExtent ss) = rs"
    using True inv p by (simp add: seg_inv_def cast_simps)
  have run: "pageRun p n = (\<lambda>q. ss_startExtent ss + int q) ` {rs..<rs + n}"
    by (simp add: pageRun_image p)
  have "{rs..<rs + n} \<inter> run_pages (ss_freeSpaceList ss) \<noteq> {}"
    using overlap unfolding run seg_free_def by (simp add: image_Int [OF shift_inj, symmetric])
  moreover from overlap have "0 < n" by auto
  ultimately have "releaseList rs n (ss_freeSpaceList ss) (ss_maxNode ss) =
      (SDB_SYS, ss_freeSpaceList ss, ss_maxNode ss)"
    using releaseList_overlap [OF seg_inv_chain [OF inv]] by blast
  then show ?thesis using True \<open>0 < n\<close> by (simp add: seg_releasePages_def rs16)
next
  case False
  then show ?thesis by (auto simp: seg_releasePages_def)
qed

end
