(* ===== verification/Dms_SMEMgr.thy ===== *)
theory Dms_SMEMgr
  imports Dms_SegmentSpace
begin

text \<open>
  The page allocator of a storage unit (\<open>_dmsSMEMgr\<close> in \<open>dmsSMEMgr.cpp\<close>): one segment
  space per data segment, the number of free pages, and \<open>_freePos\<close>, the first segment that
  may hold a free page.  The operations are \<open>init\<close> (rebuild everything from the bitmap),
  \<open>reservePages\<close>, \<open>releasePages\<close> and \<open>depositASegment\<close>.  The storage unit's
  \<open>segmentPagesSquareRoot\<close> is the argument \<open>sq\<close>, so a segment has \<open>2 ^ sq\<close> pages.  The result
  of \<open>new\<close> is the argument \<open>newOk\<close>.  The main results: the free pages of the manager are
  exactly the clear bits of the bitmap, every operation keeps that, \<open>reservePages\<close> finds a
  block whenever some segment has one, and the manager implements the allocator interface
  \<open>page_allocator\<close> of this theory.
\<close>

section \<open>State and operations\<close>

record dmsSMEMgr =
  mgr_segments :: "dmsSegmentSpace list"
  mgr_shared :: smeShared

definition smeMgr_new :: "sme \<Rightarrow> dmsSMEMgr" where
  "smeMgr_new pSME =
     \<lparr> mgr_segments = [], mgr_shared = \<lparr> sh_pSME = pSME, sh_totalFree = 0, sh_freePos = 0 \<rparr> \<rparr>"

text \<open>
  The variables of the loop in \<open>init\<close>: the segments built so far (\<open>newspace\<close> is the last
  one), \<open>_totalFree\<close>, \<open>inUse\<close> and \<open>releaseBegin\<close>.
\<close>

record smeInit =
  in_segments :: "dmsSegmentSpace list"
  in_totalFree :: nat
  in_inUse :: bool
  in_releaseBegin :: nat

text \<open>The release of the run \<open>[releaseBegin, i)\<close> into \<open>newspace\<close>, at three places of \<open>init\<close>.\<close>

definition initRelease :: "nat \<Rightarrow> smeShared \<Rightarrow> smeInit \<Rightarrow> rc \<times> smeInit" where
  "initRelease i sh st =
     (let run = int i - int (in_releaseBegin st);
          (rc, ss, _) = seg_releasePages (int (in_releaseBegin st)) (u16 run) False
                          (last (in_segments st)) sh;
          st1 = st\<lparr>in_segments := butlast (in_segments st) @ [ss]\<rparr>
      in if rc \<noteq> SDB_OK then (rc, st1)
         else (SDB_OK, st1\<lparr>in_totalFree := u32 (int (in_totalFree st) + run)\<rparr>))"

text \<open>The start of a segment: release the tail of the previous one, open the new one.\<close>

definition initBoundary :: "(nat \<Rightarrow> bool) \<Rightarrow> nat \<Rightarrow> nat \<Rightarrow> smeShared \<Rightarrow> smeInit \<Rightarrow> rc \<times> smeInit" where
  "initBoundary newOk sq i sh st =
     (if i AND (2 ^ sq - 1) = 0
      then (case (if in_segments st \<noteq> [] \<and> \<not> in_inUse st then initRelease i sh st else (SDB_OK, st)) of
              (rc, st1) \<Rightarrow>
                if rc \<noteq> SDB_OK then (rc, st1)
                else if \<not> newOk i then (SDB_OOM, st1)
                else (SDB_OK, st1\<lparr>in_segments := in_segments st1 @ [dmsSegmentSpace_new (int i) (u16 (2 ^ sq))],
                                 in_inUse := False, in_releaseBegin := i\<rparr>))
      else (SDB_OK, st))"

definition initStep :: "(nat \<Rightarrow> bool) \<Rightarrow> nat \<Rightarrow> nat \<Rightarrow> smeShared \<Rightarrow> smeInit \<Rightarrow> rc \<times> smeInit" where
  "initStep newOk sq i sh st =
     (case initBoundary newOk sq i sh st of
        (rc, st1) \<Rightarrow>
          if rc \<noteq> SDB_OK then (rc, st1)
          else if getBitMask (sh_pSME sh) i \<noteq> DMS_SME_FREE \<and> \<not> in_inUse st1
          then (case initRelease i sh st1 of
                  (rc2, st2) \<Rightarrow> if rc2 \<noteq> SDB_OK then (rc2, st2)
                                else (SDB_OK, st2\<lparr>in_inUse := True\<rparr>))
          else if getBitMask (sh_pSME sh) i = DMS_SME_FREE \<and> in_inUse st1
          then (SDB_OK, st1\<lparr>in_inUse := False, in_releaseBegin := i\<rparr>)
          else (SDB_OK, st1))"

fun initLoop :: "(nat \<Rightarrow> bool) \<Rightarrow> nat \<Rightarrow> nat list \<Rightarrow> smeShared \<Rightarrow> smeInit \<Rightarrow> rc \<times> smeInit" where
  "initLoop newOk sq [] sh st = (SDB_OK, st)"
| "initLoop newOk sq (i # is) sh st =
     (case initStep newOk sq i sh st of
        (rc, st1) \<Rightarrow> if rc \<noteq> SDB_OK then (rc, st1) else initLoop newOk sq is sh st1)"

definition smeMgr_init :: "(nat \<Rightarrow> bool) \<Rightarrow> nat \<Rightarrow> nat \<Rightarrow> dmsSMEMgr \<Rightarrow> rc \<times> dmsSMEMgr" where
  "smeMgr_init newOk sq pageNum mgr =
     (let sh = mgr_shared mgr;
          st0 = \<lparr> in_segments = mgr_segments mgr, in_totalFree = sh_totalFree sh,
                  in_inUse = False, in_releaseBegin = 0 \<rparr>;
          (rc, st) = initLoop newOk sq [0..<pageNum] sh st0;
          (rc2, st2) = (if rc \<noteq> SDB_OK then (rc, st)
                        else if pageNum > 0 \<and> getBitMask (sh_pSME sh) (pageNum - 1) = DMS_SME_FREE
                        then initRelease pageNum sh st else (SDB_OK, st))
      in (rc2, \<lparr> mgr_segments = in_segments st2, mgr_shared = sh\<lparr>sh_totalFree := in_totalFree st2\<rparr> \<rparr>))"

text \<open>
  \<open>reservePages\<close>: the first segment from \<open>_freePos\<close> on that grants the request.  Callers pass
  \<open>foundPage\<close> initialised to \<open>DMS_INVALID_EXTENT\<close>, which is what an error leaves there.
\<close>

function mgrReserveLoop ::
  "nat \<Rightarrow> nat \<Rightarrow> dmsSegmentSpace list \<Rightarrow> smeShared
    \<Rightarrow> rc \<times> dmsExtentID \<times> dmsSegmentSpace list \<times> smeShared" where
  "mgrReserveLoop numPages pos segs sh =
     (if pos < length segs
      then (case seg_reservePages numPages pos (segs ! pos) sh of
              (rc, found, ss, sh1) \<Rightarrow>
                if rc = SDB_OK
                then (SDB_OK, (case found of Some p \<Rightarrow> p | None \<Rightarrow> DMS_INVALID_EXTENT),
                      segs[pos := ss], sh1)
                else if rc \<noteq> SDB_DMS_NOSPC then (rc, DMS_INVALID_EXTENT, segs[pos := ss], sh1)
                else mgrReserveLoop numPages (Suc pos) (segs[pos := ss]) sh1)
      else (SDB_OK, DMS_INVALID_EXTENT, segs, sh))"
  by pat_completeness auto
termination
  by (relation "measure (\<lambda>(n, pos, segs, sh). length segs - pos)") auto

declare mgrReserveLoop.simps [simp del]

definition smeMgr_reservePages :: "nat \<Rightarrow> dmsSMEMgr \<Rightarrow> rc \<times> dmsExtentID \<times> nat \<times> dmsSMEMgr" where
  "smeMgr_reservePages numPages mgr =
     (case mgrReserveLoop numPages (sh_freePos (mgr_shared mgr)) (mgr_segments mgr) (mgr_shared mgr) of
        (rc, foundPage, segs, sh) \<Rightarrow>
          (rc, foundPage, length segs, \<lparr> mgr_segments = segs, mgr_shared = sh \<rparr>))"

definition smeMgr_releasePages :: "nat \<Rightarrow> dmsExtentID \<Rightarrow> nat \<Rightarrow> dmsSMEMgr \<Rightarrow> rc \<times> dmsSMEMgr" where
  "smeMgr_releasePages sq start numPages mgr =
     (let segmentID = u32 (start div 2 ^ sq)
      in if segmentID \<ge> length (mgr_segments mgr) then (SDB_SYS, mgr)
         else case seg_releasePages start numPages True (mgr_segments mgr ! segmentID) (mgr_shared mgr) of
           (rc, ss, sh) \<Rightarrow>
             (rc, \<lparr> mgr_segments = (mgr_segments mgr)[segmentID := ss],
                    mgr_shared = (if rc \<noteq> SDB_OK then sh
                                  else sh\<lparr>sh_freePos := swapLesserThan (sh_freePos sh) segmentID\<rparr>) \<rparr>))"

definition smeMgr_depositASegment ::
  "bool \<Rightarrow> nat \<Rightarrow> dmsExtentID \<Rightarrow> dmsSMEMgr \<Rightarrow> rc \<times> dmsSMEMgr" where
  "smeMgr_depositASegment newOk sq start mgr =
     (let segmentPages = u16 (2 ^ sq); segmentID = u32 (start div 2 ^ sq)
      in if segmentID \<noteq> length (mgr_segments mgr) then (SDB_SYS, mgr)
         else if \<not> newOk then (SDB_OOM, mgr)
         else case seg_releasePages start segmentPages False
                     (dmsSegmentSpace_new start segmentPages) (mgr_shared mgr) of
           (rc, ss, sh) \<Rightarrow>
             (rc, \<lparr> mgr_segments = mgr_segments mgr @ [ss],
                    mgr_shared = (if rc \<noteq> SDB_OK then sh
                      else sh\<lparr>sh_totalFree := u32 (int (sh_totalFree sh) + int segmentPages)\<rparr>) \<rparr>))"

definition smeMgr_segmentNum :: "dmsSMEMgr \<Rightarrow> nat" where
  "smeMgr_segmentNum mgr = length (mgr_segments mgr)"

definition smeMgr_totalFree :: "dmsSMEMgr \<Rightarrow> nat" where
  "smeMgr_totalFree mgr = sh_totalFree (mgr_shared mgr)"

section \<open>Invariant\<close>

definition segs_inv :: "nat \<Rightarrow> dmsSegmentSpace list \<Rightarrow> bool" where
  "segs_inv sq segs \<longleftrightarrow> sq \<le> 15 \<and> length segs * 2 ^ sq \<le> DMS_MAX_PG \<and>
     (\<forall>k < length segs. seg_inv (segs ! k) \<and> ss_startExtent (segs ! k) = int k * 2 ^ sq
        \<and> ss_totalSize (segs ! k) = 2 ^ sq)"

definition segs_free :: "dmsSegmentSpace list \<Rightarrow> int set" where
  "segs_free segs = (\<Union>ss \<in> set segs. seg_free ss)"

definition segs_total :: "dmsSegmentSpace list \<Rightarrow> nat" where
  "segs_total segs = sum_list (map ss_totalFree segs)"

definition freePos_ok :: "dmsSegmentSpace list \<Rightarrow> nat \<Rightarrow> bool" where
  "freePos_ok segs fp \<longleftrightarrow> fp \<le> length segs \<and> (\<forall>k < fp. seg_free (segs ! k) = {})"

text \<open>The bitmap agrees with the run lists on the first \<open>limit\<close> pages.\<close>

definition sme_agrees :: "nat \<Rightarrow> sme \<Rightarrow> int set \<Rightarrow> bool" where
  "sme_agrees limit m F \<longleftrightarrow> (\<forall>p < limit. getBitMask m p = DMS_SME_FREE \<longleftrightarrow> int p \<in> F)"

definition mgr_free :: "dmsSMEMgr \<Rightarrow> int set" where
  "mgr_free mgr = segs_free (mgr_segments mgr)"

definition mgr_inv :: "nat \<Rightarrow> dmsSMEMgr \<Rightarrow> bool" where
  "mgr_inv sq mgr \<longleftrightarrow>
     segs_inv sq (mgr_segments mgr)
     \<and> freePos_ok (mgr_segments mgr) (sh_freePos (mgr_shared mgr))
     \<and> sh_totalFree (mgr_shared mgr) = segs_total (mgr_segments mgr)
     \<and> sme_agrees (length (mgr_segments mgr) * 2 ^ sq) (sh_pSME (mgr_shared mgr)) (mgr_free mgr)"

subsection \<open>Segments\<close>

lemma segs_invD:
  assumes "segs_inv sq segs" and "k < length segs"
  shows "seg_inv (segs ! k)" and "ss_startExtent (segs ! k) = int k * 2 ^ sq"
    and "ss_totalSize (segs ! k) = 2 ^ sq"
  using assms by (auto simp: segs_inv_def)

lemma u16_segPages [simp]: "sq \<le> 15 \<Longrightarrow> u16 (2 ^ sq) = 2 ^ sq"
proof -
  assume "sq \<le> 15"
  then have "(2::int) ^ sq \<le> 2 ^ 15" by (intro power_increasing) auto
  then show ?thesis by (simp add: cast_simps nat_power_eq)
qed

lemma segPages_le: "sq \<le> 15 \<Longrightarrow> (2::nat) ^ sq \<le> 32768"
  using power_increasing [of sq 15 "2::nat"] by simp

lemma segs_length_le:
  assumes "segs_inv sq segs"
  shows "length segs \<le> DMS_MAX_PG"
proof -
  have "length segs * 1 \<le> length segs * 2 ^ sq" by (intro mult_left_mono) auto
  moreover have "length segs * 2 ^ sq \<le> DMS_MAX_PG" using assms by (simp add: segs_inv_def)
  ultimately show ?thesis by linarith
qed

lemma segs_free_nth: "segs_free segs = (\<Union>k < length segs. seg_free (segs ! k))"
  by (auto simp: segs_free_def set_conv_nth)

lemma segs_free_append [simp]: "segs_free (xs @ ys) = segs_free xs \<union> segs_free ys"
  by (simp add: segs_free_def)

lemma segs_free_single [simp]: "segs_free [ss] = seg_free ss"
  by (simp add: segs_free_def)

lemma segs_free_Nil [simp]: "segs_free [] = {}"
  by (simp add: segs_free_def)

lemma seg_free_slot:
  assumes "segs_inv sq segs" and "k < length segs" and "p \<in> seg_free (segs ! k)"
  shows "int k * 2 ^ sq \<le> p \<and> p < (int k + 1) * 2 ^ sq"
  using seg_free_bounds [OF segs_invD(1) [OF assms(1,2)] assms(3)] segs_invD(2,3) [OF assms(1,2)]
  by (simp add: algebra_simps)

lemma seg_slot_div:
  assumes "segs_inv sq segs" and "k < length segs" and "p \<in> seg_free (segs ! k)"
  shows "p div 2 ^ sq = int k"
  using seg_free_slot [OF assms]
  by (intro int_div_pos_eq [where r = "p - int k * 2 ^ sq"]) (auto simp: algebra_simps)

lemma segs_free_range:
  assumes "segs_inv sq segs" and "p \<in> segs_free segs"
  shows "0 \<le> p \<and> p < int (length segs * 2 ^ sq)"
proof -
  obtain k where k: "k < length segs" and p: "p \<in> seg_free (segs ! k)"
    using assms(2) by (auto simp: segs_free_nth)
  from seg_free_slot [OF assms(1) k p] have lo: "int k * 2 ^ sq \<le> p" and hi: "p < (int k + 1) * 2 ^ sq"
    by auto
  have "(int k + 1) * 2 ^ sq \<le> int (length segs) * 2 ^ sq"
    using k by (intro mult_right_mono) auto
  moreover have "0 \<le> int k * 2 ^ sq" by simp
  moreover have "int (length segs * 2 ^ sq) = int (length segs) * 2 ^ sq" by simp
  ultimately show ?thesis using lo hi by linarith
qed

lemma seg_free_disjoint:
  assumes "segs_inv sq segs" and "j < length segs" and "k < length segs" and "j \<noteq> k"
  shows "seg_free (segs ! j) \<inter> seg_free (segs ! k) = {}"
proof (rule equals0I)
  fix p assume "p \<in> seg_free (segs ! j) \<inter> seg_free (segs ! k)"
  then have "int j = int k"
    using seg_slot_div [OF assms(1,2), of p] seg_slot_div [OF assms(1,3), of p] by auto
  with assms(4) show False by simp
qed

lemma segs_free_update:
  assumes "segs_inv sq segs" and "k < length segs"
  shows "segs_free (segs[k := ss]) = (segs_free segs - seg_free (segs ! k)) \<union> seg_free ss"
proof -
  have "seg_free (segs ! j) \<subseteq> segs_free segs - seg_free (segs ! k)" if "j < length segs" "j \<noteq> k" for j
    using that assms seg_free_disjoint [OF assms(1) that(1) assms(2) that(2)]
    by (auto simp: segs_free_nth)
  then show ?thesis using assms(2)
    by (auto simp: segs_free_nth nth_list_update split: if_splits) blast
qed

lemma segs_total_update:
  assumes "k < length segs"
  shows "segs_total (segs[k := ss]) + ss_totalFree (segs ! k) = segs_total segs + ss_totalFree ss"
proof -
  have "segs = take k segs @ segs ! k # drop (Suc k) segs" using assms by (rule id_take_nth_drop)
  then have "segs_total segs = segs_total (take k segs @ segs ! k # drop (Suc k) segs)" by simp
  then show ?thesis using assms by (simp add: segs_total_def upd_conv_take_nth_drop)
qed

lemma segs_inv_update:
  assumes "segs_inv sq segs" and "k < length segs" and "seg_inv ss"
    and "ss_startExtent ss = ss_startExtent (segs ! k)" and "ss_totalSize ss = ss_totalSize (segs ! k)"
  shows "segs_inv sq (segs[k := ss])"
  using assms by (auto simp: segs_inv_def nth_list_update)

lemma segs_total_le:
  assumes "segs_inv sq segs"
  shows "segs_total segs \<le> length segs * 2 ^ sq"
proof -
  have "ss_totalFree ss \<le> 2 ^ sq" if ss: "ss \<in> set segs" for ss
  proof -
    obtain k where "k < length segs" "segs ! k = ss" using ss by (auto simp: in_set_conv_nth)
    then show ?thesis
      using segs_invD [OF assms, of k] run_total_le [OF seg_inv_chain, of ss] by (simp add: seg_inv_def)
  qed
  then have "sum_list (map ss_totalFree segs) \<le> sum_list (map (\<lambda>_. 2 ^ sq) segs)"
    by (intro sum_list_mono) auto
  then show ?thesis by (simp add: segs_total_def sum_list_triv)
qed

section \<open>Reserving pages\<close>

lemma freePos_ok_advance:
  assumes "freePos_ok segs fp" and "pos < length segs" and "seg_free (segs ! pos) = {}"
  shows "freePos_ok segs (compareAndSwap fp pos (Suc pos))"
  using assms by (auto simp: freePos_ok_def compareAndSwap_def less_Suc_eq)

text \<open>What a granted request does to the segment it is taken from.\<close>

definition segGrant :: "nat \<Rightarrow> dmsSegmentSpace \<Rightarrow> int \<Rightarrow> dmsSegmentSpace \<Rightarrow> bool" where
  "segGrant n ss p ss' \<longleftrightarrow>
     seg_inv ss' \<and> pageRun p n \<subseteq> seg_free ss \<and> seg_free ss' = seg_free ss - pageRun p n
     \<and> ss_startExtent ss' = ss_startExtent ss \<and> ss_totalSize ss' = ss_totalSize ss
     \<and> ss_totalFree ss = ss_totalFree ss' + n"

text \<open>
  What the search loop does: it either takes the request from the first segment (at or after
  \<open>pos\<close>) that has a large enough run, or it finds that no such segment exists.  In both cases
  \<open>_freePos\<close> still has only full segments before it.
\<close>

lemma mgrReserveLoop_spec:
  assumes inv: "segs_inv sq segs" and n: "0 < n" and fp: "freePos_ok segs (sh_freePos sh)"
  shows "\<exists>fp'. freePos_ok segs fp' \<and>
    ((\<exists>k p ss. pos \<le> k \<and> k < length segs \<and> (\<forall>j. pos \<le> j \<and> j < k \<longrightarrow> ss_maxNode (segs ! j) < n)
        \<and> mgrReserveLoop n pos segs sh = (SDB_OK, p, segs[k := ss],
             sh\<lparr>sh_freePos := fp', sh_pSME := setBits (nat p) n (sh_pSME sh),
                sh_totalFree := u32 (int (sh_totalFree sh) - int n)\<rparr>)
        \<and> segGrant n (segs ! k) p ss)
     \<or> (mgrReserveLoop n pos segs sh = (SDB_OK, DMS_INVALID_EXTENT, segs, sh\<lparr>sh_freePos := fp'\<rparr>)
        \<and> (\<forall>j. pos \<le> j \<and> j < length segs \<longrightarrow> ss_maxNode (segs ! j) < n)))"
    (is "\<exists>fp'. ?P pos sh fp'")
  using fp
proof (induction "length segs - pos" arbitrary: pos sh)
  case 0
  then show ?case by (intro exI [of _ "sh_freePos sh"]) (simp add: mgrReserveLoop.simps)
next
  case (Suc d)
  then have pos: "pos < length segs" by simp
  have seg: "seg_inv (segs ! pos)" using segs_invD [OF inv pos] by simp
  show ?case
  proof (cases "n \<le> ss_maxNode (segs ! pos)")
    case True
    obtain p ss where r: "seg_reservePages n pos (segs ! pos) sh = (SDB_OK, Some p, ss,
         sh\<lparr>sh_pSME := setBits (nat p) n (sh_pSME sh),
            sh_totalFree := u32 (int (sh_totalFree sh) - int n)\<rparr>)"
      and ss: "segGrant n (segs ! pos) p ss"
      using seg_reservePages_granted [OF seg n True] unfolding segGrant_def by metis
    have "mgrReserveLoop n pos segs sh = (SDB_OK, p, segs[pos := ss],
         sh\<lparr>sh_freePos := sh_freePos sh, sh_pSME := setBits (nat p) n (sh_pSME sh),
            sh_totalFree := u32 (int (sh_totalFree sh) - int n)\<rparr>)"
      using pos r by (simp add: mgrReserveLoop.simps [of n pos])
    with pos ss Suc.prems show ?thesis
      by (intro exI [of _ "sh_freePos sh"] conjI disjI1 exI [of _ pos] exI [of _ p] exI [of _ ss]) auto
  next
    case False
    define sh1 where "sh1 = (if ss_totalFree (segs ! pos) = 0
      then sh\<lparr>sh_freePos := compareAndSwap (sh_freePos sh) pos (u32 (int pos + 1))\<rparr> else sh)"
    have step: "mgrReserveLoop n pos segs sh = mgrReserveLoop n (Suc pos) segs sh1"
      using pos False seg_reservePages_refused [of "segs ! pos" n pos sh]
      by (simp add: mgrReserveLoop.simps [of n pos] sh1_def)
    have "u32 (int pos + 1) = Suc pos"
      using pos segs_length_le [OF inv] by (simp add: cast_simps nat_add_distrib)
    then have "freePos_ok segs (sh_freePos sh1)"
      using Suc.prems seg_full_iff [OF seg] freePos_ok_advance [OF Suc.prems pos]
      by (simp add: sh1_def)
    moreover have "d = length segs - Suc pos" using Suc.hyps(2) by simp
    ultimately obtain fp' where IH: "?P (Suc pos) sh1 fp'" using Suc.hyps(1) by blast
    have upd: "sh1\<lparr>sh_freePos := f\<rparr> = sh\<lparr>sh_freePos := f\<rparr>" for f by (simp add: sh1_def)
    have same: "sh_pSME sh1 = sh_pSME sh" "sh_totalFree sh1 = sh_totalFree sh"
      by (simp_all add: sh1_def)
    have ext: "\<forall>j. pos \<le> j \<and> j < m \<longrightarrow> ss_maxNode (segs ! j) < n"
      if "\<forall>j. Suc pos \<le> j \<and> j < m \<longrightarrow> ss_maxNode (segs ! j) < n" for m
      using False that by (metis Suc_leI le_neq_implies_less not_le)
    have "?P pos sh fp'"
      using IH unfolding step upd same
    proof (elim conjE disjE exE, goal_cases)
      case (1 k p ss)
      then show ?case using ext [of k] Suc_leD by blast
    next
      case 2
      then show ?case using ext [of "length segs"] by blast
    qed
    then show ?thesis by (rule exI [of _ fp'])
  qed
qed

lemma mgr_invD:
  assumes "mgr_inv sq mgr"
  shows "segs_inv sq (mgr_segments mgr)" "freePos_ok (mgr_segments mgr) (sh_freePos (mgr_shared mgr))"
    "sh_totalFree (mgr_shared mgr) = segs_total (mgr_segments mgr)"
    "sme_agrees (length (mgr_segments mgr) * 2 ^ sq) (sh_pSME (mgr_shared mgr)) (mgr_free mgr)"
  using assms by (simp_all add: mgr_inv_def)

lemma card_segs_free: "segs_inv sq segs \<Longrightarrow> card (segs_free segs) = segs_total segs"
proof -
  assume inv: "segs_inv sq segs"
  have "card (segs_free segs) = (\<Sum>k < length segs. card (seg_free (segs ! k)))"
    unfolding segs_free_nth
    by (rule card_UN_disjoint) (auto dest: seg_free_disjoint [OF inv])
  also have "\<dots> = (\<Sum>k < length segs. ss_totalFree (segs ! k))"
    using segs_invD(1) [OF inv] by (simp add: card_seg_free)
  also have "\<dots> = segs_total segs"
    by (simp add: segs_total_def sum_list_sum_nth lessThan_atLeast0)
  finally show ?thesis .
qed

lemma sme_agrees_set:
  assumes "sme_agrees limit m F" and "0 \<le> p"
  shows "sme_agrees limit (setBits (nat p) n m) (F - pageRun p n)"
  using assms by (auto simp: sme_agrees_def)

lemma sme_agrees_free:
  assumes "sme_agrees limit m F" and "0 \<le> p"
  shows "sme_agrees limit (freeBits (nat p) n m) (F \<union> pageRun p n)"
  using assms by (auto simp: sme_agrees_def)

lemma freePos_ok_shrink:
  assumes "freePos_ok segs fp" and "k < length segs" and "seg_free ss \<subseteq> seg_free (segs ! k)"
  shows "freePos_ok (segs[k := ss]) fp"
  using assms by (auto simp: freePos_ok_def nth_list_update)

text \<open>A successful reservation: the block was free, it lies in one segment, and it is taken.\<close>

lemma mgr_inv_grant:
  assumes inv: "mgr_inv sq mgr" and k: "k < length (mgr_segments mgr)" and n: "0 < n"
    and g: "segGrant n (mgr_segments mgr ! k) p ss"
    and fp: "freePos_ok (mgr_segments mgr) fp"
    and mgr': "mgr' = \<lparr> mgr_segments = (mgr_segments mgr)[k := ss],
      mgr_shared = (mgr_shared mgr)\<lparr>sh_freePos := fp,
        sh_pSME := setBits (nat p) n (sh_pSME (mgr_shared mgr)),
        sh_totalFree := u32 (int (sh_totalFree (mgr_shared mgr)) - int n)\<rparr> \<rparr>"
  shows "mgr_inv sq mgr'" and "pageRun p n \<subseteq> mgr_free mgr"
    and "mgr_free mgr' = mgr_free mgr - pageRun p n"
    and "int k * 2 ^ sq \<le> p" and "p + int n \<le> (int k + 1) * 2 ^ sq"
proof -
  let ?segs = "mgr_segments mgr"
  note I = mgr_invD [OF inv]
  have sub: "pageRun p n \<subseteq> seg_free (?segs ! k)" using g by (simp add: segGrant_def)
  show run: "pageRun p n \<subseteq> mgr_free mgr"
    using sub k by (auto simp: mgr_free_def segs_free_nth)
  show lo: "int k * 2 ^ sq \<le> p" and "p + int n \<le> (int k + 1) * 2 ^ sq"
    using pageRun_segment [OF segs_invD(1) [OF I(1) k] sub n] segs_invD(2,3) [OF I(1) k]
    by (simp_all add: algebra_simps)
  have p: "0 \<le> p" using lo by (meson mult_nonneg_nonneg of_nat_0_le_iff order_trans zero_le_numeral
        zero_le_power)
  have free: "segs_free (?segs[k := ss]) = segs_free ?segs - pageRun p n"
  proof -
    have "seg_free (?segs ! k) \<subseteq> segs_free ?segs" using k by (auto simp: segs_free_nth)
    then show ?thesis
      using sub g unfolding segs_free_update [OF I(1) k] segGrant_def by blast
  qed
  then show "mgr_free mgr' = mgr_free mgr - pageRun p n" by (simp add: mgr_free_def mgr')
  have "segs_total (?segs[k := ss]) + n = segs_total ?segs"
    using segs_total_update [OF k, of ss] g by (simp add: segGrant_def)
  moreover have "segs_total ?segs \<le> DMS_MAX_PG"
    using segs_total_le [OF I(1)] I(1) by (simp add: segs_inv_def)
  ultimately have "u32 (int (segs_total ?segs) - int n) = segs_total (?segs[k := ss])"
    by (simp add: u32_def)
  moreover have "segs_inv sq (?segs[k := ss])"
    using segs_inv_update [OF I(1) k] g by (simp add: segGrant_def)
  moreover have "freePos_ok (?segs[k := ss]) fp"
    using freePos_ok_shrink [OF fp k] g by (simp add: segGrant_def)
  ultimately show "mgr_inv sq mgr'"
    using I(3) sme_agrees_set [OF I(4) p] free by (simp add: mgr_inv_def mgr_free_def mgr')
qed

lemma smeMgr_reservePages_cases:
  assumes inv: "mgr_inv sq mgr" and n: "0 < n"
  shows "(\<exists>k p mgr'. smeMgr_reservePages n mgr = (SDB_OK, p, smeMgr_segmentNum mgr, mgr')
        \<and> mgr_inv sq mgr' \<and> smeMgr_segmentNum mgr' = smeMgr_segmentNum mgr
        \<and> pageRun p n \<subseteq> mgr_free mgr \<and> mgr_free mgr' = mgr_free mgr - pageRun p n
        \<and> k < smeMgr_segmentNum mgr \<and> int k * 2 ^ sq \<le> p \<and> p + int n \<le> (int k + 1) * 2 ^ sq
        \<and> sh_pSME (mgr_shared mgr') = setBits (nat p) n (sh_pSME (mgr_shared mgr)))
    \<or> (\<exists>mgr'. smeMgr_reservePages n mgr = (SDB_OK, DMS_INVALID_EXTENT, smeMgr_segmentNum mgr, mgr')
        \<and> mgr_inv sq mgr' \<and> mgr_segments mgr' = mgr_segments mgr
        \<and> sh_pSME (mgr_shared mgr') = sh_pSME (mgr_shared mgr)
        \<and> (\<forall>ss \<in> set (mgr_segments mgr). \<nexists>p. pageRun p n \<subseteq> seg_free ss))"
proof -
  let ?segs = "mgr_segments mgr" and ?sh = "mgr_shared mgr"
  note I = mgr_invD [OF inv]
  from mgrReserveLoop_spec [OF I(1) n I(2), of "sh_freePos ?sh"] obtain fp
    where fp: "freePos_ok ?segs fp" and c:
      "(\<exists>k p ss. sh_freePos ?sh \<le> k \<and> k < length ?segs
          \<and> (\<forall>j. sh_freePos ?sh \<le> j \<and> j < k \<longrightarrow> ss_maxNode (?segs ! j) < n)
          \<and> mgrReserveLoop n (sh_freePos ?sh) ?segs ?sh = (SDB_OK, p, ?segs[k := ss],
             ?sh\<lparr>sh_freePos := fp, sh_pSME := setBits (nat p) n (sh_pSME ?sh),
                sh_totalFree := u32 (int (sh_totalFree ?sh) - int n)\<rparr>)
          \<and> segGrant n (?segs ! k) p ss)
       \<or> (mgrReserveLoop n (sh_freePos ?sh) ?segs ?sh =
            (SDB_OK, DMS_INVALID_EXTENT, ?segs, ?sh\<lparr>sh_freePos := fp\<rparr>)
          \<and> (\<forall>j. sh_freePos ?sh \<le> j \<and> j < length ?segs \<longrightarrow> ss_maxNode (?segs ! j) < n))"
    by blast
  from c show ?thesis
  proof (elim disjE exE conjE)
    fix k p ss
    assume k: "k < length ?segs" and g: "segGrant n (?segs ! k) p ss"
      and loop: "mgrReserveLoop n (sh_freePos ?sh) ?segs ?sh = (SDB_OK, p, ?segs[k := ss],
             ?sh\<lparr>sh_freePos := fp, sh_pSME := setBits (nat p) n (sh_pSME ?sh),
                sh_totalFree := u32 (int (sh_totalFree ?sh) - int n)\<rparr>)"
    note G = mgr_inv_grant [OF inv k n g fp refl]
    from G k show ?thesis
      by (intro disjI1 exI [of _ k] exI [of _ p])
        (simp add: smeMgr_reservePages_def smeMgr_segmentNum_def loop)
  next
    assume loop: "mgrReserveLoop n (sh_freePos ?sh) ?segs ?sh =
            (SDB_OK, DMS_INVALID_EXTENT, ?segs, ?sh\<lparr>sh_freePos := fp\<rparr>)"
      and small: "\<forall>j. sh_freePos ?sh \<le> j \<and> j < length ?segs \<longrightarrow> ss_maxNode (?segs ! j) < n"
    have "\<nexists>p. pageRun p n \<subseteq> seg_free (?segs ! j)" if j: "j < length ?segs" for j
    proof (cases "j < sh_freePos ?sh")
      case True
      then have "seg_free (?segs ! j) = {}" using I(2) by (simp add: freePos_ok_def)
      then show ?thesis using n by simp
    next
      case False
      then show ?thesis
        using small j seg_block_iff [OF segs_invD(1) [OF I(1) j] n] by (meson not_le)
    qed
    then have "\<forall>ss \<in> set ?segs. \<nexists>p. pageRun p n \<subseteq> seg_free ss" by (metis in_set_conv_nth)
    then show ?thesis
      using loop fp I by (intro disjI2)
        (simp add: smeMgr_reservePages_def smeMgr_segmentNum_def mgr_inv_def mgr_free_def)
  qed
qed

section \<open>Releasing pages and adding a segment\<close>

text \<open>The block of \<open>n\<close> pages from \<open>p\<close> on lies in one of the manager's segments.\<close>

definition in_one_segment :: "nat \<Rightarrow> int \<Rightarrow> nat \<Rightarrow> dmsSMEMgr \<Rightarrow> bool" where
  "in_one_segment sq p n mgr \<longleftrightarrow> 0 \<le> p \<and> p div 2 ^ sq < int (smeMgr_segmentNum mgr)
     \<and> p + int n \<le> (p div 2 ^ sq + 1) * 2 ^ sq"

lemma in_one_segmentI:
  assumes "k < smeMgr_segmentNum mgr" and "int k * 2 ^ sq \<le> p" and "p + int n \<le> (int k + 1) * 2 ^ sq"
    and "0 < n"
  shows "in_one_segment sq p n mgr"
proof -
  have "p div 2 ^ sq = int k"
    using assms by (intro int_div_pos_eq [where r = "p - int k * 2 ^ sq"]) (auto simp: algebra_simps)
  moreover have "0 \<le> p" using assms(2)
    by (meson mult_nonneg_nonneg of_nat_0_le_iff order_trans zero_le_numeral zero_le_power)
  ultimately show ?thesis using assms by (simp add: in_one_segment_def)
qed

lemma smeMgr_releasePages_ok:
  assumes inv: "mgr_inv sq mgr" and one: "in_one_segment sq p n mgr"
    and disj: "pageRun p n \<inter> mgr_free mgr = {}"
  obtains mgr' where "smeMgr_releasePages sq p n mgr = (SDB_OK, mgr')" and "mgr_inv sq mgr'"
    and "mgr_free mgr' = mgr_free mgr \<union> pageRun p n"
    and "smeMgr_segmentNum mgr' = smeMgr_segmentNum mgr"
    and "sh_pSME (mgr_shared mgr') = freeBits (nat p) n (sh_pSME (mgr_shared mgr))"
proof -
  let ?segs = "mgr_segments mgr" and ?sh = "mgr_shared mgr"
  note I = mgr_invD [OF inv]
  define k where "k = nat (p div 2 ^ sq)"
  have p: "0 \<le> p" using one by (simp add: in_one_segment_def)
  then have div0: "0 \<le> p div 2 ^ sq" by (simp add: pos_imp_zdiv_nonneg_iff)
  then have kdiv: "int k = p div 2 ^ sq" by (simp add: k_def)
  have k: "k < length ?segs" using one kdiv by (simp add: in_one_segment_def smeMgr_segmentNum_def)
  have id: "u32 (p div 2 ^ sq) = k"
  proof -
    have "k < 4294967296" using k segs_length_le [OF I(1)] by linarith
    then show ?thesis by (simp flip: kdiv add: cast_simps)
  qed
  have lo: "int k * 2 ^ sq \<le> p"
  proof -
    have "0 \<le> p mod 2 ^ sq" by simp
    then show ?thesis unfolding kdiv using div_mult_mod_eq [of p "2 ^ sq"] by linarith
  qed
  have hi: "p + int n \<le> (int k + 1) * 2 ^ sq" using one kdiv by (simp add: in_one_segment_def)
  have dk: "pageRun p n \<inter> seg_free (?segs ! k) = {}"
    using disj k by (auto simp: mgr_free_def segs_free_nth)
  obtain ss where rel: "seg_releasePages p n True (?segs ! k) ?sh = (SDB_OK, ss,
       ?sh\<lparr>sh_pSME := freeBits (nat p) n (sh_pSME ?sh),
           sh_totalFree := u32 (int (sh_totalFree ?sh) + int n)\<rparr>)"
    and ss: "seg_inv ss" "seg_free ss = seg_free (?segs ! k) \<union> pageRun p n"
      "ss_startExtent ss = ss_startExtent (?segs ! k)" "ss_totalSize ss = ss_totalSize (?segs ! k)"
      "ss_totalFree ss = ss_totalFree (?segs ! k) + n"
  proof (rule seg_releasePages_ok [OF segs_invD(1) [OF I(1) k] _ _ dk, of True ?sh])
    show "ss_startExtent (?segs ! k) \<le> p" using lo segs_invD(2) [OF I(1) k] by simp
    show "p + int n \<le> ss_startExtent (?segs ! k) + int (ss_totalSize (?segs ! k))"
      using hi segs_invD(2,3) [OF I(1) k] by (simp add: algebra_simps)
  qed simp
  have "segs_inv sq (?segs[k := ss])" by (rule segs_inv_update [OF I(1) k ss(1,3,4)])
  moreover have total: "segs_total (?segs[k := ss]) = segs_total ?segs + n"
    using segs_total_update [OF k, of ss] ss(5) by simp
  moreover have "u32 (int (segs_total ?segs) + int n) = segs_total (?segs[k := ss])"
    using segs_total_le [OF calculation(1)] calculation(1) total
    by (simp add: segs_inv_def u32_def)
  moreover have free: "segs_free (?segs[k := ss]) = segs_free ?segs \<union> pageRun p n"
  proof -
    have "seg_free (?segs ! k) \<subseteq> segs_free ?segs" using k by (auto simp: segs_free_nth)
    then show ?thesis unfolding segs_free_update [OF I(1) k] ss(2) by blast
  qed
  moreover have "freePos_ok (?segs[k := ss]) (swapLesserThan (sh_freePos ?sh) k)"
    using I(2) k by (auto simp: freePos_ok_def swapLesserThan_def swapPredicated_def nth_list_update)
  ultimately show thesis
    using that sme_agrees_free [OF I(4) p] I(3) k
    by (simp add: smeMgr_releasePages_def id rel mgr_inv_def mgr_free_def smeMgr_segmentNum_def)
qed

text \<open>Releasing a page that is free already fails and changes nothing.\<close>

lemma smeMgr_releasePages_overlap:
  assumes inv: "mgr_inv sq mgr" and overlap: "pageRun p n \<inter> mgr_free mgr \<noteq> {}"
  shows "smeMgr_releasePages sq p n mgr = (SDB_SYS, mgr)"
proof -
  let ?segs = "mgr_segments mgr" and ?k = "u32 (p div 2 ^ sq)"
  note I = mgr_invD [OF inv]
  have "seg_releasePages p n True (?segs ! ?k) sh = (SDB_SYS, ?segs ! ?k, sh)"
    if k: "?k < length ?segs" for sh
  proof (cases "pageRun p n \<inter> seg_free (?segs ! ?k) = {}")
    case False
    then show ?thesis by (rule seg_releasePages_overlap [OF segs_invD(1) [OF I(1) k]])
  next
    case True
    obtain q where "q \<in> pageRun p n" "q \<in> segs_free ?segs"
      using overlap unfolding mgr_free_def by blast
    then obtain j where j: "j < length ?segs" "q \<in> pageRun p n" "q \<in> seg_free (?segs ! j)"
      unfolding segs_free_nth by blast
    with True have "j \<noteq> ?k" by auto
    have "q div 2 ^ sq = int j" by (rule seg_slot_div [OF I(1) j(1,3)])
    then have "\<not> (int ?k * 2 ^ sq \<le> q \<and> q < (int ?k + 1) * 2 ^ sq)"
      using \<open>j \<noteq> ?k\<close> int_div_pos_eq [of q "2 ^ sq" "int ?k" "q - int ?k * 2 ^ sq"]
      by (auto simp: algebra_simps)
    then have "\<not> (int ?k * 2 ^ sq \<le> p \<and> p + int n \<le> (int ?k + 1) * 2 ^ sq)"
      using j(2) by auto
    then show ?thesis
      using segs_invD(2,3) [OF I(1) k]
      by (auto simp: seg_releasePages_def algebra_simps)
  qed
  then show ?thesis by (simp add: smeMgr_releasePages_def Let_def)
qed

lemma segs_inv_snoc:
  assumes "segs_inv sq segs" and "seg_inv ss" and "ss_startExtent ss = int (length segs) * 2 ^ sq"
    and "ss_totalSize ss = 2 ^ sq" and "Suc (length segs) * 2 ^ sq \<le> DMS_MAX_PG"
  shows "segs_inv sq (segs @ [ss])"
  using assms by (auto simp: segs_inv_def nth_append less_Suc_eq)

lemma smeMgr_depositASegment_ok:
  assumes inv: "mgr_inv sq mgr" and start: "start = int (smeMgr_segmentNum mgr) * 2 ^ sq"
    and room: "Suc (smeMgr_segmentNum mgr) * 2 ^ sq \<le> DMS_MAX_PG"
    and clear: "\<And>p. start \<le> int p \<Longrightarrow> int p < start + 2 ^ sq \<Longrightarrow>
      getBitMask (sh_pSME (mgr_shared mgr)) p = DMS_SME_FREE"
  obtains mgr' where "smeMgr_depositASegment True sq start mgr = (SDB_OK, mgr')"
    and "mgr_inv sq mgr'" and "mgr_free mgr' = mgr_free mgr \<union> pageRun start (2 ^ sq)"
    and "smeMgr_segmentNum mgr' = Suc (smeMgr_segmentNum mgr)"
    and "sh_pSME (mgr_shared mgr') = sh_pSME (mgr_shared mgr)"
proof -
  let ?segs = "mgr_segments mgr" and ?sh = "mgr_shared mgr"
  let ?new = "dmsSegmentSpace_new start (2 ^ sq)"
  note I = mgr_invD [OF inv]
  have sq: "sq \<le> 15" using I(1) by (simp add: segs_inv_def)
  have len: "smeMgr_segmentNum mgr = length ?segs" by (simp add: smeMgr_segmentNum_def)
  have room': "start + 2 ^ sq \<le> int DMS_MAX_PG"
  proof -
    have "int (Suc (length ?segs) * 2 ^ sq) \<le> int DMS_MAX_PG" using room len by (simp only: of_nat_le_iff)
    then show ?thesis using start len by (simp add: algebra_simps)
  qed
  have start0: "0 \<le> start" using start by simp
  have new_inv: "seg_inv ?new"
    using segPages_le [OF sq] start0 room' by (intro seg_inv_new) auto
  obtain ss where rel: "seg_releasePages start (2 ^ sq) False ?new ?sh = (SDB_OK, ss, ?sh)"
    and ss: "seg_inv ss" "seg_free ss = pageRun start (2 ^ sq)"
      "ss_startExtent ss = start" "ss_totalSize ss = 2 ^ sq" "ss_totalFree ss = 2 ^ sq"
    by (rule seg_releasePages_ok [OF new_inv, of start "2 ^ sq" False ?sh])
      (simp_all add: dmsSegmentSpace_new_def seg_free_def)
  have id: "u32 (start div 2 ^ sq) = length ?segs"
    using start len segs_length_le [OF I(1)] by (simp add: u32_def)
  have sinv: "segs_inv sq (?segs @ [ss])"
    using segs_inv_snoc [OF I(1) ss(1)] ss start len room by simp
  have "u32 (int (segs_total ?segs) + 2 ^ sq) = segs_total (?segs @ [ss])"
  proof -
    have "segs_total (?segs @ [ss]) \<le> DMS_MAX_PG"
      using segs_total_le [OF sinv] sinv by (simp add: segs_inv_def)
    moreover have "int (segs_total ?segs) + 2 ^ sq = int (segs_total (?segs @ [ss]))"
      using ss(5) by (simp add: segs_total_def)
    ultimately show ?thesis by (simp add: cast_simps)
  qed
  moreover have "freePos_ok (?segs @ [ss]) (sh_freePos ?sh)"
    using I(2) by (auto simp: freePos_ok_def nth_append)
  moreover have "sme_agrees (length (?segs @ [ss]) * 2 ^ sq) (sh_pSME ?sh) (segs_free (?segs @ [ss]))"
  proof -
    have "getBitMask (sh_pSME ?sh) p = 0 \<longleftrightarrow> int p \<in> segs_free ?segs \<union> pageRun start (2 ^ sq)"
      if p: "p < length (?segs @ [ss]) * 2 ^ sq" for p
    proof (cases "int p < start")
      case True
      then have "p < length ?segs * 2 ^ sq"
        using start len by (metis of_nat_less_iff of_nat_mult of_nat_numeral of_nat_power)
      with I(4) True show ?thesis by (simp add: sme_agrees_def mgr_free_def)
    next
      case False
      have "int p < int (length (?segs @ [ss]) * 2 ^ sq)" using p by (simp only: of_nat_less_iff)
      then have "int p < start + 2 ^ sq" using start len by (simp add: algebra_simps)
      with False show ?thesis using clear [of p] by simp
    qed
    then show ?thesis by (simp add: sme_agrees_def ss(2))
  qed
  ultimately show thesis
    using that sinv I(3) ss(2) sq
    by (simp add: smeMgr_depositASegment_def id rel mgr_inv_def mgr_free_def smeMgr_segmentNum_def)
qed

section \<open>Rebuilding the manager from the bitmap\<close>

definition clearBits :: "sme \<Rightarrow> nat \<Rightarrow> int set" where
  "clearBits m i = int ` {p. p < i \<and> getBitMask m p = DMS_SME_FREE}"

lemma clearBits_Suc:
  "clearBits m (Suc i) = (if getBitMask m i = 0 then insert (int i) (clearBits m i) else clearBits m i)"
  by (auto simp: clearBits_def less_Suc_eq)

lemma clearBits_extend:
  assumes "b \<le> i" and "\<forall>p. b \<le> p \<and> p < i \<longrightarrow> getBitMask m p = 0"
  shows "clearBits m i = clearBits m b \<union> {int b..<int i}"
proof -
  have "{p. p < i \<and> getBitMask m p = 0} = {p. p < b \<and> getBitMask m p = 0} \<union> {b..<i}"
    using assms by (auto simp: not_le)
  then show ?thesis unfolding clearBits_def by (simp add: image_Un image_int_atLeastLessThan)
qed

text \<open>
  The state of the loop before page \<open>i\<close> with \<open>m\<close> segments open: everything free before
  \<open>i\<close> (or before \<open>releaseBegin\<close>, while a free run is open) has been released.
\<close>

definition init_inv :: "nat \<Rightarrow> sme \<Rightarrow> nat \<Rightarrow> nat \<Rightarrow> smeInit \<Rightarrow> bool" where
  "init_inv sq bm m i st \<longleftrightarrow>
     segs_inv sq (in_segments st) \<and> length (in_segments st) = m
     \<and> in_totalFree st = segs_total (in_segments st)
     \<and> (if in_inUse st
        then segs_free (in_segments st) = clearBits bm i \<and> 0 < i \<and> getBitMask bm (i - 1) \<noteq> 0
        else segs_free (in_segments st) = clearBits bm (in_releaseBegin st)
             \<and> (m - 1) * 2 ^ sq \<le> in_releaseBegin st \<and> in_releaseBegin st \<le> i
             \<and> (\<forall>p. in_releaseBegin st \<le> p \<and> p < i \<longrightarrow> getBitMask bm p = 0))"

lemma initRelease_ok:
  assumes inv: "init_inv sq (sh_pSME sh) m i st" and open_run: "\<not> in_inUse st"
    and m: "0 < m" and hi: "i \<le> m * 2 ^ sq"
  obtains segs where
    "initRelease i sh st = (SDB_OK, st\<lparr>in_segments := segs, in_totalFree := segs_total segs\<rparr>)"
    and "segs_inv sq segs" and "length segs = m" and "segs_free segs = clearBits (sh_pSME sh) i"
proof -
  let ?segs = "in_segments st" and ?rb = "in_releaseBegin st" and ?k = "m - 1"
  have sinv: "segs_inv sq ?segs" and len: "length ?segs = m"
    and tf: "in_totalFree st = segs_total ?segs"
    and free: "segs_free ?segs = clearBits (sh_pSME sh) ?rb" and lo: "?k * 2 ^ sq \<le> ?rb"
    and rb: "?rb \<le> i" and clear: "\<forall>p. ?rb \<le> p \<and> p < i \<longrightarrow> getBitMask (sh_pSME sh) p = 0"
    using inv open_run by (auto simp: init_inv_def)
  have k: "?k < length ?segs" using m len by simp
  have last: "last ?segs = ?segs ! ?k" using last_conv_nth [of ?segs] len m by auto
  have seg: "seg_inv (?segs ! ?k)" "ss_startExtent (?segs ! ?k) = int ?k * 2 ^ sq"
    "ss_totalSize (?segs ! ?k) = 2 ^ sq" using segs_invD [OF sinv k] by auto
  have "m * 2 ^ sq = ?k * 2 ^ sq + 2 ^ sq" using m by (cases m) auto
  then have size: "i - ?rb \<le> 2 ^ sq" "i \<le> ?k * 2 ^ sq + 2 ^ sq" using hi lo rb by linarith+
  have sq: "sq \<le> 15" using sinv by (simp add: segs_inv_def)
  have n16: "u16 (int i - int ?rb) = i - ?rb"
    using size(1) segPages_le [OF sq] rb by (simp add: u16_def)
  have disj: "pageRun (int ?rb) (i - ?rb) \<inter> seg_free (?segs ! ?k) = {}"
  proof -
    have "seg_free (?segs ! ?k) \<subseteq> segs_free ?segs" using k by (auto simp: segs_free_nth)
    then show ?thesis unfolding free by (auto simp: clearBits_def)
  qed
  obtain ss where rel: "seg_releasePages (int ?rb) (i - ?rb) False (?segs ! ?k) sh = (SDB_OK, ss, sh)"
    and ss: "seg_inv ss" "seg_free ss = seg_free (?segs ! ?k) \<union> pageRun (int ?rb) (i - ?rb)"
      "ss_startExtent ss = ss_startExtent (?segs ! ?k)" "ss_totalSize ss = ss_totalSize (?segs ! ?k)"
      "ss_totalFree ss = ss_totalFree (?segs ! ?k) + (i - ?rb)"
  proof (rule seg_releasePages_ok [OF seg(1) _ _ disj, of False sh])
    have "int (?k * 2 ^ sq) \<le> int ?rb" using lo by (simp only: of_nat_le_iff)
    then show "ss_startExtent (?segs ! ?k) \<le> int ?rb" using seg(2) by simp
    have "int i \<le> int (?k * 2 ^ sq + 2 ^ sq)" using size(2) by (simp only: of_nat_le_iff)
    then show "int ?rb + int (i - ?rb) \<le> ss_startExtent (?segs ! ?k) + int (ss_totalSize (?segs ! ?k))"
      using seg(2,3) rb by simp
  qed simp
  have upd: "butlast ?segs @ [ss] = ?segs[?k := ss]"
    using len m by (metis k length_0_conv less_nat_zero_code list_update_length append_butlast_last_id
        length_butlast)
  have sinv': "segs_inv sq (?segs[?k := ss])" by (rule segs_inv_update [OF sinv k ss(1,3,4)])
  have total: "segs_total (?segs[?k := ss]) = segs_total ?segs + (i - ?rb)"
    using segs_total_update [OF k, of ss] ss(5) by simp
  have "segs_total (?segs[?k := ss]) \<le> DMS_MAX_PG"
    using segs_total_le [OF sinv'] sinv' by (simp add: segs_inv_def)
  then have "u32 (int (in_totalFree st) + (int i - int ?rb)) = segs_total (?segs[?k := ss])"
    using total tf rb by (simp add: u32_def)
  then have "initRelease i sh st =
      (SDB_OK, st\<lparr>in_segments := ?segs[?k := ss], in_totalFree := segs_total (?segs[?k := ss])\<rparr>)"
    using rel by (simp add: initRelease_def last n16 upd)
  moreover have "segs_free (?segs[?k := ss]) = clearBits (sh_pSME sh) i"
  proof -
    have "seg_free (?segs ! ?k) \<subseteq> segs_free ?segs" using k by (auto simp: segs_free_nth)
    then have "segs_free (?segs[?k := ss]) = segs_free ?segs \<union> pageRun (int ?rb) (i - ?rb)"
      unfolding segs_free_update [OF sinv k] ss(2) by blast
    then show ?thesis using clearBits_extend [OF rb clear] free rb by simp
  qed
  ultimately show thesis using that sinv' len by simp
qed

lemma init_inv_closed:
  assumes "init_inv sq bm m i st" and "in_inUse st"
  shows "segs_free (in_segments st) = clearBits bm i"
  using assms by (simp add: init_inv_def)

text \<open>Opening the next segment at its first page.\<close>

lemma init_inv_open:
  assumes segs: "segs_inv sq segs" and len: "length segs = m" and free: "segs_free segs = clearBits bm i"
    and i: "i = m * 2 ^ sq" and room: "Suc m * 2 ^ sq \<le> DMS_MAX_PG"
  shows "init_inv sq bm (Suc m) i
    (st\<lparr>in_segments := segs @ [dmsSegmentSpace_new (int i) (u16 (2 ^ sq))],
       in_totalFree := segs_total segs, in_inUse := False, in_releaseBegin := i\<rparr>)"
proof -
  let ?new = "dmsSegmentSpace_new (int i) (u16 (2 ^ sq))"
  have sq: "sq \<le> 15" using segs by (simp add: segs_inv_def)
  have "i + 2 ^ sq \<le> DMS_MAX_PG" using room i by simp
  then have "int i + int (2 ^ sq) \<le> int DMS_MAX_PG" by (simp only: of_nat_le_iff flip: of_nat_add)
  then have "seg_inv ?new" using segPages_le [OF sq] sq by (intro seg_inv_new) simp_all
  then have "segs_inv sq (segs @ [?new])"
    using segs_inv_snoc [OF segs] room len sq i by (simp add: dmsSegmentSpace_new_def)
  then show ?thesis
    using len free i
    by (auto simp: init_inv_def segs_total_def dmsSegmentSpace_new_def seg_free_def)
qed

lemma initBoundary_ok:
  assumes inv: "init_inv sq (sh_pSME sh) ((i + 2 ^ sq - 1) div 2 ^ sq) i st"
    and room: "i < M * 2 ^ sq" "M * 2 ^ sq \<le> DMS_MAX_PG"
  obtains st1 where "initBoundary (\<lambda>_. True) sq i sh st = (SDB_OK, st1)"
    and "init_inv sq (sh_pSME sh) (Suc (i div 2 ^ sq)) i st1"
proof (cases "i mod 2 ^ sq = 0")
  case False
  then have "initBoundary (\<lambda>_. True) sq i sh st = (SDB_OK, st)"
    by (simp add: initBoundary_def and_exp_minus_one)
  moreover have m: "(i + 2 ^ sq - 1) div 2 ^ sq = Suc (i div 2 ^ sq)"
    using False ceil_div [of "2 ^ sq" i] by simp
  ultimately show thesis by (intro that [OF _ inv [unfolded m]])
next
  case True
  let ?m = "i div 2 ^ sq"
  have m: "(i + 2 ^ sq - 1) div 2 ^ sq = ?m" using True ceil_div [of "2 ^ sq" i] by simp
  have i: "i = ?m * 2 ^ sq" using True by (metis add.right_neutral div_mult_mod_eq)
  have "?m < M" using room(1) by (simp add: div_less_iff_less_mult)
  then have "Suc ?m * 2 ^ sq \<le> M * 2 ^ sq" by (intro mult_right_mono) auto
  then have room': "Suc ?m * 2 ^ sq \<le> DMS_MAX_PG" using room(2) by linarith
  obtain segs where pre: "(if in_segments st \<noteq> [] \<and> \<not> in_inUse st then initRelease i sh st else (SDB_OK, st))
      = (SDB_OK, st\<lparr>in_segments := segs, in_totalFree := segs_total segs\<rparr>)"
    and segs: "segs_inv sq segs" "length segs = ?m" "segs_free segs = clearBits (sh_pSME sh) i"
  proof (cases "in_segments st \<noteq> [] \<and> \<not> in_inUse st")
    case True
    have "length (in_segments st) = ?m" using inv unfolding m by (simp add: init_inv_def)
    with True have "0 < ?m" by (metis length_greater_0_conv)
    with initRelease_ok [OF inv [unfolded m]] True i that show thesis by auto
  next
    case False
    have st: "st\<lparr>in_segments := in_segments st, in_totalFree := segs_total (in_segments st)\<rparr> = st"
      using inv by (simp add: init_inv_def)
    have "segs_free (in_segments st) = clearBits (sh_pSME sh) i"
    proof (cases "in_inUse st")
      case True
      then show ?thesis using init_inv_closed [OF inv] by simp
    next
      case no: False
      with False have "in_segments st = []" by simp
      with inv m i have "i = 0" by (simp add: init_inv_def)
      with \<open>in_segments st = []\<close> show ?thesis by (simp add: clearBits_def)
    qed
    with that [of "in_segments st"] st inv m False show thesis by (simp add: init_inv_def)
  qed
  have "initBoundary (\<lambda>_. True) sq i sh st =
      (SDB_OK, st\<lparr>in_segments := segs @ [dmsSegmentSpace_new (int i) (u16 (2 ^ sq))],
        in_totalFree := segs_total segs, in_inUse := False, in_releaseBegin := i\<rparr>)"
    using True by (simp add: initBoundary_def and_exp_minus_one pre)
  with init_inv_open [OF segs i room', of st] that show thesis by blast
qed

lemma initStep_ok:
  assumes inv: "init_inv sq (sh_pSME sh) ((i + 2 ^ sq - 1) div 2 ^ sq) i st"
    and room: "i < M * 2 ^ sq" "M * 2 ^ sq \<le> DMS_MAX_PG"
  obtains st1 where "initStep (\<lambda>_. True) sq i sh st = (SDB_OK, st1)"
    and "init_inv sq (sh_pSME sh) ((Suc i + 2 ^ sq - 1) div 2 ^ sq) (Suc i) st1"
proof -
  let ?bm = "sh_pSME sh" and ?m = "Suc (i div 2 ^ sq)"
  obtain st1 where b: "initBoundary (\<lambda>_. True) sq i sh st = (SDB_OK, st1)"
    and inv1: "init_inv sq ?bm ?m i st1"
    by (rule initBoundary_ok [OF inv room])
  have m: "(Suc i + 2 ^ sq - 1) div 2 ^ sq = ?m"
    using div_add_self1 [of "2 ^ sq" i] by (simp add: add.commute)
  have hi: "i \<le> ?m * 2 ^ sq"
    by (metis div_mult_mod_eq le_add1 less_imp_le_nat dividend_less_div_times zero_less_numeral
        zero_less_power mult_Suc add.commute)
  consider (stop) "getBitMask ?bm i \<noteq> 0" "\<not> in_inUse st1"
    | (start) "getBitMask ?bm i = 0" "in_inUse st1"
    | (used) "getBitMask ?bm i \<noteq> 0" "in_inUse st1"
    | (run) "getBitMask ?bm i = 0" "\<not> in_inUse st1" by blast
  then show thesis
  proof cases
    case stop
    obtain segs where
      "initRelease i sh st1 = (SDB_OK, st1\<lparr>in_segments := segs, in_totalFree := segs_total segs\<rparr>)"
      and "segs_inv sq segs" "length segs = ?m" "segs_free segs = clearBits ?bm i"
      using initRelease_ok [OF inv1 stop(2) _ hi] by blast
    with stop b that show thesis unfolding m
      by (simp add: initStep_def init_inv_def clearBits_Suc)
  next
    case start
    have "(?m - 1) * 2 ^ sq \<le> i" by (simp add: div_times_less_eq_dividend)
    moreover have "\<forall>p. i \<le> p \<and> p < Suc i \<longrightarrow> getBitMask ?bm p = 0"
      using start(1) by (metis le_antisym less_Suc_eq_le)
    ultimately show thesis using start b inv1 that unfolding m
      by (simp add: initStep_def init_inv_def)
  next
    case used
    with b inv1 that show thesis unfolding m by (auto simp: initStep_def init_inv_def clearBits_Suc)
  next
    case run
    with b inv1 that show thesis unfolding m by (auto simp: initStep_def init_inv_def less_Suc_eq)
  qed
qed

lemma initLoop_ok:
  assumes "init_inv sq (sh_pSME sh) ((i + 2 ^ sq - 1) div 2 ^ sq) i st"
    and "i \<le> n" and "n \<le> M * 2 ^ sq" and "M * 2 ^ sq \<le> DMS_MAX_PG"
  shows "\<exists>st'. initLoop (\<lambda>_. True) sq [i..<n] sh st = (SDB_OK, st')
    \<and> init_inv sq (sh_pSME sh) ((n + 2 ^ sq - 1) div 2 ^ sq) n st'"
  using assms
proof (induction "n - i" arbitrary: i st)
  case 0
  then show ?case by simp
next
  case (Suc d)
  then have i: "i < n" by simp
  obtain st1 where step: "initStep (\<lambda>_. True) sq i sh st = (SDB_OK, st1)"
    and inv1: "init_inv sq (sh_pSME sh) ((Suc i + 2 ^ sq - 1) div 2 ^ sq) (Suc i) st1"
    using initStep_ok [OF Suc.prems(1), of M] i Suc.prems(3,4) by auto
  have "d = n - Suc i" and "Suc i \<le> n" using Suc.hyps(2) i by auto
  from Suc.hyps(1) [OF this(1) inv1 this(2) Suc.prems(3,4)] show ?case
    using step i by (simp add: upt_conv_Cons)
qed

lemma smeMgr_init_ok:
  assumes sq: "sq \<le> 15" and room: "M * 2 ^ sq \<le> DMS_MAX_PG"
  obtains mgr where "smeMgr_init (\<lambda>_. True) sq (M * 2 ^ sq) (smeMgr_new m) = (SDB_OK, mgr)"
    and "mgr_inv sq mgr" and "smeMgr_segmentNum mgr = M" and "sh_pSME (mgr_shared mgr) = m"
    and "mgr_free mgr = clearBits m (M * 2 ^ sq)"
proof -
  let ?sh = "mgr_shared (smeMgr_new m)" and ?n = "M * 2 ^ sq"
  let ?st0 = "\<lparr> in_segments = [], in_totalFree = 0, in_inUse = False, in_releaseBegin = 0 \<rparr> :: smeInit"
  have sh: "sh_pSME ?sh = m" "sh_freePos ?sh = 0" "sh_totalFree ?sh = 0" by (simp_all add: smeMgr_new_def)
  have segs0: "mgr_segments (smeMgr_new m) = []" by (simp add: smeMgr_new_def)
  have zero: "init_inv sq m 0 0 ?st0"
    using sq by (simp add: init_inv_def segs_inv_def segs_total_def clearBits_def)
  have ceil0: "(0 + 2 ^ sq - 1) div 2 ^ sq = (0::nat)" by simp
  have M: "(?n + 2 ^ sq - 1) div 2 ^ sq = M" using ceil_div [of "2 ^ sq" ?n] by simp
  obtain st where loop: "initLoop (\<lambda>_. True) sq [0..<?n] ?sh ?st0 = (SDB_OK, st)"
    and inv: "init_inv sq m M ?n st"
    using initLoop_ok [of sq ?sh 0 ?st0 ?n M] zero room unfolding sh ceil0 M by auto
  obtain segs where fin: "(if ?n > 0 \<and> getBitMask m (?n - 1) = DMS_SME_FREE
        then initRelease ?n ?sh st else (SDB_OK, st))
      = (SDB_OK, st\<lparr>in_segments := segs, in_totalFree := segs_total segs\<rparr>)"
    and segs: "segs_inv sq segs" "length segs = M" "segs_free segs = clearBits m ?n"
  proof (cases "?n > 0 \<and> getBitMask m (?n - 1) = 0")
    case True
    then have "\<not> in_inUse st" and "0 < M" using inv by (auto simp: init_inv_def)
    with initRelease_ok [of sq ?sh M ?n st] inv True that show thesis unfolding sh by auto
  next
    case False
    have st: "st\<lparr>in_segments := in_segments st, in_totalFree := segs_total (in_segments st)\<rparr> = st"
      using inv by (simp add: init_inv_def)
    have "segs_free (in_segments st) = clearBits m ?n"
    proof (cases "in_inUse st")
      case True
      then show ?thesis using init_inv_closed [OF inv] by simp
    next
      case no: False
      have le: "in_releaseBegin st \<le> ?n"
        and run: "\<forall>p. in_releaseBegin st \<le> p \<and> p < ?n \<longrightarrow> getBitMask m p = 0"
        using inv no by (simp_all add: init_inv_def)
      have "in_releaseBegin st = ?n"
      proof (rule ccontr)
        assume "in_releaseBegin st \<noteq> ?n"
        with le have "in_releaseBegin st \<le> ?n - 1" "?n - 1 < ?n" by linarith+
        with run have "getBitMask m (?n - 1) = 0" by blast
        with False \<open>?n - 1 < ?n\<close> show False by linarith
      qed
      then show ?thesis using inv no by (simp add: init_inv_def)
    qed
    with that [of "in_segments st"] st inv False show thesis by (auto simp: init_inv_def)
  qed
  have "smeMgr_init (\<lambda>_. True) sq ?n (smeMgr_new m) =
      (SDB_OK, \<lparr> mgr_segments = segs, mgr_shared = ?sh\<lparr>sh_totalFree := segs_total segs\<rparr> \<rparr>)"
    using loop fin segs0 by (simp add: smeMgr_init_def sh split del: if_split)
  moreover have "sme_agrees ?n m (clearBits m ?n)" by (auto simp: sme_agrees_def clearBits_def)
  ultimately show thesis
    using that segs sh by (simp add: mgr_inv_def freePos_ok_def mgr_free_def smeMgr_segmentNum_def)
qed

section \<open>The allocator interface\<close>

text \<open>
  What the rest of the storage layer relies on: a set of free pages, a reservation that takes
  a block out of it or reports that there is none, and a release that puts a block back and
  refuses one that is (partly) free already.  \<open>owned\<close> says which blocks may be released.
\<close>

locale page_allocator =
  fixes inv :: "'s \<Rightarrow> bool"
    and free :: "'s \<Rightarrow> int set"
    and owned :: "int \<Rightarrow> nat \<Rightarrow> 's \<Rightarrow> bool"
    and reserve :: "nat \<Rightarrow> 's \<Rightarrow> rc \<times> int \<times> nat \<times> 's"
    and release :: "int \<Rightarrow> nat \<Rightarrow> 's \<Rightarrow> rc \<times> 's"
  assumes reserve_rc: "inv s \<Longrightarrow> 0 < n \<Longrightarrow> reserve n s = (rc, p, k, s') \<Longrightarrow> rc = SDB_OK \<and> inv s'"
    and reserve_found: "inv s \<Longrightarrow> 0 < n \<Longrightarrow> reserve n s = (rc, p, k, s') \<Longrightarrow> p \<noteq> DMS_INVALID_EXTENT
      \<Longrightarrow> pageRun p n \<subseteq> free s \<and> free s' = free s - pageRun p n \<and> owned p n s'"
    and reserve_none: "inv s \<Longrightarrow> 0 < n \<Longrightarrow> reserve n s = (rc, p, k, s') \<Longrightarrow> p = DMS_INVALID_EXTENT
      \<Longrightarrow> free s' = free s"
    and release_ok: "inv s \<Longrightarrow> owned p n s \<Longrightarrow> pageRun p n \<inter> free s = {}
      \<Longrightarrow> \<exists>s'. release p n s = (SDB_OK, s') \<and> inv s' \<and> free s' = free s \<union> pageRun p n"
    and release_free: "inv s \<Longrightarrow> pageRun p n \<inter> free s \<noteq> {} \<Longrightarrow> release p n s = (SDB_SYS, s)"
begin

lemma two_blocks_disjoint:
  assumes "inv s" and "0 < n" and "0 < n'"
    and "reserve n s = (rc, p, k, s1)" and "p \<noteq> DMS_INVALID_EXTENT"
    and "reserve n' s1 = (rc', p', k', s2)" and "p' \<noteq> DMS_INVALID_EXTENT"
  shows "pageRun p n \<inter> pageRun p' n' = {}"
proof -
  have "inv s1" and "free s1 = free s - pageRun p n"
    using reserve_rc [OF assms(1,2,4)] reserve_found [OF assms(1,2,4,5)] by auto
  moreover have "pageRun p' n' \<subseteq> free s1"
    using reserve_found [OF \<open>inv s1\<close> assms(3,6,7)] by blast
  ultimately show ?thesis by blast
qed

lemma reserve_release:
  assumes "inv s" and "0 < n" and "reserve n s = (rc, p, k, s1)" and "p \<noteq> DMS_INVALID_EXTENT"
  shows "\<exists>s2. release p n s1 = (SDB_OK, s2) \<and> inv s2 \<and> free s2 = free s
    \<and> release p n s2 = (SDB_SYS, s2)"
proof -
  note F = reserve_found [OF assms] and I = reserve_rc [OF assms(1-3)]
  then have "pageRun p n \<inter> free s1 = {}" by blast
  then obtain s2 where s2: "release p n s1 = (SDB_OK, s2)" "inv s2" "free s2 = free s1 \<union> pageRun p n"
    using release_ok I F by blast
  then have "free s2 = free s" using F by blast
  moreover have "pageRun p n \<inter> free s2 \<noteq> {}" using s2(3) assms(2) by auto
  ultimately show ?thesis using s2 release_free by blast
qed

end

interpretation sme_alloc: page_allocator
  "mgr_inv sq" mgr_free "\<lambda>p n mgr. in_one_segment sq p n mgr" smeMgr_reservePages "smeMgr_releasePages sq"
  for sq
proof (unfold_locales, goal_cases)
  case (1 s n rc p k s')
  then show ?case using smeMgr_reservePages_cases [OF 1(1,2)] by auto
next
  case (2 s n rc p k s')
  from smeMgr_reservePages_cases [OF 2(1,2)] 2(3,4) obtain j where
    "pageRun p n \<subseteq> mgr_free s" "mgr_free s' = mgr_free s - pageRun p n"
    "smeMgr_segmentNum s' = smeMgr_segmentNum s" "j < smeMgr_segmentNum s"
    "int j * 2 ^ sq \<le> p" "p + int n \<le> (int j + 1) * 2 ^ sq" by auto
  with in_one_segmentI [of j s' sq p n] 2(2) show ?case by auto
next
  case (3 s n rc p k s')
  from smeMgr_reservePages_cases [OF 3(1,2)] show ?case
  proof (elim disjE exE conjE)
    fix j q mgr' assume "smeMgr_reservePages n s = (SDB_OK, q, smeMgr_segmentNum s, mgr')"
      and "int j * 2 ^ sq \<le> q"
    moreover have "0 \<le> int j * 2 ^ sq" by simp
    ultimately show ?thesis using 3(3,4) by auto
  next
    fix mgr' assume "smeMgr_reservePages n s = (SDB_OK, DMS_INVALID_EXTENT, smeMgr_segmentNum s, mgr')"
      and "mgr_segments mgr' = mgr_segments s"
    then show ?thesis using 3(3) by (simp add: mgr_free_def)
  qed
next
  case (4 s p n)
  then show ?case using smeMgr_releasePages_ok [OF 4] by metis
next
  case (5 s p n)
  then show ?case by (rule smeMgr_releasePages_overlap)
qed

end
