(* ===== verification/Dms_Types.thy ===== *)
theory Dms_Types
  imports Nova_Prelude
begin

text \<open>
  The shared types of \<open>src/src/include/dms.hpp\<close>: the page size constants, the record id with its
  comparison operators, and the state flags of a metadata block (a 16-bit word: the base state in
  bits 0--3, the running operation in bits 4--7, its phase in bits 8--11) with the macros that test
  and set them.  The comparison subtracts two signed 32-bit values and wraps; on the
  ids that the engine hands out it is the lexicographic order, which the \<open>linorder\<close> instance
  uses.
\<close>

section \<open>Constants\<close>

abbreviation (input) DMS_PAGE_SIZE4K :: nat where "DMS_PAGE_SIZE4K \<equiv> 4096"
abbreviation (input) DMS_PAGE_SIZE64K :: nat where "DMS_PAGE_SIZE64K \<equiv> 65536"
abbreviation (input) DMS_SEGMENT_SZ :: nat where "DMS_SEGMENT_SZ \<equiv> 134217728"
abbreviation (input) DMS_MAX_EXTENT_SZ :: nat where "DMS_MAX_EXTENT_SZ \<equiv> 134217728"
abbreviation (input) DMS_BEST_UP_EXTENT_SZ :: nat where "DMS_BEST_UP_EXTENT_SZ \<equiv> 16777216"
abbreviation (input) DMS_MME_SLOTS :: nat where "DMS_MME_SLOTS \<equiv> 4096"
abbreviation (input) DMS_INVALID_MBID :: nat where "DMS_INVALID_MBID \<equiv> 65535"

section \<open>Record ids\<close>

datatype dmsRecordID = RID (rid_extent: dmsExtentID) (rid_offset: dmsOffset)

definition rid_null :: dmsRecordID where
  "rid_null = RID DMS_INVALID_EXTENT DMS_INVALID_OFFSET"

definition rid_isNull :: "dmsRecordID \<Rightarrow> bool" where
  "rid_isNull r \<longleftrightarrow> DMS_INVALID_EXTENT = rid_extent r"

definition rid_isValid :: "dmsRecordID \<Rightarrow> bool" where
  "rid_isValid r \<longleftrightarrow> DMS_INVALID_EXTENT \<noteq> rid_extent r"

definition rid_resetMax :: dmsRecordID where
  "rid_resetMax = RID 0x7FFFFFFF 0x7FFFFFFF"

definition rid_resetMin :: dmsRecordID where
  "rid_resetMin = RID 0 0"

definition rid_compare :: "dmsRecordID \<Rightarrow> dmsRecordID \<Rightarrow> int" where
  "rid_compare l r =
     (if rid_extent l \<noteq> rid_extent r then s32 (rid_extent l - rid_extent r)
      else s32 (rid_offset l - rid_offset r))"

definition rid_eq :: "dmsRecordID \<Rightarrow> dmsRecordID \<Rightarrow> bool" where
  "rid_eq l r \<longleftrightarrow> rid_extent l = rid_extent r \<and> rid_offset l = rid_offset r"

definition rid_le :: "dmsRecordID \<Rightarrow> dmsRecordID \<Rightarrow> bool" where
  "rid_le l r \<longleftrightarrow> rid_compare l r \<le> 0"

definition rid_less :: "dmsRecordID \<Rightarrow> dmsRecordID \<Rightarrow> bool" where
  "rid_less l r \<longleftrightarrow> rid_compare l r < 0"

text \<open>The lexicographic order on record ids.\<close>

instantiation dmsRecordID :: linorder
begin

definition less_eq_dmsRecordID :: "dmsRecordID \<Rightarrow> dmsRecordID \<Rightarrow> bool" where
  "less_eq_dmsRecordID l r \<longleftrightarrow> rid_extent l < rid_extent r
     \<or> rid_extent l = rid_extent r \<and> rid_offset l \<le> rid_offset r"

definition less_dmsRecordID :: "dmsRecordID \<Rightarrow> dmsRecordID \<Rightarrow> bool" where
  "less_dmsRecordID l r \<longleftrightarrow> rid_extent l < rid_extent r
     \<or> rid_extent l = rid_extent r \<and> rid_offset l < rid_offset r"

instance
  by intro_classes
    (auto simp: less_eq_dmsRecordID_def less_dmsRecordID_def dmsRecordID.expand)

end

section \<open>Flags of a metadata block\<close>

type_synonym mbFlag = "16 word"

abbreviation (input) DMS_MB_FLAG_FREE :: mbFlag where "DMS_MB_FLAG_FREE \<equiv> 0x0000"
abbreviation (input) DMS_MB_FLAG_USED :: mbFlag where "DMS_MB_FLAG_USED \<equiv> 0x0001"
abbreviation (input) DMS_MB_FLAG_DROPED :: mbFlag where "DMS_MB_FLAG_DROPED \<equiv> 0x0002"
abbreviation (input) DMS_MB_FLAG_OFFLINE_REORG :: mbFlag where "DMS_MB_FLAG_OFFLINE_REORG \<equiv> 0x0010"
abbreviation (input) DMS_MB_FLAG_ONLINE_REORG :: mbFlag where "DMS_MB_FLAG_ONLINE_REORG \<equiv> 0x0020"
abbreviation (input) DMS_MB_FLAG_LOAD :: mbFlag where "DMS_MB_FLAG_LOAD \<equiv> 0x0040"

definition DMS_MB_BASE_FLAG :: "mbFlag \<Rightarrow> mbFlag" where "DMS_MB_BASE_FLAG x = x AND 0x000F"
definition DMS_MB_OPR_FLAG :: "mbFlag \<Rightarrow> mbFlag" where "DMS_MB_OPR_FLAG x = x AND 0x00F0"
definition DMS_MB_PHASE_FLAG :: "mbFlag \<Rightarrow> mbFlag" where "DMS_MB_PHASE_FLAG x = x AND 0x0F00"

definition DMS_IS_MB_FREE :: "mbFlag \<Rightarrow> bool" where "DMS_IS_MB_FREE x \<longleftrightarrow> DMS_MB_FLAG_FREE = x"
definition DMS_IS_MB_INUSE :: "mbFlag \<Rightarrow> bool" where "DMS_IS_MB_INUSE x \<longleftrightarrow> x AND DMS_MB_FLAG_USED \<noteq> 0"
definition DMS_SET_MB_INUSE :: "mbFlag \<Rightarrow> mbFlag" where "DMS_SET_MB_INUSE x = x OR DMS_MB_FLAG_USED"
definition DMS_IS_MB_DROPPED :: "mbFlag \<Rightarrow> bool" where "DMS_IS_MB_DROPPED x \<longleftrightarrow> DMS_MB_FLAG_DROPED = x"
definition DMS_IS_MB_NORMAL :: "mbFlag \<Rightarrow> bool" where "DMS_IS_MB_NORMAL x \<longleftrightarrow> DMS_MB_FLAG_USED = x"

text \<open>
  The states a metadata block is set to, each with the value its \<open>DMS_SET_MB_\<close> macro writes and
  the test of its \<open>DMS_IS_MB_\<close> macro.
\<close>

datatype mbState = MB_FREE | MB_DROPPED | MB_NORMAL | MB_OFFLINE_REORG | MB_ONLINE_REORG
  | MB_REORG_SHADOW_COPY | MB_REORG_TRUNCATE | MB_REORG_COPY_BACK | MB_REORG_REBUILD
  | MB_LOAD | MB_LOAD_LOAD | MB_LOAD_BUILD

fun DMS_SET_MB :: "mbState \<Rightarrow> mbFlag" where
  "DMS_SET_MB MB_FREE = DMS_MB_FLAG_FREE"
| "DMS_SET_MB MB_DROPPED = DMS_MB_FLAG_DROPED"
| "DMS_SET_MB MB_NORMAL = DMS_MB_FLAG_USED"
| "DMS_SET_MB MB_OFFLINE_REORG = DMS_MB_FLAG_OFFLINE_REORG OR DMS_MB_FLAG_USED"
| "DMS_SET_MB MB_ONLINE_REORG = DMS_MB_FLAG_ONLINE_REORG OR DMS_MB_FLAG_USED"
| "DMS_SET_MB MB_REORG_SHADOW_COPY = 0x0100 OR DMS_MB_FLAG_OFFLINE_REORG OR DMS_MB_FLAG_USED"
| "DMS_SET_MB MB_REORG_TRUNCATE = 0x0200 OR DMS_MB_FLAG_OFFLINE_REORG OR DMS_MB_FLAG_USED"
| "DMS_SET_MB MB_REORG_COPY_BACK = 0x0400 OR DMS_MB_FLAG_OFFLINE_REORG OR DMS_MB_FLAG_USED"
| "DMS_SET_MB MB_REORG_REBUILD = 0x0800 OR DMS_MB_FLAG_OFFLINE_REORG OR DMS_MB_FLAG_USED"
| "DMS_SET_MB MB_LOAD = DMS_MB_FLAG_LOAD OR DMS_MB_FLAG_USED"
| "DMS_SET_MB MB_LOAD_LOAD = 0x0100 OR DMS_MB_FLAG_LOAD OR DMS_MB_FLAG_USED"
| "DMS_SET_MB MB_LOAD_BUILD = 0x0200 OR DMS_MB_FLAG_LOAD OR DMS_MB_FLAG_USED"

definition DMS_IS_MB_OFFLINE_REORG :: "mbFlag \<Rightarrow> bool" where
  "DMS_IS_MB_OFFLINE_REORG x \<longleftrightarrow> x AND DMS_MB_FLAG_OFFLINE_REORG \<noteq> 0 \<and> DMS_IS_MB_INUSE x"

definition DMS_IS_MB_LOAD :: "mbFlag \<Rightarrow> bool" where
  "DMS_IS_MB_LOAD x \<longleftrightarrow> x AND DMS_MB_FLAG_LOAD \<noteq> 0 \<and> DMS_IS_MB_INUSE x"

fun DMS_IS_MB :: "mbState \<Rightarrow> mbFlag \<Rightarrow> bool" where
  "DMS_IS_MB MB_FREE x = DMS_IS_MB_FREE x"
| "DMS_IS_MB MB_DROPPED x = DMS_IS_MB_DROPPED x"
| "DMS_IS_MB MB_NORMAL x = DMS_IS_MB_NORMAL x"
| "DMS_IS_MB MB_OFFLINE_REORG x = DMS_IS_MB_OFFLINE_REORG x"
| "DMS_IS_MB MB_ONLINE_REORG x = (x AND DMS_MB_FLAG_ONLINE_REORG \<noteq> 0 \<and> DMS_IS_MB_INUSE x)"
| "DMS_IS_MB MB_REORG_SHADOW_COPY x = (x AND 0x0100 \<noteq> 0 \<and> DMS_IS_MB_OFFLINE_REORG x)"
| "DMS_IS_MB MB_REORG_TRUNCATE x = (x AND 0x0200 \<noteq> 0 \<and> DMS_IS_MB_OFFLINE_REORG x)"
| "DMS_IS_MB MB_REORG_COPY_BACK x = (x AND 0x0400 \<noteq> 0 \<and> DMS_IS_MB_OFFLINE_REORG x)"
| "DMS_IS_MB MB_REORG_REBUILD x = (x AND 0x0800 \<noteq> 0 \<and> DMS_IS_MB_OFFLINE_REORG x)"
| "DMS_IS_MB MB_LOAD x = DMS_IS_MB_LOAD x"
| "DMS_IS_MB MB_LOAD_LOAD x = (x AND 0x0100 \<noteq> 0 \<and> DMS_IS_MB_LOAD x)"
| "DMS_IS_MB MB_LOAD_BUILD x = (x AND 0x0200 \<noteq> 0 \<and> DMS_IS_MB_LOAD x)"

text \<open>The state whose test a phase of an operation also passes.\<close>

fun mbParent :: "mbState \<Rightarrow> mbState option" where
  "mbParent MB_REORG_SHADOW_COPY = Some MB_OFFLINE_REORG"
| "mbParent MB_REORG_TRUNCATE = Some MB_OFFLINE_REORG"
| "mbParent MB_REORG_COPY_BACK = Some MB_OFFLINE_REORG"
| "mbParent MB_REORG_REBUILD = Some MB_OFFLINE_REORG"
| "mbParent MB_LOAD_LOAD = Some MB_LOAD"
| "mbParent MB_LOAD_BUILD = Some MB_LOAD"
| "mbParent _ = None"

lemmas mb_test_defs = DMS_IS_MB_FREE_def DMS_IS_MB_DROPPED_def DMS_IS_MB_NORMAL_def
  DMS_IS_MB_INUSE_def DMS_IS_MB_OFFLINE_REORG_def DMS_IS_MB_LOAD_def

section \<open>Properties\<close>

text \<open>On record ids with non-negative parts (every id the engine stores), the wrapping
  comparison and the operators built on it are the lexicographic order.\<close>

theorem rid_compare_lexicographic:
  assumes "0 \<le> rid_extent l" and "rid_extent l < 2147483648" and "0 \<le> rid_offset l"
    and "rid_offset l < 2147483648" and "0 \<le> rid_extent r" and "rid_extent r < 2147483648"
    and "0 \<le> rid_offset r" and "rid_offset r < 2147483648"
  shows "(rid_less l r \<longleftrightarrow> l < r) \<and> (rid_le l r \<longleftrightarrow> l \<le> r) \<and> (rid_eq l r \<longleftrightarrow> l = r)
    \<and> (rid_compare l r = 0 \<longleftrightarrow> l = r)"
  using assms
  by (auto simp: rid_less_def rid_le_def rid_eq_def rid_compare_def cast_simps less_dmsRecordID_def
      less_eq_dmsRecordID_def dmsRecordID.expand)

theorem rid_compare_lexicographic_witness:
  "rid_less (RID 3 100) (RID 4 0) \<and> RID 3 100 < RID 4 0"
proof -
  have "RID 3 100 < RID 4 0" by (simp add: less_dmsRecordID_def)
  then show ?thesis using rid_compare_lexicographic [of "RID 3 100" "RID 4 0"] by simp
qed

text \<open>Setting a state of a metadata block makes exactly two kinds of tests true: the test of
  that state, and for a phase of an operation the test of the operation.\<close>

theorem mb_state_tests:
  "DMS_IS_MB t (DMS_SET_MB s) \<longleftrightarrow> t = s \<or> mbParent s = Some t"
  by (cases s; cases t; simp add: mb_test_defs)

end
