(* ===== verification/Dms_Record.thy ===== *)
theory Dms_Record
  imports Dms_Types
begin

text \<open>
  The record headers of \<open>src/src/dms/dmsRecord.hpp\<close>.  A record is a 16-byte header followed by its
  bytes: one word that packs the flag (low byte, little endian) and the size minus one (three
  bytes), the record's own offset, and two words that a live record uses as the offsets of its
  neighbours, a deleted record as the id of the next free record, and a capped record as its
  logical id.  The three classes are views of the same memory (the source casts between
  them), so they are one type here, \<open>dmsRecord\<close>, with three groups of accessors.  The main
  results: flag and size live in disjoint bits, sizes up to 16 MB survive the packing, the
  bytes written by \<open>setData\<close> are the bytes read back, compressed or not.
\<close>

section \<open>Little-endian words in a byte list\<close>

text \<open>Bytes of the body that were never written are zero.\<close>

definition byteAt :: "8 word list \<Rightarrow> nat \<Rightarrow> 8 word" where
  "byteAt bs i = (if i < length bs then bs ! i else 0)"

definition le32 :: "8 word list \<Rightarrow> 32 word" where
  "le32 bs = ucast (byteAt bs 0) OR push_bit 8 (ucast (byteAt bs 1))
     OR push_bit 16 (ucast (byteAt bs 2)) OR push_bit 24 (ucast (byteAt bs 3))"

definition bytes32 :: "32 word \<Rightarrow> 8 word list" where
  "bytes32 w = [ucast w, ucast (drop_bit 8 w), ucast (drop_bit 16 w), ucast (drop_bit 24 w)]"

lemma length_bytes32 [simp]: "length (bytes32 w) = 4"
  by (simp add: bytes32_def)

lemma byteAt_append: "byteAt (xs @ ys) i = (if i < length xs then xs ! i else byteAt ys (i - length xs))"
  by (auto simp: byteAt_def nth_append)

lemma le32_bytes32 [simp]: "le32 (bytes32 w @ bs) = w"
proof (rule bit_word_eqI)
  fix n assume n: "n < LENGTH(32)"
  have "n - 16 < 8" if "16 \<le> n" "\<not> bit w (24 + (n - 24))" "bit w n"
    using that by (cases "24 \<le> n") auto
  then show "bit (le32 (bytes32 w @ bs)) n = bit w n"
    using n by (auto simp: le32_def bytes32_def byteAt_def bit_simps not_less le_diff_conv2)
qed

text \<open>\<open>ossMemcpy\<close> over the first bytes of a body.\<close>

definition overwrite :: "8 word list \<Rightarrow> 8 word list \<Rightarrow> 8 word list" where
  "overwrite src body = src @ drop (length src) body"

lemma take_overwrite [simp]: "take (length src) (overwrite src body) = src"
  by (simp add: overwrite_def)

section \<open>Record data\<close>

abbreviation (input) UTIL_COMPRESSOR_INVALID :: "8 word" where "UTIL_COMPRESSOR_INVALID \<equiv> 255"

record dmsRecordData =
  rd_data :: "8 word list option"
  rd_len :: nat
  rd_compressType :: "8 word"
  rd_orgData :: "8 word list option"
  rd_orgLen :: nat

definition rd_reset :: dmsRecordData where
  "rd_reset = \<lparr> rd_data = None, rd_len = 0, rd_compressType = UTIL_COMPRESSOR_INVALID,
     rd_orgData = None, rd_orgLen = 0 \<rparr>"

definition rd_new :: "8 word list option \<Rightarrow> nat \<Rightarrow> 8 word \<Rightarrow> bool \<Rightarrow> dmsRecordData" where
  "rd_new dat len compressType isOrgData =
     \<lparr> rd_data = dat, rd_len = len, rd_compressType = compressType,
       rd_orgData = (if isOrgData then dat else None), rd_orgLen = (if isOrgData then len else 0) \<rparr>"

definition rd_isEmpty :: "dmsRecordData \<Rightarrow> bool" where
  "rd_isEmpty d \<longleftrightarrow> rd_data d = None \<or> rd_len d = 0"

definition rd_isCompressed :: "dmsRecordData \<Rightarrow> bool" where
  "rd_isCompressed d \<longleftrightarrow> UTIL_COMPRESSOR_INVALID \<noteq> rd_compressType d"

definition rd_setData :: "8 word list option \<Rightarrow> nat \<Rightarrow> 8 word \<Rightarrow> bool \<Rightarrow> dmsRecordData \<Rightarrow> dmsRecordData" where
  "rd_setData dat len compressType isOrgData d =
     (let d1 = d\<lparr>rd_data := dat, rd_len := len, rd_compressType := compressType\<rparr>
      in if isOrgData then d1\<lparr>rd_orgData := dat, rd_orgLen := len\<rparr> else d1)"

definition rd_setOrgData :: "8 word list option \<Rightarrow> nat \<Rightarrow> dmsRecordData \<Rightarrow> dmsRecordData" where
  "rd_setOrgData dat len d = d\<lparr>rd_orgData := dat, rd_orgLen := len\<rparr>"

definition rd_resetOrgData :: "dmsRecordData \<Rightarrow> dmsRecordData" where
  "rd_resetOrgData d = d\<lparr>rd_orgData := None, rd_orgLen := 0\<rparr>"

section \<open>The record\<close>

abbreviation (input) DMS_RECORD_MAX_SZ :: nat where "DMS_RECORD_MAX_SZ \<equiv> 16777216"
abbreviation (input) DMS_RECORD_USER_MAX_SZ :: nat where "DMS_RECORD_USER_MAX_SZ \<equiv> 16773120"
abbreviation (input) DMS_RECORD_METADATA_SZ :: nat where "DMS_RECORD_METADATA_SZ \<equiv> 16"
abbreviation (input) DMS_MIN_RECORD_SZ :: nat where "DMS_MIN_RECORD_SZ \<equiv> 36"
abbreviation (input) DMS_RECORD_FLAG_NORMAL :: "8 word" where "DMS_RECORD_FLAG_NORMAL \<equiv> 0x00"
abbreviation (input) DMS_RECORD_FLAG_OVERFLOWF :: "8 word" where "DMS_RECORD_FLAG_OVERFLOWF \<equiv> 0x01"
abbreviation (input) DMS_RECORD_FLAG_OVERFLOWT :: "8 word" where "DMS_RECORD_FLAG_OVERFLOWT \<equiv> 0x02"
abbreviation (input) DMS_RECORD_FLAG_DELETED :: "8 word" where "DMS_RECORD_FLAG_DELETED \<equiv> 0x04"
abbreviation (input) DMS_RECORD_FLAG_COMPRESSED :: "8 word" where "DMS_RECORD_FLAG_COMPRESSED \<equiv> 0x10"
abbreviation (input) DMS_RECORD_FLAG_DELETING :: "8 word" where "DMS_RECORD_FLAG_DELETING \<equiv> 0x80"

record dmsRecord =
  rec_flag_and_size :: "32 word"
  rec_myOffset :: dmsOffset
  rec_previousOffset :: dmsOffset
  rec_nextOffset :: dmsOffset
  rec_body :: "8 word list"

definition rec_getFlag :: "dmsRecord \<Rightarrow> 8 word" where
  "rec_getFlag r = ucast (rec_flag_and_size r)"

definition rec_getState :: "dmsRecord \<Rightarrow> 8 word" where
  "rec_getState r = rec_getFlag r AND 0x0F"

definition rec_getAttr :: "dmsRecord \<Rightarrow> 8 word" where
  "rec_getAttr r = rec_getFlag r AND 0xF0"

definition rec_isOvf :: "dmsRecord \<Rightarrow> bool" where
  "rec_isOvf r \<longleftrightarrow> DMS_RECORD_FLAG_OVERFLOWF = rec_getState r"

definition rec_isOvt :: "dmsRecord \<Rightarrow> bool" where
  "rec_isOvt r \<longleftrightarrow> DMS_RECORD_FLAG_OVERFLOWT = rec_getState r"

definition rec_isDeleted :: "dmsRecord \<Rightarrow> bool" where
  "rec_isDeleted r \<longleftrightarrow> DMS_RECORD_FLAG_DELETED = rec_getState r"

definition rec_isNormal :: "dmsRecord \<Rightarrow> bool" where
  "rec_isNormal r \<longleftrightarrow> DMS_RECORD_FLAG_NORMAL = rec_getState r"

definition rec_isCompressed :: "dmsRecord \<Rightarrow> bool" where
  "rec_isCompressed r \<longleftrightarrow> rec_getAttr r AND DMS_RECORD_FLAG_COMPRESSED \<noteq> 0"

definition rec_isDeleting :: "dmsRecord \<Rightarrow> bool" where
  "rec_isDeleting r \<longleftrightarrow> rec_getAttr r AND DMS_RECORD_FLAG_DELETING \<noteq> 0"

definition rec_getOvfRID :: "dmsRecord \<Rightarrow> dmsRecordID" where
  "rec_getOvfRID r =
     (if rec_isOvf r then RID (sint (le32 (rec_body r))) (sint (le32 (drop 4 (rec_body r)))) else rid_null)"

definition rec_getSize :: "dmsRecord \<Rightarrow> nat" where
  "rec_getSize r = unat (drop_bit 8 (rec_flag_and_size r) + 1)"

definition rec_getCompressType :: "dmsRecord \<Rightarrow> 8 word" where
  "rec_getCompressType r = byteAt (rec_body r) 3"

definition rec_getDataLength :: "dmsRecord \<Rightarrow> nat" where
  "rec_getDataLength r = unat (le32 (rec_body r) AND 0x00FFFFFF)"

definition rec_getData :: "dmsRecord \<Rightarrow> 8 word list" where
  "rec_getData r = (if rec_isCompressed r then drop 4 (rec_body r) else rec_body r)"

definition rec_setFlag :: "8 word \<Rightarrow> dmsRecord \<Rightarrow> dmsRecord" where
  "rec_setFlag flag r = r\<lparr>rec_flag_and_size := rec_flag_and_size r AND 0xFFFFFF00 OR ucast flag\<rparr>"

definition rec_setState :: "8 word \<Rightarrow> dmsRecord \<Rightarrow> dmsRecord" where
  "rec_setState state r = rec_setFlag (state AND 0x0F OR rec_getAttr r) r"

definition rec_setAttr :: "8 word \<Rightarrow> dmsRecord \<Rightarrow> dmsRecord" where
  "rec_setAttr attr r = rec_setFlag (rec_getFlag r OR attr AND 0xF0) r"

definition rec_unsetAttr :: "8 word \<Rightarrow> dmsRecord \<Rightarrow> dmsRecord" where
  "rec_unsetAttr attr r = rec_setFlag (rec_getFlag r AND NOT (attr AND 0xF0)) r"

definition rec_resetAttr :: "dmsRecord \<Rightarrow> dmsRecord" where
  "rec_resetAttr = rec_unsetAttr 0xF0"

definition rec_setOvf :: "dmsRecord \<Rightarrow> dmsRecord" where
  "rec_setOvf = rec_setState DMS_RECORD_FLAG_OVERFLOWF"

definition rec_setOvt :: "dmsRecord \<Rightarrow> dmsRecord" where
  "rec_setOvt = rec_setState DMS_RECORD_FLAG_OVERFLOWT"

definition rec_setNormal :: "dmsRecord \<Rightarrow> dmsRecord" where
  "rec_setNormal = rec_setState DMS_RECORD_FLAG_NORMAL"

definition rec_setDeleted :: "dmsRecord \<Rightarrow> dmsRecord" where
  "rec_setDeleted = rec_setState DMS_RECORD_FLAG_DELETED"

definition rec_setCompressed :: "dmsRecord \<Rightarrow> dmsRecord" where
  "rec_setCompressed = rec_setAttr DMS_RECORD_FLAG_COMPRESSED"

definition rec_unsetCompressed :: "dmsRecord \<Rightarrow> dmsRecord" where
  "rec_unsetCompressed = rec_unsetAttr DMS_RECORD_FLAG_COMPRESSED"

definition rec_setDeleting :: "dmsRecord \<Rightarrow> dmsRecord" where
  "rec_setDeleting = rec_setAttr DMS_RECORD_FLAG_DELETING"

definition rec_unsetDeleting :: "dmsRecord \<Rightarrow> dmsRecord" where
  "rec_unsetDeleting = rec_unsetAttr DMS_RECORD_FLAG_DELETING"

definition rec_setOvfRID :: "dmsRecordID \<Rightarrow> dmsRecord \<Rightarrow> dmsRecord" where
  "rec_setOvfRID rid r = r\<lparr>rec_body := overwrite
     (bytes32 (word_of_int (rid_extent rid)) @ bytes32 (word_of_int (rid_offset rid))) (rec_body r)\<rparr>"

definition rec_setSize :: "nat \<Rightarrow> dmsRecord \<Rightarrow> dmsRecord" where
  "rec_setSize sz r =
     r\<lparr>rec_flag_and_size := ucast (rec_getFlag r) OR push_bit 8 (word_of_nat sz - 1)\<rparr>"

definition rec_setCompressType :: "8 word \<Rightarrow> dmsRecord \<Rightarrow> dmsRecord" where
  "rec_setCompressType typ r = r\<lparr>rec_body := overwrite
     (bytes32 (le32 (rec_body r) OR push_bit 24 (ucast typ) AND 0xFF000000)) (rec_body r)\<rparr>"

definition rec_setData :: "dmsRecordData \<Rightarrow> dmsRecord \<Rightarrow> dmsRecord" where
  "rec_setData d r =
     (if rd_isEmpty d then r
      else let bytes = take (rd_len d) (the (rd_data d))
           in if rd_isCompressed d
              then (rec_setCompressed r)\<lparr>rec_body := overwrite
                     (bytes32 (word_of_nat (rd_len d) OR push_bit 24 (ucast (rd_compressType d)) AND 0xFF000000)
                       @ bytes) (rec_body r)\<rparr>
              else (rec_unsetCompressed r)\<lparr>rec_body := overwrite bytes (rec_body r)\<rparr>)"

section \<open>The deleted-record and capped-record views\<close>

definition del_isDeleted :: "dmsRecord \<Rightarrow> bool" where
  "del_isDeleted r \<longleftrightarrow> DMS_RECORD_FLAG_DELETED = rec_getFlag r"

definition del_getNextRID :: "dmsRecord \<Rightarrow> dmsRecordID" where
  "del_getNextRID r = RID (rec_previousOffset r) (rec_nextOffset r)"

definition del_setNextRID :: "dmsRecordID \<Rightarrow> dmsRecord \<Rightarrow> dmsRecord" where
  "del_setNextRID rid r = r\<lparr>rec_previousOffset := rid_extent rid, rec_nextOffset := rid_offset rid\<rparr>"

definition del_setDeleted :: "dmsRecord \<Rightarrow> dmsRecord" where
  "del_setDeleted = rec_setFlag DMS_RECORD_FLAG_DELETED"

definition cap_getRecordNo :: "dmsRecord \<Rightarrow> nat" where
  "cap_getRecordNo r = u32 (rec_myOffset r)"

definition cap_setRecordNo :: "nat \<Rightarrow> dmsRecord \<Rightarrow> dmsRecord" where
  "cap_setRecordNo recNo r = r\<lparr>rec_myOffset := s32 (int recNo)\<rparr>"

definition cap_getLogicalID :: "dmsRecord \<Rightarrow> int" where
  "cap_getLogicalID r = rec_nextOffset r * 4294967296 + int (u32 (rec_previousOffset r))"

definition cap_setLogicalID :: "int \<Rightarrow> dmsRecord \<Rightarrow> dmsRecord" where
  "cap_setLogicalID logicalID r =
     r\<lparr>rec_previousOffset := s32 logicalID, rec_nextOffset := s32 (logicalID div 4294967296)\<rparr>"

section \<open>Header lemmas\<close>

lemma high_mask_8: "(0xFFFFFF00 :: 32 word) = NOT (mask 8)"
  by (simp add: mask_eq_exp_minus_1)

lemma flag_of_packed: "(ucast (x AND 0xFFFFFF00 OR ucast (f :: 8 word) :: 32 word) :: 8 word) = f"
proof (rule bit_word_eqI)
  fix n assume n: "n < LENGTH(8)"
  show "bit (ucast (x AND 0xFFFFFF00 OR ucast f :: 32 word) :: 8 word) n = bit f n"
    unfolding high_mask_8 using n by (simp add: bit_simps)
qed

lemma size_of_packed: "drop_bit 8 (x AND 0xFFFFFF00 OR ucast (f :: 8 word) :: 32 word) = drop_bit 8 x"
  unfolding high_mask_8 by (intro bit_word_eqI) (auto simp: bit_simps dest: bit_imp_le_length)

lemma getFlag_setFlag [simp]: "rec_getFlag (rec_setFlag f r) = f"
  by (simp add: rec_getFlag_def rec_setFlag_def flag_of_packed)

lemma getSize_setFlag [simp]: "rec_getSize (rec_setFlag f r) = rec_getSize r"
  unfolding rec_getSize_def rec_setFlag_def by (cases r) (simp only: dmsRecord.simps size_of_packed)

lemma setFlag_frame [simp]:
  "rec_myOffset (rec_setFlag f r) = rec_myOffset r"
  "rec_previousOffset (rec_setFlag f r) = rec_previousOffset r"
  "rec_nextOffset (rec_setFlag f r) = rec_nextOffset r"
  "rec_body (rec_setFlag f r) = rec_body r"
  by (simp_all add: rec_setFlag_def)

lemmas flag_setters = rec_setState_def rec_setAttr_def rec_unsetAttr_def rec_resetAttr_def rec_setOvf_def
  rec_setOvt_def rec_setNormal_def rec_setDeleted_def rec_setCompressed_def rec_unsetCompressed_def
  rec_setDeleting_def rec_unsetDeleting_def del_setDeleted_def

lemma setSize_frame [simp]:
  "rec_myOffset (rec_setSize n r) = rec_myOffset r"
  "rec_previousOffset (rec_setSize n r) = rec_previousOffset r"
  "rec_nextOffset (rec_setSize n r) = rec_nextOffset r"
  "rec_body (rec_setSize n r) = rec_body r"
  by (simp_all add: rec_setSize_def)

lemma getFlag_setSize [simp]: "rec_getFlag (rec_setSize n r) = rec_getFlag r"
  by (rule bit_word_eqI) (simp add: rec_getFlag_def rec_setSize_def bit_simps)

lemma drop_push_24: "drop_bit 8 (ucast (f :: 8 word) OR push_bit 8 (x :: 32 word)) = take_bit 24 x"
  by (rule bit_word_eqI) (auto simp: bit_simps dest: bit_imp_le_length)

lemma getSize_setSize:
  assumes "0 < n" and "n \<le> DMS_RECORD_MAX_SZ"
  shows "rec_getSize (rec_setSize n r) = n"
proof -
  have w: "word_of_nat n - 1 = (word_of_nat (n - 1) :: 32 word)"
    using assms(1) by (simp add: of_nat_diff)
  have "take_bit 24 (word_of_nat (n - 1) :: 32 word) = word_of_nat (n - 1)"
    using assms by (intro take_bit_24_word32) simp
  then have "drop_bit 8 (rec_flag_and_size (rec_setSize n r)) = (word_of_nat n - 1 :: 32 word)"
    unfolding w by (cases r) (simp only: rec_setSize_def dmsRecord.simps drop_push_24 w)
  then have "drop_bit 8 (rec_flag_and_size (rec_setSize n r)) + 1 = (word_of_nat n :: 32 word)"
    by (simp only: diff_add_cancel)
  then show ?thesis using assms unfolding rec_getSize_def by simp
qed

lemma rec_getSize_le: "rec_getSize r \<le> DMS_RECORD_MAX_SZ"
proof -
  have "unat (drop_bit 8 (rec_flag_and_size r)) < 16777216"
    using unsigned_less [of "rec_flag_and_size r", where ?'a = nat]
    by (simp add: drop_bit_eq_div unat_div less_mult_imp_div_less)
  then show ?thesis by (simp add: rec_getSize_def unat_word_ariths)
qed

lemma getSize_flag_setters [simp]:
  "rec_getSize (rec_setState a r) = rec_getSize r" "rec_getSize (rec_setAttr a r) = rec_getSize r"
  "rec_getSize (rec_unsetAttr a r) = rec_getSize r"
  by (simp_all add: flag_setters)

lemma state_attr_split:
  "(f :: 8 word) AND 0x0F OR f AND 0xF0 = f"
  "(a AND 0x0F OR f AND 0xF0) AND 0x0F = a AND 0x0F"
  "(a AND 0x0F OR f AND 0xF0) AND 0xF0 = f AND 0xF0"
proof -
  have m: "(0x0F :: 8 word) = mask 4" "(0xF0 :: 8 word) = NOT (mask 4)"
    by (simp_all add: mask_eq_exp_minus_1)
  show "f AND 0x0F OR f AND 0xF0 = f" "(a AND 0x0F OR f AND 0xF0) AND 0x0F = a AND 0x0F"
    "(a AND 0x0F OR f AND 0xF0) AND 0xF0 = f AND 0xF0"
    unfolding m by (rule bit_word_eqI; auto simp: bit_simps)+
qed

lemma getState_setState [simp]: "rec_getState (rec_setState a r) = a AND 0x0F"
  by (simp add: rec_getState_def rec_setState_def rec_getAttr_def state_attr_split)

lemma getAttr_setState [simp]: "rec_getAttr (rec_setState a r) = rec_getAttr r"
  by (simp add: rec_setState_def rec_getAttr_def state_attr_split)

lemma compressed_bit:
  "rec_isCompressed (rec_setCompressed r)" "\<not> rec_isCompressed (rec_unsetCompressed r)"
proof -
  have bit4: "(x :: 8 word) AND 0x10 \<noteq> 0 \<longleftrightarrow> bit x 4" for x
    using and_exp_eq_0_iff_not_bit [of x 4] by simp
  have b: "bit (0x10 :: 8 word) 4" "bit (0xF0 :: 8 word) 4" by code_simp+
  show "rec_isCompressed (rec_setCompressed r)" "\<not> rec_isCompressed (rec_unsetCompressed r)"
    unfolding rec_isCompressed_def bit4 rec_getAttr_def flag_setters getFlag_setFlag
      bit_and_iff bit_or_iff bit_not_iff using b by simp_all
qed

section \<open>Properties\<close>

text \<open>A size of 1 byte to 16 MB survives the three-byte encoding, writing it leaves the flag
  alone, and every flag change leaves it alone.\<close>

theorem record_size_roundtrip:
  assumes "0 < n" and "n \<le> DMS_RECORD_MAX_SZ"
  shows "rec_getSize (rec_setFlag f (rec_setSize n r)) = n
    \<and> rec_getSize (rec_setState a (rec_setSize n r)) = n
    \<and> rec_getSize (rec_setAttr a (rec_setSize n r)) = n
    \<and> rec_getSize (rec_unsetAttr a (rec_setSize n r)) = n
    \<and> rec_getFlag (rec_setSize n (rec_setFlag f r)) = f"
  using getSize_setSize [OF assms] by simp

definition demoRecord :: dmsRecord where
  "demoRecord = \<lparr> rec_flag_and_size = 0, rec_myOffset = 36, rec_previousOffset = -1,
     rec_nextOffset = -1, rec_body = [] \<rparr>"

theorem record_size_roundtrip_witness:
  "rec_getSize (rec_setFlag DMS_RECORD_FLAG_DELETED (rec_setSize DMS_RECORD_MAX_SZ demoRecord)) = DMS_RECORD_MAX_SZ"
  using record_size_roundtrip [of DMS_RECORD_MAX_SZ] by simp

text \<open>The bytes that \<open>setData\<close> copies are the bytes at \<open>getData\<close>, and the compressed flag
  tells how they were stored; for compressed data the stored length and compressor type are
  read back as well.\<close>

theorem record_data_roundtrip:
  assumes "rd_data d = Some bytes" and "rd_len d = length bytes" and "0 < length bytes"
    and "length bytes < DMS_RECORD_MAX_SZ"
  shows "take (length bytes) (rec_getData (rec_setData d r)) = bytes
    \<and> (rec_isCompressed (rec_setData d r) \<longleftrightarrow> rd_isCompressed d)
    \<and> (rd_isCompressed d \<longrightarrow> rec_getDataLength (rec_setData d r) = length bytes
        \<and> rec_getCompressType (rec_setData d r) = rd_compressType d)"
proof (cases "rd_isCompressed d")
  case True
  let ?w = "word_of_nat (length bytes) OR push_bit 24 (ucast (rd_compressType d)) AND 0xFF000000 :: 32 word"
  have len: "unat (word_of_nat (length bytes) :: 32 word) = length bytes"
    using assms(4) by (intro unat_word32) simp
  have small: "take_bit 24 (word_of_nat (length bytes) :: 32 word) = word_of_nat (length bytes)"
    using assms(4) by (intro take_bit_24_word32) simp
  have hi: "\<not> bit (word_of_nat (length bytes) :: 32 word) n" if "24 \<le> n" for n
    using small that by (metis bit_take_bit_iff not_le)
  have m: "(0x00FFFFFF :: 32 word) = mask 24" "(0xFF000000 :: 32 word) = NOT (mask 24)"
    by (simp_all add: mask_eq_exp_minus_1)
  have "?w AND 0x00FFFFFF = take_bit 24 (word_of_nat (length bytes))"
    unfolding m by (rule bit_word_eqI) (auto simp: bit_simps)
  then have "?w AND 0x00FFFFFF = word_of_nat (length bytes)" by (simp only: small)
  moreover have "(ucast (drop_bit 24 ?w) :: 8 word) = rd_compressType d"
    unfolding m by (rule bit_word_eqI) (use hi in \<open>auto simp: bit_simps\<close>)
  moreover have "rec_isCompressed (rec_setData d r)"
    using assms True compressed_bit(1) [of r]
    by (simp add: rec_setData_def rd_isEmpty_def rec_isCompressed_def rec_getAttr_def rec_getFlag_def)
  ultimately show ?thesis
    using assms True len
    by (simp add: rec_setData_def rd_isEmpty_def rec_getData_def rec_getDataLength_def
        rec_getCompressType_def overwrite_def byteAt_append)
      (simp add: bytes32_def)
next
  case False
  moreover have "\<not> rec_isCompressed (rec_setData d r)"
    using assms False compressed_bit(2) [of r]
    by (simp add: rec_setData_def rd_isEmpty_def rec_isCompressed_def rec_getAttr_def rec_getFlag_def)
  ultimately show ?thesis using assms
    by (simp add: rec_setData_def rd_isEmpty_def rec_getData_def overwrite_def)
qed

theorem record_data_roundtrip_witness:
  "take 5 (rec_getData (rec_setData (rd_new (Some [5, 0, 0, 0, 0]) 5 1 False) demoRecord)) = [5, 0, 0, 0, 0]
    \<and> rec_getDataLength (rec_setData (rd_new (Some [5, 0, 0, 0, 0]) 5 1 False) demoRecord) = 5"
proof -
  have len: "length [5 :: 8 word, 0, 0, 0, 0] = 5" by simp
  from record_data_roundtrip [of "rd_new (Some [5, 0, 0, 0, 0]) 5 1 False" "[5, 0, 0, 0, 0]" demoRecord,
      unfolded len]
  show ?thesis by (simp add: rd_new_def rd_isCompressed_def)
qed

text \<open>The three views of the header overlay the same words without loss: the next id of
  a deleted record, and the record number and logical id of a capped record, are read back.\<close>

theorem record_views_roundtrip:
  assumes "recNo < 4294967296" and "- 9223372036854775808 \<le> i" and "i < 9223372036854775808"
  shows "del_getNextRID (del_setNextRID rid r) = rid
    \<and> cap_getRecordNo (cap_setRecordNo recNo r) = recNo
    \<and> cap_getLogicalID (cap_setLogicalID i r) = i
    \<and> rec_getSize (del_setNextRID rid r) = rec_getSize r
    \<and> rec_getSize (cap_setLogicalID i (cap_setRecordNo recNo r)) = rec_getSize r"
proof -
  have "u32 (s32 i) = nat (i mod 4294967296)" "u32 (s32 (int recNo)) = recNo"
    using assms(1) by (simp_all add: u32_def s32_def mod_diff_left_eq)
  moreover have "s32 (i div 4294967296) = i div 4294967296" using assms(2,3) by (intro s32_id) linarith+
  ultimately show ?thesis
    by (simp add: del_getNextRID_def del_setNextRID_def cap_getRecordNo_def cap_setRecordNo_def
        cap_getLogicalID_def cap_setLogicalID_def rec_getSize_def)
qed

theorem record_views_roundtrip_witness:
  "del_getNextRID (del_setNextRID (RID 7 68) demoRecord) = RID 7 68
    \<and> cap_getLogicalID (cap_setLogicalID 5000000000 demoRecord) = 5000000000"
  using record_views_roundtrip [of 0 5000000000] by simp

end
