(* ===== verification/Dms_Extent.thy ===== *)
theory Dms_Extent
  imports Dms_Record
begin

text \<open>
  The extent headers of \<open>src/src/dms/dmsExtent.hpp\<close>: data extents (a chain of records and a chain
  of extents), the meta extent of a collection (the first and last data extent of every segment,
  stored as an array of pairs after the header), the dictionary extent and the option extent.
  The \<open>init\<close> and \<open>validate\<close> functions of the four structures are the operations.  The header of a
  data extent has 36 bytes.
\<close>

abbreviation (input) DMS_EXTENT_METADATA_SZ :: nat where "DMS_EXTENT_METADATA_SZ \<equiv> 36"
abbreviation (input) DMS_METAEXTENT_HEADER_SZ :: nat where "DMS_METAEXTENT_HEADER_SZ \<equiv> 16"
abbreviation (input) DMS_EXTENT_FLAG_INUSE :: "8 word" where "DMS_EXTENT_FLAG_INUSE \<equiv> 0x01"
abbreviation (input) DMS_EXTENT_CURRENT_V :: "8 word" where "DMS_EXTENT_CURRENT_V \<equiv> 1"

section \<open>Data extents\<close>

record dmsExtent =
  ext_eyeCatcher :: string
  ext_blockSize :: nat
  ext_mbID :: nat
  ext_flag :: "8 word"
  ext_version :: "8 word"
  ext_logicID :: dmsExtentID
  ext_prevExtent :: dmsExtentID
  ext_nextExtent :: dmsExtentID
  ext_recCount :: nat
  ext_firstRecordOffset :: dmsOffset
  ext_lastRecordOffset :: dmsOffset
  ext_freeSpace :: int

definition ext_init :: "nat \<Rightarrow> nat \<Rightarrow> nat \<Rightarrow> dmsExtent" where
  "ext_init numPages mbID totalSize =
     \<lparr> ext_eyeCatcher = ''DE'', ext_blockSize = numPages, ext_mbID = mbID,
       ext_flag = DMS_EXTENT_FLAG_INUSE, ext_version = DMS_EXTENT_CURRENT_V,
       ext_logicID = DMS_INVALID_EXTENT, ext_prevExtent = DMS_INVALID_EXTENT,
       ext_nextExtent = DMS_INVALID_EXTENT, ext_recCount = 0,
       ext_firstRecordOffset = DMS_INVALID_OFFSET, ext_lastRecordOffset = DMS_INVALID_OFFSET,
       ext_freeSpace = s32 (int totalSize - int DMS_EXTENT_METADATA_SZ) \<rparr>"

definition ext_validate :: "nat \<Rightarrow> dmsExtent \<Rightarrow> bool" where
  "ext_validate mbID e \<longleftrightarrow> ext_eyeCatcher e = ''DE'' \<and> ext_flag e = DMS_EXTENT_FLAG_INUSE
     \<and> \<not> (DMS_INVALID_MBID \<noteq> mbID \<and> ext_mbID e \<noteq> mbID)"

section \<open>Meta extents\<close>

text \<open>The array after the header is the list of the pairs (first, last) per segment.\<close>

record dmsMetaExtent =
  mex_eyeCatcher :: string
  mex_blockSize :: nat
  mex_mbID :: nat
  mex_flag :: "8 word"
  mex_version :: "8 word"
  mex_segNum :: nat
  mex_usedSegNum :: nat
  mex_array :: "(dmsExtentID \<times> dmsExtentID) list"

definition mex_init :: "nat \<Rightarrow> nat \<Rightarrow> nat \<Rightarrow> dmsMetaExtent" where
  "mex_init numPages mbID segNum =
     \<lparr> mex_eyeCatcher = ''ME'', mex_blockSize = numPages, mex_mbID = mbID,
       mex_flag = DMS_EXTENT_FLAG_INUSE, mex_version = 1, mex_segNum = segNum, mex_usedSegNum = 0,
       mex_array = replicate segNum (DMS_INVALID_EXTENT, DMS_INVALID_EXTENT) \<rparr>"

definition mex_reset :: "dmsMetaExtent \<Rightarrow> dmsMetaExtent" where
  "mex_reset m = m\<lparr>mex_usedSegNum := 0,
     mex_array := replicate (mex_segNum m) (DMS_INVALID_EXTENT, DMS_INVALID_EXTENT)\<rparr>"

definition mex_validate :: "nat \<Rightarrow> dmsMetaExtent \<Rightarrow> bool" where
  "mex_validate mbID m \<longleftrightarrow> mex_eyeCatcher m = ''ME'' \<and> mex_flag m = DMS_EXTENT_FLAG_INUSE
     \<and> \<not> (DMS_INVALID_MBID \<noteq> mbID \<and> mex_mbID m \<noteq> mbID)"

section \<open>Dictionary and option extents\<close>

record dmsDictExtent =
  dex_eyeCatcher :: string
  dex_blockSize :: nat
  dex_mbID :: nat
  dex_flag :: "8 word"
  dex_version :: "8 word"
  dex_dictLen :: nat
  dex_body :: "8 word list"

definition dex_init :: "nat \<Rightarrow> nat \<Rightarrow> 8 word list \<Rightarrow> dmsDictExtent" where
  "dex_init numPages mbID body =
     \<lparr> dex_eyeCatcher = ''CE'', dex_blockSize = numPages, dex_mbID = mbID,
       dex_flag = DMS_EXTENT_FLAG_INUSE, dex_version = 1, dex_dictLen = 0, dex_body = body \<rparr>"

definition dex_setDict :: "8 word list \<Rightarrow> nat \<Rightarrow> dmsDictExtent \<Rightarrow> dmsDictExtent" where
  "dex_setDict dict dictLen d =
     d\<lparr>dex_body := overwrite (take dictLen dict) (dex_body d), dex_dictLen := dictLen\<rparr>"

definition dex_validate :: "nat \<Rightarrow> dmsDictExtent \<Rightarrow> bool" where
  "dex_validate mbID d \<longleftrightarrow> dex_eyeCatcher d = ''CE'' \<and> dex_flag d = DMS_EXTENT_FLAG_INUSE
     \<and> \<not> (DMS_INVALID_MBID \<noteq> mbID \<and> dex_mbID d \<noteq> mbID)"

record dmsOptExtent =
  oex_eyeCatcher :: string
  oex_blockSize :: nat
  oex_mbID :: nat
  oex_flag :: "8 word"
  oex_version :: "8 word"
  oex_optSize :: nat
  oex_body :: "8 word list"

definition oex_init :: "nat \<Rightarrow> nat \<Rightarrow> 8 word list \<Rightarrow> dmsOptExtent" where
  "oex_init numPages mbID body =
     \<lparr> oex_eyeCatcher = ''OE'', oex_blockSize = numPages, oex_mbID = mbID,
       oex_flag = DMS_EXTENT_FLAG_INUSE, oex_version = 1, oex_optSize = 0, oex_body = body \<rparr>"

definition oex_validate :: "nat \<Rightarrow> dmsOptExtent \<Rightarrow> bool" where
  "oex_validate mbID d \<longleftrightarrow> oex_eyeCatcher d = ''OE'' \<and> oex_flag d = DMS_EXTENT_FLAG_INUSE
     \<and> \<not> (DMS_INVALID_MBID \<noteq> mbID \<and> oex_mbID d \<noteq> mbID)"

definition oex_setOption :: "8 word list \<Rightarrow> nat \<Rightarrow> dmsOptExtent \<Rightarrow> dmsOptExtent" where
  "oex_setOption opt optSize d =
     d\<lparr>oex_body := overwrite (take optSize opt) (oex_body d), oex_optSize := optSize\<rparr>"

text \<open>\<open>getOption\<close> hands out the address of the bytes and their number.\<close>

definition oex_getOption :: "dmsOptExtent \<Rightarrow> rc \<times> (8 word list \<times> nat) option" where
  "oex_getOption d =
     (if oex_optSize d = 0 then (SDB_SYS, None) else (SDB_OK, Some (oex_body d, oex_optSize d)))"

section \<open>Properties\<close>

text \<open>A freshly initialised extent passes its own validation for its collection (or for
  any), fails it for another collection, and no other kind of extent passes it.\<close>

theorem extent_kinds_validate:
  "(ext_validate mbID (ext_init n k tot) \<longleftrightarrow> mbID = k \<or> mbID = DMS_INVALID_MBID)
    \<and> (mex_validate mbID (mex_init n k segs) \<longleftrightarrow> mbID = k \<or> mbID = DMS_INVALID_MBID)
    \<and> (dex_validate mbID (dex_init n k b) \<longleftrightarrow> mbID = k \<or> mbID = DMS_INVALID_MBID)
    \<and> (oex_validate mbID (oex_init n k b) \<longleftrightarrow> mbID = k \<or> mbID = DMS_INVALID_MBID)
    \<and> distinct [ext_eyeCatcher (ext_init n k tot), mex_eyeCatcher (mex_init n k segs),
        dex_eyeCatcher (dex_init n k b), oex_eyeCatcher (oex_init n k b)]"
  by (auto simp: ext_validate_def ext_init_def mex_validate_def mex_init_def dex_validate_def
      dex_init_def oex_validate_def oex_init_def)

text \<open>The option bytes stored in an option extent are read back; an extent without options
  reports an error.\<close>

theorem option_extent_roundtrip:
  "(opt \<noteq> [] \<longrightarrow> (\<exists>bytes. oex_getOption (oex_setOption opt (length opt) d) = (SDB_OK, Some (bytes, length opt))
      \<and> take (length opt) bytes = opt))
    \<and> oex_getOption (oex_init n k b) = (SDB_SYS, None)"
  by (auto simp: oex_getOption_def oex_setOption_def oex_init_def)

theorem option_extent_roundtrip_witness:
  "oex_getOption (oex_setOption [1, 2] 2 (oex_init 1 0 [])) = (SDB_OK, Some ([1, 2], 2))
    \<and> oex_getOption (oex_init 1 0 []) = (SDB_SYS, None)"
proof -
  have "oex_getOption (oex_setOption [1, 2] 2 (oex_init 1 0 [])) = (SDB_OK, Some ([1, 2], 2))"
    by code_simp
  then show ?thesis using option_extent_roundtrip [of "[1, 2]" "oex_init 1 0 []" 1 0 "[]"] by simp
qed

end
