(* ===== verification/Dms_DirtyList.thy ===== *)
theory Dms_DirtyList
  imports Dms_SME
begin

text \<open>
  The dirty-page list of a storage unit (\<open>_dmsDirtyList\<close> in \<open>dmsBlockData.hpp\<close> and
  \<open>dmsBlockData.cpp\<close>): a bitmap with the bit order of the space management extent, the smallest and
  the largest position that was marked since the last cleaning, and a flag that declares
  everything dirty.  The two scans skip a whole byte when it is zero.  The results: marking,
  cleaning and resizing keep the bounds right, the scan returns the dirty positions in
  order and misses none, and \<open>dirtyNumber\<close> counts them.
\<close>

section \<open>State and operations\<close>

record dmsDirtyList =
  dl_pData :: sme
  dl_capacity :: nat
  dl_size :: nat
  dl_fullDirty :: bool
  dl_dirtyBegin :: nat
  dl_dirtyEnd :: nat

definition dirtyList_new :: dmsDirtyList where
  "dirtyList_new = \<lparr> dl_pData = sme_new, dl_capacity = 0, dl_size = 0, dl_fullDirty = False,
     dl_dirtyBegin = 0x7FFFFFFF, dl_dirtyEnd = 0 \<rparr>"

definition dirtyList_destory :: "dmsDirtyList \<Rightarrow> dmsDirtyList" where
  "dirtyList_destory d = dirtyList_new"

definition dirtyList_cleanAll :: "dmsDirtyList \<Rightarrow> dmsDirtyList" where
  "dirtyList_cleanAll d =
     d\<lparr>dl_dirtyBegin := 0x7FFFFFFF, dl_dirtyEnd := 0, dl_fullDirty := False,
       dl_pData := (\<lambda>i. if i < drop_bit 3 (dl_size d + 7) then 0 else dl_pData d i)\<rparr>"

definition dirtyList_init :: "bool \<Rightarrow> nat \<Rightarrow> dmsDirtyList \<Rightarrow> rc \<times> dmsDirtyList" where
  "dirtyList_init mallocOk capacity d =
     (if capacity \<le> dl_capacity d then (SDB_OK, dirtyList_cleanAll d)
      else let d1 = dirtyList_destory d; arrayNum = drop_bit 3 (capacity + 7)
           in if \<not> mallocOk then (SDB_OOM, d1)
              else (SDB_OK, d1\<lparr>dl_pData := (\<lambda>_. 0), dl_capacity := push_bit 3 arrayNum\<rparr>))"

definition dirtyList_setSize :: "nat \<Rightarrow> dmsDirtyList \<Rightarrow> dmsDirtyList" where
  "dirtyList_setSize n d = d\<lparr>dl_size := (if n \<le> dl_capacity d then n else dl_capacity d)\<rparr>"

definition setDirty :: "nat \<Rightarrow> dmsDirtyList \<Rightarrow> dmsDirtyList" where
  "setDirty pos d =
     d\<lparr>dl_pData := setBitMask pos (dl_pData d),
       dl_dirtyBegin := swapLesserThan (dl_dirtyBegin d) pos,
       dl_dirtyEnd := swapGreaterThan (dl_dirtyEnd d) pos\<rparr>"

definition cleanDirty :: "nat \<Rightarrow> dmsDirtyList \<Rightarrow> dmsDirtyList" where
  "cleanDirty pos d = d\<lparr>dl_pData := freeBitMask pos (dl_pData d)\<rparr>"

definition isDirty :: "dmsDirtyList \<Rightarrow> nat \<Rightarrow> bool" where
  "isDirty d pos \<longleftrightarrow> dl_fullDirty d \<or> getBitMask (dl_pData d) pos \<noteq> 0"

definition setFullDirty :: "dmsDirtyList \<Rightarrow> dmsDirtyList" where
  "setFullDirty d = d\<lparr>dl_fullDirty := True\<rparr>"

definition isFullDirty :: "dmsDirtyList \<Rightarrow> bool" where
  "isFullDirty d = dl_fullDirty d"

text \<open>\<open>nextDirtyPos\<close> returns the position and the new value of the reference argument \<open>fromPos\<close>.\<close>

function nextDirtyPos :: "dmsDirtyList \<Rightarrow> nat \<Rightarrow> int \<times> nat" where
  "nextDirtyPos d fromPos =
     (if fromPos < dl_size d
      then (if \<not> dl_fullDirty d \<and> fromPos AND 7 = 0 \<and> dl_pData d (drop_bit 3 fromPos) = 0
            then nextDirtyPos d (fromPos + 8)
            else if \<not> isDirty d fromPos then nextDirtyPos d (fromPos + 1)
            else (int fromPos, fromPos + 1))
      else (- 1, fromPos))"
  by pat_completeness auto
termination
  by (relation "measure (\<lambda>(d, p). dl_size d - p)") auto

declare nextDirtyPos.simps [simp del]

function dirtyNumberLoop :: "dmsDirtyList \<Rightarrow> nat \<Rightarrow> nat \<Rightarrow> nat \<Rightarrow> nat" where
  "dirtyNumberLoop d beginPos endPos dirtyNum =
     (if beginPos < endPos
      then (if beginPos AND 7 = 0 \<and> dl_pData d (drop_bit 3 beginPos) = 0
            then dirtyNumberLoop d (beginPos + 8) endPos dirtyNum
            else dirtyNumberLoop d (beginPos + 1) endPos
                   (if isDirty d beginPos then dirtyNum + 1 else dirtyNum))
      else dirtyNum)"
  by pat_completeness auto
termination
  by (relation "measure (\<lambda>(d, b, e, n). e - b)") auto

declare dirtyNumberLoop.simps [simp del]

definition dirtyNumber :: "dmsDirtyList \<Rightarrow> nat" where
  "dirtyNumber d =
     (if dl_fullDirty d then dl_size d
      else dirtyNumberLoop d (dl_dirtyBegin d) (dl_dirtyEnd d + 1) 0)"

definition dirtyGap :: "dmsDirtyList \<Rightarrow> nat" where
  "dirtyGap d =
     (if dl_fullDirty d then dl_size d
      else if dl_dirtyBegin d > dl_dirtyEnd d then 0
      else dl_dirtyEnd d - dl_dirtyBegin d + 1)"

section \<open>Invariant\<close>

text \<open>Every marked position is inside the list and between the two bounds.\<close>

definition dirty_inv :: "dmsDirtyList \<Rightarrow> bool" where
  "dirty_inv d \<longleftrightarrow> dl_size d \<le> dl_capacity d \<and> dl_capacity d < 0x7FFFFFFF \<and>
     (\<forall>p. getBitMask (dl_pData d) p \<noteq> 0 \<longrightarrow> p < dl_size d \<and> dl_dirtyBegin d \<le> p \<and> p \<le> dl_dirtyEnd d)"

definition dirtySet :: "dmsDirtyList \<Rightarrow> nat set" where
  "dirtySet d = {p. p < dl_size d \<and> isDirty d p}"

lemma getBitMask_zero_byte: "m (p div 8) = 0 \<Longrightarrow> getBitMask m p = 0"
  by (simp add: getBitMask_bit)

lemma zero_byte_clear:
  assumes "b AND 7 = 0" and "m (drop_bit 3 b) = 0" and "b \<le> p" and "p < b + 8"
  shows "getBitMask m p = 0"
proof -
  obtain k where "b = k * 8" using assms(1) by (auto simp: nat_and_7 dvd_def mult.commute)
  then have "p div 8 = b div 8" using assms(3,4) by (intro div_nat_eqI) simp_all
  then show ?thesis using assms(2) by (intro getBitMask_zero_byte) (simp add: nat_drop_3)
qed

lemma dirty_inv_new: "dirty_inv dirtyList_new"
  by (simp add: dirty_inv_def dirtyList_new_def)

lemma getBitMask_cleanAll:
  "getBitMask (dl_pData (dirtyList_cleanAll d)) p
    = (if p div 8 < (dl_size d + 7) div 8 then 0 else getBitMask (dl_pData d) p)"
  by (simp add: dirtyList_cleanAll_def getBitMask_bit nat_drop_3)

lemma dirty_inv_cleanAll:
  assumes "dirty_inv d"
  shows "dirty_inv (dirtyList_cleanAll d) \<and> dirtySet (dirtyList_cleanAll d) = {}"
proof -
  have "getBitMask (dl_pData (dirtyList_cleanAll d)) p = 0" for p
  proof (cases "p < dl_size d")
    case True
    then have "(p + 8) div 8 \<le> (dl_size d + 7) div 8" by (intro div_le_mono) simp
    then have "p div 8 < (dl_size d + 7) div 8" by simp
    then show ?thesis by (simp add: getBitMask_cleanAll)
  next
    case False
    then have "getBitMask (dl_pData d) p = 0" using assms unfolding dirty_inv_def by blast
    then show ?thesis by (simp add: getBitMask_cleanAll)
  qed
  then show ?thesis using assms
    by (simp add: dirty_inv_def dirtySet_def isDirty_def) (simp add: dirtyList_cleanAll_def)
qed

lemma dirty_inv_setDirty:
  assumes "dirty_inv d" and "pos < dl_size d"
  shows "dirty_inv (setDirty pos d) \<and> dirtySet (setDirty pos d) = insert pos (dirtySet d)"
  using assms
  by (auto simp: dirty_inv_def dirtySet_def isDirty_def setDirty_def swapLesserThan_def
      swapGreaterThan_def swapPredicated_def)

lemma dirty_inv_cleanDirty:
  assumes "dirty_inv d"
  shows "dirty_inv (cleanDirty pos d)
    \<and> (\<not> dl_fullDirty d \<longrightarrow> dirtySet (cleanDirty pos d) = dirtySet d - {pos})"
  using assms by (auto simp: dirty_inv_def dirtySet_def isDirty_def cleanDirty_def)

text \<open>Resizing keeps the invariant exactly when it cuts off no marked position.\<close>

lemma dirty_inv_setSize:
  assumes "dirty_inv d"
  shows "dirty_inv (dirtyList_setSize n d) \<longleftrightarrow> (\<forall>p. getBitMask (dl_pData d) p \<noteq> 0 \<longrightarrow> p < n)"
    "\<not> dl_fullDirty d \<Longrightarrow> dirtySet (dirtyList_setSize n d) = dirtySet d \<inter> {..<n}"
proof -
  have lt: "p < (if n \<le> dl_capacity d then n else dl_capacity d) \<longleftrightarrow> p < n" if "getBitMask (dl_pData d) p \<noteq> 0" for p
  proof -
    have "p < dl_size d" "dl_size d \<le> dl_capacity d" using assms that unfolding dirty_inv_def by blast+
    then show ?thesis by auto
  qed
  then show "dirty_inv (dirtyList_setSize n d) \<longleftrightarrow> (\<forall>p. getBitMask (dl_pData d) p \<noteq> 0 \<longrightarrow> p < n)"
    using assms unfolding dirty_inv_def dirtyList_setSize_def by auto
  show "dirtySet (dirtyList_setSize n d) = dirtySet d \<inter> {..<n}" if "\<not> dl_fullDirty d"
  proof (intro set_eqI)
    fix p
    have "getBitMask (dl_pData d) p \<noteq> 0 \<Longrightarrow> p < dl_size d" using assms by (simp add: dirty_inv_def)
    then show "p \<in> dirtySet (dirtyList_setSize n d) \<longleftrightarrow> p \<in> dirtySet d \<inter> {..<n}"
      using that lt [of p] by (cases "getBitMask (dl_pData d) p \<noteq> 0") (simp_all add: dirtySet_def isDirty_def dirtyList_setSize_def)
  qed
qed

lemma dirty_inv_setFullDirty: "dirty_inv d \<Longrightarrow> dirty_inv (setFullDirty d) \<and> dirtySet (setFullDirty d) = {..<dl_size d}"
  by (auto simp: dirty_inv_def setFullDirty_def dirtySet_def isDirty_def)

lemma dirty_inv_destory: "dirty_inv (dirtyList_destory d) \<and> dirtySet (dirtyList_destory d) = {}"
  by (simp add: dirtyList_destory_def dirty_inv_new) (simp add: dirtySet_def dirtyList_new_def)

text \<open>The capacity is rounded up to whole bytes; the bound keeps it below the start value of \<open>_dirtyBegin\<close>.\<close>

lemma dirty_inv_init:
  assumes "dirty_inv d" and "capacity \<le> 2147483640" and "dirtyList_init mallocOk capacity d = (rc, d')"
  shows "dirty_inv d' \<and> dirtySet d' = {} \<and> (rc = SDB_OK \<longrightarrow> capacity \<le> dl_capacity d')"
proof (cases "capacity \<le> dl_capacity d")
  case True
  then show ?thesis using assms dirty_inv_cleanAll [OF assms(1)] by (auto simp: dirtyList_init_def) (simp add: dirtyList_cleanAll_def)
next
  case False
  have c: "push_bit 3 (drop_bit 3 (capacity + 7)) = (capacity + 7) div 8 * 8" by (simp add: push_bit_eq_mult drop_bit_eq_div)
  have "(capacity + 7) div 8 \<le> 2147483647 div 8" using assms(2) by (intro div_le_mono) simp
  then have "(capacity + 7) div 8 * 8 < 2147483647" by simp
  moreover have "(capacity + 7) div 8 * 8 + (capacity + 7) mod 8 = capacity + 7" "(capacity + 7) mod 8 < 8" by simp_all
  then have "capacity \<le> (capacity + 7) div 8 * 8" by linarith
  ultimately show ?thesis
    using assms(3) False dirty_inv_destory [of d]
    by (auto simp: dirtyList_init_def c dirty_inv_def dirtySet_def isDirty_def Let_def dirtyList_destory_def dirtyList_new_def getBitMask_bit split: if_splits)
qed

section \<open>The scans\<close>

lemma nextDirtyPos_spec:
  "(case nextDirtyPos d fr of (pos, fr') \<Rightarrow>
     (pos = - 1 \<and> dirtySet d \<inter> {fr..} = {})
     \<or> (\<exists>p \<in> dirtySet d. pos = int p \<and> fr \<le> p \<and> fr' = Suc p \<and> dirtySet d \<inter> {fr..<p} = {}))"
proof (induction d fr rule: nextDirtyPos.induct)
  case (1 d fr)
  consider (fin) "\<not> fr < dl_size d"
    | (skip) "fr < dl_size d" "\<not> dl_fullDirty d" "fr AND 7 = 0" "dl_pData d (drop_bit 3 fr) = 0"
    | (clean) "fr < dl_size d" "\<not> (\<not> dl_fullDirty d \<and> fr AND 7 = 0 \<and> dl_pData d (drop_bit 3 fr) = 0)"
        "\<not> isDirty d fr"
    | (hit) "fr < dl_size d" "\<not> (\<not> dl_fullDirty d \<and> fr AND 7 = 0 \<and> dl_pData d (drop_bit 3 fr) = 0)"
        "isDirty d fr" by argo
  then show ?case
  proof cases
    case fin
    then show ?thesis by (auto simp: nextDirtyPos.simps [of d fr] dirtySet_def)
  next
    case skip
    have "p \<notin> dirtySet d" if "fr \<le> p" "p < fr + 8" for p
      using zero_byte_clear [of fr "dl_pData d" p] skip that by (simp add: dirtySet_def isDirty_def)
    then have "dirtySet d \<inter> {fr..} = dirtySet d \<inter> {fr + 8..}"
      "dirtySet d \<inter> {fr..<q} = dirtySet d \<inter> {fr + 8..<q}" for q
      by (auto simp: not_less) (meson not_le)+
    moreover have "nextDirtyPos d fr = nextDirtyPos d (fr + 8)"
      using skip by (simp add: nextDirtyPos.simps [of d fr])
    ultimately show ?thesis using 1(1) skip by (auto split: prod.splits)
  next
    case clean
    then have "fr \<notin> dirtySet d" by (simp add: dirtySet_def)
    then have "dirtySet d \<inter> {fr..} = dirtySet d \<inter> {fr + 1..}"
      "dirtySet d \<inter> {fr..<q} = dirtySet d \<inter> {fr + 1..<q}" for q
      by (auto simp: Suc_le_eq) (metis le_neq_implies_less)+
    moreover have "nextDirtyPos d fr = nextDirtyPos d (fr + 1)"
      using clean by (auto simp: nextDirtyPos.simps [of d fr])
    ultimately show ?thesis using 1(2) clean by (auto split: prod.splits)
  next
    case hit
    then have "nextDirtyPos d fr = (int fr, fr + 1)"
      by (auto simp: nextDirtyPos.simps [of d fr])
    then show ?thesis using hit by (simp add: dirtySet_def)
  qed
qed

lemma dirtyNumberLoop_spec:
  assumes "\<not> dl_fullDirty d"
  shows "dirtyNumberLoop d b e n = n + card {p \<in> {b..<e}. isDirty d p}"
  using assms
proof (induction d b e n rule: dirtyNumberLoop.induct)
  case (1 d b e n)
  consider (fin) "\<not> b < e" | (skip) "b < e" "b AND 7 = 0" "dl_pData d (drop_bit 3 b) = 0"
    | (one) "b < e" "\<not> (b AND 7 = 0 \<and> dl_pData d (drop_bit 3 b) = 0)" by argo
  then show ?case
  proof cases
    case fin
    then show ?thesis by (simp add: dirtyNumberLoop.simps)
  next
    case skip
    have "{p \<in> {b..<e}. isDirty d p} = {p \<in> {b + 8..<e}. isDirty d p}"
      using zero_byte_clear [of b "dl_pData d"] skip 1(3) by (force simp: isDirty_def)
    then show ?thesis using 1(1) [OF skip(1)] skip 1(3) by (simp add: dirtyNumberLoop.simps [of d b])
  next
    case one
    have "{p \<in> {b..<e}. isDirty d p} = (if isDirty d b then {b} else {}) \<union> {p \<in> {b + 1..<e}. isDirty d p}"
      using one(1) by (auto simp: Suc_le_eq) (metis le_neq_implies_less)+
    then have "card {p \<in> {b..<e}. isDirty d p}
        = (if isDirty d b then 1 else 0) + card {p \<in> {b + 1..<e}. isDirty d p}"
      by (simp add: card_Un_disjoint)
    then show ?thesis using 1(2) one 1(3) by (auto simp: dirtyNumberLoop.simps [of d b])
  qed
qed

text \<open>Calling \<open>nextDirtyPos\<close> from 0 until it returns -1, as the flush loops do.\<close>

function dirtyPositions :: "dmsDirtyList \<Rightarrow> nat \<Rightarrow> nat list" where
  "dirtyPositions d fr =
     (if fst (nextDirtyPos d fr) < 0 then []
      else nat (fst (nextDirtyPos d fr)) # dirtyPositions d (snd (nextDirtyPos d fr)))"
  by pat_completeness auto
termination
proof (relation "measure (\<lambda>(d, fr). dl_size d - fr)", simp, goal_cases)
  case (1 d fr)
  then obtain p where "p \<in> dirtySet d" "fr \<le> p" "snd (nextDirtyPos d fr) = Suc p"
    using nextDirtyPos_spec [of d fr] by (auto split: prod.splits)
  then show ?case by (auto simp: dirtySet_def)
qed

declare dirtyPositions.simps [simp del]

lemma dirtyPositions_spec:
  "set (dirtyPositions d fr) = dirtySet d \<inter> {fr..} \<and> sorted_wrt (<) (dirtyPositions d fr)"
proof (induction d fr rule: dirtyPositions.induct)
  case (1 d fr)
  obtain pos fr' where n: "nextDirtyPos d fr = (pos, fr')" by fastforce
  note S = nextDirtyPos_spec [of d fr, unfolded n, simplified]
  show ?case
  proof (cases "pos = - 1")
    case True
    then show ?thesis using S n by (auto simp: dirtyPositions.simps [of d fr])
  next
    case False
    then obtain p where p: "p \<in> dirtySet d" "pos = int p" "fr \<le> p" "fr' = Suc p"
      "dirtySet d \<inter> {fr..<p} = {}" using S by blast
    have "dirtySet d \<inter> {fr..} = insert p (dirtySet d \<inter> {Suc p..})"
    proof -
      have "q = p \<or> Suc p \<le> q" if "q \<in> dirtySet d" "fr \<le> q" for q
        using p(5) that by (cases "q < p") auto
      then show ?thesis using p(1,3) by auto
    qed
    moreover have "dirtyPositions d fr = p # dirtyPositions d (Suc p)"
      using n p by (simp add: dirtyPositions.simps [of d fr])
    moreover have "set (dirtyPositions d (Suc p)) = dirtySet d \<inter> {Suc p..}
        \<and> sorted_wrt (<) (dirtyPositions d (Suc p))"
      using 1 n p by auto
    ultimately show ?thesis by auto
  qed
qed

section \<open>Properties\<close>

text \<open>Scanning with \<open>nextDirtyPos\<close> from the start visits exactly the dirty positions of the
  list, each once and in increasing order, whatever bytes are skipped.\<close>

theorem dirty_scan_complete:
  "set (dirtyPositions d 0) = {p. p < dl_size d \<and> isDirty d p} \<and> sorted_wrt (<) (dirtyPositions d 0)"
  using dirtyPositions_spec [of d 0] by (simp add: dirtySet_def)

text \<open>After any marking of positions inside the list and any cleaning of positions,
  \<open>dirtyNumber\<close> is the number of dirty positions and never exceeds \<open>dirtyGap\<close>.\<close>

theorem dirty_number_counts:
  assumes "dirty_inv d"
  shows "dirtyNumber d = card {p. p < dl_size d \<and> isDirty d p} \<and> dirtyNumber d \<le> dirtyGap d"
proof (cases "dl_fullDirty d")
  case True
  then have "{p. p < dl_size d \<and> isDirty d p} = {..<dl_size d}" by (auto simp: isDirty_def)
  with True show ?thesis by (simp add: dirtyNumber_def dirtyGap_def)
next
  case False
  let ?I = "{p \<in> {dl_dirtyBegin d..<dl_dirtyEnd d + 1}. isDirty d p}"
  have "p < dl_size d \<and> dl_dirtyBegin d \<le> p \<and> p \<le> dl_dirtyEnd d" if "isDirty d p" for p
    using assms that False unfolding dirty_inv_def isDirty_def by blast
  then have I: "?I = {p. p < dl_size d \<and> isDirty d p}" by (force simp: less_Suc_eq_le)
  have N: "dirtyNumber d = card ?I"
    using dirtyNumberLoop_spec [OF False] False by (simp add: dirtyNumber_def)
  have "card ?I \<le> card {dl_dirtyBegin d..<dl_dirtyEnd d + 1}" by (intro card_mono) auto
  also have "\<dots> = dirtyGap d" using False by (auto simp: dirtyGap_def)
  finally have "dirtyNumber d \<le> dirtyGap d" by (simp only: N)
  then show ?thesis using N [unfolded I] by blast
qed

theorem dirty_number_counts_witness:
  "dirtyNumber (cleanDirty 9 (setDirty 20 (setDirty 9 (setDirty 3
     (dirtyList_setSize 30 (snd (dirtyList_init True 30 dirtyList_new))))))) = 2"
proof -
  let ?d0 = "dirtyList_setSize 30 (snd (dirtyList_init True 30 dirtyList_new))"
  have d0: "dirty_inv ?d0" "dl_size ?d0 = 30" "dirtySet ?d0 = {}"
    by (auto simp: dirty_inv_def dirtyList_setSize_def dirtyList_init_def dirtyList_destory_def
        dirtyList_new_def getBitMask_bit nat_drop_3 dirtySet_def isDirty_def)
  have sz: "dl_size (setDirty p d) = dl_size d" "dl_fullDirty (setDirty p d) = dl_fullDirty d" for p d
    by (simp_all add: setDirty_def)
  let ?d1 = "setDirty 20 (setDirty 9 (setDirty 3 ?d0))"
  have "dirty_inv ?d1 \<and> dirtySet ?d1 = {20, 9, 3}"
    using dirty_inv_setDirty [of ?d0 3] dirty_inv_setDirty [of "setDirty 3 ?d0" 9]
      dirty_inv_setDirty [of "setDirty 9 (setDirty 3 ?d0)" 20] d0 sz by simp
  moreover have "\<not> dl_fullDirty ?d1"
    by (simp add: sz dirtyList_setSize_def dirtyList_init_def dirtyList_destory_def dirtyList_new_def)
  ultimately have "dirty_inv (cleanDirty 9 ?d1)" "dirtySet (cleanDirty 9 ?d1) = {20, 3}"
    using dirty_inv_cleanDirty [of ?d1 9] by auto
  then show ?thesis using dirty_number_counts [of "cleanDirty 9 ?d1"] by (simp add: dirtySet_def)
qed

text \<open>C35: what the operations of the dirty list do to the set of dirty positions, and to the invariant that every marked position is in the list and between the two bounds.
  \<open>init\<close>, for a capacity of at most 2147483640, gives an empty list with room for the capacity, or \<open>SDB_OOM\<close>; \<open>destory\<close> and \<open>cleanAll\<close> leave nothing dirty; \<open>setDirty\<close> of a position in the
  list adds it; \<open>cleanDirty\<close> removes one unless all are declared dirty; \<open>setFullDirty\<close> makes all positions dirty.  All these keep the invariant.  \<open>setSize\<close> keeps the
  dirty positions below the new size, and the invariant exactly when it cuts off no marked position.\<close>

theorem dirty_list_operations:
  assumes "dirty_inv d"
  shows "(capacity \<le> 2147483640 \<longrightarrow> (case dirtyList_init mallocOk capacity d of (rc, d') \<Rightarrow>
        dirty_inv d' \<and> {p. p < dl_size d' \<and> isDirty d' p} = {} \<and> (rc = SDB_OK \<longrightarrow> capacity \<le> dl_capacity d')))
    \<and> dirty_inv (dirtyList_destory d) \<and> {p. p < dl_size (dirtyList_destory d) \<and> isDirty (dirtyList_destory d) p} = {}
    \<and> dirty_inv (dirtyList_cleanAll d) \<and> {p. p < dl_size d \<and> isDirty (dirtyList_cleanAll d) p} = {}
    \<and> (pos < dl_size d \<longrightarrow> dirty_inv (setDirty pos d)
        \<and> {p. p < dl_size d \<and> isDirty (setDirty pos d) p} = insert pos {p. p < dl_size d \<and> isDirty d p})
    \<and> dirty_inv (cleanDirty pos d)
    \<and> (\<not> isFullDirty d \<longrightarrow>
        {p. p < dl_size d \<and> isDirty (cleanDirty pos d) p} = {p. p < dl_size d \<and> isDirty d p} - {pos})
    \<and> dirty_inv (setFullDirty d) \<and> {p. p < dl_size d \<and> isDirty (setFullDirty d) p} = {..<dl_size d}
    \<and> (dirty_inv (dirtyList_setSize n d) \<longleftrightarrow> (\<forall>p. getBitMask (dl_pData d) p \<noteq> 0 \<longrightarrow> p < n))
    \<and> (\<not> isFullDirty d \<longrightarrow> {p. p < dl_size (dirtyList_setSize n d) \<and> isDirty (dirtyList_setSize n d) p} = {p. p < dl_size d \<and> isDirty d p} \<inter> {..<n})"
proof -
  have sz: "dl_size (dirtyList_cleanAll d) = dl_size d" "dl_size (setDirty pos d) = dl_size d" "dl_size (cleanDirty pos d) = dl_size d" "dl_size (setFullDirty d) = dl_size d"
    by (simp_all add: dirtyList_cleanAll_def setDirty_def cleanDirty_def setFullDirty_def)
  note S = dirtySet_def [of "dirtyList_cleanAll d"] dirtySet_def [of "setDirty pos d"] dirtySet_def [of "cleanDirty pos d"] dirtySet_def [of "setFullDirty d"]
  have i: "capacity \<le> 2147483640 \<longrightarrow> (case dirtyList_init mallocOk capacity d of (rc, d') \<Rightarrow>
        dirty_inv d' \<and> {p. p < dl_size d' \<and> isDirty d' p} = {} \<and> (rc = SDB_OK \<longrightarrow> capacity \<le> dl_capacity d'))"
    using dirty_inv_init [OF assms] unfolding dirtySet_def by (auto split: prod.splits)
  show ?thesis
    using i dirty_inv_destory [of d] dirty_inv_cleanAll [OF assms] dirty_inv_setDirty [OF assms, of pos] dirty_inv_cleanDirty [OF assms, of pos]
      dirty_inv_setFullDirty [OF assms] dirty_inv_setSize [OF assms, of n]
    unfolding S sz isFullDirty_def dirtySet_def by simp
qed

text \<open>A list of 24 positions, of which 3, 9 and 20 are marked: 9 is cleaned, and cutting the list at 10 would lose a marked position.\<close>

definition demoDirty :: dmsDirtyList where
  "demoDirty = setDirty 20 (setDirty 9 (setDirty 3 (dirtyList_setSize 24 (snd (dirtyList_init True 30 dirtyList_new)))))"

lemma demoDirty_ok: "dirty_inv demoDirty \<and> dirtySet demoDirty = {20, 9, 3} \<and> dl_size demoDirty = 24 \<and> \<not> isFullDirty demoDirty"
proof -
  let ?d0 = "dirtyList_setSize 24 (snd (dirtyList_init True 30 dirtyList_new))"
  have d0: "dirty_inv ?d0" "dirtySet ?d0 = {}" "dl_size ?d0 = 24" "\<not> dl_fullDirty ?d0"
    by (simp_all add: dirty_inv_def dirtySet_def isDirty_def dirtyList_setSize_def dirtyList_init_def dirtyList_destory_def dirtyList_new_def getBitMask_bit)
  have sz: "dl_size (setDirty p d) = dl_size d" "dl_fullDirty (setDirty p d) = dl_fullDirty d" for p d by (simp_all add: setDirty_def)
  have 1: "dirty_inv (setDirty 3 ?d0) \<and> dirtySet (setDirty 3 ?d0) = {3}" using dirty_inv_setDirty [OF d0(1), of 3] d0 by simp
  have 2: "dirty_inv (setDirty 9 (setDirty 3 ?d0)) \<and> dirtySet (setDirty 9 (setDirty 3 ?d0)) = {9, 3}" using dirty_inv_setDirty [of "setDirty 3 ?d0" 9] 1 d0(3) sz by simp
  show ?thesis using dirty_inv_setDirty [of "setDirty 9 (setDirty 3 ?d0)" 20] 2 d0(3,4) sz by (simp add: demoDirty_def isFullDirty_def)
qed

theorem dirty_list_operations_witness:
  "{p. p < dl_size demoDirty \<and> isDirty (cleanDirty 9 demoDirty) p} = {3, 20} \<and> {p. p < dl_size demoDirty \<and> isDirty (setDirty 10 demoDirty) p} = {3, 9, 10, 20}
   \<and> \<not> dirty_inv (dirtyList_setSize 10 demoDirty) \<and> dirty_inv (dirtyList_setSize 21 demoDirty)"
proof -
  have inv: "dirty_inv demoDirty" and sz: "dl_size demoDirty = 24" and nf: "\<not> isFullDirty demoDirty" and "dirtySet demoDirty = {20, 9, 3}"
    using demoDirty_ok by simp_all
  then have d: "{p. p < 24 \<and> isDirty demoDirty p} = {20, 9, 3}" by (simp only: dirtySet_def sz)
  have "isDirty demoDirty p \<longleftrightarrow> getBitMask (dl_pData demoDirty) p \<noteq> 0" for p using nf by (simp only: isDirty_def isFullDirty_def simp_thms)
  moreover have "p < 24" if "getBitMask (dl_pData demoDirty) p \<noteq> 0" for p using inv that unfolding dirty_inv_def sz by blast
  ultimately have "getBitMask (dl_pData demoDirty) p \<noteq> 0 \<longleftrightarrow> p \<in> {p. p < 24 \<and> isDirty demoDirty p}" for p by blast
  then have b: "getBitMask (dl_pData demoDirty) p \<noteq> 0 \<longleftrightarrow> p \<in> {20, 9, 3}" for p unfolding d .
  note D = dirty_list_operations [OF inv, unfolded sz d]
  have "dirty_inv (dirtyList_setSize k demoDirty) \<longleftrightarrow> (\<forall>p. p \<in> {20, 9, 3} \<longrightarrow> p < k)" for k
    using D [where n = k and pos = 0 and capacity = 0 and mallocOk = True] unfolding b by (elim conjE) assumption
  then have "\<not> dirty_inv (dirtyList_setSize 10 demoDirty)" "dirty_inv (dirtyList_setSize 21 demoDirty)" by simp_all
  moreover have "\<not> isFullDirty demoDirty \<longrightarrow> {p. p < 24 \<and> isDirty (cleanDirty 9 demoDirty) p} = {20, 9, 3} - {9}"
    using D [where pos = 9 and n = 0 and capacity = 0 and mallocOk = True] by (elim conjE) assumption
  moreover have "10 < (24 :: nat) \<longrightarrow> dirty_inv (setDirty 10 demoDirty) \<and> {p. p < 24 \<and> isDirty (setDirty 10 demoDirty) p} = insert 10 {20, 9, 3}"
    using D [where pos = 10 and n = 0 and capacity = 0 and mallocOk = True] by (elim conjE) assumption
  moreover have "{20, 9, 3} - {9} = {3, 20 :: nat}" "insert 10 {20, 9, 3} = {3, 9, 10, 20 :: nat}" by auto
  ultimately show ?thesis using nf unfolding sz by simp
qed

end
