(* ===== verification/Dms_MBContext.thy ===== *)
theory Dms_MBContext
  imports Dms_Types
begin

text \<open>
  The context through which a caller holds the latch of a metadata block (\<open>_dmsMBContext\<close> in
  \<open>dmsBlockData.hpp\<close> and \<open>dmsBlockData.cpp\<close>).  The latch is a readers/writer latch: the number of
  shared holders and whether it is held exclusively.  \<open>_mbLock\<close> reads the metadata block twice,
  before it takes the latch and again once it has it, because the collection can be dropped
  while the caller waits: the two views of the block are the arguments \<open>mb0\<close> and \<open>mb1\<close>, and
  \<open>wait\<close> is what the other holders do to the latch while the caller waits for it.
\<close>

section \<open>The latch\<close>

abbreviation (input) SHARED :: int where "SHARED \<equiv> 0"
abbreviation (input) EXCLUSIVE :: int where "EXCLUSIVE \<equiv> 1"

record ossSpinSLatch =
  la_shared :: nat
  la_exclusive :: bool

definition latchFree :: "int \<Rightarrow> ossSpinSLatch \<Rightarrow> bool" where
  "latchFree mode la \<longleftrightarrow> \<not> la_exclusive la \<and> (mode = SHARED \<or> la_shared la = 0)"

definition ossLatch :: "int \<Rightarrow> ossSpinSLatch \<Rightarrow> ossSpinSLatch" where
  "ossLatch mode la =
     (if mode = SHARED then la\<lparr>la_shared := Suc (la_shared la)\<rparr> else la\<lparr>la_exclusive := True\<rparr>)"

definition ossUnlatch :: "int \<Rightarrow> ossSpinSLatch \<Rightarrow> ossSpinSLatch" where
  "ossUnlatch mode la =
     (if mode = SHARED then la\<lparr>la_shared := la_shared la - 1\<rparr> else la\<lparr>la_exclusive := False\<rparr>)"

section \<open>The context\<close>

text \<open>What \<open>_mbLock\<close> reads of the metadata block: its flag and its logical id.\<close>

type_synonym mbView = "mbFlag \<times> 32 word"

record dmsMBContext =
  ctx_clLID :: "32 word"
  ctx_startLID :: "32 word"
  ctx_mbID :: nat
  ctx_mbLockType :: int
  ctx_resumeType :: int

definition ctx_reset :: dmsMBContext where
  "ctx_reset = \<lparr> ctx_clLID = NOT 0, ctx_startLID = NOT 0, ctx_mbID = DMS_INVALID_MBID,
     ctx_mbLockType = - 1, ctx_resumeType = - 1 \<rparr>"

definition isMBLockType :: "int \<Rightarrow> dmsMBContext \<Rightarrow> bool" where
  "isMBLockType lockType ctx \<longleftrightarrow> lockType = ctx_mbLockType ctx"

definition isMBLock :: "dmsMBContext \<Rightarrow> bool" where
  "isMBLock ctx \<longleftrightarrow> ctx_mbLockType ctx = SHARED \<or> ctx_mbLockType ctx = EXCLUSIVE"

definition canResume :: "dmsMBContext \<Rightarrow> bool" where
  "canResume ctx \<longleftrightarrow> ctx_resumeType ctx = SHARED \<or> ctx_resumeType ctx = EXCLUSIVE"

definition mbUnlock :: "dmsMBContext \<Rightarrow> ossSpinSLatch \<Rightarrow> rc \<times> dmsMBContext \<times> ossSpinSLatch" where
  "mbUnlock ctx la =
     (if ctx_mbLockType ctx = SHARED \<or> ctx_mbLockType ctx = EXCLUSIVE
      then (SDB_OK, ctx\<lparr>ctx_resumeType := ctx_mbLockType ctx, ctx_mbLockType := - 1\<rparr>,
            ossUnlatch (ctx_mbLockType ctx) la)
      else (SDB_OK, ctx, la))"

definition mbPause :: "dmsMBContext \<Rightarrow> ossSpinSLatch \<Rightarrow> rc \<times> dmsMBContext \<times> ossSpinSLatch" where
  "mbPause ctx la =
     (let ctx1 = ctx\<lparr>ctx_resumeType := ctx_mbLockType ctx\<rparr>
      in if ctx_mbLockType ctx = SHARED \<or> ctx_mbLockType ctx = EXCLUSIVE
         then mbUnlock ctx1 la else (SDB_OK, ctx1, la))"

definition mbExists :: "dmsMBContext \<Rightarrow> mbView \<Rightarrow> bool" where
  "mbExists ctx mb \<longleftrightarrow> DMS_IS_MB_INUSE (fst mb) \<and> ctx_clLID ctx = snd mb"

definition mbLockImpl ::
  "(ossSpinSLatch \<Rightarrow> ossSpinSLatch) \<Rightarrow> mbView \<Rightarrow> mbView \<Rightarrow> int \<Rightarrow> bool \<Rightarrow> bool
    \<Rightarrow> dmsMBContext \<Rightarrow> ossSpinSLatch \<Rightarrow> rc \<times> dmsMBContext \<times> ossSpinSLatch" where
  "mbLockImpl wait mb0 mb1 lockType isTry force ctx la =
     (if lockType \<noteq> SHARED \<and> lockType \<noteq> EXCLUSIVE then (SDB_INVALIDARG, ctx, la)
      else if ctx_mbLockType ctx = lockType then (SDB_OK, ctx, la)
      else case (if - 1 \<noteq> ctx_mbLockType ctx then mbPause ctx la else (SDB_OK, ctx, la)) of
        (rc, ctx1, la1) \<Rightarrow>
          if rc \<noteq> SDB_OK then (rc, ctx1, la1)
          else if \<not> force \<and> \<not> mbExists ctx1 mb0 then (SDB_DMS_NOTEXIST, ctx1, la1)
          else if isTry \<and> \<not> latchFree lockType la1 then (SDB_TIMEOUT, ctx1, la1)
          else let la2 = ossLatch lockType (if isTry then la1 else wait la1)
               in if \<not> force \<and> \<not> mbExists ctx1 mb1
                  then (SDB_DMS_NOTEXIST, ctx1, ossUnlatch lockType la2)
                  else (SDB_OK, ctx1\<lparr>ctx_mbLockType := lockType, ctx_resumeType := - 1\<rparr>, la2))"

definition mbLock ::
  "(ossSpinSLatch \<Rightarrow> ossSpinSLatch) \<Rightarrow> mbView \<Rightarrow> mbView \<Rightarrow> int
    \<Rightarrow> dmsMBContext \<Rightarrow> ossSpinSLatch \<Rightarrow> rc \<times> dmsMBContext \<times> ossSpinSLatch" where
  "mbLock wait mb0 mb1 lockType = mbLockImpl wait mb0 mb1 lockType False False"

definition mbTryLock ::
  "mbView \<Rightarrow> mbView \<Rightarrow> int \<Rightarrow> bool
    \<Rightarrow> dmsMBContext \<Rightarrow> ossSpinSLatch \<Rightarrow> rc \<times> dmsMBContext \<times> ossSpinSLatch" where
  "mbTryLock mb0 mb1 lockType force = mbLockImpl id mb0 mb1 lockType True force"

definition mbResume ::
  "(ossSpinSLatch \<Rightarrow> ossSpinSLatch) \<Rightarrow> mbView \<Rightarrow> mbView
    \<Rightarrow> dmsMBContext \<Rightarrow> ossSpinSLatch \<Rightarrow> rc \<times> dmsMBContext \<times> ossSpinSLatch" where
  "mbResume wait mb0 mb1 ctx la =
     (if canResume ctx
      then mbLock wait mb0 mb1 (ctx_resumeType ctx) (ctx\<lparr>ctx_resumeType := - 1\<rparr>) la
      else (SDB_OK, ctx, la))"

section \<open>Holding the latch\<close>

text \<open>
  \<open>holds others ctx la\<close>: the latch is what the other holders have (\<open>others\<close>) plus what this
  context has, and the combination is one a readers/writer latch can be in.
\<close>

definition latch_ok :: "ossSpinSLatch \<Rightarrow> bool" where
  "latch_ok la \<longleftrightarrow> \<not> (la_exclusive la \<and> 0 < la_shared la)"

definition holds :: "ossSpinSLatch \<Rightarrow> dmsMBContext \<Rightarrow> ossSpinSLatch \<Rightarrow> bool" where
  "holds others ctx la \<longleftrightarrow> latch_ok la
     \<and> (if isMBLock ctx then latchFree (ctx_mbLockType ctx) others \<and> la = ossLatch (ctx_mbLockType ctx) others
        else ctx_mbLockType ctx = - 1 \<and> la = others)"

lemmas mb_defs = mbLockImpl_def mbPause_def mbUnlock_def holds_def isMBLock_def latch_ok_def
  latchFree_def ossLatch_def ossUnlatch_def isMBLockType_def

lemma mbPause_releases:
  assumes "holds others ctx la"
  shows "\<exists>ctx'. mbPause ctx la = (SDB_OK, ctx', others) \<and> holds others ctx' others
    \<and> ctx_resumeType ctx' = ctx_mbLockType ctx \<and> ctx_clLID ctx' = ctx_clLID ctx
    \<and> ctx_mbLockType ctx' = - 1"
  using assms by (auto simp: mb_defs Let_def split: if_splits)

section \<open>Properties\<close>

text \<open>Whatever happens during \<open>_mbLock\<close>, the context and the latch stay consistent.  On
  success the context holds the latch in the mode asked for, and unless the caller forced it or
  had it already, the collection was still the one the context was made for at the moment the
  latch was held.  On any error the context holds nothing and the latch is exactly what the
  other holders have.\<close>

theorem mbLock_outcome:
  assumes "holds others ctx la"
    and "\<forall>l. latch_ok (wait l) \<and> latchFree lockType (wait l)"
    and "lockType = SHARED \<or> lockType = EXCLUSIVE"
    and "mbLockImpl wait mb0 mb1 lockType isTry force ctx la = (rc, ctx', la')"
  shows "if rc = SDB_OK
    then isMBLockType lockType ctx' \<and> (\<exists>others'. holds others' ctx' la')
      \<and> (isMBLockType lockType ctx \<or> force \<or> DMS_IS_MB_INUSE (fst mb1) \<and> ctx_clLID ctx = snd mb1)
    else \<not> isMBLock ctx' \<and> (\<exists>others'. holds others' ctx' la' \<and> la' = others')
      \<and> (rc = SDB_TIMEOUT \<and> isTry \<or> rc = SDB_DMS_NOTEXIST \<and> \<not> force)"
proof (cases "ctx_mbLockType ctx = lockType")
  case True
  then show ?thesis using assms by (auto simp: mbLockImpl_def isMBLockType_def)
next
  case False
  obtain ctx1 where p: "(if - 1 \<noteq> ctx_mbLockType ctx then mbPause ctx la else (SDB_OK, ctx, la)) = (SDB_OK, ctx1, others)"
    and h: "holds others ctx1 others" "ctx_clLID ctx1 = ctx_clLID ctx" "ctx_mbLockType ctx1 = - 1"
    using mbPause_releases [OF assms(1)] assms(1) by (cases "ctx_mbLockType ctx = - 1") (auto simp: holds_def isMBLock_def)
  have free: "ctx_mbLockType ctx1 = - 1" "latch_ok others"
    using h(1,3) by (simp_all add: holds_def)
  define la0 where "la0 = (if isTry then others else wait others)"
  have la0: "latch_ok la0" using free assms(2) by (simp add: la0_def)
  have "mbLockImpl wait mb0 mb1 lockType isTry force ctx la =
     (if \<not> force \<and> \<not> mbExists ctx1 mb0 then (SDB_DMS_NOTEXIST, ctx1, others)
      else if isTry \<and> \<not> latchFree lockType others then (SDB_TIMEOUT, ctx1, others)
      else if \<not> force \<and> \<not> mbExists ctx1 mb1 then (SDB_DMS_NOTEXIST, ctx1, ossUnlatch lockType (ossLatch lockType la0))
      else (SDB_OK, ctx1\<lparr>ctx_mbLockType := lockType, ctx_resumeType := - 1\<rparr>, ossLatch lockType la0))"
    using False assms(3) p by (auto simp: mbLockImpl_def Let_def la0_def)
  moreover have "ossUnlatch lockType (ossLatch lockType la0) = la0" if "latchFree lockType la0"
    using that assms(3) by (auto simp: mb_defs)
  moreover have "latchFree lockType la0" if "\<not> (isTry \<and> \<not> latchFree lockType others)"
    using that assms(2) by (auto simp: la0_def)
  ultimately show ?thesis
    using assms(3,4) h free la0
    by (auto simp: holds_def isMBLock_def isMBLockType_def mbExists_def latch_ok_def ossLatch_def
        latchFree_def split: if_splits)
qed

definition demoContext :: dmsMBContext where
  "demoContext = ctx_reset\<lparr>ctx_clLID := 7, ctx_mbID := 2\<rparr>"

definition openLatch :: ossSpinSLatch where
  "openLatch = \<lparr> la_shared = 0, la_exclusive = False \<rparr>"

theorem mbLock_outcome_witness:
  "isMBLockType EXCLUSIVE (fst (snd (mbLockImpl (\<lambda>_. openLatch) (1, 7) (1, 7) EXCLUSIVE False False demoContext openLatch)))
    \<and> \<not> isMBLock (fst (snd (mbLockImpl (\<lambda>_. openLatch) (1, 7) (2, 7) EXCLUSIVE False False demoContext openLatch)))"
proof -
  have h: "holds openLatch demoContext openLatch"
    by (simp add: holds_def latch_ok_def isMBLock_def demoContext_def ctx_reset_def openLatch_def)
  have w: "\<forall>l. latch_ok ((\<lambda>_. openLatch) l) \<and> latchFree EXCLUSIVE ((\<lambda>_. openLatch) l)"
    by (simp add: latch_ok_def latchFree_def openLatch_def)
  obtain rc c l where r: "mbLockImpl (\<lambda>_. openLatch) (1, 7) (1, 7) EXCLUSIVE False False demoContext openLatch = (rc, c, l)"
    by (metis prod_cases3)
  obtain rc2 c2 l2 where r2: "mbLockImpl (\<lambda>_. openLatch) (1, 7) (2, 7) EXCLUSIVE False False demoContext openLatch = (rc2, c2, l2)"
    by (metis prod_cases3)
  have "rc = SDB_OK" using r
    by (simp add: mbLockImpl_def demoContext_def ctx_reset_def mbExists_def DMS_IS_MB_INUSE_def)
  moreover have "rc2 = SDB_DMS_NOTEXIST" using r2
    by (simp add: mbLockImpl_def demoContext_def ctx_reset_def mbExists_def DMS_IS_MB_INUSE_def)
  ultimately show ?thesis
    using mbLock_outcome [OF h w _ r] mbLock_outcome [OF h w _ r2] r r2 by simp
qed

text \<open>\<open>pause\<close> gives up the latch completely, and \<open>resume\<close> takes it again in the same mode as
  long as the collection still exists; when it was dropped meanwhile, \<open>resume\<close> reports it and
  the context holds nothing.\<close>

theorem pause_resume:
  assumes "holds others ctx la" and "isMBLock ctx"
    and "\<forall>l. latch_ok (wait l) \<and> latchFree (ctx_mbLockType ctx) (wait l)"
    and "mbExists ctx mb0"
  shows "\<exists>ctx1. mbPause ctx la = (SDB_OK, ctx1, others) \<and> \<not> isMBLock ctx1 \<and>
    (if mbExists ctx mb1
     then \<exists>ctx2 la2. mbResume wait mb0 mb1 ctx1 others = (SDB_OK, ctx2, la2)
       \<and> ctx_mbLockType ctx2 = ctx_mbLockType ctx \<and> holds (wait others) ctx2 la2
     else \<exists>ctx2. mbResume wait mb0 mb1 ctx1 others = (SDB_DMS_NOTEXIST, ctx2, wait others) \<and> \<not> isMBLock ctx2)"
proof -
  obtain ctx1 where p: "mbPause ctx la = (SDB_OK, ctx1, others)" "ctx_resumeType ctx1 = ctx_mbLockType ctx"
    "ctx_clLID ctx1 = ctx_clLID ctx" "ctx_mbLockType ctx1 = - 1"
    using mbPause_releases [OF assms(1)] by blast
  have m: "ctx_mbLockType ctx = 0 \<or> ctx_mbLockType ctx = 1" using assms(2) by (simp add: isMBLock_def)
  have "ossUnlatch (ctx_mbLockType ctx) (ossLatch (ctx_mbLockType ctx) (wait others)) = wait others"
    using assms(3) m by (auto simp: mb_defs)
  then show ?thesis
    using p m assms(3,4)
    by (auto simp: mbResume_def mbLock_def mbLockImpl_def canResume_def mbExists_def isMBLock_def
        holds_def latch_ok_def ossLatch_def latchFree_def)
qed

theorem pause_resume_witness:
  "\<exists>ctx1. mbPause (demoContext\<lparr>ctx_mbLockType := SHARED\<rparr>) (ossLatch SHARED openLatch) = (SDB_OK, ctx1, openLatch)
    \<and> (\<exists>ctx2 la2. mbResume (\<lambda>_. openLatch) (1, 7) (1, 7) ctx1 openLatch = (SDB_OK, ctx2, la2)
      \<and> ctx_mbLockType ctx2 = SHARED)"
proof -
  let ?c = "demoContext\<lparr>ctx_mbLockType := SHARED\<rparr>"
  have h: "holds openLatch ?c (ossLatch SHARED openLatch)" "isMBLock ?c"
    "\<forall>l. latch_ok ((\<lambda>_. openLatch) l) \<and> latchFree (ctx_mbLockType ?c) ((\<lambda>_. openLatch) l)" "mbExists ?c (1, 7)"
    by (simp_all add: mb_defs mbExists_def demoContext_def ctx_reset_def openLatch_def DMS_IS_MB_INUSE_def)
  from pause_resume [OF h, of "(1, 7)"] h(4) show ?thesis by auto
qed

end
