(* ===== verification/Dms_Names.thy ===== *)
theory Dms_Names
  imports Nova_Prelude
begin

text \<open>
  The name checks of the storage layer (\<open>src/src/dms/dms.cpp\<close>) and the unique-id helpers of
  \<open>src/src/include/utilUniqueID.hpp\<close>.  A C string is a \<open>string\<close> without its terminating
  zero.  A full collection name is \<open>space.collection\<close>; \<open>dmsCheckFullCLName\<close> works on a copy
  in a buffer of 255 characters, and the copy is written out here because it truncates.
\<close>

section \<open>Collection space and collection names\<close>

abbreviation (input) DMS_COLLECTION_SPACE_NAME_SZ :: nat where "DMS_COLLECTION_SPACE_NAME_SZ \<equiv> 127"
abbreviation (input) DMS_COLLECTION_NAME_SZ :: nat where "DMS_COLLECTION_NAME_SZ \<equiv> 127"

definition dmsIsSysCSName :: "string \<Rightarrow> bool" where
  "dmsIsSysCSName s \<longleftrightarrow>
     length s \<ge> 3 \<and> CHR ''S'' = s ! 0 \<and> CHR ''Y'' = s ! 1 \<and> CHR ''S'' = s ! 2"

definition invalidArray :: "char list" where
  "invalidArray = [CHR ''.'', CHR 0x5C, CHR ''/'', CHR '':'', CHR ''*'', CHR ''?'', CHR 0x22,
     CHR ''<'', CHR ''>'', CHR ''|'']"

text \<open>The length is read into an \<open>INT32\<close>.\<close>

definition dmsCheckCSName :: "string \<Rightarrow> bool \<Rightarrow> rc" where
  "dmsCheckCSName s sys =
     (let csNameLen = s32 (int (length s))
      in if int DMS_COLLECTION_SPACE_NAME_SZ < csNameLen \<or> 0 \<ge> csNameLen then SDB_INVALIDARG
         else if CHR ''$'' = s ! 0 then SDB_INVALIDARG
         else if \<not> sys \<and> dmsIsSysCSName s then SDB_INVALIDARG
         else if \<exists>c \<in> set invalidArray. c \<in> set s then SDB_INVALIDARG
         else SDB_OK)"

definition dmsIsSysCLName :: "string \<Rightarrow> bool" where
  "dmsIsSysCLName s \<longleftrightarrow>
     length s \<ge> 3 \<and> CHR ''S'' = s ! 0 \<and> CHR ''Y'' = s ! 1 \<and> CHR ''S'' = s ! 2"

definition dmsCheckCLName :: "string \<Rightarrow> bool \<Rightarrow> rc" where
  "dmsCheckCLName s sys =
     (let clNameLen = s32 (int (length s))
      in if int DMS_COLLECTION_NAME_SZ < clNameLen \<or> 0 \<ge> clNameLen then SDB_INVALIDARG
         else if CHR ''$'' = s ! 0 then SDB_INVALIDARG
         else if CHR ''.'' \<in> set s then SDB_INVALIDARG
         else if \<not> sys \<and> dmsIsSysCLName s then SDB_INVALIDARG
         else SDB_OK)"

text \<open>
  \<open>splitDot\<close> is \<open>strchr (s, '.')\<close> followed by the cut at the dot: the part before the first
  dot and the part after it.
\<close>

fun splitDot :: "string \<Rightarrow> (string \<times> string) option" where
  "splitDot [] = None"
| "splitDot (c # cs) =
     (if c = CHR ''.'' then Some ([], cs)
      else map_option (\<lambda>(a, b). (c # a, b)) (splitDot cs))"

definition dmsCheckFullCLName :: "string \<Rightarrow> bool \<Rightarrow> rc" where
  "dmsCheckFullCLName fullName sys =
     (let buffer = take (DMS_COLLECTION_NAME_SZ + DMS_COLLECTION_SPACE_NAME_SZ + 1) fullName
      in case splitDot buffer of
           None \<Rightarrow> SDB_INVALIDARG
         | Some (cs, cl) \<Rightarrow>
             let rc = dmsCheckCSName cs sys
             in if rc \<noteq> SDB_OK then rc else dmsCheckCLName cl sys)"

text \<open>\<open>find\<close> returns \<open>npos\<close> when there is no dot; then the first part is the whole name, and
  \<open>npos + 1\<close> wraps to 0, so the second part is the whole name as well.\<close>

definition dmsGetCSNameFromFullName :: "string \<Rightarrow> string" where
  "dmsGetCSNameFromFullName fullName =
     (case splitDot fullName of Some (cs, _) \<Rightarrow> cs | None \<Rightarrow> fullName)"

definition dmsGetCLShortNameFromFullName :: "string \<Rightarrow> string" where
  "dmsGetCLShortNameFromFullName fullName =
     (case splitDot fullName of Some (_, cl) \<Rightarrow> cl | None \<Rightarrow> fullName)"

section \<open>Unique ids\<close>

definition utilGetCSUniqueID :: "64 word \<Rightarrow> 32 word" where
  "utilGetCSUniqueID clUniqueID = ucast (drop_bit 32 clUniqueID)"

definition utilGetCLInnerID :: "64 word \<Rightarrow> 32 word" where
  "utilGetCLInnerID clUniqueID = ucast clUniqueID"

definition utilBuildCLUniqueID :: "32 word \<Rightarrow> 32 word \<Rightarrow> 64 word" where
  "utilBuildCLUniqueID csUniqueID clInnerID = push_bit 32 (ucast csUniqueID) OR ucast clInnerID"

definition UTIL_IS_VALID_CLUNIQUEID :: "64 word \<Rightarrow> bool" where
  "UTIL_IS_VALID_CLUNIQUEID i \<longleftrightarrow> i \<noteq> 0 \<and> i \<noteq> 0xFFFFFFFFFFFFFFFF \<and> i \<noteq> 0xFFFFFFFEFFFFFFFE"

section \<open>Splitting\<close>

lemma splitDot_Some:
  "splitDot s = Some (a, b) \<longleftrightarrow> s = a @ CHR ''.'' # b \<and> CHR ''.'' \<notin> set a"
  by (induction s arbitrary: a b) (auto simp: Cons_eq_append_conv)

lemma splitDot_None: "splitDot s = None \<longleftrightarrow> CHR ''.'' \<notin> set s"
  by (induction s) (auto split: option.splits)

lemma take_splitDot:
  assumes "length a \<le> n" and "CHR ''.'' \<notin> set a"
  shows "splitDot (take (Suc n) (a @ CHR ''.'' # b)) = Some (a, take (n - length a) b)"
  using assms by (simp add: splitDot_Some Suc_diff_le)

lemma dmsCheckCSName_no_dot: "dmsCheckCSName s sys = SDB_OK \<Longrightarrow> CHR ''.'' \<notin> set s"
  by (auto simp: dmsCheckCSName_def invalidArray_def Let_def split: if_splits)

section \<open>Properties\<close>

text \<open>A full name of at most 255 characters is accepted exactly when it is
  \<open>space.collection\<close> with both parts accepted on their own, and then the two accessors return
  these parts.\<close>

theorem full_name_accepted_iff:
  assumes "length full \<le> 255"
  shows "dmsCheckFullCLName full sys = SDB_OK \<longleftrightarrow>
    (\<exists>cs cl. full = cs @ CHR ''.'' # cl \<and> dmsCheckCSName cs sys = SDB_OK
      \<and> dmsCheckCLName cl sys = SDB_OK
      \<and> dmsGetCSNameFromFullName full = cs \<and> dmsGetCLShortNameFromFullName full = cl)"
proof (cases "splitDot full")
  case None
  then have "dmsCheckFullCLName full sys = SDB_INVALIDARG" using assms
    by (simp add: dmsCheckFullCLName_def)
  moreover have "CHR ''.'' \<notin> set full" using None by (simp add: splitDot_None)
  then have "full \<noteq> cs @ CHR ''.'' # cl" for cs cl by auto
  ultimately show ?thesis by simp
next
  case (Some p)
  obtain cs cl where p: "p = (cs, cl)" by fastforce
  then have full: "full = cs @ CHR ''.'' # cl" "CHR ''.'' \<notin> set cs" using Some splitDot_Some by auto
  have "dmsCheckFullCLName full sys = SDB_OK \<longleftrightarrow>
      dmsCheckCSName cs sys = SDB_OK \<and> dmsCheckCLName cl sys = SDB_OK"
    using Some assms p by (simp add: dmsCheckFullCLName_def Let_def)
  moreover have "dmsGetCSNameFromFullName full = cs" "dmsGetCLShortNameFromFullName full = cl"
    using Some p by (simp_all add: dmsGetCSNameFromFullName_def dmsGetCLShortNameFromFullName_def)
  ultimately show ?thesis using full by auto
qed

theorem full_name_accepted_iff_witness:
  "dmsCheckFullCLName ''foo.bar'' False = SDB_OK
    \<and> dmsGetCSNameFromFullName ''foo.bar'' = ''foo'' \<and> dmsGetCLShortNameFromFullName ''foo.bar'' = ''bar''"
proof -
  have "dmsCheckFullCLName ''foo.bar'' False = SDB_OK" by code_simp
  then show ?thesis using full_name_accepted_iff [of "''foo.bar''" False]
    by (auto simp: dmsGetCSNameFromFullName_def dmsGetCLShortNameFromFullName_def)
qed

text \<open>The truncating copy lets an over-long collection name through: behind a space name of
  127 characters, any tail after 127 valid collection characters is accepted, although
  \<open>dmsCheckCLName\<close> on the whole collection name rejects it.\<close>

theorem full_name_check_ignores_tail:
  assumes "length cs = 127" and "dmsCheckCSName cs sys = SDB_OK"
    and "length cl = 127" and "dmsCheckCLName cl sys = SDB_OK"
    and "tail \<noteq> []" and "length tail < 2147483000"
  shows "dmsCheckFullCLName (cs @ CHR ''.'' # cl @ tail) sys = SDB_OK
    \<and> dmsCheckCLName (cl @ tail) sys = SDB_INVALIDARG"
proof -
  have "splitDot (take (Suc 254) (cs @ CHR ''.'' # cl @ tail)) = Some (cs, take (254 - length cs) (cl @ tail))"
    by (rule take_splitDot) (use assms dmsCheckCSName_no_dot [OF assms(2)] in auto)
  then have "dmsCheckFullCLName (cs @ CHR ''.'' # cl @ tail) sys = SDB_OK"
    using assms by (simp add: dmsCheckFullCLName_def)
  moreover have "dmsCheckCLName (cl @ tail) sys = SDB_INVALIDARG"
    using assms by (simp add: dmsCheckCLName_def Let_def cast_simps)
  ultimately show ?thesis by simp
qed

theorem full_name_check_ignores_tail_witness:
  "dmsCheckFullCLName (replicate 127 CHR ''a'' @ CHR ''.'' # replicate 127 CHR ''b'' @ ''.$'') False = SDB_OK"
proof -
  have "dmsCheckCSName (replicate 127 CHR ''a'') False = SDB_OK"
    "dmsCheckCLName (replicate 127 CHR ''b'') False = SDB_OK"
    by (simp_all add: dmsCheckCSName_def dmsCheckCLName_def invalidArray_def dmsIsSysCSName_def
        dmsIsSysCLName_def cast_simps)
  then show ?thesis
    using full_name_check_ignores_tail [of "replicate 127 CHR ''a''" False "replicate 127 CHR ''b''" "''.$''"]
    by simp
qed

text \<open>The collection unique id packs the space id and the inner id without loss.\<close>

theorem unique_id_roundtrip:
  "utilGetCSUniqueID (utilBuildCLUniqueID cs cl) = cs \<and> utilGetCLInnerID (utilBuildCLUniqueID cs cl) = cl
    \<and> utilBuildCLUniqueID (utilGetCSUniqueID i) (utilGetCLInnerID i) = i"
  by (intro conjI; rule bit_word_eqI)
    (auto simp: utilGetCSUniqueID_def utilGetCLInnerID_def utilBuildCLUniqueID_def bit_simps
      dest: bit_imp_le_length)

end
