(* ===== verification/Oss_Mmap.thy ===== *)
theory Oss_Mmap
  imports Nova_Prelude
begin

text \<open>
  The memory-mapped file under a storage unit (\<open>_ossMmapFile\<close> in \<open>ossMmap.hpp\<close> and
  \<open>ossMmap.cpp\<close>): a growing array of mapped segments.  The operating system is a parameter of
  the operations: the result of the file-size query, of \<open>mmap\<close>, \<open>msync\<close>, of opening and deleting the
  file, and of \<open>new\<close>.  Segment positions are stable: a segment keeps its index, address,
  length and offset while others are added, which is what the storage layer's pointers rely on.
\<close>

section \<open>State\<close>

record ossMmapSegment =
  seg_ptr :: nat
  seg_length :: nat
  seg_offset :: nat

text \<open>The first \<open>_size\<close> entries of \<open>_pSegArray\<close> are the list \<open>mm_segs\<close>.\<close>

record ossMmapFile =
  mm_opened :: bool
  mm_totalLength :: nat
  mm_fileName :: string
  mm_segs :: "ossMmapSegment list"
  mm_capacity :: nat

datatype mmapResult = Mapped nat | MapFailed int

abbreviation (input) ENOMEM :: int where "ENOMEM \<equiv> 12"
abbreviation (input) EACCES :: int where "EACCES \<equiv> 13"
abbreviation (input) SDB_PERM :: rc where "SDB_PERM \<equiv> - 3"
abbreviation (input) OSS_MAX_PATHSIZE :: nat where "OSS_MAX_PATHSIZE \<equiv> 4096"
abbreviation (input) OSS_MMAP_INIT_CAPACITY :: nat where "OSS_MMAP_INIT_CAPACITY \<equiv> 128"

definition mmap_new :: ossMmapFile where
  "mmap_new = \<lparr> mm_opened = False, mm_totalLength = 0, mm_fileName = [], mm_segs = [], mm_capacity = 0 \<rparr>"

section \<open>Operations\<close>

definition mmap_open :: "rc \<Rightarrow> string \<Rightarrow> ossMmapFile \<Rightarrow> rc \<times> ossMmapFile" where
  "mmap_open osOpen pFilename mm =
     (if osOpen = SDB_OK
      then (SDB_OK, mm\<lparr>mm_opened := True, mm_fileName := take OSS_MAX_PATHSIZE pFilename\<rparr>)
      else (osOpen, mm))"

definition mmap_clearSeg :: "ossMmapFile \<Rightarrow> ossMmapFile" where
  "mmap_clearSeg mm = mm\<lparr>mm_capacity := 0, mm_segs := []\<rparr>"

definition mmap_close :: "ossMmapFile \<Rightarrow> ossMmapFile" where
  "mmap_close mm = (mmap_clearSeg mm)\<lparr>mm_opened := False\<rparr>"

definition mmap_size :: "rc \<times> nat \<Rightarrow> rc \<times> nat" where
  "mmap_size osSize = osSize"

definition mmap_segmentSize :: "ossMmapFile \<Rightarrow> nat" where
  "mmap_segmentSize mm = length (mm_segs mm)"

definition mmap_next :: "nat \<Rightarrow> ossMmapFile \<Rightarrow> ossMmapSegment option \<times> nat" where
  "mmap_next pos mm =
     (if pos \<ge> length (mm_segs mm) then (None, pos) else (Some (mm_segs mm ! pos), pos + 1))"

definition mmap_getSegmentInfo :: "nat \<Rightarrow> ossMmapFile \<Rightarrow> nat \<times> nat \<times> nat" where
  "mmap_getSegmentInfo pos mm =
     (seg_ptr (mm_segs mm ! pos), seg_length (mm_segs mm ! pos), seg_offset (mm_segs mm ! pos))"

definition mmap_ensureSpace :: "bool \<Rightarrow> nat \<Rightarrow> ossMmapFile \<Rightarrow> rc \<times> ossMmapFile" where
  "mmap_ensureSpace newOk need mm =
     (if need \<le> mm_capacity mm then (SDB_OK, mm)
      else let n0 = u32 (int (mm_capacity mm) * 2);
               n1 = (if n0 = 0 then OSS_MMAP_INIT_CAPACITY else n0);
               n2 = (if n1 < need then need else n1)
           in if \<not> newOk then (SDB_OOM, mm) else (SDB_OK, mm\<lparr>mm_capacity := n2\<rparr>))"

text \<open>The length that \<open>map\<close> passes to \<open>mmap\<close>: the requested one, or, when the range leaves
  the file, the value of \<open>length -= fileSize - offset - 1\<close> in \<open>UINT32\<close>.\<close>

definition mmap_length :: "nat \<Rightarrow> nat \<Rightarrow> nat \<Rightarrow> nat" where
  "mmap_length fileSize offset len =
     (if offset + len > fileSize then u32 (int len - (int fileSize - int offset - 1)) else len)"

definition mmap_map ::
  "rc \<times> nat \<Rightarrow> bool \<Rightarrow> (nat \<Rightarrow> nat \<Rightarrow> mmapResult) \<Rightarrow> nat \<Rightarrow> nat \<Rightarrow> ossMmapFile
    \<Rightarrow> rc \<times> nat option \<times> ossMmapFile" where
  "mmap_map osSize newOk osMmap offset len mm =
     (if len = 0 then (SDB_OK, None, mm)
      else case osSize of (rc, fileSize) \<Rightarrow>
        if rc \<noteq> SDB_OK then (rc, None, mm)
        else if offset \<ge> fileSize then (SDB_INVALIDARG, None, mm)
        else let len1 = mmap_length fileSize offset len
             in case mmap_ensureSpace newOk (length (mm_segs mm) + 1) mm of
                  (rc1, mm1) \<Rightarrow>
                    if rc1 \<noteq> SDB_OK then (rc1, None, mm1)
                    else case osMmap len1 offset of
                      MapFailed err \<Rightarrow>
                        (if err = ENOMEM then SDB_OOM else if err = EACCES then SDB_PERM else SDB_SYS, None, mm1)
                    | Mapped addr \<Rightarrow>
                        (SDB_OK, Some addr,
                         mm1\<lparr>mm_totalLength := mm_totalLength mm1 + len1,
                             mm_segs := mm_segs mm1 @ [\<lparr> seg_ptr = addr, seg_length = len1, seg_offset = offset \<rparr>]\<rparr>))"

text \<open>
  The flush operations return the code and the address range given to \<open>msync\<close>, if it is called;
  \<open>osMsync\<close> tells whether \<open>msync\<close> succeeds.  A failure is logged and the code is not changed.
\<close>

definition mmap_flush :: "(nat \<Rightarrow> nat \<Rightarrow> bool) \<Rightarrow> nat \<Rightarrow> ossMmapFile \<Rightarrow> rc \<times> (nat \<times> nat) option" where
  "mmap_flush osMsync segmentID mm =
     (if segmentID \<ge> length (mm_segs mm) then (SDB_INVALIDARG, None)
      else let seg = mm_segs mm ! segmentID
           in if \<not> osMsync (seg_ptr seg) (seg_length seg)
              then (SDB_OK, Some (seg_ptr seg, seg_length seg))
              else (SDB_OK, Some (seg_ptr seg, seg_length seg)))"

fun mmap_flushLoop :: "(nat \<Rightarrow> nat \<Rightarrow> bool) \<Rightarrow> nat list \<Rightarrow> ossMmapFile \<Rightarrow> rc \<times> (nat \<times> nat) list" where
  "mmap_flushLoop osMsync [] mm = (SDB_OK, [])"
| "mmap_flushLoop osMsync (i # is) mm =
     (case mmap_flush osMsync i mm of
        (rc, req) \<Rightarrow>
          if rc \<noteq> SDB_OK then (rc, [])
          else case mmap_flushLoop osMsync is mm of
                 (rc', reqs) \<Rightarrow> (rc', (case req of Some r \<Rightarrow> r # reqs | None \<Rightarrow> reqs)))"

definition mmap_flushAll :: "(nat \<Rightarrow> nat \<Rightarrow> bool) \<Rightarrow> ossMmapFile \<Rightarrow> rc \<times> (nat \<times> nat) list" where
  "mmap_flushAll osMsync mm = mmap_flushLoop osMsync [0..<length (mm_segs mm)] mm"

definition mmap_flushBlock ::
  "(nat \<Rightarrow> int \<Rightarrow> bool) \<Rightarrow> nat \<Rightarrow> nat \<Rightarrow> int \<Rightarrow> ossMmapFile \<Rightarrow> rc \<times> (nat \<times> int) option" where
  "mmap_flushBlock osMsync segmentID offset len mm =
     (if segmentID \<ge> length (mm_segs mm) then (SDB_INVALIDARG, None)
      else let seg = mm_segs mm ! segmentID
           in if offset > seg_length seg then (SDB_INVALIDARG, None)
              else if len = 0 \<or> offset = seg_length seg then (SDB_OK, None)
              else let len1 = (if len < 0 \<or> u32 (len + int offset) > seg_length seg
                               then s32 (int (seg_length seg) - int offset) else len)
                   in if \<not> osMsync (seg_ptr seg + offset) len1
                      then (SDB_OK, Some (seg_ptr seg + offset, len1))
                      else (SDB_OK, Some (seg_ptr seg + offset, len1)))"

definition mmap_unlink :: "rc \<Rightarrow> ossMmapFile \<Rightarrow> rc \<times> ossMmapFile" where
  "mmap_unlink osDelete mm = (osDelete, mmap_close mm)"

section \<open>Well-formedness\<close>

definition mmap_wf :: "ossMmapFile \<Rightarrow> bool" where
  "mmap_wf mm \<longleftrightarrow> length (mm_segs mm) \<le> mm_capacity mm \<and> mm_capacity mm < 2147483648"

lemma mmap_ensureSpace_ok:
  assumes "mmap_wf mm" and "need < 2147483648" and "mm_capacity mm < 1073741824"
  shows "\<exists>cap. mmap_ensureSpace True need mm = (SDB_OK, mm\<lparr>mm_capacity := cap\<rparr>)
    \<and> need \<le> cap \<and> mm_capacity mm \<le> cap \<and> cap < 2147483648"
proof (cases "need \<le> mm_capacity mm")
  case True
  then show ?thesis using assms by (auto simp: mmap_ensureSpace_def mmap_wf_def intro: exI [of _ "mm_capacity mm"])
next
  case False
  have "u32 (int (mm_capacity mm) * 2) = mm_capacity mm * 2" using assms(3) by (simp add: cast_simps)
  with False assms show ?thesis by (auto simp: mmap_ensureSpace_def Let_def)
qed

lemma mmap_flushLoop_all:
  "\<forall>i \<in> set is. i < length (mm_segs mm) \<Longrightarrow>
   mmap_flushLoop osMsync is mm = (SDB_OK, map (\<lambda>i. (seg_ptr (mm_segs mm ! i), seg_length (mm_segs mm ! i))) is)"
  by (induction "is") (simp_all add: mmap_flush_def Let_def)

section \<open>Properties\<close>

text \<open>Mapping a range inside the file adds exactly one segment at the end with that length
  and offset, and every segment that was there keeps its index and its data.\<close>

theorem map_appends_segment:
  assumes "mmap_wf mm" and "mm_capacity mm < 1073741824" and "0 < len" and "offset + len \<le> fileSize"
    and "osMmap len offset = Mapped addr"
  shows "\<exists>mm'. mmap_map (SDB_OK, fileSize) True osMmap offset len mm = (SDB_OK, Some addr, mm')
    \<and> mmap_wf mm' \<and> mmap_segmentSize mm' = mmap_segmentSize mm + 1
    \<and> mmap_getSegmentInfo (mmap_segmentSize mm) mm' = (addr, len, offset)
    \<and> (\<forall>i < mmap_segmentSize mm. mmap_getSegmentInfo i mm' = mmap_getSegmentInfo i mm)
    \<and> mm_totalLength mm' = mm_totalLength mm + len"
proof -
  have "length (mm_segs mm) + 1 < 2147483648" using assms(1,2) by (simp add: mmap_wf_def)
  from mmap_ensureSpace_ok [OF assms(1) this assms(2)] obtain cap where
    e: "mmap_ensureSpace True (length (mm_segs mm) + 1) mm = (SDB_OK, mm\<lparr>mm_capacity := cap\<rparr>)"
    "length (mm_segs mm) + 1 \<le> cap" "cap < 2147483648" by blast
  then show ?thesis using assms
    by (simp add: mmap_map_def mmap_length_def mmap_wf_def mmap_segmentSize_def
        mmap_getSegmentInfo_def nth_append)
qed

theorem map_appends_segment_witness:
  "\<exists>mm'. mmap_map (SDB_OK, 131072) True (\<lambda>_ _. Mapped 4096) 65536 65536 mmap_new = (SDB_OK, Some 4096, mm')
    \<and> mmap_getSegmentInfo 0 mm' = (4096, 65536, 65536)"
  using map_appends_segment [of mmap_new 65536 65536 131072 "\<lambda>_ _. Mapped 4096" 4096]
  by (auto simp: mmap_wf_def mmap_new_def mmap_segmentSize_def)

text \<open>When the range runs past the end of the file, the length that is mapped is the part
  beyond the end plus one, not the part inside the file; it is the inside part only by
  coincidence.\<close>

theorem map_past_end_length:
  assumes "offset < fileSize" and "fileSize < offset + len" and "len < 4294967296"
  shows "mmap_length fileSize offset len = offset + len + 1 - fileSize
    \<and> (mmap_length fileSize offset len = fileSize - offset \<longleftrightarrow> len + 1 = 2 * (fileSize - offset))"
proof -
  have "mmap_length fileSize offset len = nat (int len - (int fileSize - int offset - 1))"
    using assms by (simp add: mmap_length_def cast_simps)
  with assms show ?thesis by auto
qed

theorem map_past_end_length_witness: "mmap_length 100 60 50 = 11"
  using map_past_end_length [of 60 100 50] by simp

text \<open>\<open>flushBlock\<close> never syncs outside its segment: the range it passes to \<open>msync\<close> starts at the
  offset, is not empty and ends inside the segment; a negative length means up to the end.\<close>

theorem flushBlock_in_segment:
  assumes "seg_length (mm_segs mm ! k) < 1073741824" and "len < 1073741824"
    and "mmap_flushBlock osMsync k offset len mm = (rc, Some (p, n))"
  shows "k < mmap_segmentSize mm \<and> p = seg_ptr (mm_segs mm ! k) + offset \<and> 0 < n
    \<and> int offset + n \<le> int (seg_length (mm_segs mm ! k))
    \<and> (len < 0 \<longrightarrow> int offset + n = int (seg_length (mm_segs mm ! k))) \<and> (0 \<le> len \<longrightarrow> n \<le> len)"
  using assms
  by (auto simp: mmap_flushBlock_def mmap_segmentSize_def Let_def cast_simps split: if_splits)

theorem flushBlock_in_segment_witness:
  "\<exists>n. mmap_flushBlock (\<lambda>_ _. True) 0 10 50
     (mmap_new\<lparr>mm_segs := [\<lparr> seg_ptr = 1000, seg_length = 40, seg_offset = 0 \<rparr>]\<rparr>) = (SDB_OK, Some (1010, n))
     \<and> 10 + n \<le> 40"
proof -
  let ?mm = "mmap_new\<lparr>mm_segs := [\<lparr> seg_ptr = 1000, seg_length = 40, seg_offset = 0 \<rparr>]\<rparr>"
  have e: "mmap_flushBlock (\<lambda>_ _. True) 0 10 50 ?mm = (SDB_OK, Some (1010, 30))" by code_simp
  from flushBlock_in_segment [OF _ _ e] e show ?thesis by simp
qed

text \<open>\<open>flushAll\<close> passes every mapped segment to \<open>msync\<close>, once and in order, and reports success
  even when every single \<open>msync\<close> call fails.\<close>

theorem flushAll_covers_and_hides_errors:
  "mmap_flushAll osMsync mm = (SDB_OK, map (\<lambda>s. (seg_ptr s, seg_length s)) (mm_segs mm))
    \<and> fst (mmap_flushAll (\<lambda>_ _. False) mm) = SDB_OK"
proof -
  have "map (\<lambda>i. (seg_ptr (mm_segs mm ! i), seg_length (mm_segs mm ! i))) [0..<length (mm_segs mm)]
      = map (\<lambda>s. (seg_ptr s, seg_length s)) (mm_segs mm)"
    by (rule nth_equalityI) auto
  then show ?thesis by (simp add: mmap_flushAll_def mmap_flushLoop_all)
qed

end
