(* ===== verification/Dms_BlockState.thy ===== *)
theory Dms_BlockState
  imports Dms_SMEMgr Dms_Extent Dms_DirtyList Dms_MBContext Dms_Names Oss_Mmap
begin

text \<open>
  The state of a storage unit (\<open>_dmsBlockData\<close> in \<open>dmsBlockData.hpp\<close>) and the way the code reads
  and writes it.  The mapped pages are three stores, keyed by extent id or record id: the data
  extent headers, the records, and the meta extents of collections; the page allocator keeps the
  pages of different extents apart, so the stores do not alias.  The operations are functions
  from the state to an outcome: a returned value with the new state, an exception
  (\<open>pdGeneralException\<close>, thrown by the read/write handles on a null address) with the
  state at the throw, a panic (\<open>ossPanic\<close>, the process stops), or \<open>Diverge\<close> when a loop with a
  \<open>goto\<close> backwards has used up its fuel.  The operating system's answers
  are the record \<open>osEnv\<close>, an argument of the operations that do I/O.

  Every write through a handle first marks the header invalid, which writes the collection
  statistics into the mapped metadata blocks, and when the handle goes out of scope the segment
  is marked dirty (\<open>markDirty\<close>); both steps are in the model.
\<close>

section \<open>On-disk structures\<close>

record dmsMB =
  mb_collectionName :: string
  mb_flag :: mbFlag
  mb_blockID :: nat
  mb_firstExtentID :: dmsExtentID
  mb_lastExtentID :: dmsExtentID
  mb_deleteList :: "dmsRecordID list"
  mb_logicalID :: "32 word"
  mb_attributes :: nat
  mb_loadFirstExtentID :: dmsExtentID
  mb_loadLastExtentID :: dmsExtentID
  mb_mbExExtentID :: dmsExtentID
  mb_totalRecords :: nat
  mb_totalDataPages :: nat
  mb_totalDataFreeSpace :: nat
  mb_totalOrgDataLen :: nat
  mb_totalDataLen :: nat
  mb_dictExtentID :: dmsExtentID
  mb_newDictExtentID :: dmsExtentID
  mb_dictStatPageID :: int
  mb_dictVersion :: "8 word"
  mb_mbOptExtentID :: dmsExtentID
  mb_clUniqueID :: "64 word"

abbreviation (input) MB_MAX :: nat where "MB_MAX \<equiv> 20"

definition mb_reset ::
  "string option \<Rightarrow> 64 word \<Rightarrow> nat \<Rightarrow> 32 word \<Rightarrow> nat \<Rightarrow> dmsMB \<Rightarrow> dmsMB" where
  "mb_reset clName clUniqueID mbID clLID attr mb =
     \<lparr> mb_collectionName = (case clName of Some n \<Rightarrow> take DMS_COLLECTION_NAME_SZ n | None \<Rightarrow> []),
       mb_flag = (if DMS_INVALID_MBID \<noteq> mbID then DMS_SET_MB_INUSE (mb_flag mb) else DMS_SET_MB MB_FREE),
       mb_blockID = mbID,
       mb_firstExtentID = DMS_INVALID_EXTENT, mb_lastExtentID = DMS_INVALID_EXTENT,
       mb_deleteList = replicate MB_MAX rid_null,
       mb_logicalID = clLID, mb_attributes = attr,
       mb_loadFirstExtentID = DMS_INVALID_EXTENT, mb_loadLastExtentID = DMS_INVALID_EXTENT,
       mb_mbExExtentID = DMS_INVALID_EXTENT,
       mb_totalRecords = 0, mb_totalDataPages = 0, mb_totalDataFreeSpace = 0,
       mb_totalOrgDataLen = 0, mb_totalDataLen = 0,
       mb_dictExtentID = DMS_INVALID_EXTENT, mb_newDictExtentID = DMS_INVALID_EXTENT,
       mb_dictStatPageID = DMS_INVALID_EXTENT, mb_dictVersion = 0, mb_mbOptExtentID = DMS_INVALID_EXTENT,
       mb_clUniqueID = clUniqueID \<rparr>"

record dmsMBStatInfo =
  st_totalRecords :: nat
  st_totalDataPages :: nat
  st_totalDataFreeSpace :: nat
  st_totalOrgDataLen :: nat
  st_totalDataLen :: nat
  st_startLID :: "32 word"
  st_flag :: nat
  st_lastWriteTick :: nat
  st_isCrash :: bool

definition stat_reset :: dmsMBStatInfo where
  "stat_reset = \<lparr> st_totalRecords = 0, st_totalDataPages = 0, st_totalDataFreeSpace = 0,
     st_totalOrgDataLen = 0, st_totalDataLen = 0, st_startLID = NOT 0, st_flag = 0,
     st_lastWriteTick = 0, st_isCrash = False \<rparr>"

datatype DMS_STORAGE_TYPE = DMS_STORAGE_NORMAL | DMS_STORAGE_CAPPED | DMS_STORAGE_DUMMY

record dmsStorageInfo =
  si_pageSize :: nat
  si_suName :: string
  si_sequence :: nat
  si_extentThreshold :: nat
  si_enableSparse :: bool
  si_directIO :: bool
  si_logWriteMod :: nat
  si_cacheMergeSize :: nat
  si_pageAllocTimeout :: nat
  si_dataIsOK :: bool
  si_curLSNOnStart :: "64 word"
  si_type :: DMS_STORAGE_TYPE
  si_csUniqueID :: nat

definition storageInfo_new :: dmsStorageInfo where
  "storageInfo_new = \<lparr> si_pageSize = DMS_PAGE_SIZE64K, si_suName = [], si_sequence = 0,
     si_extentThreshold = 0, si_enableSparse = False, si_directIO = False, si_logWriteMod = 0,
     si_cacheMergeSize = 0, si_pageAllocTimeout = 0, si_dataIsOK = False, si_curLSNOnStart = NOT 0,
     si_type = DMS_STORAGE_NORMAL, si_csUniqueID = 0 \<rparr>"

record dmsStorageUnitHeader =
  hd_eyeCatcher :: string
  hd_version :: nat
  hd_pageSize :: nat
  hd_storageUnitSize :: nat
  hd_name :: string
  hd_sequence :: nat
  hd_numMB :: nat
  hd_MBHWM :: "32 word"
  hd_pageNum :: nat
  hd_csUniqueID :: nat

definition header_reset :: dmsStorageUnitHeader where
  "header_reset = \<lparr> hd_eyeCatcher = [], hd_version = 0, hd_pageSize = 0, hd_storageUnitSize = 0,
     hd_name = [], hd_sequence = 0, hd_numMB = 0, hd_MBHWM = 0, hd_pageNum = 0, hd_csUniqueID = 0 \<rparr>"

subsection \<open>The segment table of a meta extent\<close>

definition mbEx_getFirstExtentID :: "nat \<Rightarrow> dmsMetaExtent \<Rightarrow> rc \<times> dmsExtentID option" where
  "mbEx_getFirstExtentID segID m =
     (if segID \<ge> mex_segNum m then (SDB_INVALIDARG, None) else (SDB_OK, Some (fst (mex_array m ! segID))))"

definition mbEx_getLastExtentID :: "nat \<Rightarrow> dmsMetaExtent \<Rightarrow> rc \<times> dmsExtentID option" where
  "mbEx_getLastExtentID segID m =
     (if segID \<ge> mex_segNum m then (SDB_INVALIDARG, None) else (SDB_OK, Some (snd (mex_array m ! segID))))"

definition mbEx_setFirstExtentID :: "nat \<Rightarrow> dmsExtentID \<Rightarrow> dmsMetaExtent \<Rightarrow> rc \<times> dmsMetaExtent" where
  "mbEx_setFirstExtentID segID extID m =
     (if segID \<ge> mex_segNum m then (SDB_INVALIDARG, m)
      else (SDB_OK, m\<lparr>mex_array := (mex_array m)[segID := (extID, snd (mex_array m ! segID))]\<rparr>))"

definition mbEx_setLastExtentID :: "nat \<Rightarrow> dmsExtentID \<Rightarrow> dmsMetaExtent \<Rightarrow> rc \<times> dmsMetaExtent" where
  "mbEx_setLastExtentID segID extID m =
     (if segID \<ge> mex_segNum m then (SDB_INVALIDARG, m)
      else (SDB_OK, m\<lparr>mex_array := (mex_array m)[segID := (fst (mex_array m ! segID), extID)]\<rparr>))"

section \<open>The storage unit\<close>

record dmsBlockData =
  bd_header :: dmsStorageUnitHeader
  bd_info :: dmsStorageInfo
  bd_smeMgr :: dmsSMEMgr
  bd_mb :: "nat \<Rightarrow> dmsMB"
  bd_mbStat :: "nat \<Rightarrow> dmsMBStatInfo"
  bd_mblock :: "nat \<Rightarrow> ossSpinSLatch"
  bd_nameMap :: "string \<Rightarrow> nat option"
  bd_idMap :: "64 word \<Rightarrow> nat option"
  bd_extent :: "dmsExtentID \<Rightarrow> dmsExtent"
  bd_record :: "dmsRecordID \<Rightarrow> dmsRecord"
  bd_metaExt :: "dmsExtentID \<Rightarrow> dmsMetaExtent"
  bd_dirtyList :: dmsDirtyList
  bd_mmap :: ossMmapFile
  bd_fileSize :: nat
  bd_mmeSegID :: nat
  bd_dataSegID :: nat
  bd_maxSegID :: int
  bd_pageNum :: nat
  bd_pageSize :: nat
  bd_pageSizeSquare :: nat
  bd_segmentPages :: nat
  bd_segmentPagesSquare :: nat
  bd_vecContext :: nat
  bd_isCrash :: bool
  bd_isClosed :: bool
  bd_suFileName :: string
  bd_fullPathName :: string
  bd_ctx :: dmsMBContext

text \<open>The constructor.  Memory that is not written yet is zero, as the pages of a new file are.\<close>

definition mb_zero :: dmsMB where
  "mb_zero = \<lparr> mb_collectionName = [], mb_flag = 0, mb_blockID = 0, mb_firstExtentID = 0, mb_lastExtentID = 0,
     mb_deleteList = replicate MB_MAX (RID 0 0), mb_logicalID = 0, mb_attributes = 0, mb_loadFirstExtentID = 0,
     mb_loadLastExtentID = 0, mb_mbExExtentID = 0, mb_totalRecords = 0, mb_totalDataPages = 0, mb_totalDataFreeSpace = 0,
     mb_totalOrgDataLen = 0, mb_totalDataLen = 0, mb_dictExtentID = 0, mb_newDictExtentID = 0, mb_dictStatPageID = 0,
     mb_dictVersion = 0, mb_mbOptExtentID = 0, mb_clUniqueID = 0 \<rparr>"

definition ext_zero :: dmsExtent where
  "ext_zero = \<lparr> ext_eyeCatcher = [], ext_blockSize = 0, ext_mbID = 0, ext_flag = 0, ext_version = 0, ext_logicID = 0,
     ext_prevExtent = 0, ext_nextExtent = 0, ext_recCount = 0, ext_firstRecordOffset = 0, ext_lastRecordOffset = 0,
     ext_freeSpace = 0 \<rparr>"

definition rec_zero :: dmsRecord where
  "rec_zero = \<lparr> rec_flag_and_size = 0, rec_myOffset = 0, rec_previousOffset = 0, rec_nextOffset = 0, rec_body = [] \<rparr>"

definition mex_zero :: dmsMetaExtent where
  "mex_zero = \<lparr> mex_eyeCatcher = [], mex_blockSize = 0, mex_mbID = 0, mex_flag = 0, mex_version = 0, mex_segNum = 0,
     mex_usedSegNum = 0, mex_array = [] \<rparr>"

definition blockData_new :: "string \<Rightarrow> dmsStorageInfo \<Rightarrow> dmsBlockData" where
  "blockData_new suFileName info =
     \<lparr> bd_header = header_reset, bd_info = info, bd_smeMgr = smeMgr_new sme_new,
       bd_mb = (\<lambda>_. mb_zero), bd_mbStat = (\<lambda>_. stat_reset), bd_mblock = (\<lambda>_. openLatch),
       bd_nameMap = (\<lambda>_. None), bd_idMap = (\<lambda>_. None),
       bd_extent = (\<lambda>_. ext_zero), bd_record = (\<lambda>_. rec_zero), bd_metaExt = (\<lambda>_. mex_zero),
       bd_dirtyList = dirtyList_new, bd_mmap = mmap_new, bd_fileSize = 0, bd_mmeSegID = 0, bd_dataSegID = 0,
       bd_maxSegID = - 1, bd_pageNum = 0, bd_pageSize = 0, bd_pageSizeSquare = 0, bd_segmentPages = 0,
       bd_segmentPagesSquare = 0, bd_vecContext = 0, bd_isCrash = False, bd_isClosed = True,
       bd_suFileName = take 142 suFileName, bd_fullPathName = [], bd_ctx = ctx_reset \<rparr>"

text \<open>The answers of the operating system and of \<open>new\<close>.\<close>

record osEnv =
  os_getFileSize :: rc
  os_truncate :: "nat \<Rightarrow> rc"
  os_extend :: "bool \<Rightarrow> rc"
  os_mmap :: "nat \<Rightarrow> nat \<Rightarrow> mmapResult"
  os_newOk :: bool

datatype 'a outcome = Ret 'a dmsBlockData | Exc rc dmsBlockData | Panic | Diverge

type_synonym 'a dms = "dmsBlockData \<Rightarrow> 'a outcome"

definition retM :: "'a \<Rightarrow> 'a dms" where
  "retM a = (\<lambda>s. Ret a s)"

definition bindM :: "'a dms \<Rightarrow> ('a \<Rightarrow> 'b dms) \<Rightarrow> 'b dms" where
  "bindM m f = (\<lambda>s. case m s of Ret a s' \<Rightarrow> f a s' | Exc e s' \<Rightarrow> Exc e s' | Panic \<Rightarrow> Panic | Diverge \<Rightarrow> Diverge)"

definition throwM :: "rc \<Rightarrow> 'a dms" where
  "throwM e = (\<lambda>s. Exc e s)"

text \<open>\<open>try ... catch\<close>.\<close>

definition tryM :: "'a dms \<Rightarrow> (rc \<Rightarrow> 'a dms) \<Rightarrow> 'a dms" where
  "tryM m h = (\<lambda>s. case m s of Ret a s' \<Rightarrow> Ret a s' | Exc e s' \<Rightarrow> h e s' | Panic \<Rightarrow> Panic | Diverge \<Rightarrow> Diverge)"

definition getM :: "(dmsBlockData \<Rightarrow> 'a) \<Rightarrow> 'a dms" where
  "getM f = (\<lambda>s. Ret (f s) s)"

definition modifyM :: "(dmsBlockData \<Rightarrow> dmsBlockData) \<Rightarrow> unit dms" where
  "modifyM f = (\<lambda>s. Ret () (f s))"

section \<open>Addresses\<close>

definition extent2Segment :: "dmsBlockData \<Rightarrow> dmsExtentID \<Rightarrow> nat" where
  "extent2Segment s extentID = u32 (extentID div 2 ^ bd_segmentPagesSquare s + int (bd_dataSegID s))"

definition extentSegOffset :: "dmsBlockData \<Rightarrow> dmsExtentID \<Rightarrow> nat" where
  "extentSegOffset s extentID = nat (extentID mod 2 ^ bd_segmentPagesSquare s)"

text \<open>\<open>extentAddr\<close>: the address, 0 for no address.\<close>

definition extentAddr :: "dmsBlockData \<Rightarrow> dmsExtentID \<Rightarrow> nat" where
  "extentAddr s extentID =
     (if DMS_INVALID_EXTENT = extentID then 0
      else if extent2Segment s extentID > u32 (bd_maxSegID s) then 0
      else fst (mmap_getSegmentInfo (extent2Segment s extentID) (bd_mmap s))
           + extentSegOffset s extentID * 2 ^ bd_pageSizeSquare s)"

definition maxSegmentNum :: "dmsBlockData \<Rightarrow> nat" where
  "maxSegmentNum s = DMS_MAX_PG div 2 ^ bd_segmentPagesSquare s"

section \<open>Statistics and dirty marking\<close>

definition syncMB :: "dmsMBStatInfo \<Rightarrow> dmsMB \<Rightarrow> dmsMB" where
  "syncMB st mb =
     (if DMS_IS_MB_INUSE (mb_flag mb)
      then mb\<lparr>mb_totalRecords := st_totalRecords st, mb_totalDataPages := st_totalDataPages st,
              mb_totalDataFreeSpace := st_totalDataFreeSpace st, mb_totalDataLen := st_totalDataLen st,
              mb_totalOrgDataLen := st_totalOrgDataLen st\<rparr>
      else mb)"

definition syncMemToMmap :: "dmsBlockData \<Rightarrow> dmsBlockData" where
  "syncMemToMmap s =
     s\<lparr>bd_mb := (\<lambda>i. if i < DMS_MME_SLOTS then syncMB (bd_mbStat s i) (bd_mb s i) else bd_mb s i)\<rparr>"

text \<open>\<open>flushSegment\<close>: the dirty bit of a data segment is cleared; the code comes from \<open>flush\<close>,
  which reports \<open>SDB_OK\<close> for every mapped segment.\<close>

definition flushSegment :: "nat \<Rightarrow> dmsBlockData \<Rightarrow> rc \<times> dmsBlockData" where
  "flushSegment segmentID s =
     (let s1 = (if bd_dataSegID s > 0 \<and> segmentID \<ge> bd_dataSegID s
                then s\<lparr>bd_dirtyList := cleanDirty (segmentID - bd_dataSegID s) (bd_dirtyList s)\<rparr> else s)
      in (fst (mmap_flush (\<lambda>_ _. True) segmentID (bd_mmap s1)), s1))"

definition flushMME :: "dmsBlockData \<Rightarrow> rc \<times> dmsBlockData" where
  "flushMME s = flushSegment (bd_mmeSegID s) (syncMemToMmap s)"

definition onMarkHeaderInvalid :: "int \<Rightarrow> dmsBlockData \<Rightarrow> rc \<times> dmsBlockData" where
  "onMarkHeaderInvalid collectionID s =
     (let needSync =
            (if 0 \<le> collectionID \<and> collectionID < int DMS_MME_SLOTS
             then \<not> st_isCrash (bd_mbStat s (nat collectionID))
             else if collectionID = - 1
             then list_ex (\<lambda>i. DMS_IS_MB_INUSE (mb_flag (bd_mb s i)) \<and> \<not> st_isCrash (bd_mbStat s i))
                    [0..<DMS_MME_SLOTS]
             else False)
      in if needSync then flushMME s else (SDB_OK, s))"

definition markHeaderInvalid :: "int \<Rightarrow> bool \<Rightarrow> dmsBlockData \<Rightarrow> dmsBlockData" where
  "markHeaderInvalid collectionID isAll s =
     (if isAll then snd (onMarkHeaderInvalid (- 1) s)
      else if collectionID \<ge> 0 then snd (onMarkHeaderInvalid collectionID s)
      else s)"

datatype DMS_CHG_STEP = DMS_CHG_BEFORE | DMS_CHG_AFTER

definition markDirty :: "int \<Rightarrow> dmsExtentID \<Rightarrow> DMS_CHG_STEP \<Rightarrow> dmsBlockData \<Rightarrow> dmsBlockData" where
  "markDirty collectionID extentID step s =
     (let segID = extent2Segment s extentID
      in if s32 (int segID) \<le> bd_maxSegID s
         then (let s1 = markHeaderInvalid collectionID False s
               in if step = DMS_CHG_BEFORE then s1
                  else s1\<lparr>bd_dirtyList := setDirty (u32 (int segID - int (bd_dataSegID s1))) (bd_dirtyList s1)\<rparr>)
         else s)"

subsection \<open>What marking changes\<close>

text \<open>
  Marking writes only the counters of the metadata blocks and the dirty list: \<open>core\<close> is the rest
  of the state, and it is the same before and after.
\<close>

definition mbCore :: "dmsMB \<Rightarrow> dmsMB" where
  "mbCore mb = mb\<lparr>mb_totalRecords := 0, mb_totalDataPages := 0, mb_totalDataFreeSpace := 0,
     mb_totalDataLen := 0, mb_totalOrgDataLen := 0\<rparr>"

definition core :: "dmsBlockData \<Rightarrow> dmsBlockData" where
  "core s = s\<lparr>bd_mb := (\<lambda>i. mbCore (bd_mb s i)), bd_dirtyList := dirtyList_new\<rparr>"

lemma mbCore_sync [simp]: "mbCore (syncMB st mb) = mbCore mb"
  by (simp add: mbCore_def syncMB_def)

lemma core_sync [simp]: "core (syncMemToMmap s) = core s"
  by (simp add: core_def syncMemToMmap_def if_distrib [of mbCore] cong: if_cong)

lemma core_dirtyList [simp]: "core (s\<lparr>bd_dirtyList := d\<rparr>) = core s"
  by (simp add: core_def)

lemma core_markHeaderInvalid [simp]: "core (markHeaderInvalid c a s) = core s"
  by (simp add: markHeaderInvalid_def onMarkHeaderInvalid_def flushMME_def flushSegment_def Let_def)

lemma core_markDirty [simp]: "core (markDirty c e st s) = core s"
  by (simp add: markDirty_def Let_def)

lemma mbCore_sel:
  "mb_collectionName (mbCore a) = mb_collectionName a"
  "mb_flag (mbCore a) = mb_flag a"
  "mb_blockID (mbCore a) = mb_blockID a"
  "mb_firstExtentID (mbCore a) = mb_firstExtentID a"
  "mb_lastExtentID (mbCore a) = mb_lastExtentID a"
  "mb_deleteList (mbCore a) = mb_deleteList a"
  "mb_logicalID (mbCore a) = mb_logicalID a"
  "mb_attributes (mbCore a) = mb_attributes a"
  "mb_loadFirstExtentID (mbCore a) = mb_loadFirstExtentID a"
  "mb_loadLastExtentID (mbCore a) = mb_loadLastExtentID a"
  "mb_mbExExtentID (mbCore a) = mb_mbExExtentID a"
  "mb_dictExtentID (mbCore a) = mb_dictExtentID a"
  "mb_newDictExtentID (mbCore a) = mb_newDictExtentID a"
  "mb_dictStatPageID (mbCore a) = mb_dictStatPageID a"
  "mb_dictVersion (mbCore a) = mb_dictVersion a"
  "mb_mbOptExtentID (mbCore a) = mb_mbOptExtentID a"
  "mb_clUniqueID (mbCore a) = mb_clUniqueID a"
  by (simp_all add: mbCore_def)

lemma core_sel:
  "bd_header (core s) = bd_header s"
  "bd_info (core s) = bd_info s"
  "bd_smeMgr (core s) = bd_smeMgr s"
  "bd_mbStat (core s) = bd_mbStat s"
  "bd_mblock (core s) = bd_mblock s"
  "bd_nameMap (core s) = bd_nameMap s"
  "bd_idMap (core s) = bd_idMap s"
  "bd_extent (core s) = bd_extent s"
  "bd_record (core s) = bd_record s"
  "bd_metaExt (core s) = bd_metaExt s"
  "bd_mmap (core s) = bd_mmap s"
  "bd_fileSize (core s) = bd_fileSize s"
  "bd_mmeSegID (core s) = bd_mmeSegID s"
  "bd_dataSegID (core s) = bd_dataSegID s"
  "bd_maxSegID (core s) = bd_maxSegID s"
  "bd_pageNum (core s) = bd_pageNum s"
  "bd_pageSize (core s) = bd_pageSize s"
  "bd_pageSizeSquare (core s) = bd_pageSizeSquare s"
  "bd_segmentPages (core s) = bd_segmentPages s"
  "bd_segmentPagesSquare (core s) = bd_segmentPagesSquare s"
  "bd_vecContext (core s) = bd_vecContext s"
  "bd_isCrash (core s) = bd_isCrash s"
  "bd_isClosed (core s) = bd_isClosed s"
  "bd_suFileName (core s) = bd_suFileName s"
  "bd_fullPathName (core s) = bd_fullPathName s"
  "bd_ctx (core s) = bd_ctx s"
  "bd_mb (core s) i = mbCore (bd_mb s i)"
  by (simp_all add: core_def)

lemma core_eqD:
  assumes "core s = core t"
  shows "bd_header s = bd_header t"
    and "bd_info s = bd_info t"
    and "bd_smeMgr s = bd_smeMgr t"
    and "bd_mbStat s = bd_mbStat t"
    and "bd_mblock s = bd_mblock t"
    and "bd_nameMap s = bd_nameMap t"
    and "bd_idMap s = bd_idMap t"
    and "bd_extent s = bd_extent t"
    and "bd_record s = bd_record t"
    and "bd_metaExt s = bd_metaExt t"
    and "bd_mmap s = bd_mmap t"
    and "bd_fileSize s = bd_fileSize t"
    and "bd_mmeSegID s = bd_mmeSegID t"
    and "bd_dataSegID s = bd_dataSegID t"
    and "bd_maxSegID s = bd_maxSegID t"
    and "bd_pageNum s = bd_pageNum t"
    and "bd_pageSize s = bd_pageSize t"
    and "bd_pageSizeSquare s = bd_pageSizeSquare t"
    and "bd_segmentPages s = bd_segmentPages t"
    and "bd_segmentPagesSquare s = bd_segmentPagesSquare t"
    and "bd_vecContext s = bd_vecContext t"
    and "bd_isCrash s = bd_isCrash t"
    and "bd_isClosed s = bd_isClosed t"
    and "bd_suFileName s = bd_suFileName t"
    and "bd_fullPathName s = bd_fullPathName t"
    and "bd_ctx s = bd_ctx t"
    and "mbCore (bd_mb s i) = mbCore (bd_mb t i)"
  subgoal using arg_cong [OF assms, of bd_header] by (simp only: core_sel)
  subgoal using arg_cong [OF assms, of bd_info] by (simp only: core_sel)
  subgoal using arg_cong [OF assms, of bd_smeMgr] by (simp only: core_sel)
  subgoal using arg_cong [OF assms, of bd_mbStat] by (simp only: core_sel)
  subgoal using arg_cong [OF assms, of bd_mblock] by (simp only: core_sel)
  subgoal using arg_cong [OF assms, of bd_nameMap] by (simp only: core_sel)
  subgoal using arg_cong [OF assms, of bd_idMap] by (simp only: core_sel)
  subgoal using arg_cong [OF assms, of bd_extent] by (simp only: core_sel)
  subgoal using arg_cong [OF assms, of bd_record] by (simp only: core_sel)
  subgoal using arg_cong [OF assms, of bd_metaExt] by (simp only: core_sel)
  subgoal using arg_cong [OF assms, of bd_mmap] by (simp only: core_sel)
  subgoal using arg_cong [OF assms, of bd_fileSize] by (simp only: core_sel)
  subgoal using arg_cong [OF assms, of bd_mmeSegID] by (simp only: core_sel)
  subgoal using arg_cong [OF assms, of bd_dataSegID] by (simp only: core_sel)
  subgoal using arg_cong [OF assms, of bd_maxSegID] by (simp only: core_sel)
  subgoal using arg_cong [OF assms, of bd_pageNum] by (simp only: core_sel)
  subgoal using arg_cong [OF assms, of bd_pageSize] by (simp only: core_sel)
  subgoal using arg_cong [OF assms, of bd_pageSizeSquare] by (simp only: core_sel)
  subgoal using arg_cong [OF assms, of bd_segmentPages] by (simp only: core_sel)
  subgoal using arg_cong [OF assms, of bd_segmentPagesSquare] by (simp only: core_sel)
  subgoal using arg_cong [OF assms, of bd_vecContext] by (simp only: core_sel)
  subgoal using arg_cong [OF assms, of bd_isCrash] by (simp only: core_sel)
  subgoal using arg_cong [OF assms, of bd_isClosed] by (simp only: core_sel)
  subgoal using arg_cong [OF assms, of bd_suFileName] by (simp only: core_sel)
  subgoal using arg_cong [OF assms, of bd_fullPathName] by (simp only: core_sel)
  subgoal using arg_cong [OF assms, of bd_ctx] by (simp only: core_sel)
  subgoal using arg_cong [OF assms, of "\<lambda>s. bd_mb s i"] by (simp only: core_sel)
  done

lemma mbCore_eqD:
  assumes "mbCore a = mbCore b"
  shows "mb_collectionName a = mb_collectionName b"
    and "mb_flag a = mb_flag b"
    and "mb_blockID a = mb_blockID b"
    and "mb_firstExtentID a = mb_firstExtentID b"
    and "mb_lastExtentID a = mb_lastExtentID b"
    and "mb_deleteList a = mb_deleteList b"
    and "mb_logicalID a = mb_logicalID b"
    and "mb_attributes a = mb_attributes b"
    and "mb_loadFirstExtentID a = mb_loadFirstExtentID b"
    and "mb_loadLastExtentID a = mb_loadLastExtentID b"
    and "mb_mbExExtentID a = mb_mbExExtentID b"
    and "mb_dictExtentID a = mb_dictExtentID b"
    and "mb_newDictExtentID a = mb_newDictExtentID b"
    and "mb_dictStatPageID a = mb_dictStatPageID b"
    and "mb_dictVersion a = mb_dictVersion b"
    and "mb_mbOptExtentID a = mb_mbOptExtentID b"
    and "mb_clUniqueID a = mb_clUniqueID b"
  subgoal using arg_cong [OF assms, of mb_collectionName] by (simp only: mbCore_sel)
  subgoal using arg_cong [OF assms, of mb_flag] by (simp only: mbCore_sel)
  subgoal using arg_cong [OF assms, of mb_blockID] by (simp only: mbCore_sel)
  subgoal using arg_cong [OF assms, of mb_firstExtentID] by (simp only: mbCore_sel)
  subgoal using arg_cong [OF assms, of mb_lastExtentID] by (simp only: mbCore_sel)
  subgoal using arg_cong [OF assms, of mb_deleteList] by (simp only: mbCore_sel)
  subgoal using arg_cong [OF assms, of mb_logicalID] by (simp only: mbCore_sel)
  subgoal using arg_cong [OF assms, of mb_attributes] by (simp only: mbCore_sel)
  subgoal using arg_cong [OF assms, of mb_loadFirstExtentID] by (simp only: mbCore_sel)
  subgoal using arg_cong [OF assms, of mb_loadLastExtentID] by (simp only: mbCore_sel)
  subgoal using arg_cong [OF assms, of mb_mbExExtentID] by (simp only: mbCore_sel)
  subgoal using arg_cong [OF assms, of mb_dictExtentID] by (simp only: mbCore_sel)
  subgoal using arg_cong [OF assms, of mb_newDictExtentID] by (simp only: mbCore_sel)
  subgoal using arg_cong [OF assms, of mb_dictStatPageID] by (simp only: mbCore_sel)
  subgoal using arg_cong [OF assms, of mb_dictVersion] by (simp only: mbCore_sel)
  subgoal using arg_cong [OF assms, of mb_mbOptExtentID] by (simp only: mbCore_sel)
  subgoal using arg_cong [OF assms, of mb_clUniqueID] by (simp only: mbCore_sel)
  done

lemmas markDirty_frame [simp] = core_eqD [OF core_markDirty]
lemmas markDirty_mb_frame [simp] = mbCore_eqD [OF markDirty_frame(27)]

lemma addr_markDirty [simp]:
  "extent2Segment (markDirty c e st s) x = extent2Segment s x"
  "extentAddr (markDirty c e st s) x = extentAddr s x"
  by (simp_all add: extent2Segment_def extentAddr_def extentSegOffset_def)

section \<open>Read and write handles\<close>

text \<open>
  \<open>readPtr\<close> and \<open>writePtr\<close> of an extent handle.  With the no-throw attribute a null address gives
  \<open>False\<close> (the null pointer), otherwise the exception \<open>SDB_SYS\<close>.  \<open>withRW\<close> runs a block and then the
  destructor of a handle that was written through, also when the block throws.
\<close>

definition extReadPtr :: "dmsExtentID \<Rightarrow> bool \<Rightarrow> bool dms" where
  "extReadPtr ext nothrow = (\<lambda>s.
     if extentAddr s ext = 0 then (if nothrow then Ret False s else Exc SDB_SYS s) else Ret True s)"

definition extWritePtr :: "int \<Rightarrow> dmsExtentID \<Rightarrow> bool \<Rightarrow> bool dms" where
  "extWritePtr coll ext nothrow = (\<lambda>s.
     if extentAddr s ext = 0 then (if nothrow then Ret False s else Exc SDB_SYS s)
     else Ret True (markDirty coll ext DMS_CHG_BEFORE s))"

definition withRW :: "int \<Rightarrow> dmsExtentID \<Rightarrow> 'a dms \<Rightarrow> 'a dms" where
  "withRW coll ext m = (\<lambda>s. case m s of
       Ret a s' \<Rightarrow> Ret a (markDirty coll ext DMS_CHG_AFTER s')
     | Exc e s' \<Rightarrow> Exc e (markDirty coll ext DMS_CHG_AFTER s')
     | Panic \<Rightarrow> Panic | Diverge \<Rightarrow> Diverge)"

text \<open>
  Record handles: \<open>_doneAddr\<close> reads the address of the extent; \<open>len\<close> 0 stands for the size of
  the record, and a length above the maximal record size is \<open>SDB_DMS_CORRUPTED_EXTENT\<close>.
\<close>

definition recLen :: "dmsBlockData \<Rightarrow> dmsRecordID \<Rightarrow> nat \<Rightarrow> nat" where
  "recLen s rid len = (if len = 0 then rec_getSize (bd_record s rid) else len)"

definition recReadPtr :: "dmsRecordID \<Rightarrow> nat \<Rightarrow> bool \<Rightarrow> bool dms" where
  "recReadPtr rid len nothrow = (\<lambda>s.
     if extentAddr s (rid_extent rid) = 0 then (if nothrow then Ret False s else Exc SDB_SYS s)
     else if recLen s rid len > DMS_RECORD_MAX_SZ
     then (if nothrow then Ret False s else Exc SDB_DMS_CORRUPTED_EXTENT s)
     else extReadPtr (rid_extent rid) nothrow s)"

definition recWritePtr :: "int \<Rightarrow> dmsRecordID \<Rightarrow> nat \<Rightarrow> bool \<Rightarrow> bool dms" where
  "recWritePtr coll rid len nothrow = (\<lambda>s.
     if extentAddr s (rid_extent rid) = 0 then (if nothrow then Ret False s else Exc SDB_SYS s)
     else if recLen s rid len > DMS_RECORD_MAX_SZ
     then (if nothrow then Ret False s else Exc SDB_DMS_CORRUPTED_EXTENT s)
     else extWritePtr coll (rid_extent rid) nothrow s)"

text \<open>Stores through a pointer.\<close>

definition setExtent :: "dmsExtentID \<Rightarrow> (dmsExtent \<Rightarrow> dmsExtent) \<Rightarrow> dmsBlockData \<Rightarrow> dmsBlockData" where
  "setExtent ext f s = s\<lparr>bd_extent := (bd_extent s)(ext := f (bd_extent s ext))\<rparr>"

definition setRecord :: "dmsRecordID \<Rightarrow> (dmsRecord \<Rightarrow> dmsRecord) \<Rightarrow> dmsBlockData \<Rightarrow> dmsBlockData" where
  "setRecord rid f s = s\<lparr>bd_record := (bd_record s)(rid := f (bd_record s rid))\<rparr>"

definition setMetaExt :: "dmsExtentID \<Rightarrow> (dmsMetaExtent \<Rightarrow> dmsMetaExtent) \<Rightarrow> dmsBlockData \<Rightarrow> dmsBlockData" where
  "setMetaExt ext f s = s\<lparr>bd_metaExt := (bd_metaExt s)(ext := f (bd_metaExt s ext))\<rparr>"

definition setMB :: "nat \<Rightarrow> (dmsMB \<Rightarrow> dmsMB) \<Rightarrow> dmsBlockData \<Rightarrow> dmsBlockData" where
  "setMB mbID f s = s\<lparr>bd_mb := (bd_mb s)(mbID := f (bd_mb s mbID))\<rparr>"

definition setStat :: "nat \<Rightarrow> (dmsMBStatInfo \<Rightarrow> dmsMBStatInfo) \<Rightarrow> dmsBlockData \<Rightarrow> dmsBlockData" where
  "setStat mbID f s = s\<lparr>bd_mbStat := (bd_mbStat s)(mbID := f (bd_mbStat s mbID))\<rparr>"

definition updExtent :: "dmsExtentID \<Rightarrow> (dmsExtent \<Rightarrow> dmsExtent) \<Rightarrow> unit dms" where
  "updExtent ext f = modifyM (setExtent ext f)"

definition updRecord :: "dmsRecordID \<Rightarrow> (dmsRecord \<Rightarrow> dmsRecord) \<Rightarrow> unit dms" where
  "updRecord rid f = modifyM (setRecord rid f)"

definition updMetaExt :: "dmsExtentID \<Rightarrow> (dmsMetaExtent \<Rightarrow> dmsMetaExtent) \<Rightarrow> unit dms" where
  "updMetaExt ext f = modifyM (setMetaExt ext f)"

definition updMB :: "nat \<Rightarrow> (dmsMB \<Rightarrow> dmsMB) \<Rightarrow> unit dms" where
  "updMB mbID f = modifyM (setMB mbID f)"

definition updStat :: "nat \<Rightarrow> (dmsMBStatInfo \<Rightarrow> dmsMBStatInfo) \<Rightarrow> unit dms" where
  "updStat mbID f = modifyM (setStat mbID f)"

lemmas set_defs = setExtent_def setRecord_def setMetaExt_def setMB_def setStat_def

lemma setExtent_sel [simp]:
  "bd_extent (setExtent k f s) = (bd_extent s)(k := f (bd_extent s k))"
  "bd_record (setExtent k f s) = bd_record s"
  "bd_metaExt (setExtent k f s) = bd_metaExt s"
  "bd_mb (setExtent k f s) = bd_mb s"
  "bd_mbStat (setExtent k f s) = bd_mbStat s"
  "bd_ctx (setExtent k f s) = bd_ctx s"
  "bd_mblock (setExtent k f s) = bd_mblock s"
  "bd_smeMgr (setExtent k f s) = bd_smeMgr s"
  "bd_pageSizeSquare (setExtent k f s) = bd_pageSizeSquare s"
  "bd_segmentPagesSquare (setExtent k f s) = bd_segmentPagesSquare s"
  "bd_dataSegID (setExtent k f s) = bd_dataSegID s"
  "bd_maxSegID (setExtent k f s) = bd_maxSegID s"
  "bd_mmap (setExtent k f s) = bd_mmap s"
  "bd_header (setExtent k f s) = bd_header s"
  "bd_pageSize (setExtent k f s) = bd_pageSize s"
  "bd_segmentPages (setExtent k f s) = bd_segmentPages s"
  "bd_nameMap (setExtent k f s) = bd_nameMap s"
  "bd_idMap (setExtent k f s) = bd_idMap s"
  "bd_info (setExtent k f s) = bd_info s"
  "bd_fileSize (setExtent k f s) = bd_fileSize s"
  "extentAddr (setExtent k f s) x = extentAddr s x" "extent2Segment (setExtent k f s) x = extent2Segment s x"
  by (simp_all add: setExtent_def extentAddr_def extent2Segment_def extentSegOffset_def)

lemma setRecord_sel [simp]:
  "bd_extent (setRecord k f s) = bd_extent s"
  "bd_record (setRecord k f s) = (bd_record s)(k := f (bd_record s k))"
  "bd_metaExt (setRecord k f s) = bd_metaExt s"
  "bd_mb (setRecord k f s) = bd_mb s"
  "bd_mbStat (setRecord k f s) = bd_mbStat s"
  "bd_ctx (setRecord k f s) = bd_ctx s"
  "bd_mblock (setRecord k f s) = bd_mblock s"
  "bd_smeMgr (setRecord k f s) = bd_smeMgr s"
  "bd_pageSizeSquare (setRecord k f s) = bd_pageSizeSquare s"
  "bd_segmentPagesSquare (setRecord k f s) = bd_segmentPagesSquare s"
  "bd_dataSegID (setRecord k f s) = bd_dataSegID s"
  "bd_maxSegID (setRecord k f s) = bd_maxSegID s"
  "bd_mmap (setRecord k f s) = bd_mmap s"
  "bd_header (setRecord k f s) = bd_header s"
  "bd_pageSize (setRecord k f s) = bd_pageSize s"
  "bd_segmentPages (setRecord k f s) = bd_segmentPages s"
  "bd_nameMap (setRecord k f s) = bd_nameMap s"
  "bd_idMap (setRecord k f s) = bd_idMap s"
  "bd_info (setRecord k f s) = bd_info s"
  "bd_fileSize (setRecord k f s) = bd_fileSize s"
  "extentAddr (setRecord k f s) x = extentAddr s x" "extent2Segment (setRecord k f s) x = extent2Segment s x"
  by (simp_all add: setRecord_def extentAddr_def extent2Segment_def extentSegOffset_def)

lemma setMetaExt_sel [simp]:
  "bd_extent (setMetaExt k f s) = bd_extent s"
  "bd_record (setMetaExt k f s) = bd_record s"
  "bd_metaExt (setMetaExt k f s) = (bd_metaExt s)(k := f (bd_metaExt s k))"
  "bd_mb (setMetaExt k f s) = bd_mb s"
  "bd_mbStat (setMetaExt k f s) = bd_mbStat s"
  "bd_ctx (setMetaExt k f s) = bd_ctx s"
  "bd_mblock (setMetaExt k f s) = bd_mblock s"
  "bd_smeMgr (setMetaExt k f s) = bd_smeMgr s"
  "bd_pageSizeSquare (setMetaExt k f s) = bd_pageSizeSquare s"
  "bd_segmentPagesSquare (setMetaExt k f s) = bd_segmentPagesSquare s"
  "bd_dataSegID (setMetaExt k f s) = bd_dataSegID s"
  "bd_maxSegID (setMetaExt k f s) = bd_maxSegID s"
  "bd_mmap (setMetaExt k f s) = bd_mmap s"
  "bd_header (setMetaExt k f s) = bd_header s"
  "bd_pageSize (setMetaExt k f s) = bd_pageSize s"
  "bd_segmentPages (setMetaExt k f s) = bd_segmentPages s"
  "bd_nameMap (setMetaExt k f s) = bd_nameMap s"
  "bd_idMap (setMetaExt k f s) = bd_idMap s"
  "bd_info (setMetaExt k f s) = bd_info s"
  "bd_fileSize (setMetaExt k f s) = bd_fileSize s"
  "extentAddr (setMetaExt k f s) x = extentAddr s x" "extent2Segment (setMetaExt k f s) x = extent2Segment s x"
  by (simp_all add: setMetaExt_def extentAddr_def extent2Segment_def extentSegOffset_def)

lemma setMB_sel [simp]:
  "bd_extent (setMB k f s) = bd_extent s"
  "bd_record (setMB k f s) = bd_record s"
  "bd_metaExt (setMB k f s) = bd_metaExt s"
  "bd_mb (setMB k f s) = (bd_mb s)(k := f (bd_mb s k))"
  "bd_mbStat (setMB k f s) = bd_mbStat s"
  "bd_ctx (setMB k f s) = bd_ctx s"
  "bd_mblock (setMB k f s) = bd_mblock s"
  "bd_smeMgr (setMB k f s) = bd_smeMgr s"
  "bd_pageSizeSquare (setMB k f s) = bd_pageSizeSquare s"
  "bd_segmentPagesSquare (setMB k f s) = bd_segmentPagesSquare s"
  "bd_dataSegID (setMB k f s) = bd_dataSegID s"
  "bd_maxSegID (setMB k f s) = bd_maxSegID s"
  "bd_mmap (setMB k f s) = bd_mmap s"
  "bd_header (setMB k f s) = bd_header s"
  "bd_pageSize (setMB k f s) = bd_pageSize s"
  "bd_segmentPages (setMB k f s) = bd_segmentPages s"
  "bd_nameMap (setMB k f s) = bd_nameMap s"
  "bd_idMap (setMB k f s) = bd_idMap s"
  "bd_info (setMB k f s) = bd_info s"
  "bd_fileSize (setMB k f s) = bd_fileSize s"
  "extentAddr (setMB k f s) x = extentAddr s x" "extent2Segment (setMB k f s) x = extent2Segment s x"
  by (simp_all add: setMB_def extentAddr_def extent2Segment_def extentSegOffset_def)

lemma setStat_sel [simp]:
  "bd_extent (setStat k f s) = bd_extent s"
  "bd_record (setStat k f s) = bd_record s"
  "bd_metaExt (setStat k f s) = bd_metaExt s"
  "bd_mb (setStat k f s) = bd_mb s"
  "bd_mbStat (setStat k f s) = (bd_mbStat s)(k := f (bd_mbStat s k))"
  "bd_ctx (setStat k f s) = bd_ctx s"
  "bd_mblock (setStat k f s) = bd_mblock s"
  "bd_smeMgr (setStat k f s) = bd_smeMgr s"
  "bd_pageSizeSquare (setStat k f s) = bd_pageSizeSquare s"
  "bd_segmentPagesSquare (setStat k f s) = bd_segmentPagesSquare s"
  "bd_dataSegID (setStat k f s) = bd_dataSegID s"
  "bd_maxSegID (setStat k f s) = bd_maxSegID s"
  "bd_mmap (setStat k f s) = bd_mmap s"
  "bd_header (setStat k f s) = bd_header s"
  "bd_pageSize (setStat k f s) = bd_pageSize s"
  "bd_segmentPages (setStat k f s) = bd_segmentPages s"
  "bd_nameMap (setStat k f s) = bd_nameMap s"
  "bd_idMap (setStat k f s) = bd_idMap s"
  "bd_info (setStat k f s) = bd_info s"
  "bd_fileSize (setStat k f s) = bd_fileSize s"
  "extentAddr (setStat k f s) x = extentAddr s x" "extent2Segment (setStat k f s) x = extent2Segment s x"
  by (simp_all add: setStat_def extentAddr_def extent2Segment_def extentSegOffset_def)

text \<open>The links of a record handle (\<open>deriveNext\<close>, \<open>derivePre\<close>, \<open>deriveOverflow\<close>); \<open>None\<close> is the empty handle.\<close>

definition deriveNext :: "dmsBlockData \<Rightarrow> dmsRecordID \<Rightarrow> dmsRecordID option" where
  "deriveNext s rid =
     (if extentAddr s (rid_extent rid) \<noteq> 0 \<and> DMS_INVALID_OFFSET \<noteq> rec_nextOffset (bd_record s rid)
      then Some (RID (rid_extent rid) (rec_nextOffset (bd_record s rid))) else None)"

definition derivePre :: "dmsBlockData \<Rightarrow> dmsRecordID \<Rightarrow> dmsRecordID option" where
  "derivePre s rid =
     (if extentAddr s (rid_extent rid) \<noteq> 0 \<and> DMS_INVALID_OFFSET \<noteq> rec_previousOffset (bd_record s rid)
      then Some (RID (rid_extent rid) (rec_previousOffset (bd_record s rid))) else None)"

definition deriveOverflow :: "dmsBlockData \<Rightarrow> dmsRecordID \<Rightarrow> dmsRecordID option" where
  "deriveOverflow s rid =
     (if extentAddr s (rid_extent rid) \<noteq> 0 \<and> rec_isOvf (bd_record s rid)
      then Some (rec_getOvfRID (bd_record s rid)) else None)"

section \<open>Context locks on the state\<close>

definition mbViewOf :: "dmsBlockData \<Rightarrow> nat \<Rightarrow> mbView" where
  "mbViewOf s mbID = (mb_flag (bd_mb s mbID), mb_logicalID (bd_mb s mbID))"

text \<open>
  The caller's context is part of the state (\<open>bd_ctx\<close>): the operations get a pointer to it.  \<open>mbLock\<close>, \<open>pause\<close> and \<open>resume\<close>
  act on it and on the latch of its metadata block; the latch is granted without a change of the
  metadata block by others while the caller waits.
\<close>

definition putCtx :: "rc \<times> dmsMBContext \<times> ossSpinSLatch \<Rightarrow> rc dms" where
  "putCtx r = (\<lambda>s. case r of (rc, ctx, la) \<Rightarrow>
     Ret rc (s\<lparr>bd_ctx := ctx, bd_mblock := (bd_mblock s)(ctx_mbID (bd_ctx s) := la)\<rparr>))"

definition ctxLock :: "int \<Rightarrow> rc dms" where
  "ctxLock lockType = (\<lambda>s. let mbID = ctx_mbID (bd_ctx s); v = mbViewOf s mbID
     in putCtx (mbLock id v v lockType (bd_ctx s) (bd_mblock s mbID)) s)"

definition ctxPause :: "rc dms" where
  "ctxPause = (\<lambda>s. putCtx (mbPause (bd_ctx s) (bd_mblock s (ctx_mbID (bd_ctx s)))) s)"

definition ctxResume :: "rc dms" where
  "ctxResume = (\<lambda>s. let mbID = ctx_mbID (bd_ctx s); v = mbViewOf s mbID
     in putCtx (mbResume id v v (bd_ctx s) (bd_mblock s mbID)) s)"

section \<open>Outcomes up to marking\<close>

text \<open>
  \<open>yields r a t\<close>: the outcome \<open>r\<close> is a return of \<open>a\<close> in a state that agrees with \<open>t\<close> up to the
  marking (the counters of the metadata blocks and the dirty list).
\<close>

definition yields :: "'a outcome \<Rightarrow> 'a \<Rightarrow> dmsBlockData \<Rightarrow> bool" where
  "yields r a t \<longleftrightarrow> (\<exists>s'. r = Ret a s' \<and> core s' = core t)"

lemma yields_bind:
  assumes "yields (m s) a t" and "\<And>s'. core s' = core t \<Longrightarrow> yields (f a s') b u"
  shows "yields (bindM m f s) b u"
  using assms by (auto simp: yields_def bindM_def)

lemma yields_ret [simp]: "yields (retM a s) b t \<longleftrightarrow> a = b \<and> core s = core t"
  by (auto simp: yields_def retM_def)

lemma yields_try: "yields (m s) a t \<Longrightarrow> yields (tryM m h s) a t"
  by (auto simp: yields_def tryM_def)

lemma yields_get [simp]: "yields (getM f s) a t \<longleftrightarrow> a = f s \<and> core s = core t"
  by (auto simp: yields_def getM_def)

lemma yields_modify: "core (f s) = core t \<Longrightarrow> yields (modifyM f s) () t"
  by (simp add: yields_def modifyM_def)

lemma bindM_getM [simp]: "bindM (getM f) g s = g (f s) s"
  by (simp add: bindM_def getM_def)

lemma bindM_retM [simp]: "bindM (retM a) g = g a"
  by (rule ext) (simp add: bindM_def retM_def)

lemma bindM_assoc: "bindM (bindM m f) g = bindM m (\<lambda>x. bindM (f x) g)"
  by (rule ext) (simp add: bindM_def split: outcome.split)

lemma core_form:
  assumes "core s = core t"
  shows "\<exists>m d. t = s\<lparr>bd_mb := m, bd_dirtyList := d\<rparr> \<and> (\<forall>i. mbCore (m i) = mbCore (bd_mb s i))"
proof -
  have "core t = core s" using assms by simp
  note eqs = core_eqD [OF this]
  have "t = s\<lparr>bd_mb := bd_mb t, bd_dirtyList := bd_dirtyList t\<rparr>"
    by (rule dmsBlockData.equality) (simp_all add: eqs)
  then show ?thesis using eqs(27) by blast
qed

lemma core_addr:
  assumes "core s = core t"
  shows "extent2Segment s x = extent2Segment t x" and "extentAddr s x = extentAddr t x"
  by (simp_all add: extent2Segment_def extentAddr_def extentSegOffset_def core_eqD [OF assms])

lemma yields_extWrite:
  assumes "core s = core t" and "extentAddr t ext \<noteq> 0"
  shows "yields (extWritePtr coll ext nt s) True t"
  using assms core_addr [OF assms(1)] by (simp add: yields_def extWritePtr_def)

lemma yields_extRead:
  assumes "core s = core t" and "extentAddr t ext \<noteq> 0"
  shows "yields (extReadPtr ext nt s) True t"
  using assms core_addr [OF assms(1)] by (simp add: yields_def extReadPtr_def)

lemma yields_recWrite:
  assumes "core s = core t" and "extentAddr t (rid_extent rid) \<noteq> 0"
    and "recLen t rid len \<le> DMS_RECORD_MAX_SZ"
  shows "yields (recWritePtr coll rid len nt s) True t"
proof -
  have "recLen s rid len = recLen t rid len" by (simp add: recLen_def core_eqD(9) [OF assms(1)])
  then show ?thesis
    using assms core_addr [OF assms(1)] yields_extWrite [OF assms(1,2)] by (simp add: recWritePtr_def)
qed

lemma yields_recRead:
  assumes "core s = core t" and "extentAddr t (rid_extent rid) \<noteq> 0"
    and "recLen t rid len \<le> DMS_RECORD_MAX_SZ"
  shows "yields (recReadPtr rid len nt s) True t"
proof -
  have "recLen s rid len = recLen t rid len" by (simp add: recLen_def core_eqD(9) [OF assms(1)])
  then show ?thesis
    using assms core_addr [OF assms(1)] yields_extRead [OF assms(1,2)] by (simp add: recReadPtr_def)
qed

lemma yields_withRW: "yields (m s) a t \<Longrightarrow> yields (withRW coll ext m s) a t"
  by (auto simp: yields_def withRW_def)

lemma core_mb_upd:
  assumes "core s = core t" and "\<And>a b. mbCore a = mbCore b \<Longrightarrow> mbCore (f a) = mbCore (f b)"
  shows "core (s\<lparr>bd_mb := (bd_mb s)(c := f (bd_mb s c))\<rparr>) = core (t\<lparr>bd_mb := (bd_mb t)(c := f (bd_mb t c))\<rparr>)"
proof -
  obtain m d where t: "t = s\<lparr>bd_mb := m, bd_dirtyList := d\<rparr>" and m: "\<forall>i. mbCore (m i) = mbCore (bd_mb s i)"
    using core_form [OF assms(1)] by blast
  have "(\<lambda>i. mbCore (((bd_mb s)(c := f (bd_mb s c))) i)) = (\<lambda>i. mbCore ((m(c := f (m c))) i))"
    using assms(2) [of "bd_mb s c" "m c"] m by (auto simp: fun_eq_iff)
  then show ?thesis by (simp add: t core_def)
qed

lemma core_store_upd:
  assumes "core s = core t"
  shows "core (s\<lparr>bd_extent := x\<rparr>) = core (t\<lparr>bd_extent := x\<rparr>)"
    and "core (s\<lparr>bd_record := y\<rparr>) = core (t\<lparr>bd_record := y\<rparr>)"
    and "core (s\<lparr>bd_metaExt := z\<rparr>) = core (t\<lparr>bd_metaExt := z\<rparr>)"
    and "core (s\<lparr>bd_mbStat := u\<rparr>) = core (t\<lparr>bd_mbStat := u\<rparr>)"
    and "core (s\<lparr>bd_ctx := v\<rparr>) = core (t\<lparr>bd_ctx := v\<rparr>)"
    and "core (s\<lparr>bd_smeMgr := w\<rparr>) = core (t\<lparr>bd_smeMgr := w\<rparr>)"
    and "core (s\<lparr>bd_mblock := q\<rparr>) = core (t\<lparr>bd_mblock := q\<rparr>)"
  using core_form [OF assms] by (auto simp: core_def)

lemma yields_updExtent:
  "core s = core t \<Longrightarrow> yields (updExtent x f s) () (setExtent x f t)"
  unfolding updExtent_def setExtent_def by (rule yields_modify) (simp only: core_eqD(8) [of s t] core_store_upd [of s t])

lemma yields_updRecord:
  "core s = core t \<Longrightarrow> yields (updRecord x f s) () (setRecord x f t)"
  unfolding updRecord_def setRecord_def by (rule yields_modify) (simp only: core_eqD(9) [of s t] core_store_upd [of s t])

lemma yields_updStat:
  "core s = core t \<Longrightarrow> yields (updStat x f s) () (setStat x f t)"
  unfolding updStat_def setStat_def by (rule yields_modify) (simp only: core_eqD(4) [of s t] core_store_upd [of s t])

lemma yields_updMetaExt:
  "core s = core t \<Longrightarrow> yields (updMetaExt x f s) () (setMetaExt x f t)"
  unfolding updMetaExt_def setMetaExt_def by (rule yields_modify) (simp only: core_eqD(10) [of s t] core_store_upd [of s t])

lemma yields_updMB:
  assumes "core s = core t" and "\<And>a b. mbCore a = mbCore b \<Longrightarrow> mbCore (f a) = mbCore (f b)"
  shows "yields (updMB c f s) () (setMB c f t)"
  unfolding updMB_def setMB_def by (rule yields_modify) (rule core_mb_upd [OF assms])

lemma mbCore_upd:
  assumes "mbCore a = mbCore b"
  shows "mbCore (a\<lparr>mb_deleteList := (mb_deleteList a)[j := x]\<rparr>) = mbCore (b\<lparr>mb_deleteList := (mb_deleteList b)[j := x]\<rparr>)"
    and "mbCore (a\<lparr>mb_lastExtentID := y\<rparr>) = mbCore (b\<lparr>mb_lastExtentID := y\<rparr>)"
    and "mbCore (a\<lparr>mb_firstExtentID := y, mb_lastExtentID := z\<rparr>) = mbCore (b\<lparr>mb_firstExtentID := y, mb_lastExtentID := z\<rparr>)"
  using assms by (cases a; cases b; simp add: mbCore_def)+

section \<open>A mapped segment for examples\<close>

definition demoMmap :: ossMmapFile where
  "demoMmap = \<lparr> mm_opened = True, mm_totalLength = DMS_SEGMENT_SZ, mm_fileName = ''demo'',
     mm_segs = [\<lparr> seg_ptr = 4096, seg_length = DMS_SEGMENT_SZ, seg_offset = 0 \<rparr>], mm_capacity = 128 \<rparr>"

end
