(* ===== verification/Dms_FreeList.thy ===== *)
theory Dms_FreeList
  imports Dms_BlockState
begin

text \<open>
  The free space of a collection: the size a record is given (\<open>_finalRecordSize\<close>), the 20 lists of
  deleted records by size class (\<open>_deleteList\<close> of the metadata block), putting a piece of an
  extent on its list (\<open>_saveDeletedRecord\<close>), and cutting a new extent into deleted records
  of at most 16 MB (\<open>_mapExtent2DelList\<close>), all from \<open>dmsBlockData.cpp\<close>.
\<close>

section \<open>The size of a record\<close>

text \<open>
  \<open>size * 1.2f\<close>: the size, below \<open>2 ^ 24\<close>, is exact as a \<open>float\<close>; 1.2f is \<open>10066330 / 2 ^ 23\<close>; the product
  is rounded to 24 significant bits, to nearest with ties to even, and truncated to \<open>UINT32\<close>.
\<close>

fun bitLen :: "nat \<Rightarrow> nat" where
  "bitLen n = (if n = 0 then 0 else Suc (bitLen (n div 2)))"

declare bitLen.simps [simp del]

definition roundEven :: "nat \<Rightarrow> nat \<Rightarrow> nat" where
  "roundEven n sh =
     (let q = n div 2 ^ sh; r = n mod 2 ^ sh
      in if 2 * r > 2 ^ sh \<or> 2 * r = 2 ^ sh \<and> odd q then q + 1 else q)"

definition mulRatio :: "nat \<Rightarrow> nat" where
  "mulRatio n =
     (let p = n * 10066330; sh = bitLen p - 24
      in roundEven p sh * 2 ^ sh div 2 ^ 23)"

definition finalRecordSize :: "nat \<Rightarrow> nat" where
  "finalRecordSize n =
     (let n1 = u32 (int (mulRatio n) + int DMS_RECORD_METADATA_SZ)
      in min DMS_RECORD_MAX_SZ (unat (ossAlignX (word_of_nat n1) 4)))"

section \<open>Size classes\<close>

fun slotLoop :: "nat \<Rightarrow> nat \<Rightarrow> nat" where
  "slotLoop slot n = (if n = 0 then slot else slotLoop (Suc slot) (n div 2))"

declare slotLoop.simps [simp del]

definition deleteSlot :: "nat \<Rightarrow> nat" where
  "deleteSlot recordSize = slotLoop 0 ((recordSize - 1) div 32)"

section \<open>Saving a deleted record\<close>

text \<open>\<open>saveDeletedRecordAt\<close> is the overload that gets the extent and the record, \<open>saveDeletedRecord\<close> the
  one that looks them up.\<close>

definition saveState :: "nat \<Rightarrow> dmsRecordID \<Rightarrow> int \<Rightarrow> dmsBlockData \<Rightarrow> dmsBlockData" where
  "saveState mbID rid recordSize s =
     (let r0 = bd_record s rid;
          r1 = del_setDeleted r0;
          r2 = (if recordSize > 0 then rec_setSize (nat recordSize) r1 else r1);
          sz = (if recordSize > 0 then nat recordSize else rec_getSize r1);
          r3 = r2\<lparr>rec_myOffset := rid_offset rid\<rparr>;
          ext = rid_extent rid;
          e = bd_extent s ext;
          e1 = e\<lparr>ext_freeSpace := s32 (ext_freeSpace e + int sz)\<rparr>;
          mb = bd_mb s mbID;
          st = bd_mbStat s (mb_blockID mb);
          st1 = st\<lparr>st_totalDataFreeSpace := st_totalDataFreeSpace st + sz\<rparr>;
          slot = deleteSlot sz;
          r4 = del_setNextRID (mb_deleteList mb ! slot) r3;
          mb1 = mb\<lparr>mb_deleteList := (mb_deleteList mb)[slot := rid]\<rparr>
      in s\<lparr>bd_record := (bd_record s)(rid := r4), bd_extent := (bd_extent s)(ext := e1),
           bd_mbStat := (bd_mbStat s)(mb_blockID mb := st1), bd_mb := (bd_mb s)(mbID := mb1)\<rparr>)"

definition saveDeletedRecordAt :: "nat \<Rightarrow> dmsRecordID \<Rightarrow> int \<Rightarrow> rc dms" where
  "saveDeletedRecordAt mbID rid recordSize = (\<lambda>s. Ret SDB_OK (saveState mbID rid recordSize s))"

definition saveDeletedRecord :: "nat \<Rightarrow> dmsRecordID \<Rightarrow> int \<Rightarrow> rc dms" where
  "saveDeletedRecord mbID rid recordSize =
     (if rid_isNull rid then retM SDB_INVALIDARG
      else bindM (getM (\<lambda>s. int (mb_blockID (bd_mb s mbID)))) (\<lambda>blk.
           tryM
             (bindM (extWritePtr blk (rid_extent rid) False) (\<lambda>_. withRW blk (rid_extent rid)
             (bindM (recWritePtr blk rid DMS_RECORD_METADATA_SZ False) (\<lambda>_. withRW blk (rid_extent rid)
               (saveDeletedRecordAt mbID rid recordSize)))))
             (\<lambda>e. retM (if e \<noteq> 0 then e else SDB_SYS))))"

section \<open>Cutting an extent into deleted records\<close>

text \<open>One piece: the handle of the record is written, the piece is saved, the handle is gone.\<close>

definition savePiece :: "nat \<Rightarrow> dmsRecordID \<Rightarrow> int \<Rightarrow> unit dms" where
  "savePiece mbID rid sz =
     bindM (getM (\<lambda>s. int (mb_blockID (bd_mb s mbID)))) (\<lambda>blk.
     bindM (recWritePtr blk rid DMS_RECORD_METADATA_SZ False) (\<lambda>_. withRW blk (rid_extent rid)
       (bindM (saveDeletedRecordAt mbID rid sz) (\<lambda>_. retM ()))))"

text \<open>The loop that cuts off pieces of \<open>deleteRecordSize\<close>, which is at least \<open>DMS_MIN_RECORD_SZ\<close>.  The
  result is the rest of the space and its offset.\<close>

function mapPieces :: "nat \<Rightarrow> dmsExtentID \<Rightarrow> int \<Rightarrow> int \<Rightarrow> dmsOffset \<Rightarrow> (int \<times> dmsOffset) dms" where
  "mapPieces mbID ext deleteRecordSize cur off =
     (if 0 < deleteRecordSize \<and> cur - deleteRecordSize \<ge> int DMS_MIN_RECORD_SZ
      then bindM (savePiece mbID (RID ext off) deleteRecordSize)
             (\<lambda>_. mapPieces mbID ext deleteRecordSize (cur - deleteRecordSize) (off + deleteRecordSize))
      else retM (cur, off))"
  by pat_completeness auto
termination
  by (relation "measure (\<lambda>(mbID, ext, d, cur, off). nat cur)") auto

declare mapPieces.simps [simp del]

definition mapExtent2DelList :: "nat \<Rightarrow> dmsExtentID \<Rightarrow> unit dms" where
  "mapExtent2DelList mbID extentID = (\<lambda>s.
     let e = bd_extent s extentID;
         extentSize = s32 (int (ext_blockSize e) * 2 ^ bd_pageSizeSquare s);
         extentUseableSpace = ext_freeSpace e;
         deleteRecordSize = min extentUseableSpace (int DMS_RECORD_MAX_SZ);
         recordOffset = extentSize - extentUseableSpace
     in if u32 (ext_freeSpace e) < DMS_MIN_RECORD_SZ then Ret () s
        else bindM (updExtent extentID (\<lambda>e. e\<lparr>ext_freeSpace := 0\<rparr>)) (\<lambda>_.
             bindM (mapPieces mbID extentID deleteRecordSize extentUseableSpace recordOffset) (\<lambda>(cur, off).
             bindM (if cur > deleteRecordSize
                    then bindM (savePiece mbID (RID extentID off) (int DMS_PAGE_SIZE4K))
                           (\<lambda>_. retM (cur - int DMS_PAGE_SIZE4K, off + int DMS_PAGE_SIZE4K))
                    else retM (cur, off)) (\<lambda>(cur1, off1).
             if cur1 > 0 then savePiece mbID (RID extentID off1) cur1 else retM ()))) s)"

section \<open>Size classes and sizes\<close>

lemma bitLen_less: "n < 2 ^ bitLen n"
proof (induction n rule: bitLen.induct)
  case (1 n)
  show ?case
  proof (cases "n = 0")
    case False
    have "n < 2 * 2 ^ bitLen (n div 2)" using 1 [OF False] by linarith
    then show ?thesis using False by (simp add: bitLen.simps [of n])
  qed (simp add: bitLen.simps)
qed

lemma bitLen_le_iff: "bitLen n \<le> k \<longleftrightarrow> n < 2 ^ k"
proof (induction n arbitrary: k rule: bitLen.induct)
  case (1 n)
  show ?case
  proof (cases "n = 0")
    case False
    then have "bitLen n = Suc (bitLen (n div 2))" by (simp add: bitLen.simps [of n])
    then show ?thesis using 1 [OF False] False
      by (cases k) (auto simp: div_less_iff_less_mult mult.commute)
  qed (simp add: bitLen.simps)
qed

lemma bitLen_ge: "n \<noteq> 0 \<Longrightarrow> 2 ^ (bitLen n - 1) \<le> n"
  using bitLen_le_iff [of n "bitLen n - 1"] by (cases "bitLen n") (auto simp: bitLen.simps [of n])

lemma slotLoop_bitLen: "slotLoop slot n = slot + bitLen n"
  by (induction slot n rule: slotLoop.induct) (simp add: slotLoop.simps [of _ n for n] bitLen.simps [of n for n])

lemma deleteSlot_less: "sz \<le> DMS_RECORD_MAX_SZ \<Longrightarrow> deleteSlot sz < MB_MAX"
proof -
  assume "sz \<le> DMS_RECORD_MAX_SZ"
  then have "(sz - 1) div 32 < 2 ^ 19" by (simp add: div_less_iff_less_mult)
  then have "bitLen ((sz - 1) div 32) \<le> 19" by (simp only: bitLen_le_iff)
  then show ?thesis by (simp add: deleteSlot_def slotLoop_bitLen)
qed

lemma deleteSlot_mono: "a \<le> b \<Longrightarrow> deleteSlot a \<le> deleteSlot b"
proof -
  assume "a \<le> b"
  then have "(a - 1) div 32 \<le> (b - 1) div 32" by (intro div_le_mono) simp
  also have "\<dots> < 2 ^ bitLen ((b - 1) div 32)" by (rule bitLen_less)
  finally show ?thesis by (simp add: deleteSlot_def slotLoop_bitLen bitLen_le_iff)
qed

text \<open>Every size of a class is larger than every size of a class below it.\<close>

lemma deleteSlot_class: "sz \<le> 32 * 2 ^ k \<Longrightarrow> deleteSlot sz \<le> k"
proof -
  assume "sz \<le> 32 * 2 ^ k"
  moreover have "(0::nat) < 32 * 2 ^ k" by simp
  ultimately have "sz - 1 < 2 ^ k * 32" by linarith
  then have "(sz - 1) div 32 < 2 ^ k" by (simp only: div_less_iff_less_mult zero_less_numeral)
  then show ?thesis by (simp add: deleteSlot_def slotLoop_bitLen bitLen_le_iff)
qed

lemma mulRatio_ge:
  assumes "n \<noteq> 0"
  shows "n \<le> mulRatio n"
proof -
  define p sh where "p = n * 10066330" and "sh = bitLen p - 24"
  have p: "p \<noteq> 0" using assms by (simp add: p_def)
  have "p div 2 ^ sh * 2 ^ sh \<le> roundEven p sh * 2 ^ sh"
    by (intro mult_right_mono) (auto simp: roundEven_def Let_def)
  moreover have "p < p div 2 ^ sh * 2 ^ sh + 2 ^ sh"
    by (metis dividend_less_div_times zero_less_numeral zero_less_power add.commute)
  moreover have "2 ^ sh * 4194304 \<le> p"
  proof (cases "bitLen p \<le> 24")
    case True
    have "(2::nat) ^ 22 \<le> p" using assms by (simp add: p_def)
    then show ?thesis using True by (simp add: sh_def)
  next
    case False
    then have "(2::nat) ^ (sh + 22) \<le> 2 ^ (bitLen p - 1)"
      by (intro power_increasing) (auto simp: sh_def)
    then have "(2::nat) ^ sh * 4194304 \<le> 2 ^ (bitLen p - 1)" by (simp add: power_add)
    then show ?thesis using bitLen_ge [OF p] by linarith
  qed
  moreover have "p = 10066330 * n" by (simp add: p_def)
  ultimately have "n * 8388608 \<le> roundEven p sh * 2 ^ sh" by linarith
  then have "n * 2 ^ 23 \<le> roundEven p sh * 2 ^ sh" by simp
  then have "n * 2 ^ 23 div 2 ^ 23 \<le> roundEven p sh * 2 ^ sh div 2 ^ 23" by (rule div_le_mono)
  then show ?thesis by (simp add: mulRatio_def p_def sh_def Let_def)
qed

lemma mulRatio_le: "mulRatio n \<le> 3 * n"
proof (cases "n = 0")
  case True
  then show ?thesis by (simp add: mulRatio_def roundEven_def)
next
  case False
  define p sh where "p = n * 10066330" and "sh = bitLen p - 24"
  have p: "p \<noteq> 0" using False by (simp add: p_def)
  have "(2::nat) ^ sh \<le> 2 ^ (bitLen p - 1)" by (intro power_increasing) (auto simp: sh_def)
  then have sh: "2 ^ sh \<le> p" using bitLen_ge [OF p] by linarith
  have "roundEven p sh * 2 ^ sh \<le> (p div 2 ^ sh + 1) * 2 ^ sh"
    by (intro mult_right_mono) (auto simp: roundEven_def Let_def)
  also have "\<dots> \<le> p + 2 ^ sh" by (simp add: add.commute times_div_less_eq_dividend)
  also have "\<dots> \<le> 2 * p" using sh by simp
  also have "\<dots> \<le> 3 * n * 2 ^ 23" by (simp add: p_def)
  finally have "roundEven p sh * 2 ^ sh div 2 ^ 23 \<le> 3 * n * 2 ^ 23 div 2 ^ 23" by (rule div_le_mono)
  then show ?thesis by (simp add: mulRatio_def p_def sh_def Let_def)
qed

lemma ossAlignX_4:
  assumes "n < 4294967292"
  shows "unat (ossAlignX (word_of_nat n) 4) = (n + 3) div 4 * 4"
proof -
  have w: "(word_of_nat n + 3 :: 32 word) = word_of_nat (n + 3)" by simp
  have m: "(x :: 32 word) AND NOT (mask 2) = push_bit 2 (drop_bit 2 x)" for x
  proof (rule bit_word_eqI)
    fix k assume "k < LENGTH(32)"
    moreover have "2 \<le> k \<Longrightarrow> Suc (Suc (k - 2)) = k" by simp
    ultimately show "bit (x AND NOT (mask 2)) k = bit (push_bit 2 (drop_bit 2 x)) k"
      by (auto simp: bit_simps not_less)
  qed
  have three: "(4 - 1 :: 32 word) = mask 2" by (simp add: mask_eq_exp_minus_1)
  have "ossAlignX (word_of_nat n) 4 = push_bit 2 (drop_bit 2 (word_of_nat (n + 3)))"
    unfolding ossAlignX_def three m using w by (simp add: mask_eq_exp_minus_1)
  moreover have "unat (word_of_nat (n + 3) :: 32 word) = n + 3" using assms by (intro unat_word32) simp
  moreover have "unat (push_bit 2 (drop_bit 2 w)) = take_bit 32 (unat w div 4 * 4)" for w :: "32 word"
  proof -
    have "take_bit 32 (unat w) = unat w"
      by (intro take_bit_nat_eq_self) (use unsigned_less [of w] in simp)
    then have "unat (push_bit 2 (drop_bit 2 w)) = take_bit 32 (push_bit 2 (drop_bit 2 (unat w)))"
      unfolding unsigned_push_bit_eq unsigned_drop_bit_eq by simp
    then show ?thesis by (simp only: drop_bit_eq_div push_bit_eq_mult) simp
  qed
  moreover have "take_bit 32 ((n + 3) div 4 * 4) = (n + 3) div 4 * 4"
    using assms by (intro take_bit_nat_eq_self) simp
  ultimately show ?thesis by (simp only:)
qed

lemma finalRecordSize_bounds:
  assumes "0 < len" and "len + DMS_RECORD_METADATA_SZ \<le> DMS_RECORD_USER_MAX_SZ"
  shows "len + DMS_RECORD_METADATA_SZ \<le> finalRecordSize len"
    and "finalRecordSize len \<le> DMS_RECORD_MAX_SZ" and "finalRecordSize len mod 4 = 0"
proof -
  have ge: "len \<le> mulRatio len" using assms(1) by (intro mulRatio_ge) simp
  have le: "mulRatio len \<le> 3 * len" by (rule mulRatio_le)
  have u: "u32 (int (mulRatio len) + 16) = mulRatio len + 16"
    using le assms(2) u32_of_nat [of "mulRatio len + 16"] by simp
  have a: "unat (ossAlignX (word_of_nat (mulRatio len + 16)) 4) = (mulRatio len + 16 + 3) div 4 * 4"
    using le assms(2) by (intro ossAlignX_4) simp
  have f: "finalRecordSize len = min DMS_RECORD_MAX_SZ ((mulRatio len + 16 + 3) div 4 * 4)"
    unfolding finalRecordSize_def Let_def u [simplified] a [symmetric] using u by simp
  show "finalRecordSize len \<le> DMS_RECORD_MAX_SZ" using f by simp
  show "finalRecordSize len mod 4 = 0" using f by (simp add: min_def)
  have "mulRatio len + 16 \<le> (mulRatio len + 16 + 3) div 4 * 4" by presburger
  then show "len + DMS_RECORD_METADATA_SZ \<le> finalRecordSize len" using f ge assms(2) by simp
qed

section \<open>Effect of saving\<close>

lemma mbCore_deleteList: "mbCore (mb\<lparr>mb_deleteList := x\<rparr>) = (mbCore mb)\<lparr>mb_deleteList := x\<rparr>"
  by (simp add: mbCore_def)

lemma core_saveState:
  assumes "core s = core t"
  shows "core (saveState mbID rid sz s) = core (saveState mbID rid sz t)"
proof -
  obtain m d where t: "t = s\<lparr>bd_mb := m, bd_dirtyList := d\<rparr>" and m: "\<forall>i. mbCore (m i) = mbCore (bd_mb s i)"
    using core_form [OF assms] by blast
  have same: "mb_blockID (m i) = mb_blockID (bd_mb s i)" "mb_deleteList (m i) = mb_deleteList (bd_mb s i)" for i
    using mbCore_eqD [of "m i" "bd_mb s i"] m by simp_all
  show ?thesis unfolding t saveState_def Let_def core_def
    by (simp add: same m mbCore_deleteList fun_upd_def cong: if_cong)
      (simp add: if_distrib [of mbCore] mbCore_deleteList m cong: if_cong)
qed

lemma yields_save:
  assumes "core s = core t"
  shows "yields (saveDeletedRecordAt mbID rid sz s) SDB_OK (saveState mbID rid sz t)"
  using core_saveState [OF assms] by (simp add: yields_def saveDeletedRecordAt_def)

end
