(* ===== verification/Dms_Space.thy ===== *)
theory Dms_Space
  imports Dms_FreeList
begin

text \<open>
  How a collection gets space (\<open>dmsBlockData.cpp\<close>): growing the file by segments
  (\<open>_extendSegments\<close>), finding pages (\<open>_findFreeSpace\<close>), linking a new extent into the extent chain of the
  collection (\<open>addExtent2Meta\<close>), allocating an extent (\<open>_allocateExtent\<close>) and finding a
  deleted record for a new record (\<open>_allocRecordSpace\<close>).  The two loops that jump back
  (\<open>while (TRUE)\<close> of \<open>_findFreeSpace\<close>, \<open>goto retry\<close> of \<open>_allocRecordSpace\<close>) take fuel.
\<close>

section \<open>Growing the file\<close>

definition truncateFile :: "osEnv \<Rightarrow> nat \<Rightarrow> rc dms" where
  "truncateFile env n = (\<lambda>s.
     if os_truncate env n = SDB_OK then Ret SDB_OK (s\<lparr>bd_fileSize := n\<rparr>) else Ret (os_truncate env n) s)"

text \<open>
  The block from the label \<open>retry\<close>: extend the file; on failure cut it back (or panic), and when a
  sparse extension is not supported try once more without it.
\<close>

definition extendFileOnce :: "osEnv \<Rightarrow> nat \<Rightarrow> nat \<Rightarrow> rc dms" where
  "extendFileOnce env fileSize numSeg = (\<lambda>s.
     let sparse = si_enableSparse (bd_info s);
         len = (if sparse then DMS_SEGMENT_SZ * numSeg else u32 (int (DMS_SEGMENT_SZ * numSeg)));
         rc = os_extend env sparse
     in if rc = SDB_OK then Ret SDB_OK (s\<lparr>bd_fileSize := bd_fileSize s + len\<rparr>)
        else if os_truncate env fileSize \<noteq> SDB_OK then Panic
        else Ret rc (s\<lparr>bd_fileSize := fileSize\<rparr>))"

definition extendFile :: "osEnv \<Rightarrow> nat \<Rightarrow> nat \<Rightarrow> rc dms" where
  "extendFile env fileSize numSeg =
     bindM (extendFileOnce env fileSize numSeg) (\<lambda>rc s.
       if rc = SDB_INVALIDARG \<and> si_enableSparse (bd_info s)
       then extendFileOnce env fileSize numSeg (s\<lparr>bd_info := (bd_info s)\<lparr>si_enableSparse := False\<rparr>\<rparr>)
       else Ret rc s)"

text \<open>The loop that maps the new segments and gives them to the page allocator.\<close>

fun mapSegments :: "osEnv \<Rightarrow> nat \<Rightarrow> nat \<Rightarrow> nat \<Rightarrow> rc dms" where
  "mapSegments env 0 beginExtentID fileSize = retM SDB_OK"
| "mapSegments env (Suc n) beginExtentID fileSize = (\<lambda>s.
     case mmap_map (os_getFileSize env, bd_fileSize s) (os_newOk env) (os_mmap env) fileSize DMS_SEGMENT_SZ (bd_mmap s) of
       (rc, _, mm) \<Rightarrow>
         let s1 = s\<lparr>bd_mmap := mm\<rparr>
         in if rc \<noteq> SDB_OK then Ret rc s1
            else let segPages = bd_segmentPages s1;
                     s2 = s1\<lparr>bd_maxSegID := bd_maxSegID s1 + 1,
                             bd_dirtyList := dirtyList_setSize (mmap_segmentSize mm - bd_dataSegID s1) (bd_dirtyList s1),
                             bd_header := (bd_header s1)\<lparr>hd_storageUnitSize := hd_storageUnitSize (bd_header s1) + segPages\<rparr>\<rparr>
                 in case smeMgr_depositASegment (os_newOk env) (bd_segmentPagesSquare s2) (int beginExtentID) (bd_smeMgr s2) of
                      (rc1, mgr) \<Rightarrow>
                        if rc1 \<noteq> SDB_OK then Panic
                        else let h = (bd_header s2)\<lparr>hd_pageNum := hd_pageNum (bd_header s2) + segPages\<rparr>
                             in mapSegments env n (beginExtentID + segPages) (fileSize + DMS_SEGMENT_SZ)
                                  (s2\<lparr>bd_smeMgr := mgr, bd_header := h, bd_pageNum := hd_pageNum h\<rparr>))"

definition extendSegments :: "osEnv \<Rightarrow> nat \<Rightarrow> rc dms" where
  "extendSegments env numSeg = (\<lambda>s.
     let beginExtentID = hd_pageNum (bd_header s);
         endExtentID = u32 (int beginExtentID + int (bd_segmentPages s * numSeg))
     in if endExtentID > DMS_MAX_PG then Ret SDB_DMS_NOSPC s
        else if list_ex (\<lambda>i. getBitMask (sh_pSME (mgr_shared (bd_smeMgr s))) i \<noteq> DMS_SME_FREE)
                  [beginExtentID..<endExtentID]
        then Ret SDB_DMS_CORRUPTED_SME s
        else if os_getFileSize env \<noteq> SDB_OK then Ret (os_getFileSize env) s
        else let rightSize = hd_storageUnitSize (bd_header s) * bd_pageSize s;
                 tooLong = bd_fileSize s > rightSize;
                 fileSize = (if tooLong then rightSize else bd_fileSize s)
             in bindM (if tooLong then truncateFile env fileSize else retM SDB_OK) (\<lambda>rc.
                if rc \<noteq> SDB_OK then retM rc
                else bindM (extendFile env fileSize numSeg) (\<lambda>rc1.
                     if rc1 \<noteq> SDB_OK then retM rc1
                     else mapSegments env numSeg beginExtentID fileSize)) s)"

section \<open>Finding pages\<close>

text \<open>\<open>hasCtx\<close>: the caller passes its context, which gives up its latch while the file grows.\<close>

fun findFreeSpace :: "osEnv \<Rightarrow> nat \<Rightarrow> nat \<Rightarrow> bool \<Rightarrow> (rc \<times> dmsExtentID) dms" where
  "findFreeSpace env 0 numPages hasCtx = (\<lambda>s. Diverge)"
| "findFreeSpace env (Suc fuel) numPages hasCtx = (\<lambda>s.
     case smeMgr_reservePages numPages (bd_smeMgr s) of
       (rc, foundPage, segmentSize, mgr) \<Rightarrow>
         let s1 = s\<lparr>bd_smeMgr := mgr\<rparr>
         in if rc \<noteq> SDB_OK then Ret (rc, foundPage) s1
            else if DMS_INVALID_EXTENT \<noteq> foundPage then Ret (SDB_OK, foundPage) s1
            else if segmentSize \<noteq> smeMgr_segmentNum mgr then findFreeSpace env fuel numPages hasCtx s1
            else bindM (if hasCtx then ctxPause else retM SDB_OK) (\<lambda>rc1.
                 if rc1 \<noteq> SDB_OK then retM (rc1, foundPage)
                 else bindM (extendSegments env 1) (\<lambda>rc2.
                      bindM (if hasCtx then ctxResume else retM SDB_OK) (\<lambda>rc3.
                      if rc2 \<noteq> SDB_OK then retM (rc2, foundPage)
                      else if rc3 \<noteq> SDB_OK then retM (rc3, foundPage)
                      else findFreeSpace env fuel numPages hasCtx))) s1)"

section \<open>The extent chain of a collection\<close>

text \<open>\<open>_getFactor\<close>: the shift of the segment number in a logical extent id.\<close>

definition getFactor :: "dmsBlockData \<Rightarrow> nat" where
  "getFactor s = 16 + 14 - bd_pageSizeSquare s"

text \<open>The last extent of the nearest earlier segment that has one.\<close>

fun findPrevSeg :: "dmsMetaExtent \<Rightarrow> nat \<Rightarrow> dmsExtentID option" where
  "findPrevSeg m 0 = None"
| "findPrevSeg m (Suc k) =
     (case mbEx_getLastExtentID k m of
        (_, Some x) \<Rightarrow> if DMS_INVALID_EXTENT \<noteq> x then Some x else findPrevSeg m k
      | _ \<Rightarrow> findPrevSeg m k)"

text \<open>
  The first half of \<open>addExtent2Meta\<close>: enter the extent into the segment table and set its logical
  id and its predecessor; the result is the predecessor.
\<close>

definition enterSegment :: "nat \<Rightarrow> nat \<Rightarrow> dmsExtentID \<Rightarrow> dmsExtentID option dms" where
  "enterSegment mbID segID extID = (\<lambda>s.
     let mbExt = mb_mbExExtentID (bd_mb s mbID); m = bd_metaExt s mbExt
     in case mbEx_getLastExtentID segID m of
          (_, lastOpt) \<Rightarrow>
            let lastExtID = (case lastOpt of Some x \<Rightarrow> x | None \<Rightarrow> DMS_INVALID_EXTENT)
            in if DMS_INVALID_EXTENT = lastExtID
               then (let prev = (if DMS_INVALID_EXTENT \<noteq> mb_firstExtentID (bd_mb s mbID)
                                 then findPrevSeg m segID else None)
                     in bindM (updExtent extID (\<lambda>e. e\<lparr>ext_logicID := s32 (int segID * 2 ^ getFactor s)\<rparr>)) (\<lambda>_.
                        bindM (updMetaExt mbExt (\<lambda>m. (snd (mbEx_setLastExtentID segID extID (snd (mbEx_setFirstExtentID segID extID m))))
                                 \<lparr>mex_usedSegNum := mex_usedSegNum m + 1\<rparr>)) (\<lambda>_.
                        case prev of
                          None \<Rightarrow> retM None
                        | Some x \<Rightarrow>
                            bindM (updExtent extID (\<lambda>e. e\<lparr>ext_prevExtent := x\<rparr>)) (\<lambda>_.
                            bindM (extWritePtr (int mbID) x False) (\<lambda>_. retM (Some x))))) s)
               else bindM (updMetaExt mbExt (\<lambda>m. snd (mbEx_setLastExtentID segID extID m))) (\<lambda>_.
                    bindM (updExtent extID (\<lambda>e. e\<lparr>ext_prevExtent := lastExtID\<rparr>)) (\<lambda>_.
                    bindM (extWritePtr (int mbID) lastExtID False) (\<lambda>_.
                    bindM (getM (\<lambda>s. ext_logicID (bd_extent s lastExtID))) (\<lambda>lid.
                    bindM (updExtent extID (\<lambda>e. e\<lparr>ext_logicID := s32 (lid + 1)\<rparr>)) (\<lambda>_.
                    retM (Some lastExtID)))))) s)"

text \<open>The second half: link the extent behind its predecessor, or at the front.\<close>

definition linkNext :: "nat \<Rightarrow> dmsExtentID \<Rightarrow> dmsExtentID \<Rightarrow> unit dms" where
  "linkNext mbID extID nxt =
     bindM (updExtent extID (\<lambda>e. e\<lparr>ext_nextExtent := nxt\<rparr>)) (\<lambda>_.
     bindM (extWritePtr (int mbID) nxt False) (\<lambda>_. withRW (int mbID) nxt
       (updExtent nxt (\<lambda>e. e\<lparr>ext_prevExtent := extID\<rparr>))))"

definition linkExtent :: "nat \<Rightarrow> dmsExtentID \<Rightarrow> dmsExtentID option \<Rightarrow> rc dms" where
  "linkExtent mbID extID prevExt =
     (case prevExt of
        Some prv \<Rightarrow> withRW (int mbID) prv
          (bindM (getM (\<lambda>s. ext_nextExtent (bd_extent s prv))) (\<lambda>nxt.
           bindM (if DMS_INVALID_EXTENT \<noteq> nxt then linkNext mbID extID nxt
                  else updMB mbID (\<lambda>mb. mb\<lparr>mb_lastExtentID := extID\<rparr>)) (\<lambda>_.
           bindM (updExtent prv (\<lambda>e. e\<lparr>ext_nextExtent := extID\<rparr>)) (\<lambda>_. retM SDB_OK))))
      | None \<Rightarrow>
          bindM (getM (\<lambda>s. mb_firstExtentID (bd_mb s mbID))) (\<lambda>fst.
          bindM (if DMS_INVALID_EXTENT \<noteq> fst then linkNext mbID extID fst else retM ()) (\<lambda>_.
          bindM (updMB mbID (\<lambda>mb. mb\<lparr>mb_firstExtentID := extID,
                   mb_lastExtentID := (if DMS_INVALID_EXTENT = mb_lastExtentID mb then extID else mb_lastExtentID mb)\<rparr>)) (\<lambda>_.
          retM SDB_OK))))"

definition addExtent2Meta :: "dmsExtentID \<Rightarrow> rc dms" where
  "addExtent2Meta extID = (\<lambda>s.
     let mbID = ctx_mbID (bd_ctx s);
         segID = u32 (int (extent2Segment s extID) - int (bd_dataSegID s));
         mbExt = mb_mbExExtentID (bd_mb s mbID)
     in if \<not> isMBLockType EXCLUSIVE (bd_ctx s) then Ret SDB_SYS s
        else bindM (extWritePtr (int mbID) mbExt True) (\<lambda>ok.
             if \<not> ok then retM SDB_SYS
             else withRW (int mbID) mbExt (\<lambda>s1.
               if segID \<ge> mex_segNum (bd_metaExt s1 mbExt) then Ret SDB_SYS s1
               else bindM (extWritePtr (int mbID) mbExt True) (\<lambda>_.
                    bindM (enterSegment mbID segID extID) (linkExtent mbID extID)) s1)) s)"

section \<open>Allocating an extent\<close>

definition appendLoadList :: "nat \<Rightarrow> dmsExtentID \<Rightarrow> rc dms" where
  "appendLoadList mbID extID = (\<lambda>s.
     let mb = bd_mb s mbID; prv = mb_loadLastExtentID mb
     in bindM (updExtent extID (\<lambda>e. e\<lparr>ext_prevExtent := prv, ext_nextExtent := DMS_INVALID_EXTENT\<rparr>)) (\<lambda>_.
        bindM (if DMS_INVALID_EXTENT = mb_loadFirstExtentID mb
               then updMB mbID (\<lambda>mb. mb\<lparr>mb_loadFirstExtentID := extID\<rparr>) else retM ()) (\<lambda>_.
        bindM (if DMS_INVALID_EXTENT \<noteq> prv
               then bindM (extWritePtr (int mbID) prv False) (\<lambda>_. withRW (int mbID) prv
                      (updExtent prv (\<lambda>e. e\<lparr>ext_nextExtent := extID\<rparr>)))
               else retM ()) (\<lambda>_.
        bindM (updMB mbID (\<lambda>mb. mb\<lparr>mb_loadLastExtentID := extID\<rparr>)) (\<lambda>_. retM SDB_OK)))) s)"

definition initExtent :: "nat \<Rightarrow> nat \<Rightarrow> dmsExtentID \<Rightarrow> bool \<Rightarrow> bool \<Rightarrow> (rc \<times> dmsExtentID option) dms" where
  "initExtent mbID numPages ext deepInit add2LoadList =
     bindM (extWritePtr (int mbID) ext True) (\<lambda>ok.
     if \<not> ok then retM (SDB_SYS, None)
     else withRW (int mbID) ext
       (bindM (getM (\<lambda>s. u32 (int (numPages * 2 ^ bd_pageSizeSquare s)))) (\<lambda>totalSize.
        bindM (updExtent ext (\<lambda>_. ext_init numPages mbID totalSize)) (\<lambda>_.
        bindM (if add2LoadList then appendLoadList mbID ext else addExtent2Meta ext) (\<lambda>rc.
        if rc \<noteq> SDB_OK then retM (rc, None)
        else bindM (if deepInit then mapExtent2DelList mbID ext else retM ()) (\<lambda>_.
             retM (SDB_OK, Some ext)))))))"

definition allocateExtent :: "osEnv \<Rightarrow> nat \<Rightarrow> nat \<Rightarrow> bool \<Rightarrow> bool \<Rightarrow> (rc \<times> dmsExtentID option) dms" where
  "allocateExtent env fuel numPages deepInit add2LoadList = (\<lambda>s.
     if numPages > bd_segmentPages s \<or> numPages < 1 then Ret (SDB_INVALIDARG, None) s
     else bindM (ctxLock EXCLUSIVE) (\<lambda>rc.
          if rc \<noteq> SDB_OK then retM (rc, None)
          else bindM (findFreeSpace env fuel numPages True) (\<lambda>(rc1, ext).
               if rc1 \<noteq> SDB_OK then retM (rc1, None)
               else if DMS_INVALID_EXTENT = ext then retM (SDB_OK, Some DMS_INVALID_EXTENT)
               else bindM (getM (\<lambda>s. ctx_mbID (bd_ctx s))) (\<lambda>mbID.
                    initExtent mbID numPages ext deepInit add2LoadList))) s)"

section \<open>Space for a record\<close>

text \<open>The search in one slot: at most \<open>s_maxSearch\<close> records from the head of the list.\<close>

fun searchSlot :: "nat \<Rightarrow> nat \<Rightarrow> nat \<Rightarrow> nat \<Rightarrow> dmsRecordID option \<Rightarrow> dmsRecordID \<Rightarrow> dmsRecordID option dms" where
  "searchSlot mbID req j 0 pre rid = retM None"
| "searchSlot mbID req j (Suc k) pre rid =
     (if rid_isNull rid then retM None
      else bindM (recReadPtr rid DMS_RECORD_METADATA_SZ False) (\<lambda>_ s.
        let r = bd_record s rid; nxt = del_getNextRID r; ext = rid_extent rid
        in if del_isDeleted r \<and> rec_getSize r \<ge> req
           then bindM (case pre of
                         None \<Rightarrow> updMB mbID (\<lambda>mb. mb\<lparr>mb_deleteList := (mb_deleteList mb)[j := nxt]\<rparr>)
                       | Some p \<Rightarrow> bindM (recWritePtr (int mbID) p DMS_RECORD_METADATA_SZ False) (\<lambda>_.
                                     withRW (int mbID) (rid_extent p) (updRecord p (del_setNextRID nxt)))) (\<lambda>_.
                bindM (extWritePtr (int mbID) ext False) (\<lambda>_. withRW (int mbID) ext
                  (bindM (updExtent ext (\<lambda>e. e\<lparr>ext_freeSpace := s32 (ext_freeSpace e - int (rec_getSize r))\<rparr>))
                    (\<lambda>_. retM (Some rid))))) s
           else searchSlot mbID req j k (Some rid) nxt s))"

abbreviation (input) s_maxSearch :: nat where "s_maxSearch \<equiv> 3"

fun searchSlots :: "nat \<Rightarrow> nat \<Rightarrow> nat list \<Rightarrow> dmsRecordID option dms" where
  "searchSlots mbID req [] = retM None"
| "searchSlots mbID req (j # js) =
     bindM (getM (\<lambda>s. mb_deleteList (bd_mb s mbID) ! j)) (\<lambda>rid.
     bindM (searchSlot mbID req j s_maxSearch None rid) (\<lambda>found.
     case found of Some r \<Rightarrow> retM (Some r) | None \<Rightarrow> searchSlots mbID req js))"

text \<open>The number of pages for a new extent.\<close>

definition requestPages :: "dmsBlockData \<Rightarrow> nat \<Rightarrow> nat" where
  "requestPages s requiredSize =
     (let e0 = u32 (int requiredSize * 2 ^ 4);
          e1 = (if e0 > DMS_BEST_UP_EXTENT_SZ
                then (if requiredSize < DMS_BEST_UP_EXTENT_SZ then DMS_BEST_UP_EXTENT_SZ else requiredSize)
                else e0);
          r0 = (e1 + DMS_EXTENT_METADATA_SZ + bd_pageSize s - 1) div 2 ^ bd_pageSizeSquare s;
          r1 = (if r0 > bd_segmentPages s then bd_segmentPages s else r0)
      in if r1 < 1 then 1 else r1)"

fun allocRetry :: "osEnv \<Rightarrow> nat \<Rightarrow> nat \<Rightarrow> (rc \<times> dmsRecordID) dms" where
  "allocRetry env 0 requiredSize = (\<lambda>s. Diverge)"
| "allocRetry env (Suc fuel) requiredSize =
     (let slot = deleteSlot requiredSize
      in if slot \<ge> MB_MAX then retM (SDB_SYS, rid_null)
         else bindM (getM (\<lambda>s. ctx_mbID (bd_ctx s))) (\<lambda>mbID.
              bindM (tryM (bindM (searchSlots mbID requiredSize [slot..<MB_MAX])
                             (\<lambda>found. retM (case found of Some r \<Rightarrow> (SDB_OK, r) | None \<Rightarrow> (SDB_DMS_NOSPC, rid_null))))
                          (\<lambda>e. retM (if e \<noteq> 0 then e else SDB_SYS, rid_null))) (\<lambda>(rc, rid).
              if rc \<noteq> SDB_DMS_NOSPC then retM (rc, rid)
              else bindM (getM (\<lambda>s. requestPages s requiredSize)) (\<lambda>reqPages.
                   bindM (allocateExtent env (Suc fuel) (u16 (int reqPages)) True False) (\<lambda>(rc1, _).
                   if rc1 \<noteq> SDB_OK then retM (rc1, rid_null)
                   else allocRetry env fuel requiredSize)))))"

definition allocRecordSpace :: "osEnv \<Rightarrow> nat \<Rightarrow> nat \<Rightarrow> (rc \<times> dmsRecordID) dms" where
  "allocRecordSpace env fuel requiredSize =
     bindM (ctxLock EXCLUSIVE) (\<lambda>rc.
     if rc \<noteq> SDB_OK then retM (rc, rid_null) else allocRetry env fuel requiredSize)"

definition allocRecordSpaceByPos :: "(rc \<times> dmsRecordID) dms" where
  "allocRecordSpaceByPos = retM (SDB_OPERATION_INCOMPATIBLE, rid_null)"

end
