(* ===== verification/Bson_Obj.thy ===== *)
theory Bson_Obj
  imports Dms_Record
begin

text \<open>
  Reading BSON objects at the byte level, as far as the storage engine does it: the type byte
  of an element, its field name, its size (\<open>BSONElement\<close> in \<open>bsonelement.h\<close> and \<open>bson-inl.h\<close>), the
  iterator (\<open>bsonobjiterator.h\<close>), \<open>BSONObj::getField\<close>, and the two checks of \<open>dmsBlockData.cpp\<close> on field
  names and on the \<open>_id\<close> element.  An element is the byte list that starts at its first
  byte.  Nothing in the code keeps the iteration inside the object, so the loops take fuel, and
  a corrupted object can exhaust it; the exceptions of the BSON library (\<open>massert\<close>) are the result \<open>BThrow\<close>.

  For objects laid out as BSON prescribes, given by a tree of values, the results are: the
  iteration visits the fields in order and stops, \<open>getField\<close> finds the first field of
  that name, and the name check accepts exactly the trees in which no name, at any depth,
  starts with a dollar sign or contains a dot.
\<close>

section \<open>Elements\<close>

type_synonym bytes = "8 word list"

datatype 'a bres = BRet 'a | BThrow | BLoop

datatype BSONType = MinKey | EOO | NumberDouble | String | Object | Array | BinData | Undefined
  | jstOID | Bool | Date | jstNULL | RegEx | DBRef | Code | Symbol | CodeWScope
  | NumberInt | Timestamp | NumberLong | NumberDecimal | MaxKey

text \<open>\<open>type()\<close>; \<open>None\<close> is a byte that is no BSON type.\<close>

definition bsonTypes :: "(8 word \<times> BSONType) list" where
  "bsonTypes = [(255, MinKey), (0, EOO), (1, NumberDouble), (2, String), (3, Object), (4, Array),
     (5, BinData), (6, Undefined), (7, jstOID), (8, Bool), (9, Date), (10, jstNULL), (11, RegEx),
     (12, DBRef), (13, Code), (14, Symbol), (15, CodeWScope), (16, NumberInt), (17, Timestamp),
     (18, NumberLong), (100, NumberDecimal), (127, MaxKey)]"

definition elemType :: "bytes \<Rightarrow> BSONType option" where
  "elemType e = map_of bsonTypes (byteAt e 0)"

definition eoo :: "bytes \<Rightarrow> bool" where
  "eoo e \<longleftrightarrow> byteAt e 0 = 0"

text \<open>\<open>strlen\<close> and the field name.\<close>

definition cstr :: "bytes \<Rightarrow> bytes" where
  "cstr p = takeWhile (\<lambda>b. b \<noteq> 0) p"

definition fieldName :: "bytes \<Rightarrow> bytes" where
  "fieldName e = (if eoo e then [] else cstr (drop 1 e))"

definition fieldNameSize :: "bytes \<Rightarrow> nat" where
  "fieldNameSize e = (if eoo e then 0 else length (fieldName e) + 1)"

definition elemValue :: "bytes \<Rightarrow> bytes" where
  "elemValue e = drop (fieldNameSize e + 1) e"

text \<open>The value part of \<open>size()\<close>, by type.\<close>

fun valueSize :: "BSONType \<Rightarrow> bytes \<Rightarrow> int" where
  "valueSize t v =
     (case t of
        EOO \<Rightarrow> 0 | Undefined \<Rightarrow> 0 | jstNULL \<Rightarrow> 0 | MaxKey \<Rightarrow> 0 | MinKey \<Rightarrow> 0
      | Bool \<Rightarrow> 1
      | NumberInt \<Rightarrow> 4
      | Timestamp \<Rightarrow> 8 | Date \<Rightarrow> 8 | NumberDouble \<Rightarrow> 8 | NumberLong \<Rightarrow> 8
      | NumberDecimal \<Rightarrow> sint (le32 v)
      | jstOID \<Rightarrow> 12
      | Symbol \<Rightarrow> sint (le32 v) + 4 | Code \<Rightarrow> sint (le32 v) + 4 | String \<Rightarrow> sint (le32 v) + 4
      | DBRef \<Rightarrow> sint (le32 v) + 4 + 12
      | CodeWScope \<Rightarrow> sint (le32 v) | Object \<Rightarrow> sint (le32 v) | Array \<Rightarrow> sint (le32 v)
      | BinData \<Rightarrow> sint (le32 v) + 4 + 1
      | RegEx \<Rightarrow> (let len1 = length (cstr v); len2 = length (cstr (drop (len1 + 1) v))
                  in int (len1 + 1 + len2 + 1)))"

declare valueSize.simps [simp del]

definition elemSize :: "bytes \<Rightarrow> int option" where
  "elemSize e =
     (if eoo e then Some 1
      else case elemType e of
             None \<Rightarrow> None
           | Some t \<Rightarrow> Some (valueSize t (elemValue e) + int (fieldNameSize e) + 1))"

definition isABSONObj :: "bytes \<Rightarrow> bool" where
  "isABSONObj e \<longleftrightarrow> elemType e = Some Object \<or> elemType e = Some Array"

section \<open>Objects\<close>

definition objsize :: "bytes \<Rightarrow> int" where
  "objsize o1 = sint (le32 o1)"

abbreviation (input) BSONObjMaxInternalSize :: int where "BSONObjMaxInternalSize \<equiv> 16793600"

definition bson_isValid :: "bytes \<Rightarrow> bool" where
  "bson_isValid o1 \<longleftrightarrow> 0 < objsize o1 \<and> objsize o1 \<le> BSONObjMaxInternalSize"

text \<open>\<open>getField\<close>: \<open>pos\<close> and \<open>theend\<close> are the iterator's pointers, as offsets into the object; the
  empty element stands for no such field.\<close>

definition emptyElement :: bytes where
  "emptyElement = [0]"

fun getFieldLoop :: "nat \<Rightarrow> bytes \<Rightarrow> int \<Rightarrow> int \<Rightarrow> bytes \<Rightarrow> bytes bres" where
  "getFieldLoop 0 o1 pos theend name = BLoop"
| "getFieldLoop (Suc fuel) o1 pos theend name =
     (if pos < theend
      then let e = drop (nat pos) o1
           in case elemSize e of
                None \<Rightarrow> BThrow
              | Some n \<Rightarrow> if fieldName e = name then BRet e else getFieldLoop fuel o1 (pos + n) theend name
      else BRet emptyElement)"

definition getField :: "nat \<Rightarrow> bytes \<Rightarrow> bytes \<Rightarrow> bytes bres" where
  "getField fuel o1 name =
     (if objsize o1 = 0 then BRet emptyElement else getFieldLoop fuel o1 4 (objsize o1 - 1) name)"

section \<open>The checks of the storage engine\<close>

text \<open>\<open>dmsIsKeyNameValid\<close>: \<open>None\<close> is valid, \<open>Some msg\<close> is invalid with that message.\<close>

abbreviation (input) dollar :: "8 word" where "dollar \<equiv> 36"
abbreviation (input) dot :: "8 word" where "dot \<equiv> 46"

definition errDollar :: string where
  "errDollar = ''field name can't start with '' @ [CHR 0x27, CHR ''$'', CHR 0x27]"

definition errDot :: string where
  "errDot = ''field name can't include '' @ [CHR 0x27, CHR ''.'', CHR 0x27]"

fun keyNamesLoop :: "nat \<Rightarrow> bytes \<Rightarrow> int \<Rightarrow> int \<Rightarrow> string option bres" where
  "keyNamesLoop 0 o1 pos theend = BLoop"
| "keyNamesLoop (Suc fuel) o1 pos theend =
     (if pos < theend
      then let e = drop (nat pos) o1
           in case elemSize e of
                None \<Rightarrow> BThrow
              | Some n \<Rightarrow>
                  if byteAt (fieldName e) 0 = dollar then BRet (Some errDollar)
                  else if dot \<in> set (fieldName e) then BRet (Some errDot)
                  else if isABSONObj e
                  then let o2 = elemValue e
                       in if \<not> bson_isValid o2 then BThrow
                          else case keyNamesLoop fuel o2 4 (objsize o2 - 1) of
                                 BRet None \<Rightarrow> keyNamesLoop fuel o1 (pos + n) theend
                               | r \<Rightarrow> r
                  else keyNamesLoop fuel o1 (pos + n) theend
      else BRet None)"

definition dmsIsKeyNameValid :: "nat \<Rightarrow> bytes \<Rightarrow> string option bres" where
  "dmsIsKeyNameValid fuel o1 =
     (if objsize o1 = 0 then BRet None else keyNamesLoop fuel o1 4 (objsize o1 - 1))"

definition dmsIsRecordIDValid :: "nat \<Rightarrow> bytes \<Rightarrow> bool \<Rightarrow> string option bres" where
  "dmsIsRecordIDValid fuel oidEle allowEOO =
     (case elemType oidEle of
        Some EOO \<Rightarrow> BRet (if \<not> allowEOO then Some ''is not exist'' else None)
      | Some Array \<Rightarrow> BRet (Some ''can't be Array'')
      | Some RegEx \<Rightarrow> BRet (Some ''can't be RegEx'')
      | Some Object \<Rightarrow>
          (let o2 = elemValue oidEle
           in if \<not> bson_isValid o2 then BThrow else dmsIsKeyNameValid fuel o2)
      | _ \<Rightarrow> BRet None)"

section \<open>Objects laid out as BSON prescribes\<close>

text \<open>A value is a leaf with its raw bytes, or an embedded object or array.\<close>

datatype bval = Leaf BSONType bytes | Emb bool bfields
  and bfields = BNil | BCons bytes bval bfields

definition typeByte :: "BSONType \<Rightarrow> 8 word" where
  "typeByte t = the (map_of (map (\<lambda>(b, t). (t, b)) bsonTypes) t)"

fun valType :: "bval \<Rightarrow> BSONType" where
  "valType (Leaf t p) = t"
| "valType (Emb a fs) = (if a then Array else Object)"

fun encVal :: "bval \<Rightarrow> bytes" and encFields :: "bfields \<Rightarrow> bytes" where
  "encVal (Leaf t p) = p"
| "encVal (Emb a fs) = bytes32 (word_of_nat (length (encFields fs) + 5)) @ encFields fs @ [0]"
| "encFields BNil = []"
| "encFields (BCons n v fs) = typeByte (valType v) # n @ 0 # encVal v @ encFields fs"

definition encObj :: "bfields \<Rightarrow> bytes" where
  "encObj fs = encVal (Emb False fs)"

text \<open>The raw bytes of a leaf have the length its type asks for.\<close>

definition wfLeaf :: "BSONType \<Rightarrow> bytes \<Rightarrow> bool" where
  "wfLeaf t p \<longleftrightarrow>
     t \<noteq> EOO \<and> t \<noteq> Object \<and> t \<noteq> Array \<and> valueSize t p = int (length p) \<and>
     (t \<in> {NumberDecimal, Symbol, Code, String, DBRef, CodeWScope, BinData} \<longrightarrow> 4 \<le> length p)"

fun wfVal :: "bval \<Rightarrow> bool" and wfFields :: "bfields \<Rightarrow> bool" where
  "wfVal (Leaf t p) = wfLeaf t p"
| "wfVal (Emb a fs) = wfFields fs"
| "wfFields BNil = True"
| "wfFields (BCons n v fs) = (0 \<notin> set n \<and> wfVal v \<and> wfFields fs)"

fun nodes :: "bval \<Rightarrow> nat" and nodesF :: "bfields \<Rightarrow> nat" where
  "nodes (Leaf t p) = 1"
| "nodes (Emb a fs) = Suc (nodesF fs)"
| "nodesF BNil = 1"
| "nodesF (BCons n v fs) = Suc (nodes v + nodesF fs)"

lemma byteAt_Cons [simp]: "byteAt (x # xs) 0 = x" "byteAt (x # xs) (Suc i) = byteAt xs i"
  by (simp_all add: byteAt_def)

lemma typeByte_inverse [simp]: "map_of bsonTypes (typeByte t) = Some t"
  by (cases t) (simp_all add: typeByte_def bsonTypes_def)

lemma typeByte_eq_0 [simp]: "typeByte t = 0 \<longleftrightarrow> t = EOO"
  by (cases t) (simp_all add: typeByte_def bsonTypes_def)

lemma le32_prefix: "4 \<le> length p \<Longrightarrow> le32 (p @ q) = le32 p"
  by (cases p) (auto simp: le32_def byteAt_def nth_append)

lemma cstr_prefix: "length (cstr p) < length p \<Longrightarrow> cstr (p @ q) = cstr p"
  unfolding cstr_def by (induction p) (auto split: if_splits)

lemma cstr_name: "0 \<notin> set n \<Longrightarrow> cstr (n @ 0 # q) = n"
  unfolding cstr_def by (induction n) auto

lemma wfLeaf_size:
  assumes "wfLeaf t p"
  shows "valueSize t (p @ q) = int (length p)"
proof (cases "t = RegEx")
  case True
  define n1 where "n1 = length (cstr p)"
  define n2 where "n2 = length (cstr (drop (n1 + 1) p))"
  have len: "n1 + 1 + n2 + 1 = length p"
    using assms True by (simp add: wfLeaf_def valueSize.simps Let_def n1_def n2_def)
  have c1: "cstr (p @ q) = cstr p" by (rule cstr_prefix) (use len n1_def in simp)
  have "cstr (drop (n1 + 1) p @ q) = cstr (drop (n1 + 1) p)"
    by (rule cstr_prefix) (use len n2_def in simp)
  then have "length (cstr (drop (n1 + 1) (p @ q))) = n2" using len by (simp add: n2_def)
  then show ?thesis using True c1 len by (simp add: valueSize.simps Let_def flip: n1_def)
next
  case False
  show ?thesis using assms False
    by (cases t) (auto simp: wfLeaf_def valueSize.simps le32_prefix)
qed

lemma sint_word_of_nat: "n < 2147483648 \<Longrightarrow> sint (word_of_nat n :: 32 word) = int n"
  by (simp add: signed_of_nat signed_take_bit_int_eq_self)

lemma encVal_size:
  assumes "wfVal v" and "int (length (encVal v)) \<le> BSONObjMaxInternalSize"
  shows "valueSize (valType v) (encVal v @ q) = int (length (encVal v))"
proof (cases v)
  case (Leaf t p)
  then show ?thesis using assms wfLeaf_size by simp
next
  case (Emb a fs)
  define n where "n = length (encFields fs) + 5"
  have n: "n < 2147483648" "length (encVal v) = n" using assms(2) Emb by (simp_all add: n_def)
  have "sint (word_of_nat n :: 32 word) = int n"
    using n(1) by (rule sint_word_of_nat)
  then show ?thesis using Emb n(2) by (simp add: valueSize.simps flip: n_def)
qed

lemma encElem_parts:
  fixes n q :: bytes
  assumes "0 \<notin> set n" and "wfVal v" and "int (length (encVal v)) \<le> BSONObjMaxInternalSize"
  defines "e \<equiv> typeByte (valType v) # n @ 0 # encVal v @ q"
  shows "\<not> eoo e" and "fieldName e = n" and "elemValue e = encVal v @ q" and "elemType e = Some (valType v)"
    and "elemSize e = Some (int (length n + 2 + length (encVal v)))"
proof -
  have "valType v \<noteq> EOO" using assms(2) by (cases v) (auto simp: wfLeaf_def)
  then show ne: "\<not> eoo e" by (simp add: e_def eoo_def)
  then show nm: "fieldName e = n" using cstr_name [OF assms(1)] by (simp add: fieldName_def e_def)
  then show ev: "elemValue e = encVal v @ q" using ne by (simp add: elemValue_def fieldNameSize_def e_def)
  show et: "elemType e = Some (valType v)" by (simp add: elemType_def e_def)
  show "elemSize e = Some (int (length n + 2 + length (encVal v)))"
    using ne nm et ev encVal_size [OF assms(2,3), of q] by (simp add: elemSize_def fieldNameSize_def)
qed

section \<open>Reading what was laid out\<close>

text \<open>The first field of a name: its value, and the bytes behind the value.\<close>

fun findField :: "bfields \<Rightarrow> bytes \<Rightarrow> bytes \<Rightarrow> (bval \<times> bytes) option" where
  "findField BNil name post = None"
| "findField (BCons n v fs) name post =
     (if n = name then Some (v, encFields fs @ post) else findField fs name post)"

definition elemBytes :: "bytes \<Rightarrow> bval \<Rightarrow> bytes" where
  "elemBytes n v = typeByte (valType v) # n @ 0 # encVal v"

lemma getFieldLoop_enc:
  assumes "wfFields fs" and "int (length (encFields fs)) \<le> BSONObjMaxInternalSize" and "nodesF fs \<le> fuel"
  shows "getFieldLoop fuel (pre @ encFields fs @ post) (int (length pre)) (int (length pre + length (encFields fs))) name
    = BRet (case findField fs name post of Some (v, q) \<Rightarrow> elemBytes name v @ q | None \<Rightarrow> emptyElement)"
  using assms
proof (induction fs name post arbitrary: pre fuel rule: findField.induct)
  case (1 name post)
  then show ?case by (cases fuel) simp_all
next
  case Cons: (2 n v fs name post)
  obtain fuel' where f: "fuel = Suc fuel'" "nodesF fs \<le> fuel'" using Cons.prems(3) by (cases fuel) auto
  define q where "q = encFields fs @ post"
  have wf: "0 \<notin> set n" "wfVal v" "wfFields fs" using Cons.prems(1) by simp_all
  have len: "int (length (encVal v)) \<le> BSONObjMaxInternalSize" "int (length (encFields fs)) \<le> BSONObjMaxInternalSize"
    using Cons.prems(2) by simp_all
  note parts = encElem_parts [OF wf(1,2) len(1), of q]
  have here: "drop (nat (int (length pre))) (pre @ encFields (BCons n v fs) @ post) = typeByte (valType v) # n @ 0 # encVal v @ q"
    by (simp add: q_def)
  show ?case
  proof (cases "n = name")
    case True
    then show ?thesis
      using parts here f(1) by (simp add: Let_def elemBytes_def q_def)
  next
    case False
    have "getFieldLoop fuel' ((pre @ elemBytes n v) @ encFields fs @ post) (int (length (pre @ elemBytes n v)))
        (int (length (pre @ elemBytes n v) + length (encFields fs))) name
      = BRet (case findField fs name post of Some (v, q) \<Rightarrow> elemBytes name v @ q | None \<Rightarrow> emptyElement)"
      using Cons.IH [OF False wf(3) len(2) f(2)] by blast
    then show ?thesis
      using False parts here f(1) by (simp add: Let_def elemBytes_def q_def algebra_simps)
  qed
qed

text \<open>The first forbidden name in the order of the check, and all names of an object.\<close>

definition badName :: "bytes \<Rightarrow> string option" where
  "badName n = (if byteAt n 0 = dollar then Some errDollar else if dot \<in> set n then Some errDot else None)"

fun nameErrV :: "bval \<Rightarrow> string option" and nameErr :: "bfields \<Rightarrow> string option" where
  "nameErrV (Leaf t p) = None"
| "nameErrV (Emb a fs) = nameErr fs"
| "nameErr BNil = None"
| "nameErr (BCons n v fs) =
     (case badName n of Some e \<Rightarrow> Some e
      | None \<Rightarrow> (case nameErrV v of Some e \<Rightarrow> Some e | None \<Rightarrow> nameErr fs))"

fun namesV :: "bval \<Rightarrow> bytes set" and namesF :: "bfields \<Rightarrow> bytes set" where
  "namesV (Leaf t p) = {}"
| "namesV (Emb a fs) = namesF fs"
| "namesF BNil = {}"
| "namesF (BCons n v fs) = insert n (namesV v \<union> namesF fs)"

lemma nameErr_iff:
  "nameErrV v = None \<longleftrightarrow> (\<forall>n\<in>namesV v. badName n = None)"
  "nameErr fs = None \<longleftrightarrow> (\<forall>n\<in>namesF fs. badName n = None)"
  by (induction v and fs) (auto split: option.splits)

lemma badName_iff: "badName n = None \<longleftrightarrow> byteAt n 0 \<noteq> dollar \<and> dot \<notin> set n"
  by (simp add: badName_def)

lemma objsize_Emb:
  assumes "int (length (encVal (Emb a fs))) \<le> BSONObjMaxInternalSize"
  shows "objsize (encVal (Emb a fs) @ q) = int (length (encVal (Emb a fs)))"
    and "bson_isValid (encVal (Emb a fs) @ q)"
proof -
  have "length (encFields fs) + 5 < 2147483648" using assms by simp
  from sint_word_of_nat [OF this]
  show "objsize (encVal (Emb a fs) @ q) = int (length (encVal (Emb a fs)))" by (simp add: objsize_def)
  then show "bson_isValid (encVal (Emb a fs) @ q)" using assms by (simp add: bson_isValid_def)
qed

lemma keyNamesLoop_enc:
  "\<lbrakk>wfVal v; int (length (encVal v)) \<le> BSONObjMaxInternalSize; nodes v \<le> fuel; v = Emb a gs\<rbrakk>
    \<Longrightarrow> keyNamesLoop fuel (encVal v @ q) 4 (int (length (encVal v)) - 1) = BRet (nameErrV v)"
  "\<lbrakk>wfFields fs; int (length (encFields fs)) \<le> BSONObjMaxInternalSize; nodesF fs \<le> fuel\<rbrakk>
    \<Longrightarrow> keyNamesLoop fuel (pre @ encFields fs @ post) (int (length pre)) (int (length pre + length (encFields fs)))
      = BRet (nameErr fs)"
proof (induction v and fs arbitrary: fuel q a gs and pre fuel post)
  case (Leaf t p)
  then show ?case by simp
next
  case (Emb b fs)
  define pre where "pre = bytes32 (word_of_nat (length (encFields fs) + 5))"
  have "length pre = 4" by (simp add: pre_def)
  have "keyNamesLoop fuel (pre @ encFields fs @ ([0] @ q)) (int (length pre)) (int (length pre + length (encFields fs)))
    = BRet (nameErr fs)"
    by (rule Emb.IH) (use Emb.prems in simp_all)
  then show ?case by (simp add: pre_def add.commute)
next
  case BNil
  then show ?case by (cases fuel) simp_all
next
  case (BCons n v fs)
  obtain fuel' where f: "fuel = Suc fuel'" "nodes v \<le> fuel'" "nodesF fs \<le> fuel'"
    using BCons.prems(3) by (cases fuel) auto
  define q where "q = encFields fs @ post"
  define e where "e = typeByte (valType v) # n @ 0 # encVal v @ q"
  have wf: "0 \<notin> set n" "wfVal v" "wfFields fs" using BCons.prems(1) by simp_all
  have len: "int (length (encVal v)) \<le> BSONObjMaxInternalSize" "int (length (encFields fs)) \<le> BSONObjMaxInternalSize"
    using BCons.prems(2) by simp_all
  note parts = encElem_parts [OF wf(1,2) len(1), of q, folded e_def]
  have here: "drop (nat (int (length pre))) (pre @ encFields (BCons n v fs) @ post) = e"
    by (simp add: q_def e_def)
  have obj: "isABSONObj e \<longleftrightarrow> (\<exists>a gs. v = Emb a gs)"
    using parts(4) wf(2) by (cases v) (auto simp: isABSONObj_def wfLeaf_def)
  have rest: "keyNamesLoop fuel' (pre @ encFields (BCons n v fs) @ post) (int (length pre) + int (length n + 2 + length (encVal v)))
      (int (length pre + length (encFields (BCons n v fs)))) = BRet (nameErr fs)"
    using BCons.IH(2) [OF wf(3) len(2) f(3), of "pre @ elemBytes n v" post] by (simp add: elemBytes_def algebra_simps)
  show ?case
  proof (cases "\<exists>a gs. v = Emb a gs")
    case True
    then obtain a gs where v: "v = Emb a gs" by blast
    have "keyNamesLoop fuel' (encVal v @ q) 4 (int (length (encVal v)) - 1) = BRet (nameErrV v)"
      by (rule BCons.IH(1) [OF wf(2) len(1) f(2) v])
    then show ?thesis
      using f(1) parts here obj True rest objsize_Emb [OF len(1) [unfolded v], of q, folded v]
      by (simp add: Let_def badName_def split: option.split)
  next
    case False
    then have "nameErrV v = None" by (cases v) auto
    then show ?thesis
      using f(1) parts here obj False rest by (simp add: Let_def badName_def)
  qed
qed

lemma getField_enc:
  assumes "wfFields fs" and "int (length (encObj fs)) \<le> BSONObjMaxInternalSize" and "nodesF fs \<le> fuel"
  shows "getField fuel (encObj fs @ rest) name =
    BRet (case findField fs name (0 # rest) of Some (v, q) \<Rightarrow> elemBytes name v @ q | None \<Rightarrow> emptyElement)"
proof -
  define pre where "pre = bytes32 (word_of_nat (length (encFields fs) + 5))"
  have pre: "length pre = 4" by (simp add: pre_def)
  have sz: "objsize (encObj fs @ rest) = int (length (encFields fs) + 5)"
    using objsize_Emb(1) [of False fs rest] assms(2) by (simp add: encObj_def)
  have "int (length (encFields fs)) \<le> BSONObjMaxInternalSize" using assms(2) by (simp add: encObj_def)
  from getFieldLoop_enc [OF assms(1) this assms(3), of pre "0 # rest" name]
  show ?thesis using sz pre by (simp add: getField_def encObj_def pre_def add.commute)
qed

lemma dmsIsKeyNameValid_enc:
  assumes "wfFields fs" and "int (length (encObj fs)) \<le> BSONObjMaxInternalSize" and "nodesF fs < fuel"
  shows "dmsIsKeyNameValid fuel (encObj fs @ rest) = BRet (nameErr fs)"
proof -
  have sz: "objsize (encObj fs @ rest) = int (length (encObj fs))" "encObj fs \<noteq> []"
    using objsize_Emb(1) [of False fs rest] assms(2) by (simp_all add: encObj_def)
  have "keyNamesLoop fuel (encObj fs @ rest) 4 (int (length (encObj fs)) - 1) = BRet (nameErr fs)"
    using keyNamesLoop_enc(1) [of "Emb False fs" fuel False fs rest] assms by (simp add: encObj_def)
  then show ?thesis using sz by (simp add: dmsIsKeyNameValid_def)
qed

section \<open>Properties\<close>

text \<open>C36: On an object laid out as BSON prescribes, with fuel for its fields, \<open>getField\<close> returns the
  first element of the given name (its type byte, its name, its value), and the empty element when there is none; the object may be
  followed by any bytes.\<close>

theorem getField_finds_first:
  assumes "wfFields fs" and "int (length (encObj fs)) \<le> BSONObjMaxInternalSize" and "nodesF fs \<le> fuel"
  shows "getField fuel (encObj fs @ rest) name =
    BRet (case findField fs name (0 # rest) of Some (v, q) \<Rightarrow> elemBytes name v @ q | None \<Rightarrow> emptyElement)"
  by (rule getField_enc [OF assms])

definition demoFields :: bfields where
  "demoFields = BCons [97] (Leaf NumberInt [1, 0, 0, 0])
     (BCons [95, 105, 100] (Emb False (BCons [98, 46] (Leaf jstNULL []) BNil)) BNil)"

lemma demoFields_ok: "wfFields demoFields" "int (length (encObj demoFields)) \<le> BSONObjMaxInternalSize" "nodesF demoFields \<le> 10"
  by (simp_all add: demoFields_def wfLeaf_def valueSize.simps encObj_def)

theorem getField_finds_first_witness:
  "getField 10 (encObj demoFields) [97] = BRet (elemBytes [97] (Leaf NumberInt [1, 0, 0, 0])
     @ elemBytes [95, 105, 100] (Emb False (BCons [98, 46] (Leaf jstNULL []) BNil)) @ [0])"
  using getField_finds_first [OF demoFields_ok, of "[]" "[97]"] by (simp add: demoFields_def elemBytes_def)

text \<open>C37: On an object laid out as BSON prescribes, \<open>dmsIsKeyNameValid\<close> ends and accepts it exactly when no
  field name, at any depth, starts with a dollar sign or contains a dot.\<close>

theorem key_names_checked_at_every_depth:
  assumes "wfFields fs" and "int (length (encObj fs)) \<le> BSONObjMaxInternalSize" and "nodesF fs < fuel"
  shows "dmsIsKeyNameValid fuel (encObj fs @ rest) = BRet (nameErr fs)
    \<and> (dmsIsKeyNameValid fuel (encObj fs @ rest) = BRet None
      \<longleftrightarrow> (\<forall>n\<in>namesF fs. byteAt n 0 \<noteq> dollar \<and> dot \<notin> set n))"
  using dmsIsKeyNameValid_enc [OF assms, of rest] by (simp add: nameErr_iff(2) badName_iff)

theorem key_names_checked_at_every_depth_witness:
  "dmsIsKeyNameValid 11 (encObj demoFields) = BRet (Some errDot)"
proof -
  have "nodesF demoFields < 11" using demoFields_ok(3) by simp
  from key_names_checked_at_every_depth [OF demoFields_ok(1,2) this, of "[]"]
  show ?thesis by (simp add: demoFields_def badName_def)
qed

end
