(* ===== verification/Dms_Insert.thy ===== *)
theory Dms_Insert
  imports Dms_Space Bson_Obj
begin

text \<open>
  Inserting a record and reading it back (\<open>dmsBlockData.cpp\<close>): \<open>_prepareInsertData\<close> checks the \<open>_id\<close>
  field and adds one when it is missing, \<open>insertRecord\<close> sizes the record, finds space and calls \<open>_extentInsertRecord\<close>,
  which turns the deleted record into a live one, gives the rest of its space back and links
  it behind the last record of its extent; \<open>extractData\<close> is the way a scan reads a record.
  What the session supplies is the record \<open>insEnv\<close>: the bytes of a fresh object id, the answer of \<open>allocBuff\<close>
  and the thread's last error code.
\<close>

section \<open>Preparing the data\<close>

record insEnv =
  in_oid :: bytes
  in_allocBuff :: rc
  in_lastError :: rc

text \<open>The element \<open>_id\<close> (\<open>_IDToInsert\<close>): type byte, name, 12 bytes.\<close>

definition DMS_ID_KEY_NAME :: bytes where
  "DMS_ID_KEY_NAME = [95, 105, 100]"

definition IDToInsert :: "bytes \<Rightarrow> bytes" where
  "IDToInsert oid = 7 # DMS_ID_KEY_NAME @ 0 # oid"

definition caughtRc :: "rc \<Rightarrow> rc" where
  "caughtRc lastErr = (if lastErr \<noteq> 0 then lastErr else SDB_SYS)"

definition mergedData :: "bytes \<Rightarrow> bytes \<Rightarrow> bytes" where
  "mergedData oid rcd =
     bytes32 (word_of_nat (length (IDToInsert oid) + nat (objsize rcd))) @ IDToInsert oid
       @ take (nat (objsize rcd) - 4) (drop 4 rcd)"

text \<open>\<open>None\<close>: an iteration over a corrupted object does not end within the fuel.\<close>

definition prepareInsertData :: "insEnv \<Rightarrow> nat \<Rightarrow> bytes \<Rightarrow> bool \<Rightarrow> (rc \<times> dmsRecordData \<times> bool) option" where
  "prepareInsertData ie fuel rcd mustOID =
     (let rd = rd_setData (Some rcd) (u32 (objsize rcd)) UTIL_COMPRESSOR_INVALID True rd_reset;
          err = caughtRc (in_lastError ie)
      in case getField fuel rcd DMS_ID_KEY_NAME of
           BLoop \<Rightarrow> None
         | BThrow \<Rightarrow> Some (err, rd, False)
         | BRet ele \<Rightarrow>
             (case dmsIsRecordIDValid fuel ele True of
                BLoop \<Rightarrow> None
              | BThrow \<Rightarrow> Some (err, rd, False)
              | BRet (Some msg) \<Rightarrow> Some (SDB_INVALIDARG, rd, False)
              | BRet None \<Rightarrow>
                  (if mustOID \<and> eoo ele
                   then (if in_allocBuff ie \<noteq> SDB_OK then Some (in_allocBuff ie, rd, False)
                         else Some (SDB_OK,
                                rd_setData (Some (mergedData (in_oid ie) rcd))
                                  (u32 (int (length (IDToInsert (in_oid ie))) + objsize rcd)) UTIL_COMPRESSOR_INVALID True rd,
                                True))
                   else Some (SDB_OK, rd, False))))"

section \<open>Putting the record into its extent\<close>

abbreviation (input) DMS_MIN_RECORD_DATA_SZ :: nat where "DMS_MIN_RECORD_DATA_SZ \<equiv> 5"

text \<open>The block \<open>if ( isInsert )\<close>: count the record and link it behind the last one.\<close>

definition appendRecord :: "nat \<Rightarrow> dmsRecordID \<Rightarrow> dmsOffset \<Rightarrow> unit dms" where
  "appendRecord mbID rid myOffset =
     (let ext = rid_extent rid
      in bindM (extWritePtr (int mbID) ext False) (\<lambda>_. withRW (int mbID) ext
           (bindM (getM (\<lambda>s. ext_lastRecordOffset (bd_extent s ext))) (\<lambda>offset.
            bindM (updExtent ext (\<lambda>e. e\<lparr>ext_recCount := ext_recCount e + 1\<rparr>)) (\<lambda>_.
            bindM (updStat mbID (\<lambda>st. st\<lparr>st_totalRecords := st_totalRecords st + 1\<rparr>)) (\<lambda>_.
            bindM (if DMS_INVALID_OFFSET \<noteq> offset
                   then bindM (recWritePtr (int mbID) (RID ext offset) DMS_RECORD_METADATA_SZ False) (\<lambda>_.
                        withRW (int mbID) ext
                          (bindM (updRecord (RID ext offset) (\<lambda>r. r\<lparr>rec_nextOffset := myOffset\<rparr>)) (\<lambda>_.
                           updRecord rid (\<lambda>r. r\<lparr>rec_previousOffset := offset\<rparr>))))
                   else retM ()) (\<lambda>_.
            updExtent ext (\<lambda>e. e\<lparr>ext_lastRecordOffset := myOffset,
              ext_firstRecordOffset := (if DMS_INVALID_OFFSET = ext_firstRecordOffset e then myOffset
                                        else ext_firstRecordOffset e)\<rparr>)))))) ))"

text \<open>Once the checks are passed: the rest of the deleted record goes back to the free lists when
  it is large enough, the data is copied, the record is linked and counted.\<close>

definition fillRecord :: "nat \<Rightarrow> dmsRecordID \<Rightarrow> dmsRecordData \<Rightarrow> nat \<Rightarrow> bool \<Rightarrow> rc dms" where
  "fillRecord mbID rid rd need isInsert =
     bindM (getM (\<lambda>s. rec_myOffset (bd_record s rid))) (\<lambda>myOffset.
     bindM (updRecord rid (\<lambda>r. rec_resetAttr (rec_setNormal r))) (\<lambda>_.
     bindM (getM (\<lambda>s. rec_getSize (bd_record s rid))) (\<lambda>sz.
     bindM (if sz - need > DMS_MIN_RECORD_SZ
            then bindM (saveDeletedRecord mbID (RID (rid_extent rid) (s32 (myOffset + int need))) (int (sz - need))) (\<lambda>rc.
                 if rc \<noteq> SDB_OK then retM rc
                 else bindM (updRecord rid (rec_setSize need)) (\<lambda>_. retM SDB_OK))
            else retM SDB_OK) (\<lambda>rc.
     if rc \<noteq> SDB_OK then retM rc
     else bindM (updRecord rid (\<lambda>r. (rec_setData rd r)\<lparr>rec_nextOffset := DMS_INVALID_OFFSET,
                                     rec_previousOffset := DMS_INVALID_OFFSET\<rparr>)) (\<lambda>_.
          bindM (if isInsert then appendRecord mbID rid myOffset else retM ()) (\<lambda>_.
          bindM (updStat mbID (\<lambda>st. st\<lparr>st_totalOrgDataLen := st_totalOrgDataLen st + rd_orgLen rd,
                                       st_totalDataLen := st_totalDataLen st + rd_len rd\<rparr>)) (\<lambda>_.
          retM SDB_OK)))))))"

definition extentInsertRecord :: "dmsRecordID \<Rightarrow> dmsRecordData \<Rightarrow> nat \<Rightarrow> bool \<Rightarrow> rc dms" where
  "extentInsertRecord rid rd need isInsert =
     bindM (ctxLock EXCLUSIVE) (\<lambda>rc.
     if rc \<noteq> SDB_OK then retM rc
     else bindM (getM (\<lambda>s. ctx_mbID (bd_ctx s))) (\<lambda>mbID.
          bindM (recWritePtr (int mbID) rid need False) (\<lambda>_. withRW (int mbID) (rid_extent rid)
            (bindM (getM (\<lambda>s. rec_getSize (bd_record s rid))) (\<lambda>sz.
             if sz < need then retM SDB_INVALIDARG
             else if \<not> rd_isCompressed rd \<and> rd_len rd < DMS_MIN_RECORD_DATA_SZ then retM SDB_INVALIDARG
             else fillRecord mbID rid rd need isInsert)))))"

section \<open>Inserting a record\<close>

definition insertTry :: "osEnv \<Rightarrow> insEnv \<Rightarrow> nat \<Rightarrow> bytes \<Rightarrow> bool \<Rightarrow> int \<Rightarrow> rc dms" where
  "insertTry env ie fuel rcd mustOID position =
     (case prepareInsertData ie fuel rcd mustOID of
        None \<Rightarrow> (\<lambda>s. Diverge)
      | Some (rc, rd, newMem) \<Rightarrow>
          if rc \<noteq> SDB_OK then retM rc
          else if \<not> bson_isValid (the (rd_data rd)) then throwM (in_lastError ie)
          else if rd_len rd + DMS_RECORD_METADATA_SZ > DMS_RECORD_USER_MAX_SZ then retM SDB_DMS_RECORD_TOO_BIG
          else let need = finalRecordSize (rd_len rd)
               in bindM (if position \<ge> 0 then allocRecordSpaceByPos else allocRecordSpace env fuel need) (\<lambda>(rc1, rid).
                  if rc1 \<noteq> SDB_OK then retM rc1
                  else bindM (extReadPtr (rid_extent rid) False) (\<lambda>_.
                       bindM (getM (\<lambda>s. ext_validate (ctx_mbID (bd_ctx s)) (bd_extent s (rid_extent rid)))) (\<lambda>ok.
                       if \<not> ok then retM SDB_SYS
                       else extentInsertRecord rid rd need True))))"

definition insertRecord :: "osEnv \<Rightarrow> insEnv \<Rightarrow> nat \<Rightarrow> bytes \<Rightarrow> bool \<Rightarrow> int \<Rightarrow> rc dms" where
  "insertRecord env ie fuel rcd mustOID position =
     tryM (insertTry env ie fuel rcd mustOID position) (\<lambda>e. retM (caughtRc e))"

section \<open>Reading a record\<close>

definition extractData :: "dmsRecordID \<Rightarrow> (rc \<times> dmsRecordData) dms" where
  "extractData rid =
     bindM (recReadPtr rid 0 False) (\<lambda>_.
     bindM (getM bd_ctx) (\<lambda>ctx.
     if \<not> isMBLock ctx then retM (SDB_SYS, rd_reset)
     else bindM (getM (\<lambda>s. bd_record s rid)) (\<lambda>r.
          let src = (if rec_isOvf r then rec_getOvfRID r else rid)
          in bindM (if rec_isOvf r then recReadPtr src 0 False else retM True) (\<lambda>_.
             bindM (getM (\<lambda>s. bd_record s src)) (\<lambda>r1.
             retM (SDB_OK, rd_setData (Some (rec_getData r1)) (rec_getDataLength r1) UTIL_COMPRESSOR_INVALID True rd_reset))))))"

end
