(* ===== verification/Dms_Header.thy ===== *)
theory Dms_Header
  imports Dms_BlockState
begin

text \<open>
  The header of a storage unit file and the first write of the file (\<open>dmsBlockData.hpp\<close>, \<open>dmsBlockData.cpp\<close>):
  \<open>_initHeader\<close>, \<open>_checkPageSize\<close>, \<open>_validateHeader\<close>, which also derives the page and segment geometry of
  the unit, the loop of \<open>_writeFile\<close>, and \<open>_initializeStorageUnit\<close> with \<open>_onCreate\<close> and \<open>_initializeMME\<close>.  The regions of the file
  (header, space management extent, metadata blocks) are the fields of the state that
  map them.
\<close>

section \<open>The header\<close>

abbreviation (input) DMS_DATASU_CUR_VERSION :: nat where "DMS_DATASU_CUR_VERSION \<equiv> 1"
abbreviation (input) DMS_SU_NAME_SZ :: nat where "DMS_SU_NAME_SZ \<equiv> 127"
abbreviation (input) DMS_HEADER_SZ :: nat where "DMS_HEADER_SZ \<equiv> 65536"
abbreviation (input) DMS_SME_SZ :: nat where "DMS_SME_SZ \<equiv> 16777216"
abbreviation (input) DMS_MME_SZ :: nat where "DMS_MME_SZ \<equiv> 4194304"

definition DMS_DATASU_EYECATCHER :: string where
  "DMS_DATASU_EYECATCHER = ''NOVADATA''"

text \<open>\<open>_dataOffset\<close>: where the data segments start.\<close>

definition dataOffset :: nat where
  "dataOffset = DMS_HEADER_SZ + DMS_SME_SZ + DMS_MME_SZ"

definition initHeader :: "dmsStorageInfo \<Rightarrow> dmsStorageUnitHeader \<Rightarrow> dmsStorageUnitHeader" where
  "initHeader info h =
     h\<lparr>hd_eyeCatcher := take 8 DMS_DATASU_EYECATCHER,
       hd_version := DMS_DATASU_CUR_VERSION,
       hd_pageSize := si_pageSize info,
       hd_storageUnitSize := dataOffset div si_pageSize info,
       hd_name := take DMS_SU_NAME_SZ (si_suName info),
       hd_sequence := si_sequence info,
       hd_numMB := 0, hd_MBHWM := 0, hd_pageNum := 0,
       hd_csUniqueID := si_csUniqueID info\<rparr>"

definition checkPageSize :: "dmsStorageUnitHeader \<Rightarrow> dmsStorageInfo \<Rightarrow> rc \<times> dmsStorageInfo" where
  "checkPageSize h info =
     (if hd_pageSize h \<notin> {4096, 8192, 16384, 32768, 65536} then (SDB_INVALIDARG, info)
      else if si_pageSize info \<noteq> hd_pageSize h then (SDB_OK, info\<lparr>si_pageSize := hd_pageSize h\<rparr>)
      else (SDB_OK, info))"

text \<open>\<open>ossStrncmp\<close> with a bound, on strings that end at their first zero.\<close>

definition strncmpEq :: "nat \<Rightarrow> string \<Rightarrow> string \<Rightarrow> bool" where
  "strncmpEq n a b \<longleftrightarrow> take n a = take n b"

text \<open>The chain of checks behind the page size check.\<close>

definition headerFault :: "dmsStorageInfo \<Rightarrow> dmsStorageUnitHeader \<Rightarrow> rc" where
  "headerFault info h =
     (if dataOffset mod hd_pageSize h \<noteq> 0 then SDB_SYS
      else if DMS_MAX_PG < hd_pageNum h then SDB_SYS
      else if u32 (int (hd_storageUnitSize h) - int (hd_pageNum h)) \<noteq> dataOffset div hd_pageSize h then SDB_SYS
      else if \<not> strncmpEq DMS_SU_NAME_SZ (si_suName info) (hd_name h) then SDB_SYS
      else SDB_OK)"

text \<open>The geometry of the unit from the page size: the part of \<open>_validateHeader\<close> that computes the square roots.\<close>

definition setGeometry :: "dmsStorageUnitHeader \<Rightarrow> dmsBlockData \<Rightarrow> rc \<times> dmsBlockData" where
  "setGeometry h s =
     (case ossIsPowerOf2 (word_of_nat (hd_pageSize h)) of
        None \<Rightarrow> (SDB_INVALIDARG, s)
      | Some sq \<Rightarrow>
          let info = bd_info s;
              info1 = (if si_sequence info \<noteq> hd_sequence h then info\<lparr>si_sequence := hd_sequence h\<rparr> else info);
              segPages = DMS_SEGMENT_SZ div 2 ^ sq;
              s1 = s\<lparr>bd_pageSizeSquare := sq, bd_info := info1, bd_pageNum := hd_pageNum h, bd_segmentPages := segPages\<rparr>
          in case ossIsPowerOf2 (word_of_nat segPages) of
               None \<Rightarrow> (SDB_SYS, s1)
             | Some sq2 \<Rightarrow>
                 (SDB_OK, s1\<lparr>bd_segmentPagesSquare := sq2,
                    bd_info := (if si_csUniqueID info1 \<noteq> hd_csUniqueID h then info1\<lparr>si_csUniqueID := hd_csUniqueID h\<rparr>
                                else info1)\<rparr>))"

definition validateHeader :: "dmsStorageUnitHeader \<Rightarrow> dmsBlockData \<Rightarrow> rc \<times> dmsBlockData" where
  "validateHeader h s =
     (if \<not> strncmpEq 8 (hd_eyeCatcher h) DMS_DATASU_EYECATCHER then (SDB_INVALID_FILE_TYPE, s)
      else if hd_version h > DMS_DATASU_CUR_VERSION then (SDB_DMS_INCOMPATIBLE_VERSION, s)
      else case checkPageSize h (bd_info s) of (rc, info) \<Rightarrow>
        let s1 = s\<lparr>bd_info := info\<rparr>
        in if rc \<noteq> SDB_OK then (rc, s1)
           else let s2 = s1\<lparr>bd_pageSize := hd_pageSize h\<rparr>; rc1 = headerFault info h
                in if rc1 \<noteq> SDB_OK then (rc1, s2) else setGeometry h s2)"

section \<open>Writing the file for the first time\<close>

text \<open>
  \<open>_writeFile\<close>: the answers of \<open>ossWrite\<close>, each a code and the number of bytes written, are consumed one per
  round; the result has the code, the chunks written (offset into the buffer, length) and the answers left.
  \<open>None\<close>: the answers run out, the loop is still going.
\<close>

fun writeLoop :: "(rc \<times> nat) list \<Rightarrow> nat \<Rightarrow> int \<Rightarrow> (rc \<times> (nat \<times> nat) list \<times> (rc \<times> nat) list) option" where
  "writeLoop as bufOffset needWrite =
     (if needWrite \<le> 0 then Some (SDB_OK, [], as)
      else case as of
             [] \<Rightarrow> None
           | (rc, written) # as' \<Rightarrow>
               if rc \<noteq> SDB_OK \<and> rc \<noteq> SDB_INTERRUPT then Some (rc, [], as')
               else map_option (\<lambda>(r, cs, left). (r, (bufOffset, written) # cs, left))
                      (writeLoop as' (bufOffset + written) (needWrite - int written)))"

declare writeLoop.simps [simp del]

definition writeFile :: "(rc \<times> nat) list \<Rightarrow> nat \<Rightarrow> (rc \<times> (nat \<times> nat) list \<times> (rc \<times> nat) list) option" where
  "writeFile as dataLen = writeLoop as 0 (int dataLen)"

definition initializeMME :: "(nat \<Rightarrow> dmsMB) \<Rightarrow> nat \<Rightarrow> dmsMB" where
  "initializeMME mbs = (\<lambda>i. if i < DMS_MME_SLOTS then mb_reset None 0 DMS_INVALID_MBID (NOT 0) 0 (mbs i) else mbs i)"

text \<open>The answers of the operating system while a unit is created or opened.\<close>

record suEnv =
  se_os :: osEnv
  se_open :: rc
  se_seek :: rc
  se_newOk :: "nat \<Rightarrow> bool"
  se_writes :: "(rc \<times> nat) list"
  se_pid :: string

definition written :: "(nat \<times> nat) list \<Rightarrow> nat" where
  "written chunks = sum_list (map snd chunks)"

definition onCreate :: "suEnv \<Rightarrow> (rc \<times> nat) list \<Rightarrow> rc dms" where
  "onCreate env as = (\<lambda>s.
     if \<not> se_newOk env 2 then Ret SDB_OOM s
     else case writeFile as DMS_MME_SZ of
            None \<Rightarrow> Diverge
          | Some (rc, cs, _) \<Rightarrow>
              let s1 = s\<lparr>bd_fileSize := bd_fileSize s + written cs\<rparr>
              in if rc \<noteq> SDB_OK then Ret rc s1 else Ret SDB_OK (s1\<lparr>bd_mb := initializeMME (bd_mb s)\<rparr>))"

text \<open>Each region of the file is written in full before the next; a region that is written holds the initialised
  structure.  The file is empty before.\<close>

definition initializeStorageUnit :: "suEnv \<Rightarrow> rc dms" where
  "initializeStorageUnit env = (\<lambda>s.
     if se_seek env \<noteq> SDB_OK then Ret (se_seek env) s
     else if \<not> se_newOk env 0 then Ret SDB_OOM s
     else case writeFile (se_writes env) DMS_HEADER_SZ of
            None \<Rightarrow> Diverge
          | Some (rc, cs, as1) \<Rightarrow>
              let s0 = s\<lparr>bd_fileSize := bd_fileSize s + written cs\<rparr>
              in if rc \<noteq> SDB_OK then Ret rc s0
                 else let s1 = s0\<lparr>bd_header := initHeader (bd_info s) header_reset\<rparr>
                      in if \<not> se_newOk env 1 then Ret SDB_OOM s1
                         else case writeFile as1 DMS_SME_SZ of
                                None \<Rightarrow> Diverge
                              | Some (rc1, cs1, as2) \<Rightarrow>
                                  let s2 = s1\<lparr>bd_fileSize := bd_fileSize s1 + written cs1\<rparr>; mgr = bd_smeMgr s2
                                  in if rc1 \<noteq> SDB_OK then Ret rc1 s2
                                     else onCreate env as2
                                            (s2\<lparr>bd_smeMgr := mgr\<lparr>mgr_shared := (mgr_shared mgr)\<lparr>sh_pSME := sme_new\<rparr>\<rparr>\<rparr>))"

section \<open>Geometry\<close>

lemma ossIsPowerOf2_exp: "k < 32 \<Longrightarrow> ossIsPowerOf2 (word_of_nat (2 ^ k)) = Some k"
proof -
  assume k: "k < 32"
  have "(2 ^ k :: 32 word) AND (2 ^ k - 1) = take_bit k (2 ^ k)" by (simp flip: take_bit_eq_mask mask_eq_exp_minus_1)
  also have "\<dots> = 0" by (simp add: take_bit_push_bit flip: push_bit_of_1)
  finally have "(2 ^ k :: 32 word) AND (2 ^ k - 1) = 0" .
  moreover have u: "unat (2 ^ k :: 32 word) = 2 ^ k" using k by (simp add: unsigned_of_nat [where ?'a = nat, of "2 ^ k", simplified] take_bit_nat_eq_self)
  moreover have "(2 ^ k :: 32 word) \<noteq> 0" using u by (metis power_not_zero unat_0 zero_neq_numeral)
  ultimately show ?thesis using ossSquareLoop_power [of k 0] by (simp add: ossIsPowerOf2_def)
qed

text \<open>The page sizes the code accepts are powers of two, and they divide the metadata and a segment.\<close>

lemma pageSize_pow:
  assumes "p \<in> {4096, 8192, 16384, 32768, 65536 :: nat}"
  shows "\<exists>sq. 12 \<le> sq \<and> sq \<le> 16 \<and> p = 2 ^ sq \<and> dataOffset mod p = 0 \<and> DMS_SEGMENT_SZ div p = 2 ^ (27 - sq)"
proof -
  have "\<exists>sq\<in>{12, 13, 14, 15, 16}. p = 2 ^ sq" using assms by auto
  then obtain sq where sq: "sq \<in> {12, 13, 14, 15, 16}" "p = 2 ^ sq" by blast
  show ?thesis by (rule exI [of _ sq]) (use sq in \<open>auto simp: dataOffset_def\<close>)
qed

lemma setGeometry_ok:
  assumes "hd_pageSize h \<in> {4096, 8192, 16384, 32768, 65536}" and "setGeometry h s = (rc, t)"
  shows "rc = SDB_OK" and "hd_pageSize h = 2 ^ bd_pageSizeSquare t" and "bd_segmentPages t = 2 ^ bd_segmentPagesSquare t"
    and "bd_pageSizeSquare t + bd_segmentPagesSquare t = 27" and "bd_pageNum t = hd_pageNum h"
    and "bd_pageSize t = bd_pageSize s"
    and "si_sequence (bd_info t) = hd_sequence h \<and> si_csUniqueID (bd_info t) = hd_csUniqueID h"
proof -
  obtain sq where sq: "12 \<le> sq" "sq \<le> 16" "hd_pageSize h = 2 ^ sq" "DMS_SEGMENT_SZ div hd_pageSize h = 2 ^ (27 - sq)"
    using pageSize_pow [OF assms(1)] by blast
  have p1: "ossIsPowerOf2 (word_of_nat (hd_pageSize h)) = Some sq"
    unfolding sq(3) by (rule ossIsPowerOf2_exp) (use sq(2) in simp)
  have p2: "ossIsPowerOf2 (word_of_nat (2 ^ (27 - sq))) = Some (27 - sq)"
    by (rule ossIsPowerOf2_exp) simp
  have d: "DMS_SEGMENT_SZ div 2 ^ sq = 2 ^ (27 - sq)" using sq(3,4) by simp
  have st: "setGeometry h s = (SDB_OK, t)"
    using assms(2) unfolding setGeometry_def p1 option.case Let_def d p2 by simp
  then show "rc = SDB_OK" using assms(2) by simp
  have t: "bd_pageSizeSquare t = sq" "bd_segmentPages t = 2 ^ (27 - sq)" "bd_segmentPagesSquare t = 27 - sq"
    "bd_pageNum t = hd_pageNum h" "bd_pageSize t = bd_pageSize s"
    "si_sequence (bd_info t) = hd_sequence h \<and> si_csUniqueID (bd_info t) = hd_csUniqueID h"
    using st unfolding setGeometry_def p1 option.case Let_def d p2 by auto
  then show "hd_pageSize h = 2 ^ bd_pageSizeSquare t" "bd_segmentPages t = 2 ^ bd_segmentPagesSquare t"
    "bd_pageSizeSquare t + bd_segmentPagesSquare t = 27" "bd_pageNum t = hd_pageNum h" "bd_pageSize t = bd_pageSize s"
    "si_sequence (bd_info t) = hd_sequence h \<and> si_csUniqueID (bd_info t) = hd_csUniqueID h"
    using sq by simp_all
qed

lemma headerFault_ok:
  assumes "hd_pageSize h \<in> {4096, 8192, 16384, 32768, 65536}"
  shows "headerFault info h = SDB_OK \<longleftrightarrow> hd_pageNum h \<le> DMS_MAX_PG
    \<and> u32 (int (hd_storageUnitSize h) - int (hd_pageNum h)) = dataOffset div hd_pageSize h
    \<and> take 127 (si_suName info) = take 127 (hd_name h)"
  using pageSize_pow [OF assms] by (auto simp: headerFault_def strncmpEq_def)

lemma checkPageSize_ok:
  "hd_pageSize h \<in> {4096, 8192, 16384, 32768, 65536} \<Longrightarrow> checkPageSize h info = (SDB_OK, info\<lparr>si_pageSize := hd_pageSize h\<rparr>)"
  by (simp add: checkPageSize_def)

lemma validateHeader_steps:
  fixes s :: dmsBlockData
  assumes "take 8 (hd_eyeCatcher h) = ''NOVADATA''" and "hd_version h \<le> 1"
    and "hd_pageSize h \<in> {4096, 8192, 16384, 32768, 65536}"
  defines "s2 \<equiv> s\<lparr>bd_info := (bd_info s)\<lparr>si_pageSize := hd_pageSize h\<rparr>, bd_pageSize := hd_pageSize h\<rparr>"
  shows "validateHeader h s =
    (if headerFault (bd_info s2) h \<noteq> SDB_OK then (headerFault (bd_info s2) h, s2) else setGeometry h s2)"
  using assms(1,2)
  by (simp add: validateHeader_def strncmpEq_def DMS_DATASU_EYECATCHER_def checkPageSize_ok [OF assms(3)] s2_def)

text \<open>The code that \<open>_validateHeader\<close> returns, for every header: the checks in their order.  The checks behind the page size all give \<open>SDB_SYS\<close>.\<close>

lemma validateHeader_code:
  "fst (validateHeader h s) =
     (if take 8 (hd_eyeCatcher h) \<noteq> ''NOVADATA'' then SDB_INVALID_FILE_TYPE
      else if hd_version h > 1 then SDB_DMS_INCOMPATIBLE_VERSION
      else if hd_pageSize h \<notin> {4096, 8192, 16384, 32768, 65536} then SDB_INVALIDARG
      else if hd_pageNum h \<le> DMS_MAX_PG \<and> u32 (int (hd_storageUnitSize h) - int (hd_pageNum h)) = dataOffset div hd_pageSize h
        \<and> take 127 (si_suName (bd_info s)) = take 127 (hd_name h) then SDB_OK
      else SDB_SYS)"
proof (cases "take 8 (hd_eyeCatcher h) = ''NOVADATA'' \<and> hd_version h \<le> 1 \<and> hd_pageSize h \<in> {4096, 8192, 16384, 32768, 65536}")
  case False
  then show ?thesis by (auto simp: validateHeader_def strncmpEq_def DMS_DATASU_EYECATCHER_def checkPageSize_def)
next
  case True
  define s2 where "s2 = s\<lparr>bd_info := (bd_info s)\<lparr>si_pageSize := hd_pageSize h\<rparr>, bd_pageSize := hd_pageSize h\<rparr>"
  have v: "validateHeader h s = (if headerFault (bd_info s2) h \<noteq> SDB_OK then (headerFault (bd_info s2) h, s2) else setGeometry h s2)"
    using True validateHeader_steps [of h s] unfolding s2_def by blast
  have ok: "fst (setGeometry h s2) = SDB_OK" using True setGeometry_ok(1) [of h s2] by (metis prod.collapse)
  have "headerFault (bd_info s2) h = SDB_OK \<or> headerFault (bd_info s2) h = SDB_SYS" by (simp add: headerFault_def)
  moreover note headerFault_ok [of h "bd_info s2"]
  moreover have "si_suName (bd_info s2) = si_suName (bd_info s)" by (simp add: s2_def)
  ultimately show ?thesis using True v ok by auto
qed

lemma validateHeader_geometry:
  assumes "validateHeader h s = (SDB_OK, t)"
  shows "bd_pageSize t = hd_pageSize h \<and> hd_pageSize h = 2 ^ bd_pageSizeSquare t
     \<and> bd_segmentPages t = 2 ^ bd_segmentPagesSquare t \<and> bd_segmentPages t * bd_pageSize t = DMS_SEGMENT_SZ
     \<and> bd_pageNum t = hd_pageNum h \<and> si_sequence (bd_info t) = hd_sequence h \<and> si_csUniqueID (bd_info t) = hd_csUniqueID h"
proof -
  define s2 where "s2 = s\<lparr>bd_info := (bd_info s)\<lparr>si_pageSize := hd_pageSize h\<rparr>, bd_pageSize := hd_pageSize h\<rparr>"
  have "fst (validateHeader h s) = SDB_OK" using assms by simp
  then have c: "take 8 (hd_eyeCatcher h) = ''NOVADATA''" "hd_version h \<le> 1" "hd_pageSize h \<in> {4096, 8192, 16384, 32768, 65536}"
    unfolding validateHeader_code by (auto split: if_splits)
  have "validateHeader h s = (if headerFault (bd_info s2) h \<noteq> SDB_OK then (headerFault (bd_info s2) h, s2) else setGeometry h s2)"
    using c validateHeader_steps [of h s] unfolding s2_def by blast
  then have "setGeometry h s2 = (SDB_OK, t)" using assms by (auto split: if_splits)
  note g = setGeometry_ok [OF c(3) this]
  have "bd_segmentPages t * bd_pageSize t = 2 ^ (bd_segmentPagesSquare t + bd_pageSizeSquare t)"
    using g(2,3,6) by (simp add: power_add s2_def)
  then show ?thesis using g by (simp add: s2_def add.commute)
qed

section \<open>Writing in chunks\<close>

text \<open>The chunks follow each other from an offset on without gap.\<close>

fun contiguous :: "nat \<Rightarrow> (nat \<times> nat) list \<Rightarrow> bool" where
  "contiguous off [] \<longleftrightarrow> True"
| "contiguous off ((o1, n) # cs) \<longleftrightarrow> o1 = off \<and> contiguous (off + n) cs"

text \<open>\<open>ossWrite\<close> never reports more bytes than it was asked to write.\<close>

fun honest :: "(rc \<times> nat) list \<Rightarrow> int \<Rightarrow> bool" where
  "honest [] need \<longleftrightarrow> True"
| "honest ((rc, n) # as) need \<longleftrightarrow> (need > 0 \<longrightarrow> int n \<le> need) \<and> honest as (need - int n)"

definition answersOk :: "(rc \<times> nat) list \<Rightarrow> bool" where
  "answersOk as \<longleftrightarrow> (\<forall>(rc, n)\<in>set as. rc = SDB_OK \<or> rc = SDB_INTERRUPT)"

lemma writeLoop_chunks:
  assumes "writeLoop as off need = Some (rc, cs, left)"
  shows "contiguous off cs \<and> (rc = SDB_OK \<longrightarrow> need \<le> int (written cs))
    \<and> (rc = SDB_OK \<and> honest as need \<and> 0 \<le> need \<longrightarrow> int (written cs) = need)"
  using assms
proof (induction as arbitrary: off need cs)
  case Nil
  then show ?case by (auto simp: writeLoop.simps written_def split: if_splits)
next
  case (Cons a as)
  obtain rc1 n where a: "a = (rc1, n)" by (cases a)
  show ?case
  proof (cases "need \<le> 0 \<or> rc1 \<noteq> SDB_OK \<and> rc1 \<noteq> SDB_INTERRUPT")
    case True
    then show ?thesis using Cons.prems by (auto simp: a writeLoop.simps written_def split: if_splits)
  next
    case False
    then obtain cs' where r: "writeLoop as (off + n) (need - int n) = Some (rc, cs', left)" "cs = (off, n) # cs'"
      using Cons.prems by (subst (asm) writeLoop.simps) (auto simp: a)
    from Cons.IH [OF r(1)] False show ?thesis by (auto simp: r(2) written_def a)
  qed
qed

lemma writeLoop_returns:
  assumes "answersOk as" and "need \<le> int (sum_list (map snd as))"
  shows "\<exists>cs left. writeLoop as off need = Some (SDB_OK, cs, left)"
  using assms
proof (induction as arbitrary: off need)
  case Nil
  then show ?case by (simp add: writeLoop.simps)
next
  case (Cons a as)
  obtain rc1 n where a: "a = (rc1, n)" by (cases a)
  have ok: "rc1 = SDB_OK \<or> rc1 = SDB_INTERRUPT" "answersOk as" using Cons.prems(1) by (auto simp: answersOk_def a)
  show ?case
  proof (cases "need \<le> 0")
    case True
    then show ?thesis by (simp add: writeLoop.simps)
  next
    case False
    have "need - int n \<le> int (sum_list (map snd as))" using Cons.prems(2) by (simp add: a)
    from Cons.IH [OF ok(2) this, of "off + n"] False ok(1) show ?thesis
      by (subst writeLoop.simps) (auto simp: a)
  qed
qed

lemma writeFile_all: "writeFile as n = Some (SDB_OK, cs, left) \<Longrightarrow> n \<le> written cs"
  using writeLoop_chunks [of as 0 "int n" SDB_OK cs left] by (simp add: writeFile_def)

section \<open>Properties\<close>

lemma initHeader_accepted:
  assumes "si_pageSize info \<in> {4096, 8192, 16384, 32768, 65536}" and "si_suName (bd_info s) = si_suName info"
  shows "\<exists>t. validateHeader (initHeader info h) s = (SDB_OK, t)"
proof -
  have "u32 (int (dataOffset div si_pageSize info)) = dataOffset div si_pageSize info"
    by (intro u32_of_nat le_less_trans [OF div_le_dividend]) (simp add: dataOffset_def)
  with assms have "fst (validateHeader (initHeader info h) s) = SDB_OK"
    unfolding validateHeader_code by (simp add: initHeader_def DMS_DATASU_EYECATCHER_def)
  then show ?thesis by (metis prod.collapse)
qed

text \<open>A unit just constructed, with 64 KB pages.\<close>

definition demoInfo :: dmsStorageInfo where
  "demoInfo = storageInfo_new\<lparr>si_suName := ''foo''\<rparr>"

definition demoUnit :: dmsBlockData where
  "demoUnit = blockData_new ''foo.1.data'' demoInfo"

lemma demoUnit_sel [simp]: "bd_info demoUnit = demoInfo" "bd_fileSize demoUnit = 0" "si_pageSize demoInfo = 65536"
  by (simp_all add: demoUnit_def blockData_new_def demoInfo_def storageInfo_new_def)

text \<open>C40: what \<open>_validateHeader\<close> returns for any header: \<open>SDB_INVALID_FILE_TYPE\<close> for a wrong eye catcher, else \<open>SDB_DMS_INCOMPATIBLE_VERSION\<close> for a version that is
  too new, else \<open>SDB_INVALIDARG\<close> for a page size that is none of the five, else \<open>SDB_SYS\<close> for a page count above the limit or one that does not agree with the
  unit size, or for another unit name, else \<open>SDB_OK\<close>.  An accepted header gives page and segment sizes that are powers of two and multiply to the
  size of a segment; page size, page count, sequence and unique id of the unit are then the header's (the last two are taken over without a check).\<close>

theorem header_accepted_iff:
  "fst (validateHeader h s) =
     (if take 8 (hd_eyeCatcher h) \<noteq> ''NOVADATA'' then SDB_INVALID_FILE_TYPE
      else if hd_version h > 1 then SDB_DMS_INCOMPATIBLE_VERSION
      else if hd_pageSize h \<notin> {4096, 8192, 16384, 32768, 65536} then SDB_INVALIDARG
      else if hd_pageNum h \<le> DMS_MAX_PG \<and> u32 (int (hd_storageUnitSize h) - int (hd_pageNum h)) = dataOffset div hd_pageSize h
        \<and> take 127 (si_suName (bd_info s)) = take 127 (hd_name h) then SDB_OK
      else SDB_SYS)
   \<and> (\<forall>t. validateHeader h s = (SDB_OK, t) \<longrightarrow>
     bd_pageSize t = hd_pageSize h \<and> hd_pageSize h = 2 ^ bd_pageSizeSquare t
     \<and> bd_segmentPages t = 2 ^ bd_segmentPagesSquare t \<and> bd_segmentPages t * bd_pageSize t = DMS_SEGMENT_SZ
     \<and> bd_pageNum t = hd_pageNum h \<and> si_sequence (bd_info t) = hd_sequence h \<and> si_csUniqueID (bd_info t) = hd_csUniqueID h)"
  using validateHeader_code validateHeader_geometry by blast

theorem header_accepted_iff_witness:
  "(\<exists>t. validateHeader (initHeader demoInfo header_reset) demoUnit = (SDB_OK, t) \<and> bd_pageSizeSquare t = 16 \<and> bd_segmentPages t = 2048)
   \<and> fst (validateHeader ((initHeader demoInfo header_reset)\<lparr>hd_pageSize := 1000\<rparr>) demoUnit) = SDB_INVALIDARG"
proof -
  let ?h = "initHeader demoInfo header_reset"
  obtain t where t: "validateHeader ?h demoUnit = (SDB_OK, t)" using initHeader_accepted [of demoInfo demoUnit header_reset] by auto
  with header_accepted_iff [of ?h demoUnit]
  have p: "(2 :: nat) ^ bd_pageSizeSquare t = 2 ^ 16" and g: "bd_segmentPages t = 2048" by (auto simp: initHeader_def)
  have "bd_pageSizeSquare t = 16" using p by (simp only: power_inject_exp one_less_numeral_iff semiring_norm)
  moreover have "fst (validateHeader (?h\<lparr>hd_pageSize := 1000\<rparr>) demoUnit) = SDB_INVALIDARG"
    using header_accepted_iff [of "?h\<lparr>hd_pageSize := 1000\<rparr>" demoUnit] by (simp add: initHeader_def DMS_DATASU_EYECATCHER_def)
  ultimately show ?thesis using t g by blast
qed

text \<open>\<open>_writeFile\<close>: whatever \<open>ossWrite\<close> answers, the chunks written follow each other from the start of the
  buffer without gap, and success means that the whole buffer was written; when every call is
  at worst interrupted and the calls together write enough, it succeeds.\<close>

theorem writeFile_writes_everything:
  "(\<forall>rc cs left. writeFile as n = Some (rc, cs, left) \<longrightarrow>
     contiguous 0 cs \<and> (rc = SDB_OK \<longrightarrow> n \<le> written cs) \<and> (rc = SDB_OK \<and> honest as (int n) \<longrightarrow> written cs = n)) \<and>
   (answersOk as \<and> n \<le> sum_list (map snd as) \<longrightarrow> (\<exists>cs left. writeFile as n = Some (SDB_OK, cs, left)))"
proof
  show "\<forall>rc cs left. writeFile as n = Some (rc, cs, left) \<longrightarrow>
     contiguous 0 cs \<and> (rc = SDB_OK \<longrightarrow> n \<le> written cs) \<and> (rc = SDB_OK \<and> honest as (int n) \<longrightarrow> written cs = n)"
    using writeLoop_chunks by (fastforce simp: writeFile_def)
  show "answersOk as \<and> n \<le> sum_list (map snd as) \<longrightarrow> (\<exists>cs left. writeFile as n = Some (SDB_OK, cs, left))"
    using writeLoop_returns [of as "int n" 0] by (simp add: writeFile_def)
qed

theorem writeFile_writes_everything_witness:
  "writeFile [(SDB_OK, 3), (SDB_INTERRUPT, 0), (SDB_OK, 2)] 5 = Some (SDB_OK, [(0, 3), (3, 0), (3, 2)], []) \<and>
   written [(0, 3), (3, 0), (3, 2)] = 5"
proof -
  have w: "writeFile [(SDB_OK, 3), (SDB_INTERRUPT, 0), (SDB_OK, 2)] 5 = Some (SDB_OK, [(0, 3), (3, 0), (3, 2)], [])"
    by (simp add: writeFile_def writeLoop.simps)
  with writeFile_writes_everything [of "[(SDB_OK, 3), (SDB_INTERRUPT, 0), (SDB_OK, 2)]" 5] show ?thesis by simp
qed

text \<open>C34: When \<open>_initializeStorageUnit\<close> returns \<open>SDB_OK\<close> on an empty file of a unit with one of the five page sizes, the file has its three regions in full, no page
  is allocated, every metadata block is free, and \<open>_validateHeader\<close>, run on the header that was written for any unit object of the same name, returns \<open>SDB_OK\<close> and gives that
  object the page size, the sequence and the unique id of the unit that was created, no data pages, and page and segment sizes that are powers of two and multiply to
  the size of a segment.\<close>

theorem created_unit_is_valid:
  assumes "initializeStorageUnit env s = Ret SDB_OK t" and "bd_fileSize s = 0"
    and "si_pageSize (bd_info s) \<in> {4096, 8192, 16384, 32768, 65536}" and "si_suName (bd_info x) = si_suName (bd_info s)"
  shows "dataOffset \<le> bd_fileSize t
    \<and> getBitMask (sh_pSME (mgr_shared (bd_smeMgr t))) p = DMS_SME_FREE
    \<and> (\<forall>i<DMS_MME_SLOTS. DMS_IS_MB_FREE (mb_flag (bd_mb t i)))
    \<and> (\<exists>u. validateHeader (bd_header t) x = (SDB_OK, u) \<and> bd_pageSize u = si_pageSize (bd_info s) \<and> bd_pageSize u = 2 ^ bd_pageSizeSquare u
        \<and> bd_segmentPages u = 2 ^ bd_segmentPagesSquare u \<and> bd_segmentPages u * bd_pageSize u = DMS_SEGMENT_SZ \<and> bd_pageNum u = 0
        \<and> si_sequence (bd_info u) = si_sequence (bd_info s) \<and> si_csUniqueID (bd_info u) = si_csUniqueID (bd_info s))"
proof -
  obtain cs as1 cs1 as2 cs2 as3 where w:
    "writeFile (se_writes env) DMS_HEADER_SZ = Some (SDB_OK, cs, as1)"
    "writeFile as1 DMS_SME_SZ = Some (SDB_OK, cs1, as2)" "writeFile as2 DMS_MME_SZ = Some (SDB_OK, cs2, as3)"
    "t = s\<lparr>bd_fileSize := bd_fileSize s + written cs + written cs1 + written cs2,
           bd_header := initHeader (bd_info s) header_reset,
           bd_smeMgr := (bd_smeMgr s)\<lparr>mgr_shared := (mgr_shared (bd_smeMgr s))\<lparr>sh_pSME := sme_new\<rparr>\<rparr>,
           bd_mb := initializeMME (bd_mb s)\<rparr>"
    using assms(1)
    by (auto simp: initializeStorageUnit_def onCreate_def Let_def split: if_splits option.splits prod.splits)
  have "dataOffset \<le> bd_fileSize t"
    using writeFile_all [OF w(1)] writeFile_all [OF w(2)] writeFile_all [OF w(3)] by (simp add: w(4) dataOffset_def)
  moreover have h: "bd_header t = initHeader (bd_info s) header_reset" by (simp add: w(4))
  obtain u where u: "validateHeader (bd_header t) x = (SDB_OK, u)" using initHeader_accepted [OF assms(3,4)] unfolding h by blast
  note g = validateHeader_geometry [OF u, unfolded h]
  have "getBitMask (sh_pSME (mgr_shared (bd_smeMgr t))) p = DMS_SME_FREE" by (simp add: w(4))
  moreover have "\<forall>i<DMS_MME_SLOTS. DMS_IS_MB_FREE (mb_flag (bd_mb t i))"
    by (simp add: w(4) initializeMME_def mb_reset_def DMS_IS_MB_FREE_def)
  ultimately show ?thesis using u g by (auto simp: initHeader_def)
qed

definition demoEnv :: suEnv where
  "demoEnv = \<lparr> se_os = \<lparr> os_getFileSize = SDB_OK, os_truncate = (\<lambda>_. SDB_OK), os_extend = (\<lambda>_. SDB_OK),
       os_mmap = (\<lambda>len off. Mapped (4096 + off)), os_newOk = True \<rparr>,
     se_open = SDB_OK, se_seek = SDB_OK, se_newOk = (\<lambda>_. True),
     se_writes = [(SDB_OK, 65536), (SDB_OK, 16777216), (SDB_OK, 4194304)], se_pid = ''1'' \<rparr>"

theorem created_unit_is_valid_witness:
  "\<exists>t u. initializeStorageUnit demoEnv demoUnit = Ret SDB_OK t \<and> dataOffset \<le> bd_fileSize t
     \<and> validateHeader (bd_header t) demoUnit = (SDB_OK, u) \<and> bd_pageSize u = 65536 \<and> bd_segmentPages u = 2048"
proof -
  have "\<exists>t. initializeStorageUnit demoEnv demoUnit = Ret SDB_OK t"
    by (simp add: initializeStorageUnit_def onCreate_def writeFile_def writeLoop.simps Let_def demoEnv_def)
  then obtain t where t: "initializeStorageUnit demoEnv demoUnit = Ret SDB_OK t" by blast
  obtain u where u: "validateHeader (bd_header t) demoUnit = (SDB_OK, u)" "bd_pageSize u = 65536" "bd_segmentPages u * bd_pageSize u = DMS_SEGMENT_SZ"
    and f: "dataOffset \<le> bd_fileSize t"
    using created_unit_is_valid [OF t, where x = demoUnit and p = 0] by auto
  have "bd_segmentPages u = 2048" using u(2,3) by simp
  with t u f show ?thesis by blast
qed

end
