(* ===== verification/Dms_Catalog.thy ===== *)
theory Dms_Catalog
  imports Dms_Insert Dms_Header
begin

text \<open>
  The collections of a storage unit: the two maps from names and unique ids to metadata
  blocks, the pool of contexts, creating a collection (\<open>addCollection\<close>), opening the file (\<open>openStorage\<close>) and
  the entry points of \<open>_dmsBlockUnit\<close>.  The metadata latch and the latch of the context pool are held around
  straight-line code only, so each such block is one step.  The pool holds reset contexts, which
  are all alike: it is their number.
\<close>

section \<open>Lookup\<close>

definition collectionInsert :: "string \<Rightarrow> nat \<Rightarrow> 64 word \<Rightarrow> dmsBlockData \<Rightarrow> dmsBlockData" where
  "collectionInsert pName mbID clUniqueID s =
     s\<lparr>bd_nameMap := (bd_nameMap s)(pName \<mapsto> mbID),
       bd_idMap := (if UTIL_IS_VALID_CLUNIQUEID clUniqueID then (bd_idMap s)(clUniqueID \<mapsto> mbID) else bd_idMap s)\<rparr>"

definition collectionNameLookup :: "dmsBlockData \<Rightarrow> string \<Rightarrow> nat" where
  "collectionNameLookup s pName = (case bd_nameMap s pName of Some i \<Rightarrow> i | None \<Rightarrow> DMS_INVALID_MBID)"

definition collectionIdLookup :: "dmsBlockData \<Rightarrow> 64 word \<Rightarrow> nat" where
  "collectionIdLookup s clUniqueID =
     (if UTIL_IS_VALID_CLUNIQUEID clUniqueID
      then (case bd_idMap s clUniqueID of Some i \<Rightarrow> i | None \<Rightarrow> DMS_INVALID_MBID)
      else DMS_INVALID_MBID)"

section \<open>Contexts\<close>

abbreviation (input) DMS_CONTEXT_MAX_SIZE :: nat where "DMS_CONTEXT_MAX_SIZE \<equiv> 2000"
abbreviation (input) DMS_INVALID_CLID :: "32 word" where "DMS_INVALID_CLID \<equiv> NOT 0"

definition releaseMBContext :: "unit dms" where
  "releaseMBContext = (\<lambda>s.
     case mbUnlock (bd_ctx s) (bd_mblock s (ctx_mbID (bd_ctx s))) of
       (_, _, la) \<Rightarrow>
         Ret () (s\<lparr>bd_mblock := (bd_mblock s)(ctx_mbID (bd_ctx s) := la),
                   bd_vecContext := (if bd_vecContext s < DMS_CONTEXT_MAX_SIZE then bd_vecContext s + 1 else bd_vecContext s),
                   bd_ctx := ctx_reset\<rparr>))"

definition getMBContext :: "bool \<Rightarrow> nat \<Rightarrow> 32 word \<Rightarrow> 32 word \<Rightarrow> int \<Rightarrow> rc dms" where
  "getMBContext newOk mbID clLID startLID lockType = (\<lambda>s.
     if mbID \<ge> DMS_MME_SLOTS then Ret SDB_INVALIDARG s
     else let clLID1 = (if clLID = DMS_INVALID_CLID then mb_logicalID (bd_mb s mbID) else clLID);
              startLID1 = (if startLID = DMS_INVALID_CLID then st_startLID (bd_mbStat s mbID) else startLID)
          in if bd_vecContext s = 0 \<and> \<not> newOk then Ret SDB_OOM s
             else let s1 = s\<lparr>bd_vecContext := bd_vecContext s - 1,
                             bd_ctx := ctx_reset\<lparr>ctx_clLID := clLID1, ctx_startLID := startLID1, ctx_mbID := mbID\<rparr>\<rparr>
                  in if lockType = SHARED \<or> lockType = EXCLUSIVE
                     then bindM (ctxLock lockType) (\<lambda>rc.
                          if rc \<noteq> SDB_OK then bindM releaseMBContext (\<lambda>_. retM rc) else retM SDB_OK) s1
                     else Ret SDB_OK s1)"

definition getMBContextByName :: "bool \<Rightarrow> string \<Rightarrow> int \<Rightarrow> rc dms" where
  "getMBContextByName newOk pName lockType = (\<lambda>s.
     let mbID = collectionNameLookup s pName
     in if DMS_INVALID_MBID = mbID then Ret SDB_DMS_NOTEXIST s
        else getMBContext newOk mbID (mb_logicalID (bd_mb s mbID)) (st_startLID (bd_mbStat s mbID)) lockType s)"

section \<open>Flushing the metadata\<close>

text \<open>Every metadata segment but the excepted ones is flushed; the first error is returned.\<close>

fun flushMetaLoop :: "nat list \<Rightarrow> nat list \<Rightarrow> rc \<Rightarrow> ossMmapFile \<Rightarrow> rc" where
  "flushMetaLoop [] except rc mm = rc"
| "flushMetaLoop (i # is) except rc mm =
     (if i \<in> set except then flushMetaLoop is except rc mm
      else let rcTmp = fst (mmap_flush (\<lambda>_ _. True) i mm)
           in flushMetaLoop is except (if rcTmp \<noteq> SDB_OK \<and> rc = SDB_OK then rcTmp else rc) mm)"

definition flushMeta :: "nat list \<Rightarrow> rc dms" where
  "flushMeta except = (\<lambda>s.
     let s1 = syncMemToMmap s in Ret (flushMetaLoop [0..<bd_dataSegID s1] except SDB_OK (bd_mmap s1)) s1)"

section \<open>Creating a collection\<close>

definition releaseSpace :: "dmsExtentID \<Rightarrow> nat \<Rightarrow> unit dms" where
  "releaseSpace pageStart numPages = (\<lambda>s.
     Ret () (s\<lparr>bd_smeMgr := snd (smeMgr_releasePages (bd_segmentPagesSquare s) pageStart numPages (bd_smeMgr s))\<rparr>))"

text \<open>The number of segments the table of a collection covers, and the pages of its meta extent.\<close>

definition mbExSegNum :: "dmsBlockData \<Rightarrow> nat" where
  "mbExSegNum s = DMS_MAX_PG div 2 ^ bd_segmentPagesSquare s"

definition mbExSize :: "dmsBlockData \<Rightarrow> nat" where
  "mbExSize s = u32 (int (mbExSegNum s) * 8) div 2 ^ bd_pageSizeSquare s + 1"

definition findFreeMB :: "dmsBlockData \<Rightarrow> nat option" where
  "findFreeMB s = List.find (\<lambda>i. DMS_IS_MB_FREE (mb_flag (bd_mb s i))) [0..<DMS_MME_SLOTS]"

text \<open>Under the metadata latch: the checks, the slot, the new metadata block and the entries in the maps.\<close>

definition registerCollection :: "string \<Rightarrow> 64 word \<Rightarrow> nat \<Rightarrow> dmsBlockData \<Rightarrow> (rc \<times> nat) \<times> dmsBlockData" where
  "registerCollection pName clUniqueID attributes s =
     (if DMS_INVALID_MBID \<noteq> collectionNameLookup s pName then ((SDB_DMS_EXIST, DMS_INVALID_MBID), s)
      else if DMS_INVALID_MBID \<noteq> collectionIdLookup s clUniqueID then ((SDB_DMS_UNIQUEID_CONFLICT, DMS_INVALID_MBID), s)
      else if DMS_MME_SLOTS \<le> hd_numMB (bd_header s) then ((SDB_DMS_NOSPC, DMS_INVALID_MBID), s)
      else case findFreeMB s of
             None \<Rightarrow> ((SDB_SYS, DMS_INVALID_MBID), s)
           | Some i \<Rightarrow>
               let logicalID = hd_MBHWM (bd_header s);
                   s1 = s\<lparr>bd_header := (bd_header s)\<lparr>hd_MBHWM := logicalID + 1, hd_numMB := hd_numMB (bd_header s) + 1\<rparr>,
                          bd_mb := (bd_mb s)(i := mb_reset (Some pName) clUniqueID i logicalID attributes (bd_mb s i)),
                          bd_mbStat := (bd_mbStat s)(i := stat_reset\<lparr>st_startLID := logicalID\<rparr>)\<rparr>
               in ((SDB_OK, i), collectionInsert pName i clUniqueID s1))"

text \<open>What follows once the meta extent is written: the context, the first extent, the flush.\<close>

definition finishCollection :: "osEnv \<Rightarrow> nat \<Rightarrow> nat \<Rightarrow> nat \<Rightarrow> (rc \<times> 32 word option) dms" where
  "finishCollection env fuel newCollectionID initPages =
     bindM (getM (\<lambda>s. mb_logicalID (bd_mb s newCollectionID))) (\<lambda>logicalID.
     bindM (getMBContext (os_newOk env) newCollectionID logicalID logicalID EXCLUSIVE) (\<lambda>rc.
     if rc \<noteq> SDB_OK then retM (rc, None)
     else bindM (if initPages \<noteq> 0 then allocateExtent env fuel initPages True False else retM (SDB_OK, None)) (\<lambda>(rc1, _).
          bindM releaseMBContext (\<lambda>_.
          if rc1 \<noteq> SDB_OK then retM (rc1, None)
          else bindM (flushMeta []) (\<lambda>_. retM (SDB_OK, Some logicalID))))))"

text \<open>The result: the code, the block of the collection and its logical id, as far as they are assigned.  The context of
  the caller is kept.\<close>

definition addCollection ::
  "osEnv \<Rightarrow> nat \<Rightarrow> string \<Rightarrow> 64 word \<Rightarrow> nat \<Rightarrow> nat \<Rightarrow> bool \<Rightarrow> (rc \<times> nat option \<times> 32 word option) dms" where
  "addCollection env fuel pName clUniqueID attributes initPages sysCollection = (\<lambda>s.
     let rc = dmsCheckCLName pName sysCollection
     in if rc \<noteq> SDB_OK then Ret (rc, None, None) s
        else bindM (findFreeSpace env fuel (u16 (int (mbExSize s))) False) (\<lambda>(rc1, mbExExtent).
             if rc1 \<noteq> SDB_OK
             then bindM (if DMS_INVALID_EXTENT \<noteq> mbExExtent then releaseSpace mbExExtent (u16 (int (mbExSize s))) else retM ())
                    (\<lambda>_. retM (rc1, None, None))
             else (\<lambda>s1.
               case registerCollection pName clUniqueID attributes s1 of
                 ((rc2, i), s2) \<Rightarrow>
                   if rc2 \<noteq> SDB_OK
                   then bindM (if DMS_INVALID_EXTENT \<noteq> mbExExtent then releaseSpace mbExExtent (u16 (int (mbExSize s))) else retM ())
                          (\<lambda>_. retM (rc2, None, None)) s2
                   else bindM (extWritePtr (int i) mbExExtent True) (\<lambda>ok.
                        if \<not> ok
                        then bindM (if DMS_INVALID_EXTENT \<noteq> mbExExtent then releaseSpace mbExExtent (u16 (int (mbExSize s))) else retM ())
                               (\<lambda>_. retM (SDB_SYS, None, None))
                        else withRW (int i) mbExExtent
                          (bindM (updMetaExt mbExExtent (\<lambda>_. mex_init (u16 (int (mbExSize s))) i (mbExSegNum s))) (\<lambda>_.
                           bindM (updMB i (\<lambda>mb. mb\<lparr>mb_mbExExtentID := mbExExtent, mb_mbOptExtentID := DMS_INVALID_EXTENT\<rparr>)) (\<lambda>_.
                           bindM (getM bd_ctx) (\<lambda>callerCtx.
                           bindM (finishCollection env fuel i initPages) (\<lambda>(rc3, lid).
                           bindM (modifyM (\<lambda>s. s\<lparr>bd_ctx := callerCtx\<rparr>)) (\<lambda>_.
                           retM (rc3, Some i, lid)))))))) s2)) s)"

end
