(* ===== verification/Dms_Frame.thy ===== *)
theory Dms_Frame
  imports Dms_Catalog
begin

text \<open>
  What the operations on extents and records leave alone.  A view of the unit that does not look at the pages, the space management,
  the locks and the counters (\<open>unit_view\<close>) has the same value before and after growing the file, allocating
  an extent, inserting a record or taking a context, however the operation ends.  The view is interpreted
  for the catalog of the collections and for the geometry of the unit.
\<close>

section \<open>Outcomes that keep a view\<close>

definition kept :: "(dmsBlockData \<Rightarrow> 'v) \<Rightarrow> 'v \<Rightarrow> 'a outcome \<Rightarrow> bool" where
  "kept v x r \<longleftrightarrow> (case r of Ret a t \<Rightarrow> v t = x | Exc e t \<Rightarrow> v t = x | Panic \<Rightarrow> True | Diverge \<Rightarrow> True)"

lemma kept_simps [simp]:
  "kept v x (Ret a t) \<longleftrightarrow> v t = x" "kept v x (Exc e t) \<longleftrightarrow> v t = x" "kept v x Panic" "kept v x Diverge"
  "kept v x (retM a t) \<longleftrightarrow> v t = x" "kept v x (throwM e t) \<longleftrightarrow> v t = x" "kept v x (getM f t) \<longleftrightarrow> v t = x"
  "kept v x (modifyM g t) \<longleftrightarrow> v (g t) = x"
  by (simp_all add: kept_def retM_def throwM_def getM_def modifyM_def)

lemma kept_bind: "kept v x (m s) \<Longrightarrow> (\<And>a t. v t = x \<Longrightarrow> kept v x (f a t)) \<Longrightarrow> kept v x (bindM m f s)"
  by (cases "m s") (simp_all add: bindM_def)

lemma kept_try: "kept v x (m s) \<Longrightarrow> (\<And>e t. v t = x \<Longrightarrow> kept v x (h e t)) \<Longrightarrow> kept v x (tryM m h s)"
  by (cases "m s") (simp_all add: tryM_def)

lemma keptD: "kept v x r \<Longrightarrow> r = Ret a t \<Longrightarrow> v t = x"
  by simp

text \<open>The parts of a metadata block, of the header and of the configuration that say which collections there are and how
  the unit is laid out.\<close>

definition mbId :: "dmsMB \<Rightarrow> mbFlag \<times> string \<times> 64 word \<times> 32 word" where
  "mbId mb = (mb_flag mb, mb_collectionName mb, mb_clUniqueID mb, mb_logicalID mb)"

lemma mbId_upd [simp]:
  "mbId (mb\<lparr>mb_deleteList := a\<rparr>) = mbId mb" "mbId (mb\<lparr>mb_firstExtentID := b\<rparr>) = mbId mb" "mbId (mb\<lparr>mb_lastExtentID := b\<rparr>) = mbId mb"
  "mbId (mb\<lparr>mb_loadFirstExtentID := b\<rparr>) = mbId mb" "mbId (mb\<lparr>mb_loadLastExtentID := b\<rparr>) = mbId mb"
  "mbId (mb\<lparr>mb_mbExExtentID := b\<rparr>) = mbId mb" "mbId (mb\<lparr>mb_mbOptExtentID := b\<rparr>) = mbId mb" "mbId (syncMB st mb) = mbId mb"
  by (simp_all add: mbId_def syncMB_def)

definition mbLinks :: "dmsMB \<Rightarrow> (mbFlag \<times> string \<times> 64 word \<times> 32 word) \<times> dmsExtentID \<times> dmsExtentID \<times> dmsExtentID" where
  "mbLinks mb = (mbId mb, mb_firstExtentID mb, mb_lastExtentID mb, mb_mbExExtentID mb)"

lemma mbLinks_upd [simp]:
  "mbLinks (mb\<lparr>mb_deleteList := a\<rparr>) = mbLinks mb" "mbLinks (syncMB st mb) = mbLinks mb"
  by (simp_all add: mbLinks_def) (simp add: syncMB_def)

text \<open>The parts of an extent that do not depend on its records.\<close>

definition extId :: "dmsExtent \<Rightarrow> string \<times> nat \<times> nat \<times> 8 word \<times> dmsExtentID \<times> dmsExtentID \<times> int" where
  "extId e = (ext_eyeCatcher e, ext_blockSize e, ext_mbID e, ext_flag e, ext_prevExtent e, ext_nextExtent e, ext_logicID e)"

lemma extId_upd [simp]:
  "extId (e\<lparr>ext_freeSpace := a\<rparr>) = extId e" "extId (e\<lparr>ext_recCount := b\<rparr>) = extId e"
  "extId (e\<lparr>ext_firstRecordOffset := d\<rparr>) = extId e" "extId (e\<lparr>ext_lastRecordOffset := d\<rparr>) = extId e"
  by (simp_all add: extId_def)

definition hdId :: "dmsStorageUnitHeader \<Rightarrow> dmsStorageUnitHeader" where
  "hdId h = h\<lparr>hd_storageUnitSize := 0, hd_pageNum := 0\<rparr>"

lemma hdId_upd [simp]: "hdId (h\<lparr>hd_storageUnitSize := n\<rparr>) = hdId h" "hdId (h\<lparr>hd_pageNum := k\<rparr>) = hdId h"
  by (simp_all add: hdId_def)

section \<open>Views\<close>

text \<open>A view that does not look at the page allocator and the mapped file.\<close>

locale file_view =
  fixes v :: "dmsBlockData \<Rightarrow> 'v"
  assumes v_space [simp]: "v (s\<lparr>bd_smeMgr := a\<rparr>) = v s" "v (s\<lparr>bd_mmap := b\<rparr>) = v s" "v (s\<lparr>bd_fileSize := c\<rparr>) = v s"
      "v (s\<lparr>bd_maxSegID := d\<rparr>) = v s" "v (s\<lparr>bd_pageNum := e\<rparr>) = v s" "v (s\<lparr>bd_dirtyList := f\<rparr>) = v s"
    and v_header [simp]: "hdId g = hdId (bd_header s) \<Longrightarrow> v (s\<lparr>bd_header := g\<rparr>) = v s"
    and v_info [simp]: "v (s\<lparr>bd_info := (bd_info s)\<lparr>si_enableSparse := i\<rparr>\<rparr>) = v s"
begin

lemma kept_extendFile: "v s = x \<Longrightarrow> kept v x (extendFile env n k s)"
  unfolding extendFile_def by (rule kept_bind) (simp_all add: extendFileOnce_def Let_def)

lemma kept_mapSegments: "v s = x \<Longrightarrow> kept v x (mapSegments env n b k s)"
  by (induction n arbitrary: b k s) (auto simp: Let_def split: prod.splits)

lemma kept_extendSegments: "v s = x \<Longrightarrow> kept v x (extendSegments env n s)"
  by (auto simp: extendSegments_def truncateFile_def Let_def intro!: kept_bind kept_extendFile kept_mapSegments)

end

text \<open>A view that does not look at the caller's context either.\<close>

locale space_view = file_view v for v :: "dmsBlockData \<Rightarrow> 'v" +
  assumes v_ctx [simp]: "v (s\<lparr>bd_ctx := j\<rparr>) = v s" "v (s\<lparr>bd_mblock := k\<rparr>) = v s"
begin

lemma kept_ctx [simp]:
  "kept v x (ctxLock l s) \<longleftrightarrow> v s = x" "kept v x (ctxPause s) \<longleftrightarrow> v s = x" "kept v x (ctxResume s) \<longleftrightarrow> v s = x"
  by (simp_all add: ctxLock_def ctxPause_def ctxResume_def putCtx_def Let_def split: prod.splits)

lemma kept_findFreeSpace: "v s = x \<Longrightarrow> kept v x (findFreeSpace env fuel n b s)"
  by (induction fuel arbitrary: s) (auto simp: Let_def intro!: kept_bind kept_extendSegments split: prod.splits)

end

text \<open>A view that does not look at the records, the free lists and the counters.\<close>

locale record_view =
  fixes v :: "dmsBlockData \<Rightarrow> 'v"
  assumes v_record [simp]: "v (s\<lparr>bd_record := y\<rparr>) = v s" "v (s\<lparr>bd_mbStat := u\<rparr>) = v s" "v (s\<lparr>bd_dirtyList := f\<rparr>) = v s"
      "v (s\<lparr>bd_ctx := j\<rparr>) = v s" "v (s\<lparr>bd_mblock := k\<rparr>) = v s"
    and v_extent: "(\<And>e. extId (x e) = extId (bd_extent s e)) \<Longrightarrow> v (s\<lparr>bd_extent := x\<rparr>) = v s"
    and v_links: "(\<And>i. mbLinks (m i) = mbLinks (bd_mb s i)) \<Longrightarrow> v (s\<lparr>bd_mb := m\<rparr>) = v s"
begin

lemma v_set_record [simp]:
  "v (setRecord r g s) = v s" "v (setStat i h s) = v s" "(\<And>x. extId (q x) = extId x) \<Longrightarrow> v (setExtent e q s) = v s"
  "(\<And>mb. mbLinks (p mb) = mbLinks mb) \<Longrightarrow> v (setMB i p s) = v s"
  by (simp_all add: set_defs v_extent v_links)

lemma v_sync [simp]: "v (syncMemToMmap s) = v s"
  by (simp add: syncMemToMmap_def v_links)

lemma v_mark [simp]: "v (markDirty c e st s) = v s"
  by (simp add: markDirty_def markHeaderInvalid_def onMarkHeaderInvalid_def flushMME_def flushSegment_def Let_def)

lemma kept_withRW: "kept v x (m s) \<Longrightarrow> kept v x (withRW c e m s)"
  by (simp add: kept_def withRW_def split: outcome.splits)

lemma kept_ptr [simp]:
  "kept v x (extReadPtr e b s) \<longleftrightarrow> v s = x" "kept v x (extWritePtr c e b s) \<longleftrightarrow> v s = x"
  "kept v x (recReadPtr r n b s) \<longleftrightarrow> v s = x" "kept v x (recWritePtr c r n b s) \<longleftrightarrow> v s = x"
  by (simp_all add: extReadPtr_def extWritePtr_def recReadPtr_def recWritePtr_def)

lemma kept_upd_record [simp]:
  "kept v x (updRecord r g s) \<longleftrightarrow> v s = x" "kept v x (updStat i h s) \<longleftrightarrow> v s = x"
  "(\<And>y. extId (q y) = extId y) \<Longrightarrow> kept v x (updExtent e q s) \<longleftrightarrow> v s = x"
  "(\<And>mb. mbLinks (p mb) = mbLinks mb) \<Longrightarrow> kept v x (updMB i p s) \<longleftrightarrow> v s = x"
  by (simp_all add: updExtent_def updRecord_def updStat_def updMB_def)

lemma kept_lock [simp]: "kept v x (ctxLock l s) \<longleftrightarrow> v s = x"
  by (simp add: ctxLock_def putCtx_def Let_def split: prod.splits)

lemmas kept_rules = kept_bind kept_try kept_withRW

lemma v_saveState [simp]: "v (saveState c r n s) = v s"
  by (simp add: saveState_def Let_def v_links v_extent)

lemma kept_saveDeletedRecord: "v s = x \<Longrightarrow> kept v x (saveDeletedRecord c r n s)"
  by (auto simp: saveDeletedRecord_def saveDeletedRecordAt_def intro!: kept_rules)

lemma kept_savePiece: "v s = x \<Longrightarrow> kept v x (savePiece c r n s)"
  by (auto simp: savePiece_def saveDeletedRecordAt_def intro!: kept_rules)

lemma kept_mapPieces: "v s = x \<Longrightarrow> kept v x (mapPieces c e d n k s)"
proof (induction c e d n k arbitrary: s rule: mapPieces.induct)
  case (1 c e d n k)
  then show ?case by (subst mapPieces.simps) (auto intro!: kept_bind kept_savePiece)
qed

lemma kept_mapExtent2DelList: "v s = x \<Longrightarrow> kept v x (mapExtent2DelList c e s)"
  by (auto simp: mapExtent2DelList_def Let_def intro!: kept_bind kept_mapPieces kept_savePiece split: prod.splits)

lemma kept_searchSlot: "v s = x \<Longrightarrow> kept v x (searchSlot c n j k p r s)"
  by (induction k arbitrary: p r s) (auto simp: Let_def intro!: kept_rules split: option.splits)

lemma kept_searchSlots: "v s = x \<Longrightarrow> kept v x (searchSlots c n js s)"
  by (induction js arbitrary: s) (auto intro!: kept_bind kept_searchSlot split: option.splits)

lemma kept_fillRecord: "v s = x \<Longrightarrow> kept v x (fillRecord c r rd n b s)"
  by (auto simp: fillRecord_def appendRecord_def Let_def intro!: kept_rules kept_saveDeletedRecord)

lemma kept_extentInsertRecord: "v s = x \<Longrightarrow> kept v x (extentInsertRecord r rd n b s)"
  by (auto simp: extentInsertRecord_def intro!: kept_bind kept_withRW kept_fillRecord)

end

text \<open>A view that looks neither at the space nor at the pages.\<close>

locale unit_view = space_view v for v :: "dmsBlockData \<Rightarrow> 'v" +
  assumes v_stores [simp]: "v (s\<lparr>bd_extent := x\<rparr>) = v s" "v (s\<lparr>bd_record := y\<rparr>) = v s" "v (s\<lparr>bd_metaExt := z\<rparr>) = v s"
      "v (s\<lparr>bd_mbStat := u\<rparr>) = v s" "v (s\<lparr>bd_vecContext := l\<rparr>) = v s"
    and v_mb: "(\<And>i. mbId (m i) = mbId (bd_mb s i)) \<Longrightarrow> v (s\<lparr>bd_mb := m\<rparr>) = v s"

sublocale unit_view \<subseteq> record_view
  by unfold_locales (simp_all add: v_mb mbLinks_def)

context unit_view
begin

lemma kept_upd [simp]:
  "kept v x (updExtent e f s) \<longleftrightarrow> v s = x" "kept v x (updMetaExt e h s) \<longleftrightarrow> v s = x"
  "(\<And>mb. mbId (q mb) = mbId mb) \<Longrightarrow> kept v x (updMB i q s) \<longleftrightarrow> v s = x"
  by (simp_all add: updExtent_def updMetaExt_def updMB_def set_defs v_mb)

lemma kept_enterSegment: "v s = x \<Longrightarrow> kept v x (enterSegment c n e s)"
  by (auto simp: enterSegment_def Let_def intro!: kept_bind split: prod.splits option.splits)

lemma kept_linkExtent: "v s = x \<Longrightarrow> kept v x (linkExtent c e p s)"
  by (auto simp: linkExtent_def linkNext_def intro!: kept_rules split: option.splits)

lemma kept_addExtent2Meta: "v s = x \<Longrightarrow> kept v x (addExtent2Meta e s)"
  by (auto simp: addExtent2Meta_def Let_def intro!: kept_bind kept_withRW kept_enterSegment kept_linkExtent)

lemma kept_initExtent: "v s = x \<Longrightarrow> kept v x (initExtent c n e d b s)"
  by (auto simp: initExtent_def appendLoadList_def Let_def intro!: kept_rules kept_addExtent2Meta kept_mapExtent2DelList)

lemma kept_allocateExtent: "v s = x \<Longrightarrow> kept v x (allocateExtent env fuel n d b s)"
  by (auto simp: allocateExtent_def intro!: kept_bind kept_findFreeSpace kept_initExtent split: prod.splits)

lemma kept_allocRetry: "v s = x \<Longrightarrow> kept v x (allocRetry env fuel n s)"
  by (induction fuel arbitrary: s) (auto simp: Let_def intro!: kept_bind kept_try kept_searchSlots kept_allocateExtent split: prod.splits)

lemma kept_insertRecord: "v s = x \<Longrightarrow> kept v x (insertRecord env ie fuel rcd q p s)"
  by (auto simp: insertRecord_def insertTry_def allocRecordSpace_def allocRecordSpaceByPos_def Let_def
      intro!: kept_bind kept_try kept_extentInsertRecord kept_allocRetry split: option.splits prod.splits)

lemma kept_releaseMBContext: "v s = x \<Longrightarrow> kept v x (releaseMBContext s)"
  by (simp add: releaseMBContext_def split: prod.splits)

lemma kept_getMBContext: "v s = x \<Longrightarrow> kept v x (getMBContext b n l k t s)"
  by (auto simp: getMBContext_def Let_def intro!: kept_bind kept_releaseMBContext)

lemma kept_finishCollection: "v s = x \<Longrightarrow> kept v x (finishCollection env fuel c n s)"
  by (auto simp: finishCollection_def flushMeta_def Let_def
      intro!: kept_bind kept_getMBContext kept_allocateExtent kept_releaseMBContext split: prod.splits)

end

section \<open>The views of the model\<close>

text \<open>The pages and metadata blocks, which growing the file does not touch.\<close>

definition pagesView :: "dmsBlockData \<Rightarrow> (dmsExtentID \<Rightarrow> dmsExtent) \<times> (dmsRecordID \<Rightarrow> dmsRecord) \<times> (dmsExtentID \<Rightarrow> dmsMetaExtent)
    \<times> (nat \<Rightarrow> dmsMB) \<times> (nat \<Rightarrow> dmsMBStatInfo)" where
  "pagesView s = (bd_extent s, bd_record s, bd_metaExt s, bd_mb s, bd_mbStat s)"

text \<open>Page size, segment size and where the data segments begin.\<close>

definition geometry :: "dmsBlockData \<Rightarrow> nat \<times> nat \<times> nat \<times> nat \<times> nat" where
  "geometry s = (bd_pageSize s, bd_pageSizeSquare s, bd_segmentPages s, bd_segmentPagesSquare s, bd_dataSegID s)"

text \<open>The collections: the two maps, the identity of every metadata block, the counters of the header.\<close>

definition catView :: "dmsBlockData \<Rightarrow> (string \<Rightarrow> nat option) \<times> (64 word \<Rightarrow> nat option)
    \<times> (nat \<Rightarrow> mbFlag \<times> string \<times> 64 word \<times> 32 word) \<times> nat \<times> 32 word" where
  "catView s = (bd_nameMap s, bd_idMap s, (\<lambda>i. mbId (bd_mb s i)), hd_numMB (bd_header s), hd_MBHWM (bd_header s))"

lemma hdId_eqD:
  assumes "hdId g = hdId h"
  shows "hd_numMB g = hd_numMB h" "hd_MBHWM g = hd_MBHWM h"
  using arg_cong [OF assms, of hd_numMB] arg_cong [OF assms, of hd_MBHWM] by (simp_all add: hdId_def)

text \<open>The context and the latches, which growing the file does not touch either.\<close>

definition lockView :: "dmsBlockData \<Rightarrow> dmsMBContext \<times> (nat \<Rightarrow> ossSpinSLatch) \<times> (nat \<Rightarrow> dmsMB)" where
  "lockView s = (bd_ctx s, bd_mblock s, bd_mb s)"

text \<open>The space, the extents and their links, which operations on records do not touch.\<close>

definition structView :: "dmsBlockData \<Rightarrow> (dmsSMEMgr \<times> dmsStorageUnitHeader \<times> ossMmapFile \<times> int) \<times> (nat \<times> nat \<times> nat \<times> nat)
    \<times> (dmsExtentID \<Rightarrow> dmsMetaExtent) \<times> (dmsExtentID \<Rightarrow> string \<times> nat \<times> nat \<times> 8 word \<times> dmsExtentID \<times> dmsExtentID \<times> int)
    \<times> (nat \<Rightarrow> (mbFlag \<times> string \<times> 64 word \<times> 32 word) \<times> dmsExtentID \<times> dmsExtentID \<times> dmsExtentID)" where
  "structView s = ((bd_smeMgr s, bd_header s, bd_mmap s, bd_maxSegID s),
     (bd_segmentPages s, bd_segmentPagesSquare s, bd_pageSizeSquare s, bd_dataSegID s), bd_metaExt s,
     (\<lambda>e. extId (bd_extent s e)), (\<lambda>i. mbLinks (bd_mb s i)))"

interpretation struct: record_view structView
  by unfold_locales (simp_all add: structView_def)

interpretation locks: file_view lockView
  by unfold_locales (simp_all add: lockView_def)

interpretation pages: space_view pagesView
  by unfold_locales (simp_all add: pagesView_def)

interpretation geo: unit_view geometry
  by unfold_locales (simp_all add: geometry_def)

interpretation cat: unit_view catView
  by unfold_locales (auto simp: catView_def dest: hdId_eqD)

end
