(* ===== verification/Dms_SMEMgr_Spec.thy ===== *)
theory Dms_SMEMgr_Spec
  imports Dms_SMEMgr
begin

text \<open>
  The page allocator seen from outside: the state machine whose steps are the public calls of
  \<open>_dmsSMEMgr\<close> in any order (a storage unit serialises them with its latches), the invariant of
  its reachable states, and the properties of the single calls.  \<open>demoMgr\<close> is a small concrete
  manager, two segments of four pages with one page in use, on which the properties are
  instantiated.
\<close>

section \<open>Every call on every argument\<close>

lemma one_segment_of_range:
  assumes "u32 (p div 2 ^ sq) < smeMgr_segmentNum mgr"
    and "int (u32 (p div 2 ^ sq)) * 2 ^ sq \<le> p"
    and "p + int n \<le> (int (u32 (p div 2 ^ sq)) + 1) * 2 ^ sq"
    and small: "smeMgr_segmentNum mgr < 4294967295"
  shows "in_one_segment sq p n mgr"
proof -
  define k where "k = u32 (p div 2 ^ sq)"
  have a: "int k * 2 ^ sq \<le> p" "p + int n \<le> (int k + 1) * 2 ^ sq" "k < smeMgr_segmentNum mgr"
    using assms by (simp_all add: k_def)
  have "p div 2 ^ sq \<noteq> int k + 1"
  proof
    assume "p div 2 ^ sq = int k + 1"
    then have "k = u32 (int k + 1)" by (metis k_def)
    with small a(3) show False by (simp add: cast_simps)
  qed
  moreover have "int k \<le> p div 2 ^ sq" using div_mult_mod_eq [of p "2 ^ sq"] a(1)
    by (metis zdiv_mono1 nonzero_mult_div_cancel_right power_eq_0_iff zero_less_numeral zero_less_power zero_neq_numeral)
  moreover have "p div 2 ^ sq \<le> int k + 1"
  proof -
    have "p \<le> (int k + 1) * 2 ^ sq" using a(2) by linarith
    then have "p div 2 ^ sq \<le> (int k + 1) * 2 ^ sq div 2 ^ sq" by (intro zdiv_mono1) auto
    then show ?thesis by simp
  qed
  ultimately have div: "p div 2 ^ sq = int k" by linarith
  have "0 \<le> p" using a(1) by (meson mult_nonneg_nonneg of_nat_0_le_iff order_trans
        zero_le_numeral zero_le_power)
  with div show ?thesis using a by (simp add: in_one_segment_def)
qed

lemma smeMgr_releasePages_outside:
  assumes inv: "mgr_inv sq mgr" and out: "\<not> in_one_segment sq p n mgr"
  shows "smeMgr_releasePages sq p n mgr = (SDB_SYS, mgr)"
proof (cases "u32 (p div 2 ^ sq) < smeMgr_segmentNum mgr")
  case True
  let ?k = "u32 (p div 2 ^ sq)"
  note I = mgr_invD [OF inv]
  have "smeMgr_segmentNum mgr < 4294967295"
    using segs_length_le [OF I(1)] by (simp add: smeMgr_segmentNum_def)
  with one_segment_of_range [OF True] out
  have "\<not> (int ?k * 2 ^ sq \<le> p \<and> p + int n \<le> (int ?k + 1) * 2 ^ sq)" by blast
  moreover have "?k < length (mgr_segments mgr)" using True by (simp add: smeMgr_segmentNum_def)
  ultimately show ?thesis
    using segs_invD [OF I(1), of ?k]
    by (auto simp: smeMgr_releasePages_def seg_releasePages_def Let_def algebra_simps)
next
  case False
  then show ?thesis by (simp add: smeMgr_releasePages_def smeMgr_segmentNum_def)
qed

text \<open>The pages after the last segment are clear, so that the next segment can be deposited.\<close>

definition tail_clear :: "nat \<Rightarrow> dmsSMEMgr \<Rightarrow> bool" where
  "tail_clear sq mgr \<longleftrightarrow>
     (\<forall>p \<ge> smeMgr_segmentNum mgr * 2 ^ sq. getBitMask (sh_pSME (mgr_shared mgr)) p = DMS_SME_FREE)"

lemma reserve_keeps_tail:
  assumes inv: "mgr_inv sq mgr" and tail: "tail_clear sq mgr" and n: "0 < n"
    and call: "smeMgr_reservePages n mgr = (rc, p, k, mgr')"
  shows "tail_clear sq mgr'"
  using smeMgr_reservePages_cases [OF inv n]
proof (elim disjE exE conjE)
  fix j q m assume c: "smeMgr_reservePages n mgr = (SDB_OK, q, smeMgr_segmentNum mgr, m)"
    and j: "j < smeMgr_segmentNum mgr" "int j * 2 ^ sq \<le> q" "q + int n \<le> (int j + 1) * 2 ^ sq"
    and m: "smeMgr_segmentNum m = smeMgr_segmentNum mgr"
      "sh_pSME (mgr_shared m) = setBits (nat q) n (sh_pSME (mgr_shared mgr))"
  have q0: "0 \<le> q" using j(2) by (meson mult_nonneg_nonneg of_nat_0_le_iff order_trans
        zero_le_numeral zero_le_power)
  have "(int j + 1) * 2 ^ sq \<le> int (smeMgr_segmentNum mgr) * 2 ^ sq"
    using j(1) by (intro mult_right_mono) auto
  then have "q + int n \<le> int (smeMgr_segmentNum mgr) * 2 ^ sq" using j(3) by linarith
  then have "q + int n \<le> int (smeMgr_segmentNum mgr * 2 ^ sq)" by simp
  then have "nat q + n \<le> smeMgr_segmentNum mgr * 2 ^ sq" using q0 by linarith
  then show ?thesis using c call tail m by (auto simp: tail_clear_def)
next
  fix m assume "smeMgr_reservePages n mgr = (SDB_OK, DMS_INVALID_EXTENT, smeMgr_segmentNum mgr, m)"
    "mgr_segments m = mgr_segments mgr" "sh_pSME (mgr_shared m) = sh_pSME (mgr_shared mgr)"
  then show ?thesis using call tail by (simp add: tail_clear_def smeMgr_segmentNum_def)
qed

lemma release_cases:
  assumes inv: "mgr_inv sq mgr"
  obtains (ok) mgr' where "in_one_segment sq p n mgr" and "pageRun p n \<inter> mgr_free mgr = {}"
      and "smeMgr_releasePages sq p n mgr = (SDB_OK, mgr')" and "mgr_inv sq mgr'"
      and "mgr_free mgr' = mgr_free mgr \<union> pageRun p n"
      and "smeMgr_segmentNum mgr' = smeMgr_segmentNum mgr"
      and "sh_pSME (mgr_shared mgr') = freeBits (nat p) n (sh_pSME (mgr_shared mgr))"
    | (refused) "\<not> (in_one_segment sq p n mgr \<and> pageRun p n \<inter> mgr_free mgr = {})"
      and "smeMgr_releasePages sq p n mgr = (SDB_SYS, mgr)"
proof (cases "in_one_segment sq p n mgr \<and> pageRun p n \<inter> mgr_free mgr = {}")
  case True
  with smeMgr_releasePages_ok [OF inv] ok show thesis by metis
next
  case False
  with smeMgr_releasePages_outside [OF inv] smeMgr_releasePages_overlap [OF inv] refused
  show thesis by metis
qed

lemma block_of_one_segment:
  assumes inv: "mgr_inv sq mgr" and n: "0 < n" and one: "in_one_segment sq p n mgr"
    and sub: "pageRun p n \<subseteq> mgr_free mgr"
  shows "\<exists>ss \<in> set (mgr_segments mgr). pageRun p n \<subseteq> seg_free ss"
proof -
  note I = mgr_invD [OF inv]
  define k where "k = nat (p div 2 ^ sq)"
  have k: "int k = p div 2 ^ sq" "k < length (mgr_segments mgr)"
    using one by (auto simp: k_def in_one_segment_def smeMgr_segmentNum_def pos_imp_zdiv_nonneg_iff nat_less_iff)
  have "q \<in> seg_free (mgr_segments mgr ! k)" if q: "q \<in> pageRun p n" for q
  proof -
    obtain j where j: "j < length (mgr_segments mgr)" "q \<in> seg_free (mgr_segments mgr ! j)"
      using sub q by (auto simp: mgr_free_def segs_free_nth)
    have "q div 2 ^ sq = p div 2 ^ sq"
    proof (rule antisym)
      have "q < (p div 2 ^ sq + 1) * 2 ^ sq" using q one by (auto simp: in_one_segment_def)
      moreover have "(q div 2 ^ sq) * 2 ^ sq \<le> q" by (simp add: minus_mod_eq_div_mult [symmetric])
      ultimately have "(q div 2 ^ sq) * 2 ^ sq < (p div 2 ^ sq + 1) * 2 ^ sq" by linarith
      then have "q div 2 ^ sq < p div 2 ^ sq + 1" by (rule mult_right_less_imp_less) simp
      then show "q div 2 ^ sq \<le> p div 2 ^ sq" by simp
      show "p div 2 ^ sq \<le> q div 2 ^ sq" using q by (intro zdiv_mono1) auto
    qed
    then have "j = k" using seg_slot_div [OF I(1) j] k(1) by simp
    with j show ?thesis by simp
  qed
  then show ?thesis using k(2) nth_mem by blast
qed

section \<open>The allocator as a state machine\<close>

text \<open>
  The states a manager can reach: a successful \<open>init\<close> on a bitmap that is clear after the
  existing segments, then any sequence of calls.  \<open>releasePages\<close> may be called with any
  arguments, also wrong ones; a new segment is deposited at the end of the file, as
  \<open>_extendSegments\<close> does.
\<close>

inductive sme_reach :: "nat \<Rightarrow> dmsSMEMgr \<Rightarrow> bool" for sq where
  reach_init: "sq \<le> 15 \<Longrightarrow> M * 2 ^ sq \<le> DMS_MAX_PG
    \<Longrightarrow> (\<forall>p \<ge> M * 2 ^ sq. getBitMask m p = DMS_SME_FREE)
    \<Longrightarrow> smeMgr_init (\<lambda>_. True) sq (M * 2 ^ sq) (smeMgr_new m) = (rc, mgr) \<Longrightarrow> sme_reach sq mgr"
| reach_reserve: "sme_reach sq mgr \<Longrightarrow> 0 < n
    \<Longrightarrow> smeMgr_reservePages n mgr = (rc, p, k, mgr') \<Longrightarrow> sme_reach sq mgr'"
| reach_release: "sme_reach sq mgr
    \<Longrightarrow> smeMgr_releasePages sq p n mgr = (rc, mgr') \<Longrightarrow> sme_reach sq mgr'"
| reach_deposit: "sme_reach sq mgr \<Longrightarrow> Suc (smeMgr_segmentNum mgr) * 2 ^ sq \<le> DMS_MAX_PG
    \<Longrightarrow> smeMgr_depositASegment newOk sq (int (smeMgr_segmentNum mgr) * 2 ^ sq) mgr = (rc, mgr')
    \<Longrightarrow> sme_reach sq mgr'"

lemma deposit_keeps:
  assumes inv: "mgr_inv sq mgr" and tail: "tail_clear sq mgr"
    and room: "Suc (smeMgr_segmentNum mgr) * 2 ^ sq \<le> DMS_MAX_PG"
    and call: "smeMgr_depositASegment newOk sq (int (smeMgr_segmentNum mgr) * 2 ^ sq) mgr = (rc, mgr')"
  shows "mgr_inv sq mgr' \<and> tail_clear sq mgr'"
proof (cases newOk)
  case True
  let ?start = "int (smeMgr_segmentNum mgr) * 2 ^ sq"
  have "getBitMask (sh_pSME (mgr_shared mgr)) p = DMS_SME_FREE" if "?start \<le> int p" for p
  proof -
    have "int (smeMgr_segmentNum mgr * 2 ^ sq) \<le> int p" using that by simp
    then show ?thesis using tail by (simp only: of_nat_le_iff tail_clear_def)
  qed
  with smeMgr_depositASegment_ok [OF inv refl room] obtain m where
    m: "smeMgr_depositASegment True sq ?start mgr = (SDB_OK, m)" "mgr_inv sq m"
      "smeMgr_segmentNum m = Suc (smeMgr_segmentNum mgr)"
      "sh_pSME (mgr_shared m) = sh_pSME (mgr_shared mgr)"
    by metis
  with call True tail show ?thesis by (simp add: tail_clear_def)
next
  case False
  then have "mgr' = mgr" using call by (auto simp: smeMgr_depositASegment_def Let_def split: if_splits)
  with inv tail show ?thesis by simp
qed

lemma sme_reach_inv: "sme_reach sq mgr \<Longrightarrow> mgr_inv sq mgr \<and> tail_clear sq mgr"
proof (induction rule: sme_reach.induct)
  case (reach_init M m rc mgr)
  from smeMgr_init_ok [OF reach_init(1,2), of m] reach_init(3,4)
  show ?case by (auto simp: tail_clear_def)
next
  case (reach_reserve mgr n rc p k mgr')
  then show ?case using sme_alloc.reserve_rc reserve_keeps_tail by blast
next
  case (reach_release mgr p n rc mgr')
  from reach_release.IH have "mgr_inv sq mgr" by simp
  then show ?case using reach_release
    by (cases rule: release_cases [of sq mgr p n]) (auto simp: tail_clear_def)
next
  case (reach_deposit mgr newOk rc mgr')
  then show ?case using deposit_keeps by blast
qed

lemma mgr_free_clearBits: "mgr_inv sq mgr \<Longrightarrow>
  mgr_free mgr = clearBits (sh_pSME (mgr_shared mgr)) (smeMgr_segmentNum mgr * 2 ^ sq)"
proof -
  assume inv: "mgr_inv sq mgr"
  note I = mgr_invD [OF inv]
  let ?n = "smeMgr_segmentNum mgr * 2 ^ sq"
  have bits: "int q \<in> mgr_free mgr \<longleftrightarrow> getBitMask (sh_pSME (mgr_shared mgr)) q = 0" if "q < ?n" for q
    using I(4) that by (simp add: sme_agrees_def smeMgr_segmentNum_def)
  have "\<exists>q < ?n. p = int q" if "p \<in> mgr_free mgr" for p
  proof (intro exI [of _ "nat p"] conjI)
    have "0 \<le> p \<and> p < int ?n"
      using segs_free_range [OF I(1)] that unfolding mgr_free_def smeMgr_segmentNum_def by blast
    then show "nat p < ?n" and "p = int (nat p)" by linarith+
  qed
  with bits show ?thesis unfolding clearBits_def by blast
qed

section \<open>A concrete manager\<close>

definition demoSme :: sme where
  "demoSme = setBitMask 1 sme_new"

definition demoMgr :: dmsSMEMgr where
  "demoMgr =
     \<lparr> mgr_segments =
         [ \<lparr> ss_freeSpaceList = [0x00000001, 0x00020002], ss_maxNode = 2, ss_startExtent = 0,
             ss_totalSize = 4, ss_totalFree = 3 \<rparr>,
           \<lparr> ss_freeSpaceList = [0x00000004], ss_maxNode = 4, ss_startExtent = 4,
             ss_totalSize = 4, ss_totalFree = 4 \<rparr> ],
       mgr_shared = \<lparr> sh_pSME = demoSme, sh_totalFree = 7, sh_freePos = 0 \<rparr> \<rparr>"

lemmas node_eval = DMS_SEGMENT_NODE_GETSTART_def DMS_SEGMENT_NODE_GETSIZE_def

lemma demoMgr_free: "mgr_free demoMgr = {0, 2, 3, 4, 5, 6, 7}"
proof -
  have "seg_free (mgr_segments demoMgr ! 0) = {0, 2, 3}"
    by (auto simp: demoMgr_def seg_free_def run_pages_def node_eval image_iff)
  moreover have "seg_free (mgr_segments demoMgr ! 1) = {4, 5, 6, 7}"
    by (auto simp: demoMgr_def seg_free_def run_pages_def node_eval image_iff)
  ultimately show ?thesis by (auto simp: mgr_free_def segs_free_def demoMgr_def)
qed

lemma demoMgr_inv: "mgr_inv 2 demoMgr"
proof -
  have "segs_inv 2 (mgr_segments demoMgr)"
    by (simp add: segs_inv_def demoMgr_def seg_inv_def run_max_def run_total_def node_eval
        all_less_two)
  moreover have "sme_agrees 8 (sh_pSME (mgr_shared demoMgr)) (mgr_free demoMgr)"
    unfolding demoMgr_free by (auto simp: sme_agrees_def demoMgr_def demoSme_def)
  ultimately show ?thesis
    by (simp add: mgr_inv_def freePos_ok_def segs_total_def demoMgr_def)
qed

section \<open>Properties\<close>

text \<open>C4: \<open>reservePages\<close> always returns \<open>SDB_OK\<close>.  Either it grants a block: all its pages were
  free, it lies inside one segment, exactly these pages leave the free set and their bits are set
  in the bitmap; or it reports \<open>DMS_INVALID_EXTENT\<close>, the free pages are unchanged, and no segment
  has a block of that length.  The invariant is kept in both cases.\<close>

theorem reservePages_correct:
  assumes "mgr_inv sq mgr" and "0 < n"
  shows "(\<exists>p mgr'. smeMgr_reservePages n mgr = (SDB_OK, p, smeMgr_segmentNum mgr, mgr')
        \<and> mgr_inv sq mgr' \<and> in_one_segment sq p n mgr \<and> pageRun p n \<subseteq> mgr_free mgr
        \<and> mgr_free mgr' = mgr_free mgr - pageRun p n
        \<and> sh_pSME (mgr_shared mgr') = setBits (nat p) n (sh_pSME (mgr_shared mgr)))
    \<or> (\<exists>mgr'. smeMgr_reservePages n mgr = (SDB_OK, DMS_INVALID_EXTENT, smeMgr_segmentNum mgr, mgr')
        \<and> mgr_inv sq mgr' \<and> mgr_free mgr' = mgr_free mgr
        \<and> (\<nexists>p. in_one_segment sq p n mgr \<and> pageRun p n \<subseteq> mgr_free mgr))"
proof -
  have none: "\<nexists>p. in_one_segment sq p n mgr \<and> pageRun p n \<subseteq> mgr_free mgr"
    if "\<forall>ss \<in> set (mgr_segments mgr). \<nexists>p. pageRun p n \<subseteq> seg_free ss"
    using that assms block_of_one_segment by blast
  from smeMgr_reservePages_cases [OF assms] none assms(2) in_one_segmentI show ?thesis
    by (elim disjE exE conjE) (auto simp: mgr_free_def)
qed

theorem reservePages_correct_witness:
  "mgr_inv 2 demoMgr \<and> fst (snd (smeMgr_reservePages 3 demoMgr)) = 4
    \<and> mgr_free (snd (snd (snd (smeMgr_reservePages 3 demoMgr)))) = mgr_free demoMgr - pageRun 4 3"
proof -
  have "fst (snd (smeMgr_reservePages 3 demoMgr)) = 4" by code_simp
  with reservePages_correct [OF demoMgr_inv, of 3] demoMgr_inv show ?thesis by auto
qed

text \<open>C5: \<open>releasePages\<close> on any arguments.  A block that lies in one segment and has no free page
  is put back: exactly its pages join the free set and their bits are cleared.  Every other call
  (outside the segments, across a segment border, or freeing a page twice) returns \<open>SDB_SYS\<close> and
  leaves the manager and the bitmap untouched.\<close>

theorem releasePages_correct:
  assumes "mgr_inv sq mgr"
  shows "if in_one_segment sq p n mgr \<and> pageRun p n \<inter> mgr_free mgr = {}
    then \<exists>mgr'. smeMgr_releasePages sq p n mgr = (SDB_OK, mgr') \<and> mgr_inv sq mgr'
      \<and> mgr_free mgr' = mgr_free mgr \<union> pageRun p n
      \<and> sh_pSME (mgr_shared mgr') = freeBits (nat p) n (sh_pSME (mgr_shared mgr))
    else smeMgr_releasePages sq p n mgr = (SDB_SYS, mgr)"
  using assms by (cases rule: release_cases [of sq mgr p n]) auto

theorem releasePages_correct_witness:
  "mgr_inv 2 demoMgr \<and> (\<exists>mgr'. smeMgr_releasePages 2 1 1 demoMgr = (SDB_OK, mgr')
      \<and> mgr_free mgr' = {0, 1, 2, 3, 4, 5, 6, 7})
    \<and> smeMgr_releasePages 2 1 2 demoMgr = (SDB_SYS, demoMgr)"
proof -
  have "in_one_segment 2 1 1 demoMgr" by (simp add: in_one_segment_def smeMgr_segmentNum_def demoMgr_def)
  moreover have "pageRun 1 1 \<inter> mgr_free demoMgr = {}" "mgr_free demoMgr \<union> pageRun 1 1 = {0, 1, 2, 3, 4, 5, 6, 7}"
    by (auto simp: demoMgr_free)
  moreover have "pageRun 1 2 \<inter> mgr_free demoMgr \<noteq> {}"
    unfolding demoMgr_free by (auto intro: exI [of _ 2])
  ultimately show ?thesis
    using releasePages_correct [OF demoMgr_inv, of 1 1] releasePages_correct [OF demoMgr_inv, of 1 2]
      demoMgr_inv by auto
qed

text \<open>C33: \<open>init\<close> on any bitmap, whatever pages are in use: it succeeds, builds one segment space
  per segment, and the free pages of the manager are exactly the clear bits of the bitmap.\<close>

theorem init_rebuilds_free_space:
  assumes "sq \<le> 15" and "M * 2 ^ sq \<le> DMS_MAX_PG"
  shows "\<exists>mgr. smeMgr_init (\<lambda>_. True) sq (M * 2 ^ sq) (smeMgr_new m) = (SDB_OK, mgr)
    \<and> mgr_inv sq mgr \<and> smeMgr_segmentNum mgr = M \<and> sh_pSME (mgr_shared mgr) = m
    \<and> mgr_free mgr = {int p | p. p < M * 2 ^ sq \<and> getBitMask m p = DMS_SME_FREE}"
  by (rule smeMgr_init_ok [OF assms, of m], rule exI) (simp add: clearBits_def setcompr_eq_image)

theorem init_rebuilds_free_space_witness:
  "snd (smeMgr_init (\<lambda>_. True) 2 8 (smeMgr_new demoSme)) = demoMgr
    \<and> mgr_free demoMgr = {int p | p. p < 8 \<and> getBitMask demoSme p = DMS_SME_FREE}"
proof -
  have "mgr_segments (snd (smeMgr_init (\<lambda>_. True) 2 8 (smeMgr_new demoSme))) = mgr_segments demoMgr"
    "sh_totalFree (mgr_shared (snd (smeMgr_init (\<lambda>_. True) 2 8 (smeMgr_new demoSme)))) = 7"
    "sh_freePos (mgr_shared (snd (smeMgr_init (\<lambda>_. True) 2 8 (smeMgr_new demoSme)))) = 0"
    by code_simp+
  moreover have "sh_pSME (mgr_shared (snd (smeMgr_init (\<lambda>_. True) 2 8 (smeMgr_new demoSme)))) = demoSme"
    using init_rebuilds_free_space [of 2 2 demoSme] by auto
  ultimately have "snd (smeMgr_init (\<lambda>_. True) 2 8 (smeMgr_new demoSme)) = demoMgr"
    by (intro dmsSMEMgr.equality smeShared.equality) (simp_all add: demoMgr_def)
  with init_rebuilds_free_space [of 2 2 demoSme] show ?thesis by auto
qed

text \<open>C32: in every state reachable by any sequence of allocator calls, the run lists and the
  bitmap agree page by page, and \<open>totalFree()\<close> is the number of clear bits of the existing
  segments (the check that the source has commented out in \<open>totalFree\<close>).\<close>

theorem reachable_totalFree_counts_clear_bits:
  assumes "sme_reach sq mgr"
  shows "mgr_free mgr = {int p | p. p < smeMgr_segmentNum mgr * 2 ^ sq
        \<and> getBitMask (sh_pSME (mgr_shared mgr)) p = DMS_SME_FREE}
    \<and> smeMgr_totalFree mgr = card {p. p < smeMgr_segmentNum mgr * 2 ^ sq
        \<and> getBitMask (sh_pSME (mgr_shared mgr)) p = DMS_SME_FREE}"
proof -
  have inv: "mgr_inv sq mgr" using sme_reach_inv [OF assms] by simp
  note I = mgr_invD [OF inv]
  have "smeMgr_totalFree mgr = card (mgr_free mgr)"
    using I(3) card_segs_free [OF I(1)] by (simp add: smeMgr_totalFree_def mgr_free_def)
  then show ?thesis
    using mgr_free_clearBits [OF inv] by (simp add: clearBits_def setcompr_eq_image card_image)
qed

theorem reachable_totalFree_counts_clear_bits_witness:
  "\<exists>mgr. sme_reach 2 mgr \<and> smeMgr_totalFree mgr = card {p. p < smeMgr_segmentNum mgr * 2 ^ 2
        \<and> getBitMask (sh_pSME (mgr_shared mgr)) p = DMS_SME_FREE}"
proof -
  obtain rc mgr where "smeMgr_init (\<lambda>_. True) 2 (2 * 2 ^ 2) (smeMgr_new demoSme) = (rc, mgr)" by fastforce
  then have "sme_reach 2 mgr" by (rule reach_init [rotated 3]) (auto simp: demoSme_def)
  with reachable_totalFree_counts_clear_bits [of 2 mgr] show ?thesis by blast
qed

text \<open>Two blocks granted one after the other, without a release in between, never share a
  page.\<close>

theorem granted_blocks_disjoint:
  assumes "mgr_inv sq mgr" and "0 < n" and "0 < n'"
    and "smeMgr_reservePages n mgr = (rc, p, k, mgr1)" and "p \<noteq> DMS_INVALID_EXTENT"
    and "smeMgr_reservePages n' mgr1 = (rc', p', k', mgr2)" and "p' \<noteq> DMS_INVALID_EXTENT"
  shows "pageRun p n \<inter> pageRun p' n' = {}"
  using assms by (rule sme_alloc.two_blocks_disjoint)

theorem granted_blocks_disjoint_witness:
  "fst (snd (smeMgr_reservePages 2 demoMgr)) = 2
    \<and> fst (snd (smeMgr_reservePages 4 (snd (snd (snd (smeMgr_reservePages 2 demoMgr)))))) = 4
    \<and> pageRun 2 2 \<inter> pageRun 4 4 = {}"
proof -
  have e: "fst (snd (smeMgr_reservePages 2 demoMgr)) = 2"
    "fst (snd (smeMgr_reservePages 4 (snd (snd (snd (smeMgr_reservePages 2 demoMgr)))))) = 4"
    by code_simp+
  obtain rc k mgr1 where r1: "smeMgr_reservePages 2 demoMgr = (rc, 2, k, mgr1)"
    using e(1) by (metis prod.collapse)
  obtain rc' k' mgr2 where "smeMgr_reservePages 4 mgr1 = (rc', 4, k', mgr2)"
    using e(2) r1 by (metis prod.collapse snd_conv)
  with granted_blocks_disjoint [OF demoMgr_inv _ _ r1] e show ?thesis by simp
qed

text \<open>Releasing a granted block restores the free set it was taken from, and releasing it a
  second time is refused without any change.\<close>

theorem reserve_release_roundtrip:
  assumes "mgr_inv sq mgr" and "0 < n"
    and "smeMgr_reservePages n mgr = (rc, p, k, mgr1)" and "p \<noteq> DMS_INVALID_EXTENT"
  shows "\<exists>mgr2. smeMgr_releasePages sq p n mgr1 = (SDB_OK, mgr2) \<and> mgr_inv sq mgr2
    \<and> mgr_free mgr2 = mgr_free mgr \<and> smeMgr_releasePages sq p n mgr2 = (SDB_SYS, mgr2)"
  using assms by (rule sme_alloc.reserve_release)

theorem reserve_release_roundtrip_witness:
  "\<exists>mgr2. smeMgr_releasePages 2 4 3 (snd (snd (snd (smeMgr_reservePages 3 demoMgr)))) = (SDB_OK, mgr2)
    \<and> mgr_free mgr2 = mgr_free demoMgr"
proof -
  have "fst (snd (smeMgr_reservePages 3 demoMgr)) = 4" by code_simp
  then obtain rc k mgr1 where r1: "smeMgr_reservePages 3 demoMgr = (rc, 4, k, mgr1)"
    by (metis prod.collapse)
  with reserve_release_roundtrip [OF demoMgr_inv _ r1] show ?thesis by auto
qed

end
