(* ===== verification/Dms_Pages.thy ===== *)
theory Dms_Pages
  imports Dms_Frame Dms_SMEMgr_Spec
begin

text \<open>
  Pages of a storage unit.  \<open>unit_space\<close> ties the page allocator to the mapped file: every page the allocator
  knows lies in a mapped data segment.  Growing the file keeps it and adds one free segment; \<open>_findFreeSpace\<close> ends
  after at most two rounds of its loop, and in an environment without failures it returns a free block.
\<close>

section \<open>The allocator and the mapped file\<close>

definition unit_space :: "dmsBlockData \<Rightarrow> bool" where
  "unit_space s \<longleftrightarrow>
     (let sq = bd_segmentPagesSquare s; mgr = bd_smeMgr s
      in mgr_inv sq mgr \<and> tail_clear sq mgr
       \<and> bd_segmentPages s = 2 ^ sq \<and> hd_pageNum (bd_header s) = smeMgr_segmentNum mgr * 2 ^ sq
       \<and> length (mm_segs (bd_mmap s)) = bd_dataSegID s + smeMgr_segmentNum mgr
       \<and> bd_maxSegID s = int (length (mm_segs (bd_mmap s))) - 1 \<and> bd_dataSegID s \<le> 3
       \<and> (\<forall>k < length (mm_segs (bd_mmap s)). seg_ptr (mm_segs (bd_mmap s) ! k) \<noteq> 0))"

lemma unit_spaceD:
  assumes "unit_space s"
  shows "mgr_inv (bd_segmentPagesSquare s) (bd_smeMgr s)" "tail_clear (bd_segmentPagesSquare s) (bd_smeMgr s)"
    "bd_segmentPages s = 2 ^ bd_segmentPagesSquare s"
    "hd_pageNum (bd_header s) = smeMgr_segmentNum (bd_smeMgr s) * 2 ^ bd_segmentPagesSquare s"
    "length (mm_segs (bd_mmap s)) = bd_dataSegID s + smeMgr_segmentNum (bd_smeMgr s)"
    "bd_maxSegID s = int (length (mm_segs (bd_mmap s))) - 1" "bd_dataSegID s \<le> 3"
    "k < length (mm_segs (bd_mmap s)) \<Longrightarrow> seg_ptr (mm_segs (bd_mmap s) ! k) \<noteq> 0"
  using assms by (simp_all add: unit_space_def Let_def)

text \<open>Every page the allocator knows has an address.\<close>

lemma page_addr:
  assumes "unit_space s" and "0 \<le> p" and "p < int (smeMgr_segmentNum (bd_smeMgr s)) * 2 ^ bd_segmentPagesSquare s"
  shows "extentAddr s p \<noteq> 0"
proof -
  note U = unit_spaceD [OF assms(1)]
  let ?sq = "bd_segmentPagesSquare s" and ?n = "smeMgr_segmentNum (bd_smeMgr s)"
  have lim: "?n \<le> DMS_MAX_PG" using segs_length_le [OF mgr_invD(1) [OF U(1)]] by (simp add: smeMgr_segmentNum_def)
  define k where "k = nat (p div 2 ^ ?sq)"
  have k: "int k = p div 2 ^ ?sq" using assms(2) by (simp add: k_def pos_imp_zdiv_nonneg_iff)
  have "p div 2 ^ ?sq * 2 ^ ?sq \<le> p" by (simp add: minus_mod_eq_div_mult [symmetric])
  then have "p div 2 ^ ?sq * 2 ^ ?sq < int ?n * 2 ^ ?sq" using assms(3) by linarith
  then have "p div 2 ^ ?sq < int ?n" by (rule mult_right_less_imp_less) simp
  then have kn: "k < ?n" using k by linarith
  have seg: "extent2Segment s p = k + bd_dataSegID s"
    using kn lim U(7) unfolding extent2Segment_def k [symmetric] by (simp add: cast_simps nat_add_distrib)
  have "u32 (bd_maxSegID s) = bd_dataSegID s + ?n - 1"
    using kn lim U(5,6,7) by (simp add: cast_simps nat_diff_distrib)
  then show ?thesis using seg kn U(8) [of "k + bd_dataSegID s"] U(5) assms(2)
    by (simp add: extentAddr_def mmap_getSegmentInfo_def)
qed

section \<open>Growing the file by a segment\<close>

text \<open>What the operating system documents: a mapping is never at address 0.\<close>

definition mmapNonNull :: "osEnv \<Rightarrow> bool" where
  "mmapNonNull env \<longleftrightarrow> (\<forall>n k. os_mmap env n k \<noteq> Mapped 0)"

text \<open>An environment in which nothing fails.\<close>

definition envOk :: "osEnv \<Rightarrow> bool" where
  "envOk env \<longleftrightarrow> os_getFileSize env = SDB_OK \<and> (\<forall>n. os_truncate env n = SDB_OK) \<and> (\<forall>b. os_extend env b = SDB_OK)
     \<and> os_newOk env \<and> (\<forall>n k. \<exists>p. os_mmap env n k = Mapped p \<and> p \<noteq> 0)"

lemma envOk_nonNull: "envOk env \<Longrightarrow> mmapNonNull env"
  by (auto simp: envOk_def mmapNonNull_def) (metis less_irrefl mmapResult.inject(1))

lemma ensureSpace_segs: "mm_segs (snd (mmap_ensureSpace b n mm)) = mm_segs mm"
  by (simp add: mmap_ensureSpace_def Let_def)

lemma mmap_map_segs:
  assumes "mmap_map osSize newOk osm off len mm = (rc, a, mm')" and "\<forall>n k. osm n k \<noteq> Mapped 0" and "0 < len"
  shows "if rc = SDB_OK then \<exists>sg. mm_segs mm' = mm_segs mm @ [sg] \<and> seg_ptr sg \<noteq> 0 else mm_segs mm' = mm_segs mm"
proof -
  obtain rc1 mm1 where e: "mmap_ensureSpace newOk (Suc (length (mm_segs mm))) mm = (rc1, mm1)" by fastforce
  have "mm_segs mm1 = mm_segs mm" using ensureSpace_segs [of newOk "Suc (length (mm_segs mm))" mm] e by simp
  then show ?thesis using assms e
    by (auto simp: mmap_map_def Let_def split: prod.splits if_splits mmapResult.splits)
      (metis not_gr_zero)+
qed

lemma mmap_map_ok:
  assumes "envOk env" and "k < n" and "0 < len"
  shows "\<exists>a mm'. mmap_map (os_getFileSize env, n) (os_newOk env) (os_mmap env) k len mm = (SDB_OK, a, mm')"
proof -
  obtain mm1 where e: "mmap_ensureSpace True (Suc (length (mm_segs mm))) mm = (SDB_OK, mm1)"
    by (cases "Suc (length (mm_segs mm)) \<le> mm_capacity mm") (simp_all add: mmap_ensureSpace_def Let_def)
  obtain p where p: "os_mmap env (mmap_length n k len) k = Mapped p" using assms(1) unfolding envOk_def by blast
  have "os_getFileSize env = SDB_OK" "os_newOk env" using assms(1) by (simp_all add: envOk_def)
  then show ?thesis using e p assms(2,3) by (simp add: mmap_map_def Let_def)
qed

text \<open>\<open>t\<close> has one more segment than \<open>s\<close>, all free.\<close>

definition grown :: "dmsBlockData \<Rightarrow> dmsBlockData \<Rightarrow> bool" where
  "grown s t \<longleftrightarrow> unit_space t \<and> smeMgr_segmentNum (bd_smeMgr t) = Suc (smeMgr_segmentNum (bd_smeMgr s))
     \<and> mgr_free (bd_smeMgr t) = mgr_free (bd_smeMgr s)
         \<union> pageRun (int (smeMgr_segmentNum (bd_smeMgr s)) * 2 ^ bd_segmentPagesSquare s) (2 ^ bd_segmentPagesSquare s)"

text \<open>An attempt to grow: it panics, or fails and leaves the space as it is, or adds the segment.\<close>

definition growth :: "rc outcome \<Rightarrow> dmsBlockData \<Rightarrow> bool" where
  "growth r s \<longleftrightarrow>
     (case r of Ret rc t \<Rightarrow> unit_space t \<and> (if rc = SDB_OK then grown s t else bd_smeMgr t = bd_smeMgr s)
      | Exc _ _ \<Rightarrow> False | Panic \<Rightarrow> True | Diverge \<Rightarrow> False)"

lemma growth_simps [simp]:
  "growth (Ret rc t) s \<longleftrightarrow> unit_space t \<and> (if rc = SDB_OK then grown s t else bd_smeMgr t = bd_smeMgr s)"
  "growth (retM rc t) s \<longleftrightarrow> unit_space t \<and> (if rc = SDB_OK then grown s t else bd_smeMgr t = bd_smeMgr s)"
  "growth Panic s" "\<not> growth (Exc e t) s" "\<not> growth Diverge s"
  by (simp_all add: growth_def retM_def)

lemma mapOne:
  assumes U: "unit_space s" and os: "mmapNonNull env" and room: "Suc (smeMgr_segmentNum (bd_smeMgr s)) * 2 ^ bd_segmentPagesSquare s \<le> DMS_MAX_PG"
  shows "growth (mapSegments env 1 (hd_pageNum (bd_header s)) k s) s"
    and "envOk env \<Longrightarrow> k < bd_fileSize s \<Longrightarrow> \<exists>t. mapSegments env 1 (hd_pageNum (bd_header s)) k s = Ret SDB_OK t"
proof -
  note u = unit_spaceD [OF U]
  obtain rc a mm where m: "mmap_map (os_getFileSize env, bd_fileSize s) (os_newOk env) (os_mmap env) k DMS_SEGMENT_SZ (bd_mmap s) = (rc, a, mm)"
    by (metis prod_cases3)
  note segs = mmap_map_segs [OF m] os [unfolded mmapNonNull_def]
  have ok: "rc = SDB_OK \<and> os_newOk env" if "envOk env" "k < bd_fileSize s"
    using mmap_map_ok [OF that, of DMS_SEGMENT_SZ "bd_mmap s"] m that(1) by (simp add: envOk_def)
  have "growth (mapSegments env 1 (hd_pageNum (bd_header s)) k s) s
    \<and> (rc = SDB_OK \<and> os_newOk env \<longrightarrow> (\<exists>t. mapSegments env 1 (hd_pageNum (bd_header s)) k s = Ret SDB_OK t))"
  proof (cases "rc = SDB_OK \<and> os_newOk env")
    case False
    then show ?thesis using m segs U
      by (auto simp: unit_space_def Let_def smeMgr_depositASegment_def split: if_splits)
  next
    case True
    obtain sg where sg: "mm_segs mm = mm_segs (bd_mmap s) @ [sg]" "seg_ptr sg \<noteq> 0" using segs True by auto
    have clear: "getBitMask (sh_pSME (mgr_shared (bd_smeMgr s))) p = DMS_SME_FREE"
      if "int (smeMgr_segmentNum (bd_smeMgr s)) * 2 ^ bd_segmentPagesSquare s \<le> int p" for p
    proof -
      have "int (smeMgr_segmentNum (bd_smeMgr s) * 2 ^ bd_segmentPagesSquare s) \<le> int p" using that by simp
      then show ?thesis using u(2) by (simp only: of_nat_le_iff tail_clear_def)
    qed
    obtain mgr where d: "smeMgr_depositASegment True (bd_segmentPagesSquare s) (int (hd_pageNum (bd_header s))) (bd_smeMgr s) = (SDB_OK, mgr)"
      "mgr_inv (bd_segmentPagesSquare s) mgr" "smeMgr_segmentNum mgr = Suc (smeMgr_segmentNum (bd_smeMgr s))"
      "mgr_free mgr = mgr_free (bd_smeMgr s) \<union> pageRun (int (smeMgr_segmentNum (bd_smeMgr s)) * 2 ^ bd_segmentPagesSquare s) (2 ^ bd_segmentPagesSquare s)"
      "sh_pSME (mgr_shared mgr) = sh_pSME (mgr_shared (bd_smeMgr s))"
      by (rule smeMgr_depositASegment_ok [OF u(1) refl room clear]) (simp_all add: u(4))
    have "tail_clear (bd_segmentPagesSquare s) mgr" using u(2) d(3,5) by (simp add: tail_clear_def)
    then show ?thesis using True m d u sg
      by (auto simp: grown_def unit_space_def Let_def nth_append less_Suc_eq retM_def)
  qed
  then show "growth (mapSegments env 1 (hd_pageNum (bd_header s)) k s) s"
    and "envOk env \<Longrightarrow> k < bd_fileSize s \<Longrightarrow> \<exists>t. mapSegments env 1 (hd_pageNum (bd_header s)) k s = Ret SDB_OK t"
    using ok by blast+
qed

text \<open>The changes of the file before the mapping leave the space as it is.\<close>

definition sameSpace :: "dmsBlockData \<Rightarrow> dmsBlockData \<Rightarrow> bool" where
  "sameSpace s t \<longleftrightarrow> bd_smeMgr t = bd_smeMgr s \<and> bd_header t = bd_header s \<and> bd_mmap t = bd_mmap s \<and> bd_maxSegID t = bd_maxSegID s
     \<and> bd_segmentPages t = bd_segmentPages s \<and> bd_segmentPagesSquare t = bd_segmentPagesSquare s \<and> bd_dataSegID t = bd_dataSegID s"

lemma sameSpaceD:
  assumes "sameSpace s t"
  shows "unit_space t = unit_space s" "grown t u = grown s u" "growth r t = growth r s"
  using assms by (simp_all add: sameSpace_def unit_space_def grown_def growth_def Let_def cong: outcome.case_cong)

definition fileStep :: "rc outcome \<Rightarrow> dmsBlockData \<Rightarrow> bool" where
  "fileStep r s \<longleftrightarrow> r = Panic \<or> (\<exists>rc t. r = Ret rc t \<and> sameSpace s t)"

lemma fileStep_growth:
  assumes "fileStep (m s) s" and "unit_space s" and "\<And>t. sameSpace s t \<Longrightarrow> growth (k t) t"
  shows "growth (bindM m (\<lambda>rc. if rc \<noteq> SDB_OK then retM rc else k) s) s"
  using assms sameSpaceD unfolding fileStep_def
  by (auto simp: bindM_def sameSpaceD) (simp add: sameSpace_def)

lemma fileStep_extend: "fileStep (extendFile env n k s) s"
  by (auto simp: fileStep_def extendFile_def extendFileOnce_def bindM_def sameSpace_def Let_def)

lemma extendSegments_growth:
  assumes U: "unit_space s" and os: "mmapNonNull env"
  shows "growth (extendSegments env 1 s) s"
proof -
  note u = unit_spaceD [OF U]
  let ?sq = "bd_segmentPagesSquare s" and ?n = "smeMgr_segmentNum (bd_smeMgr s)"
  have inv: "segs_inv ?sq (mgr_segments (bd_smeMgr s))" using mgr_invD(1) [OF u(1)] .
  then have "?n * 2 ^ ?sq \<le> DMS_MAX_PG" "(2::nat) ^ ?sq \<le> 32768"
    using segPages_le [of ?sq] by (simp_all add: segs_inv_def smeMgr_segmentNum_def)
  then have "u32 (int (hd_pageNum (bd_header s)) + int (bd_segmentPages s * 1)) = Suc ?n * 2 ^ ?sq"
    using u(3,4) u32_of_nat [of "?n * 2 ^ ?sq + 2 ^ ?sq"] by simp
  then have noWrap: "\<And>a b. (if u32 (int (hd_pageNum (bd_header s)) + int (bd_segmentPages s * 1)) > DMS_MAX_PG then a else b) =
      (if Suc ?n * 2 ^ ?sq > DMS_MAX_PG then a else b)" by simp
  have map: "growth (mapSegments env 1 (hd_pageNum (bd_header s)) k t) t" if "sameSpace s t" "Suc ?n * 2 ^ ?sq \<le> DMS_MAX_PG" for k t
  proof -
    have "hd_pageNum (bd_header t) = hd_pageNum (bd_header s)" using that(1) by (simp add: sameSpace_def)
    then show ?thesis using mapOne(1) [of t env k] that os U sameSpaceD(1) [OF that(1)] by (simp only: sameSpace_def)
  qed
  have ext: "growth (bindM (extendFile env n 1) (\<lambda>rc1. if rc1 \<noteq> SDB_OK then retM rc1
      else mapSegments env 1 (hd_pageNum (bd_header s)) n) t) t" if "sameSpace s t" "Suc ?n * 2 ^ ?sq \<le> DMS_MAX_PG" for n t
    using that U sameSpaceD(1) [OF that(1)]
    by (intro fileStep_growth [OF fileStep_extend] map) (auto simp: sameSpace_def)
  have trunc: "fileStep ((if b then truncateFile env n else retM SDB_OK) s) s" for b n
    by (auto simp: fileStep_def truncateFile_def sameSpace_def retM_def)
  show ?thesis unfolding extendSegments_def Let_def noWrap
  proof (split if_split, intro conjI impI)
    assume "\<not> DMS_MAX_PG < Suc ?n * 2 ^ ?sq"
    then show "growth (if list_ex (\<lambda>i. getBitMask (sh_pSME (mgr_shared (bd_smeMgr s))) i \<noteq> DMS_SME_FREE) xs then Ret SDB_DMS_CORRUPTED_SME s
        else if os_getFileSize env \<noteq> SDB_OK then Ret (os_getFileSize env) s
        else bindM (if b then truncateFile env n else retM SDB_OK) (\<lambda>rc. if rc \<noteq> SDB_OK then retM rc
          else bindM (extendFile env n 1) (\<lambda>rc1. if rc1 \<noteq> SDB_OK then retM rc1 else mapSegments env 1 (hd_pageNum (bd_header s)) n)) s) s" for xs b n
      using U fileStep_growth [of "if b then truncateFile env n else retM SDB_OK", OF trunc U ext] by simp
  qed (use U in simp)
qed

lemma extendSegments_ok:
  assumes U: "unit_space s" and os: "envOk env" and room: "Suc (smeMgr_segmentNum (bd_smeMgr s)) * 2 ^ bd_segmentPagesSquare s \<le> DMS_MAX_PG"
  shows "\<exists>t. extendSegments env 1 s = Ret SDB_OK t"
proof -
  note u = unit_spaceD [OF U]
  let ?sq = "bd_segmentPagesSquare s" and ?n = "smeMgr_segmentNum (bd_smeMgr s)"
  have "u32 (int (hd_pageNum (bd_header s)) + int (bd_segmentPages s * 1)) = Suc ?n * 2 ^ ?sq"
    using room u(3,4) u32_of_nat [of "?n * 2 ^ ?sq + 2 ^ ?sq"] by simp
  then have lim: "\<not> DMS_MAX_PG < u32 (int (hd_pageNum (bd_header s)) + int (bd_segmentPages s * 1))" using room by simp
  have clear: "\<not> list_ex (\<lambda>i. getBitMask (sh_pSME (mgr_shared (bd_smeMgr s))) i \<noteq> DMS_SME_FREE) [hd_pageNum (bd_header s)..<j]" for j
    using u(2,4) by (auto simp: list_ex_iff tail_clear_def)
  have os': "os_getFileSize env = SDB_OK" "\<And>n. os_truncate env n = SDB_OK" "\<And>b. os_extend env b = SDB_OK"
    using os by (simp_all add: envOk_def)
  have map: "\<exists>u. mapSegments env 1 (hd_pageNum (bd_header s)) n (t\<lparr>bd_fileSize := n + k\<rparr>) = Ret SDB_OK u" if "sameSpace s t" "0 < k" for n k t
  proof -
    have "sameSpace s (t\<lparr>bd_fileSize := n + k\<rparr>)" using that(1) by (simp add: sameSpace_def)
    then show ?thesis using mapOne(2) [of "t\<lparr>bd_fileSize := n + k\<rparr>" env n] envOk_nonNull [OF os] os room U that
      by (simp only: sameSpaceD(1)) (simp add: sameSpace_def)
  qed
  have ext: "extendFile env n 1 t = Ret SDB_OK (t\<lparr>bd_fileSize := bd_fileSize t + DMS_SEGMENT_SZ\<rparr>)" for n t
    by (simp add: extendFile_def extendFileOnce_def bindM_def os' Let_def cast_simps)
  have trunc: "truncateFile env n s = Ret SDB_OK (s\<lparr>bd_fileSize := n\<rparr>)" for n by (simp add: truncateFile_def os')
  have same: "sameSpace s (s\<lparr>bd_fileSize := n\<rparr>)" "sameSpace s s" for n by (simp_all add: sameSpace_def)
  have "\<exists>u. mapSegments env 1 (hd_pageNum (bd_header s)) n (s\<lparr>bd_fileSize := n + DMS_SEGMENT_SZ\<rparr>) = Ret SDB_OK u" for n
    using map [OF same(1), of DMS_SEGMENT_SZ] by simp
  then show ?thesis unfolding extendSegments_def Let_def using lim clear
    by (simp only: if_False os' simp_thms) (simp add: bindM_def trunc ext retM_def del: mapSegments.simps One_nat_def)
qed

section \<open>Finding pages\<close>

definition usedPages :: "dmsBlockData \<Rightarrow> int set" where
  "usedPages s = {0..<int (smeMgr_segmentNum (bd_smeMgr s)) * 2 ^ bd_segmentPagesSquare s} - mgr_free (bd_smeMgr s)"

text \<open>\<open>t\<close> is \<open>s\<close> with the block of \<open>n\<close> pages at \<open>p\<close> taken: none of its pages was in use, it lies inside one segment.\<close>

definition blockTaken :: "dmsBlockData \<Rightarrow> nat \<Rightarrow> int \<Rightarrow> dmsBlockData \<Rightarrow> bool" where
  "blockTaken s n p t \<longleftrightarrow> unit_space t \<and> usedPages s \<inter> pageRun p n = {} \<and> usedPages t = usedPages s \<union> pageRun p n
     \<and> in_one_segment (bd_segmentPagesSquare t) p n (bd_smeMgr t)"

lemma mgr_free_range:
  assumes "unit_space s"
  shows "mgr_free (bd_smeMgr s) \<subseteq> {0..<int (smeMgr_segmentNum (bd_smeMgr s)) * 2 ^ bd_segmentPagesSquare s}"
  using segs_free_range [OF mgr_invD(1) [OF unit_spaceD(1) [OF assms]]]
  by (auto simp: mgr_free_def smeMgr_segmentNum_def)

lemma run_added: "0 \<le> (w::int) \<Longrightarrow> F \<subseteq> {0..<a} \<Longrightarrow> {0..<a + w} - (F \<union> {a..<a + w}) = {0..<a} - F"
  by auto

lemma grown_used:
  assumes "unit_space s" and "grown s t" and "bd_segmentPagesSquare t = bd_segmentPagesSquare s"
  shows "usedPages t = usedPages s"
  using assms(2,3) run_added [OF _ mgr_free_range [OF assms(1)], of "2 ^ bd_segmentPagesSquare s"]
  by (simp add: usedPages_def grown_def algebra_simps)

lemma reserve_cases:
  assumes U: "unit_space s" and n: "0 < n"
  obtains p mgr where "smeMgr_reservePages n (bd_smeMgr s) = (SDB_OK, p, smeMgr_segmentNum (bd_smeMgr s), mgr)"
      and "p \<noteq> DMS_INVALID_EXTENT" and "blockTaken s n p (s\<lparr>bd_smeMgr := mgr\<rparr>)"
    | mgr where "smeMgr_reservePages n (bd_smeMgr s) = (SDB_OK, DMS_INVALID_EXTENT, smeMgr_segmentNum (bd_smeMgr s), mgr)"
      and "unit_space (s\<lparr>bd_smeMgr := mgr\<rparr>)" and "mgr_segments mgr = mgr_segments (bd_smeMgr s)"
      and "\<nexists>p. in_one_segment (bd_segmentPagesSquare s) p n (bd_smeMgr s) \<and> pageRun p n \<subseteq> mgr_free (bd_smeMgr s)"
proof -
  note u = unit_spaceD [OF U]
  let ?sq = "bd_segmentPagesSquare s" and ?m = "bd_smeMgr s"
  from smeMgr_reservePages_cases [OF u(1) n] show thesis
  proof (elim disjE exE conjE, goal_cases)
    case (1 k p mgr)
    have one: "in_one_segment ?sq p n ?m" using 1 n by (intro in_one_segmentI)
    then have p: "0 \<le> p" by (simp add: in_one_segment_def)
    have "tail_clear ?sq mgr" using reserve_keeps_tail [OF u(1,2) n 1(1)] .
    then have us: "unit_space (s\<lparr>bd_smeMgr := mgr\<rparr>)" using 1 u by (simp add: unit_space_def Let_def)
    have run: "pageRun p n \<subseteq> {0..<int (smeMgr_segmentNum ?m) * 2 ^ ?sq}" using 1(4) mgr_free_range [OF U] by blast
    have "usedPages (s\<lparr>bd_smeMgr := mgr\<rparr>) = usedPages s \<union> pageRun p n" "usedPages s \<inter> pageRun p n = {}"
      using run 1(3,4,5) unfolding usedPages_def by auto
    then have "blockTaken s n p (s\<lparr>bd_smeMgr := mgr\<rparr>)"
      using us one 1(3) by (simp add: blockTaken_def in_one_segment_def)
    then show ?case using that(1) [OF 1(1)] p by simp
  next
    case (2 mgr)
    have "tail_clear ?sq mgr" using reserve_keeps_tail [OF u(1,2) n 2(1)] .
    then have "unit_space (s\<lparr>bd_smeMgr := mgr\<rparr>)" using 2 u by (simp add: unit_space_def Let_def smeMgr_segmentNum_def)
    moreover have "\<nexists>p. in_one_segment ?sq p n ?m \<and> pageRun p n \<subseteq> mgr_free ?m"
      using 2(5) block_of_one_segment [OF u(1) n] by blast
    ultimately show ?case using that(2) 2 by blast
  qed
qed

text \<open>A segment that was just added satisfies every request that fits into a segment.\<close>

lemma grown_grants:
  assumes "grown s t" and "unit_space s" and "bd_segmentPagesSquare t = bd_segmentPagesSquare s" and "0 < n" and "n \<le> 2 ^ bd_segmentPagesSquare s"
  shows "\<exists>p. in_one_segment (bd_segmentPagesSquare t) p n (bd_smeMgr t) \<and> pageRun p n \<subseteq> mgr_free (bd_smeMgr t)"
proof -
  let ?sq = "bd_segmentPagesSquare s" and ?k = "smeMgr_segmentNum (bd_smeMgr s)"
  have "int n \<le> int (2 ^ ?sq)" using assms(5) by (simp only: of_nat_le_iff)
  then have n: "int n \<le> 2 ^ ?sq" by simp
  have k: "?k < smeMgr_segmentNum (bd_smeMgr t)" using assms(1) by (simp add: grown_def)
  have end_: "int ?k * 2 ^ ?sq + int n \<le> (int ?k + 1) * 2 ^ ?sq" using n by (simp add: distrib_right)
  have "in_one_segment ?sq (int ?k * 2 ^ ?sq) n (bd_smeMgr t)" by (rule in_one_segmentI [OF k order_refl end_ assms(4)])
  moreover have "pageRun (int ?k * 2 ^ ?sq) n \<subseteq> pageRun (int ?k * 2 ^ ?sq) (2 ^ ?sq)" using n by simp
  moreover have "pageRun (int ?k * 2 ^ ?sq) (2 ^ ?sq) \<subseteq> mgr_free (bd_smeMgr t)" using assms(1) unfolding grown_def by blast
  ultimately show ?thesis unfolding assms(3) by blast
qed

text \<open>Pausing and resuming change the context and its latch only.\<close>

lemma putCtx_step: "\<exists>t. putCtx r s = Ret (fst r) t \<and> sameSpace s t"
  by (cases r) (simp add: putCtx_def sameSpace_def)

lemma ctx_steps: "\<exists>t. ctxPause s = Ret SDB_OK t \<and> sameSpace s t" "\<exists>rc t. ctxResume s = Ret rc t \<and> sameSpace s t"
proof -
  have "fst (mbPause c la) = SDB_OK" for c la by (simp add: mbPause_def mbUnlock_def Let_def)
  then show "\<exists>t. ctxPause s = Ret SDB_OK t \<and> sameSpace s t" unfolding ctxPause_def using putCtx_step by metis
  show "\<exists>rc t. ctxResume s = Ret rc t \<and> sameSpace s t" unfolding ctxResume_def Let_def using putCtx_step by blast
qed

lemma blockTaken_cong:
  assumes "sameSpace s t"
  shows "usedPages t = usedPages s" "blockTaken t n p u = blockTaken s n p u"
  using assms by (simp_all add: sameSpace_def usedPages_def blockTaken_def)

text \<open>The two ways the loop of \<open>_findFreeSpace\<close> can end.\<close>

definition found :: "dmsBlockData \<Rightarrow> nat \<Rightarrow> (rc \<times> dmsExtentID) outcome \<Rightarrow> bool" where
  "found s n r \<longleftrightarrow>
     (case r of Ret (rc, p) t \<Rightarrow> if rc = SDB_OK then p \<noteq> DMS_INVALID_EXTENT \<and> blockTaken s n p t else unit_space t \<and> usedPages t = usedPages s
      | Exc _ _ \<Rightarrow> False | Panic \<Rightarrow> True | Diverge \<Rightarrow> False)"

lemma found_simps [simp]:
  "found s n (Ret (rc, p) t) \<longleftrightarrow> (if rc = SDB_OK then p \<noteq> DMS_INVALID_EXTENT \<and> blockTaken s n p t else unit_space t \<and> usedPages t = usedPages s)"
  "found s n (retM (rc, p) t) \<longleftrightarrow> (if rc = SDB_OK then p \<noteq> DMS_INVALID_EXTENT \<and> blockTaken s n p t else unit_space t \<and> usedPages t = usedPages s)"
  "found s n Panic" "\<not> found s n (Exc e t)" "\<not> found s n Diverge"
  by (simp_all add: found_def retM_def)

text \<open>The second round: the request is granted at once.\<close>

lemma find_granted:
  assumes "unit_space s" and "0 < n"
    and "\<exists>p. in_one_segment (bd_segmentPagesSquare s) p n (bd_smeMgr s) \<and> pageRun p n \<subseteq> mgr_free (bd_smeMgr s)"
  shows "\<exists>p mgr. findFreeSpace env (Suc fuel) n b s = Ret (SDB_OK, p) (s\<lparr>bd_smeMgr := mgr\<rparr>) \<and> p \<noteq> DMS_INVALID_EXTENT
    \<and> blockTaken s n p (s\<lparr>bd_smeMgr := mgr\<rparr>)"
  using assms(3) by (cases rule: reserve_cases [OF assms(1,2)]) auto

lemma findFreeSpace_found:
  assumes U: "unit_space s" and os: "mmapNonNull env" and n: "0 < n" "n \<le> 2 ^ bd_segmentPagesSquare s"
  shows "found s n (findFreeSpace env (Suc (Suc fuel)) n b s)"
proof (cases rule: reserve_cases [OF U n(1)])
  case (1 p mgr)
  then show ?thesis by simp
next
  case (2 mgr)
  let ?s1 = "s\<lparr>bd_smeMgr := mgr\<rparr>"
  have used: "usedPages ?s1 = usedPages s" using 2(3) by (simp add: usedPages_def smeMgr_segmentNum_def mgr_free_def)
  obtain s2 where s2: "(if b then ctxPause else retM SDB_OK) ?s1 = Ret SDB_OK s2" "sameSpace ?s1 s2"
    using ctx_steps(1) [of ?s1] by (cases b) (auto simp: retM_def sameSpace_def)
  note U2 = sameSpaceD(1) [OF s2(2)] 2(2)
  have g: "growth (extendSegments env 1 s2) s2" using extendSegments_growth [OF _ os] U2 by simp
  have sq: "bd_segmentPagesSquare t = bd_segmentPagesSquare s2" if "extendSegments env 1 s2 = Ret rc t" for rc t
    using keptD [OF geo.kept_extendSegments [OF refl] that] by (simp add: geometry_def)
  have "found s n (bindM (extendSegments env 1) (\<lambda>rc2. bindM (if b then ctxResume else retM SDB_OK) (\<lambda>rc3.
      if rc2 \<noteq> SDB_OK then retM (rc2, DMS_INVALID_EXTENT) else if rc3 \<noteq> SDB_OK then retM (rc3, DMS_INVALID_EXTENT)
      else findFreeSpace env (Suc fuel) n b)) s2)"
  proof (cases "extendSegments env 1 s2")
    case (Ret rc2 s3)
    obtain rc3 s4 where s4: "(if b then ctxResume else retM SDB_OK) s3 = Ret rc3 s4" "sameSpace s3 s4"
      using ctx_steps(2) [of s3] by (cases b) (auto simp: retM_def sameSpace_def)
    have sq3: "bd_segmentPagesSquare s3 = bd_segmentPagesSquare s" using sq [OF Ret] s2(2) by (simp add: sameSpace_def)
    have u3: "unit_space s3" "usedPages s3 = usedPages s"
      using g Ret grown_used [of s2 s3] sq [OF Ret] U2 used blockTaken_cong(1) [OF s2(2)]
      by (auto simp: usedPages_def split: if_splits)
    note U4 = sameSpaceD(1) [OF s4(2)] blockTaken_cong(1) [OF s4(2)] u3
    show ?thesis
    proof (cases "rc2 = SDB_OK \<and> rc3 = SDB_OK")
      case True
      have "grown s2 s3" using g Ret True by simp
      then have "\<exists>p. in_one_segment (bd_segmentPagesSquare s3) p n (bd_smeMgr s3) \<and> pageRun p n \<subseteq> mgr_free (bd_smeMgr s3)"
        using grown_grants [of s2 s3 n] U2 sq [OF Ret] n s2(2) by (simp add: sameSpace_def)
      then obtain p mgr where f: "findFreeSpace env (Suc fuel) n b s4 = Ret (SDB_OK, p) (s4\<lparr>bd_smeMgr := mgr\<rparr>)"
        "p \<noteq> DMS_INVALID_EXTENT" "blockTaken s4 n p (s4\<lparr>bd_smeMgr := mgr\<rparr>)"
        using find_granted [of s4 n env fuel b] U4 n(1) s4(2) by (auto simp: sameSpace_def)
      have "blockTaken s n p (s4\<lparr>bd_smeMgr := mgr\<rparr>)" using f(3) U4 by (simp add: blockTaken_def)
      then show ?thesis using True Ret s4(1) f(1,2) by (simp add: bindM_def del: findFreeSpace.simps)
    next
      case False
      then show ?thesis using Ret s4(1) U4 by (auto simp: bindM_def retM_def)
    qed
  qed (use g in \<open>simp_all add: bindM_def\<close>)
  then show ?thesis using 2 s2 by (simp add: Let_def bindM_def smeMgr_segmentNum_def)
qed

section \<open>An environment without failures\<close>

text \<open>The caller holds its collection exclusively, and the collection is there.\<close>

definition ctxHeld :: "dmsBlockData \<Rightarrow> bool" where
  "ctxHeld s \<longleftrightarrow> isMBLockType EXCLUSIVE (bd_ctx s) \<and> mbExists (bd_ctx s) (mbViewOf s (ctx_mbID (bd_ctx s)))"

lemma held_pause:
  assumes "ctxHeld s"
  shows "\<exists>t. ctxPause s = Ret SDB_OK t \<and> sameSpace s t \<and> bd_mb t = bd_mb s
    \<and> bd_ctx t = (bd_ctx s)\<lparr>ctx_resumeType := EXCLUSIVE, ctx_mbLockType := - 1\<rparr>"
  using assms by (simp add: ctxHeld_def isMBLockType_def ctxPause_def putCtx_def mbPause_def mbUnlock_def sameSpace_def Let_def)

lemma held_resume:
  assumes "bd_ctx s = c\<lparr>ctx_resumeType := EXCLUSIVE, ctx_mbLockType := - 1\<rparr>" and "mbExists c (mbViewOf s (ctx_mbID c))"
  shows "\<exists>t. ctxResume s = Ret SDB_OK t \<and> sameSpace s t \<and> bd_mb t = bd_mb s
    \<and> bd_ctx t = c\<lparr>ctx_resumeType := - 1, ctx_mbLockType := EXCLUSIVE\<rparr>"
  using assms
  by (simp add: ctxResume_def mbResume_def canResume_def mbLock_def mbLockImpl_def putCtx_def mbExists_def sameSpace_def Let_def)

definition sameCtx :: "dmsBlockData \<Rightarrow> dmsBlockData \<Rightarrow> bool" where
  "sameCtx s t \<longleftrightarrow> ctx_mbID (bd_ctx t) = ctx_mbID (bd_ctx s) \<and> (ctxHeld s \<longrightarrow> ctxHeld t)"

lemma findFreeSpace_ok:
  assumes U: "unit_space s" and os: "envOk env" and n: "0 < n" "n \<le> 2 ^ bd_segmentPagesSquare s" and b: "b \<Longrightarrow> ctxHeld s"
    and room: "Suc (smeMgr_segmentNum (bd_smeMgr s)) * 2 ^ bd_segmentPagesSquare s \<le> DMS_MAX_PG"
  shows "\<exists>p t. findFreeSpace env (Suc (Suc fuel)) n b s = Ret (SDB_OK, p) t \<and> sameCtx s t"
proof (cases rule: reserve_cases [OF U n(1)])
  case (1 p mgr)
  then show ?thesis by (simp add: sameCtx_def ctxHeld_def mbViewOf_def)
next
  case (2 mgr)
  let ?s1 = "s\<lparr>bd_smeMgr := mgr\<rparr>" and ?c = "bd_ctx s"
  let ?paused = "\<lambda>t. bd_mb t = bd_mb s \<and> bd_ctx t = (if b then ?c\<lparr>ctx_resumeType := EXCLUSIVE, ctx_mbLockType := - 1\<rparr> else ?c)"
  have held: "ctxHeld ?s1" if b using b [OF that] by (simp add: ctxHeld_def mbViewOf_def)
  obtain s2 where s2: "(if b then ctxPause else retM SDB_OK) ?s1 = Ret SDB_OK s2" "sameSpace ?s1 s2" "?paused s2"
    using held_pause [of ?s1] held by (cases b) (auto simp: retM_def sameSpace_def)
  note U2 = sameSpaceD(1) [OF s2(2)] 2(2)
  have n2: "smeMgr_segmentNum (bd_smeMgr s2) = smeMgr_segmentNum (bd_smeMgr s)" "bd_segmentPagesSquare s2 = bd_segmentPagesSquare s"
    using s2(2) 2(3) by (simp_all add: sameSpace_def smeMgr_segmentNum_def)
  obtain s3 where s3: "extendSegments env 1 s2 = Ret SDB_OK s3" using extendSegments_ok [of s2 env] U2 n2 os room by auto
  have l3: "?paused s3" using keptD [OF locks.kept_extendSegments [OF refl] s3] s2(3) by (simp add: lockView_def)
  have sq: "bd_segmentPagesSquare s3 = bd_segmentPagesSquare s"
    using keptD [OF geo.kept_extendSegments [OF refl] s3] n2 by (simp add: geometry_def)
  have g: "grown s2 s3" "unit_space s3" using extendSegments_growth [of s2 env] s3 U2 envOk_nonNull [OF os] by auto
  obtain s4 where s4: "(if b then ctxResume else retM SDB_OK) s3 = Ret SDB_OK s4" "sameSpace s3 s4" "bd_mb s4 = bd_mb s"
    "bd_ctx s4 = (if b then ?c\<lparr>ctx_resumeType := - 1, ctx_mbLockType := EXCLUSIVE\<rparr> else ?c)"
    using held_resume [of s3 ?c] l3 b by (cases b) (auto simp: retM_def sameSpace_def ctxHeld_def mbViewOf_def)
  have "\<exists>p. in_one_segment (bd_segmentPagesSquare s4) p n (bd_smeMgr s4) \<and> pageRun p n \<subseteq> mgr_free (bd_smeMgr s4)"
    using grown_grants [OF g(1) _ _ n(1)] U2 n n2 sq s4(2) by (simp add: sameSpace_def)
  then obtain p m where f: "findFreeSpace env (Suc fuel) n b s4 = Ret (SDB_OK, p) (s4\<lparr>bd_smeMgr := m\<rparr>)"
    using find_granted [of s4 n env fuel b] sameSpaceD(1) [OF s4(2)] g(2) n(1) by blast
  have "findFreeSpace env (Suc (Suc fuel)) n b s = Ret (SDB_OK, p) (s4\<lparr>bd_smeMgr := m\<rparr>)"
    using 2 s2(1) s3 s4(1) f
    by (subst findFreeSpace.simps) (simp add: bindM_def Let_def smeMgr_segmentNum_def del: findFreeSpace.simps)
  moreover have "sameCtx s (s4\<lparr>bd_smeMgr := m\<rparr>)"
    using s4(3,4) b by (cases b) (auto simp: sameCtx_def ctxHeld_def mbViewOf_def isMBLockType_def mbExists_def)
  ultimately show ?thesis by blast
qed

section \<open>Properties\<close>

text \<open>C6: The \<open>while ( TRUE )\<close> loop of \<open>_findFreeSpace\<close>, run while no other session changes the unit, ends after at most two rounds for every request that fits into a
  segment and whatever the operating system answers, except that it maps no file at address 0: with a panic of the process (nothing is said of the unit then), with an
  error code and the pages in use as before, or with a block inside one segment none of whose pages was in use and which is in use now.  When nothing fails and the unit
  may grow by one more segment it returns such a block.\<close>

theorem findFreeSpace_returns:
  assumes "unit_space s" and "mmapNonNull env" and "0 < n" and "n \<le> bd_segmentPages s"
  shows "(case findFreeSpace env (Suc (Suc fuel)) n hasCtx s of
        Ret (rc, p) t \<Rightarrow> if rc = SDB_OK then p \<noteq> DMS_INVALID_EXTENT \<and> blockTaken s n p t else unit_space t \<and> usedPages t = usedPages s
      | Panic \<Rightarrow> True | Exc _ _ \<Rightarrow> False | Diverge \<Rightarrow> False)
    \<and> (envOk env \<and> (hasCtx \<longrightarrow> ctxHeld s) \<and> Suc (smeMgr_segmentNum (bd_smeMgr s)) * bd_segmentPages s \<le> DMS_MAX_PG
        \<longrightarrow> (\<exists>p t. findFreeSpace env (Suc (Suc fuel)) n hasCtx s = Ret (SDB_OK, p) t))"
proof -
  have n: "n \<le> 2 ^ bd_segmentPagesSquare s" using assms(4) unit_spaceD(3) [OF assms(1)] by simp
  have "found s n (findFreeSpace env (Suc (Suc fuel)) n hasCtx s)" by (rule findFreeSpace_found [OF assms(1-3) n])
  then show ?thesis
    using findFreeSpace_ok [OF assms(1) _ assms(3) n, of env hasCtx fuel] unit_spaceD(3) [OF assms(1)]
    by (auto simp: found_def split: outcome.splits simp del: findFreeSpace.simps)
qed

text \<open>A unit of two segments of four pages, and an environment without failures.\<close>

definition demoUnit :: dmsBlockData where
  "demoUnit = (blockData_new ''foo.1.data'' storageInfo_new)\<lparr>bd_smeMgr := demoMgr, bd_segmentPagesSquare := 2, bd_segmentPages := 4,
     bd_header := header_reset\<lparr>hd_pageNum := 8\<rparr>, bd_maxSegID := 1,
     bd_mmap := demoMmap\<lparr>mm_segs := replicate 2 \<lparr> seg_ptr = 4096, seg_length = DMS_SEGMENT_SZ, seg_offset = 0 \<rparr>\<rparr>\<rparr>"

definition demoOs :: osEnv where
  "demoOs = \<lparr> os_getFileSize = SDB_OK, os_truncate = (\<lambda>_. SDB_OK), os_extend = (\<lambda>_. SDB_OK), os_mmap = (\<lambda>_ _. Mapped 4096), os_newOk = True \<rparr>"

lemma demoOs_ok: "envOk demoOs"
  by (simp add: envOk_def demoOs_def)

lemma demoUnit_space: "unit_space demoUnit"
proof -
  have "tail_clear 2 demoMgr" by (simp add: tail_clear_def demoMgr_def demoSme_def smeMgr_segmentNum_def)
  then show ?thesis using demoMgr_inv
    by (simp add: unit_space_def demoUnit_def blockData_new_def smeMgr_segmentNum_def demoMgr_def [THEN arg_cong, of mgr_segments] demoMmap_def Let_def all_less_two)
qed

theorem findFreeSpace_returns_witness:
  "\<exists>p t. findFreeSpace demoOs 2 4 False demoUnit = Ret (SDB_OK, p) t \<and> blockTaken demoUnit 4 p t"
proof -
  have "Suc (smeMgr_segmentNum (bd_smeMgr demoUnit)) * bd_segmentPages demoUnit \<le> DMS_MAX_PG" "4 \<le> bd_segmentPages demoUnit"
    by (simp_all add: demoUnit_def demoMgr_def smeMgr_segmentNum_def)
  then show ?thesis
    using findFreeSpace_returns [OF demoUnit_space envOk_nonNull [OF demoOs_ok], of 4 0 False] demoOs_ok
    by (auto simp: numeral_2_eq_2 simp del: findFreeSpace.simps)
qed

end
