(* ===== verification/Dms_ExtentChain.thy ===== *)
theory Dms_ExtentChain
  imports Dms_Space
begin

text \<open>
  The extents of a collection: a doubly linked list in the order of the segments they lie in, with a table of the first and the
  last extent of each segment.  \<open>addExtent2Meta\<close> puts a new extent behind the last one of its segment, or of
  the nearest earlier segment that has one, and keeps list, table and logical ids consistent.
\<close>

section \<open>Doubly linked lists\<close>

text \<open>The segment \<open>xs\<close> of a list with links \<open>n\<close> and \<open>p\<close>, entered from \<open>a\<close> and left to \<open>b\<close>.\<close>

fun dlseg :: "('a \<Rightarrow> 'a) \<Rightarrow> ('a \<Rightarrow> 'a) \<Rightarrow> 'a \<Rightarrow> 'a list \<Rightarrow> 'a \<Rightarrow> bool" where
  "dlseg n p a [] b \<longleftrightarrow> True"
| "dlseg n p a (x # xs) b \<longleftrightarrow> p x = a \<and> n x = hd (xs @ [b]) \<and> dlseg n p x xs b"

lemma dlseg_append: "dlseg n p a (xs @ ys) b \<longleftrightarrow> dlseg n p a xs (hd (ys @ [b])) \<and> dlseg n p (last (a # xs)) ys b"
  by (induction xs arbitrary: a) (auto simp: hd_append)

lemma dlseg_cong: "(\<And>x. x \<in> set xs \<Longrightarrow> n' x = n x \<and> p' x = p x) \<Longrightarrow> dlseg n' p' a xs b = dlseg n p a xs b"
  by (induction xs arbitrary: a) auto

text \<open>Redirecting the way in and the way out.\<close>

lemma dlseg_in:
  assumes "dlseg n p a xs b" and "xs \<noteq> [] \<Longrightarrow> p' (hd xs) = a'" and "\<And>x. x \<in> set (tl xs) \<Longrightarrow> p' x = p x"
  shows "dlseg n p' a' xs b"
proof (cases xs)
  case (Cons x ys)
  then show ?thesis using assms dlseg_cong [of ys n n p' p x b] by simp
qed simp

lemma dlseg_out:
  assumes "dlseg n p a xs b" and "xs \<noteq> [] \<Longrightarrow> n' (last xs) = b'" and "\<And>x. x \<in> set (butlast xs) \<Longrightarrow> n' x = n x"
  shows "dlseg n' p a xs b'"
proof (cases xs rule: rev_cases)
  case (snoc ys y)
  then show ?thesis using assms dlseg_cong [of ys n' n p p a y] by (simp add: dlseg_append)
qed simp

lemma dlseg_insert:
  assumes d: "dlseg n p a (xs @ ys) b" "distinct (xs @ ys)" "e \<notin> set (xs @ ys)" "a \<notin> set (xs @ ys)" "b \<notin> set (xs @ ys)"
    and n: "n' e = hd (ys @ [b])" "xs \<noteq> [] \<Longrightarrow> n' (last xs) = e" "\<And>x. x \<noteq> e \<Longrightarrow> x \<noteq> last (a # xs) \<Longrightarrow> n' x = n x"
    and p: "p' e = last (a # xs)" "ys \<noteq> [] \<Longrightarrow> p' (hd ys) = e" "\<And>x. x \<noteq> e \<Longrightarrow> x \<noteq> hd (ys @ [b]) \<Longrightarrow> p' x = p x"
  shows "dlseg n' p' a (xs @ e # ys) b"
proof -
  have xs: "dlseg n p a xs (hd (ys @ [b]))" and ys: "dlseg n p (last (a # xs)) ys b" using d(1) by (simp_all add: dlseg_append)
  have hy: "hd (ys @ [b]) \<notin> set xs" using d by (cases ys) auto
  have lx: "last (a # xs) \<notin> set ys" using d by (cases xs rule: rev_cases) auto
  have "last xs \<notin> set (butlast xs)" if "xs \<noteq> []" using d(2) that by (cases xs rule: rev_cases) auto
  then have bl: "x \<noteq> last (a # xs)" if "x \<in> set (butlast xs)" for x using that by (cases xs rule: rev_cases) auto
  have tl: "x \<noteq> hd (ys @ [b])" if "x \<in> set (tl ys)" for x using that d(2) by (cases ys) auto
  have e: "x \<noteq> e" if "x \<in> set xs \<or> x \<in> set ys" for x using that d(3) by auto
  have "dlseg n' p a xs e"
  proof (rule dlseg_out [OF xs])
    show "n' (last xs) = e" if "xs \<noteq> []" using n(2) that .
    show "n' x = n x" if "x \<in> set (butlast xs)" for x using n(3) [OF e bl] that in_set_butlastD [OF that] by simp
  qed
  moreover have "p' x = p x" if "x \<in> set xs" for x
  proof (rule p(3))
    show "x \<noteq> e" "x \<noteq> hd (ys @ [b])" using e that hy by auto
  qed
  ultimately have "dlseg n' p' a xs e" using dlseg_cong [of xs n' n' p' p a e] by simp
  moreover have "dlseg n p' e ys b"
  proof (rule dlseg_in [OF ys])
    show "p' (hd ys) = e" if "ys \<noteq> []" using p(2) that .
    show "p' x = p x" if "x \<in> set (tl ys)" for x using p(3) [OF e tl] that by (cases ys) auto
  qed
  then have "dlseg n' p' e ys b"
  proof (subst dlseg_cong [of ys n' n p' p' e b])
    show "n' x = n x \<and> p' x = p' x" if "x \<in> set ys" for x using n(3) e that lx by metis
  qed
  ultimately show ?thesis using n(1) p(1) by (simp add: dlseg_append)
qed

section \<open>The chain of a collection\<close>

abbreviation (input) chainOf :: "(nat \<Rightarrow> dmsExtentID list) \<Rightarrow> nat \<Rightarrow> dmsExtentID list" where
  "chainOf G n \<equiv> concat (map G [0..<n])"

definition dataSegment :: "dmsBlockData \<Rightarrow> dmsExtentID \<Rightarrow> nat" where
  "dataSegment s x = u32 (int (extent2Segment s x) - int (bd_dataSegID s))"

text \<open>The first and the last extent of a list of extents.\<close>

definition ends :: "dmsExtentID list \<Rightarrow> dmsExtentID \<times> dmsExtentID" where
  "ends xs = (hd (xs @ [DMS_INVALID_EXTENT]), last (DMS_INVALID_EXTENT # xs))"

definition nextOf :: "dmsBlockData \<Rightarrow> dmsExtentID \<Rightarrow> dmsExtentID" where
  "nextOf s x = ext_nextExtent (bd_extent s x)"

definition prevOf :: "dmsBlockData \<Rightarrow> dmsExtentID \<Rightarrow> dmsExtentID" where
  "prevOf s x = ext_prevExtent (bd_extent s x)"

text \<open>\<open>G k\<close> are the extents in segment \<open>k\<close>, of \<open>N\<close> segments, in the order they were added.\<close>

definition extChain :: "dmsBlockData \<Rightarrow> nat \<Rightarrow> (nat \<Rightarrow> dmsExtentID list) \<Rightarrow> nat \<Rightarrow> bool" where
  "extChain s c G N \<longleftrightarrow>
     (let mb = bd_mb s c; m = bd_metaExt s (mb_mbExExtentID mb); X = chainOf G N
      in extentAddr s (mb_mbExExtentID mb) \<noteq> 0 \<and> mex_segNum m = N \<and> mex_array m = map (ends \<circ> G) [0..<N]
       \<and> distinct X \<and> (\<forall>x\<in>set X. x \<noteq> DMS_INVALID_EXTENT \<and> extentAddr s x \<noteq> 0)
       \<and> dlseg (nextOf s) (prevOf s) DMS_INVALID_EXTENT X DMS_INVALID_EXTENT
       \<and> (mb_firstExtentID mb, mb_lastExtentID mb) = ends X
       \<and> (\<forall>k < N. \<forall>i < length (G k). dataSegment s (G k ! i) = k
            \<and> ext_logicID (bd_extent s (G k ! i)) = int k * 2 ^ getFactor s + int i))"

lemma chainOf_split: "k < N \<Longrightarrow> chainOf G N = chainOf G (Suc k) @ concat (map G [Suc k..<N])"
proof -
  assume "k < N"
  then have "[0..<N] = [0..<Suc k] @ [Suc k..<N]" by (metis Suc_leI less_eq_nat.simps(1) upt_add_eq_append le_add_diff_inverse)
  then show ?thesis by (simp only: map_append concat_append)
qed

lemma chainOf_upd:
  assumes "k < N"
  shows "chainOf (G(k := G k @ [e])) N = chainOf G (Suc k) @ e # concat (map G [Suc k..<N])"
proof -
  have "map (G(k := y)) [Suc k..<N] = map G [Suc k..<N]" for y by simp
  moreover have "map (G(k := y)) [0..<k] = map G [0..<k]" for y by simp
  ultimately show ?thesis unfolding chainOf_split [OF assms, of "G(k := G k @ [e])"] by simp
qed

text \<open>The search through the table finds the extent that precedes segment \<open>k\<close> in the chain.\<close>

lemma ends_snd: "snd (ends xs) = DMS_INVALID_EXTENT \<longleftrightarrow> xs = []" if "DMS_INVALID_EXTENT \<notin> set xs"
  using that by (auto simp: ends_def) (metis last_in_set)

lemma findPrevSeg_last:
  assumes "mex_array m = map (ends \<circ> G) [0..<N]" and "mex_segNum m = N" and "DMS_INVALID_EXTENT \<notin> set (chainOf G N)" and "k \<le> N"
  shows "findPrevSeg m k = (if chainOf G k = [] then None else Some (last (chainOf G k)))"
  using assms(4)
proof (induction k)
  case (Suc k)
  have "DMS_INVALID_EXTENT \<notin> set (G k)" using assms(3) Suc.prems by auto
  then have "mbEx_getLastExtentID k m = (SDB_OK, Some (last (DMS_INVALID_EXTENT # G k)))" "last (DMS_INVALID_EXTENT # G k) = DMS_INVALID_EXTENT \<longleftrightarrow> G k = []"
    using Suc.prems assms(1,2) ends_snd [of "G k"] by (simp_all add: mbEx_getLastExtentID_def ends_def)
  then show ?case using Suc by (auto simp: last_append)
qed simp

section \<open>Adding an extent\<close>

text \<open>What has to be observed of \<open>t\<close> for \<open>e\<close> to be the new last extent of segment \<open>k\<close>.\<close>

definition linkedIn :: "dmsBlockData \<Rightarrow> nat \<Rightarrow> (nat \<Rightarrow> dmsExtentID list) \<Rightarrow> nat \<Rightarrow> nat \<Rightarrow> dmsExtentID \<Rightarrow> dmsBlockData \<Rightarrow> bool" where
  "linkedIn s c G N k e t \<longleftrightarrow>
     (let pr = last (DMS_INVALID_EXTENT # chainOf G (Suc k)); nx = hd (concat (map G [Suc k..<N]) @ [DMS_INVALID_EXTENT]);
          mbEx = mb_mbExExtentID (bd_mb s c)
      in nextOf t e = nx \<and> (pr \<noteq> DMS_INVALID_EXTENT \<longrightarrow> nextOf t pr = e) \<and> (\<forall>x. x \<noteq> e \<longrightarrow> x \<noteq> pr \<longrightarrow> nextOf t x = nextOf s x)
       \<and> prevOf t e = pr \<and> (nx \<noteq> DMS_INVALID_EXTENT \<longrightarrow> prevOf t nx = e) \<and> (\<forall>x. x \<noteq> e \<longrightarrow> x \<noteq> nx \<longrightarrow> prevOf t x = prevOf s x)
       \<and> ext_logicID (bd_extent t e) = int k * 2 ^ getFactor s + int (length (G k))
       \<and> (\<forall>x. x \<noteq> e \<longrightarrow> ext_logicID (bd_extent t x) = ext_logicID (bd_extent s x))
       \<and> mb_mbExExtentID (bd_mb t c) = mbEx \<and> mex_segNum (bd_metaExt t mbEx) = N
       \<and> mex_array (bd_metaExt t mbEx) = (mex_array (bd_metaExt s mbEx))[k := ends (G k @ [e])]
       \<and> mb_firstExtentID (bd_mb t c) = (if pr = DMS_INVALID_EXTENT then e else mb_firstExtentID (bd_mb s c))
       \<and> mb_lastExtentID (bd_mb t c) = (if nx = DMS_INVALID_EXTENT then e else mb_lastExtentID (bd_mb s c))
       \<and> (\<forall>x. extentAddr t x = extentAddr s x \<and> extent2Segment t x = extent2Segment s x)
       \<and> bd_dataSegID t = bd_dataSegID s \<and> bd_pageSizeSquare t = bd_pageSizeSquare s)"

lemma extChainD:
  assumes "extChain s c G N"
  shows "extentAddr s (mb_mbExExtentID (bd_mb s c)) \<noteq> 0" "mex_segNum (bd_metaExt s (mb_mbExExtentID (bd_mb s c))) = N"
    "mex_array (bd_metaExt s (mb_mbExExtentID (bd_mb s c))) = map (ends \<circ> G) [0..<N]" "distinct (chainOf G N)"
    "x \<in> set (chainOf G N) \<Longrightarrow> x \<noteq> DMS_INVALID_EXTENT \<and> extentAddr s x \<noteq> 0"
    "dlseg (nextOf s) (prevOf s) DMS_INVALID_EXTENT (chainOf G N) DMS_INVALID_EXTENT"
    "mb_firstExtentID (bd_mb s c) = hd (chainOf G N @ [DMS_INVALID_EXTENT])" "mb_lastExtentID (bd_mb s c) = last (DMS_INVALID_EXTENT # chainOf G N)"
    "k < N \<Longrightarrow> i < length (G k) \<Longrightarrow> dataSegment s (G k ! i) = k \<and> ext_logicID (bd_extent s (G k ! i)) = int k * 2 ^ getFactor s + int i"
  using assms unfolding extChain_def Let_def by (auto simp: ends_def)

lemma linkedInD:
  assumes "linkedIn s c G N k e t"
  defines "pr \<equiv> last (DMS_INVALID_EXTENT # chainOf G (Suc k))" and "nx \<equiv> hd (concat (map G [Suc k..<N]) @ [DMS_INVALID_EXTENT])"
    and "mbEx \<equiv> mb_mbExExtentID (bd_mb s c)"
  shows "nextOf t e = nx" and "pr \<noteq> DMS_INVALID_EXTENT \<Longrightarrow> nextOf t pr = e" and "x \<noteq> e \<Longrightarrow> x \<noteq> pr \<Longrightarrow> nextOf t x = nextOf s x"
    and "prevOf t e = pr" and "nx \<noteq> DMS_INVALID_EXTENT \<Longrightarrow> prevOf t nx = e" and "x \<noteq> e \<Longrightarrow> x \<noteq> nx \<Longrightarrow> prevOf t x = prevOf s x"
    and "ext_logicID (bd_extent t e) = int k * 2 ^ getFactor s + int (length (G k))"
    and "x \<noteq> e \<Longrightarrow> ext_logicID (bd_extent t x) = ext_logicID (bd_extent s x)"
    and "mb_mbExExtentID (bd_mb t c) = mbEx" and "mex_segNum (bd_metaExt t mbEx) = N"
    and "mex_array (bd_metaExt t mbEx) = (mex_array (bd_metaExt s mbEx))[k := ends (G k @ [e])]"
    and "mb_firstExtentID (bd_mb t c) = (if pr = DMS_INVALID_EXTENT then e else mb_firstExtentID (bd_mb s c))"
    and "mb_lastExtentID (bd_mb t c) = (if nx = DMS_INVALID_EXTENT then e else mb_lastExtentID (bd_mb s c))"
    and "extentAddr t x = extentAddr s x" and "extent2Segment t x = extent2Segment s x"
    and "bd_dataSegID t = bd_dataSegID s" and "bd_pageSizeSquare t = bd_pageSizeSquare s"
  using assms(1) unfolding linkedIn_def Let_def pr_def [symmetric] nx_def [symmetric] mbEx_def [symmetric] by blast+

lemma ends_insert:
  assumes "e \<noteq> DMS_INVALID_EXTENT" and "DMS_INVALID_EXTENT \<notin> set (xs @ ys)"
  shows "ends (xs @ e # ys) = (if last (DMS_INVALID_EXTENT # xs) = DMS_INVALID_EXTENT then e else fst (ends (xs @ ys)),
      if hd (ys @ [DMS_INVALID_EXTENT]) = DMS_INVALID_EXTENT then e else snd (ends (xs @ ys)))"
proof -
  have "last (DMS_INVALID_EXTENT # xs) = DMS_INVALID_EXTENT \<longleftrightarrow> xs = []" "hd (ys @ [DMS_INVALID_EXTENT]) = DMS_INVALID_EXTENT \<longleftrightarrow> ys = []"
    using assms(2) by (cases xs rule: rev_cases; cases ys; auto)+
  then show ?thesis by (auto simp: ends_def hd_append)
qed

lemma chain_linked:
  assumes ch: "extChain s c G N" and li: "linkedIn s c G N k e t" and k: "k < N" and e: "e \<notin> set (chainOf G N)" "e \<noteq> DMS_INVALID_EXTENT"
    and addr: "extentAddr s e \<noteq> 0" and seg: "dataSegment s e = k"
  shows "extChain t c (G(k := G k @ [e])) N"
proof -
  note C = extChainD [OF ch]
  let ?xs = "chainOf G (Suc k)" and ?ys = "concat (map G [Suc k..<N])" and ?G = "G(k := G k @ [e])"
  have split: "chainOf G N = ?xs @ ?ys" using chainOf_split [OF k] .
  have new: "chainOf ?G N = ?xs @ e # ?ys" using chainOf_upd [OF k] .
  have inv: "DMS_INVALID_EXTENT \<notin> set (?xs @ ?ys)" using C(5) unfolding split by blast
  note L = linkedInD [OF li]
  have "dlseg (nextOf t) (prevOf t) DMS_INVALID_EXTENT (chainOf ?G N) DMS_INVALID_EXTENT" unfolding new
  proof (rule dlseg_insert [OF C(6) [unfolded split] C(4) [unfolded split] e(1) [unfolded split] inv inv L(1) _ L(3) L(4) _ L(6)])
    show "nextOf t (last ?xs) = e" if "?xs \<noteq> []" using L(2) inv that last_in_set [OF that] by (metis UnI1 last_ConsR set_append)
    show "prevOf t (hd ?ys) = e" if "?ys \<noteq> []" using L(5) inv that hd_in_set [OF that] by (metis UnI2 hd_append2 set_append)
  qed
  moreover have "(mb_firstExtentID (bd_mb t c), mb_lastExtentID (bd_mb t c)) = ends (chainOf ?G N)"
    using ends_insert [OF e(2) inv] unfolding new L(12,13) C(7,8) split by (simp only: ends_def fst_conv snd_conv)
  moreover have "mex_array (bd_metaExt t (mb_mbExExtentID (bd_mb t c))) = map (ends \<circ> ?G) [0..<N]"
    unfolding L(9,11) C(3) using k by (intro nth_equalityI) (simp_all add: nth_list_update)
  moreover have "dataSegment t (?G j ! i) = j \<and> ext_logicID (bd_extent t (?G j ! i)) = int j * 2 ^ getFactor t + int i" if "j < N" "i < length (?G j)" for j i
  proof -
    have mem: "G j ! i \<noteq> e" if "i < length (G j)" using that \<open>j < N\<close> e(1) by (auto dest: nth_mem)
    have seg': "dataSegment t x = dataSegment s x" "getFactor t = getFactor s" for x using L(14-) by (simp_all add: dataSegment_def getFactor_def)
    show ?thesis
    proof (cases "i < length (G j)")
      case True
      then have "?G j ! i = G j ! i" by (auto simp: nth_append)
      then show ?thesis using C(9) [OF that(1) True] L(8) [OF mem [OF True]] by (simp only: seg')
    next
      case False
      then have "j = k" "?G j ! i = e" "i = length (G k)" using that by (auto simp: nth_append split: if_splits)
      then show ?thesis using seg L(7) by (simp only: seg')
    qed
  qed
  moreover have "distinct (chainOf ?G N)" using C(4) e(1) unfolding new split by auto
  moreover have "\<forall>x\<in>set (chainOf ?G N). x \<noteq> DMS_INVALID_EXTENT \<and> extentAddr t x \<noteq> 0"
    using C(5) e addr unfolding new split L(14) by auto
  ultimately show ?thesis using C(1) L(9,10,14) unfolding extChain_def Let_def by simp
qed

text \<open>The reads of \<open>addExtent2Meta\<close> do not depend on the marking.\<close>

lemma core_reads:
  assumes "core s = core t"
  shows "mb_mbExExtentID (bd_mb s c) = mb_mbExExtentID (bd_mb t c)" "mb_firstExtentID (bd_mb s c) = mb_firstExtentID (bd_mb t c)"
    "mb_lastExtentID (bd_mb s c) = mb_lastExtentID (bd_mb t c)" "bd_metaExt s = bd_metaExt t" "bd_extent s = bd_extent t" "getFactor s = getFactor t"
  using mbCore_eqD(4,5,11) [OF core_eqD(27) [OF assms]] core_eqD(8,10,18) [OF assms] by (simp_all add: getFactor_def)

text \<open>The new entry of the segment table.\<close>

definition enterMeta :: "nat \<Rightarrow> dmsExtentID \<Rightarrow> bool \<Rightarrow> dmsMetaExtent \<Rightarrow> dmsMetaExtent" where
  "enterMeta k e isFirst m =
     (if isFirst then (snd (mbEx_setLastExtentID k e (snd (mbEx_setFirstExtentID k e m))))\<lparr>mex_usedSegNum := mex_usedSegNum m + 1\<rparr>
      else snd (mbEx_setLastExtentID k e m))"

lemma enterMeta_sel:
  assumes "mex_segNum m = N" and "mex_array m = map (ends \<circ> G) [0..<N]" and "k < N"
  shows "mex_segNum (enterMeta k e (G k = []) m) = N" "mex_array (enterMeta k e (G k = []) m) = (mex_array m)[k := ends (G k @ [e])]"
  using assms by (auto simp: enterMeta_def mbEx_setLastExtentID_def mbEx_setFirstExtentID_def ends_def hd_append)

definition entered :: "nat \<Rightarrow> nat \<Rightarrow> dmsExtentID \<Rightarrow> bool \<Rightarrow> int \<Rightarrow> dmsExtentID \<Rightarrow> dmsBlockData \<Rightarrow> dmsBlockData" where
  "entered c k e isFirst lid pr s =
     setExtent e (\<lambda>x. x\<lparr>ext_logicID := lid, ext_prevExtent := pr\<rparr>) (setMetaExt (mb_mbExExtentID (bd_mb s c)) (enterMeta k e isFirst) s)"

lemma set_swap:
  "setMetaExt m f (setExtent e g s) = setExtent e g (setMetaExt m f s)" "setExtent e g (setExtent e h s) = setExtent e (g \<circ> h) s"
  by (simp_all add: set_defs)

lemma ext_upd_commute: "x\<lparr>ext_prevExtent := p, ext_logicID := l\<rparr> = x\<lparr>ext_logicID := l, ext_prevExtent := p\<rparr>"
  by (cases x) simp

lemma yields_enter_first:
  assumes s: "core s = core t" and ch: "extChain t c G N" and k: "k < N" and first: "G k = []"
    and fresh: "ext_prevExtent (bd_extent t e) = DMS_INVALID_EXTENT"
  shows "yields (enterSegment c k e s) (if chainOf G k = [] then None else Some (last (chainOf G k)))
    (entered c k e True (s32 (int k * 2 ^ getFactor t)) (last (DMS_INVALID_EXTENT # chainOf G k)) t)"
proof -
  note C = extChainD [OF ch] and R = core_reads [OF s]
  let ?mbEx = "mb_mbExExtentID (bd_mb t c)" and ?m = "bd_metaExt t (mb_mbExExtentID (bd_mb t c))"
  let ?prev = "if chainOf G k = [] then None else Some (last (chainOf G k))"
  have inv: "DMS_INVALID_EXTENT \<notin> set (chainOf G N)" using C(5) by blast
  have pre: "set (chainOf G k) \<subseteq> set (chainOf G N)" using chainOf_split [OF k, of G] by auto
  have "mb_firstExtentID (bd_mb t c) = DMS_INVALID_EXTENT \<longleftrightarrow> chainOf G N = []" using C(7) inv by (cases "chainOf G N") auto
  then have prev: "(if DMS_INVALID_EXTENT \<noteq> mb_firstExtentID (bd_mb t c) then findPrevSeg ?m k else None) = ?prev"
    using findPrevSeg_last [OF C(3,2) inv, of k] pre k by auto
  have last: "mbEx_getLastExtentID k ?m = (SDB_OK, Some DMS_INVALID_EXTENT)"
    using C(2,3) k first by (simp add: mbEx_getLastExtentID_def ends_def)
  let ?u = "setMetaExt ?mbEx (enterMeta k e True) (setExtent e (\<lambda>x. x\<lparr>ext_logicID := s32 (int k * 2 ^ getFactor t)\<rparr>) t)"
  have "yields (case ?prev of None \<Rightarrow> retM None s' | Some x \<Rightarrow> bindM (updExtent e (\<lambda>e. e\<lparr>ext_prevExtent := x\<rparr>)) (\<lambda>_.
      bindM (extWritePtr (int c) x False) (\<lambda>_. retM (Some x))) s') ?prev
    (entered c k e True (s32 (int k * 2 ^ getFactor t)) (last (DMS_INVALID_EXTENT # chainOf G k)) t)" if "core s' = core ?u" for s'
  proof (cases "chainOf G k = []")
    case True
    have "(bd_extent t e)\<lparr>ext_logicID := l, ext_prevExtent := DMS_INVALID_EXTENT\<rparr> = (bd_extent t e)\<lparr>ext_logicID := l\<rparr>" for l using fresh by (cases "bd_extent t e") simp
    then have "entered c k e True (s32 (int k * 2 ^ getFactor t)) DMS_INVALID_EXTENT t = ?u"
      by (simp add: entered_def set_swap) (simp add: set_defs)
    then show ?thesis using True that by simp
  next
    case False
    then have "last (chainOf G k) \<in> set (chainOf G N)" using pre last_in_set by blast
    then have "extentAddr (setExtent e (\<lambda>x. x\<lparr>ext_prevExtent := last (chainOf G k)\<rparr>) ?u) (last (chainOf G k)) \<noteq> 0" using C(5) by simp
    moreover have "setExtent e (\<lambda>x. x\<lparr>ext_prevExtent := last (chainOf G k)\<rparr>) ?u = entered c k e True (s32 (int k * 2 ^ getFactor t)) (last (DMS_INVALID_EXTENT # chainOf G k)) t"
      unfolding entered_def last_ConsR [OF False] by (simp only: set_swap comp_def)
    ultimately show ?thesis using False that
      by (simp only: if_False option.case) (rule yields_bind, erule yields_updExtent, rule yields_bind, erule yields_extWrite, simp, simp)
  qed
  moreover have "enterSegment c k e s = bindM (updExtent e (\<lambda>e. e\<lparr>ext_logicID := s32 (int k * 2 ^ getFactor t)\<rparr>)) (\<lambda>_.
      bindM (updMetaExt ?mbEx (enterMeta k e True)) (\<lambda>_ s'. case ?prev of None \<Rightarrow> retM None s' | Some x \<Rightarrow> bindM (updExtent e (\<lambda>e. e\<lparr>ext_prevExtent := x\<rparr>)) (\<lambda>_.
      bindM (extWritePtr (int c) x False) (\<lambda>_. retM (Some x))) s')) s"
    unfolding enterSegment_def Let_def R last prev enterMeta_def by (simp cong: option.case_cong)
  ultimately show ?thesis
    by (simp only:) (rule yields_bind, rule yields_updExtent [OF s], rule yields_bind, erule yields_updMetaExt, blast)
qed

lemma yields_enter_next:
  assumes s: "core s = core t" and ch: "extChain t c G N" and k: "k < N" and first: "G k \<noteq> []" and e: "e \<notin> set (chainOf G N)"
    and lid: "int k * 2 ^ getFactor t + int (length (G k)) < 2147483648"
  shows "yields (enterSegment c k e s) (Some (last (G k))) (entered c k e False (int k * 2 ^ getFactor t + int (length (G k))) (last (G k)) t)"
proof -
  note C = extChainD [OF ch] and R = core_reads [OF s]
  let ?mbEx = "mb_mbExExtentID (bd_mb t c)" and ?m = "bd_metaExt t (mb_mbExExtentID (bd_mb t c))" and ?l = "last (G k)"
  have mem: "?l \<in> set (chainOf G N)" using first chainOf_split [OF k, of G] by auto
  then have l: "?l \<noteq> DMS_INVALID_EXTENT" "extentAddr t ?l \<noteq> 0" "?l \<noteq> e" using C(5) e by auto
  have last: "mbEx_getLastExtentID k ?m = (SDB_OK, Some ?l)"
    using C(2,3) k first by (simp add: mbEx_getLastExtentID_def ends_def)
  have "ext_logicID (bd_extent t ?l) = int k * 2 ^ getFactor t + int (length (G k) - 1)"
    using C(9) [OF k, of "length (G k) - 1"] first by (simp add: last_conv_nth)
  moreover have "0 \<le> int k * 2 ^ getFactor t" by simp
  ultimately have lid': "s32 (ext_logicID (bd_extent t ?l) + 1) = int k * 2 ^ getFactor t + int (length (G k))"
    using lid first by (cases "G k") (auto simp: cast_simps)
  let ?u = "setExtent e (\<lambda>x. x\<lparr>ext_prevExtent := ?l\<rparr>) (setMetaExt ?mbEx (enterMeta k e False) t)"
  have run: "enterSegment c k e s = bindM (updMetaExt ?mbEx (enterMeta k e False)) (\<lambda>_.
      bindM (updExtent e (\<lambda>e. e\<lparr>ext_prevExtent := ?l\<rparr>)) (\<lambda>_. bindM (extWritePtr (int c) ?l False) (\<lambda>_.
      bindM (getM (\<lambda>s. ext_logicID (bd_extent s ?l))) (\<lambda>lid. bindM (updExtent e (\<lambda>e. e\<lparr>ext_logicID := s32 (lid + 1)\<rparr>)) (\<lambda>_.
      retM (Some ?l)))))) s"
    unfolding enterSegment_def Let_def R last enterMeta_def using l(1) by simp
  have lu: "ext_logicID (bd_extent s' ?l) = ext_logicID (bd_extent t ?l)" if "core s' = core ?u" for s'
    using l(3) by (simp add: core_eqD(8) [OF that])
  have "setExtent e (\<lambda>x. x\<lparr>ext_logicID := s32 (ext_logicID (bd_extent t ?l) + 1)\<rparr>) ?u
      = entered c k e False (int k * 2 ^ getFactor t + int (length (G k))) ?l t"
    by (simp add: entered_def set_swap comp_def ext_upd_commute lid')
  then have fin: "yields (bindM (getM (\<lambda>s. ext_logicID (bd_extent s ?l))) (\<lambda>lid. bindM (updExtent e (\<lambda>e. e\<lparr>ext_logicID := s32 (lid + 1)\<rparr>)) (\<lambda>_.
      retM (Some ?l))) s') (Some ?l) (entered c k e False (int k * 2 ^ getFactor t + int (length (G k))) ?l t)" if "core s' = core ?u" for s'
    using that unfolding bindM_getM lu [OF that] by - (rule yields_bind, erule yields_updExtent, simp)
  have "extentAddr ?u ?l \<noteq> 0" using l(2) by simp
  then show ?thesis unfolding run
    by - (rule yields_bind, rule yields_updMetaExt [OF s], rule yields_bind, erule yields_updExtent, rule yields_bind, erule yields_extWrite, assumption, erule fin)
qed

definition linkedNext :: "dmsExtentID \<Rightarrow> dmsExtentID \<Rightarrow> dmsBlockData \<Rightarrow> dmsBlockData" where
  "linkedNext e nx s = setExtent nx (\<lambda>x. x\<lparr>ext_prevExtent := e\<rparr>) (setExtent e (\<lambda>x. x\<lparr>ext_nextExtent := nx\<rparr>) s)"

lemma yields_linkNext:
  assumes "core s = core t" and "extentAddr t nx \<noteq> 0"
  shows "yields (linkNext c e nx s) () (linkedNext e nx t)"
proof -
  have "extentAddr (setExtent e (\<lambda>x. x\<lparr>ext_nextExtent := nx\<rparr>) t) nx \<noteq> 0" using assms(2) by simp
  then show ?thesis unfolding linkNext_def linkedNext_def
    by - (rule yields_bind, rule yields_updExtent [OF assms(1)], rule yields_bind, erule yields_extWrite, assumption,
        rule yields_withRW, erule yields_updExtent)
qed

definition firstIn :: "dmsExtentID \<Rightarrow> dmsMB \<Rightarrow> dmsMB" where
  "firstIn e mb = mb\<lparr>mb_firstExtentID := e, mb_lastExtentID := (if DMS_INVALID_EXTENT = mb_lastExtentID mb then e else mb_lastExtentID mb)\<rparr>"

lemma firstIn_core: "mbCore a = mbCore b \<Longrightarrow> mbCore (firstIn e a) = mbCore (firstIn e b)"
  using mbCore_eqD(5) [of a b] unfolding firstIn_def by (simp add: mbCore_upd(3) [of a b])

text \<open>The four ways \<open>linkExtent\<close> can go.\<close>

definition linked :: "nat \<Rightarrow> dmsExtentID \<Rightarrow> dmsExtentID option \<Rightarrow> dmsExtentID \<Rightarrow> dmsBlockData \<Rightarrow> dmsBlockData" where
  "linked c e prv nx s =
     (case prv of
        Some p \<Rightarrow> setExtent p (\<lambda>x. x\<lparr>ext_nextExtent := e\<rparr>)
          (if nx \<noteq> DMS_INVALID_EXTENT then linkedNext e nx s else setMB c (\<lambda>mb. mb\<lparr>mb_lastExtentID := e\<rparr>) s)
      | None \<Rightarrow> setMB c (firstIn e) (if nx \<noteq> DMS_INVALID_EXTENT then linkedNext e nx s else s))"

lemma yields_linkExtent:
  assumes s: "core s = core t" and nx: "nx \<noteq> DMS_INVALID_EXTENT \<Longrightarrow> extentAddr t nx \<noteq> 0"
    and rd: "case prv of Some p \<Rightarrow> nextOf t p = nx | None \<Rightarrow> mb_firstExtentID (bd_mb t c) = nx"
  shows "yields (linkExtent c e prv s) SDB_OK (linked c e prv nx t)"
proof (cases prv)
  case None
  have run: "linkExtent c e None s = bindM (if nx \<noteq> DMS_INVALID_EXTENT then linkNext c e nx else retM ()) (\<lambda>_. bindM (updMB c (firstIn e)) (\<lambda>_. retM SDB_OK)) s"
    using rd None core_reads(2) [OF s] by (simp add: linkExtent_def firstIn_def [abs_def])
  have "yields ((if nx \<noteq> DMS_INVALID_EXTENT then linkNext c e nx else retM ()) s) () (if nx \<noteq> DMS_INVALID_EXTENT then linkedNext e nx t else t)"
    using yields_linkNext [OF s nx] s by simp
  then show ?thesis unfolding None run linked_def option.case
    by (rule yields_bind) (rule yields_bind, erule yields_updMB, erule firstIn_core, simp)
next
  case (Some p)
  have run: "linkExtent c e (Some p) s = withRW (int c) p (\<lambda>s. bindM (if nx \<noteq> DMS_INVALID_EXTENT then linkNext c e nx else updMB c (\<lambda>mb. mb\<lparr>mb_lastExtentID := e\<rparr>)) (\<lambda>_.
      bindM (updExtent p (\<lambda>x. x\<lparr>ext_nextExtent := e\<rparr>)) (\<lambda>_. retM SDB_OK)) s) s"
    using rd Some core_reads(5) [OF s] by (simp add: linkExtent_def nextOf_def withRW_def)
  have "yields ((if nx \<noteq> DMS_INVALID_EXTENT then linkNext c e nx else updMB c (\<lambda>mb. mb\<lparr>mb_lastExtentID := e\<rparr>)) s) ()
      (if nx \<noteq> DMS_INVALID_EXTENT then linkedNext e nx t else setMB c (\<lambda>mb. mb\<lparr>mb_lastExtentID := e\<rparr>) t)"
    using yields_linkNext [OF s nx] yields_updMB [OF s mbCore_upd(2)] by simp
  then show ?thesis unfolding Some run linked_def option.case
    by - (rule yields_withRW, erule yields_bind, rule yields_bind, erule yields_updExtent, simp)
qed

lemma dlseg_last: "dlseg n p a xs b \<Longrightarrow> xs \<noteq> [] \<Longrightarrow> n (last xs) = b"
  by (cases xs rule: rev_cases) (auto simp: dlseg_append)

text \<open>The state after \<open>addExtent2Meta\<close>.\<close>

definition addedExtent :: "nat \<Rightarrow> (nat \<Rightarrow> dmsExtentID list) \<Rightarrow> nat \<Rightarrow> nat \<Rightarrow> dmsExtentID \<Rightarrow> dmsBlockData \<Rightarrow> dmsBlockData" where
  "addedExtent c G N k e s =
     (let xs = chainOf G (Suc k); ys = concat (map G [Suc k..<N])
      in linked c e (if xs = [] then None else Some (last xs)) (hd (ys @ [DMS_INVALID_EXTENT]))
           (entered c k e (G k = []) (int k * 2 ^ getFactor s + int (length (G k))) (last (DMS_INVALID_EXTENT # xs)) s))"

lemma linked_sel [simp]:
  "bd_metaExt (linked c e prv nx s) = bd_metaExt s" "bd_record (linked c e prv nx s) = bd_record s"
  "bd_dataSegID (linked c e prv nx s) = bd_dataSegID s" "bd_pageSizeSquare (linked c e prv nx s) = bd_pageSizeSquare s"
  "extentAddr (linked c e prv nx s) x = extentAddr s x" "extent2Segment (linked c e prv nx s) x = extent2Segment s x"
  "mb_mbExExtentID (bd_mb (linked c e prv nx s) c) = mb_mbExExtentID (bd_mb s c)" "bd_ctx (linked c e prv nx s) = bd_ctx s"
  "ext_logicID (bd_extent (linked c e prv nx s) x) = ext_logicID (bd_extent s x)"
  by (auto simp: linked_def linkedNext_def firstIn_def split: option.split)

lemma entered_sel [simp]:
  "bd_extent (entered c k e b lid pr s) = (bd_extent s)(e := (bd_extent s e)\<lparr>ext_logicID := lid, ext_prevExtent := pr\<rparr>)"
  "bd_record (entered c k e b lid pr s) = bd_record s" "bd_mb (entered c k e b lid pr s) = bd_mb s"
  "bd_metaExt (entered c k e b lid pr s) = (bd_metaExt s)(mb_mbExExtentID (bd_mb s c) := enterMeta k e b (bd_metaExt s (mb_mbExExtentID (bd_mb s c))))"
  "bd_dataSegID (entered c k e b lid pr s) = bd_dataSegID s" "bd_pageSizeSquare (entered c k e b lid pr s) = bd_pageSizeSquare s"
  "extentAddr (entered c k e b lid pr s) x = extentAddr s x" "extent2Segment (entered c k e b lid pr s) x = extent2Segment s x"
  "bd_ctx (entered c k e b lid pr s) = bd_ctx s"
  by (simp_all add: entered_def)

lemma linked_links:
  assumes "e \<noteq> nx" and "prv \<noteq> Some e" and "\<And>p. prv = Some p \<Longrightarrow> p \<noteq> DMS_INVALID_EXTENT" and "nextOf s e = DMS_INVALID_EXTENT"
  shows "nextOf (linked c e prv nx s) = (nextOf s)(e := nx, (case prv of Some p \<Rightarrow> p | None \<Rightarrow> e) := (case prv of Some p \<Rightarrow> e | None \<Rightarrow> nx))"
    and "prevOf (linked c e prv nx s) = (if nx \<noteq> DMS_INVALID_EXTENT then (prevOf s)(nx := e) else prevOf s)"
  using assms by (auto simp: linked_def linkedNext_def nextOf_def prevOf_def fun_eq_iff split: option.split)

lemma added_linkedIn:
  assumes ch: "extChain s c G N" and k: "k < N" and e: "e \<notin> set (chainOf G N)" "e \<noteq> DMS_INVALID_EXTENT"
    and fresh: "nextOf s e = DMS_INVALID_EXTENT"
  shows "linkedIn s c G N k e (addedExtent c G N k e s)"
proof -
  note C = extChainD [OF ch]
  define xs where "xs = chainOf G (Suc k)"
  define ys where "ys = concat (map G [Suc k..<N])"
  have split: "chainOf G N = xs @ ys" unfolding xs_def ys_def by (rule chainOf_split [OF k])
  define pr where "pr = last (DMS_INVALID_EXTENT # xs)"
  define nx where "nx = hd (ys @ [DMS_INVALID_EXTENT])"
  define prv where "prv = (if xs = [] then None else Some (last xs))"
  define t where "t = entered c k e (G k = []) (int k * 2 ^ getFactor s + int (length (G k))) pr s"
  have inv: "DMS_INVALID_EXTENT \<notin> set (xs @ ys)" "e \<notin> set (xs @ ys)" using C(5) e(1) unfolding split by blast+
  have nx: "e \<noteq> nx" using inv(2) e(2) unfolding nx_def by (cases ys) auto
  have prv: "(pr = DMS_INVALID_EXTENT \<longleftrightarrow> prv = None)" "\<And>p. prv = Some p \<Longrightarrow> p = pr \<and> p \<noteq> DMS_INVALID_EXTENT \<and> p \<noteq> e" "pr \<noteq> e"
    using inv e(2) unfolding pr_def prv_def by (cases xs rule: rev_cases; auto)+
  have last: "mb_lastExtentID (bd_mb s c) = DMS_INVALID_EXTENT \<longleftrightarrow> nx = DMS_INVALID_EXTENT" if "prv = None"
  proof -
    have "nx = DMS_INVALID_EXTENT \<longleftrightarrow> ys = []" using inv(1) unfolding nx_def by (cases ys) auto
    then show ?thesis using that inv C(8) unfolding split prv_def by (cases ys rule: rev_cases) (auto split: if_splits)
  qed
  have links: "nextOf (linked c e prv nx t) = (nextOf s)(e := nx, (case prv of Some p \<Rightarrow> p | None \<Rightarrow> e) := (case prv of Some p \<Rightarrow> e | None \<Rightarrow> nx))"
    "prevOf (linked c e prv nx t) = (if nx \<noteq> DMS_INVALID_EXTENT then (prevOf s)(e := pr, nx := e) else (prevOf s)(e := pr))"
    using linked_links [OF nx, of prv t] prv fresh by (auto simp: t_def nextOf_def prevOf_def fun_eq_iff)
  have mb: "mb_firstExtentID (bd_mb (linked c e prv nx t) c) = (if pr = DMS_INVALID_EXTENT then e else mb_firstExtentID (bd_mb s c))"
    "mb_lastExtentID (bd_mb (linked c e prv nx t) c) = (if nx = DMS_INVALID_EXTENT then e else mb_lastExtentID (bd_mb s c))"
    using prv(1) last by (auto simp: linked_def linkedNext_def firstIn_def t_def split: option.split)
  have added: "addedExtent c G N k e s = linked c e prv nx t" by (simp only: addedExtent_def Let_def prv_def nx_def pr_def t_def xs_def ys_def)
  show ?thesis unfolding linkedIn_def Let_def xs_def [symmetric] ys_def [symmetric] pr_def [symmetric] nx_def [symmetric] added mb links
    using prv nx enterMeta_sel [OF C(2,3) k] by (auto simp: t_def split: option.splits)
qed

lemma yields_enterSegment:
  assumes s: "core s = core t" and ch: "extChain t c G N" and k: "k < N" and e: "e \<notin> set (chainOf G N)"
    and fresh: "prevOf t e = DMS_INVALID_EXTENT" and lid: "int k * 2 ^ getFactor t + int (length (G k)) < 2147483648"
  shows "yields (enterSegment c k e s) (if chainOf G (Suc k) = [] then None else Some (last (chainOf G (Suc k))))
    (entered c k e (G k = []) (int k * 2 ^ getFactor t + int (length (G k))) (last (DMS_INVALID_EXTENT # chainOf G (Suc k))) t)"
proof (cases "G k = []")
  case True
  have "0 \<le> int k * 2 ^ getFactor t" by simp
  then have "s32 (int k * 2 ^ getFactor t) = int k * 2 ^ getFactor t" using lid by (intro s32_id) linarith+
  moreover have "chainOf G (Suc k) = chainOf G k" "int (length (G k)) = 0" "(G k = []) = True" using True by simp_all
  ultimately show ?thesis using yields_enter_first [OF s ch k True fresh [unfolded prevOf_def]] by (simp only: add_0_right)
next
  case False
  then show ?thesis using yields_enter_next [OF s ch k False e lid] by simp
qed

lemma yields_addExtent2Meta:
  assumes s: "core s = core t" and ch: "extChain t c G N" and ctx: "isMBLockType EXCLUSIVE (bd_ctx t)" "ctx_mbID (bd_ctx t) = c"
    and k: "dataSegment t e = k" "k < N" and e: "e \<notin> set (chainOf G N)"
    and fresh: "prevOf t e = DMS_INVALID_EXTENT" and lid: "int k * 2 ^ getFactor t + int (length (G k)) < 2147483648"
  shows "yields (addExtent2Meta e s) SDB_OK (addedExtent c G N k e t)"
proof -
  note C = extChainD [OF ch]
  let ?mbEx = "mb_mbExExtentID (bd_mb t c)" and ?xs = "chainOf G (Suc k)" and ?ys = "concat (map G [Suc k..<N])"
  let ?prv = "if ?xs = [] then None else Some (last ?xs)" and ?nx = "hd (?ys @ [DMS_INVALID_EXTENT])"
  let ?u = "entered c k e (G k = []) (int k * 2 ^ getFactor t + int (length (G k))) (last (DMS_INVALID_EXTENT # ?xs)) t"
  have inv: "set ?ys \<subseteq> set (chainOf G N)" "set ?xs \<subseteq> set (chainOf G N)" unfolding chainOf_split [OF k(2)] by auto
  have nx: "extentAddr ?u ?nx \<noteq> 0" if "?nx \<noteq> DMS_INVALID_EXTENT"
  proof -
    have "?nx \<in> set ?ys" using that by (metis append_Nil hd_append hd_in_set list.sel(1))
    then have "?nx \<in> set (chainOf G N)" using inv(1) by blast
    then show ?thesis using C(5) unfolding entered_sel by blast
  qed
  have dl: "dlseg (nextOf t) (prevOf t) DMS_INVALID_EXTENT ?xs ?nx" using C(6) unfolding chainOf_split [OF k(2)] dlseg_append by blast
  have "nextOf ?u (last ?xs) = ?nx" if "?xs \<noteq> []"
  proof -
    have "last ?xs \<noteq> e" using last_in_set [OF that] inv(2) e by blast
    then have "nextOf ?u (last ?xs) = nextOf t (last ?xs)" by (simp only: nextOf_def entered_sel fun_upd_apply if_False)
    then show ?thesis using dlseg_last [OF dl that] by (simp only:)
  qed
  moreover have "mb_firstExtentID (bd_mb t c) = ?nx" if "?xs = []"
    using C(7) unfolding chainOf_split [OF k(2)] that by (simp only: append_Nil)
  ultimately have rd: "case ?prv of Some p \<Rightarrow> nextOf ?u p = ?nx | None \<Rightarrow> mb_firstExtentID (bd_mb ?u c) = ?nx"
    unfolding entered_sel(3) by (cases "?xs = []") (simp_all only: if_P if_not_P if_True if_False simp_thms option.case)
  have lnk: "yields (linkExtent c e ?prv s') SDB_OK (addedExtent c G N k e t)" if "core s' = core ?u" for s'
    using yields_linkExtent [OF that nx rd, of e] unfolding addedExtent_def Let_def .
  have run: "addExtent2Meta e s = bindM (extWritePtr (int c) ?mbEx True) (\<lambda>ok. if \<not> ok then retM SDB_SYS
      else withRW (int c) ?mbEx (\<lambda>s1. if k \<ge> mex_segNum (bd_metaExt s1 ?mbEx) then Ret SDB_SYS s1
        else bindM (extWritePtr (int c) ?mbEx True) (\<lambda>_. bindM (enterSegment c k e) (linkExtent c e)) s1)) s"
    using ctx k(1) core_reads(1) [OF s, of c] core_eqD(14,26) [OF s] core_addr(1) [OF s, of e]
    by (simp add: addExtent2Meta_def Let_def dataSegment_def cong del: if_weak_cong)
  have inner: "yields ((\<lambda>s1. if k \<ge> mex_segNum (bd_metaExt s1 ?mbEx) then Ret SDB_SYS s1
        else bindM (extWritePtr (int c) ?mbEx True) (\<lambda>_. bindM (enterSegment c k e) (linkExtent c e)) s1) s') SDB_OK (addedExtent c G N k e t)"
    if "core s' = core t" for s'
  proof -
    have "\<not> k \<ge> mex_segNum (bd_metaExt s' ?mbEx)" using C(2) k(2) by (simp add: core_eqD(10) [OF that])
    then show ?thesis
      by (simp only: if_False) (rule yields_bind, rule yields_extWrite [OF that C(1)], rule yields_bind,
        erule yields_enterSegment [OF _ ch k(2) e fresh lid], erule lnk)
  qed
  show ?thesis unfolding run
    by (rule yields_bind, rule yields_extWrite [OF s C(1)], simp only: simp_thms if_False, rule yields_withRW, erule inner)
qed

lemma extChain_core: "core s = core t \<Longrightarrow> extChain s c G N = extChain t c G N"
proof -
  assume s: "core s = core t"
  have "nextOf s = nextOf t" "prevOf s = prevOf t" "\<And>x. dataSegment s x = dataSegment t x"
    using core_reads(5) [OF s] core_addr(1) [OF s] core_eqD(14) [OF s] by (auto simp: nextOf_def prevOf_def dataSegment_def)
  then show ?thesis unfolding extChain_def Let_def core_reads [OF s] core_addr(2) [OF s] by simp
qed

section \<open>Properties\<close>

text \<open>C7: The extents of a collection are one doubly linked list, ordered by segment, and within a segment in the order they were
  added; the table of the meta extent holds the first and the last extent of every segment, and the logical id of an extent is made of
  its segment and its position there.  \<open>addExtent2Meta\<close> succeeds for a new extent and keeps all of it: the extent becomes the last one of
  its segment, wherever that is in the list.\<close>

theorem extents_in_segment_order:
  assumes "extChain s c G N" and "isMBLockType EXCLUSIVE (bd_ctx s)" and "ctx_mbID (bd_ctx s) = c"
    and "dataSegment s e = k" and "k < N" and "e \<notin> set (concat (map G [0..<N]))" and "e \<noteq> DMS_INVALID_EXTENT" and "extentAddr s e \<noteq> 0"
    and "bd_extent s e = ext_init n c tot" and "int k * 2 ^ getFactor s + int (length (G k)) < 2147483648"
  shows "\<exists>t. addExtent2Meta e s = Ret SDB_OK t \<and> extChain t c (G(k := G k @ [e])) N
    \<and> concat (map (G(k := G k @ [e])) [0..<N]) = concat (map G [0..<Suc k]) @ [e] @ concat (map G [Suc k..<N]) \<and> bd_record t = bd_record s"
proof -
  have fresh: "prevOf s e = DMS_INVALID_EXTENT" "nextOf s e = DMS_INVALID_EXTENT" using assms(9) by (simp_all add: prevOf_def nextOf_def ext_init_def)
  obtain t where t: "addExtent2Meta e s = Ret SDB_OK t" "core t = core (addedExtent c G N k e s)"
    using yields_addExtent2Meta [OF refl assms(1-6) fresh(1) assms(10)] by (auto simp: yields_def)
  have "linkedIn s c G N k e (addedExtent c G N k e s)" by (rule added_linkedIn [OF assms(1,5,6,7) fresh(2)])
  then have "extChain (addedExtent c G N k e s) c (G(k := G k @ [e])) N" by (rule chain_linked [OF assms(1) _ assms(5,6,7,8,4)])
  then have "extChain t c (G(k := G k @ [e])) N" using extChain_core [OF t(2)] by simp
  moreover have "bd_record t = bd_record s" using core_eqD(9) [OF t(2)] by (simp add: addedExtent_def Let_def)
  ultimately show ?thesis using t(1) chainOf_upd [OF assms(5), of G e] by auto
qed

definition demoChain :: dmsBlockData where
  "demoChain = (blockData_new ''foo.1.data'' storageInfo_new)\<lparr>bd_mmap := demoMmap, bd_segmentPagesSquare := 11, bd_pageSizeSquare := 16,
     bd_maxSegID := 0, bd_mb := (\<lambda>_. (mb_reset (Some ''bar'') 1 0 0 0 mb_zero)\<lparr>mb_mbExExtentID := 7\<rparr>),
     bd_metaExt := (\<lambda>_. mex_init 1 0 4), bd_extent := (\<lambda>_. ext_init 1 0 65536), bd_ctx := ctx_reset\<lparr>ctx_mbID := 0, ctx_mbLockType := EXCLUSIVE\<rparr>\<rparr>"

lemma demoChain_addr: "extentAddr demoChain 5 \<noteq> 0" "extentAddr demoChain 7 \<noteq> 0"
  by (simp_all add: demoChain_def blockData_new_def extentAddr_def extent2Segment_def mmap_getSegmentInfo_def demoMmap_def cast_simps)

theorem extents_in_segment_order_witness:
  "\<exists>t. addExtent2Meta 5 demoChain = Ret SDB_OK t \<and> extChain t 0 ((\<lambda>_. [])(0 := [5])) 4"
proof -
  have ch: "extChain demoChain 0 (\<lambda>_. []) 4"
    using demoChain_addr(2) by (simp add: extChain_def demoChain_def mb_reset_def mex_init_def ends_def Let_def comp_def map_replicate_const)
  have k: "dataSegment demoChain 5 = 0" "ctx_mbID (bd_ctx demoChain) = 0" "isMBLockType EXCLUSIVE (bd_ctx demoChain)"
    "bd_extent demoChain 5 = ext_init 1 0 65536"
    by (simp_all add: dataSegment_def extent2Segment_def demoChain_def blockData_new_def isMBLockType_def cast_simps)
  show ?thesis using extents_in_segment_order [OF ch k(3,2,1) _ _ _ demoChain_addr(1) k(4)] by auto
qed

end
