(* ===== verification/Dms_FreeStore.thy ===== *)
theory Dms_FreeStore
  imports Dms_Space
begin

text \<open>
  What the free lists of a collection represent, and what the operations do to it.  \<open>free_inv s c F\<close> says that
  the 20 delete lists of metadata block \<open>c\<close> are the chains \<open>F 0\<close> to \<open>F 19\<close>: every member is a deleted record at its
  own offset whose size belongs to the class of the list.  Saving a deleted record puts it in
  front of its list, a search takes the first fitting record of the first three in a list,
  and a new extent is cut into pieces that tile it.
\<close>

section \<open>Chains of deleted records\<close>

fun dchain :: "dmsBlockData \<Rightarrow> dmsRecordID \<Rightarrow> dmsRecordID list \<Rightarrow> bool" where
  "dchain s start [] \<longleftrightarrow> rid_isNull start"
| "dchain s start (r # rs) \<longleftrightarrow>
     start = r \<and> \<not> rid_isNull r \<and> del_isDeleted (bd_record s r) \<and> rec_myOffset (bd_record s r) = rid_offset r
     \<and> dchain s (del_getNextRID (bd_record s r)) rs"

definition free_inv :: "dmsBlockData \<Rightarrow> nat \<Rightarrow> (nat \<Rightarrow> dmsRecordID list) \<Rightarrow> bool" where
  "free_inv s c F \<longleftrightarrow> length (mb_deleteList (bd_mb s c)) = MB_MAX \<and>
     (\<forall>j<MB_MAX. dchain s (mb_deleteList (bd_mb s c) ! j) (F j) \<and> distinct (F j)
        \<and> (\<forall>r\<in>set (F j). deleteSlot (rec_getSize (bd_record s r)) = j))"

definition freeSet :: "(nat \<Rightarrow> dmsRecordID list) \<Rightarrow> dmsRecordID set" where
  "freeSet F = (\<Union>j<MB_MAX. set (F j))"

lemma dchain_cong:
  "(\<And>r. r \<in> set rs \<Longrightarrow> bd_record t r = bd_record s r) \<Longrightarrow> dchain t start rs = dchain s start rs"
  by (induction rs arbitrary: start) auto

lemma free_inv_cong:
  assumes "mb_deleteList (bd_mb t c) = mb_deleteList (bd_mb s c)"
    and "\<And>r. r \<in> freeSet F \<Longrightarrow> bd_record t r = bd_record s r"
  shows "free_inv t c F = free_inv s c F"
proof -
  have "bd_record t r = bd_record s r" if "j < MB_MAX" "r \<in> set (F j)" for j r
    using assms(2) that by (auto simp: freeSet_def)
  then show ?thesis using dchain_cong [of _ t s] unfolding free_inv_def assms(1) by (metis (mono_tags, lifting))
qed

lemma free_inv_core:
  assumes "core s = core t"
  shows "free_inv s c F = free_inv t c F"
proof (rule free_inv_cong)
  show "mb_deleteList (bd_mb s c) = mb_deleteList (bd_mb t c)" by (rule mbCore_eqD(6) [OF core_eqD(27) [OF assms]])
  show "bd_record s r = bd_record t r" if "r \<in> freeSet F" for r using core_eqD(9) [OF assms] by simp
qed

lemma dchain_member:
  "dchain s start rs \<Longrightarrow> r \<in> set rs \<Longrightarrow>
    \<not> rid_isNull r \<and> del_isDeleted (bd_record s r) \<and> rec_myOffset (bd_record s r) = rid_offset r"
  by (induction rs arbitrary: start) auto

lemma free_inv_member:
  assumes "free_inv s c F" and "r \<in> freeSet F"
  shows "\<not> rid_isNull r" and "del_isDeleted (bd_record s r)" and "rec_myOffset (bd_record s r) = rid_offset r"
    and "r \<in> set (F (deleteSlot (rec_getSize (bd_record s r))))"
proof -
  obtain j where j: "j < MB_MAX" "r \<in> set (F j)" using assms(2) by (auto simp: freeSet_def)
  have "dchain s (mb_deleteList (bd_mb s c) ! j) (F j)" and k: "deleteSlot (rec_getSize (bd_record s r)) = j"
    using assms(1) j by (auto simp: free_inv_def)
  then have "\<not> rid_isNull r \<and> del_isDeleted (bd_record s r) \<and> rec_myOffset (bd_record s r) = rid_offset r"
    using dchain_member j(2) by blast
  then show "\<not> rid_isNull r" "del_isDeleted (bd_record s r)" "rec_myOffset (bd_record s r) = rid_offset r" by simp_all
  show "r \<in> set (F (deleteSlot (rec_getSize (bd_record s r))))" using k j(2) by simp
qed

section \<open>Saving\<close>

text \<open>The record that \<open>_saveDeletedRecord\<close> writes for a given size.\<close>

definition savedRecord :: "dmsRecordID \<Rightarrow> nat \<Rightarrow> dmsRecordID \<Rightarrow> dmsRecord \<Rightarrow> dmsRecord" where
  "savedRecord rid sz nxt r0 =
     del_setNextRID nxt ((rec_setSize sz (del_setDeleted r0))\<lparr>rec_myOffset := rid_offset rid\<rparr>)"

lemma getSize_frame [simp]:
  "rec_getSize (r\<lparr>rec_myOffset := x\<rparr>) = rec_getSize r" "rec_getSize (r\<lparr>rec_previousOffset := x\<rparr>) = rec_getSize r"
  "rec_getSize (r\<lparr>rec_nextOffset := x\<rparr>) = rec_getSize r" "rec_getSize (r\<lparr>rec_body := b\<rparr>) = rec_getSize r"
  "rec_getSize (del_setNextRID q r) = rec_getSize r"
  by (simp_all add: rec_getSize_def del_setNextRID_def)

lemma getFlag_frame [simp]:
  "rec_getFlag (r\<lparr>rec_myOffset := x\<rparr>) = rec_getFlag r" "rec_getFlag (r\<lparr>rec_previousOffset := x\<rparr>) = rec_getFlag r"
  "rec_getFlag (r\<lparr>rec_nextOffset := x\<rparr>) = rec_getFlag r" "rec_getFlag (r\<lparr>rec_body := b\<rparr>) = rec_getFlag r"
  "rec_getFlag (del_setNextRID q r) = rec_getFlag r"
  by (simp_all add: rec_getFlag_def del_setNextRID_def)

lemma del_getNextRID_set [simp]: "del_getNextRID (del_setNextRID q r) = q"
  by (simp add: del_getNextRID_def del_setNextRID_def)

lemma savedRecord_props:
  assumes "0 < sz" and "sz \<le> DMS_RECORD_MAX_SZ"
  shows "del_isDeleted (savedRecord rid sz nxt r0)" and "rec_getSize (savedRecord rid sz nxt r0) = sz"
    and "rec_myOffset (savedRecord rid sz nxt r0) = rid_offset rid" and "del_getNextRID (savedRecord rid sz nxt r0) = nxt"
  using getSize_setSize [OF assms]
  by (simp_all add: savedRecord_def del_isDeleted_def del_setDeleted_def del_setNextRID_def del_getNextRID_def)

lemma saveState_eq:
  assumes "0 < sz"
  shows "saveState c rid (int sz) s =
    (let slot = deleteSlot sz; mb = bd_mb s c; e = bd_extent s (rid_extent rid); st = bd_mbStat s (mb_blockID mb)
     in s\<lparr>bd_record := (bd_record s)(rid := savedRecord rid sz (mb_deleteList mb ! slot) (bd_record s rid)),
          bd_extent := (bd_extent s)(rid_extent rid := e\<lparr>ext_freeSpace := s32 (ext_freeSpace e + int sz)\<rparr>),
          bd_mbStat := (bd_mbStat s)(mb_blockID mb := st\<lparr>st_totalDataFreeSpace := st_totalDataFreeSpace st + sz\<rparr>),
          bd_mb := (bd_mb s)(c := mb\<lparr>mb_deleteList := (mb_deleteList mb)[slot := rid]\<rparr>)\<rparr>)"
  using assms by (simp add: saveState_def savedRecord_def Let_def)

lemma save_free_inv:
  assumes inv: "free_inv s c F" and new: "rid \<notin> freeSet F" and "\<not> rid_isNull rid"
    and "0 < sz" and "sz \<le> DMS_RECORD_MAX_SZ"
  shows "free_inv (saveState c rid (int sz) s) c (F(deleteSlot sz := rid # F (deleteSlot sz)))"
proof -
  let ?t = "saveState c rid (int sz) s" and ?k = "deleteSlot sz" and ?r = "savedRecord rid sz (mb_deleteList (bd_mb s c) ! deleteSlot sz) (bd_record s rid)"
  have k: "?k < MB_MAX" using assms(5) by (rule deleteSlot_less)
  have rec: "bd_record ?t = (bd_record s)(rid := ?r)"
    and dl: "mb_deleteList (bd_mb ?t c) = (mb_deleteList (bd_mb s c))[?k := rid]"
    using assms(4) by (simp_all add: saveState_eq Let_def)
  have len: "length (mb_deleteList (bd_mb s c)) = MB_MAX" using inv by (simp add: free_inv_def)
  have old: "dchain ?t start (F j) = dchain s start (F j)" if "j < MB_MAX" for j start
    by (rule dchain_cong) (use new that rec in \<open>auto simp: freeSet_def\<close>)
  have sizes: "\<forall>r\<in>set (F j). deleteSlot (rec_getSize (bd_record ?t r)) = j" if "j < MB_MAX" for j
    using inv new that unfolding rec free_inv_def freeSet_def by auto
  note p = savedRecord_props [OF assms(4,5), of rid "mb_deleteList (bd_mb s c) ! ?k" "bd_record s rid"]
  show ?thesis unfolding free_inv_def
  proof (intro conjI allI impI)
    show "length (mb_deleteList (bd_mb ?t c)) = MB_MAX" using len by (simp add: dl)
    fix j assume j: "j < MB_MAX"
    have Fj: "dchain s (mb_deleteList (bd_mb s c) ! j) (F j)" "distinct (F j)" "rid \<notin> set (F j)"
      using inv new j by (auto simp: free_inv_def freeSet_def)
    show "dchain ?t (mb_deleteList (bd_mb ?t c) ! j) ((F(?k := rid # F ?k)) j)"
    proof (cases "j = ?k")
      case True
      then show ?thesis using Fj old [OF j] k len assms(3) p by (simp add: dl rec)
    next
      case False
      then show ?thesis using Fj old [OF j] len by (simp add: dl)
    qed
    show "distinct ((F(?k := rid # F ?k)) j)" using Fj by (cases "j = ?k") auto
    show "\<forall>r\<in>set ((F(?k := rid # F ?k)) j). deleteSlot (rec_getSize (bd_record ?t r)) = j"
      using sizes [OF j] p(2) by (auto simp: rec)
  qed
qed

lemma freeSet_push: "k < MB_MAX \<Longrightarrow> freeSet (F(k := r # F k)) = insert r (freeSet F)"
  by (auto simp: freeSet_def split: if_splits)

section \<open>Cutting an extent\<close>

text \<open>The pieces of the space \<open>cur\<close> from offset \<open>off\<close> on, with \<open>d\<close> the size of a full piece.\<close>

function pieces :: "int \<Rightarrow> int \<Rightarrow> dmsOffset \<Rightarrow> (dmsOffset \<times> int) list" where
  "pieces d cur off =
     (if 0 < d \<and> cur - d \<ge> int DMS_MIN_RECORD_SZ then (off, d) # pieces d (cur - d) (off + d)
      else if cur > d then [(off, 4096)] @ (if cur > 4096 then [(off + 4096, cur - 4096)] else [])
      else if cur > 0 then [(off, cur)] else [])"
  by pat_completeness auto
termination
  by (relation "measure (\<lambda>(d, cur, off). nat cur)") auto

declare pieces.simps [simp del]

definition savePieces :: "nat \<Rightarrow> dmsExtentID \<Rightarrow> (dmsOffset \<times> int) list \<Rightarrow> dmsBlockData \<Rightarrow> dmsBlockData" where
  "savePieces c ext ps s = fold (\<lambda>(off, sz) s. saveState c (RID ext off) sz s) ps s"

lemma savePieces_simps [simp]:
  "savePieces c ext [] s = s"
  "savePieces c ext ((off, sz) # ps) s = savePieces c ext ps (saveState c (RID ext off) sz s)"
  by (simp_all add: savePieces_def)

lemma saveState_mmap [simp]:
  "extentAddr (saveState c rid sz s) x = extentAddr s x"
  by (simp add: saveState_def Let_def extentAddr_def extent2Segment_def extentSegOffset_def)

lemma yields_savePiece:
  assumes "core s = core t" and "extentAddr t (rid_extent rid) \<noteq> 0"
  shows "yields (savePiece c rid sz s) () (saveState c rid sz t)"
  unfolding savePiece_def bindM_getM
proof (rule yields_bind)
  show "yields (recWritePtr (int (mb_blockID (bd_mb s c))) rid 16 False s) True t"
    by (rule yields_recWrite) (use assms in \<open>simp_all add: recLen_def\<close>)
  fix s' assume "core s' = core t"
  from yields_save [OF this, of c rid sz]
  show "yields (withRW (int (mb_blockID (bd_mb s c))) (rid_extent rid)
      (bindM (saveDeletedRecordAt c rid sz) (\<lambda>_. retM ())) s') () (saveState c rid sz t)"
    by (intro yields_withRW yields_bind [of "saveDeletedRecordAt c rid sz"]) auto
qed

lemma yields_piece_bind:
  assumes "core s = core t" and "extentAddr t ext \<noteq> 0"
    and "\<And>s'. core s' = core (saveState c (RID ext off) sz t) \<Longrightarrow> yields (f () s') b u"
  shows "yields (bindM (savePiece c (RID ext off) sz) f s) b u"
  using assms by (intro yields_bind [OF yields_savePiece]) auto

text \<open>The loop and the two steps behind it save exactly the pieces, in order.\<close>

lemma yields_mapPieces:
  assumes "core s = core t" and "extentAddr t ext \<noteq> 0" and "d \<le> 4096 \<longrightarrow> cur \<le> d"
  shows "yields (bindM (mapPieces c ext d cur off) (\<lambda>(cur, off).
      bindM (if cur > d then bindM (savePiece c (RID ext off) (int DMS_PAGE_SIZE4K))
               (\<lambda>_. retM (cur - int DMS_PAGE_SIZE4K, off + int DMS_PAGE_SIZE4K))
             else retM (cur, off)) (\<lambda>(cur1, off1).
      if cur1 > 0 then savePiece c (RID ext off1) cur1 else retM ())) s) ()
    (savePieces c ext (pieces d cur off) t)"
  using assms
proof (induction d cur off arbitrary: s t rule: pieces.induct)
  case (1 d cur off)
  show ?case
  proof (cases "0 < d \<and> cur - d \<ge> int DMS_MIN_RECORD_SZ")
    case True
    have d: "\<not> d \<le> 4096" using 1 True by auto
    have m: "mapPieces c ext d cur off = bindM (savePiece c (RID ext off) d) (\<lambda>_. mapPieces c ext d (cur - d) (off + d))"
      using True by (subst mapPieces.simps) simp
    have p: "pieces d cur off = (off, d) # pieces d (cur - d) (off + d)" using True by (subst pieces.simps) simp
    show ?thesis unfolding m bindM_assoc p savePieces_simps
      by (rule yields_piece_bind [OF "1.prems"(1,2)], rule "1.IH" [OF True]) (use "1.prems"(2) d in simp_all)
  next
    case False
    have m: "mapPieces c ext d cur off = retM (cur, off)" using False by (subst mapPieces.simps) auto
    show ?thesis
    proof (cases "cur > d")
      case True
      then have c4: "cur > 4096" using "1.prems"(3) by auto
      have p: "pieces d cur off = [(off, 4096), (off + 4096, cur - 4096)]"
        using False True c4 by (subst pieces.simps) auto
      show ?thesis unfolding m p bindM_retM savePieces_simps using True c4
        by (auto simp: bindM_assoc intro!: yields_piece_bind [OF "1.prems"(1,2)] yields_savePiece)
          (use "1.prems"(2) in simp)
    next
      case c: False
      have "pieces d cur off = (if cur > 0 then [(off, cur)] else [])" using False c by (subst pieces.simps) simp
      then show ?thesis unfolding m bindM_retM using c "1.prems"(1,2) yields_savePiece [OF "1.prems"(1), of "RID ext off"] by simp
    qed
  qed
qed

text \<open>The pieces follow each other from \<open>off\<close> on and end where the space ends; each is a possible record size.\<close>

fun tiles :: "int \<Rightarrow> int \<Rightarrow> (dmsOffset \<times> int) list \<Rightarrow> bool" where
  "tiles off stop [] \<longleftrightarrow> off = stop"
| "tiles off stop ((o1, sz) # ps) \<longleftrightarrow>
     o1 = off \<and> int DMS_MIN_RECORD_SZ \<le> sz \<and> sz \<le> int DMS_RECORD_MAX_SZ \<and> tiles (off + sz) stop ps"

lemma pieces_tile:
  assumes "int DMS_MIN_RECORD_SZ \<le> cur" and "d = int DMS_RECORD_MAX_SZ \<or> cur = d \<and> int DMS_MIN_RECORD_SZ \<le> d \<and> d < int DMS_RECORD_MAX_SZ"
  shows "tiles off (off + cur) (pieces d cur off)"
  using assms
proof (induction d cur off rule: pieces.induct)
  case (1 d cur off)
  show ?case
  proof (cases "0 < d \<and> cur - d \<ge> int DMS_MIN_RECORD_SZ")
    case True
    then have "d = int DMS_RECORD_MAX_SZ" using "1.prems"(2) by auto
    then show ?thesis using "1.IH" [OF True] True by (subst pieces.simps) (auto simp: algebra_simps)
  next
    case False
    then show ?thesis using "1.prems" by (subst pieces.simps) auto
  qed
qed

definition extentPieces :: "nat \<Rightarrow> (dmsOffset \<times> int) list" where
  "extentPieces tot =
     (let free = int tot - int DMS_EXTENT_METADATA_SZ
      in pieces (min free (int DMS_RECORD_MAX_SZ)) free (int DMS_EXTENT_METADATA_SZ))"

lemma extentPieces_tile:
  assumes "DMS_EXTENT_METADATA_SZ + DMS_MIN_RECORD_SZ \<le> tot"
  shows "tiles (int DMS_EXTENT_METADATA_SZ) (int tot) (extentPieces tot)"
proof (cases "int tot - 36 < int DMS_RECORD_MAX_SZ")
  case True
  then show ?thesis using pieces_tile [of "int tot - 36" "int tot - 36" 36] assms
    by (simp add: extentPieces_def Let_def min_def)
next
  case False
  then show ?thesis using pieces_tile [of "int tot - 36" "int DMS_RECORD_MAX_SZ" 36] assms
    by (auto simp: extentPieces_def Let_def min_def)
qed

text \<open>\<open>_mapExtent2DelList\<close> on an extent just initialised.\<close>

definition freshExtent :: "dmsBlockData \<Rightarrow> dmsExtentID \<Rightarrow> nat \<Rightarrow> bool" where
  "freshExtent s ext tot \<longleftrightarrow>
     ext_freeSpace (bd_extent s ext) = int tot - int DMS_EXTENT_METADATA_SZ
     \<and> ext_blockSize (bd_extent s ext) * 2 ^ bd_pageSizeSquare s = tot"

definition zeroFree :: "dmsExtentID \<Rightarrow> dmsBlockData \<Rightarrow> dmsBlockData" where
  "zeroFree ext = setExtent ext (\<lambda>e. e\<lparr>ext_freeSpace := 0\<rparr>)"

lemma zeroFree_addr [simp]: "extentAddr (zeroFree ext s) x = extentAddr s x"
  by (simp add: zeroFree_def)

lemma yields_mapExtent2DelList:
  assumes "core s = core t" and "extentAddr t ext \<noteq> 0" and "freshExtent t ext tot"
    and "DMS_EXTENT_METADATA_SZ + DMS_MIN_RECORD_SZ \<le> tot" and "tot < 2147483648"
  shows "yields (mapExtent2DelList c ext s) () (savePieces c ext (extentPieces tot) (zeroFree ext t))"
proof -
  define free where "free = int tot - 36"
  have e: "ext_freeSpace (bd_extent s ext) = free" "int (ext_blockSize (bd_extent s ext)) * 2 ^ bd_pageSizeSquare s = int tot"
    using assms(3) core_eqD(8,18) [OF assms(1)] by (auto simp: freshExtent_def free_def)
  have u: "u32 free = nat free" "\<not> u32 free < DMS_MIN_RECORD_SZ"
    using assms(4,5) by (auto simp: free_def cast_simps)
  have sz: "s32 (int tot) = int tot" using assms(5) by (simp add: cast_simps)
  have off: "int tot - free = 36" by (simp add: free_def)
  have eq: "mapExtent2DelList c ext s = bindM (updExtent ext (\<lambda>e. e\<lparr>ext_freeSpace := 0\<rparr>)) (\<lambda>_.
      bindM (mapPieces c ext (min free (int DMS_RECORD_MAX_SZ)) free 36) (\<lambda>(cur, off).
      bindM (if cur > min free (int DMS_RECORD_MAX_SZ)
             then bindM (savePiece c (RID ext off) (int DMS_PAGE_SIZE4K))
                    (\<lambda>_. retM (cur - int DMS_PAGE_SIZE4K, off + int DMS_PAGE_SIZE4K))
             else retM (cur, off)) (\<lambda>(cur1, off1).
      if cur1 > 0 then savePiece c (RID ext off1) cur1 else retM ()))) s"
    unfolding mapExtent2DelList_def Let_def e sz off by (rule if_not_P) (rule u(2))
  have pc: "extentPieces tot = pieces (min free (int DMS_RECORD_MAX_SZ)) free 36"
    by (simp add: extentPieces_def free_def Let_def)
  show ?thesis unfolding eq pc
  proof (rule yields_bind)
    show "yields (updExtent ext (\<lambda>e. e\<lparr>ext_freeSpace := 0\<rparr>) s) () (zeroFree ext t)"
      unfolding zeroFree_def by (rule yields_updExtent [OF assms(1)])
  qed (rule yields_mapPieces, use assms(2) in auto)
qed

text \<open>What saving a list of pieces does to the lists, to the records and to the counters.\<close>

fun pushPieces :: "dmsExtentID \<Rightarrow> (dmsOffset \<times> int) list \<Rightarrow> (nat \<Rightarrow> dmsRecordID list) \<Rightarrow> nat \<Rightarrow> dmsRecordID list" where
  "pushPieces ext [] F = F"
| "pushPieces ext ((o1, sz) # ps) F =
     pushPieces ext ps (F(deleteSlot (nat sz) := RID ext o1 # F (deleteSlot (nat sz))))"

lemma tiles_bounds: "tiles off stop ps \<Longrightarrow> (o1, sz) \<in> set ps \<Longrightarrow> off \<le> o1 \<and> 36 \<le> sz \<and> sz \<le> 16777216 \<and> o1 + sz \<le> stop"
proof (induction ps arbitrary: off)
  case (Cons p ps)
  have ge: "off' \<le> stop" if "tiles off' stop qs" for off' qs
    using that by (induction qs arbitrary: off') (auto, fastforce)
  from Cons ge show ?case by (cases p) fastforce
qed simp

lemma saveState_frame:
  "r \<noteq> rid \<Longrightarrow> bd_record (saveState c rid sz s) r = bd_record s r"
  "x \<noteq> rid_extent rid \<Longrightarrow> bd_extent (saveState c rid sz s) x = bd_extent s x"
  "i \<noteq> c \<Longrightarrow> bd_mb (saveState c rid sz s) i = bd_mb s i"
  "mb_blockID (bd_mb (saveState c rid sz s) i) = mb_blockID (bd_mb s i)"
  by (simp_all add: saveState_def Let_def)

lemma savePieces_records:
  "(\<And>o1 sz. (o1, sz) \<in> set ps \<Longrightarrow> r \<noteq> RID ext o1) \<Longrightarrow> bd_record (savePieces c ext ps s) r = bd_record s r"
proof (induction ps arbitrary: s)
  case (Cons p ps)
  obtain o1 sz where p: "p = (o1, sz)" by (cases p)
  have "bd_record (savePieces c ext ps (saveState c (RID ext o1) sz s)) r = bd_record (saveState c (RID ext o1) sz s) r"
    by (rule Cons.IH) (use Cons.prems in \<open>auto simp: p\<close>)
  also have "\<dots> = bd_record s r" by (rule saveState_frame(1)) (use Cons.prems in \<open>auto simp: p\<close>)
  finally show ?case by (simp add: p)
qed simp

lemma savePieces_extents: "x \<noteq> ext \<Longrightarrow> bd_extent (savePieces c ext ps s) x = bd_extent s x"
  by (induction ps arbitrary: s) (auto simp: saveState_frame)

lemma savePieces_inv:
  assumes "free_inv s c F" and "tiles off stop ps" and "ext \<noteq> DMS_INVALID_EXTENT"
    and "\<And>r. r \<in> freeSet F \<Longrightarrow> rid_extent r = ext \<Longrightarrow> rid_offset r < off"
  shows "free_inv (savePieces c ext ps s) c (pushPieces ext ps F)
    \<and> freeSet (pushPieces ext ps F) = freeSet F \<union> (\<lambda>p. RID ext (fst p)) ` set ps
    \<and> (\<forall>(o1, sz)\<in>set ps. rec_getSize (bd_record (savePieces c ext ps s) (RID ext o1)) = nat sz)"
  using assms
proof (induction ps arbitrary: s F off)
  case Nil
  then show ?case by simp
next
  case (Cons p ps)
  obtain o1 sz where p: "p = (o1, sz)" by (cases p)
  let ?k = "deleteSlot (nat sz)" and ?s = "saveState c (RID ext o1) sz s"
  let ?F = "F(?k := RID ext o1 # F ?k)"
  have sz: "0 < nat sz" "nat sz \<le> DMS_RECORD_MAX_SZ" "int (nat sz) = sz" and o1: "o1 = off" and t: "tiles (off + sz) stop ps"
    using Cons.prems(2) by (auto simp: p)
  have fresh: "RID ext o1 \<notin> freeSet F" using Cons.prems(4) o1 by fastforce
  have inv: "free_inv ?s c ?F"
    using save_free_inv [OF Cons.prems(1) fresh _ sz(1,2)] Cons.prems(3) sz(3) by (simp add: rid_isNull_def)
  have fs: "freeSet ?F = insert (RID ext o1) (freeSet F)" by (rule freeSet_push) (rule deleteSlot_less [OF sz(2)])
  have later: "rid_offset r < off + sz" if "r \<in> freeSet ?F" "rid_extent r = ext" for r
    using that Cons.prems(4) [of r] sz o1 unfolding fs by (cases "r = RID ext o1") auto
  have IH: "free_inv (savePieces c ext ps ?s) c (pushPieces ext ps ?F)
    \<and> freeSet (pushPieces ext ps ?F) = freeSet ?F \<union> (\<lambda>p. RID ext (fst p)) ` set ps
    \<and> (\<forall>(o1, sz)\<in>set ps. rec_getSize (bd_record (savePieces c ext ps ?s) (RID ext o1)) = nat sz)"
    by (rule Cons.IH [OF inv t Cons.prems(3)]) (rule later)
  have "RID ext o1 \<noteq> RID ext o2" if "(o2, z) \<in> set ps" for o2 z
    using tiles_bounds [OF t that] sz o1 by auto
  then have "bd_record (savePieces c ext ps ?s) (RID ext o1) = bd_record ?s (RID ext o1)"
    by (intro savePieces_records) blast
  moreover have "rec_getSize (bd_record ?s (RID ext o1)) = nat sz"
    using savedRecord_props(2) [OF sz(1,2)] saveState_eq [OF sz(1), of c "RID ext o1" s] sz(3) by (simp add: Let_def)
  ultimately have head: "rec_getSize (bd_record (savePieces c ext ps ?s) (RID ext o1)) = nat sz" by (rule trans [OF arg_cong])
  show ?case unfolding p pushPieces.simps savePieces_simps
  proof (intro conjI)
    show "free_inv (savePieces c ext ps ?s) c (pushPieces ext ps ?F)" by (rule conjunct1 [OF IH])
    show "freeSet (pushPieces ext ps ?F) = freeSet F \<union> (\<lambda>p. RID ext (fst p)) ` set ((o1, sz) # ps)"
      using conjunct1 [OF conjunct2 [OF IH]] fs by simp
    show "\<forall>(o1, sz)\<in>set ((o1, sz) # ps). rec_getSize (bd_record (savePieces c ext ps ?s) (RID ext o1)) = nat sz"
      using head conjunct2 [OF conjunct2 [OF IH]] by simp
  qed
qed

lemma tiles_sum: "tiles off stop ps \<Longrightarrow> (\<Sum>p\<leftarrow>ps. snd p) = stop - off"
proof (induction ps arbitrary: off)
  case (Cons p ps)
  then show ?case by (cases p) fastforce
qed simp

lemma savePieces_freeSpace:
  assumes "\<forall>(o1, sz)\<in>set ps. 0 < sz" and "0 \<le> ext_freeSpace (bd_extent s ext)"
    and "ext_freeSpace (bd_extent s ext) + (\<Sum>p\<leftarrow>ps. snd p) < 2147483648"
  shows "ext_freeSpace (bd_extent (savePieces c ext ps s) ext) = ext_freeSpace (bd_extent s ext) + (\<Sum>p\<leftarrow>ps. snd p)"
  using assms
proof (induction ps arbitrary: s)
  case (Cons p ps)
  obtain o1 sz where p: "p = (o1, sz)" by (cases p)
  let ?s = "saveState c (RID ext o1) sz s"
  have nn: "0 \<le> (\<Sum>p\<leftarrow>ps. snd p)" using Cons.prems(1) by (intro sum_list_nonneg) fastforce
  have sz: "0 < sz" using Cons.prems(1) by (simp add: p)
  have "ext_freeSpace (bd_extent s ext) + sz < 2147483648" using Cons.prems(3) nn by (simp add: p)
  then have "ext_freeSpace (bd_extent ?s ext) = ext_freeSpace (bd_extent s ext) + sz"
    using sz Cons.prems(2) by (simp add: saveState_def Let_def cast_simps)
  with Cons.IH [of ?s] Cons.prems sz show ?case by (simp add: p add.assoc)
qed simp

section \<open>Properties of the free lists\<close>

text \<open>C39: The size a record is given holds its header and its data, is at most 16 MB and a multiple of four,
  for every record that \<open>insertRecord\<close> lets through; and the list for that size exists.\<close>

theorem record_space_suffices:
  assumes "0 < len" and "len + DMS_RECORD_METADATA_SZ \<le> DMS_RECORD_USER_MAX_SZ"
  shows "len + DMS_RECORD_METADATA_SZ \<le> finalRecordSize len \<and> finalRecordSize len \<le> DMS_RECORD_MAX_SZ
    \<and> finalRecordSize len mod 4 = 0 \<and> deleteSlot (finalRecordSize len) < MB_MAX"
  using finalRecordSize_bounds [OF assms] deleteSlot_less by simp

theorem record_space_suffices_witness:
  "100 + DMS_RECORD_METADATA_SZ \<le> finalRecordSize 100 \<and> finalRecordSize 100 \<le> DMS_RECORD_MAX_SZ"
  using record_space_suffices [of 100] by simp

text \<open>C31: \<open>_mapExtent2DelList\<close> on an extent just initialised: the pieces cover the extent from behind its header
  to its end without gap or overlap, each of 36 bytes to 16 MB; afterwards exactly these pieces
  are new in the free lists, each in the list of its size, the lists are chains of deleted records again,
  and the free space of the extent is what it was.\<close>

theorem extent_is_cut_into_tiles:
  assumes "free_inv s c F" and "extentAddr s ext \<noteq> 0" and "freshExtent s ext tot" and "ext \<noteq> DMS_INVALID_EXTENT"
    and "DMS_EXTENT_METADATA_SZ + DMS_MIN_RECORD_SZ \<le> tot" and "tot < 2147483648"
    and "\<forall>r\<in>freeSet F. rid_extent r \<noteq> ext"
  shows "tiles (int DMS_EXTENT_METADATA_SZ) (int tot) (extentPieces tot)
    \<and> (\<exists>t. mapExtent2DelList c ext s = Ret () t \<and> free_inv t c (pushPieces ext (extentPieces tot) F)
      \<and> freeSet (pushPieces ext (extentPieces tot) F) = freeSet F \<union> {RID ext o1 | o1. \<exists>sz. (o1, sz) \<in> set (extentPieces tot)}
      \<and> (\<forall>(o1, sz)\<in>set (extentPieces tot). rec_getSize (bd_record t (RID ext o1)) = nat sz)
      \<and> ext_freeSpace (bd_extent t ext) = ext_freeSpace (bd_extent s ext))"
proof -
  let ?ps = "extentPieces tot"
  have tl: "tiles (int DMS_EXTENT_METADATA_SZ) (int tot) ?ps" by (rule extentPieces_tile [OF assms(5)])
  define u where "u = savePieces c ext ?ps (zeroFree ext s)"
  obtain t where t: "mapExtent2DelList c ext s = Ret () t" "core t = core u"
    using yields_mapExtent2DelList [OF refl assms(2,3,5,6), of c] by (auto simp: yields_def u_def)
  have z: "free_inv (zeroFree ext s) c F" using assms(1) by (subst free_inv_cong [of _ _ s]) (simp_all add: zeroFree_def)
  have none: "rid_offset r < int DMS_EXTENT_METADATA_SZ" if "r \<in> freeSet F" "rid_extent r = ext" for r
    using assms(7) that by blast
  note inv = savePieces_inv [OF z tl assms(4) none, folded u_def]
  have "ext_freeSpace (bd_extent u ext) = int tot - 36"
    using savePieces_freeSpace [of ?ps "zeroFree ext s" ext c] tiles_bounds [OF tl] tiles_sum [OF tl] assms(5,6)
    by (fastforce simp: u_def zeroFree_def)
  then have "ext_freeSpace (bd_extent t ext) = ext_freeSpace (bd_extent s ext)"
    using assms(3) core_eqD(8) [OF t(2)] by (simp add: freshExtent_def)
  moreover have "free_inv t c (pushPieces ext ?ps F)" using inv free_inv_core [OF t(2)] by simp
  moreover have "freeSet (pushPieces ext ?ps F) = freeSet F \<union> {RID ext o1 | o1. \<exists>sz. (o1, sz) \<in> set ?ps}"
    using inv by force
  moreover have "\<forall>(o1, sz)\<in>set ?ps. rec_getSize (bd_record t (RID ext o1)) = nat sz"
    using inv core_eqD(9) [OF t(2)] by simp
  ultimately show ?thesis using t(1) tl by blast
qed

text \<open>A unit with one mapped segment whose collection 0 has empty free lists; extent 5 is one page of 64 KB.\<close>

definition demoFreeState :: dmsBlockData where
  "demoFreeState = (blockData_new ''foo.1.data'' storageInfo_new)\<lparr>bd_mmap := demoMmap,
     bd_segmentPagesSquare := 11, bd_pageSizeSquare := 16, bd_dataSegID := 0, bd_maxSegID := 0,
     bd_mb := (\<lambda>_. mb_reset (Some ''bar'') 1 0 0 0 mb_zero),
     bd_extent := (\<lambda>_. ext_init 1 0 65536)\<rparr>"

lemma demoFree_inv: "free_inv demoFreeState 0 (\<lambda>_. [])"
  by (simp add: free_inv_def demoFreeState_def mb_reset_def rid_isNull_def rid_null_def)

lemma demoFree_addr: "extentAddr demoFreeState 5 \<noteq> 0"
  by (simp add: demoFreeState_def extentAddr_def extent2Segment_def mmap_getSegmentInfo_def demoMmap_def cast_simps)

theorem extent_is_cut_into_tiles_witness:
  "\<exists>t. mapExtent2DelList 0 5 demoFreeState = Ret () t
     \<and> free_inv t 0 (pushPieces 5 (extentPieces 65536) (\<lambda>_. [])) \<and> ext_freeSpace (bd_extent t 5) = 65500"
proof -
  have "freshExtent demoFreeState 5 65536" by (simp add: freshExtent_def demoFreeState_def ext_init_def cast_simps)
  moreover have "ext_freeSpace (bd_extent demoFreeState 5) = 65500" by (simp add: demoFreeState_def ext_init_def cast_simps)
  moreover have "\<forall>r\<in>freeSet (\<lambda>_. []). rid_extent r \<noteq> 5" by (simp add: freeSet_def)
  ultimately show ?thesis using extent_is_cut_into_tiles [OF demoFree_inv demoFree_addr, of 65536] by auto
qed

end
