(* ===== verification/Dms_FreeSearch.thy ===== *)
theory Dms_FreeSearch
  imports Dms_FreeStore
begin

text \<open>
  The search of \<open>_allocRecordSpace\<close> on the free lists.  \<open>firstFit\<close> is the specification of the search in one
  list (the first fitting record among the first three), \<open>takeState\<close> the effect of unlinking the record
  found.  The free lists together implement a map from record ids to
  sizes: the locale \<open>free_store\<close> states what saving and taking promise of that map, and the
  splitting of a cell is proved from these promises alone.
\<close>

section \<open>The search in one list\<close>

fun firstFit :: "dmsBlockData \<Rightarrow> nat \<Rightarrow> nat \<Rightarrow> dmsRecordID option \<Rightarrow> dmsRecordID list \<Rightarrow> (dmsRecordID option \<times> dmsRecordID) option" where
  "firstFit s req 0 pre rs = None"
| "firstFit s req (Suc k) pre [] = None"
| "firstFit s req (Suc k) pre (r # rs) =
     (if rec_getSize (bd_record s r) \<ge> req then Some (pre, r) else firstFit s req k (Some r) rs)"

definition unlinked :: "nat \<Rightarrow> nat \<Rightarrow> dmsRecordID option \<Rightarrow> dmsRecordID \<Rightarrow> dmsBlockData \<Rightarrow> dmsBlockData" where
  "unlinked c j pre nxt s = (case pre of
       None \<Rightarrow> setMB c (\<lambda>mb. mb\<lparr>mb_deleteList := (mb_deleteList mb)[j := nxt]\<rparr>) s
     | Some p \<Rightarrow> setRecord p (del_setNextRID nxt) s)"

definition takeState :: "nat \<Rightarrow> nat \<Rightarrow> dmsRecordID option \<Rightarrow> dmsRecordID \<Rightarrow> dmsBlockData \<Rightarrow> dmsBlockData" where
  "takeState c j pre rid s =
     setExtent (rid_extent rid) (\<lambda>e. e\<lparr>ext_freeSpace := s32 (ext_freeSpace e - int (rec_getSize (bd_record s rid)))\<rparr>)
       (unlinked c j pre (del_getNextRID (bd_record s rid)) s)"

definition takeFound :: "nat \<Rightarrow> nat \<Rightarrow> (dmsRecordID option \<times> dmsRecordID) option \<Rightarrow> dmsBlockData \<Rightarrow> dmsBlockData" where
  "takeFound c j found s = (case found of None \<Rightarrow> s | Some (pre, r) \<Rightarrow> takeState c j pre r s)"

lemma firstFit_SomeD:
  "firstFit s req k pre rs = Some (p, r) \<Longrightarrow> \<exists>xs ys. rs = xs @ r # ys \<and> length xs < k
     \<and> p = (if xs = [] then pre else Some (last xs)) \<and> req \<le> rec_getSize (bd_record s r)
     \<and> (\<forall>x\<in>set xs. rec_getSize (bd_record s x) < req)"
proof (induction s req k pre rs rule: firstFit.induct)
  case (3 s req k pre x rs)
  show ?case
  proof (cases "rec_getSize (bd_record s x) \<ge> req")
    case True
    then show ?thesis using "3.prems" by (intro exI [of _ "[]"] exI [of _ rs]) auto
  next
    case False
    then obtain xs ys where "rs = xs @ r # ys" "length xs < k" "p = (if xs = [] then Some x else Some (last xs))"
      "req \<le> rec_getSize (bd_record s r)" "\<forall>x\<in>set xs. rec_getSize (bd_record s x) < req"
      using 3 by auto
    then show ?thesis using False by (intro exI [of _ "x # xs"] exI [of _ ys]) auto
  qed
qed simp_all

lemma firstFit_None:
  "firstFit s req k pre rs = None \<longleftrightarrow> (\<forall>x\<in>set (take k rs). rec_getSize (bd_record s x) < req)"
  by (induction s req k pre rs rule: firstFit.induct) auto

lemma unlinked_sel [simp]:
  "extentAddr (unlinked c j pre nxt t) x = extentAddr t x" "bd_extent (unlinked c j pre nxt t) = bd_extent t"
  by (simp_all add: unlinked_def split: option.split)

lemma yields_unlink:
  assumes "core s = core t" and "\<forall>p. pre = Some p \<longrightarrow> extentAddr t (rid_extent p) \<noteq> 0"
  shows "yields ((case pre of
       None \<Rightarrow> updMB c (\<lambda>mb. mb\<lparr>mb_deleteList := (mb_deleteList mb)[j := nxt]\<rparr>)
     | Some p \<Rightarrow> bindM (recWritePtr (int c) p DMS_RECORD_METADATA_SZ False) (\<lambda>_.
                   withRW (int c) (rid_extent p) (updRecord p (del_setNextRID nxt)))) s) () (unlinked c j pre nxt t)"
proof (cases pre)
  case None
  then show ?thesis unfolding unlinked_def None option.case by (intro yields_updMB assms(1) mbCore_upd)
next
  case (Some p)
  have ap: "extentAddr t (rid_extent p) \<noteq> 0" using assms(2) Some by simp
  show ?thesis unfolding unlinked_def Some option.case
  proof (rule yields_bind)
    show "yields (recWritePtr (int c) p DMS_RECORD_METADATA_SZ False s) True t"
      by (rule yields_recWrite [OF assms(1) ap]) (simp add: recLen_def)
  qed (intro yields_withRW yields_updRecord)
qed

lemma yields_take:
  assumes "core s = core t" and "\<forall>p. pre = Some p \<longrightarrow> extentAddr t (rid_extent p) \<noteq> 0"
    and "extentAddr t (rid_extent r) \<noteq> 0"
  shows "yields (bindM (case pre of
         None \<Rightarrow> updMB c (\<lambda>mb. mb\<lparr>mb_deleteList := (mb_deleteList mb)[j := del_getNextRID (bd_record t r)]\<rparr>)
       | Some p \<Rightarrow> bindM (recWritePtr (int c) p DMS_RECORD_METADATA_SZ False) (\<lambda>_.
                     withRW (int c) (rid_extent p) (updRecord p (del_setNextRID (del_getNextRID (bd_record t r)))))) (\<lambda>_.
      bindM (extWritePtr (int c) (rid_extent r) False) (\<lambda>_. withRW (int c) (rid_extent r)
        (bindM (updExtent (rid_extent r) (\<lambda>e. e\<lparr>ext_freeSpace := s32 (ext_freeSpace e - int (rec_getSize (bd_record t r)))\<rparr>))
          (\<lambda>_. retM (Some r))))) s) (Some r) (takeState c j pre r t)"
  unfolding takeState_def
  by (rule yields_bind, rule yields_unlink [OF assms(1,2)], rule yields_bind, erule yields_extWrite,
      simp add: assms(3), rule yields_withRW, rule yields_bind, erule yields_updExtent, simp)

lemma yields_searchSlot:
  assumes "core s = core t" and "dchain t start rs" and "\<forall>r\<in>set rs. extentAddr t (rid_extent r) \<noteq> 0"
    and "\<forall>p. pre = Some p \<longrightarrow> extentAddr t (rid_extent p) \<noteq> 0"
  shows "yields (searchSlot c req j k pre start s) (map_option snd (firstFit t req k pre rs))
    (takeFound c j (firstFit t req k pre rs) t)"
  using assms
proof (induction t req k pre rs arbitrary: s start rule: firstFit.induct)
  case (3 t req k pre r rs)
  have r: "start = r" "\<not> rid_isNull r" "del_isDeleted (bd_record t r)" "dchain t (del_getNextRID (bd_record t r)) rs"
    using "3.prems"(2) by auto
  have a: "extentAddr t (rid_extent r) \<noteq> 0" using "3.prems"(3) by simp
  show ?case unfolding r(1) searchSlot.simps if_not_P [OF r(2)]
  proof (rule yields_bind)
    show "yields (recReadPtr r DMS_RECORD_METADATA_SZ False s) True t"
      by (rule yields_recRead [OF "3.prems"(1) a]) (simp add: recLen_def)
    fix s' assume s': "core s' = core t"
    note rec = core_eqD(9) [OF s']
    show "yields (let ra = bd_record s' r; nxt = del_getNextRID ra; ext = rid_extent r
        in if del_isDeleted ra \<and> req \<le> rec_getSize ra
           then bindM (case pre of
                         None \<Rightarrow> updMB c (\<lambda>mb. mb\<lparr>mb_deleteList := (mb_deleteList mb)[j := nxt]\<rparr>)
                       | Some p \<Rightarrow> bindM (recWritePtr (int c) p DMS_RECORD_METADATA_SZ False) (\<lambda>_.
                                     withRW (int c) (rid_extent p) (updRecord p (del_setNextRID nxt)))) (\<lambda>_.
                bindM (extWritePtr (int c) ext False) (\<lambda>_. withRW (int c) ext
                  (bindM (updExtent ext (\<lambda>e. e\<lparr>ext_freeSpace := s32 (ext_freeSpace e - int (rec_getSize ra))\<rparr>))
                    (\<lambda>_. retM (Some r))))) s'
           else searchSlot c req j k (Some r) nxt s')
       (map_option snd (firstFit t req (Suc k) pre (r # rs))) (takeFound c j (firstFit t req (Suc k) pre (r # rs)) t)"
    proof (cases "req \<le> rec_getSize (bd_record t r)")
      case True
      show ?thesis unfolding Let_def rec if_P [OF conjI [OF r(3) True]] firstFit.simps if_P [OF True] option.map snd_conv
          takeFound_def option.case prod.case
        by (rule yields_take [OF s' "3.prems"(4) a])
    next
      case False
      then have n: "\<not> (del_isDeleted (bd_record t r) \<and> req \<le> rec_getSize (bd_record t r))" by simp
      show ?thesis unfolding Let_def rec if_not_P [OF n] firstFit.simps if_not_P [OF False]
        by (rule "3.IH" [OF False s' r(4)]) (use "3.prems"(3) a in auto)
    qed
  qed
qed (simp_all add: takeFound_def)

section \<open>Taking a record off its list\<close>

lemma dchain_drop: "dchain s start (xs @ r # ys) \<Longrightarrow> dchain s (del_getNextRID (bd_record s r)) ys"
  by (induction xs arbitrary: start) auto

text \<open>Unlinking behind a predecessor.\<close>

lemma dchain_unlink:
  assumes "dchain s start (xs @ p # r # ys)" and "distinct (xs @ p # r # ys)"
    and "bd_record t = (bd_record s)(p := del_setNextRID (del_getNextRID (bd_record s r)) (bd_record s p))"
  shows "dchain t start (xs @ p # ys)"
  using assms
proof (induction xs arbitrary: start)
  case Nil
  have "dchain t q ys = dchain s q ys" for q by (rule dchain_cong) (use Nil in auto)
  then show ?case using Nil by (simp add: del_isDeleted_def del_setNextRID_def)
      (simp add: del_getNextRID_def rec_getFlag_def)
next
  case (Cons x xs)
  then show ?case by auto
qed

lemma takeState_records:
  "bd_record (takeState c j pre rid s) =
     (case pre of None \<Rightarrow> bd_record s
      | Some p \<Rightarrow> (bd_record s)(p := del_setNextRID (del_getNextRID (bd_record s rid)) (bd_record s p)))"
  "mb_deleteList (bd_mb (takeState c j pre rid s) c) =
     (case pre of None \<Rightarrow> (mb_deleteList (bd_mb s c))[j := del_getNextRID (bd_record s rid)]
      | Some p \<Rightarrow> mb_deleteList (bd_mb s c))"
  by (simp_all add: takeState_def unlinked_def split: option.split)

lemma takeState_size: "rec_getSize (bd_record (takeState c j pre rid s) x) = rec_getSize (bd_record s x)"
  by (simp add: takeState_records split: option.split)

lemma take_free_inv:
  assumes inv: "free_inv s c F" and j: "j < MB_MAX" and Fj: "F j = xs @ r # ys"
    and pre: "pre = (if xs = [] then None else Some (last xs))"
  shows "free_inv (takeState c j pre r s) c (F(j := xs @ ys))"
proof -
  let ?t = "takeState c j pre r s"
  have slots: "set (F a) \<inter> set (F b) = {}" if "a \<noteq> b" "a < MB_MAX" "b < MB_MAX" for a b
  proof -
    have "deleteSlot (rec_getSize (bd_record s r)) = a" if "r \<in> set (F a)" for r using inv that \<open>a < MB_MAX\<close> by (simp add: free_inv_def)
    moreover have "deleteSlot (rec_getSize (bd_record s r)) = b" if "r \<in> set (F b)" for r using inv that \<open>b < MB_MAX\<close> by (simp add: free_inv_def)
    ultimately show ?thesis using that(1) by blast
  qed
  have dj: "dchain s (mb_deleteList (bd_mb s c) ! j) (xs @ r # ys)" "distinct (xs @ r # ys)"
    and len: "length (mb_deleteList (bd_mb s c)) = MB_MAX"
    using inv j unfolding free_inv_def by (metis Fj)+
  have other: "dchain ?t (mb_deleteList (bd_mb ?t c) ! i) (F i)" if "i < MB_MAX" "i \<noteq> j" for i
  proof -
    have "dchain ?t start (F i) = dchain s start (F i)" for start
      using slots [OF that(2,1) j] Fj pre by (intro dchain_cong) (auto simp: takeState_records split: option.splits if_splits)
    then show ?thesis using inv that by (simp add: free_inv_def takeState_records split: option.split)
  qed
  have own: "dchain ?t (mb_deleteList (bd_mb ?t c) ! j) (xs @ ys)"
  proof (cases "xs = []")
    case True
    have "dchain ?t start ys = dchain s start ys" for start using True pre by (intro dchain_cong) (simp add: takeState_records)
    then show ?thesis using True pre dj(1) j len by (simp add: takeState_records)
  next
    case False
    then obtain zs p where xs: "xs = zs @ [p]" by (meson rev_exhaust)
    then have p: "pre = Some p" using pre by simp
    have "dchain ?t (mb_deleteList (bd_mb s c) ! j) (zs @ p # ys)"
      by (rule dchain_unlink [of s _ zs p r ys]) (use dj xs p in \<open>simp_all add: takeState_records\<close>)
    then show ?thesis using xs p by (simp add: takeState_records)
  qed
  show ?thesis unfolding free_inv_def takeState_size
  proof (intro conjI allI impI)
    show "length (mb_deleteList (bd_mb ?t c)) = MB_MAX" using len by (simp add: takeState_records split: option.split)
    fix i assume i: "i < MB_MAX"
    show "dchain ?t (mb_deleteList (bd_mb ?t c) ! i) ((F(j := xs @ ys)) i)" using other [OF i] own by simp
    have Fi: "distinct (F i)" "\<forall>r\<in>set (F i). deleteSlot (rec_getSize (bd_record s r)) = i"
      using inv i by (simp_all add: free_inv_def)
    show "distinct ((F(j := xs @ ys)) i)" using Fi(1) dj(2) by (cases "i = j") auto
    show "\<forall>r\<in>set ((F(j := xs @ ys)) i). deleteSlot (rec_getSize (bd_record s r)) = i"
      using Fi(2) Fj by (cases "i = j") auto
  qed
qed

section \<open>The search through the lists\<close>

fun searchAll :: "dmsBlockData \<Rightarrow> nat \<Rightarrow> (nat \<Rightarrow> dmsRecordID list) \<Rightarrow> nat list \<Rightarrow> (nat \<times> dmsRecordID option \<times> dmsRecordID) option" where
  "searchAll s req F [] = None"
| "searchAll s req F (j # js) =
     (case firstFit s req s_maxSearch None (F j) of Some (p, r) \<Rightarrow> Some (j, p, r) | None \<Rightarrow> searchAll s req F js)"

definition takeSearched :: "nat \<Rightarrow> (nat \<times> dmsRecordID option \<times> dmsRecordID) option \<Rightarrow> dmsBlockData \<Rightarrow> dmsBlockData" where
  "takeSearched c found s = (case found of None \<Rightarrow> s | Some (j, p, r) \<Rightarrow> takeState c j p r s)"

definition freeMapped :: "dmsBlockData \<Rightarrow> (nat \<Rightarrow> dmsRecordID list) \<Rightarrow> bool" where
  "freeMapped s F \<longleftrightarrow> (\<forall>r\<in>freeSet F. extentAddr s (rid_extent r) \<noteq> 0)"

lemma yields_searchSlots:
  assumes "core s = core t" and "free_inv t c F" and "freeMapped t F" and "\<forall>j\<in>set js. j < MB_MAX"
  shows "yields (searchSlots c req js s) (map_option (snd \<circ> snd) (searchAll t req F js)) (takeSearched c (searchAll t req F js) t)"
  using assms
proof (induction js arbitrary: s)
  case Nil
  then show ?case by (simp add: takeSearched_def)
next
  case (Cons j js)
  have j: "j < MB_MAX" using Cons.prems(4) by simp
  have head: "mb_deleteList (bd_mb s c) ! j = mb_deleteList (bd_mb t c) ! j"
    using mbCore_eqD(6) [OF core_eqD(27) [OF Cons.prems(1)], of c] by simp
  have ch: "dchain t (mb_deleteList (bd_mb t c) ! j) (F j)" using Cons.prems(2) j by (simp add: free_inv_def)
  have mp: "\<forall>r\<in>set (F j). extentAddr t (rid_extent r) \<noteq> 0" using Cons.prems(3) j by (auto simp: freeMapped_def freeSet_def)
  let ?ff = "firstFit t req s_maxSearch None (F j)"
  show ?case unfolding searchSlots.simps bindM_getM head
  proof (rule yields_bind, rule yields_searchSlot [OF Cons.prems(1) ch mp])
    show "\<forall>p. None = Some p \<longrightarrow> extentAddr t (rid_extent p) \<noteq> 0" by simp
    fix s' assume s': "core s' = core (takeFound c j ?ff t)"
    show "yields ((case map_option snd ?ff of Some r \<Rightarrow> retM (Some r) | None \<Rightarrow> searchSlots c req js) s')
        (map_option (snd \<circ> snd) (searchAll t req F (j # js))) (takeSearched c (searchAll t req F (j # js)) t)"
    proof (cases ?ff)
      case None
      then show ?thesis using Cons.IH [of s'] Cons.prems s' by (simp add: takeFound_def comp_def)
    next
      case (Some pr)
      then show ?thesis using s' by (cases pr) (simp add: takeFound_def takeSearched_def)
    qed
  qed
qed

lemma searchAll_SomeD:
  "searchAll s req F js = Some (j, p, r) \<Longrightarrow> j \<in> set js \<and> firstFit s req s_maxSearch None (F j) = Some (p, r)"
  by (induction js) (auto split: option.splits)

lemma searchAll_None:
  "searchAll s req F js = None \<longleftrightarrow> (\<forall>j\<in>set js. firstFit s req s_maxSearch None (F j) = None)"
  by (induction js) (auto split: option.splits)

text \<open>In a class above the own one every record fits, so the search stops at its head.\<close>

lemma larger_class_fits:
  assumes "free_inv s c F" and "j < MB_MAX" and "deleteSlot req < j" and "r \<in> set (F j)"
  shows "req \<le> rec_getSize (bd_record s r)"
proof (rule ccontr)
  assume "\<not> req \<le> rec_getSize (bd_record s r)"
  then have "deleteSlot (rec_getSize (bd_record s r)) \<le> deleteSlot req" by (intro deleteSlot_mono) simp
  then show False using assms by (auto simp: free_inv_def)
qed

lemma searchAll_fails:
  assumes "free_inv s c F" and "searchAll s req F [deleteSlot req..<MB_MAX] = None" and "deleteSlot req < MB_MAX"
  shows "(\<forall>j. deleteSlot req < j \<and> j < MB_MAX \<longrightarrow> F j = [])
    \<and> (\<forall>r\<in>set (take s_maxSearch (F (deleteSlot req))). rec_getSize (bd_record s r) < req)"
proof -
  have none: "firstFit s req s_maxSearch None (F j) = None" if "deleteSlot req \<le> j" "j < MB_MAX" for j
    using assms(2) that by (simp add: searchAll_None)
  have "F j = []" if j: "deleteSlot req < j" "j < MB_MAX" for j
  proof (cases "F j")
    case (Cons r rs)
    then have "req \<le> rec_getSize (bd_record s r)" using larger_class_fits [OF assms(1) j(2,1)] by simp
    moreover have "rec_getSize (bd_record s r) < req"
      using none [of j] j Cons by (simp add: numeral_3_eq_3 split: if_splits)
    ultimately show ?thesis by simp
  qed
  then show ?thesis using none [of "deleteSlot req"] assms(3) by (simp add: firstFit_None)
qed

lemma searchAll_takes:
  assumes "free_inv s c F" and "searchAll s req F js = Some (j, p, r)" and "\<forall>j\<in>set js. j < MB_MAX"
  shows "req \<le> rec_getSize (bd_record s r) \<and> r \<in> freeSet F \<and> j < MB_MAX
    \<and> free_inv (takeState c j p r s) c (F(j := remove1 r (F j))) \<and> freeSet (F(j := remove1 r (F j))) = freeSet F - {r}"
proof -
  have j: "j < MB_MAX" and ff: "firstFit s req s_maxSearch None (F j) = Some (p, r)"
    using searchAll_SomeD [OF assms(2)] assms(3) by auto
  from firstFit_SomeD [OF ff] obtain xs ys where x: "F j = xs @ r # ys" "p = (if xs = [] then None else Some (last xs))"
    "req \<le> rec_getSize (bd_record s r)" by auto
  have d: "distinct (F j)" using assms(1) j by (simp add: free_inv_def)
  then have rm: "remove1 r (F j) = xs @ ys" using x(1) by (simp add: remove1_append)
  have uniq: "r \<notin> set (F i)" if "i < MB_MAX" "i \<noteq> j" for i
    using assms(1) that j x(1) unfolding free_inv_def by (metis in_set_conv_decomp)
  have "set (F j) - {r} = set (xs @ ys)" using d x(1) by auto
  then have "set ((F(j := xs @ ys)) i) = set (F i) - {r}" if "i < MB_MAX" for i
    using uniq [OF that] by (cases "i = j") auto
  then have "freeSet (F(j := xs @ ys)) = freeSet F - {r}" unfolding freeSet_def by auto
  moreover have "r \<in> freeSet F" using x(1) j by (auto simp: freeSet_def intro!: bexI [of _ j])
  moreover have "free_inv (takeState c j p r s) c (F(j := xs @ ys))" by (rule take_free_inv [OF assms(1) j x(1,2)])
  ultimately show ?thesis using x(3) j unfolding rm by blast
qed

section \<open>The free store as a map\<close>

text \<open>What a store of free cells promises: it represents a finite map from cell ids to sizes, saving enters a
  cell, taking removes one that is large enough.\<close>

locale free_store =
  fixes rep :: "'s \<Rightarrow> ('r \<Rightarrow> nat option) \<Rightarrow> bool"
    and cell :: "'s \<Rightarrow> 'r \<Rightarrow> nat \<Rightarrow> bool"
    and save :: "'r \<Rightarrow> nat \<Rightarrow> 's \<Rightarrow> 's"
    and taken :: "nat \<Rightarrow> 's \<Rightarrow> 'r \<Rightarrow> 's \<Rightarrow> bool"
  assumes save_rep: "rep s m \<Longrightarrow> m r = None \<Longrightarrow> cell s r n \<Longrightarrow> rep (save r n s) (m(r \<mapsto> n))"
    and save_cell: "cell (save r n s) r' n' \<longleftrightarrow> cell s r' n'"
    and taken_rep: "rep s m \<Longrightarrow> taken req s r s' \<Longrightarrow> \<exists>n. m r = Some n \<and> req \<le> n \<and> rep s' (m(r := None))"
    and taken_cell: "rep s m \<Longrightarrow> taken req s r s' \<Longrightarrow> cell s' r' n' \<longleftrightarrow> cell s r' n'"
begin

lemma save_all:
  "rep s m \<Longrightarrow> distinct (map fst ps) \<Longrightarrow> \<forall>(r, n)\<in>set ps. m r = None \<and> cell s r n \<Longrightarrow>
    rep (fold (\<lambda>(r, n). save r n) ps s) (m ++ map_of ps)"
proof (induction ps arbitrary: s m)
  case (Cons p ps)
  obtain r n where p: "p = (r, n)" by (cases p)
  have a: "rep (save r n s) (m(r \<mapsto> n))" using Cons.prems by (intro save_rep) (auto simp: p)
  have b: "\<forall>(r', n')\<in>set ps. (m(r \<mapsto> n)) r' = None \<and> cell (save r n s) r' n'"
    using Cons.prems by (force simp: p save_cell)
  have "rep (fold (\<lambda>(r, n). save r n) ps (save r n s)) (m(r \<mapsto> n) ++ map_of ps)"
    by (rule Cons.IH [OF a _ b]) (use Cons.prems(2) in simp)
  moreover have "m(r \<mapsto> n) ++ map_of ps = m ++ map_of ((r, n) # ps)"
    using Cons.prems(2) by (simp add: p map_add_upd_left dom_map_of_conv_image_fst del: fun_upd_apply)
  ultimately show ?case unfolding p by (simp only: fold_simps prod.case)
qed simp

text \<open>Splitting a cell: take one, give a part of it back under another id.\<close>

lemma split_cell:
  assumes "rep s m" and "taken req s r s'" and "m rest = None" and "cell s rest k"
  shows "\<exists>n. m r = Some n \<and> req \<le> n \<and> rep (save rest k s') (m(r := None, rest \<mapsto> k))"
proof -
  obtain n where n: "m r = Some n" "req \<le> n" "rep s' (m(r := None))" using taken_rep [OF assms(1,2)] by blast
  have "rep (save rest k s') ((m(r := None))(rest \<mapsto> k))"
    by (rule save_rep [OF n(3)]) (use assms taken_cell in auto)
  with n show ?thesis by blast
qed

end

definition freeRep :: "nat \<Rightarrow> dmsBlockData \<Rightarrow> (dmsRecordID \<Rightarrow> nat option) \<Rightarrow> bool" where
  "freeRep c s m \<longleftrightarrow> (\<exists>F. free_inv s c F \<and> freeMapped s F
     \<and> m = (\<lambda>r. if r \<in> freeSet F then Some (rec_getSize (bd_record s r)) else None))"

definition freeCell :: "dmsBlockData \<Rightarrow> dmsRecordID \<Rightarrow> nat \<Rightarrow> bool" where
  "freeCell s r n \<longleftrightarrow> \<not> rid_isNull r \<and> 0 < n \<and> n \<le> DMS_RECORD_MAX_SZ \<and> extentAddr s (rid_extent r) \<noteq> 0"

definition takesCell :: "nat \<Rightarrow> nat \<Rightarrow> dmsBlockData \<Rightarrow> dmsRecordID \<Rightarrow> dmsBlockData \<Rightarrow> bool" where
  "takesCell c req s r s' \<longleftrightarrow> searchSlots c req [deleteSlot req..<MB_MAX] s = Ret (Some r) s'"

lemma freeMapped_addr: "(\<And>x. extentAddr t x = extentAddr s x) \<Longrightarrow> freeMapped t F = freeMapped s F"
  by (simp add: freeMapped_def)

lemma freeRep_core:
  assumes "core s = core t"
  shows "freeRep c s m = freeRep c t m"
  unfolding freeRep_def freeMapped_def free_inv_core [OF assms] core_addr(2) [OF assms] core_eqD(9) [OF assms] ..

lemma freeRep_cong:
  assumes "mb_deleteList (bd_mb t c) = mb_deleteList (bd_mb s c)" and "\<And>x. extentAddr t x = extentAddr s x"
    and "\<And>r. r \<in> dom m \<Longrightarrow> bd_record t r = bd_record s r" and "freeRep c s m"
  shows "freeRep c t m"
proof -
  obtain F where F: "free_inv s c F" "freeMapped s F" "m = (\<lambda>r. if r \<in> freeSet F then Some (rec_getSize (bd_record s r)) else None)"
    using assms(4) by (auto simp: freeRep_def)
  have same: "bd_record t r = bd_record s r" if "r \<in> freeSet F" for r using assms(3) that by (simp add: F(3) dom_def)
  have "free_inv t c F" using F(1) free_inv_cong [of t c s F] assms(1) same by blast
  moreover have "m = (\<lambda>r. if r \<in> freeSet F then Some (rec_getSize (bd_record t r)) else None)"
    using same by (auto simp: F(3))
  ultimately show ?thesis using F(2) assms(2) by (auto simp: freeRep_def freeMapped_def)
qed

lemma freeRep_save:
  assumes "freeRep c s m" and "m r = None" and "freeCell s r n"
  shows "freeRep c (saveState c r (int n) s) (m(r \<mapsto> n))"
proof -
  obtain F where F: "free_inv s c F" "freeMapped s F" "m = (\<lambda>r. if r \<in> freeSet F then Some (rec_getSize (bd_record s r)) else None)"
    using assms(1) by (auto simp: freeRep_def)
  let ?t = "saveState c r (int n) s" and ?F = "F(deleteSlot n := r # F (deleteSlot n))"
  have n: "0 < n" "n \<le> DMS_RECORD_MAX_SZ" "\<not> rid_isNull r" and r: "r \<notin> freeSet F"
    using assms(2,3) F(3) by (auto simp: freeCell_def split: if_splits)
  have fs: "freeSet ?F = insert r (freeSet F)" by (rule freeSet_push [OF deleteSlot_less [OF n(2)]])
  have sz: "rec_getSize (bd_record ?t r) = n" using n(1) savedRecord_props(2) [OF n(1,2)] by (simp add: saveState_eq Let_def)
  have "free_inv ?t c ?F" by (rule save_free_inv [OF F(1) r n(3,1,2)])
  moreover have "freeMapped ?t ?F" using F(2) assms(3) by (simp add: freeMapped_def fs freeCell_def)
  moreover have "m(r \<mapsto> n) = (\<lambda>x. if x \<in> freeSet ?F then Some (rec_getSize (bd_record ?t x)) else None)"
    using sz r by (auto simp: fs F(3) fun_eq_iff saveState_frame(1))
  ultimately show ?thesis by (auto simp: freeRep_def)
qed

lemma takeState_addr [simp]: "extentAddr (takeState c j p r s) x = extentAddr s x"
  by (simp add: takeState_def)

text \<open>What the search returns, on the map.\<close>

lemma searchSlots_cases:
  assumes "freeRep c s m"
  obtains F found t where "free_inv s c F" "freeMapped s F"
    "m = (\<lambda>r. if r \<in> freeSet F then Some (rec_getSize (bd_record s r)) else None)"
    "found = searchAll s req F [deleteSlot req..<MB_MAX]" "core t = core (takeSearched c found s)"
    "searchSlots c req [deleteSlot req..<MB_MAX] s = Ret (map_option (snd \<circ> snd) found) t"
proof -
  obtain F where F: "free_inv s c F" "freeMapped s F" "m = (\<lambda>r. if r \<in> freeSet F then Some (rec_getSize (bd_record s r)) else None)"
    using assms by (auto simp: freeRep_def)
  with yields_searchSlots [OF refl F(1,2), of "[deleteSlot req..<MB_MAX]" req] that show thesis
    by (auto simp: yields_def)
qed

lemma freeRep_take:
  assumes "freeRep c s m" and "takesCell c req s r s'"
  shows "\<exists>n. m r = Some n \<and> req \<le> n \<and> freeRep c s' (m(r := None)) \<and> (\<forall>x. extentAddr s' x = extentAddr s x)"
proof -
  obtain F found t where F: "free_inv s c F" "freeMapped s F"
    "m = (\<lambda>r. if r \<in> freeSet F then Some (rec_getSize (bd_record s r)) else None)"
    and found: "found = searchAll s req F [deleteSlot req..<MB_MAX]" "core t = core (takeSearched c found s)"
    and res: "searchSlots c req [deleteSlot req..<MB_MAX] s = Ret (map_option (snd \<circ> snd) found) t"
    using searchSlots_cases [OF assms(1)] by blast
  obtain j p where s': "s' = t" and j: "found = Some (j, p, r)"
    using assms(2) res by (cases found) (auto simp: takesCell_def)
  note k = searchAll_takes [OF F(1) found(1) [symmetric, unfolded j]]
  have core: "core s' = core (takeState c j p r s)" using found(2) s' j by (simp add: takeSearched_def)
  let ?F = "F(j := remove1 r (F j))"
  have "freeMapped (takeState c j p r s) ?F" using F(2) k by (simp add: freeMapped_def)
  moreover have "m(r := None) = (\<lambda>x. if x \<in> freeSet ?F then Some (rec_getSize (bd_record (takeState c j p r s) x)) else None)"
    using k by (auto simp: F(3) takeState_size fun_eq_iff)
  ultimately have "freeRep c (takeState c j p r s) (m(r := None))" unfolding freeRep_def using k by auto
  then have "freeRep c s' (m(r := None))" by (simp only: freeRep_core [OF core])
  moreover have "\<forall>x. extentAddr s' x = extentAddr s x" using core_addr(2) [OF core] by simp
  ultimately show ?thesis using k F(3) by auto
qed

interpretation fs: free_store "freeRep c" freeCell "\<lambda>r n. saveState c r (int n)" "takesCell c" for c
proof unfold_locales
  show "freeRep c s m \<Longrightarrow> m r = None \<Longrightarrow> freeCell s r n \<Longrightarrow> freeRep c (saveState c r (int n) s) (m(r \<mapsto> n))" for s m r n
    by (rule freeRep_save)
  show "freeCell (saveState c r (int n) s) r' n' \<longleftrightarrow> freeCell s r' n'" for s r n r' n'
    by (simp add: freeCell_def)
  show "freeRep c s m \<Longrightarrow> takesCell c req s r s' \<Longrightarrow> \<exists>n. m r = Some n \<and> req \<le> n \<and> freeRep c s' (m(r := None))" for s m req r s'
    using freeRep_take by blast
  show "freeRep c s m \<Longrightarrow> takesCell c req s r s' \<Longrightarrow> freeCell s' r' n' \<longleftrightarrow> freeCell s r' n'" for s m req r s' r' n'
    using freeRep_take by (fastforce simp: freeCell_def)
qed

section \<open>Properties\<close>

text \<open>C30: The search of \<open>_allocRecordSpace\<close>, on a collection whose free lists represent the map \<open>m\<close>: it returns, and
  a record it finds is free and large enough and leaves the map, nothing else changes in the map; when it
  finds none, no free record of a larger size class exists at all (at most
  records of the own class behind the third may have been overlooked) and the map is unchanged.\<close>

theorem record_space_search:
  assumes "freeRep c s m" and "req \<le> DMS_RECORD_MAX_SZ"
  shows "\<exists>found t. searchSlots c req [deleteSlot req..<MB_MAX] s = Ret found t
    \<and> (case found of
         Some r \<Rightarrow> \<exists>n. m r = Some n \<and> req \<le> n \<and> freeRep c t (m(r := None))
       | None \<Rightarrow> freeRep c t m \<and> (\<forall>r n. m r = Some n \<longrightarrow> deleteSlot n \<le> deleteSlot req))"
proof -
  obtain F found t where F: "free_inv s c F" "freeMapped s F"
    "m = (\<lambda>r. if r \<in> freeSet F then Some (rec_getSize (bd_record s r)) else None)"
    and found: "found = searchAll s req F [deleteSlot req..<MB_MAX]" "core t = core (takeSearched c found s)"
    and res: "searchSlots c req [deleteSlot req..<MB_MAX] s = Ret (map_option (snd \<circ> snd) found) t"
    using searchSlots_cases [OF assms(1)] by blast
  show ?thesis
  proof (cases found)
    case None
    have core: "core t = core s" using found(2) None by (simp add: takeSearched_def)
    have "freeRep c t m" using assms(1) freeRep_core [OF core] by simp
    moreover have "deleteSlot n \<le> deleteSlot req" if "m r = Some n" for r n
    proof (rule ccontr)
      assume c: "\<not> ?thesis"
      have r: "r \<in> freeSet F" "n = rec_getSize (bd_record s r)" using that F(3) by (auto split: if_splits)
      have "r \<in> set (F (deleteSlot n))" using free_inv_member(4) [OF F(1) r(1)] r(2) by simp
      moreover have "deleteSlot n < MB_MAX" using r(2) F(1) rec_getSize_le by (intro deleteSlot_less) simp
      ultimately show False
        using searchAll_fails [OF F(1) found(1) [symmetric, unfolded None] deleteSlot_less [OF assms(2)]] c by auto
    qed
    ultimately show ?thesis using res None by auto
  next
    case (Some x)
    then obtain j p r where "found = Some (j, p, r)" by (cases x) auto
    then have "takesCell c req s r t" using res by (simp add: takesCell_def)
    from fs.taken_rep [OF assms(1) this] show ?thesis using res \<open>found = Some (j, p, r)\<close> by auto
  qed
qed

text \<open>One free record of 65500 bytes.\<close>

lemma demoFree_rep: "freeRep 0 (saveState 0 (RID 5 36) (int 65500) demoFreeState) [RID 5 36 \<mapsto> 65500]"
proof (rule freeRep_save)
  show "freeRep 0 demoFreeState Map.empty"
    using demoFree_inv by (auto simp: freeRep_def freeMapped_def freeSet_def intro!: exI [of _ "\<lambda>_. []"])
  show "freeCell demoFreeState (RID 5 36) 65500"
    using demoFree_addr by (simp add: freeCell_def rid_isNull_def)
qed simp

theorem record_space_search_witness:
  "\<exists>t. searchSlots 0 100 [deleteSlot 100..<MB_MAX] (saveState 0 (RID 5 36) (int 65500) demoFreeState) = Ret (Some (RID 5 36)) t
     \<and> freeRep 0 t ([RID 5 36 \<mapsto> 65500](RID 5 36 := None))"
proof -
  have slots: "\<not> deleteSlot 65500 \<le> deleteSlot 100" by (simp add: deleteSlot_def slotLoop.simps)
  obtain found t where f: "searchSlots 0 100 [deleteSlot 100..<MB_MAX] (saveState 0 (RID 5 36) (int 65500) demoFreeState) = Ret found t"
    "case found of Some r \<Rightarrow> \<exists>n::nat. [RID 5 36 \<mapsto> 65500] r = Some n \<and> 100 \<le> n \<and> freeRep 0 t ([RID 5 36 \<mapsto> 65500](r := None))
       | None \<Rightarrow> freeRep 0 t [RID 5 36 \<mapsto> 65500]
           \<and> (\<forall>r n. [RID 5 36 \<mapsto> 65500] r = Some n \<longrightarrow> deleteSlot n \<le> deleteSlot 100)"
    using record_space_search [OF demoFree_rep, of 100] by auto
  then obtain r where r: "found = Some r" using slots by (cases found) (auto split: if_splits)
  then have "r = RID 5 36" using f(2) by (auto split: if_splits)
  then show ?thesis using f r by auto
qed

end
