(* ===== verification/Dms_Scanner.thy ===== *)
theory Dms_Scanner
  imports Dms_Insert
begin

text \<open>
  Scanning the records of an extent (\<open>dmsScanner.hpp\<close>, \<open>dmsScanner.cpp\<close>): the generator that holds the
  current object, the scanner with its position, limits and lock mode, \<open>_firstInit\<close>, \<open>_fetchNext\<close>, \<open>advance\<close> and
  the step to the next extent.  The scanner is a value threaded through the calls; an
  exception of a record handle leaves the call, as in the source.  The loop of \<open>_fetchNext\<close> goes
  round only while it skips records, so it ends.
\<close>

section \<open>The generator and the scanner\<close>

record dmsRecordGenerator =
  gen_dataPtr :: "bytes option"
  gen_src :: bytes
  gen_index :: nat
  gen_totalNum :: nat
  gen_validNum :: nat

definition emptyObj :: bytes where
  "emptyObj = [5, 0, 0, 0, 0]"

definition gen_new :: dmsRecordGenerator where
  "gen_new = \<lparr> gen_dataPtr = None, gen_src = emptyObj, gen_index = 0, gen_totalNum = 0, gen_validNum = 0 \<rparr>"

definition gen_resetValue :: "bytes \<Rightarrow> dmsRecordGenerator \<Rightarrow> dmsRecordGenerator" where
  "gen_resetValue src g = g\<lparr>gen_index := 0, gen_src := src, gen_totalNum := 1, gen_validNum := 1\<rparr>"

definition gen_hasNext :: "dmsRecordGenerator \<Rightarrow> bool" where
  "gen_hasNext g \<longleftrightarrow> gen_validNum g > 0"

definition gen_getNext :: "dmsRecordGenerator \<Rightarrow> bytes \<times> dmsRecordGenerator" where
  "gen_getNext g =
     (gen_src g, g\<lparr>gen_index := gen_index g + 1, gen_validNum := u32 (int (gen_validNum g) - 1)\<rparr>)"

datatype DMS_ACCESS_TYPE = ACCESS_NULL | ACCESS_QUERY | ACCESS_FETCH | ACCESS_INSERT | ACCESS_UPDATE
  | ACCESS_DELETE | ACCESS_TRUNCATE | ACCESS_CRT_INDEX | ACCESS_DROP_INDEX | ACCESS_CRT_DICT | ACCESS_POP

definition DMS_IS_WRITE_OPR :: "DMS_ACCESS_TYPE \<Rightarrow> bool" where
  "DMS_IS_WRITE_OPR a \<longleftrightarrow> a = ACCESS_UPDATE \<or> a = ACCESS_DELETE \<or> a = ACCESS_INSERT"

text \<open>\<open>sc_extent\<close> is the pointer to the current extent header, \<open>None\<close> for \<open>NULL\<close>.\<close>

record dmsExtScanner =
  sc_mbLockType :: int
  sc_maxRecords :: int
  sc_skipNum :: int
  sc_extent :: "dmsExtentID option"
  sc_curRID :: dmsRecordID
  sc_next :: dmsOffset
  sc_firstRun :: bool

definition scanner_new :: "dmsExtentID \<Rightarrow> DMS_ACCESS_TYPE \<Rightarrow> int \<Rightarrow> int \<Rightarrow> dmsExtScanner" where
  "scanner_new curExtentID accessType maxRecords skipNum =
     \<lparr> sc_mbLockType = (if DMS_IS_WRITE_OPR accessType then EXCLUSIVE else SHARED),
       sc_maxRecords = maxRecords, sc_skipNum = skipNum, sc_extent = None,
       sc_curRID = RID curExtentID DMS_INVALID_OFFSET, sc_next = DMS_INVALID_OFFSET, sc_firstRun = True \<rparr>"

definition isReadOnly :: "dmsExtScanner \<Rightarrow> bool" where
  "isReadOnly sc \<longleftrightarrow> sc_mbLockType sc = SHARED"

definition nextExtentID :: "dmsBlockData \<Rightarrow> dmsExtScanner \<Rightarrow> dmsExtentID" where
  "nextExtentID s sc = (case sc_extent sc of Some e \<Rightarrow> ext_nextExtent (bd_extent s e) | None \<Rightarrow> DMS_INVALID_EXTENT)"

definition stepToNextExtent :: "dmsBlockData \<Rightarrow> dmsExtScanner \<Rightarrow> rc \<times> dmsExtScanner" where
  "stepToNextExtent s sc =
     (if sc_maxRecords sc \<noteq> 0 \<and> DMS_INVALID_EXTENT \<noteq> nextExtentID s sc
      then (SDB_OK, sc\<lparr>sc_curRID := RID (nextExtentID s sc) (rid_offset (sc_curRID sc)), sc_firstRun := True\<rparr>)
      else (SDB_DMS_EOC, sc))"

definition scanner_stop :: "dmsExtScanner \<Rightarrow> dmsExtScanner" where
  "scanner_stop sc = sc\<lparr>sc_next := DMS_INVALID_OFFSET, sc_curRID := RID (rid_extent (sc_curRID sc)) DMS_INVALID_OFFSET\<rparr>"

section \<open>Fetching records\<close>

definition firstInit :: "dmsExtScanner \<Rightarrow> (rc \<times> dmsExtScanner) dms" where
  "firstInit sc =
     (let ext = rid_extent (sc_curRID sc)
      in bindM (extReadPtr ext True) (\<lambda>ok.
         if \<not> ok then retM (SDB_INVALIDARG, sc\<lparr>sc_extent := None\<rparr>)
         else let sc1 = sc\<lparr>sc_extent := Some ext\<rparr>
              in bindM (getM bd_ctx) (\<lambda>ctx.
                 bindM (if isMBLockType (sc_mbLockType sc) ctx then retM SDB_OK else ctxLock (sc_mbLockType sc)) (\<lambda>rc.
                 if rc \<noteq> SDB_OK then retM (rc, sc1)
                 else bindM (getM (\<lambda>s. bd_extent s ext)) (\<lambda>e.
                      if \<not> ext_validate (ctx_mbID ctx) e then retM (SDB_SYS, sc1)
                      else retM (SDB_OK, sc1\<lparr>sc_next := ext_firstRecordOffset e, sc_firstRun := False\<rparr>))))))"

text \<open>The label \<open>error\<close> of \<open>_fetchNext\<close>.\<close>

definition fetchError :: "rc \<Rightarrow> dmsRecordGenerator \<Rightarrow> dmsExtScanner \<Rightarrow> rc \<times> dmsRecordID \<times> dmsRecordGenerator \<times> dmsExtScanner" where
  "fetchError rc g sc =
     (rc, rid_null, g\<lparr>gen_dataPtr := None\<rparr>, sc\<lparr>sc_curRID := RID (rid_extent (sc_curRID sc)) DMS_INVALID_OFFSET\<rparr>)"

function fetchNext ::
  "dmsExtScanner \<Rightarrow> dmsRecordGenerator \<Rightarrow> (rc \<times> dmsRecordID \<times> dmsRecordGenerator \<times> dmsExtScanner) dms" where
  "fetchNext sc g =
     (if DMS_INVALID_OFFSET \<noteq> sc_next sc \<and> sc_maxRecords sc \<noteq> 0
      then let rid = RID (rid_extent (sc_curRID sc)) (sc_next sc)
           in bindM (recReadPtr rid 0 False) (\<lambda>_.
              bindM (getM (\<lambda>s. rec_nextOffset (bd_record s rid))) (\<lambda>nxt.
              bindM (extractData rid) (\<lambda>(rc, rd).
              let sc1 = sc\<lparr>sc_curRID := rid, sc_next := nxt\<rparr>
              in if rc \<noteq> SDB_OK then retM (fetchError rc g sc1)
                 else if \<not> bson_isValid (the (rd_data rd)) then retM (fetchError SDB_SYS g sc1)
                 else let g1 = gen_resetValue (the (rd_data rd)) (g\<lparr>gen_dataPtr := rd_data rd\<rparr>)
                      in if sc_skipNum sc > 0
                         then fetchNext (sc\<lparr>sc_curRID := rid, sc_next := nxt, sc_skipNum := sc_skipNum sc - 1\<rparr>) g1
                         else retM (SDB_OK, rid, g1,
                                if sc_maxRecords sc > 0 then sc1\<lparr>sc_maxRecords := sc_maxRecords sc - 1\<rparr> else sc1))))
      else retM (fetchError SDB_DMS_EOC g sc))"
  by pat_completeness auto
termination
  by (relation "measure (\<lambda>(sc, g). nat (sc_skipNum sc))") auto

declare fetchNext.simps [simp del]

definition advance ::
  "dmsExtScanner \<Rightarrow> dmsRecordGenerator \<Rightarrow> (rc \<times> dmsRecordID \<times> dmsRecordGenerator \<times> dmsExtScanner) dms" where
  "advance sc g =
     bindM (if sc_firstRun sc then firstInit sc else retM (SDB_OK, sc)) (\<lambda>(rc, sc1).
     if rc \<noteq> SDB_OK
     then retM (rc, rid_null, g, sc1\<lparr>sc_curRID := RID (rid_extent (sc_curRID sc1)) DMS_INVALID_OFFSET\<rparr>)
     else bindM (fetchNext sc1 g) (\<lambda>(rc1, rid, g1, sc2).
          if rc1 \<noteq> SDB_OK
          then retM (rc1, rid_null, g1, sc2\<lparr>sc_curRID := RID (rid_extent (sc_curRID sc2)) DMS_INVALID_OFFSET\<rparr>)
          else retM (SDB_OK, rid, g1, sc2)))"

section \<open>What a scan returns\<close>

text \<open>The records of an extent, from an offset on along the next-offsets, each readable as an object.\<close>

fun recChain :: "dmsBlockData \<Rightarrow> dmsExtentID \<Rightarrow> dmsOffset \<Rightarrow> dmsOffset list \<Rightarrow> bool" where
  "recChain s ext start [] \<longleftrightarrow> start = DMS_INVALID_OFFSET"
| "recChain s ext start (o1 # os) \<longleftrightarrow>
     start = o1 \<and> o1 \<noteq> DMS_INVALID_OFFSET \<and> \<not> rec_isOvf (bd_record s (RID ext o1))
     \<and> bson_isValid (rec_getData (bd_record s (RID ext o1)))
     \<and> recChain s ext (rec_nextOffset (bd_record s (RID ext o1))) os"

text \<open>A caller that advances until the scanner reports an error, and keeps what it got.\<close>

fun runScan :: "nat \<Rightarrow> dmsExtScanner \<Rightarrow> dmsRecordGenerator \<Rightarrow> (rc \<times> (dmsRecordID \<times> bytes) list) dms" where
  "runScan 0 sc g = (\<lambda>s. Diverge)"
| "runScan (Suc fuel) sc g =
     bindM (advance sc g) (\<lambda>(rc, rid, g1, sc1).
     if rc \<noteq> SDB_OK then retM (rc, [])
     else bindM (runScan fuel sc1 g1) (\<lambda>(rc1, xs). retM (rc1, (rid, fst (gen_getNext g1)) # xs)))"

text \<open>Skip, then at most \<open>maxR\<close> when that is not negative.\<close>

definition limited :: "int \<Rightarrow> int \<Rightarrow> 'a list \<Rightarrow> 'a list" where
  "limited maxR skip xs = (let ys = drop (nat skip) xs in if maxR < 0 then ys else take (nat maxR) ys)"

lemma recReadPtr_ok:
  assumes "extentAddr s (rid_extent rid) \<noteq> 0"
  shows "recReadPtr rid 0 nothrow s = Ret True s"
  using assms rec_getSize_le [of "bd_record s rid"] by (simp add: recReadPtr_def recLen_def extReadPtr_def)

lemma extractData_plain:
  assumes "extentAddr s (rid_extent rid) \<noteq> 0" and "isMBLock (bd_ctx s)" and "\<not> rec_isOvf (bd_record s rid)"
  shows "extractData rid s = Ret (SDB_OK, rd_setData (Some (rec_getData (bd_record s rid)))
      (rec_getDataLength (bd_record s rid)) UTIL_COMPRESSOR_INVALID True rd_reset) s"
  using assms by (simp add: extractData_def bindM_def getM_def retM_def recReadPtr_ok)

lemma fetchNext_step:
  assumes "sc_next sc = o1" and "o1 \<noteq> DMS_INVALID_OFFSET" and "sc_maxRecords sc \<noteq> 0"
    and "rid_extent (sc_curRID sc) = ext" and "extentAddr s ext \<noteq> 0" and "isMBLock (bd_ctx s)"
    and "\<not> rec_isOvf (bd_record s (RID ext o1))" and "bson_isValid (rec_getData (bd_record s (RID ext o1)))"
  shows "\<exists>g1. gen_src g1 = rec_getData (bd_record s (RID ext o1)) \<and>
    fetchNext sc g s =
      (let nxt = rec_nextOffset (bd_record s (RID ext o1)); sc1 = sc\<lparr>sc_curRID := RID ext o1, sc_next := nxt\<rparr>
       in if sc_skipNum sc > 0 then fetchNext (sc1\<lparr>sc_skipNum := sc_skipNum sc - 1\<rparr>) g1 s
          else Ret (SDB_OK, RID ext o1, g1, if sc_maxRecords sc > 0 then sc1\<lparr>sc_maxRecords := sc_maxRecords sc - 1\<rparr> else sc1) s)"
proof -
  let ?r = "bd_record s (RID ext o1)"
  define g1 where "g1 = gen_resetValue (rec_getData ?r) (g\<lparr>gen_dataPtr := Some (rec_getData ?r)\<rparr>)"
  have "extentAddr s (rid_extent (RID ext o1)) \<noteq> 0" using assms(5) by simp
  note rd = recReadPtr_ok [OF this, of False] and ex = extractData_plain [OF this assms(6,7)]
  have "fetchNext sc g s =
      (let nxt = rec_nextOffset (bd_record s (RID ext o1)); sc1 = sc\<lparr>sc_curRID := RID ext o1, sc_next := nxt\<rparr>
       in if sc_skipNum sc > 0 then fetchNext (sc1\<lparr>sc_skipNum := sc_skipNum sc - 1\<rparr>) g1 s
          else Ret (SDB_OK, RID ext o1, g1, if sc_maxRecords sc > 0 then sc1\<lparr>sc_maxRecords := sc_maxRecords sc - 1\<rparr> else sc1) s)"
    using assms(1-4,8)
    by (subst fetchNext.simps) (simp add: Let_def bindM_def getM_def retM_def rd ex rd_setData_def g1_def)
  moreover have "gen_src g1 = rec_getData ?r" by (simp add: g1_def gen_resetValue_def)
  ultimately show ?thesis by blast
qed

lemma fetchNext_stop:
  assumes "sc_next sc = DMS_INVALID_OFFSET \<or> sc_maxRecords sc = 0"
  shows "fetchNext sc g s = Ret (fetchError SDB_DMS_EOC g sc) s"
  using assms by (subst fetchNext.simps) (auto simp: retM_def)

text \<open>From a position in the chain the next call returns the record behind the skipped ones, or
  reports the end.\<close>

lemma fetchNext_chain:
  assumes "recChain s ext (sc_next sc) offs" and "sc_maxRecords sc \<noteq> 0" and "rid_extent (sc_curRID sc) = ext"
    and "extentAddr s ext \<noteq> 0" and "isMBLock (bd_ctx s)"
  shows "case drop (nat (sc_skipNum sc)) offs of
      [] \<Rightarrow> \<exists>g1 sc1. fetchNext sc g s = Ret (fetchError SDB_DMS_EOC g1 sc1) s
    | o1 # os \<Rightarrow> \<exists>g1 sc1. fetchNext sc g s = Ret (SDB_OK, RID ext o1, g1, sc1) s
        \<and> gen_src g1 = rec_getData (bd_record s (RID ext o1))
        \<and> recChain s ext (sc_next sc1) os \<and> nat (sc_skipNum sc1) = 0 \<and> sc_firstRun sc1 = sc_firstRun sc
        \<and> rid_extent (sc_curRID sc1) = ext
        \<and> sc_maxRecords sc1 = (if sc_maxRecords sc > 0 then sc_maxRecords sc - 1 else sc_maxRecords sc)"
  using assms
proof (induction offs arbitrary: sc g)
  case Nil
  then show ?case using fetchNext_stop by auto
next
  case (Cons o1 os)
  let ?nxt = "rec_nextOffset (bd_record s (RID ext o1))"
  define sc1 where "sc1 = sc\<lparr>sc_curRID := RID ext o1, sc_next := ?nxt\<rparr>"
  from fetchNext_step [of sc o1 ext s g] Cons.prems
  obtain g1 where g1: "gen_src g1 = rec_getData (bd_record s (RID ext o1))"
    and step: "fetchNext sc g s =
       (if sc_skipNum sc > 0 then fetchNext (sc1\<lparr>sc_skipNum := sc_skipNum sc - 1\<rparr>) g1 s
        else Ret (SDB_OK, RID ext o1, g1, if sc_maxRecords sc > 0 then sc1\<lparr>sc_maxRecords := sc_maxRecords sc - 1\<rparr> else sc1) s)"
    by (auto simp: Let_def sc1_def)
  have chain: "recChain s ext ?nxt os" using Cons.prems(1) by simp
  show ?case
  proof (cases "sc_skipNum sc > 0")
    case True
    define sc2 where "sc2 = sc1\<lparr>sc_skipNum := sc_skipNum sc - 1\<rparr>"
    have n: "nat (sc_skipNum sc) = Suc (nat (sc_skipNum sc2))" using True by (simp add: sc2_def)
    have eq: "fetchNext sc g s = fetchNext sc2 g1 s" using step True by (simp add: sc2_def)
    have fields: "sc_next sc2 = ?nxt" "sc_maxRecords sc2 = sc_maxRecords sc" "rid_extent (sc_curRID sc2) = ext"
      "sc_firstRun sc2 = sc_firstRun sc" by (simp_all add: sc2_def sc1_def)
    note IH = Cons.IH [of sc2 g1, unfolded fields, OF chain Cons.prems(2) refl Cons.prems(4,5)]
    show ?thesis unfolding n eq drop_Suc_Cons by (rule IH)
  next
    case False
    then show ?thesis using step g1 chain Cons.prems(3) by (simp add: sc1_def)
  qed
qed

lemma limited_Nil [simp]: "limited m k [] = []"
  by (simp add: limited_def)

lemma limited_0 [simp]: "limited 0 k xs = []"
  by (simp add: limited_def Let_def)

lemma limited_Cons: "m \<noteq> 0 \<Longrightarrow> limited m k xs = (case drop (nat k) xs of [] \<Rightarrow> []
    | y # ys \<Rightarrow> y # limited (if m > 0 then m - 1 else m) 0 ys)"
  by (cases "drop (nat k) xs") (auto simp: limited_def Let_def take_Cons' nat_diff_distrib)

lemma runScan_chain:
  assumes "recChain s ext (sc_next sc) offs" and "\<not> sc_firstRun sc" and "rid_extent (sc_curRID sc) = ext"
    and "extentAddr s ext \<noteq> 0" and "isMBLock (bd_ctx s)" and "length offs < fuel"
  shows "runScan fuel sc g s = Ret (SDB_DMS_EOC,
    map (\<lambda>o1. (RID ext o1, rec_getData (bd_record s (RID ext o1)))) (limited (sc_maxRecords sc) (sc_skipNum sc) offs)) s"
  using assms
proof (induction fuel arbitrary: sc g offs)
  case 0
  then show ?case by simp
next
  case (Suc fuel)
  have adv: "advance sc g = bindM (fetchNext sc g) (\<lambda>(rc1, rid, g1, sc2).
      if rc1 \<noteq> SDB_OK
      then retM (rc1, rid_null, g1, sc2\<lparr>sc_curRID := RID (rid_extent (sc_curRID sc2)) DMS_INVALID_OFFSET\<rparr>)
      else retM (SDB_OK, rid, g1, sc2))" using Suc.prems(2) by (simp add: advance_def)
  show ?case
  proof (cases "sc_maxRecords sc = 0")
    case True
    then show ?thesis by (simp add: adv bindM_def fetchNext_stop fetchError_def retM_def)
  next
    case False
    note ch = fetchNext_chain [OF Suc.prems(1) False Suc.prems(3-5), of g]
    show ?thesis
    proof (cases "drop (nat (sc_skipNum sc)) offs")
      case Nil
      with ch False show ?thesis
        by (auto simp: adv bindM_def fetchError_def retM_def limited_Cons)
    next
      case (Cons o1 os)
      with ch obtain g1 sc1 where f: "fetchNext sc g s = Ret (SDB_OK, RID ext o1, g1, sc1) s"
        "gen_src g1 = rec_getData (bd_record s (RID ext o1))" "recChain s ext (sc_next sc1) os"
        "nat (sc_skipNum sc1) = 0" "sc_firstRun sc1 = sc_firstRun sc" "rid_extent (sc_curRID sc1) = ext"
        "sc_maxRecords sc1 = (if sc_maxRecords sc > 0 then sc_maxRecords sc - 1 else sc_maxRecords sc)" by auto
      have "length os < fuel" using Suc.prems(6) arg_cong [OF Cons, of length] by simp
      with Suc.IH [OF f(3) _ f(6) Suc.prems(4,5), of g1] f(5) Suc.prems(2)
      have "runScan fuel sc1 g1 s = Ret (SDB_DMS_EOC, map (\<lambda>o1. (RID ext o1, rec_getData (bd_record s (RID ext o1))))
          (limited (sc_maxRecords sc1) (sc_skipNum sc1) os)) s" by simp
      moreover have "limited (sc_maxRecords sc1) (sc_skipNum sc1) os = limited (sc_maxRecords sc1) 0 os"
        by (simp add: limited_def f(4))
      ultimately show ?thesis using f(1,2,7) False Cons
        by (simp add: adv bindM_def retM_def limited_Cons gen_getNext_def)
    qed
  qed
qed

lemma scan_extent:
  assumes "extentAddr s ext \<noteq> 0" and "ext_validate (ctx_mbID (bd_ctx s)) (bd_extent s ext)"
    and "isMBLockType (sc_mbLockType (scanner_new ext acc maxR skip)) (bd_ctx s)"
    and "recChain s ext (ext_firstRecordOffset (bd_extent s ext)) offs" and "length offs < fuel"
  shows "runScan fuel (scanner_new ext acc maxR skip) g s = Ret (SDB_DMS_EOC,
    map (\<lambda>o1. (RID ext o1, rec_getData (bd_record s (RID ext o1)))) (limited maxR skip offs)) s"
proof -
  define sc0 where "sc0 = scanner_new ext acc maxR skip"
  define sc where "sc = sc0\<lparr>sc_extent := Some ext, sc_next := ext_firstRecordOffset (bd_extent s ext), sc_firstRun := False\<rparr>"
  have lock: "isMBLock (bd_ctx s)"
    using assms(3) by (simp add: isMBLockType_def isMBLock_def scanner_new_def split: if_splits)
  have first: "firstInit sc0 s = Ret (SDB_OK, sc) s"
    using assms(1-3) by (simp add: firstInit_def extReadPtr_def sc_def sc0_def scanner_new_def bindM_def getM_def retM_def Let_def)
  have "sc_firstRun sc0" by (simp add: sc0_def scanner_new_def)
  with first have "advance sc0 g s = advance sc g s" by (simp add: advance_def bindM_def retM_def sc_def)
  then have "runScan fuel sc0 g s = runScan fuel sc g s" by (cases fuel) (simp_all add: bindM_def)
  moreover have "sc_next sc = ext_firstRecordOffset (bd_extent s ext)" "\<not> sc_firstRun sc" "rid_extent (sc_curRID sc) = ext"
    "sc_maxRecords sc = maxR" "sc_skipNum sc = skip" by (simp_all add: sc_def sc0_def scanner_new_def)
  ultimately show ?thesis
    using runScan_chain [of s ext sc offs fuel g] assms(1,4,5) lock by (simp add: sc0_def)
qed

section \<open>Properties\<close>

text \<open>C8: A scan of an extent returns the records of its chain, in chain order, after the skipped
  ones and at most as many as asked for, each with its data, then reports \<open>SDB_DMS_EOC\<close>; the storage unit is not
  changed.  The extent is mapped and belongs to the collection of the context, which already
  holds the latch in the mode of the scan.\<close>

theorem scan_extent_in_order:
  assumes "extentAddr s ext \<noteq> 0" and "ext_validate (ctx_mbID (bd_ctx s)) (bd_extent s ext)"
    and "isMBLockType (sc_mbLockType (scanner_new ext acc maxR skip)) (bd_ctx s)"
    and "recChain s ext (ext_firstRecordOffset (bd_extent s ext)) offs" and "length offs < fuel"
  shows "runScan fuel (scanner_new ext acc maxR skip) g s = Ret (SDB_DMS_EOC,
    map (\<lambda>o1. (RID ext o1, rec_getData (bd_record s (RID ext o1)))) (limited maxR skip offs)) s"
  by (rule scan_extent [OF assms])

text \<open>A storage unit with one mapped segment and an extent with two records.\<close>

definition demoScanRecord :: "dmsOffset \<Rightarrow> dmsRecord" where
  "demoScanRecord nxt = \<lparr> rec_flag_and_size = 0x2300, rec_myOffset = 0, rec_previousOffset = DMS_INVALID_OFFSET,
     rec_nextOffset = nxt, rec_body = emptyObj \<rparr>"

definition demoScanState :: dmsBlockData where
  "demoScanState = (blockData_new ''foo.1.data'' storageInfo_new)\<lparr>bd_ctx := ctx_reset\<lparr>ctx_mbID := 3, ctx_mbLockType := SHARED\<rparr>, bd_mmap := demoMmap,
     bd_segmentPagesSquare := 11, bd_pageSizeSquare := 16, bd_dataSegID := 0, bd_maxSegID := 0,
     bd_extent := (\<lambda>_. (ext_init 1 3 65536)\<lparr>ext_firstRecordOffset := 36\<rparr>),
     bd_record := (\<lambda>r. if rid_offset r = 36 then demoScanRecord 72 else demoScanRecord DMS_INVALID_OFFSET)\<rparr>"

lemma demoScan_chain: "recChain demoScanState 0 (ext_firstRecordOffset (bd_extent demoScanState 0)) [36, 72]"
  by (simp add: demoScanState_def demoScanRecord_def rec_isOvf_def rec_getState_def rec_getFlag_def rec_getData_def
      rec_isCompressed_def rec_getAttr_def emptyObj_def bson_isValid_def objsize_def le32_def byteAt_def)

theorem scan_extent_in_order_witness:
  "runScan 3 (scanner_new 0 ACCESS_QUERY (- 1) 1) gen_new demoScanState
     = Ret (SDB_DMS_EOC, [(RID 0 72, emptyObj)]) demoScanState"
proof -
  have "extentAddr demoScanState 0 \<noteq> 0"
    by (simp add: demoScanState_def extentAddr_def extent2Segment_def mmap_getSegmentInfo_def demoMmap_def cast_simps)
  moreover have "ext_validate (ctx_mbID (bd_ctx demoScanState)) (bd_extent demoScanState 0)"
    by (simp add: demoScanState_def ext_validate_def ext_init_def)
  moreover have "isMBLockType (sc_mbLockType (scanner_new 0 ACCESS_QUERY (- 1) 1)) (bd_ctx demoScanState)"
    by (simp add: demoScanState_def scanner_new_def isMBLockType_def DMS_IS_WRITE_OPR_def)
  ultimately show "runScan 3 (scanner_new 0 ACCESS_QUERY (- 1) 1) gen_new demoScanState
     = Ret (SDB_DMS_EOC, [(RID 0 72, emptyObj)]) demoScanState"
    using scan_extent_in_order [OF _ _ _ demoScan_chain, of ACCESS_QUERY "- 1" 1 3 gen_new]
    by (simp add: limited_def demoScanState_def demoScanRecord_def rec_getData_def rec_isCompressed_def rec_getAttr_def rec_getFlag_def)
qed

end
