(* ===== verification/Dms_Prepare.thy ===== *)
theory Dms_Prepare
  imports Dms_Insert
begin

text \<open>
  What \<open>_prepareInsertData\<close> stores: for an object laid out as BSON prescribes, the object itself, or with \<open>mustOID\<close> and no
  \<open>_id\<close> the object with a fresh object id as its first field, again laid out as BSON prescribes.
\<close>

definition storedFields :: "bytes \<Rightarrow> bool \<Rightarrow> bfields \<Rightarrow> bfields" where
  "storedFields oid mustOID fs =
     (if mustOID \<and> findField fs DMS_ID_KEY_NAME [] = None then BCons DMS_ID_KEY_NAME (Leaf jstOID oid) fs else fs)"

text \<open>The complaint about the \<open>_id\<close> of an object.\<close>

definition idErr :: "bfields \<Rightarrow> string option" where
  "idErr fs = (case findField fs DMS_ID_KEY_NAME [] of
       None \<Rightarrow> None
     | Some (Leaf t p, _) \<Rightarrow> if t = RegEx then Some ''can't be RegEx'' else None
     | Some (Emb a gs, _) \<Rightarrow> if a then Some ''can't be Array'' else nameErr gs)"

lemma findField_post: "findField fs name post = map_option (\<lambda>(v, q). (v, q @ post)) (findField fs name [])"
  by (induction fs name "[] :: bytes" rule: findField.induct) auto

lemma findField_wf:
  assumes "findField fs name post = Some (v, q)" and "wfFields fs"
  shows "wfVal v" and "nodes v < nodesF fs" and "length (encVal v) \<le> length (encFields fs)" and "valType v \<noteq> EOO"
proof -
  have "wfVal v \<and> nodes v < nodesF fs \<and> length (encVal v) \<le> length (encFields fs)"
    using assms
  proof (induction fs name post rule: findField.induct)
    case (2 n v' fs name post)
    have "0 < nodesF fs" by (cases fs) simp_all
    with 2 show ?case by (fastforce split: if_splits)
  qed simp
  then show "wfVal v" "nodes v < nodesF fs" "length (encVal v) \<le> length (encFields fs)" "valType v \<noteq> EOO"
    by (cases v; auto simp: wfLeaf_def)+
qed

lemma encObj_objsize:
  assumes "int (length (encObj fs)) \<le> BSONObjMaxInternalSize"
  shows "objsize (encObj fs @ rest) = int (length (encObj fs))" and "bson_isValid (encObj fs @ rest)"
  using objsize_Emb(1) [of False fs rest] assms by (simp_all add: encObj_def bson_isValid_def)

lemma idKey: "0 \<notin> set DMS_ID_KEY_NAME" "length DMS_ID_KEY_NAME = 3"
  by (simp_all add: DMS_ID_KEY_NAME_def)

text \<open>The check of the element that \<open>getField\<close> returns.\<close>

lemma id_check:
  assumes "wfFields fs" and "int (length (encObj fs)) \<le> BSONObjMaxInternalSize" and "nodesF fs < fuel"
    and "e = (case findField fs DMS_ID_KEY_NAME (0 # rest) of Some (v, q) \<Rightarrow> elemBytes DMS_ID_KEY_NAME v @ q | None \<Rightarrow> emptyElement)"
  shows "dmsIsRecordIDValid fuel e True = BRet (idErr fs)" and "eoo e \<longleftrightarrow> findField fs DMS_ID_KEY_NAME [] = None"
proof -
  have "dmsIsRecordIDValid fuel e True = BRet (idErr fs) \<and> (eoo e \<longleftrightarrow> findField fs DMS_ID_KEY_NAME [] = None)"
  proof (cases "findField fs DMS_ID_KEY_NAME []")
    case None
    then have e: "e = emptyElement" using assms(4) by (simp add: findField_post [of _ _ "0 # rest"])
    show ?thesis by (simp add: e None idErr_def dmsIsRecordIDValid_def emptyElement_def eoo_def elemType_def bsonTypes_def)
  next
    case (Some vq)
    obtain v q where vq: "vq = (v, q)" by (cases vq)
    note w = findField_wf [OF Some [unfolded vq] assms(1)]
    have len: "int (length (encVal v)) \<le> BSONObjMaxInternalSize" using w(3) assms(2) by (simp add: encObj_def)
    have e: "e = typeByte (valType v) # DMS_ID_KEY_NAME @ 0 # encVal v @ (q @ 0 # rest)"
      using assms(4) Some vq by (simp add: findField_post [of _ _ "0 # rest"] elemBytes_def)
    note parts = encElem_parts [OF idKey(1) w(1) len, of "q @ 0 # rest", folded e]
    show ?thesis
    proof (cases v)
      case (Leaf t p)
      then have "t \<noteq> Object" "t \<noteq> Array" "t \<noteq> EOO" using w(1) by (auto simp: wfLeaf_def)
      then show ?thesis using parts Some vq Leaf by (cases t) (auto simp: dmsIsRecordIDValid_def idErr_def)
    next
      case (Emb a gs)
      have v: "encVal v = encObj gs" by (simp add: Emb encObj_def)
      have gs: "int (length (encObj gs)) \<le> BSONObjMaxInternalSize" "nodesF gs < fuel" "wfFields gs"
        using len w(1,2) assms(3) Emb by (auto simp: encObj_def)
      have "elemValue e = encObj gs @ q @ 0 # rest" using parts(3) v by simp
      then show ?thesis using parts(1,4) Some vq Emb encObj_objsize(2) [OF gs(1)] dmsIsKeyNameValid_enc [OF gs(3,1,2)]
        by (simp add: dmsIsRecordIDValid_def idErr_def Let_def)
    qed
  qed
  then show "dmsIsRecordIDValid fuel e True = BRet (idErr fs)" "eoo e \<longleftrightarrow> findField fs DMS_ID_KEY_NAME [] = None" by simp_all
qed

lemma merged_enc:
  assumes "int (length (encObj fs)) \<le> BSONObjMaxInternalSize" and "length oid = 12"
  shows "mergedData oid (encObj fs @ rest) = encObj (BCons DMS_ID_KEY_NAME (Leaf jstOID oid) fs)"
proof -
  have t: "typeByte jstOID = 7" by (simp add: typeByte_def bsonTypes_def)
  have n: "nat (objsize (encObj fs @ rest)) = length (encFields fs) + 5"
    using encObj_objsize(1) [OF assms(1), of rest] by (simp add: encObj_def nat_add_distrib)
  show ?thesis unfolding mergedData_def n using assms(2)
    by (simp add: IDToInsert_def encObj_def DMS_ID_KEY_NAME_def t)
qed

text \<open>The record data for an object of \<open>n\<close> bytes.\<close>

definition plainRd :: "bytes \<Rightarrow> dmsRecordData" where
  "plainRd d = \<lparr> rd_data = Some d, rd_len = u32 (objsize d), rd_compressType = UTIL_COMPRESSOR_INVALID,
     rd_orgData = Some d, rd_orgLen = u32 (objsize d) \<rparr>"

lemma prepare_enc:
  assumes "wfFields fs" and "int (length (encObj fs)) + 17 \<le> BSONObjMaxInternalSize" and "nodesF fs < fuel"
    and "length (in_oid ie) = 12" and "in_allocBuff ie = SDB_OK"
  shows "prepareInsertData ie fuel (encObj fs) mustOID =
    (case idErr fs of
       Some msg \<Rightarrow> Some (SDB_INVALIDARG, plainRd (encObj fs), False)
     | None \<Rightarrow> Some (SDB_OK, plainRd (encObj (storedFields (in_oid ie) mustOID fs)), mustOID \<and> findField fs DMS_ID_KEY_NAME [] = None))"
proof -
  have len: "int (length (encObj fs)) \<le> BSONObjMaxInternalSize" using assms(2) by simp
  define e where "e = (case findField fs DMS_ID_KEY_NAME [0] of Some (v, q) \<Rightarrow> elemBytes DMS_ID_KEY_NAME v @ q | None \<Rightarrow> emptyElement)"
  have get: "getField fuel (encObj fs) DMS_ID_KEY_NAME = BRet e"
    using getField_enc [OF assms(1) len, of fuel "[]"] assms(3) by (simp add: e_def)
  note chk = id_check [OF assms(1) len assms(3), of e "[]", unfolded e_def [symmetric], OF refl]
  let ?m = "BCons DMS_ID_KEY_NAME (Leaf jstOID (in_oid ie)) fs"
  have lm: "length (encObj ?m) = length (encObj fs) + 17" using assms(4) by (simp add: encObj_def DMS_ID_KEY_NAME_def)
  have m: "mergedData (in_oid ie) (encObj fs) = encObj ?m" using merged_enc [OF len assms(4), of "[]"] by simp
  have sz: "objsize (encObj fs) = int (length (encObj fs))" "objsize (encObj ?m) = int (length (encObj fs)) + 17"
    using encObj_objsize(1) [OF len, of "[]"] encObj_objsize(1) [of ?m "[]"] assms(2) lm by simp_all
  have id17: "length (IDToInsert (in_oid ie)) = 17" using assms(4) by (simp add: IDToInsert_def DMS_ID_KEY_NAME_def)
  show ?thesis unfolding prepareInsertData_def Let_def get
    using chk assms(5)
    by (simp add: rd_setData_def rd_reset_def plainRd_def storedFields_def m sz id17 add.commute split: option.split)
qed

lemma storedFields_wf:
  assumes "wfFields fs" and "length oid = 12"
  shows "wfFields (storedFields oid mustOID fs)" and "length (encObj (storedFields oid mustOID fs)) \<le> length (encObj fs) + 17"
  using assms by (simp_all add: storedFields_def idKey wfLeaf_def valueSize.simps encObj_def)

lemma plainRd_ok:
  assumes "int (length (encObj fs)) \<le> BSONObjMaxInternalSize"
  shows "rd_len (plainRd (encObj fs)) = length (encObj fs)" and "bson_isValid (the (rd_data (plainRd (encObj fs))))" and "5 \<le> length (encObj fs)"
  using encObj_objsize [OF assms, of "[]"] assms by (simp_all add: plainRd_def cast_simps encObj_def)

section \<open>Properties\<close>

text \<open>C38: \<open>_prepareInsertData\<close> on an object laid out as BSON prescribes (small enough that the \<open>_id\<close> field still fits): an \<open>_id\<close> that is an
  array, a regular expression or an object with a forbidden field name is refused with
  \<open>SDB_INVALIDARG\<close>; otherwise the data to store is a well-formed object again, the given one or, when \<open>mustOID\<close> is set and
  no \<open>_id\<close> is there, the given one with the new object id in front, and looking up \<open>_id\<close> in it finds that id.\<close>

theorem stored_object_has_id:
  assumes "wfFields fs" and "int (length (encObj fs)) + 17 \<le> BSONObjMaxInternalSize" and "nodesF fs < fuel"
    and "length (in_oid ie) = 12" and "in_allocBuff ie = SDB_OK"
  shows "(idErr fs \<noteq> None \<longrightarrow> (\<exists>rd nm. prepareInsertData ie fuel (encObj fs) mustOID = Some (SDB_INVALIDARG, rd, nm))) \<and>
    (idErr fs = None \<longrightarrow> (\<exists>rd nm gs. prepareInsertData ie fuel (encObj fs) mustOID = Some (SDB_OK, rd, nm)
       \<and> rd_data rd = Some (encObj gs) \<and> rd_len rd = length (encObj gs) \<and> wfFields gs
       \<and> (mustOID \<longrightarrow> findField gs DMS_ID_KEY_NAME [] \<noteq> None)
       \<and> (if mustOID \<and> findField fs DMS_ID_KEY_NAME [] = None then gs = BCons DMS_ID_KEY_NAME (Leaf jstOID (in_oid ie)) fs else gs = fs)))"
proof -
  let ?gs = "storedFields (in_oid ie) mustOID fs"
  have "int (length (encObj ?gs)) \<le> BSONObjMaxInternalSize" using storedFields_wf(2) [OF assms(1,4), of mustOID] assms(2) by simp
  note rd = plainRd_ok [OF this]
  show ?thesis using prepare_enc [OF assms, of mustOID] storedFields_wf(1) [OF assms(1,4), of mustOID] rd(1)
    by (auto simp: plainRd_def storedFields_def split: option.splits)
qed

theorem stored_object_has_id_witness:
  "\<exists>rd nm. prepareInsertData \<lparr>in_oid = replicate 12 1, in_allocBuff = SDB_OK, in_lastError = 0\<rparr> 10
      (encObj (BCons [97] (Leaf jstNULL []) BNil)) True = Some (SDB_OK, rd, nm)
    \<and> rd_data rd = Some (encObj (BCons DMS_ID_KEY_NAME (Leaf jstOID (replicate 12 1)) (BCons [97] (Leaf jstNULL []) BNil)))"
  using stored_object_has_id [of "BCons [97] (Leaf jstNULL []) BNil" 10 "\<lparr>in_oid = replicate 12 1, in_allocBuff = SDB_OK, in_lastError = 0\<rparr>" True]
  by (simp add: wfLeaf_def valueSize.simps encObj_def idErr_def DMS_ID_KEY_NAME_def) blast

end
