(* ===== verification/Dms_Collection.thy ===== *)
theory Dms_Collection
  imports Dms_FreeSearch Dms_Scanner Dms_Prepare
begin

text \<open>
  A collection as a whole: its extents, the chain of records in each of them and its free cells.  \<open>coll_inv\<close> says how
  these fit together: live and free cells tile the extents without overlap, the chain of an
  extent runs forwards and backwards through exactly its live records, every live record is readable.
  Inserting a record keeps the invariant, puts the record at the end of the
  chain of its extent and leaves every other record as it was; a scan then returns it.
\<close>

section \<open>What \<open>_extentInsertRecord\<close> does to the state\<close>

text \<open>The space: the record becomes a normal one, and what it does not need goes back to the free lists.\<close>

definition claimCell :: "nat \<Rightarrow> dmsRecordID \<Rightarrow> nat \<Rightarrow> dmsBlockData \<Rightarrow> dmsBlockData" where
  "claimCell c r need s =
     (let s1 = setRecord r (\<lambda>x. rec_resetAttr (rec_setNormal x)) s; n = rec_getSize (bd_record s1 r)
      in if n - need > DMS_MIN_RECORD_SZ
         then setRecord r (rec_setSize need)
                (saveState c (RID (rid_extent r) (s32 (rec_myOffset (bd_record s r) + int need))) (int (n - need)) s1)
         else s1)"

definition writeData :: "dmsRecordID \<Rightarrow> dmsRecordData \<Rightarrow> dmsBlockData \<Rightarrow> dmsBlockData" where
  "writeData r rd = setRecord r (\<lambda>x. (rec_setData rd x)
     \<lparr>rec_nextOffset := DMS_INVALID_OFFSET, rec_previousOffset := DMS_INVALID_OFFSET\<rparr>)"

definition linkRecord :: "nat \<Rightarrow> dmsRecordID \<Rightarrow> dmsOffset \<Rightarrow> dmsBlockData \<Rightarrow> dmsBlockData" where
  "linkRecord c r myOffset s =
     (let e = rid_extent r; lst = ext_lastRecordOffset (bd_extent s e);
          s2 = setStat c (\<lambda>st. st\<lparr>st_totalRecords := st_totalRecords st + 1\<rparr>)
                 (setExtent e (\<lambda>x. x\<lparr>ext_recCount := ext_recCount x + 1\<rparr>) s);
          s3 = (if DMS_INVALID_OFFSET \<noteq> lst
                then setRecord r (\<lambda>x. x\<lparr>rec_previousOffset := lst\<rparr>) (setRecord (RID e lst) (\<lambda>x. x\<lparr>rec_nextOffset := myOffset\<rparr>) s2)
                else s2)
      in setExtent e (\<lambda>x. x\<lparr>ext_lastRecordOffset := myOffset,
           ext_firstRecordOffset := (if DMS_INVALID_OFFSET = ext_firstRecordOffset x then myOffset else ext_firstRecordOffset x)\<rparr>) s3)"

definition countData :: "nat \<Rightarrow> dmsRecordData \<Rightarrow> dmsBlockData \<Rightarrow> dmsBlockData" where
  "countData c rd = setStat c (\<lambda>st. st\<lparr>st_totalOrgDataLen := st_totalOrgDataLen st + rd_orgLen rd,
     st_totalDataLen := st_totalDataLen st + rd_len rd\<rparr>)"

definition insertedState :: "nat \<Rightarrow> dmsRecordID \<Rightarrow> dmsRecordData \<Rightarrow> nat \<Rightarrow> dmsBlockData \<Rightarrow> dmsBlockData" where
  "insertedState c r rd need s =
     countData c rd (linkRecord c r (rec_myOffset (bd_record s r)) (writeData r rd (claimCell c r need s)))"

lemma insert_addr [simp]:
  "extentAddr (claimCell c r need s) x = extentAddr s x" "extentAddr (writeData r rd s) x = extentAddr s x"
  "extentAddr (linkRecord c r o1 s) x = extentAddr s x" "extentAddr (countData c rd s) x = extentAddr s x"
  by (simp_all add: claimCell_def writeData_def linkRecord_def countData_def Let_def)

text \<open>Reading the state: the value read is that of the expected state.\<close>

lemma yields_get_extent:
  "core s = core t \<Longrightarrow> (core s = core t \<Longrightarrow> yields (g (f (bd_extent t)) s) b u) \<Longrightarrow> yields (bindM (getM (\<lambda>s. f (bd_extent s))) g s) b u"
  by (simp add: core_eqD(8) [of s t])

lemma yields_get_record:
  "core s = core t \<Longrightarrow> (core s = core t \<Longrightarrow> yields (g (f (bd_record t)) s) b u) \<Longrightarrow> yields (bindM (getM (\<lambda>s. f (bd_record s))) g s) b u"
  by (simp add: core_eqD(9) [of s t])

lemma yields_get_ctx:
  "core s = core t \<Longrightarrow> (core s = core t \<Longrightarrow> yields (g (f (bd_ctx t)) s) b u) \<Longrightarrow> yields (bindM (getM (\<lambda>s. f (bd_ctx s))) g s) b u"
  by (simp add: core_eqD(26) [of s t])

lemma yields_saveDeletedRecord:
  assumes "core s = core t" and "\<not> rid_isNull rid" and "extentAddr t (rid_extent rid) \<noteq> 0"
  shows "yields (saveDeletedRecord c rid sz s) SDB_OK (saveState c rid sz t)"
  unfolding saveDeletedRecord_def if_not_P [OF assms(2)] bindM_getM
  by (rule yields_try, rule yields_bind, rule yields_extWrite [OF assms(1,3)], rule yields_withRW, rule yields_bind,
      erule yields_recWrite, rule assms(3), simp add: recLen_def, rule yields_withRW, erule yields_save)

lemma yields_setLinks:
  assumes "core s = core t" and "extentAddr t (rid_extent r) \<noteq> 0"
  shows "yields ((if DMS_INVALID_OFFSET \<noteq> lst
       then bindM (recWritePtr (int c) (RID (rid_extent r) lst) DMS_RECORD_METADATA_SZ False) (\<lambda>_. withRW (int c) (rid_extent r)
          (bindM (updRecord (RID (rid_extent r) lst) (\<lambda>r. r\<lparr>rec_nextOffset := o1\<rparr>)) (\<lambda>_. updRecord r (\<lambda>r. r\<lparr>rec_previousOffset := lst\<rparr>))))
       else retM ()) s) ()
    (if DMS_INVALID_OFFSET \<noteq> lst
     then setRecord r (\<lambda>x. x\<lparr>rec_previousOffset := lst\<rparr>) (setRecord (RID (rid_extent r) lst) (\<lambda>x. x\<lparr>rec_nextOffset := o1\<rparr>) t)
     else t)"
proof (cases "DMS_INVALID_OFFSET \<noteq> lst")
  case True
  have w: "yields (recWritePtr (int c) (RID (rid_extent r) lst) DMS_RECORD_METADATA_SZ False s) True t"
    by (rule yields_recWrite [OF assms(1)]) (use assms(2) in \<open>simp_all add: recLen_def\<close>)
  show ?thesis unfolding if_P [OF True]
    by (rule yields_bind, rule w, rule yields_withRW, rule yields_bind, erule yields_updRecord, erule yields_updRecord)
qed (use assms(1) in simp)

lemma yields_appendRecord:
  assumes "core s = core t" and "extentAddr t (rid_extent r) \<noteq> 0"
  shows "yields (appendRecord c r o1 s) () (linkRecord c r o1 t)"
  unfolding appendRecord_def linkRecord_def Let_def
  by (rule yields_bind, rule yields_extWrite [OF assms], rule yields_withRW, erule yields_get_extent,
      rule yields_bind, erule yields_updExtent, rule yields_bind, erule yields_updStat,
      rule yields_bind, erule yields_setLinks, simp add: assms(2), erule yields_updExtent)

lemma yields_claim:
  assumes "core s = core t" and "extentAddr t (rid_extent r) \<noteq> 0" and "rid_extent r \<noteq> DMS_INVALID_EXTENT"
  shows "yields ((if rec_getSize (bd_record t r) - need > DMS_MIN_RECORD_SZ
       then bindM (saveDeletedRecord c (RID (rid_extent r) (s32 (o1 + int need))) (int (rec_getSize (bd_record t r) - need))) (\<lambda>rc.
            if rc \<noteq> SDB_OK then retM rc else bindM (updRecord r (rec_setSize need)) (\<lambda>_. retM SDB_OK))
       else retM SDB_OK) s) SDB_OK
    (if rec_getSize (bd_record t r) - need > DMS_MIN_RECORD_SZ
     then setRecord r (rec_setSize need) (saveState c (RID (rid_extent r) (s32 (o1 + int need))) (int (rec_getSize (bd_record t r) - need)) t)
     else t)"
proof (cases "rec_getSize (bd_record t r) - need > DMS_MIN_RECORD_SZ")
  case True
  have n: "\<not> rid_isNull (RID (rid_extent r) x)" "extentAddr t (rid_extent (RID (rid_extent r) x)) \<noteq> 0" for x
    using assms(2,3) by (auto simp: rid_isNull_def)
  show ?thesis unfolding if_P [OF True]
    by (rule yields_bind, rule yields_saveDeletedRecord [OF assms(1) n], simp only: simp_thms if_False,
        rule yields_bind, erule yields_updRecord, simp)
qed (use assms(1) in simp)

lemma yields_fillRecord:
  assumes "core s = core t" and "extentAddr t (rid_extent r) \<noteq> 0" and "rid_extent r \<noteq> DMS_INVALID_EXTENT"
  shows "yields (fillRecord c r rd need True s) SDB_OK (insertedState c r rd need t)"
proof -
  have pos: "0 < extentAddr t (rid_extent r)" using assms(2) by simp
  show ?thesis
    unfolding fillRecord_def insertedState_def writeData_def countData_def claimCell_def Let_def
    by (rule yields_get_record [OF assms(1)], rule yields_bind, erule yields_updRecord, erule yields_get_record,
        rule yields_bind, erule yields_claim, simp add: pos, rule assms(3), simp only: simp_thms if_False,
        rule yields_bind, erule yields_updRecord, simp only: if_True, rule yields_bind, erule yields_appendRecord, simp add: pos,
        rule yields_bind, erule yields_updStat, simp only: yields_ret simp_thms)
qed

lemma ctxLock_held: "isMBLockType lockType (bd_ctx s) \<Longrightarrow> lockType = SHARED \<or> lockType = EXCLUSIVE \<Longrightarrow> ctxLock lockType s = Ret SDB_OK s"
  by (auto simp: ctxLock_def putCtx_def mbLock_def mbLockImpl_def isMBLockType_def Let_def)

lemma yields_ctxLock_held:
  assumes "core s = core t" and "isMBLockType EXCLUSIVE (bd_ctx t)"
  shows "yields (ctxLock EXCLUSIVE s) SDB_OK t"
  using assms ctxLock_held [of EXCLUSIVE s] core_eqD(26) [OF assms(1)] by (simp add: yields_def)

lemma yields_extentInsertRecord:
  assumes "core s = core t" and "isMBLockType EXCLUSIVE (bd_ctx t)" and "ctx_mbID (bd_ctx t) = c"
    and "extentAddr t (rid_extent r) \<noteq> 0" and "rid_extent r \<noteq> DMS_INVALID_EXTENT"
    and "0 < need" and "need \<le> rec_getSize (bd_record t r)" and "DMS_MIN_RECORD_DATA_SZ \<le> rd_len rd"
  shows "yields (extentInsertRecord r rd need True s) SDB_OK (insertedState c r rd need t)"
proof -
  have len: "recLen t r need \<le> DMS_RECORD_MAX_SZ" using assms(6,7) rec_getSize_le [of "bd_record t r"] by (simp add: recLen_def)
  have ok: "\<not> rec_getSize (bd_record t r) < need" "\<not> (\<not> rd_isCompressed rd \<and> rd_len rd < DMS_MIN_RECORD_DATA_SZ)" using assms(7,8) by auto
  have step: "yields (bindM (recWritePtr (int c) r need False) (\<lambda>_. withRW (int c) (rid_extent r)
        (bindM (getM (\<lambda>s. rec_getSize (bd_record s r))) (\<lambda>sz.
         if sz < need then retM SDB_INVALIDARG
         else if \<not> rd_isCompressed rd \<and> rd_len rd < DMS_MIN_RECORD_DATA_SZ then retM SDB_INVALIDARG
         else fillRecord c r rd need True))) s') SDB_OK (insertedState c r rd need t)" if "core s' = core t" for s'
    by (rule yields_bind, rule yields_recWrite [OF that assms(4) len], rule yields_withRW, erule yields_get_record,
        simp only: if_not_P [OF ok(1)] if_not_P [OF ok(2)], erule yields_fillRecord [OF _ assms(4,5)])
  show ?thesis unfolding extentInsertRecord_def
    by (rule yields_bind, rule yields_ctxLock_held [OF assms(1,2)], simp only: simp_thms if_False, erule yields_get_ctx,
        simp only: assms(3), erule step)
qed

section \<open>Cells\<close>

text \<open>Cells lie inside their extents and do not overlap; \<open>lim\<close> is the end of an extent.\<close>

definition layout :: "(dmsRecordID \<Rightarrow> nat option) \<Rightarrow> (dmsExtentID \<Rightarrow> int) \<Rightarrow> bool" where
  "layout k lim \<longleftrightarrow>
     (\<forall>r n. k r = Some n \<longrightarrow> 0 < n \<and> int DMS_EXTENT_METADATA_SZ \<le> rid_offset r \<and> rid_offset r + int n \<le> lim (rid_extent r)) \<and>
     (\<forall>r n r' n'. k r = Some n \<and> k r' = Some n' \<and> r \<noteq> r' \<and> rid_extent r = rid_extent r' \<longrightarrow>
        rid_offset r + int n \<le> rid_offset r' \<or> rid_offset r' + int n' \<le> rid_offset r)"

lemma layoutD:
  assumes "layout k lim" and "k r = Some n"
  shows "0 < n" and "int DMS_EXTENT_METADATA_SZ \<le> rid_offset r" and "rid_offset r + int n \<le> lim (rid_extent r)"
  using assms by (auto simp: layout_def)

lemma layout_apart:
  assumes "layout k lim" and "k r = Some n" and "k r' = Some n'" and "r \<noteq> r'" and "rid_extent r = rid_extent r'"
  shows "rid_offset r + int n \<le> rid_offset r' \<or> rid_offset r' + int n' \<le> rid_offset r"
  using assms unfolding layout_def by blast

text \<open>The second part of a cell is not a cell yet, and cutting a cell in two keeps the layout.\<close>

lemma layout_inside:
  assumes "layout k lim" and "k r = Some n" and "0 < a" and "a < n"
  shows "k (RID (rid_extent r) (rid_offset r + int a)) = None"
proof (cases "k (RID (rid_extent r) (rid_offset r + int a))")
  case (Some n')
  have "RID (rid_extent r) (rid_offset r + int a) \<noteq> r" using assms(3) by (cases r) auto
  with layout_apart [OF assms(1,2) Some] layoutD(1) [OF assms(1) Some] assms(3,4) show ?thesis by auto
qed

lemma layout_split:
  assumes "layout k lim" and "k r = Some n" and "0 < a" and "a < n"
  shows "layout (k(r \<mapsto> a, RID (rid_extent r) (rid_offset r + int a) \<mapsto> n - a)) lim"
proof -
  define q where "q = RID (rid_extent r) (rid_offset r + int a)"
  let ?k = "k(r \<mapsto> a, q \<mapsto> n - a)"
  have q: "q \<noteq> r" "rid_extent q = rid_extent r" "rid_offset q = rid_offset r + int a" using assms(3) by (cases r; simp add: q_def)+
  have bounds: "int DMS_EXTENT_METADATA_SZ \<le> rid_offset r" "rid_offset r + int n \<le> lim (rid_extent r)" using layoutD(2,3) [OF assms(1,2)] .
  have out: "rid_offset x + int m \<le> rid_offset r \<or> rid_offset r + int n \<le> rid_offset x"
    if "k x = Some m" "x \<noteq> r" "rid_extent x = rid_extent r" for x m
    using layout_apart [OF assms(1,2) that(1)] that by auto
  show ?thesis unfolding layout_def q_def [symmetric]
  proof (intro conjI allI impI)
    fix x m assume x: "?k x = Some m"
    then show "0 < m" "int DMS_EXTENT_METADATA_SZ \<le> rid_offset x" "rid_offset x + int m \<le> lim (rid_extent x)"
      using assms q bounds layoutD [OF assms(1), of x m] by (auto split: if_splits)
  next
    fix x m x' m' assume x: "?k x = Some m \<and> ?k x' = Some m' \<and> x \<noteq> x' \<and> rid_extent x = rid_extent x'"
    have inner: "rid_offset r \<le> rid_offset y \<and> rid_offset y + int i \<le> rid_offset r + int n" if "?k y = Some i" "y = r \<or> y = q" for y i
      using that q assms(3,4) by (auto split: if_splits)
    have outer: "k y = Some i" if "?k y = Some i" "y \<noteq> r" "y \<noteq> q" for y i using that by simp
    consider "x = r \<or> x = q" "x' = r \<or> x' = q" | "x = r \<or> x = q" "x' \<noteq> r" "x' \<noteq> q"
      | "x \<noteq> r" "x \<noteq> q" "x' = r \<or> x' = q" | "x \<noteq> r" "x \<noteq> q" "x' \<noteq> r" "x' \<noteq> q" by blast
    then show "rid_offset x + int m \<le> rid_offset x' \<or> rid_offset x' + int m' \<le> rid_offset x"
    proof cases
      case 1
      then show ?thesis using x q assms(3,4) by (elim disjE) (auto split: if_splits)
    next
      case 2
      then show ?thesis using inner [of x m] out [OF outer, of x' m'] x q(2) by fastforce
    next
      case 3
      then show ?thesis using inner [of x' m'] out [OF outer, of x m] x q(2) by fastforce
    next
      case 4
      then show ?thesis using layout_apart [OF assms(1) outer outer, of x m x' m'] x by blast
    qed
  qed
qed

section \<open>The invariant of a collection\<close>

fun backChain :: "dmsBlockData \<Rightarrow> dmsExtentID \<Rightarrow> dmsOffset \<Rightarrow> dmsOffset list \<Rightarrow> bool" where
  "backChain s e prv [] \<longleftrightarrow> True"
| "backChain s e prv (o1 # os) \<longleftrightarrow> rec_previousOffset (bd_record s (RID e o1)) = prv \<and> backChain s e o1 os"

definition lastOffset :: "dmsOffset list \<Rightarrow> dmsOffset" where
  "lastOffset offs = (if offs = [] then DMS_INVALID_OFFSET else last offs)"

definition extentBytes :: "dmsBlockData \<Rightarrow> dmsExtentID \<Rightarrow> int" where
  "extentBytes s e = int (ext_blockSize (bd_extent s e)) * 2 ^ bd_pageSizeSquare s"

text \<open>An extent with the records at \<open>offs\<close>, in this order.\<close>

definition extent_ok :: "dmsBlockData \<Rightarrow> nat \<Rightarrow> dmsExtentID \<Rightarrow> dmsOffset list \<Rightarrow> bool" where
  "extent_ok s c e offs \<longleftrightarrow> e \<noteq> DMS_INVALID_EXTENT \<and> extentAddr s e \<noteq> 0 \<and> ext_validate c (bd_extent s e)
     \<and> extentBytes s e < 2147483648
     \<and> recChain s e (ext_firstRecordOffset (bd_extent s e)) offs \<and> backChain s e DMS_INVALID_OFFSET offs \<and> distinct offs
     \<and> ext_lastRecordOffset (bd_extent s e) = lastOffset offs \<and> ext_recCount (bd_extent s e) = length offs"

definition liveSet :: "dmsExtentID set \<Rightarrow> (dmsExtentID \<Rightarrow> dmsOffset list) \<Rightarrow> dmsRecordID set" where
  "liveSet E L = {r. rid_extent r \<in> E \<and> rid_offset r \<in> set (L (rid_extent r))}"

definition liveCells :: "dmsBlockData \<Rightarrow> dmsExtentID set \<Rightarrow> (dmsExtentID \<Rightarrow> dmsOffset list) \<Rightarrow> dmsRecordID \<Rightarrow> nat option" where
  "liveCells s E L r = (if r \<in> liveSet E L then Some (rec_getSize (bd_record s r)) else None)"

text \<open>The collection with extents \<open>E\<close>, live records \<open>L\<close>, free cells \<open>m\<close> and the cells \<open>h\<close> that are taken but not
  yet live.\<close>

definition coll_gen :: "dmsBlockData \<Rightarrow> nat \<Rightarrow> dmsExtentID set \<Rightarrow> (dmsExtentID \<Rightarrow> dmsOffset list)
    \<Rightarrow> (dmsRecordID \<Rightarrow> nat option) \<Rightarrow> (dmsRecordID \<Rightarrow> nat option) \<Rightarrow> bool" where
  "coll_gen s c E L m h \<longleftrightarrow> freeRep c s m \<and> (\<forall>r\<in>dom m \<union> dom h. rid_extent r \<in> E) \<and> (\<forall>e\<in>E. extent_ok s c e (L e))
     \<and> (\<forall>r\<in>liveSet E L. rec_isNormal (bd_record s r) \<and> rec_myOffset (bd_record s r) = rid_offset r)
     \<and> (\<forall>r\<in>dom h. h r = Some (rec_getSize (bd_record s r)) \<and> rec_myOffset (bd_record s r) = rid_offset r)
     \<and> dom m \<inter> dom h = {} \<and> liveSet E L \<inter> (dom m \<union> dom h) = {}
     \<and> layout (m ++ h ++ liveCells s E L) (extentBytes s)"

definition coll_inv :: "dmsBlockData \<Rightarrow> nat \<Rightarrow> dmsExtentID set \<Rightarrow> (dmsExtentID \<Rightarrow> dmsOffset list) \<Rightarrow> (dmsRecordID \<Rightarrow> nat option) \<Rightarrow> bool" where
  "coll_inv s c E L m \<longleftrightarrow> coll_gen s c E L m Map.empty"

lemma recChain_cong:
  "(\<And>o1. o1 \<in> set offs \<Longrightarrow> bd_record t (RID e o1) = bd_record s (RID e o1)) \<Longrightarrow> recChain t e start offs = recChain s e start offs"
  by (induction offs arbitrary: start) auto

lemma backChain_cong:
  "(\<And>o1. o1 \<in> set offs \<Longrightarrow> bd_record t (RID e o1) = bd_record s (RID e o1)) \<Longrightarrow> backChain t e start offs = backChain s e start offs"
  by (induction offs arbitrary: start) auto

text \<open>States that agree on the collection but for the free-space counters of its extents.\<close>

definition same_extents :: "dmsBlockData \<Rightarrow> dmsBlockData \<Rightarrow> bool" where
  "same_extents s t \<longleftrightarrow> bd_pageSizeSquare t = bd_pageSizeSquare s \<and> (\<forall>e. extentAddr t e = extentAddr s e)
     \<and> (\<forall>e. \<exists>f. bd_extent t e = (bd_extent s e)\<lparr>ext_freeSpace := f\<rparr>)"

lemma same_extentsD:
  assumes "same_extents s t"
  shows "ext_validate c (bd_extent t e) = ext_validate c (bd_extent s e)" "extentBytes t = extentBytes s"
    "ext_firstRecordOffset (bd_extent t e) = ext_firstRecordOffset (bd_extent s e)"
    "ext_lastRecordOffset (bd_extent t e) = ext_lastRecordOffset (bd_extent s e)"
    "ext_recCount (bd_extent t e) = ext_recCount (bd_extent s e)" "extentAddr t e = extentAddr s e"
proof -
  obtain f where f: "\<And>e. bd_extent t e = (bd_extent s e)\<lparr>ext_freeSpace := f e\<rparr>"
    using assms unfolding same_extents_def by metis
  show "ext_validate c (bd_extent t e) = ext_validate c (bd_extent s e)" "extentBytes t = extentBytes s"
    "ext_firstRecordOffset (bd_extent t e) = ext_firstRecordOffset (bd_extent s e)"
    "ext_lastRecordOffset (bd_extent t e) = ext_lastRecordOffset (bd_extent s e)"
    "ext_recCount (bd_extent t e) = ext_recCount (bd_extent s e)" "extentAddr t e = extentAddr s e"
    using assms by (simp_all add: f extentBytes_def same_extents_def ext_validate_def fun_eq_iff)
qed

lemma same_extentsI:
  assumes "bd_pageSizeSquare t = bd_pageSizeSquare s" and "\<And>e. extentAddr t e = extentAddr s e"
    and "\<And>e. bd_extent t e = (bd_extent s e)\<lparr>ext_freeSpace := ext_freeSpace (bd_extent t e)\<rparr>"
  shows "same_extents s t"
  using assms unfolding same_extents_def by metis

lemma saveState_same:
  "bd_pageSizeSquare (saveState c q sz s) = bd_pageSizeSquare s" "bd_ctx (saveState c q sz s) = bd_ctx s"
  "\<exists>f. bd_extent (saveState c q sz s) = (bd_extent s)(rid_extent q := (bd_extent s (rid_extent q))\<lparr>ext_freeSpace := f\<rparr>)"
  by (auto simp: saveState_def Let_def)

lemma same_extents_save: "same_extents s (saveState c q sz s)"
  using saveState_same(1,3) [of c q sz s] by (auto intro!: same_extentsI)

lemma same_extents_setRecord [simp]: "same_extents s (setRecord r f t) = same_extents s t" "same_extents (setRecord r f s) t = same_extents s t"
  by (simp_all add: same_extents_def)

lemma same_extents_trans: "same_extents s t \<Longrightarrow> same_extents t u \<Longrightarrow> same_extents s u"
  unfolding same_extents_def by (metis (no_types, lifting) dmsExtent.surjective dmsExtent.update_convs(12))

lemma same_extents_core: "core s = core t \<Longrightarrow> same_extents s t"
  by (rule same_extentsI) (simp_all add: core_eqD(8,18) [of s t] core_addr [of s t])

lemma extent_ok_cong:
  assumes "same_extents s t" and "\<And>o1. o1 \<in> set offs \<Longrightarrow> bd_record t (RID e o1) = bd_record s (RID e o1)"
  shows "extent_ok t c e offs = extent_ok s c e offs"
  using recChain_cong [of offs t e s] backChain_cong [of offs t e s] assms(2)
  by (simp add: extent_ok_def same_extentsD [OF assms(1)])

lemma liveCells_dom [simp]: "dom (liveCells s E L) = liveSet E L"
  by (auto simp: liveCells_def dom_def)

text \<open>Changes outside the live records, with new free and held cells.\<close>

lemma coll_gen_change:
  assumes "coll_gen s c E L m h" and "same_extents s t"
    and "\<And>r. r \<in> liveSet E L \<Longrightarrow> bd_record t r = bd_record s r"
    and "freeRep c t m'" and "\<forall>r\<in>dom m' \<union> dom h'. rid_extent r \<in> E"
    and "\<forall>r\<in>dom h'. h' r = Some (rec_getSize (bd_record t r)) \<and> rec_myOffset (bd_record t r) = rid_offset r"
    and "dom m' \<inter> dom h' = {}" and "liveSet E L \<inter> (dom m' \<union> dom h') = {}"
    and "layout (m' ++ h' ++ liveCells s E L) (extentBytes s)"
  shows "coll_gen t c E L m' h'"
proof -
  have "extent_ok t c e (L e)" if "e \<in> E" for e
    using assms(1) that extent_ok_cong [OF assms(2), of "L e" e] assms(3) by (auto simp: coll_gen_def liveSet_def)
  moreover have "liveCells t E L = liveCells s E L" using assms(3) by (auto simp: liveCells_def)
  ultimately show ?thesis
    using assms same_extentsD(2) [OF assms(2)] by (simp add: coll_gen_def)
qed

subsection \<open>The steps of an insertion\<close>

lemma take_frame:
  assumes "freeRep c s m" and "takesCell c req s r s'"
  shows "\<And>x. x \<notin> dom m \<or> x = r \<Longrightarrow> bd_record s' x = bd_record s x" and "same_extents s s'"
    and "rec_myOffset (bd_record s r) = rid_offset r" and "bd_ctx s' = bd_ctx s"
    and "\<And>x. rec_getSize (bd_record s' x) = rec_getSize (bd_record s x)"
    and "r \<in> dom m" and "m r = Some (rec_getSize (bd_record s r))"
proof -
  obtain F found t where F: "free_inv s c F" "freeMapped s F"
    "m = (\<lambda>r. if r \<in> freeSet F then Some (rec_getSize (bd_record s r)) else None)"
    and found: "found = searchAll s req F [deleteSlot req..<MB_MAX]" "core t = core (takeSearched c found s)"
    and res: "searchSlots c req [deleteSlot req..<MB_MAX] s = Ret (map_option (snd \<circ> snd) found) t"
    using searchSlots_cases [OF assms(1)] by blast
  obtain j p where s': "s' = t" and fd: "found = Some (j, p, r)"
    using assms(2) res by (cases found) (auto simp: takesCell_def)
  have core: "core s' = core (takeState c j p r s)" using found(2) s' fd by (simp add: takeSearched_def)
  have j: "j < MB_MAX" and ff: "firstFit s req s_maxSearch None (F j) = Some (p, r)"
    using searchAll_SomeD [OF found(1) [symmetric, unfolded fd]] by auto
  from firstFit_SomeD [OF ff] obtain xs ys where x: "F j = xs @ r # ys" "p = (if xs = [] then None else Some (last xs))" by auto
  have r: "r \<in> freeSet F" using x(1) j by (auto simp: freeSet_def intro!: bexI [of _ j])
  have "distinct (F j)" using F(1) j by (simp add: free_inv_def)
  then have p: "p = Some q \<Longrightarrow> q \<noteq> r \<and> q \<in> freeSet F" for q
    using x j by (auto simp: freeSet_def split: if_splits intro!: bexI [of _ j])
  show "bd_record s' x = bd_record s x" if "x \<notin> dom m \<or> x = r" for x
    using that p by (auto simp: core_eqD(9) [OF core] takeState_records F(3) dom_def split: option.split if_splits)
  have "same_extents s (takeState c j p r s)"
    by (rule same_extentsI) (simp_all add: takeState_def unlinked_def split: option.split)
  then show "same_extents s s'" using same_extents_trans same_extents_core [OF core [symmetric]] by blast
  show "rec_myOffset (bd_record s r) = rid_offset r" by (rule free_inv_member(3) [OF F(1) r])
  show "bd_ctx s' = bd_ctx s" using core_eqD(26) [OF core] by (simp add: takeState_def unlinked_def split: option.split)
  show "rec_getSize (bd_record s' x) = rec_getSize (bd_record s x)" for x by (simp add: core_eqD(9) [OF core] takeState_size)
  show "r \<in> dom m" "m r = Some (rec_getSize (bd_record s r))" using r F(3) by auto
qed

lemma coll_take:
  assumes "coll_inv s c E L m" and "takesCell c req s r s'"
  shows "coll_gen s' c E L (m(r := None)) [r \<mapsto> rec_getSize (bd_record s r)] \<and> req \<le> rec_getSize (bd_record s r)"
proof -
  have g: "coll_gen s c E L m Map.empty" using assms(1) by (simp add: coll_inv_def)
  then have rep: "freeRep c s m" and ext: "\<forall>x\<in>dom m. rid_extent x \<in> E" and dj: "liveSet E L \<inter> dom m = {}"
    and lay: "layout (m ++ liveCells s E L) (extentBytes s)" by (simp_all add: coll_gen_def)
  note fr = take_frame [OF rep assms(2)]
  obtain n where n: "m r = Some n" "req \<le> n" "freeRep c s' (m(r := None))" using fs.taken_rep [OF rep assms(2)] by blast
  have "m(r := None) ++ [r \<mapsto> rec_getSize (bd_record s r)] = m" using fr(7) by (auto simp: map_add_def fun_eq_iff)
  then have lay': "layout (m(r := None) ++ [r \<mapsto> rec_getSize (bd_record s r)] ++ liveCells s E L) (extentBytes s)"
    using lay by simp
  have "bd_record s' x = bd_record s x" if "x \<in> liveSet E L" for x using fr(1) [of x] dj that by blast
  from coll_gen_change [OF g fr(2) this n(3) _ _ _ _ lay'] have "coll_gen s' c E L (m(r := None)) [r \<mapsto> rec_getSize (bd_record s r)]"
    using ext fr(1) [of r] fr(3,6) dj by auto
  then show ?thesis using n fr(7) by simp
qed

text \<open>The cell is cut when the rest is worth it.\<close>

definition restCell :: "dmsRecordID \<Rightarrow> nat \<Rightarrow> nat \<Rightarrow> (dmsRecordID \<Rightarrow> nat option) \<Rightarrow> dmsRecordID \<Rightarrow> nat option" where
  "restCell r need n m = (if n - need > DMS_MIN_RECORD_SZ then m(RID (rid_extent r) (rid_offset r + int need) \<mapsto> n - need) else m)"

definition keptSize :: "nat \<Rightarrow> nat \<Rightarrow> nat" where
  "keptSize need n = (if n - need > DMS_MIN_RECORD_SZ then need else n)"

lemma reset_flag [simp]:
  "rec_getFlag (rec_resetAttr (rec_setNormal x)) = 0" "rec_getSize (rec_resetAttr (rec_setNormal x)) = rec_getSize x"
  "rec_myOffset (rec_resetAttr (rec_setNormal x)) = rec_myOffset x" "rec_body (rec_resetAttr (rec_setNormal x)) = rec_body x"
proof -
  have z: "rec_getFlag (rec_setNormal x) AND 0x0F = 0" using getState_setState [of 0 x] by (simp add: rec_setNormal_def rec_getState_def)
  have n: "NOT (0xF0 AND 0xF0) = (0x0F :: 8 word)" by simp
  show "rec_getFlag (rec_resetAttr (rec_setNormal x)) = 0"
    unfolding rec_resetAttr_def rec_unsetAttr_def getFlag_setFlag n by (rule z)
qed (simp_all add: flag_setters)

text \<open>The free lists after the cut, and the record.\<close>

lemma claim_cut:
  assumes g: "coll_gen s c E L m [r \<mapsto> n]" and need: "0 < need" and cut: "DMS_MIN_RECORD_SZ < n - need"
  defines "q \<equiv> RID (rid_extent r) (rid_offset r + int need)"
  shows "claimCell c r need s = setRecord r (rec_setSize need) (saveState c q (int (n - need))
           (setRecord r (\<lambda>x. rec_resetAttr (rec_setNormal x)) s))"
    and "q \<noteq> r" and "q \<notin> liveSet E L" and "m q = None"
    and "freeRep c (claimCell c r need s) (m(q \<mapsto> n - need))"
proof -
  have rep: "freeRep c s m" and e: "rid_extent r \<in> E" "extent_ok s c (rid_extent r) (L (rid_extent r))"
    and sz: "rec_getSize (bd_record s r) = n" "rec_myOffset (bd_record s r) = rid_offset r" and mr: "r \<notin> dom m"
    and lay: "layout (m ++ [r \<mapsto> n] ++ liveCells s E L) (extentBytes s)" and dj: "r \<notin> liveSet E L"
    using g by (auto simp: coll_gen_def)
  have k: "(m ++ [r \<mapsto> n] ++ liveCells s E L) r = Some n" using dj by (simp add: map_add_def liveCells_def)
  have none: "(m ++ [r \<mapsto> n] ++ liveCells s E L) q = None"
    unfolding q_def by (rule layout_inside [OF lay k]) (use need cut in auto)
  show "q \<noteq> r" using need by (cases r) (auto simp: q_def)
  show "q \<notin> liveSet E L" "m q = None" using none by (auto simp: liveCells_def map_add_def split: if_splits option.splits)
  have "s32 (rid_offset r + int need) = rid_offset r + int need"
    using layoutD [OF lay k] e(2) need cut by (intro s32_id) (auto simp: extent_ok_def)
  then show eq: "claimCell c r need s = setRecord r (rec_setSize need) (saveState c q (int (n - need))
      (setRecord r (\<lambda>x. rec_resetAttr (rec_setNormal x)) s))"
    using cut by (simp add: claimCell_def Let_def sz q_def)
  let ?s1 = "setRecord r (\<lambda>x. rec_resetAttr (rec_setNormal x)) s"
  have "freeRep c ?s1 m" by (rule freeRep_cong [OF _ _ _ rep]) (use mr in auto)
  moreover have "freeCell ?s1 q (n - need)"
    using e(2) cut rec_getSize_le [of "bd_record s r"] sz by (auto simp: freeCell_def extent_ok_def q_def rid_isNull_def)
  ultimately have "freeRep c (saveState c q (int (n - need)) ?s1) (m(q \<mapsto> n - need))" using \<open>m q = None\<close> by (intro freeRep_save)
  then show "freeRep c (claimCell c r need s) (m(q \<mapsto> n - need))"
    unfolding eq by (rule freeRep_cong [rotated -1]) (use mr \<open>q \<noteq> r\<close> in auto)
qed

lemma claim_frame:
  assumes "coll_gen s c E L m [r \<mapsto> n]" and "0 < need"
  shows "same_extents s (claimCell c r need s)" and "x \<in> liveSet E L \<Longrightarrow> bd_record (claimCell c r need s) x = bd_record s x"
    and "freeRep c (claimCell c r need s) (restCell r need n m)" and "bd_ctx (claimCell c r need s) = bd_ctx s"
    and "rec_getFlag (bd_record (claimCell c r need s) r) = 0" and "rec_body (bd_record (claimCell c r need s) r) = rec_body (bd_record s r)"
    and "rec_myOffset (bd_record (claimCell c r need s) r) = rid_offset r"
    and "rec_getSize (bd_record (claimCell c r need s) r) = keptSize need n"
proof -
  have rep: "freeRep c s m" and sz: "rec_getSize (bd_record s r) = n" "rec_myOffset (bd_record s r) = rid_offset r" and mr: "r \<notin> dom m"
    and dj: "r \<notin> liveSet E L" using assms(1) by (auto simp: coll_gen_def)
  have nc: "claimCell c r need s = setRecord r (\<lambda>x. rec_resetAttr (rec_setNormal x)) s" if "\<not> DMS_MIN_RECORD_SZ < n - need"
    using that by (simp add: claimCell_def Let_def sz)
  show "same_extents s (claimCell c r need s)"
    using same_extents_save [of "setRecord r (\<lambda>x. rec_resetAttr (rec_setNormal x)) s"] same_extents_core [of s s] by (simp add: claimCell_def Let_def)
  show "bd_record (claimCell c r need s) x = bd_record s x" if "x \<in> liveSet E L"
  proof (cases "DMS_MIN_RECORD_SZ < n - need")
    case True
    have "x \<noteq> r" "x \<noteq> RID (rid_extent r) (rid_offset r + int need)" using that dj claim_cut(3) [OF assms True] by auto
    then show ?thesis unfolding claim_cut(1) [OF assms True] by (simp add: saveState_frame(1))
  qed (use that nc dj in auto)
  show "freeRep c (claimCell c r need s) (restCell r need n m)"
  proof (cases "DMS_MIN_RECORD_SZ < n - need")
    case False
    have "freeRep c (setRecord r (\<lambda>x. rec_resetAttr (rec_setNormal x)) s) m" by (rule freeRep_cong [OF _ _ _ rep]) (use mr in auto)
    then show ?thesis using False nc by (simp add: restCell_def)
  qed (use claim_cut(5) [OF assms] in \<open>simp add: restCell_def\<close>)
  show "bd_ctx (claimCell c r need s) = bd_ctx s" by (simp add: claimCell_def Let_def saveState_same)
  have rec: "bd_record (claimCell c r need s) r = (if DMS_MIN_RECORD_SZ < n - need then rec_setSize need else id) (rec_resetAttr (rec_setNormal (bd_record s r)))"
    using nc claim_cut(1,2) [OF assms] by (auto simp: saveState_frame)
  then show "rec_getFlag (bd_record (claimCell c r need s) r) = 0" "rec_body (bd_record (claimCell c r need s) r) = rec_body (bd_record s r)"
    "rec_myOffset (bd_record (claimCell c r need s) r) = rid_offset r" using sz by simp_all
  have "need \<le> DMS_RECORD_MAX_SZ" if "DMS_MIN_RECORD_SZ < n - need" using that rec_getSize_le [of "bd_record s r"] sz by simp
  then show "rec_getSize (bd_record (claimCell c r need s) r) = keptSize need n"
    using rec sz getSize_setSize [OF assms(2)] by (auto simp: keptSize_def)
qed

lemma coll_claim:
  assumes "coll_gen s c E L m [r \<mapsto> n]" and "0 < need" and "need \<le> n"
  shows "coll_gen (claimCell c r need s) c E L (restCell r need n m) [r \<mapsto> keptSize need n]"
proof -
  note fr = claim_frame [OF assms(1,2)]
  have rE: "rid_extent r \<in> E" and mE: "\<forall>x\<in>dom m. rid_extent x \<in> E" and mr: "r \<notin> dom m" and dj: "r \<notin> liveSet E L" "liveSet E L \<inter> dom m = {}"
    and lay: "layout (m ++ [r \<mapsto> n] ++ liveCells s E L) (extentBytes s)"
    using assms(1) by (auto simp: coll_gen_def)
  let ?q = "RID (rid_extent r) (rid_offset r + int need)"
  have rest: "restCell r need n m = m(?q \<mapsto> n - need) \<and> keptSize need n = need \<and> ?q \<noteq> r \<and> ?q \<notin> liveSet E L" if "DMS_MIN_RECORD_SZ < n - need"
    using that claim_cut(2,3) [OF assms(1,2) that] by (simp add: restCell_def keptSize_def)
  have lay': "layout (restCell r need n m ++ [r \<mapsto> keptSize need n] ++ liveCells s E L) (extentBytes s)"
  proof (cases "DMS_MIN_RECORD_SZ < n - need")
    case True
    have k: "(m ++ [r \<mapsto> n] ++ liveCells s E L) r = Some n" using dj(1) by (simp add: map_add_def liveCells_def)
    have eq: "restCell r need n m ++ [r \<mapsto> keptSize need n] ++ liveCells s E L
        = (m ++ [r \<mapsto> n] ++ liveCells s E L)(r \<mapsto> need, ?q \<mapsto> n - need)"
      using rest [OF True] dj(1) by (auto simp: fun_eq_iff map_add_def liveCells_def)
    show ?thesis unfolding eq by (rule layout_split [OF lay k assms(2)]) (use True in simp)
  next
    case False
    then show ?thesis using lay by (simp add: restCell_def keptSize_def)
  qed
  show ?thesis
    by (rule coll_gen_change [OF assms(1) fr(1) fr(2) fr(3) _ _ _ _ lay'])
      (use rE mE mr dj fr(7,8) rest in \<open>auto simp: restCell_def split: if_splits\<close>)
qed

lemma setData_size [simp]: "rec_getSize (rec_setData rd x) = rec_getSize x" "rec_myOffset (rec_setData rd x) = rec_myOffset x"
  by (simp_all add: rec_setData_def Let_def flag_setters)

lemma coll_write:
  assumes "coll_gen s c E L m [r \<mapsto> n]"
  shows "coll_gen (writeData r rd s) c E L m [r \<mapsto> n]"
proof (rule coll_gen_change [OF assms])
  have g: "r \<notin> dom m" "r \<notin> liveSet E L" "rec_getSize (bd_record s r) = n" "rec_myOffset (bd_record s r) = rid_offset r"
    "freeRep c s m" "layout (m ++ [r \<mapsto> n] ++ liveCells s E L) (extentBytes s)" "\<forall>x\<in>dom m \<union> dom [r \<mapsto> n]. rid_extent x \<in> E"
    "dom m \<inter> dom [r \<mapsto> n] = {}" "liveSet E L \<inter> (dom m \<union> dom [r \<mapsto> n]) = {}"
    using assms by (auto simp: coll_gen_def)
  show "same_extents s (writeData r rd s)" using same_extents_core [of s s] by (simp add: writeData_def)
  show "bd_record (writeData r rd s) x = bd_record s x" if "x \<in> liveSet E L" for x using that g(2) by (auto simp: writeData_def)
  show "freeRep c (writeData r rd s) m" by (rule freeRep_cong [OF _ _ _ g(5)]) (use g(1) in \<open>auto simp: writeData_def\<close>)
  show "\<forall>x\<in>dom [r \<mapsto> n]. [r \<mapsto> n] x = Some (rec_getSize (bd_record (writeData r rd s) x)) \<and> rec_myOffset (bd_record (writeData r rd s) x) = rid_offset x"
    using g by (simp add: writeData_def)
qed (use assms in \<open>auto simp: coll_gen_def\<close>)

lemma obs_frame [simp]:
  "rec_isOvf (x\<lparr>rec_nextOffset := a\<rparr>) = rec_isOvf x" "rec_isOvf (x\<lparr>rec_previousOffset := a\<rparr>) = rec_isOvf x"
  "rec_getData (x\<lparr>rec_nextOffset := a\<rparr>) = rec_getData x" "rec_getData (x\<lparr>rec_previousOffset := a\<rparr>) = rec_getData x"
  "rec_isNormal (x\<lparr>rec_nextOffset := a\<rparr>) = rec_isNormal x" "rec_isNormal (x\<lparr>rec_previousOffset := a\<rparr>) = rec_isNormal x"
  by (simp_all add: rec_isOvf_def rec_getState_def rec_getData_def rec_isCompressed_def rec_getAttr_def rec_isNormal_def)

text \<open>A record appended to a chain.\<close>

lemma recChain_snoc:
  assumes "recChain s e start offs" and "offs \<noteq> []" and "distinct offs"
    and "\<And>o1. o1 \<in> set offs \<Longrightarrow> bd_record t (RID e o1) =
      (if o1 = last offs then (bd_record s (RID e o1))\<lparr>rec_nextOffset := new\<rparr> else bd_record s (RID e o1))"
    and "new \<noteq> DMS_INVALID_OFFSET" and "recChain t e new [new]"
  shows "recChain t e start (offs @ [new])"
  using assms
proof (induction offs arbitrary: start)
  case (Cons o1 os)
  show ?case
  proof (cases "os = []")
    case True
    then show ?thesis using Cons.prems by auto
  next
    case False
    then have "o1 \<noteq> last os" using Cons.prems(3) by auto
    then have o1: "bd_record t (RID e o1) = bd_record s (RID e o1)" using Cons.prems(4) [of o1] False by simp
    have "recChain t e (rec_nextOffset (bd_record s (RID e o1))) (os @ [new])"
      by (rule Cons.IH) (use Cons.prems False in auto)
    then show ?thesis using Cons.prems(1) o1 by simp
  qed
qed simp

lemma backChain_snoc:
  assumes "backChain s e prv offs" and "\<And>o1. o1 \<in> set offs \<Longrightarrow> rec_previousOffset (bd_record t (RID e o1)) = rec_previousOffset (bd_record s (RID e o1))"
    and "rec_previousOffset (bd_record t (RID e new)) = (if offs = [] then prv else last offs)"
  shows "backChain t e prv (offs @ [new])"
  using assms by (induction offs arbitrary: prv) auto

text \<open>The links of an extent after the record is appended.\<close>

lemma link_record:
  assumes "ext_lastRecordOffset (bd_extent s (rid_extent r)) = lastOffset offs" and "offs \<noteq> [] \<longrightarrow> last offs \<noteq> DMS_INVALID_OFFSET"
    and "rid_offset r \<notin> set offs"
  shows "bd_record (linkRecord c r o1 s) =
    (if offs = [] then bd_record s
     else (bd_record s)(RID (rid_extent r) (last offs) := (bd_record s (RID (rid_extent r) (last offs)))\<lparr>rec_nextOffset := o1\<rparr>,
                        r := (bd_record s r)\<lparr>rec_previousOffset := last offs\<rparr>))"
proof -
  have "offs \<noteq> [] \<Longrightarrow> r \<noteq> RID (rid_extent r) (last offs)" using assms(3) last_in_set by (cases r) auto
  then show ?thesis using assms(1,2) by (auto simp: linkRecord_def Let_def lastOffset_def)
qed

lemma link_extent:
  "bd_extent (linkRecord c r o1 s) = (bd_extent s)(rid_extent r := (bd_extent s (rid_extent r))
     \<lparr>ext_recCount := ext_recCount (bd_extent s (rid_extent r)) + 1, ext_lastRecordOffset := o1,
      ext_firstRecordOffset := (if DMS_INVALID_OFFSET = ext_firstRecordOffset (bd_extent s (rid_extent r)) then o1
                                else ext_firstRecordOffset (bd_extent s (rid_extent r)))\<rparr>)"
  "bd_pageSizeSquare (linkRecord c r o1 s) = bd_pageSizeSquare s" "bd_mb (linkRecord c r o1 s) = bd_mb s"
  "bd_ctx (linkRecord c r o1 s) = bd_ctx s"
  by (simp_all add: linkRecord_def Let_def)

text \<open>A record that is ready to be linked.\<close>

definition ready :: "dmsRecord \<Rightarrow> bool" where
  "ready x \<longleftrightarrow> rec_getFlag x = 0 \<and> bson_isValid (rec_getData x) \<and> rec_nextOffset x = DMS_INVALID_OFFSET
     \<and> rec_previousOffset x = DMS_INVALID_OFFSET"

lemma ready_normal: "rec_getFlag x = 0 \<Longrightarrow> rec_isNormal x \<and> \<not> rec_isOvf x \<and> \<not> rec_isCompressed x"
  by (simp add: rec_isNormal_def rec_isOvf_def rec_getState_def rec_isCompressed_def rec_getAttr_def)

lemma link_extent_ok:
  assumes "extent_ok s c e offs" and "o1 \<notin> set offs" and "o1 \<noteq> DMS_INVALID_OFFSET" and "ready (bd_record s (RID e o1))"
  shows "extent_ok (linkRecord c (RID e o1) o1 s) c e (offs @ [o1])"
proof -
  have x: "ext_lastRecordOffset (bd_extent s e) = lastOffset offs" "recChain s e (ext_firstRecordOffset (bd_extent s e)) offs"
    "backChain s e DMS_INVALID_OFFSET offs" "distinct offs" using assms(1) by (simp_all add: extent_ok_def)
  have "o2 \<noteq> DMS_INVALID_OFFSET" if "recChain s e start offs" "o2 \<in> set offs" for start o2
    using that by (induction offs arbitrary: start) auto
  then have nz: "offs \<noteq> [] \<longrightarrow> last offs \<noteq> DMS_INVALID_OFFSET" "offs \<noteq> [] \<longrightarrow> ext_firstRecordOffset (bd_extent s e) \<noteq> DMS_INVALID_OFFSET"
    using x(2) by (auto, cases offs, auto)
  let ?t = "linkRecord c (RID e o1) o1 s"
  have rec: "bd_record ?t = (if offs = [] then bd_record s else (bd_record s)(RID e (last offs) := (bd_record s (RID e (last offs)))\<lparr>rec_nextOffset := o1\<rparr>,
                        RID e o1 := (bd_record s (RID e o1))\<lparr>rec_previousOffset := last offs\<rparr>))"
    using link_record [of s "RID e o1" offs c o1] x(1) nz(1) assms(2) by simp
  have new: "recChain ?t e o1 [o1]" using assms(3,4) ready_normal [of "bd_record s (RID e o1)"]
    by (simp add: rec ready_def)
  have fwd: "recChain ?t e (ext_firstRecordOffset (bd_extent ?t e)) (offs @ [o1])"
  proof (cases "offs = []")
    case True
    then show ?thesis using x(2) new by (simp add: link_extent)
  next
    case False
    have "recChain ?t e (ext_firstRecordOffset (bd_extent s e)) (offs @ [o1])"
      by (rule recChain_snoc [OF x(2) False x(4) _ assms(3) new]) (use rec False assms(2) in auto)
    then show ?thesis using nz(2) False by (simp add: link_extent)
  qed
  have "backChain ?t e DMS_INVALID_OFFSET (offs @ [o1])"
    by (rule backChain_snoc [OF x(3)]) (use rec assms(2,4) in \<open>auto simp: ready_def\<close>)
  then show ?thesis using fwd assms x
    by (auto simp: extent_ok_def link_extent lastOffset_def ext_validate_def extentBytes_def)
qed

lemma extent_ok_local:
  assumes "bd_extent t e = bd_extent s e" and "extentAddr t e = extentAddr s e" and "bd_pageSizeSquare t = bd_pageSizeSquare s"
    and "\<And>o1. o1 \<in> set offs \<Longrightarrow> bd_record t (RID e o1) = bd_record s (RID e o1)"
  shows "extent_ok t c e offs = extent_ok s c e offs"
  using recChain_cong [of offs t e s] backChain_cong [of offs t e s] assms by (simp add: extent_ok_def extentBytes_def)

lemma liveSet_snoc: "e \<in> E \<Longrightarrow> liveSet E (L(e := L e @ [o1])) = insert (RID e o1) (liveSet E L)"
proof -
  assume "e \<in> E"
  then have "r \<in> liveSet E (L(e := L e @ [o1])) \<longleftrightarrow> r \<in> insert (RID e o1) (liveSet E L)" for r
    by (cases r) (auto simp: liveSet_def)
  then show ?thesis by blast
qed

text \<open>What linking changes in the records: links only.\<close>

lemma link_frame:
  "rec_getSize (bd_record (linkRecord c r o1 s) x) = rec_getSize (bd_record s x)"
  "rec_getData (bd_record (linkRecord c r o1 s) x) = rec_getData (bd_record s x)"
  "rec_isNormal (bd_record (linkRecord c r o1 s) x) = rec_isNormal (bd_record s x)"
  "rec_myOffset (bd_record (linkRecord c r o1 s) x) = rec_myOffset (bd_record s x)"
  by (simp_all add: linkRecord_def Let_def)

lemma coll_link:
  assumes g: "coll_gen s c E L m [RID e o1 \<mapsto> n]" and rdy: "ready (bd_record s (RID e o1))"
  shows "coll_inv (linkRecord c (RID e o1) o1 s) c E (L(e := L e @ [o1])) m"
proof -
  let ?r = "RID e o1" and ?t = "linkRecord c (RID e o1) o1 s" and ?L = "L(e := L e @ [o1])"
  have eE: "e \<in> E" and mE: "\<forall>x\<in>dom m. rid_extent x \<in> E" and ok: "\<forall>x\<in>E. extent_ok s c x (L x)" and rep: "freeRep c s m"
    and live: "\<forall>r\<in>liveSet E L. rec_isNormal (bd_record s r) \<and> rec_myOffset (bd_record s r) = rid_offset r"
    and rs: "rec_getSize (bd_record s ?r) = n" "rec_myOffset (bd_record s ?r) = o1" "?r \<notin> dom m" "?r \<notin> liveSet E L"
    and dj: "liveSet E L \<inter> dom m = {}" and lay: "layout (m ++ [?r \<mapsto> n] ++ liveCells s E L) (extentBytes s)"
    using g by (auto simp: coll_gen_def)
  have k: "(m ++ [?r \<mapsto> n] ++ liveCells s E L) ?r = Some n" using rs(4) by (simp add: map_add_def liveCells_def)
  have o1: "o1 \<noteq> DMS_INVALID_OFFSET" "o1 \<notin> set (L e)" using layoutD(2) [OF lay k] rs(4) eE by (auto simp: liveSet_def)
  have sameX: "bd_record ?t x = bd_record s x" if "x \<noteq> ?r" "L e \<noteq> [] \<longrightarrow> x \<noteq> RID e (last (L e))" for x
  proof -
    have "ext_lastRecordOffset (bd_extent s e) = lastOffset (L e)" using ok eE by (simp add: extent_ok_def)
    then show ?thesis using that by (auto simp: linkRecord_def Let_def lastOffset_def)
  qed
  have lastLive: "L e \<noteq> [] \<longrightarrow> RID e (last (L e)) \<in> liveSet E L" using eE by (simp add: liveSet_def)
  have "extent_ok ?t c x (?L x)" if "x \<in> E" for x
  proof (cases "x = e")
    case True
    then show ?thesis using link_extent_ok [OF _ o1(2,1) rdy] ok eE by simp
  next
    case False
    have "extent_ok ?t c x (L x) = extent_ok s c x (L x)"
      by (rule extent_ok_local) (use False sameX in \<open>auto simp: link_extent\<close>)
    then show ?thesis using False ok that by simp
  qed
  moreover have "freeRep c ?t m"
  proof (rule freeRep_cong [OF _ _ _ rep])
    show "bd_record ?t x = bd_record s x" if "x \<in> dom m" for x
      by (rule sameX) (use that rs(3) dj lastLive in blast)+
  qed (simp_all add: link_extent)
  moreover have "m ++ Map.empty ++ liveCells ?t E ?L = m ++ [?r \<mapsto> n] ++ liveCells s E L"
    using rs by (auto simp: fun_eq_iff map_add_def liveCells_def liveSet_snoc [OF eE] link_frame)
  moreover have "extentBytes ?t = extentBytes s" by (simp add: extentBytes_def link_extent fun_eq_iff)
  moreover have "rec_isNormal (bd_record s ?r)" using rdy ready_normal by (simp add: ready_def)
  ultimately show ?thesis using mE live rs dj lay
    by (simp add: coll_inv_def coll_gen_def liveSet_snoc [OF eE] link_frame)
qed

lemma coll_gen_same:
  assumes "same_extents s t" and "bd_record t = bd_record s" and "mb_deleteList (bd_mb t c) = mb_deleteList (bd_mb s c)"
  shows "coll_gen t c E L m h = coll_gen s c E L m h"
proof -
  have "freeRep c t m = freeRep c s m"
    using freeRep_cong [of t c s m] freeRep_cong [of s c t m] assms same_extentsD(6) [OF assms(1)] by auto
  moreover have "liveCells t E L = liveCells s E L" by (simp add: liveCells_def assms(2) fun_eq_iff)
  ultimately show ?thesis
    using extent_ok_cong [OF assms(1)] same_extentsD(2) [OF assms(1)] by (simp add: coll_gen_def assms(2))
qed

lemma coll_inv_core:
  assumes "core s = core t"
  shows "coll_inv t c E L m = coll_inv s c E L m"
  unfolding coll_inv_def
  by (rule coll_gen_same [OF same_extents_core [OF assms]])
    (use core_eqD(9) [OF assms] mbCore_eqD(6) [OF core_eqD(27) [OF assms]] in simp_all)

lemma coll_count: "coll_inv (countData c rd s) c E L m = coll_inv s c E L m"
  unfolding coll_inv_def
  by (rule coll_gen_same) (use same_extents_core [of s s] in \<open>simp_all add: countData_def same_extents_def\<close>)

text \<open>The record data of an uncompressed object.\<close>

definition plainData :: "dmsRecordData \<Rightarrow> bytes \<Rightarrow> bool" where
  "plainData rd d \<longleftrightarrow> rd_data rd = Some d \<and> rd_compressType rd = UTIL_COMPRESSOR_INVALID \<and> 5 \<le> rd_len rd \<and> rd_len rd \<le> length d \<and> bson_isValid d"

lemma setData_plain:
  assumes "plainData rd d" and "rec_getFlag x = 0"
  shows "rec_getFlag (rec_setData rd x) = 0" and "rec_getData (rec_setData rd x) = overwrite (take (rd_len rd) d) (rec_body x)"
    and "bson_isValid (rec_getData (rec_setData rd x))"
proof -
  have eq: "rec_setData rd x = (rec_unsetCompressed x)\<lparr>rec_body := overwrite (take (rd_len rd) d) (rec_body x)\<rparr>"
    using assms(1) by (auto simp: plainData_def rec_setData_def rd_isEmpty_def rd_isCompressed_def Let_def)
  show f: "rec_getFlag (rec_setData rd x) = 0" using assms(2) by (simp add: eq flag_setters)
  show d: "rec_getData (rec_setData rd x) = overwrite (take (rd_len rd) d) (rec_body x)"
    using ready_normal [OF f] by (simp add: rec_getData_def eq)
  have "byteAt (overwrite (take (rd_len rd) d) (rec_body x)) i = byteAt d i" if "i < 4" for i
    using assms(1) that by (simp add: overwrite_def byteAt_append plainData_def) (simp add: byteAt_def)
  then have "le32 (overwrite (take (rd_len rd) d) (rec_body x)) = le32 d" by (simp add: le32_def)
  then show "bson_isValid (rec_getData (rec_setData rd x))"
    using assms(1) by (simp add: d plainData_def bson_isValid_def objsize_def)
qed

text \<open>The whole of \<open>_extentInsertRecord\<close> on the collection.\<close>

lemma coll_inserted:
  assumes g: "coll_gen s c E L m [r \<mapsto> n]" and need: "0 < need" "need \<le> n" and rd: "plainData rd d"
  shows "coll_inv (insertedState c r rd need s) c E (L(rid_extent r := L (rid_extent r) @ [rid_offset r])) (restCell r need n m)"
    and "take (rd_len rd) (rec_getData (bd_record (insertedState c r rd need s) r)) = take (rd_len rd) d"
    and "x \<in> liveSet E L \<Longrightarrow> rec_getData (bd_record (insertedState c r rd need s) x) = rec_getData (bd_record s x)"
    and "bd_ctx (insertedState c r rd need s) = bd_ctx s"
proof -
  let ?e = "rid_extent r" and ?o = "rid_offset r" and ?s1 = "claimCell c r need s" and ?s2 = "writeData r rd (claimCell c r need s)"
  have r: "r = RID ?e ?o" by (cases r) simp
  have off: "rec_myOffset (bd_record s r) = ?o" and nl: "r \<notin> liveSet E L" using g by (auto simp: coll_gen_def)
  have g2: "coll_gen ?s2 c E L (restCell r need n m) [r \<mapsto> keptSize need n]" by (rule coll_write [OF coll_claim [OF g need]])
  note fr = claim_frame [OF g need(1)] and sd = setData_plain [OF rd fr(5)]
  have "ready (bd_record ?s2 r)" using sd by (simp add: ready_def writeData_def)
  then have "coll_inv (linkRecord c r ?o ?s2) c E (L(?e := L ?e @ [?o])) (restCell r need n m)"
    using coll_link [of ?s2 c E L _ ?e ?o] g2 r by simp
  then show "coll_inv (insertedState c r rd need s) c E (L(?e := L ?e @ [?o])) (restCell r need n m)"
    by (simp add: insertedState_def coll_count off)
  show "take (rd_len rd) (rec_getData (bd_record (insertedState c r rd need s) r)) = take (rd_len rd) d"
    using sd(2) rd by (simp add: insertedState_def countData_def link_frame writeData_def overwrite_def plainData_def)
  show "rec_getData (bd_record (insertedState c r rd need s) x) = rec_getData (bd_record s x)" if "x \<in> liveSet E L"
    using fr(2) [OF that] nl that by (auto simp: insertedState_def countData_def link_frame writeData_def)
  show "bd_ctx (insertedState c r rd need s) = bd_ctx s"
    using fr(4) by (simp add: insertedState_def countData_def link_extent writeData_def)
qed

section \<open>Inserting a record\<close>

lemma alloc_finds:
  assumes "isMBLockType EXCLUSIVE (bd_ctx s)" and "ctx_mbID (bd_ctx s) = c" and "takesCell c need s r s'" and "need \<le> DMS_RECORD_MAX_SZ"
  shows "allocRecordSpace env (Suc fuel) need s = Ret (SDB_OK, r) s'"
proof -
  have "deleteSlot need < MB_MAX" by (rule deleteSlot_less [OF assms(4)])
  then show ?thesis
    using assms(3) ctxLock_held [OF assms(1)]
    by (simp add: allocRecordSpace_def takesCell_def bindM_def tryM_def retM_def Let_def getM_def assms(2))
qed

text \<open>A free record of a larger size class is found.\<close>

lemma larger_class_taken:
  assumes "freeRep c s m" and "m r0 = Some n0" and "deleteSlot need < deleteSlot n0"
  shows "\<exists>r s'. takesCell c need s r s'"
proof -
  obtain F found t where F: "free_inv s c F" "freeMapped s F"
    "m = (\<lambda>r. if r \<in> freeSet F then Some (rec_getSize (bd_record s r)) else None)"
    and found: "found = searchAll s need F [deleteSlot need..<MB_MAX]" "core t = core (takeSearched c found s)"
    and res: "searchSlots c need [deleteSlot need..<MB_MAX] s = Ret (map_option (snd \<circ> snd) found) t"
    using searchSlots_cases [OF assms(1)] by blast
  have r0: "r0 \<in> freeSet F" "n0 = rec_getSize (bd_record s r0)" using assms(2) F(3) by (auto split: if_splits)
  have n0: "r0 \<in> set (F (deleteSlot n0))" "deleteSlot n0 < MB_MAX"
    using free_inv_member(4) [OF F(1) r0(1)] r0(2) deleteSlot_less [OF rec_getSize_le] by simp_all
  have "found \<noteq> None"
  proof
    assume "found = None"
    then show False using searchAll_fails [OF F(1), of need] found(1) assms(3) n0 by auto
  qed
  then show ?thesis using res by (auto simp: takesCell_def)
qed

lemma coll_extent:
  assumes "coll_gen s c E L m h" and "e \<in> E"
  shows "extentAddr s e \<noteq> 0" and "ext_validate c (bd_extent s e)" and "e \<noteq> DMS_INVALID_EXTENT"
    and "recChain s e (ext_firstRecordOffset (bd_extent s e)) (L e)"
  using assms by (auto simp: coll_gen_def extent_ok_def)

lemma insert_at:
  assumes inv: "coll_inv s c E L m" and ctx: "isMBLockType EXCLUSIVE (bd_ctx s)" "ctx_mbID (bd_ctx s) = c"
    and rd: "plainData rd d" "rd_len rd + DMS_RECORD_METADATA_SZ \<le> DMS_RECORD_USER_MAX_SZ"
    and tk: "takesCell c (finalRecordSize (rd_len rd)) s r s'" and al: "allocRecordSpace env fuel (finalRecordSize (rd_len rd)) s0 = Ret (SDB_OK, r) s'"
    and prep: "prepareInsertData ie fuel rcd mustOID = Some (SDB_OK, rd, nm)" and pos: "position < 0"
  shows "\<exists>t n. insertRecord env ie fuel rcd mustOID position s0 = Ret SDB_OK t \<and> m r = Some n
    \<and> coll_inv t c E (L(rid_extent r := L (rid_extent r) @ [rid_offset r])) (restCell r (finalRecordSize (rd_len rd)) n (m(r := None)))
    \<and> take (rd_len rd) (rec_getData (bd_record t r)) = take (rd_len rd) d
    \<and> (\<forall>x\<in>liveSet E L. rec_getData (bd_record t x) = rec_getData (bd_record s x)) \<and> bd_ctx t = bd_ctx s
    \<and> extentInsertRecord r rd (finalRecordSize (rd_len rd)) True s' = Ret SDB_OK t"
proof -
  let ?need = "finalRecordSize (rd_len rd)" and ?n = "rec_getSize (bd_record s r)"
  have len: "0 < rd_len rd" "DMS_MIN_RECORD_DATA_SZ \<le> rd_len rd" using rd(1) by (auto simp: plainData_def)
  note need = finalRecordSize_bounds [OF len(1) rd(2)]
  have rep: "freeRep c s m" using inv by (simp add: coll_inv_def coll_gen_def)
  note fr = take_frame [OF rep tk]
  have g: "coll_gen s' c E L (m(r := None)) [r \<mapsto> ?n]" and le: "?need \<le> ?n" using coll_take [OF inv tk] by auto
  have rE: "rid_extent r \<in> E" using g by (simp add: coll_gen_def)
  note x = coll_extent [OF g rE] and ins = coll_inserted [OF g _ le rd(1)]
  have ctx': "isMBLockType EXCLUSIVE (bd_ctx s')" "ctx_mbID (bd_ctx s') = c" using ctx fr(4) by simp_all
  have sz: "?need \<le> rec_getSize (bd_record s' r)" using le fr(5) by simp
  have "yields (extentInsertRecord r rd ?need True s') SDB_OK (insertedState c r rd ?need s')"
    by (rule yields_extentInsertRecord [OF refl ctx' x(1,3) _ sz len(2)]) (use need(1) in simp)
  then obtain t where t: "extentInsertRecord r rd ?need True s' = Ret SDB_OK t" "core t = core (insertedState c r rd ?need s')"
    by (auto simp: yields_def)
  have "insertRecord env ie fuel rcd mustOID position s0 = Ret SDB_OK t"
    using prep pos rd al t(1) x(1,2) ctx'(2)
    by (simp add: insertRecord_def insertTry_def plainData_def Let_def tryM_def bindM_def extReadPtr_def getM_def retM_def)
  moreover have "coll_inv t c E (L(rid_extent r := L (rid_extent r) @ [rid_offset r])) (restCell r ?need ?n (m(r := None)))"
    using ins(1) need(1) coll_inv_core [OF t(2)] by simp
  moreover have "take (rd_len rd) (rec_getData (bd_record t r)) = take (rd_len rd) d"
    using ins(2) need(1) core_eqD(9) [OF t(2)] by simp
  moreover have "rec_getData (bd_record t y) = rec_getData (bd_record s y)" if "y \<in> liveSet E L" for y
  proof -
    have "y \<notin> dom m" using inv that by (auto simp: coll_inv_def coll_gen_def)
    then show ?thesis using ins(3) [OF _ that] need(1) core_eqD(9) [OF t(2)] fr(1) [of y] by simp
  qed
  moreover have "bd_ctx t = bd_ctx s" using ins(4) need(1) core_eqD(26) [OF t(2)] fr(4) by simp
  ultimately show ?thesis using fr(7) t(1) by blast
qed

section \<open>Properties\<close>

text \<open>C3: Inserting a well-formed object (its \<open>_id\<close> is acceptable, it is small enough for a record) into a collection that has a
  free cell of a larger size class: \<open>insertRecord\<close> returns \<open>SDB_OK\<close>; the collection is again a correct collection, with
  the new record at the end of the chain of one of its extents, in a cell that
  was free, the unused rest of that cell free again; a scan of that extent returns
  the records that were there, in their order and with their data, and then the new record, whose bytes
  are the object with its \<open>_id\<close>.\<close>

theorem insert_then_scan:
  assumes "coll_inv s c E L m" and "isMBLockType EXCLUSIVE (bd_ctx s)" and "ctx_mbID (bd_ctx s) = c"
    and "wfFields fs" and "idErr fs = None" and "length (encObj fs) + 33 \<le> DMS_RECORD_USER_MAX_SZ" and "nodesF fs \<le> fuel"
    and "length (in_oid ie) = 12" and "in_allocBuff ie = SDB_OK" and "position < 0"
    and "m r0 = Some n0" and "deleteSlot (finalRecordSize (length (encObj (storedFields (in_oid ie) mustOID fs)))) < deleteSlot n0"
    and "DMS_IS_WRITE_OPR acc" and "\<forall>e\<in>E. Suc (length (L e)) < fuel2"
  shows "\<exists>t r n d. insertRecord env ie (Suc fuel) (encObj fs) mustOID position s = Ret SDB_OK t \<and> m r = Some n
    \<and> coll_inv t c E (L(rid_extent r := L (rid_extent r) @ [rid_offset r]))
         (restCell r (finalRecordSize (length (encObj (storedFields (in_oid ie) mustOID fs)))) n (m(r := None)))
    \<and> runScan fuel2 (scanner_new (rid_extent r) acc (- 1) 0) g t = Ret (SDB_DMS_EOC,
         map (\<lambda>o1. (RID (rid_extent r) o1, rec_getData (bd_record s (RID (rid_extent r) o1)))) (L (rid_extent r)) @ [(r, d)]) t
    \<and> take (length (encObj (storedFields (in_oid ie) mustOID fs))) d = encObj (storedFields (in_oid ie) mustOID fs)"
proof -
  let ?gs = "storedFields (in_oid ie) mustOID fs"
  have sz: "length (encObj ?gs) + DMS_RECORD_METADATA_SZ \<le> DMS_RECORD_USER_MAX_SZ"
    using storedFields_wf(2) [OF assms(4,8), of mustOID] assms(6) by simp
  then have "int (length (encObj ?gs)) \<le> BSONObjMaxInternalSize" by simp
  note rd = plainRd_ok [OF this]
  have plain: "plainData (plainRd (encObj ?gs)) (encObj ?gs)"
    using rd encObj_objsize(2) [of ?gs "[]"] sz by (simp add: plainData_def plainRd_def)
  have prep: "\<exists>nm. prepareInsertData ie (Suc fuel) (encObj fs) mustOID = Some (SDB_OK, plainRd (encObj ?gs), nm)"
    using prepare_enc [OF assms(4) _ _ assms(8,9), of "Suc fuel" mustOID] assms(5,6,7) by auto
  have rep: "freeRep c s m" using assms(1) by (simp add: coll_inv_def coll_gen_def)
  then obtain r s' where tk: "takesCell c (finalRecordSize (length (encObj ?gs))) s r s'"
    using larger_class_taken [OF rep assms(11,12)] by blast
  obtain t n where t: "insertRecord env ie (Suc fuel) (encObj fs) mustOID position s = Ret SDB_OK t" "m r = Some n"
    "coll_inv t c E (L(rid_extent r := L (rid_extent r) @ [rid_offset r])) (restCell r (finalRecordSize (length (encObj ?gs))) n (m(r := None)))"
    "take (length (encObj ?gs)) (rec_getData (bd_record t r)) = encObj ?gs"
    "\<forall>x\<in>liveSet E L. rec_getData (bd_record t x) = rec_getData (bd_record s x)" "bd_ctx t = bd_ctx s"
  proof -
    have al: "allocRecordSpace env (Suc fuel) (finalRecordSize (length (encObj ?gs))) s = Ret (SDB_OK, r) s'"
      using encObj_objsize(2) [of ?gs "[]"] by (intro alloc_finds [OF assms(2,3) tk finalRecordSize_bounds(2) [OF _ sz]]) (auto simp: encObj_def)
    obtain nm where nm: "prepareInsertData ie (Suc fuel) (encObj fs) mustOID = Some (SDB_OK, plainRd (encObj ?gs), nm)" using prep by blast
    show thesis
      using insert_at [OF assms(1-3) plain, unfolded rd(1), OF sz tk al nm assms(10)] that by auto
  qed
  let ?e = "rid_extent r" and ?L = "L(rid_extent r := L (rid_extent r) @ [rid_offset r])"
  have eE: "?e \<in> E" using assms(1) t(2) by (auto simp: coll_inv_def coll_gen_def)
  note x = coll_extent [OF t(3) [unfolded coll_inv_def] eE]
  have lk: "isMBLockType (sc_mbLockType (scanner_new ?e acc (- 1) 0)) (bd_ctx t)" using assms(2,13) t(6) by (simp add: scanner_new_def)
  have "runScan fuel2 (scanner_new ?e acc (- 1) 0) g t = Ret (SDB_DMS_EOC,
      map (\<lambda>o1. (RID ?e o1, rec_getData (bd_record t (RID ?e o1)))) (limited (- 1) 0 (?L ?e))) t"
    by (rule scan_extent [OF x(1) _ lk x(4)]) (use x(2) assms(3,14) t(6) eE in auto)
  moreover have "rec_getData (bd_record t (RID ?e o1)) = rec_getData (bd_record s (RID ?e o1))" if "o1 \<in> set (L ?e)" for o1
    using t(5) that eE by (simp add: liveSet_def)
  moreover have "RID ?e (rid_offset r) = r" by (cases r) simp
  ultimately have "runScan fuel2 (scanner_new ?e acc (- 1) 0) g t = Ret (SDB_DMS_EOC,
      map (\<lambda>o1. (RID ?e o1, rec_getData (bd_record s (RID ?e o1)))) (L ?e) @ [(r, rec_getData (bd_record t r))]) t"
    by (simp add: limited_def)
  then show ?thesis using t(1-4) by blast
qed

text \<open>A collection of one extent, whose whole space is one free cell.\<close>

definition demoColl :: dmsBlockData where
  "demoColl = (saveState 0 (RID 5 36) (int 65500) demoFreeState)\<lparr>bd_ctx := ctx_reset\<lparr>ctx_mbID := 0, ctx_mbLockType := EXCLUSIVE\<rparr>\<rparr>"

lemma demoColl_addr: "extentAddr demoColl x = extentAddr (saveState 0 (RID 5 36) (int 65500) demoFreeState) x"
  by (simp only: demoColl_def extentAddr_def extent2Segment_def extentSegOffset_def) simp

lemma demoColl_inv: "coll_inv demoColl 0 {5} (\<lambda>_. []) [RID 5 36 \<mapsto> 65500]"
proof -
  have "freeRep 0 demoColl [RID 5 36 \<mapsto> 65500]"
    by (rule freeRep_cong [OF _ demoColl_addr _ demoFree_rep]) (simp_all add: demoColl_def)
  moreover have e: "bd_extent demoColl 5 = (ext_init 1 0 65536)\<lparr>ext_freeSpace := s32 (65500 + 65500)\<rparr>" "bd_pageSizeSquare demoColl = 16"
    by (simp_all add: demoColl_def saveState_def Let_def demoFreeState_def ext_init_def cast_simps)
  moreover have "extentAddr demoColl 5 \<noteq> 0" using demoFree_addr saveState_mmap [of 0 "RID 5 36" "int 65500" demoFreeState 5]
    by (simp only: demoColl_addr simp_thms)
  ultimately show ?thesis
    by (simp add: coll_inv_def coll_gen_def liveSet_def extent_ok_def extentBytes_def ext_init_def ext_validate_def lastOffset_def
        layout_def liveCells_def map_add_def cast_simps)
qed

theorem insert_then_scan_witness:
  "\<forall>env g. \<exists>t d L m. insertRecord env \<lparr>in_oid = replicate 12 1, in_allocBuff = SDB_OK, in_lastError = 0\<rparr> 10
       (encObj (BCons [97] (Leaf jstNULL []) BNil)) True (- 1) demoColl = Ret SDB_OK t
     \<and> coll_inv t 0 {5} L m
     \<and> runScan 5 (scanner_new 5 ACCESS_INSERT (- 1) 0) g t = Ret (SDB_DMS_EOC, [(RID 5 36, d)]) t"
proof (intro allI)
  fix env g
  let ?ie = "\<lparr>in_oid = replicate 12 1, in_allocBuff = SDB_OK, in_lastError = 0\<rparr>" and ?fs = "BCons [97] (Leaf jstNULL []) BNil"
  have len: "length (encObj (storedFields (in_oid ?ie) True ?fs)) = 25"
    by (simp add: storedFields_def DMS_ID_KEY_NAME_def encObj_def)
  have "bitLen 251658250 = 28" by (simp add: bitLen.simps)
  then have "mulRatio 25 = 30" by (simp add: mulRatio_def roundEven_def)
  then have fin: "finalRecordSize 25 = 48" by (simp add: finalRecordSize_def ossAlignX_def cast_simps)
  have slot: "deleteSlot (finalRecordSize (length (encObj (storedFields (in_oid ?ie) True ?fs)))) < deleteSlot 65500"
    unfolding len fin by (simp add: deleteSlot_def slotLoop.simps)
  have ctx: "isMBLockType EXCLUSIVE (bd_ctx demoColl)" "ctx_mbID (bd_ctx demoColl) = 0"
    by (simp_all add: demoColl_def isMBLockType_def)
  have fs: "wfFields ?fs" "idErr ?fs = None" "length (encObj ?fs) + 33 \<le> DMS_RECORD_USER_MAX_SZ" "nodesF ?fs \<le> 9"
    by (simp_all add: wfLeaf_def valueSize.simps idErr_def DMS_ID_KEY_NAME_def encObj_def)
  obtain t r n d where t: "insertRecord env ?ie (Suc 9) (encObj ?fs) True (- 1) demoColl = Ret SDB_OK t"
    "[RID 5 36 \<mapsto> 65500::nat] r = Some n" "\<exists>m. coll_inv t 0 {5} ((\<lambda>_. [])(rid_extent r := [] @ [rid_offset r])) m"
    "runScan 5 (scanner_new (rid_extent r) ACCESS_INSERT (- 1) 0) g t = Ret (SDB_DMS_EOC, map (\<lambda>o1. (RID (rid_extent r) o1, rec_getData (bd_record demoColl (RID (rid_extent r) o1)))) [] @ [(r, d)]) t"
    using insert_then_scan [OF demoColl_inv ctx fs, of ?ie "- 1" "RID 5 36" 65500 True ACCESS_INSERT 5 env g] slot
    by (simp del: fun_upd_apply add: fun_upd_same DMS_IS_WRITE_OPR_def) blast
  moreover have "r = RID 5 36" using t(2) by (auto split: if_splits)
  ultimately show "\<exists>t d L m. insertRecord env ?ie 10 (encObj ?fs) True (- 1) demoColl = Ret SDB_OK t
     \<and> coll_inv t 0 {5} L m \<and> runScan 5 (scanner_new 5 ACCESS_INSERT (- 1) 0) g t = Ret (SDB_DMS_EOC, [(RID 5 36, d)]) t"
    by auto
qed

end
