(* ===== verification/Dms_Growth.thy ===== *)
theory Dms_Growth
  imports Dms_Pages Dms_ExtentChain Dms_Collection
begin

text \<open>
  A collection that grows.  \<open>coll_full\<close> puts the parts together: the records and free cells of the collection
  (\<open>coll_inv\<close>), the chain of its extents (\<open>extChain\<close>), and the pages of the unit (\<open>unit_space\<close>), of which every extent owns its own.
  \<open>_allocateExtent\<close> gives the collection a new extent and keeps all of it; therefore \<open>_allocRecordSpace\<close> needs at most
  one new extent and \<open>insertRecord\<close> succeeds whenever the unit can grow.
\<close>

section \<open>Moving a collection\<close>

text \<open>The parts of an extent that its records depend on.\<close>

definition recPart :: "dmsExtent \<Rightarrow> string \<times> 8 word \<times> nat \<times> nat \<times> dmsOffset \<times> dmsOffset \<times> nat" where
  "recPart e = (ext_eyeCatcher e, ext_flag e, ext_mbID e, ext_blockSize e, ext_firstRecordOffset e, ext_lastRecordOffset e, ext_recCount e)"

lemma extent_ok_fresh:
  assumes "recPart (bd_extent s e) = recPart (ext_init n c k)" and "e \<noteq> DMS_INVALID_EXTENT" and "extentAddr s e \<noteq> 0" and "extentBytes s e < 2147483648"
  shows "extent_ok s c e []"
  using assms by (simp add: extent_ok_def recPart_def ext_init_def ext_validate_def lastOffset_def)

lemma layout_cong:
  assumes "\<And>r. r \<in> dom k \<Longrightarrow> lim' (rid_extent r) = lim (rid_extent r)"
  shows "layout k lim' = layout k lim"
proof -
  have "lim' (rid_extent r) = lim (rid_extent r)" if "k r = Some n" for r n using assms that by blast
  then show ?thesis unfolding layout_def by (auto cong: conj_cong)
qed

lemma freeRep_move:
  assumes "freeRep c s m" and "mb_deleteList (bd_mb t c) = mb_deleteList (bd_mb s c)"
    and "\<And>r. r \<in> dom m \<Longrightarrow> bd_record t r = bd_record s r \<and> extentAddr t (rid_extent r) \<noteq> 0"
  shows "freeRep c t m"
proof -
  obtain F where F: "free_inv s c F" "m = (\<lambda>r. if r \<in> freeSet F then Some (rec_getSize (bd_record s r)) else None)"
    using assms(1) by (auto simp: freeRep_def)
  have "dom m = freeSet F" by (auto simp: F(2) split: if_splits)
  then have same: "bd_record t r = bd_record s r" "extentAddr t (rid_extent r) \<noteq> 0" if "r \<in> freeSet F" for r using assms(3) that by auto
  have "free_inv t c F" using F(1) free_inv_cong [of t c s F] assms(2) same(1) by blast
  moreover have "freeMapped t F" using same(2) by (simp add: freeMapped_def)
  moreover have "m = (\<lambda>r. if r \<in> freeSet F then Some (rec_getSize (bd_record t r)) else None)" using same(1) by (auto simp: F(2))
  ultimately show ?thesis by (auto simp: freeRep_def)
qed

lemma extent_ok_move:
  assumes "extent_ok s c e offs" and "recPart (bd_extent t e) = recPart (bd_extent s e)" and "bd_pageSizeSquare t = bd_pageSizeSquare s"
    and "extentAddr t e \<noteq> 0" and "\<And>o1. o1 \<in> set offs \<Longrightarrow> bd_record t (RID e o1) = bd_record s (RID e o1)"
  shows "extent_ok t c e offs"
  using assms recChain_cong [of offs t e s, OF assms(5)] backChain_cong [of offs t e s, OF assms(5)]
  by (simp add: extent_ok_def recPart_def ext_validate_def extentBytes_def)

lemma coll_move:
  assumes "coll_inv s c E L m" and ext: "\<And>e. e \<in> E \<Longrightarrow> recPart (bd_extent t e) = recPart (bd_extent s e) \<and> extentAddr t e \<noteq> 0"
    and "bd_pageSizeSquare t = bd_pageSizeSquare s" and rec: "\<And>r. rid_extent r \<in> E \<Longrightarrow> bd_record t r = bd_record s r"
    and dl: "mb_deleteList (bd_mb t c) = mb_deleteList (bd_mb s c)"
  shows "coll_inv t c E L m"
proof -
  note g = assms(1) [unfolded coll_inv_def coll_gen_def]
  have "freeRep c t m" by (rule freeRep_move [OF _ dl]) (use g ext rec in auto)
  moreover have "extent_ok t c e (L e)" if "e \<in> E" for e
    by (rule extent_ok_move [of s]) (use g that ext assms(3) rec in auto)
  moreover have "bd_record t r = bd_record s r" if "r \<in> liveSet E L" for r using that rec by (simp add: liveSet_def)
  moreover from this have "liveCells t E L = liveCells s E L" by (auto simp: liveCells_def)
  moreover have "extentBytes t e = extentBytes s e" if "e \<in> E" for e using ext [OF that] assms(3) by (simp add: extentBytes_def recPart_def)
  then have "layout (m ++ liveCells s E L) (extentBytes t) = layout (m ++ liveCells s E L) (extentBytes s)"
    using g by (intro layout_cong) (auto simp: liveSet_def)
  ultimately show ?thesis using g by (simp add: coll_inv_def coll_gen_def)
qed

section \<open>A new extent\<close>

lemma layout_join:
  assumes "layout k1 lim" and "layout k2 lim" and "\<And>r. r \<in> dom k1 \<Longrightarrow> rid_extent r \<noteq> p" and "\<And>r. r \<in> dom k2 \<Longrightarrow> rid_extent r = p"
  shows "layout (k1 ++ k2) lim"
proof -
  have some: "(k1 ++ k2) r = Some n \<longleftrightarrow> k2 r = Some n \<or> k1 r = Some n" for r n
    using assms(3,4) [of r] by (cases "k2 r") (auto simp: map_add_def dom_def)
  show ?thesis unfolding layout_def some
    using layoutD [OF assms(1)] layoutD [OF assms(2)] layout_apart [OF assms(1)] layout_apart [OF assms(2)] assms(3,4)
    by (metis domI)
qed

text \<open>The free cells of a new extent of \<open>tot\<close> bytes.\<close>

definition newCells :: "dmsExtentID \<Rightarrow> nat \<Rightarrow> (dmsRecordID \<times> nat) list" where
  "newCells p tot = map (\<lambda>(o1, sz). (RID p o1, nat sz)) (extentPieces tot)"

lemma tiles_apart:
  "tiles off stop ps \<Longrightarrow> distinct (map fst ps) \<and> (\<forall>(o1, sz)\<in>set ps. \<forall>(o2, sz2)\<in>set ps. o1 \<noteq> o2 \<longrightarrow> o1 + sz \<le> o2 \<or> o2 + sz2 \<le> o1)"
proof (induction ps arbitrary: off)
  case (Cons p ps)
  obtain o1 sz where p: "p = (o1, sz)" by (cases p)
  then have t: "tiles (off + sz) stop ps" "o1 = off" "36 \<le> sz" using Cons.prems by auto
  have later: "o1 + sz \<le> o2" if "(o2, sz2) \<in> set ps" for o2 sz2 using tiles_bounds [OF t(1) that] t(2) by simp
  then have "o1 \<notin> fst ` set ps" using t(3) by fastforce
  then show ?case using Cons.IH [OF t(1)] later by (fastforce simp: p)
qed simp

lemma newCells_dom: "r \<in> dom (map_of (newCells p tot)) \<Longrightarrow> rid_extent r = p"
  by (auto simp: newCells_def dom_map_of_conv_image_fst)

lemma newCells_cells:
  assumes "DMS_EXTENT_METADATA_SZ + DMS_MIN_RECORD_SZ \<le> tot"
  shows "distinct (map fst (newCells p tot))" and "(r, n) \<in> set (newCells p tot) \<Longrightarrow> rid_extent r = p \<and> 0 < n \<and> n \<le> DMS_RECORD_MAX_SZ"
    and "lim p = int tot \<Longrightarrow> layout (map_of (newCells p tot)) lim"
proof -
  note tl = extentPieces_tile [OF assms] and ap = tiles_apart [OF extentPieces_tile [OF assms]]
  have "map fst (newCells p tot) = map (RID p) (map fst (extentPieces tot))" by (simp add: newCells_def comp_def case_prod_beta)
  then show "distinct (map fst (newCells p tot))" using ap by (simp add: distinct_map inj_on_def)
  show "rid_extent r = p \<and> 0 < n \<and> n \<le> DMS_RECORD_MAX_SZ" if "(r, n) \<in> set (newCells p tot)"
    using that tiles_bounds [OF tl] by (fastforce simp: newCells_def)
  have cell: "\<exists>o1 sz. r = RID p o1 \<and> (o1, sz) \<in> set (extentPieces tot) \<and> int n = sz \<and> 36 \<le> sz \<and> 36 \<le> o1 \<and> o1 + sz \<le> int tot"
    if "map_of (newCells p tot) r = Some n" for r n
    using map_of_SomeD [OF that] tiles_bounds [OF tl] by (fastforce simp: newCells_def)
  show "layout (map_of (newCells p tot)) lim" if "lim p = int tot"
    unfolding layout_def
  proof (intro conjI allI impI)
    fix r n assume "map_of (newCells p tot) r = Some n"
    from cell [OF this] show "0 < n" "int DMS_EXTENT_METADATA_SZ \<le> rid_offset r" "rid_offset r + int n \<le> lim (rid_extent r)" using that by auto
  next
    fix r n r' n' assume "map_of (newCells p tot) r = Some n \<and> map_of (newCells p tot) r' = Some n' \<and> r \<noteq> r' \<and> rid_extent r = rid_extent r'"
    then show "rid_offset r + int n \<le> rid_offset r' \<or> rid_offset r' + int n' \<le> rid_offset r"
      using cell [of r n] cell [of r' n'] conjunct2 [OF ap] by fastforce
  qed
qed

lemma savePieces_fold:
  "\<forall>(o1, sz)\<in>set ps. 0 \<le> sz \<Longrightarrow> savePieces c p ps s = fold (\<lambda>(r, n). saveState c r (int n)) (map (\<lambda>(o1, sz). (RID p o1, nat sz)) ps) s"
  by (induction ps arbitrary: s) auto

lemma savePieces_sel:
  "recPart (bd_extent (savePieces c p ps s) x) = recPart (bd_extent s x)" "extentAddr (savePieces c p ps s) x = extentAddr s x"
  "bd_pageSizeSquare (savePieces c p ps s) = bd_pageSizeSquare s"
proof -
  have "recPart (bd_extent (saveState c r n s) x) = recPart (bd_extent s x)" "bd_pageSizeSquare (saveState c r n s) = bd_pageSizeSquare s" for r n s
    by (simp_all add: saveState_def Let_def recPart_def)
  then show "recPart (bd_extent (savePieces c p ps s) x) = recPart (bd_extent s x)" "extentAddr (savePieces c p ps s) x = extentAddr s x"
    "bd_pageSizeSquare (savePieces c p ps s) = bd_pageSizeSquare s"
    by (induction ps arbitrary: s) auto
qed

text \<open>Cutting the new extent: the free cells of the collection and those of the extent.\<close>

definition cutExtent :: "nat \<Rightarrow> dmsExtentID \<Rightarrow> nat \<Rightarrow> dmsBlockData \<Rightarrow> dmsBlockData" where
  "cutExtent c p tot s = savePieces c p (extentPieces tot) (zeroFree p s)"

lemma cutExtent_sel:
  "recPart (bd_extent (cutExtent c p tot s) x) = recPart (bd_extent s x)" "extentAddr (cutExtent c p tot s) x = extentAddr s x"
  "bd_pageSizeSquare (cutExtent c p tot s) = bd_pageSizeSquare s" "extentBytes (cutExtent c p tot s) = extentBytes s"
  "rid_extent r \<noteq> p \<Longrightarrow> bd_record (cutExtent c p tot s) r = bd_record s r"
proof -
  show r: "recPart (bd_extent (cutExtent c p tot s) x) = recPart (bd_extent s x)" "extentAddr (cutExtent c p tot s) x = extentAddr s x"
    "bd_pageSizeSquare (cutExtent c p tot s) = bd_pageSizeSquare s" for x
    by (simp_all add: cutExtent_def savePieces_sel) (simp_all add: zeroFree_def recPart_def)
  show "extentBytes (cutExtent c p tot s) = extentBytes s" using r(1,3) by (simp add: fun_eq_iff extentBytes_def recPart_def)
  show "bd_record (cutExtent c p tot s) r = bd_record s r" if "rid_extent r \<noteq> p"
    unfolding cutExtent_def using that by (subst savePieces_records) (auto simp: zeroFree_def)
qed

lemma cutExtent_rep:
  assumes rep: "freeRep c t m" and none: "\<And>r. rid_extent r = p \<Longrightarrow> m r = None" and p: "p \<noteq> DMS_INVALID_EXTENT" "extentAddr t p \<noteq> 0"
    and tot: "DMS_EXTENT_METADATA_SZ + DMS_MIN_RECORD_SZ \<le> tot"
  shows "freeRep c (cutExtent c p tot t) (m ++ map_of (newCells p tot))"
proof -
  note cells = newCells_cells [OF tot]
  have "freeRep c (zeroFree p t) m" by (rule freeRep_cong [OF _ _ _ rep]) (simp_all add: zeroFree_def)
  moreover have "\<forall>(r, n)\<in>set (newCells p tot). m r = None \<and> freeCell (zeroFree p t) r n"
    using cells(2) none p by (fastforce simp: freeCell_def rid_isNull_def)
  ultimately have "freeRep c (fold (\<lambda>(r, n). saveState c r (int n)) (newCells p tot) (zeroFree p t)) (m ++ map_of (newCells p tot))"
    using cells(1) by (intro fs.save_all)
  moreover have "\<forall>(o1, sz)\<in>set (extentPieces tot). 0 \<le> sz" using tiles_bounds [OF extentPieces_tile [OF tot]] by force
  ultimately show ?thesis by (simp only: savePieces_fold newCells_def cutExtent_def)
qed

lemma cutExtent_layout:
  assumes "layout k lim" and "\<And>r. r \<in> dom k \<Longrightarrow> rid_extent r \<noteq> p" and "lim p = int tot"
    and "DMS_EXTENT_METADATA_SZ + DMS_MIN_RECORD_SZ \<le> tot"
  shows "layout (k ++ map_of (newCells p tot)) lim"
proof (rule layout_join [OF assms(1) _ assms(2)])
  show "layout (map_of (newCells p tot)) lim" by (rule newCells_cells(3) [where lim = lim]) (rule assms(4), rule assms(3))
qed (simp_all add: newCells_dom)

lemma coll_add_extent:
  assumes inv: "coll_inv t c E L m" and p: "p \<notin> E" "p \<noteq> DMS_INVALID_EXTENT" "extentAddr t p \<noteq> 0"
    and ext: "recPart (bd_extent t p) = recPart (ext_init n c n')" and bytes: "n * 2 ^ bd_pageSizeSquare t = tot"
    and tot: "DMS_EXTENT_METADATA_SZ + DMS_MIN_RECORD_SZ \<le> tot" "tot < 2147483648"
  shows "coll_inv (cutExtent c p tot t) c (insert p E) (L(p := [])) (m ++ map_of (newCells p tot))"
proof -
  let ?u = "cutExtent c p tot t" and ?L = "L(p := [])" and ?E = "insert p E" and ?pm = "map_of (newCells p tot)"
  note g = inv [unfolded coll_inv_def coll_gen_def]
  have dm: "rid_extent r \<noteq> p" if "r \<in> dom m" for r using g p(1) that by blast
  then have "m r = None" if "rid_extent r = p" for r using that by (cases "m r") auto
  then have rep: "freeRep c ?u (m ++ ?pm)" using g by (intro cutExtent_rep [OF _ _ p(2,3) tot(1)]) simp_all
  have live: "liveSet ?E ?L = liveSet E L" and dl: "\<And>r. r \<in> liveSet E L \<Longrightarrow> rid_extent r \<noteq> p" using p(1) by (auto simp: liveSet_def)
  have same: "bd_record ?u r = bd_record t r" if "r \<in> liveSet E L" for r using dl [OF that] by (rule cutExtent_sel(5))
  then have lc: "liveCells ?u ?E ?L = liveCells t E L" by (auto simp: liveCells_def live)
  have pb: "extentBytes t p = int tot" using ext bytes by (simp add: extentBytes_def recPart_def ext_init_def flip: bytes)
  have ok: "extent_ok ?u c e (?L e)" if "e \<in> ?E" for e
  proof (cases "e = p")
    case True
    have "extent_ok ?u c p []"
    proof (rule extent_ok_fresh)
      show "recPart (bd_extent ?u p) = recPart (ext_init n c n')" by (simp only: cutExtent_sel(1) ext)
      show "extentAddr ?u p \<noteq> 0" "extentBytes ?u p < 2147483648" using p(3) pb tot(2) by (simp_all add: cutExtent_sel(2,4))
    qed (rule p(2))
    then show ?thesis using True by simp
  next
    case False
    then have "extent_ok t c e (L e)" "extentAddr t e \<noteq> 0" using g that by (auto simp: extent_ok_def)
    then have "extent_ok ?u c e (L e)" using False by - (rule extent_ok_move [of t], simp_all add: cutExtent_sel)
    then show ?thesis using False by simp
  qed
  have "layout ((m ++ liveCells t E L) ++ ?pm) (extentBytes t)"
    by (rule cutExtent_layout [where lim = "extentBytes t"]) (use g dm dl pb tot(1) in auto)
  moreover have "dom ?pm \<inter> dom (liveCells t E L) = {}" unfolding liveCells_dom using newCells_dom [of _ p tot] dl by blast
  then have "(m ++ liveCells t E L) ++ ?pm = (m ++ ?pm) ++ liveCells t E L"
    unfolding map_add_assoc [symmetric] by (subst map_add_comm [of ?pm]) auto
  ultimately have lay: "layout ((m ++ ?pm) ++ liveCells t E L) (extentBytes ?u)"
    unfolding cutExtent_sel(4) by (simp only:)
  have "\<forall>r\<in>dom (m ++ ?pm). rid_extent r \<in> ?E" "liveSet E L \<inter> dom (m ++ ?pm) = {}"
    unfolding dom_map_add using g newCells_dom [of _ p tot] dl by blast+
  moreover have "\<forall>r\<in>liveSet E L. rec_isNormal (bd_record ?u r) \<and> rec_myOffset (bd_record ?u r) = rid_offset r" using same g by simp
  ultimately show ?thesis unfolding coll_inv_def coll_gen_def live lc using rep ballI [OF ok] lay
    by (intro conjI) (simp_all only: dom_empty Un_empty_right Int_empty_right map_add_empty ball_empty)
qed

section \<open>Chain and space under other changes\<close>

lemma extChain_move:
  assumes ch: "extChain s c G N" and mb: "mbLinks (bd_mb t c) = mbLinks (bd_mb s c)" and mex: "bd_metaExt t = bd_metaExt s"
    and ext: "\<And>x. x \<in> set (chainOf G N) \<Longrightarrow> extId (bd_extent t x) = extId (bd_extent s x) \<and> extentAddr t x \<noteq> 0"
    and addr: "extentAddr t (mb_mbExExtentID (bd_mb s c)) \<noteq> 0"
    and geo: "bd_pageSizeSquare t = bd_pageSizeSquare s" "bd_dataSegID t = bd_dataSegID s" "bd_segmentPagesSquare t = bd_segmentPagesSquare s"
  shows "extChain t c G N"
proof -
  note C = extChainD [OF ch]
  have "dlseg (nextOf t) (prevOf t) DMS_INVALID_EXTENT (chainOf G N) DMS_INVALID_EXTENT"
    using C(6) by (subst dlseg_cong [of _ "nextOf t" "nextOf s" "prevOf t" "prevOf s"]) (use ext in \<open>auto simp: nextOf_def prevOf_def extId_def\<close>)
  moreover have "dataSegment t x = dataSegment s x" "getFactor t = getFactor s" for x
    using geo by (simp_all add: dataSegment_def extent2Segment_def getFactor_def)
  moreover have "ext_logicID (bd_extent t (G k ! i)) = ext_logicID (bd_extent s (G k ! i))" if "k < N" "i < length (G k)" for k i
  proof -
    have "G k ! i \<in> set (chainOf G N)" using that by (auto intro!: bexI [of _ k])
    then show ?thesis using ext by (simp add: extId_def)
  qed
  ultimately show ?thesis using C mb mex ext addr unfolding extChain_def Let_def by (simp add: mbLinks_def ends_def)
qed

lemma structD:
  assumes "structView t = structView s"
  shows "bd_smeMgr t = bd_smeMgr s" "bd_header t = bd_header s" "bd_mmap t = bd_mmap s" "bd_maxSegID t = bd_maxSegID s"
    "bd_segmentPages t = bd_segmentPages s" "bd_segmentPagesSquare t = bd_segmentPagesSquare s" "bd_pageSizeSquare t = bd_pageSizeSquare s"
    "bd_dataSegID t = bd_dataSegID s" "bd_metaExt t = bd_metaExt s" "extId (bd_extent t x) = extId (bd_extent s x)" "mbLinks (bd_mb t i) = mbLinks (bd_mb s i)"
    "extentAddr t x = extentAddr s x" "unit_space t = unit_space s" "usedPages t = usedPages s" "ext_blockSize (bd_extent t x) = ext_blockSize (bd_extent s x)"
proof -
  have e: "(\<lambda>e. extId (bd_extent t e)) = (\<lambda>e. extId (bd_extent s e))" "(\<lambda>i. mbLinks (bd_mb t i)) = (\<lambda>i. mbLinks (bd_mb s i))"
    using assms unfolding structView_def by simp_all
  show f: "bd_smeMgr t = bd_smeMgr s" "bd_header t = bd_header s" "bd_mmap t = bd_mmap s" "bd_maxSegID t = bd_maxSegID s"
    "bd_segmentPages t = bd_segmentPages s" "bd_segmentPagesSquare t = bd_segmentPagesSquare s" "bd_pageSizeSquare t = bd_pageSizeSquare s"
    "bd_dataSegID t = bd_dataSegID s" "bd_metaExt t = bd_metaExt s" "extId (bd_extent t x) = extId (bd_extent s x)" "mbLinks (bd_mb t i) = mbLinks (bd_mb s i)" for x i
    using assms fun_cong [OF e(1), of x] fun_cong [OF e(2), of i] by (simp_all add: structView_def)
  show "extentAddr t x = extentAddr s x" by (simp add: extentAddr_def extent2Segment_def extentSegOffset_def f)
  show "unit_space t = unit_space s" "usedPages t = usedPages s" by (simp_all add: unit_space_def usedPages_def Let_def f)
  show "ext_blockSize (bd_extent t x) = ext_blockSize (bd_extent s x)" using f(10) [of x] by (simp add: extId_def)
qed

lemma extChain_struct:
  assumes "structView t = structView s" and "extChain s c G N"
  shows "extChain t c G N"
  by (rule extChain_move [OF assms(2)]) (use extChainD(1,5) [OF assms(2)] in \<open>simp_all add: structD [OF assms(1)]\<close>)

section \<open>A collection and its pages\<close>

definition ownPages :: "dmsBlockData \<Rightarrow> dmsExtentID \<Rightarrow> int set" where
  "ownPages s e = pageRun e (ext_blockSize (bd_extent s e))"

text \<open>The page sizes a unit can have, and the size of its segments.\<close>

definition unit_geometry :: "dmsBlockData \<Rightarrow> bool" where
  "unit_geometry s \<longleftrightarrow> 12 \<le> bd_pageSizeSquare s \<and> bd_pageSizeSquare s \<le> 16 \<and> bd_segmentPagesSquare s + bd_pageSizeSquare s = 27
     \<and> bd_pageSize s = 2 ^ bd_pageSizeSquare s"

definition coll_full :: "dmsBlockData \<Rightarrow> nat \<Rightarrow> (dmsExtentID \<Rightarrow> dmsOffset list) \<Rightarrow> (dmsRecordID \<Rightarrow> nat option) \<Rightarrow> (nat \<Rightarrow> dmsExtentID list) \<Rightarrow> nat \<Rightarrow> bool" where
  "coll_full s c L m G N \<longleftrightarrow> coll_inv s c (set (chainOf G N)) L m \<and> extChain s c G N \<and> unit_space s \<and> unit_geometry s
     \<and> N = 2 ^ bd_pageSizeSquare s \<and> mb_mbExExtentID (bd_mb s c) \<in> usedPages s
     \<and> (\<forall>e\<in>set (chainOf G N). 0 < ext_blockSize (bd_extent s e) \<and> ownPages s e \<subseteq> usedPages s - {mb_mbExExtentID (bd_mb s c)})
     \<and> (\<forall>e\<in>set (chainOf G N). \<forall>e'\<in>set (chainOf G N). e \<noteq> e' \<longrightarrow> ownPages s e \<inter> ownPages s e' = {})"

lemma coll_fullD:
  assumes "coll_full s c L m G N"
  shows "coll_inv s c (set (chainOf G N)) L m" "extChain s c G N" "unit_space s" "unit_geometry s" "N = 2 ^ bd_pageSizeSquare s"
    "mb_mbExExtentID (bd_mb s c) \<in> usedPages s"
    "e \<in> set (chainOf G N) \<Longrightarrow> 0 < ext_blockSize (bd_extent s e) \<and> ownPages s e \<subseteq> usedPages s - {mb_mbExExtentID (bd_mb s c)}"
    "e \<in> set (chainOf G N) \<Longrightarrow> e' \<in> set (chainOf G N) \<Longrightarrow> e \<noteq> e' \<Longrightarrow> ownPages s e \<inter> ownPages s e' = {}"
  using assms unfolding coll_full_def by blast+

lemma unit_pages:
  assumes "unit_space s" and "unit_geometry s"
  shows "smeMgr_segmentNum (bd_smeMgr s) \<le> 2 ^ bd_pageSizeSquare s" "usedPages s \<subseteq> {0..<134217728}"
    "x \<in> usedPages s \<Longrightarrow> extentAddr s x \<noteq> 0"
proof -
  let ?n = "smeMgr_segmentNum (bd_smeMgr s)" and ?sq = "bd_segmentPagesSquare s" and ?psq = "bd_pageSizeSquare s"
  have lim: "?n * 2 ^ ?sq \<le> 134217728" using mgr_invD(1) [OF unit_spaceD(1) [OF assms(1)]] by (simp add: segs_inv_def smeMgr_segmentNum_def)
  also have "134217728 = (2::nat) ^ ?psq * 2 ^ ?sq"
    using assms(2) unfolding unit_geometry_def power_add [symmetric] by (simp add: add.commute)
  finally show "?n \<le> 2 ^ ?psq" by simp
  have "int (?n * 2 ^ ?sq) \<le> 134217728" using lim by linarith
  then have "int ?n * 2 ^ ?sq \<le> 134217728" by simp
  then show "usedPages s \<subseteq> {0..<134217728}" unfolding usedPages_def by auto
  show "extentAddr s x \<noteq> 0" if "x \<in> usedPages s" using page_addr [OF assms(1)] that by (auto simp: usedPages_def)
qed

lemma chain_used:
  assumes "coll_full s c L m G N" and "e \<in> set (chainOf G N)"
  shows "e \<in> usedPages s"
proof -
  have "e \<in> ownPages s e" using coll_fullD(7) [OF assms] by (simp add: ownPages_def)
  then show ?thesis using coll_fullD(7) [OF assms] by blast
qed

text \<open>Logical ids stay inside 32 bits.\<close>

lemma logic_bound:
  assumes "coll_full s c L m G N" and "k < N"
  shows "int k * 2 ^ getFactor s + int (length (G k)) < 2147483648"
proof -
  note F = coll_fullD [OF assms(1)]
  have psq: "bd_pageSizeSquare s \<le> 16" using F(4) by (simp add: unit_geometry_def)
  have "length (G k) \<le> length (chainOf G N)" using chainOf_split [OF assms(2), of G] by simp
  also have "\<dots> = card (set (chainOf G N))" using extChainD(4) [OF F(2)] by (simp add: distinct_card del: set_concat)
  also have "\<dots> \<le> card {0..<134217728::int}"
    using chain_used [OF assms(1)] unit_pages(2) [OF F(3,4)] by (intro card_mono) auto
  finally have len: "int (length (G k)) \<le> 134217728" by simp
  have "int (2 ^ bd_pageSizeSquare s) * 2 ^ getFactor s = 2 ^ 30"
    using psq by (simp add: getFactor_def flip: power_add)
  moreover have "int k * 2 ^ getFactor s \<le> int (2 ^ bd_pageSizeSquare s) * 2 ^ getFactor s"
    using assms(2) F(5) by (intro mult_right_mono) auto
  ultimately have "int k * 2 ^ getFactor s \<le> 2 ^ 30" by linarith
  then show ?thesis using len by simp
qed

lemma dataSegment_page:
  assumes "unit_space s" and "unit_geometry s" and "in_one_segment (bd_segmentPagesSquare s) p n (bd_smeMgr s)"
  shows "dataSegment s p = nat (p div 2 ^ bd_segmentPagesSquare s)" and "dataSegment s p < 2 ^ bd_pageSizeSquare s"
proof -
  let ?sq = "bd_segmentPagesSquare s"
  have "(2::nat) ^ bd_pageSizeSquare s \<le> 65536" using assms(2) power_increasing [of "bd_pageSizeSquare s" 16 "2::nat"] by (simp add: unit_geometry_def)
  then have "smeMgr_segmentNum (bd_smeMgr s) \<le> 65536" using unit_pages(1) [OF assms(1,2)] by (rule order_trans [rotated])
  moreover have d: "0 \<le> p div 2 ^ ?sq" "p div 2 ^ ?sq < int (smeMgr_segmentNum (bd_smeMgr s))"
    using assms(3) by (auto simp: in_one_segment_def pos_imp_zdiv_nonneg_iff)
  ultimately have small: "p div 2 ^ ?sq < 65536" by linarith
  have "extent2Segment s p = nat (p div 2 ^ ?sq) + bd_dataSegID s"
    using d small unit_spaceD(7) [OF assms(1)] by (simp add: extent2Segment_def cast_simps nat_add_distrib)
  then show eq: "dataSegment s p = nat (p div 2 ^ ?sq)" using small d by (simp add: dataSegment_def cast_simps)
  show "dataSegment s p < 2 ^ bd_pageSizeSquare s" unfolding eq using d unit_pages(1) [OF assms(1,2)] by (meson nat_less_iff less_le_trans)
qed

section \<open>Allocating an extent\<close>

text \<open>Adding an extent to the chain changes no record, no free list and only links of extents.\<close>

lemma linked_ext: "recPart (bd_extent (linked c e prv nx s) x) = recPart (bd_extent s x)" "ext_freeSpace (bd_extent (linked c e prv nx s) x) = ext_freeSpace (bd_extent s x)"
  by (auto simp: linked_def linkedNext_def recPart_def split: option.split)

lemma linked_mb: "mb_deleteList (bd_mb (linked c e prv nx s) i) = mb_deleteList (bd_mb s i)" "mbId (bd_mb (linked c e prv nx s) i) = mbId (bd_mb s i)"
  by (auto simp: linked_def linkedNext_def firstIn_def split: option.split)

lemma linked_space:
  "bd_smeMgr (linked c e prv nx s) = bd_smeMgr s" "bd_header (linked c e prv nx s) = bd_header s" "bd_mmap (linked c e prv nx s) = bd_mmap s"
  "bd_maxSegID (linked c e prv nx s) = bd_maxSegID s" "bd_segmentPages (linked c e prv nx s) = bd_segmentPages s"
  "bd_segmentPagesSquare (linked c e prv nx s) = bd_segmentPagesSquare s" "bd_pageSize (linked c e prv nx s) = bd_pageSize s"
  by (auto simp: linked_def linkedNext_def split: option.split)

lemma entered_rest:
  "recPart (bd_extent (entered c k e b l pr s) x) = recPart (bd_extent s x)" "ext_freeSpace (bd_extent (entered c k e b l pr s) x) = ext_freeSpace (bd_extent s x)"
  "bd_mb (entered c k e b l pr s) = bd_mb s" "bd_record (entered c k e b l pr s) = bd_record s" "bd_ctx (entered c k e b l pr s) = bd_ctx s"
  "bd_smeMgr (entered c k e b l pr s) = bd_smeMgr s" "bd_header (entered c k e b l pr s) = bd_header s" "bd_mmap (entered c k e b l pr s) = bd_mmap s"
  "bd_maxSegID (entered c k e b l pr s) = bd_maxSegID s" "bd_segmentPages (entered c k e b l pr s) = bd_segmentPages s"
  "bd_segmentPagesSquare (entered c k e b l pr s) = bd_segmentPagesSquare s" "bd_pageSize (entered c k e b l pr s) = bd_pageSize s"
  "bd_pageSizeSquare (entered c k e b l pr s) = bd_pageSizeSquare s" "bd_dataSegID (entered c k e b l pr s) = bd_dataSegID s"
  "extentAddr (entered c k e b l pr s) x = extentAddr s x"
  by (simp_all add: entered_def recPart_def)

lemma added_sel [simp]:
  "recPart (bd_extent (addedExtent c G N k e s) x) = recPart (bd_extent s x)"
  "ext_freeSpace (bd_extent (addedExtent c G N k e s) x) = ext_freeSpace (bd_extent s x)"
  "mb_deleteList (bd_mb (addedExtent c G N k e s) i) = mb_deleteList (bd_mb s i)" "mbId (bd_mb (addedExtent c G N k e s) i) = mbId (bd_mb s i)"
  "bd_record (addedExtent c G N k e s) = bd_record s" "bd_ctx (addedExtent c G N k e s) = bd_ctx s"
  "extentAddr (addedExtent c G N k e s) x = extentAddr s x" "bd_pageSizeSquare (addedExtent c G N k e s) = bd_pageSizeSquare s"
  "mb_mbExExtentID (bd_mb (addedExtent c G N k e s) c) = mb_mbExExtentID (bd_mb s c)"
  "unit_space (addedExtent c G N k e s) = unit_space s" "usedPages (addedExtent c G N k e s) = usedPages s" "unit_geometry (addedExtent c G N k e s) = unit_geometry s"
  unfolding addedExtent_def Let_def unit_space_def usedPages_def unit_geometry_def
  by (simp_all only: linked_ext linked_mb linked_space linked_sel entered_rest)

lemma yields_initExtent:
  assumes s: "core s = core t" and ch: "extChain (setExtent p (\<lambda>_. ext_init n c tot) t) c G N"
    and ctx: "isMBLockType EXCLUSIVE (bd_ctx t)" "ctx_mbID (bd_ctx t) = c" and k: "dataSegment t p = k" "k < N" and p: "p \<notin> set (chainOf G N)"
    and addr: "extentAddr t p \<noteq> 0" and lid: "int k * 2 ^ getFactor t + int (length (G k)) < 2147483648"
    and tot: "tot = n * 2 ^ bd_pageSizeSquare t" "DMS_EXTENT_METADATA_SZ + DMS_MIN_RECORD_SZ \<le> tot" "tot < 2147483648"
  shows "yields (initExtent c n p True False s) (SDB_OK, Some p)
    (cutExtent c p tot (addedExtent c G N k p (setExtent p (\<lambda>_. ext_init n c tot) t)))"
proof -
  let ?t2 = "setExtent p (\<lambda>_. ext_init n c tot) t" and ?t3 = "addedExtent c G N k p (setExtent p (\<lambda>_. ext_init n c tot) t)"
  have "recPart (bd_extent ?t3 p) = recPart (ext_init n c tot)" by simp
  then have "ext_blockSize (bd_extent ?t3 p) = n" by (simp add: recPart_def ext_init_def)
  moreover have "ext_freeSpace (ext_init n c tot) = int tot - 36" using tot(2,3) by (simp add: ext_init_def cast_simps)
  ultimately have fresh: "freshExtent ?t3 p tot" using tot(1) by (simp add: freshExtent_def)
  have len: "u32 (int (n * 2 ^ bd_pageSizeSquare s')) = tot" if "core s' = core t" for s'
    unfolding core_eqD(18) [OF that] tot(1) [symmetric] using tot(3) by (simp add: cast_simps)
  have add: "yields (addExtent2Meta p s') SDB_OK ?t3" if "core s' = core ?t2" for s'
    by (rule yields_addExtent2Meta [OF that ch]) (use ctx k p lid in \<open>simp_all add: dataSegment_def getFactor_def prevOf_def ext_init_def\<close>)
  have cut: "yields (bindM (mapExtent2DelList c p) (\<lambda>_. retM (SDB_OK, Some p)) s') (SDB_OK, Some p) (cutExtent c p tot ?t3)" if "core s' = core ?t3" for s'
    unfolding cutExtent_def
    by (rule yields_bind, rule yields_mapExtent2DelList [OF that _ fresh tot(2,3)]) (use addr in simp_all)
  have body: "yields (bindM (getM (\<lambda>s. u32 (int (n * 2 ^ bd_pageSizeSquare s)))) (\<lambda>totalSize.
        bindM (updExtent p (\<lambda>_. ext_init n c totalSize)) (\<lambda>_.
        bindM (if False then appendLoadList c p else addExtent2Meta p) (\<lambda>rc. if rc \<noteq> SDB_OK then retM (rc, None)
        else bindM (if True then mapExtent2DelList c p else retM ()) (\<lambda>_. retM (SDB_OK, Some p))))) s') (SDB_OK, Some p) (cutExtent c p tot ?t3)"
    if "core s' = core t" for s'
    unfolding bindM_getM len [OF that] if_False if_True
    by (rule yields_bind, rule yields_updExtent [OF that], rule yields_bind, erule add, simp only: simp_thms if_False, erule cut)
  show ?thesis unfolding initExtent_def
    by (rule yields_bind, rule yields_extWrite [OF s addr], simp only: not_True_eq_False simp_thms if_False, rule yields_withRW, erule body [unfolded if_False])
qed

lemma pagesD:
  assumes "pagesView t = pagesView s" and "geometry t = geometry s"
  shows "bd_extent t = bd_extent s" "bd_record t = bd_record s" "bd_metaExt t = bd_metaExt s" "bd_mb t = bd_mb s" "bd_mbStat t = bd_mbStat s"
    "bd_pageSize t = bd_pageSize s" "bd_pageSizeSquare t = bd_pageSizeSquare s" "bd_segmentPages t = bd_segmentPages s"
    "bd_segmentPagesSquare t = bd_segmentPagesSquare s" "bd_dataSegID t = bd_dataSegID s"
  using assms by (simp_all add: pagesView_def geometry_def)

text \<open>A block of pages that was not in use is not a page of the collection.\<close>

lemma block_fresh:
  assumes full: "coll_full s c L m G N" and bl: "blockTaken s n p t" "0 < n"
  shows "p \<notin> set (chainOf G N)" "p \<noteq> DMS_INVALID_EXTENT" "p \<noteq> mb_mbExExtentID (bd_mb s c)"
    "e \<in> set (chainOf G N) \<Longrightarrow> ownPages s e \<inter> pageRun p n = {}" "usedPages s \<subseteq> usedPages t" "pageRun p n \<subseteq> usedPages t" "p \<in> usedPages t"
proof -
  have p: "p \<in> pageRun p n" using bl(2) by simp
  have b: "usedPages s \<inter> pageRun p n = {}" "usedPages t = usedPages s \<union> pageRun p n" using bl(1) by (simp_all add: blockTaken_def)
  show "p \<notin> set (chainOf G N)" "p \<noteq> mb_mbExExtentID (bd_mb s c)" using chain_used [OF full] coll_fullD(6) [OF full] b(1) p by blast+
  show "ownPages s e \<inter> pageRun p n = {}" if "e \<in> set (chainOf G N)" using coll_fullD(7) [OF full that] b(1) by blast
  show "usedPages s \<subseteq> usedPages t" "pageRun p n \<subseteq> usedPages t" "p \<in> usedPages t" using b(2) p by blast+
  then show "p \<noteq> DMS_INVALID_EXTENT" by (auto simp: usedPages_def)
qed

text \<open>The collection after the block was taken and initialized as an extent, before it is linked.\<close>

lemma coll_block:
  assumes full: "coll_full s c L m G N" and bl: "blockTaken s n p t" "0 < n" and pg: "pagesView t = pagesView s" "geometry t = geometry s"
    and t2_def: "t2 = setExtent p (\<lambda>_. ext_init n c tot) t"
  shows "coll_inv t2 c (set (chainOf G N)) L m" "extChain t2 c G N"
proof -
  note F = coll_fullD [OF full] and P = pagesD [OF pg] and B = block_fresh [OF full bl]
  have U: "unit_space t" "unit_geometry t" using bl(1) F(4) by (simp_all add: blockTaken_def unit_geometry_def P)
  have addr: "extentAddr t2 x \<noteq> 0" if "x \<in> usedPages s" for x
    unfolding t2_def using unit_pages(3) [OF U] B(5) that by (simp add: subsetD)
  have same: "bd_extent t2 e = bd_extent s e" if "e \<in> set (chainOf G N)" for e using that B(1) by (auto simp: t2_def P set_defs)
  show "coll_inv t2 c (set (chainOf G N)) L m"
    by (rule coll_move [OF F(1)]) (simp_all add: same addr [OF chain_used [OF full]], simp_all add: t2_def P)
  show "extChain t2 c G N"
    by (rule extChain_move [OF F(2)]) (simp_all add: same addr [OF chain_used [OF full]] addr [OF F(6)], simp_all add: t2_def P)
qed

lemma cutExtent_struct: "structView (cutExtent c p tot s) = structView s" "geometry (cutExtent c p tot s) = geometry s"
proof -
  have "structView (savePieces c p ps s) = structView s" "geometry (savePieces c p ps s) = geometry s" for ps s
    by (induction ps arbitrary: s) auto
  then show "structView (cutExtent c p tot s) = structView s" "geometry (cutExtent c p tot s) = geometry s"
    by (simp_all add: cutExtent_def zeroFree_def)
qed

lemma block_bytes:
  assumes "unit_geometry s" and "0 < n" and "n \<le> 2 ^ bd_segmentPagesSquare s"
  shows "DMS_EXTENT_METADATA_SZ + DMS_MIN_RECORD_SZ \<le> n * 2 ^ bd_pageSizeSquare s" "n * 2 ^ bd_pageSizeSquare s \<le> 134217728"
proof -
  note G = assms(1) [unfolded unit_geometry_def]
  have "(2::nat) ^ 12 \<le> 2 ^ bd_pageSizeSquare s" using G by (intro power_increasing) auto
  also have "\<dots> \<le> n * 2 ^ bd_pageSizeSquare s" using assms(2) by simp
  finally show "DMS_EXTENT_METADATA_SZ + DMS_MIN_RECORD_SZ \<le> n * 2 ^ bd_pageSizeSquare s" by simp
  have "n * 2 ^ bd_pageSizeSquare s \<le> 2 ^ bd_segmentPagesSquare s * 2 ^ bd_pageSizeSquare s" using assms(3) by simp
  also have "\<dots> = 2 ^ 27" using G by (simp only: power_add [symmetric])
  finally show "n * 2 ^ bd_pageSizeSquare s \<le> 134217728" by simp
qed

lemmas cutExtent_unit = structD [OF cutExtent_struct(1)]

lemma setExtent_unit [simp]:
  "unit_space (setExtent p f s) = unit_space s" "usedPages (setExtent p f s) = usedPages s" "unit_geometry (setExtent p f s) = unit_geometry s"
  by (simp_all add: unit_space_def usedPages_def unit_geometry_def)

lemma cutExtent_geometry: "unit_geometry (cutExtent c p tot s) = unit_geometry s"
  using cutExtent_struct(2) [of c p tot s] by (simp add: unit_geometry_def geometry_def)

lemma ownPages_recPart: "recPart (bd_extent t e) = recPart (bd_extent s e) \<Longrightarrow> ownPages t e = ownPages s e \<and> ext_blockSize (bd_extent t e) = ext_blockSize (bd_extent s e)"
  by (simp add: ownPages_def recPart_def)

lemma coll_linked:
  assumes full: "coll_full s c L m G N" and bl: "blockTaken s n p t" "0 < n" "n \<le> 2 ^ bd_segmentPagesSquare s"
    and pg: "pagesView t = pagesView s" "geometry t = geometry s"
    and k: "k = dataSegment t p" and tot: "tot = n * 2 ^ bd_pageSizeSquare t"
    and t3: "t3 = addedExtent c G N k p (setExtent p (\<lambda>_. ext_init n c tot) t)"
  shows "coll_full (cutExtent c p tot t3) c (L(p := [])) (m ++ map_of (newCells p tot)) (G(k := G k @ [p])) N"
proof -
  note F = coll_fullD [OF full] and P = pagesD [OF pg] and B = block_fresh [OF full bl(1,2)]
  define t2 where "t2 = setExtent p (\<lambda>_. ext_init n c tot) t"
  note C = coll_block [OF full bl(1,2) pg t2_def] and t3 = t3 [folded t2_def]
  let ?G = "G(k := G k @ [p])" and ?u = "cutExtent c p tot t3"
  have U: "unit_space t" "unit_geometry t" using bl(1) F(4) by (simp_all add: blockTaken_def unit_geometry_def P)
  have bytes: "DMS_EXTENT_METADATA_SZ + DMS_MIN_RECORD_SZ \<le> tot" "tot \<le> 134217728"
    using block_bytes [OF U(2) bl(2)] bl(3) by (simp_all add: tot P)
  have addr: "extentAddr t p \<noteq> 0" by (rule unit_pages(3) [OF U B(7)])
  have kN: "k < N" using dataSegment_page(2) [OF U, of p n] bl(1) F(5) by (simp add: blockTaken_def k P)
  have set: "set (chainOf ?G N) = insert p (set (chainOf G N))" unfolding chainOf_upd [OF kN] chainOf_split [OF kN] by simp
  have li: "linkedIn t2 c G N k p t3" unfolding t3 by (rule added_linkedIn [OF C(2) kN B(1,2)]) (simp add: t2_def nextOf_def ext_init_def)
  have ch: "extChain t3 c ?G N" by (rule chain_linked [OF C(2) li kN B(1,2)]) (use addr in \<open>simp_all add: t2_def k dataSegment_def\<close>)
  have ci: "coll_inv t3 c (set (chainOf G N)) L m"
    by (rule coll_move [OF C(1)]) (use extChainD(5) [OF C(2)] in \<open>simp_all add: t3\<close>)
  have "coll_inv ?u c (insert p (set (chainOf G N))) (L(p := [])) (m ++ map_of (newCells p tot))"
    by (rule coll_add_extent [OF ci B(1,2)]) (use addr bytes in \<open>simp_all add: t3 t2_def tot\<close>)
  moreover have "extChain ?u c ?G N" by (rule extChain_struct [OF cutExtent_struct(1) ch])
  moreover have U3: "unit_space ?u" "usedPages ?u = usedPages t" "unit_geometry ?u" "N = 2 ^ bd_pageSizeSquare ?u"
    using U F(5) by (simp_all add: cutExtent_unit cutExtent_geometry t3 t2_def P)
  moreover have mb: "mb_mbExExtentID (bd_mb ?u c) = mb_mbExExtentID (bd_mb s c)"
    using cutExtent_unit(11) [of c p tot t3 c] by (simp add: mbLinks_def t3 t2_def P)
  moreover have own: "ownPages ?u e = ownPages s e \<and> ext_blockSize (bd_extent ?u e) = ext_blockSize (bd_extent s e)" if "e \<noteq> p" for e
    by (rule ownPages_recPart) (use that in \<open>simp add: cutExtent_sel(1) t3 t2_def P set_defs\<close>)
  moreover have "recPart (bd_extent ?u p) = recPart (ext_init n c tot)" by (simp add: cutExtent_sel(1) t3 t2_def)
  then have new: "ownPages ?u p = pageRun p n" "ext_blockSize (bd_extent ?u p) = n" by (simp_all add: ownPages_def recPart_def ext_init_def)
  moreover have "0 < ext_blockSize (bd_extent ?u e) \<and> ownPages ?u e \<subseteq> usedPages ?u - {mb_mbExExtentID (bd_mb ?u c)}" if "e \<in> insert p (set (chainOf G N))" for e
    using F(7) [of e] own [of e] new that bl(1,2) B(5,6) F(6) unfolding U3(2) mb blockTaken_def by (cases "e = p") auto
  moreover have "ownPages ?u e \<inter> ownPages ?u e' = {}" if "e \<in> insert p (set (chainOf G N))" "e' \<in> insert p (set (chainOf G N))" "e \<noteq> e'" for e e'
    using F(8) [of e e'] own [of e] own [of e'] new(1) B(4) that by (cases "e = p"; cases "e' = p") auto
  moreover have "mb_mbExExtentID (bd_mb ?u c) \<in> usedPages ?u" using F(6) B(5) unfolding U3(2) mb by blast
  ultimately show ?thesis unfolding coll_full_def set by (intro conjI ballI impI) (assumption | blast)+
qed

end
