(* ===== verification/Dms_Alloc.thy ===== *)
theory Dms_Alloc
  imports Dms_Growth
begin

text \<open>
  The operations that let a collection grow.  \<open>_allocateExtent\<close> succeeds when the operating system does not fail and the unit may get one more
  segment; after it the search of the free lists cannot fail, so that \<open>_allocRecordSpace\<close> needs one new extent at most and
  \<open>insertRecord\<close> succeeds whenever the unit can grow.
\<close>

section \<open>Allocating an extent\<close>

text \<open>The unit may get one more segment.\<close>

definition canGrow :: "dmsBlockData \<Rightarrow> bool" where
  "canGrow s \<longleftrightarrow> Suc (smeMgr_segmentNum (bd_smeMgr s)) * bd_segmentPages s \<le> DMS_MAX_PG"

lemma coll_full_core:
  assumes "core s = core t" and "coll_full t c L m G N"
  shows "coll_full s c L m G N"
proof -
  note d = core_eqD [OF assms(1)]
  have a: "extentAddr s e = extentAddr t e" for e using d by (simp add: extentAddr_def extent2Segment_def extentSegOffset_def)
  have "unit_space s = unit_space t" "usedPages s = usedPages t" "unit_geometry s = unit_geometry t" "ownPages s = ownPages t"
    using d by (simp_all add: unit_space_def usedPages_def unit_geometry_def ownPages_def fun_eq_iff)
  then have "coll_full s c L m G N = coll_full t c L m G N"
    by (simp only: coll_full_def extChain_core [OF assms(1)] coll_inv_core [OF assms(1)] core_reads(1,5) [OF assms(1)] d(18))
  then show ?thesis using assms(2) by (simp only:)
qed

lemma ctxHeld_core:
  assumes "core s = core t"
  shows "ctxHeld s = ctxHeld t"
  unfolding ctxHeld_def mbViewOf_def by (simp only: core_eqD(26) [OF assms] mbCore_eqD(2,7) [OF core_eqD(27) [OF assms]])

lemma ctxHeld_mbId: "bd_ctx s = bd_ctx t \<Longrightarrow> (\<And>i. mbId (bd_mb s i) = mbId (bd_mb t i)) \<Longrightarrow> ctxHeld s = ctxHeld t"
  by (simp add: ctxHeld_def mbViewOf_def mbId_def)

lemma cutExtent_ctx: "bd_ctx (cutExtent c p tot s) = bd_ctx s" "mbId (bd_mb (cutExtent c p tot s) i) = mbId (bd_mb s i)"
proof -
  have "bd_ctx (savePieces c p ps s) = bd_ctx s" for ps s by (induction ps arbitrary: s) (auto simp: saveState_def Let_def)
  then show "bd_ctx (cutExtent c p tot s) = bd_ctx s" by (simp add: cutExtent_def zeroFree_def)
  show "mbId (bd_mb (cutExtent c p tot s) i) = mbId (bd_mb s i)"
    using structD(11) [OF cutExtent_struct(1) [of c p tot s], of i] by (simp add: mbLinks_def)
qed

text \<open>Success: a new extent at the end of its segment, and everything else of the collection as it was.\<close>

lemma allocateExtent_ok:
  assumes full: "coll_full s c L m G N" and held: "ctxHeld s" "ctx_mbID (bd_ctx s) = c" and os: "envOk env" and room: "canGrow s"
    and n: "0 < n" "n \<le> bd_segmentPages s"
  defines "tot \<equiv> n * 2 ^ bd_pageSizeSquare s"
  shows "\<exists>p k t. allocateExtent env (Suc (Suc fuel)) n True False s = Ret (SDB_OK, Some p) t
    \<and> coll_full t c (L(p := [])) (m ++ map_of (newCells p tot)) (G(k := G k @ [p])) N \<and> p \<notin> set (chainOf G N)
    \<and> ctxHeld t \<and> ctx_mbID (bd_ctx t) = c \<and> geometry t = geometry s
    \<and> (\<forall>e\<in>set (chainOf G N). \<forall>o1. bd_record t (RID e o1) = bd_record s (RID e o1))
    \<and> (\<exists>s'. mb_deleteList (bd_mb t c) = mb_deleteList (bd_mb (cutExtent c p tot s') c) \<and> length (mb_deleteList (bd_mb s' c)) = MB_MAX)"
proof -
  note F = coll_fullD [OF full]
  have sq: "bd_segmentPages s = 2 ^ bd_segmentPagesSquare s" by (rule unit_spaceD(3) [OF F(3)])
  note n' = n [unfolded sq]
  obtain p t where f: "findFreeSpace env (Suc (Suc fuel)) n True s = Ret (SDB_OK, p) t" "sameCtx s t"
    using findFreeSpace_ok [OF F(3) os n' held(1), where b = True and fuel = fuel] room unfolding canGrow_def sq by blast
  have "found s n (findFreeSpace env (Suc (Suc fuel)) n True s)" by (rule findFreeSpace_found [OF F(3) envOk_nonNull [OF os] n'])
  then have bl: "blockTaken s n p t" by (simp only: f(1) found_simps simp_thms if_True)
  have pg: "pagesView t = pagesView s" "geometry t = geometry s"
    using keptD [OF pages.kept_findFreeSpace [OF refl] f(1)] keptD [OF geo.kept_findFreeSpace [OF refl] f(1)] by simp_all
  note P = pagesD [OF pg] and B = block_fresh [OF full bl n(1)]
  define k where "k = dataSegment t p"
  define t3 where "t3 = addedExtent c G N k p (setExtent p (\<lambda>_. ext_init n c tot) t)"
  have tot: "tot = n * 2 ^ bd_pageSizeSquare t" by (simp add: tot_def P)
  have U: "unit_space t" "unit_geometry t" using bl F(4) by (simp_all add: blockTaken_def unit_geometry_def P)
  have kN: "k < N" using dataSegment_page(2) [OF U, of p n] bl F(5) by (simp add: blockTaken_def k_def P)
  have cf: "coll_full (cutExtent c p tot t3) c (L(p := [])) (m ++ map_of (newCells p tot)) (G(k := G k @ [p])) N"
    by (rule coll_linked [OF full bl n' pg k_def tot t3_def])
  have held': "isMBLockType EXCLUSIVE (bd_ctx t)" "ctx_mbID (bd_ctx t) = c" "ctxHeld t" using f(2) held by (auto simp: sameCtx_def ctxHeld_def)
  have bytes: "DMS_EXTENT_METADATA_SZ + DMS_MIN_RECORD_SZ \<le> tot" "tot \<le> 134217728"
    using block_bytes [OF U(2) n(1)] n'(2) by (simp_all add: tot P)
  have "yields (initExtent c n p True False t) (SDB_OK, Some p) (cutExtent c p tot t3)" unfolding t3_def
    by (rule yields_initExtent [OF refl coll_block(2) [OF full bl n(1) pg refl] held'(1,2) k_def [symmetric] kN B(1) unit_pages(3) [OF U B(7)] _ tot bytes(1)])
      (use logic_bound [OF full kN] bytes(2) in \<open>simp_all add: getFactor_def P\<close>)
  then obtain u where u: "initExtent c n p True False t = Ret (SDB_OK, Some p) u" "core u = core (cutExtent c p tot t3)" by (auto simp: yields_def)
  have run: "allocateExtent env (Suc (Suc fuel)) n True False s = Ret (SDB_OK, Some p) u"
    using n ctxLock_held [of EXCLUSIVE s] held(1) f(1) B(2) u(1) held'(2)
    by (simp add: allocateExtent_def ctxHeld_def bindM_def getM_def del: findFreeSpace.simps)
  have "coll_full u c (L(p := [])) (m ++ map_of (newCells p tot)) (G(k := G k @ [p])) N" by (rule coll_full_core [OF u(2) cf])
  moreover have "geometry u = geometry s" using keptD [OF geo.kept_initExtent [OF refl] u(1)] pg(2) by simp
  moreover have "ctx_mbID (bd_ctx u) = c" using core_eqD(26) [OF u(2)] held'(2) by (simp add: cutExtent_ctx t3_def)
  moreover have "ctxHeld u" using held'(3) unfolding ctxHeld_core [OF u(2)]
    by (subst ctxHeld_mbId [of _ t]) (simp_all add: cutExtent_ctx cutExtent_unit(11) t3_def)
  moreover have "bd_record u (RID e o1) = bd_record s (RID e o1)" if "e \<in> set (chainOf G N)" for e o1
  proof -
    have "e \<noteq> p" using that B(1) by blast
    then show ?thesis using core_eqD(9) [OF u(2)] by (simp add: cutExtent_sel(5) t3_def P)
  qed
  moreover have "length (mb_deleteList (bd_mb t3 c)) = MB_MAX"
    using F(1) by (auto simp: t3_def P coll_inv_def coll_gen_def freeRep_def free_inv_def)
  then have "\<exists>s'. mb_deleteList (bd_mb u c) = mb_deleteList (bd_mb (cutExtent c p tot s') c) \<and> length (mb_deleteList (bd_mb s' c)) = MB_MAX"
    using mbCore_eqD(6) [OF core_eqD(27) [OF u(2)]] by blast
  ultimately show ?thesis using run B(1) by blast
qed

section \<open>A new extent has room\<close>

lemma deleteSlot_larger:
  assumes "4 * a \<le> b" and "32 < b"
  shows "deleteSlot a < deleteSlot b"
proof (cases "(a - 1) div 32 = 0")
  case True
  have "(b - 1) div 32 \<noteq> 0" using assms(2) by simp
  then have "0 < bitLen ((b - 1) div 32)" by (subst bitLen.simps) simp
  then show ?thesis using True by (simp add: deleteSlot_def slotLoop_bitLen bitLen.simps [of 0])
next
  case False
  have "2 * ((a - 1) div 32) \<le> (b - 1) div 32" using assms(1) False by linarith
  moreover have "2 ^ (bitLen ((a - 1) div 32) - 1) \<le> (a - 1) div 32" by (rule bitLen_ge [OF False])
  moreover have "0 < bitLen ((a - 1) div 32)" using False by (subst bitLen.simps) simp
  ultimately have "2 ^ bitLen ((a - 1) div 32) \<le> (b - 1) div 32" by (cases "bitLen ((a - 1) div 32)") auto
  then show ?thesis using bitLen_le_iff [of "(b - 1) div 32" "bitLen ((a - 1) div 32)"] by (simp add: deleteSlot_def slotLoop_bitLen)
qed

text \<open>The number of pages \<open>_allocRecordSpace\<close> asks for: sixteen times the space needed, but no more than 16 MB and a page.\<close>

lemma requestPages_bounds:
  assumes geo: "unit_geometry s" and seg: "bd_segmentPages s = 2 ^ bd_segmentPagesSquare s" and need: "0 < need" "need \<le> DMS_RECORD_MAX_SZ"
  defines "n \<equiv> requestPages s need" and "ps \<equiv> 2 ^ bd_pageSizeSquare s"
  shows "0 < n" "n \<le> bd_segmentPages s" "n < 65536" "min (16 * need) DMS_RECORD_MAX_SZ + DMS_EXTENT_METADATA_SZ \<le> n * ps"
    "DMS_RECORD_MAX_SZ div 16 < need \<Longrightarrow> n * ps = DMS_RECORD_MAX_SZ + ps"
proof -
  let ?x = "min (16 * need) 16777216 + 36"
  have G: "12 \<le> bd_pageSizeSquare s" "bd_pageSizeSquare s \<le> 16" "bd_segmentPagesSquare s + bd_pageSizeSquare s = 27" "bd_pageSize s = ps"
    using geo by (simp_all add: unit_geometry_def ps_def)
  have ps: "4096 \<le> ps" "ps \<le> 65536"
    using power_increasing [of 12 "bd_pageSizeSquare s" "2::nat"] power_increasing [of "bd_pageSizeSquare s" 16 "2::nat"] G by (simp_all add: ps_def)
  obtain q where q: "16777216 = q * ps"
  proof
    show "16777216 = 2 ^ (24 - bd_pageSizeSquare s) * ps" unfolding ps_def power_add [symmetric] using G by simp
  qed
  have sp: "bd_segmentPages s * ps = 134217728" unfolding seg ps_def power_add [symmetric] G(3) by simp
  define r where "r = (?x + ps - 1) div ps"
  have up: "r * ps \<le> ?x + ps - 1" by (simp add: r_def)
  have lo: "?x \<le> r * ps" using div_mult_mod_eq [of "?x + ps - 1" ps] mod_less_divisor [of ps "?x + ps - 1"] ps unfolding r_def by linarith
  have "r * ps \<le> bd_segmentPages s * ps" using up ps sp by linarith
  then have cap: "r \<le> bd_segmentPages s" using ps by simp
  have r0: "0 < r" using lo by (cases r) auto
  have "u32 (int need * 2 ^ 4) = 16 * need" using need by (simp add: cast_simps)
  then have nr: "n = r" using need cap r0 unfolding n_def requestPages_def Let_def r_def G(4) ps_def [symmetric] by (auto simp: min_def)
  show "0 < n" "n \<le> bd_segmentPages s" "min (16 * need) DMS_RECORD_MAX_SZ + DMS_EXTENT_METADATA_SZ \<le> n * ps" using r0 cap lo nr by simp_all
  have "r * 4096 \<le> r * ps" using ps by simp
  then have "r * 4096 \<le> 16777216 + 36 + 65536" using up ps by linarith
  then show "n < 65536" using nr by linarith
  assume "DMS_RECORD_MAX_SZ div 16 < need"
  then have x: "?x = q * ps + 36" using q by (simp add: min_def)
  have "q * ps < r * ps" using lo x by linarith
  moreover have "r * ps < (q + 2) * ps" unfolding distrib_right using up x ps by linarith
  ultimately have "q < r" "r < q + 2" by (simp_all only: mult_less_cancel2)
  then have "r = q + 1" by linarith
  then show "n * ps = DMS_RECORD_MAX_SZ + ps" using nr q by simp
qed

text \<open>The largest piece of a new extent comes first.\<close>

lemma extentPieces_first:
  assumes "tot = n * 2 ^ k" and "12 \<le> k" and "k \<le> 24" and "72 \<le> tot"
  shows "\<exists>rest. extentPieces tot = (36, min (int tot - 36) (int DMS_RECORD_MAX_SZ)) # rest"
proof (cases "int tot - 36 \<le> int DMS_RECORD_MAX_SZ")
  case True
  then show ?thesis using assms(4) unfolding extentPieces_def Let_def by (subst pieces.simps) (auto simp: min_def)
next
  case False
  have "(16777216::nat) = 2 ^ (24 - k) * 2 ^ k" unfolding power_add [symmetric] using assms(3) by simp
  then have "2 ^ (24 - k) * 2 ^ k < n * 2 ^ k" using False assms(1) by linarith
  then have "Suc (2 ^ (24 - k)) \<le> n" by simp
  then have "Suc (2 ^ (24 - k)) * 2 ^ k \<le> tot" unfolding assms(1) by (rule mult_le_mono1)
  moreover have "(2::nat) ^ 12 \<le> 2 ^ k" using assms(2) by (intro power_increasing) auto
  ultimately have "int tot - 36 - 16777216 \<ge> 36" using \<open>16777216 = 2 ^ (24 - k) * 2 ^ k\<close> by simp
  then show ?thesis using False unfolding extentPieces_def Let_def by (subst pieces.simps) (simp add: min_def)
qed

lemma extentPieces_large:
  assumes "tot = DMS_RECORD_MAX_SZ + ps" and "72 \<le> ps" and "ps \<le> 65536"
  shows "extentPieces tot = [(36, int DMS_RECORD_MAX_SZ), (int DMS_RECORD_MAX_SZ + 36, int ps - 36)]"
  using assms unfolding extentPieces_def Let_def
  by (subst pieces.simps, subst pieces.simps) (simp add: min_def)

lemma cutExtent_head:
  assumes "tot = DMS_RECORD_MAX_SZ + ps" and "72 \<le> ps" and "ps \<le> 65536" and "length (mb_deleteList (bd_mb s c)) = MB_MAX"
  shows "mb_deleteList (bd_mb (cutExtent c p tot s) c) ! deleteSlot DMS_RECORD_MAX_SZ = RID p 36"
proof -
  have "deleteSlot (nat (int ps - 36)) < deleteSlot DMS_RECORD_MAX_SZ" using assms(3) by (intro deleteSlot_larger) auto
  moreover have "deleteSlot DMS_RECORD_MAX_SZ < MB_MAX" by (rule deleteSlot_less) simp
  ultimately show ?thesis using assms(2,4)
    unfolding cutExtent_def extentPieces_large [OF assms(1-3)] savePieces_def
    by (simp add: saveState_def Let_def zeroFree_def nth_list_update)
qed

lemma head_taken:
  assumes "freeRep c s m" and "m r = Some n" and "need \<le> n" and "mb_deleteList (bd_mb s c) ! deleteSlot n = r" and "n \<le> DMS_RECORD_MAX_SZ"
  shows "\<exists>r s'. takesCell c need s r s'"
proof (cases "deleteSlot need < deleteSlot n")
  case True
  then show ?thesis by (rule larger_class_taken [OF assms(1,2)])
next
  case False
  then have slot: "deleteSlot n = deleteSlot need" using deleteSlot_mono [OF assms(3)] by simp
  obtain F found t where F: "free_inv s c F" "m = (\<lambda>r. if r \<in> freeSet F then Some (rec_getSize (bd_record s r)) else None)"
    and found: "found = searchAll s need F [deleteSlot need..<MB_MAX]"
    and res: "searchSlots c need [deleteSlot need..<MB_MAX] s = Ret (map_option (snd \<circ> snd) found) t"
    using searchSlots_cases [OF assms(1)] by blast
  have r: "r \<in> freeSet F" "n = rec_getSize (bd_record s r)" using assms(2) F(2) by (auto split: if_splits)
  have j: "deleteSlot need < MB_MAX" using deleteSlot_less [OF assms(5)] slot by simp
  have "r \<in> set (F (deleteSlot need))" using free_inv_member(4) [OF F(1) r(1)] r(2) slot by simp
  moreover have "dchain s r (F (deleteSlot need))" using F(1) j assms(4) slot by (auto simp: free_inv_def)
  ultimately have "r \<in> set (take s_maxSearch (F (deleteSlot need)))" by (cases "F (deleteSlot need)") auto
  then have "found \<noteq> None" using searchAll_fails [OF F(1) _ j] found r(2) assms(3) by fastforce
  then show ?thesis using res by (auto simp: takesCell_def)
qed

text \<open>After \<open>_allocateExtent\<close> with the number of pages asked for, the search finds a cell.\<close>

lemma new_extent_taken:
  assumes geo: "unit_geometry s" and need: "0 < need" "need \<le> DMS_RECORD_MAX_SZ" and tot: "tot = n * 2 ^ bd_pageSizeSquare s"
    and n: "min (16 * need) DMS_RECORD_MAX_SZ + DMS_EXTENT_METADATA_SZ \<le> tot"
      "DMS_RECORD_MAX_SZ div 16 < need \<Longrightarrow> tot = DMS_RECORD_MAX_SZ + 2 ^ bd_pageSizeSquare s" "72 \<le> tot"
    and rep: "freeRep c t (m ++ map_of (newCells p tot))"
    and dl: "mb_deleteList (bd_mb t c) = mb_deleteList (bd_mb (cutExtent c p tot s') c)" "length (mb_deleteList (bd_mb s' c)) = MB_MAX"
  shows "\<exists>r t'. takesCell c need t r t'"
proof -
  have G: "12 \<le> bd_pageSizeSquare s" "bd_pageSizeSquare s \<le> 16" using geo by (simp_all add: unit_geometry_def)
  have ps: "72 \<le> (2::nat) ^ bd_pageSizeSquare s" "(2::nat) ^ bd_pageSizeSquare s \<le> 65536"
    using power_increasing [of 12 "bd_pageSizeSquare s" "2::nat"] power_increasing [of "bd_pageSizeSquare s" 16 "2::nat"] G by simp_all
  let ?sz = "min (tot - 36) DMS_RECORD_MAX_SZ"
  obtain rest where "extentPieces tot = (36, min (int tot - 36) (int DMS_RECORD_MAX_SZ)) # rest"
    using extentPieces_first [OF tot G(1)] G(2) n(3) by auto
  then have cell: "(m ++ map_of (newCells p tot)) (RID p 36) = Some ?sz"
    using n(3) by (auto simp: newCells_def min_def nat_diff_distrib)
  show ?thesis
  proof (cases "DMS_RECORD_MAX_SZ div 16 < need")
    case True
    note t = n(2) [OF True]
    have "mb_deleteList (bd_mb t c) ! deleteSlot DMS_RECORD_MAX_SZ = RID p 36" unfolding dl(1) by (rule cutExtent_head [OF t ps dl(2)])
    moreover have "?sz = DMS_RECORD_MAX_SZ" using t ps(1) by simp
    ultimately show ?thesis using head_taken [OF rep cell _ _] need(2) by simp
  next
    case False
    then have "16 * need \<le> ?sz" using n(1) by auto
    then have "deleteSlot need < deleteSlot ?sz" using n(3) by (intro deleteSlot_larger) auto
    then show ?thesis by (rule larger_class_taken [OF rep cell])
  qed
qed

section \<open>Space for a record\<close>

text \<open>The extents that are added, and what is left as it was.\<close>

definition grew :: "dmsBlockData \<Rightarrow> (dmsExtentID \<Rightarrow> dmsOffset list) \<Rightarrow> (nat \<Rightarrow> dmsExtentID list) \<Rightarrow> nat \<Rightarrow>
    dmsBlockData \<Rightarrow> (dmsExtentID \<Rightarrow> dmsOffset list) \<Rightarrow> (nat \<Rightarrow> dmsExtentID list) \<Rightarrow> bool" where
  "grew s L G N t L' G' \<longleftrightarrow>
     (G' = G \<and> L' = L \<or> (\<exists>k p. G' = G(k := G k @ [p]) \<and> L' = L(p := []) \<and> p \<notin> set (chainOf G N)))
     \<and> (\<forall>e\<in>set (chainOf G N). \<forall>o1. bd_record t (RID e o1) = bd_record s (RID e o1))"

lemma search_fails_same:
  assumes "freeRep c s m" and "\<nexists>r t. takesCell c need s r t"
  shows "\<exists>t. searchSlots c need [deleteSlot need..<MB_MAX] s = Ret None t \<and> core t = core s"
proof -
  obtain found t where found: "core t = core (takeSearched c found s)"
    and res: "searchSlots c need [deleteSlot need..<MB_MAX] s = Ret (map_option (snd \<circ> snd) found) t"
    by (rule searchSlots_cases [OF assms(1), of need])
  have none: "found = None"
  proof (rule ccontr)
    assume "found \<noteq> None"
    then obtain r where "map_option (snd \<circ> snd) found = Some r" by blast
    then show False using res assms(2) by (simp only: takesCell_def) blast
  qed
  show ?thesis using found res unfolding none takeSearched_def by (simp only: option.case option.map) blast
qed

lemma allocRecordSpace_ok:
  assumes full: "coll_full s c L m G N" and held: "ctxHeld s" "ctx_mbID (bd_ctx s) = c" and os: "envOk env" and room: "canGrow s"
    and need: "0 < need" "need \<le> DMS_RECORD_MAX_SZ"
  shows "\<exists>u r t L' m' G'. allocRecordSpace env (Suc (Suc fuel)) need s = Ret (SDB_OK, r) t \<and> takesCell c need u r t
    \<and> coll_full u c L' m' G' N \<and> ctxHeld u \<and> ctx_mbID (bd_ctx u) = c \<and> grew s L G N u L' G'"
proof (cases "\<exists>r t. takesCell c need s r t")
  case True
  then obtain r t where tk: "takesCell c need s r t" by blast
  have "allocRecordSpace env (Suc (Suc fuel)) need s = Ret (SDB_OK, r) t"
    using held by (intro alloc_finds [OF _ held(2) tk need(2)]) (simp add: ctxHeld_def)
  moreover have "grew s L G N s L G" by (simp add: grew_def)
  ultimately show ?thesis using tk full held by blast
next
  case False
  note F = coll_fullD [OF full]
  have "freeRep c s m" using F(1) by (simp add: coll_inv_def coll_gen_def)
  then obtain s1 where s1: "searchSlots c need [deleteSlot need..<MB_MAX] s = Ret None s1" "core s1 = core s" using search_fails_same [OF _ False] by blast
  have full1: "coll_full s1 c L m G N" by (rule coll_full_core [OF s1(2) full])
  note F1 = coll_fullD [OF full1]
  have held1: "ctxHeld s1" "ctx_mbID (bd_ctx s1) = c" using held ctxHeld_core [OF s1(2)] core_eqD(26) [OF s1(2)] by simp_all
  have room1: "canGrow s1" using room core_eqD [OF s1(2)] by (simp add: canGrow_def)
  define n where "n = requestPages s1 need"
  note R = requestPages_bounds [OF F1(4) unit_spaceD(3) [OF F1(3)] need, folded n_def]
  let ?tot = "n * 2 ^ bd_pageSizeSquare s1"
  obtain p k u where u: "allocateExtent env (Suc (Suc fuel)) n True False s1 = Ret (SDB_OK, Some p) u"
    "coll_full u c (L(p := [])) (m ++ map_of (newCells p ?tot)) (G(k := G k @ [p])) N" "p \<notin> set (chainOf G N)"
    "ctxHeld u" "ctx_mbID (bd_ctx u) = c" "\<forall>e\<in>set (chainOf G N). \<forall>o1. bd_record u (RID e o1) = bd_record s1 (RID e o1)"
    "\<exists>s'. mb_deleteList (bd_mb u c) = mb_deleteList (bd_mb (cutExtent c p ?tot s') c) \<and> length (mb_deleteList (bd_mb s' c)) = MB_MAX"
    using allocateExtent_ok [OF full1 held1 os room1 R(1,2), of fuel] by blast
  have rep: "freeRep c u (m ++ map_of (newCells p ?tot))" using coll_fullD(1) [OF u(2)] by (simp add: coll_inv_def coll_gen_def)
  have "72 \<le> ?tot" using block_bytes(1) [OF F1(4) R(1)] R(2) unit_spaceD(3) [OF F1(3)] by simp
  moreover obtain s' where s': "mb_deleteList (bd_mb u c) = mb_deleteList (bd_mb (cutExtent c p ?tot s') c)" "length (mb_deleteList (bd_mb s' c)) = MB_MAX"
    using u(7) by blast
  ultimately obtain r t where tk: "takesCell c need u r t" using new_extent_taken [OF F1(4) need refl R(4,5) _ rep s'] by blast
  have lk: "isMBLockType EXCLUSIVE (bd_ctx u)" "isMBLockType EXCLUSIVE (bd_ctx s)" using u(4) held(1) by (simp_all add: ctxHeld_def)
  have al: "allocRetry env (Suc fuel) need u = Ret (SDB_OK, r) t"
    using alloc_finds [OF lk(1) u(5) tk need(2), of env fuel] ctxLock_held [OF lk(1)] by (simp add: allocRecordSpace_def bindM_def del: allocRetry.simps)
  have "u16 (int n) = n" using R(3) by (simp add: cast_simps)
  moreover have "deleteSlot need < MB_MAX" by (rule deleteSlot_less [OF need(2)])
  ultimately have "allocRetry env (Suc (Suc fuel)) need s = Ret (SDB_OK, r) t"
    using s1(1) u(1) al held(2) by (subst allocRetry.simps) (simp add: Let_def bindM_def getM_def tryM_def retM_def n_def [symmetric] del: allocRetry.simps)
  then have "allocRecordSpace env (Suc (Suc fuel)) need s = Ret (SDB_OK, r) t"
    using ctxLock_held [OF lk(2)] by (simp add: allocRecordSpace_def bindM_def del: allocRetry.simps)
  moreover have "grew s L G N u (L(p := [])) (G(k := G k @ [p]))" using u(3,6) core_eqD(9) [OF s1(2)] by (auto simp: grew_def)
  ultimately show ?thesis using tk u(2,4,5) by blast
qed

section \<open>Inserting\<close>

lemma coll_full_records:
  assumes full: "coll_full u c L m G N" and st: "structView t = structView u" "geometry t = geometry u"
    and inv: "coll_inv t c (set (chainOf G N)) L' m'"
  shows "coll_full t c L' m' G N"
proof -
  note S = structD [OF st(1)]
  have mb: "mb_mbExExtentID (bd_mb t c) = mb_mbExExtentID (bd_mb u c)" using S(11) [of c] by (simp add: mbLinks_def)
  have own: "ownPages t e = ownPages u e" for e by (simp add: ownPages_def S(15))
  have "unit_geometry t = unit_geometry u" using st(2) by (simp add: unit_geometry_def geometry_def)
  then show ?thesis using full extChain_struct [OF st(1) coll_fullD(2) [OF full]] inv
    unfolding coll_full_def mb own S(7,13,14,15) by blast
qed

lemma grew_live:
  assumes "grew s L G N u L' G'" and "coll_full s c L m G N" and "coll_full u c L' m' G' N"
  shows "liveSet (set (chainOf G' N)) L' = liveSet (set (chainOf G N)) L"
    "x \<in> liveSet (set (chainOf G N)) L \<Longrightarrow> bd_record u x = bd_record s x"
proof -
  show "liveSet (set (chainOf G' N)) L' = liveSet (set (chainOf G N)) L"
  proof (cases "G' = G \<and> L' = L")
    case False
    then obtain k p where g: "G' = G(k := G k @ [p])" "L' = L(p := [])" "p \<notin> set (chainOf G N)" using assms(1) by (auto simp: grew_def)
    have "set (chainOf G' N) \<subseteq> insert p (set (chainOf G N))" "set (chainOf G N) \<subseteq> set (chainOf G' N)"
      by (auto simp: g(1) split: if_splits)
    then show ?thesis using g(3) unfolding liveSet_def g(2) by auto
  qed simp
  show "bd_record u x = bd_record s x" if "x \<in> liveSet (set (chainOf G N)) L"
    using that assms(1) by (cases x) (auto simp: liveSet_def grew_def simp del: set_concat)
qed

text \<open>C1: Inserting into a collection of a unit that may still get a segment, when the operating system does not fail: \<open>insertRecord\<close> of every
  well-formed object that is small enough for a record succeeds, however full the collection is; its extents are the ones it had, or these and one new extent at the end
  of the extents of its segment.  Afterwards the unit and the collection are correct again - the free
  lists, the chains of records, the chain of extents, the page bitmap and the segments -, the collection has one record more, with the bytes of
  the object, and the other records have the data they had.\<close>

theorem insert_never_full:
  assumes "coll_full s c L m G N" and "ctxHeld s" and "ctx_mbID (bd_ctx s) = c" and "envOk env" and "canGrow s"
    and "wfFields fs" and "idErr fs = None" and "length (encObj fs) + 33 \<le> DMS_RECORD_USER_MAX_SZ" and "nodesF fs \<le> fuel"
    and "length (in_oid ie) = 12" and "in_allocBuff ie = SDB_OK" and "position < 0"
  shows "\<exists>t r L' m' G'. insertRecord env ie (Suc (Suc fuel)) (encObj fs) mustOID position s = Ret SDB_OK t
    \<and> coll_full t c L' m' G' N \<and> ctxHeld t \<and> ctx_mbID (bd_ctx t) = c
    \<and> (G' = G \<or> (\<exists>k p. G' = G(k := G k @ [p]) \<and> p \<notin> set (concat (map G [0..<N]))))
    \<and> liveSet (set (concat (map G' [0..<N]))) L' = insert r (liveSet (set (concat (map G [0..<N]))) L)
    \<and> r \<notin> liveSet (set (concat (map G [0..<N]))) L
    \<and> take (length (encObj (storedFields (in_oid ie) mustOID fs))) (rec_getData (bd_record t r)) = encObj (storedFields (in_oid ie) mustOID fs)
    \<and> (\<forall>x\<in>liveSet (set (concat (map G [0..<N]))) L. rec_getData (bd_record t x) = rec_getData (bd_record s x))"
proof -
  let ?gs = "storedFields (in_oid ie) mustOID fs"
  let ?need = "finalRecordSize (length (encObj ?gs))"
  have sz: "length (encObj ?gs) + DMS_RECORD_METADATA_SZ \<le> DMS_RECORD_USER_MAX_SZ"
    using storedFields_wf(2) [OF assms(6,10), of mustOID] assms(8) by simp
  then have "int (length (encObj ?gs)) \<le> BSONObjMaxInternalSize" by simp
  note rd = plainRd_ok [OF this]
  have len: "0 < length (encObj ?gs)" by (simp add: encObj_def)
  have plain: "plainData (plainRd (encObj ?gs)) (encObj ?gs)"
    using rd encObj_objsize(2) [of ?gs "[]"] sz by (simp add: plainData_def plainRd_def)
  obtain nm where nm: "prepareInsertData ie (Suc (Suc fuel)) (encObj fs) mustOID = Some (SDB_OK, plainRd (encObj ?gs), nm)"
    using prepare_enc [OF assms(6) _ _ assms(10,11), of "Suc (Suc fuel)" mustOID] assms(7,8,9) by auto
  note need = finalRecordSize_bounds [OF len sz]
  obtain u r s' L1 m1 G' where u: "allocRecordSpace env (Suc (Suc fuel)) ?need s = Ret (SDB_OK, r) s'" "takesCell c ?need u r s'"
    "coll_full u c L1 m1 G' N" "ctxHeld u" "ctx_mbID (bd_ctx u) = c" "grew s L G N u L1 G'"
    using allocRecordSpace_ok [OF assms(1-5) _ need(2), of fuel] need(1) len by fastforce
  let ?E = "set (chainOf G' N)"
  note inv = coll_fullD(1) [OF u(3)] and live = grew_live [OF u(6) assms(1) u(3)]
  have lk: "isMBLockType EXCLUSIVE (bd_ctx u)" using u(4) by (simp add: ctxHeld_def)
  obtain t n where t: "insertRecord env ie (Suc (Suc fuel)) (encObj fs) mustOID position s = Ret SDB_OK t" "m1 r = Some n"
    "coll_inv t c ?E (L1(rid_extent r := L1 (rid_extent r) @ [rid_offset r])) (restCell r ?need n (m1(r := None)))"
    "take (length (encObj ?gs)) (rec_getData (bd_record t r)) = encObj ?gs"
    "\<forall>x\<in>liveSet ?E L1. rec_getData (bd_record t x) = rec_getData (bd_record u x)" "bd_ctx t = bd_ctx u"
    "extentInsertRecord r (plainRd (encObj ?gs)) ?need True s' = Ret SDB_OK t"
    using insert_at [OF inv lk u(5) plain, unfolded rd(1), OF sz u(2,1) nm assms(12)] by auto
  have st: "structView t = structView u" "geometry t = geometry u"
    using keptD [OF struct.kept_extentInsertRecord [OF refl] t(7)] keptD [OF struct.kept_searchSlots [OF refl] u(2) [unfolded takesCell_def]]
      keptD [OF geo.kept_extentInsertRecord [OF refl] t(7)] keptD [OF geo.kept_searchSlots [OF refl] u(2) [unfolded takesCell_def]] by simp_all
  have "coll_full t c (L1(rid_extent r := L1 (rid_extent r) @ [rid_offset r])) (restCell r ?need n (m1(r := None))) G' N"
    by (rule coll_full_records [OF u(3) st t(3)])
  moreover have "ctxHeld t"
    by (subst ctxHeld_mbId [of t u]) (use u(4) t(6) structD(11) [OF st(1)] in \<open>simp_all add: mbLinks_def\<close>)
  moreover have rE: "rid_extent r \<in> ?E" "r \<notin> liveSet ?E L1" using inv t(2) unfolding coll_inv_def coll_gen_def by blast+
  moreover have "liveSet ?E (L1(rid_extent r := L1 (rid_extent r) @ [rid_offset r])) = insert r (liveSet ?E L1)"
    using rE(1) by (cases r) (auto simp: liveSet_def simp del: set_concat)
  moreover have "\<forall>x\<in>liveSet (set (chainOf G N)) L. rec_getData (bd_record t x) = rec_getData (bd_record s x)" using t(5) live by simp
  moreover have "G' = G \<or> (\<exists>k p. G' = G(k := G k @ [p]) \<and> p \<notin> set (chainOf G N))" using u(6) by (auto simp: grew_def)
  ultimately show ?thesis using t(1,4,6) u(5) unfolding live(1) by metis
qed

text \<open>A unit of one segment of 2048 pages of 64 KB, of which page 1 holds the segment table of an empty collection.\<close>

definition growMgr :: dmsSMEMgr where
  "growMgr = snd (smeMgr_init (\<lambda>_. True) 11 2048 (smeMgr_new demoSme))"

definition growUnit :: dmsBlockData where
  "growUnit = (blockData_new ''foo.1.data'' storageInfo_new)\<lparr>bd_smeMgr := growMgr, bd_segmentPagesSquare := 11, bd_segmentPages := 2048,
     bd_pageSizeSquare := 16, bd_pageSize := 65536, bd_header := header_reset\<lparr>hd_pageNum := 2048\<rparr>, bd_maxSegID := 0,
     bd_mmap := demoMmap\<lparr>mm_segs := [\<lparr> seg_ptr = 4096, seg_length = DMS_SEGMENT_SZ, seg_offset = 0 \<rparr>]\<rparr>,
     bd_mb := (\<lambda>_. (mb_reset (Some ''bar'') 1 0 0 0 mb_zero)\<lparr>mb_mbExExtentID := 1\<rparr>), bd_metaExt := (\<lambda>_. mex_init 1 0 65536),
     bd_ctx := ctx_reset\<lparr>ctx_mbID := 0, ctx_clLID := 0, ctx_mbLockType := EXCLUSIVE\<rparr>\<rparr>"

lemma growMgr_ok:
  "mgr_inv 11 growMgr" "smeMgr_segmentNum growMgr = 1" "mgr_free growMgr = clearBits demoSme 2048" "sh_pSME (mgr_shared growMgr) = demoSme"
  by (rule smeMgr_init_ok [of 11 1 demoSme], simp, simp, simp add: growMgr_def)+

lemma growUnit_space: "unit_space growUnit" "usedPages growUnit = {1}"
proof -
  have "tail_clear 11 growMgr" by (simp add: tail_clear_def growMgr_ok demoSme_def)
  then show "unit_space growUnit" using growMgr_ok(1) by (simp add: unit_space_def growUnit_def blockData_new_def growMgr_ok(2) Let_def)
  have "x = 1" if "0 \<le> x" "x < 2048" "x \<notin> int ` {p. p \<noteq> Suc 0 \<and> (p \<noteq> Suc 0 \<longrightarrow> p < 2048)}" for x
  proof (rule ccontr)
    assume "x \<noteq> 1"
    then have "nat x \<in> {p. p \<noteq> Suc 0 \<and> (p \<noteq> Suc 0 \<longrightarrow> p < 2048)}" using that(1,2) by auto
    then have "int (nat x) \<in> int ` {p. p \<noteq> Suc 0 \<and> (p \<noteq> Suc 0 \<longrightarrow> p < 2048)}" by (rule imageI)
    then show False using that(3) unfolding nat_0_le [OF that(1)] by contradiction
  qed
  then show "usedPages growUnit = {1}" by (auto simp: usedPages_def growUnit_def growMgr_ok clearBits_def demoSme_def)
qed

lemma growUnit_full: "coll_full growUnit 0 (\<lambda>_. []) (\<lambda>_. None) (\<lambda>_. []) 65536"
proof -
  have a: "extentAddr growUnit 1 \<noteq> 0" by (rule unit_pages(3) [OF growUnit_space(1)]) (simp_all add: growUnit_space(2), simp add: unit_geometry_def growUnit_def)
  have "freeRep 0 growUnit (\<lambda>_. None)" unfolding freeRep_def
    by (rule exI [of _ "\<lambda>_. []"]) (simp add: free_inv_def freeSet_def freeMapped_def growUnit_def mb_reset_def rid_isNull_def rid_null_def)
  then have "coll_inv growUnit 0 {} (\<lambda>_. []) (\<lambda>_. None)"
    by (simp add: coll_inv_def coll_gen_def liveSet_def layout_def liveCells_def map_add_def)
  moreover have "extChain growUnit 0 (\<lambda>_. []) 65536"
    using a by (simp add: extChain_def growUnit_def mb_reset_def mex_init_def ends_def Let_def comp_def map_replicate_const)
  ultimately show ?thesis using growUnit_space by (simp add: coll_full_def unit_geometry_def) (simp add: growUnit_def)
qed

theorem insert_never_full_witness:
  "\<exists>t r L m G. insertRecord demoOs \<lparr>in_oid = replicate 12 1, in_allocBuff = SDB_OK, in_lastError = 0\<rparr> 10
       (encObj (BCons [97] (Leaf jstNULL []) BNil)) True (- 1) growUnit = Ret SDB_OK t
     \<and> coll_full t 0 L m G 65536 \<and> liveSet (set (concat (map G [0..<65536]))) L = {r}"
proof -
  let ?ie = "\<lparr>in_oid = replicate 12 1, in_allocBuff = SDB_OK, in_lastError = 0\<rparr>" and ?fs = "BCons [97] (Leaf jstNULL []) BNil"
  have fs: "wfFields ?fs" "idErr ?fs = None" "length (encObj ?fs) + 33 \<le> DMS_RECORD_USER_MAX_SZ" "nodesF ?fs \<le> 8"
    by (simp_all add: wfLeaf_def valueSize.simps idErr_def DMS_ID_KEY_NAME_def encObj_def)
  have ctx: "ctxHeld growUnit" "ctx_mbID (bd_ctx growUnit) = 0"
    by (simp_all add: ctxHeld_def growUnit_def isMBLockType_def mbExists_def mbViewOf_def mb_reset_def mb_zero_def DMS_IS_MB_INUSE_def DMS_SET_MB_INUSE_def)
  have room: "canGrow growUnit" by (simp add: canGrow_def growUnit_def growMgr_ok)
  have none: "liveSet (set (concat (map (\<lambda>_. []) [0..<65536]))) (\<lambda>_. []) = {}" by (simp add: liveSet_def)
  have "\<exists>t r L m G. insertRecord demoOs ?ie (Suc (Suc 8)) (encObj ?fs) True (- 1) growUnit = Ret SDB_OK t
      \<and> coll_full t 0 L m G 65536 \<and> liveSet (set (concat (map G [0..<65536]))) L = {r}"
    using insert_never_full [OF growUnit_full ctx demoOs_ok room fs, of ?ie "- 1" True, unfolded none] by fastforce
  moreover have "Suc (Suc 8) = 10" by simp
  ultimately show ?thesis by (simp only:)
qed

end
