(* ===== verification/Dms_Open.thy ===== *)
theory Dms_Open
  imports Dms_Catalog
begin

text \<open>
  Opening a storage unit (\<open>openStorage\<close> with \<open>_onMapMeta\<close> and \<open>_postOpen\<close> in \<open>dmsBlockData.cpp\<close>, \<open>utilBuildFullPath\<close> in \<open>utilStr.cpp\<close>) and the
  unit that owns it (\<open>dmsBlockUnit.cpp\<close>).  The fields of the state that hold file regions are the file's content
  before the unit is opened and the mapped memory afterwards.
\<close>

section \<open>Paths\<close>

definition utilBuildFullPath :: "string \<Rightarrow> string \<Rightarrow> nat \<Rightarrow> (rc \<times> string option)" where
  "utilBuildFullPath path name fullSize =
     (if length path + length name + 2 > fullSize then (SDB_INVALIDARG, None)
      else (SDB_OK, Some (path @ (if path \<noteq> [] \<and> last path \<noteq> CHR ''/'' then ''/'' else []) @ name)))"

text \<open>\<open>_postOpen\<close>: when the file is no storage unit it is moved aside; the answers are those of \<open>ossAccess\<close> and \<open>ossDelete\<close> on
  the new name.  The result is the code passed in and the rename, if one is done.\<close>

definition postOpen :: "string \<Rightarrow> rc \<Rightarrow> rc \<Rightarrow> string \<Rightarrow> rc \<Rightarrow> rc \<times> (string \<times> string) option" where
  "postOpen pid osAccess osDelete fullPathName cause =
     (if cause = SDB_DMS_INVALID_SU \<and> fullPathName \<noteq> []
      then let tmpFile = take (OSS_MAX_PATHSIZE - 1) (fullPathName @ ''.err.'' @ pid)
           in if osAccess = SDB_OK \<and> osDelete \<noteq> SDB_OK then (cause, None) else (cause, Some (fullPathName, tmpFile))
      else (cause, None))"

section \<open>Mapping the file\<close>

text \<open>Go on only after \<open>SDB_OK\<close>.\<close>

definition andThen :: "rc dms \<Rightarrow> rc dms \<Rightarrow> rc dms" where
  "andThen m k = bindM m (\<lambda>rc. if rc \<noteq> SDB_OK then retM rc else k)"

definition mapRegion :: "osEnv \<Rightarrow> nat \<Rightarrow> nat \<Rightarrow> rc dms" where
  "mapRegion env offset len = (\<lambda>s.
     case mmap_map (os_getFileSize env, bd_fileSize s) (os_newOk env) (os_mmap env) offset len (bd_mmap s) of
       (rc, _, mm) \<Rightarrow> Ret rc (s\<lparr>bd_mmap := mm\<rparr>))"

text \<open>One slot of \<open>_onMapMeta\<close>: the statistics are loaded from the metadata block and the collection is entered
  into the maps.\<close>

definition loadMB :: "nat \<Rightarrow> dmsBlockData \<Rightarrow> dmsBlockData" where
  "loadMB i s =
     (let mb = bd_mb s i;
          st = (bd_mbStat s i)\<lparr>st_lastWriteTick := 18446744073709551615\<rparr>
      in if DMS_IS_MB_INUSE (mb_flag mb)
         then (collectionInsert (mb_collectionName mb) i (mb_clUniqueID mb) s)
                \<lparr>bd_mbStat := (bd_mbStat s)(i := st\<lparr>st_totalRecords := mb_totalRecords mb, st_totalDataPages := mb_totalDataPages mb,
                   st_totalDataFreeSpace := mb_totalDataFreeSpace mb, st_totalDataLen := mb_totalDataLen mb,
                   st_totalOrgDataLen := mb_totalOrgDataLen mb, st_startLID := mb_logicalID mb\<rparr>)\<rparr>
         else s\<lparr>bd_mbStat := (bd_mbStat s)(i := st)\<rparr>)"

definition onMapMeta :: "osEnv \<Rightarrow> rc dms" where
  "onMapMeta env = (\<lambda>s.
     andThen (mapRegion env (DMS_HEADER_SZ + DMS_SME_SZ) DMS_MME_SZ)
       (\<lambda>s1. Ret SDB_OK (fold loadMB [0..<DMS_MME_SLOTS] s1)) (s\<lparr>bd_mmeSegID := mmap_segmentSize (bd_mmap s)\<rparr>))"

function mapDataSegs :: "osEnv \<Rightarrow> nat \<Rightarrow> nat \<Rightarrow> rc dms" where
  "mapDataSegs env off fileSize =
     (if off < fileSize
      then andThen (mapRegion env off DMS_SEGMENT_SZ) (mapDataSegs env (off + DMS_SEGMENT_SZ) fileSize)
      else retM SDB_OK)"
  by pat_completeness auto
termination
  by (relation "measure (\<lambda>(env, off, n). n - off)") auto

declare mapDataSegs.simps [simp del]

text \<open>The file is cut to a whole number of segments, then cut or extended to the size in the header; each
  time the size is read again.\<close>

definition fixSegments :: "osEnv \<Rightarrow> rc dms" where
  "fixSegments env = (\<lambda>s.
     if (bd_fileSize s - dataOffset) mod DMS_SEGMENT_SZ \<noteq> 0
     then andThen (truncateFile env ((bd_fileSize s - dataOffset) div DMS_SEGMENT_SZ * DMS_SEGMENT_SZ + dataOffset))
            (retM (os_getFileSize env)) s
     else Ret SDB_OK s)"

definition fixSize :: "osEnv \<Rightarrow> rc dms" where
  "fixSize env = (\<lambda>s.
     let rightSize = hd_storageUnitSize (bd_header s) * bd_pageSize s
     in if bd_fileSize s > rightSize then andThen (truncateFile env rightSize) (retM (os_getFileSize env)) s
        else if bd_fileSize s < rightSize
        then (if os_extend env False \<noteq> SDB_OK then Ret (os_extend env False) s
              else Ret (os_getFileSize env) (s\<lparr>bd_fileSize := rightSize\<rparr>))
        else Ret SDB_OK s)"

definition initSmeMgr :: "osEnv \<Rightarrow> rc dms" where
  "initSmeMgr env = (\<lambda>s.
     case smeMgr_init (\<lambda>_. os_newOk env) (bd_segmentPagesSquare s) (bd_pageNum s) (bd_smeMgr s) of
       (rc, mgr) \<Rightarrow> Ret rc (s\<lparr>bd_smeMgr := mgr\<rparr>))"

definition checkHeader :: "rc dms" where
  "checkHeader = (\<lambda>s. case validateHeader (bd_header s) s of (rc, t) \<Rightarrow> Ret rc t)"

definition finishOpen :: "osEnv \<Rightarrow> rc dms" where
  "finishOpen env = (\<lambda>s.
     case dirtyList_init (os_newOk env) (maxSegmentNum s) (bd_dirtyList s) of
       (rc, d) \<Rightarrow>
         let s1 = s\<lparr>bd_maxSegID := int (mmap_segmentSize (bd_mmap s)) - 1, bd_dirtyList := d\<rparr>
         in if rc \<noteq> SDB_OK then Ret rc s1
            else Ret SDB_OK (s1\<lparr>bd_dirtyList := dirtyList_setSize (mmap_segmentSize (bd_mmap s1) - bd_dataSegID s1) d,
                                bd_isClosed := False\<rparr>))"

definition mapUnit :: "osEnv \<Rightarrow> rc dms" where
  "mapUnit env =
     andThen (mapRegion env 0 DMS_HEADER_SZ)
     (andThen checkHeader
     (andThen (mapRegion env DMS_HEADER_SZ DMS_SME_SZ)
     (andThen (initSmeMgr env)
     (andThen (onMapMeta env)
     (andThen (fixSegments env)
     (andThen (fixSize env) (\<lambda>s.
        let s1 = s\<lparr>bd_dataSegID := mmap_segmentSize (bd_mmap s)\<rparr>
        in andThen (mapDataSegs env dataOffset (bd_fileSize s1)) (finishOpen env) s1)))))))"

section \<open>Opening\<close>

definition openFile :: "suEnv \<Rightarrow> string \<Rightarrow> bool \<Rightarrow> rc dms" where
  "openFile env pPath createNew = (\<lambda>s0.
     let s = (if createNew then s0\<lparr>bd_isCrash := False\<rparr> else s0)
     in case utilBuildFullPath pPath (bd_suFileName s) OSS_MAX_PATHSIZE of
          (rc, full) \<Rightarrow>
            if rc \<noteq> SDB_OK then Ret SDB_INVALIDARG s
            else let path = the full;
                     (rc1, mm) = mmap_open (se_open env) path (bd_mmap s)
                 in Ret rc1 (s\<lparr>bd_fullPathName := path, bd_mmap := mm\<rparr>))"

definition openTry :: "suEnv \<Rightarrow> string \<Rightarrow> bool \<Rightarrow> rc dms" where
  "openTry env pPath createNew =
     andThen (openFile env pPath createNew)
     (andThen (retM (os_getFileSize (se_os env)))
     (andThen (\<lambda>s.
        if bd_fileSize s = 0
        then (if \<not> createNew then Ret SDB_DMS_INVALID_SU s
              else andThen (initializeStorageUnit env) (retM (os_getFileSize (se_os env))) s)
        else Ret SDB_OK s)
     (\<lambda>s. if bd_fileSize s < dataOffset then Ret SDB_DMS_INVALID_SU s else mapUnit (se_os env) s)))"

text \<open>The label \<open>error\<close> closes the file; \<open>_postOpen\<close> renames it without touching the unit.\<close>

definition openStorage :: "suEnv \<Rightarrow> string \<Rightarrow> bool \<Rightarrow> rc dms" where
  "openStorage env pPath createNew =
     bindM (openTry env pPath createNew) (\<lambda>rc s.
       if rc \<noteq> SDB_OK
       then Ret (fst (postOpen (se_pid env) (- 1) SDB_OK (bd_fullPathName s) rc)) (s\<lparr>bd_mmap := mmap_close (bd_mmap s)\<rparr>)
       else Ret SDB_OK s)"

section \<open>The block unit\<close>

definition blockUnit_info :: "string \<Rightarrow> nat \<Rightarrow> nat \<Rightarrow> nat \<Rightarrow> DMS_STORAGE_TYPE \<Rightarrow> dmsStorageInfo" where
  "blockUnit_info pSUName csUniqueID sequence pageSize typ =
     storageInfo_new\<lparr>si_pageSize := (if pageSize = 0 then DMS_PAGE_SIZE64K else pageSize),
       si_suName := take DMS_SU_NAME_SZ pSUName, si_csUniqueID := csUniqueID, si_sequence := sequence, si_type := typ\<rparr>"

text \<open>\<open>open\<close>: the name of the data file is built from the unit's name and its sequence number in decimal, and
  the file is created; a failure removes nothing (\<open>removeStorage\<close> is not implemented).\<close>

definition dataFileName :: "dmsStorageInfo \<Rightarrow> string \<Rightarrow> string" where
  "dataFileName info seqStr = take 141 (si_suName info @ ''.'' @ seqStr @ ''.data'')"

definition removeStorage :: "dmsBlockData \<Rightarrow> rc \<times> dmsBlockData" where
  "removeStorage s = (SDB_OK, s)"

definition blockUnit_open :: "suEnv \<Rightarrow> dmsStorageInfo \<Rightarrow> string \<Rightarrow> string \<Rightarrow> rc outcome" where
  "blockUnit_open env info seqStr pDataPath =
     bindM (openStorage env pDataPath True) (\<lambda>rc s.
       if rc \<noteq> SDB_OK then Ret rc (snd (removeStorage s)) else Ret SDB_OK s)
     (blockData_new (dataFileName info seqStr) info)"

text \<open>\<open>insertRecord\<close> of the unit: without a context of the caller one is taken for the collection and given back.\<close>

definition unitInsertRecord ::
  "osEnv \<Rightarrow> insEnv \<Rightarrow> nat \<Rightarrow> string \<Rightarrow> bytes \<Rightarrow> bool \<Rightarrow> bool \<Rightarrow> int \<Rightarrow> rc dms" where
  "unitInsertRecord env ie fuel pName rcd mustOID hasContext position =
     (if hasContext then insertRecord env ie fuel rcd mustOID position
      else bindM (getMBContextByName (os_newOk env) pName (- 1)) (\<lambda>rc.
           if rc \<noteq> SDB_OK then retM rc
           else bindM (insertRecord env ie fuel rcd mustOID position) (\<lambda>rc1.
                bindM releaseMBContext (\<lambda>_. retM rc1))))"

end
