(* ===== verification/Nova_Containers.thy ===== *)
theory Nova_Containers
  imports Nova_Prelude "HOL-Library.Multiset"
begin

text \<open>
  The associative containers of the C++ library as the process model uses them: \<open>std::map\<close> (and a
  \<open>std::set\<close> of keys) as a list of entries with strictly increasing keys, \<open>std::multimap\<close> as a list with increasing keys
  in which a new entry goes behind the entries with the same key.  Iteration from \<open>begin()\<close> is the order of the list.  The locale
  \<open>key_map\<close> states what a client of a map relies on.
\<close>

section \<open>Maps\<close>

fun smap_set :: "'k::linorder \<Rightarrow> 'v \<Rightarrow> ('k \<times> 'v) list \<Rightarrow> ('k \<times> 'v) list" where
  "smap_set k v [] = [(k, v)]"
| "smap_set k v ((k1, v1) # xs) =
     (if k < k1 then (k, v) # (k1, v1) # xs else if k = k1 then (k, v) # xs else (k1, v1) # smap_set k v xs)"

definition smap_erase :: "'k \<Rightarrow> ('k \<times> 'v) list \<Rightarrow> ('k \<times> 'v) list" where
  "smap_erase k xs = filter (\<lambda>e. fst e \<noteq> k) xs"

definition smap_ok :: "('k::linorder \<times> 'v) list \<Rightarrow> bool" where
  "smap_ok xs \<longleftrightarrow> sorted_wrt (<) (map fst xs)"

lemma smap_ok_Nil [simp]: "smap_ok []"
  by (simp add: smap_ok_def)

lemma smap_ok_Cons [simp]: "smap_ok ((k, v) # xs) \<longleftrightarrow> (\<forall>x\<in>fst ` set xs. k < x) \<and> smap_ok xs"
  by (auto simp: smap_ok_def)

lemma smap_ok_distinct: "smap_ok xs \<Longrightarrow> distinct (map fst xs)"
  by (simp add: smap_ok_def strict_sorted_iff)

lemma smap_set_keys: "fst ` set (smap_set k v xs) = insert k (fst ` set xs)"
  by (induction k v xs rule: smap_set.induct) auto

lemma smap_set_ok: "smap_ok xs \<Longrightarrow> smap_ok (smap_set k v xs)"
  by (induction k v xs rule: smap_set.induct) (auto simp: smap_set_keys)

lemma smap_set_find: "smap_ok xs \<Longrightarrow> map_of (smap_set k v xs) = (map_of xs)(k \<mapsto> v)"
  by (induction k v xs rule: smap_set.induct) (auto simp: fun_eq_iff)

lemma smap_erase_ok: "smap_ok xs \<Longrightarrow> smap_ok (smap_erase k xs)"
  unfolding smap_ok_def smap_erase_def by (induction xs) auto

lemma smap_erase_find: "map_of (smap_erase k xs) = (map_of xs)(k := None)"
  by (induction xs) (auto simp: smap_erase_def fun_eq_iff)

lemma smap_erase_set: "set (smap_erase k xs) = {e \<in> set xs. fst e \<noteq> k}"
  by (auto simp: smap_erase_def)

lemma smap_member: "smap_ok xs \<Longrightarrow> (k, v) \<in> set xs \<longleftrightarrow> map_of xs k = Some v"
  using smap_ok_distinct [of xs] by (auto dest: map_of_SomeD)

lemma smap_size: "smap_ok xs \<Longrightarrow> length xs = card (dom (map_of xs))"
  using distinct_card [OF smap_ok_distinct, of xs] by (simp add: dom_map_of_conv_image_fst)

text \<open>Replacing or adding an entry, as a multiset of entries.\<close>

lemma smap_set_mset:
  "smap_ok xs \<Longrightarrow> map_of xs k = None \<Longrightarrow> mset (smap_set k v xs) = add_mset (k, v) (mset xs)"
  by (induction k v xs rule: smap_set.induct) (auto split: if_splits)

lemma smap_erase_mset:
  assumes "smap_ok xs" and "map_of xs k = Some v"
  shows "mset xs = add_mset (k, v) (mset (smap_erase k xs))"
  using assms
proof (induction xs)
  case (Cons e xs)
  obtain k1 v1 where e: "e = (k1, v1)" by (cases e)
  show ?case
  proof (cases "k = k1")
    case True
    then have "k \<notin> fst ` set xs" using Cons.prems by (auto simp: e)
    then have "smap_erase k xs = xs" by (auto simp: smap_erase_def filter_id_conv)
    then show ?thesis using True Cons.prems by (auto simp: e smap_erase_def)
  next
    case False
    then show ?thesis using Cons by (auto simp: e smap_erase_def)
  qed
qed simp

text \<open>What a client of a map relies on.\<close>

locale key_map =
  fixes ok :: "'m \<Rightarrow> bool" and find :: "'m \<Rightarrow> 'k \<Rightarrow> 'v option" and put :: "'k \<Rightarrow> 'v \<Rightarrow> 'm \<Rightarrow> 'm" and del :: "'k \<Rightarrow> 'm \<Rightarrow> 'm"
    and count :: "'m \<Rightarrow> nat"
  assumes put_ok: "ok m \<Longrightarrow> ok (put k v m)" and del_ok: "ok m \<Longrightarrow> ok (del k m)"
    and find_put: "ok m \<Longrightarrow> find (put k v m) = (find m)(k \<mapsto> v)" and find_del: "ok m \<Longrightarrow> find (del k m) = (find m)(k := None)"
    and count_dom: "ok m \<Longrightarrow> finite (dom (find m)) \<and> count m = card (dom (find m))"
begin

lemma find_put_same [simp]: "ok m \<Longrightarrow> find (put k v m) k = Some v"
  by (simp add: find_put)

lemma dom_put: "ok m \<Longrightarrow> dom (find (put k v m)) = insert k (dom (find m))"
  by (simp add: find_put)

lemma dom_del: "ok m \<Longrightarrow> dom (find (del k m)) = dom (find m) - {k}"
  by (auto simp: find_del split: if_splits)

lemma count_put: "ok m \<Longrightarrow> find m k = None \<Longrightarrow> count (put k v m) = Suc (count m)"
  using count_dom [of m] count_dom [OF put_ok, of m k v] by (simp add: dom_put domIff)

lemma count_del: "ok m \<Longrightarrow> find m k = Some v \<Longrightarrow> Suc (count (del k m)) = count m"
proof -
  assume "ok m" and k: "find m k = Some v"
  then have "Suc (card (dom (find m) - {k})) = card (dom (find m))" using count_dom [of m] by (intro card_Suc_Diff1) auto
  then show ?thesis using count_dom [OF \<open>ok m\<close>] count_dom [OF del_ok [OF \<open>ok m\<close>], of k] by (simp only: dom_del [OF \<open>ok m\<close>])
qed

text \<open>An entry that moves from one map to another keeps the two key sets disjoint and the number of entries.\<close>

lemma move:
  assumes "ok a" and "ok b" and "dom (find a) \<inter> dom (find b) = {}" and "find a k = Some v"
  shows "dom (find (del k a)) \<inter> dom (find (put k w b)) = {}"
    and "dom (find (del k a)) \<union> dom (find (put k w b)) = dom (find a) \<union> dom (find b)"
    and "count (del k a) + count (put k w b) = count a + count b"
proof -
  have k: "find b k = None" using assms(3,4) by (cases "find b k") auto
  show "dom (find (del k a)) \<inter> dom (find (put k w b)) = {}" "dom (find (del k a)) \<union> dom (find (put k w b)) = dom (find a) \<union> dom (find b)"
    using assms(3,4) by (auto simp: dom_del [OF assms(1)] dom_put [OF assms(2)])
  show "count (del k a) + count (put k w b) = count a + count b"
    using count_del [OF assms(1,4)] count_put [OF assms(2) k, of w] by simp
qed

end

interpretation sm: key_map smap_ok map_of smap_set smap_erase length
  by unfold_locales (simp_all add: smap_set_ok smap_erase_ok smap_set_find smap_erase_find smap_size finite_dom_map_of)

section \<open>Multimaps\<close>

fun multi_insert :: "'k::linorder \<Rightarrow> 'v \<Rightarrow> ('k \<times> 'v) list \<Rightarrow> ('k \<times> 'v) list" where
  "multi_insert k v [] = [(k, v)]"
| "multi_insert k v ((k1, v1) # xs) = (if k < k1 then (k, v) # (k1, v1) # xs else (k1, v1) # multi_insert k v xs)"

text \<open>\<open>lower_bound\<close> and \<open>erase\<close> of the entry found.\<close>

definition multi_take :: "'k::linorder \<Rightarrow> ('k \<times> 'v) list \<Rightarrow> (('k \<times> 'v) \<times> ('k \<times> 'v) list) option" where
  "multi_take k xs =
     (case dropWhile (\<lambda>e. fst e < k) xs of [] \<Rightarrow> None | e # ys \<Rightarrow> Some (e, takeWhile (\<lambda>e. fst e < k) xs @ ys))"

lemma multi_insert_mset [simp]: "mset (multi_insert k v xs) = add_mset (k, v) (mset xs)"
  by (induction k v xs rule: multi_insert.induct) auto

lemma multi_insert_set [simp]: "set (multi_insert k v xs) = insert (k, v) (set xs)"
  by (induction k v xs rule: multi_insert.induct) auto

lemma multi_insert_sorted: "sorted (map fst xs) \<Longrightarrow> sorted (map fst (multi_insert k v xs))"
  by (induction k v xs rule: multi_insert.induct) auto

lemma multi_take_Some:
  assumes "multi_take k xs = Some (e, rest)" and "sorted (map fst xs)"
  shows "k \<le> fst e" "mset xs = add_mset e (mset rest)" "sorted (map fst rest)" "\<forall>x\<in>set xs. k \<le> fst x \<longrightarrow> fst e \<le> fst x"
proof -
  let ?P = "\<lambda>e. fst e < k"
  obtain ys where d: "dropWhile ?P xs = e # ys" "rest = takeWhile ?P xs @ ys"
    using assms(1) by (auto simp: multi_take_def split: list.splits)
  have xs: "xs = takeWhile ?P xs @ e # ys" using takeWhile_dropWhile_id [of ?P xs] d(1) by simp
  show k: "k \<le> fst e" using hd_dropWhile [of ?P xs] d(1) by (simp add: not_less)
  show "mset xs = add_mset e (mset rest)" by (subst xs) (simp add: d(2))
  have s: "sorted (map fst (takeWhile ?P xs @ e # ys))" using assms(2) xs by simp
  then show "sorted (map fst rest)" by (auto simp: d(2) sorted_append)
  show "\<forall>x\<in>set xs. k \<le> fst x \<longrightarrow> fst e \<le> fst x"
  proof (intro ballI impI)
    fix x assume "x \<in> set xs" and x: "k \<le> fst x"
    then have "x \<in> set (takeWhile ?P xs) \<or> x = e \<or> x \<in> set ys" by (subst (asm) xs) auto
    then show "fst e \<le> fst x" using s x set_takeWhileD [of x ?P xs] by (auto simp: sorted_append)
  qed
qed

lemma multi_take_None: "multi_take k xs = None \<longleftrightarrow> (\<forall>x\<in>set xs. fst x < k)"
proof -
  have "multi_take k xs = None \<longleftrightarrow> dropWhile (\<lambda>e. fst e < k) xs = []" unfolding multi_take_def
    by (cases "dropWhile (\<lambda>e. fst e < k) xs") (simp_all only: list.case option.distinct simp_thms list.distinct)
  then show ?thesis by (simp only: dropWhile_eq_Nil_conv)
qed

end
