(* ===== verification/Pmd_EDU.thy ===== *)
theory Pmd_EDU
  imports Nova_Containers
begin

text \<open>
  The control block of an engine dispatchable unit (\<open>_pmdEDUCB\<close>, \<open>src/src/pmd/pmdEDU.cpp\<close>): its event queue with the two
  \<open>waitEvent\<close>, its control flags, and its buffer manager, which keeps released buffers in a cache (\<open>_catchMap\<close>) of at
  most 16 MB.  The memory functions of \<open>src/src/oss/ossMem.c\<close> act on a heap that records which blocks are
  live, and whether a block that is not live was ever freed; the address that the operating system returns is an argument.
\<close>

section \<open>Memory\<close>

record ossHeap =
  hp_live :: "nat \<Rightarrow> nat option"
  hp_bad :: bool

text \<open>Allocation, with memory debugging switched off; \<open>p\<close> is the address the system returns, 0 when it has none.\<close>

definition ossMemAlloc :: "nat \<Rightarrow> nat \<Rightarrow> ossHeap \<Rightarrow> nat \<times> ossHeap" where
  "ossMemAlloc p n h = (if n = 0 \<or> p = 0 then (0, h) else (p, h\<lparr>hp_live := (hp_live h)(p \<mapsto> n)\<rparr>))"

definition ossMemFree :: "nat \<Rightarrow> ossHeap \<Rightarrow> ossHeap" where
  "ossMemFree p h =
     (if p = 0 then h
      else if hp_live h p = None then h\<lparr>hp_bad := True\<rparr>
      else h\<lparr>hp_live := (hp_live h)(p := None)\<rparr>)"

definition ossMemRealloc :: "nat \<Rightarrow> nat \<Rightarrow> nat \<Rightarrow> ossHeap \<Rightarrow> nat \<times> ossHeap" where
  "ossMemRealloc pOld p n h =
     (if n = 0 \<or> p = 0 then (0, h)
      else let h1 = ossMemFree pOld h in (p, h1\<lparr>hp_live := (hp_live h1)(p \<mapsto> n)\<rparr>))"

text \<open>The macro \<open>ossRoundUpToMultipleX\<close> on \<open>UINT32\<close> operands.\<close>

definition ossRoundUpToMultipleX :: "nat \<Rightarrow> nat \<Rightarrow> nat" where
  "ossRoundUpToMultipleX x y = (let t = u32 (int x + (int y - 1)) in t - t mod y)"

section \<open>Events and the control block\<close>

datatype pmdEDUEventTypes =
  PMD_EDU_EVENT_NONE | PMD_EDU_EVENT_TERM | PMD_EDU_EVENT_RESUME | PMD_EDU_EVENT_MSG | PMD_EDU_EVENT_TIMEOUT | PMD_EDU_EVENT_MAX

datatype pmdEDUMemTypes = PMD_EDU_MEM_NONE | PMD_EDU_MEM_ALLOC | PMD_EDU_MEM_SELF

record pmdEDUEvent =
  ev_eventType :: pmdEDUEventTypes
  ev_dataMemType :: pmdEDUMemTypes
  ev_Data :: nat
  ev_userData :: "64 word"

definition event_new :: "pmdEDUEventTypes \<Rightarrow> pmdEDUMemTypes \<Rightarrow> nat \<Rightarrow> 64 word \<Rightarrow> pmdEDUEvent" where
  "event_new ty memType dat usr = \<lparr> ev_eventType = ty, ev_dataMemType = memType, ev_Data = dat, ev_userData = usr \<rparr>"

datatype PMD_EDU_STATUS = PMD_EDU_CREATING | PMD_EDU_RUNNING | PMD_EDU_WAITING | PMD_EDU_IDLE | PMD_EDU_UNKNOW

definition pmdGetEDUStatusDesp :: "PMD_EDU_STATUS \<Rightarrow> string" where
  "pmdGetEDUStatusDesp st =
     (case st of PMD_EDU_CREATING \<Rightarrow> ''Creating'' | PMD_EDU_RUNNING \<Rightarrow> ''Running'' | PMD_EDU_WAITING \<Rightarrow> ''Waiting''
      | PMD_EDU_IDLE \<Rightarrow> ''Idle'' | PMD_EDU_UNKNOW \<Rightarrow> ''Unknown'')"

text \<open>
  A buffer is its address; \<open>cb_catchMap\<close> maps lengths to buffers, \<open>cb_allocMap\<close> buffers to lengths.  The two totals are
  \<open>INT64\<close> and hold sums of 32-bit lengths.
\<close>

record pmdEDUCB =
  cb_queue :: "pmdEDUEvent list"
  cb_status :: PMD_EDU_STATUS
  cb_eduType :: int
  cb_isLocked :: bool
  cb_catchMap :: "(nat \<times> nat) list"
  cb_allocMap :: "(nat \<times> nat) list"
  cb_totalCatchSize :: int
  cb_totalMemSize :: int
  cb_pErrorBuff :: "string option"
  cb_threadHdl :: nat
  cb_threadID :: nat
  cb_name :: string
  cb_eduID :: "64 word"
  cb_tid :: nat
  cb_pSession :: "nat option"
  cb_processEventCount :: "64 word"
  cb_ctrlFlag :: "32 word"
  cb_alignedMem :: nat
  cb_alignedMemSize :: nat

abbreviation (input) PMD_INVALID_EDUID :: "64 word" where "PMD_INVALID_EDUID \<equiv> 0"
abbreviation (input) PMD_EDU_NAME_LENGTH :: nat where "PMD_EDU_NAME_LENGTH \<equiv> 512"
abbreviation (input) PMD_EDU_ERROR_BUFF_SIZE :: nat where "PMD_EDU_ERROR_BUFF_SIZE \<equiv> 1024"
abbreviation (input) EDU_MEM_ALIGMENT_SIZE :: nat where "EDU_MEM_ALIGMENT_SIZE \<equiv> 1024"
abbreviation (input) EDU_MAX_CATCH_SIZE :: nat where "EDU_MAX_CATCH_SIZE \<equiv> 16777216"
abbreviation (input) PMD_EDU_CTRL_INTERRUPTED :: "32 word" where "PMD_EDU_CTRL_INTERRUPTED \<equiv> 1"
abbreviation (input) PMD_EDU_CTRL_DISCONNECTED :: "32 word" where "PMD_EDU_CTRL_DISCONNECTED \<equiv> 2"
abbreviation (input) PMD_EDU_CTRL_FORCED :: "32 word" where "PMD_EDU_CTRL_FORCED \<equiv> 4"
abbreviation (input) OSS_ONE_SEC :: int where "OSS_ONE_SEC \<equiv> 1000"

definition educb_new :: "bool \<Rightarrow> int \<Rightarrow> pmdEDUCB" where
  "educb_new errBuffOk ty =
     \<lparr> cb_queue = [], cb_status = PMD_EDU_UNKNOW, cb_eduType = ty, cb_isLocked = False, cb_catchMap = [], cb_allocMap = [],
       cb_totalCatchSize = 0, cb_totalMemSize = 0, cb_pErrorBuff = (if errBuffOk then Some [] else None),
       cb_threadHdl = 0, cb_threadID = 0, cb_name = [], cb_eduID = PMD_INVALID_EDUID, cb_tid = 0, cb_pSession = None,
       cb_processEventCount = 0, cb_ctrlFlag = 0, cb_alignedMem = 0, cb_alignedMemSize = 0 \<rparr>"

section \<open>Buffers\<close>

type_synonym eduMem = "pmdEDUCB \<times> ossHeap"

text \<open>The loop that trims the cache, smallest buffers first; an empty cache with a positive total would be read past its end.\<close>

function trimCatch :: "pmdEDUCB \<Rightarrow> ossHeap \<Rightarrow> eduMem" where
  "trimCatch cb h =
     (if cb_totalCatchSize cb > int EDU_MAX_CATCH_SIZE
      then (case cb_catchMap cb of
              [] \<Rightarrow> (cb, h\<lparr>hp_bad := True\<rparr>)
            | (n, p) # rest \<Rightarrow>
                trimCatch (cb\<lparr>cb_totalMemSize := cb_totalMemSize cb - int n, cb_totalCatchSize := cb_totalCatchSize cb - int n,
                              cb_catchMap := rest\<rparr>) (ossMemFree p h))
      else (cb, h))"
  by pat_completeness auto
termination
  by (relation "measure (\<lambda>(cb, h). length (cb_catchMap cb))") auto

declare trimCatch.simps [simp del]

definition releaseBuff :: "nat \<Rightarrow> eduMem \<Rightarrow> eduMem" where
  "releaseBuff pBuff = (\<lambda>(cb, h).
     case map_of (cb_allocMap cb) pBuff of
       None \<Rightarrow> (cb, ossMemFree pBuff h)
     | Some n \<Rightarrow>
         let buffLen = s32 (int n); cb1 = cb\<lparr>cb_allocMap := smap_erase pBuff (cb_allocMap cb)\<rparr>
         in if u32 buffLen > EDU_MAX_CATCH_SIZE
            then (cb1\<lparr>cb_totalMemSize := cb_totalMemSize cb1 - buffLen\<rparr>, ossMemFree pBuff h)
            else trimCatch (cb1\<lparr>cb_catchMap := multi_insert (u32 buffLen) pBuff (cb_catchMap cb1),
                                cb_totalCatchSize := cb_totalCatchSize cb1 + buffLen\<rparr>) h)"

definition allocFromCatch :: "nat \<Rightarrow> pmdEDUCB \<Rightarrow> (nat \<times> nat \<times> pmdEDUCB) option" where
  "allocFromCatch len cb =
     (case multi_take len (cb_catchMap cb) of
        None \<Rightarrow> None
      | Some ((tmpLen, p), rest) \<Rightarrow>
          Some (p, tmpLen, cb\<lparr>cb_catchMap := rest, cb_allocMap := smap_set p tmpLen (cb_allocMap cb),
                              cb_totalCatchSize := cb_totalCatchSize cb - int tmpLen\<rparr>))"

text \<open>The result: the return code, \<open>*ppBuff\<close>, what is stored at \<open>*pRealSize\<close> (\<open>None\<close>: nothing), the new state.\<close>

definition allocBuff :: "nat \<Rightarrow> nat \<Rightarrow> eduMem \<Rightarrow> rc \<times> nat \<times> nat option \<times> eduMem" where
  "allocBuff os len = (\<lambda>(cb, h).
     case (if cb_totalCatchSize cb \<ge> int len then allocFromCatch len cb else None) of
       Some (p, n, cb1) \<Rightarrow> (SDB_OK, p, Some n, cb1, h)
     | None \<Rightarrow>
         let len1 = ossRoundUpToMultipleX len EDU_MEM_ALIGMENT_SIZE; (p, h1) = ossMemAlloc os len1 h
         in if p = 0 then (SDB_OOM, 0, None, cb, h1)
            else (SDB_OK, p, Some len1, cb\<lparr>cb_totalMemSize := cb_totalMemSize cb + int len1,
                                            cb_allocMap := smap_set p len1 (cb_allocMap cb)\<rparr>, h1))"

definition reallocFail :: "rc \<Rightarrow> nat \<Rightarrow> nat \<Rightarrow> nat option \<Rightarrow> eduMem \<Rightarrow> rc \<times> nat \<times> nat option \<times> eduMem" where
  "reallocFail rc pOld pBuff realSize m =
     (if pOld \<noteq> 0 then (rc, 0, Some 0, releaseBuff pOld m) else (rc, pBuff, realSize, m))"

definition reallocBuff :: "nat \<Rightarrow> nat \<Rightarrow> nat \<Rightarrow> eduMem \<Rightarrow> rc \<times> nat \<times> nat option \<times> eduMem" where
  "reallocBuff os len pOld = (\<lambda>(cb, h).
     let old = map_of (cb_allocMap cb) pOld; oldLen = (case old of Some n \<Rightarrow> n | None \<Rightarrow> 0)
     in if old = None \<and> pOld \<noteq> 0 then reallocFail SDB_SYS pOld pOld None (cb, h)
        else if oldLen \<ge> len then (SDB_OK, pOld, old, cb, h)
        else let len1 = ossRoundUpToMultipleX len EDU_MEM_ALIGMENT_SIZE; (p, h1) = ossMemRealloc pOld os len1 h
             in if p = 0 then reallocFail SDB_OOM pOld 0 old (cb, h1)
                else let m1 = (if pOld \<noteq> p then smap_erase pOld (cb_allocMap cb) else cb_allocMap cb)
                     in (SDB_OK, p, Some len1,
                         cb\<lparr>cb_totalMemSize := cb_totalMemSize cb + int (u32 (int len1 - int oldLen)),
                            cb_allocMap := smap_set p len1 m1\<rparr>, h1))"

definition releaseAlignedBuff :: "eduMem \<Rightarrow> eduMem" where
  "releaseAlignedBuff = (\<lambda>(cb, h).
     if cb_alignedMem cb \<noteq> 0 then (cb\<lparr>cb_alignedMem := 0, cb_alignedMemSize := 0\<rparr>, ossMemFree (cb_alignedMem cb) h)
     else (cb, h))"

definition getAlignedBuff :: "nat \<Rightarrow> nat \<Rightarrow> nat \<Rightarrow> eduMem \<Rightarrow> nat \<times> nat \<times> eduMem" where
  "getAlignedBuff os sz alignment = (\<lambda>(cb, h).
     let (cb2, h2) =
       (if cb_alignedMemSize cb < sz
        then let (cb1, h1) = releaseAlignedBuff (cb, h);
                 sz1 = ossRoundUpToMultipleX sz alignment
             in if os \<noteq> 0 then (cb1\<lparr>cb_alignedMem := os, cb_alignedMemSize := sz1\<rparr>, h1\<lparr>hp_live := (hp_live h1)(os \<mapsto> sz1)\<rparr>)
                else (cb1\<lparr>cb_alignedMem := 0\<rparr>, h1)
        else (cb, h))
     in (cb_alignedMem cb2, cb_alignedMemSize cb2, cb2, h2))"

text \<open>Handing the cache over to and taking it from another owner.\<close>

definition restoreBuffs :: "(nat \<times> nat) list \<Rightarrow> pmdEDUCB \<Rightarrow> pmdEDUCB" where
  "restoreBuffs catchMap cb =
     fold (\<lambda>(n, p) cb. cb\<lparr>cb_catchMap := multi_insert n p (cb_catchMap cb), cb_totalCatchSize := cb_totalCatchSize cb + int n,
                          cb_totalMemSize := cb_totalMemSize cb + int n\<rparr>) catchMap cb"

definition saveBuffs :: "(nat \<times> nat) list \<Rightarrow> eduMem \<Rightarrow> (nat \<times> nat) list \<times> eduMem" where
  "saveBuffs catchMap = (\<lambda>(cb, h).
     let (cb1, h1) = fold releaseBuff (map fst (cb_allocMap cb)) (cb, h);
         cb2 = cb1\<lparr>cb_allocMap := []\<rparr>;
         n = (\<Sum>e\<leftarrow>cb_catchMap cb2. int (fst e))
     in (fold (\<lambda>(n, p). multi_insert n p) (cb_catchMap cb2) catchMap,
         cb2\<lparr>cb_catchMap := [], cb_totalCatchSize := cb_totalCatchSize cb2 - n, cb_totalMemSize := cb_totalMemSize cb2 - n\<rparr>, h1))"

definition pmdEduEventRelase :: "pmdEDUEvent \<Rightarrow> eduMem \<Rightarrow> eduMem" where
  "pmdEduEventRelase ev m =
     (if ev_Data ev \<noteq> 0 \<and> ev_dataMemType ev \<noteq> PMD_EDU_MEM_NONE
      then (if ev_dataMemType ev = PMD_EDU_MEM_ALLOC then (fst m, ossMemFree (ev_Data ev) (snd m))
            else releaseBuff (ev_Data ev) m)
      else m)"

definition freeCatch :: "eduMem \<Rightarrow> eduMem" where
  "freeCatch = (\<lambda>(cb, h).
     let n = (\<Sum>e\<leftarrow>cb_catchMap cb. int (fst e))
     in (cb\<lparr>cb_catchMap := [], cb_totalCatchSize := cb_totalCatchSize cb - n, cb_totalMemSize := cb_totalMemSize cb - n\<rparr>,
         fold ossMemFree (map snd (cb_catchMap cb)) h))"

definition freeAlloc :: "eduMem \<Rightarrow> eduMem" where
  "freeAlloc = (\<lambda>(cb, h).
     (cb\<lparr>cb_allocMap := [], cb_totalMemSize := cb_totalMemSize cb - (\<Sum>e\<leftarrow>cb_allocMap cb. int (snd e))\<rparr>,
      fold ossMemFree (map fst (cb_allocMap cb)) h))"

definition educb_clear :: "eduMem \<Rightarrow> eduMem" where
  "educb_clear m =
     (let (cb, h) = fold pmdEduEventRelase (cb_queue (fst m)) m;
          cb1 = cb\<lparr>cb_queue := [], cb_processEventCount := 0, cb_name := [], cb_isLocked := False, cb_ctrlFlag := 0\<rparr>
      in freeAlloc (freeCatch (releaseAlignedBuff (cb1, h))))"

section \<open>Control\<close>

definition attachSession :: "nat \<Rightarrow> pmdEDUCB \<Rightarrow> pmdEDUCB" where
  "attachSession p cb = cb\<lparr>cb_pSession := Some p\<rparr>"

definition detachSession :: "pmdEDUCB \<Rightarrow> pmdEDUCB" where
  "detachSession cb = cb\<lparr>cb_pSession := None\<rparr>"

definition setName :: "string \<Rightarrow> pmdEDUCB \<Rightarrow> pmdEDUCB" where
  "setName nm cb = cb\<lparr>cb_name := take PMD_EDU_NAME_LENGTH nm\<rparr>"

definition postEvent :: "pmdEDUEvent \<Rightarrow> pmdEDUCB \<Rightarrow> pmdEDUCB" where
  "postEvent ev cb = cb\<lparr>cb_queue := cb_queue cb @ [ev]\<rparr>"

definition educb_interrupt :: "pmdEDUCB \<Rightarrow> pmdEDUCB" where
  "educb_interrupt cb = cb\<lparr>cb_ctrlFlag := cb_ctrlFlag cb OR PMD_EDU_CTRL_INTERRUPTED\<rparr>"

definition educb_disconnect :: "pmdEDUCB \<Rightarrow> pmdEDUCB" where
  "educb_disconnect cb =
     (let cb1 = educb_interrupt cb; cb2 = cb1\<lparr>cb_ctrlFlag := cb_ctrlFlag cb1 OR PMD_EDU_CTRL_DISCONNECTED\<rparr>
      in postEvent (event_new PMD_EDU_EVENT_TERM PMD_EDU_MEM_NONE 0 0) cb2)"

definition educb_force :: "pmdEDUCB \<Rightarrow> pmdEDUCB" where
  "educb_force cb = (let cb1 = educb_disconnect cb in cb1\<lparr>cb_ctrlFlag := cb_ctrlFlag cb1 OR PMD_EDU_CTRL_FORCED\<rparr>)"

definition resetInterrupt :: "pmdEDUCB \<Rightarrow> pmdEDUCB" where
  "resetInterrupt cb = cb\<lparr>cb_ctrlFlag := cb_ctrlFlag cb AND NOT PMD_EDU_CTRL_INTERRUPTED\<rparr>"

definition resetDisconnect :: "pmdEDUCB \<Rightarrow> pmdEDUCB" where
  "resetDisconnect cb = (let cb1 = resetInterrupt cb in cb1\<lparr>cb_ctrlFlag := cb_ctrlFlag cb1 AND NOT PMD_EDU_CTRL_DISCONNECTED\<rparr>)"

text \<open>What the session's client shows: none, or whether it is closed and whether it is interrupted.\<close>

datatype clientView = NoClient | Client (cl_closed: bool) (cl_interrupted: bool)

definition isInterrupted :: "clientView \<Rightarrow> pmdEDUCB \<Rightarrow> bool \<times> pmdEDUCB" where
  "isInterrupted client cb =
     (if cb_ctrlFlag cb AND PMD_EDU_CTRL_INTERRUPTED \<noteq> 0 then (True, cb)
      else if cb_pSession cb \<noteq> None
      then (case client of
              NoClient \<Rightarrow> (False, cb)
            | Client closed intr \<Rightarrow>
                if closed then (True, cb\<lparr>cb_ctrlFlag := cb_ctrlFlag cb OR (PMD_EDU_CTRL_INTERRUPTED OR PMD_EDU_CTRL_DISCONNECTED)\<rparr>)
                else if intr then (True, cb\<lparr>cb_ctrlFlag := cb_ctrlFlag cb OR PMD_EDU_CTRL_INTERRUPTED\<rparr>)
                else (False, cb))
      else (False, cb))"

definition isDisconnected :: "pmdEDUCB \<Rightarrow> bool" where
  "isDisconnected cb \<longleftrightarrow> cb_ctrlFlag cb AND PMD_EDU_CTRL_DISCONNECTED \<noteq> 0"

definition isForced :: "pmdEDUCB \<Rightarrow> bool" where
  "isForced cb \<longleftrightarrow> cb_ctrlFlag cb AND PMD_EDU_CTRL_FORCED \<noteq> 0"

definition incEventCount :: "nat \<Rightarrow> pmdEDUCB \<Rightarrow> pmdEDUCB" where
  "incEventCount step cb = cb\<lparr>cb_processEventCount := cb_processEventCount cb + of_nat step\<rparr>"

definition getQueSize :: "pmdEDUCB \<Rightarrow> nat" where
  "getQueSize cb = u32 (int (length (cb_queue cb)))"

text \<open>The error text: it is written once and kept until it is reset; \<open>txt\<close> is the formatted message.\<close>

definition getInfo :: "pmdEDUCB \<Rightarrow> string option" where
  "getInfo cb = (case cb_pErrorBuff cb of Some (c # cs) \<Rightarrow> Some (c # cs) | _ \<Rightarrow> None)"

definition printInfo :: "string \<Rightarrow> pmdEDUCB \<Rightarrow> rc \<times> pmdEDUCB" where
  "printInfo txt cb =
     (if getInfo cb \<noteq> None then (SDB_OK, cb)
      else if cb_pErrorBuff cb = None then (SDB_INVALIDARG, cb)
      else (SDB_OK, cb\<lparr>cb_pErrorBuff := Some (take (PMD_EDU_ERROR_BUFF_SIZE - 1) txt)\<rparr>))"

definition resetInfo :: "pmdEDUCB \<Rightarrow> pmdEDUCB" where
  "resetInfo cb = (if cb_pErrorBuff cb \<noteq> None then cb\<lparr>cb_pErrorBuff := Some []\<rparr> else cb)"

definition resetForLoopOnce :: "pmdEDUCB \<Rightarrow> pmdEDUCB" where
  "resetForLoopOnce cb = resetInfo (resetInterrupt cb)"

section \<open>Waiting for events\<close>

text \<open>
  One wait: \<open>arr\<close> are the events that other threads post while it waits.  A wait without a limit on a queue that stays empty does
  not return (\<open>None\<close>); a timed wait returns without an event.
\<close>

definition waitEvent :: "pmdEDUEvent list \<Rightarrow> int \<Rightarrow> bool \<Rightarrow> pmdEDUCB \<Rightarrow> (pmdEDUEvent option \<times> pmdEDUCB) option" where
  "waitEvent arr millsec resetStat cb =
     (let cb1 = (if resetStat \<and> cb_status cb \<noteq> PMD_EDU_IDLE then cb\<lparr>cb_status := PMD_EDU_WAITING\<rparr> else cb)
      in case cb_queue cb1 @ arr of
           [] \<Rightarrow> if millsec < 0 then None else Some (None, cb1)
         | ev # rest \<Rightarrow>
             let cb2 = cb1\<lparr>cb_queue := rest, cb_processEventCount := cb_processEventCount cb1 + 1\<rparr>;
                 cb3 = (if ev_eventType ev = PMD_EDU_EVENT_TERM
                        then cb2\<lparr>cb_ctrlFlag := cb_ctrlFlag cb2 OR (PMD_EDU_CTRL_DISCONNECTED OR PMD_EDU_CTRL_INTERRUPTED)\<rparr>
                        else if resetStat then cb2\<lparr>cb_status := PMD_EDU_RUNNING\<rparr> else cb2)
             in Some (Some ev, cb3))"

text \<open>
  The loop that waits for an event of one type: \<open>arrs\<close> are the events posted during each round, \<open>tmp\<close> the events set
  aside.  One round ends the loop (\<open>Inl\<close>) or goes on; the time left goes down with every round that finds no event.
\<close>

type_synonym waitState = "pmdEDUEvent list list \<times> int \<times> pmdEDUEvent list \<times> pmdEDUCB"

definition waitRound :: "pmdEDUEventTypes \<Rightarrow> clientView \<Rightarrow> bool \<Rightarrow> waitState \<Rightarrow> (pmdEDUEvent option \<times> pmdEDUEvent list \<times> pmdEDUCB) + waitState" where
  "waitRound ty client resetStat = (\<lambda>(arrs, millsec, tmp, cb).
     let (intr, cb0) = isInterrupted client cb
     in if intr then Inl (None, tmp, cb0)
        else let waitTime = (if millsec < OSS_ONE_SEC then millsec else OSS_ONE_SEC)
             in case waitEvent (concat (take 1 arrs)) waitTime resetStat cb0 of
                  None \<Rightarrow> Inl (None, tmp, cb0)
                | Some (None, cb1) \<Rightarrow>
                    if millsec - waitTime \<le> 0 then Inl (None, tmp, cb1) else Inr (drop 1 arrs, millsec - waitTime, tmp, cb1)
                | Some (Some ev, cb1) \<Rightarrow>
                    if ty \<noteq> ev_eventType ev
                    then Inr (drop 1 arrs, millsec, tmp @ [ev], cb1\<lparr>cb_processEventCount := cb_processEventCount cb1 - 1\<rparr>)
                    else Inl (Some ev, tmp, cb1))"

lemma isInterrupted_queue:
  "isInterrupted client cb = (b, cb0) \<Longrightarrow> cb_queue cb0 = cb_queue cb \<and> cb_processEventCount cb0 = cb_processEventCount cb"
  by (auto simp: isInterrupted_def split: if_splits clientView.splits)

text \<open>What one wait and one round do to the queue.\<close>

lemma waitEvent_cases:
  assumes "waitEvent arr ms rs cb = Some (r, cb1)"
  shows "(r = None \<longrightarrow> cb_queue cb = [] \<and> arr = [] \<and> cb_queue cb1 = [] \<and> cb_processEventCount cb1 = cb_processEventCount cb)
    \<and> (\<forall>ev. r = Some ev \<longrightarrow> cb_queue cb @ arr = ev # cb_queue cb1 \<and> cb_processEventCount cb1 = cb_processEventCount cb + 1)"
  using assms by (auto simp: waitEvent_def Let_def split: if_splits list.splits)

lemma waitRound_cases:
  assumes "waitRound ty client rs (arrs, ms, tmp, cb) = r"
  obtains (stop) cb1 where "r = Inl (None, tmp, cb1)" "cb_queue cb1 = cb_queue cb" "cb_processEventCount cb1 = cb_processEventCount cb"
  | (tick) cb1 ms1 where "r = Inr (drop 1 arrs, ms1, tmp, cb1)" "ms1 = ms - OSS_ONE_SEC" "0 < ms1" "cb_queue cb = []" "concat (take 1 arrs) = []"
      "cb_queue cb1 = []" "cb_processEventCount cb1 = cb_processEventCount cb"
  | (pass) ev cb1 where "r = Inr (drop 1 arrs, ms, tmp @ [ev], cb1)" "ev_eventType ev \<noteq> ty"
      "cb_queue cb @ concat (take 1 arrs) = ev # cb_queue cb1" "cb_processEventCount cb1 = cb_processEventCount cb"
  | (hit) ev cb1 where "r = Inl (Some ev, tmp, cb1)" "ev_eventType ev = ty" "cb_queue cb @ concat (take 1 arrs) = ev # cb_queue cb1"
      "cb_processEventCount cb1 = cb_processEventCount cb + 1"
proof -
  obtain intr cb0 where i: "isInterrupted client cb = (intr, cb0)" by (cases "isInterrupted client cb")
  note q = isInterrupted_queue [OF i]
  define wt where "wt = (if ms < OSS_ONE_SEC then ms else OSS_ONE_SEC)"
  note run = assms [unfolded waitRound_def prod.case i Let_def wt_def [symmetric], symmetric]
  show thesis
  proof (cases "intr \<or> waitEvent (concat (take 1 arrs)) wt rs cb0 = None")
    case True
    then show thesis using run q stop [of cb0] by auto
  next
    case False
    then obtain o1 cb1 where w: "waitEvent (concat (take 1 arrs)) wt rs cb0 = Some (o1, cb1)" by auto
    note wc = waitEvent_cases [OF w]
    show thesis
    proof (cases o1)
      case None
      have "wt = OSS_ONE_SEC" if "\<not> ms - wt \<le> 0" using that by (auto simp: wt_def split: if_splits)
      then show thesis using run False w None wc q stop [of cb1] tick [of "ms - wt" cb1] by (cases "ms - wt \<le> 0") auto
    next
      case (Some ev)
      have "cb_queue cb @ concat (take 1 arrs) = ev # cb_queue cb1" "cb_processEventCount cb1 = cb_processEventCount cb + 1"
        using wc Some q by auto
      then show thesis using run False w Some
          pass [of ev "cb1\<lparr>cb_processEventCount := cb_processEventCount cb1 - 1\<rparr>"] hit [of ev cb1] by (cases "ev_eventType ev = ty") auto
    qed
  qed
qed

lemma take_drop_length: "length (concat xs) = length (concat (take 1 xs)) + length (concat (drop 1 xs))"
  by (cases xs) auto

function waitEventLoop :: "pmdEDUEventTypes \<Rightarrow> clientView \<Rightarrow> bool \<Rightarrow> waitState \<Rightarrow> pmdEDUEvent option \<times> pmdEDUEvent list \<times> pmdEDUCB" where
  "waitEventLoop ty client resetStat st =
     (case waitRound ty client resetStat st of Inl r \<Rightarrow> r | Inr st1 \<Rightarrow> waitEventLoop ty client resetStat st1)"
  by pat_completeness auto

termination
proof (relation "measure (\<lambda>(ty, client, rs, arrs, ms, tmp, cb). length (concat arrs) + length (cb_queue cb) + nat ms)", goal_cases)
  case (2 ty client rs st st1)
  obtain arrs ms tmp cb where st: "st = (arrs, ms, tmp, cb)" by (cases st)
  note len = take_drop_length [of arrs]
  from 2 [unfolded st] show ?case
  proof (cases rule: waitRound_cases)
    case (tick cb1 ms1)
    then show ?thesis using len by (simp add: st del: length_concat)
  next
    case (pass ev cb1)
    have "length (cb_queue cb) + length (concat (take 1 arrs)) = Suc (length (cb_queue cb1))"
      using arg_cong [OF pass(3), of length] by (simp only: length_append list.size)
    then show ?thesis using len pass(1) by (simp add: st del: length_concat)
  qed simp_all
qed simp

declare waitEventLoop.simps [simp del]

definition waitEventOf :: "pmdEDUEventTypes \<Rightarrow> clientView \<Rightarrow> pmdEDUEvent list list \<Rightarrow> int \<Rightarrow> bool \<Rightarrow> pmdEDUCB \<Rightarrow> pmdEDUEvent option \<times> pmdEDUCB" where
  "waitEventOf ty client arrs millsec resetStat cb =
     (let (found, tmp, cb1) = waitEventLoop ty client resetStat (arrs, if millsec < 0 then 0x7FFFFFFF else millsec, [], cb)
      in (found, cb1\<lparr>cb_queue := cb_queue cb1 @ tmp\<rparr>))"

section \<open>What waiting does to the queue\<close>

definition passedOver :: "pmdEDUEventTypes \<Rightarrow> pmdEDUEvent list \<Rightarrow> pmdEDUEvent option \<Rightarrow> pmdEDUEvent list \<Rightarrow> pmdEDUEvent list \<Rightarrow> bool" where
  "passedOver ty evs found pre post \<longleftrightarrow>
     (\<forall>e\<in>set pre. ev_eventType e \<noteq> ty)
     \<and> (case found of Some ev \<Rightarrow> evs = pre @ ev # post \<and> ev_eventType ev = ty | None \<Rightarrow> evs = pre @ post)"

lemma concat_take_Suc: "concat (take (Suc k) xs) = concat (take 1 xs) @ concat (take k (drop 1 xs))"
  by (cases xs) auto

lemma waitEventLoop_queue:
  "waitEventLoop ty client rs st = (found, tmp', cb') \<Longrightarrow> st = (arrs, ms, tmp, cb) \<Longrightarrow>
    \<exists>k pre. tmp' = tmp @ pre \<and> passedOver ty (cb_queue cb @ concat (take k arrs)) found pre (cb_queue cb')
      \<and> cb_processEventCount cb' = cb_processEventCount cb + (if found = None then 0 else 1)"
proof (induction ty client rs st arbitrary: arrs ms tmp cb rule: waitEventLoop.induct)
  case (1 ty client rs st)
  note run = "1.prems"(1) [unfolded waitEventLoop.simps [of ty client rs st]]
  have "waitRound ty client rs (arrs, ms, tmp, cb) = waitRound ty client rs st" using "1.prems"(2) by simp
  then show ?case
  proof (cases rule: waitRound_cases)
    case (stop cb1)
    then show ?thesis using run "1.prems"(2) by (intro exI [of _ 0] exI [of _ "[]"]) (simp add: passedOver_def)
  next
    case (tick cb1 ms1)
    have "waitEventLoop ty client rs (drop 1 arrs, ms1, tmp, cb1) = (found, tmp', cb')" using run by (simp only: tick(1) sum.case)
    from "1.IH" [OF tick(1) this refl] obtain k pre where "tmp' = tmp @ pre" "passedOver ty (cb_queue cb1 @ concat (take k (drop 1 arrs))) found pre (cb_queue cb')"
      "cb_processEventCount cb' = cb_processEventCount cb1 + (if found = None then 0 else 1)"
      by blast
    moreover have "cb_queue cb @ concat (take (Suc k) arrs) = cb_queue cb1 @ concat (take k (drop 1 arrs))"
      unfolding concat_take_Suc tick(4,5,6) by simp
    ultimately show ?thesis unfolding tick(7) by metis
  next
    case (pass ev cb1)
    have "waitEventLoop ty client rs (drop 1 arrs, ms, tmp @ [ev], cb1) = (found, tmp', cb')" using run by (simp only: pass(1) sum.case)
    from "1.IH" [OF pass(1) this refl] obtain k pre where rest: "tmp' = (tmp @ [ev]) @ pre" "passedOver ty (cb_queue cb1 @ concat (take k (drop 1 arrs))) found pre (cb_queue cb')"
      "cb_processEventCount cb' = cb_processEventCount cb1 + (if found = None then 0 else 1)"
      by blast
    have "cb_queue cb @ concat (take (Suc k) arrs) = ev # cb_queue cb1 @ concat (take k (drop 1 arrs))"
      unfolding concat_take_Suc append_assoc [symmetric] pass(3) by simp
    then have "passedOver ty (cb_queue cb @ concat (take (Suc k) arrs)) found (ev # pre) (cb_queue cb')"
      using rest(2) pass(2) by (cases found) (simp_all add: passedOver_def)
    then show ?thesis using rest(1,3) unfolding pass(4) by (intro exI [of _ "Suc k"] exI [of _ "ev # pre"]) simp
  next
    case (hit ev cb1)
    then show ?thesis using run "1.prems"(2) by (intro exI [of _ 1] exI [of _ "[]"]) (auto simp: passedOver_def)
  qed
qed

end
