(* ===== verification/Pmd_EDUMem.thy ===== *)
theory Pmd_EDUMem
  imports Pmd_EDU
begin

text \<open>
  The buffer manager of a control block is correct: the cache and the table of allocated buffers never share a buffer, every
  buffer in them is a live block of the length they say, no block is freed twice, and the two totals (the second as long as no buffer reaches 2 GB) are the sums of
  the lengths.  The invariant is stated on the multiset of blocks the control block owns.
\<close>

section \<open>Blocks\<close>

definition blocks_ok :: "(nat \<times> nat) multiset \<Rightarrow> ossHeap \<Rightarrow> bool" where
  "blocks_ok M h \<longleftrightarrow> (\<forall>(p, n)\<in>#M. p \<noteq> 0 \<and> hp_live h p = Some n) \<and> (\<forall>p. count (image_mset fst M) p \<le> 1)"

lemma blocks_ok_empty [simp]: "blocks_ok {#} h"
  by (simp add: blocks_ok_def)

lemma blocks_ok_owner:
  assumes "blocks_ok (add_mset (p, n) M) h"
  shows "p \<noteq> 0" "hp_live h p = Some n" "p \<notin> fst ` set_mset M" "blocks_ok M h"
proof -
  have c: "count (image_mset fst (add_mset (p, n) M)) q \<le> 1" for q using assms by (simp add: blocks_ok_def)
  show "p \<noteq> 0" "hp_live h p = Some n" using assms by (simp_all add: blocks_ok_def)
  have "count (image_mset fst M) p = 0" using c [of p] by simp
  then show "p \<notin> fst ` set_mset M" by (metis count_greater_zero_iff less_irrefl set_image_mset)
  have "count (image_mset fst M) q \<le> 1" for q using c [of q] by (cases "q = p") auto
  then show "blocks_ok M h" using assms by (simp add: blocks_ok_def)
qed

lemma blocks_ok_mono: "blocks_ok (M + N) h \<Longrightarrow> blocks_ok N h"
proof (induction M)
  case (add x M)
  then show ?case using blocks_ok_owner(4) [of "fst x" "snd x" "M + N" h] by simp
qed simp

lemma blocks_ok_add_mono: "blocks_ok (add_mset x (M + N)) h \<Longrightarrow> blocks_ok (add_mset x N) h"
  using blocks_ok_mono [of M "add_mset x N" h] by simp

lemma free_owned:
  assumes "blocks_ok (add_mset (p, n) M) h" and "\<not> hp_bad h"
  shows "blocks_ok M (ossMemFree p h)" "\<not> hp_bad (ossMemFree p h)" "hp_live (ossMemFree p h) = (hp_live h)(p := None)"
proof -
  note o = blocks_ok_owner [OF assms(1)]
  have "q \<noteq> p" if "(q, k) \<in># M" for q k using that o(3) by force
  then show "blocks_ok M (ossMemFree p h)" using o by (auto simp: blocks_ok_def ossMemFree_def)
  show "\<not> hp_bad (ossMemFree p h)" "hp_live (ossMemFree p h) = (hp_live h)(p := None)" using o assms(2) by (simp_all add: ossMemFree_def)
qed

text \<open>A block of someone else.\<close>

definition foreign :: "nat \<Rightarrow> (nat \<times> nat) multiset \<Rightarrow> ossHeap \<Rightarrow> bool" where
  "foreign p M h \<longleftrightarrow> p \<notin> fst ` set_mset M \<and> (p = 0 \<or> hp_live h p \<noteq> None)"

lemma free_foreign:
  assumes "blocks_ok M h" and "foreign p M h" and "\<not> hp_bad h"
  shows "blocks_ok M (ossMemFree p h)" "\<not> hp_bad (ossMemFree p h)" "hp_live (ossMemFree p h) = (if p = 0 then hp_live h else (hp_live h)(p := None))"
proof -
  have "q \<noteq> p" if "(q, k) \<in># M" for q k using that assms(2) by (force simp: foreign_def)
  then show "blocks_ok M (ossMemFree p h)" using assms(1) by (auto simp: blocks_ok_def ossMemFree_def)
  show "\<not> hp_bad (ossMemFree p h)" "hp_live (ossMemFree p h) = (if p = 0 then hp_live h else (hp_live h)(p := None))"
    using assms(2,3) by (auto simp: foreign_def ossMemFree_def)
qed

lemma new_block:
  assumes "blocks_ok M h" and "hp_live h p = None" and "p \<noteq> 0"
  shows "blocks_ok (add_mset (p, n) M) (h\<lparr>hp_live := (hp_live h)(p \<mapsto> n)\<rparr>)"
proof -
  have new: "p \<notin> fst ` set_mset M" using assms(1,2) by (fastforce simp: blocks_ok_def)
  then have "count (image_mset fst M) p = 0" by (metis count_eq_zero_iff set_image_mset)
  moreover have "q \<noteq> p" if "(q, k) \<in># M" for q k using that new by force
  ultimately show ?thesis using assms(1,3) by (auto simp: blocks_ok_def)
qed

text \<open>Freeing a list of owned blocks one after the other.\<close>

lemma free_all:
  assumes "blocks_ok (mset xs + M) h" and "\<not> hp_bad h"
  shows "blocks_ok M (fold ossMemFree (map fst xs) h) \<and> \<not> hp_bad (fold ossMemFree (map fst xs) h)
    \<and> hp_live (fold ossMemFree (map fst xs) h) = (\<lambda>p. if p \<in> fst ` set xs then None else hp_live h p)"
  using assms
proof (induction xs arbitrary: h)
  case (Cons x xs)
  obtain p n where x: "x = (p, n)" by (cases x)
  have "blocks_ok (add_mset (p, n) (mset xs + M)) h" using Cons.prems(1) by (simp add: x)
  note f = free_owned [OF this Cons.prems(2)]
  show ?case using Cons.IH [OF f(1,2)] f(3) by (auto simp: x fun_eq_iff)
qed simp

lemma smap_set_new: "smap_ok xs \<Longrightarrow> map_of xs k = None \<Longrightarrow> set (smap_set k v xs) = insert (k, v) (set xs)"
  using arg_cong [OF smap_set_mset, of xs k set_mset v] by simp

section \<open>The invariant\<close>

definition catchBlocks :: "pmdEDUCB \<Rightarrow> (nat \<times> nat) multiset" where
  "catchBlocks cb = image_mset prod.swap (mset (cb_catchMap cb))"

definition alignedBlock :: "pmdEDUCB \<Rightarrow> (nat \<times> nat) multiset" where
  "alignedBlock cb = (if cb_alignedMem cb = 0 then {#} else {#(cb_alignedMem cb, cb_alignedMemSize cb)#})"

definition ownBlocks :: "pmdEDUCB \<Rightarrow> (nat \<times> nat) multiset" where
  "ownBlocks cb = catchBlocks cb + mset (cb_allocMap cb) + alignedBlock cb"

text \<open>
  \<open>sm\<close> says that no buffer of 2 GB or more was ever asked for.  Without it the total of all buffers is not known: \<open>releaseBuff\<close> subtracts the length as a signed
  32-bit number.
\<close>

definition totals_ok :: "bool \<Rightarrow> pmdEDUCB \<Rightarrow> bool" where
  "totals_ok sm cb \<longleftrightarrow>
     cb_totalCatchSize cb = (\<Sum>(n, p)\<in>#mset (cb_catchMap cb). int n)
     \<and> (\<forall>(n, p)\<in>#mset (cb_catchMap cb). n < 2147483648) \<and> (\<forall>(p, n)\<in>#mset (cb_allocMap cb). n < 4294967296)
     \<and> (sm \<longrightarrow> cb_totalMemSize cb = (\<Sum>(n, p)\<in>#mset (cb_catchMap cb). int n) + (\<Sum>(p, n)\<in>#mset (cb_allocMap cb). int n)
         \<and> (\<forall>(p, n)\<in>#mset (cb_allocMap cb). n < 2147483648))"

definition mem_inv :: "bool \<Rightarrow> eduMem \<Rightarrow> bool" where
  "mem_inv sm m \<longleftrightarrow>
     (case m of (cb, h) \<Rightarrow> sorted (map fst (cb_catchMap cb)) \<and> smap_ok (cb_allocMap cb) \<and> blocks_ok (ownBlocks cb) h \<and> totals_ok sm cb
        \<and> (cb_alignedMem cb = 0 \<longrightarrow> cb_alignedMemSize cb = 0) \<and> \<not> hp_bad h)"

lemma mem_invD:
  assumes "mem_inv sm (cb, h)"
  shows "sorted (map fst (cb_catchMap cb))" "smap_ok (cb_allocMap cb)" "blocks_ok (ownBlocks cb) h" "totals_ok sm cb"
    "cb_alignedMem cb = 0 \<Longrightarrow> cb_alignedMemSize cb = 0" "\<not> hp_bad h"
  using assms by (simp_all add: mem_inv_def)

lemma mem_inv_new: "\<not> hp_bad h \<Longrightarrow> mem_inv sm (educb_new b ty, h)"
  by (simp add: mem_inv_def educb_new_def ownBlocks_def catchBlocks_def alignedBlock_def totals_ok_def)

lemma fresh_not_own: "blocks_ok M h \<Longrightarrow> hp_live h p = None \<Longrightarrow> p \<notin> fst ` set_mset M"
  by (auto simp: blocks_ok_def)

lemma not_own_alloc: "p \<notin> fst ` set_mset (ownBlocks cb) \<Longrightarrow> map_of (cb_allocMap cb) p = None"
  by (auto simp: ownBlocks_def map_of_eq_None_iff)

text \<open>The fields the invariant depends on.\<close>

lemma mem_inv_cong:
  assumes "cb_catchMap cb = cb_catchMap cb'" "cb_allocMap cb = cb_allocMap cb'" "cb_totalCatchSize cb = cb_totalCatchSize cb'"
    "cb_totalMemSize cb = cb_totalMemSize cb'" "cb_alignedMem cb = cb_alignedMem cb'" "cb_alignedMemSize cb = cb_alignedMemSize cb'"
  shows "mem_inv sm (cb, h) = mem_inv sm (cb', h)" "ownBlocks cb = ownBlocks cb'"
  using assms by (simp_all add: mem_inv_def ownBlocks_def catchBlocks_def alignedBlock_def totals_ok_def)

section \<open>Releasing and allocating\<close>

lemma trimCatch_inv:
  "mem_inv sm (cb, h) \<Longrightarrow> trimCatch cb h = (cb', h') \<Longrightarrow>
     mem_inv sm (cb', h') \<and> cb_totalCatchSize cb' \<le> int EDU_MAX_CATCH_SIZE \<and> cb_allocMap cb' = cb_allocMap cb
     \<and> cb_alignedMem cb' = cb_alignedMem cb \<and> cb_queue cb' = cb_queue cb \<and> fst ` set_mset (ownBlocks cb') \<subseteq> fst ` set_mset (ownBlocks cb)
     \<and> hp_live h' = (\<lambda>p. if p \<in> fst ` set_mset (ownBlocks cb) - fst ` set_mset (ownBlocks cb') then None else hp_live h p)"
proof (induction cb h rule: trimCatch.induct)
  case (1 cb h)
  note I = mem_invD [OF "1.prems"(1)]
  show ?case
  proof (cases "cb_totalCatchSize cb > int EDU_MAX_CATCH_SIZE")
    case False
    then show ?thesis using "1.prems" by (auto simp: trimCatch.simps [of cb h])
  next
    case True
    then obtain n p rest where c: "cb_catchMap cb = (n, p) # rest" using I(4) by (cases "cb_catchMap cb") (auto simp: totals_ok_def)
    define cb1 where "cb1 = cb\<lparr>cb_totalMemSize := cb_totalMemSize cb - int n, cb_totalCatchSize := cb_totalCatchSize cb - int n, cb_catchMap := rest\<rparr>"
    have own: "ownBlocks cb = add_mset (p, n) (ownBlocks cb1)" by (simp add: cb1_def ownBlocks_def catchBlocks_def alignedBlock_def c)
    note f = free_owned [OF I(3) [unfolded own] I(6)] and o = blocks_ok_owner [OF I(3) [unfolded own]]
    have inv: "mem_inv sm (cb1, ossMemFree p h)"
      using I f unfolding mem_inv_def by (auto simp: cb1_def totals_ok_def c)
    have run: "trimCatch cb1 (ossMemFree p h) = (cb', h')" using "1.prems"(2) True c by (simp add: trimCatch.simps [of cb h] cb1_def)
    note IH = "1.IH" [OF True c refl, folded cb1_def, OF inv run]
    show ?thesis using IH o(3) f(3) unfolding own by (auto simp: cb1_def fun_eq_iff)
  qed
qed

text \<open>A block leaves the control block only by being freed, and no other block is touched.\<close>

definition noLeak :: "eduMem \<Rightarrow> eduMem \<Rightarrow> bool" where
  "noLeak m m' \<longleftrightarrow>
     (let own = fst ` set_mset (ownBlocks (fst m)); own' = fst ` set_mset (ownBlocks (fst m'))
      in (\<forall>q\<in>own - own'. hp_live (snd m') q = None) \<and> (\<forall>q. q \<notin> own \<union> own' \<longrightarrow> hp_live (snd m') q = hp_live (snd m) q))"

lemma noLeakI:
  "(\<And>q. q \<in> fst ` set_mset (ownBlocks cb) \<Longrightarrow> q \<notin> fst ` set_mset (ownBlocks cb') \<Longrightarrow> hp_live h' q = None) \<Longrightarrow>
   (\<And>q. q \<notin> fst ` set_mset (ownBlocks cb) \<Longrightarrow> q \<notin> fst ` set_mset (ownBlocks cb') \<Longrightarrow> hp_live h' q = hp_live h q) \<Longrightarrow> noLeak (cb, h) (cb', h')"
  by (auto simp: noLeak_def Let_def)

lemma noLeakD:
  assumes "noLeak (cb, h) (cb', h')"
  shows "q \<in> fst ` set_mset (ownBlocks cb) \<Longrightarrow> q \<notin> fst ` set_mset (ownBlocks cb') \<Longrightarrow> hp_live h' q = None"
    and "fst ` set_mset (ownBlocks cb') \<subseteq> fst ` set_mset (ownBlocks cb) \<Longrightarrow> q \<notin> fst ` set_mset (ownBlocks cb) \<Longrightarrow> hp_live h' q = hp_live h q"
proof -
  define A C where "A = fst ` set_mset (ownBlocks cb)" and "C = fst ` set_mset (ownBlocks cb')"
  note n = assms [unfolded noLeak_def Let_def fst_conv snd_conv, folded A_def C_def]
  show "hp_live h' q = None" if "q \<in> fst ` set_mset (ownBlocks cb)" "q \<notin> fst ` set_mset (ownBlocks cb')"
    using n that by (simp add: A_def [symmetric] C_def [symmetric])
  show "hp_live h' q = hp_live h q" if "fst ` set_mset (ownBlocks cb') \<subseteq> fst ` set_mset (ownBlocks cb)" "q \<notin> fst ` set_mset (ownBlocks cb)"
    using n that unfolding A_def [symmetric] C_def [symmetric] by blast
qed

lemma noLeak_refl [simp]: "noLeak m m"
  by (simp add: noLeak_def)

lemma noLeak_trans:
  assumes "noLeak m1 m2" and "noLeak m2 m3" and "fst ` set_mset (ownBlocks (fst m2)) \<subseteq> fst ` set_mset (ownBlocks (fst m1))"
    and "fst ` set_mset (ownBlocks (fst m3)) \<subseteq> fst ` set_mset (ownBlocks (fst m2))"
  shows "noLeak m1 m3"
proof -
  define A B C where "A = fst ` set_mset (ownBlocks (fst m1))" and "B = fst ` set_mset (ownBlocks (fst m2))" and "C = fst ` set_mset (ownBlocks (fst m3))"
  note n = assms [unfolded noLeak_def Let_def, folded A_def B_def C_def]
  have "hp_live (snd m3) q = None" if "q \<in> A" "q \<notin> C" for q
  proof (cases "q \<in> B")
    case True
    then show ?thesis using n(2) that by simp
  next
    case False
    then show ?thesis using n(1,2) that by simp
  qed
  moreover have "hp_live (snd m3) q = hp_live (snd m1) q" if "q \<notin> A" "q \<notin> C" for q
  proof -
    have "q \<notin> B" using that n(3) by blast
    then show ?thesis using n(1,2) that by simp
  qed
  ultimately show ?thesis unfolding noLeak_def Let_def A_def [symmetric] C_def [symmetric] by simp
qed

text \<open>Moving a buffer from the table into the cache, or freeing it.\<close>

lemma alloc_entry:
  assumes "mem_inv sm (cb, h)" and "map_of (cb_allocMap cb) p = Some n"
  shows "mset (cb_allocMap cb) = add_mset (p, n) (mset (smap_erase p (cb_allocMap cb)))" "smap_ok (smap_erase p (cb_allocMap cb))"
    "n < 4294967296" "sm \<or> n \<le> EDU_MAX_CATCH_SIZE \<Longrightarrow> s32 (int n) = int n" "u32 (s32 (int n)) = n" "u32 (int n) = n"
proof -
  note I = mem_invD [OF assms(1)]
  show e: "mset (cb_allocMap cb) = add_mset (p, n) (mset (smap_erase p (cb_allocMap cb)))" by (rule smap_erase_mset [OF I(2) assms(2)])
  show "smap_ok (smap_erase p (cb_allocMap cb))" by (rule smap_erase_ok [OF I(2)])
  show n: "n < 4294967296" using I(4) unfolding totals_ok_def e by simp
  have "s32 (int n) mod 4294967296 = int n mod 4294967296" unfolding s32_def by (simp add: mod_diff_left_eq)
  then show "u32 (s32 (int n)) = n" "u32 (int n) = n" using n by (simp_all add: u32_def)
  have "sm \<Longrightarrow> n < 2147483648" using I(4) unfolding totals_ok_def e by simp
  then show "s32 (int n) = int n" if "sm \<or> n \<le> EDU_MAX_CATCH_SIZE" using that by (auto simp: cast_simps)
qed

lemma release_owned:
  assumes inv: "mem_inv sm (cb, h)" and p: "map_of (cb_allocMap cb) p = Some n" and run: "releaseBuff p (cb, h) = (cb', h')"
  shows "mem_inv sm (cb', h')" "cb_allocMap cb' = smap_erase p (cb_allocMap cb)" "cb_queue cb' = cb_queue cb" "noLeak (cb, h) (cb', h')"
    "fst ` set_mset (ownBlocks cb') \<subseteq> fst ` set_mset (ownBlocks cb)" "cb_totalCatchSize cb' \<le> max (cb_totalCatchSize cb) (int EDU_MAX_CATCH_SIZE)"
proof -
  note I = mem_invD [OF inv] and E = alloc_entry [OF inv p]
  define cb1 where "cb1 = cb\<lparr>cb_allocMap := smap_erase p (cb_allocMap cb)\<rparr>"
  have "mem_inv sm (cb', h') \<and> cb_allocMap cb' = smap_erase p (cb_allocMap cb) \<and> cb_queue cb' = cb_queue cb \<and> noLeak (cb, h) (cb', h')
    \<and> fst ` set_mset (ownBlocks cb') \<subseteq> fst ` set_mset (ownBlocks cb) \<and> cb_totalCatchSize cb' \<le> max (cb_totalCatchSize cb) (int EDU_MAX_CATCH_SIZE)"
  proof (cases "n > EDU_MAX_CATCH_SIZE")
    case True
    have r: "cb' = cb1\<lparr>cb_totalMemSize := cb_totalMemSize cb - s32 (int n)\<rparr>" "h' = ossMemFree p h"
      using run p True by (simp_all add: releaseBuff_def E cb1_def Let_def)
    have own: "ownBlocks cb = add_mset (p, n) (ownBlocks cb')" by (simp add: r cb1_def ownBlocks_def catchBlocks_def alignedBlock_def E(1))
    note f = free_owned [OF I(3) [unfolded own] I(6)] and o = blocks_ok_owner [OF I(3) [unfolded own]]
    have "mem_inv sm (cb', h')" using I f E unfolding mem_inv_def by (auto simp: r cb1_def totals_ok_def)
    moreover have "noLeak (cb, h) (cb', h')" using o(3) f(3) by (intro noLeakI) (auto simp: own r(2))
    ultimately show ?thesis unfolding own by (auto simp: r cb1_def)
  next
    case False
    define cb2 where "cb2 = cb1\<lparr>cb_catchMap := multi_insert n p (cb_catchMap cb1), cb_totalCatchSize := cb_totalCatchSize cb1 + int n\<rparr>"
    have t: "trimCatch cb2 h = (cb', h')" using run p False by (simp add: releaseBuff_def E cb2_def cb1_def Let_def)
    have own: "ownBlocks cb2 = ownBlocks cb" by (simp add: cb2_def cb1_def ownBlocks_def catchBlocks_def alignedBlock_def E(1))
    have "mem_inv sm (cb2, h)" using I E own False multi_insert_sorted [OF I(1)] unfolding mem_inv_def by (auto simp: cb2_def cb1_def totals_ok_def)
    note T = trimCatch_inv [OF this t, unfolded own]
    have "noLeak (cb, h) (cb', h')" using T by (intro noLeakI) simp_all
    then show ?thesis using T by (simp add: cb2_def cb1_def le_max_iff_disj)
  qed
  then show "mem_inv sm (cb', h')" "cb_allocMap cb' = smap_erase p (cb_allocMap cb)" "cb_queue cb' = cb_queue cb" "noLeak (cb, h) (cb', h')"
    "fst ` set_mset (ownBlocks cb') \<subseteq> fst ` set_mset (ownBlocks cb)" "cb_totalCatchSize cb' \<le> max (cb_totalCatchSize cb) (int EDU_MAX_CATCH_SIZE)"
    by blast+
qed

lemma release_foreign:
  assumes "mem_inv sm (cb, h)" and "foreign p (ownBlocks cb) h"
  shows "releaseBuff p (cb, h) = (cb, ossMemFree p h)" "mem_inv sm (cb, ossMemFree p h)"
proof -
  note I = mem_invD [OF assms(1)] and f = free_foreign [OF mem_invD(3) [OF assms(1)] assms(2) mem_invD(6) [OF assms(1)]]
  have "map_of (cb_allocMap cb) p = None" using assms(2) by (auto simp: foreign_def ownBlocks_def map_of_eq_None_iff)
  then show "releaseBuff p (cb, h) = (cb, ossMemFree p h)" by (simp add: releaseBuff_def)
  show "mem_inv sm (cb, ossMemFree p h)" using I f by (simp add: mem_inv_def)
qed

text \<open>The address that the system hands out is not in use.\<close>

definition freshAddr :: "nat \<Rightarrow> ossHeap \<Rightarrow> bool" where
  "freshAddr p h \<longleftrightarrow> p = 0 \<or> hp_live h p = None"

lemma roundUp_ge:
  assumes len: "len < 4294967296"
  shows "ossRoundUpToMultipleX len EDU_MEM_ALIGMENT_SIZE \<noteq> 0 \<Longrightarrow> len \<le> ossRoundUpToMultipleX len EDU_MEM_ALIGMENT_SIZE"
    "ossRoundUpToMultipleX len EDU_MEM_ALIGMENT_SIZE < 4294967296"
    "len \<le> 2147482624 \<Longrightarrow> ossRoundUpToMultipleX len EDU_MEM_ALIGMENT_SIZE < 2147483648"
proof -
  let ?t = "len + 1023" and ?r = "ossRoundUpToMultipleX len EDU_MEM_ALIGMENT_SIZE"
  have b: "?t mod 1024 < 1024" "?t mod 1024 \<le> ?t" by simp_all
  have "(?r \<noteq> 0 \<longrightarrow> len \<le> ?r) \<and> ?r < 4294967296 \<and> (len \<le> 2147482624 \<longrightarrow> ?r < 2147483648)"
  proof (cases "?t < 4294967296")
    case True
    then have "u32 (int len + (int 1024 - 1)) = ?t" by (simp add: u32_def nat_add_distrib)
    then have r: "?r = ?t - ?t mod 1024" by (simp add: ossRoundUpToMultipleX_def Let_def)
    show ?thesis unfolding r using b True by linarith
  next
    case False
    have "(int len + 1023) mod 4294967296 = int len + 1023 - 4294967296" using False len by (subst minus_mod_self2 [symmetric]) simp
    then have u: "u32 (int len + (int 1024 - 1)) = ?t - 4294967296" using False by (simp add: u32_def)
    then have "u32 (int len + (int 1024 - 1)) < 1024" using len by simp
    then have "?r = 0" by (simp add: ossRoundUpToMultipleX_def Let_def)
    then show ?thesis by simp
  qed
  then show "?r \<noteq> 0 \<Longrightarrow> len \<le> ?r" "?r < 4294967296" "len \<le> 2147482624 \<Longrightarrow> ?r < 2147483648" by blast+
qed

lemma allocFromCatch_inv:
  assumes inv: "mem_inv sm (cb, h)" and a: "allocFromCatch len cb = Some (p, n, cb')"
  shows "mem_inv sm (cb', h)" "map_of (cb_allocMap cb') p = Some n" "len \<le> n" "ownBlocks cb' = ownBlocks cb" "cb_queue cb' = cb_queue cb"
proof -
  note I = mem_invD [OF inv]
  obtain rest where m: "multi_take len (cb_catchMap cb) = Some ((n, p), rest)"
    and cb': "cb' = cb\<lparr>cb_catchMap := rest, cb_allocMap := smap_set p n (cb_allocMap cb), cb_totalCatchSize := cb_totalCatchSize cb - int n\<rparr>"
    using a by (auto simp: allocFromCatch_def split: option.splits)
  note T = multi_take_Some [OF m I(1)]
  have "ownBlocks cb = add_mset (p, n) (image_mset prod.swap (mset rest) + mset (cb_allocMap cb) + alignedBlock cb)"
    by (simp add: ownBlocks_def catchBlocks_def T(2))
  from blocks_ok_owner(3) [OF I(3) [unfolded this]] have none: "map_of (cb_allocMap cb) p = None" by (auto simp: map_of_eq_None_iff)
  note S = smap_set_mset [OF I(2) none, of n] smap_set_new [OF I(2) none, of n]
  show own: "ownBlocks cb' = ownBlocks cb" by (simp add: cb' ownBlocks_def catchBlocks_def alignedBlock_def T(2) S)
  show "mem_inv sm (cb', h)" using I T S own smap_set_ok [OF I(2)] unfolding mem_inv_def by (auto simp: cb' totals_ok_def)
  show "map_of (cb_allocMap cb') p = Some n" using smap_set_find [OF I(2)] by (simp add: cb')
  show "len \<le> n" "cb_queue cb' = cb_queue cb" using T(1) by (simp_all add: cb')
qed

lemma allocBuff_inv:
  assumes inv: "mem_inv sm (cb, h)" and len: "len < 4294967296" "sm \<longrightarrow> len \<le> 2147482624" and os: "freshAddr os h" and run: "allocBuff os len (cb, h) = (rc, p, sz, cb', h')"
  shows "mem_inv sm (cb', h')" "rc = SDB_OK \<and> p \<noteq> 0 \<and> (\<exists>n\<ge>len. sz = Some n \<and> map_of (cb_allocMap cb') p = Some n) \<or> rc = SDB_OOM \<and> cb' = cb \<and> h' = h"
    "noLeak (cb, h) (cb', h')" "cb_queue cb' = cb_queue cb"
proof -
  note I = mem_invD [OF inv] and R = roundUp_ge [OF len(1)]
  have "mem_inv sm (cb', h') \<and> (rc = SDB_OK \<and> p \<noteq> 0 \<and> (\<exists>n\<ge>len. sz = Some n \<and> map_of (cb_allocMap cb') p = Some n) \<or> rc = SDB_OOM \<and> cb' = cb \<and> h' = h)
    \<and> noLeak (cb, h) (cb', h') \<and> cb_queue cb' = cb_queue cb"
  proof (cases "if cb_totalCatchSize cb \<ge> int len then allocFromCatch len cb else None")
    case (Some x)
    then obtain q n cb1 where x: "allocFromCatch len cb = Some (q, n, cb1)" by (cases x) (auto split: if_splits)
    then have r: "rc = SDB_OK" "p = q" "sz = Some n" "cb' = cb1" "h' = h" using run Some by (auto simp: allocBuff_def split: if_splits)
    note A = allocFromCatch_inv [OF inv x]
    have "(p, n) \<in># ownBlocks cb1" using map_of_SomeD [OF A(2)] by (simp add: ownBlocks_def r)
    then have "p \<noteq> 0" using I(3) A(4) by (auto simp: blocks_ok_def)
    moreover have "noLeak (cb, h) (cb1, h)" using A(4) by (intro noLeakI) simp_all
    ultimately show ?thesis using A r by auto
  next
    case None
    let ?n = "ossRoundUpToMultipleX len EDU_MEM_ALIGMENT_SIZE"
    show ?thesis
    proof (cases "?n = 0 \<or> os = 0")
      case True
      then show ?thesis using run None inv by (auto simp: allocBuff_def ossMemAlloc_def Let_def)
    next
      case False
      then have r: "rc = SDB_OK" "p = os" "sz = Some ?n" "h' = h\<lparr>hp_live := (hp_live h)(os \<mapsto> ?n)\<rparr>"
        "cb' = cb\<lparr>cb_totalMemSize := cb_totalMemSize cb + int ?n, cb_allocMap := smap_set os ?n (cb_allocMap cb)\<rparr>"
        using run None by (auto simp: allocBuff_def ossMemAlloc_def Let_def)
      have new: "hp_live h os = None" "os \<noteq> 0" using os False by (auto simp: freshAddr_def)
      have none: "map_of (cb_allocMap cb) os = None" by (rule not_own_alloc [OF fresh_not_own [OF I(3) new(1)]])
      note S = smap_set_mset [OF I(2) none, of ?n] smap_set_new [OF I(2) none, of ?n]
      have own: "ownBlocks cb' = add_mset (os, ?n) (ownBlocks cb)" by (simp add: r ownBlocks_def catchBlocks_def alignedBlock_def S)
      have "totals_ok sm cb'" using I(4) S R(2,3) len(2) by (auto simp: r totals_ok_def)
      then have "mem_inv sm (cb', h')" using I new_block [OF I(3) new, of ?n] own smap_set_ok [OF I(2)] unfolding mem_inv_def by (simp add: r)
      moreover have "noLeak (cb, h) (cb', h')" by (intro noLeakI) (auto simp: own r(4))
      ultimately show ?thesis using r R(1) False new(2) smap_set_find [OF I(2)] by auto
    qed
  qed
  then show "mem_inv sm (cb', h')" "rc = SDB_OK \<and> p \<noteq> 0 \<and> (\<exists>n\<ge>len. sz = Some n \<and> map_of (cb_allocMap cb') p = Some n) \<or> rc = SDB_OOM \<and> cb' = cb \<and> h' = h"
    "noLeak (cb, h) (cb', h')" "cb_queue cb' = cb_queue cb" by blast+
qed

text \<open>Resizing: the old buffer is in the table, or there is none.\<close>

lemma smap_set_erase: "smap_ok xs \<Longrightarrow> smap_set k v (smap_erase k xs) = smap_set k v xs"
proof (induction k v xs rule: smap_set.induct)
  case (2 k v k1 v1 xs)
  have "smap_erase k xs = xs" "smap_set k v xs = (k, v) # xs" if "k \<le> k1"
    using "2.prems" that by (auto simp: smap_erase_def filter_id_conv, cases xs) auto
  then show ?case using 2 by (auto simp: smap_erase_def)
qed (simp add: smap_erase_def)

lemma resized:
  assumes inv: "mem_inv sm (cb, h)" and old: "map_of (cb_allocMap cb) pOld = Some oldLen \<or> pOld = 0 \<and> oldLen = 0"
    and os: "os \<noteq> 0" "os = pOld \<or> hp_live h os = None" and n: "n < 4294967296" "sm \<longrightarrow> n < 2147483648"
    and cb': "cb' = cb\<lparr>cb_totalMemSize := cb_totalMemSize cb + (int n - int oldLen), cb_allocMap := smap_set os n (smap_erase pOld (cb_allocMap cb))\<rparr>"
    and h': "h' = (let h1 = ossMemFree pOld h in h1\<lparr>hp_live := (hp_live h1)(os \<mapsto> n)\<rparr>)"
  shows "mem_inv sm (cb', h') \<and> map_of (cb_allocMap cb') os = Some n \<and> noLeak (cb, h) (cb', h')"
proof -
  note I = mem_invD [OF inv]
  define cb1 where "cb1 = cb\<lparr>cb_totalMemSize := cb_totalMemSize cb - int oldLen, cb_allocMap := smap_erase pOld (cb_allocMap cb)\<rparr>"
  define h1 where "h1 = ossMemFree pOld h"
  have 1: "mem_inv sm (cb1, h1) \<and> hp_live h1 = (hp_live h)(pOld := if pOld = 0 then hp_live h pOld else None)
    \<and> fst ` set_mset (ownBlocks cb) = (if pOld = 0 then {} else {pOld}) \<union> fst ` set_mset (ownBlocks cb1) \<and> (pOld \<noteq> 0 \<longrightarrow> pOld \<notin> fst ` set_mset (ownBlocks cb1))"
  proof (cases "map_of (cb_allocMap cb) pOld")
    case None
    then have z: "pOld = 0" "oldLen = 0" using old by auto
    then have "smap_erase pOld (cb_allocMap cb) = cb_allocMap cb" using None by (simp add: smap_erase_def filter_id_conv map_of_eq_None_iff) (metis fst_conv image_eqI not_gr0)
    then show ?thesis using inv z by (simp add: cb1_def h1_def ossMemFree_def)
  next
    case (Some k)
    have "(pOld, k) \<in># ownBlocks cb" using map_of_SomeD [OF Some] by (simp add: ownBlocks_def)
    then have k: "k = oldLen" "pOld \<noteq> 0" using old Some I(3) by (auto simp: blocks_ok_def)
    note E = alloc_entry [OF inv Some]
    have own: "ownBlocks cb = add_mset (pOld, k) (ownBlocks cb1)" by (simp add: cb1_def ownBlocks_def catchBlocks_def alignedBlock_def E(1))
    note f = free_owned [OF I(3) [unfolded own] I(6)] and o = blocks_ok_owner [OF I(3) [unfolded own]]
    have "totals_ok sm cb1" using I(4) E k by (simp add: cb1_def totals_ok_def)
    then have "mem_inv sm (cb1, h1)" using I f E unfolding mem_inv_def by (simp add: cb1_def h1_def)
    then show ?thesis using f(3) o(3) k(2) by (auto simp: own h1_def)
  qed
  note J = mem_invD [OF conjunct1 [OF 1]]
  have new: "hp_live h1 os = None" using 1 os by auto
  have none: "map_of (cb_allocMap cb1) os = None" by (rule not_own_alloc [OF fresh_not_own [OF J(3) new]])
  note S = smap_set_mset [OF J(2) none, of n] smap_set_new [OF J(2) none, of n]
  have cb'': "cb' = cb1\<lparr>cb_totalMemSize := cb_totalMemSize cb1 + int n, cb_allocMap := smap_set os n (cb_allocMap cb1)\<rparr>" by (simp add: cb' cb1_def)
  have h'': "h' = h1\<lparr>hp_live := (hp_live h1)(os \<mapsto> n)\<rparr>" by (simp add: h' h1_def Let_def)
  have own: "ownBlocks cb' = add_mset (os, n) (ownBlocks cb1)" by (simp add: cb'' ownBlocks_def catchBlocks_def alignedBlock_def S)
  have "totals_ok sm cb'" using J(4) S n by (auto simp: cb'' totals_ok_def)
  then have "mem_inv sm (cb', h')" using J new_block [OF J(3) new os(1), of n] own smap_set_ok [OF J(2)] unfolding mem_inv_def by (simp add: cb'' h'')
  moreover have "noLeak (cb, h) (cb', h')" using 1 by (intro noLeakI) (auto simp: own h'' split: if_splits)
  ultimately show ?thesis using smap_set_find [OF J(2)] by (simp add: cb'')
qed

lemma reallocBuff_inv:
  assumes inv: "mem_inv sm (cb, h)" and len: "len < 4294967296" "sm \<longrightarrow> len \<le> 2147482624" and os: "freshAddr os h \<or> os = pOld"
    and old: "map_of (cb_allocMap cb) pOld \<noteq> None \<or> foreign pOld (ownBlocks cb) h" and run: "reallocBuff os len pOld (cb, h) = (rc, p, sz, cb', h')"
  shows "mem_inv sm (cb', h')" "rc = SDB_OK \<and> 0 < len \<Longrightarrow> p \<noteq> 0 \<and> (\<exists>n\<ge>len. sz = Some n \<and> map_of (cb_allocMap cb') p = Some n)"
proof -
  have z: "map_of (cb_allocMap cb) 0 = None" using mem_invD(3) [OF inv] by (auto simp: blocks_ok_def ownBlocks_def map_of_eq_None_iff)
  have fail: "mem_inv sm (cb1, h1)" if "reallocFail r pOld q s1 (cb, h) = (r1, q1, s2, cb1, h1)" for r q s1 r1 q1 s2 cb1 h1
    using that inv old release_owned(1) [OF inv] release_foreign [OF inv]
    by (cases "map_of (cb_allocMap cb) pOld") (auto simp: reallocFail_def split: if_splits)
  have "mem_inv sm (cb', h') \<and> (rc = SDB_OK \<and> 0 < len \<longrightarrow> p \<noteq> 0 \<and> (\<exists>n\<ge>len. sz = Some n \<and> map_of (cb_allocMap cb') p = Some n))"
  proof (cases "map_of (cb_allocMap cb) pOld = None \<and> pOld \<noteq> 0")
    case True
    then show ?thesis using run fail by (auto simp: reallocBuff_def reallocFail_def)
  next
    case False
    define oldLen where "oldLen = (case map_of (cb_allocMap cb) pOld of Some n \<Rightarrow> n | None \<Rightarrow> 0)"
    have o: "map_of (cb_allocMap cb) pOld = Some oldLen \<or> pOld = 0 \<and> oldLen = 0" using False z by (auto simp: oldLen_def split: option.splits)
    let ?n = "ossRoundUpToMultipleX len EDU_MEM_ALIGMENT_SIZE"
    note R = roundUp_ge [OF len(1)]
    have eq: "reallocBuff os len pOld (cb, h) =
        (if len \<le> oldLen then (SDB_OK, pOld, map_of (cb_allocMap cb) pOld, cb, h)
         else if ?n = 0 \<or> os = 0 then reallocFail SDB_OOM pOld 0 (map_of (cb_allocMap cb) pOld) (cb, h)
         else (SDB_OK, os, Some ?n, cb\<lparr>cb_totalMemSize := cb_totalMemSize cb + (int ?n - int oldLen),
                 cb_allocMap := smap_set os ?n (smap_erase pOld (cb_allocMap cb))\<rparr>,
               let h1 = ossMemFree pOld h in h1\<lparr>hp_live := (hp_live h1)(os \<mapsto> ?n)\<rparr>))"
    proof -
      have u: "int (u32 (int ?n - int oldLen)) = int ?n - int oldLen" if "\<not> len \<le> oldLen" "?n \<noteq> 0" using R that by (simp add: u32_def)
      have m1: "smap_set os ?n (if pOld \<noteq> os then smap_erase pOld (cb_allocMap cb) else cb_allocMap cb) = smap_set os ?n (smap_erase pOld (cb_allocMap cb))"
        using smap_set_erase [OF mem_invD(2) [OF inv]] by simp
      show ?thesis unfolding reallocBuff_def prod.case Let_def oldLen_def [symmetric] if_not_P [OF False] ossMemRealloc_def using u by (simp add: m1)
    qed
    note run' = run [unfolded eq, symmetric]
    consider "len \<le> oldLen" | "\<not> len \<le> oldLen" "?n = 0 \<or> os = 0" | (ok) "\<not> len \<le> oldLen" "?n \<noteq> 0" "os \<noteq> 0" by blast
    then show ?thesis
    proof cases
      case 1
      moreover have "pOld \<noteq> 0" if "map_of (cb_allocMap cb) pOld = Some oldLen" using z that by (cases "pOld = 0") auto
      ultimately show ?thesis using run' inv o by auto
    next
      case 2
      then have "reallocFail SDB_OOM pOld 0 (map_of (cb_allocMap cb) pOld) (cb, h) = (rc, p, sz, cb', h')" using run' by simp
      moreover from this have "rc = SDB_OOM" by (auto simp: reallocFail_def split: if_splits)
      ultimately show ?thesis using fail by auto
    next
      case ok
      have r: "rc = SDB_OK" "p = os" "sz = Some ?n" "h' = (let h1 = ossMemFree pOld h in h1\<lparr>hp_live := (hp_live h1)(os \<mapsto> ?n)\<rparr>)"
        "cb' = cb\<lparr>cb_totalMemSize := cb_totalMemSize cb + (int ?n - int oldLen), cb_allocMap := smap_set os ?n (smap_erase pOld (cb_allocMap cb))\<rparr>"
        using run' ok by simp_all
      have "os = pOld \<or> hp_live h os = None" using os ok by (auto simp: freshAddr_def)
      then show ?thesis using resized [OF inv o ok(3) _ R(2) _ r(5,4)] r ok R(1,3) len(2) by auto
    qed
  qed
  then show "mem_inv sm (cb', h')" "rc = SDB_OK \<and> 0 < len \<Longrightarrow> p \<noteq> 0 \<and> (\<exists>n\<ge>len. sz = Some n \<and> map_of (cb_allocMap cb') p = Some n)" by blast+
qed

section \<open>Handing over and clearing\<close>

lemma alignedBuff_inv:
  assumes inv: "mem_inv sm (cb, h)"
  shows "mem_inv sm (releaseAlignedBuff (cb, h))" "noLeak (cb, h) (releaseAlignedBuff (cb, h))"
    "alignedBlock (fst (releaseAlignedBuff (cb, h))) = {#}" "cb_catchMap (fst (releaseAlignedBuff (cb, h))) = cb_catchMap cb"
    "cb_allocMap (fst (releaseAlignedBuff (cb, h))) = cb_allocMap cb" "cb_queue (fst (releaseAlignedBuff (cb, h))) = cb_queue cb"
    "hp_live h p = None \<Longrightarrow> hp_live (snd (releaseAlignedBuff (cb, h))) p = None"
proof -
  note I = mem_invD [OF inv]
  have "mem_inv sm (releaseAlignedBuff (cb, h)) \<and> noLeak (cb, h) (releaseAlignedBuff (cb, h))
    \<and> (hp_live h p = None \<longrightarrow> hp_live (snd (releaseAlignedBuff (cb, h))) p = None)"
  proof (cases "cb_alignedMem cb = 0")
    case True
    then show ?thesis using inv by (simp add: releaseAlignedBuff_def)
  next
    case False
    define cb1 where "cb1 = cb\<lparr>cb_alignedMem := 0, cb_alignedMemSize := 0\<rparr>"
    have own: "ownBlocks cb = add_mset (cb_alignedMem cb, cb_alignedMemSize cb) (ownBlocks cb1)"
      using False by (simp add: cb1_def ownBlocks_def catchBlocks_def alignedBlock_def)
    note f = free_owned [OF I(3) [unfolded own] I(6)] and o = blocks_ok_owner [OF I(3) [unfolded own]]
    have r: "releaseAlignedBuff (cb, h) = (cb1, ossMemFree (cb_alignedMem cb) h)" using False by (simp add: releaseAlignedBuff_def cb1_def)
    have "totals_ok sm cb1" using I(4) by (simp add: cb1_def totals_ok_def)
    then have "mem_inv sm (cb1, ossMemFree (cb_alignedMem cb) h)" using I f unfolding mem_inv_def by (simp add: cb1_def)
    moreover have "noLeak (cb, h) (cb1, ossMemFree (cb_alignedMem cb) h)" using o(3) f(3) by (intro noLeakI) (auto simp: own)
    ultimately show ?thesis using f(3) unfolding r by simp
  qed
  then show "mem_inv sm (releaseAlignedBuff (cb, h))" "noLeak (cb, h) (releaseAlignedBuff (cb, h))"
    "hp_live h p = None \<Longrightarrow> hp_live (snd (releaseAlignedBuff (cb, h))) p = None" by blast+
  show "alignedBlock (fst (releaseAlignedBuff (cb, h))) = {#}" "cb_catchMap (fst (releaseAlignedBuff (cb, h))) = cb_catchMap cb"
    "cb_allocMap (fst (releaseAlignedBuff (cb, h))) = cb_allocMap cb" "cb_queue (fst (releaseAlignedBuff (cb, h))) = cb_queue cb"
    by (simp_all add: releaseAlignedBuff_def alignedBlock_def)
qed

lemma getAlignedBuff_inv:
  assumes inv: "mem_inv sm (cb, h)" and os: "freshAddr os h" and run: "getAlignedBuff os sz al (cb, h) = (p, n, cb', h')"
  shows "mem_inv sm (cb', h')"
proof (cases "cb_alignedMemSize cb < sz")
  case False
  then show ?thesis using inv run by (auto simp: getAlignedBuff_def)
next
  case True
  obtain cb1 h1 where r: "releaseAlignedBuff (cb, h) = (cb1, h1)" by (cases "releaseAlignedBuff (cb, h)")
  note A = alignedBuff_inv [OF inv, unfolded r] and J = mem_invD [OF alignedBuff_inv(1) [OF inv, unfolded r]]
  have z: "cb_alignedMem cb1 = 0" using A(3) by (simp add: alignedBlock_def split: if_splits)
  show ?thesis
  proof (cases "os = 0")
    case True
    then have "cb' = cb1\<lparr>cb_alignedMem := 0\<rparr>" "h' = h1" using run r \<open>cb_alignedMemSize cb < sz\<close> by (auto simp: getAlignedBuff_def Let_def)
    then show ?thesis using A(1) z by (simp add: mem_inv_cong(1) [of "cb1\<lparr>cb_alignedMem := 0\<rparr>" cb1])
  next
    case False
    let ?n = "ossRoundUpToMultipleX sz al"
    have r': "cb' = cb1\<lparr>cb_alignedMem := os, cb_alignedMemSize := ?n\<rparr>" "h' = h1\<lparr>hp_live := (hp_live h1)(os \<mapsto> ?n)\<rparr>"
      using run r True False by (auto simp: getAlignedBuff_def Let_def)
    have new: "hp_live h1 os = None" using A(7) os False by (simp add: freshAddr_def)
    have own: "ownBlocks cb' = add_mset (os, ?n) (ownBlocks cb1)" using False z by (simp add: r' ownBlocks_def catchBlocks_def alignedBlock_def)
    have "totals_ok sm cb'" using J(4) by (simp add: r' totals_ok_def)
    then show ?thesis using J new_block [OF J(3) new False, of ?n] own False unfolding mem_inv_def by (simp add: r')
  qed
qed

text \<open>Releasing a list of buffers of the table: afterwards they are in the cache or freed.\<close>

lemma release_all:
  assumes "mem_inv sm (cb, h)" and "distinct ps" and "set ps \<subseteq> fst ` set (cb_allocMap cb)" and "fold releaseBuff ps (cb, h) = (cb', h')"
  shows "mem_inv sm (cb', h') \<and> fst ` set (cb_allocMap cb') = fst ` set (cb_allocMap cb) - set ps \<and> cb_queue cb' = cb_queue cb
    \<and> noLeak (cb, h) (cb', h') \<and> fst ` set_mset (ownBlocks cb') \<subseteq> fst ` set_mset (ownBlocks cb)"
  using assms
proof (induction ps arbitrary: cb h)
  case (Cons p ps)
  obtain cb1 h1 where r: "releaseBuff p (cb, h) = (cb1, h1)" by (cases "releaseBuff p (cb, h)")
  obtain n where p: "map_of (cb_allocMap cb) p = Some n" using Cons.prems(3) by (cases "map_of (cb_allocMap cb) p") (auto simp: map_of_eq_None_iff)
  note R = release_owned [OF Cons.prems(1) p r]
  have keys: "fst ` set (cb_allocMap cb1) = fst ` set (cb_allocMap cb) - {p}" unfolding R(2) smap_erase_set by force
  have IH: "mem_inv sm (cb', h') \<and> fst ` set (cb_allocMap cb') = fst ` set (cb_allocMap cb1) - set ps \<and> cb_queue cb' = cb_queue cb1
    \<and> noLeak (cb1, h1) (cb', h') \<and> fst ` set_mset (ownBlocks cb') \<subseteq> fst ` set_mset (ownBlocks cb1)"
    by (rule Cons.IH) (use R(1) Cons.prems(2,3,4) r keys in auto)
  moreover have "noLeak (cb, h) (cb', h')" by (rule noLeak_trans [OF R(4)]) (use IH R(5) in simp_all)
  ultimately show ?case using R(3,5) keys by (simp add: Diff_insert2 [of _ p "set ps"] subset_trans [OF _ R(5)])
qed simp

text \<open>Events own the buffer they carry: an allocated block of their own, or a buffer of the control block.\<close>

definition relPtrs :: "pmdEDUEvent list \<Rightarrow> nat list" where
  "relPtrs evs = map ev_Data (filter (\<lambda>e. ev_Data e \<noteq> 0 \<and> ev_dataMemType e \<noteq> PMD_EDU_MEM_NONE) evs)"

definition events_ok :: "pmdEDUEvent list \<Rightarrow> eduMem \<Rightarrow> bool" where
  "events_ok evs m \<longleftrightarrow> distinct (relPtrs evs)
     \<and> (\<forall>e\<in>set evs. ev_Data e \<noteq> 0 \<longrightarrow>
          (ev_dataMemType e = PMD_EDU_MEM_ALLOC \<longrightarrow> foreign (ev_Data e) (ownBlocks (fst m)) (snd m))
          \<and> (ev_dataMemType e = PMD_EDU_MEM_SELF \<longrightarrow> ev_Data e \<in> fst ` set (cb_allocMap (fst m))))"

lemma relPtrs_apart:
  assumes "distinct (relPtrs (e # evs))" and "ev_Data e \<noteq> 0" and "ev_dataMemType e \<noteq> PMD_EDU_MEM_NONE"
    and "x \<in> set evs" and "ev_Data x \<noteq> 0" and "ev_dataMemType x \<noteq> PMD_EDU_MEM_NONE"
  shows "ev_Data x \<noteq> ev_Data e"
proof -
  have "ev_Data e \<notin> set (relPtrs evs)" using assms(1-3) by (simp add: relPtrs_def)
  moreover have "ev_Data x \<in> set (relPtrs evs)" using assms(4-6) by (simp add: relPtrs_def)
  ultimately show ?thesis by metis
qed

lemma release_event:
  assumes inv: "mem_inv sm (cb, h)" and ok: "events_ok (e # evs) (cb, h)" and run: "pmdEduEventRelase e (cb, h) = (cb', h')"
  shows "mem_inv sm (cb', h')" "events_ok evs (cb', h')" "fst ` set_mset (ownBlocks cb') \<subseteq> fst ` set_mset (ownBlocks cb)"
    "\<forall>q. q \<in> fst ` set_mset (ownBlocks cb) \<longrightarrow> q \<notin> fst ` set_mset (ownBlocks cb') \<longrightarrow> hp_live h' q = None"
    "\<forall>q. q \<notin> fst ` set_mset (ownBlocks cb) \<longrightarrow> hp_live h' q = (if q \<in> set (relPtrs [e]) then None else hp_live h q)"
proof -
  let ?own = "fst ` set_mset (ownBlocks cb)" and ?own' = "fst ` set_mset (ownBlocks cb')"
  consider (none) "ev_Data e = 0 \<or> ev_dataMemType e = PMD_EDU_MEM_NONE" | (alloc) "ev_Data e \<noteq> 0" "ev_dataMemType e = PMD_EDU_MEM_ALLOC"
    | (self) "ev_Data e \<noteq> 0" "ev_dataMemType e = PMD_EDU_MEM_SELF" by (cases "ev_dataMemType e") auto
  then have "mem_inv sm (cb', h') \<and> events_ok evs (cb', h') \<and> ?own' \<subseteq> ?own
    \<and> (\<forall>q. q \<in> ?own \<longrightarrow> q \<notin> ?own' \<longrightarrow> hp_live h' q = None) \<and> (\<forall>q. q \<notin> ?own \<longrightarrow> hp_live h' q = (if q \<in> set (relPtrs [e]) then None else hp_live h q))"
  proof cases
    case none
    then have "cb' = cb" "h' = h" "relPtrs [e] = []" using run by (auto simp: pmdEduEventRelase_def relPtrs_def)
    moreover have "events_ok evs (cb, h)" using ok by (auto simp: events_ok_def relPtrs_def split: if_splits)
    ultimately show ?thesis using inv by simp
  next
    case alloc
    let ?p = "ev_Data e"
    have f: "foreign ?p (ownBlocks cb) h" using ok alloc by (simp add: events_ok_def)
    have r: "cb' = cb" "h' = ossMemFree ?p h" using run alloc by (auto simp: pmdEduEventRelase_def)
    have live: "hp_live h' = (hp_live h)(?p := None)" using free_foreign(3) [OF mem_invD(3) [OF inv] f mem_invD(6) [OF inv]] alloc r by simp
    have "ev_Data x \<noteq> ?p" if "x \<in> set evs" "ev_Data x \<noteq> 0" "ev_dataMemType x \<noteq> PMD_EDU_MEM_NONE" for x
      using relPtrs_apart [of e evs x] ok that alloc by (simp add: events_ok_def)
    then have "events_ok evs (cb', h')" using ok live by (auto simp: events_ok_def relPtrs_def foreign_def r(1) split: if_splits)
    moreover have "set (relPtrs [e]) = {?p}" using alloc by (simp add: relPtrs_def)
    moreover have "?p \<notin> ?own" using f by (simp add: foreign_def)
    ultimately show ?thesis using release_foreign(2) [OF inv f] live by (auto simp: r)
  next
    case self
    let ?p = "ev_Data e"
    have pk: "?p \<in> fst ` set (cb_allocMap cb)" using ok self by (simp add: events_ok_def)
    then obtain n where p: "map_of (cb_allocMap cb) ?p = Some n" by (cases "map_of (cb_allocMap cb) ?p") (auto simp: map_of_eq_None_iff)
    have "releaseBuff ?p (cb, h) = (cb', h')" using run self by (simp add: pmdEduEventRelase_def)
    note R = release_owned [OF inv p this]
    have keys: "fst ` set (cb_allocMap cb') = fst ` set (cb_allocMap cb) - {?p}" unfolding R(2) smap_erase_set by force
    have frame: "hp_live h' q = hp_live h q" if "q \<notin> ?own" for q by (rule noLeakD(2) [OF R(4,5) that])
    have apart: "ev_Data x \<noteq> ?p" if "x \<in> set evs" "ev_Data x \<noteq> 0" "ev_dataMemType x \<noteq> PMD_EDU_MEM_NONE" for x
      using relPtrs_apart [of e evs x] ok that self by (simp add: events_ok_def)
    have "foreign (ev_Data x) (ownBlocks cb') h'" if "x \<in> set evs" "ev_Data x \<noteq> 0" "ev_dataMemType x = PMD_EDU_MEM_ALLOC" for x
    proof -
      have "foreign (ev_Data x) (ownBlocks cb) h" using ok that by (simp add: events_ok_def)
      then have "ev_Data x \<notin> ?own" "hp_live h (ev_Data x) \<noteq> None" using that(2) by (simp_all add: foreign_def)
      then show ?thesis using frame R(5) unfolding foreign_def by (simp add: subset_iff) blast
    qed
    moreover have "ev_Data x \<in> fst ` set (cb_allocMap cb')" if "x \<in> set evs" "ev_Data x \<noteq> 0" "ev_dataMemType x = PMD_EDU_MEM_SELF" for x
      using apart [OF that(1,2)] ok that unfolding keys by (simp add: events_ok_def)
    moreover have "distinct (relPtrs evs)" using ok by (auto simp: events_ok_def relPtrs_def split: if_splits)
    ultimately have "events_ok evs (cb', h')" unfolding events_ok_def by simp
    moreover have "?p \<in> ?own" using pk by (auto simp: ownBlocks_def)
    moreover have "set (relPtrs [e]) = {?p}" using self by (simp add: relPtrs_def)
    ultimately show ?thesis using R(1,5) frame noLeakD(1) [OF R(4)] by (intro conjI) auto
  qed
  then show "mem_inv sm (cb', h')" "events_ok evs (cb', h')" "?own' \<subseteq> ?own" "\<forall>q. q \<in> ?own \<longrightarrow> q \<notin> ?own' \<longrightarrow> hp_live h' q = None"
    "\<forall>q. q \<notin> ?own \<longrightarrow> hp_live h' q = (if q \<in> set (relPtrs [e]) then None else hp_live h q)" by - (elim conjE, assumption)+
qed

lemma release_events:
  assumes "mem_inv sm (cb, h)" and "events_ok evs (cb, h)" and "fold pmdEduEventRelase evs (cb, h) = (cb', h')"
  shows "mem_inv sm (cb', h') \<and> fst ` set_mset (ownBlocks cb') \<subseteq> fst ` set_mset (ownBlocks cb)
    \<and> (\<forall>q. q \<in> fst ` set_mset (ownBlocks cb) \<longrightarrow> q \<notin> fst ` set_mset (ownBlocks cb') \<longrightarrow> hp_live h' q = None)
    \<and> (\<forall>q. q \<notin> fst ` set_mset (ownBlocks cb) \<longrightarrow> hp_live h' q = (if q \<in> set (relPtrs evs) then None else hp_live h q))"
  using assms
proof (induction evs arbitrary: cb h)
  case (Cons e evs)
  obtain cb1 h1 where r: "pmdEduEventRelase e (cb, h) = (cb1, h1)" by (cases "pmdEduEventRelase e (cb, h)")
  note R = release_event [OF Cons.prems(1,2) r]
  have run: "fold pmdEduEventRelase evs (cb1, h1) = (cb', h')" using Cons.prems(3) r by simp
  define A B C where "A = fst ` set_mset (ownBlocks cb)" and "B = fst ` set_mset (ownBlocks cb1)" and "C = fst ` set_mset (ownBlocks cb')"
  note IH = Cons.IH [OF R(1,2) run, folded B_def C_def] and R' = R(3,4,5) [folded A_def B_def]
  have rel: "set (relPtrs (e # evs)) = set (relPtrs [e]) \<union> set (relPtrs evs)" by (auto simp: relPtrs_def)
  have "hp_live h' q = None" if "q \<in> A" "q \<notin> C" for q
    using that IH R'(2) by (cases "q \<in> B") auto
  moreover have "hp_live h' q = (if q \<in> set (relPtrs (e # evs)) then None else hp_live h q)" if "q \<notin> A" for q
  proof -
    have "q \<notin> B" using that R'(1) by blast
    then show ?thesis using IH R'(3) that unfolding rel by auto
  qed
  ultimately show ?case using IH R'(1) unfolding A_def [symmetric] C_def [symmetric] by blast
qed (simp add: relPtrs_def)

text \<open>\<open>clear\<close>: the two assertions at its end hold, and every block of the control block and of its events is freed, once.\<close>

lemma clear_ok:
  assumes inv: "mem_inv sm (cb, h)" and ev: "events_ok (cb_queue cb) (cb, h)" and run: "educb_clear (cb, h) = (cb', h')"
  shows "mem_inv sm (cb', h')" "cb_totalCatchSize cb' = 0" "sm \<Longrightarrow> cb_totalMemSize cb' = 0" "ownBlocks cb' = {#}" "cb_queue cb' = []"
    "hp_live h' = (\<lambda>q. if q \<in> fst ` set_mset (ownBlocks cb) \<union> set (relPtrs (cb_queue cb)) then None else hp_live h q)"
proof -
  obtain cb1 h1 where r1: "fold pmdEduEventRelase (cb_queue cb) (cb, h) = (cb1, h1)" by (cases "fold pmdEduEventRelase (cb_queue cb) (cb, h)")
  note R = release_events [OF inv ev r1]
  define cb2 where "cb2 = cb1\<lparr>cb_queue := [], cb_processEventCount := 0, cb_name := [], cb_isLocked := False, cb_ctrlFlag := 0\<rparr>"
  have own2: "ownBlocks cb2 = ownBlocks cb1" and inv2: "mem_inv sm (cb2, h1)"
    using R mem_inv_cong [where cb = cb2 and cb' = cb1] by (simp_all add: cb2_def)
  obtain cb3 h3 where r3: "releaseAlignedBuff (cb2, h1) = (cb3, h3)" by (cases "releaseAlignedBuff (cb2, h1)")
  note A = alignedBuff_inv [OF inv2, unfolded r3 fst_conv snd_conv] and I3 = mem_invD [OF alignedBuff_inv(1) [OF inv2, unfolded r3]]
  let ?xs = "map prod.swap (cb_catchMap cb3) @ cb_allocMap cb3"
  have own3: "ownBlocks cb3 = mset ?xs + {#}" using A(3) by (simp add: ownBlocks_def catchBlocks_def)
  note free = free_all [OF I3(3) [unfolded own3] I3(6)]
  have h': "h' = fold ossMemFree (map fst ?xs) h3" using run r1 r3 unfolding educb_clear_def fst_conv r1 Let_def prod.case cb2_def [symmetric]
    by (auto simp: freeAlloc_def freeCatch_def Let_def comp_def)
  have cb': "cb' = cb3\<lparr>cb_catchMap := [], cb_allocMap := [], cb_totalCatchSize := cb_totalCatchSize cb3 - (\<Sum>e\<leftarrow>cb_catchMap cb3. int (fst e)),
      cb_totalMemSize := cb_totalMemSize cb3 - (\<Sum>e\<leftarrow>cb_catchMap cb3. int (fst e)) - (\<Sum>e\<leftarrow>cb_allocMap cb3. int (snd e))\<rparr>"
    using run r3 unfolding educb_clear_def fst_conv r1 Let_def prod.case cb2_def [symmetric] by (auto simp: freeAlloc_def freeCatch_def Let_def)
  have sums: "(\<Sum>(n, p)\<in>#mset (cb_catchMap cb3). int n) = (\<Sum>e\<leftarrow>cb_catchMap cb3. int (fst e))"
    "(\<Sum>(p, n)\<in>#mset (cb_allocMap cb3). int n) = (\<Sum>e\<leftarrow>cb_allocMap cb3. int (snd e))"
    by (simp_all add: case_prod_beta' sum_mset_sum_list flip: mset_map)
  show zero: "cb_totalCatchSize cb' = 0" "sm \<Longrightarrow> cb_totalMemSize cb' = 0" using I3(4) by (simp_all add: cb' totals_ok_def sums)
  show own: "ownBlocks cb' = {#}" using A(3) by (simp add: cb' ownBlocks_def catchBlocks_def alignedBlock_def split: if_splits)
  show "cb_queue cb' = []" using A(6) by (simp add: cb' cb2_def)
  show "mem_inv sm (cb', h')" using zero own free I3(5) unfolding mem_inv_def h' by (simp add: cb' totals_ok_def)
  have keys: "fst ` set ?xs = fst ` set_mset (ownBlocks cb3)" unfolding own3 by simp
  define A1 B1 C1 where "A1 = fst ` set_mset (ownBlocks cb)" and "B1 = fst ` set_mset (ownBlocks cb1)" and "C1 = fst ` set_mset (ownBlocks cb3)"
  have "ownBlocks cb1 = ownBlocks cb3 + alignedBlock cb1" using A(3,4,5) by (simp add: ownBlocks_def catchBlocks_def cb2_def)
  then have CB: "C1 \<subseteq> B1" unfolding B1_def C1_def by auto
  note leak = noLeakD [OF A(2), unfolded own2, folded B1_def C1_def]
  have "hp_live h' q = (if q \<in> A1 \<union> set (relPtrs (cb_queue cb)) then None else hp_live h q)" for q
    using R leak CB free [unfolded keys] unfolding h' A1_def [symmetric] B1_def [symmetric] C1_def [symmetric]
    by (cases "q \<in> A1"; cases "q \<in> B1"; cases "q \<in> C1") auto
  then show "hp_live h' = (\<lambda>q. if q \<in> fst ` set_mset (ownBlocks cb) \<union> set (relPtrs (cb_queue cb)) then None else hp_live h q)"
    unfolding A1_def by blast
qed

text \<open>The cache handed to another owner, and taken over from one.\<close>

definition given :: "(nat \<times> nat) list \<Rightarrow> eduMem \<Rightarrow> bool" where
  "given cm m \<longleftrightarrow> blocks_ok (image_mset prod.swap (mset cm) + ownBlocks (fst m)) (snd m) \<and> (\<forall>(n, p)\<in>set cm. n < 2147483648)"

lemma restoreBuffs_inv:
  assumes "mem_inv sm (cb, h)" and "given cm (cb, h)"
  shows "mem_inv sm (restoreBuffs cm cb, h) \<and> ownBlocks (restoreBuffs cm cb) = image_mset prod.swap (mset cm) + ownBlocks cb
    \<and> cb_queue (restoreBuffs cm cb) = cb_queue cb"
  using assms
proof (induction cm arbitrary: cb)
  case (Cons e cm)
  obtain n p where e: "e = (n, p)" by (cases e)
  define cb1 where "cb1 = cb\<lparr>cb_catchMap := multi_insert n p (cb_catchMap cb), cb_totalCatchSize := cb_totalCatchSize cb + int n, cb_totalMemSize := cb_totalMemSize cb + int n\<rparr>"
  note I = mem_invD [OF Cons.prems(1)]
  have own: "ownBlocks cb1 = add_mset (p, n) (ownBlocks cb)" by (simp add: cb1_def ownBlocks_def catchBlocks_def alignedBlock_def)
  have g: "given cm (cb1, h)" using Cons.prems(2) by (simp add: given_def own e)
  have "blocks_ok (add_mset (p, n) (ownBlocks cb)) h" using Cons.prems(2) by (auto simp: given_def e intro: blocks_ok_add_mono)
  then have "blocks_ok (ownBlocks cb1) h" unfolding own .
  moreover have "totals_ok sm cb1" using I(4) Cons.prems(2) by (simp add: cb1_def totals_ok_def given_def e)
  ultimately have "mem_inv sm (cb1, h)" using I multi_insert_sorted [OF I(1)] unfolding mem_inv_def by (simp add: cb1_def)
  note IH = Cons.IH [OF this g]
  have "restoreBuffs (e # cm) cb = restoreBuffs cm cb1" by (simp add: restoreBuffs_def e cb1_def)
  moreover have "cb_queue cb1 = cb_queue cb" by (simp add: cb1_def)
  ultimately show ?case using IH by (simp add: own e)
qed (simp add: restoreBuffs_def)

lemma saveBuffs_inv:
  assumes inv: "mem_inv sm (cb, h)" and run: "saveBuffs [] (cb, h) = (cm, cb', h')"
  shows "mem_inv sm (cb', h')" "given cm (cb', h')" "cb_catchMap cb' = []" "cb_allocMap cb' = []" "cb_queue cb' = cb_queue cb"
    "mset cm = mset (cb_catchMap (fst (fold releaseBuff (map fst (cb_allocMap cb)) (cb, h))))"
proof -
  obtain cb1 h1 where r: "fold releaseBuff (map fst (cb_allocMap cb)) (cb, h) = (cb1, h1)" by (cases "fold releaseBuff (map fst (cb_allocMap cb)) (cb, h)")
  note R = release_all [OF inv smap_ok_distinct [OF mem_invD(2) [OF inv]] _ r]
  have R1: "mem_inv sm (cb1, h1)" "cb_allocMap cb1 = []" "cb_queue cb1 = cb_queue cb" using R by auto
  note I = mem_invD [OF R1(1)]
  have ins: "mset (fold (\<lambda>(n, p). multi_insert n p) xs ys) = mset xs + mset ys" for xs ys :: "(nat \<times> nat) list"
    by (induction xs arbitrary: ys) auto
  have d: "cm = fold (\<lambda>(n, p). multi_insert n p) (cb_catchMap cb1) []" "h' = h1"
    "cb' = cb1\<lparr>cb_allocMap := [], cb_catchMap := [], cb_totalCatchSize := cb_totalCatchSize cb1 - (\<Sum>e\<leftarrow>cb_catchMap cb1. int (fst e)),
       cb_totalMemSize := cb_totalMemSize cb1 - (\<Sum>e\<leftarrow>cb_catchMap cb1. int (fst e))\<rparr>"
    using run by (auto simp: saveBuffs_def r Let_def)
  have cm: "mset cm = mset (cb_catchMap cb1)" by (simp add: d(1) ins)
  have own: "image_mset prod.swap (mset cm) + ownBlocks cb' = ownBlocks cb1" using R1(2) by (simp add: cm d(3) ownBlocks_def catchBlocks_def alignedBlock_def)
  have set: "set cm = set (cb_catchMap cb1)" using cm by (rule mset_eq_setD)
  show g: "given cm (cb', h')" using I(3,4) unfolding given_def fst_conv snd_conv own set d(2) by (simp add: totals_ok_def)
  have sums: "(\<Sum>(n, p)\<in>#mset (cb_catchMap cb1). int n) = (\<Sum>e\<leftarrow>cb_catchMap cb1. int (fst e))"
    by (simp add: case_prod_beta' sum_mset_sum_list flip: mset_map)
  have "blocks_ok (ownBlocks cb') h'" using g by (auto simp: given_def intro: blocks_ok_mono)
  then show "mem_inv sm (cb', h')" using I R1(2) unfolding mem_inv_def by (simp add: d(2,3) totals_ok_def sums)
  show "cb_catchMap cb' = []" "cb_allocMap cb' = []" "cb_queue cb' = cb_queue cb" using R1 by (simp_all add: d(3))
  show "mset cm = mset (cb_catchMap (fst (fold releaseBuff (map fst (cb_allocMap cb)) (cb, h))))" by (simp add: r cm)
qed

section \<open>Every run of the buffer manager\<close>

text \<open>
  The steps of a control block's owner, with what each caller has to see to: addresses from the system that are not live, buffers to release that are the control block's or the caller's own, and queued events that own what they carry.  In between, other
  threads use the heap without touching the blocks of this control block.  Lengths are any 32-bit numbers; with \<open>sm\<close> they are at most 2147482624, so that no
  buffer reaches 2 GB when its length is rounded up.
\<close>

inductive memStep :: "bool \<Rightarrow> eduMem \<Rightarrow> eduMem \<Rightarrow> bool" for sm where
  alloc: "len < 4294967296 \<Longrightarrow> sm \<longrightarrow> len \<le> 2147482624 \<Longrightarrow> freshAddr os h \<Longrightarrow> allocBuff os len (cb, h) = (rc, p, sz, m) \<Longrightarrow> memStep sm (cb, h) m"
| realloc: "len < 4294967296 \<Longrightarrow> sm \<longrightarrow> len \<le> 2147482624 \<Longrightarrow> freshAddr os h \<or> os = pOld \<Longrightarrow> map_of (cb_allocMap cb) pOld \<noteq> None \<or> foreign pOld (ownBlocks cb) h \<Longrightarrow>
    reallocBuff os len pOld (cb, h) = (rc, p, sz, m) \<Longrightarrow> memStep sm (cb, h) m"
| release: "map_of (cb_allocMap cb) p \<noteq> None \<or> foreign p (ownBlocks cb) h \<Longrightarrow> memStep sm (cb, h) (releaseBuff p (cb, h))"
| aligned: "freshAddr os h \<Longrightarrow> getAlignedBuff os sz al (cb, h) = (p, n, m) \<Longrightarrow> memStep sm (cb, h) m"
| releaseAligned: "memStep sm (cb, h) (releaseAlignedBuff (cb, h))"
| save: "saveBuffs [] (cb, h) = (cm, m) \<Longrightarrow> memStep sm (cb, h) m"
| restore: "given cm (cb, h) \<Longrightarrow> memStep sm (cb, h) (restoreBuffs cm cb, h)"
| clear: "events_ok (cb_queue cb) (cb, h) \<Longrightarrow> memStep sm (cb, h) (educb_clear (cb, h))"
| post: "memStep sm (cb, h) (postEvent ev cb, h)"
| wait: "waitEventOf ty client arrs ms rs cb = (found, cb') \<Longrightarrow> memStep sm (cb, h) (cb', h)"
| others: "\<forall>q\<in>fst ` set_mset (ownBlocks cb). hp_live h' q = hp_live h q \<Longrightarrow> hp_bad h' = hp_bad h \<Longrightarrow> memStep sm (cb, h) (cb, h')"

inductive memReach :: "bool \<Rightarrow> eduMem \<Rightarrow> bool" for sm where
  new: "\<not> hp_bad h \<Longrightarrow> memReach sm (educb_new errBuffOk ty, h)"
| step: "memReach sm m \<Longrightarrow> memStep sm m m' \<Longrightarrow> memReach sm m'"


text \<open>Waiting for events leaves the buffers alone.\<close>

definition memPart :: "pmdEDUCB \<Rightarrow> (nat \<times> nat) list \<times> (nat \<times> nat) list \<times> int \<times> int \<times> nat \<times> nat" where
  "memPart cb = (cb_catchMap cb, cb_allocMap cb, cb_totalCatchSize cb, cb_totalMemSize cb, cb_alignedMem cb, cb_alignedMemSize cb)"

lemma mem_inv_memPart: "memPart cb = memPart cb' \<Longrightarrow> mem_inv sm (cb, h) \<longleftrightarrow> mem_inv sm (cb', h)"
  by (rule mem_inv_cong(1)) (simp_all add: memPart_def)

lemma isInterrupted_mem: "isInterrupted client cb = (b, cb') \<Longrightarrow> memPart cb' = memPart cb"
  by (auto simp: isInterrupted_def memPart_def split: if_splits clientView.splits)

lemma waitEvent_mem: "waitEvent arr ms rs cb = Some (r, cb') \<Longrightarrow> memPart cb' = memPart cb"
  by (auto simp: waitEvent_def memPart_def Let_def split: if_splits list.splits)

lemma waitRound_mem:
  "waitRound ty client rs (arrs, ms, tmp, cb) = Inl (found, tmp', cb') \<Longrightarrow> memPart cb' = memPart cb"
  "waitRound ty client rs (arrs, ms, tmp, cb) = Inr (arrs', ms', tmp', cb') \<Longrightarrow> memPart cb' = memPart cb"
proof -
  obtain intr cb0 where i: "isInterrupted client cb = (intr, cb0)" by (cases "isInterrupted client cb")
  note e = waitRound_def i prod.case Let_def
  show "memPart cb' = memPart cb" if "waitRound ty client rs (arrs, ms, tmp, cb) = Inl (found, tmp', cb')"
    using that [unfolded e] isInterrupted_mem [OF i] by (auto split: if_splits option.splits dest!: waitEvent_mem)
  show "memPart cb' = memPart cb" if "waitRound ty client rs (arrs, ms, tmp, cb) = Inr (arrs', ms', tmp', cb')"
    using that [unfolded e] isInterrupted_mem [OF i]
    by (auto split: if_splits option.splits dest!: waitEvent_mem) (simp_all add: memPart_def)
qed

lemma waitEventLoop_mem:
  "waitEventLoop ty client rs st = (found, tmp', cb') \<Longrightarrow> memPart cb' = memPart (snd (snd (snd st)))"
proof (induction ty client rs st rule: waitEventLoop.induct)
  case (1 ty client rs st)
  obtain arrs ms tmp cb where st: "st = (arrs, ms, tmp, cb)" by (cases st)
  show ?case
  proof (cases "waitRound ty client rs st")
    case (Inl r)
    have "r = (found, tmp', cb')" using "1.prems" unfolding waitEventLoop.simps [of ty client rs st] Inl by simp
    then show ?thesis using waitRound_mem(1) Inl by (simp add: st)
  next
    case (Inr st1)
    obtain arrs1 ms1 tmp1 cb1 where st1: "st1 = (arrs1, ms1, tmp1, cb1)" by (cases st1)
    have "memPart cb' = memPart cb1" using "1.IH" [OF Inr] "1.prems" Inr by (simp add: waitEventLoop.simps [of ty client rs st] st1)
    then show ?thesis using waitRound_mem(2) Inr by (simp add: st st1)
  qed
qed

lemma waitEventOf_mem: "waitEventOf ty client arrs ms rs cb = (found, cb') \<Longrightarrow> memPart cb' = memPart cb"
  by (auto simp: waitEventOf_def Let_def split: prod.splits dest!: waitEventLoop_mem) (simp add: memPart_def)

lemma memStep_inv: "memStep sm m m' \<Longrightarrow> mem_inv sm m \<Longrightarrow> mem_inv sm m'"
proof (induction rule: memStep.induct)
  case (alloc len os h cb rc p sz m)
  then show ?case using allocBuff_inv(1) by (cases m) blast
next
  case (realloc len os h pOld cb rc p sz m)
  then show ?case using reallocBuff_inv(1) by (cases m) blast
next
  case (release cb p h)
  obtain cb' h' where r: "releaseBuff p (cb, h) = (cb', h')" by (cases "releaseBuff p (cb, h)")
  show ?case
  proof (cases "map_of (cb_allocMap cb) p")
    case None
    then show ?thesis using release release_foreign by simp
  next
    case (Some n)
    then show ?thesis using release_owned(1) [OF release(2) Some r] r by simp
  qed
next
  case (aligned os h sz al cb p n m)
  then show ?case using getAlignedBuff_inv by (cases m) blast
next
  case (releaseAligned cb h)
  then show ?case by (rule alignedBuff_inv(1))
next
  case (save cb h cm m)
  then show ?case using saveBuffs_inv(1) by (cases m) blast
next
  case (restore cm cb h)
  then show ?case using restoreBuffs_inv by blast
next
  case (clear cb h)
  then show ?case using clear_ok(1) by (cases "educb_clear (cb, h)") simp
next
  case (post cb h ev)
  have "memPart (postEvent ev cb) = memPart cb" by (simp add: memPart_def postEvent_def)
  then show ?case using post mem_inv_memPart by blast
next
  case (wait ty client arrs ms rs cb found cb' h)
  then show ?case using waitEventOf_mem mem_inv_memPart by blast
next
  case (others cb h' h)
  have "hp_live h' q = hp_live h q" if "(q, n) \<in># ownBlocks cb" for q n using others(1) that by force
  then show ?case using others(2,3) unfolding mem_inv_def blocks_ok_def by (auto simp: Ball_def)
qed

lemma memReach_inv: "memReach sm m \<Longrightarrow> mem_inv sm m"
  by (induction rule: memReach.induct) (simp_all add: mem_inv_new memStep_inv)

text \<open>The buffers a control block holds: cached, given out, aligned.\<close>

definition buffers :: "pmdEDUCB \<Rightarrow> nat list" where
  "buffers cb = map snd (cb_catchMap cb) @ map fst (cb_allocMap cb) @ (if cb_alignedMem cb = 0 then [] else [cb_alignedMem cb])"

lemma buffers_own: "mset (buffers cb) = image_mset fst (ownBlocks cb)"
  by (simp add: buffers_def ownBlocks_def catchBlocks_def alignedBlock_def image_mset.compositionality comp_def)

lemma mem_inv_buffers:
  assumes "mem_inv sm (cb, h)"
  shows "distinct (buffers cb)" "q \<in> set (buffers cb) \<Longrightarrow> hp_live h q \<noteq> None"
proof -
  note B = mem_invD(3) [OF assms, unfolded blocks_ok_def]
  have "count (mset (buffers cb)) q \<le> 1" for q using B by (simp add: buffers_own)
  then show "distinct (buffers cb)" by (simp add: distinct_count_atmost_1 le_Suc_eq count_mset_0_iff)
  have "set (buffers cb) = fst ` set_mset (ownBlocks cb)" using arg_cong [OF buffers_own, of set_mset cb] by simp
  then show "hp_live h q \<noteq> None" if "q \<in> set (buffers cb)" using B that by auto
qed

text \<open>C9: in every run of a control block (buffers allocated, resized, released, cached and trimmed, handed over, cleared, in any order and with
  other threads using the heap in between), whatever 32-bit lengths are asked for, no block is ever freed twice or freed while it is not live, no
  buffer is held twice, every buffer held is live, and the size counter of the cache is exactly the bytes in the cache.  When no length above 2147482624 was ever
  asked for (no buffer reaches 2 GB), the other counter is exactly the bytes in the cache and given out.
\<close>

theorem edu_memory_safe:
  assumes "memReach small (cb, h)"
  shows "\<not> hp_bad h \<and> distinct (buffers cb) \<and> (\<forall>p\<in>set (buffers cb). hp_live h p \<noteq> None)
    \<and> cb_totalCatchSize cb = (\<Sum>(n, p)\<leftarrow>cb_catchMap cb. int n)
    \<and> (small \<longrightarrow> cb_totalMemSize cb = (\<Sum>(n, p)\<leftarrow>cb_catchMap cb. int n) + (\<Sum>(p, n)\<leftarrow>cb_allocMap cb. int n))"
proof -
  note I = memReach_inv [OF assms]
  show ?thesis using mem_invD(4,6) [OF I] mem_inv_buffers [OF I] by (simp add: totals_ok_def sum_mset_sum_list flip: mset_map)
qed


text \<open>A control block that allocates 5000 bytes, releases them into the cache and takes them from there again.\<close>

definition demoHeap :: ossHeap where
  "demoHeap = \<lparr> hp_live = Map.empty, hp_bad = False \<rparr>"

definition demoMem :: eduMem where
  "demoMem = snd (snd (snd (allocBuff 0 100 (releaseBuff 4096 (snd (snd (snd (allocBuff 4096 5000 (educb_new True 1, demoHeap)))))))))"

lemmas buff_evals = allocBuff_def releaseBuff_def educb_new_def allocFromCatch_def multi_take_def smap_erase_def ossMemAlloc_def
  ossRoundUpToMultipleX_def u32_def s32_def trimCatch.simps Let_def

lemma demoMem_eval: "cb_allocMap (fst demoMem) = [(4096, 5120)] \<and> cb_catchMap (fst demoMem) = [] \<and> cb_totalMemSize (fst demoMem) = 5120"
  by (simp add: demoMem_def buff_evals)

lemma demoMem_reach: "memReach sm demoMem"
proof -
  have 0: "memReach sm (educb_new True 1, demoHeap)" by (rule memReach.new) (simp add: demoHeap_def)
  obtain rc1 p1 sz1 cb h where a: "allocBuff 4096 5000 (educb_new True 1, demoHeap) = (rc1, p1, sz1, cb, h)"
    by (cases "allocBuff 4096 5000 (educb_new True 1, demoHeap)")
  have 1: "memReach sm (cb, h)" by (rule memReach.step [OF 0 memStep.alloc [OF _ _ _ a]]) (simp_all add: freshAddr_def demoHeap_def)
  have "map_of (cb_allocMap cb) 4096 \<noteq> None" using a by (auto simp: buff_evals)
  then have 2: "memReach sm (releaseBuff 4096 (cb, h))" by (intro memReach.step [OF 1 memStep.release]) simp
  obtain cb2 h2 where b: "releaseBuff 4096 (cb, h) = (cb2, h2)" by (cases "releaseBuff 4096 (cb, h)")
  obtain rc2 p2 sz2 m2 where c: "allocBuff 0 100 (cb2, h2) = (rc2, p2, sz2, m2)" by (cases "allocBuff 0 100 (cb2, h2)")
  have "memReach sm m2" by (rule memReach.step [OF 2 [unfolded b] memStep.alloc [OF _ _ _ c]]) (simp_all add: freshAddr_def)
  moreover have "demoMem = m2" using a b c by (simp add: demoMem_def)
  ultimately show ?thesis by simp
qed

text \<open>Why the length matters: a buffer of 2 GB that is released leaves the counter at 4 GB.\<close>

lemma large_buffer_miscounted:
  "memReach False (releaseBuff 4096 (snd (snd (snd (allocBuff 4096 2147483648 (educb_new True 1, demoHeap))))))
   \<and> cb_totalMemSize (fst (releaseBuff 4096 (snd (snd (snd (allocBuff 4096 2147483648 (educb_new True 1, demoHeap))))))) = 4294967296"
proof -
  have 0: "memReach False (educb_new True 1, demoHeap)" by (rule memReach.new) (simp add: demoHeap_def)
  obtain rc1 p1 sz1 cb h where a: "allocBuff 4096 2147483648 (educb_new True 1, demoHeap) = (rc1, p1, sz1, cb, h)"
    by (cases "allocBuff 4096 2147483648 (educb_new True 1, demoHeap)")
  have 1: "memReach False (cb, h)" by (rule memReach.step [OF 0 memStep.alloc [OF _ _ _ a]]) (simp_all add: freshAddr_def demoHeap_def)
  have m: "cb_allocMap cb = [(4096, 2147483648)]" "cb_totalMemSize cb = 2147483648" using a by (auto simp: buff_evals)
  have "memReach False (releaseBuff 4096 (cb, h))" by (intro memReach.step [OF 1 memStep.release]) (simp add: m)
  moreover have "cb_totalMemSize (fst (releaseBuff 4096 (cb, h))) = 4294967296" using m by (simp add: releaseBuff_def s32_def u32_def Let_def)
  ultimately show ?thesis by (simp add: a)
qed

theorem edu_memory_safe_witness: "\<not> hp_bad (snd demoMem) \<and> distinct (buffers (fst demoMem)) \<and> cb_totalMemSize (fst demoMem) = 5120"
  using edu_memory_safe [of True "fst demoMem" "snd demoMem"] demoMem_reach demoMem_eval by simp

text \<open>C26: clearing a control block in any state reached with any 32-bit lengths, when its queued events own the buffers they carry: the queue and all buffer tables
  are empty afterwards, every block the control block or a queued event owned is freed, each exactly once, and no other block is touched.  The size counter of the cache
  is 0, as \<open>clear\<close> asserts at its end; so is the other counter when no length above 2147482624 was ever asked for (no buffer reaches 2 GB).
\<close>

theorem clear_releases_all:
  assumes "memReach small (cb, h)" and "events_ok (cb_queue cb) (cb, h)" and "educb_clear (cb, h) = (cb', h')"
  shows "cb_totalCatchSize cb' = 0 \<and> (small \<longrightarrow> cb_totalMemSize cb' = 0) \<and> cb_queue cb' = [] \<and> buffers cb' = [] \<and> \<not> hp_bad h'
    \<and> hp_live h' = (\<lambda>q. if q \<in> set (buffers cb) \<union> set (relPtrs (cb_queue cb)) then None else hp_live h q)"
proof -
  note c = clear_ok [OF memReach_inv [OF assms(1)] assms(2,3)]
  have own: "set (buffers x) = fst ` set_mset (ownBlocks x)" for x using arg_cong [OF buffers_own, of set_mset x] by simp
  have "buffers cb' = []" using own [of cb'] c(4) by simp
  then show ?thesis using c(2,3,5,6) mem_invD(6) [OF c(1)] unfolding own by simp
qed

text \<open>The block of the example above with two messages in its queue: one carries its buffer, the other a block that another thread has allocated for it.\<close>

definition demoQueue :: eduMem where
  "demoQueue = (postEvent (event_new PMD_EDU_EVENT_MSG PMD_EDU_MEM_ALLOC 8192 0) (postEvent (event_new PMD_EDU_EVENT_MSG PMD_EDU_MEM_SELF 4096 0) (fst demoMem)),
     (snd demoMem)\<lparr>hp_live := (hp_live (snd demoMem))(8192 \<mapsto> 64)\<rparr>)"

lemma demoQueue_reach: "memReach sm demoQueue"
proof -
  let ?h = "(snd demoMem)\<lparr>hp_live := (hp_live (snd demoMem))(8192 \<mapsto> 64)\<rparr>"
  have "set_mset (ownBlocks (fst demoMem)) = {(4096, 5120)}" by (simp add: ownBlocks_def catchBlocks_def alignedBlock_def demoMem_eval) (simp add: demoMem_def buff_evals)
  then have "memStep sm (fst demoMem, snd demoMem) (fst demoMem, ?h)" by (intro memStep.others) simp_all
  then have "memReach sm (fst demoMem, ?h)" using demoMem_reach memReach.step by fastforce
  from memReach.step [OF memReach.step [OF this memStep.post] memStep.post] show ?thesis unfolding demoQueue_def .
qed

theorem clear_releases_all_witness:
  "map ev_Data (cb_queue (fst demoQueue)) = [4096, 8192] \<and> hp_live (snd demoQueue) 8192 = Some 64
   \<and> (case educb_clear demoQueue of (cb', h') \<Rightarrow> cb_totalMemSize cb' = 0 \<and> \<not> hp_bad h' \<and> hp_live h' 4096 = None \<and> hp_live h' 8192 = None)"
proof -
  have al: "cb_alignedMem (fst demoMem) = 0" "cb_queue (fst demoMem) = []" by (simp_all add: demoMem_def buff_evals)
  have q: "cb_queue (fst demoQueue) = [event_new PMD_EDU_EVENT_MSG PMD_EDU_MEM_SELF 4096 0, event_new PMD_EDU_EVENT_MSG PMD_EDU_MEM_ALLOC 8192 0]"
    using al by (simp add: demoQueue_def postEvent_def)
  have own: "ownBlocks (fst demoQueue) = {#(4096, 5120)#}" "cb_allocMap (fst demoQueue) = [(4096, 5120)]"
    using demoMem_eval al by (simp_all add: demoQueue_def postEvent_def ownBlocks_def catchBlocks_def alignedBlock_def)
  have e: "events_ok (cb_queue (fst demoQueue)) (fst demoQueue, snd demoQueue)"
    unfolding q events_ok_def using own by (simp add: relPtrs_def event_new_def foreign_def) (simp add: demoQueue_def)
  obtain cb' h' where c: "educb_clear (fst demoQueue, snd demoQueue) = (cb', h')" by (cases "educb_clear (fst demoQueue, snd demoQueue)")
  have r: "set (relPtrs (cb_queue (fst demoQueue))) = {4096, 8192}" unfolding q by (simp add: relPtrs_def event_new_def)
  have "hp_live (snd demoQueue) 8192 = Some 64" by (simp add: demoQueue_def)
  then show ?thesis using clear_releases_all [of True "fst demoQueue" "snd demoQueue", OF _ e c] demoQueue_reach r c by (simp add: q event_new_def)
qed

text \<open>C27: waiting for an event of one type never loses or duplicates an event.  Of the events in the queue and those posted in the first \<open>k\<close> rounds, the
  call returns the first of the type, or none, and then only events of other types have been looked at; the events it passed over are put back, in
  their order, behind all the others, and the event counter counts only the event returned.
\<close>

theorem waitEvent_keeps_events:
  assumes "waitEventOf ty client arrs ms rs cb = (found, cb')"
  shows "\<exists>k pre post. cb_queue cb' = post @ pre \<and> passedOver ty (cb_queue cb @ concat (take k arrs)) found pre post
    \<and> mset (cb_queue cb @ concat (take k arrs)) = mset (cb_queue cb') + (case found of None \<Rightarrow> {#} | Some ev \<Rightarrow> {#ev#})
    \<and> cb_processEventCount cb' = cb_processEventCount cb + (if found = None then 0 else 1)"
proof -
  obtain tmp cb1 where run: "waitEventLoop ty client rs (arrs, if ms < 0 then 0x7FFFFFFF else ms, [], cb) = (found, tmp, cb1)"
      "cb' = cb1\<lparr>cb_queue := cb_queue cb1 @ tmp\<rparr>"
    using assms by (auto simp: waitEventOf_def Let_def split: prod.splits)
  obtain k where k: "passedOver ty (cb_queue cb @ concat (take k arrs)) found tmp (cb_queue cb1)"
      "cb_processEventCount cb1 = cb_processEventCount cb + (if found = None then 0 else 1)"
    using waitEventLoop_queue [OF run(1) refl] by auto
  have "mset (cb_queue cb @ concat (take k arrs)) = mset (cb_queue cb1 @ tmp) + (case found of None \<Rightarrow> {#} | Some ev \<Rightarrow> {#ev#})"
    using k(1) by (cases found) (simp_all add: passedOver_def del: mset_append, simp_all)
  then show ?thesis using k run(2) by (intro exI [of _ k] exI [of _ tmp] exI [of _ "cb_queue cb1"]) (simp del: mset_append)
qed


definition demoWait :: pmdEDUCB where
  "demoWait = (educb_new True 1)\<lparr>cb_status := PMD_EDU_RUNNING,
     cb_queue := [event_new PMD_EDU_EVENT_MSG PMD_EDU_MEM_NONE 0 1, event_new PMD_EDU_EVENT_RESUME PMD_EDU_MEM_NONE 0 2]\<rparr>"

theorem waitEvent_keeps_events_witness:
  "\<exists>cb'. waitEventOf PMD_EDU_EVENT_RESUME NoClient [[event_new PMD_EDU_EVENT_MSG PMD_EDU_MEM_NONE 0 3]] 2000 True demoWait
      = (Some (event_new PMD_EDU_EVENT_RESUME PMD_EDU_MEM_NONE 0 2), cb')
    \<and> map ev_userData (cb_queue cb') = [3, 1] \<and> cb_processEventCount cb' = 1"
proof -
  let ?arrs = "[[event_new PMD_EDU_EVENT_MSG PMD_EDU_MEM_NONE 0 3]]"
  obtain found cb' where r: "waitEventOf PMD_EDU_EVENT_RESUME NoClient ?arrs 2000 True demoWait = (found, cb')"
    by (cases "waitEventOf PMD_EDU_EVENT_RESUME NoClient ?arrs 2000 True demoWait")
  have f: "found = Some (event_new PMD_EDU_EVENT_RESUME PMD_EDU_MEM_NONE 0 2)" "map ev_userData (cb_queue cb') = [3, 1]"
    using r by (auto simp: waitEventOf_def waitEventLoop.simps waitRound_def waitEvent_def isInterrupted_def demoWait_def educb_new_def event_new_def Let_def)
  have "cb_processEventCount cb' = cb_processEventCount demoWait + 1" using waitEvent_keeps_events [OF r] f(1) by auto
  then show ?thesis using r f by (simp add: demoWait_def educb_new_def)
qed

end
