(* ===== verification/Pmd_EPFactory.thy ===== *)
theory Pmd_EPFactory
  imports Pmd_EDUMem
begin

text \<open>
  The register of entry points (\<open>_pmdEPFactory\<close>, \<open>src/src/pmd/pmdEPFactory.cpp\<close>): which function an EDU of a type runs, and whether
  the type is a system type.  Types are unique, and so are names up to the case of their letters.  Entry
  points are numbers, 0 the null pointer; a name that is the null pointer is \<open>None\<close>.
\<close>

record pmdEPItem =
  ep_type :: int
  ep_pFunc :: nat
  ep_isSystem :: bool
  ep_name :: string

definition ep_isPoolable :: "pmdEPItem \<Rightarrow> bool" where
  "ep_isPoolable it \<longleftrightarrow> \<not> ep_isSystem it"

type_synonym pmdEPFactory = "(int \<times> pmdEPItem) list"

text \<open>\<open>strcasecmp\<close> in the C locale: equality up to the case of the letters A to Z.\<close>

definition toLower :: "char \<Rightarrow> nat" where
  "toLower c = (let n = of_char c in if 65 \<le> n \<and> n \<le> 90 then n + 32 else n)"

definition sameName :: "string \<Rightarrow> string \<Rightarrow> bool" where
  "sameName x y \<longleftrightarrow> map toLower x = map toLower y"

definition getItem :: "int \<Rightarrow> pmdEPFactory \<Rightarrow> pmdEPItem option" where
  "getItem ty fac = map_of fac ty"

definition getItemByName :: "string \<Rightarrow> pmdEPFactory \<Rightarrow> pmdEPItem option" where
  "getItemByName nm fac = find (\<lambda>it. sameName nm (ep_name it)) (map snd fac)"

definition regItem :: "int \<Rightarrow> bool \<Rightarrow> nat \<Rightarrow> string option \<Rightarrow> pmdEPFactory \<Rightarrow> rc \<times> pmdEPFactory" where
  "regItem ty isSys pFunc pName fac =
     (case pName of
        None \<Rightarrow> (SDB_SYS, fac)
      | Some nm \<Rightarrow>
          if pFunc = 0 then (SDB_SYS, fac)
          else if getItem ty fac \<noteq> None \<or> getItemByName nm fac \<noteq> None then (SDB_SYS, fac)
          else (SDB_OK, smap_set ty \<lparr> ep_type = ty, ep_pFunc = pFunc, ep_isSystem = isSys, ep_name = nm \<rparr> fac))"

definition isSystem :: "int \<Rightarrow> pmdEPFactory \<Rightarrow> bool" where
  "isSystem ty fac \<longleftrightarrow> (case getItem ty fac of Some it \<Rightarrow> ep_isSystem it | None \<Rightarrow> False)"

definition isSystemByName :: "string \<Rightarrow> pmdEPFactory \<Rightarrow> bool" where
  "isSystemByName nm fac \<longleftrightarrow> (case getItemByName nm fac of Some it \<Rightarrow> ep_isSystem it | None \<Rightarrow> False)"

definition type2Name :: "int \<Rightarrow> pmdEPFactory \<Rightarrow> string" where
  "type2Name ty fac = (case getItem ty fac of Some it \<Rightarrow> ep_name it | None \<Rightarrow> ''Unknow'')"

definition name2Type :: "string \<Rightarrow> pmdEPFactory \<Rightarrow> int" where
  "name2Type nm fac = (case getItemByName nm fac of Some it \<Rightarrow> ep_type it | None \<Rightarrow> -1)"

definition getEntry :: "int \<Rightarrow> pmdEPFactory \<Rightarrow> nat" where
  "getEntry ty fac = (case getItem ty fac of Some it \<Rightarrow> ep_pFunc it | None \<Rightarrow> 0)"

definition getEntryByName :: "string \<Rightarrow> pmdEPFactory \<Rightarrow> nat" where
  "getEntryByName nm fac = (case getItemByName nm fac of Some it \<Rightarrow> ep_pFunc it | None \<Rightarrow> 0)"

section \<open>Every registered item is found by its type and by its name\<close>

definition factory_ok :: "pmdEPFactory \<Rightarrow> bool" where
  "factory_ok fac \<longleftrightarrow> smap_ok fac \<and> (\<forall>(ty, it)\<in>set fac. ep_type it = ty \<and> ep_pFunc it \<noteq> 0)
     \<and> (\<forall>(t1, i1)\<in>set fac. \<forall>(t2, i2)\<in>set fac. sameName (ep_name i1) (ep_name i2) \<longrightarrow> t1 = t2)"

text \<open>The registrations of a program, one after the other; each states the type, whether it is a system type, the function and the name.\<close>

definition regAll :: "(int \<times> bool \<times> nat \<times> string option) list \<Rightarrow> pmdEPFactory" where
  "regAll rs = fold (\<lambda>(ty, sys, f, nm) fac. snd (regItem ty sys f nm fac)) rs []"

lemma getItemByName_None: "getItemByName nm fac = None \<longleftrightarrow> (\<forall>(ty, it)\<in>set fac. \<not> sameName nm (ep_name it))"
  by (force simp: getItemByName_def find_None_iff)

lemma getItemByName_Some: "getItemByName nm fac = Some it \<Longrightarrow> \<exists>ty. (ty, it) \<in> set fac \<and> sameName nm (ep_name it)"
  by (auto simp: getItemByName_def find_Some_iff) (metis nth_mem prod.collapse)

lemma regItem_ok:
  assumes "factory_ok fac" and "regItem ty sys f pn fac = (rc, fac')"
  shows "factory_ok fac'" "rc = SDB_OK \<Longrightarrow> getItem ty fac = None \<and> (\<exists>nm. pn = Some nm \<and> getItem ty fac' = Some \<lparr> ep_type = ty, ep_pFunc = f, ep_isSystem = sys, ep_name = nm \<rparr>)"
    "getItem t fac \<noteq> None \<Longrightarrow> getItem t fac' = getItem t fac"
proof -
  have "factory_ok fac' \<and> (rc = SDB_OK \<longrightarrow> getItem ty fac = None \<and> (\<exists>nm. pn = Some nm \<and> getItem ty fac' = Some \<lparr> ep_type = ty, ep_pFunc = f, ep_isSystem = sys, ep_name = nm \<rparr>))
    \<and> (getItem t fac \<noteq> None \<longrightarrow> getItem t fac' = getItem t fac)"
  proof (cases "rc = SDB_OK")
    case False
    then show ?thesis using assms by (auto simp: regItem_def split: option.splits if_splits)
  next
    case True
    obtain nm where nm: "pn = Some nm" "f \<noteq> 0" "getItem ty fac = None" "getItemByName nm fac = None"
      and fac': "fac' = smap_set ty \<lparr> ep_type = ty, ep_pFunc = f, ep_isSystem = sys, ep_name = nm \<rparr> fac"
      using assms(2) True by (auto simp: regItem_def split: option.splits if_splits)
    have ok: "smap_ok fac" and new: "map_of fac ty = None" using assms(1) nm(3) by (simp_all add: factory_ok_def getItem_def)
    have set: "set fac' = insert (ty, \<lparr> ep_type = ty, ep_pFunc = f, ep_isSystem = sys, ep_name = nm \<rparr>) (set fac)"
      unfolding fac' by (rule smap_set_new [OF ok new])
    have "\<not> sameName nm (ep_name it)" "\<not> sameName (ep_name it) nm" if "(t, it) \<in> set fac" for t it
      using nm(4) that by (auto simp: getItemByName_None sameName_def)
    moreover have "smap_ok fac'" unfolding fac' by (rule smap_set_ok [OF ok])
    ultimately have "factory_ok fac'" using assms(1) nm(2) unfolding factory_ok_def set by auto
    then show ?thesis using nm ok by (auto simp: getItem_def fac' smap_set_find)
  qed
  then show "factory_ok fac'" "rc = SDB_OK \<Longrightarrow> getItem ty fac = None \<and> (\<exists>nm. pn = Some nm \<and> getItem ty fac' = Some \<lparr> ep_type = ty, ep_pFunc = f, ep_isSystem = sys, ep_name = nm \<rparr>)"
    "getItem t fac \<noteq> None \<Longrightarrow> getItem t fac' = getItem t fac" by blast+
qed

lemma regAll_ok: "factory_ok (regAll rs)"
proof (induction rs rule: rev_induct)
  case Nil
  then show ?case by (simp add: regAll_def factory_ok_def)
next
  case (snoc r rs)
  obtain ty sys f nm where r: "r = (ty, sys, f, nm)" by (cases r)
  then show ?case using regItem_ok(1) [OF snoc, of ty sys f nm] by (cases "regItem ty sys f nm (regAll rs)") (simp add: regAll_def)
qed

lemma factory_lookup:
  assumes "factory_ok fac"
  shows "getItem ty fac = Some it \<longleftrightarrow> (ty, it) \<in> set fac" "(ty, it) \<in> set fac \<Longrightarrow> sameName nm (ep_name it) \<Longrightarrow> getItemByName nm fac = Some it"
proof -
  have ok: "smap_ok fac" using assms by (simp add: factory_ok_def)
  show "getItem ty fac = Some it \<longleftrightarrow> (ty, it) \<in> set fac" using smap_member [OF ok] by (auto simp: getItem_def)
  assume it: "(ty, it) \<in> set fac" and nm: "sameName nm (ep_name it)"
  then have "getItemByName nm fac \<noteq> None" by (auto simp: getItemByName_None)
  then obtain t2 i2 where g: "getItemByName nm fac = Some i2" "(t2, i2) \<in> set fac" "sameName nm (ep_name i2)" using getItemByName_Some by blast
  then have "t2 = ty" using assms it nm by (force simp: factory_ok_def sameName_def)
  then show "getItemByName nm fac = Some it" using g it smap_member [OF ok] by simp
qed

text \<open>Whatever a program registers, in any order and with refused registrations in between: looking up the name of a registered type
  (in any case of its letters) gives the type back, names of different types differ, and the entry point found by either is not null.\<close>

theorem factory_names_roundtrip:
  assumes "getItem ty (regAll rs) = Some it" and "sameName nm (type2Name ty (regAll rs))"
  shows "name2Type nm (regAll rs) = ty \<and> name2Type (type2Name ty (regAll rs)) (regAll rs) = ty
    \<and> getEntryByName nm (regAll rs) = getEntry ty (regAll rs) \<and> getEntry ty (regAll rs) \<noteq> 0
    \<and> isSystemByName nm (regAll rs) = isSystem ty (regAll rs)
    \<and> (\<forall>ty2. getItem ty2 (regAll rs) \<noteq> None \<longrightarrow> sameName nm (type2Name ty2 (regAll rs)) \<longrightarrow> ty2 = ty)"
proof -
  note ok = regAll_ok [of rs]
  have it: "(ty, it) \<in> set (regAll rs)" and p: "ep_type it = ty" "ep_pFunc it \<noteq> 0" using assms(1) ok factory_lookup(1) [OF ok] by (auto simp: factory_ok_def)
  have g: "getItemByName x (regAll rs) = Some it" if "sameName x (ep_name it)" for x using factory_lookup(2) [OF ok it that] .
  have "ty2 = ty" if "getItem ty2 (regAll rs) = Some i2" "sameName nm (ep_name i2)" for ty2 i2
  proof -
    have i2: "(ty2, i2) \<in> set (regAll rs)" using that(1) factory_lookup(1) [OF ok] by simp
    have "getItemByName nm (regAll rs) = Some i2" by (rule factory_lookup(2) [OF ok i2 that(2)])
    moreover have "getItemByName nm (regAll rs) = Some it" using g assms by (simp add: type2Name_def)
    moreover have "ep_type i2 = ty2" using ok i2 by (auto simp: factory_ok_def)
    ultimately show ?thesis using p(1) by simp
  qed
  then have "\<forall>ty2. getItem ty2 (regAll rs) \<noteq> None \<longrightarrow> sameName nm (type2Name ty2 (regAll rs)) \<longrightarrow> ty2 = ty" by (auto simp: type2Name_def)
  moreover have "type2Name ty (regAll rs) = ep_name it" using assms(1) by (simp add: type2Name_def)
  moreover have "getItemByName nm (regAll rs) = Some it" "getItemByName (ep_name it) (regAll rs) = Some it"
    using g assms by (simp_all add: type2Name_def sameName_def)
  ultimately show ?thesis using assms(1) p by (simp add: name2Type_def getEntryByName_def getEntry_def isSystemByName_def isSystem_def)
qed

definition demoFactory :: pmdEPFactory where
  "demoFactory = regAll [(3, True, 8, Some ''CBMAIN''), (2, True, 7, Some ''IOSVC''), (2, False, 9, Some ''OTHER''), (9, False, 5, Some ''iosvc''), (9, False, 5, Some ''AGENT'')]"

lemma demoFactory_eval: "map fst demoFactory = [2, 3, 9]"
  by (simp add: demoFactory_def regAll_def regItem_def getItem_def getItemByName_def sameName_def toLower_def Let_def)

theorem factory_names_roundtrip_witness:
  "name2Type ''iosvc'' (regAll [(2, True, 7, Some ''IOSVC''), (2, False, 9, Some ''OTHER''), (9, False, 5, Some ''iosvc'')]) = 2"
proof -
  let ?f = "regAll [(2, True, 7, Some ''IOSVC''), (2, False, 9, Some ''OTHER''), (9, False, 5, Some ''iosvc'')]"
  have f: "?f = [(2, \<lparr> ep_type = 2, ep_pFunc = 7, ep_isSystem = True, ep_name = ''IOSVC'' \<rparr>)]"
    by (simp add: regAll_def regItem_def getItem_def getItemByName_def sameName_def toLower_def Let_def)
  show ?thesis using factory_names_roundtrip [of 2 _ _ "''iosvc''", unfolded getItem_def type2Name_def, of "[(2, True, 7, Some ''IOSVC''), (2, False, 9, Some ''OTHER''), (9, False, 5, Some ''iosvc'')]"]
    unfolding f by (simp add: sameName_def toLower_def Let_def)
qed

end
