(* ===== verification/Pmd_EDUMgr.thy ===== *)
theory Pmd_EDUMgr
  imports Pmd_EPFactory
begin

text \<open>
  The EDU manager (\<open>_pmdEDUMgr\<close>, \<open>src/src/pmd/pmdEDUMgr.cpp\<close>): the tables of running and idle EDUs, the pool, the table of system EDUs,
  and the operations on them.  Control blocks are objects in a store, and the tables hold their addresses as in the code, so that an
  address of a deleted block can be told from one of a live block.  A method that holds the latch \<open>_latch\<close> throughout is one function; a
  method that takes it several times is the composition of one function per critical section.  The addresses of new control blocks, the
  thread ids and whether a thread can be created are arguments.
\<close>

record pmdEDUMgr =
  em_vecIOServices :: "nat list"
  em_EDUID :: "64 word"
  em_mapRuns :: "(64 word \<times> nat) list"
  em_mapIdles :: "(64 word \<times> nat) list"
  em_mapTid2Edu :: "(nat \<times> 64 word) list"
  em_mapSystemEdu :: "(int \<times> 64 word set) list"
  em_isDestroyed :: bool
  em_isQuiesced :: bool
  em_maxPooledEDU :: nat
  em_pMainEDU :: nat
  em_monitorEvent :: bool
  em_cbs :: "nat \<Rightarrow> pmdEDUCB option"
  em_heap :: ossHeap

abbreviation (input) SDB_EDU_INVAL_STATUS :: rc where "SDB_EDU_INVAL_STATUS \<equiv> - 12"
abbreviation (input) SDB_QUIESCED :: rc where "SDB_QUIESCED \<equiv> - 14"
abbreviation (input) SDB_PMD_SESSION_NOT_EXIST :: rc where "SDB_PMD_SESSION_NOT_EXIST \<equiv> - 62"
abbreviation (input) SDB_PMD_FORCE_SYSTEM_EDU :: rc where "SDB_PMD_FORCE_SYSTEM_EDU \<equiv> - 63"
abbreviation (input) PMD_EDU_MIN :: int where "PMD_EDU_MIN \<equiv> 0"
abbreviation (input) PMD_EDU_TYPE_MAIN :: int where "PMD_EDU_TYPE_MAIN \<equiv> 1"
abbreviation (input) PMD_MAX_POOLED_EDU_DFT :: nat where "PMD_MAX_POOLED_EDU_DFT \<equiv> 10"
abbreviation (input) PMD_EDU_IDLE_LOW_SIZE :: nat where "PMD_EDU_IDLE_LOW_SIZE \<equiv> 10"
abbreviation (input) PMD_EDU_IDLE_MAX_TIME :: nat where "PMD_EDU_IDLE_MAX_TIME \<equiv> 1800000"
abbreviation (input) PMD_EDU_IDLE_LOW_TIME :: nat where "PMD_EDU_IDLE_LOW_TIME \<equiv> 10000"

text \<open>The type number that \<open>returnEDU\<close> gives a pooled EDU is the number of the status constant \<open>PMD_EDU_UNKNOW\<close>.\<close>

abbreviation (input) EDU_TYPE_UNKNOW :: int where "EDU_TYPE_UNKNOW \<equiv> 4"

definition edumgr_new :: "ossHeap \<Rightarrow> pmdEDUMgr" where
  "edumgr_new h =
     \<lparr> em_vecIOServices = [], em_EDUID = 1, em_mapRuns = [], em_mapIdles = [], em_mapTid2Edu = [], em_mapSystemEdu = [],
       em_isDestroyed = False, em_isQuiesced = False, em_maxPooledEDU = PMD_MAX_POOLED_EDU_DFT, em_pMainEDU = 0,
       em_monitorEvent = False, em_cbs = Map.empty, em_heap = h \<rparr>"

section \<open>Control blocks in the store\<close>

text \<open>What is read through an address that is not live is not specified; writing through it is left out.\<close>

definition cbOf :: "pmdEDUMgr \<Rightarrow> nat \<Rightarrow> pmdEDUCB" where
  "cbOf s p = (case em_cbs s p of Some cb \<Rightarrow> cb | None \<Rightarrow> educb_new False 0)"

definition updCB :: "nat \<Rightarrow> (pmdEDUCB \<Rightarrow> pmdEDUCB) \<Rightarrow> pmdEDUMgr \<Rightarrow> pmdEDUMgr" where
  "updCB p f s = (case em_cbs s p of Some cb \<Rightarrow> s\<lparr>em_cbs := (em_cbs s)(p \<mapsto> f cb)\<rparr> | None \<Rightarrow> s)"

definition memCB :: "nat \<Rightarrow> (eduMem \<Rightarrow> eduMem) \<Rightarrow> pmdEDUMgr \<Rightarrow> pmdEDUMgr" where
  "memCB p f s =
     (case em_cbs s p of
        Some cb \<Rightarrow> let (cb', h') = f (cb, em_heap s) in s\<lparr>em_cbs := (em_cbs s)(p \<mapsto> cb'), em_heap := h'\<rparr>
      | None \<Rightarrow> s)"

text \<open>\<open>SDB_OSS_DEL cb\<close>: the destructor clears the block, then its memory is returned.\<close>

definition deleteCB :: "nat \<Rightarrow> pmdEDUMgr \<Rightarrow> pmdEDUMgr" where
  "deleteCB p s = (let s1 = memCB p educb_clear s in s1\<lparr>em_cbs := (em_cbs s1)(p := None)\<rparr>)"

section \<open>Services, start and flags\<close>

definition addIOService :: "nat \<Rightarrow> pmdEDUMgr \<Rightarrow> pmdEDUMgr" where
  "addIOService io s = s\<lparr>em_vecIOServices := em_vecIOServices s @ [io]\<rparr>"

definition delIOSerivce :: "nat \<Rightarrow> pmdEDUMgr \<Rightarrow> pmdEDUMgr" where
  "delIOSerivce io s = s\<lparr>em_vecIOServices := remove1 io (em_vecIOServices s)\<rparr>"

definition countIOService :: "pmdEDUMgr \<Rightarrow> nat" where
  "countIOService s = length (em_vecIOServices s)"

definition setDestroyed :: "bool \<Rightarrow> pmdEDUMgr \<Rightarrow> pmdEDUMgr" where
  "setDestroyed b s = s\<lparr>em_isDestroyed := b\<rparr>"

definition setQuiesced :: "bool \<Rightarrow> pmdEDUMgr \<Rightarrow> pmdEDUMgr" where
  "setQuiesced b s = s\<lparr>em_isQuiesced := b\<rparr>"

definition setMaxPooledEDU :: "nat \<Rightarrow> pmdEDUMgr \<Rightarrow> pmdEDUMgr" where
  "setMaxPooledEDU n s = s\<lparr>em_maxPooledEDU := n\<rparr>"

text \<open>\<open>init\<close>: \<open>resource\<close> says whether the resource is given, \<open>p\<close> is the address of the main control block (0: no memory), \<open>thrOk\<close> whether the
  monitor thread could be created.\<close>

definition edumgr_init :: "bool \<Rightarrow> nat \<Rightarrow> nat \<Rightarrow> bool \<Rightarrow> nat \<Rightarrow> pmdEDUMgr \<Rightarrow> rc \<times> pmdEDUMgr" where
  "edumgr_init resource p tid thrOk maxPooledEDU s =
     (if \<not> resource then (SDB_INVALIDARG, s)
      else let s1 = s\<lparr>em_maxPooledEDU := maxPooledEDU, em_pMainEDU := p\<rparr>
           in if p = 0 then (SDB_OOM, s1)
              else let cb = setName ''Main'' (educb_new True PMD_EDU_TYPE_MAIN);
                       cb1 = cb\<lparr>cb_eduID := em_EDUID s1, cb_tid := tid, cb_threadID := tid\<rparr>;
                       s2 = s1\<lparr>em_EDUID := em_EDUID s1 + 1, em_cbs := (em_cbs s1)(p \<mapsto> cb1)\<rparr>
                   in (if thrOk then SDB_OK else SDB_SYS, s2))"

section \<open>Looking up\<close>

definition getEDUByID :: "64 word \<Rightarrow> pmdEDUMgr \<Rightarrow> nat option" where
  "getEDUByID eduID s = (case map_of (em_mapRuns s) eduID of Some p \<Rightarrow> Some p | None \<Rightarrow> map_of (em_mapIdles s) eduID)"

definition getEDUTypeByID :: "64 word \<Rightarrow> pmdEDUMgr \<Rightarrow> int" where
  "getEDUTypeByID eduID s = (case getEDUByID eduID s of Some p \<Rightarrow> cb_eduType (cbOf s p) | None \<Rightarrow> PMD_EDU_MIN)"

definition getEDU :: "nat \<Rightarrow> pmdEDUMgr \<Rightarrow> nat option" where
  "getEDU tid s = (case map_of (em_mapTid2Edu s) tid of Some eduID \<Rightarrow> getEDUByID eduID s | None \<Rightarrow> None)"

definition setEDU :: "nat \<Rightarrow> 64 word \<Rightarrow> pmdEDUMgr \<Rightarrow> pmdEDUMgr" where
  "setEDU tid eduid s = s\<lparr>em_mapTid2Edu := smap_set tid eduid (em_mapTid2Edu s)\<rparr>"

definition getEDUThreadID :: "pmdEDUMgr \<Rightarrow> nat set" where
  "getEDUThreadID s = set (map (\<lambda>(i, p). cb_threadID (cbOf s p)) (em_mapRuns s @ em_mapIdles s))"

definition dumpAbnormalEDU :: "pmdEDUMgr \<Rightarrow> nat" where
  "dumpAbnormalEDU s = length (em_mapRuns s) + length (em_mapIdles s)"

definition isSystemCB :: "pmdEPFactory \<Rightarrow> pmdEDUCB \<Rightarrow> bool" where
  "isSystemCB fac cb \<longleftrightarrow> (case getItem (cb_eduType cb) fac of Some it \<Rightarrow> ep_isSystem it | None \<Rightarrow> False)"

section \<open>System EDUs\<close>

definition removeFromSystem :: "int \<Rightarrow> 64 word \<Rightarrow> pmdEDUMgr \<Rightarrow> pmdEDUMgr" where
  "removeFromSystem ty eduID s =
     (case map_of (em_mapSystemEdu s) ty of
        None \<Rightarrow> s
      | Some S \<Rightarrow>
          let S1 = S - {eduID}
          in s\<lparr>em_mapSystemEdu := if S1 = {} then smap_erase ty (em_mapSystemEdu s) else smap_set ty S1 (em_mapSystemEdu s)\<rparr>)"

definition addToSystem :: "int \<Rightarrow> 64 word \<Rightarrow> pmdEDUMgr \<Rightarrow> pmdEDUMgr" where
  "addToSystem ty eduID s =
     (case map_of (em_mapSystemEdu s) ty of
        Some S \<Rightarrow> s\<lparr>em_mapSystemEdu := smap_set ty (insert eduID S) (em_mapSystemEdu s)\<rparr>
      | None \<Rightarrow> s\<lparr>em_mapSystemEdu := smap_set ty {eduID} (em_mapSystemEdu s)\<rparr>)"

definition systemSize :: "int \<Rightarrow> pmdEDUMgr \<Rightarrow> nat" where
  "systemSize ty s =
     (if ty \<noteq> -1 then (case map_of (em_mapSystemEdu s) ty of Some S \<Rightarrow> card S | None \<Rightarrow> 0)
      else (\<Sum>(t, S)\<leftarrow>em_mapSystemEdu s. card S))"

definition getFirstSystemEDU :: "int \<Rightarrow> pmdEDUMgr \<Rightarrow> 64 word" where
  "getFirstSystemEDU ty s =
     (case map_of (em_mapSystemEdu s) ty of Some S \<Rightarrow> if S \<noteq> {} then Min S else PMD_INVALID_EDUID | None \<Rightarrow> PMD_INVALID_EDUID)"

definition getSystemEDU :: "int \<Rightarrow> pmdEDUMgr \<Rightarrow> 64 word set" where
  "getSystemEDU ty s = (case map_of (em_mapSystemEdu s) ty of Some S \<Rightarrow> S | None \<Rightarrow> {})"

definition isSystemEDU :: "64 word \<Rightarrow> pmdEDUMgr \<Rightarrow> bool" where
  "isSystemEDU eduID s =
     (case getEDUByID eduID s of
        None \<Rightarrow> False
      | Some p \<Rightarrow> (case map_of (em_mapSystemEdu s) (cb_eduType (cbOf s p)) of Some S \<Rightarrow> eduID \<in> S | None \<Rightarrow> False))"

section \<open>Sizes\<close>

definition sizeRun :: "pmdEDUMgr \<Rightarrow> nat" where "sizeRun s = length (em_mapRuns s)"
definition sizeIdle :: "pmdEDUMgr \<Rightarrow> nat" where "sizeIdle s = length (em_mapIdles s)"
definition sizeAll :: "pmdEDUMgr \<Rightarrow> nat" where "sizeAll s = length (em_mapRuns s) + length (em_mapIdles s)"
definition sizeSystem :: "pmdEDUMgr \<Rightarrow> nat" where "sizeSystem s = systemSize (-1) s"

definition sizeByType :: "int \<Rightarrow> pmdEDUMgr \<Rightarrow> nat" where
  "sizeByType ty s = length (filter (\<lambda>(i, p). cb_eduType (cbOf s p) = ty) (em_mapRuns s))"

definition sizeWithSession :: "pmdEDUMgr \<Rightarrow> nat" where
  "sizeWithSession s = length (filter (\<lambda>(i, p). cb_pSession (cbOf s p) \<noteq> None) (em_mapRuns s))"

definition sizeInfo :: "pmdEDUMgr \<Rightarrow> nat \<times> nat \<times> nat" where
  "sizeInfo s = (length (em_mapRuns s), length (em_mapIdles s), systemSize (-1) s)"

text \<open>How many idle EDUs the pool should hold: the room the pool has left, at most 10; all numbers are \<open>UINT32\<close>.\<close>

definition calIdleLow :: "nat \<Rightarrow> nat \<Rightarrow> nat \<Rightarrow> nat \<Rightarrow> nat" where
  "calIdleLow runSize idleSize sysSize poolSize =
     (if poolSize > 0 \<and> u32 (int poolSize + int sysSize) > runSize
      then let pool = u32 (int poolSize + int sysSize)
           in if u32 (int pool - int runSize) > PMD_EDU_IDLE_LOW_SIZE then PMD_EDU_IDLE_LOW_SIZE else u32 (int pool - int runSize)
      else 0)"

definition calIdleLowSize :: "pmdEDUMgr \<Rightarrow> nat" where
  "calIdleLowSize s = (let (r, i, y) = sizeInfo s in calIdleLow r i y (em_maxPooledEDU s))"

section \<open>Forcing, interrupting and posting\<close>

text \<open>The three operations by id share their lookup: a running EDU that is a system EDU or locked is refused, an idle one never is.\<close>

definition userEDU :: "pmdEPFactory \<Rightarrow> 64 word \<Rightarrow> pmdEDUMgr \<Rightarrow> rc + nat" where
  "userEDU fac eduID s =
     (case map_of (em_mapRuns s) eduID of
        Some p \<Rightarrow> if isSystemCB fac (cbOf s p) \<or> cb_isLocked (cbOf s p) then Inl SDB_PMD_FORCE_SYSTEM_EDU else Inr p
      | None \<Rightarrow> (case map_of (em_mapIdles s) eduID of Some p \<Rightarrow> Inr p | None \<Rightarrow> Inl SDB_PMD_SESSION_NOT_EXIST))"

definition forceUserEDU :: "pmdEPFactory \<Rightarrow> 64 word \<Rightarrow> pmdEDUMgr \<Rightarrow> rc \<times> pmdEDUMgr" where
  "forceUserEDU fac eduID s = (case userEDU fac eduID s of Inl rc \<Rightarrow> (rc, s) | Inr p \<Rightarrow> (SDB_OK, updCB p educb_force s))"

definition interruptUserEDU :: "pmdEPFactory \<Rightarrow> 64 word \<Rightarrow> pmdEDUMgr \<Rightarrow> rc \<times> pmdEDUMgr" where
  "interruptUserEDU fac eduID s = (case userEDU fac eduID s of Inl rc \<Rightarrow> (rc, s) | Inr p \<Rightarrow> (SDB_OK, updCB p educb_interrupt s))"

definition disconnectUserEDU :: "pmdEPFactory \<Rightarrow> 64 word \<Rightarrow> pmdEDUMgr \<Rightarrow> rc \<times> pmdEDUMgr" where
  "disconnectUserEDU fac eduID s = (case userEDU fac eduID s of Inl rc \<Rightarrow> (rc, s) | Inr p \<Rightarrow> (SDB_OK, updCB p educb_disconnect s))"

definition postEDUPost :: "64 word \<Rightarrow> pmdEDUEvent \<Rightarrow> pmdEDUMgr \<Rightarrow> rc \<times> pmdEDUMgr" where
  "postEDUPost eduID ev s =
     (case getEDUByID eduID s of None \<Rightarrow> (SDB_PMD_SESSION_NOT_EXIST, s) | Some p \<Rightarrow> (SDB_OK, updCB p (postEvent ev) s))"

text \<open>The property mask: \<open>sys\<close> for \<open>PMD_EDU_SYSTEM\<close>, \<open>usr\<close> for \<open>PMD_EDU_USER\<close>.\<close>

definition selected :: "pmdEPFactory \<Rightarrow> bool \<Rightarrow> bool \<Rightarrow> pmdEDUCB \<Rightarrow> bool" where
  "selected fac sys usr cb \<longleftrightarrow> sys \<and> isSystemCB fac cb \<or> usr \<and> \<not> isSystemCB fac cb"

definition forceEDUs :: "pmdEPFactory \<Rightarrow> bool \<Rightarrow> bool \<Rightarrow> pmdEDUMgr \<Rightarrow> pmdEDUMgr" where
  "forceEDUs fac sys usr s =
     (let s1 = fold (\<lambda>(i, p) s. if selected fac sys usr (cbOf s p) then updCB p educb_force s else s) (em_mapRuns s) s
      in fold (\<lambda>(i, p) s. if usr then updCB p educb_force s else s) (em_mapIdles s1) s1)"

definition getEDUCount :: "pmdEPFactory \<Rightarrow> bool \<Rightarrow> bool \<Rightarrow> pmdEDUMgr \<Rightarrow> nat" where
  "getEDUCount fac sys usr s =
     length (filter (\<lambda>(i, p). selected fac sys usr (cbOf s p)) (em_mapRuns s)) + (if usr then length (em_mapIdles s) else 0)"

section \<open>Status of an EDU\<close>

definition waitEDU :: "nat \<Rightarrow> pmdEDUMgr \<Rightarrow> rc \<times> pmdEDUMgr" where
  "waitEDU p s =
     (if p = 0 then (SDB_INVALIDARG, s)
      else let st = cb_status (cbOf s p)
           in if st = PMD_EDU_WAITING then (SDB_OK, s)
              else if st \<noteq> PMD_EDU_RUNNING \<and> st \<noteq> PMD_EDU_CREATING then (SDB_EDU_INVAL_STATUS, s)
              else (SDB_OK, updCB p (\<lambda>cb. cb\<lparr>cb_status := PMD_EDU_WAITING\<rparr>) s))"

definition waitEDUByID :: "64 word \<Rightarrow> pmdEDUMgr \<Rightarrow> rc \<times> pmdEDUMgr" where
  "waitEDUByID eduID s = (case map_of (em_mapRuns s) eduID of Some p \<Rightarrow> waitEDU p s | None \<Rightarrow> (SDB_SYS, s))"

definition activateEDU :: "nat \<Rightarrow> pmdEDUMgr \<Rightarrow> rc \<times> pmdEDUMgr" where
  "activateEDU p s =
     (if p = 0 then (SDB_SYS, s)
      else let st = cb_status (cbOf s p)
           in if st = PMD_EDU_RUNNING then (SDB_OK, s)
              else if st \<noteq> PMD_EDU_WAITING \<and> st \<noteq> PMD_EDU_CREATING then (SDB_EDU_INVAL_STATUS, s)
              else (SDB_OK, updCB p (\<lambda>cb. cb\<lparr>cb_status := PMD_EDU_RUNNING\<rparr>) s))"

definition activateEDUByID :: "64 word \<Rightarrow> pmdEDUMgr \<Rightarrow> rc \<times> pmdEDUMgr" where
  "activateEDUByID eduID s = (case map_of (em_mapRuns s) eduID of Some p \<Rightarrow> activateEDU p s | None \<Rightarrow> (SDB_SYS, s))"

definition lockEDU :: "nat \<Rightarrow> pmdEDUMgr \<Rightarrow> pmdEDUMgr" where
  "lockEDU p s = updCB p (\<lambda>cb. cb\<lparr>cb_isLocked := True\<rparr>) s"

definition unlockEDU :: "nat \<Rightarrow> pmdEDUMgr \<Rightarrow> pmdEDUMgr" where
  "unlockEDU p s = updCB p (\<lambda>cb. cb\<lparr>cb_isLocked := False\<rparr>) s"

section \<open>Ending an EDU\<close>

definition eraseFirst :: "64 word \<Rightarrow> (nat \<times> 64 word) list \<Rightarrow> (nat \<times> 64 word) list" where
  "eraseFirst eduID xs = takeWhile (\<lambda>e. snd e \<noteq> eduID) xs @ drop 1 (dropWhile (\<lambda>e. snd e \<noteq> eduID) xs)"

definition postDestoryEDU :: "nat \<Rightarrow> pmdEDUMgr \<Rightarrow> pmdEDUMgr" where
  "postDestoryEDU p s =
     (let cb = cbOf s p
      in removeFromSystem (cb_eduType cb) (cb_eduID cb) (s\<lparr>em_mapTid2Edu := eraseFirst (cb_eduID cb) (em_mapTid2Edu s)\<rparr>))"

text \<open>The part of \<open>forceDestory\<close> under the latch takes the block out of the tables: whether it did, and the state.  The block is deleted after the latch is released; the
  whole call, run without interruption, is \<open>forceDestory\<close>.\<close>

definition destroyIdle :: "nat \<Rightarrow> pmdEDUMgr \<Rightarrow> bool \<times> pmdEDUMgr" where
  "destroyIdle p s =
     (let i = cb_eduID (cbOf s p)
      in if map_of (em_mapIdles s) i \<noteq> None
         then (True, postDestoryEDU p (s\<lparr>em_mapIdles := smap_erase i (em_mapIdles s)\<rparr>))
         else if map_of (em_mapRuns s) i \<noteq> None
         then (if cb_status (cbOf s p) = PMD_EDU_CREATING then (False, s)
               else (True, postDestoryEDU p (s\<lparr>em_mapRuns := smap_erase i (em_mapRuns s)\<rparr>)))
         else (False, s))"

definition forceDestory :: "nat \<Rightarrow> nat \<Rightarrow> pmdEDUMgr \<Rightarrow> bool \<times> pmdEDUMgr" where
  "forceDestory p idleTime s =
     (if idleTime \<le> PMD_EDU_IDLE_LOW_TIME \<or> cb_status (cbOf s p) = PMD_EDU_CREATING then (False, s)
      else let (runSize, idleSize, sysSize) = sizeInfo s
           in if idleSize < calIdleLowSize s then (False, s)
              else if u32 (int runSize + int idleSize - int sysSize) \<le> em_maxPooledEDU s \<and> idleTime \<le> PMD_EDU_IDLE_MAX_TIME then (False, s)
              else let (destoryed, s1) = destroyIdle p s in (destoryed, if destoryed then deleteCB p s1 else s1))"

definition toDestroy :: "pmdEPFactory \<Rightarrow> pmdEDUCB \<Rightarrow> pmdEDUMgr \<Rightarrow> bool" where
  "toDestroy fac cb s \<longleftrightarrow>
     isForced cb \<or> em_isDestroyed s \<or> cb_isLocked cb \<or> em_maxPooledEDU s = 0
     \<or> (case getItem (cb_eduType cb) fac of None \<Rightarrow> True | Some it \<Rightarrow> \<not> ep_isPoolable it)"

text \<open>\<open>returnEDU\<close> holds the latch up to the deletion of the block: \<open>returnLatched\<close> is the part under the latch, \<open>returnEDU\<close> the whole call, run without interruption.\<close>

definition returnLatched :: "pmdEPFactory \<Rightarrow> nat \<Rightarrow> pmdEDUMgr \<Rightarrow> bool \<times> pmdEDUMgr" where
  "returnLatched fac p s =
     (let cb = cbOf s p; i = cb_eduID cb
      in if cb_status cb = PMD_EDU_CREATING then (False, s)
         else let d = toDestroy fac cb s;
                  (d1, s1) =
                    (if map_of (em_mapRuns s) i \<noteq> None
                     then let s0 = s\<lparr>em_mapRuns := smap_erase i (em_mapRuns s)\<rparr>
                          in if d then (d, s0)
                             else (d, updCB p (\<lambda>cb. cb\<lparr>cb_status := PMD_EDU_IDLE, cb_eduType := EDU_TYPE_UNKNOW\<rparr>)
                                        (s0\<lparr>em_mapIdles := smap_set i p (em_mapIdles s0)\<rparr>))
                     else if map_of (em_mapIdles s) i \<noteq> None
                     then (d, if d then s\<lparr>em_mapIdles := smap_erase i (em_mapIdles s)\<rparr> else s)
                     else (True, s))
              in if d1 then (True, postDestoryEDU p s1) else (False, memCB p educb_clear s1))"

definition returnEDU :: "pmdEPFactory \<Rightarrow> nat \<Rightarrow> pmdEDUMgr \<Rightarrow> bool \<times> pmdEDUMgr" where
  "returnEDU fac p s = (let (destroyed, s1) = returnLatched fac p s in (destroyed, if destroyed then deleteCB p s1 else s1))"

definition findAndRemove :: "64 word \<Rightarrow> pmdEDUMgr \<Rightarrow> nat option \<times> pmdEDUMgr" where
  "findAndRemove eduID s =
     (case map_of (em_mapIdles s) eduID of
        Some p \<Rightarrow> (Some p, postDestoryEDU p (s\<lparr>em_mapIdles := smap_erase eduID (em_mapIdles s)\<rparr>))
      | None \<Rightarrow>
          (case map_of (em_mapRuns s) eduID of
             Some p \<Rightarrow> (Some p, postDestoryEDU p (s\<lparr>em_mapRuns := smap_erase eduID (em_mapRuns s)\<rparr>))
           | None \<Rightarrow> (None, s)))"

section \<open>Starting an EDU\<close>

definition getFromPool :: "int \<Rightarrow> pmdEDUMgr \<Rightarrow> nat option \<times> pmdEDUMgr" where
  "getFromPool ty s =
     (let (r, s1) =
        (case em_mapIdles s of
           [] \<Rightarrow> (None, s)
         | (i, p) # rest \<Rightarrow>
             (Some p, updCB p (\<lambda>cb. cb\<lparr>cb_eduType := ty, cb_status := PMD_EDU_CREATING\<rparr>)
                (s\<lparr>em_mapIdles := rest, em_mapRuns := smap_set (cb_eduID (cbOf s p)) p (em_mapRuns s)\<rparr>)))
      in (r, if length (em_mapIdles s1) < calIdleLow (length (em_mapRuns s1)) (length (em_mapIdles s1)) (systemSize (-1) s1) (em_maxPooledEDU s1)
             then s1\<lparr>em_monitorEvent := True\<rparr> else s1))"

text \<open>What \<open>startEDU\<close> does to a block from the pool: clear it, name it, and post the event that resumes its thread with the argument.\<close>

definition poolClear :: "nat \<Rightarrow> pmdEDUMgr \<Rightarrow> pmdEDUMgr" where
  "poolClear p s = memCB p educb_clear s"

definition poolResume :: "nat \<Rightarrow> nat \<Rightarrow> string option \<Rightarrow> pmdEDUMgr \<Rightarrow> pmdEDUMgr" where
  "poolResume p args pInitName s =
     (let s1 = (case pInitName of Some nm \<Rightarrow> updCB p (setName nm) s | None \<Rightarrow> s)
      in updCB p (postEvent (event_new PMD_EDU_EVENT_RESUME PMD_EDU_MEM_NONE args 0)) s1)"

text \<open>The critical sections of \<open>createNewEDU\<close> and \<open>createIdleEDU\<close> that enter the new block into the tables, and what the new thread does first.\<close>

definition publishNew :: "nat \<Rightarrow> int \<Rightarrow> bool \<Rightarrow> nat \<Rightarrow> string option \<Rightarrow> pmdEDUMgr \<Rightarrow> pmdEDUMgr" where
  "publishNew p ty isSys arg pInitName s =
     (let newID = em_EDUID s;
          cb = (educb_new True ty)\<lparr>cb_status := PMD_EDU_CREATING\<rparr>;
          cb1 = (case pInitName of Some nm \<Rightarrow> setName nm cb | None \<Rightarrow> cb)\<lparr>cb_eduID := newID\<rparr>;
          s1 = s\<lparr>em_EDUID := newID + 1, em_cbs := (em_cbs s)(p \<mapsto> cb1), em_mapRuns := smap_set newID p (em_mapRuns s)\<rparr>;
          s2 = (if isSys then addToSystem ty newID s1 else s1)
      in updCB p (postEvent (event_new PMD_EDU_EVENT_RESUME PMD_EDU_MEM_NONE arg 0)) s2)"

definition publishIdle :: "nat \<Rightarrow> pmdEDUMgr \<Rightarrow> pmdEDUMgr" where
  "publishIdle p s =
     (let newID = em_EDUID s;
          cb = (educb_new True PMD_EDU_MIN)\<lparr>cb_status := PMD_EDU_IDLE, cb_eduID := newID\<rparr>
      in s\<lparr>em_EDUID := newID + 1, em_cbs := (em_cbs s)(p \<mapsto> cb), em_mapIdles := smap_set newID p (em_mapIdles s)\<rparr>)"

definition threadAttach :: "nat \<Rightarrow> nat \<Rightarrow> pmdEDUMgr \<Rightarrow> pmdEDUMgr" where
  "threadAttach tid p s =
     (let s1 = updCB p (\<lambda>cb. cb\<lparr>cb_threadID := tid, cb_threadHdl := tid, cb_tid := tid\<rparr>) s
      in setEDU tid (cb_eduID (cbOf s1 p)) s1)"

text \<open>The handler of \<open>pmdEDUEntryPointWrapper\<close> for a thread that throws, run without interruption: the block is taken out of the tables under the latch, then deleted.\<close>

definition removeAndDelete :: "64 word \<Rightarrow> pmdEDUMgr \<Rightarrow> pmdEDUMgr" where
  "removeAndDelete eduID s = (case findAndRemove eduID s of (Some p, s1) \<Rightarrow> deleteCB p s1 | (None, s1) \<Rightarrow> s1)"

text \<open>What a creator does after it has deleted the block of a thread that could not be created: \<open>NewEDU\<close> in \<open>createNewEDU\<close>, \<open>IdleEDU\<close> in \<open>createIdleEDU\<close>.\<close>

datatype creation = NewEDU int bool | IdleEDU

fun failErase :: "creation \<Rightarrow> 64 word \<Rightarrow> pmdEDUMgr \<Rightarrow> pmdEDUMgr" where
  "failErase (NewEDU ty isSys) newID s =
     (let s1 = s\<lparr>em_mapRuns := smap_erase newID (em_mapRuns s)\<rparr> in if isSys then removeFromSystem ty newID s1 else s1)"
| "failErase IdleEDU newID s = s\<lparr>em_mapIdles := smap_erase newID (em_mapIdles s)\<rparr>"

text \<open>
  The whole calls, run without interruption.  \<open>p\<close> is the address of the new block (0: no memory), \<open>thr\<close> what becomes of the thread: it cannot be created
  (\<open>None\<close>), or it attaches with a thread id, or it throws.
\<close>

definition createNewEDU :: "nat \<Rightarrow> (nat option) option \<Rightarrow> int \<Rightarrow> bool \<Rightarrow> nat \<Rightarrow> string option \<Rightarrow> pmdEDUMgr \<Rightarrow> rc \<times> 64 word option \<times> pmdEDUMgr" where
  "createNewEDU p thr ty isSys arg pInitName s =
     (if em_isQuiesced s then (SDB_QUIESCED, None, s)
      else if p = 0 then (SDB_OOM, None, s)
      else let newID = em_EDUID s; s1 = publishNew p ty isSys arg pInitName s
           in case thr of
                None \<Rightarrow> (SDB_SYS, None, failErase (NewEDU ty isSys) newID (deleteCB p s1))
              | Some None \<Rightarrow> (SDB_SYS, None, removeAndDelete newID s1)
              | Some (Some tid) \<Rightarrow> (SDB_OK, Some newID, threadAttach tid p s1))"

definition createIdleEDU :: "nat \<Rightarrow> (nat option) option \<Rightarrow> pmdEDUMgr \<Rightarrow> rc \<times> 64 word option \<times> pmdEDUMgr" where
  "createIdleEDU p thr s =
     (if em_isQuiesced s then (SDB_QUIESCED, None, s)
      else if p = 0 then (SDB_OOM, None, s)
      else let newID = em_EDUID s; s1 = publishIdle p s
           in case thr of
                None \<Rightarrow> (SDB_SYS, None, failErase IdleEDU newID (deleteCB p s1))
              | Some None \<Rightarrow> (SDB_SYS, None, removeAndDelete newID s1)
              | Some (Some tid) \<Rightarrow> (SDB_OK, Some newID, threadAttach tid p s1))"

definition startEDU :: "pmdEPFactory \<Rightarrow> nat \<Rightarrow> (nat option) option \<Rightarrow> int \<Rightarrow> nat \<Rightarrow> string option \<Rightarrow> pmdEDUMgr \<Rightarrow> rc \<times> 64 word option \<times> pmdEDUMgr" where
  "startEDU fac p thr ty args pInitName s =
     (if em_isQuiesced s then (SDB_QUIESCED, None, s)
      else case getItem ty fac of
             None \<Rightarrow> (SDB_SYS, None, s)
           | Some it \<Rightarrow>
               if ep_pFunc it = 0 then (SDB_SYS, None, s)
               else let (q, s1) = (if \<not> ep_isSystem it \<and> ep_isPoolable it then getFromPool ty s else (None, s))
                    in case q of
                         Some cb \<Rightarrow>
                           let s2 = poolResume cb args pInitName (poolClear cb s1)
                           in (SDB_OK, Some (cb_eduID (cbOf s2 cb)), s2)
                       | None \<Rightarrow> createNewEDU p thr ty (ep_isSystem it) args pInitName s1)"

text \<open>\<open>cur\<close> is the control block of the calling thread.\<close>

definition forkEDU :: "pmdEPFactory \<Rightarrow> nat \<Rightarrow> (nat option) option \<Rightarrow> nat option \<Rightarrow> nat \<Rightarrow> string option \<Rightarrow> pmdEDUMgr \<Rightarrow> rc \<times> 64 word option \<times> pmdEDUMgr" where
  "forkEDU fac p thr cur args pInitName s =
     (case cur of
        None \<Rightarrow> (SDB_SYS, None, s)
      | Some c \<Rightarrow>
          let nm = (case pInitName of Some (x # xs) \<Rightarrow> Some (x # xs) | _ \<Rightarrow> Some (cb_name (cbOf s c)))
          in startEDU fac p thr (cb_eduType (cbOf s c)) args nm s)"

text \<open>The inner loop of \<open>monitor\<close>: idle EDUs are created until the pool holds enough, or one cannot be created.  The list holds the address and the fate of the thread
  for each attempt; a list that is too short leaves the result open (\<open>None\<close>).\<close>

fun monitorFill :: "(nat \<times> (nat option) option) list \<Rightarrow> pmdEDUMgr \<Rightarrow> (rc \<times> pmdEDUMgr) option" where
  "monitorFill [] s = (if length (em_mapIdles s) < calIdleLowSize s then None else Some (SDB_OK, s))"
| "monitorFill ((p, thr) # rest) s =
     (if length (em_mapIdles s) < calIdleLowSize s
      then (case createIdleEDU p thr s of (rc, i, s1) \<Rightarrow> if rc \<noteq> SDB_OK then Some (rc, s1) else monitorFill rest s1)
      else Some (SDB_OK, s))"

end
