(* ===== verification/Pmd_EDUMgrInv.thy ===== *)
theory Pmd_EDUMgrInv
  imports Pmd_EDUMgr
begin

text \<open>
  The EDU manager with all its threads: the calls of other threads, the threads that start EDUs, and the thread of every EDU
  (\<open>pmdEDUEntryPoint\<close>) take turns, one critical section at a time; what a thread does after it has released the latch, such as the deletion of its
  block, is a step of its own.  A block is in the model from the moment its creator enters it into a table.  Steps in which the operating system or a caller
  does what the code cannot cope with are marked as faults.  The invariant holds in every state of a run without faults: the tables are consistent, and no
  address in them or in the hands of a thread is the address of a deleted control block.
\<close>

section \<open>The node and the threads\<close>

datatype PMD_NODE_STATUS = PMD_NODE_NORMAL | PMD_NODE_SHUTDOWN | PMD_NODE_REBUILDING | PMD_NODE_PULLINGUP

record pmdEnv =
  env_status :: PMD_NODE_STATUS
  env_shutdownCode :: rc
  env_isActive :: bool
  env_needRestart :: bool

definition pmdEnv_new :: pmdEnv where
  "pmdEnv_new = \<lparr> env_status = PMD_NODE_NORMAL, env_shutdownCode = 0, env_isActive = False, env_needRestart = False \<rparr>"

definition setActive :: "bool \<Rightarrow> pmdEnv \<Rightarrow> pmdEnv" where
  "setActive b e = e\<lparr>env_isActive := b\<rparr>"

definition isShutdown :: "pmdEnv \<Rightarrow> bool" where
  "isShutdown e \<longleftrightarrow> env_status e = PMD_NODE_SHUTDOWN"

definition shutdownNode :: "rc \<Rightarrow> pmdEnv \<Rightarrow> pmdEnv" where
  "shutdownNode code e = (if \<not> isShutdown e then e\<lparr>env_status := PMD_NODE_SHUTDOWN, env_shutdownCode := code\<rparr> else e)"

definition restartNode :: "rc \<Rightarrow> pmdEnv \<Rightarrow> pmdEnv" where
  "restartNode code e = (shutdownNode code e)\<lparr>env_needRestart := True\<rparr>"

text \<open>
  Where the thread of an EDU is: not yet attached (it may not even be created: the creator's call is kept), waiting for an event, in the entry function, about to
  release the event it has worked on, about to call \<open>returnEDU\<close>, or about to delete its block, which is in no table any more; the flag says whether the thread
  makes the node restart after that.  A thread that has deleted its block is only counted until it ends.
\<close>

datatype thrPhase = TStart creation | TWait | TRun pmdEDUEvent | TReturn pmdEDUEvent | TPut | TDelete bool

text \<open>
  \<open>g_pend\<close>: the blocks that a thread in \<open>startEDU\<close> has taken from the pool and not yet resumed.  \<open>g_fail\<close>: the calls of creators that have deleted the block of a thread
  that could not be created and have not yet erased its id.  \<open>g_exit\<close>: the number of threads that have deleted their block and still run the exit hook and
  \<open>pmdUndeclareEDUCB\<close>.
\<close>

record edus =
  g_mgr :: pmdEDUMgr
  g_thr :: "nat \<Rightarrow> thrPhase option"
  g_pend :: "nat set"
  g_env :: pmdEnv
  g_fail :: "(creation \<times> 64 word) list"
  g_exit :: nat

text \<open>Calls that other threads make at any time.\<close>

datatype mgrCall =
  CForce "64 word" | CInterrupt "64 word" | CDisconnect "64 word" | CPost "64 word" pmdEDUEvent | CLock nat | CUnlock nat
  | CWait "64 word" | CActivate "64 word"
  | CForceAll bool bool | CDestroyed bool | CQuiesced bool | CMaxPooled nat | CAddIO nat | CDelIO nat | CSignal

fun runCall :: "pmdEPFactory \<Rightarrow> mgrCall \<Rightarrow> pmdEDUMgr \<Rightarrow> pmdEDUMgr" where
  "runCall fac (CForce i) s = snd (forceUserEDU fac i s)"
| "runCall fac (CInterrupt i) s = snd (interruptUserEDU fac i s)"
| "runCall fac (CDisconnect i) s = snd (disconnectUserEDU fac i s)"
| "runCall fac (CPost i ev) s = snd (postEDUPost i ev s)"
| "runCall fac (CLock p) s = lockEDU p s"
| "runCall fac (CUnlock p) s = unlockEDU p s"
| "runCall fac (CWait i) s = snd (waitEDUByID i s)"
| "runCall fac (CActivate i) s = snd (activateEDUByID i s)"
| "runCall fac (CForceAll sys usr) s = forceEDUs fac sys usr s"
| "runCall fac (CDestroyed b) s = setDestroyed b s"
| "runCall fac (CQuiesced b) s = setQuiesced b s"
| "runCall fac (CMaxPooled n) s = setMaxPooledEDU n s"
| "runCall fac (CAddIO io) s = addIOService io s"
| "runCall fac (CDelIO io) s = delIOSerivce io s"
| "runCall fac CSignal s = s\<lparr>em_monitorEvent := True\<rparr>"

text \<open>What the entry function of an EDU may do to its own block: through the interface it can activate, wait, lock, take events and use buffers.\<close>

definition resumes :: "pmdEDUCB \<Rightarrow> nat" where
  "resumes cb = length (filter (\<lambda>ev. ev_eventType ev = PMD_EDU_EVENT_RESUME) (cb_queue cb))"

definition ownStep :: "pmdEDUCB \<Rightarrow> pmdEDUCB \<Rightarrow> bool" where
  "ownStep cb cb' \<longleftrightarrow> cb_eduID cb' = cb_eduID cb \<and> cb_eduType cb' = cb_eduType cb
     \<and> cb_status cb' \<in> {PMD_EDU_RUNNING, PMD_EDU_WAITING} \<and> resumes cb' \<le> resumes cb"

text \<open>What the thread does after the wait: the event \<open>RESUME\<close> starts the entry function, every other event goes straight to the return.\<close>

definition takeEvent :: "nat \<Rightarrow> pmdEDUEvent \<Rightarrow> pmdEDUCB \<Rightarrow> pmdEDUMgr \<Rightarrow> pmdEDUMgr \<times> thrPhase" where
  "takeEvent p ev cb' s =
     (let s1 = updCB p (\<lambda>_. cb') s
      in if ev_eventType ev = PMD_EDU_EVENT_RESUME then (snd (waitEDU p s1), TRun ev) else (s1, TReturn ev))"

text \<open>After the entry function: a system EDU that ends while the node is up makes it restart.\<close>

definition afterRun :: "pmdEPFactory \<Rightarrow> nat \<Rightarrow> rc \<Rightarrow> pmdEDUMgr \<Rightarrow> pmdEnv \<Rightarrow> pmdEDUMgr \<times> pmdEnv" where
  "afterRun fac p rc s e =
     (snd (waitEDU p s), if \<not> isShutdown e \<and> isSystemCB fac (cbOf s p) then restartNode rc e else e)"

definition afterDestroy :: "bool \<Rightarrow> nat \<Rightarrow> (nat \<Rightarrow> thrPhase option) \<Rightarrow> nat \<Rightarrow> thrPhase option" where
  "afterDestroy d p thr = thr(p \<mapsto> (if d then TDelete False else TWait))"

text \<open>A thread that throws: \<open>b\<close> says whether it had attached (\<open>quitWithException\<close>).\<close>

definition throwStep :: "bool \<Rightarrow> nat \<Rightarrow> edus \<Rightarrow> edus" where
  "throwStep b p g =
     (case findAndRemove (cb_eduID (cbOf (g_mgr g) p)) (g_mgr g) of
        (Some q, s') \<Rightarrow> g\<lparr>g_mgr := s', g_thr := (g_thr g)(p := None, q \<mapsto> TDelete b)\<rparr>
      | (None, s') \<Rightarrow> g\<lparr>g_mgr := s', g_thr := (g_thr g)(p := None), g_env := if b then restartNode SDB_SYS (g_env g) else g_env g, g_exit := Suc (g_exit g)\<rparr>)"

definition deleteStep :: "bool \<Rightarrow> nat \<Rightarrow> edus \<Rightarrow> edus" where
  "deleteStep b p g =
     g\<lparr>g_mgr := deleteCB p (g_mgr g), g_thr := (g_thr g)(p := None), g_env := if b then restartNode SDB_SYS (g_env g) else g_env g, g_exit := Suc (g_exit g)\<rparr>"

definition alive :: "thrPhase \<Rightarrow> bool" where
  "alive ph \<longleftrightarrow> (case ph of TDelete b \<Rightarrow> False | _ \<Rightarrow> True)"

text \<open>
  Two things can go wrong in the code, and the steps where they do are marked.  \<open>ThreadFault\<close>: the operating system creates no thread, or the thread throws outside the entry
  function (for want of memory).  \<open>CallFault\<close>: \<open>waitEDU\<close> or \<open>activateEDU\<close> is called by id for an EDU that \<open>startEDU\<close> has taken from the pool and not yet
  resumed, or a caller posts a \<open>RESUME\<close> event, which is the manager's own (nothing under \<open>src/src\<close> does either).
\<close>

datatype eduFault = NoFault | ThreadFault | CallFault

definition pendingID :: "edus \<Rightarrow> 64 word \<Rightarrow> bool" where
  "pendingID g i \<longleftrightarrow> (case map_of (em_mapRuns (g_mgr g)) i of Some p \<Rightarrow> p \<in> g_pend g | None \<Rightarrow> False)"

fun callFault :: "edus \<Rightarrow> mgrCall \<Rightarrow> eduFault" where
  "callFault g (CWait i) = (if pendingID g i then CallFault else NoFault)"
| "callFault g (CActivate i) = (if pendingID g i then CallFault else NoFault)"
| "callFault g (CPost i ev) = (if ev_eventType ev = PMD_EDU_EVENT_RESUME then CallFault else NoFault)"
| "callFault g c = NoFault"

fun throwFault :: "thrPhase \<Rightarrow> eduFault" where
  "throwFault (TRun ev) = NoFault"
| "throwFault ph = ThreadFault"

inductive eduStep :: "pmdEPFactory \<Rightarrow> eduFault \<Rightarrow> edus \<Rightarrow> edus \<Rightarrow> bool" for fac where
  create: "getItem ty fac = Some it \<Longrightarrow> ep_pFunc it \<noteq> 0 \<Longrightarrow> p \<noteq> 0 \<Longrightarrow> em_cbs (g_mgr g) p = None \<Longrightarrow> em_EDUID (g_mgr g) < em_EDUID (g_mgr g) + 1 \<Longrightarrow>
    eduStep fac NoFault g (g\<lparr>g_mgr := publishNew p ty (ep_isSystem it) arg nm (g_mgr g), g_thr := (g_thr g)(p \<mapsto> TStart (NewEDU ty (ep_isSystem it)))\<rparr>)"
| createIdle: "p \<noteq> 0 \<Longrightarrow> em_cbs (g_mgr g) p = None \<Longrightarrow> em_EDUID (g_mgr g) < em_EDUID (g_mgr g) + 1 \<Longrightarrow>
    eduStep fac NoFault g (g\<lparr>g_mgr := publishIdle p (g_mgr g), g_thr := (g_thr g)(p \<mapsto> TStart IdleEDU)\<rparr>)"
| attach: "g_thr g p = Some (TStart k) \<Longrightarrow> eduStep fac NoFault g (g\<lparr>g_mgr := threadAttach tid p (g_mgr g), g_thr := (g_thr g)(p \<mapsto> TWait)\<rparr>)"
| noThread: "g_thr g p = Some (TStart k) \<Longrightarrow>
    eduStep fac ThreadFault g (g\<lparr>g_mgr := deleteCB p (g_mgr g), g_thr := (g_thr g)(p := None), g_fail := (k, cb_eduID (cbOf (g_mgr g) p)) # g_fail g\<rparr>)"
| noThreadErase: "(k, i) \<in> set (g_fail g) \<Longrightarrow> eduStep fac ThreadFault g (g\<lparr>g_mgr := failErase k i (g_mgr g), g_fail := remove1 (k, i) (g_fail g)\<rparr>)"
| fromPool: "getItem ty fac = Some it \<Longrightarrow> ep_pFunc it \<noteq> 0 \<Longrightarrow> \<not> ep_isSystem it \<Longrightarrow> getFromPool ty (g_mgr g) = (r, s') \<Longrightarrow>
    eduStep fac NoFault g (g\<lparr>g_mgr := s', g_pend := g_pend g \<union> set_option r\<rparr>)"
| clearPooled: "p \<in> g_pend g \<Longrightarrow> eduStep fac NoFault g (g\<lparr>g_mgr := poolClear p (g_mgr g)\<rparr>)"
| resume: "p \<in> g_pend g \<Longrightarrow> eduStep fac NoFault g (g\<lparr>g_mgr := poolResume p args nm (g_mgr g), g_pend := g_pend g - {p}\<rparr>)"
| timeout: "g_thr g p = Some TWait \<Longrightarrow> destroyIdle p (g_mgr g) = (d, s') \<Longrightarrow>
    eduStep fac NoFault g (g\<lparr>g_mgr := s', g_thr := afterDestroy d p (g_thr g)\<rparr>)"
| takeEv: "g_thr g p = Some TWait \<Longrightarrow> waitEvent [] OSS_ONE_SEC False (cbOf (g_mgr g) p) = Some (Some ev, cb') \<Longrightarrow> takeEvent p ev cb' (g_mgr g) = (s', ph) \<Longrightarrow>
    eduStep fac NoFault g (g\<lparr>g_mgr := s', g_thr := (g_thr g)(p \<mapsto> ph)\<rparr>)"
| run: "g_thr g p = Some (TRun ev) \<Longrightarrow> ownStep (cbOf (g_mgr g) p) cb' \<Longrightarrow>
    eduStep fac NoFault g (g\<lparr>g_mgr := (updCB p (\<lambda>_. cb') (g_mgr g))\<lparr>em_heap := h'\<rparr>\<rparr>)"
| runEnd: "g_thr g p = Some (TRun ev) \<Longrightarrow> afterRun fac p rc (g_mgr g) (g_env g) = (s', e') \<Longrightarrow>
    eduStep fac NoFault g (g\<lparr>g_mgr := s', g_thr := (g_thr g)(p \<mapsto> TReturn ev), g_env := e'\<rparr>)"
| throw: "g_thr g p = Some ph \<Longrightarrow> alive ph \<Longrightarrow> eduStep fac (throwFault ph) g (throwStep (\<forall>k. ph \<noteq> TStart k) p g)"
| release: "g_thr g p = Some (TReturn ev) \<Longrightarrow>
    eduStep fac NoFault g (g\<lparr>g_mgr := memCB p (pmdEduEventRelase ev) (g_mgr g), g_thr := (g_thr g)(p \<mapsto> TPut)\<rparr>)"
| ret: "g_thr g p = Some TPut \<Longrightarrow> returnLatched fac p (g_mgr g) = (d, s') \<Longrightarrow>
    eduStep fac NoFault g (g\<lparr>g_mgr := s', g_thr := afterDestroy d p (g_thr g)\<rparr>)"
| delete: "g_thr g p = Some (TDelete b) \<Longrightarrow> eduStep fac NoFault g (deleteStep b p g)"
| exit: "0 < g_exit g \<Longrightarrow> eduStep fac NoFault g (g\<lparr>g_exit := g_exit g - 1\<rparr>)"
| call: "eduStep fac (callFault g c) g (g\<lparr>g_mgr := runCall fac c (g_mgr g)\<rparr>)"

definition edus_init :: "nat \<Rightarrow> nat \<Rightarrow> nat \<Rightarrow> ossHeap \<Rightarrow> edus" where
  "edus_init p tid maxPooled h =
     \<lparr> g_mgr = snd (edumgr_init True p tid True maxPooled (edumgr_new h)), g_thr = Map.empty, g_pend = {}, g_env = pmdEnv_new, g_fail = [], g_exit = 0 \<rparr>"

text \<open>The states the threads can reach in runs whose faults are in \<open>F\<close>, and in runs without a fault.\<close>

inductive eduRun :: "pmdEPFactory \<Rightarrow> eduFault set \<Rightarrow> edus \<Rightarrow> bool" for fac F where
  init: "p \<noteq> 0 \<Longrightarrow> eduRun fac F (edus_init p tid maxPooled h)"
| step: "eduRun fac F g \<Longrightarrow> eduStep fac a g g' \<Longrightarrow> a \<in> F \<Longrightarrow> eduRun fac F g'"

definition eduReach :: "pmdEPFactory \<Rightarrow> edus \<Rightarrow> bool" where
  "eduReach fac g \<longleftrightarrow> eduRun fac {NoFault} g"

lemma eduReach_init: "p \<noteq> 0 \<Longrightarrow> eduReach fac (edus_init p tid maxPooled h)"
  by (simp add: eduReach_def eduRun.init)

lemma eduReach_step: "eduReach fac g \<Longrightarrow> eduStep fac NoFault g g' \<Longrightarrow> eduReach fac g'"
  unfolding eduReach_def by (rule eduRun.step) simp_all

section \<open>The invariant\<close>

definition run_ok :: "pmdEPFactory \<Rightarrow> pmdEDUCB \<Rightarrow> bool" where
  "run_ok fac cb \<longleftrightarrow> cb_status cb \<in> {PMD_EDU_CREATING, PMD_EDU_RUNNING, PMD_EDU_WAITING} \<and> getItem (cb_eduType cb) fac \<noteq> None"

definition idle_ok :: "pmdEPFactory \<Rightarrow> pmdEDUCB \<Rightarrow> bool" where
  "idle_ok fac cb \<longleftrightarrow> cb_status cb = PMD_EDU_IDLE \<and> getItem (cb_eduType cb) fac = None \<and> resumes cb = 0"

definition sysIDs :: "pmdEPFactory \<Rightarrow> pmdEDUMgr \<Rightarrow> int \<Rightarrow> 64 word set" where
  "sysIDs fac s ty = {i. isSystem ty fac \<and> (\<exists>p cb. map_of (em_mapRuns s) i = Some p \<and> em_cbs s p = Some cb \<and> cb_eduType cb = ty)}"

definition ptrs :: "pmdEDUMgr \<Rightarrow> nat set" where
  "ptrs s = ran (map_of (em_mapRuns s)) \<union> ran (map_of (em_mapIdles s))"

definition sys_ok :: "pmdEDUMgr \<Rightarrow> bool" where
  "sys_ok s \<longleftrightarrow> smap_ok (em_mapSystemEdu s) \<and> (\<forall>ty S. map_of (em_mapSystemEdu s) ty = Some S \<longrightarrow> S \<noteq> {} \<and> finite S)"

text \<open>The invariant of the manager; \<open>D\<close> holds the blocks that are in no table any more and not yet deleted.\<close>

definition minv :: "pmdEPFactory \<Rightarrow> nat set \<Rightarrow> pmdEDUMgr \<Rightarrow> bool" where
  "minv fac D s \<longleftrightarrow>
     smap_ok (em_mapRuns s) \<and> smap_ok (em_mapIdles s) \<and> dom (map_of (em_mapRuns s)) \<inter> dom (map_of (em_mapIdles s)) = {}
     \<and> (\<forall>i p. map_of (em_mapRuns s) i = Some p \<longrightarrow> p \<noteq> em_pMainEDU s \<and> i < em_EDUID s \<and> (\<exists>cb. em_cbs s p = Some cb \<and> cb_eduID cb = i \<and> run_ok fac cb))
     \<and> (\<forall>i p. map_of (em_mapIdles s) i = Some p \<longrightarrow> p \<noteq> em_pMainEDU s \<and> i < em_EDUID s \<and> (\<exists>cb. em_cbs s p = Some cb \<and> cb_eduID cb = i \<and> idle_ok fac cb))
     \<and> sys_ok s \<and> (\<forall>ty. getSystemEDU ty s = sysIDs fac s ty) \<and> dom (em_cbs s) = insert (em_pMainEDU s) (ptrs s \<union> D) \<and> em_cbs s 0 = None
     \<and> D \<inter> insert (em_pMainEDU s) (ptrs s) = {}"

definition dying :: "edus \<Rightarrow> nat set" where
  "dying g = {p. \<exists>ph. g_thr g p = Some ph \<and> \<not> alive ph}"

definition tinv :: "edus \<Rightarrow> bool" where
  "tinv g \<longleftrightarrow>
     dom (g_thr g) = ptrs (g_mgr g) \<union> dying g
     \<and> (\<forall>p ev. g_thr g p = Some (TRun ev) \<longrightarrow> (\<exists>cb. em_cbs (g_mgr g) p = Some cb \<and> cb_status cb \<in> {PMD_EDU_RUNNING, PMD_EDU_WAITING}))
     \<and> (\<forall>p\<in>g_pend g. p \<in> ptrs (g_mgr g) \<and> (\<exists>cb. em_cbs (g_mgr g) p = Some cb \<and> cb_status cb = PMD_EDU_CREATING \<and> resumes cb = 0))"

lemma alive_simps [simp]: "alive (TStart k)" "alive TWait" "alive (TRun ev)" "alive (TReturn ev)" "alive TPut" "\<not> alive (TDelete b)"
  by (simp_all add: alive_def)

lemma minvD:
  assumes "minv fac D s"
  shows "smap_ok (em_mapRuns s)" "smap_ok (em_mapIdles s)" "dom (map_of (em_mapRuns s)) \<inter> dom (map_of (em_mapIdles s)) = {}"
    "map_of (em_mapRuns s) i = Some p \<Longrightarrow> p \<noteq> em_pMainEDU s \<and> i < em_EDUID s \<and> (\<exists>cb. em_cbs s p = Some cb \<and> cb_eduID cb = i \<and> run_ok fac cb)"
    "map_of (em_mapIdles s) i = Some p \<Longrightarrow> p \<noteq> em_pMainEDU s \<and> i < em_EDUID s \<and> (\<exists>cb. em_cbs s p = Some cb \<and> cb_eduID cb = i \<and> idle_ok fac cb)"
    "sys_ok s" "getSystemEDU ty s = sysIDs fac s ty" "dom (em_cbs s) = insert (em_pMainEDU s) (ptrs s \<union> D)" "em_cbs s 0 = None"
    "D \<inter> insert (em_pMainEDU s) (ptrs s) = {}"
  using assms by (simp_all add: minv_def)

text \<open>Where a live block that is not the main one is.\<close>

lemma ptrs_cases:
  assumes inv: "minv fac D s" and p: "p \<in> ptrs s"
  obtains (run) cb where "map_of (em_mapRuns s) (cb_eduID cb) = Some p" "em_cbs s p = Some cb" "run_ok fac cb" "map_of (em_mapIdles s) (cb_eduID cb) = None"
    | (idle) cb where "map_of (em_mapIdles s) (cb_eduID cb) = Some p" "em_cbs s p = Some cb" "idle_ok fac cb" "map_of (em_mapRuns s) (cb_eduID cb) = None"
proof -
  have dj: "map_of (em_mapIdles s) i = None" if "map_of (em_mapRuns s) i = Some q" for i q
    using minvD(3) [OF inv] that by (metis IntI domI domIff empty_iff)
  have dj2: "map_of (em_mapRuns s) i = None" if "map_of (em_mapIdles s) i = Some q" for i q
    using minvD(3) [OF inv] that by (metis IntI domI domIff empty_iff)
  from p consider i where "map_of (em_mapRuns s) i = Some p" | i where "map_of (em_mapIdles s) i = Some p" by (auto simp: ptrs_def ran_def)
  then show thesis
  proof cases
    case 1
    then show thesis using minvD(4) [OF inv 1] dj [OF 1] run by blast
  next
    case 2
    then show thesis using minvD(5) [OF inv 2] dj2 [OF 2] idle by blast
  qed
qed

text \<open>A block is in one place of one table only: its id says which.\<close>

lemma ptr_id:
  assumes "minv fac D s" and "em_cbs s p = Some cb"
  shows "map_of (em_mapRuns s) i = Some p \<Longrightarrow> i = cb_eduID cb" "map_of (em_mapIdles s) i = Some p \<Longrightarrow> i = cb_eduID cb"
  using minvD(4,5) [OF assms(1), of i p] assms(2) by auto

section \<open>Changing a block in place\<close>

lemma minv_upd:
  assumes inv: "minv fac D s" and p: "em_cbs s p = Some cb" and same: "cb_eduID cb' = cb_eduID cb" "cb_eduType cb' = cb_eduType cb"
    and ok: "run_ok fac cb \<Longrightarrow> run_ok fac cb'" "idle_ok fac cb \<Longrightarrow> idle_ok fac cb'"
  shows "minv fac D (s\<lparr>em_cbs := (em_cbs s)(p \<mapsto> cb'), em_heap := h'\<rparr>)"
proof -
  let ?s = "s\<lparr>em_cbs := (em_cbs s)(p \<mapsto> cb'), em_heap := h'\<rparr>"
  have sys: "sysIDs fac ?s ty = sysIDs fac s ty" for ty
    using p same(2) by (auto simp: sysIDs_def split: if_splits)
  have "getSystemEDU ty ?s = getSystemEDU ty s" for ty by (simp add: getSystemEDU_def)
  moreover have "sys_ok ?s" using minvD(6) [OF inv] by (simp add: sys_ok_def)
  moreover have "dom (em_cbs ?s) = insert (em_pMainEDU ?s) (ptrs ?s \<union> D)" using minvD(8) [OF inv] p by (auto simp: ptrs_def)
  moreover have "D \<inter> insert (em_pMainEDU ?s) (ptrs ?s) = {}" using minvD(10) [OF inv] by (simp add: ptrs_def)
  moreover have "q \<noteq> em_pMainEDU s \<and> i < em_EDUID s \<and> (\<exists>c. em_cbs ?s q = Some c \<and> cb_eduID c = i \<and> run_ok fac c)"
    if "map_of (em_mapRuns s) i = Some q" for i q
    using minvD(4) [OF inv that] p same(1) ok(1) by auto
  moreover have "q \<noteq> em_pMainEDU s \<and> i < em_EDUID s \<and> (\<exists>c. em_cbs ?s q = Some c \<and> cb_eduID c = i \<and> idle_ok fac c)"
    if "map_of (em_mapIdles s) i = Some q" for i q
    using minvD(5) [OF inv that] p same(1) ok(2) by auto
  moreover have "em_cbs ?s 0 = None" using minvD(9) [OF inv] p by (cases "p = 0") auto
  ultimately show ?thesis using minvD(1,2,3,7) [OF inv] sys unfolding minv_def by simp
qed


definition einv :: "pmdEPFactory \<Rightarrow> edus \<Rightarrow> bool" where
  "einv fac g \<longleftrightarrow> minv fac (dying g) (g_mgr g) \<and> tinv g"

text \<open>The fields the invariant depends on.\<close>

definition mcore :: "pmdEDUMgr \<Rightarrow> (64 word \<times> nat) list \<times> (64 word \<times> nat) list \<times> (int \<times> 64 word set) list \<times> 64 word \<times> nat \<times> (nat \<Rightarrow> pmdEDUCB option)" where
  "mcore s = (em_mapRuns s, em_mapIdles s, em_mapSystemEdu s, em_EDUID s, em_pMainEDU s, em_cbs s)"

lemma minv_core: "mcore s = mcore s' \<Longrightarrow> minv fac D s \<longleftrightarrow> minv fac D s'"
  by (simp add: mcore_def minv_def ptrs_def sys_ok_def getSystemEDU_def sysIDs_def)

lemma einv_core: "mcore (g_mgr g) = mcore (g_mgr g') \<Longrightarrow> g_thr g = g_thr g' \<Longrightarrow> g_pend g = g_pend g' \<Longrightarrow> einv fac g \<longleftrightarrow> einv fac g'"
  using minv_core [of "g_mgr g" "g_mgr g'" fac "dying g"] by (simp add: einv_def tinv_def ptrs_def mcore_def dying_def)

text \<open>A change that keeps id, type and status of a block and posts no \<open>RESUME\<close>.\<close>

definition quiet :: "pmdEDUCB \<Rightarrow> pmdEDUCB \<Rightarrow> bool" where
  "quiet cb cb' \<longleftrightarrow> cb_eduID cb' = cb_eduID cb \<and> cb_eduType cb' = cb_eduType cb \<and> cb_status cb' = cb_status cb \<and> resumes cb' \<le> resumes cb"

lemma quiet_ok: "quiet cb cb' \<Longrightarrow> run_ok fac cb \<Longrightarrow> run_ok fac cb'" "quiet cb cb' \<Longrightarrow> idle_ok fac cb \<Longrightarrow> idle_ok fac cb'"
  by (auto simp: quiet_def run_ok_def idle_ok_def)

lemma quiet_trans: "quiet a b \<Longrightarrow> quiet b c \<Longrightarrow> quiet a c"
  by (simp add: quiet_def)

lemma einv_quiet:
  assumes inv: "einv fac g" and p: "em_cbs (g_mgr g) p = Some cb" and q: "quiet cb cb'"
  shows "einv fac (g\<lparr>g_mgr := (g_mgr g)\<lparr>em_cbs := (em_cbs (g_mgr g))(p \<mapsto> cb'), em_heap := h'\<rparr>\<rparr>)"
proof -
  have m: "minv fac (dying g) (g_mgr g)" and t: "tinv g" using inv by (simp_all add: einv_def)
  have "minv fac (dying g) ((g_mgr g)\<lparr>em_cbs := (em_cbs (g_mgr g))(p \<mapsto> cb'), em_heap := h'\<rparr>)"
    by (rule minv_upd [OF m p]) (use q quiet_ok [OF q] in \<open>auto simp: quiet_def\<close>)
  moreover have "tinv (g\<lparr>g_mgr := (g_mgr g)\<lparr>em_cbs := (em_cbs (g_mgr g))(p \<mapsto> cb'), em_heap := h'\<rparr>\<rparr>)"
    using t p q unfolding tinv_def by (auto simp: ptrs_def quiet_def dying_def)
  ultimately show ?thesis by (simp add: einv_def dying_def)
qed

lemma einv_updCB: "einv fac g \<Longrightarrow> (\<And>cb. quiet cb (f cb)) \<Longrightarrow> einv fac (g\<lparr>g_mgr := updCB p f (g_mgr g)\<rparr>)"
  using einv_quiet [of fac g p _ _ "em_heap (g_mgr g)"] by (cases "em_cbs (g_mgr g) p") (simp_all add: updCB_def)

lemma einv_memCB: "einv fac g \<Longrightarrow> (\<And>cb h. quiet cb (fst (f (cb, h)))) \<Longrightarrow> einv fac (g\<lparr>g_mgr := memCB p f (g_mgr g)\<rparr>)"
proof (cases "em_cbs (g_mgr g) p")
  case (Some cb)
  assume inv: "einv fac g" and q: "\<And>cb h. quiet cb (fst (f (cb, h)))"
  obtain cb' h' where r: "f (cb, em_heap (g_mgr g)) = (cb', h')" by (cases "f (cb, em_heap (g_mgr g))")
  show ?thesis using einv_quiet [OF inv Some, of cb' h'] q [of cb "em_heap (g_mgr g)"] by (simp add: memCB_def Some r)
qed (simp add: memCB_def)

text \<open>The changes of a block that are quiet.\<close>

lemma quiet_simps:
  "quiet cb (setName nm cb)" "quiet cb (educb_interrupt cb)" "quiet cb (educb_disconnect cb)" "quiet cb (educb_force cb)"
  "quiet cb (cb\<lparr>cb_isLocked := b\<rparr>)" "quiet cb (cb\<lparr>cb_threadID := a, cb_threadHdl := b', cb_tid := c\<rparr>)"
  "ev_eventType ev \<noteq> PMD_EDU_EVENT_RESUME \<Longrightarrow> quiet cb (postEvent ev cb)"
  by (auto simp: quiet_def resumes_def setName_def educb_interrupt_def educb_disconnect_def educb_force_def postEvent_def event_new_def Let_def)

lemma trimCatch_quiet: "quiet cb (fst (trimCatch cb h))"
proof (induction cb h rule: trimCatch.induct)
  case (1 cb h)
  show ?case
  proof (cases "cb_totalCatchSize cb > int EDU_MAX_CATCH_SIZE")
    case True
    show ?thesis
    proof (cases "cb_catchMap cb")
      case (Cons e rest)
      obtain n p where e: "e = (n, p)" by (cases e)
      have "quiet cb (cb\<lparr>cb_totalMemSize := cb_totalMemSize cb - int n, cb_totalCatchSize := cb_totalCatchSize cb - int n, cb_catchMap := rest\<rparr>)"
        by (simp add: quiet_def resumes_def)
      from quiet_trans [OF this "1.IH" [OF True Cons e [symmetric]]] show ?thesis using True Cons e by (simp add: trimCatch.simps [of cb h])
    qed (use True in \<open>simp add: trimCatch.simps [of cb h] quiet_def\<close>)
  qed (simp add: trimCatch.simps [of cb h] quiet_def)
qed

lemma releaseBuff_quiet: "quiet cb (fst (releaseBuff p (cb, h)))"
proof (cases "map_of (cb_allocMap cb) p")
  case (Some n)
  let ?c = "cb\<lparr>cb_allocMap := smap_erase p (cb_allocMap cb), cb_catchMap := multi_insert (u32 (s32 (int n))) p (cb_catchMap cb), cb_totalCatchSize := cb_totalCatchSize cb + s32 (int n)\<rparr>"
  have "quiet cb ?c" by (simp add: quiet_def resumes_def)
  from quiet_trans [OF this trimCatch_quiet [of ?c h]] show ?thesis by (simp add: releaseBuff_def Some Let_def) (simp add: quiet_def resumes_def)
qed (simp add: releaseBuff_def quiet_def)

lemma eventRelase_quiet: "quiet cb (fst (pmdEduEventRelase ev (cb, h)))"
  using releaseBuff_quiet [of cb "ev_Data ev" h] by (simp add: pmdEduEventRelase_def) (simp add: quiet_def)

lemma eventsRelase_quiet: "quiet cb (fst (fold pmdEduEventRelase evs (cb, h)))"
proof (induction evs arbitrary: cb h)
  case (Cons ev evs)
  show ?case using quiet_trans [OF eventRelase_quiet [of cb ev h] Cons.IH [of "fst (pmdEduEventRelase ev (cb, h))" "snd (pmdEduEventRelase ev (cb, h))"]] by simp
qed (simp add: quiet_def)

text \<open>Clearing a block keeps its id, type and status, and empties its queue.\<close>

lemma educb_clear_keeps:
  "quiet cb (fst (educb_clear (cb, h)))" "resumes (fst (educb_clear (cb, h))) = 0"
proof -
  obtain cb1 h1 where r: "fold pmdEduEventRelase (cb_queue cb) (cb, h) = (cb1, h1)" by (cases "fold pmdEduEventRelase (cb_queue cb) (cb, h)")
  have q: "quiet cb cb1" using eventsRelase_quiet [of cb "cb_queue cb" h] r by simp
  have f: "cb_eduID (fst (freeAlloc (freeCatch (releaseAlignedBuff m)))) = cb_eduID (fst m)" "cb_eduType (fst (freeAlloc (freeCatch (releaseAlignedBuff m)))) = cb_eduType (fst m)"
    "cb_status (fst (freeAlloc (freeCatch (releaseAlignedBuff m)))) = cb_status (fst m)" "cb_queue (fst (freeAlloc (freeCatch (releaseAlignedBuff m)))) = cb_queue (fst m)" for m
    by (cases m; simp add: freeAlloc_def freeCatch_def releaseAlignedBuff_def Let_def)+
  show "resumes (fst (educb_clear (cb, h))) = 0" by (simp add: educb_clear_def r f resumes_def)
  then show "quiet cb (fst (educb_clear (cb, h)))" using q by (simp add: educb_clear_def r f quiet_def)
qed

section \<open>Calls of other threads\<close>

lemma einv_fold:
  assumes "einv fac g" and "\<And>g p i. einv fac g \<Longrightarrow> einv fac (g\<lparr>g_mgr := f (i, p) (g_mgr g)\<rparr>)"
  shows "einv fac (g\<lparr>g_mgr := fold f xs (g_mgr g)\<rparr>)"
  using assms(1)
proof (induction xs arbitrary: g)
  case (Cons x xs)
  obtain i p where x: "x = (i, p)" by (cases x)
  show ?case using Cons.IH [OF assms(2) [OF Cons.prems, of i p]] by (simp add: x)
qed simp

text \<open>The status of a running EDU set by id, as long as no \<open>startEDU\<close> is about to resume the EDU.\<close>

lemma einv_status:
  assumes inv: "einv fac g" and i: "map_of (em_mapRuns (g_mgr g)) i = Some p" and pend: "p \<notin> g_pend g" and st: "st = PMD_EDU_RUNNING \<or> st = PMD_EDU_WAITING"
  shows "einv fac (g\<lparr>g_mgr := updCB p (\<lambda>cb. cb\<lparr>cb_status := st\<rparr>) (g_mgr g)\<rparr>)"
proof -
  have m: "minv fac (dying g) (g_mgr g)" and t: "tinv g" using inv by (simp_all add: einv_def)
  obtain cb where cb: "em_cbs (g_mgr g) p = Some cb" "run_ok fac cb" using minvD(4) [OF m i] by blast
  let ?s = "(g_mgr g)\<lparr>em_cbs := (em_cbs (g_mgr g))(p \<mapsto> cb\<lparr>cb_status := st\<rparr>), em_heap := em_heap (g_mgr g)\<rparr>"
  have "minv fac (dying g) ?s" by (rule minv_upd [OF m cb(1)]) (use cb(2) st in \<open>auto simp: run_ok_def idle_ok_def\<close>)
  moreover have "tinv (g\<lparr>g_mgr := ?s\<rparr>)" using t pend st cb unfolding tinv_def by (auto simp: ptrs_def dying_def)
  moreover have "updCB p (\<lambda>cb. cb\<lparr>cb_status := st\<rparr>) (g_mgr g) = ?s" using cb by (simp add: updCB_def)
  ultimately show ?thesis by (simp add: einv_def dying_def)
qed

lemma einv_call:
  assumes inv: "einv fac g" and nf: "callFault g c = NoFault"
  shows "einv fac (g\<lparr>g_mgr := runCall fac c (g_mgr g)\<rparr>)"
proof (cases c)
  case (CPost i ev)
  then have "ev_eventType ev \<noteq> PMD_EDU_EVENT_RESUME" using nf by auto
  then show ?thesis using inv CPost by (auto simp: postEDUPost_def quiet_simps intro!: einv_updCB split: option.splits)
next
  case (CForceAll sys usr)
  let ?f1 = "\<lambda>(i, p) s. if selected fac sys usr (cbOf s p) then updCB p educb_force s else s"
    and ?f2 = "\<lambda>(i, p) s. if usr then updCB p educb_force s else s"
  have 1: "einv fac (g\<lparr>g_mgr := fold ?f1 (em_mapRuns (g_mgr g)) (g_mgr g)\<rparr>)"
    by (rule einv_fold [where f = ?f1, OF inv]) (simp add: einv_updCB quiet_simps)
  have "einv fac (g1\<lparr>g_mgr := fold ?f2 xs (g_mgr g1)\<rparr>)" if "einv fac g1" for g1 xs
    by (rule einv_fold [where f = ?f2, OF that]) (simp add: einv_updCB quiet_simps)
  from this [OF 1] show ?thesis by (simp add: CForceAll forceEDUs_def Let_def)
next
  case (CWait i)
  then have "p \<notin> g_pend g" if "map_of (em_mapRuns (g_mgr g)) i = Some p" for p using nf that by (simp add: pendingID_def split: if_splits)
  then show ?thesis using inv einv_status [OF inv, of i] by (auto simp: CWait waitEDUByID_def waitEDU_def Let_def split: option.splits)
next
  case (CActivate i)
  then have "p \<notin> g_pend g" if "map_of (em_mapRuns (g_mgr g)) i = Some p" for p using nf that by (simp add: pendingID_def split: if_splits)
  then show ?thesis using inv einv_status [OF inv, of i] by (auto simp: CActivate activateEDUByID_def activateEDU_def Let_def split: option.splits)
qed (use inv in \<open>auto simp: forceUserEDU_def interruptUserEDU_def disconnectUserEDU_def lockEDU_def unlockEDU_def quiet_simps intro!: einv_updCB split: sum.splits\<close>,
     use inv in \<open>auto simp: setDestroyed_def setQuiesced_def setMaxPooledEDU_def addIOService_def delIOSerivce_def mcore_def
        intro: iffD1 [OF einv_core, rotated -1]\<close>)


section \<open>The table of system EDUs\<close>

lemma removeFromSystem_sys:
  assumes "sys_ok s"
  shows "sys_ok (removeFromSystem ty i s)" "getSystemEDU t (removeFromSystem ty i s) = (if t = ty then getSystemEDU t s - {i} else getSystemEDU t s)"
proof -
  have ok: "smap_ok (em_mapSystemEdu s)" using assms by (simp add: sys_ok_def)
  note f = smap_set_find [OF ok] smap_erase_find smap_set_ok [OF ok] smap_erase_ok [OF ok]
  show "sys_ok (removeFromSystem ty i s)" using assms by (auto simp: f removeFromSystem_def sys_ok_def Let_def split: option.splits if_splits)
  show "getSystemEDU t (removeFromSystem ty i s) = (if t = ty then getSystemEDU t s - {i} else getSystemEDU t s)"
    by (auto simp: f removeFromSystem_def getSystemEDU_def Let_def split: option.splits)
qed

lemma addToSystem_sys:
  assumes "sys_ok s"
  shows "sys_ok (addToSystem ty i s)" "getSystemEDU t (addToSystem ty i s) = (if t = ty then insert i (getSystemEDU t s) else getSystemEDU t s)"
proof -
  have ok: "smap_ok (em_mapSystemEdu s)" using assms by (simp add: sys_ok_def)
  note f = smap_set_find [OF ok] smap_set_ok [OF ok]
  show "sys_ok (addToSystem ty i s)" using assms by (auto simp: f addToSystem_def sys_ok_def split: option.splits if_splits)
  show "getSystemEDU t (addToSystem ty i s) = (if t = ty then insert i (getSystemEDU t s) else getSystemEDU t s)"
    by (auto simp: f addToSystem_def getSystemEDU_def split: option.splits)
qed

lemma system_frame [simp]:
  "em_mapRuns (removeFromSystem ty i s) = em_mapRuns s" "em_mapIdles (removeFromSystem ty i s) = em_mapIdles s" "em_cbs (removeFromSystem ty i s) = em_cbs s"
  "em_EDUID (removeFromSystem ty i s) = em_EDUID s" "em_pMainEDU (removeFromSystem ty i s) = em_pMainEDU s"
  "em_mapRuns (addToSystem ty i s) = em_mapRuns s" "em_mapIdles (addToSystem ty i s) = em_mapIdles s" "em_cbs (addToSystem ty i s) = em_cbs s"
  "em_EDUID (addToSystem ty i s) = em_EDUID s" "em_pMainEDU (addToSystem ty i s) = em_pMainEDU s"
  by (simp_all add: removeFromSystem_def addToSystem_def Let_def split: option.splits)

lemma sys_ok_cong: "em_mapSystemEdu s = em_mapSystemEdu s' \<Longrightarrow> sys_ok s = sys_ok s' \<and> getSystemEDU ty s = getSystemEDU ty s'"
  by (simp add: sys_ok_def getSystemEDU_def)

lemma memCB_frame [simp]:
  "em_mapRuns (memCB p f s) = em_mapRuns s" "em_mapIdles (memCB p f s) = em_mapIdles s" "em_mapSystemEdu (memCB p f s) = em_mapSystemEdu s"
  "em_EDUID (memCB p f s) = em_EDUID s" "em_pMainEDU (memCB p f s) = em_pMainEDU s"
  by (simp_all add: memCB_def Let_def split: option.splits prod.splits)

lemma deleteCB_frame [simp]:
  "em_mapRuns (deleteCB p s) = em_mapRuns s" "em_mapIdles (deleteCB p s) = em_mapIdles s" "em_mapSystemEdu (deleteCB p s) = em_mapSystemEdu s"
  "em_EDUID (deleteCB p s) = em_EDUID s" "em_pMainEDU (deleteCB p s) = em_pMainEDU s" "em_cbs (deleteCB p s) = (em_cbs s)(p := None)"
  by (auto simp: deleteCB_def Let_def memCB_def split: option.splits prod.splits)

section \<open>A block leaves the tables\<close>

text \<open>The block at \<open>p\<close>, with id \<open>i\<close>, taken out of its table and out of the table of system EDUs; it is still live.\<close>

definition removed :: "nat \<Rightarrow> 64 word \<Rightarrow> pmdEDUMgr \<Rightarrow> pmdEDUMgr \<Rightarrow> bool" where
  "removed p i s s' \<longleftrightarrow>
     (\<exists>cb s0. em_cbs s p = Some cb \<and> cb_eduID cb = i \<and> s' = postDestoryEDU p s0
        \<and> em_cbs s0 = em_cbs s \<and> em_mapSystemEdu s0 = em_mapSystemEdu s \<and> em_EDUID s0 = em_EDUID s \<and> em_pMainEDU s0 = em_pMainEDU s
        \<and> em_mapRuns s0 = smap_erase i (em_mapRuns s) \<and> em_mapIdles s0 = smap_erase i (em_mapIdles s))"

lemma smap_erase_none: "map_of xs i = None \<Longrightarrow> smap_erase i xs = xs"
  by (auto simp: smap_erase_def map_of_eq_None_iff filter_id_conv)

lemma minv_removed:
  assumes inv: "minv fac D s" and p: "p \<in> ptrs s" and r: "removed p i s s'"
  shows "minv fac (insert p D) s'" "ptrs s' = ptrs s - {p}" "em_cbs s' = em_cbs s"
proof -
  obtain cb s0 where cb: "em_cbs s p = Some cb" "cb_eduID cb = i" and s': "s' = postDestoryEDU p s0"
    and s0: "em_cbs s0 = em_cbs s" "em_mapSystemEdu s0 = em_mapSystemEdu s" "em_EDUID s0 = em_EDUID s" "em_pMainEDU s0 = em_pMainEDU s"
      "em_mapRuns s0 = smap_erase i (em_mapRuns s)" "em_mapIdles s0 = smap_erase i (em_mapIdles s)"
    using r by (auto simp: removed_def)
  define s1 where "s1 = s0\<lparr>em_mapTid2Edu := eraseFirst i (em_mapTid2Edu s0)\<rparr>"
  have pd: "postDestoryEDU p s0 = removeFromSystem (cb_eduType cb) i s1" using cb by (simp add: postDestoryEDU_def s1_def cbOf_def s0)
  have sel: "em_mapRuns s' = smap_erase i (em_mapRuns s)" "em_mapIdles s' = smap_erase i (em_mapIdles s)" "em_EDUID s' = em_EDUID s" "em_pMainEDU s' = em_pMainEDU s"
    "em_cbs s' = em_cbs s" by (simp_all add: s' pd s1_def s0)
  have sys0: "sys_ok s1" "\<And>t. getSystemEDU t s1 = getSystemEDU t s" using sys_ok_cong [of s1 s] minvD(6) [OF inv] by (simp_all add: s1_def s0)
  have sys: "sys_ok s'" "getSystemEDU t s' = (if t = cb_eduType cb then getSystemEDU t s - {i} else getSystemEDU t s)" for t
    using removeFromSystem_sys [OF sys0(1), where ty = "cb_eduType cb" and i = i] sys0(2) sys_ok_cong [of s' "removeFromSystem (cb_eduType cb) i s1"] by (simp_all add: s' pd)
  from inv p have one: "map_of (em_mapRuns s) i = Some p \<and> map_of (em_mapIdles s) i = None \<or> map_of (em_mapIdles s) i = Some p \<and> map_of (em_mapRuns s) i = None"
    by (cases rule: ptrs_cases) (use cb in simp_all)
  have id: "(map_of (em_mapRuns s) j = Some p \<or> map_of (em_mapIdles s) j = Some p) \<longleftrightarrow> j = i" for j
    using one ptr_id [OF inv cb(1), of j] cb(2) by auto
  have at: "map_of (em_mapRuns s) i = Some q \<or> map_of (em_mapIdles s) i = Some q \<Longrightarrow> q = p" for q using one by auto
  have *: "q \<in> ptrs s' \<longleftrightarrow> (\<exists>j. j \<noteq> i \<and> (map_of (em_mapRuns s) j = Some q \<or> map_of (em_mapIdles s) j = Some q))" for q
    unfolding ptrs_def ran_def sel smap_erase_find by (auto split: if_splits)
  have **: "q \<in> ptrs s \<longleftrightarrow> (\<exists>j. map_of (em_mapRuns s) j = Some q \<or> map_of (em_mapIdles s) j = Some q)" for q
    by (auto simp: ptrs_def ran_def)
  show ptrs: "ptrs s' = ptrs s - {p}" 
  proof (intro set_eqI iffI)
    fix q assume "q \<in> ptrs s'"
    then obtain j where j: "j \<noteq> i" "map_of (em_mapRuns s) j = Some q \<or> map_of (em_mapIdles s) j = Some q" using * by blast
    then have "q \<noteq> p" using id [of j] by auto
    then show "q \<in> ptrs s - {p}" using ** j(2) by blast
  next
    fix q assume q: "q \<in> ptrs s - {p}"
    then obtain j where j: "map_of (em_mapRuns s) j = Some q \<or> map_of (em_mapIdles s) j = Some q" using ** by blast
    then have "j \<noteq> i" using at [of q] q by auto
    then show "q \<in> ptrs s'" using * j by blast
  qed
  show "em_cbs s' = em_cbs s" by (rule sel(5))
  have main: "p \<noteq> em_pMainEDU s" using one minvD(4,5) [OF inv, of i p] by auto
  have apart: "q \<noteq> p" if "j \<noteq> i" "map_of (em_mapRuns s) j = Some q \<or> map_of (em_mapIdles s) j = Some q" for j q using id [of j] that by auto
  have left: "j \<in> sysIDs fac s' t \<longleftrightarrow> j \<noteq> i \<and> j \<in> sysIDs fac s t" for j t
    using apart [of j] by (cases "map_of (em_mapRuns s) j") (auto simp: sysIDs_def sel smap_erase_find)
  have "t = cb_eduType cb" if "i \<in> sysIDs fac s t" for t using that at cb(1) by (force simp: sysIDs_def)
  then have "sysIDs fac s' t = (if t = cb_eduType cb then sysIDs fac s t - {i} else sysIDs fac s t)" for t
    by (intro set_eqI) (auto simp: left)
  then have "getSystemEDU t s' = sysIDs fac s' t" for t using sys(2) minvD(7) [OF inv] by simp
  moreover have "dom (em_cbs s') = insert (em_pMainEDU s') (ptrs s' \<union> insert p D)" using minvD(8) [OF inv] p unfolding ptrs sel by auto
  moreover have "insert p D \<inter> insert (em_pMainEDU s') (ptrs s') = {}" using minvD(10) [OF inv] main unfolding ptrs sel by auto
  moreover have "\<exists>c. em_cbs s' q = Some c \<and> cb_eduID c = j \<and> run_ok fac c" if "j \<noteq> i" "map_of (em_mapRuns s) j = Some q" for j q
    using apart [of j q] minvD(4) [OF inv that(2)] that by (auto simp: sel)
  moreover have "\<exists>c. em_cbs s' q = Some c \<and> cb_eduID c = j \<and> idle_ok fac c" if "j \<noteq> i" "map_of (em_mapIdles s) j = Some q" for j q
    using apart [of j q] minvD(5) [OF inv that(2)] that by (auto simp: sel)
  moreover have "em_cbs s' 0 = None" using minvD(9) [OF inv] by (simp add: sel)
  ultimately show "minv fac (insert p D) s'" using sys(1) minvD(1-5) [OF inv] unfolding minv_def sel(1-4) smap_erase_find
    by (auto simp: smap_erase_ok)
qed

lemma einv_removed:
  assumes inv: "einv fac g" and p: "p \<in> ptrs (g_mgr g)" and r: "removed p i (g_mgr g) s'" and pend: "p \<notin> g_pend g"
  shows "einv fac (g\<lparr>g_mgr := s', g_thr := (g_thr g)(p \<mapsto> TDelete b)\<rparr>)"
proof -
  let ?g = "g\<lparr>g_mgr := s', g_thr := (g_thr g)(p \<mapsto> TDelete b)\<rparr>"
  have m: "minv fac (dying g) (g_mgr g)" and t: "tinv g" using inv by (simp_all add: einv_def)
  note R = minv_removed [OF m p r]
  have d: "dying ?g = insert p (dying g)" by (auto simp: dying_def)
  have "dom (g_thr ?g) = ptrs (g_mgr ?g) \<union> dying ?g" using t p R(2) unfolding d by (auto simp: tinv_def)
  then have "tinv ?g" using t pend R(2,3) unfolding tinv_def by auto
  then show ?thesis using R(1) d by (simp add: einv_def)
qed

text \<open>The thread deletes its block.\<close>

lemma einv_deleted:
  assumes inv: "einv fac g" and p: "g_thr g p = Some (TDelete b)"
  shows "einv fac (deleteStep b p g)"
proof -
  let ?g = "deleteStep b p g" and ?s = "g_mgr g" and ?s' = "deleteCB p (g_mgr g)"
  have m: "minv fac (dying g) ?s" and t: "tinv g" using inv by (simp_all add: einv_def)
  have pd: "p \<in> dying g" using p by (auto simp: dying_def)
  then have np: "p \<notin> ptrs ?s" "p \<noteq> em_pMainEDU ?s" using minvD(10) [OF m] by auto
  have d: "dying ?g = dying g - {p}" by (auto simp: dying_def deleteStep_def)
  have q: "q \<noteq> p" if "map_of (em_mapRuns ?s) i = Some q \<or> map_of (em_mapIdles ?s) i = Some q" for i q using np that by (auto simp: ptrs_def ran_def)
  have ptrs: "ptrs ?s' = ptrs ?s" by (simp add: ptrs_def)
  have "sysIDs fac ?s' ty = sysIDs fac ?s ty" for ty using q by (fastforce simp: sysIDs_def)
  then have sys: "sys_ok ?s'" "getSystemEDU ty ?s' = sysIDs fac ?s' ty" for ty using sys_ok_cong [of ?s' ?s] minvD(6,7) [OF m] by simp_all
  have "minv fac (dying g - {p}) ?s'"
    using minvD(1-5,9) [OF m] minvD(8,10) [OF m] np sys q unfolding minv_def ptrs by simp blast
  moreover have "tinv ?g"
    using t np(1) pd unfolding tinv_def d by (auto simp: deleteStep_def ptrs split: if_splits)
  ultimately show ?thesis by (simp add: einv_def d) (simp add: deleteStep_def)
qed


section \<open>A block enters or changes its table\<close>

text \<open>The block at \<open>p\<close>, with id \<open>i\<close>, is put into one of the two tables, whether it is new or was in one of them before.\<close>

lemma minv_placed:
  assumes inv: "minv fac D s" and out: "p \<notin> D"
    and before: "\<And>j. map_of (em_mapRuns s) j = Some p \<or> map_of (em_mapIdles s) j = Some p \<Longrightarrow> j = i"
      "map_of (em_mapRuns s) i \<noteq> None \<or> map_of (em_mapIdles s) i \<noteq> None \<Longrightarrow> p \<in> ptrs s"
    and maps: "smap_ok (em_mapRuns s')" "smap_ok (em_mapIdles s')"
      "\<And>j. j \<noteq> i \<Longrightarrow> map_of (em_mapRuns s') j = map_of (em_mapRuns s) j \<and> map_of (em_mapIdles s') j = map_of (em_mapIdles s) j"
    and cbs: "em_cbs s' = (em_cbs s)(p \<mapsto> cb')" "cb_eduID cb' = i" and ids: "i < em_EDUID s'" "em_EDUID s \<le> em_EDUID s'" "em_pMainEDU s' = em_pMainEDU s" "p \<noteq> em_pMainEDU s" "p \<noteq> 0"
    and place: "map_of (em_mapRuns s') i = Some p \<and> map_of (em_mapIdles s') i = None \<and> run_ok fac cb'
      \<or> map_of (em_mapIdles s') i = Some p \<and> map_of (em_mapRuns s') i = None \<and> idle_ok fac cb'"
    and sys: "sys_ok s'" "\<And>t. getSystemEDU t s' = (getSystemEDU t s - {i}) \<union> (if map_of (em_mapRuns s') i = Some p \<and> isSystem t fac \<and> cb_eduType cb' = t then {i} else {})"
  shows "minv fac D s' \<and> ptrs s' = insert p (ptrs s)"
proof -
  have apart: "q \<noteq> p" if "j \<noteq> i" "map_of (em_mapRuns s) j = Some q \<or> map_of (em_mapIdles s) j = Some q" for j q using before(1) [of j] that by auto
  have at: "q = p" if "map_of (em_mapRuns s) i = Some q \<or> map_of (em_mapIdles s) i = Some q" for q
  proof -
    have "p \<in> ptrs s" using that before(2) by auto
    from inv this have "map_of (em_mapRuns s) i = Some p \<and> map_of (em_mapIdles s) i = None \<or> map_of (em_mapIdles s) i = Some p \<and> map_of (em_mapRuns s) i = None"
    proof (cases rule: ptrs_cases)
      case (run cb)
      then show ?thesis using before(1) [of "cb_eduID cb"] by simp
    next
      case (idle cb)
      then show ?thesis using before(1) [of "cb_eduID cb"] by simp
    qed
    then show ?thesis using that by auto
  qed
  have mem: "q \<in> ptrs x \<longleftrightarrow> (\<exists>j. map_of (em_mapRuns x) j = Some q \<or> map_of (em_mapIdles x) j = Some q)" for q x
    by (auto simp: ptrs_def ran_def)
  have ptrs: "ptrs s' = insert p (ptrs s)"
  proof (intro set_eqI iffI)
    fix q assume "q \<in> ptrs s'"
    then obtain j where j: "map_of (em_mapRuns s') j = Some q \<or> map_of (em_mapIdles s') j = Some q" using mem by blast
    then show "q \<in> insert p (ptrs s)" using place maps(3) [of j] mem [of q s] by (cases "j = i") auto
  next
    fix q assume "q \<in> insert p (ptrs s)"
    then consider "q = p" | j where "q \<noteq> p" "map_of (em_mapRuns s) j = Some q \<or> map_of (em_mapIdles s) j = Some q" using mem [of q s] by blast
    then show "q \<in> ptrs s'"
    proof cases
      case 1
      then show ?thesis using place mem [of p s'] by auto
    next
      case 2
      then have "j \<noteq> i" using at by auto
      then show ?thesis using 2(2) maps(3) [of j] mem [of q s'] by metis
    qed
  qed
  have "j \<in> sysIDs fac s' t \<longleftrightarrow> j \<in> sysIDs fac s t" if "j \<noteq> i" for j t
    using apart [OF that] maps(3) [OF that] by (cases "map_of (em_mapRuns s) j") (auto simp: sysIDs_def cbs)
  moreover have "i \<in> sysIDs fac s' t \<longleftrightarrow> map_of (em_mapRuns s') i = Some p \<and> isSystem t fac \<and> cb_eduType cb' = t" for t
    using place by (auto simp: sysIDs_def cbs)
  ultimately have "sysIDs fac s' t = (sysIDs fac s t - {i}) \<union> (if map_of (em_mapRuns s') i = Some p \<and> isSystem t fac \<and> cb_eduType cb' = t then {i} else {})" for t
    by (intro set_eqI) (case_tac "x = i"; simp)
  then have "getSystemEDU t s' = sysIDs fac s' t" for t using sys(2) minvD(7) [OF inv] by simp
  moreover have "dom (em_cbs s') = insert (em_pMainEDU s') (ptrs s' \<union> D)" using minvD(8) [OF inv] unfolding ptrs cbs ids by auto
  moreover have "D \<inter> insert (em_pMainEDU s') (ptrs s') = {}" using minvD(10) [OF inv] out unfolding ptrs ids by auto
  moreover have "q \<noteq> em_pMainEDU s' \<and> j < em_EDUID s' \<and> (\<exists>c. em_cbs s' q = Some c \<and> cb_eduID c = j \<and> run_ok fac c)" if "map_of (em_mapRuns s') j = Some q" for j q
    using that place apart [of j q] maps(3) [of j] minvD(4) [OF inv, of j q] ids by (cases "j = i") (auto simp: cbs)
  moreover have "q \<noteq> em_pMainEDU s' \<and> j < em_EDUID s' \<and> (\<exists>c. em_cbs s' q = Some c \<and> cb_eduID c = j \<and> idle_ok fac c)" if "map_of (em_mapIdles s') j = Some q" for j q
    using that place apart [of j q] maps(3) [of j] minvD(5) [OF inv, of j q] ids by (cases "j = i") (auto simp: cbs)
  moreover have "map_of (em_mapRuns s') j = None \<or> map_of (em_mapIdles s') j = None" for j
    using place maps(3) [of j] minvD(3) [OF inv] by (cases "j = i") (auto simp: dom_def disjoint_iff)
  then have "dom (map_of (em_mapRuns s')) \<inter> dom (map_of (em_mapIdles s')) = {}" by (metis (no_types, lifting) disjoint_iff domIff)
  moreover have "em_cbs s' 0 = None" using minvD(9) [OF inv] ids(5) by (simp add: cbs)
  ultimately have "minv fac D s'" using sys(1) maps(1,2) unfolding minv_def by blast
  then show ?thesis using ptrs ..
qed

end
