(* ===== verification/Pmd_EDUSafe.thy ===== *)
theory Pmd_EDUSafe
  imports Pmd_EDUMgrInv
begin

text \<open>
  Every step without a fault of the threads around the EDU manager keeps its invariant; from it follow the properties of the manager: the
  tables are exact, no deleted control block is reachable, and system EDUs cannot be forced.  Two examples show what becomes of the blocks after a fault.
\<close>

section \<open>Steps that put a block into a table\<close>

lemma tinv_at:
  assumes t: "tinv g" and "\<And>q. q \<noteq> p \<Longrightarrow> em_cbs (g_mgr g') q = em_cbs (g_mgr g) q" and "ptrs (g_mgr g') = insert p (ptrs (g_mgr g))"
    and "g_thr g' = (g_thr g)(p \<mapsto> ph)" and "em_cbs (g_mgr g') p = Some cb'" and "\<And>ev. ph = TRun ev \<Longrightarrow> cb_status cb' \<in> {PMD_EDU_RUNNING, PMD_EDU_WAITING}"
    and "g_pend g' - {p} \<subseteq> g_pend g" and "p \<in> g_pend g' \<Longrightarrow> cb_status cb' = PMD_EDU_CREATING \<and> resumes cb' = 0"
    and alive: "alive ph" "p \<notin> dying g"
  shows "tinv g' \<and> dying g' = dying g"
proof -
  have d: "dying g' = dying g" using alive assms(4) by (auto simp: dying_def)
  have "\<exists>cb. em_cbs (g_mgr g') q = Some cb \<and> cb_status cb \<in> {PMD_EDU_RUNNING, PMD_EDU_WAITING}" if "g_thr g' q = Some (TRun ev)" for q ev
  proof (cases "q = p")
    case True
    then show ?thesis using that assms(4,5,6) by auto
  next
    case False
    then show ?thesis using that assms(2,4) t by (auto simp: tinv_def)
  qed
  moreover have "q \<in> ptrs (g_mgr g') \<and> (\<exists>cb. em_cbs (g_mgr g') q = Some cb \<and> cb_status cb = PMD_EDU_CREATING \<and> resumes cb = 0)" if "q \<in> g_pend g'" for q
  proof (cases "q = p")
    case True
    then show ?thesis using that assms(3,5,8) by auto
  next
    case False
    then have "q \<in> g_pend g" using that assms(7) by blast
    then show ?thesis using False assms(2,3) t by (auto simp: tinv_def)
  qed
  moreover have "dom (g_thr g') = ptrs (g_mgr g') \<union> dying g'" unfolding d using t assms(3,4) by (auto simp: tinv_def)
  ultimately show ?thesis using d unfolding tinv_def by blast
qed

lemma thr_ptr: "einv fac g \<Longrightarrow> g_thr g p = Some ph \<Longrightarrow> alive ph \<Longrightarrow> p \<in> ptrs (g_mgr g)"
  by (auto simp: einv_def tinv_def dying_def)

lemma ptr_not_dying: "einv fac g \<Longrightarrow> p \<in> ptrs (g_mgr g) \<Longrightarrow> p \<notin> dying g"
  using minvD(10) [of fac "dying g" "g_mgr g"] by (auto simp: einv_def)

lemma ptr_thr:
  assumes "einv fac g" and "p \<in> ptrs (g_mgr g)"
  obtains ph where "g_thr g p = Some ph" "alive ph"
proof -
  have "p \<in> dom (g_thr g)" using assms by (simp add: einv_def tinv_def)
  then obtain ph where "g_thr g p = Some ph" by blast
  moreover have "alive ph" using ptr_not_dying [OF assms] calculation by (auto simp: dying_def)
  ultimately show thesis by (rule that)
qed

lemma updCB_sel [simp]:
  "em_mapRuns (updCB p f s) = em_mapRuns s" "em_mapIdles (updCB p f s) = em_mapIdles s" "em_mapSystemEdu (updCB p f s) = em_mapSystemEdu s"
  "em_EDUID (updCB p f s) = em_EDUID s" "em_pMainEDU (updCB p f s) = em_pMainEDU s" "em_heap (updCB p f s) = em_heap s"
  "em_cbs (updCB p f s) = (case em_cbs s p of Some cb \<Rightarrow> (em_cbs s)(p \<mapsto> f cb) | None \<Rightarrow> em_cbs s)"
  by (simp_all add: updCB_def split: option.splits)

lemma fresh_id:
  assumes "minv fac D s"
  shows "map_of (em_mapRuns s) (em_EDUID s) = None" "map_of (em_mapIdles s) (em_EDUID s) = None"
    "em_cbs s p = None \<Longrightarrow> p \<notin> D \<and> p \<notin> ptrs s \<and> p \<noteq> em_pMainEDU s \<and> map_of (em_mapRuns s) j \<noteq> Some p \<and> map_of (em_mapIdles s) j \<noteq> Some p"
proof -
  show "map_of (em_mapRuns s) (em_EDUID s) = None" "map_of (em_mapIdles s) (em_EDUID s) = None"
    using minvD(4,5) [OF assms, of "em_EDUID s"] by fastforce+
  assume "em_cbs s p = None"
  moreover have "p \<in> ptrs s" if "map_of (em_mapRuns s) j = Some p \<or> map_of (em_mapIdles s) j = Some p" using that by (auto simp: ptrs_def ran_def)
  ultimately show "p \<notin> D \<and> p \<notin> ptrs s \<and> p \<noteq> em_pMainEDU s \<and> map_of (em_mapRuns s) j \<noteq> Some p \<and> map_of (em_mapIdles s) j \<noteq> Some p"
    using minvD(8) [OF assms] by (metis UnCI domIff insertCI)
qed

lemma create_step:
  assumes inv: "einv fac g" and it: "getItem ty fac = Some it" and p: "em_cbs (g_mgr g) p = None" "p \<noteq> 0" and id: "em_EDUID (g_mgr g) < em_EDUID (g_mgr g) + 1"
  shows "einv fac (g\<lparr>g_mgr := publishNew p ty (ep_isSystem it) arg nm (g_mgr g), g_thr := (g_thr g)(p \<mapsto> TStart k)\<rparr>)"
proof -
  let ?s = "g_mgr g" and ?s' = "publishNew p ty (ep_isSystem it) arg nm (g_mgr g)" and ?i = "em_EDUID (g_mgr g)"
  have m: "minv fac (dying g) ?s" and t: "tinv g" using inv by (simp_all add: einv_def)
  note I = minvD(1,2) [OF m] and F = fresh_id [OF m] and f = smap_set_find [OF minvD(1) [OF m]] smap_set_ok [OF minvD(1) [OF m]]
  define cb where "cb = (case nm of Some n \<Rightarrow> setName n ((educb_new True ty)\<lparr>cb_status := PMD_EDU_CREATING\<rparr>) | None \<Rightarrow> (educb_new True ty)\<lparr>cb_status := PMD_EDU_CREATING\<rparr>)\<lparr>cb_eduID := ?i\<rparr>"
  define cb' where "cb' = postEvent (event_new PMD_EDU_EVENT_RESUME PMD_EDU_MEM_NONE arg 0) cb"
  define s1 where "s1 = ?s\<lparr>em_EDUID := ?i + 1, em_cbs := (em_cbs ?s)(p \<mapsto> cb), em_mapRuns := smap_set ?i p (em_mapRuns ?s)\<rparr>"
  define s2 where "s2 = (if ep_isSystem it then addToSystem ty ?i s1 else s1)"
  have s': "?s' = updCB p (postEvent (event_new PMD_EDU_EVENT_RESUME PMD_EDU_MEM_NONE arg 0)) s2"
    by (simp add: publishNew_def Let_def s2_def s1_def cb_def)
  have s2: "em_mapRuns s2 = smap_set ?i p (em_mapRuns ?s)" "em_mapIdles s2 = em_mapIdles ?s" "em_cbs s2 = (em_cbs ?s)(p \<mapsto> cb)" "em_EDUID s2 = ?i + 1" "em_pMainEDU s2 = em_pMainEDU ?s"
    by (simp_all add: s2_def s1_def)
  have cbs: "em_cbs ?s' = (em_cbs ?s)(p \<mapsto> cb')" by (simp add: s' s2 cb'_def)
  have st: "cb_status cb = PMD_EDU_CREATING" "cb_eduType cb = ty" "cb_eduID cb = ?i" "cb_queue cb = []"
    by (simp_all add: cb_def setName_def educb_new_def split: option.splits)
  have ok: "run_ok fac cb'" using it st by (simp add: run_ok_def cb'_def postEvent_def resumes_def)
  have sys0: "sys_ok s1" "getSystemEDU u s1 = getSystemEDU u ?s" for u using sys_ok_cong [of s1 ?s] minvD(6) [OF m] by (simp_all add: s1_def)
  have sys2: "sys_ok s2" "getSystemEDU u s2 = (if ep_isSystem it \<and> u = ty then insert ?i (getSystemEDU u ?s) else getSystemEDU u ?s)" for u
    using addToSystem_sys [OF sys0(1), where ty = ty and i = ?i] sys0 by (simp_all add: s2_def)
  have "sys_ok ?s'" "getSystemEDU u ?s' = getSystemEDU u s2" for u using sys_ok_cong [of ?s' s2] sys2(1) by (simp_all add: s')
  moreover have "?i \<notin> getSystemEDU u ?s" for u using F(1) minvD(7) [OF m] by (auto simp: sysIDs_def)
  moreover have "isSystem u fac \<and> ty = u \<longleftrightarrow> ep_isSystem it \<and> u = ty" for u using it by (auto simp: isSystem_def)
  ultimately have sys: "sys_ok ?s'" "getSystemEDU u ?s' = (getSystemEDU u ?s - {?i}) \<union> (if map_of (em_mapRuns ?s') ?i = Some p \<and> isSystem u fac \<and> cb_eduType cb' = u then {?i} else {})" for u
    using sys2(2) f(1) st by (auto simp: s' s2 cb'_def postEvent_def)
  have P: "minv fac (dying g) ?s' \<and> ptrs ?s' = insert p (ptrs ?s)"
    by (rule minv_placed [OF m, where p = p and i = ?i and cb' = cb']) (use F p id ok st f I cbs sys in \<open>auto simp: s' s2 cb'_def postEvent_def\<close>)
  let ?g = "g\<lparr>g_mgr := ?s', g_thr := (g_thr g)(p \<mapsto> TStart k)\<rparr>"
  have "tinv ?g \<and> dying ?g = dying g"
    by (rule tinv_at [OF t, where p = p and cb' = cb' and ph = "TStart k"]) (use P cbs t F(3) [OF p(1)] in \<open>auto simp: tinv_def\<close>)
  then show ?thesis using P by (simp add: einv_def)
qed


text \<open>The types of an EDU in the pool are no types of entry points.\<close>

definition plainTypes :: "pmdEPFactory \<Rightarrow> bool" where
  "plainTypes fac \<longleftrightarrow> getItem PMD_EDU_MIN fac = None \<and> getItem EDU_TYPE_UNKNOW fac = None"

lemma publishIdle_minv:
  assumes m: "minv fac D s" and pt: "plainTypes fac" and p: "em_cbs s p = None" "p \<noteq> 0" and id: "em_EDUID s < em_EDUID s + 1"
  shows "minv fac D (publishIdle p s) \<and> ptrs (publishIdle p s) = insert p (ptrs s)"
proof -
  let ?s' = "publishIdle p s" and ?i = "em_EDUID s"
  note I = minvD(1,2) [OF m] and F = fresh_id [OF m] and f = smap_set_find [OF minvD(2) [OF m]] smap_set_ok [OF minvD(2) [OF m]]
  define cb' where "cb' = (educb_new True PMD_EDU_MIN)\<lparr>cb_status := PMD_EDU_IDLE, cb_eduID := ?i\<rparr>"
  have s': "?s' = s\<lparr>em_EDUID := ?i + 1, em_cbs := (em_cbs s)(p \<mapsto> cb'), em_mapIdles := smap_set ?i p (em_mapIdles s)\<rparr>"
    by (simp add: publishIdle_def Let_def cb'_def)
  have ok: "idle_ok fac cb'" using pt by (simp add: idle_ok_def cb'_def educb_new_def resumes_def plainTypes_def)
  have "?i \<notin> getSystemEDU u s" for u using F(1) minvD(7) [OF m] by (auto simp: sysIDs_def)
  then have sys: "sys_ok ?s'" "getSystemEDU u ?s' = getSystemEDU u s - {?i}" for u using sys_ok_cong [of ?s' s] minvD(6) [OF m] by (simp_all add: s')
  show ?thesis
    by (rule minv_placed [OF m, where p = p and i = ?i and cb' = cb']) (use F p id ok f I sys in \<open>auto simp: s' cb'_def\<close>)
qed

lemma createIdle_step:
  assumes inv: "einv fac g" and pt: "plainTypes fac" and p: "em_cbs (g_mgr g) p = None" "p \<noteq> 0" and id: "em_EDUID (g_mgr g) < em_EDUID (g_mgr g) + 1"
  shows "einv fac (g\<lparr>g_mgr := publishIdle p (g_mgr g), g_thr := (g_thr g)(p \<mapsto> TStart k)\<rparr>)"
proof -
  let ?g = "g\<lparr>g_mgr := publishIdle p (g_mgr g), g_thr := (g_thr g)(p \<mapsto> TStart k)\<rparr>"
  have m: "minv fac (dying g) (g_mgr g)" and t: "tinv g" using inv by (simp_all add: einv_def)
  note P = publishIdle_minv [OF m pt p id] and F = fresh_id(3) [OF m p(1)]
  have "tinv ?g \<and> dying ?g = dying g"
    by (rule tinv_at [OF t, where p = p and ph = "TStart k"]) (use P t F in \<open>auto simp: tinv_def publishIdle_def Let_def\<close>)
  then show ?thesis using P by (simp add: einv_def)
qed

text \<open>The first idle EDU becomes a running one that is being created.\<close>

lemma fromPool_step:
  assumes inv: "einv fac g" and it: "getItem ty fac = Some it" "\<not> ep_isSystem it" and r: "getFromPool ty (g_mgr g) = (r, s')"
  shows "einv fac (g\<lparr>g_mgr := s', g_pend := g_pend g \<union> set_option r\<rparr>)"
proof -
  let ?s = "g_mgr g"
  have m: "minv fac (dying g) ?s" and t: "tinv g" using inv by (simp_all add: einv_def)
  show ?thesis
  proof (cases "em_mapIdles ?s")
    case Nil
    then have "r = None" "mcore s' = mcore ?s" using r by (auto simp: getFromPool_def mcore_def)
    then show ?thesis using inv einv_core [of g "g\<lparr>g_mgr := s', g_pend := g_pend g \<union> set_option r\<rparr>" fac] by simp
  next
    case (Cons e rest)
    obtain i p where e: "e = (i, p)" by (cases e)
    have Ii: "map_of (em_mapIdles ?s) i = Some p" by (simp add: Cons e)
    obtain cb where cb: "em_cbs ?s p = Some cb" "cb_eduID cb = i" "idle_ok fac cb" "p \<noteq> em_pMainEDU ?s" "i < em_EDUID ?s" using minvD(5) [OF m Ii] by blast
    have Ri: "map_of (em_mapRuns ?s) i = None" using minvD(3) [OF m] Ii by (metis IntI domI domIff empty_iff)
    define cb' where "cb' = cb\<lparr>cb_eduType := ty, cb_status := PMD_EDU_CREATING\<rparr>"
    have s': "r = Some p" "em_mapRuns s' = smap_set i p (em_mapRuns ?s)" "em_mapIdles s' = rest" "em_cbs s' = (em_cbs ?s)(p \<mapsto> cb')"
      "em_EDUID s' = em_EDUID ?s" "em_pMainEDU s' = em_pMainEDU ?s" "em_mapSystemEdu s' = em_mapSystemEdu ?s"
      using r cb by (auto simp: getFromPool_def Cons e Let_def cbOf_def cb'_def)
    note f = smap_set_find [OF minvD(1) [OF m]] smap_set_ok [OF minvD(1) [OF m]]
    have rest: "smap_ok rest" "map_of rest i = None" "\<And>j. j \<noteq> i \<Longrightarrow> map_of rest j = map_of (em_mapIdles ?s) j"
      using minvD(2) [OF m] by (auto simp: Cons e map_of_eq_None_iff)
    have ok: "run_ok fac cb'" using it cb(3) by (simp add: run_ok_def idle_ok_def cb'_def resumes_def)
    have "i \<notin> getSystemEDU u ?s" for u using Ri minvD(7) [OF m] by (auto simp: sysIDs_def)
    moreover have "\<not> isSystem ty fac" using it by (simp add: isSystem_def)
    ultimately have sys: "sys_ok s'" "getSystemEDU u s' = (getSystemEDU u ?s - {i}) \<union> (if map_of (em_mapRuns s') i = Some p \<and> isSystem u fac \<and> cb_eduType cb' = u then {i} else {})" for u
      using sys_ok_cong [of s' ?s] minvD(6) [OF m] by (auto simp: s' cb'_def)
    have pp: "p \<in> ptrs ?s" using Ii by (auto simp: ptrs_def ran_def)
    have "p \<noteq> 0" using cb(1) minvD(9) [OF m] by (cases "p = 0") auto
    note pp = pp this
    have P: "minv fac (dying g) s' \<and> ptrs s' = insert p (ptrs ?s)"
      by (rule minv_placed [OF m, where p = p and i = i and cb' = cb']) (use cb Ri rest ok f sys pp ptr_not_dying [OF inv pp(1)] ptr_id [OF m cb(1)] in \<open>auto simp: s' cb'_def\<close>)
    obtain ph where ph: "g_thr g p = Some ph" "alive ph" by (rule ptr_thr [OF inv pp(1)])
    let ?g = "g\<lparr>g_mgr := s', g_pend := g_pend g \<union> set_option r\<rparr>"
    have "\<exists>c. em_cbs ?s p = Some c \<and> cb_status c \<in> {PMD_EDU_RUNNING, PMD_EDU_WAITING}" if "ph = TRun ev" for ev using t ph that by (auto simp: tinv_def)
    then have "ph \<noteq> TRun ev" for ev using cb by (auto simp: idle_ok_def)
    moreover have "resumes cb' = 0" using cb(3) by (simp add: idle_ok_def cb'_def resumes_def)
    ultimately have "tinv ?g \<and> dying ?g = dying g"
      by (intro tinv_at [OF t, where p = p and cb' = cb' and ph = ph]) (use P ph s' ptr_not_dying [OF inv pp(1)] in \<open>auto simp: cb'_def\<close>)
    then show ?thesis using P by (simp add: einv_def)
  qed
qed

section \<open>Steps that change a block in its table\<close>

text \<open>The status of a running block changes, or a \<open>RESUME\<close> is posted to one that is being created.\<close>

lemma change_step:
  assumes inv: "einv fac g" and cb: "em_cbs (g_mgr g) p = Some cb" and p: "p \<in> ptrs (g_mgr g)"
    and same: "cb_eduID cb' = cb_eduID cb" "cb_eduType cb' = cb_eduType cb" and ok: "run_ok fac cb \<Longrightarrow> run_ok fac cb'" "idle_ok fac cb \<Longrightarrow> idle_ok fac cb'"
    and run: "\<And>ev. ph = TRun ev \<Longrightarrow> cb_status cb' \<in> {PMD_EDU_RUNNING, PMD_EDU_WAITING}"
    and pend: "pend' - {p} \<subseteq> g_pend g" "p \<in> pend' \<Longrightarrow> cb_status cb' = PMD_EDU_CREATING \<and> resumes cb' = 0" and alive: "alive ph"
  shows "einv fac (g\<lparr>g_mgr := (g_mgr g)\<lparr>em_cbs := (em_cbs (g_mgr g))(p \<mapsto> cb'), em_heap := h'\<rparr>, g_thr := (g_thr g)(p \<mapsto> ph), g_pend := pend', g_env := e'\<rparr>)"
proof -
  let ?s' = "(g_mgr g)\<lparr>em_cbs := (em_cbs (g_mgr g))(p \<mapsto> cb'), em_heap := h'\<rparr>"
  let ?g = "g\<lparr>g_mgr := ?s', g_thr := (g_thr g)(p \<mapsto> ph), g_pend := pend', g_env := e'\<rparr>"
  have m: "minv fac (dying g) (g_mgr g)" and t: "tinv g" using inv by (simp_all add: einv_def)
  have "minv fac (dying g) ?s'" by (rule minv_upd [OF m cb same ok])
  moreover have "ptrs ?s' = insert p (ptrs (g_mgr g))" using p by (auto simp: ptrs_def)
  moreover from this have "tinv ?g \<and> dying ?g = dying g"
    by (intro tinv_at [OF t, where p = p and cb' = cb' and ph = ph]) (use run pend alive ptr_not_dying [OF inv p] in auto)
  ultimately show ?thesis by (simp add: einv_def)
qed


lemma thr_same: "f p = Some ph \<Longrightarrow> f(p \<mapsto> ph) = f"
  by auto

lemma same_heap: "s\<lparr>em_cbs := c\<rparr> = s\<lparr>em_cbs := c, em_heap := em_heap s\<rparr>"
  by simp

lemma ptr_live: "einv fac g \<Longrightarrow> p \<in> ptrs (g_mgr g) \<Longrightarrow> \<exists>cb. em_cbs (g_mgr g) p = Some cb \<and> (run_ok fac cb \<or> idle_ok fac cb)"
  unfolding einv_def by (elim conjE ptrs_cases) auto

lemma ptr_nonzero: "einv fac g \<Longrightarrow> p \<in> ptrs (g_mgr g) \<Longrightarrow> p \<noteq> 0"
  using ptr_live [of fac g p] minvD(9) [of fac "dying g" "g_mgr g"] by (cases "p = 0") (auto simp: einv_def)

lemma attach_step:
  assumes inv: "einv fac g" and p: "g_thr g p = Some (TStart k)"
  shows "einv fac (g\<lparr>g_mgr := threadAttach tid p (g_mgr g), g_thr := (g_thr g)(p \<mapsto> TWait)\<rparr>)"
proof -
  have pp: "p \<in> ptrs (g_mgr g)" using thr_ptr [OF inv p] by simp
  obtain cb where cb: "em_cbs (g_mgr g) p = Some cb" using ptr_live [OF inv pp] by blast
  define cb' where "cb' = cb\<lparr>cb_threadID := tid, cb_threadHdl := tid, cb_tid := tid\<rparr>"
  have q: "quiet cb cb'" unfolding cb'_def by (rule quiet_simps(6))
  have "p \<in> g_pend g \<Longrightarrow> cb_status cb = PMD_EDU_CREATING \<and> resumes cb = 0" using inv cb by (auto simp: einv_def tinv_def)
  then have "einv fac (g\<lparr>g_mgr := (g_mgr g)\<lparr>em_cbs := (em_cbs (g_mgr g))(p \<mapsto> cb'), em_heap := em_heap (g_mgr g)\<rparr>, g_thr := (g_thr g)(p \<mapsto> TWait), g_pend := g_pend g, g_env := g_env g\<rparr>)"
    by (intro change_step [OF inv cb pp]) (use q quiet_ok [OF q] in \<open>auto simp: quiet_def\<close>)
  then show ?thesis by (rule iffD1 [OF einv_core, rotated -1]) (simp_all add: threadAttach_def setEDU_def mcore_def cb cb'_def Let_def)
qed

lemma resume_step:
  assumes inv: "einv fac g" and p: "p \<in> g_pend g"
  shows "einv fac (g\<lparr>g_mgr := poolResume p args nm (g_mgr g), g_pend := g_pend g - {p}\<rparr>)"
proof -
  obtain cb where cb: "em_cbs (g_mgr g) p = Some cb" "cb_status cb = PMD_EDU_CREATING" "resumes cb = 0" and pp: "p \<in> ptrs (g_mgr g)"
    using inv p by (auto simp: einv_def tinv_def)
  obtain ph where ph: "g_thr g p = Some ph" "alive ph" by (rule ptr_thr [OF inv pp])
  have ntr: "ph \<noteq> TRun ev" for ev using inv ph(1) cb by (auto simp: einv_def tinv_def)
  define cb' where "cb' = postEvent (event_new PMD_EDU_EVENT_RESUME PMD_EDU_MEM_NONE args 0) (case nm of Some n \<Rightarrow> setName n cb | None \<Rightarrow> cb)"
  have f: "cb_eduID cb' = cb_eduID cb" "cb_eduType cb' = cb_eduType cb" "cb_status cb' = cb_status cb" "resumes cb' \<le> Suc (resumes cb)"
    by (simp_all add: cb'_def postEvent_def setName_def resumes_def split: option.splits)
  have "einv fac (g\<lparr>g_mgr := (g_mgr g)\<lparr>em_cbs := (em_cbs (g_mgr g))(p \<mapsto> cb'), em_heap := em_heap (g_mgr g)\<rparr>, g_thr := (g_thr g)(p \<mapsto> ph), g_pend := g_pend g - {p}, g_env := g_env g\<rparr>)"
    by (intro change_step [OF inv cb(1) pp]) (use f cb ntr ph(2) in \<open>auto simp: run_ok_def idle_ok_def\<close>)
  moreover have "poolResume p args nm (g_mgr g) = (g_mgr g)\<lparr>em_cbs := (em_cbs (g_mgr g))(p \<mapsto> cb')\<rparr>"
    using cb by (simp add: poolResume_def updCB_def cb'_def Let_def split: option.splits)
  ultimately show ?thesis by (simp add: thr_same [of "g_thr g", OF ph(1)] same_heap [symmetric])
qed

lemma waitEvent_quiet:
  assumes "waitEvent [] ms False cb = Some (Some ev, cb')"
  shows "quiet cb cb'" "ev_eventType ev = PMD_EDU_EVENT_RESUME \<Longrightarrow> resumes cb = Suc (resumes cb')"
  using assms by (auto simp: waitEvent_def quiet_def resumes_def Let_def split: list.splits if_splits)

lemma takeEv_step:
  assumes inv: "einv fac g" and p: "g_thr g p = Some TWait" and w: "waitEvent [] ms False (cbOf (g_mgr g) p) = Some (Some ev, cb1)"
    and r: "takeEvent p ev cb1 (g_mgr g) = (s', ph)"
  shows "einv fac (g\<lparr>g_mgr := s', g_thr := (g_thr g)(p \<mapsto> ph)\<rparr>)"
proof -
  have pp: "p \<in> ptrs (g_mgr g)" using thr_ptr [OF inv p] by simp
  obtain cb where cb: "em_cbs (g_mgr g) p = Some cb" "run_ok fac cb \<or> idle_ok fac cb" using ptr_live [OF inv pp] by blast
  have w': "waitEvent [] ms False cb = Some (Some ev, cb1)" using w cb by (simp add: cbOf_def)
  note q = waitEvent_quiet [OF w']
  have pend: "p \<in> g_pend g \<Longrightarrow> cb_status cb = PMD_EDU_CREATING \<and> resumes cb = 0" using inv cb by (auto simp: einv_def tinv_def)
  show ?thesis
  proof (cases "ev_eventType ev = PMD_EDU_EVENT_RESUME")
    case False
    have "einv fac (g\<lparr>g_mgr := (g_mgr g)\<lparr>em_cbs := (em_cbs (g_mgr g))(p \<mapsto> cb1), em_heap := em_heap (g_mgr g)\<rparr>, g_thr := (g_thr g)(p \<mapsto> TReturn ev), g_pend := g_pend g, g_env := g_env g\<rparr>)"
      by (intro change_step [OF inv cb(1) pp]) (use q quiet_ok [OF q(1)] pend in \<open>auto simp: quiet_def\<close>)
    then show ?thesis using r cb False by (auto simp: takeEvent_def updCB_def same_heap [symmetric])
  next
    case True
    then have res: "resumes cb = Suc (resumes cb1)" using q(2) by simp
    then have st: "cb_status cb \<in> {PMD_EDU_CREATING, PMD_EDU_RUNNING, PMD_EDU_WAITING}" "run_ok fac cb" using cb(2) by (auto simp: run_ok_def idle_ok_def)
    define cb' where "cb' = cb1\<lparr>cb_status := PMD_EDU_WAITING\<rparr>"
    have "run_ok fac cb'" using st q(1) by (simp add: cb'_def run_ok_def quiet_def resumes_def)
    then have "einv fac (g\<lparr>g_mgr := (g_mgr g)\<lparr>em_cbs := (em_cbs (g_mgr g))(p \<mapsto> cb'), em_heap := em_heap (g_mgr g)\<rparr>, g_thr := (g_thr g)(p \<mapsto> TRun ev), g_pend := g_pend g, g_env := g_env g\<rparr>)"
      by (intro change_step [OF inv cb(1) pp]) (use q st res pend in \<open>auto simp: quiet_def cb'_def idle_ok_def\<close>)
    moreover have w: "cb_status cb1 = PMD_EDU_WAITING \<Longrightarrow> cb' = cb1" unfolding cb'_def by simp
    have "cb_status cb1 \<in> {PMD_EDU_CREATING, PMD_EDU_RUNNING, PMD_EDU_WAITING}" using st q(1) by (simp add: quiet_def)
    then have "p \<noteq> 0 \<Longrightarrow> s' = (g_mgr g)\<lparr>em_cbs := (em_cbs (g_mgr g))(p \<mapsto> cb')\<rparr>" "ph = TRun ev"
      using r cb True w by (auto simp: takeEvent_def updCB_def waitEDU_def cbOf_def cb'_def [symmetric] Let_def)
    ultimately show ?thesis using ptr_nonzero [OF inv pp] by (simp add: same_heap [symmetric])
  qed
qed

lemma run_step:
  assumes inv: "einv fac g" and p: "g_thr g p = Some (TRun ev)" and own: "ownStep (cbOf (g_mgr g) p) cb'"
    and ph: "ph = TRun ev \<or> ph = TReturn ev"
  shows "einv fac (g\<lparr>g_mgr := (updCB p (\<lambda>_. cb') (g_mgr g))\<lparr>em_heap := h'\<rparr>, g_thr := (g_thr g)(p \<mapsto> ph), g_env := e'\<rparr>)"
proof -
  have pp: "p \<in> ptrs (g_mgr g)" using thr_ptr [OF inv p] by simp
  obtain cb where cb: "em_cbs (g_mgr g) p = Some cb" "cb_status cb \<in> {PMD_EDU_RUNNING, PMD_EDU_WAITING}" using inv p by (auto simp: einv_def tinv_def)
  have o: "ownStep cb cb'" using own cb by (simp add: cbOf_def)
  have pend: "p \<notin> g_pend g" using inv cb by (auto simp: einv_def tinv_def)
  have "einv fac (g\<lparr>g_mgr := (g_mgr g)\<lparr>em_cbs := (em_cbs (g_mgr g))(p \<mapsto> cb'), em_heap := h'\<rparr>, g_thr := (g_thr g)(p \<mapsto> ph), g_pend := g_pend g, g_env := e'\<rparr>)"
    by (intro change_step [OF inv cb(1) pp]) (use o cb(2) pend ph in \<open>auto simp: ownStep_def run_ok_def idle_ok_def\<close>)
  then show ?thesis using cb by (simp add: updCB_def)
qed

lemma waitEDU_own:
  assumes "p \<noteq> 0" and "em_cbs s p = Some cb" and "cb_status cb \<in> {PMD_EDU_RUNNING, PMD_EDU_WAITING}"
  obtains cb' where "snd (waitEDU p s) = (updCB p (\<lambda>_. cb') s)\<lparr>em_heap := em_heap s\<rparr>" "ownStep cb cb'" "cb_status cb' = PMD_EDU_WAITING"
proof (cases "cb_status cb = PMD_EDU_WAITING")
  case True
  have "(em_cbs s)(p \<mapsto> cb) = em_cbs s" using assms(2) by auto
  then have "snd (waitEDU p s) = (updCB p (\<lambda>_. cb) s)\<lparr>em_heap := em_heap s\<rparr>" using assms True by (simp add: waitEDU_def cbOf_def updCB_def)
  then show thesis using that [of cb] True by (simp add: ownStep_def)
next
  case False
  have "snd (waitEDU p s) = (updCB p (\<lambda>_. cb\<lparr>cb_status := PMD_EDU_WAITING\<rparr>) s)\<lparr>em_heap := em_heap s\<rparr>"
    using assms False by (auto simp: waitEDU_def cbOf_def updCB_def)
  then show thesis using that [of "cb\<lparr>cb_status := PMD_EDU_WAITING\<rparr>"] by (simp add: ownStep_def resumes_def)
qed

lemma runEnd_step:
  assumes inv: "einv fac g" and p: "g_thr g p = Some (TRun ev)" and r: "afterRun fac p rc (g_mgr g) (g_env g) = (s', e')"
  shows "einv fac (g\<lparr>g_mgr := s', g_thr := (g_thr g)(p \<mapsto> TReturn ev), g_env := e'\<rparr>)"
proof -
  have pp: "p \<in> ptrs (g_mgr g)" using thr_ptr [OF inv p] by simp
  obtain cb where cb: "em_cbs (g_mgr g) p = Some cb" "cb_status cb \<in> {PMD_EDU_RUNNING, PMD_EDU_WAITING}" using inv p by (auto simp: einv_def tinv_def)
  obtain cb' where w: "snd (waitEDU p (g_mgr g)) = (updCB p (\<lambda>_. cb') (g_mgr g))\<lparr>em_heap := em_heap (g_mgr g)\<rparr>" "ownStep cb cb'"
    by (rule waitEDU_own [OF ptr_nonzero [OF inv pp] cb])
  have s': "s' = (updCB p (\<lambda>_. cb') (g_mgr g))\<lparr>em_heap := em_heap (g_mgr g)\<rparr>" using r w(1) by (simp add: afterRun_def)
  have "ownStep (cbOf (g_mgr g) p) cb'" using w(2) cb by (simp add: cbOf_def)
  from run_step [OF inv p this, where ph = "TReturn ev" and h' = "em_heap (g_mgr g)" and e' = e'] show ?thesis unfolding s' by simp
qed

section \<open>Steps that end an EDU\<close>

text \<open>Taking the block out of the table it is in.\<close>

lemma removedI:
  assumes inv: "minv fac D s" and cb: "em_cbs s p = Some cb"
  shows "map_of (em_mapRuns s) (cb_eduID cb) = Some p \<Longrightarrow> map_of (em_mapIdles s) (cb_eduID cb) = None \<Longrightarrow>
      removed p (cb_eduID cb) s (postDestoryEDU p (s\<lparr>em_mapRuns := smap_erase (cb_eduID cb) (em_mapRuns s)\<rparr>))"
    and "map_of (em_mapIdles s) (cb_eduID cb) = Some p \<Longrightarrow> map_of (em_mapRuns s) (cb_eduID cb) = None \<Longrightarrow>
      removed p (cb_eduID cb) s (postDestoryEDU p (s\<lparr>em_mapIdles := smap_erase (cb_eduID cb) (em_mapIdles s)\<rparr>))"
  using cb smap_erase_none [of "em_mapIdles s" "cb_eduID cb"] smap_erase_none [of "em_mapRuns s" "cb_eduID cb"] unfolding removed_def
  by (fastforce intro: exI [of _ cb])+

lemma destroyIdle_cases:
  assumes inv: "minv fac D s" and p: "p \<in> ptrs s" and r: "destroyIdle p s = (d, s')"
  shows "\<not> d \<and> s' = s \<or> d \<and> (\<exists>cb. em_cbs s p = Some cb \<and> cb_status cb \<noteq> PMD_EDU_CREATING \<and> removed p (cb_eduID cb) s s')"
  using inv p
proof (cases rule: ptrs_cases)
  case (run cb)
  then show ?thesis using r removedI(1) [OF inv run(2,1,4)] by (auto simp: destroyIdle_def cbOf_def Let_def split: if_splits)
next
  case (idle cb)
  then show ?thesis using r removedI(2) [OF inv idle(2,1,4)] by (auto simp: destroyIdle_def cbOf_def idle_ok_def)
qed

lemma findAndRemove_removed:
  assumes inv: "minv fac D s" and p: "p \<in> ptrs s"
  shows "\<exists>s'. findAndRemove (cb_eduID (cbOf s p)) s = (Some p, s') \<and> removed p (cb_eduID (cbOf s p)) s s'"
  using inv p
proof (cases rule: ptrs_cases)
  case (run cb)
  then show ?thesis using removedI(1) [OF inv run(2,1,4)] by (simp add: findAndRemove_def cbOf_def)
next
  case (idle cb)
  then show ?thesis using removedI(2) [OF inv idle(2,1,4)] by (simp add: findAndRemove_def cbOf_def)
qed

lemma returnLatched_cases:
  assumes inv: "minv fac D s" and p: "p \<in> ptrs s" and r: "returnLatched fac p s = (d, s')"
  obtains (creating) cb where "\<not> d" "s' = s" "em_cbs s p = Some cb" "cb_status cb = PMD_EDU_CREATING"
  | (destroyed) cb where "d" "em_cbs s p = Some cb" "cb_status cb \<noteq> PMD_EDU_CREATING" "removed p (cb_eduID cb) s s'"
  | (parked) cb cb' where "\<not> d" "em_cbs s p = Some cb" "cb_status cb \<noteq> PMD_EDU_CREATING" "\<not> isSystem (cb_eduType cb) fac"
      "map_of (em_mapRuns s) (cb_eduID cb) = Some p" "map_of (em_mapIdles s) (cb_eduID cb) = None"
      "em_mapRuns s' = smap_erase (cb_eduID cb) (em_mapRuns s)" "em_mapIdles s' = smap_set (cb_eduID cb) p (em_mapIdles s)"
      "em_cbs s' = (em_cbs s)(p \<mapsto> cb')" "cb_eduID cb' = cb_eduID cb" "cb_status cb' = PMD_EDU_IDLE" "cb_eduType cb' = EDU_TYPE_UNKNOW" "resumes cb' = 0"
      "em_EDUID s' = em_EDUID s" "em_pMainEDU s' = em_pMainEDU s" "em_mapSystemEdu s' = em_mapSystemEdu s"
  using inv p
proof (cases rule: ptrs_cases)
  case (run cb)
  show thesis
  proof (cases "cb_status cb = PMD_EDU_CREATING")
    case True
    then show thesis using run r creating [of cb] by (simp add: returnLatched_def cbOf_def)
  next
    case nc: False
    let ?s0 = "s\<lparr>em_mapRuns := smap_erase (cb_eduID cb) (em_mapRuns s)\<rparr>"
    show thesis
    proof (cases "toDestroy fac cb s")
      case True
      have "d" "s' = postDestoryEDU p ?s0" using r run True nc by (auto simp: returnLatched_def cbOf_def Let_def)
      then show thesis using destroyed [OF _ run(2) nc] removedI(1) [OF inv run(2,1,4)] by simp
    next
      case False
      define cb1 where "cb1 = cb\<lparr>cb_status := PMD_EDU_IDLE, cb_eduType := EDU_TYPE_UNKNOW\<rparr>"
      obtain cb' h' where c: "educb_clear (cb1, em_heap s) = (cb', h')" by (cases "educb_clear (cb1, em_heap s)")
      have s': "\<not> d" "s' = ?s0\<lparr>em_mapIdles := smap_set (cb_eduID cb) p (em_mapIdles s), em_cbs := (em_cbs s)(p \<mapsto> cb'), em_heap := h'\<rparr>"
        using r run False nc c by (auto simp: returnLatched_def cbOf_def Let_def updCB_def memCB_def cb1_def)
      have "quiet cb1 cb'" "resumes cb' = 0" using educb_clear_keeps [of cb1 "em_heap s"] c by simp_all
      then have "cb_eduID cb' = cb_eduID cb" "cb_status cb' = PMD_EDU_IDLE" "cb_eduType cb' = EDU_TYPE_UNKNOW" "resumes cb' = 0" by (simp_all add: quiet_def cb1_def)
      moreover have "\<not> isSystem (cb_eduType cb) fac" using False by (auto simp: toDestroy_def isSystem_def ep_isPoolable_def split: option.splits)
      ultimately show thesis using parked [of cb cb'] s' run nc by simp
    qed
  qed
next
  case (idle cb)
  have nc: "cb_status cb \<noteq> PMD_EDU_CREATING" and d: "toDestroy fac cb s" using idle(3) by (simp_all add: idle_ok_def toDestroy_def)
  have "d" "s' = postDestoryEDU p (s\<lparr>em_mapIdles := smap_erase (cb_eduID cb) (em_mapIdles s)\<rparr>)"
    using r idle d nc by (auto simp: returnLatched_def cbOf_def Let_def)
  then show thesis using destroyed [OF _ idle(2) nc] removedI(2) [OF inv idle(2,1,4)] by simp
qed

lemma not_pending: "einv fac g \<Longrightarrow> em_cbs (g_mgr g) p = Some cb \<Longrightarrow> cb_status cb \<noteq> PMD_EDU_CREATING \<Longrightarrow> p \<notin> g_pend g"
  by (auto simp: einv_def tinv_def)

lemma ret_step:
  assumes inv: "einv fac g" and pt: "plainTypes fac" and p: "g_thr g p = Some TPut" and r: "returnLatched fac p (g_mgr g) = (d, s')"
  shows "einv fac (g\<lparr>g_mgr := s', g_thr := afterDestroy d p (g_thr g)\<rparr>)"
proof -
  let ?s = "g_mgr g"
  have m: "minv fac (dying g) ?s" and t: "tinv g" using inv by (simp_all add: einv_def)
  have pp: "p \<in> ptrs ?s" using thr_ptr [OF inv p] by simp
  note nd = ptr_not_dying [OF inv pp]
  from m pp r show ?thesis
  proof (cases rule: returnLatched_cases)
    case (creating cb)
    have "tinv (g\<lparr>g_thr := (g_thr g)(p \<mapsto> TWait)\<rparr>) \<and> dying (g\<lparr>g_thr := (g_thr g)(p \<mapsto> TWait)\<rparr>) = dying g"
      by (intro tinv_at [OF t, where p = p and cb' = cb and ph = TWait]) (use pp creating t nd in \<open>auto simp: tinv_def\<close>)
    then show ?thesis using creating m by (simp add: einv_def afterDestroy_def)
  next
    case (destroyed cb)
    show ?thesis using einv_removed [OF inv pp destroyed(4) not_pending [OF inv destroyed(2,3)], of False] destroyed(1) by (simp add: afterDestroy_def)
  next
    case (parked cb cb')
    let ?i = "cb_eduID cb"
    note f = smap_set_find [OF minvD(2) [OF m]] smap_set_ok [OF minvD(2) [OF m]] smap_erase_find smap_erase_ok [OF minvD(1) [OF m]]
    have i: "?i < em_EDUID ?s" "p \<noteq> em_pMainEDU ?s" using minvD(4) [OF m parked(5)] by auto
    have ok: "idle_ok fac cb'" using parked pt by (simp add: idle_ok_def plainTypes_def)
    have "?i \<notin> getSystemEDU u ?s" for u using parked minvD(7) [OF m] by (auto simp: sysIDs_def)
    then have sys: "sys_ok s'" "getSystemEDU u s' = getSystemEDU u ?s - {?i}" for u using sys_ok_cong [of s' ?s] minvD(6) [OF m] parked by simp_all
    have before: "j = ?i" if "map_of (em_mapRuns ?s) j = Some p \<or> map_of (em_mapIdles ?s) j = Some p" for j using ptr_id [OF m parked(2)] that by blast
    have maps: "map_of (em_mapRuns s') j = map_of (em_mapRuns ?s) j \<and> map_of (em_mapIdles s') j = map_of (em_mapIdles ?s) j" if "j \<noteq> ?i" for j
      using that by (simp add: parked(7,8) f)
    have place: "map_of (em_mapRuns s') ?i = None" "map_of (em_mapIdles s') ?i = Some p" by (simp_all add: parked(7,8) f)
    have P: "minv fac (dying g) s' \<and> ptrs s' = insert p (ptrs ?s)"
    proof (rule minv_placed [OF m nd before pp _ _ maps parked(9,10) _ _ parked(15) i(2) ptr_nonzero [OF inv pp] _ sys(1)])
      show "smap_ok (em_mapRuns s')" "smap_ok (em_mapIdles s')" by (simp_all add: parked(7,8) f)
    qed (use i ok place sys(2) in \<open>simp_all add: parked(14)\<close>)
    let ?g = "g\<lparr>g_mgr := s', g_thr := (g_thr g)(p \<mapsto> TWait)\<rparr>"
    have "tinv ?g \<and> dying ?g = dying g"
      by (rule tinv_at [OF t, where p = p and cb' = cb' and ph = TWait]) (use P nd parked not_pending [OF inv parked(2,3)] in auto)
    then show ?thesis using P parked(1) by (simp add: einv_def afterDestroy_def)
  qed
qed

text \<open>The entry function throws.\<close>

lemma throw_step:
  assumes inv: "einv fac g" and p: "g_thr g p = Some (TRun ev)"
  shows "einv fac (throwStep b p g)"
proof -
  have m: "minv fac (dying g) (g_mgr g)" and pp: "p \<in> ptrs (g_mgr g)" using inv thr_ptr [OF inv p] by (simp_all add: einv_def)
  obtain cb where "em_cbs (g_mgr g) p = Some cb" "cb_status cb \<in> {PMD_EDU_RUNNING, PMD_EDU_WAITING}" using inv p by (auto simp: einv_def tinv_def)
  then have np: "p \<notin> g_pend g" using not_pending [OF inv] by auto
  obtain s' where s': "findAndRemove (cb_eduID (cbOf (g_mgr g) p)) (g_mgr g) = (Some p, s')" "removed p (cb_eduID (cbOf (g_mgr g) p)) (g_mgr g) s'"
    using findAndRemove_removed [OF m pp] by blast
  show ?thesis using einv_removed [OF inv pp s'(2) np, of b] by (simp add: throwStep_def s'(1))
qed

text \<open>The event is released.\<close>

lemma release_step:
  assumes inv: "einv fac g" and p: "g_thr g p = Some (TReturn ev)"
  shows "einv fac (g\<lparr>g_mgr := memCB p (pmdEduEventRelase ev) (g_mgr g), g_thr := (g_thr g)(p \<mapsto> TPut)\<rparr>)"
proof -
  let ?g = "g\<lparr>g_mgr := memCB p (pmdEduEventRelase ev) (g_mgr g)\<rparr>"
  have i: "einv fac ?g" by (rule einv_memCB [OF inv]) (rule eventRelase_quiet)
  have pp: "p \<in> ptrs (g_mgr ?g)" using thr_ptr [OF i, of p "TReturn ev"] p by simp
  obtain cb where cb: "em_cbs (g_mgr ?g) p = Some cb" using ptr_live [OF i pp] by blast
  have t: "tinv ?g" using i by (simp add: einv_def)
  have pend: "p \<in> g_pend ?g \<Longrightarrow> cb_status cb = PMD_EDU_CREATING \<and> resumes cb = 0" using t cb by (auto simp: tinv_def)
  have "tinv (?g\<lparr>g_thr := (g_thr ?g)(p \<mapsto> TPut)\<rparr>) \<and> dying (?g\<lparr>g_thr := (g_thr ?g)(p \<mapsto> TPut)\<rparr>) = dying ?g"
    by (rule tinv_at [OF t, where p = p and cb' = cb and ph = TPut]) (use pp cb pend ptr_not_dying [OF i pp] in auto)
  then show ?thesis using i by (simp add: einv_def)
qed

section \<open>Every reachable state\<close>

lemma einv_exit: "einv fac (g\<lparr>g_exit := n\<rparr>) = einv fac g"
  by (rule einv_core) simp_all

lemma einv_step: "eduStep fac a g g' \<Longrightarrow> a = NoFault \<Longrightarrow> plainTypes fac \<Longrightarrow> einv fac g \<Longrightarrow> einv fac g'"
proof (induction rule: eduStep.induct)
  case (create ty it p g arg nm)
  then show ?case by (intro create_step) auto
next
  case (createIdle p g)
  then show ?case by (intro createIdle_step) auto
next
  case (attach g p k tid)
  then show ?case by (intro attach_step) auto
next
  case (fromPool ty it g r s')
  then show ?case by (intro fromPool_step) auto
next
  case (clearPooled p g)
  then show ?case using einv_memCB [of fac g educb_clear p] educb_clear_keeps(1) by (simp add: poolClear_def)
next
  case (resume p g args nm)
  then show ?case by (intro resume_step) auto
next
  case (timeout g p d s')
  note inv = \<open>einv fac g\<close>
  have m: "minv fac (dying g) (g_mgr g)" and pp: "p \<in> ptrs (g_mgr g)" using inv thr_ptr [OF inv timeout(1)] by (simp_all add: einv_def)
  from destroyIdle_cases [OF m pp timeout(2)] show ?case
  proof (elim disjE conjE exE)
    assume "\<not> d" "s' = g_mgr g"
    then show ?thesis using timeout by (simp add: afterDestroy_def thr_same)
  next
    fix cb assume "d" "em_cbs (g_mgr g) p = Some cb" "cb_status cb \<noteq> PMD_EDU_CREATING" "removed p (cb_eduID cb) (g_mgr g) s'"
    then show ?thesis using einv_removed [OF inv pp _ not_pending [OF inv], of _ s' cb False] by (simp add: afterDestroy_def)
  qed
next
  case (takeEv g p ev cb' s' ph)
  then show ?case by (intro takeEv_step) auto
next
  case (run g p ev cb' h')
  then show ?case using run_step [where fac = fac and g = g and p = p and ev = ev and cb' = cb' and ph = "TRun ev" and h' = h' and e' = "g_env g"] by (simp add: thr_same)
next
  case (runEnd g p ev rc s' e')
  then show ?case by (intro runEnd_step) auto
next
  case (throw g p ph)
  then obtain ev where "ph = TRun ev" by (cases ph) simp_all
  then show ?case using throw throw_step by blast
next
  case (release g p ev)
  then show ?case by (intro release_step) auto
next
  case (ret g p d s')
  then show ?case by (intro ret_step) auto
next
  case (delete g p b)
  then show ?case by (intro einv_deleted) auto
next
  case (exit g)
  then show ?case by (simp add: einv_exit)
next
  case (call c g)
  then show ?case by (intro einv_call) auto
qed simp_all

lemma einv_init: "p \<noteq> 0 \<Longrightarrow> einv fac (edus_init p tid maxPooled h)"
  by (simp add: einv_def minv_def tinv_def edus_init_def edumgr_init_def edumgr_new_def ptrs_def sys_ok_def getSystemEDU_def sysIDs_def dying_def Let_def)

lemma eduReach_inv: "eduReach fac g \<Longrightarrow> plainTypes fac \<Longrightarrow> einv fac g"
  unfolding eduReach_def by (induction rule: eduRun.induct) (auto intro: einv_init einv_step)

text \<open>C22: in every state the threads can reach, as long as the operating system creates the threads, no thread throws outside the entry function, nobody sets the status by
  id of an EDU that is just being taken from the pool, and nobody but the manager posts \<open>RESUME\<close> events, each table of the EDU manager holds only live control blocks, filed under their own id, and no id is in both
  tables.  A block in the table of running EDUs is being created, running or waiting and has a registered type; a block in the pool is idle and has the type
  of no entry point.  Ids are below the next id to be given out (64-bit ids are assumed not to wrap around).\<close>

theorem edu_tables_typed:
  assumes "eduReach fac g" and "plainTypes fac"
  shows "(\<forall>i p. map_of (em_mapRuns (g_mgr g)) i = Some p \<longrightarrow> map_of (em_mapIdles (g_mgr g)) i = None \<and> i < em_EDUID (g_mgr g)
      \<and> (\<exists>cb. em_cbs (g_mgr g) p = Some cb \<and> cb_eduID cb = i \<and> cb_status cb \<in> {PMD_EDU_CREATING, PMD_EDU_RUNNING, PMD_EDU_WAITING} \<and> getItem (cb_eduType cb) fac \<noteq> None))
    \<and> (\<forall>i p. map_of (em_mapIdles (g_mgr g)) i = Some p \<longrightarrow> map_of (em_mapRuns (g_mgr g)) i = None \<and> i < em_EDUID (g_mgr g)
      \<and> (\<exists>cb. em_cbs (g_mgr g) p = Some cb \<and> cb_eduID cb = i \<and> cb_status cb = PMD_EDU_IDLE \<and> getItem (cb_eduType cb) fac = None))"
proof -
  have m: "minv fac (dying g) (g_mgr g)" using eduReach_inv [OF assms] by (simp add: einv_def)
  have "map_of (em_mapRuns (g_mgr g)) i = None \<or> map_of (em_mapIdles (g_mgr g)) i = None" for i using minvD(3) [OF m] by (auto simp: dom_def disjoint_iff)
  then show ?thesis using minvD(4,5) [OF m] unfolding run_ok_def idle_ok_def by (metis option.distinct(1))
qed

text \<open>C2: no control block is used after it was deleted, and none is forgotten, in every state that the starters, the callers, the monitor and the threads of the EDUs reach by
  taking turns at their critical sections, as long as the operating system creates the threads, no thread throws outside the entry function, nobody calls \<open>waitEDU\<close> or
  \<open>activateEDU\<close> by id for an EDU that \<open>startEDU\<close> is just taking from the pool, and nobody but the manager posts \<open>RESUME\<close> events (64-bit ids are assumed not to wrap around).  The live blocks in the manager's hands are exactly the main one, those in
  the two tables, and those whose own thread has taken them out of the tables and has still to delete them; the last are in no table and in nobody else's hands.
  Every thread of an EDU works on such a block.  A block that \<open>startEDU\<close> has taken from the pool is live, in the table of running EDUs and in status \<open>CREATING\<close>, so
  that its own thread cannot take it away, until \<open>startEDU\<close> has posted the event that resumes it.\<close>

theorem edu_blocks_live:
  assumes "eduReach fac g" and "plainTypes fac"
  shows "dom (em_cbs (g_mgr g)) = insert (em_pMainEDU (g_mgr g)) (ran (map_of (em_mapRuns (g_mgr g))) \<union> ran (map_of (em_mapIdles (g_mgr g))) \<union> {p. \<exists>b. g_thr g p = Some (TDelete b)})
    \<and> dom (g_thr g) = ran (map_of (em_mapRuns (g_mgr g))) \<union> ran (map_of (em_mapIdles (g_mgr g))) \<union> {p. \<exists>b. g_thr g p = Some (TDelete b)}
    \<and> (\<forall>p b. g_thr g p = Some (TDelete b) \<longrightarrow> p \<noteq> em_pMainEDU (g_mgr g) \<and> p \<notin> ran (map_of (em_mapRuns (g_mgr g))) \<union> ran (map_of (em_mapIdles (g_mgr g))) \<union> g_pend g)
    \<and> (\<forall>p\<in>g_pend g. \<exists>cb. em_cbs (g_mgr g) p = Some cb \<and> cb_status cb = PMD_EDU_CREATING \<and> map_of (em_mapRuns (g_mgr g)) (cb_eduID cb) = Some p
        \<and> snd (destroyIdle p (g_mgr g)) = g_mgr g \<and> snd (returnEDU fac p (g_mgr g)) = g_mgr g)"
proof -
  have m: "minv fac (dying g) (g_mgr g)" and t: "tinv g" using eduReach_inv [OF assms] by (simp_all add: einv_def)
  have "\<not> alive ph \<longleftrightarrow> (\<exists>b. ph = TDelete b)" for ph by (cases ph) simp_all
  then have d: "{p. \<exists>b. g_thr g p = Some (TDelete b)} = dying g" by (auto simp: dying_def)
  have "\<exists>cb. em_cbs (g_mgr g) p = Some cb \<and> cb_status cb = PMD_EDU_CREATING \<and> map_of (em_mapRuns (g_mgr g)) (cb_eduID cb) = Some p
      \<and> snd (destroyIdle p (g_mgr g)) = g_mgr g \<and> snd (returnEDU fac p (g_mgr g)) = g_mgr g" if pend: "p \<in> g_pend g" for p
  proof -
    obtain cb where cb: "em_cbs (g_mgr g) p = Some cb" "cb_status cb = PMD_EDU_CREATING" and pp: "p \<in> ptrs (g_mgr g)" using t pend by (auto simp: tinv_def)
    from m pp show ?thesis
    proof (cases rule: ptrs_cases)
      case (run c)
      then show ?thesis using cb by (simp add: destroyIdle_def returnEDU_def returnLatched_def cbOf_def)
    next
      case (idle c)
      then show ?thesis using cb by (simp add: idle_ok_def)
    qed
  qed
  moreover have "p \<noteq> em_pMainEDU (g_mgr g) \<and> p \<notin> ptrs (g_mgr g) \<union> g_pend g" if "g_thr g p = Some (TDelete b)" for p b
  proof -
    have "p \<in> dying g" using that d by blast
    then show ?thesis using minvD(10) [OF m] t by (auto simp: tinv_def)
  qed
  ultimately show ?thesis unfolding d using minvD(8) [OF m] t by (simp add: ptrs_def tinv_def)
qed

text \<open>C25: the table of system EDUs is exact in every state of a run without faults: it lists under each type the running EDUs of that type when the type is a system type, and nothing
  else.  An EDU in it cannot be forced, interrupted or disconnected by id: the three calls return \<open>SDB_PMD_FORCE_SYSTEM_EDU\<close> and change nothing.\<close>

theorem system_edus_protected:
  assumes "eduReach fac g" and "plainTypes fac"
  shows "(\<forall>ty. getSystemEDU ty (g_mgr g) = {i. isSystem ty fac \<and> (\<exists>p cb. map_of (em_mapRuns (g_mgr g)) i = Some p \<and> em_cbs (g_mgr g) p = Some cb \<and> cb_eduType cb = ty)})
    \<and> (\<forall>i. isSystemEDU i (g_mgr g) \<longrightarrow> forceUserEDU fac i (g_mgr g) = (SDB_PMD_FORCE_SYSTEM_EDU, g_mgr g)
        \<and> interruptUserEDU fac i (g_mgr g) = (SDB_PMD_FORCE_SYSTEM_EDU, g_mgr g) \<and> disconnectUserEDU fac i (g_mgr g) = (SDB_PMD_FORCE_SYSTEM_EDU, g_mgr g))"
proof -
  have m: "minv fac (dying g) (g_mgr g)" using eduReach_inv [OF assms] by (simp add: einv_def)
  have "userEDU fac i (g_mgr g) = Inl SDB_PMD_FORCE_SYSTEM_EDU" if sys: "isSystemEDU i (g_mgr g)" for i
  proof -
    obtain ty S where "map_of (em_mapSystemEdu (g_mgr g)) ty = Some S" "i \<in> S"
      using sys by (auto simp: isSystemEDU_def split: option.splits)
    then have "i \<in> getSystemEDU ty (g_mgr g)" by (simp add: getSystemEDU_def)
    then obtain q cb where q: "map_of (em_mapRuns (g_mgr g)) i = Some q" "em_cbs (g_mgr g) q = Some cb" "isSystem (cb_eduType cb) fac"
      using minvD(7) [OF m] by (auto simp: sysIDs_def)
    then show ?thesis by (simp add: userEDU_def isSystemCB_def cbOf_def isSystem_def)
  qed
  then show ?thesis using minvD(7) [OF m] by (simp add: sysIDs_def forceUserEDU_def interruptUserEDU_def disconnectUserEDU_def)
qed

section \<open>Starting an EDU from the pool\<close>

text \<open>C23: starting an EDU of a user type, in a state of a run without faults, while the pool is not empty takes the idle EDU with the smallest id, creates nothing, and returns that id.  The block moves to the
  table of running EDUs with the new type, in status \<open>CREATING\<close>, its flags cleared, and its queue holds exactly the event with the argument, so that
  the waiting thread of the EDU runs the entry function with this argument next.  No other block is touched.\<close>

theorem startEDU_from_pool:
  assumes "eduReach fac g" and "plainTypes fac" and "\<not> em_isQuiesced (g_mgr g)"
    and it: "getItem ty fac = Some it" "ep_pFunc it \<noteq> 0" "\<not> ep_isSystem it" and idles: "em_mapIdles (g_mgr g) = (i, q) # rest"
    and run: "startEDU fac p thr ty args nm (g_mgr g) = (rc, r, s')"
  shows "rc = SDB_OK \<and> r = Some i \<and> em_mapIdles s' = rest \<and> map_of (em_mapRuns s') = (map_of (em_mapRuns (g_mgr g)))(i \<mapsto> q)
    \<and> em_EDUID s' = em_EDUID (g_mgr g) \<and> (\<forall>x. x \<noteq> q \<longrightarrow> em_cbs s' x = em_cbs (g_mgr g) x)
    \<and> (\<exists>cb. em_cbs s' q = Some cb \<and> cb_eduID cb = i \<and> cb_eduType cb = ty \<and> cb_status cb = PMD_EDU_CREATING \<and> cb_ctrlFlag cb = 0
        \<and> (\<exists>ev cb'. waitEvent [] OSS_ONE_SEC False cb = Some (Some ev, cb') \<and> ev_Data ev = args \<and> cb_queue cb' = [] \<and> snd (takeEvent q ev cb' s') = TRun ev))"
proof -
  let ?s = "g_mgr g"
  have m: "minv fac (dying g) ?s" using eduReach_inv [OF assms(1,2)] by (simp add: einv_def)
  have Ii: "map_of (em_mapIdles ?s) i = Some q" by (simp add: idles)
  obtain cb where cb: "em_cbs ?s q = Some cb" "cb_eduID cb = i" using minvD(5) [OF m Ii] by blast
  define cb1 where "cb1 = cb\<lparr>cb_eduType := ty, cb_status := PMD_EDU_CREATING\<rparr>"
  obtain s1 where s1: "getFromPool ty ?s = (Some q, s1)" by (cases "getFromPool ty ?s") (auto simp: getFromPool_def idles Let_def)
  have e1: "em_mapIdles s1 = rest" "em_mapRuns s1 = smap_set i q (em_mapRuns ?s)" "em_cbs s1 = (em_cbs ?s)(q \<mapsto> cb1)" "em_EDUID s1 = em_EDUID ?s"
    using s1 cb by (auto simp: getFromPool_def idles Let_def cbOf_def cb1_def)
  obtain cb2 h2 where c: "educb_clear (cb1, em_heap s1) = (cb2, h2)" by (cases "educb_clear (cb1, em_heap s1)")
  have q2: "quiet cb1 cb2" "cb_queue cb2 = []" "cb_ctrlFlag cb2 = 0"
    using educb_clear_keeps [of cb1 "em_heap s1"] c by (auto simp: educb_clear_def freeAlloc_def freeCatch_def releaseAlignedBuff_def Let_def split: prod.splits if_splits)
  define cb3 where "cb3 = postEvent (event_new PMD_EDU_EVENT_RESUME PMD_EDU_MEM_NONE args 0) (case nm of Some n \<Rightarrow> setName n cb2 | None \<Rightarrow> cb2)"
  have f3: "cb_eduID cb3 = i" "cb_eduType cb3 = ty" "cb_status cb3 = PMD_EDU_CREATING" "cb_ctrlFlag cb3 = 0" "cb_queue cb3 = [event_new PMD_EDU_EVENT_RESUME PMD_EDU_MEM_NONE args 0]"
    using q2 cb by (auto simp: cb3_def postEvent_def setName_def quiet_def cb1_def split: option.splits)
  have "poolResume q args nm (poolClear q s1) = s1\<lparr>em_cbs := (em_cbs s1)(q \<mapsto> cb3), em_heap := h2\<rparr>"
    using e1 c by (simp add: poolResume_def poolClear_def memCB_def updCB_def cb3_def Let_def split: option.splits)
  then have r: "rc = SDB_OK" "r = Some i" "s' = s1\<lparr>em_cbs := (em_cbs s1)(q \<mapsto> cb3), em_heap := h2\<rparr>"
    using run it assms(3) s1 f3(1) by (auto simp: startEDU_def ep_isPoolable_def cbOf_def)
  moreover have "\<exists>ev cb'. waitEvent [] OSS_ONE_SEC False cb3 = Some (Some ev, cb') \<and> ev_Data ev = args \<and> cb_queue cb' = [] \<and> snd (takeEvent q ev cb' s') = TRun ev"
    using f3 by (simp add: waitEvent_def Let_def event_new_def takeEvent_def)
  ultimately show ?thesis using e1 f3 smap_set_find [OF minvD(1) [OF m]] by simp
qed

section \<open>Refilling the pool\<close>

lemma attach_minv: "minv fac D s \<Longrightarrow> minv fac D (threadAttach tid p s) \<and> em_mapIdles (threadAttach tid p s) = em_mapIdles s
    \<and> em_EDUID (threadAttach tid p s) = em_EDUID s \<and> calIdleLowSize (threadAttach tid p s) = calIdleLowSize s
    \<and> em_isQuiesced (threadAttach tid p s) = em_isQuiesced s \<and> dom (em_cbs (threadAttach tid p s)) = dom (em_cbs s)"
proof (cases "em_cbs s p")
  case None
  assume m: "minv fac D s"
  have "mcore (threadAttach tid p s) = mcore s" using None by (simp add: threadAttach_def setEDU_def updCB_def mcore_def Let_def)
  then show ?thesis using m minv_core [of "threadAttach tid p s" s fac]
    by (simp add: threadAttach_def setEDU_def updCB_def None Let_def calIdleLowSize_def sizeInfo_def systemSize_def)
next
  case (Some cb)
  assume m: "minv fac D s"
  let ?cb = "cb\<lparr>cb_threadID := tid, cb_threadHdl := tid, cb_tid := tid\<rparr>"
  have q: "quiet cb ?cb" by (rule quiet_simps(6))
  have "minv fac D (s\<lparr>em_cbs := (em_cbs s)(p \<mapsto> ?cb), em_heap := em_heap s\<rparr>)"
    by (rule minv_upd [OF m Some]) (use q quiet_ok [OF q] in \<open>simp_all add: quiet_def\<close>)
  moreover have "mcore (threadAttach tid p s) = mcore (s\<lparr>em_cbs := (em_cbs s)(p \<mapsto> ?cb), em_heap := em_heap s\<rparr>)"
    using Some by (simp add: threadAttach_def setEDU_def updCB_def mcore_def Let_def)
  ultimately have "minv fac D (threadAttach tid p s)" using minv_core by blast
  then show ?thesis using Some by (auto simp: threadAttach_def setEDU_def updCB_def Let_def calIdleLowSize_def sizeInfo_def systemSize_def)
qed

lemma next_id: "unat (i :: 64 word) + 1 < 2 ^ 64 \<Longrightarrow> i < i + 1 \<and> unat (i + 1) = unat i + 1"
  by (simp add: word_less_nat_alt unat_word_ariths)

lemma length_smap_set: "smap_ok xs \<Longrightarrow> map_of xs k = None \<Longrightarrow> length (smap_set k v xs) = Suc (length xs)"
  by (rule sm.count_put)

lemma monitorFill_ok:
  assumes "minv fac D s" and "plainTypes fac" and "\<not> em_isQuiesced s" and "distinct (map fst as)" and "\<forall>(p, thr)\<in>set as. p \<noteq> 0 \<and> em_cbs s p = None \<and> (\<exists>tid. thr = Some (Some tid))"
    and "unat (em_EDUID s) + length as < 2 ^ 64" and "calIdleLowSize s \<le> length (em_mapIdles s) + length as"
  shows "\<exists>s'. monitorFill as s = Some (SDB_OK, s') \<and> minv fac D s' \<and> length (em_mapIdles s') = max (length (em_mapIdles s)) (calIdleLowSize s) \<and> em_mapRuns s' = em_mapRuns s"
  using assms
proof (induction as arbitrary: s)
  case (Cons a as)
  obtain p tid where a: "a = (p, Some (Some tid))" "p \<noteq> 0" "em_cbs s p = None" using Cons.prems(5) by (cases a) auto
  note m = Cons.prems(1) and n = next_id [of "em_EDUID s"]
  have id: "em_EDUID s < em_EDUID s + 1" "unat (em_EDUID s + 1) = unat (em_EDUID s) + 1" using n Cons.prems(6) by simp_all
  show ?case
  proof (cases "length (em_mapIdles s) < calIdleLowSize s")
    case False
    then show ?thesis using m by (simp add: a)
  next
    case True
    let ?s1 = "publishIdle p s" and ?s2 = "threadAttach tid p (publishIdle p s)"
    have m1: "minv fac D ?s1" using publishIdle_minv [OF m Cons.prems(2) a(3,2) id(1)] by simp
    note A = attach_minv [OF m1, of tid p]
    have f1: "length (em_mapIdles ?s1) = Suc (length (em_mapIdles s))" "em_EDUID ?s1 = em_EDUID s + 1" "calIdleLowSize ?s1 = calIdleLowSize s"
      "em_isQuiesced ?s1 = em_isQuiesced s" "dom (em_cbs ?s1) = insert p (dom (em_cbs s))" "em_mapRuns ?s1 = em_mapRuns s"
      using length_smap_set [OF minvD(2) [OF m] fresh_id(2) [OF m]]
      by (auto simp: publishIdle_def Let_def calIdleLowSize_def sizeInfo_def systemSize_def calIdleLow_def)
    have r2: "em_mapRuns ?s2 = em_mapRuns ?s1" by (simp add: threadAttach_def setEDU_def Let_def)
    have "em_cbs ?s2 q = None" if "(q, thr) \<in> set as" for q thr
    proof -
      have "q \<notin> dom (em_cbs s)" "q \<noteq> p" using that Cons.prems(4,5) by (auto simp: a(1) domIff) force
      then show ?thesis using A f1(5) by auto
    qed
    then have "\<exists>s'. monitorFill as ?s2 = Some (SDB_OK, s') \<and> minv fac D s' \<and> length (em_mapIdles s') = max (length (em_mapIdles ?s2)) (calIdleLowSize ?s2) \<and> em_mapRuns s' = em_mapRuns ?s2"
      by (intro Cons.IH) (use A f1 id Cons.prems in \<open>auto simp: a(1)\<close>)
    moreover have "createIdleEDU p (Some (Some tid)) s = (SDB_OK, Some (em_EDUID s), ?s2)" using Cons.prems(3) a(2) by (simp add: createIdleEDU_def)
    ultimately show ?thesis using True A f1 r2 by (simp add: a(1))
  qed
qed simp

text \<open>C28: the monitor refills the pool: in every state of a run without faults of a manager that is not stopping, when blocks and threads can be created and nothing else runs in between, at most ten attempts leave the pool
  with as many idle EDUs as it should hold (ten, or the room the pool has left), leave the table of running EDUs as it is and end the loop.\<close>

theorem monitor_refills_pool:
  assumes "eduReach fac g" and "plainTypes fac" and "\<not> em_isQuiesced (g_mgr g)" and "distinct (map fst as)" and "length as = 10"
    and "\<forall>(p, thr)\<in>set as. p \<noteq> 0 \<and> em_cbs (g_mgr g) p = None \<and> (\<exists>tid. thr = Some (Some tid))" and "unat (em_EDUID (g_mgr g)) + 10 < 2 ^ 64"
  shows "\<exists>s'. monitorFill as (g_mgr g) = Some (SDB_OK, s') \<and> length (em_mapIdles s') = max (length (em_mapIdles (g_mgr g))) (calIdleLowSize (g_mgr g)) \<and> em_mapRuns s' = em_mapRuns (g_mgr g)"
proof -
  have m: "minv fac (dying g) (g_mgr g)" using eduReach_inv [OF assms(1,2)] by (simp add: einv_def)
  have "calIdleLowSize (g_mgr g) \<le> 10" by (simp add: calIdleLowSize_def calIdleLow_def Let_def split: prod.splits)
  then show ?thesis using monitorFill_ok [OF m assms(2,3,4,6)] assms(5,7) by auto
qed

section \<open>An example\<close>

text \<open>A node with the main EDU, one system EDU of type 2, and an EDU of the pool that \<open>startEDU\<close> has just taken for a session of type 9.\<close>

definition demoG1 :: edus where
  "demoG1 = edus_init 64 1 10 demoHeap"

definition demoG2 :: edus where
  "demoG2 = demoG1\<lparr>g_mgr := publishNew 100 2 True 7 None (g_mgr demoG1), g_thr := (g_thr demoG1)(100 \<mapsto> TStart (NewEDU 2 True))\<rparr>"

definition demoG3 :: edus where
  "demoG3 = demoG2\<lparr>g_mgr := publishIdle 200 (g_mgr demoG2), g_thr := (g_thr demoG2)(200 \<mapsto> TStart IdleEDU)\<rparr>"

definition demoG :: edus where
  "demoG = demoG3\<lparr>g_mgr := snd (getFromPool 9 (g_mgr demoG3)), g_pend := g_pend demoG3 \<union> set_option (fst (getFromPool 9 (g_mgr demoG3)))\<rparr>"

lemma demoFactory_items:
  "demoFactory = [(2, \<lparr> ep_type = 2, ep_pFunc = 7, ep_isSystem = True, ep_name = ''IOSVC'' \<rparr>),
     (3, \<lparr> ep_type = 3, ep_pFunc = 8, ep_isSystem = True, ep_name = ''CBMAIN'' \<rparr>), (9, \<lparr> ep_type = 9, ep_pFunc = 5, ep_isSystem = False, ep_name = ''AGENT'' \<rparr>)]"
  by (simp add: demoFactory_def regAll_def regItem_def getItem_def getItemByName_def sameName_def toLower_def Let_def)

lemma demoFactory_plain: "plainTypes demoFactory"
  by (simp add: plainTypes_def demoFactory_items getItem_def)

lemmas demoG_evals = demoG_def demoG3_def demoG2_def demoG1_def edus_init_def edumgr_init_def edumgr_new_def publishNew_def publishIdle_def getFromPool_def
  addToSystem_def updCB_def cbOf_def educb_new_def setName_def postEvent_def event_new_def systemSize_def calIdleLow_def u32_def Let_def

lemma demoG3_reach: "eduReach demoFactory demoG3"
proof -
  have 1: "eduReach demoFactory demoG1" unfolding demoG1_def by (rule eduReach_init) simp
  have "eduStep demoFactory NoFault demoG1 demoG2" unfolding demoG2_def
    using eduStep.create [of 2 demoFactory "\<lparr> ep_type = 2, ep_pFunc = 7, ep_isSystem = True, ep_name = ''IOSVC'' \<rparr>" 100 demoG1 7 None]
    by (simp add: demoFactory_items getItem_def) (simp add: demoG_evals)
  with 1 have 2: "eduReach demoFactory demoG2" by (rule eduReach_step)
  have "eduStep demoFactory NoFault demoG2 demoG3" unfolding demoG3_def by (rule eduStep.createIdle) (simp_all add: demoG_evals)
  with 2 show ?thesis by (rule eduReach_step)
qed

lemma demoG_reach: "eduReach demoFactory demoG"
proof -
  have "eduStep demoFactory NoFault demoG3 demoG" unfolding demoG_def
    by (rule eduStep.fromPool [where it = "\<lparr> ep_type = 9, ep_pFunc = 5, ep_isSystem = False, ep_name = ''AGENT'' \<rparr>" and ty = 9])
      (simp_all add: demoFactory_items getItem_def)
  with demoG3_reach show ?thesis by (rule eduReach_step)
qed

lemma demoG_eval: "map_of (em_mapRuns (g_mgr demoG)) = [2 \<mapsto> 100, 3 \<mapsto> 200]" "g_pend demoG = {200}" "getSystemEDU 2 (g_mgr demoG) = {2}" "isSystemEDU 2 (g_mgr demoG)"
  by (simp_all add: demoG_evals getSystemEDU_def isSystemEDU_def getEDUByID_def fun_eq_iff)

text \<open>What the two faults do.  The thread of a new idle EDU cannot be created, and between the critical section that enters the block into the pool and its deletion
  another thread takes the block from the pool: when its creator has cleaned up, the table of running EDUs still has the deleted block.  An EDU that is
  being taken from the pool is activated by id: its own thread can then destroy it while \<open>startEDU\<close> still works on the block.\<close>

lemma eduRun_mono: "eduRun fac F g \<Longrightarrow> F \<subseteq> F' \<Longrightarrow> eduRun fac F' g"
  by (induction rule: eduRun.induct) (auto intro: eduRun.intros)

theorem thread_fault_dangles:
  "\<exists>g. eduRun demoFactory {NoFault, ThreadFault} g \<and> g_fail g = [] \<and> (\<exists>i p. map_of (em_mapRuns (g_mgr g)) i = Some p \<and> em_cbs (g_mgr g) p = None)"
proof -
  let ?g1 = "demoG\<lparr>g_mgr := deleteCB 200 (g_mgr demoG), g_thr := (g_thr demoG)(200 := None), g_fail := (IdleEDU, cb_eduID (cbOf (g_mgr demoG) 200)) # g_fail demoG\<rparr>"
  let ?g2 = "?g1\<lparr>g_mgr := failErase IdleEDU (cb_eduID (cbOf (g_mgr demoG) 200)) (g_mgr ?g1), g_fail := remove1 (IdleEDU, cb_eduID (cbOf (g_mgr demoG) 200)) (g_fail ?g1)\<rparr>"
  have 0: "eduRun demoFactory {NoFault, ThreadFault} demoG" using demoG_reach unfolding eduReach_def by (rule eduRun_mono) simp
  have t: "g_thr demoG 200 = Some (TStart IdleEDU)" "g_fail demoG = []" by (simp_all add: demoG_evals)
  have 1: "eduRun demoFactory {NoFault, ThreadFault} ?g1" by (rule eduRun.step [OF 0 eduStep.noThread [of demoG, OF t(1)]]) simp
  have 2: "eduRun demoFactory {NoFault, ThreadFault} ?g2" by (rule eduRun.step [OF 1 eduStep.noThreadErase]) simp_all
  have "map_of (em_mapRuns (g_mgr ?g2)) 3 = Some 200 \<and> em_cbs (g_mgr ?g2) 200 = None" using demoG_eval(1) by simp
  with 2 t(2) show ?thesis by (intro exI [of _ ?g2] conjI exI [of _ 3] exI [of _ 200]) simp_all
qed

definition demoAct :: edus where
  "demoAct = (let g1 = demoG\<lparr>g_mgr := threadAttach 5 200 (g_mgr demoG), g_thr := (g_thr demoG)(200 \<mapsto> TWait)\<rparr>
              in g1\<lparr>g_mgr := runCall demoFactory (CActivate 3) (g_mgr g1)\<rparr>)"

theorem call_fault_dangles:
  "\<exists>g. eduRun demoFactory {NoFault, CallFault} g \<and> (\<exists>p\<in>g_pend g. em_cbs (g_mgr g) p = None)"
proof -
  let ?F = "{NoFault, CallFault}" and ?s = "g_mgr demoAct"
  have 0: "eduRun demoFactory ?F demoG" using demoG_reach unfolding eduReach_def by (rule eduRun_mono) simp
  have t: "g_thr demoG 200 = Some (TStart IdleEDU)" by (simp add: demoG_evals)
  have 1: "eduRun demoFactory ?F (demoG\<lparr>g_mgr := threadAttach 5 200 (g_mgr demoG), g_thr := (g_thr demoG)(200 \<mapsto> TWait)\<rparr>)"
    by (rule eduRun.step [OF 0 eduStep.attach [of demoG, OF t]]) simp
  have 2: "eduRun demoFactory ?F demoAct" unfolding demoAct_def Let_def by (rule eduRun.step [OF 1 eduStep.call]) simp
  have w: "g_thr demoAct 200 = Some TWait" "g_pend demoAct = {200}" using demoG_eval(2) by (simp_all add: demoAct_def)
  obtain d s' where r: "destroyIdle 200 ?s = (d, s')" by (cases "destroyIdle 200 ?s")
  have "fst (destroyIdle 200 ?s)"
    by (simp add: demoAct_def activateEDUByID_def activateEDU_def threadAttach_def setEDU_def destroyIdle_def demoG_evals)
  then have d: "d" by (simp add: r)
  let ?g3 = "demoAct\<lparr>g_mgr := s', g_thr := afterDestroy d 200 (g_thr demoAct)\<rparr>"
  have 3: "eduRun demoFactory ?F ?g3" by (rule eduRun.step [OF 2 eduStep.timeout [of demoAct, OF w(1) r]]) simp
  have "eduRun demoFactory ?F (deleteStep False 200 ?g3)" by (rule eduRun.step [OF 3 eduStep.delete]) (simp_all add: afterDestroy_def d)
  moreover have "200 \<in> g_pend (deleteStep False 200 ?g3)" "em_cbs (g_mgr (deleteStep False 200 ?g3)) 200 = None" using w(2) by (simp_all add: deleteStep_def)
  ultimately show ?thesis by blast
qed

theorem edu_tables_typed_witness:
  "\<exists>cb. em_cbs (g_mgr demoG) 200 = Some cb \<and> cb_eduID cb = 3 \<and> cb_status cb \<in> {PMD_EDU_CREATING, PMD_EDU_RUNNING, PMD_EDU_WAITING} \<and> getItem (cb_eduType cb) demoFactory \<noteq> None"
  using edu_tables_typed [OF demoG_reach demoFactory_plain] demoG_eval(1) by simp

theorem edu_blocks_live_witness:
  "\<exists>cb. em_cbs (g_mgr demoG) 200 = Some cb \<and> cb_status cb = PMD_EDU_CREATING \<and> map_of (em_mapRuns (g_mgr demoG)) (cb_eduID cb) = Some 200"
  using edu_blocks_live [OF demoG_reach demoFactory_plain] demoG_eval(2) by blast

theorem system_edus_protected_witness: "forceUserEDU demoFactory 2 (g_mgr demoG) = (SDB_PMD_FORCE_SYSTEM_EDU, g_mgr demoG)"
  using system_edus_protected [OF demoG_reach demoFactory_plain] demoG_eval(4) by blast

theorem startEDU_from_pool_witness:
  "\<exists>s'. startEDU demoFactory 300 None 9 77 None (g_mgr demoG3) = (SDB_OK, Some 3, s') \<and> em_mapIdles s' = []"
proof -
  obtain rc r s' where run: "startEDU demoFactory 300 None 9 77 None (g_mgr demoG3) = (rc, r, s')" by (cases "startEDU demoFactory 300 None 9 77 None (g_mgr demoG3)")
  have "em_mapIdles (g_mgr demoG3) = [(3, 200)]" "\<not> em_isQuiesced (g_mgr demoG3)" by (simp_all add: demoG_evals)
  then show ?thesis
    using startEDU_from_pool [OF demoG3_reach demoFactory_plain _ _ _ _ _ run, where it = "\<lparr> ep_type = 9, ep_pFunc = 5, ep_isSystem = False, ep_name = ''AGENT'' \<rparr>"] run
    by (simp add: demoFactory_items getItem_def)
qed

theorem monitor_refills_pool_witness:
  "\<exists>s'. monitorFill (map (\<lambda>k. (1000 + k, Some (Some k))) [0..<10]) (g_mgr demoG) = Some (SDB_OK, s') \<and> length (em_mapIdles s') = 9"
proof -
  have d: "distinct (map fst (map (\<lambda>k::nat. (1000 + k, Some (Some k))) [0..<10]))" by (simp add: distinct_map inj_on_def comp_def)
  have "length (em_mapIdles (g_mgr demoG)) = 0" "calIdleLowSize (g_mgr demoG) = 9" "\<not> em_isQuiesced (g_mgr demoG)" "unat (em_EDUID (g_mgr demoG)) + 10 < 2 ^ 64"
    by (simp_all add: demoG_evals calIdleLowSize_def sizeInfo_def)
  moreover have "em_cbs (g_mgr demoG) (1000 + k) = None" for k by (simp add: demoG_evals)
  ultimately show ?thesis
    using monitor_refills_pool [OF demoG_reach demoFactory_plain _ d] by auto
qed

end
