(* ===== verification/Pmd_Stop.thy ===== *)
theory Pmd_Stop
  imports Pmd_EDUSafe
begin

text \<open>
  Stopping the EDU manager (\<open>destroyAll\<close>, \<open>fini\<close>, \<open>deadCheck\<close> of \<open>src/src/pmd/pmdEDUMgr.cpp\<close>).  The loops poll: they count, force, sleep and count again
  until nothing is left or the time is over.  What the other threads do during the \<open>k\<close>-th sleep is the argument \<open>env k\<close>; stopping an I/O
  service changes nothing in the manager itself, the service's own thread takes it out of the list later.  The first turn, \<open>env 0\<close>, is the wait for the monitor thread (\<open>join\<close>): it ends when the monitor has
  noticed the flag, and the time it takes is not part of the result.
\<close>

abbreviation (input) PMD_FORCE_IO_INTERVAL :: int where "PMD_FORCE_IO_INTERVAL \<equiv> 200"
abbreviation (input) PMD_FORCE_EDU_INTERVAL :: int where "PMD_FORCE_EDU_INTERVAL \<equiv> 100"
abbreviation (input) PMD_STOP_MIN_TIMEOUT :: int where "PMD_STOP_MIN_TIMEOUT \<equiv> 60000"

type_synonym others = "nat \<Rightarrow> edus \<Rightarrow> edus"

text \<open>The results of a loop: whether it ended before its time was over, the time it took, the number of sleeps so far, and the state.\<close>

function stopIO :: "others \<Rightarrow> int \<Rightarrow> int \<Rightarrow> nat \<Rightarrow> edus \<Rightarrow> bool \<times> int \<times> nat \<times> edus" where
  "stopIO env limit c k g =
     (if countIOService (g_mgr g) > 0
      then let g1 = env k g; c1 = c + PMD_FORCE_IO_INTERVAL
           in if c1 \<ge> limit then (False, c1, Suc k, g1) else stopIO env limit c1 (Suc k) g1
      else (True, c, k, g))"
  by pat_completeness auto
termination
  by (relation "measure (\<lambda>(env, limit, c, k, g). nat (limit - c))") auto

definition forceAll :: "pmdEPFactory \<Rightarrow> bool \<Rightarrow> edus \<Rightarrow> edus" where
  "forceAll fac sys g = g\<lparr>g_mgr := forceEDUs fac sys True (g_mgr g)\<rparr>"

text \<open>The loop for the user EDUs (\<open>sys\<close> false) and the one for all EDUs; every 50th round forces them again.\<close>

function stopEDUs :: "pmdEPFactory \<Rightarrow> bool \<Rightarrow> others \<Rightarrow> int \<Rightarrow> int \<Rightarrow> nat \<Rightarrow> nat \<Rightarrow> edus \<Rightarrow> bool \<times> int \<times> nat \<times> edus" where
  "stopEDUs fac sys env limit c n k g =
     (if getEDUCount fac sys True (g_mgr g) \<noteq> 0
      then let g1 = env k (if n mod 50 = 0 then forceAll fac sys g else g); c1 = c + PMD_FORCE_EDU_INTERVAL
           in if c1 > limit then (False, c1, Suc k, g1) else stopEDUs fac sys env limit c1 (Suc n) (Suc k) g1
      else (True, c, k, g))"
  by pat_completeness auto
termination
  by (relation "measure (\<lambda>(fac, sys, env, limit, c, n, k, g). nat (limit + 1 - c))") auto

declare stopIO.simps [simp del] stopEDUs.simps [simp del]

definition destroyAll :: "pmdEPFactory \<Rightarrow> others \<Rightarrow> int \<Rightarrow> edus \<Rightarrow> bool \<times> int \<times> edus" where
  "destroyAll fac env timeout g =
     (let itemTimeout = (if timeout > 0 then timeout div 3 else 0x7FFFFFFF);
          g0 = g\<lparr>g_mgr := (setQuiesced True (setDestroyed True (g_mgr g)))\<lparr>em_monitorEvent := True\<rparr>\<rparr>;
          (ok1, c1, k1, g1) = stopIO env itemTimeout 0 1 (env 0 g0);
          last1 = (if c1 < itemTimeout then itemTimeout - c1 else 0);
          (ok2, c2, k2, g2) = stopEDUs fac False env (itemTimeout + last1) 0 0 k1 g1;
          last2 = (if c2 < itemTimeout + last1 then itemTimeout + last1 - c2 else last1);
          (ok3, c3, k3, g3) = stopEDUs fac True env (itemTimeout + last2) 0 0 k2 g2
      in (ok1 \<and> ok2 \<and> ok3, c1 + c2 + c3, g3))"

definition edumgr_fini :: "pmdEPFactory \<Rightarrow> others \<Rightarrow> others \<Rightarrow> int \<Rightarrow> edus \<Rightarrow> bool \<times> edus" where
  "edumgr_fini fac env env2 timeout g =
     (let t = (if timeout > 0 \<and> timeout < PMD_STOP_MIN_TIMEOUT then PMD_STOP_MIN_TIMEOUT else timeout)
      in if t > 0
         then let (ok, el, g1) = destroyAll fac env t g
              in if ok then (True, g1) else let (ok2, el2, g2) = destroyAll fac env2 PMD_STOP_MIN_TIMEOUT g1 in (ok2, g2)
         else let (ok, el, g1) = destroyAll fac env t g in (ok, g1))"

text \<open>\<open>deadCheck\<close>: \<open>quit k\<close> says whether the event is signalled in the \<open>k\<close>-th second; the result says whether the process panics, and after how long.\<close>

function deadCheckLoop :: "(nat \<Rightarrow> bool) \<Rightarrow> nat \<Rightarrow> int \<Rightarrow> bool \<times> nat" where
  "deadCheckLoop quit k rest =
     (if quit k then (False, k)
      else let r1 = rest - OSS_ONE_SEC in if r1 \<le> 0 then (True, Suc k) else deadCheckLoop quit (Suc k) r1)"
  by pat_completeness auto
termination
  by (relation "measure (\<lambda>(quit, k, rest). nat rest)") auto

declare deadCheckLoop.simps [simp del]

definition deadCheck :: "(nat \<Rightarrow> bool) \<Rightarrow> int \<Rightarrow> bool \<times> nat" where
  "deadCheck quit timeout = deadCheckLoop quit 0 (if timeout > PMD_STOP_MIN_TIMEOUT then timeout else PMD_STOP_MIN_TIMEOUT)"

section \<open>Time and result of the loops\<close>

lemma stopIO_spec:
  "stopIO env limit c k g = (ok, c', k', g') \<Longrightarrow> c \<le> limit \<Longrightarrow>
     c \<le> c' \<and> c' \<le> limit + PMD_FORCE_IO_INTERVAL \<and> (ok \<longrightarrow> countIOService (g_mgr g') = 0)"
proof (induction env limit c k g rule: stopIO.induct)
  case (1 env limit c k g)
  show ?case
  proof (cases "countIOService (g_mgr g) > 0 \<and> \<not> c + 200 \<ge> limit")
    case True
    note T = True
    have "stopIO env limit (c + 200) (Suc k) (env k g) = (ok, c', k', g')" using "1.prems"(1) T by (simp add: stopIO.simps [of env limit c k g] Let_def)
    from "1.IH" [OF _ refl refl _ this] show ?thesis using T by auto
  next
    case False
    then show ?thesis using "1.prems" by (auto simp: stopIO.simps [of env limit c k g] Let_def split: if_splits)
  qed
qed

lemma stopEDUs_spec:
  "stopEDUs fac sys env limit c n k g = (ok, c', k', g') \<Longrightarrow> c \<le> limit \<Longrightarrow>
     c \<le> c' \<and> c' \<le> limit + PMD_FORCE_EDU_INTERVAL \<and> (c' < limit \<longrightarrow> ok) \<and> (ok \<longrightarrow> getEDUCount fac sys True (g_mgr g') = 0)"
proof (induction fac sys env limit c n k g rule: stopEDUs.induct)
  case (1 fac sys env limit c n k g)
  let ?g1 = "env k (if n mod 50 = 0 then forceAll fac sys g else g)"
  show ?case
  proof (cases "getEDUCount fac sys True (g_mgr g) \<noteq> 0 \<and> \<not> c + 100 > limit")
    case True
    have "stopEDUs fac sys env limit (c + 100) (Suc n) (Suc k) ?g1 = (ok, c', k', g')"
      using "1.prems"(1) True by (simp add: stopEDUs.simps [of fac sys env limit c n k g] Let_def)
    from "1.IH" [OF _ refl refl _ this] show ?thesis using True by auto
  next
    case False
    then show ?thesis using "1.prems" by (auto simp: stopEDUs.simps [of fac sys env limit c n k g] Let_def split: if_splits)
  qed
qed

section \<open>Stopping in a running system\<close>

text \<open>The other threads only take their own steps, without a fault.\<close>

definition honest :: "pmdEPFactory \<Rightarrow> others \<Rightarrow> bool" where
  "honest fac env \<longleftrightarrow> (\<forall>k g. (eduStep fac NoFault)\<^sup>*\<^sup>* g (env k g))"

lemma eduReach_steps: "(eduStep fac NoFault)\<^sup>*\<^sup>* g g' \<Longrightarrow> eduReach fac g \<Longrightarrow> eduReach fac g'"
  by (induction rule: rtranclp_induct) (auto intro: eduReach_step)

lemma honest_reach: "honest fac env \<Longrightarrow> eduReach fac g \<Longrightarrow> eduReach fac (env k g)"
  unfolding honest_def by (blast intro: eduReach_steps)

lemma call_reach:
  assumes "eduReach fac g" and "callFault g c = NoFault"
  shows "eduReach fac (g\<lparr>g_mgr := runCall fac c (g_mgr g)\<rparr>)"
proof (rule eduReach_step [OF assms(1)])
  have "eduStep fac (callFault g c) g (g\<lparr>g_mgr := runCall fac c (g_mgr g)\<rparr>)" by (rule eduStep.call)
  then show "eduStep fac NoFault g (g\<lparr>g_mgr := runCall fac c (g_mgr g)\<rparr>)" by (simp add: assms(2))
qed

lemma forceAll_reach: "eduReach fac g \<Longrightarrow> eduReach fac (forceAll fac sys g)"
  using call_reach [of fac g "CForceAll sys True"] by (simp add: forceAll_def)

lemma stopIO_reach: "stopIO env limit c k g = (ok, c', k', g') \<Longrightarrow> honest fac env \<Longrightarrow> eduReach fac g \<Longrightarrow> eduReach fac g'"
proof (induction env limit c k g rule: stopIO.induct)
  case (1 env limit c k g)
  note h = honest_reach [OF "1.prems"(2,3), of k]
  show ?case
  proof (cases "countIOService (g_mgr g) > 0 \<and> \<not> c + 200 \<ge> limit")
    case True
    have "stopIO env limit (c + 200) (Suc k) (env k g) = (ok, c', k', g')" using "1.prems"(1) True by (simp add: stopIO.simps [of env limit c k g] Let_def)
    from "1.IH" [OF _ refl refl _ this "1.prems"(2) h] show ?thesis using True by auto
  next
    case False
    then show ?thesis using "1.prems" h by (auto simp: stopIO.simps [of env limit c k g] Let_def split: if_splits)
  qed
qed

lemma stopEDUs_reach:
  "stopEDUs fac sys env limit c n k g = (ok, c', k', g') \<Longrightarrow> honest fac env \<Longrightarrow> eduReach fac g \<Longrightarrow> eduReach fac g'"
proof (induction fac sys env limit c n k g rule: stopEDUs.induct)
  case (1 fac sys env limit c n k g)
  let ?g1 = "env k (if n mod 50 = 0 then forceAll fac sys g else g)"
  have h: "eduReach fac ?g1" using honest_reach [OF "1.prems"(2)] forceAll_reach "1.prems"(3) by simp
  show ?case
  proof (cases "getEDUCount fac sys True (g_mgr g) \<noteq> 0 \<and> \<not> c + 100 > limit")
    case True
    have "stopEDUs fac sys env limit (c + 100) (Suc n) (Suc k) ?g1 = (ok, c', k', g')"
      using "1.prems"(1) True by (simp add: stopEDUs.simps [of fac sys env limit c n k g] Let_def)
    from "1.IH" [OF _ refl refl _ this "1.prems"(2) h] show ?thesis using True by auto
  next
    case False
    then show ?thesis using "1.prems" h by (auto simp: stopEDUs.simps [of fac sys env limit c n k g] Let_def split: if_splits)
  qed
qed

text \<open>The parts of a run of \<open>destroyAll\<close>.\<close>

lemma destroyAll_parts:
  assumes "destroyAll fac env timeout g = (ok, el, g3)"
  obtains ok1 ok2 ok3 c1 c2 c3 k1 k2 k3 g0 g1 g2 item last1 last2 where
    "item = (if timeout > 0 then timeout div 3 else 0x7FFFFFFF)" "g0 = g\<lparr>g_mgr := (setQuiesced True (setDestroyed True (g_mgr g)))\<lparr>em_monitorEvent := True\<rparr>\<rparr>"
    "stopIO env item 0 1 (env 0 g0) = (ok1, c1, k1, g1)" "last1 = (if c1 < item then item - c1 else 0)"
    "stopEDUs fac False env (item + last1) 0 0 k1 g1 = (ok2, c2, k2, g2)" "last2 = (if c2 < item + last1 then item + last1 - c2 else last1)"
    "stopEDUs fac True env (item + last2) 0 0 k2 g2 = (ok3, c3, k3, g3)" "ok = (ok1 \<and> ok2 \<and> ok3)" "el = c1 + c2 + c3"
  using assms unfolding destroyAll_def Let_def by (auto split: prod.splits if_splits)

lemma start_reach: "eduReach fac g \<Longrightarrow> eduReach fac (g\<lparr>g_mgr := (setQuiesced True (setDestroyed True (g_mgr g)))\<lparr>em_monitorEvent := True\<rparr>\<rparr>)"
  using call_reach [OF call_reach [OF call_reach [of fac g "CDestroyed True"], of "CQuiesced True"], of CSignal] by simp

lemma getEDUCount_zero: "getEDUCount fac True True s = 0 \<Longrightarrow> em_mapRuns s = [] \<and> em_mapIdles s = []"
  by (auto simp: getEDUCount_def selected_def)

lemma dom_deleteCBs: "dom (em_cbs (fold deleteCB ps s)) = dom (em_cbs s) - set ps"
  by (induction ps arbitrary: s) auto

text \<open>C24: when \<open>destroyAll\<close> reports a normal stop, whatever the other threads did meanwhile (as long as threads could be created, none threw outside its entry function, nobody set the status by id
  of an EDU that was just being taken from the pool, and nobody but the manager posted \<open>RESUME\<close> events), no EDU is left in the manager at that moment: both tables are empty, no \<open>startEDU\<close> has a block of the pool in its hands, and
  every thread of an EDU that is still there has taken its block out of the tables and has only to delete it and to exit.  The live blocks are the main
  one and the blocks of these threads; once they have deleted them, in any order, only the main one is left.\<close>

theorem normal_stop_leaves_nothing:
  assumes "eduReach fac g" and "plainTypes fac" and "honest fac env" and "destroyAll fac env timeout g = (True, el, g')"
  shows "em_mapRuns (g_mgr g') = [] \<and> em_mapIdles (g_mgr g') = [] \<and> g_pend g' = {} \<and> (\<forall>ph\<in>ran (g_thr g'). \<exists>b. ph = TDelete b)
    \<and> dom (em_cbs (g_mgr g')) = insert (em_pMainEDU (g_mgr g')) (dom (g_thr g'))
    \<and> (\<forall>ps. set ps = dom (g_thr g') \<longrightarrow> dom (em_cbs (fold deleteCB ps (g_mgr g'))) = {em_pMainEDU (g_mgr g')})"
  using assms(4)
proof (cases rule: destroyAll_parts)
  case (1 ok1 ok2 ok3 c1 c2 c3 k1 k2 k3 g0 g1 g2 item last1 last2)
  have pos: "0 \<le> item" using 1(1) by auto
  have "0 \<le> last1" "0 \<le> last2" using pos 1(4,6) by auto
  then have "getEDUCount fac True True (g_mgr g') = 0" using stopEDUs_spec [OF 1(7)] pos 1(8) by simp
  from getEDUCount_zero [OF this] have z: "em_mapRuns (g_mgr g') = []" "em_mapIdles (g_mgr g') = []" by simp_all
  have "eduReach fac g1" using stopIO_reach [OF 1(3) assms(3)] honest_reach [OF assms(3) start_reach [OF assms(1)]] 1(2) by simp
  then have "eduReach fac g'" using stopEDUs_reach [OF 1(7) assms(3)] stopEDUs_reach [OF 1(5) assms(3)] by simp
  from eduReach_inv [OF this assms(2)] have m: "minv fac (dying g') (g_mgr g')" and t: "tinv g'" by (simp_all add: einv_def)
  have p: "ptrs (g_mgr g') = {}" using z by (simp add: ptrs_def)
  then have d: "dom (g_thr g') = dying g'" using t by (simp add: tinv_def)
  have "\<not> alive ph" if ran: "ph \<in> ran (g_thr g')" for ph
  proof -
    obtain q where q: "g_thr g' q = Some ph" using ran by (auto simp: ran_def)
    then have "q \<in> dying g'" using d by blast
    then show ?thesis using q by (simp add: dying_def)
  qed
  moreover have "\<exists>b. ph = TDelete b" if "\<not> alive ph" for ph using that by (cases ph) simp_all
  ultimately have ph: "\<forall>ph\<in>ran (g_thr g'). \<exists>b. ph = TDelete b" by blast
  have c: "dom (em_cbs (g_mgr g')) = insert (em_pMainEDU (g_mgr g')) (dom (g_thr g'))" using minvD(8) [OF m] p d by simp
  moreover have "em_pMainEDU (g_mgr g') \<notin> dom (g_thr g')" using minvD(10) [OF m] d by simp
  ultimately have "\<forall>ps. set ps = dom (g_thr g') \<longrightarrow> dom (em_cbs (fold deleteCB ps (g_mgr g'))) = {em_pMainEDU (g_mgr g')}" unfolding dom_deleteCBs by auto
  moreover have "g_pend g' = {}" using t p by (auto simp: tinv_def)
  ultimately show ?thesis using z ph c by simp
qed

text \<open>C29: \<open>destroyAll\<close> always returns, whatever the other threads do, and the time it sleeps is bounded by the time-out it was given: at most four thirds of it and half a second (the
  time left over by one phase can be used twice, so that the time-out itself is no bound).  The wait for the monitor thread to end, before the loops, is not counted.\<close>

theorem stop_time_bounded:
  assumes "0 < timeout"
  shows "\<exists>ok el g'. destroyAll fac env timeout g = (ok, el, g') \<and> 0 \<le> el \<and> el \<le> 4 * (timeout div 3) + 500"
proof -
  obtain ok el g' where run: "destroyAll fac env timeout g = (ok, el, g')" by (cases "destroyAll fac env timeout g")
  then have "0 \<le> el \<and> el \<le> 4 * (timeout div 3) + 500"
  proof (cases rule: destroyAll_parts)
    case (1 ok1 ok2 ok3 c1 c2 c3 k1 k2 k3 g0 g1 g2 item last1 last2)
    have item: "item = timeout div 3" "0 \<le> item" using 1(1) assms by auto
    have l: "0 \<le> last1" "0 \<le> last2" using item 1(4,6) by auto
    have "0 \<le> c1 \<and> c1 \<le> item + 200" using stopIO_spec [OF 1(3)] item by simp
    moreover have "0 \<le> c2 \<and> c2 \<le> item + last1 + 100" using stopEDUs_spec [OF 1(5)] item l by simp
    moreover have "0 \<le> c3 \<and> c3 \<le> item + last2 + 100" using stopEDUs_spec [OF 1(7)] item l by simp
    ultimately show ?thesis using 1(4,6,9) item by (auto split: if_splits)
  qed
  then show ?thesis using run by blast
qed

lemma honest_still: "honest fac (\<lambda>k g. g)"
  by (simp add: honest_def)

text \<open>A node with an idle EDU that never ends: 300 milliseconds were allowed, 600 are used.\<close>

lemma demo_stuck: "fst (destroyAll demoFactory (\<lambda>k g. g) 300 demoG3) = False \<and> fst (snd (destroyAll demoFactory (\<lambda>k g. g) 300 demoG3)) = 600"
  by (simp add: destroyAll_def stopIO.simps stopEDUs.simps countIOService_def getEDUCount_def selected_def isSystemCB_def getItem_def demoFactory_items forceAll_def forceEDUs_def
      setQuiesced_def setDestroyed_def educb_force_def educb_disconnect_def educb_interrupt_def demoG_evals)

theorem stop_time_bounded_witness:
  "\<exists>ok el g'. destroyAll demoFactory (\<lambda>k g. g) 300 demoG3 = (ok, el, g') \<and> el = 600 \<and> el \<le> 4 * (300 div 3) + 500"
  using stop_time_bounded [of 300 demoFactory "\<lambda>k g. g" demoG3] demo_stuck by (cases "destroyAll demoFactory (\<lambda>k g. g) 300 demoG3") auto

text \<open>A node whose only EDU is idle: during the join its thread attaches, in the first sleep it times out and takes its block out of the tables; when the stop is
  reported the thread has still to delete the block.\<close>

definition demoIdle :: edus where
  "demoIdle = demoG1\<lparr>g_mgr := publishIdle 200 (g_mgr demoG1), g_thr := (g_thr demoG1)(200 \<mapsto> TStart IdleEDU)\<rparr>"

definition demoOthers :: others where
  "demoOthers k g =
     (if g_thr g 200 = Some (TStart IdleEDU) then g\<lparr>g_mgr := threadAttach 5 200 (g_mgr g), g_thr := (g_thr g)(200 \<mapsto> TWait)\<rparr>
      else if g_thr g 200 = Some TWait
      then g\<lparr>g_mgr := snd (destroyIdle 200 (g_mgr g)), g_thr := afterDestroy (fst (destroyIdle 200 (g_mgr g))) 200 (g_thr g)\<rparr>
      else g)"

lemma demoOthers_honest: "honest fac demoOthers"
proof -
  have "(eduStep fac NoFault)\<^sup>*\<^sup>* g (demoOthers k g)" for k g
    unfolding demoOthers_def by (auto intro!: r_into_rtranclp eduStep.attach eduStep.timeout)
  then show ?thesis by (simp add: honest_def)
qed

lemma demoIdle_reach: "eduReach demoFactory demoIdle"
  unfolding demoIdle_def
  by (rule eduReach_step [OF _ eduStep.createIdle [of 200 demoG1]]) (simp_all add: demoG1_def eduReach_init, simp_all add: demoG_evals)

lemma demoIdle_stop:
  "\<exists>el g'. destroyAll demoFactory demoOthers 300 demoIdle = (True, el, g') \<and> g_thr g' = [200 \<mapsto> TDelete False] \<and> em_pMainEDU (g_mgr g') = 64"
  by (simp add: destroyAll_def stopIO.simps stopEDUs.simps countIOService_def getEDUCount_def selected_def isSystemCB_def getItem_def demoFactory_items forceAll_def forceEDUs_def
      setQuiesced_def setDestroyed_def educb_force_def educb_disconnect_def educb_interrupt_def demoOthers_def demoIdle_def threadAttach_def setEDU_def destroyIdle_def
      afterDestroy_def postDestoryEDU_def removeFromSystem_def eraseFirst_def smap_erase_def demoG_evals)

theorem normal_stop_leaves_nothing_witness:
  "\<exists>el g'. destroyAll demoFactory demoOthers 300 demoIdle = (True, el, g') \<and> em_mapIdles (g_mgr g') = [] \<and> dom (em_cbs (g_mgr g')) = {64, 200}
     \<and> dom (em_cbs (deleteCB 200 (g_mgr g'))) = {64}"
proof -
  obtain el g' where run: "destroyAll demoFactory demoOthers 300 demoIdle = (True, el, g')" and t: "g_thr g' = [200 \<mapsto> TDelete False]" "em_pMainEDU (g_mgr g') = 64"
    using demoIdle_stop by blast
  note N = normal_stop_leaves_nothing [OF demoIdle_reach demoFactory_plain demoOthers_honest run]
  have "dom (em_cbs (fold deleteCB [200] (g_mgr g'))) = {64}" using N t by (metis (no_types) dom_eq_singleton_conv empty_set list.simps(15))
  then show ?thesis using run N t by (intro exI [of _ el] exI [of _ g']) auto
qed

lemma deadCheckLoop_iff:
  "0 < rest \<Longrightarrow> deadCheckLoop quit k rest = (True, n) \<longleftrightarrow> (\<forall>j. k \<le> j \<and> j < n \<longrightarrow> \<not> quit j) \<and> n = k + nat ((rest + 999) div 1000)"
proof (induction quit k rest rule: deadCheckLoop.induct)
  case (1 quit k rest)
  show ?case
  proof (cases "quit k")
    case True
    moreover have "k < k + nat ((rest + 999) div 1000)" using "1.prems" by simp
    ultimately show ?thesis by (auto simp: deadCheckLoop.simps [of quit k rest])
  next
    case nq: False
    show ?thesis
    proof (cases "rest - 1000 \<le> 0")
      case True
      have "(rest + 999) div 1000 = 1" using True "1.prems" by simp
      then show ?thesis using nq True by (auto simp: deadCheckLoop.simps [of quit k rest] Let_def) (metis le_antisym less_Suc_eq_le)
    next
      case False
      have e: "(rest + 999) div 1000 = (rest - 1000 + 999) div 1000 + 1" by simp
      have "0 \<le> (rest - 1000 + 999) div 1000" using False by simp
      then have n: "k + nat ((rest + 999) div 1000) = Suc k + nat ((rest - 1000 + 999) div 1000)" unfolding e by simp
      have "(\<forall>j. Suc k \<le> j \<and> j < n \<longrightarrow> \<not> quit j) \<longleftrightarrow> (\<forall>j. k \<le> j \<and> j < n \<longrightarrow> \<not> quit j)" using nq by (metis Suc_leD Suc_leI le_neq_implies_less)
      then show ?thesis unfolding n using "1.IH" [OF nq refl False] nq False by (simp add: deadCheckLoop.simps [of quit k rest] Let_def)
    qed
  qed
qed

text \<open>The dead check panics exactly when no second up to its time-out (at least one minute) has seen the signal, and then after that time-out rounded up to a second.\<close>

theorem deadCheck_panics_iff:
  "deadCheck quit timeout = (True, n) \<longleftrightarrow> (\<forall>k. k < n \<longrightarrow> \<not> quit k) \<and> n = nat ((max timeout PMD_STOP_MIN_TIMEOUT + 999) div 1000)"
  unfolding deadCheck_def using deadCheckLoop_iff [of "max timeout PMD_STOP_MIN_TIMEOUT" quit 0 n] by (simp add: max_def not_le) (auto simp: not_less)

end
