(* ===== verification/Pmd_Container.thy ===== *)
theory Pmd_Container
  imports Nova_Containers
begin

text \<open>
  The components of a node (\<open>src/src/pmd/pmdContainer.cpp\<close>): each control block (\<open>IPmdCB\<close>) has a type and depends on other types; the container sorts them
  so that each comes behind the ones it depends on, starts them in this order and stops them in the opposite one.  A control block is its address; what its
  virtual functions answer, and what \<open>startEDU\<close> answers for its threads, is in the record \<open>cbEnv\<close>.
\<close>

section \<open>Control blocks and the container\<close>

datatype PMD_CB_OPR_STAT = CB_OPR_NULL | CB_OPR_INIT | CB_OPR_ACTIVE

record cbEnv =
  ce_type :: "nat \<Rightarrow> int"
  ce_deps :: "nat \<Rightarrow> int list"
  ce_init :: "nat \<Rightarrow> rc"
  ce_active :: "nat \<Rightarrow> rc"
  ce_iosvc :: "nat \<Rightarrow> nat list"
  ce_main :: "nat \<Rightarrow> bool"
  ce_startIO :: "nat \<Rightarrow> rc"
  ce_startMain :: "nat \<Rightarrow> rc"

record pmdContainer =
  co_arrayCB :: "nat option list"
  co_vecCB :: "(nat \<times> PMD_CB_OPR_STAT) list"
  co_hasChecked :: bool

abbreviation (input) PMD_CB_MAX :: nat where "PMD_CB_MAX \<equiv> 3"

definition container_new :: pmdContainer where
  "container_new = \<lparr> co_arrayCB = replicate PMD_CB_MAX None, co_vecCB = [], co_hasChecked = False \<rparr>"

definition container_clear :: "pmdContainer \<Rightarrow> pmdContainer" where
  "container_clear c = c\<lparr>co_arrayCB := replicate PMD_CB_MAX None, co_vecCB := []\<rparr>"

definition getCB :: "int \<Rightarrow> pmdContainer \<Rightarrow> nat option" where
  "getCB ty c = (if 0 \<le> ty \<and> ty < int PMD_CB_MAX then co_arrayCB c ! nat ty else None)"

definition container_registerCB :: "cbEnv \<Rightarrow> nat \<Rightarrow> pmdContainer \<Rightarrow> rc \<times> pmdContainer" where
  "container_registerCB e cb c =
     (if 0 \<le> ce_type e cb \<and> ce_type e cb < int PMD_CB_MAX
      then (SDB_OK, c\<lparr>co_arrayCB := (co_arrayCB c)[nat (ce_type e cb) := Some cb]\<rparr>)
      else (SDB_SYS, c))"

section \<open>Sorting by dependency\<close>

definition isInOrder :: "nat \<Rightarrow> (nat \<times> PMD_CB_OPR_STAT) list \<Rightarrow> bool" where
  "isInOrder cb vec \<longleftrightarrow> cb \<in> set (map fst vec)"

text \<open>The recursion, with the flags and the order built so far; \<open>None\<close> when the fuel (the depth of the recursion) is used up.\<close>

fun addDependencyCB :: "nat \<Rightarrow> cbEnv \<Rightarrow> nat option list \<Rightarrow> nat \<Rightarrow> bool list \<times> (nat \<times> PMD_CB_OPR_STAT) list
      \<Rightarrow> (rc \<times> bool list \<times> (nat \<times> PMD_CB_OPR_STAT) list) option"
  and addDependencies :: "nat \<Rightarrow> cbEnv \<Rightarrow> nat option list \<Rightarrow> int list \<Rightarrow> bool list \<times> (nat \<times> PMD_CB_OPR_STAT) list
      \<Rightarrow> (rc \<times> bool list \<times> (nat \<times> PMD_CB_OPR_STAT) list) option" where
  "addDependencyCB 0 e arr cb st = None"
| "addDependencyCB (Suc n) e arr cb (flag, vec) =
     (if flag ! nat (ce_type e cb) then Some (SDB_SYS, flag, vec)
      else case addDependencies n e arr (ce_deps e cb) (flag[nat (ce_type e cb) := True], vec) of
             None \<Rightarrow> None
           | Some (rc, flag1, vec1) \<Rightarrow>
               if rc \<noteq> SDB_OK then Some (rc, flag1, vec1) else Some (SDB_OK, flag1, vec1 @ [(cb, CB_OPR_NULL)]))"
| "addDependencies n e arr [] (flag, vec) = Some (SDB_OK, flag, vec)"
| "addDependencies n e arr (d # ds) (flag, vec) =
     (if d < 0 \<or> d \<ge> int PMD_CB_MAX then Some (SDB_SYS, flag, vec)
      else case arr ! nat d of
             None \<Rightarrow> Some (SDB_SYS, flag, vec)
           | Some dcb \<Rightarrow>
               if isInOrder dcb vec then addDependencies n e arr ds (flag, vec)
               else case addDependencyCB n e arr dcb (flag, vec) of
                      None \<Rightarrow> None
                    | Some (rc, flag1, vec1) \<Rightarrow>
                        if rc \<noteq> SDB_OK then Some (rc, flag1, vec1) else addDependencies n e arr ds (flag1, vec1))"

text \<open>The loop over the types.\<close>

fun checkLoop :: "nat \<Rightarrow> cbEnv \<Rightarrow> nat option list \<Rightarrow> nat list \<Rightarrow> bool list \<times> (nat \<times> PMD_CB_OPR_STAT) list
      \<Rightarrow> (rc \<times> bool list \<times> (nat \<times> PMD_CB_OPR_STAT) list) option" where
  "checkLoop n e arr [] (flag, vec) = Some (SDB_OK, flag, vec)"
| "checkLoop n e arr (i # is) (flag, vec) =
     (case arr ! i of
        None \<Rightarrow> checkLoop n e arr is (flag, vec)
      | Some cb \<Rightarrow>
          if flag ! i then checkLoop n e arr is (flag, vec)
          else case addDependencyCB n e arr cb (flag, vec) of
                 None \<Rightarrow> None
               | Some (rc, flag1, vec1) \<Rightarrow> if rc \<noteq> SDB_OK then Some (rc, flag1, vec1) else checkLoop n e arr is (flag1, vec1))"

definition checkDependency :: "nat \<Rightarrow> cbEnv \<Rightarrow> pmdContainer \<Rightarrow> (rc \<times> pmdContainer) option" where
  "checkDependency n e c =
     (if co_hasChecked c then Some (SDB_OK, c)
      else case checkLoop n e (co_arrayCB c) [0..<PMD_CB_MAX] (replicate PMD_CB_MAX False, co_vecCB c) of
             None \<Rightarrow> None
           | Some (rc, flag, vec) \<Rightarrow>
               Some (rc, if rc = SDB_OK then c\<lparr>co_vecCB := vec, co_hasChecked := True\<rparr> else c\<lparr>co_vecCB := vec\<rparr>))"

section \<open>What a sorted container is\<close>

definition array_ok :: "cbEnv \<Rightarrow> nat option list \<Rightarrow> bool" where
  "array_ok e arr \<longleftrightarrow> length arr = PMD_CB_MAX \<and> (\<forall>i<PMD_CB_MAX. \<forall>cb. arr ! i = Some cb \<longrightarrow> ce_type e cb = int i)"

text \<open>The type \<open>i\<close> depends on \<open>j\<close>, both registered.\<close>

definition depOn :: "cbEnv \<Rightarrow> nat option list \<Rightarrow> nat \<Rightarrow> nat \<Rightarrow> bool" where
  "depOn e arr i j \<longleftrightarrow> i < PMD_CB_MAX \<and> j < PMD_CB_MAX \<and> (\<exists>cb. arr ! i = Some cb \<and> int j \<in> set (ce_deps e cb)) \<and> arr ! j \<noteq> None"

text \<open>Every dependency of a registered control block is registered.\<close>

definition depsKnown :: "cbEnv \<Rightarrow> nat option list \<Rightarrow> bool" where
  "depsKnown e arr \<longleftrightarrow> (\<forall>cb. Some cb \<in> set arr \<longrightarrow> (\<forall>d\<in>set (ce_deps e cb). 0 \<le> d \<and> d < int PMD_CB_MAX \<and> arr ! nat d \<noteq> None))"

definition types :: "cbEnv \<Rightarrow> (nat \<times> PMD_CB_OPR_STAT) list \<Rightarrow> nat set" where
  "types e vec = (\<lambda>x. nat (ce_type e (fst x))) ` set vec"

text \<open>Each entry is registered, new, and behind everything it depends on.\<close>

fun sorted_by_deps :: "cbEnv \<Rightarrow> nat option list \<Rightarrow> nat list \<Rightarrow> bool" where
  "sorted_by_deps e arr [] \<longleftrightarrow> True"
| "sorted_by_deps e arr (cb # before) \<longleftrightarrow>
     Some cb \<in> set arr \<and> cb \<notin> set before \<and> (\<forall>d\<in>set (ce_deps e cb). 0 \<le> d \<and> d < int PMD_CB_MAX \<and> (\<exists>dcb\<in>set before. arr ! nat d = Some dcb))
     \<and> sorted_by_deps e arr before"

definition dfs_inv :: "cbEnv \<Rightarrow> nat option list \<Rightarrow> bool list \<Rightarrow> (nat \<times> PMD_CB_OPR_STAT) list \<Rightarrow> nat set \<Rightarrow> bool" where
  "dfs_inv e arr flag vec stk \<longleftrightarrow> length flag = PMD_CB_MAX \<and> sorted_by_deps e arr (rev (map fst vec))
     \<and> (\<forall>i<PMD_CB_MAX. flag ! i \<longleftrightarrow> i \<in> types e vec \<or> i \<in> stk) \<and> types e vec \<inter> stk = {} \<and> stk \<subseteq> {..<PMD_CB_MAX}"

definition bad :: "cbEnv \<Rightarrow> nat option list \<Rightarrow> bool" where
  "bad e arr \<longleftrightarrow> \<not> depsKnown e arr \<or> (\<exists>i. (depOn e arr)\<^sup>+\<^sup>+ i i)"

lemma registered:
  assumes "array_ok e arr" and "Some cb \<in> set arr"
  shows "0 \<le> ce_type e cb" "ce_type e cb < int PMD_CB_MAX" "arr ! nat (ce_type e cb) = Some cb"
proof -
  obtain i where "i < length arr" "arr ! i = Some cb" using assms(2) by (auto simp: in_set_conv_nth)
  then show "0 \<le> ce_type e cb" "ce_type e cb < int PMD_CB_MAX" "arr ! nat (ce_type e cb) = Some cb" using assms(1) by (auto simp: array_ok_def)
qed

lemma sorted_members: "sorted_by_deps e arr cbs \<Longrightarrow> cb \<in> set cbs \<Longrightarrow> Some cb \<in> set arr"
  by (induction cbs) auto

lemma inOrder_type:
  assumes "array_ok e arr" and "dfs_inv e arr flag vec stk" and "i < PMD_CB_MAX" and "arr ! i = Some cb"
  shows "isInOrder cb vec \<longleftrightarrow> i \<in> types e vec"
proof
  have ty: "ce_type e cb = int i" using assms(1,3,4) by (simp add: array_ok_def)
  then show "isInOrder cb vec \<Longrightarrow> i \<in> types e vec" by (force simp: isInOrder_def types_def)
  assume "i \<in> types e vec"
  then obtain x where x: "x \<in> set vec" "nat (ce_type e (fst x)) = i" by (auto simp: types_def)
  have "Some (fst x) \<in> set arr" using assms(2) x(1) sorted_members [of e arr "rev (map fst vec)" "fst x"] by (simp add: dfs_inv_def)
  then have "fst x = cb" using registered(3) [OF assms(1), of "fst x"] x(2) assms(4) by simp
  then show "isInOrder cb vec" using x(1) by (auto simp: isInOrder_def)
qed


section \<open>The sort is correct\<close>

definition left :: "bool list \<Rightarrow> nat" where
  "left flag = card {i. i < PMD_CB_MAX \<and> \<not> flag ! i}"

lemma left_set: "length flag = PMD_CB_MAX \<Longrightarrow> i < PMD_CB_MAX \<Longrightarrow> \<not> flag ! i \<Longrightarrow> Suc (left (flag[i := True])) = left flag"
proof -
  assume a: "length flag = PMD_CB_MAX" "i < PMD_CB_MAX" "\<not> flag ! i"
  then have "{j. j < PMD_CB_MAX \<and> \<not> flag[i := True] ! j} = {j. j < PMD_CB_MAX \<and> \<not> flag ! j} - {i}" by (auto simp: nth_list_update)
  then show ?thesis unfolding left_def using card_Suc_Diff1 [of "{j. j < PMD_CB_MAX \<and> \<not> flag ! j}" i] a by simp
qed

definition goesOn :: "cbEnv \<Rightarrow> nat option list \<Rightarrow> nat set \<Rightarrow> bool list \<Rightarrow> (nat \<times> PMD_CB_OPR_STAT) list \<Rightarrow> nat set \<Rightarrow>
    (rc \<times> bool list \<times> (nat \<times> PMD_CB_OPR_STAT) list) option \<Rightarrow> bool" where
  "goesOn e arr stk flag vec new r \<longleftrightarrow>
     (\<exists>rc flag' vec'. r = Some (rc, flag', vec') \<and> (rc \<noteq> SDB_OK \<longrightarrow> bad e arr)
        \<and> (rc = SDB_OK \<longrightarrow> dfs_inv e arr flag' vec' stk \<and> types e vec \<union> new \<subseteq> types e vec' \<and> left flag' \<le> left flag \<and> set vec \<subseteq> set vec'))"

lemma goesOn_trans:
  assumes "goesOn e arr stk f1 v1 B r" and "types e vec \<union> A \<subseteq> types e v1" and "left f1 \<le> left flag" and "set vec \<subseteq> set v1"
  shows "goesOn e arr stk flag vec (A \<union> B) r"
proof -
  obtain rc f v where r: "r = Some (rc, f, v)" "rc \<noteq> SDB_OK \<longrightarrow> bad e arr"
    "rc = SDB_OK \<longrightarrow> dfs_inv e arr f v stk \<and> types e v1 \<union> B \<subseteq> types e v \<and> left f \<le> left f1 \<and> set v1 \<subseteq> set v"
    using assms(1) by (auto simp: goesOn_def)
  then have "rc = SDB_OK \<longrightarrow> dfs_inv e arr f v stk \<and> types e vec \<union> (A \<union> B) \<subseteq> types e v \<and> left f \<le> left flag \<and> set vec \<subseteq> set v"
    using assms(2-4) by (meson le_sup_iff order_trans)
  then show ?thesis using r(1,2) unfolding goesOn_def by blast
qed

lemma push_inv:
  assumes "dfs_inv e arr flag vec stk" and "i < PMD_CB_MAX" and "\<not> flag ! i"
  shows "dfs_inv e arr (flag[i := True]) vec (insert i stk)" "i \<notin> types e vec" "i \<notin> stk"
  using assms by (auto simp: dfs_inv_def nth_list_update)

lemma types_snoc: "types e (vec @ [(cb, st)]) = insert (nat (ce_type e cb)) (types e vec)"
  by (auto simp: types_def)

text \<open>A control block whose dependencies are all in the order is put behind them.\<close>

lemma pop_inv:
  assumes arr: "array_ok e arr" and cb: "Some cb \<in> set arr" and i: "i = nat (ce_type e cb)" "i \<notin> stk" and inv: "dfs_inv e arr flag vec (insert i stk)"
    and deps: "\<forall>d\<in>set (ce_deps e cb). 0 \<le> d \<and> d < int PMD_CB_MAX \<and> nat d \<in> types e vec \<and> arr ! nat d \<noteq> None"
  shows "dfs_inv e arr flag (vec @ [(cb, CB_OPR_NULL)]) stk"
proof -
  have iv: "i \<notin> types e vec" using inv by (auto simp: dfs_inv_def)
  have "arr ! i = Some cb" "i < PMD_CB_MAX" using registered [OF arr cb] i(1) by auto
  then have new: "cb \<notin> set (map fst vec)" using inOrder_type [OF arr inv, of i cb] iv by (simp add: isInOrder_def)
  have "\<exists>dcb\<in>set (map fst vec). arr ! nat d = Some dcb" if d: "d \<in> set (ce_deps e cb)" for d
  proof -
    obtain dcb where dcb: "arr ! nat d = Some dcb" "nat d < PMD_CB_MAX" "nat d \<in> types e vec" using deps d by auto
    then show ?thesis using inOrder_type [OF arr inv dcb(2,1)] by (auto simp: isInOrder_def)
  qed
  then have "sorted_by_deps e arr (rev (map fst (vec @ [(cb, CB_OPR_NULL)])))" using inv cb new deps by (auto simp: dfs_inv_def)
  moreover have "types e (vec @ [(cb, CB_OPR_NULL)]) = insert i (types e vec)" by (simp add: types_snoc i(1))
  ultimately show ?thesis using inv i(2) by (auto simp: dfs_inv_def)
qed

lemma dfs:
  "array_ok e arr \<Longrightarrow> Some cb \<in> set arr \<Longrightarrow> st = (flag, vec) \<Longrightarrow> dfs_inv e arr flag vec stk \<Longrightarrow> nat (ce_type e cb) \<notin> types e vec \<Longrightarrow>
     \<forall>x\<in>stk. (depOn e arr)\<^sup>+\<^sup>+ x (nat (ce_type e cb)) \<Longrightarrow> left flag < n \<Longrightarrow> goesOn e arr stk flag vec {nat (ce_type e cb)} (addDependencyCB n e arr cb st)"
  "array_ok e arr \<Longrightarrow> Some c0 \<in> set arr \<Longrightarrow> st = (flag, vec) \<Longrightarrow> set ds \<subseteq> set (ce_deps e c0) \<Longrightarrow> dfs_inv e arr flag vec stk \<Longrightarrow>
     \<forall>x\<in>stk. x = nat (ce_type e c0) \<or> (depOn e arr)\<^sup>+\<^sup>+ x (nat (ce_type e c0)) \<Longrightarrow> left flag < n \<Longrightarrow>
     goesOn e arr stk flag vec (nat ` set ds) (addDependencies n e arr ds st)
     \<and> (\<forall>flag' vec'. addDependencies n e arr ds st = Some (SDB_OK, flag', vec') \<longrightarrow> (\<forall>d\<in>set ds. 0 \<le> d \<and> d < int PMD_CB_MAX \<and> arr ! nat d \<noteq> None))"
proof (induction n e arr cb st and n e arr ds st arbitrary: flag vec stk and flag vec stk c0 rule: addDependencyCB_addDependencies.induct)
  case (2 n e arr cb flag0 vec0)
  have st: "flag0 = flag" "vec0 = vec" using "2.prems"(3) by simp_all
  let ?i = "nat (ce_type e cb)"
  note R = registered [OF "2.prems"(1,2)]
  have i: "?i < PMD_CB_MAX" using R by simp
  show ?case
  proof (cases "flag ! ?i")
    case True
    then have "?i \<in> stk" using "2.prems"(4,5) i by (auto simp: dfs_inv_def)
    then have "bad e arr" using "2.prems"(6) by (auto simp: bad_def)
    then show ?thesis using True by (simp add: st goesOn_def)
  next
    case False
    note P = push_inv [OF "2.prems"(4) i False]
    have lf: "Suc (left (flag[?i := True])) = left flag" using left_set [of flag ?i] "2.prems"(4) i False by (simp add: dfs_inv_def)
    have IH: "goesOn e arr (insert ?i stk) (flag[?i := True]) vec (nat ` set (ce_deps e cb)) (addDependencies n e arr (ce_deps e cb) (flag[?i := True], vec))
       \<and> (\<forall>flag' vec'. addDependencies n e arr (ce_deps e cb) (flag[?i := True], vec) = Some (SDB_OK, flag', vec') \<longrightarrow> (\<forall>d\<in>set (ce_deps e cb). 0 \<le> d \<and> d < int PMD_CB_MAX \<and> arr ! nat d \<noteq> None))"
      by (rule "2.IH" [unfolded st, OF False "2.prems"(1,2) refl subset_refl P(1)]) (use "2.prems"(6,7) lf in auto)
    then obtain rc f1 v1 where r: "addDependencies n e arr (ce_deps e cb) (flag[?i := True], vec) = Some (rc, f1, v1)" by (auto simp: goesOn_def)
    show ?thesis
    proof (cases "rc = SDB_OK")
      case False
      then show ?thesis using IH r \<open>\<not> flag ! ?i\<close> by (auto simp: st goesOn_def)
    next
      case True
      have g: "dfs_inv e arr f1 v1 (insert ?i stk)" "types e vec \<union> (nat ` set (ce_deps e cb)) \<subseteq> types e v1" "left f1 \<le> left (flag[?i := True])" "set vec \<subseteq> set v1"
        using IH r True by (auto simp: goesOn_def)
      have "\<forall>d\<in>set (ce_deps e cb). 0 \<le> d \<and> d < int PMD_CB_MAX \<and> nat d \<in> types e v1 \<and> arr ! nat d \<noteq> None" using IH r True g(2) by auto
      from pop_inv [OF "2.prems"(1,2) refl P(3) g(1) this] show ?thesis
        using r True \<open>\<not> flag ! ?i\<close> g lf by (auto simp: st goesOn_def types_snoc)
    qed
  qed
next
  case (4 n e arr d ds flag0 vec0)
  have st: "flag0 = flag" "vec0 = vec" using "4.prems"(3) by simp_all
  let ?i = "nat (ce_type e c0)"
  note R = registered [OF "4.prems"(1,2)]
  show ?case
  proof (cases "d < 0 \<or> d \<ge> int PMD_CB_MAX \<or> arr ! nat d = None")
    case True
    then have "\<not> (0 \<le> d \<and> d < int PMD_CB_MAX \<and> arr ! nat d \<noteq> None)" by auto
    moreover have "d \<in> set (ce_deps e c0)" using "4.prems"(4) by simp
    ultimately have "\<not> depsKnown e arr" using "4.prems"(2) unfolding depsKnown_def by blast
    then show ?thesis using True by (auto simp: goesOn_def bad_def)
  next
    case False
    then obtain dcb where dcb: "arr ! nat d = Some dcb" by auto
    have j: "nat d < PMD_CB_MAX" and nd: "\<not> (d < 0 \<or> int PMD_CB_MAX \<le> d)" using False by auto
    have ds: "set ds \<subseteq> set (ce_deps e c0)" using "4.prems"(4) by simp
    have ty: "ce_type e dcb = d" using "4.prems"(1) dcb j False by (auto simp: array_ok_def)
    have mem: "Some dcb \<in> set arr" using dcb j "4.prems"(1) nth_mem [of "nat d" arr] by (simp add: array_ok_def)
    show ?thesis
    proof (cases "isInOrder dcb vec")
      case True
      have t: "nat d \<in> types e vec" using inOrder_type [OF "4.prems"(1,5) j dcb] True by simp
      have IH: "goesOn e arr stk flag vec (nat ` set ds) (addDependencies n e arr ds (flag, vec))
         \<and> (\<forall>flag' vec'. addDependencies n e arr ds (flag, vec) = Some (SDB_OK, flag', vec') \<longrightarrow> (\<forall>x\<in>set ds. 0 \<le> x \<and> x < int PMD_CB_MAX \<and> arr ! nat x \<noteq> None))"
        by (rule "4.IH"(1) [unfolded st, OF nd dcb True "4.prems"(1,2) refl ds "4.prems"(5,6,7)])
      have e: "addDependencies n e arr (d # ds) (flag0, vec0) = addDependencies n e arr ds (flag, vec)" using False dcb True by (simp add: st)
      have "goesOn e arr stk flag vec ({nat d} \<union> nat ` set ds) (addDependencies n e arr ds (flag, vec))"
        by (rule goesOn_trans [OF conjunct1 [OF IH]]) (use t in auto)
      then show ?thesis using conjunct2 [OF IH] False unfolding e by simp
    next
      case no: False
      have nt: "nat d \<notin> types e vec" using inOrder_type [OF "4.prems"(1,5) j dcb] no by simp
      have "depOn e arr ?i (nat d)" using R dcb j False "4.prems"(4) by (auto simp: depOn_def)
      then have reach: "\<forall>x\<in>stk. (depOn e arr)\<^sup>+\<^sup>+ x (nat (ce_type e dcb))" using "4.prems"(6) ty by (auto intro: tranclp.trancl_into_trancl)
      have IH1: "goesOn e arr stk flag vec {nat (ce_type e dcb)} (addDependencyCB n e arr dcb (flag, vec))"
        by (rule "4.IH"(2) [unfolded st, OF nd dcb no "4.prems"(1) mem refl "4.prems"(5) _ reach "4.prems"(7)]) (simp add: ty nt)
      then obtain rc f1 v1 where r: "addDependencyCB n e arr dcb (flag, vec) = Some (rc, f1, v1)" by (auto simp: goesOn_def)
      show ?thesis
      proof (cases "rc = SDB_OK")
        case False
        then show ?thesis using IH1 r no dcb \<open>\<not> (d < 0 \<or> d \<ge> int PMD_CB_MAX \<or> arr ! nat d = None)\<close> by (auto simp: st goesOn_def)
      next
        case ok: True
        have g: "dfs_inv e arr f1 v1 stk" "types e vec \<union> {nat d} \<subseteq> types e v1" "left f1 \<le> left flag" "set vec \<subseteq> set v1" using IH1 r ok ty by (auto simp: goesOn_def)
        have IH2: "goesOn e arr stk f1 v1 (nat ` set ds) (addDependencies n e arr ds (f1, v1))
           \<and> (\<forall>flag' vec'. addDependencies n e arr ds (f1, v1) = Some (SDB_OK, flag', vec') \<longrightarrow> (\<forall>x\<in>set ds. 0 \<le> x \<and> x < int PMD_CB_MAX \<and> arr ! nat x \<noteq> None))"
          by (rule "4.IH"(3) [unfolded st, OF nd dcb no r refl refl _ "4.prems"(1,2) refl ds g(1) "4.prems"(6)]) (use ok g(3) "4.prems"(7) in simp_all)
        have e: "addDependencies n e arr (d # ds) (flag0, vec0) = addDependencies n e arr ds (f1, v1)" using False dcb no r ok by (simp add: st)
        have "goesOn e arr stk flag vec ({nat d} \<union> nat ` set ds) (addDependencies n e arr ds (f1, v1))"
          by (rule goesOn_trans [OF conjunct1 [OF IH2] g(2-4)])
        then show ?thesis using conjunct2 [OF IH2] False unfolding e by simp
      qed
    qed
  qed
qed (auto simp: goesOn_def)


lemma checkLoop_goes:
  assumes arr: "array_ok e arr"
  shows "dfs_inv e arr flag vec {} \<Longrightarrow> left flag < n \<Longrightarrow> set is \<subseteq> {..<PMD_CB_MAX} \<Longrightarrow>
    goesOn e arr {} flag vec {i \<in> set is. arr ! i \<noteq> None} (checkLoop n e arr is (flag, vec))"
proof (induction "is" arbitrary: flag vec)
  case (Cons i "is")
  have i: "i < PMD_CB_MAX" using Cons.prems(3) by simp
  have skip: "goesOn e arr {} flag vec ({j. j = i \<and> arr ! i \<noteq> None} \<union> {i \<in> set is. arr ! i \<noteq> None}) (checkLoop n e arr is (flag, vec))"
    if "arr ! i = None \<or> i \<in> types e vec"
    by (rule goesOn_trans [OF Cons.IH [OF Cons.prems(1,2)]]) (use Cons.prems(3) that in auto)
  have set_Cons: "{j \<in> set (i # is). arr ! j \<noteq> None} = {j. j = i \<and> arr ! i \<noteq> None} \<union> {i \<in> set is. arr ! i \<noteq> None}" by auto
  have flag: "flag ! i \<longleftrightarrow> i \<in> types e vec" using Cons.prems(1) i by (simp add: dfs_inv_def)
  show ?case
  proof (cases "arr ! i")
    case None
    then have "checkLoop n e arr (i # is) (flag, vec) = checkLoop n e arr is (flag, vec)" by simp
    then show ?thesis using skip [OF disjI1 [OF None]] by (simp only: set_Cons)
  next
    case (Some cb)
    have ty: "nat (ce_type e cb) = i" and cb: "Some cb \<in> set arr"
      using arr i Some nth_mem [of i arr] by (auto simp: array_ok_def)
    show ?thesis
    proof (cases "flag ! i")
      case True
      then have "checkLoop n e arr (i # is) (flag, vec) = checkLoop n e arr is (flag, vec)" using Some by simp
      then show ?thesis using skip [OF disjI2] flag True by (simp only: set_Cons)
    next
      case False
      then have "i \<notin> types e vec" using flag by simp
      then have step: "goesOn e arr {} flag vec {i} (addDependencyCB n e arr cb (flag, vec))"
        using dfs(1) [OF arr cb refl Cons.prems(1), of n] Cons.prems(2) by (simp add: ty)
      then obtain rc f1 v1 where r: "addDependencyCB n e arr cb (flag, vec) = Some (rc, f1, v1)" by (auto simp: goesOn_def)
      have e: "checkLoop n e arr (i # is) (flag, vec) = (if rc \<noteq> SDB_OK then Some (rc, f1, v1) else checkLoop n e arr is (f1, v1))"
        using Some False r by simp
      show ?thesis
      proof (cases "rc = SDB_OK")
        case True
        have g: "dfs_inv e arr f1 v1 {}" "types e vec \<union> {i} \<subseteq> types e v1" "left f1 \<le> left flag" "set vec \<subseteq> set v1"
          using step r True by (auto simp: goesOn_def)
        have "goesOn e arr {} flag vec ({i} \<union> {i \<in> set is. arr ! i \<noteq> None}) (checkLoop n e arr is (f1, v1))"
          by (rule goesOn_trans [OF Cons.IH [OF g(1)] g(2-4)]) (use g(3) Cons.prems(2,3) in auto)
        moreover have "{j. j = i \<and> arr ! i \<noteq> None} = {i}" using Some by auto
        ultimately show ?thesis using True unfolding e set_Cons by simp
      next
        case False
        then show ?thesis using step r unfolding e by (auto simp: goesOn_def)
      qed
    qed
  qed
qed (simp add: goesOn_def)

text \<open>A sorted list is closed under dependency, so that no type in it depends on itself.\<close>

lemma sorted_closed:
  assumes "array_ok e arr" "sorted_by_deps e arr cbs" "cb \<in> set cbs" "depOn e arr (nat (ce_type e cb)) j"
  shows "\<exists>c\<in>set cbs. arr ! j = Some c"
  using assms(2,3)
proof (induction cbs)
  case (Cons c cbs)
  show ?case
  proof (cases "cb = c")
    case True
    have "arr ! nat (ce_type e cb) = Some cb" using registered(3) [OF assms(1)] Cons.prems(1) True by simp
    then have "int j \<in> set (ce_deps e c)" using assms(4) True by (simp add: depOn_def)
    then show ?thesis using Cons.prems(1) by fastforce
  next
    case False
    then show ?thesis using Cons by auto
  qed
qed simp

lemma sorted_closed_trancl:
  assumes "array_ok e arr" "sorted_by_deps e arr cbs" "cb \<in> set cbs" and path: "(depOn e arr)\<^sup>+\<^sup>+ (nat (ce_type e cb)) j"
  shows "\<exists>c\<in>set cbs. arr ! j = Some c"
  using path
proof (induction rule: tranclp_induct)
  case (base j)
  then show ?case by (rule sorted_closed [OF assms(1-3)])
next
  case (step i j)
  then obtain c where c: "c \<in> set cbs" "arr ! i = Some c" by blast
  then have "nat (ce_type e c) = i" using step.hyps(2) assms(1) by (auto simp: depOn_def array_ok_def)
  then show ?case using sorted_closed [OF assms(1,2) c(1)] step.hyps(2) by simp
qed

lemma sorted_acyclic:
  assumes arr: "array_ok e arr"
  shows "sorted_by_deps e arr cbs \<Longrightarrow> cb \<in> set cbs \<Longrightarrow> \<not> (depOn e arr)\<^sup>+\<^sup>+ (nat (ce_type e cb)) (nat (ce_type e cb))"
proof (induction cbs)
  case (Cons c cbs)
  show ?case
  proof (cases "cb \<in> set cbs")
    case True
    then show ?thesis using Cons by simp
  next
    case False
    then have cb: "cb = c" "c \<notin> set cbs" using Cons.prems by auto
    have self: "arr ! nat (ce_type e c) = Some c" using registered(3) [OF arr] Cons.prems(1) by simp
    have first: "\<exists>b\<in>set cbs. arr ! j = Some b" if d: "depOn e arr (nat (ce_type e c)) j" for j
    proof -
      have "int j \<in> set (ce_deps e c)" using d self by (simp add: depOn_def)
      then show ?thesis using Cons.prems(1) by fastforce
    qed
    have "\<exists>b\<in>set cbs. arr ! j = Some b" if path: "(depOn e arr)\<^sup>+\<^sup>+ (nat (ce_type e c)) j" for j
      using path
    proof (induction rule: tranclp_induct)
      case (step i j)
      then obtain b where b: "b \<in> set cbs" "arr ! i = Some b" by blast
      then have "nat (ce_type e b) = i" using step.hyps(2) arr by (auto simp: depOn_def array_ok_def)
      then show ?case using sorted_closed [OF arr _ b(1)] Cons.prems(1) step.hyps(2) by simp
    qed (rule first)
    then show ?thesis using self cb by force
  qed
qed simp

text \<open>Each control block once, behind those it depends on.\<close>

definition dependency_order :: "cbEnv \<Rightarrow> nat option list \<Rightarrow> nat list \<Rightarrow> bool" where
  "dependency_order e arr cbs \<longleftrightarrow> distinct cbs \<and> set cbs = {cb. Some cb \<in> set arr}
     \<and> (\<forall>k<length cbs. \<forall>d\<in>set (ce_deps e (cbs ! k)). \<exists>l<k. arr ! nat d = Some (cbs ! l))"

lemma sorted_index:
  "sorted_by_deps e arr (rev cbs) \<Longrightarrow> k < length cbs \<Longrightarrow> d \<in> set (ce_deps e (cbs ! k)) \<Longrightarrow> \<exists>l<k. arr ! nat d = Some (cbs ! l)"
proof (induction cbs rule: rev_induct)
  case (snoc c cbs)
  show ?case
  proof (cases "k < length cbs")
    case True
    then obtain l where "l < k" "arr ! nat d = Some (cbs ! l)" using snoc by (auto simp: nth_append)
    then show ?thesis using True by (intro exI [of _ l]) (simp add: nth_append)
  next
    case False
    then have k: "k = length cbs" using snoc.prems(2) by simp
    then obtain b where "b \<in> set cbs" "arr ! nat d = Some b" using snoc.prems(1,3) by (force simp: nth_append)
    then show ?thesis unfolding k in_set_conv_nth by (auto simp: nth_append)
  qed
qed simp

lemma sorted_distinct: "sorted_by_deps e arr cbs \<Longrightarrow> distinct cbs"
  by (induction cbs) auto

lemma types_member:
  assumes "array_ok e arr" "sorted_by_deps e arr (rev (map fst vec))" "arr ! i = Some cb" "i \<in> types e vec" "i < PMD_CB_MAX"
  shows "cb \<in> set (map fst vec)"
proof -
  obtain x where x: "x \<in> set vec" "nat (ce_type e (fst x)) = i" using assms(4) by (auto simp: types_def)
  then have "Some (fst x) \<in> set arr" using sorted_members [OF assms(2)] by simp
  then show ?thesis using registered(3) [OF assms(1)] x assms(3) by fastforce
qed

lemma sort_result:
  assumes arr: "array_ok e arr"
  shows "\<exists>rc flag vec. checkLoop (Suc PMD_CB_MAX) e arr [0..<PMD_CB_MAX] (replicate PMD_CB_MAX False, []) = Some (rc, flag, vec)
    \<and> (rc = SDB_OK \<longleftrightarrow> \<not> bad e arr) \<and> (rc = SDB_OK \<longrightarrow> dependency_order e arr (map fst vec))"
proof -
  have inv: "dfs_inv e arr (replicate PMD_CB_MAX False) [] {}" by (simp add: dfs_inv_def types_def)
  have "left (replicate PMD_CB_MAX False) \<le> card {..<PMD_CB_MAX}" unfolding left_def by (rule card_mono) auto
  then have "goesOn e arr {} (replicate PMD_CB_MAX False) [] {i \<in> set [0..<PMD_CB_MAX]. arr ! i \<noteq> None}
      (checkLoop (Suc PMD_CB_MAX) e arr [0..<PMD_CB_MAX] (replicate PMD_CB_MAX False, []))"
    by (intro checkLoop_goes [OF arr inv]) auto
  then obtain rc flag vec where r: "checkLoop (Suc PMD_CB_MAX) e arr [0..<PMD_CB_MAX] (replicate PMD_CB_MAX False, []) = Some (rc, flag, vec)"
      "rc \<noteq> SDB_OK \<longrightarrow> bad e arr" "rc = SDB_OK \<longrightarrow> dfs_inv e arr flag vec {} \<and> {i \<in> set [0..<PMD_CB_MAX]. arr ! i \<noteq> None} \<subseteq> types e vec"
    unfolding goesOn_def by blast
  have "dependency_order e arr (map fst vec) \<and> \<not> bad e arr" if ok: "rc = SDB_OK"
  proof
    have s: "sorted_by_deps e arr (rev (map fst vec))" and all: "{i \<in> set [0..<PMD_CB_MAX]. arr ! i \<noteq> None} \<subseteq> types e vec"
      using r(3) ok by (auto simp: dfs_inv_def)
    have mem: "cb \<in> set (map fst vec)" if cb: "Some cb \<in> set arr" for cb
    proof -
      note R = registered [OF arr cb]
      have i: "nat (ce_type e cb) < PMD_CB_MAX" using R by simp
      then have "nat (ce_type e cb) \<in> types e vec" using all R(3) by auto
      then show ?thesis by (rule types_member [OF arr s R(3) _ i])
    qed
    have set: "set (map fst vec) = {cb. Some cb \<in> set arr}" using mem sorted_members [OF s] by auto
    then show "dependency_order e arr (map fst vec)"
      unfolding dependency_order_def using sorted_distinct [OF s] sorted_index [OF s] by simp
    have "depsKnown e arr"
      unfolding depsKnown_def
    proof (intro allI impI ballI)
      fix cb d assume "Some cb \<in> set arr" "d \<in> set (ce_deps e cb)"
      moreover have "sorted_by_deps e arr cbs \<Longrightarrow> cb \<in> set cbs \<Longrightarrow> d \<in> set (ce_deps e cb) \<Longrightarrow> 0 \<le> d \<and> d < int PMD_CB_MAX \<and> arr ! nat d \<noteq> None" for cbs
        by (induction cbs) auto
      ultimately show "0 \<le> d \<and> d < int PMD_CB_MAX \<and> arr ! nat d \<noteq> None" using s mem by auto
    qed
    moreover have "\<not> (depOn e arr)\<^sup>+\<^sup>+ i i" for i
    proof
      assume c: "(depOn e arr)\<^sup>+\<^sup>+ i i"
      then obtain j where "depOn e arr i j" by (meson tranclpD)
      then obtain cb where cb: "i < PMD_CB_MAX" "arr ! i = Some cb" by (auto simp: depOn_def)
      then have "Some cb \<in> set arr" "nat (ce_type e cb) = i" using arr nth_mem [of i arr] by (auto simp: array_ok_def)
      then show False using sorted_acyclic [OF arr s, of cb] mem c by simp
    qed
    ultimately show "\<not> bad e arr" by (simp add: bad_def)
  qed
  then show ?thesis using r(1,2) by blast
qed


text \<open>C21: \<open>_checkDependency\<close> on a container whose control blocks are registered under their types succeeds if and only if every dependency is registered and
  no control block depends on itself, directly or through others; then the order holds every registered control block exactly once, each behind
  the ones it depends on.  A recursion depth of one more than the number of types is enough.\<close>
theorem checkDependency_sorts:
  assumes "array_ok e (co_arrayCB c)" and "co_vecCB c = []" and "\<not> co_hasChecked c"
  shows "\<exists>rc c'. checkDependency (Suc PMD_CB_MAX) e c = Some (rc, c') \<and> co_arrayCB c' = co_arrayCB c
    \<and> (rc = SDB_OK \<longleftrightarrow> depsKnown e (co_arrayCB c) \<and> (\<nexists>i. (depOn e (co_arrayCB c))\<^sup>+\<^sup>+ i i))
    \<and> (rc = SDB_OK \<longrightarrow> co_hasChecked c' \<and> dependency_order e (co_arrayCB c) (map fst (co_vecCB c')))"
proof -
  obtain rc flag vec where r: "checkLoop (Suc PMD_CB_MAX) e (co_arrayCB c) [0..<PMD_CB_MAX] (replicate PMD_CB_MAX False, []) = Some (rc, flag, vec)"
      "rc = SDB_OK \<longleftrightarrow> \<not> bad e (co_arrayCB c)" "rc = SDB_OK \<longrightarrow> dependency_order e (co_arrayCB c) (map fst vec)"
    using sort_result [OF assms(1)] by blast
  have "checkDependency (Suc PMD_CB_MAX) e c =
      Some (rc, if rc = SDB_OK then c\<lparr>co_vecCB := vec, co_hasChecked := True\<rparr> else c\<lparr>co_vecCB := vec\<rparr>)"
    using assms(2,3) r(1) by (simp add: checkDependency_def del: upt_conv_Cons replicate.simps checkLoop.simps)
  then show ?thesis using r(2,3) by (auto simp: bad_def)
qed

definition demo_env :: cbEnv where
  "demo_env = \<lparr> ce_type = int, ce_deps = (\<lambda>cb. if cb = 1 then [2] else []), ce_init = (\<lambda>cb. 0), ce_active = (\<lambda>cb. 0), ce_iosvc = (\<lambda>cb. []), ce_main = (\<lambda>cb. True),
     ce_startIO = (\<lambda>s. 0), ce_startMain = (\<lambda>cb. 0) \<rparr>"

definition demo_container :: pmdContainer where
  "demo_container = \<lparr> co_arrayCB = [None, Some 1, Some 2], co_vecCB = [], co_hasChecked = False \<rparr>"

lemma demo_array: "array_ok demo_env (co_arrayCB demo_container)"
  by (auto simp: array_ok_def demo_env_def demo_container_def less_Suc_eq numeral_3_eq_3)

theorem checkDependency_sorts_witness:
  "checkDependency (Suc PMD_CB_MAX) demo_env demo_container =
     Some (SDB_OK, demo_container\<lparr>co_vecCB := [(2, CB_OPR_NULL), (1, CB_OPR_NULL)], co_hasChecked := True\<rparr>)
   \<and> dependency_order demo_env (co_arrayCB demo_container) [2, 1]"
proof -
  have r: "checkDependency (Suc PMD_CB_MAX) demo_env demo_container =
      Some (SDB_OK, demo_container\<lparr>co_vecCB := [(2, CB_OPR_NULL), (1, CB_OPR_NULL)], co_hasChecked := True\<rparr>)"
    by code_simp
  then show ?thesis
    using checkDependency_sorts [OF demo_array] by (simp add: demo_container_def)
qed

end
