(* ===== verification/Pmd_Controller.thy ===== *)
theory Pmd_Controller
  imports Pmd_Container
begin

text \<open>
  Starting and stopping a node: the loops of the container over its control blocks (\<open>src/src/pmd/pmdContainer.cpp\<close>), the factory of control blocks
  (\<open>pmdCBFactory.cpp\<close>), the table of published interfaces (\<open>pmdIFAdapter.cpp\<close>) and the controller that puts them together (\<open>pmdController.cpp\<close>).  The
  operations return the calls they make to the control blocks, the EDU manager and the callback of the program, in order.
\<close>

section \<open>The loops of the container\<close>

datatype nodeCall =
    CSetResource nat | CInit nat | CActive nat | CDeactive nat | CFini nat | CStartIO nat | CStartMain nat
  | CAttach | CPreStart | CPostStart | CRunTimer | CQuit | CSetActive bool | CPreStop | CDeadCheck int | CPreEDUStop | CEDUFini int | CPostEDUStop | CPostStop
  | CPanic | CStopDeadCheck | CShutdown rc | CDetach | CConfigChange nat | CConfigSave nat

type_synonym cbItems = "(nat \<times> PMD_CB_OPR_STAT) list"

fun initItems :: "cbEnv \<Rightarrow> cbItems \<Rightarrow> rc \<times> nodeCall list \<times> cbItems" where
  "initItems e [] = (SDB_OK, [], [])"
| "initItems e ((cb, st) # items) =
     (if st \<noteq> CB_OPR_NULL then (case initItems e items of (rc, tr, items') \<Rightarrow> (rc, tr, (cb, st) # items'))
      else if ce_init e cb \<noteq> SDB_OK then (ce_init e cb, [CSetResource cb, CInit cb], (cb, st) # items)
      else (case initItems e items of (rc, tr, items') \<Rightarrow> (rc, [CSetResource cb, CInit cb] @ tr, (cb, CB_OPR_INIT) # items')))"

definition initCB :: "nat \<Rightarrow> cbEnv \<Rightarrow> pmdContainer \<Rightarrow> (rc \<times> nodeCall list \<times> pmdContainer) option" where
  "initCB n e c =
     (case checkDependency n e c of
        None \<Rightarrow> None
      | Some (rc, c1) \<Rightarrow>
          if rc \<noteq> SDB_OK then Some (rc, [], c1)
          else (case initItems e (co_vecCB c1) of (rc2, tr, items) \<Rightarrow> Some (rc2, tr, c1\<lparr>co_vecCB := items\<rparr>)))"

fun activeItems :: "cbEnv \<Rightarrow> cbItems \<Rightarrow> rc \<times> nodeCall list \<times> cbItems" where
  "activeItems e [] = (SDB_OK, [], [])"
| "activeItems e ((cb, st) # items) =
     (if st = CB_OPR_ACTIVE then (case activeItems e items of (rc, tr, items') \<Rightarrow> (rc, tr, (cb, st) # items'))
      else if ce_active e cb \<noteq> SDB_OK then (ce_active e cb, [CActive cb], (cb, st) # items)
      else (case activeItems e items of (rc, tr, items') \<Rightarrow> (rc, CActive cb # tr, (cb, CB_OPR_ACTIVE) # items')))"

fun startIO :: "cbEnv \<Rightarrow> nat list \<Rightarrow> rc \<times> nodeCall list" where
  "startIO e [] = (SDB_OK, [])"
| "startIO e (s # ss) = (if ce_startIO e s \<noteq> SDB_OK then (ce_startIO e s, [CStartIO s]) else (case startIO e ss of (rc, tr) \<Rightarrow> (rc, CStartIO s # tr)))"

fun postActive :: "cbEnv \<Rightarrow> nat list \<Rightarrow> rc \<times> nodeCall list" where
  "postActive e [] = (SDB_OK, [])"
| "postActive e (cb # cbs) =
     (case startIO e (ce_iosvc e cb) of (rc, tr) \<Rightarrow>
        if rc \<noteq> SDB_OK then (rc, tr)
        else if ce_main e cb
          then (if ce_startMain e cb \<noteq> SDB_OK then (ce_startMain e cb, tr @ [CStartMain cb])
                else (case postActive e cbs of (rc2, tr2) \<Rightarrow> (rc2, tr @ [CStartMain cb] @ tr2)))
          else (case postActive e cbs of (rc2, tr2) \<Rightarrow> (rc2, tr @ tr2)))"

definition activeCB :: "cbEnv \<Rightarrow> pmdContainer \<Rightarrow> rc \<times> nodeCall list \<times> pmdContainer" where
  "activeCB e c =
     (case activeItems e (co_vecCB c) of (rc, tr, items) \<Rightarrow>
        if rc \<noteq> SDB_OK then (rc, tr, c\<lparr>co_vecCB := items\<rparr>)
        else (case postActive e (map fst items) of (rc2, tr2) \<Rightarrow> (rc2, tr @ tr2, c\<lparr>co_vecCB := items\<rparr>)))"

text \<open>The loops from the back; what \<open>deactive\<close> and \<open>fini\<close> answer does not matter.\<close>

definition deactiveCB :: "pmdContainer \<Rightarrow> nodeCall list \<times> pmdContainer" where
  "deactiveCB c = ([CDeactive cb. (cb, st) \<leftarrow> rev (co_vecCB c), st = CB_OPR_ACTIVE],
     c\<lparr>co_vecCB := map (\<lambda>(cb, st). (cb, if st = CB_OPR_ACTIVE then CB_OPR_INIT else st)) (co_vecCB c)\<rparr>)"

definition finiCB :: "pmdContainer \<Rightarrow> nodeCall list \<times> pmdContainer" where
  "finiCB c = ([CFini cb. (cb, st) \<leftarrow> rev (co_vecCB c), st \<noteq> CB_OPR_NULL],
     c\<lparr>co_vecCB := map (\<lambda>(cb, st). (cb, if st \<noteq> CB_OPR_NULL then CB_OPR_NULL else st)) (co_vecCB c)\<rparr>)"

definition container_onConfigChange :: "pmdContainer \<Rightarrow> nodeCall list" where
  "container_onConfigChange c = map (\<lambda>it. CConfigChange (fst it)) (co_vecCB c)"

definition container_onConfigSave :: "pmdContainer \<Rightarrow> nodeCall list" where
  "container_onConfigSave c = map (\<lambda>it. CConfigSave (fst it)) (co_vecCB c)"

section \<open>The factory and the published interfaces\<close>

text \<open>The map by type is iterated in the order of its keys, the one by name is only searched.  Functions are numbers.\<close>

record pmdCBFactory =
  fa_type :: "(int \<times> nat \<times> nat) list"
  fa_name :: "(string \<times> nat \<times> nat) list"

definition cbfactory_registerCB :: "int \<Rightarrow> string \<Rightarrow> nat \<Rightarrow> nat \<Rightarrow> pmdCBFactory \<Rightarrow> bool \<times> pmdCBFactory" where
  "cbfactory_registerCB ty nm pCreate pRelease f =
     (if map_of (fa_type f) ty \<noteq> None then (False, f)
      else if map_of (fa_name f) nm \<noteq> None then (False, f)
      else (True, f\<lparr>fa_type := smap_set ty (pCreate, pRelease) (fa_type f), fa_name := (nm, pCreate, pRelease) # fa_name f\<rparr>))"

definition hasCB :: "int \<Rightarrow> pmdCBFactory \<Rightarrow> bool" where
  "hasCB ty f \<longleftrightarrow> map_of (fa_type f) ty \<noteq> None"

definition hasCBName :: "string \<Rightarrow> pmdCBFactory \<Rightarrow> bool" where
  "hasCBName nm f \<longleftrightarrow> map_of (fa_name f) nm \<noteq> None"

text \<open>A created control block is what the creating function returns, 0 when it is the null pointer.\<close>

definition createCB :: "(nat \<Rightarrow> nat) \<Rightarrow> int \<Rightarrow> pmdCBFactory \<Rightarrow> nat" where
  "createCB run ty f = (case map_of (fa_type f) ty of Some (pCreate, pRelease) \<Rightarrow> run pCreate | None \<Rightarrow> 0)"

definition createCBName :: "(nat \<Rightarrow> nat) \<Rightarrow> string \<Rightarrow> pmdCBFactory \<Rightarrow> nat" where
  "createCBName run nm f = (case map_of (fa_name f) nm of Some (pCreate, pRelease) \<Rightarrow> run pCreate | None \<Rightarrow> 0)"

text \<open>The function that releases a control block of the type.\<close>

definition releaseCB :: "int \<Rightarrow> pmdCBFactory \<Rightarrow> nat option" where
  "releaseCB ty f = map_option snd (map_of (fa_type f) ty)"

definition getAllCBType :: "pmdCBFactory \<Rightarrow> int list" where
  "getAllCBType f = map fst (fa_type f)"

datatype IF_PUB_MODE = IF_ALL | IF_LIST | IF_NULL

record rootEnv =
  re_mode :: IF_PUB_MODE
  re_query :: "int \<Rightarrow> nat"
  re_list :: "int list"

type_synonym pmdIFAdapter = "(int \<times> nat) list"

definition hasIF :: "int \<Rightarrow> pmdIFAdapter \<Rightarrow> bool" where
  "hasIF ty a \<longleftrightarrow> map_of a ty \<noteq> None"

definition queryIF :: "int \<Rightarrow> pmdIFAdapter \<Rightarrow> nat" where
  "queryIF ty a = (case map_of a ty of Some p \<Rightarrow> p | None \<Rightarrow> 0)"

definition addIF :: "int \<Rightarrow> nat \<Rightarrow> pmdIFAdapter \<Rightarrow> bool \<times> pmdIFAdapter" where
  "addIF ty p a = (if hasIF ty a then (False, a) else (True, smap_set ty p a))"

fun addIFs :: "(int \<Rightarrow> nat) \<Rightarrow> int list \<Rightarrow> pmdIFAdapter \<Rightarrow> bool \<times> pmdIFAdapter" where
  "addIFs q [] a = (True, a)"
| "addIFs q (ty # tys) a =
     (if q ty = 0 then addIFs q tys a
      else (case addIF ty (q ty) a of (ok, a1) \<Rightarrow> if ok then addIFs q tys a1 else (False, a1)))"

abbreviation (input) PMD_IF_MAX :: int where "PMD_IF_MAX \<equiv> 2"

definition registerRoot :: "rootEnv \<Rightarrow> pmdIFAdapter \<Rightarrow> bool \<times> pmdIFAdapter" where
  "registerRoot r a =
     (case re_mode r of
        IF_ALL \<Rightarrow> addIFs (re_query r) [1..PMD_IF_MAX - 1] a
      | IF_LIST \<Rightarrow> addIFs (re_query r) (re_list r) a
      | IF_NULL \<Rightarrow> (True, a))"

section \<open>The controller\<close>

text \<open>What the rest of the node answers during one run: initialisation, the callback of the program, how long the main loop runs, and how the EDU manager stops.\<close>

record runEnv =
  rn_resource :: rc
  rn_eduInit :: rc
  rn_callback :: bool
  rn_preStart :: rc
  rn_postStart :: rc
  rn_rounds :: nat
  rn_shutdownCode :: rc
  rn_isShutdown :: bool
  rn_stopTimeout :: int
  rn_normalStop :: bool
  rn_abnormal :: nat

abbreviation (input) PMD_STOP_TIMEOUT :: int where "PMD_STOP_TIMEOUT \<equiv> 600000"

definition ctl_destory :: "runEnv \<Rightarrow> pmdContainer \<Rightarrow> nodeCall list \<times> pmdContainer" where
  "ctl_destory r c =
     (let stopTimeout = (if rn_callback r then rn_stopTimeout r else PMD_STOP_TIMEOUT);
          (tr1, c1) = deactiveCB c;
          (tr2, c2) = finiCB c1
      in ([CQuit, CSetActive False] @ (if rn_callback r then [CPreStop] else [])
          @ (if stopTimeout > 0 then [CDeadCheck (stopTimeout + 60000)] else []) @ tr1
          @ (if rn_callback r then [CPreEDUStop] else []) @ [CEDUFini stopTimeout] @ (if rn_callback r then [CPostEDUStop] else [])
          @ tr2 @ (if rn_callback r then [CPostStop] else [])
          @ (if \<not> rn_normalStop r \<and> rn_abnormal r > 0 then [CPanic] else [CStopDeadCheck]), c2))"

text \<open>What \<open>run\<close> does before it stops the node again.\<close>

definition ctl_start :: "nat \<Rightarrow> cbEnv \<Rightarrow> runEnv \<Rightarrow> pmdContainer \<Rightarrow> (rc \<times> nodeCall list \<times> pmdContainer) option" where
  "ctl_start n e r c =
     (if rn_resource r \<noteq> SDB_OK then Some (rn_resource r, [], c)
      else if rn_eduInit r \<noteq> SDB_OK then Some (rn_eduInit r, [], c)
      else if rn_callback r \<and> rn_preStart r \<noteq> SDB_OK then Some (rn_preStart r, [CAttach, CPreStart], c)
      else (let pre = (if rn_callback r then [CAttach, CPreStart] else []) in
        case initCB n e c of
          None \<Rightarrow> None
        | Some (rc, tr, c1) \<Rightarrow>
            if rc \<noteq> SDB_OK then Some (rc, pre @ tr, c1)
            else (case activeCB e c1 of (rc2, tr2, c2) \<Rightarrow>
              if rc2 \<noteq> SDB_OK then Some (rc2, pre @ tr @ tr2, c2)
              else (let up = pre @ tr @ tr2 @ [CSetActive True] @ (if rn_callback r then [CPostStart] else []) in
                if rn_callback r \<and> rn_postStart r \<noteq> SDB_OK then Some (rn_postStart r, up, c2)
                else Some (SDB_OK, up @ (if rn_callback r then replicate (rn_rounds r) CRunTimer else []), c2)))))"

definition ctl_run :: "nat \<Rightarrow> cbEnv \<Rightarrow> runEnv \<Rightarrow> pmdContainer \<Rightarrow> (rc \<times> nodeCall list \<times> pmdContainer) option" where
  "ctl_run n e r c =
     (case ctl_start n e r c of
        None \<Rightarrow> None
      | Some (rc, tr, c1) \<Rightarrow>
          (case ctl_destory r c1 of (tr2, c2) \<Rightarrow>
             Some (if rc = SDB_OK then rn_shutdownCode r else rc,
               tr @ (if rc \<noteq> SDB_OK \<and> \<not> rn_isShutdown r then [CShutdown rc] else []) @ tr2 @ (if rn_callback r \<and> CPanic \<notin> set tr2 then [CDetach] else []), c2)))"

text \<open>\<open>init\<close> creates, publishes and registers a control block for each type.  The result also has the list of control blocks that are not released.\<close>

fun ctl_install :: "(nat \<Rightarrow> nat) \<Rightarrow> (nat \<Rightarrow> rootEnv) \<Rightarrow> cbEnv \<Rightarrow> pmdCBFactory \<Rightarrow> int list \<Rightarrow> pmdIFAdapter \<Rightarrow> pmdContainer \<Rightarrow> nat list
    \<Rightarrow> rc \<times> pmdIFAdapter \<times> pmdContainer \<times> nat list" where
  "ctl_install run roots e f [] a c live = (SDB_OK, a, c, live)"
| "ctl_install run roots e f (ty # tys) a c live =
     (if \<not> hasCB ty f then (SDB_SYS, a, c, live)
      else (let cb = createCB run ty f in
        if cb = 0 then (SDB_OOM, a, c, live)
        else (case registerRoot (roots cb) a of (ok, a1) \<Rightarrow>
          if \<not> ok then (SDB_OK, a1, c, live)
          else (case container_registerCB e cb c of (rc, c1) \<Rightarrow>
            if rc \<noteq> SDB_OK then (rc, a1, c1, live)
            else ctl_install run roots e f tys a1 c1 (cb # live)))))"

definition ctl_init :: "(nat \<Rightarrow> nat) \<Rightarrow> (nat \<Rightarrow> rootEnv) \<Rightarrow> cbEnv \<Rightarrow> pmdCBFactory \<Rightarrow> bool \<Rightarrow> int list \<Rightarrow> bool \<Rightarrow> pmdIFAdapter \<Rightarrow> pmdContainer
    \<Rightarrow> rc \<times> pmdIFAdapter \<times> pmdContainer \<times> nat list" where
  "ctl_init run roots e f installAll installList hasParam a c =
     (if \<not> hasParam then (SDB_INVALIDARG, a, c, [])
      else ctl_install run roots e f (if installAll then getAllCBType f else installList) a c [])"

text \<open>\<open>fini\<close>: the control blocks it releases, and what is left.\<close>

definition ctl_fini :: "pmdContainer \<Rightarrow> nat list \<times> pmdIFAdapter \<times> pmdContainer" where
  "ctl_fini c = ([cb. ty \<leftarrow> [0..<PMD_CB_MAX], cb \<leftarrow> (case getCB (int ty) c of Some cb \<Rightarrow> [cb] | None \<Rightarrow> [])], [], container_clear c)"


section \<open>What was started is stopped, in the opposite order\<close>

definition inits :: "nodeCall list \<Rightarrow> nat list" where "inits tr = [cb. CInit cb \<leftarrow> tr]"
definition actives :: "nodeCall list \<Rightarrow> nat list" where "actives tr = [cb. CActive cb \<leftarrow> tr]"
definition deactives :: "nodeCall list \<Rightarrow> nat list" where "deactives tr = [cb. CDeactive cb \<leftarrow> tr]"
definition finis :: "nodeCall list \<Rightarrow> nat list" where "finis tr = [cb. CFini cb \<leftarrow> tr]"

lemmas calls_def = inits_def actives_def deactives_def finis_def

lemma calls_append [simp]:
  "inits (xs @ ys) = inits xs @ inits ys" "actives (xs @ ys) = actives xs @ actives ys"
  "deactives (xs @ ys) = deactives xs @ deactives ys" "finis (xs @ ys) = finis xs @ finis ys"
  by (simp_all add: calls_def)

lemma calls_Cons [simp]:
  "inits (x # xs) = (case x of CInit cb \<Rightarrow> cb # inits xs | _ \<Rightarrow> inits xs)"
  "actives (x # xs) = (case x of CActive cb \<Rightarrow> cb # actives xs | _ \<Rightarrow> actives xs)"
  "deactives (x # xs) = (case x of CDeactive cb \<Rightarrow> cb # deactives xs | _ \<Rightarrow> deactives xs)"
  "finis (x # xs) = (case x of CFini cb \<Rightarrow> cb # finis xs | _ \<Rightarrow> finis xs)"
  "inits [] = []" "actives [] = []" "deactives [] = []" "finis [] = []"
  by (simp_all add: calls_def split: nodeCall.splits)

lemma calls_replicate [simp]:
  "inits (replicate n CRunTimer) = []" "actives (replicate n CRunTimer) = []" "deactives (replicate n CRunTimer) = []" "finis (replicate n CRunTimer) = []"
  by (induction n) simp_all

definition started :: "cbItems \<Rightarrow> nat list" where "started items = [cb. (cb, st) \<leftarrow> items, st \<noteq> CB_OPR_NULL]"
definition running :: "cbItems \<Rightarrow> nat list" where "running items = [cb. (cb, st) \<leftarrow> items, st = CB_OPR_ACTIVE]"

lemma items_Cons [simp]:
  "started ((cb, st) # items) = (if st \<noteq> CB_OPR_NULL then cb # started items else started items)" "started [] = []"
  "running ((cb, st) # items) = (if st = CB_OPR_ACTIVE then cb # running items else running items)" "running [] = []"
  by (simp_all add: started_def running_def)

lemma started_map_NULL: "\<forall>it\<in>set items. snd it = CB_OPR_NULL \<Longrightarrow> started items = [] \<and> running items = []"
  by (induction items) (auto simp: started_def running_def)

lemma initItems_calls:
  assumes "initItems e items = (rc, tr, items')" and "\<forall>it\<in>set items. snd it = CB_OPR_NULL"
  shows "map fst items' = map fst items \<and> (\<exists>k. inits tr = take k (map fst items)) \<and> started items' = [cb \<leftarrow> inits tr. ce_init e cb = SDB_OK]
    \<and> running items' = [] \<and> actives tr = [] \<and> deactives tr = [] \<and> finis tr = []"
  using assms
proof (induction items arbitrary: rc tr items')
  case (Cons it items)
  obtain cb where it: "it = (cb, CB_OPR_NULL)" using Cons.prems(2) by (cases it) simp
  show ?case
  proof (cases "ce_init e cb = SDB_OK")
    case True
    obtain rc1 tr1 items1 where r: "initItems e items = (rc1, tr1, items1)" by (cases "initItems e items")
    then have res: "tr = [CSetResource cb, CInit cb] @ tr1" "items' = (cb, CB_OPR_INIT) # items1" using Cons.prems(1) True by (auto simp: it)
    note IH = Cons.IH [OF r]
    then obtain k where "inits tr1 = take k (map fst items)" using Cons.prems(2) by auto
    then have "inits tr = take (Suc k) (map fst (it # items))" by (simp add: res it)
    then have "\<exists>k. inits tr = take k (map fst (it # items))" ..
    then show ?thesis using IH Cons.prems(2) True by (simp add: res it)
  next
    case False
    then have res: "tr = [CSetResource cb, CInit cb]" "items' = it # items" using Cons.prems(1) by (auto simp: it)
    then have "inits tr = take (Suc 0) (map fst (it # items))" by (simp add: it)
    then have "\<exists>k. inits tr = take k (map fst (it # items))" ..
    then show ?thesis using started_map_NULL [of items] Cons.prems(2) False by (simp add: res it)
  qed
qed auto

lemma started_map_INIT: "\<forall>it\<in>set items. snd it = CB_OPR_INIT \<Longrightarrow> running items = [] \<and> started items = map fst items"
  by (induction items) auto

lemma activeItems_calls:
  assumes "activeItems e items = (rc, tr, items')" and "\<forall>it\<in>set items. snd it = CB_OPR_INIT"
  shows "map fst items' = map fst items \<and> running items' = [cb \<leftarrow> actives tr. ce_active e cb = SDB_OK] \<and> started items' = map fst items
    \<and> inits tr = [] \<and> deactives tr = [] \<and> finis tr = []"
  using assms
proof (induction items arbitrary: rc tr items')
  case (Cons it items)
  obtain cb where it: "it = (cb, CB_OPR_INIT)" using Cons.prems(2) by (cases it) simp
  show ?case
  proof (cases "ce_active e cb = SDB_OK")
    case True
    obtain rc1 tr1 items1 where r: "activeItems e items = (rc1, tr1, items1)" by (cases "activeItems e items")
    then have "tr = CActive cb # tr1" "items' = (cb, CB_OPR_ACTIVE) # items1" using Cons.prems(1) True by (auto simp: it)
    then show ?thesis using Cons.IH [OF r] Cons.prems(2) True by (auto simp: it)
  next
    case False
    then show ?thesis using Cons.prems started_map_INIT [of items] by (auto simp: it)
  qed
qed auto

lemma startIO_calls: "startIO e ss = (rc, tr) \<Longrightarrow> inits tr = [] \<and> actives tr = [] \<and> deactives tr = [] \<and> finis tr = []"
  by (induction e ss arbitrary: rc tr rule: startIO.induct) (auto split: if_splits prod.splits)

lemma postActive_calls: "postActive e cbs = (rc, tr) \<Longrightarrow> inits tr = [] \<and> actives tr = [] \<and> deactives tr = [] \<and> finis tr = []"
proof (induction e cbs arbitrary: rc tr rule: postActive.induct)
  case (2 e cb cbs)
  obtain rc1 tr1 where r: "startIO e (ce_iosvc e cb) = (rc1, tr1)" by (cases "startIO e (ce_iosvc e cb)")
  obtain rc2 tr2 where r2: "postActive e cbs = (rc2, tr2)" by (cases "postActive e cbs")
  have "rc1 = SDB_OK \<Longrightarrow> (ce_main e cb \<longrightarrow> ce_startMain e cb = SDB_OK) \<Longrightarrow> inits tr2 = [] \<and> actives tr2 = [] \<and> deactives tr2 = [] \<and> finis tr2 = []"
    using "2.IH" r r2 by (cases "ce_main e cb") auto
  then show ?case using "2.prems" r r2 startIO_calls [OF r] by (auto split: if_splits)
qed simp


text \<open>The sort puts the control blocks in with the state \<open>CB_OPR_NULL\<close>.\<close>

definition unstarted :: "cbItems \<Rightarrow> bool" where "unstarted items \<longleftrightarrow> (\<forall>it\<in>set items. snd it = CB_OPR_NULL)"

lemma unstarted_snoc: "unstarted (items @ [(cb, CB_OPR_NULL)]) \<longleftrightarrow> unstarted items"
  by (auto simp: unstarted_def)

lemma addDependency_unstarted:
  "addDependencyCB n e arr cb st = Some (rc, flag', vec') \<Longrightarrow> unstarted (snd st) \<Longrightarrow> unstarted vec'"
  "addDependencies n e arr ds st = Some (rc, flag', vec') \<Longrightarrow> unstarted (snd st) \<Longrightarrow> unstarted vec'"
proof (induction n e arr cb st and n e arr ds st arbitrary: rc flag' vec' and rc flag' vec' rule: addDependencyCB_addDependencies.induct)
  case (2 n e arr cb flag vec)
  then show ?case by (auto simp: unstarted_snoc split: if_splits option.splits)
next
  case (4 n e arr d ds flag vec)
  show ?case
  proof (cases "d < 0 \<or> d \<ge> int PMD_CB_MAX \<or> arr ! nat d = None")
    case True
    then show ?thesis using "4.prems" by (auto split: option.splits if_splits)
  next
    case False
    then obtain dcb where dcb: "arr ! nat d = Some dcb" and nd: "\<not> (d < 0 \<or> int PMD_CB_MAX \<le> d)" by auto
    show ?thesis
    proof (cases "isInOrder dcb vec")
      case True
      then show ?thesis using "4.IH"(1) [OF nd dcb True] "4.prems" dcb nd by simp
    next
      case no: False
      then obtain rc1 f1 v1 where r: "addDependencyCB n e arr dcb (flag, vec) = Some (rc1, f1, v1)" using "4.prems"(1) dcb nd by (auto split: option.splits)
      then have v1: "unstarted v1" using "4.IH"(2) [OF nd dcb no r] "4.prems"(2) by simp
      show ?thesis
      proof (cases "rc1 = SDB_OK")
        case True
        then show ?thesis using "4.IH"(3) [OF nd dcb no r refl refl] v1 "4.prems"(1) dcb nd no r by simp
      next
        case False
        then show ?thesis using v1 "4.prems"(1) dcb nd no r by simp
      qed
    qed
  qed
qed (auto simp: unstarted_def)

lemma checkLoop_unstarted:
  "checkLoop n e arr is st = Some (rc, flag', vec') \<Longrightarrow> unstarted (snd st) \<Longrightarrow> unstarted vec'"
proof (induction n e arr "is" st arbitrary: rc flag' vec' rule: checkLoop.induct)
  case (2 n e arr i "is" flag vec)
  show ?case
  proof (cases "arr ! i = None \<or> flag ! i")
    case True
    then show ?thesis using 2 by (auto split: option.splits)
  next
    case False
    then obtain cb where cb: "arr ! i = Some cb" "\<not> flag ! i" by auto
    then obtain rc1 f1 v1 where r: "addDependencyCB n e arr cb (flag, vec) = Some (rc1, f1, v1)" using "2.prems"(1) by (auto split: option.splits)
    then have "unstarted v1" using addDependency_unstarted(1) [OF r] "2.prems"(2) by simp
    then show ?thesis using "2.IH"(3) [OF cb r refl refl] "2.prems"(1) cb r by (cases "rc1 = SDB_OK") auto
  qed
qed simp

lemma initItems_all:
  "initItems e items = (SDB_OK, tr, items') \<Longrightarrow> unstarted items \<Longrightarrow> \<forall>it\<in>set items'. snd it = CB_OPR_INIT"
  by (induction e items arbitrary: tr items' rule: initItems.induct) (auto simp: unstarted_def split: if_splits prod.splits)

text \<open>What a start leaves: the calls in \<open>tr\<close> and the states of the control blocks agree.\<close>

definition in_step :: "cbEnv \<Rightarrow> nodeCall list \<Rightarrow> cbItems \<Rightarrow> bool" where
  "in_step e tr items \<longleftrightarrow> started items = [cb \<leftarrow> inits tr. ce_init e cb = SDB_OK] \<and> running items = [cb \<leftarrow> actives tr. ce_active e cb = SDB_OK]
     \<and> deactives tr = [] \<and> finis tr = []"

lemma in_step_more: "in_step e tr items \<Longrightarrow> inits xs = [] \<Longrightarrow> actives xs = [] \<Longrightarrow> deactives xs = [] \<Longrightarrow> finis xs = [] \<Longrightarrow> in_step e (tr @ xs) items \<and> in_step e (xs @ tr) items"
  by (simp add: in_step_def)

lemma in_step_unstarted: "unstarted items \<Longrightarrow> inits tr = [] \<Longrightarrow> actives tr = [] \<Longrightarrow> deactives tr = [] \<Longrightarrow> finis tr = [] \<Longrightarrow> in_step e tr items"
  using started_map_NULL [of items] by (simp add: in_step_def unstarted_def)

definition starts_in_order :: "cbEnv \<Rightarrow> nat option list \<Rightarrow> nat list \<Rightarrow> bool" where
  "starts_in_order e arr cbs \<longleftrightarrow> cbs = [] \<or> (\<exists>order k. dependency_order e arr order \<and> cbs = take k order)"

lemma initCB_calls:
  assumes "array_ok e (co_arrayCB c)" and "co_vecCB c = []" and "\<not> co_hasChecked c"
  shows "\<exists>rc tr c'. initCB (Suc PMD_CB_MAX) e c = Some (rc, tr, c') \<and> in_step e tr (co_vecCB c') \<and> starts_in_order e (co_arrayCB c) (inits tr)
    \<and> actives tr = [] \<and> (rc = SDB_OK \<longrightarrow> (\<forall>it\<in>set (co_vecCB c'). snd it = CB_OPR_INIT))"
proof -
  obtain rc flag vec where r: "checkLoop (Suc PMD_CB_MAX) e (co_arrayCB c) [0..<PMD_CB_MAX] (replicate PMD_CB_MAX False, []) = Some (rc, flag, vec)"
      "rc = SDB_OK \<longrightarrow> dependency_order e (co_arrayCB c) (map fst vec)"
    using sort_result [OF assms(1)] by blast
  have un: "unstarted vec" using checkLoop_unstarted [OF r(1)] by (simp add: unstarted_def)
  have c: "checkDependency (Suc PMD_CB_MAX) e c =
      Some (rc, if rc = SDB_OK then c\<lparr>co_vecCB := vec, co_hasChecked := True\<rparr> else c\<lparr>co_vecCB := vec\<rparr>)"
    using assms(2,3) r(1) by (simp add: checkDependency_def del: upt_conv_Cons replicate.simps checkLoop.simps)
  show ?thesis
  proof (cases "rc = SDB_OK")
    case False
    then show ?thesis using c in_step_unstarted [OF un, of "[]" e] by (simp add: initCB_def starts_in_order_def)
  next
    case True
    obtain rc2 tr items where i: "initItems e vec = (rc2, tr, items)" by (cases "initItems e vec")
    note I = initItems_calls [OF i un [unfolded unstarted_def]]
    then have "starts_in_order e (co_arrayCB c) (inits tr)" using r(2) True by (auto simp: starts_in_order_def)
    then show ?thesis using c True i I initItems_all [of e vec tr items] un by (auto simp: initCB_def in_step_def)
  qed
qed

lemma activeCB_calls:
  assumes "\<forall>it\<in>set (co_vecCB c). snd it = CB_OPR_INIT" and "in_step e tr (co_vecCB c)" and "actives tr = []"
  shows "\<exists>rc tr2 c'. activeCB e c = (rc, tr2, c') \<and> in_step e (tr @ tr2) (co_vecCB c') \<and> inits tr2 = []"
proof -
  obtain rc tr1 items where r: "activeItems e (co_vecCB c) = (rc, tr1, items)" by (cases "activeItems e (co_vecCB c)")
  obtain rc2 tr2 where p: "postActive e (map fst items) = (rc2, tr2)" by (cases "postActive e (map fst items)")
  note A = activeItems_calls [OF r assms(1)] and P = postActive_calls [OF p]
  have "started (co_vecCB c) = map fst (co_vecCB c)" using started_map_INIT [OF assms(1)] by simp
  then have "in_step e (tr @ tr1) items" using A assms(2,3) by (simp add: in_step_def)
  moreover have "activeCB e c = (if rc \<noteq> SDB_OK then (rc, tr1, c\<lparr>co_vecCB := items\<rparr>) else (rc2, tr1 @ tr2, c\<lparr>co_vecCB := items\<rparr>))"
    by (simp add: activeCB_def r p)
  ultimately show ?thesis using A P in_step_more [of e "tr @ tr1" items tr2] by (cases "rc = SDB_OK") auto
qed


lemma ctl_start_calls:
  assumes "array_ok e (co_arrayCB c)" and "co_vecCB c = []" and "\<not> co_hasChecked c"
  shows "\<exists>rc tr c'. ctl_start (Suc PMD_CB_MAX) e r c = Some (rc, tr, c') \<and> in_step e tr (co_vecCB c') \<and> starts_in_order e (co_arrayCB c) (inits tr)"
proof -
  define pre where "pre = (if rn_callback r then [CAttach, CPreStart] else [])"
  have pre: "inits pre = []" "actives pre = []" "deactives pre = []" "finis pre = []" by (simp_all add: pre_def)
  obtain rc tr c1 where i: "initCB (Suc PMD_CB_MAX) e c = Some (rc, tr, c1)" "in_step e tr (co_vecCB c1)" "starts_in_order e (co_arrayCB c) (inits tr)"
      "actives tr = []" "rc = SDB_OK \<longrightarrow> (\<forall>it\<in>set (co_vecCB c1). snd it = CB_OPR_INIT)"
    using initCB_calls [OF assms] by blast
  have none: "in_step e xs (co_vecCB c) \<and> starts_in_order e (co_arrayCB c) (inits xs)" if "xs = [] \<or> xs = [CAttach, CPreStart]" for xs
    using that assms(2) by (auto simp: in_step_def starts_in_order_def)
  have p1: "in_step e (pre @ tr) (co_vecCB c1)" using in_step_more [OF i(2) pre] by simp
  have start: "starts_in_order e (co_arrayCB c) (inits (pre @ tr))" using i(3) pre(1) by simp
  show ?thesis
  proof (cases "rn_resource r \<noteq> SDB_OK \<or> rn_eduInit r \<noteq> SDB_OK \<or> rn_callback r \<and> rn_preStart r \<noteq> SDB_OK")
    case True
    then obtain rc xs where "ctl_start (Suc PMD_CB_MAX) e r c = Some (rc, xs, c)" "xs = [] \<or> xs = [CAttach, CPreStart]"
      by (cases "rn_resource r = SDB_OK"; cases "rn_eduInit r = SDB_OK") (simp_all add: ctl_start_def)
    then show ?thesis using none [of xs] by blast
  next
    case go: False
    show ?thesis
    proof (cases "rc = SDB_OK")
      case False
      then have "ctl_start (Suc PMD_CB_MAX) e r c = Some (rc, pre @ tr, c1)" unfolding ctl_start_def i(1) pre_def using go by simp
      then show ?thesis using p1 start by blast
    next
      case True
      obtain rc2 tr2 c2 where a: "activeCB e c1 = (rc2, tr2, c2)" "in_step e (tr @ tr2) (co_vecCB c2)" "inits tr2 = []"
        using activeCB_calls [of c1 e tr] i True by blast
      define tail where "tail = (if rc2 \<noteq> SDB_OK then [] else [CSetActive True] @ (if rn_callback r then [CPostStart] else [])
          @ (if rn_callback r \<and> rn_postStart r = SDB_OK then replicate (rn_rounds r) CRunTimer else []))"
      have st: "\<exists>rc'. ctl_start (Suc PMD_CB_MAX) e r c = Some (rc', pre @ tr @ tr2 @ tail, c2)"
        unfolding ctl_start_def i(1) tail_def pre_def using go True a(1) by (simp add: Let_def)
      have tail: "inits tail = []" "actives tail = []" "deactives tail = []" "finis tail = []" by (simp_all add: tail_def)
      have p2: "in_step e (pre @ tr @ tr2) (co_vecCB c2)" using in_step_more [OF a(2) pre] by simp
      show ?thesis using st in_step_more [OF p2 tail] start a(3) tail(1) by auto
    qed
  qed
qed

lemma deactiveCB_calls:
  assumes "deactiveCB c = (tr, c1)"
  shows "deactives tr = rev (running (co_vecCB c)) \<and> inits tr = [] \<and> actives tr = [] \<and> finis tr = [] \<and> started (co_vecCB c1) = started (co_vecCB c)"
proof -
  have tr: "tr = map CDeactive (rev (running (co_vecCB c)))"
    using assms by (auto simp: deactiveCB_def running_def map_concat rev_concat rev_map comp_def split_def if_distrib cong: if_cong)
  have "deactives (map CDeactive xs) = xs \<and> inits (map CDeactive xs) = [] \<and> actives (map CDeactive xs) = [] \<and> finis (map CDeactive xs) = []" for xs
    by (induction xs) auto
  moreover have "started (map (\<lambda>(cb, st). (cb, if st = CB_OPR_ACTIVE then CB_OPR_INIT else st)) items) = started items" for items
    by (induction items) auto
  ultimately show ?thesis using tr assms by (auto simp: deactiveCB_def)
qed

lemma finiCB_calls:
  assumes "finiCB c = (tr, c1)"
  shows "finis tr = rev (started (co_vecCB c)) \<and> inits tr = [] \<and> actives tr = [] \<and> deactives tr = [] \<and> (\<forall>it\<in>set (co_vecCB c1). snd it = CB_OPR_NULL)"
proof -
  have tr: "tr = map CFini (rev (started (co_vecCB c)))"
    using assms by (auto simp: finiCB_def started_def map_concat rev_concat rev_map comp_def split_def if_distrib cong: if_cong)
  have "finis (map CFini xs) = xs \<and> inits (map CFini xs) = [] \<and> actives (map CFini xs) = [] \<and> deactives (map CFini xs) = []" for xs
    by (induction xs) auto
  then show ?thesis using tr assms by (auto simp: finiCB_def)
qed

text \<open>C20: A run of the node, whatever fails in it: control blocks are initialised in an order in which each comes behind the ones it depends on; each one whose \<open>init\<close>
  succeeded gets exactly one \<open>fini\<close>, each one whose \<open>active\<close> succeeded exactly one \<open>deactive\<close>, in the opposite order; the EDU manager is stopped between
  the last \<open>deactive\<close> and the first \<open>fini\<close>; and at the end every control block is in the state \<open>CB_OPR_NULL\<close> again.\<close>
theorem node_stops_what_it_started:
  assumes "array_ok e (co_arrayCB c)" and "co_vecCB c = []" and "\<not> co_hasChecked c"
  shows "\<exists>rc up down timeout c'. ctl_run (Suc PMD_CB_MAX) e r c = Some (rc, up @ CEDUFini timeout # down, c')
    \<and> starts_in_order e (co_arrayCB c) (inits up) \<and> inits down = [] \<and> actives down = []
    \<and> deactives up = rev [cb \<leftarrow> actives up. ce_active e cb = SDB_OK] \<and> deactives down = []
    \<and> finis up = [] \<and> finis down = rev [cb \<leftarrow> inits up. ce_init e cb = SDB_OK]
    \<and> (\<forall>it\<in>set (co_vecCB c'). snd it = CB_OPR_NULL)"
proof -
  obtain rc tr c1 where s: "ctl_start (Suc PMD_CB_MAX) e r c = Some (rc, tr, c1)" "in_step e tr (co_vecCB c1)" "starts_in_order e (co_arrayCB c) (inits tr)"
    using ctl_start_calls [OF assms] by blast
  obtain tr1 c2 where d: "deactiveCB c1 = (tr1, c2)" by (cases "deactiveCB c1")
  obtain tr2 c3 where f: "finiCB c2 = (tr2, c3)" by (cases "finiCB c2")
  define t where "t = (if rn_callback r then rn_stopTimeout r else PMD_STOP_TIMEOUT)"
  define up where "up = tr @ (if rc \<noteq> SDB_OK \<and> \<not> rn_isShutdown r then [CShutdown rc] else []) @ [CQuit, CSetActive False] @ (if rn_callback r then [CPreStop] else [])
      @ (if t > 0 then [CDeadCheck (t + 60000)] else []) @ tr1 @ (if rn_callback r then [CPreEDUStop] else [])"
  define stop where "stop = (if rn_callback r then [CPostEDUStop] else []) @ tr2 @ (if rn_callback r then [CPostStop] else [])
      @ (if \<not> rn_normalStop r \<and> rn_abnormal r > 0 then [CPanic] else [CStopDeadCheck])"
  define det where "det = (if rn_callback r \<and> CPanic \<notin> set (fst (ctl_destory r c1)) then [CDetach] else [])"
  have "ctl_run (Suc PMD_CB_MAX) e r c = Some (if rc = SDB_OK then rn_shutdownCode r else rc, up @ CEDUFini t # (stop @ det), c3)"
    unfolding ctl_run_def s(1) det_def up_def stop_def t_def by (simp add: ctl_destory_def d f Let_def)
  moreover have "det = [] \<or> det = [CDetach]" by (simp add: det_def)
  ultimately have det: "ctl_run (Suc PMD_CB_MAX) e r c = Some (if rc = SDB_OK then rn_shutdownCode r else rc, up @ CEDUFini t # (stop @ det), c3)" "det = [] \<or> det = [CDetach]"
    by this+
  have up: "inits up = inits tr" "actives up = actives tr" "deactives up = rev (running (co_vecCB c1))" "finis up = []"
    using s(2) deactiveCB_calls [OF d] by (simp_all add: up_def in_step_def)
  have dn: "inits (stop @ det) = []" "actives (stop @ det) = []" "deactives (stop @ det) = []" "finis (stop @ det) = rev (started (co_vecCB c1))"
    using finiCB_calls [OF f] deactiveCB_calls [OF d] det(2) by (auto simp: stop_def)
  show ?thesis
    using det(1) up dn s(2,3) finiCB_calls [OF f] by (intro exI conjI) (auto simp: in_step_def)
qed


definition demo_run :: runEnv where
  "demo_run = \<lparr> rn_resource = 0, rn_eduInit = 0, rn_callback = False, rn_preStart = 0, rn_postStart = 0, rn_rounds = 0, rn_shutdownCode = 0, rn_isShutdown = True,
     rn_stopTimeout = 0, rn_normalStop = True, rn_abnormal = 0 \<rparr>"

definition demo_trace :: "nodeCall list" where
  "demo_trace = [CSetResource 2, CInit 2, CSetResource 1, CInit 1, CActive 2, CActive 1, CStartMain 2, CStartMain 1, CSetActive True,
     CQuit, CSetActive False, CDeadCheck 660000, CDeactive 1, CDeactive 2, CEDUFini 600000, CFini 1, CFini 2, CStopDeadCheck]"

lemma demo_fresh: "co_vecCB demo_container = []" "\<not> co_hasChecked demo_container"
  by (simp_all add: demo_container_def)

theorem node_stops_what_it_started_witness:
  "map_option (\<lambda>(rc, tr, c'). (rc, tr)) (ctl_run (Suc PMD_CB_MAX) demo_env demo_run demo_container) = Some (0, demo_trace)
   \<and> (\<exists>rc up down timeout c'. ctl_run (Suc PMD_CB_MAX) demo_env demo_run demo_container = Some (rc, up @ CEDUFini timeout # down, c')
        \<and> finis down = rev [cb \<leftarrow> inits up. ce_init demo_env cb = SDB_OK])"
proof
  show "map_option (\<lambda>(rc, tr, c'). (rc, tr)) (ctl_run (Suc PMD_CB_MAX) demo_env demo_run demo_container) = Some (0, demo_trace)" by code_simp
  show "\<exists>rc up down timeout c'. ctl_run (Suc PMD_CB_MAX) demo_env demo_run demo_container = Some (rc, up @ CEDUFini timeout # down, c')
        \<and> finis down = rev [cb \<leftarrow> inits up. ce_init demo_env cb = SDB_OK]"
    using node_stops_what_it_started [OF demo_array demo_fresh, of demo_run] by blast
qed

section \<open>Installing and releasing\<close>

text \<open>When the interfaces of a control block cannot be published, \<open>init\<close> stops without setting the return code: it answers \<open>SDB_OK\<close>, and the types behind are not installed.\<close>

theorem failed_publish_reports_success:
  assumes "hasCB ty f" and "createCB run ty f \<noteq> 0" and "\<not> fst (registerRoot (roots (createCB run ty f)) a)"
  shows "ctl_install run roots e f (ty # tys) a c live = (SDB_OK, snd (registerRoot (roots (createCB run ty f)) a), c, live)"
  using assms by (cases "registerRoot (roots (createCB run ty f)) a") simp

text \<open>The interfaces a control block has published stay in the table although the control block is released.\<close>

theorem failed_register_leaves_interfaces:
  assumes "hasCB ty f" and "createCB run ty f \<noteq> 0" and "registerRoot (roots (createCB run ty f)) a = (True, a1)" and "ce_type e (createCB run ty f) \<ge> int PMD_CB_MAX"
  shows "ctl_install run roots e f (ty # tys) a c live = (SDB_SYS, a1, c, live)"
  using assms by (simp add: container_registerCB_def)

section \<open>The command line\<close>

text \<open>The string \<open>_cmdstr\<close> that \<open>_pmdCmdArg::init\<close> builds.\<close>

fun cmdArg_loop :: "string list \<Rightarrow> nat \<Rightarrow> nat \<Rightarrow> string \<Rightarrow> string" where
  "cmdArg_loop argv i 0 str = str"
| "cmdArg_loop argv i (Suc n) str = cmdArg_loop argv (Suc i) n ((if i \<noteq> 0 then str @ '' '' else str) @ argv ! 0)"

definition cmdArg_init :: "string list \<Rightarrow> string" where
  "cmdArg_init argv = cmdArg_loop argv 0 (length argv) []"

text \<open>Each argument is replaced by the name of the program.\<close>

theorem cmdline_repeats_program: "cmdArg_init [''nova'', ''-d'', ''/opt''] = ''nova nova nova''"
  by code_simp

end
