(* ===== verification/Bson_Decimal.thy ===== *)
theory Bson_Decimal
  imports Nova_Prelude Complex_Main
begin

text \<open>
  The decimals of BSON (\<open>src/src/bson/common_decimal.c\<close>): a sign, a weight and digits to the base 10000, the first of which counts \<open>10000 ^ weight\<close>, with the number of decimal
  places to show (\<open>dscale\<close>) and an optional precision (\<open>typemod\<close>).  The digits lie in a buffer that usually has a spare cell in front, into which a rounding
  may carry; the cells of the buffer in front of the digits are part of the state, nearest first, and a carry that would run over the start of
  the buffer is an error of its own.  A static function of the file, \<open>_decimal_f\<close>, is \<open>dec_f\<close> here.  Arguments are never the null pointer; whether \<open>malloc\<close> has room
  for a number of cells is an argument.  What an operation leaves in its result when it fails is not modelled.  This theory
  holds the definitions.
\<close>

section \<open>Data\<close>

abbreviation (input) DECIMAL_NBASE :: int where "DECIMAL_NBASE \<equiv> 10000"
abbreviation (input) DECIMAL_HALF_NBASE :: int where "DECIMAL_HALF_NBASE \<equiv> 5000"
abbreviation (input) DECIMAL_DEC_DIGITS :: int where "DECIMAL_DEC_DIGITS \<equiv> 4"
abbreviation (input) DECIMAL_MUL_GUARD_DIGITS :: int where "DECIMAL_MUL_GUARD_DIGITS \<equiv> 2"
abbreviation (input) DECIMAL_MAX_PRECISION :: int where "DECIMAL_MAX_PRECISION \<equiv> 1000"
abbreviation (input) DECIMAL_MAX_DISPLAY_SCALE :: int where "DECIMAL_MAX_DISPLAY_SCALE \<equiv> 1000"
abbreviation (input) DECIMAL_MIN_SIG_DIGITS :: int where "DECIMAL_MIN_SIG_DIGITS \<equiv> 16"
abbreviation (input) DECIMAL_MAX_DWEIGHT :: int where "DECIMAL_MAX_DWEIGHT \<equiv> 131072"
abbreviation (input) DECIMAL_MAX_DSCALE :: int where "DECIMAL_MAX_DSCALE \<equiv> 16383"
abbreviation (input) DECIMAL_MAX_WEIGHT :: int where "DECIMAL_MAX_WEIGHT \<equiv> 32768"
abbreviation (input) SDB_DECIMAL_POS :: int where "SDB_DECIMAL_POS \<equiv> 0"
abbreviation (input) SDB_DECIMAL_NEG :: int where "SDB_DECIMAL_NEG \<equiv> 0x4000"
abbreviation (input) SDB_DECIMAL_SPECIAL_SIGN :: int where "SDB_DECIMAL_SPECIAL_SIGN \<equiv> 0xC000"
abbreviation (input) INT_MAX :: int where "INT_MAX \<equiv> 2147483647"

record bson_decimal =
  d_typemod :: int
  d_sign :: int
  d_dscale :: int
  d_weight :: int
  d_isOwn :: bool
  d_front :: "int list"
  d_digits :: "int list"

datatype dec_err = Rc rc | OutOfBuffer

type_synonym 'a dec_res = "dec_err + 'a"

definition round_powers :: "int \<Rightarrow> int" where
  "round_powers i = (if i = 1 then 1000 else if i = 2 then 100 else if i = 3 then 10 else 0)"

definition decimal_init :: bson_decimal where
  "decimal_init = \<lparr> d_typemod = - 1, d_sign = SDB_DECIMAL_POS, d_dscale = 0, d_weight = 0, d_isOwn = False, d_front = [], d_digits = [] \<rparr>"

definition decimal_init1 :: "int \<Rightarrow> int \<Rightarrow> bson_decimal dec_res" where
  "decimal_init1 precision scale =
     (if precision < 1 \<or> precision > DECIMAL_MAX_PRECISION then Inl (Rc (- 6))
      else if scale < 0 \<or> scale > precision then Inl (Rc (- 6))
      else Inr (decimal_init\<lparr>d_typemod := (push_bit 16 precision) OR scale\<rparr>))"

definition const_one :: bson_decimal where
  "const_one = decimal_init\<lparr>d_digits := [1]\<rparr>"

text \<open>\<open>decimal_free\<close> gives the buffer back and resets every field, so that \<open>decimal_set_zero\<close> is the same function.\<close>

definition decimal_set_zero :: bson_decimal where
  "decimal_set_zero = decimal_init"

definition decimal_is_special :: "bson_decimal \<Rightarrow> bool" where
  "decimal_is_special d \<longleftrightarrow> d_sign d = SDB_DECIMAL_SPECIAL_SIGN"

definition decimal_is_zero :: "bson_decimal \<Rightarrow> bool" where
  "decimal_is_zero d \<longleftrightarrow> \<not> decimal_is_special d \<and> (d_digits d = [] \<or> hd (d_digits d) = 0)"

definition decimal_set_nan :: bson_decimal where
  "decimal_set_nan = decimal_init\<lparr>d_sign := SDB_DECIMAL_SPECIAL_SIGN, d_dscale := 0\<rparr>"

definition decimal_set_min :: bson_decimal where
  "decimal_set_min = decimal_init\<lparr>d_sign := SDB_DECIMAL_SPECIAL_SIGN, d_dscale := 1\<rparr>"

definition decimal_set_max :: bson_decimal where
  "decimal_set_max = decimal_init\<lparr>d_sign := SDB_DECIMAL_SPECIAL_SIGN, d_dscale := 2\<rparr>"

definition decimal_is_nan :: "bson_decimal \<Rightarrow> bool" where
  "decimal_is_nan d \<longleftrightarrow> decimal_is_special d \<and> d_dscale d = 0"

definition decimal_is_min :: "bson_decimal \<Rightarrow> bool" where
  "decimal_is_min d \<longleftrightarrow> decimal_is_special d \<and> d_dscale d = 1"

definition decimal_is_max :: "bson_decimal \<Rightarrow> bool" where
  "decimal_is_max d \<longleftrightarrow> decimal_is_special d \<and> d_dscale d = 2"

text \<open>A new buffer of \<open>length cells + 1\<close> cells; \<open>cells\<close> is what the caller then writes into the digits.\<close>

definition dec_alloc :: "(nat \<Rightarrow> bool) \<Rightarrow> int list \<Rightarrow> bson_decimal \<Rightarrow> bson_decimal dec_res" where
  "dec_alloc mem cells d =
     (if mem (length cells + 1) then Inr (d\<lparr>d_isOwn := True, d_front := [0], d_digits := cells\<rparr>) else Inl (Rc (- 2)))"

definition decimal_copy :: "(nat \<Rightarrow> bool) \<Rightarrow> bson_decimal \<Rightarrow> bson_decimal dec_res" where
  "decimal_copy mem s =
     (if mem (length (d_digits s) + 1) then Inr (s\<lparr>d_isOwn := True, d_front := [0]\<rparr>) else Inl (Rc (- 2)))"

definition dec_is_out_of_bound :: "bson_decimal \<Rightarrow> bool" where
  "dec_is_out_of_bound d \<longleftrightarrow> d_weight d \<ge> DECIMAL_MAX_WEIGHT \<or> d_dscale d > DECIMAL_MAX_DSCALE"

section \<open>Stripping, truncating, rounding\<close>

fun strip_leading :: "int list \<Rightarrow> int \<Rightarrow> int list \<Rightarrow> int list \<times> int \<times> int list" where
  "strip_leading front w (x # xs) = (if x = 0 then strip_leading (x # front) (w - 1) xs else (front, w, x # xs))"
| "strip_leading front w [] = (front, w, [])"

definition strip_trailing :: "int list \<Rightarrow> int list" where
  "strip_trailing ds = rev (dropWhile (\<lambda>x. x = 0) (rev ds))"

definition dec_strip :: "bson_decimal \<Rightarrow> bson_decimal" where
  "dec_strip d =
     (if \<not> d_isOwn d then d
      else (case strip_leading (d_front d) (d_weight d) (d_digits d) of (front, w, ds) \<Rightarrow>
        let ds' = strip_trailing ds in
        d\<lparr>d_front := front, d_digits := ds', d_weight := (if ds' = [] then 0 else w), d_sign := (if ds' = [] then SDB_DECIMAL_POS else d_sign d)\<rparr>))"

text \<open>The part of the digits that is kept, with the last one cut to \<open>di\<close> of its four decimal places when \<open>di\<close> is not 0.\<close>

definition dec_trunc :: "bson_decimal \<Rightarrow> int \<Rightarrow> bson_decimal" where
  "dec_trunc d rscale =
     (if \<not> d_isOwn d then d
      else (let d1 = d\<lparr>d_dscale := rscale\<rparr>; di = (d_weight d + 1) * DECIMAL_DEC_DIGITS + rscale in
        if di \<le> 0 then d1\<lparr>d_digits := [], d_weight := 0, d_sign := SDB_DECIMAL_POS\<rparr>
        else (let n = nat ((di + DECIMAL_DEC_DIGITS - 1) div DECIMAL_DEC_DIGITS); m = di mod DECIMAL_DEC_DIGITS in
          if n \<le> length (d_digits d)
          then (let ds = take n (d_digits d) in
            d1\<lparr>d_digits := (if m > 0 then ds[n - 1 := ds ! (n - 1) - (ds ! (n - 1)) mod round_powers m] else ds)\<rparr>)
          else d1)))"

text \<open>Adding 1 to the cells from the right to the left; the number of cells it reads.\<close>

fun carry_up :: "int list \<Rightarrow> (nat \<times> int list) option" where
  "carry_up [] = None"
| "carry_up (x # xs) =
     (if x + 1 \<ge> DECIMAL_NBASE then map_option (\<lambda>(k, ys). (Suc k, (x + 1 - DECIMAL_NBASE) # ys)) (carry_up xs) else Some (1, (x + 1) # xs))"

text \<open>The carry into the digits \<open>ds\<close> that are kept; \<open>rest\<close> is what follows them and stays.\<close>

definition round_carry :: "bson_decimal \<Rightarrow> int list \<Rightarrow> int list \<Rightarrow> bson_decimal dec_res" where
  "round_carry d ds rest =
     (case carry_up (rev ds @ d_front d) of
        None \<Rightarrow> Inl OutOfBuffer
      | Some (k, cells) \<Rightarrow>
          if k \<le> length ds then Inr (d\<lparr>d_digits := rev (take (length ds) cells) @ rest\<rparr>)
          else if k > Suc (length ds) then Inl (Rc (- 10))
          else Inr (d\<lparr>d_front := tl (d_front d), d_digits := rev (take (Suc (length ds)) cells) @ rest, d_weight := d_weight d + 1\<rparr>))"

definition decimal_round :: "bson_decimal \<Rightarrow> int \<Rightarrow> bson_decimal dec_res" where
  "decimal_round d rscale =
     (if \<not> d_isOwn d then Inl (Rc (- 6))
      else (let d1 = d\<lparr>d_dscale := rscale\<rparr>; di = (d_weight d + 1) * DECIMAL_DEC_DIGITS + rscale; ds = d_digits d in
        if di < 0 then Inr (d1\<lparr>d_digits := [], d_weight := 0, d_sign := SDB_DECIMAL_POS\<rparr>)
        else (let n = nat ((di + DECIMAL_DEC_DIGITS - 1) div DECIMAL_DEC_DIGITS); m = di mod DECIMAL_DEC_DIGITS in
          if n < length ds \<or> n = length ds \<and> m > 0
          then (if m = 0
                then (if ds ! n \<ge> DECIMAL_HALF_NBASE then round_carry d1 (take n ds) [] else Inr (d1\<lparr>d_digits := take n ds\<rparr>))
                else (let pow10 = round_powers m; x = ds ! (n - 1); extra = x mod pow10; base = x - extra in
                  if extra \<ge> pow10 div 2
                  then (if pow10 + base \<ge> DECIMAL_NBASE then round_carry d1 (take (n - 1) ds) [pow10 + base - DECIMAL_NBASE]
                        else Inr (d1\<lparr>d_digits := take (n - 1) ds @ [pow10 + base]\<rparr>))
                  else Inr (d1\<lparr>d_digits := take (n - 1) ds @ [base]\<rparr>)))
          else Inr d1)))"

section \<open>Precision\<close>

definition typmod_precision :: "int \<Rightarrow> int" where
  "typmod_precision t = (drop_bit 16 t) AND 0xffff"

definition typmod_scale :: "int \<Rightarrow> int" where
  "typmod_scale t = t AND 0xffff"

text \<open>Whether a number whose first digit has \<open>ddigits\<close> decimal places before the point has more than \<open>maxdigits\<close> of them.\<close>

fun too_wide :: "int \<Rightarrow> int \<Rightarrow> int list \<Rightarrow> bool" where
  "too_wide ddigits maxdigits [] \<longleftrightarrow> False"
| "too_wide ddigits maxdigits (x # xs) \<longleftrightarrow>
     (if x \<noteq> 0 then ddigits - (if x < 10 then 3 else if x < 100 then 2 else if x < 1000 then 1 else 0) > maxdigits
      else too_wide (ddigits - DECIMAL_DEC_DIGITS) maxdigits xs)"

definition over_digits :: "bson_decimal \<Rightarrow> int \<Rightarrow> bool" where
  "over_digits d maxdigits \<longleftrightarrow>
     (let ddigits = (d_weight d + 1) * DECIMAL_DEC_DIGITS in ddigits > maxdigits \<and> too_wide ddigits maxdigits (d_digits d))"

definition dec_apply_typmod :: "bson_decimal \<Rightarrow> int \<Rightarrow> bson_decimal dec_res" where
  "dec_apply_typmod d typmod =
     (if typmod = - 1 then Inr d
      else (case decimal_round d (typmod_scale typmod) of
              Inl err \<Rightarrow> Inl err
            | Inr d1 \<Rightarrow> if over_digits d1 (typmod_precision typmod - typmod_scale typmod) then Inl (Rc (- 10)) else Inr d1))"

definition decimal_get_typemod :: "bson_decimal \<Rightarrow> int \<times> int" where
  "decimal_get_typemod d = (if d_typemod d = - 1 then (- 1, - 1) else (typmod_precision (d_typemod d), typmod_scale (d_typemod d)))"

definition decimal_is_out_of_precision :: "bson_decimal \<Rightarrow> int \<Rightarrow> bool" where
  "decimal_is_out_of_precision d typmod \<longleftrightarrow>
     typmod \<noteq> - 1 \<and> (d_dscale d > typmod_scale typmod \<or> over_digits d (typmod_precision typmod - typmod_scale typmod))"

definition decimal_update_typemod :: "bson_decimal \<Rightarrow> int \<Rightarrow> bson_decimal dec_res" where
  "decimal_update_typemod d typmod =
     (if decimal_is_out_of_precision d typmod then Inr (d\<lparr>d_typemod := - 1\<rparr>)
      else if decimal_is_special d then Inr d
      else if decimal_is_zero d then Inr (d\<lparr>d_typemod := typmod\<rparr>)
      else (case dec_apply_typmod d typmod of Inl err \<Rightarrow> Inl err | Inr d1 \<Rightarrow> Inr (d1\<lparr>d_typemod := typmod\<rparr>)))"

section \<open>Comparing\<close>

text \<open>The digits in front of the first common one: the answer when one is not 0, otherwise what is left and its weight.\<close>

fun skip_zeros :: "int list \<Rightarrow> int \<Rightarrow> int \<Rightarrow> (int list \<times> int) option" where
  "skip_zeros (x # xs) w w2 = (if w > w2 then (if x \<noteq> 0 then None else skip_zeros xs (w - 1) w2) else Some (x # xs, w))"
| "skip_zeros [] w w2 = Some ([], w)"

fun cmp_rest :: "int list \<Rightarrow> int list \<Rightarrow> int" where
  "cmp_rest ds1 ds2 = (if \<exists>x\<in>set ds1. x \<noteq> 0 then 1 else if \<exists>x\<in>set ds2. x \<noteq> 0 then - 1 else 0)"

fun cmp_digits :: "int list \<Rightarrow> int list \<Rightarrow> int" where
  "cmp_digits (x # xs) (y # ys) = (if x - y \<noteq> 0 then (if x - y > 0 then 1 else - 1) else cmp_digits xs ys)"
| "cmp_digits xs ys = cmp_rest xs ys"

definition dec_cmp_abs :: "bson_decimal \<Rightarrow> bson_decimal \<Rightarrow> int" where
  "dec_cmp_abs l r =
     (case skip_zeros (d_digits l) (d_weight l) (d_weight r) of
        None \<Rightarrow> 1
      | Some (ds1, w1) \<Rightarrow>
          (case skip_zeros (d_digits r) (d_weight r) w1 of
             None \<Rightarrow> - 1
           | Some (ds2, w2) \<Rightarrow> if w1 = w2 then cmp_digits ds1 ds2 else cmp_rest ds1 ds2))"

definition decimal_cmp :: "bson_decimal \<Rightarrow> bson_decimal \<Rightarrow> int" where
  "decimal_cmp l r =
     (if decimal_is_min l then (if decimal_is_min r then 0 else - 1)
      else if decimal_is_min r then 1
      else if decimal_is_max l then (if decimal_is_max r then 0 else 1)
      else if decimal_is_max r then - 1
      else if decimal_is_nan l then (if decimal_is_nan r then 0 else - 1)
      else if decimal_is_nan r then 1
      else if d_digits l = [] then (if d_digits r = [] then 0 else if d_sign r = SDB_DECIMAL_NEG then 1 else - 1)
      else if d_digits r = [] then (if d_sign l = SDB_DECIMAL_POS then 1 else - 1)
      else if d_sign l = SDB_DECIMAL_POS then (if d_sign r = SDB_DECIMAL_NEG then 1 else dec_cmp_abs l r)
      else if d_sign r = SDB_DECIMAL_POS then - 1
      else dec_cmp_abs r l)"

section \<open>Adding and subtracting\<close>

text \<open>The digit at an index, 0 outside.\<close>

definition cell :: "int list \<Rightarrow> int \<Rightarrow> int" where
  "cell ds i = (if i \<ge> 0 \<and> i < int (length ds) then ds ! nat i else 0)"

text \<open>The loops over the digits of the result from the last to the first.\<close>

fun add_loop :: "nat \<Rightarrow> int list \<Rightarrow> int \<Rightarrow> int list \<Rightarrow> int \<Rightarrow> int \<Rightarrow> int list \<Rightarrow> int \<times> int list" where
  "add_loop 0 ls i1 rs i2 carry acc = (carry, acc)"
| "add_loop (Suc k) ls i1 rs i2 carry acc =
     (let c = carry + cell ls (i1 - 1) + cell rs (i2 - 1) in
      if c \<ge> DECIMAL_NBASE then add_loop k ls (i1 - 1) rs (i2 - 1) 1 ((c - DECIMAL_NBASE) # acc)
      else add_loop k ls (i1 - 1) rs (i2 - 1) 0 (c # acc))"

fun sub_loop :: "nat \<Rightarrow> int list \<Rightarrow> int \<Rightarrow> int list \<Rightarrow> int \<Rightarrow> int \<Rightarrow> int list \<Rightarrow> int \<times> int list" where
  "sub_loop 0 ls i1 rs i2 borrow acc = (borrow, acc)"
| "sub_loop (Suc k) ls i1 rs i2 borrow acc =
     (let b = borrow + cell ls (i1 - 1) - cell rs (i2 - 1) in
      if b < 0 then sub_loop k ls (i1 - 1) rs (i2 - 1) (- 1) ((b + DECIMAL_NBASE) # acc)
      else sub_loop k ls (i1 - 1) rs (i2 - 1) 0 (b # acc))"

definition rscale_of :: "bson_decimal \<Rightarrow> int" where
  "rscale_of d = int (length (d_digits d)) - d_weight d - 1"

text \<open>The result as both functions store it.\<close>

definition store_result :: "int \<Rightarrow> int \<Rightarrow> int list \<Rightarrow> bson_decimal" where
  "store_result weight dscale ds =
     dec_strip (decimal_init\<lparr>d_front := [0], d_digits := ds, d_weight := weight, d_dscale := dscale, d_isOwn := True\<rparr>)"

definition dec_sub_abs :: "(nat \<Rightarrow> bool) \<Rightarrow> bson_decimal \<Rightarrow> bson_decimal \<Rightarrow> bson_decimal dec_res" where
  "dec_sub_abs mem l r =
     (let res_weight = d_weight l;
          res_dscale = max (d_dscale l) (d_dscale r);
          res_rscale = max (rscale_of l) (rscale_of r);
          n = nat (if res_rscale + res_weight + 1 \<le> 0 then 1 else res_rscale + res_weight + 1)
      in if \<not> mem (n + 1) then Inl (Rc (- 2))
         else (case sub_loop n (d_digits l) (res_rscale + d_weight l + 1) (d_digits r) (res_rscale + d_weight r + 1) 0 [] of (borrow, ds) \<Rightarrow>
                 if borrow \<noteq> 0 then Inl (Rc (- 6)) else Inr (store_result res_weight res_dscale ds)))"

definition dec_add_abs :: "(nat \<Rightarrow> bool) \<Rightarrow> bson_decimal \<Rightarrow> bson_decimal \<Rightarrow> bson_decimal dec_res" where
  "dec_add_abs mem l r =
     (let res_weight = max (d_weight l) (d_weight r) + 1;
          res_dscale = max (d_dscale l) (d_dscale r);
          res_rscale = max (rscale_of l) (rscale_of r);
          n = nat (if res_rscale + res_weight + 1 \<le> 0 then 1 else res_rscale + res_weight + 1)
      in if \<not> mem (n + 1) then Inl (Rc (- 2))
         else (case add_loop n (d_digits l) (res_rscale + d_weight l + 1) (d_digits r) (res_rscale + d_weight r + 1) 0 [] of (carry, ds) \<Rightarrow>
                 if carry \<noteq> 0 then Inl (Rc (- 6)) else Inr (store_result res_weight res_dscale ds)))"

definition with_sign :: "int \<Rightarrow> bson_decimal dec_res \<Rightarrow> bson_decimal dec_res" where
  "with_sign s r = map_sum id (\<lambda>d. d\<lparr>d_sign := s\<rparr>) r"

text \<open>The result is another object than the operands here; when it is one of them, its display scale is already reset where it is read.\<close>

definition dec_zero :: "int \<Rightarrow> int \<Rightarrow> bson_decimal dec_res" where
  "dec_zero lscale rscale = Inr (decimal_set_zero\<lparr>d_dscale := max lscale rscale\<rparr>)"

definition dec_sub :: "(nat \<Rightarrow> bool) \<Rightarrow> bson_decimal \<Rightarrow> bson_decimal \<Rightarrow> bson_decimal dec_res" where
  "dec_sub mem l r =
     (if d_sign l = SDB_DECIMAL_POS
      then (if d_sign r = SDB_DECIMAL_NEG then with_sign SDB_DECIMAL_POS (dec_add_abs mem l r)
            else if dec_cmp_abs l r = 0 then dec_zero (d_dscale l) (d_dscale r)
            else if dec_cmp_abs l r = 1 then with_sign SDB_DECIMAL_POS (dec_sub_abs mem l r)
            else with_sign SDB_DECIMAL_NEG (dec_sub_abs mem r l))
      else (if d_sign r = SDB_DECIMAL_NEG
            then (if dec_cmp_abs l r = 0 then dec_zero (d_dscale l) (d_dscale r)
                  else if dec_cmp_abs l r = 1 then with_sign SDB_DECIMAL_NEG (dec_sub_abs mem l r)
                  else with_sign SDB_DECIMAL_POS (dec_sub_abs mem r l))
            else with_sign SDB_DECIMAL_NEG (dec_add_abs mem l r)))"

definition dec_add :: "(nat \<Rightarrow> bool) \<Rightarrow> bson_decimal \<Rightarrow> bson_decimal \<Rightarrow> bson_decimal dec_res" where
  "dec_add mem l r =
     (if d_sign l = SDB_DECIMAL_POS
      then (if d_sign r = SDB_DECIMAL_POS then with_sign SDB_DECIMAL_POS (dec_add_abs mem l r)
            else if dec_cmp_abs l r = 0 then dec_zero (d_dscale l) (d_dscale r)
            else if dec_cmp_abs l r = 1 then with_sign SDB_DECIMAL_POS (dec_sub_abs mem l r)
            else with_sign SDB_DECIMAL_NEG (dec_sub_abs mem r l))
      else (if d_sign r = SDB_DECIMAL_POS
            then (if dec_cmp_abs l r = 0 then dec_zero (d_dscale l) (d_dscale r)
                  else if dec_cmp_abs l r = 1 then with_sign SDB_DECIMAL_NEG (dec_sub_abs mem l r)
                  else with_sign SDB_DECIMAL_POS (dec_sub_abs mem r l))
            else with_sign SDB_DECIMAL_NEG (dec_add_abs mem l r)))"

definition bounded :: "bson_decimal dec_res \<Rightarrow> bson_decimal dec_res" where
  "bounded r = (case r of Inl err \<Rightarrow> Inl err | Inr d \<Rightarrow> if dec_is_out_of_bound d then Inl (Rc (- 6)) else Inr d)"

definition decimal_add :: "(nat \<Rightarrow> bool) \<Rightarrow> bson_decimal \<Rightarrow> bson_decimal \<Rightarrow> bson_decimal dec_res" where
  "decimal_add mem l r =
     (if decimal_is_special l \<or> decimal_is_special r then Inr decimal_set_nan else bounded (map_sum id dec_strip (dec_add mem l r)))"

definition decimal_sub :: "(nat \<Rightarrow> bool) \<Rightarrow> bson_decimal \<Rightarrow> bson_decimal \<Rightarrow> bson_decimal dec_res" where
  "decimal_sub mem l r =
     (if decimal_is_special l \<or> decimal_is_special r then Inr decimal_set_nan else bounded (map_sum id dec_strip (dec_sub mem l r)))"

definition decimal_abs :: "bson_decimal \<Rightarrow> bson_decimal dec_res" where
  "decimal_abs d = (if decimal_is_special d then Inl (Rc (- 6)) else Inr (d\<lparr>d_sign := SDB_DECIMAL_POS\<rparr>))"

end
