(* ===== verification/Bson_DecVal.thy ===== *)
theory Bson_DecVal
  imports Bson_Decimal
begin

text \<open>
  The value of a decimal as a rational number, and what stripping, comparing, adding and subtracting do to it.
\<close>

section \<open>Values\<close>

definition dig_ok :: "int list \<Rightarrow> bool" where
  "dig_ok ds \<longleftrightarrow> (\<forall>x\<in>set ds. 0 \<le> x \<and> x < DECIMAL_NBASE)"

lemma dig_ok_simps [simp]:
  "dig_ok []" "dig_ok (x # xs) \<longleftrightarrow> 0 \<le> x \<and> x < DECIMAL_NBASE \<and> dig_ok xs" "dig_ok (xs @ ys) \<longleftrightarrow> dig_ok xs \<and> dig_ok ys" "dig_ok (rev xs) \<longleftrightarrow> dig_ok xs"
  by (auto simp: dig_ok_def)

lemma dig_ok_nth: "dig_ok ds \<Longrightarrow> i < length ds \<Longrightarrow> 0 \<le> ds ! i \<and> ds ! i < DECIMAL_NBASE"
  by (simp add: dig_ok_def)

lemma dig_ok_sub: "dig_ok ds \<Longrightarrow> set xs \<subseteq> set ds \<Longrightarrow> dig_ok xs"
  by (auto simp: dig_ok_def)

lemma dig_ok_take: "dig_ok ds \<Longrightarrow> dig_ok (take n ds)" and dig_ok_drop: "dig_ok ds \<Longrightarrow> dig_ok (drop n ds)"
  by (auto intro: dig_ok_sub dest: in_set_takeD in_set_dropD)

text \<open>The digits as one number, by Horner, and their value when the first counts \<open>10000 ^ w\<close>.\<close>

fun num :: "int list \<Rightarrow> int" where
  "num [] = 0"
| "num (x # xs) = x * DECIMAL_NBASE ^ length xs + num xs"

fun dval :: "int list \<Rightarrow> int \<Rightarrow> rat" where
  "dval [] w = 0"
| "dval (x # xs) w = of_int x * 10000 powi w + dval xs (w - 1)"

definition dec_val :: "bson_decimal \<Rightarrow> rat" where
  "dec_val d = (if d_sign d = SDB_DECIMAL_NEG then - dval (d_digits d) (d_weight d) else dval (d_digits d) (d_weight d))"

lemma num_append: "num (xs @ ys) = num xs * DECIMAL_NBASE ^ length ys + num ys"
  by (induction xs) (simp_all add: power_add algebra_simps)

lemma num_bound: "dig_ok ds \<Longrightarrow> 0 \<le> num ds \<and> num ds < DECIMAL_NBASE ^ length ds"
proof (induction ds)
  case (Cons x xs)
  then have "num xs < 10000 ^ length xs" "0 \<le> num xs" "0 \<le> x" "x \<le> 9999" by auto
  moreover have "x * 10000 ^ length xs \<le> 9999 * 10000 ^ length xs" using \<open>x \<le> 9999\<close> by (rule mult_right_mono) simp
  moreover have "0 \<le> x * 10000 ^ length xs" using \<open>0 \<le> x\<close> by simp
  ultimately show ?case unfolding num.simps list.size power_Suc add_Suc_right add_0_right by linarith
qed simp

lemma powi_step: "(10000::rat) powi w = 10000 powi (w - int n) * 10000 ^ n"
  using power_int_add [of "10000::rat" "w - int n" "int n"] by simp

lemma dval_num: "dval ds w = of_int (num ds) * 10000 powi (w + 1 - int (length ds))"
proof (induction ds arbitrary: w)
  case (Cons x xs)
  have "(10000::rat) powi w = 10000 powi (w - int (length xs)) * 10000 ^ length xs" by (rule powi_step)
  then show ?case using Cons.IH [of "w - 1"] by (simp add: algebra_simps)
qed simp

lemma dval_append: "dval (xs @ ys) w = dval xs w + dval ys (w - int (length xs))"
  by (induction xs arbitrary: w) (simp_all add: algebra_simps)

lemma powi_pos [simp]: "0 < (10000::rat) powi w"
  by simp

lemma dval_bound: assumes "dig_ok ds" shows "0 \<le> dval ds w" "dval ds w < 10000 powi (w + 1)"
proof -
  have n: "0 \<le> num ds" "num ds < 10000 ^ length ds" using num_bound [OF assms] by auto
  show "0 \<le> dval ds w" using n(1) by (simp add: dval_num)
  have "(of_int (num ds) :: rat) < of_int (10000 ^ length ds)" using n(2) by (simp only: of_int_less_iff)
  then have "dval ds w < 10000 ^ length ds * 10000 powi (w + 1 - int (length ds))"
    unfolding dval_num by (intro mult_strict_right_mono) simp_all
  also have "\<dots> = 10000 powi (w + 1)" using powi_step [of "w + 1" "length ds"] by simp
  finally show "dval ds w < 10000 powi (w + 1)" .
qed

lemma dval_zero_iff: "dig_ok ds \<Longrightarrow> dval ds w = 0 \<longleftrightarrow> (\<forall>x\<in>set ds. x = 0)"
proof (induction ds arbitrary: w)
  case (Cons x xs)
  then have "0 \<le> dval xs (w - 1)" "0 \<le> of_int x * (10000::rat) powi w" using dval_bound(1) [of xs] by auto
  then have "dval (x # xs) w = 0 \<longleftrightarrow> of_int x * (10000::rat) powi w = 0 \<and> dval xs (w - 1) = 0" by (auto simp: add_nonneg_eq_0_iff)
  then show ?case using Cons by auto
qed simp

lemma dval_pos: "dig_ok ds \<Longrightarrow> x \<in> set ds \<Longrightarrow> x \<noteq> 0 \<Longrightarrow> 0 < dval ds w"
  using dval_zero_iff [of ds w] dval_bound(1) [of ds w] by force

lemma dval_first: assumes "dig_ok (x # xs)" "x \<noteq> 0" shows "10000 powi w \<le> dval (x # xs) w"
proof -
  have "1 * (10000::rat) powi w \<le> of_int x * 10000 powi w" using assms by (intro mult_right_mono) auto
  moreover have "0 \<le> dval xs (w - 1)" using dval_bound(1) assms(1) by simp
  ultimately show ?thesis unfolding dval.simps by linarith
qed

section \<open>Stripping\<close>

text \<open>Stripped digits begin and end with digits other than 0.\<close>

definition stripped :: "int list \<Rightarrow> bool" where
  "stripped ds \<longleftrightarrow> (ds \<noteq> [] \<longrightarrow> hd ds \<noteq> 0 \<and> last ds \<noteq> 0)"

lemma strip_leading_spec:
  "strip_leading front w ds = (front', w', ds') \<Longrightarrow>
     dval ds' w' = dval ds w \<and> (ds' \<noteq> [] \<longrightarrow> hd ds' \<noteq> 0) \<and> w' - int (length ds') = w - int (length ds) \<and> length ds' \<le> length ds
     \<and> (\<exists>n. ds' = drop n ds \<and> front' = replicate n 0 @ front)"
proof (induction front w ds rule: strip_leading.induct)
  case (1 front w x xs)
  show ?case
  proof (cases "x = 0")
    case True
    then have s: "strip_leading (0 # front) (w - 1) xs = (front', w', ds')" using "1.prems" by simp
    from "1.IH" [OF True] s True obtain n where n: "ds' = drop n xs" "front' = replicate n 0 @ 0 # front" by auto
    then have "ds' = drop (Suc n) (x # xs) \<and> front' = replicate (Suc n) 0 @ front"
      by (simp add: replicate_append_same [symmetric] flip: append_assoc)
    then show ?thesis using "1.IH" [OF True] s True by (intro conjI) (auto intro: exI [of _ "Suc n"])
  next
    case False
    then show ?thesis using "1.prems" by (auto intro: exI [of _ 0])
  qed
qed auto

lemma strip_trailing_spec: "\<exists>k. ds = strip_trailing ds @ replicate k 0"
proof -
  have "rev ds = takeWhile (\<lambda>x. x = 0) (rev ds) @ dropWhile (\<lambda>x. x = 0) (rev ds)" by simp
  moreover have "takeWhile (\<lambda>x. x = 0) (rev ds) = replicate (length (takeWhile (\<lambda>x. x = 0) (rev ds))) 0"
    by (intro replicate_length_same [symmetric]) (auto dest: set_takeWhileD)
  ultimately have "ds = rev (dropWhile (\<lambda>x. x = 0) (rev ds)) @ replicate (length (takeWhile (\<lambda>x. x = 0) (rev ds))) 0"
    by (metis rev_append rev_replicate rev_rev_ident)
  then show ?thesis unfolding strip_trailing_def by blast
qed

lemma strip_trailing_last: "strip_trailing ds \<noteq> [] \<Longrightarrow> last (strip_trailing ds) \<noteq> 0"
  using hd_dropWhile [of "\<lambda>x. x = 0" "rev ds"] by (auto simp: strip_trailing_def last_rev)

lemma dval_zeros [simp]: "dval (replicate k 0) w = 0"
  by (induction k arbitrary: w) auto

lemma strip_trailing_val: "dval (strip_trailing ds) w = dval ds w"
proof -
  obtain k where "ds = strip_trailing ds @ replicate k 0" using strip_trailing_spec by blast
  then have "dval ds w = dval (strip_trailing ds @ replicate k 0) w" by (rule arg_cong)
  then show ?thesis by (simp add: dval_append)
qed

lemma strip_trailing_hd: "strip_trailing ds \<noteq> [] \<Longrightarrow> hd (strip_trailing ds) = hd ds"
  using strip_trailing_spec [of ds] by (metis hd_append2)

definition nonspecial :: "bson_decimal \<Rightarrow> bool" where
  "nonspecial d \<longleftrightarrow> d_sign d = SDB_DECIMAL_POS \<or> d_sign d = SDB_DECIMAL_NEG"

text \<open>What an operation may rely on: digits below the base, the first one not 0.\<close>

definition canonical :: "bson_decimal \<Rightarrow> bool" where
  "canonical d \<longleftrightarrow> nonspecial d \<and> dig_ok (d_digits d) \<and> (d_digits d \<noteq> [] \<longrightarrow> hd (d_digits d) \<noteq> 0)"

lemma dec_strip_fields [simp]:
  "d_isOwn (dec_strip d) = d_isOwn d" "d_dscale (dec_strip d) = d_dscale d" "d_typemod (dec_strip d) = d_typemod d"
  by (simp_all add: dec_strip_def Let_def split: prod.splits)

lemma dec_strip_spec:
  assumes "d_isOwn d" and "nonspecial d" and "dig_ok (d_digits d)"
  shows "dec_val (dec_strip d) = dec_val d \<and> canonical (dec_strip d) \<and> stripped (d_digits (dec_strip d)) \<and> d_weight (dec_strip d) \<le> max 0 (d_weight d)
    \<and> (d_digits (dec_strip d) \<noteq> [] \<longrightarrow> d_sign (dec_strip d) = d_sign d \<and> d_weight (dec_strip d) \<le> d_weight d)"
proof -
  obtain f w ds where s: "strip_leading (d_front d) (d_weight d) (d_digits d) = (f, w, ds)" by (cases "strip_leading (d_front d) (d_weight d) (d_digits d)")
  note S = strip_leading_spec [OF s]
  let ?ds = "strip_trailing ds"
  have r: "d_digits (dec_strip d) = ?ds" "d_weight (dec_strip d) = (if ?ds = [] then 0 else w)" "d_sign (dec_strip d) = (if ?ds = [] then SDB_DECIMAL_POS else d_sign d)"
    using assms(1) s by (simp_all add: dec_strip_def Let_def)
  have v: "dval ?ds w = dval (d_digits d) (d_weight d)" using S by (simp add: strip_trailing_val)
  have ok: "dig_ok ?ds"
  proof -
    have "set ds \<subseteq> set (d_digits d)" using S by (auto dest: in_set_dropD)
    moreover have "set ?ds \<subseteq> set ds" using strip_trailing_spec [of ds] by (metis Un_upper1 set_append)
    ultimately show ?thesis using dig_ok_sub [OF assms(3)] by blast
  qed
  have hd: "?ds \<noteq> [] \<Longrightarrow> hd ?ds \<noteq> 0"
  proof -
    assume ne: "?ds \<noteq> []"
    then have "ds \<noteq> []" by (auto simp: strip_trailing_def)
    then show ?thesis using S ne strip_trailing_hd [OF ne] by simp
  qed
  have "w \<le> d_weight d" using S by linarith
  moreover have "dec_val (dec_strip d) = dec_val d"
  proof (cases "?ds = []")
    case True
    then have "dval (d_digits d) (d_weight d) = 0" using v by simp
    then show ?thesis using True by (simp add: dec_val_def r)
  qed (use v in \<open>simp add: dec_val_def r\<close>)
  moreover have "canonical (dec_strip d)" using assms(2) ok hd by (auto simp: canonical_def nonspecial_def r)
  moreover have "stripped ?ds" using hd strip_trailing_last by (auto simp: stripped_def)
  ultimately show ?thesis by (auto simp: r)
qed


section \<open>Comparing\<close>

definition cmp3 :: "rat \<Rightarrow> rat \<Rightarrow> int" where
  "cmp3 a b = (if a < b then - 1 else if a = b then 0 else 1)"

lemma skip_zeros_None:
  "skip_zeros ds w w2 = None \<Longrightarrow> dig_ok ds \<Longrightarrow> 10000 powi (w2 + 1) \<le> dval ds w"
proof (induction ds w w2 rule: skip_zeros.induct)
  case (1 x xs w w2)
  then have w: "w > w2" by (auto split: if_splits)
  show ?case
  proof (cases "x = 0")
    case True
    then show ?thesis using 1 w by auto
  next
    case False
    have "(10000::rat) powi (w2 + 1) \<le> 10000 powi w" using w by (intro power_int_increasing) auto
    then show ?thesis using dval_first [OF "1.prems"(2) False, of w] by linarith
  qed
qed simp

lemma skip_zeros_Some:
  "skip_zeros ds w w2 = Some (ds', w') \<Longrightarrow> dval ds' w' = dval ds w \<and> set ds' \<subseteq> set ds \<and> (w' \<le> w2 \<or> ds' = []) \<and> (w \<le> w2 \<longrightarrow> w' = w) \<and> (w2 \<le> w \<longrightarrow> w2 \<le> w')"
proof (induction ds w w2 rule: skip_zeros.induct)
  case (1 x xs w w2)
  show ?case
  proof (cases "w > w2")
    case True
    then have "x = 0" "skip_zeros xs (w - 1) w2 = Some (ds', w')" using "1.prems" by (auto split: if_splits)
    then show ?thesis using "1.IH" True by auto
  next
    case False
    then show ?thesis using "1.prems" by auto
  qed
qed auto

lemma cmp_rest_spec:
  assumes "dig_ok ds1" "dig_ok ds2" "ds1 = [] \<or> ds2 = []"
  shows "cmp_rest ds1 ds2 = cmp3 (dval ds1 w1) (dval ds2 w2)"
proof -
  have "dval ds1 w1 = 0 \<longleftrightarrow> \<not> (\<exists>x\<in>set ds1. x \<noteq> 0)" "dval ds2 w2 = 0 \<longleftrightarrow> \<not> (\<exists>x\<in>set ds2. x \<noteq> 0)"
    using dval_zero_iff assms by auto
  moreover have "0 \<le> dval ds1 w1" "0 \<le> dval ds2 w2" using dval_bound(1) assms by auto
  moreover have "dval ds1 w1 = 0 \<or> dval ds2 w2 = 0" using assms(3) by auto
  ultimately show ?thesis by (auto simp: cmp3_def)
qed

declare cmp_rest.simps [simp del]

lemma dval_less_first:
  assumes "dig_ok (x # xs)" "dig_ok (y # ys)" "x < y"
  shows "dval (x # xs) w < dval (y # ys) w"
proof -
  have "of_int (x + 1) * (10000::rat) powi w \<le> of_int y * 10000 powi w" using assms(3) by (intro mult_right_mono) (auto simp flip: of_int_add)
  moreover have "dval xs (w - 1) < 10000 powi w" "0 \<le> dval ys (w - 1)" using dval_bound [of xs "w - 1"] dval_bound [of ys "w - 1"] assms by auto
  ultimately show ?thesis by (simp add: algebra_simps)
qed

lemma cmp_digits_spec: "dig_ok xs \<Longrightarrow> dig_ok ys \<Longrightarrow> cmp_digits xs ys = cmp3 (dval xs w) (dval ys w)"
proof (induction xs ys arbitrary: w rule: cmp_digits.induct)
  case (1 x xs y ys)
  consider "x < y" | "x = y" | "y < x" by linarith
  then show ?case
  proof cases
    case 1
    then show ?thesis using dval_less_first [OF "1.prems", of w] by (auto simp: cmp3_def simp del: dval.simps)
  next
    case 2
    then show ?thesis using "1.IH" [of "w - 1"] "1.prems" by (auto simp: cmp3_def)
  next
    case 3
    then show ?thesis using dval_less_first [OF "1.prems"(2,1), of w] by (auto simp: cmp3_def simp del: dval.simps)
  qed
next
  case "2_1"
  then show ?case using cmp_rest_spec [of "[]" _ w w] by simp
next
  case "2_2"
  then show ?case using cmp_rest_spec [of _ "[]" w w] by simp
qed

lemma dec_cmp_abs_spec:
  assumes "dig_ok (d_digits l)" "dig_ok (d_digits r)"
  shows "dec_cmp_abs l r = cmp3 (dval (d_digits l) (d_weight l)) (dval (d_digits r) (d_weight r))"
proof (cases "skip_zeros (d_digits l) (d_weight l) (d_weight r)")
  case None
  then show ?thesis using skip_zeros_None [OF None assms(1)] dval_bound(2) [OF assms(2), of "d_weight r"] by (simp add: dec_cmp_abs_def cmp3_def)
next
  case (Some a)
  obtain ds1 w1 where a: "a = (ds1, w1)" by (cases a)
  note S1 = skip_zeros_Some [OF Some [unfolded a]]
  have ok1: "dig_ok ds1" using S1 dig_ok_sub [OF assms(1)] by blast
  show ?thesis
  proof (cases "skip_zeros (d_digits r) (d_weight r) w1")
    case None
    then show ?thesis using skip_zeros_None [OF None assms(2)] dval_bound(2) [OF ok1, of w1] S1 Some by (simp add: dec_cmp_abs_def cmp3_def a)
  next
    case (Some b)
    obtain ds2 w2 where b: "b = (ds2, w2)" by (cases b)
    note S2 = skip_zeros_Some [OF Some [unfolded b]]
    have ok2: "dig_ok ds2" using S2 dig_ok_sub [OF assms(2)] by blast
    have e: "dec_cmp_abs l r = (if w1 = w2 then cmp_digits ds1 ds2 else cmp_rest ds1 ds2)"
      using \<open>skip_zeros (d_digits l) (d_weight l) (d_weight r) = Some a\<close> Some by (simp add: dec_cmp_abs_def a b)
    show ?thesis
    proof (cases "w1 = w2")
      case True
      then show ?thesis using S1 S2 cmp_digits_spec [OF ok1 ok2, of w2] by (simp add: e)
    next
      case False
      then have "ds1 = [] \<or> ds2 = []" using S1 S2 by linarith
      then show ?thesis using cmp_rest_spec [OF ok1 ok2, of w1 w2] S1 S2 False by (simp add: e)
    qed
  qed
qed

text \<open>The order of the special values among themselves and against the numbers: the minimum, not a number, the numbers, the maximum.\<close>

definition dec_rank :: "bson_decimal \<Rightarrow> int" where
  "dec_rank d = (if decimal_is_min d then 0 else if decimal_is_nan d then 1 else if decimal_is_max d then 3 else 2)"

definition cmp_spec :: "bson_decimal \<Rightarrow> bson_decimal \<Rightarrow> int" where
  "cmp_spec l r = (if dec_rank l = 2 \<and> dec_rank r = 2 then cmp3 (dec_val l) (dec_val r) else cmp3 (of_int (dec_rank l)) (of_int (dec_rank r)))"

definition dec_wf :: "bson_decimal \<Rightarrow> bool" where
  "dec_wf d \<longleftrightarrow> canonical d \<or> decimal_is_min d \<or> decimal_is_nan d \<or> decimal_is_max d"

lemma canonical_pos: "canonical d \<Longrightarrow> d_digits d \<noteq> [] \<Longrightarrow> 0 < dval (d_digits d) (d_weight d)"
  using dval_pos [of "d_digits d" "hd (d_digits d)"] by (simp add: canonical_def)

lemma canonical_rank: "canonical d \<Longrightarrow> dec_rank d = 2 \<and> \<not> decimal_is_min d \<and> \<not> decimal_is_max d \<and> \<not> decimal_is_nan d \<and> \<not> decimal_is_special d"
  by (auto simp: dec_rank_def decimal_is_min_def decimal_is_max_def decimal_is_nan_def decimal_is_special_def canonical_def nonspecial_def)

lemma cmp_canonical:
  assumes "canonical l" "canonical r"
  shows "decimal_cmp l r = cmp3 (dec_val l) (dec_val r)"
proof -
  let ?l = "dval (d_digits l) (d_weight l)" and ?r = "dval (d_digits r) (d_weight r)"
  have ok: "dig_ok (d_digits l)" "dig_ok (d_digits r)" and sg: "d_sign l = 0 \<or> d_sign l = 0x4000" "d_sign r = 0 \<or> d_sign r = 0x4000"
    using assms by (auto simp: canonical_def nonspecial_def)
  have pos: "d_digits l \<noteq> [] \<Longrightarrow> 0 < ?l" "d_digits r \<noteq> [] \<Longrightarrow> 0 < ?r" and zero: "d_digits l = [] \<Longrightarrow> ?l = 0" "d_digits r = [] \<Longrightarrow> ?r = 0"
    using assms canonical_pos by auto
  have "cmp3 (- ?l) (- ?r) = cmp3 ?r ?l" by (auto simp: cmp3_def)
  then show ?thesis
    using canonical_rank [OF assms(1)] canonical_rank [OF assms(2)] sg pos zero dec_cmp_abs_spec [OF ok] dec_cmp_abs_spec [OF ok(2,1)]
    by (cases "d_digits l = []"; cases "d_digits r = []"; cases "d_sign l = 0"; cases "d_sign r = 0")
      (auto simp: decimal_cmp_def dec_val_def cmp3_def)
qed



end
