(* ===== verification/Bson_DecAdd.thy ===== *)
theory Bson_DecAdd
  imports Bson_DecVal
begin

text \<open>
  Addition and subtraction of decimals are exact.
\<close>

section \<open>The loops\<close>

text \<open>The number that the \<open>k\<close> cells in front of index \<open>i\<close> make.\<close>

fun win :: "int list \<Rightarrow> int \<Rightarrow> nat \<Rightarrow> int" where
  "win ds i 0 = 0"
| "win ds i (Suc k) = cell ds (i - 1) + DECIMAL_NBASE * win ds (i - 1) k"

lemma cell_ok: "dig_ok ds \<Longrightarrow> 0 \<le> cell ds i \<and> cell ds i < DECIMAL_NBASE"
  using dig_ok_nth [of ds "nat i"] by (auto simp: cell_def)

lemma win_negative: "i \<le> 0 \<Longrightarrow> win ds i k = 0"
  by (induction ds i k rule: win.induct) (simp_all add: cell_def)

lemma cell_snoc: "i < int (length ds) \<Longrightarrow> cell (ds @ [x]) i = cell ds i"
  by (auto simp: cell_def nth_append)

lemma win_snoc: "i \<le> int (length ds) \<Longrightarrow> win (ds @ [x]) i k = win ds i k"
  by (induction k arbitrary: i) (simp_all add: cell_snoc)

lemma win_all: "int (length ds) \<le> i \<Longrightarrow> i \<le> int k \<Longrightarrow> win ds i k = num ds * DECIMAL_NBASE ^ nat (i - int (length ds))"
proof (induction k arbitrary: ds i)
  case 0
  then have "ds = []" by (cases ds) auto
  then show ?case by simp
next
  case (Suc k)
  show ?case
  proof (cases "i = int (length ds)")
    case True
    show ?thesis
    proof (cases ds rule: rev_cases)
      case Nil
      then show ?thesis using True win_negative [of "- 1"] by (simp add: cell_def)
    next
      case (snoc ys x)
      have "win (ys @ [x]) (int (length ys)) k = win ys (int (length ys)) k" by (rule win_snoc) simp
      also have "\<dots> = num ys" using Suc.IH [of ys "int (length ys)"] Suc.prems True snoc by simp
      finally show ?thesis using True by (simp add: snoc cell_def num_append)
    qed
  next
    case False
    then have "win ds (i - 1) k = num ds * DECIMAL_NBASE ^ nat (i - 1 - int (length ds))" using Suc by simp
    moreover have "nat (i - int (length ds)) = Suc (nat (i - 1 - int (length ds)))" using False Suc.prems by linarith
    ultimately show ?thesis using False Suc.prems by (simp add: cell_def)
  qed
qed

lemma add_loop_spec:
  assumes "dig_ok ls" "dig_ok rs"
  shows "add_loop k ls i1 rs i2 c acc = (c', acc') \<Longrightarrow> c \<in> {0, 1} \<Longrightarrow>
    \<exists>new. acc' = new @ acc \<and> length new = k \<and> dig_ok new \<and> c' \<in> {0, 1} \<and> num new + c' * DECIMAL_NBASE ^ k = c + win ls i1 k + win rs i2 k"
proof (induction k arbitrary: i1 i2 c acc)
  case (Suc k)
  define s where "s = c + cell ls (i1 - 1) + cell rs (i2 - 1)"
  define x where "x = (if s \<ge> DECIMAL_NBASE then s - DECIMAL_NBASE else s)"
  define c1 where "c1 = (if s \<ge> DECIMAL_NBASE then 1 else 0 :: int)"
  have x: "0 \<le> x" "x < DECIMAL_NBASE" "s = x + DECIMAL_NBASE * c1" "c1 \<in> {0, 1}"
    using cell_ok [OF assms(1), of "i1 - 1"] cell_ok [OF assms(2), of "i2 - 1"] Suc.prems(2) by (auto simp: s_def x_def c1_def)
  have "add_loop k ls (i1 - 1) rs (i2 - 1) c1 (x # acc) = (c', acc')" using Suc.prems(1) by (auto simp: s_def x_def c1_def Let_def)
  from Suc.IH [OF this x(4)] obtain new where n: "acc' = new @ x # acc" "length new = k" "dig_ok new" "c' \<in> {0, 1}"
      "num new + c' * DECIMAL_NBASE ^ k = c1 + win ls (i1 - 1) k + win rs (i2 - 1) k" by blast
  have "num (new @ [x]) + c' * DECIMAL_NBASE ^ Suc k = DECIMAL_NBASE * (num new + c' * DECIMAL_NBASE ^ k) + x" by (simp add: num_append algebra_simps)
  also have "\<dots> = s + DECIMAL_NBASE * (win ls (i1 - 1) k + win rs (i2 - 1) k)" unfolding n(5) x(3) by (simp add: algebra_simps)
  finally show ?case using n x(1,2) by (intro exI [of _ "new @ [x]"]) (simp add: s_def algebra_simps)
qed simp

lemma sub_loop_spec:
  assumes "dig_ok ls" "dig_ok rs"
  shows "sub_loop k ls i1 rs i2 b acc = (b', acc') \<Longrightarrow> b \<in> {0, - 1} \<Longrightarrow>
    \<exists>new. acc' = new @ acc \<and> length new = k \<and> dig_ok new \<and> b' \<in> {0, - 1} \<and> num new + b' * DECIMAL_NBASE ^ k = b + win ls i1 k - win rs i2 k"
proof (induction k arbitrary: i1 i2 b acc)
  case (Suc k)
  define s where "s = b + cell ls (i1 - 1) - cell rs (i2 - 1)"
  define x where "x = (if s < 0 then s + DECIMAL_NBASE else s)"
  define b1 where "b1 = (if s < 0 then - 1 else 0 :: int)"
  have x: "0 \<le> x" "x < DECIMAL_NBASE" "s = x + DECIMAL_NBASE * b1" "b1 \<in> {0, - 1}"
    using cell_ok [OF assms(1), of "i1 - 1"] cell_ok [OF assms(2), of "i2 - 1"] Suc.prems(2) by (auto simp: s_def x_def b1_def)
  have "sub_loop k ls (i1 - 1) rs (i2 - 1) b1 (x # acc) = (b', acc')" using Suc.prems(1) by (auto simp: s_def x_def b1_def Let_def)
  from Suc.IH [OF this x(4)] obtain new where n: "acc' = new @ x # acc" "length new = k" "dig_ok new" "b' \<in> {0, - 1}"
      "num new + b' * DECIMAL_NBASE ^ k = b1 + win ls (i1 - 1) k - win rs (i2 - 1) k" by blast
  have "num (new @ [x]) + b' * DECIMAL_NBASE ^ Suc k = DECIMAL_NBASE * (num new + b' * DECIMAL_NBASE ^ k) + x" by (simp add: num_append algebra_simps)
  also have "\<dots> = s + DECIMAL_NBASE * (win ls (i1 - 1) k - win rs (i2 - 1) k)" unfolding n(5) x(3) by (simp add: algebra_simps)
  finally show ?case using n x(1,2) by (intro exI [of _ "new @ [x]"]) (simp add: s_def algebra_simps)
qed simp

text \<open>Digits scaled to \<open>rs\<close> places behind the point.\<close>

lemma scaled_val:
  assumes "int (length ds) \<le> rs + w + 1"
  shows "of_int (num ds * DECIMAL_NBASE ^ nat (rs + w + 1 - int (length ds))) * (10000::rat) powi (- rs) = dval ds w"
proof -
  have "w + 1 - int (length ds) = - rs + int (nat (rs + w + 1 - int (length ds)))" using assms by simp
  then have "(10000::rat) powi (w + 1 - int (length ds)) = 10000 powi (- rs) * 10000 ^ nat (rs + w + 1 - int (length ds))"
    by (metis power_int_add power_int_of_nat zero_neq_numeral)
  then show ?thesis by (simp add: dval_num)
qed

section \<open>Absolute values\<close>

definition plain :: "bson_decimal \<Rightarrow> bool" where
  "plain d \<longleftrightarrow> d_isOwn d \<and> canonical d \<and> stripped (d_digits d) \<and> (d_digits d = [] \<longrightarrow> d_weight d = 0)"

lemma store_result_spec:
  assumes "dig_ok ds"
  shows "plain (store_result w dscale ds)" "dval (d_digits (store_result w dscale ds)) (d_weight (store_result w dscale ds)) = dval ds w"
    "d_dscale (store_result w dscale ds) = dscale" "d_sign (store_result w dscale ds) = SDB_DECIMAL_POS" "d_typemod (store_result w dscale ds) = - 1"
proof -
  define d where "d = decimal_init\<lparr>d_front := [0], d_digits := ds, d_weight := w, d_dscale := dscale, d_isOwn := True\<rparr>"
  have r: "store_result w dscale ds = dec_strip d" by (simp add: store_result_def d_def)
  have d: "d_isOwn d" "nonspecial d" "dig_ok (d_digits d)" "d_sign d = SDB_DECIMAL_POS" using assms by (auto simp: d_def nonspecial_def decimal_init_def)
  note S = dec_strip_spec [OF d(1-3)]
  show sg: "d_sign (store_result w dscale ds) = SDB_DECIMAL_POS" unfolding r using d by (simp add: dec_strip_def Let_def split: prod.splits)
  show "dval (d_digits (store_result w dscale ds)) (d_weight (store_result w dscale ds)) = dval ds w"
    using S sg d(4) by (simp add: r dec_val_def d_def)
  have "d_digits (dec_strip d) = [] \<Longrightarrow> d_weight (dec_strip d) = 0" using d(1) by (simp add: dec_strip_def Let_def split: prod.splits)
  then show "plain (store_result w dscale ds)" using S d(1) by (simp add: r plain_def)
  show "d_dscale (store_result w dscale ds) = dscale" by (simp add: r d_def)
  show "d_typemod (store_result w dscale ds) = - 1" by (simp add: r d_def decimal_init_def)
qed

lemma dec_add_abs_spec:
  assumes "dig_ok (d_digits l)" "dig_ok (d_digits r)" "\<forall>n. mem n"
  shows "\<exists>d. dec_add_abs mem l r = Inr d \<and> plain d \<and> d_sign d = SDB_DECIMAL_POS \<and> d_dscale d = max (d_dscale l) (d_dscale r)
    \<and> dval (d_digits d) (d_weight d) = dval (d_digits l) (d_weight l) + dval (d_digits r) (d_weight r)"
proof -
  let ?L = "d_digits l" and ?R = "d_digits r"
  define w where "w = max (d_weight l) (d_weight r) + 1"
  define rs where "rs = max (rscale_of l) (rscale_of r)"
  have i: "int (length ?L) \<le> rs + d_weight l + 1" "int (length ?R) \<le> rs + d_weight r + 1" by (auto simp: rs_def rscale_of_def)
  then have pos: "0 < rs + w + 1" and le: "rs + d_weight l + 1 < rs + w + 1" "rs + d_weight r + 1 < rs + w + 1" by (auto simp: w_def)
  define n where "n = nat (rs + w + 1)"
  obtain c ds where a: "add_loop n ?L (rs + d_weight l + 1) ?R (rs + d_weight r + 1) 0 [] = (c, ds)" by fastforce
  define p where "p = num ?L * DECIMAL_NBASE ^ nat (rs + d_weight l + 1 - int (length ?L))"
  define q where "q = num ?R * DECIMAL_NBASE ^ nat (rs + d_weight r + 1 - int (length ?R))"
  have "win ?L (rs + d_weight l + 1) n = p" "win ?R (rs + d_weight r + 1) n = q"
    unfolding p_def q_def using i le by (auto intro!: win_all simp: n_def)
  then have ds: "length ds = n" "dig_ok ds" "c \<in> {0, 1}" "num ds + c * DECIMAL_NBASE ^ n = p + q"
    using add_loop_spec [OF assms(1,2) a] by auto
  have bound: "num xs * DECIMAL_NBASE ^ nat (rs + v + 1 - int (length xs)) < DECIMAL_NBASE ^ (n - 1)"
    if x: "dig_ok xs" "int (length xs) \<le> rs + v + 1" "v < w" for xs v
  proof -
    have "num xs * DECIMAL_NBASE ^ nat (rs + v + 1 - int (length xs)) < DECIMAL_NBASE ^ length xs * DECIMAL_NBASE ^ nat (rs + v + 1 - int (length xs))"
      using num_bound [OF x(1)] by (intro mult_strict_right_mono) auto
    also have "\<dots> = DECIMAL_NBASE ^ nat (rs + v + 1)" using x(2) by (simp flip: power_add nat_add_distrib add: nat_diff_distrib)
    also have "\<dots> \<le> DECIMAL_NBASE ^ (n - 1)" using x(3) by (intro power_increasing) (auto simp: n_def)
    finally show ?thesis .
  qed
  have "DECIMAL_NBASE ^ n = DECIMAL_NBASE * DECIMAL_NBASE ^ (n - 1)" using pos by (cases n) (auto simp: n_def)
  moreover have "p < DECIMAL_NBASE ^ (n - 1)" "q < DECIMAL_NBASE ^ (n - 1)"
    unfolding p_def q_def using bound [OF assms(1) i(1)] bound [OF assms(2) i(2)] le by auto
  moreover have "0 < DECIMAL_NBASE ^ (n - 1)" by simp
  ultimately have "p + q < DECIMAL_NBASE ^ n" by linarith
  then have c: "c = 0" using ds num_bound [OF ds(2)] by auto
  have "dval ds w = of_int (p + q) * 10000 powi (- rs)" using ds c pos by (simp add: dval_num n_def)
  also have "\<dots> = dval ?L (d_weight l) + dval ?R (d_weight r)"
    using scaled_val [OF i(1)] scaled_val [OF i(2)] unfolding p_def q_def of_int_add distrib_right by simp
  finally have v: "dval ds w = dval ?L (d_weight l) + dval ?R (d_weight r)" .
  have "dec_add_abs mem l r = Inr (store_result w (max (d_dscale l) (d_dscale r)) ds)"
    using a c pos assms(3) by (simp add: dec_add_abs_def w_def rs_def n_def Let_def)
  then show ?thesis using store_result_spec [OF ds(2), of w "max (d_dscale l) (d_dscale r)"] v by auto
qed


lemma dec_sub_abs_spec:
  assumes "canonical l" "canonical r" "\<forall>n. mem n" and less: "dval (d_digits r) (d_weight r) < dval (d_digits l) (d_weight l)"
  shows "\<exists>d. dec_sub_abs mem l r = Inr d \<and> plain d \<and> d_sign d = SDB_DECIMAL_POS \<and> d_dscale d = max (d_dscale l) (d_dscale r)
    \<and> dval (d_digits d) (d_weight d) = dval (d_digits l) (d_weight l) - dval (d_digits r) (d_weight r)"
proof -
  let ?L = "d_digits l" and ?R = "d_digits r"
  have ok: "dig_ok ?L" "dig_ok ?R" using assms(1,2) by (auto simp: canonical_def)
  define rs where "rs = max (rscale_of l) (rscale_of r)"
  define w where "w = d_weight l"
  have i: "int (length ?L) \<le> rs + w + 1" "int (length ?R) \<le> rs + d_weight r + 1" by (auto simp: rs_def rscale_of_def w_def)
  have ne: "?L \<noteq> []" using less dval_bound(1) [OF ok(2), of "d_weight r"] by auto
  have pos: "0 < rs + w + 1" using i(1) ne by (cases ?L) auto
  have wr: "?R = [] \<or> d_weight r \<le> w"
  proof (cases ?R)
    case (Cons y ys)
    then have "10000 powi d_weight r \<le> dval ?R (d_weight r)" using dval_first [of y ys] ok(2) assms(2) by (auto simp: canonical_def simp del: dval.simps)
    then have "(10000::rat) powi d_weight r < 10000 powi (w + 1)" using less dval_bound(2) [OF ok(1), of w] by (simp add: w_def)
    then have "d_weight r < w + 1" using power_int_increasing [of "w + 1" "d_weight r" "10000::rat"] by linarith
    then show ?thesis by simp
  qed simp
  define n where "n = nat (rs + w + 1)"
  obtain b ds where a: "sub_loop n ?L (rs + w + 1) ?R (rs + d_weight r + 1) 0 [] = (b, ds)" by fastforce
  define p where "p = num ?L * DECIMAL_NBASE ^ nat (rs + w + 1 - int (length ?L))"
  define q where "q = num ?R * DECIMAL_NBASE ^ nat (rs + d_weight r + 1 - int (length ?R))"
  have "win ?L (rs + w + 1) n = p" unfolding p_def using i by (intro win_all) (auto simp: n_def)
  moreover have "win [] j k = 0" for j k by (induction k arbitrary: j) (auto simp: cell_def)
  then have "win ?R (rs + d_weight r + 1) n = q" unfolding q_def using i wr by (cases "?R = []") (auto intro!: win_all simp: n_def)
  ultimately have ds: "length ds = n" "dig_ok ds" "b \<in> {0, - 1}" "num ds + b * DECIMAL_NBASE ^ n = p - q"
    using sub_loop_spec [OF ok a] by auto
  have v: "of_int p * (10000::rat) powi (- rs) = dval ?L w" "of_int q * (10000::rat) powi (- rs) = dval ?R (d_weight r)"
    using scaled_val [OF i(1)] scaled_val [OF i(2)] by (simp_all add: p_def q_def)
  then have "of_int q * (10000::rat) powi (- rs) < of_int p * 10000 powi (- rs)" using less by (simp add: w_def)
  then have "(of_int q :: rat) < of_int p" using mult_less_cancel_right_pos [of "(10000::rat) powi (- rs)" "of_int q" "of_int p"] by simp
  then have "q < p" by simp
  then have b: "b = 0" using ds num_bound [OF ds(2)] by auto
  have "dval ds w = of_int (p - q) * 10000 powi (- rs)" using ds b pos by (simp add: dval_num n_def)
  then have vd: "dval ds w = dval ?L w - dval ?R (d_weight r)" using v by (simp add: left_diff_distrib)
  have "dec_sub_abs mem l r = Inr (store_result w (max (d_dscale l) (d_dscale r)) ds)"
    using a b pos assms(3) by (simp add: dec_sub_abs_def w_def rs_def n_def Let_def)
  then show ?thesis using store_result_spec [OF ds(2), of w "max (d_dscale l) (d_dscale r)"] vd by (auto simp: w_def)
qed

section \<open>Signed values\<close>

text \<open>What a sum or a difference leaves before it is stripped again.\<close>

definition result_of :: "bson_decimal dec_res \<Rightarrow> rat \<Rightarrow> int \<Rightarrow> bool" where
  "result_of res v dscale \<longleftrightarrow> (\<exists>d. res = Inr d \<and> (plain d \<or> d = decimal_init\<lparr>d_dscale := dscale\<rparr>) \<and> dec_val d = v \<and> d_dscale d = dscale)"

lemma signed_result:
  assumes "plain d" "d_sign d = SDB_DECIMAL_POS" "dval (d_digits d) (d_weight d) = v" "d_dscale d = dscale" "s = SDB_DECIMAL_POS \<or> s = SDB_DECIMAL_NEG"
  shows "result_of (with_sign s (Inr d)) (if s = SDB_DECIMAL_NEG then - v else v) dscale"
  using assms by (auto simp: result_of_def with_sign_def plain_def canonical_def nonspecial_def dec_val_def)

lemma zero_result: "result_of (dec_zero a b) 0 (max a b)"
  by (simp add: result_of_def dec_zero_def decimal_set_zero_def dec_val_def decimal_init_def)

lemma add_abs_result:
  assumes "canonical l" "canonical r" "\<forall>n. mem n" "s = SDB_DECIMAL_POS \<or> s = SDB_DECIMAL_NEG"
  shows "result_of (with_sign s (dec_add_abs mem l r)) ((if s = SDB_DECIMAL_NEG then - 1 else 1) * (dval (d_digits l) (d_weight l) + dval (d_digits r) (d_weight r)))
    (max (d_dscale l) (d_dscale r))"
proof -
  obtain d where d: "dec_add_abs mem l r = Inr d" "plain d" "d_sign d = SDB_DECIMAL_POS" "d_dscale d = max (d_dscale l) (d_dscale r)"
      "dval (d_digits d) (d_weight d) = dval (d_digits l) (d_weight l) + dval (d_digits r) (d_weight r)"
    using dec_add_abs_spec [of l r mem] assms by (auto simp: canonical_def)
  show ?thesis using signed_result [OF d(2,3,5,4) assms(4)] assms(4) unfolding d(1) by (auto simp: algebra_simps)
qed

text \<open>The three cases of the comparison: the difference of the absolute values with the sign \<open>s\<close>, or with the opposite one \<open>t\<close>.\<close>

lemma sub_abs_result:
  assumes "canonical l" "canonical r" "\<forall>n. mem n" and st: "s = SDB_DECIMAL_POS \<and> t = SDB_DECIMAL_NEG \<or> s = SDB_DECIMAL_NEG \<and> t = SDB_DECIMAL_POS"
  shows "result_of (if dec_cmp_abs l r = 0 then dec_zero (d_dscale l) (d_dscale r)
      else if dec_cmp_abs l r = 1 then with_sign s (dec_sub_abs mem l r) else with_sign t (dec_sub_abs mem r l))
    ((if s = SDB_DECIMAL_NEG then - 1 else 1) * (dval (d_digits l) (d_weight l) - dval (d_digits r) (d_weight r))) (max (d_dscale l) (d_dscale r))"
proof -
  let ?l = "dval (d_digits l) (d_weight l)" and ?r = "dval (d_digits r) (d_weight r)"
  have cmp: "dec_cmp_abs l r = cmp3 ?l ?r" using dec_cmp_abs_spec assms(1,2) by (auto simp: canonical_def)
  consider "?l = ?r" | "?r < ?l" | "?l < ?r" by linarith
  then show ?thesis
  proof cases
    case 1
    then show ?thesis using zero_result [of "d_dscale l" "d_dscale r"] by (simp add: cmp cmp3_def)
  next
    case 2
    obtain d where d: "dec_sub_abs mem l r = Inr d" "plain d" "d_sign d = SDB_DECIMAL_POS" "d_dscale d = max (d_dscale l) (d_dscale r)" "dval (d_digits d) (d_weight d) = ?l - ?r"
      using dec_sub_abs_spec [OF assms(1-3) 2] by blast
    have "s = SDB_DECIMAL_POS \<or> s = SDB_DECIMAL_NEG" using st by auto
    from signed_result [OF d(2,3,5,4) this] show ?thesis using 2 st by (auto simp: cmp cmp3_def d(1))
  next
    case 3
    obtain d where d: "dec_sub_abs mem r l = Inr d" "plain d" "d_sign d = SDB_DECIMAL_POS" "d_dscale d = max (d_dscale l) (d_dscale r)" "dval (d_digits d) (d_weight d) = ?r - ?l"
      using dec_sub_abs_spec [OF assms(2,1,3) 3] by (metis max.commute)
    have "t = SDB_DECIMAL_POS \<or> t = SDB_DECIMAL_NEG" using st by auto
    from signed_result [OF d(2,3,5,4) this] show ?thesis using 3 st by (auto simp: cmp cmp3_def d(1))
  qed
qed

lemma dec_add_spec:
  assumes "canonical l" "canonical r" "\<forall>n. mem n"
  shows "result_of (dec_add mem l r) (dec_val l + dec_val r) (max (d_dscale l) (d_dscale r))"
proof -
  have sg: "d_sign l = 0 \<or> d_sign l = 0x4000" "d_sign r = 0 \<or> d_sign r = 0x4000" using assms(1,2) by (auto simp: canonical_def nonspecial_def)
  show ?thesis
    using sg add_abs_result [OF assms, of SDB_DECIMAL_POS] add_abs_result [OF assms, of SDB_DECIMAL_NEG]
      sub_abs_result [OF assms, of SDB_DECIMAL_POS SDB_DECIMAL_NEG] sub_abs_result [OF assms, of SDB_DECIMAL_NEG SDB_DECIMAL_POS]
    by (elim disjE) (simp_all add: dec_add_def dec_val_def)
qed

lemma dec_sub_spec:
  assumes "canonical l" "canonical r" "\<forall>n. mem n"
  shows "result_of (dec_sub mem l r) (dec_val l - dec_val r) (max (d_dscale l) (d_dscale r))"
proof -
  have sg: "d_sign l = 0 \<or> d_sign l = 0x4000" "d_sign r = 0 \<or> d_sign r = 0x4000" using assms(1,2) by (auto simp: canonical_def nonspecial_def)
  show ?thesis
    using sg add_abs_result [OF assms, of SDB_DECIMAL_POS] add_abs_result [OF assms, of SDB_DECIMAL_NEG]
      sub_abs_result [OF assms, of SDB_DECIMAL_POS SDB_DECIMAL_NEG] sub_abs_result [OF assms, of SDB_DECIMAL_NEG SDB_DECIMAL_POS]
    by (elim disjE) (simp_all add: dec_sub_def dec_val_def)
qed


section \<open>Sums and differences are exact\<close>

lemma weight_val:
  assumes "canonical d" "d_digits d \<noteq> []"
  shows "W \<le> d_weight d \<longleftrightarrow> 10000 powi W \<le> \<bar>dec_val d\<bar>"
proof -
  have ok: "dig_ok (d_digits d)" and hd: "hd (d_digits d) \<noteq> 0" using assms by (auto simp: canonical_def)
  have abs: "\<bar>dec_val d\<bar> = dval (d_digits d) (d_weight d)" using canonical_pos [OF assms] by (simp add: dec_val_def)
  have lo: "10000 powi d_weight d \<le> dval (d_digits d) (d_weight d)"
    using dval_first [of "hd (d_digits d)" "tl (d_digits d)"] ok hd assms(2) by (cases "d_digits d") auto
  have hi: "dval (d_digits d) (d_weight d) < 10000 powi (d_weight d + 1)" by (rule dval_bound(2) [OF ok])
  show ?thesis
  proof
    assume "W \<le> d_weight d"
    then have "(10000::rat) powi W \<le> 10000 powi d_weight d" by (intro power_int_increasing) auto
    then show "10000 powi W \<le> \<bar>dec_val d\<bar>" using lo abs by simp
  next
    assume "10000 powi W \<le> \<bar>dec_val d\<bar>"
    then have "(10000::rat) powi W < 10000 powi (d_weight d + 1)" using hi abs by simp
    then have "W < d_weight d + 1" using power_int_increasing [of "d_weight d + 1" W "10000::rat"] by linarith
    then show "W \<le> d_weight d" by simp
  qed
qed

text \<open>A number in normal form with this value and scale, or the error when the value or the scale is too large.\<close>

definition dec_limit :: rat where
  "dec_limit = 10000 powi DECIMAL_MAX_WEIGHT"

definition exact :: "bson_decimal dec_res \<Rightarrow> rat \<Rightarrow> int \<Rightarrow> bool" where
  "exact res v dscale \<longleftrightarrow> (\<exists>d. res = (if dec_limit \<le> \<bar>v\<bar> \<or> dscale > DECIMAL_MAX_DSCALE then Inl (Rc (- 6)) else Inr d)
     \<and> dec_val d = v \<and> d_dscale d = dscale \<and> canonical d \<and> stripped (d_digits d))"

lemma exact_bounded:
  assumes "canonical d" "stripped (d_digits d)" "d_digits d = [] \<longrightarrow> d_weight d = 0"
  shows "exact (bounded (Inr d)) (dec_val d) (d_dscale d)"
proof -
  have "32768 \<le> d_weight d \<longleftrightarrow> dec_limit \<le> \<bar>dec_val d\<bar>"
  proof (cases "d_digits d = []")
    case True
    have "0 < dec_limit" unfolding dec_limit_def by (rule powi_pos)
    then show ?thesis using True assms(3) by (simp add: dec_val_def)
  next
    case False
    then show ?thesis unfolding dec_limit_def by (rule weight_val [OF assms(1)])
  qed
  then show ?thesis using assms by (auto simp: exact_def bounded_def dec_is_out_of_bound_def)
qed

lemma exact_result: assumes "result_of res v dscale" shows "exact (bounded (map_sum id dec_strip res)) v dscale"
proof -
  obtain d where d: "res = Inr d" "plain d \<or> d = decimal_init\<lparr>d_dscale := dscale\<rparr>" "dec_val d = v" "d_dscale d = dscale" using assms by (auto simp: result_of_def)
  show ?thesis
  proof (cases "plain d")
    case True
    then have S: "d_isOwn d" "nonspecial d" "dig_ok (d_digits d)" by (auto simp: plain_def canonical_def)
    have "d_digits (dec_strip d) = [] \<longrightarrow> d_weight (dec_strip d) = 0" using S(1) by (simp add: dec_strip_def Let_def split: prod.splits)
    then show ?thesis using exact_bounded [of "dec_strip d"] dec_strip_spec [OF S] d by simp
  next
    case False
    then have "d = decimal_init\<lparr>d_dscale := dscale\<rparr>" "dec_strip d = d" using d(2) by (auto simp: dec_strip_def decimal_init_def)
    then show ?thesis using exact_bounded [of d] d by (auto simp: canonical_def nonspecial_def stripped_def decimal_init_def)
  qed
qed

text \<open>C12: \<open>decimal_add\<close> and \<open>decimal_sub\<close> of two numbers in normal form give exactly the sum and the difference, again in normal form, with the larger of
  the two display scales, for all signs and weights; the only error is a result of more than 131072 digits before the point or 16383 behind it.  A special operand makes
  the result not a number.\<close>
theorem decimal_add_sub_exact:
  assumes "\<forall>n. mem n"
  shows "(canonical l \<and> canonical r \<longrightarrow>
      exact (decimal_add mem l r) (dec_val l + dec_val r) (max (d_dscale l) (d_dscale r)) \<and> exact (decimal_sub mem l r) (dec_val l - dec_val r) (max (d_dscale l) (d_dscale r)))
    \<and> (decimal_is_special l \<or> decimal_is_special r \<longrightarrow> decimal_add mem l r = Inr decimal_set_nan \<and> decimal_sub mem l r = Inr decimal_set_nan)"
proof (intro conjI impI; (elim conjE)?)
  assume c: "canonical l" "canonical r"
  show "exact (decimal_add mem l r) (dec_val l + dec_val r) (max (d_dscale l) (d_dscale r))" "exact (decimal_sub mem l r) (dec_val l - dec_val r) (max (d_dscale l) (d_dscale r))"
    using exact_result [OF dec_add_spec [OF c assms]] exact_result [OF dec_sub_spec [OF c assms]] canonical_rank [OF c(1)] canonical_rank [OF c(2)]
    by (simp_all add: decimal_add_def decimal_sub_def)
qed (auto simp: decimal_add_def decimal_sub_def)

theorem decimal_add_sub_exact_witness:
  "exact (decimal_sub (\<lambda>n. True) const_one (decimal_init\<lparr>d_digits := [2500], d_weight := - 1, d_dscale := 2\<rparr>)) (3 / 4) 2
   \<and> (case decimal_sub (\<lambda>n. True) const_one (decimal_init\<lparr>d_digits := [2500], d_weight := - 1, d_dscale := 2\<rparr>) of Inr d \<Rightarrow> d_digits d | Inl _ \<Rightarrow> []) = [7500]"
proof
  let ?r = "decimal_init\<lparr>d_digits := [2500], d_weight := - 1, d_dscale := 2\<rparr>"
  have "canonical const_one" "canonical ?r" by (auto simp: canonical_def nonspecial_def const_one_def decimal_init_def)
  with decimal_add_sub_exact [of "\<lambda>n. True" const_one ?r] show "exact (decimal_sub (\<lambda>n. True) const_one ?r) (3 / 4) 2"
    by (simp add: const_one_def decimal_init_def dec_val_def power_int_minus)
  show "(case decimal_sub (\<lambda>n. True) const_one ?r of Inr d \<Rightarrow> d_digits d | Inl _ \<Rightarrow> []) = [7500]" by code_simp
qed

end
