(* ===== verification/Bson_DecRound.thy ===== *)
theory Bson_DecRound
  imports Bson_DecAdd
begin

text \<open>
  Rounding to a number of decimal places: \<open>decimal_round\<close> rounds half up in the absolute value, never runs over the start of its buffer, and
  \<open>dec_trunc\<close> cuts towards zero.
\<close>

section \<open>Powers of ten\<close>

lemma powi_ten: "(10000::rat) powi k = 10 powi (4 * k)"
proof -
  have "(10::rat) powi (4 * k) = (10 powi 4) powi k" by (simp add: power_int_mult)
  then show ?thesis by simp
qed

lemma powi10_add: "(10::rat) powi (a + b) = 10 powi a * 10 powi b"
  by (simp add: power_int_add)

lemma powi10_pos [simp]: "0 < (10::rat) powi k"
  by simp

lemma powi_minus_one: "(10000::rat) powi - 1 = 1 / 10000" "(10::rat) powi - 4 = 1 / 10000"
  by (simp_all add: power_int_minus)

lemma dval_shift: "dval ds (w + k) = 10000 powi k * dval ds w"
proof (induction ds arbitrary: w)
  case (Cons x xs)
  have "w + k - 1 = (w - 1) + k" by simp
  then show ?case using Cons.IH [of "w - 1"] by (simp only: dval.simps power_int_add) (simp add: power_int_add algebra_simps)
qed simp

lemma dval_split:
  assumes "n \<le> length ds"
  shows "dval ds w = 10000 powi (w + 1 - int n) * (of_int (num (take n ds)) + dval (drop n ds) (- 1))"
proof -
  have "dval ds w = dval (take n ds) w + dval (drop n ds) (w - int n)" using dval_append [of "take n ds" "drop n ds" w] assms by simp
  moreover have "dval (take n ds) w = of_int (num (take n ds)) * 10000 powi (w + 1 - int n)" using assms by (simp add: dval_num)
  moreover have "dval (drop n ds) (w - int n) = 10000 powi (w + 1 - int n) * dval (drop n ds) (- 1)" using dval_shift [of "drop n ds" "- 1" "w + 1 - int n"] by simp
  ultimately show ?thesis by (simp add: algebra_simps)
qed

lemma scaled_split:
  assumes "n \<le> length ds"
  shows "dval ds w * 10 powi rscale = 10 powi ((w + 1) * 4 + rscale - 4 * int n) * (of_int (num (take n ds)) + dval (drop n ds) (- 1))"
  unfolding dval_split [OF assms] powi_ten using powi10_add [of "4 * (w + 1 - int n)" rscale] by (simp add: algebra_simps)

lemma fraction_bound: "dig_ok ds \<Longrightarrow> 0 \<le> dval ds (- 1) \<and> dval ds (- 1) < 1"
  using dval_bound [of ds "- 1"] by simp

section \<open>Carrying\<close>

lemma carry_up_spec:
  "carry_up xs = Some (k, ys) \<Longrightarrow> dig_ok xs \<Longrightarrow>
     length ys = length xs \<and> dig_ok ys \<and> 0 < k \<and> k \<le> length xs \<and> num (rev ys) = num (rev xs) + 1 \<and> drop k ys = drop k xs \<and> (\<forall>i<k - 1. xs ! i = 9999)"
proof (induction xs arbitrary: k ys rule: carry_up.induct)
  case (2 x xs)
  show ?case
  proof (cases "x + 1 \<ge> DECIMAL_NBASE")
    case True
    then have x: "x = 9999" using "2.prems"(2) by simp
    then obtain j zs where r: "carry_up xs = Some (j, zs)" "k = Suc j" "ys = 0 # zs" using "2.prems"(1) True by auto
    have "\<forall>i<k - 1. (x # xs) ! i = 9999" using "2.IH" [OF True r(1)] "2.prems"(2) x r(2) by (auto simp: nth_Cons' )
    then show ?thesis using "2.IH" [OF True r(1)] "2.prems"(2) x by (simp add: r num_append)
  next
    case False
    then show ?thesis using "2.prems" by (auto simp: num_append)
  qed
qed simp

lemma carry_up_None: "carry_up xs = None \<Longrightarrow> dig_ok xs \<Longrightarrow> \<forall>x\<in>set xs. x = 9999"
  by (induction xs rule: carry_up.induct) (auto split: if_splits)

text \<open>There is room for a carry out of the digits \<open>ds\<close>: a spare cell in front, or a first digit that cannot overflow.\<close>

definition spare :: "bson_decimal \<Rightarrow> bool" where
  "spare d \<longleftrightarrow> d_front d \<noteq> [] \<and> hd (d_front d) = 0"

lemma round_carry_spec:
  assumes ds: "dig_ok ds" and room: "spare d \<or> ds \<noteq> [] \<and> hd ds < 9999"
  shows "\<exists>d' ds'. round_carry d ds rest = Inr d' \<and> d_digits d' = ds' @ rest \<and> dig_ok ds' \<and> num ds' = num ds + 1 \<and> int (length ds') - d_weight d' = int (length ds) - d_weight d
    \<and> d_sign d' = d_sign d \<and> d_dscale d' = d_dscale d \<and> d_typemod d' = d_typemod d \<and> d_isOwn d' = d_isOwn d
    \<and> (spare d \<longrightarrow> spare d' \<or> ds' \<noteq> [] \<and> hd ds' < 5000)"
proof -
  define hi where "hi = (if spare d then [0] else [] :: int list)"
  define top where "top = rev ds @ hi"
  have ok: "dig_ok top" using ds by (auto simp: top_def hi_def)
  have "\<not> (\<forall>x\<in>set top. x = 9999)"
  proof (cases "spare d")
    case False
    then have "hd ds \<in> set top" "hd ds \<noteq> 9999" using room by (auto simp: top_def)
    then show ?thesis by blast
  qed (simp add: top_def hi_def)
  then obtain k ys where c: "carry_up top = Some (k, ys)" using carry_up_None [OF _ ok] by (cases "carry_up top") auto
  note C = carry_up_spec [OF c ok]
  have front: "d_front d = hi @ drop (length hi) (d_front d)" by (cases "d_front d") (auto simp: hi_def spare_def)
  have app: "carry_up (xs @ zs) = Some (j, us @ zs)" if "carry_up xs = Some (j, us)" for xs zs us and j :: nat
    using that by (induction xs arbitrary: j us rule: carry_up.induct) (auto split: if_splits)
  have call: "carry_up (rev ds @ d_front d) = Some (k, ys @ drop (length hi) (d_front d))"
  proof -
    have "rev ds @ d_front d = top @ drop (length hi) (d_front d)" unfolding top_def append_assoc front [symmetric] ..
    then show ?thesis using app [OF c] by simp
  qed
  have kle: "k \<le> length ds + length hi" using C by (simp add: top_def)
  show ?thesis
  proof (cases "k \<le> length ds")
    case True
    let ?ds = "rev (take (length ds) ys)"
    have r: "round_carry d ds rest = Inr (d\<lparr>d_digits := ?ds @ rest\<rparr>)" using call True C by (simp add: round_carry_def top_def)
    have "drop (length ds) ys = drop (length ds - k) (drop k ys)" using True by simp
    also have "\<dots> = hi" using C True by (simp add: top_def)
    finally have "ys = take (length ds) ys @ hi" using append_take_drop_id [of "length ds" ys] by simp
    then have "rev ys = rev hi @ ?ds" by (metis rev_append)
    moreover have "num (rev hi @ xs) = num xs" for xs by (simp add: hi_def)
    ultimately have "num ?ds = num ds + 1" using C by (simp add: top_def hi_def split: if_splits)
    moreover have "dig_ok ?ds" using C dig_ok_take by simp
    moreover have "length ?ds = length ds" using C by (simp add: top_def)
    ultimately show ?thesis using r by (auto simp: spare_def)
  next
    case False
    then have k: "k = Suc (length ds)" "hi = [0]" using kle by (auto simp: hi_def split: if_splits)
    then have sp: "spare d" by (auto simp: hi_def split: if_splits)
    let ?d = "d\<lparr>d_front := tl (d_front d), d_digits := rev ys @ rest, d_weight := d_weight d + 1\<rparr>"
    have "length ys = Suc (length ds)" using C k by (simp add: top_def)
    then have r: "round_carry d ds rest = Inr ?d" using call k by (simp add: round_carry_def)
    have nine: "\<forall>i<length ds. rev ds ! i = 9999"
      using C k by (auto simp: top_def nth_append)
    then have "ds = replicate (length ds) 9999" by (metis in_set_conv_nth length_rev replicate_length_same set_rev)
    then have "num ds = 10000 ^ length ds - 1"
    proof -
      have "num (replicate n 9999) = 10000 ^ n - 1" for n by (induction n) simp_all
      then show ?thesis using \<open>ds = replicate (length ds) 9999\<close> by metis
    qed
    moreover have n: "num (rev ys) = num ds + 1" using C k by (simp add: top_def)
    ultimately have "num (rev ys) = 10000 ^ length ds" by simp
    obtain y zs where y: "rev ys = y # zs" "length zs = length ds" 
    proof -
      have "length (rev ys) = Suc (length ds)" using \<open>length ys = Suc (length ds)\<close> by simp
      then show ?thesis using that by (cases "rev ys") auto
    qed
    have "dig_ok (rev ys)" using C by simp
    then have "0 \<le> num zs" "y \<ge> 0" using num_bound [of zs] y by auto
    moreover have "y * 10000 ^ length ds + num zs = 10000 ^ length ds" using \<open>num (rev ys) = 10000 ^ length ds\<close> y by simp
    ultimately have "y * 10000 ^ length ds \<le> 1 * 10000 ^ length ds" unfolding mult_1 by linarith
    then have "y \<le> 1" by (rule mult_right_le_imp_le) simp
    then have "hd (rev ys) < 5000 \<and> rev ys \<noteq> []" using y by simp
    then show ?thesis using r n \<open>dig_ok (rev ys)\<close> \<open>length ys = Suc (length ds)\<close> by (intro exI [of _ ?d] exI [of _ "rev ys"]) simp
  qed
qed


section \<open>Rounding\<close>

definition can_round :: "bson_decimal \<Rightarrow> bool" where
  "can_round d \<longleftrightarrow> d_digits d = [] \<or> spare d \<or> hd (d_digits d) < 5000 \<or> int (length (d_digits d)) \<le> d_weight d + 1"

text \<open>What a rounding to \<open>k\<close> units of the last place leaves.\<close>

definition rounded :: "bson_decimal \<Rightarrow> int \<Rightarrow> int \<Rightarrow> bson_decimal \<Rightarrow> bool" where
  "rounded d rscale k d' \<longleftrightarrow> d_isOwn d' \<and> d_dscale d' = rscale \<and> d_typemod d' = d_typemod d \<and> dig_ok (d_digits d') \<and> (spare d \<longrightarrow> can_round d')
     \<and> (d_sign d' = d_sign d \<or> d_digits d' = [] \<and> d_sign d' = SDB_DECIMAL_POS)
     \<and> dval (d_digits d') (d_weight d') = of_int k * 10 powi (- rscale)"

lemma dval_scaled: "d_weight d' - int (length ds') = w - n \<Longrightarrow> dval ds' (d_weight d') = of_int (num ds') * 10 powi (4 * (w + 1 - n))"
  unfolding dval_num powi_ten by (metis add.commute add_diff_eq)

lemma half_digit:
  assumes "dig_ok (y # ys)"
  shows "1 / 2 \<le> dval (y # ys) (- 1) \<longleftrightarrow> y \<ge> 5000"
proof -
  have b: "0 \<le> dval ys (- 2)" "dval ys (- 2) < 1 / 10000" using dval_bound [of ys "- 2"] assms by (auto simp: power_int_minus)
  have "dval (y # ys) (- 1) = of_int y / 10000 + dval ys (- 2)" by (simp add: powi_minus_one)
  moreover have "(5000 :: rat) \<le> of_int y" if "y \<ge> 5000"
    using that of_int_le_iff [of 5000 y, where ?'a = rat] by simp
  moreover have "(of_int y :: rat) \<le> 4999" if "\<not> y \<ge> 5000"
    using that of_int_le_iff [of y 4999, where ?'a = rat] by simp
  ultimately show ?thesis using b by (cases "y \<ge> 5000") auto
qed

lemma floor_half:
  assumes "0 \<le> f" "f < (1::rat)" "x = of_int z + f"
  shows "\<lfloor>x + 1 / 2\<rfloor> = (if 1 / 2 \<le> f then z + 1 else z)"
  using assms by (auto intro!: floor_unique)


lemma round_whole_digit:
  assumes own: "d_isOwn d" and ok: "dig_ok (d_digits d)" and room: "can_round d" and n: "n < length (d_digits d)" and di: "(d_weight d + 1) * 4 + rscale = 4 * int n" and sc: "rscale \<ge> 0"
  shows "\<exists>d'. decimal_round d rscale = Inr d' \<and> rounded d rscale \<lfloor>dval (d_digits d) (d_weight d) * 10 powi rscale + 1 / 2\<rfloor> d'"
proof -
  let ?ds = "d_digits d" and ?w = "d_weight d"
  let ?d1 = "d\<lparr>d_dscale := rscale\<rparr>"
  define y where "y = ?ds ! n"
  have drop: "drop n ?ds = y # drop (Suc n) ?ds" unfolding y_def using n by (rule Cons_nth_drop_Suc [symmetric])
  have oky: "dig_ok (y # drop (Suc n) ?ds)" using dig_ok_drop [OF ok, of n] by (simp only: drop)
  have "dval ?ds ?w * 10 powi rscale = of_int (num (take n ?ds)) + dval (drop n ?ds) (- 1)"
    using scaled_split [of n ?ds ?w rscale] n di by simp
  then have fl: "\<lfloor>dval ?ds ?w * 10 powi rscale + 1 / 2\<rfloor> = (if y \<ge> 5000 then num (take n ?ds) + 1 else num (take n ?ds))"
    using floor_half [of "dval (drop n ?ds) (- 1)" "dval ?ds ?w * 10 powi rscale" "num (take n ?ds)"] fraction_bound [OF oky] half_digit [OF oky] by (simp only: drop)
  have rs: "rscale = 4 * (int n - ?w - 1)" using di by simp
  have one: "(10::rat) powi (4 * (?w + 1 - int n)) = 10 powi (- rscale)" by (rule arg_cong [of _ _ "\<lambda>k. 10 powi k"]) (simp add: rs)
  have code: "decimal_round d rscale = (if y \<ge> 5000 then round_carry ?d1 (take n ?ds) [] else Inr (?d1\<lparr>d_digits := take n ?ds\<rparr>))"
    using own n di by (simp add: decimal_round_def Let_def y_def)
  show ?thesis
  proof (cases "y \<ge> 5000")
    case True
    have "spare d \<or> take n ?ds \<noteq> [] \<and> hd (take n ?ds) < 9999"
    proof (cases "spare d")
      case False
      have "int n < int (length ?ds)" using n by simp
      moreover have "?w + 1 \<le> int n" using rs sc by simp
      ultimately have "\<not> int (length ?ds) \<le> ?w + 1" by simp
      then have "hd ?ds < 5000" using room False n by (auto simp: can_round_def)
      moreover have "n \<noteq> 0"
      proof
        assume "n = 0"
        then have "hd ?ds = y" using n by (simp add: y_def hd_conv_nth)
        then show False using True calculation by simp
      qed
      ultimately show ?thesis using n by (cases ?ds) (auto simp: take_Cons')
    qed simp
    then obtain d' ds' where c: "round_carry ?d1 (take n ?ds) [] = Inr d'" "d_digits d' = ds'" "dig_ok ds'" "num ds' = num (take n ?ds) + 1"
        "int (length ds') - d_weight d' = int (length (take n ?ds)) - ?w" "d_sign d' = d_sign d" "d_dscale d' = rscale" "d_typemod d' = d_typemod d" "d_isOwn d'"
        "spare d \<longrightarrow> spare d' \<or> ds' \<noteq> [] \<and> hd ds' < 5000"
      using round_carry_spec [of "take n ?ds" ?d1 "[]"] dig_ok_take [OF ok] own by (auto simp: spare_def)
    have "dval ds' (d_weight d') = of_int (num ds') * 10 powi (- rscale)"
      using dval_scaled [of d' ds' ?w "int n"] c(5) n one by simp
    then show ?thesis using code True c fl by (auto simp: rounded_def can_round_def)
  next
    case False
    have "dval (take n ?ds) ?w = of_int (num (take n ?ds)) * 10 powi (- rscale)" using n one by (simp add: dval_num powi_ten)
    then show ?thesis using code False fl own dig_ok_take [OF ok] by (auto simp: rounded_def can_round_def spare_def)
  qed
qed

text \<open>The last digit that is kept is cut after \<open>m\<close> of its four decimal places.\<close>

lemma round_powers_ten: "0 < m \<Longrightarrow> m < 4 \<Longrightarrow> round_powers m = 10 ^ nat (4 - m) \<and> (\<exists>h. round_powers m = 2 * h)"
proof -
  assume "0 < m" "m < 4"
  then have "m = 1 \<or> m = 2 \<or> m = 3" by linarith
  then show ?thesis by (auto simp: round_powers_def)
qed

lemma round_inside_digit:
  assumes own: "d_isOwn d" and ok: "dig_ok (d_digits d)" and room: "can_round d" and n: "n < length (d_digits d)"
    and di: "(d_weight d + 1) * 4 + rscale = 4 * int n + m" and m: "0 < m" "m < 4" and sc: "rscale \<ge> 0"
  shows "\<exists>d'. decimal_round d rscale = Inr d' \<and> rounded d rscale \<lfloor>dval (d_digits d) (d_weight d) * 10 powi rscale + 1 / 2\<rfloor> d'"
proof -
  let ?ds = "d_digits d" and ?w = "d_weight d"
  let ?d1 = "d\<lparr>d_dscale := rscale\<rparr>"
  define x where "x = ?ds ! n"
  define t where "t = dval (drop (Suc n) ?ds) (- 1)"
  obtain h where P: "round_powers m = 10 ^ nat (4 - m)" "round_powers m = 2 * h" using round_powers_ten [OF m] by blast
  define P where "P = round_powers m"
  have Ppos: "0 < P" "P dvd 10000" and Pm: "P * 10 ^ nat m = 10000"
  proof -
    have "nat (4 - m) + nat m = 4" using m by simp
    then show "P * 10 ^ nat m = 10000" by (simp add: P_def P(1) flip: power_add)
    then show "P dvd 10000" by (metis dvd_triv_left)
    show "0 < P" by (simp add: P_def P(1))
  qed
  define q where "q = x div P"
  define extra where "extra = x mod P"
  have x: "0 \<le> x" "x < 10000" "x = P * q + extra" "0 \<le> extra" "extra < P" using dig_ok_nth [OF ok n] Ppos by (auto simp: x_def q_def extra_def)
  have t: "0 \<le> t" "t < 1" using fraction_bound [OF dig_ok_drop [OF ok]] by (auto simp: t_def)
  have drop: "drop n ?ds = x # drop (Suc n) ?ds" unfolding x_def using n by (rule Cons_nth_drop_Suc [symmetric])
  have "dval (drop n ?ds) (- 1) = (of_int x + t) / 10000"
    unfolding drop t_def using dval_shift [of "drop (Suc n) ?ds" "- 1" "- 1"] by (simp add: powi_minus_one add_divide_distrib)
  moreover have "(10::rat) powi m = 10 ^ nat m" using m(1) power_int_of_nat [of "10::rat" "nat m"] by simp
  ultimately have S: "dval ?ds ?w * 10 powi rscale = 10 ^ nat m * (of_int (num (take n ?ds)) + (of_int x + t) / 10000)"
    using scaled_split [of n ?ds ?w rscale] n di by simp
  define K where "K = (10::int) ^ nat m"
  have K: "(10::rat) ^ nat m / 10000 = 1 / of_int P"
  proof -
    have "of_int P * (10::rat) ^ nat m = 10000" using arg_cong [OF Pm, of "of_int :: int \<Rightarrow> rat"] by simp
    then show ?thesis using Ppos by (simp add: field_simps)
  qed
  have "10 ^ nat m * (of_int (num (take n ?ds)) + (of_int x + t) / 10000) = of_int (K * num (take n ?ds)) + (of_int x + t) * ((10::rat) ^ nat m / 10000)"
    by (simp add: K_def algebra_simps)
  also have "\<dots> = of_int (K * num (take n ?ds) + q) + (of_int extra + t) / of_int P" unfolding K x(3) using Ppos(1) by (simp add: field_simps)
  finally have S': "dval ?ds ?w * 10 powi rscale = of_int (K * num (take n ?ds) + q) + (of_int extra + t) / of_int P" using S by simp
  have Ph: "P = 2 * h" by (simp add: P_def P(2))
  have f: "0 \<le> (of_int extra + t) / of_int P" "(of_int extra + t) / of_int P < 1" "1 / 2 \<le> (of_int extra + t) / of_int P \<longleftrightarrow> h \<le> extra"
  proof -
    have e: "(of_int extra :: rat) \<le> of_int (P - 1)" using x(5) by (simp only: of_int_le_iff)
    show "0 \<le> (of_int extra + t) / of_int P" using x(4) t Ppos by simp
    show "(of_int extra + t) / of_int P < 1" using e t Ppos by simp
    have "1 / 2 \<le> (of_int extra + t) / of_int P \<longleftrightarrow> of_int h \<le> of_int extra + t" using Ppos(1) by (auto simp: Ph field_simps)
    moreover have "h \<le> extra \<Longrightarrow> (of_int h :: rat) \<le> of_int extra" "\<not> h \<le> extra \<Longrightarrow> (of_int extra :: rat) \<le> of_int (h - 1)" by (simp_all only: of_int_le_iff)
    ultimately show "1 / 2 \<le> (of_int extra + t) / of_int P \<longleftrightarrow> h \<le> extra" using t by (cases "h \<le> extra") auto
  qed
  have fl: "\<lfloor>dval ?ds ?w * 10 powi rscale + 1 / 2\<rfloor> = K * num (take n ?ds) + q + (if h \<le> extra then 1 else 0)"
    using floor_half [OF f(1,2) S'] f(3) by simp
  have val: "dval (ds' @ [P * y]) w' = of_int (K * num ds' + y) * 10 powi (- rscale)" if "int (length ds') - w' = int n - ?w" for ds' y w'
  proof -
    have "w' + 1 - int (length (ds' @ [P * y])) = ?w - int n" using that by simp
    then have "dval (ds' @ [P * y]) w' = of_int (num ds' * 10000 + P * y) * 10 powi (4 * (?w - int n))" by (simp only: dval_num powi_ten) (simp add: num_append)
    also have "4 * (?w - int n) = (m - 4) + - rscale" using di by simp
    also have "(10::rat) powi ((m - 4) + - rscale) = 10 powi (m - 4) * 10 powi (- rscale)" by (rule powi10_add)
    also have "(10::rat) powi (m - 4) = 1 / of_int P" using powi10_add [of m "- 4"] \<open>(10::rat) powi m = 10 ^ nat m\<close> K by (simp only: powi_minus_one diff_conv_add_uminus)
    also have "of_int (num ds' * 10000 + P * y) * (1 / of_int P * 10 powi (- rscale)) = of_int (K * num ds' + y) * (10::rat) powi (- rscale)"
    proof -
      have "num ds' * 10000 + P * y = P * (K * num ds' + y)" unfolding K_def Pm [symmetric] by (simp add: algebra_simps)
      then have "of_int (num ds' * 10000 + P * y) = of_int P * (of_int (K * num ds' + y) :: rat)" by (simp only: of_int_mult)
      then show ?thesis using Ppos(1) by simp
    qed
    finally show ?thesis .
  qed
  have code: "decimal_round d rscale = (if extra \<ge> h
      then (if P + (x - extra) \<ge> 10000 then round_carry ?d1 (take n ?ds) [P + (x - extra) - 10000] else Inr (?d1\<lparr>d_digits := take n ?ds @ [P + (x - extra)]\<rparr>))
      else Inr (?d1\<lparr>d_digits := take n ?ds @ [x - extra]\<rparr>))"
  proof -
    have "nat ((4 * int n + m + 4 - 1) div 4) = Suc n" "(4 * int n + m) mod 4 = m" using m by auto
    moreover have "P div 2 = h" by (simp add: Ph)
    ultimately show ?thesis using own m n unfolding decimal_round_def Let_def di
      by (cases "length ?ds = Suc n") (simp_all add: x_def extra_def flip: P_def)
  qed
  have base: "x - extra = P * q" "P + P * q = P * (q + 1)" using x(3) by (simp_all add: algebra_simps)
  note code = code [unfolded base(1), unfolded base(2)]
  have top: "P * (q + 1) \<le> 10000"
  proof -
    have "P * q < P * K" using x Pm by (simp add: K_def)
    then have "q < K" using Ppos(1) by simp
    then have "P * (q + 1) \<le> P * K" using Ppos(1) by (intro mult_left_mono) auto
    then show ?thesis using Pm by (simp add: K_def)
  qed
  have "0 \<le> q" using x(1) Ppos(1) by (simp add: q_def pos_imp_zdiv_nonneg_iff)
  then have q0: "0 \<le> P * q" "0 \<le> P * (q + 1)" using Ppos(1) by simp_all
  show ?thesis
  proof (cases "extra \<ge> h \<and> P * (q + 1) \<ge> 10000")
    case False
    define y where "y = (if h \<le> extra then q + 1 else q)"
    have r: "decimal_round d rscale = Inr (?d1\<lparr>d_digits := take n ?ds @ [P * y]\<rparr>)" using code False by (auto simp: y_def)
    have "0 \<le> P * y \<and> P * y < 10000" using False q0 x Ppos(1) by (auto simp: y_def algebra_simps)
    then show ?thesis using r fl val [of "take n ?ds" ?w y] n own dig_ok_take [OF ok] by (auto simp: rounded_def can_round_def spare_def y_def)
  next
    case True
    then have PK: "P * (q + 1) = 10000" using top by simp
    then have q: "q + 1 = K" using Pm Ppos(1) unfolding K_def by (metis mult_left_cancel less_irrefl)
    have "spare d \<or> take n ?ds \<noteq> [] \<and> hd (take n ?ds) < 9999"
    proof (cases "spare d")
      case False
      have "int n < int (length ?ds)" using n by simp
      moreover have "?w + 1 \<le> int n" using di m sc by simp
      ultimately have "\<not> int (length ?ds) \<le> ?w + 1" by simp
      then have hd: "hd ?ds < 5000" using room False n by (auto simp: can_round_def)
      have "P \<le> 1000" using m by (auto simp: P_def round_powers_def)
      then have "x \<ge> 9000" using PK x by (simp add: algebra_simps)
      moreover have "hd ?ds = x" if "n = 0" using that n by (simp add: x_def hd_conv_nth)
      ultimately have "n \<noteq> 0" using hd by (intro notI) simp
      then show ?thesis using hd n by (cases ?ds) (auto simp: take_Cons')
    qed simp
    then obtain d' ds' where c: "round_carry ?d1 (take n ?ds) [0] = Inr d'" "d_digits d' = ds' @ [0]" "dig_ok ds'" "num ds' = num (take n ?ds) + 1"
        "int (length ds') - d_weight d' = int (length (take n ?ds)) - ?w" "d_sign d' = d_sign d" "d_dscale d' = rscale" "d_typemod d' = d_typemod d" "d_isOwn d'"
        "spare d \<longrightarrow> spare d' \<or> ds' \<noteq> [] \<and> hd ds' < 5000"
      using round_carry_spec [of "take n ?ds" ?d1 "[0]"] dig_ok_take [OF ok] own by (auto simp: spare_def)
    have "K * num ds' + 0 = K * num (take n ?ds) + q + 1" using c(4) q by (simp add: algebra_simps)
    then have "dval (ds' @ [0]) (d_weight d') = of_int (K * num (take n ?ds) + q + 1) * 10 powi (- rscale)" using val [of ds' "d_weight d'" 0] c(5) n by simp
    moreover have "decimal_round d rscale = Inr d'" using code True PK c(1) by simp
    ultimately show ?thesis using True c fl by (auto simp: rounded_def can_round_def hd_append)
  qed
qed


lemma round_spec:
  assumes "d_isOwn d" and "dig_ok (d_digits d)" and "can_round d" and "rscale \<ge> 0"
  shows "\<exists>d'. decimal_round d rscale = Inr d' \<and> rounded d rscale \<lfloor>dval (d_digits d) (d_weight d) * 10 powi rscale + 1 / 2\<rfloor> d'"
proof -
  let ?ds = "d_digits d" and ?w = "d_weight d"
  define di where "di = (?w + 1) * 4 + rscale"
  define n where "n = nat (di div 4)"
  consider (none) "di < 0" | (all) "0 \<le> di" "4 * int (length ?ds) \<le> di" | (whole) "0 \<le> di" "di < 4 * int (length ?ds)" "di mod 4 = 0"
    | (inside) "0 \<le> di" "di < 4 * int (length ?ds)" "0 < di mod 4" using pos_mod_sign [of 4 di] by linarith
  then show ?thesis
  proof cases
    case none
    have "dval ?ds ?w * 10 powi rscale < 10000 powi (?w + 1) * 10 powi rscale" using dval_bound(2) [OF assms(2)] by (intro mult_strict_right_mono) simp_all
    also have "\<dots> = 10 powi di" unfolding powi_ten using powi10_add [of "4 * (?w + 1)" rscale] by (simp add: di_def algebra_simps)
    also have "(10::rat) powi di \<le> 10 powi (- 1)" using none by (intro power_int_increasing) auto
    finally have "\<lfloor>dval ?ds ?w * 10 powi rscale + 1 / 2\<rfloor> = 0" using dval_bound(1) [OF assms(2), of ?w] by (intro floor_unique) (auto simp: power_int_minus)
    moreover have "decimal_round d rscale = Inr (d\<lparr>d_dscale := rscale, d_digits := [], d_weight := 0, d_sign := SDB_DECIMAL_POS\<rparr>)"
      using none assms(1) by (simp add: decimal_round_def Let_def di_def)
    ultimately show ?thesis using assms by (auto simp: rounded_def can_round_def)
  next
    case all
    define e where "e = nat (di - 4 * int (length ?ds))"
    have "dval ?ds ?w * 10 powi rscale = 10 powi (int e) * of_int (num ?ds)"
      using scaled_split [of "length ?ds" ?ds ?w rscale] all by (simp add: di_def e_def)
    then have S: "dval ?ds ?w * 10 powi rscale = of_int (10 ^ e * num ?ds)" by simp
    then have fl: "\<lfloor>dval ?ds ?w * 10 powi rscale + 1 / 2\<rfloor> = 10 ^ e * num ?ds" using floor_half [of 0 "dval ?ds ?w * 10 powi rscale" "10 ^ e * num ?ds"] by simp
    have nr: "\<not> (nat ((di + 4 - 1) div 4) < length ?ds \<or> nat ((di + 4 - 1) div 4) = length ?ds \<and> di mod 4 > 0)"
    proof -
      have "di mod 4 > 0 \<Longrightarrow> 4 * int (length ?ds) < di" using all(2) by (cases "di = 4 * int (length ?ds)") auto
      then show ?thesis using all by (auto simp: nat_less_iff)
    qed
    have "decimal_round d rscale = Inr (d\<lparr>d_dscale := rscale\<rparr>)"
      unfolding decimal_round_def Let_def di_def [symmetric] if_not_P [OF nr] using all(1) assms(1) by simp
    moreover have "dval ?ds ?w = of_int (10 ^ e * num ?ds) * 10 powi (- rscale)" unfolding S [symmetric] using powi10_add [of rscale "- rscale"] by simp
    ultimately show ?thesis using fl assms by (auto simp: rounded_def can_round_def spare_def)
  next
    case whole
    then have "n < length ?ds" "(?w + 1) * 4 + rscale = 4 * int n" by (auto simp: n_def di_def)
    then show ?thesis by (rule round_whole_digit [OF assms(1-3) _ _ assms(4)])
  next
    case inside
    have "n < length ?ds" using inside by (simp add: n_def nat_less_iff)
    moreover have "(?w + 1) * 4 + rscale = 4 * int n + di mod 4"
    proof -
      have "4 * int n = 4 * (di div 4)" using inside(1) by (simp add: n_def pos_imp_zdiv_nonneg_iff)
      then have "di = 4 * int n + di mod 4" by simp
      then show ?thesis unfolding di_def .
    qed
    ultimately show ?thesis using inside by (intro round_inside_digit [OF assms(1-3) _ _ _ _ assms(4)]) auto
  qed
qed


text \<open>C14: \<open>decimal_round\<close> to \<open>rscale\<close> decimal places rounds the absolute value half up, for every number that has a spare cell in front of its digits, a first
  digit below 5000, or no digits behind the point: it never reads or writes in front of its buffer, never reports an error, and keeps the sign unless
  nothing is left.  A number with a spare cell can be rounded again afterwards.\<close>
theorem decimal_round_half_up:
  assumes "d_isOwn d" and "dig_ok (d_digits d)" and "can_round d" and "rscale \<ge> 0"
  shows "\<exists>d'. decimal_round d rscale = Inr d' \<and> rounded d rscale \<lfloor>dval (d_digits d) (d_weight d) * 10 powi rscale + 1 / 2\<rfloor> d'"
  by (rule round_spec [OF assms])

theorem decimal_round_half_up_witness:
  "decimal_round (decimal_init\<lparr>d_isOwn := True, d_front := [0], d_digits := [9999, 9995], d_weight := 0\<rparr>) 3
     = Inr (decimal_init\<lparr>d_isOwn := True, d_front := [], d_digits := [1, 0, 0], d_weight := 1, d_dscale := 3\<rparr>)
   \<and> dval [1, 0, 0] 1 = of_int \<lfloor>dval [9999, 9995] 0 * 10 powi 3 + 1 / 2\<rfloor> * 10 powi (- 3)"
proof -
  let ?d = "decimal_init\<lparr>d_isOwn := True, d_front := [0], d_digits := [9999, 9995], d_weight := 0\<rparr>"
  have r: "decimal_round ?d 3 = Inr (decimal_init\<lparr>d_isOwn := True, d_front := [], d_digits := [1, 0, 0], d_weight := 1, d_dscale := 3\<rparr>)" by code_simp
  have "d_isOwn ?d" "dig_ok (d_digits ?d)" "can_round ?d" by (auto simp: can_round_def spare_def)
  from decimal_round_half_up [OF this, of 3] r show ?thesis by (auto simp: rounded_def simp del: dval.simps)
qed


section \<open>Truncating\<close>

lemma floor_unit:
  assumes "of_int k * (10::rat) powi (- s) \<le> v" "v < of_int (k + 1) * 10 powi (- s)"
  shows "\<lfloor>v * 10 powi s\<rfloor> = k"
proof (rule floor_unique)
  have one: "(10::rat) powi (- s) * 10 powi s = 1" using powi10_add [of "- s" s] by simp
  have "of_int k * 10 powi (- s) * 10 powi s \<le> v * (10::rat) powi s" using assms(1) by (rule mult_right_mono) simp
  then show "of_int k \<le> v * 10 powi s" using one by (simp add: mult.assoc)
  have "v * (10::rat) powi s < of_int (k + 1) * 10 powi (- s) * 10 powi s" using assms(2) by (rule mult_strict_right_mono) simp
  then show "v * 10 powi s < of_int k + 1" using one by (simp add: mult.assoc)
qed

lemma trunc_inside:
  assumes ok: "dig_ok ds" and n: "n < length ds" and di: "(w + 1) * 4 + rscale = 4 * int n + m" and m: "0 < m" "m < 4" and x: "x = ds ! n"
  shows "dval (take n ds @ [x - x mod round_powers m]) w = of_int \<lfloor>dval ds w * 10 powi rscale\<rfloor> * 10 powi (- rscale)"
proof -
  define P where "P = round_powers m"
  obtain P: "P = 10 ^ nat (4 - m)" using round_powers_ten [OF m] by (simp add: P_def)
  have "nat (4 - m) + nat m = 4" using m by simp
  then have Pm: "P * 10 ^ nat m = 10000" unfolding P by (simp flip: power_add)
  have Ppos: "0 < P" by (simp add: P)
  have unit: "of_int P * (10000::rat) powi (w - int n) = 10 powi (- rscale)"
  proof -
    have "(of_int P :: rat) = 10 powi (4 - m)" using m power_int_of_nat [of "10::rat" "nat (4 - m)"] by (simp add: P)
    then have "of_int P * (10000::rat) powi (w - int n) = 10 powi (4 - m + 4 * (w - int n))" unfolding powi_ten powi10_add by simp
    also have "4 - m + 4 * (w - int n) = - rscale" using di by simp
    finally show ?thesis .
  qed
  let ?r = "take n ds @ [x - x mod P]"
  have x0: "0 \<le> x" "x < 10000" using dig_ok_nth [OF ok n] x by auto
  have drop: "drop n ds = x # drop (Suc n) ds" unfolding x using n by (rule Cons_nth_drop_Suc [symmetric])
  define t where "t = dval (drop (Suc n) ds) (- 1)"
  have t: "0 \<le> t" "t < 1" using fraction_bound [OF dig_ok_drop [OF ok]] by (auto simp: t_def)
  have "dval ds w = dval (take n ds) w + dval (drop n ds) (w - int n)" using dval_append [of "take n ds" "drop n ds" w] n by simp
  also have "dval (drop n ds) (w - int n) = (of_int x + t) * 10000 powi (w - int n)"
    unfolding drop t_def using dval_shift [of "drop (Suc n) ds" "- 1" "w - int n"] by (simp add: algebra_simps)
  finally have v: "dval ds w = dval (take n ds) w + (of_int x + t) * 10000 powi (w - int n)" .
  have vr: "dval ?r w = dval (take n ds) w + of_int (x - x mod P) * 10000 powi (w - int n)" using n by (simp add: dval_append)
  have diff: "dval ds w - dval ?r w = (of_int (x mod P) + t) * 10000 powi (w - int n)" unfolding v vr by (simp add: algebra_simps)
  have "x mod P \<le> P - 1" using pos_mod_bound [OF Ppos, of x] by linarith
  then have e: "0 \<le> x mod P" "(of_int (x mod P) :: rat) \<le> of_int (P - 1)" using Ppos by (simp_all only: of_int_le_iff pos_mod_sign)
  have lo: "0 \<le> dval ds w - dval ?r w" unfolding diff using e t by simp
  have "(of_int (x mod P) + t) * 10000 powi (w - int n) < of_int P * 10000 powi (w - int n)" using e t by (intro mult_strict_right_mono) auto
  then have hi: "dval ds w - dval ?r w < 10 powi (- rscale)" unfolding diff unit .
  define k where "k = 10 ^ nat m * num (take n ds) + x div P"
  have "num ?r = P * k"
  proof -
    have "x - x mod P = P * (x div P)" by (simp add: minus_mod_eq_mult_div)
    moreover have "num (take n ds) * 10000 = P * (10 ^ nat m * num (take n ds))" by (simp flip: Pm)
    ultimately show ?thesis by (simp add: num_append k_def distrib_left)
  qed
  then have vk: "dval ?r w = of_int k * 10 powi (- rscale)" unfolding unit [symmetric] using n by (simp add: dval_num)
  have "\<lfloor>dval ds w * 10 powi rscale\<rfloor> = k" by (rule floor_unit) (use lo hi vk in \<open>simp_all add: distrib_right\<close>)
  then show ?thesis using vk by (simp add: P_def)
qed

text \<open>\<open>dec_trunc\<close> cuts the absolute value to \<open>rscale\<close> decimal places.\<close>

lemma dec_trunc_spec:
  assumes "d_isOwn d" and "dig_ok (d_digits d)"
  shows "d_isOwn (dec_trunc d rscale) \<and> d_dscale (dec_trunc d rscale) = rscale \<and> d_typemod (dec_trunc d rscale) = d_typemod d \<and> dig_ok (d_digits (dec_trunc d rscale))
     \<and> (d_sign (dec_trunc d rscale) = d_sign d \<or> d_digits (dec_trunc d rscale) = [] \<and> d_sign (dec_trunc d rscale) = SDB_DECIMAL_POS)
     \<and> dval (d_digits (dec_trunc d rscale)) (d_weight (dec_trunc d rscale)) = of_int \<lfloor>dval (d_digits d) (d_weight d) * 10 powi rscale\<rfloor> * 10 powi (- rscale)"
proof -
  let ?ds = "d_digits d" and ?w = "d_weight d"
  define di where "di = (?w + 1) * 4 + rscale"
  define n where "n = nat (di div 4)"
  have V: "0 \<le> dval ?ds ?w" "dval ?ds ?w < 10 powi (di - rscale)"
    using dval_bound [OF assms(2), of ?w] by (simp_all add: powi_ten di_def mult.commute)
  consider (none) "di \<le> 0" | (all) "0 < di" "4 * int (length ?ds) \<le> di" | (whole) "0 < di" "di < 4 * int (length ?ds)" "di mod 4 = 0"
    | (inside) "0 < di" "di < 4 * int (length ?ds)" "0 < di mod 4" using pos_mod_sign [of 4 di] by linarith
  then show ?thesis
  proof cases
    case none
    have "(10::rat) powi (di - rscale) \<le> 10 powi (- rscale)" using none by (intro power_int_increasing) auto
    then have "\<lfloor>dval ?ds ?w * 10 powi rscale\<rfloor> = 0" using V by (intro floor_unit) auto
    then show ?thesis using none assms(1) by (simp add: dec_trunc_def Let_def di_def)
  next
    case all
    define e where "e = nat (di - 4 * int (length ?ds))"
    have "dval ?ds ?w * 10 powi rscale = 10 powi (int e) * of_int (num ?ds)"
      using scaled_split [of "length ?ds" ?ds ?w rscale] all by (simp add: di_def e_def)
    then have S: "dval ?ds ?w * 10 powi rscale = of_int (10 ^ e * num ?ds)" by simp
    then have fl: "of_int \<lfloor>dval ?ds ?w * 10 powi rscale\<rfloor> = dval ?ds ?w * 10 powi rscale" by (simp only: floor_of_int)
    have "dval ?ds ?w = of_int \<lfloor>dval ?ds ?w * 10 powi rscale\<rfloor> * 10 powi (- rscale)"
      unfolding fl using powi10_add [of rscale "- rscale"] by (simp add: mult.assoc)
    moreover have "d_digits (dec_trunc d rscale) = ?ds \<and> d_weight (dec_trunc d rscale) = ?w \<and> d_sign (dec_trunc d rscale) = d_sign d \<and> d_isOwn (dec_trunc d rscale)
        \<and> d_dscale (dec_trunc d rscale) = rscale \<and> d_typemod (dec_trunc d rscale) = d_typemod d"
    proof (cases "nat ((di + 4 - 1) div 4) \<le> length ?ds")
      case True
      then have "di \<le> 4 * int (length ?ds)" using all(1) by (simp add: nat_le_iff)
      then have "di = 4 * int (length ?ds)" using all(2) by simp
      then show ?thesis using all(1) assms(1) unfolding dec_trunc_def Let_def di_def [symmetric] by simp
    next
      case False
      then show ?thesis using all(1) assms(1) unfolding dec_trunc_def Let_def di_def [symmetric] by simp
    qed
    ultimately show ?thesis using assms(2) by simp
  next
    case whole
    then have n: "n < length ?ds" "di = 4 * int n" by (auto simp: n_def)
    have "dval ?ds ?w = dval (take n ?ds) ?w + dval (drop n ?ds) (?w - int n)" using dval_append [of "take n ?ds" "drop n ?ds" ?w] n by simp
    moreover have "0 \<le> dval (drop n ?ds) (?w - int n)" "dval (drop n ?ds) (?w - int n) < 10000 powi (?w - int n + 1)" using dval_bound dig_ok_drop [OF assms(2)] by auto
    moreover have u: "(10000::rat) powi (?w + 1 - int n) = 10 powi (- rscale)"
      unfolding powi_ten by (rule arg_cong [of _ _ "\<lambda>k. 10 powi k"]) (use n(2) in \<open>simp add: di_def\<close>)
    moreover have k: "dval (take n ?ds) ?w = of_int (num (take n ?ds)) * 10 powi (- rscale)" unfolding u [symmetric] using n(1) by (simp add: dval_num)
    ultimately have "\<lfloor>dval ?ds ?w * 10 powi rscale\<rfloor> = num (take n ?ds)" by (intro floor_unit) (simp_all add: algebra_simps)
    moreover have "dec_trunc d rscale = d\<lparr>d_dscale := rscale, d_digits := take n ?ds\<rparr>"
      using whole n assms(1) unfolding dec_trunc_def Let_def di_def [symmetric] by simp
    ultimately show ?thesis using k assms dig_ok_take by simp
  next
    case inside
    have nl: "n < length ?ds" using inside by (simp add: n_def nat_less_iff)
    have dn: "di = 4 * int n + di mod 4" using inside(1) by (simp add: n_def pos_imp_zdiv_nonneg_iff)
    have "nat ((di + 4 - 1) div 4) = Suc n" using inside dn by (subst dn) auto
    moreover define x where "x = ?ds ! n"
    moreover have "(take (Suc n) ?ds)[n := y] = take n ?ds @ [y]" for y using nl by (simp add: take_Suc_conv_app_nth list_update_append)
    ultimately have "dec_trunc d rscale = d\<lparr>d_dscale := rscale, d_digits := take n ?ds @ [x - x mod round_powers (di mod 4)]\<rparr>"
      using inside nl assms(1) unfolding dec_trunc_def Let_def di_def [symmetric] by simp
    moreover have "dval (take n ?ds @ [x - x mod round_powers (di mod 4)]) ?w = of_int \<lfloor>dval ?ds ?w * 10 powi rscale\<rfloor> * 10 powi (- rscale)"
      using inside dn by (intro trunc_inside [OF assms(2) nl]) (auto simp: x_def di_def)
    moreover have "0 \<le> x - x mod round_powers (di mod 4) \<and> x - x mod round_powers (di mod 4) < 10000"
    proof -
      have "0 < round_powers (di mod 4)" using round_powers_ten [of "di mod 4"] inside(3) by simp
      then have "0 \<le> x mod round_powers (di mod 4)" "0 \<le> round_powers (di mod 4) * (x div round_powers (di mod 4))"
        using dig_ok_nth [OF assms(2) nl] by (auto simp: x_def pos_imp_zdiv_nonneg_iff)
      moreover have "x - x mod round_powers (di mod 4) = round_powers (di mod 4) * (x div round_powers (di mod 4))" by (rule minus_mod_eq_mult_div)
      ultimately show ?thesis using dig_ok_nth [OF assms(2) nl] unfolding x_def by linarith
    qed
    ultimately show ?thesis using assms dig_ok_take by simp
  qed
qed

end
