(* ===== verification/Bson_DecMul.thy ===== *)
theory Bson_DecMul
  imports Bson_DecRound
begin

text \<open>
  Multiplication (\<open>_decimal_mul\<close>, \<open>decimal_mul\<close>): the products are summed up in an array of 32-bit integers whose carries are propagated only when an overflow threatens.
  The arithmetic on the array wraps around.
\<close>

section \<open>The algorithm\<close>

definition s16 :: "int \<Rightarrow> int" where
  "s16 i = (i + 32768) mod 65536 - 32768"

text \<open>The pass that propagates the carries, from the last cell to the first.\<close>

fun norm_loop :: "int list \<Rightarrow> int \<Rightarrow> int \<times> int list" where
  "norm_loop [] carry = (carry, [])"
| "norm_loop (x # xs) carry =
     (let newdig = s32 (x + carry);
          c = (if newdig \<ge> DECIMAL_NBASE then newdig div DECIMAL_NBASE else 0)
      in case norm_loop xs c of (out, ys) \<Rightarrow> (out, (newdig - c * DECIMAL_NBASE) # ys))"

definition normalise :: "int list \<Rightarrow> int \<times> int list" where
  "normalise dig = (case norm_loop (rev dig) 0 of (carry, ds) \<Rightarrow> (carry, rev ds))"

text \<open>One digit of the left factor: the digits of the right one from the last.\<close>

fun mul_row :: "int list \<Rightarrow> nat \<Rightarrow> int \<Rightarrow> int list \<Rightarrow> int list" where
  "mul_row dig i l [] = dig"
| "mul_row dig i l (r # rs) = mul_row (dig[i := s32 (dig ! i + l * r)]) (i - 1) l rs"

fun mul_rows :: "int list \<Rightarrow> int \<Rightarrow> nat \<Rightarrow> int list \<Rightarrow> int list \<Rightarrow> int list option" where
  "mul_rows dig maxdig ri [] rs = Some dig"
| "mul_rows dig maxdig ri (l # ls) rs =
     (if l = 0 then mul_rows dig maxdig (ri - 1) ls rs
      else if maxdig + l > INT_MAX div (DECIMAL_NBASE - 1)
      then (case normalise dig of (carry, dig1) \<Rightarrow>
              if carry \<noteq> 0 then None else mul_rows (mul_row dig1 ri l rs) (1 + l) (ri - 1) ls rs)
      else mul_rows (mul_row dig ri l rs) (maxdig + l) (ri - 1) ls rs)"

text \<open>How many digits of the factors take part when the product has more digits than are needed.\<close>

definition trim_factors :: "int \<Rightarrow> int \<Rightarrow> int \<Rightarrow> int \<times> int" where
  "trim_factors n1 n2 maxdigits =
     (let over = n1 + n2 + 1 - maxdigits in
      if n1 > n2 then (if n1 - over < n2 then ((n1 - over + n2) div 2, (n1 - over + n2) div 2) else (n1 - over, n2))
      else (if n2 - over < n1 then ((n1 + (n2 - over)) div 2, (n1 + (n2 - over)) div 2) else (n1, n2 - over)))"

definition mul_digits :: "(nat \<Rightarrow> bool) \<Rightarrow> int \<Rightarrow> int \<Rightarrow> int list \<Rightarrow> int list \<Rightarrow> int \<Rightarrow> bson_decimal dec_res" where
  "mul_digits mem sign weight ls rs rscale =
     (let n = length ls + length rs + 1 in
      if \<not> mem n then Inl (Rc (- 2))
      else (case mul_rows (replicate n 0) 0 (n - 1) (rev ls) (rev rs) of
              None \<Rightarrow> Inl (Rc (- 6))
            | Some dig \<Rightarrow>
                (case normalise dig of (carry, ds) \<Rightarrow>
                   (case dec_alloc mem (map s16 ds) decimal_init of
                      Inl err \<Rightarrow> Inl err
                    | Inr d \<Rightarrow>
                        if carry \<noteq> 0 then Inl (Rc (- 6))
                        else map_sum id dec_strip (decimal_round (d\<lparr>d_weight := weight, d_sign := sign\<rparr>) rscale)))))"

definition dec_mul :: "(nat \<Rightarrow> bool) \<Rightarrow> bson_decimal \<Rightarrow> bson_decimal \<Rightarrow> int \<Rightarrow> bson_decimal dec_res" where
  "dec_mul mem l r rscale =
     (let n1 = int (length (d_digits l)); n2 = int (length (d_digits r)) in
      if n1 = 0 \<or> n2 = 0 then Inr (decimal_set_zero\<lparr>d_dscale := rscale\<rparr>)
      else (let sign = (if d_sign l = d_sign r then SDB_DECIMAL_POS else SDB_DECIMAL_NEG);
                weight = d_weight l + d_weight r + 2;
                maxdigits = weight + 1 + rscale * DECIMAL_DEC_DIGITS + DECIMAL_MUL_GUARD_DIGITS
            in if n1 + n2 + 1 > maxdigits
               then (if maxdigits < 3 then Inr (decimal_set_zero\<lparr>d_dscale := rscale\<rparr>)
                     else (let odd = (if maxdigits mod 2 = 0 then maxdigits + 1 else maxdigits) in
                       case trim_factors n1 n2 odd of (m1, m2) \<Rightarrow>
                         if odd \<noteq> m1 + m2 + 1 then Inl (Rc (- 6))
                         else mul_digits mem sign weight (take (nat m1) (d_digits l)) (take (nat m2) (d_digits r)) rscale))
               else mul_digits mem sign weight (d_digits l) (d_digits r) rscale))"

definition decimal_mul :: "(nat \<Rightarrow> bool) \<Rightarrow> bson_decimal \<Rightarrow> bson_decimal \<Rightarrow> bson_decimal dec_res" where
  "decimal_mul mem l r =
     (if decimal_is_special l \<or> decimal_is_special r then Inr decimal_set_nan else bounded (dec_mul mem l r (d_dscale l + d_dscale r)))"

section \<open>The sums do not overflow\<close>

lemma num_update: "i < length ds \<Longrightarrow> num (ds[i := y]) = num ds + (y - ds ! i) * DECIMAL_NBASE ^ (length ds - 1 - i)"
proof (induction ds arbitrary: i)
  case (Cons x xs)
  then show ?case by (cases i) (auto simp: algebra_simps)
qed simp

definition cells_upto :: "int \<Rightarrow> int list \<Rightarrow> bool" where
  "cells_upto N dig \<longleftrightarrow> (\<forall>x\<in>set dig. 0 \<le> x \<and> x \<le> N)"

lemma norm_loop_spec:
  assumes N: "0 \<le> N" "N + N div 9999 \<le> INT_MAX"
  shows "norm_loop xs c = (out, ys) \<Longrightarrow> cells_upto N xs \<Longrightarrow> 0 \<le> c \<Longrightarrow> c \<le> N div 9999 \<Longrightarrow>
    length ys = length xs \<and> dig_ok ys \<and> 0 \<le> out \<and> num (rev ys) + out * DECIMAL_NBASE ^ length xs = num (rev xs) + c"
proof (induction xs arbitrary: c ys out)
  case (Cons x xs)
  have x: "0 \<le> x" "x \<le> N" using Cons.prems(2) by (auto simp: cells_upto_def)
  have s: "s32 (x + c) = x + c" using x Cons.prems(3,4) N(2) by (intro s32_id) auto
  define c1 where "c1 = (x + c) div 10000"
  have c1: "0 \<le> c1" "c1 \<le> N div 9999" "(if x + c \<ge> 10000 then (x + c) div 10000 else 0) = c1"
  proof -
    show "0 \<le> c1" using x Cons.prems(3) by (simp add: c1_def pos_imp_zdiv_nonneg_iff)
    have "x + c \<le> N + N div 9999" using x Cons.prems(4) by simp
    also have "\<dots> < (N div 9999 + 1) * 10000" by presburger
    finally have "c1 < N div 9999 + 1" unfolding c1_def by (simp add: div_less_iff_less_mult)
    then show "c1 \<le> N div 9999" by simp
    show "(if x + c \<ge> 10000 then (x + c) div 10000 else 0) = c1" using x Cons.prems(3) by (simp add: c1_def)
  qed
  obtain o1 zs where r: "norm_loop xs c1 = (o1, zs)" by (cases "norm_loop xs c1")
  have res: "out = o1" "ys = (x + c - c1 * 10000) # zs" using Cons.prems(1) r by (auto simp: s Let_def c1(3) simp flip: c1_def)
  have IH: "length zs = length xs" "dig_ok zs" "0 \<le> o1" "num (rev zs) + o1 * DECIMAL_NBASE ^ length xs = num (rev xs) + c1"
    using Cons.IH [OF r _ c1(1,2)] Cons.prems(2) by (auto simp: cells_upto_def)
  have "x + c - c1 * 10000 = (x + c) mod 10000" by (simp add: c1_def minus_div_mult_eq_mod)
  then have "0 \<le> x + c - c1 * 10000" "x + c - c1 * 10000 < 10000" by auto
  moreover have "num (rev ys) + out * DECIMAL_NBASE ^ length (x # xs) = 10000 * (num (rev zs) + o1 * DECIMAL_NBASE ^ length xs) + (x + c - c1 * 10000)"
    by (simp add: res num_append algebra_simps)
  ultimately show ?case using IH by (simp add: res num_append)
qed simp

lemma normalise_spec:
  assumes "0 \<le> N" "N + N div 9999 \<le> INT_MAX" "cells_upto N dig" "normalise dig = (carry, ds)"
  shows "length ds = length dig \<and> dig_ok ds \<and> 0 \<le> carry \<and> num ds + carry * DECIMAL_NBASE ^ length dig = num dig"
proof -
  obtain out ys where r: "norm_loop (rev dig) 0 = (out, ys)" by (cases "norm_loop (rev dig) 0")
  have "cells_upto N (rev dig)" using assms(3) by (simp add: cells_upto_def)
  moreover have "0 \<le> N div 9999" using assms(1) by (simp add: pos_imp_zdiv_nonneg_iff)
  moreover have "carry = out" "ds = rev ys" using assms(4) r by (auto simp: normalise_def)
  ultimately show ?thesis using norm_loop_spec [OF assms(1,2) r] by simp
qed

lemma no_carry:
  assumes "num ds + carry * DECIMAL_NBASE ^ n = v" "dig_ok ds" "v < DECIMAL_NBASE ^ n" "0 \<le> carry"
  shows "carry = 0"
proof -
  have "carry * DECIMAL_NBASE ^ n < 1 * DECIMAL_NBASE ^ n" using assms(1,3) num_bound [OF assms(2)] unfolding mult_1 by linarith
  then have "carry < 1" by (rule mult_right_less_imp_less) simp
  then show ?thesis using assms(4) by simp
qed

lemma mul_row_spec:
  assumes "0 \<le> l" "0 \<le> M"
  shows "length rs \<le> Suc i \<Longrightarrow> i < length dig \<Longrightarrow> cells_upto M rs \<Longrightarrow> cells_upto (N + l * M) dig \<Longrightarrow> (\<forall>j\<le>i. dig ! j \<le> N) \<Longrightarrow> N + l * M \<le> INT_MAX \<Longrightarrow>
    length (mul_row dig i l rs) = length dig \<and> cells_upto (N + l * M) (mul_row dig i l rs)
    \<and> num (mul_row dig i l rs) = num dig + l * num (rev rs) * DECIMAL_NBASE ^ (length dig - 1 - i)"
proof (induction rs arbitrary: dig i)
  case (Cons r rs)
  have r: "0 \<le> r" "r \<le> M" using Cons.prems(3) by (auto simp: cells_upto_def)
  have lr: "0 \<le> l * r" "l * r \<le> l * M" using r assms by (auto intro: mult_left_mono)
  have d: "0 \<le> dig ! i" "dig ! i \<le> N" using Cons.prems(2,4,5) by (auto simp: cells_upto_def)
  have s: "s32 (dig ! i + l * r) = dig ! i + l * r" using d lr Cons.prems(6) by (intro s32_id) auto
  let ?dig = "dig[i := dig ! i + l * r]"
  have upd: "num ?dig = num dig + l * r * DECIMAL_NBASE ^ (length dig - 1 - i)" using num_update [OF Cons.prems(2)] by simp
  have cells: "cells_upto (N + l * M) ?dig" using Cons.prems(4) d lr set_update_subset_insert [of dig i] by (fastforce simp: cells_upto_def)
  show ?case
  proof (cases rs)
    case Nil
    then show ?thesis using upd cells by (simp add: s)
  next
    case (Cons r2 rs2)
    then have i: "0 < i" using Cons.prems(1) by auto
    then have e: "length ?dig - 1 - (i - 1) = Suc (length dig - 1 - i)" using Cons.prems(2) by simp
    have "length (mul_row ?dig (i - 1) l rs) = length ?dig \<and> cells_upto (N + l * M) (mul_row ?dig (i - 1) l rs)
        \<and> num (mul_row ?dig (i - 1) l rs) = num ?dig + l * num (rev rs) * DECIMAL_NBASE ^ (length ?dig - 1 - (i - 1))"
      using Cons.prems i cells by (intro Cons.IH) (auto simp: cells_upto_def nth_list_update)
    then have R: "length (mul_row ?dig (i - 1) l rs) = length dig" "cells_upto (N + l * M) (mul_row ?dig (i - 1) l rs)"
        "num (mul_row ?dig (i - 1) l rs) = num dig + l * r * DECIMAL_NBASE ^ (length dig - 1 - i) + l * num (rev rs) * DECIMAL_NBASE ^ Suc (length dig - 1 - i)"
      unfolding upd e by auto
    have "num (rev (r # rs)) = num (rev rs) * 10000 + r" by (simp add: num_append)
    then have "num dig + l * r * DECIMAL_NBASE ^ (length dig - 1 - i) + l * num (rev rs) * DECIMAL_NBASE ^ Suc (length dig - 1 - i)
        = num dig + l * num (rev (r # rs)) * DECIMAL_NBASE ^ (length dig - 1 - i)" by (simp add: algebra_simps)
    then show ?thesis using R unfolding mul_row.simps s by simp
  qed
qed simp


text \<open>\<open>M\<close> bounds the digits of the right factor; with digits up to 9999 the left factor must be short enough that no carry pass is needed before the last one.\<close>

definition headroom :: "int \<Rightarrow> int" where
  "headroom M = (if M = 9999 then 209979 else 214769)"

lemma headroom_enough:
  assumes "M = 9999 \<or> M = 9998" "a \<le> headroom M"
  shows "a * M + (9999 - M) \<le> INT_MAX" "headroom M * M + (9999 - M) + (headroom M * M + (9999 - M)) div 9999 \<le> INT_MAX" "0 \<le> headroom M * M + (9999 - M)"
    "a * M + (9999 - M) \<le> headroom M * M + (9999 - M)"
  using assms by (auto simp: headroom_def)

lemma cells_mono: "cells_upto a dig \<Longrightarrow> a \<le> b \<Longrightarrow> cells_upto b dig"
  by (auto simp: cells_upto_def)

lemma mul_rows_spec:
  assumes M: "M = 9999 \<or> M = 9998" and rs: "cells_upto M rs" "dig_ok rs"
  shows "dig_ok ls \<Longrightarrow> ri = length ls + length rs \<Longrightarrow> ri < length dig \<Longrightarrow> cells_upto (maxdig * M + (9999 - M)) dig \<Longrightarrow> 0 \<le> maxdig \<Longrightarrow> maxdig \<le> headroom M \<Longrightarrow>
    (M = 9999 \<longrightarrow> maxdig + sum_list ls \<le> headroom M) \<Longrightarrow>
    num dig + num (rev ls) * num (rev rs) * DECIMAL_NBASE ^ (length dig - 1 - ri) < DECIMAL_NBASE ^ length dig \<Longrightarrow>
    \<exists>dig'. mul_rows dig maxdig ri ls rs = Some dig' \<and> length dig' = length dig \<and> cells_upto (headroom M * M + (9999 - M)) dig'
      \<and> num dig' = num dig + num (rev ls) * num (rev rs) * DECIMAL_NBASE ^ (length dig - 1 - ri)"
proof (induction ls arbitrary: dig maxdig ri)
  case Nil
  then show ?case using headroom_enough(4) [OF M Nil.prems(6)] by (auto intro: cells_mono)
next
  case (Cons l ls)
  let ?E = "length dig - 1 - ri"
  have l: "0 \<le> l" "l < 10000" and ls: "dig_ok ls" using Cons.prems(1) by auto
  have ri: "ri - 1 = length ls + length rs" "ri - 1 < length dig" "length dig - 1 - (ri - 1) = Suc ?E" using Cons.prems(2,3) by auto
  have nonneg: "0 \<le> sum_list ls" using ls by (intro sum_list_nonneg) (auto simp: dig_ok_def)
  have total: "num (rev (l # ls)) * num (rev rs) * DECIMAL_NBASE ^ ?E = l * num (rev rs) * DECIMAL_NBASE ^ ?E + num (rev ls) * num (rev rs) * DECIMAL_NBASE ^ Suc ?E"
    by (simp add: num_append algebra_simps)
  have step: "\<exists>dig'. mul_rows (mul_row dig1 ri l rs) (m1 + l) (ri - 1) ls rs = Some dig' \<and> length dig' = length dig \<and> cells_upto (headroom M * M + (9999 - M)) dig'
      \<and> num dig' = num dig + num (rev (l # ls)) * num (rev rs) * DECIMAL_NBASE ^ ?E"
    if d1: "length dig1 = length dig" "num dig1 = num dig" "cells_upto (m1 * M + (9999 - M)) dig1" "0 \<le> m1" "m1 + l \<le> headroom M" "M = 9999 \<longrightarrow> m1 + l + sum_list ls \<le> headroom M" for dig1 m1
  proof -
    have e: "(m1 + l) * M + (9999 - M) = m1 * M + (9999 - M) + l * M" by (simp add: algebra_simps)
    have "0 \<le> l * M" using l M by auto
    then have "cells_upto (m1 * M + (9999 - M) + l * M) dig1" by (intro cells_mono [OF d1(3)]) simp
    moreover have "\<forall>j\<le>ri. dig1 ! j \<le> m1 * M + (9999 - M)" using d1(1,3) Cons.prems(3) by (auto simp: cells_upto_def)
    moreover have "m1 * M + (9999 - M) + l * M \<le> INT_MAX" using headroom_enough(1) [OF M d1(5)] e by simp
    ultimately have R: "length (mul_row dig1 ri l rs) = length dig1" "cells_upto ((m1 + l) * M + (9999 - M)) (mul_row dig1 ri l rs)"
        "num (mul_row dig1 ri l rs) = num dig1 + l * num (rev rs) * DECIMAL_NBASE ^ (length dig1 - 1 - ri)"
      using mul_row_spec [of l M rs ri dig1 "m1 * M + (9999 - M)"] l M rs Cons.prems(2,3) d1(1) unfolding e by auto
    from Cons.IH [OF ls ri(1), of "mul_row dig1 ri l rs" "m1 + l"] show ?thesis
      using R d1 ri l Cons.prems(8) unfolding total by (simp add: algebra_simps)
  qed
  consider (zero) "l = 0" | (room) "l \<noteq> 0" "maxdig + l \<le> 214769" | (full) "l \<noteq> 0" "214769 < maxdig + l" by linarith
  then show ?case
  proof cases
    case zero
    have same: "mul_row dig ri 0 rs = dig"
    proof -
      have id: "mul_row dig i 0 xs = dig" if "cells_upto INT_MAX dig" for i xs dig
        using that
      proof (induction xs arbitrary: i dig)
        case (Cons x xs)
        show ?case
        proof (cases "i < length dig")
          case True
          then have "dig ! i \<in> set dig" by simp
          then have "0 \<le> dig ! i" "dig ! i \<le> INT_MAX" using Cons.prems by (auto simp: cells_upto_def)
          then have "s32 (dig ! i) = dig ! i" by (intro s32_id) auto
          then show ?thesis using Cons by simp
        next
          case False
          then have "dig[i := y] = dig" for y by (simp add: list_update_beyond)
          then show ?thesis using Cons by simp
        qed
      qed simp
      show ?thesis by (rule id) (rule cells_mono [OF Cons.prems(4) headroom_enough(1) [OF M Cons.prems(6)]])
    qed
    show ?thesis using step [of dig maxdig] Cons.prems(4-7) zero same by simp
  next
    case room
    have "maxdig + l \<le> headroom M" using room(2) Cons.prems(7) nonneg M by (auto simp: headroom_def)
    then show ?thesis using step [of dig maxdig] Cons.prems(4-7) room by (simp add: add.assoc)
  next
    case full
    then have M': "M = 9998" using Cons.prems(7) nonneg M by (auto simp: headroom_def)
    obtain carry ds where n: "normalise dig = (carry, ds)" by (cases "normalise dig")
    have "cells_upto (headroom M * M + (9999 - M)) dig" by (rule cells_mono [OF Cons.prems(4) headroom_enough(4) [OF M Cons.prems(6)]])
    note S = normalise_spec [OF headroom_enough(3) [OF M order_refl] headroom_enough(2) [OF M order_refl] this n]
    have "0 \<le> num (rev (l # ls)) * num (rev rs) * DECIMAL_NBASE ^ ?E"
      using num_bound [of "rev (l # ls)"] num_bound [of "rev rs"] Cons.prems(1) rs(2) by simp
    then have "num dig < DECIMAL_NBASE ^ length dig" using Cons.prems(8) by linarith
    then have c: "carry = 0" using no_carry [of ds carry "length dig" "num dig"] S by simp
    have "cells_upto (1 * M + (9999 - M)) ds" using S by (auto simp: cells_upto_def dig_ok_def M')
    then show ?thesis using step [of ds 1] S c full l n M' by (simp add: headroom_def)
  qed
qed


section \<open>Products are exact\<close>

text \<open>All the decimal places of the number are shown.\<close>

definition shown :: "bson_decimal \<Rightarrow> bool" where
  "shown d \<longleftrightarrow> d_dscale d \<ge> 0 \<and> (\<exists>k. dval (d_digits d) (d_weight d) = of_int k * 10 powi (- d_dscale d))"

text \<open>The product of digits as the array computes it.\<close>

definition mul_safe :: "int list \<Rightarrow> int list \<Rightarrow> bool" where
  "mul_safe ls rs \<longleftrightarrow> length ls \<le> 21 \<or> (\<forall>x\<in>set rs. x \<le> 9998)"

lemma digit_sum: "dig_ok ls \<Longrightarrow> sum_list ls \<le> 9999 * int (length ls)"
  by (induction ls) auto

lemma product_cells:
  assumes "dig_ok ls" "dig_ok rs" "mul_safe ls rs"
  shows "\<exists>dig ds. mul_rows (replicate (length ls + length rs + 1) 0) 0 (length ls + length rs) (rev ls) (rev rs) = Some dig \<and> normalise dig = (0, ds)
    \<and> dig_ok ds \<and> length ds = length ls + length rs + 1 \<and> num ds = num ls * num rs"
proof -
  define M where "M = (if length ls \<le> 21 then 9999 else 9998 :: int)"
  define n where "n = length ls + length rs + 1"
  let ?z = "replicate n (0::int)"
  have M: "M = 9999 \<or> M = 9998" by (simp add: M_def)
  have rs: "cells_upto M (rev rs)" "dig_ok (rev rs)" using assms(2,3) by (auto simp: M_def cells_upto_def dig_ok_def mul_safe_def)
  have z: "num ?z = 0" "cells_upto (0 * M + (9999 - M)) ?z" using M by (auto simp: cells_upto_def) (induction n; simp)+
  have sum: "M = 9999 \<longrightarrow> 0 + sum_list (rev ls) \<le> headroom M" using digit_sum [OF assms(1)] by (auto simp: M_def headroom_def split: if_splits)
  have bound: "num ls * num rs < DECIMAL_NBASE ^ n"
  proof -
    have "num ls * num rs \<le> DECIMAL_NBASE ^ length ls * num rs" using num_bound [OF assms(1)] num_bound [OF assms(2)] by (intro mult_right_mono) auto
    also have "\<dots> < DECIMAL_NBASE ^ length ls * DECIMAL_NBASE ^ length rs" using num_bound [OF assms(2)] by (intro mult_strict_left_mono) auto
    also have "\<dots> \<le> DECIMAL_NBASE ^ n" by (simp add: n_def flip: power_add)
    finally show ?thesis .
  qed
  obtain dig where r: "mul_rows ?z 0 (length ls + length rs) (rev ls) (rev rs) = Some dig" "length dig = n" "cells_upto (headroom M * M + (9999 - M)) dig" "num dig = num ls * num rs"
    using mul_rows_spec [OF M rs, of "rev ls" "length ls + length rs" ?z 0] assms(1) z sum bound M by (auto simp: n_def headroom_def)
  obtain carry ds where nm: "normalise dig = (carry, ds)" by (cases "normalise dig")
  note S = normalise_spec [OF headroom_enough(3) [OF M order_refl] headroom_enough(2) [OF M order_refl] r(3) nm]
  have "carry = 0" using no_carry [of ds carry n "num dig"] S r bound by simp
  then show ?thesis using r S nm by (auto simp: n_def)
qed

text \<open>A value that has no more than \<open>s\<close> decimal places is not changed by rounding to \<open>s\<close> places.\<close>

lemma round_exact: "v = of_int k * 10 powi (- s) \<Longrightarrow> of_int \<lfloor>v * 10 powi s + 1 / 2\<rfloor> * (10::rat) powi (- s) = v"
proof -
  assume v: "v = of_int k * 10 powi (- s)"
  then have "v * 10 powi s = of_int k" using powi10_add [of "- s" s] by simp
  then show ?thesis using floor_half [of 0 "v * 10 powi s" k] v by simp
qed

lemma powi_add: "(10000::rat) powi (a + b) = 10000 powi a * 10000 powi b"
  by (simp add: power_int_add)

lemma mul_digits_spec:
  assumes "dig_ok ls" "dig_ok rs" "mul_safe ls rs" "\<forall>n. mem n" "rscale \<ge> 0" "sign = SDB_DECIMAL_POS \<or> sign = SDB_DECIMAL_NEG"
    and v: "dval ls w1 * dval rs w2 = of_int k * 10 powi (- rscale)"
  shows "\<exists>d. mul_digits mem sign (w1 + w2 + 2) ls rs rscale = Inr d \<and> plain d \<and> d_dscale d = rscale \<and> dec_val d = (if sign = SDB_DECIMAL_NEG then - 1 else 1) * (dval ls w1 * dval rs w2)"
proof -
  obtain dig ds where p: "mul_rows (replicate (length ls + length rs + 1) 0) 0 (length ls + length rs) (rev ls) (rev rs) = Some dig" "normalise dig = (0, ds)"
      "dig_ok ds" "length ds = length ls + length rs + 1" "num ds = num ls * num rs"
    using product_cells [OF assms(1-3)] by blast
  have s16: "map s16 ds = ds" using p(3) by (intro map_idI) (auto simp: dig_ok_def s16_def)
  define d0 where "d0 = decimal_init\<lparr>d_isOwn := True, d_front := [0], d_digits := ds, d_weight := w1 + w2 + 2, d_sign := sign\<rparr>"
  have "w1 + w2 + 2 + 1 - int (length ds) = (w1 + 1 - int (length ls)) + (w2 + 1 - int (length rs))" using p(4) by simp
  then have "(10000::rat) powi (w1 + w2 + 2 + 1 - int (length ds)) = 10000 powi (w1 + 1 - int (length ls)) * 10000 powi (w2 + 1 - int (length rs))"
    by (simp only: powi_add)
  then have val: "dval ds (w1 + w2 + 2) = dval ls w1 * dval rs w2" by (simp add: dval_num p(5))
  have "can_round d0" "d_isOwn d0" "dig_ok (d_digits d0)" using p(3) by (auto simp: d0_def can_round_def spare_def)
  then obtain d1 where r: "decimal_round d0 rscale = Inr d1" "rounded d0 rscale \<lfloor>dval (d_digits d0) (d_weight d0) * 10 powi rscale + 1 / 2\<rfloor> d1"
    using round_spec [of d0 rscale] assms(5) by blast
  have v1: "dval (d_digits d1) (d_weight d1) = dval ls w1 * dval rs w2" using r(2) round_exact [OF v] val by (simp add: rounded_def d0_def)
  have d1: "d_isOwn d1" "nonspecial d1" "dig_ok (d_digits d1)" "d_dscale d1 = rscale" using r(2) assms(6) by (auto simp: rounded_def nonspecial_def d0_def)
  have "dec_val d1 = (if sign = SDB_DECIMAL_NEG then - 1 else 1) * (dval ls w1 * dval rs w2)"
    using r(2) v1 assms(6) by (auto simp: rounded_def d0_def dec_val_def)
  moreover have "mul_digits mem sign (w1 + w2 + 2) ls rs rscale = Inr (dec_strip d1)"
    using p(1,2) r(1) assms(4) by (simp add: mul_digits_def Let_def dec_alloc_def s16 d0_def)
  moreover have "d_digits (dec_strip d1) = [] \<longrightarrow> d_weight (dec_strip d1) = 0" using d1(1) by (simp add: dec_strip_def Let_def split: prod.splits)
  ultimately show ?thesis using dec_strip_spec [OF d1(1-3)] d1 by (auto simp: plain_def)
qed

text \<open>A number in normal form has no digits behind the places that are shown.\<close>

lemma shown_digits:
  assumes "dig_ok ds" "ds \<noteq> []" "last ds \<noteq> 0" "s \<ge> 0" "dval ds w = of_int k * 10 powi (- s)"
  shows "4 * (int (length ds) - w - 1) \<le> s + 3"
proof (rule ccontr)
  define e where "e = nat (4 * (int (length ds) - w - 1) - s)"
  assume "\<not> ?thesis"
  then have e: "4 \<le> e" "4 * (w + 1 - int (length ds)) = - s - int e" by (auto simp: e_def)
  have "of_int (num ds) * (10::rat) powi (- s - int e) = of_int k * 10 powi (- s)" using assms(5) by (simp only: dval_num powi_ten e(2))
  then have "of_int (num ds) * ((10::rat) powi (- s - int e) * 10 powi (s + int e)) = of_int k * (10 powi (- s) * 10 powi (s + int e))" by (simp add: mult.assoc [symmetric])
  then have "of_int (num ds) = of_int k * (10::rat) ^ e" using assms(4) by (simp flip: powi10_add)
  then have "(of_int (num ds) :: rat) = of_int (k * 10 ^ e)" by simp
  then have "num ds = k * 10 ^ e" by (simp only: of_int_eq_iff)
  moreover have "(10::int) ^ e = 10000 * 10 ^ (e - 4)" using e(1) power_add [of "10::int" 4 "e - 4"] by simp
  ultimately have "10000 dvd num ds" by simp
  moreover have "num ds = num (butlast ds) * 10000 + last ds" using assms(2) num_append [of "butlast ds" "[last ds]"] by simp
  ultimately have "10000 dvd last ds" by (metis dvd_add_right_iff dvd_triv_right)
  moreover have "0 \<le> last ds" "last ds < 10000" using assms(1,2) last_in_set by (auto simp: dig_ok_def)
  ultimately show False using assms(3) by (auto dest: zdvd_imp_le)
qed


lemma result_bounded: assumes "result_of res v dscale" shows "exact (bounded res) v dscale"
proof -
  obtain d where d: "res = Inr d" "plain d \<or> d = decimal_init\<lparr>d_dscale := dscale\<rparr>" "dec_val d = v" "d_dscale d = dscale" using assms by (auto simp: result_of_def)
  have zero: "canonical (decimal_init\<lparr>d_dscale := dscale\<rparr>) \<and> stripped (d_digits (decimal_init\<lparr>d_dscale := dscale\<rparr>)) \<and> d_weight (decimal_init\<lparr>d_dscale := dscale\<rparr>) = 0"
    by (simp add: canonical_def nonspecial_def stripped_def decimal_init_def)
  have "canonical d \<and> stripped (d_digits d) \<and> (d_digits d = [] \<longrightarrow> d_weight d = 0)"
    using d(2) by (elim disjE) (simp add: plain_def, simp only: zero simp_thms)
  then show ?thesis using exact_bounded [of d] d by simp
qed

lemma dec_mul_spec:
  assumes "canonical l" "canonical r" "mul_safe (d_digits l) (d_digits r)" "\<forall>n. mem n" "rscale \<ge> 0"
    and v: "dval (d_digits l) (d_weight l) * dval (d_digits r) (d_weight r) = of_int k * 10 powi (- rscale)"
    and n: "int (length (d_digits l)) + int (length (d_digits r)) + 1 \<le> d_weight l + d_weight r + 5 + rscale * 4"
  shows "result_of (dec_mul mem l r rscale) (dec_val l * dec_val r) rscale"
proof (cases "d_digits l = [] \<or> d_digits r = []")
  case True
  then have "dec_mul mem l r rscale = Inr (decimal_init\<lparr>d_dscale := rscale\<rparr>)" by (auto simp: dec_mul_def decimal_set_zero_def)
  moreover have "dec_val l * dec_val r = 0" using True by (auto simp: dec_val_def)
  ultimately show ?thesis by (simp add: result_of_def dec_val_def decimal_init_def)
next
  case False
  define sign where "sign = (if d_sign l = d_sign r then SDB_DECIMAL_POS else SDB_DECIMAL_NEG)"
  have ok: "dig_ok (d_digits l)" "dig_ok (d_digits r)" and sg: "d_sign l = 0 \<or> d_sign l = 0x4000" "d_sign r = 0 \<or> d_sign r = 0x4000"
    using assms(1,2) by (auto simp: canonical_def nonspecial_def)
  have "dec_mul mem l r rscale = mul_digits mem sign (d_weight l + d_weight r + 2) (d_digits l) (d_digits r) rscale"
    using False n by (simp add: dec_mul_def Let_def sign_def)
  moreover have "(if sign = SDB_DECIMAL_NEG then - 1 else 1) * (dval (d_digits l) (d_weight l) * dval (d_digits r) (d_weight r)) = dec_val l * dec_val r"
    using sg by (auto simp: sign_def dec_val_def)
  moreover have sgn: "sign = SDB_DECIMAL_POS \<or> sign = SDB_DECIMAL_NEG" by (simp add: sign_def)
  obtain d where "mul_digits mem sign (d_weight l + d_weight r + 2) (d_digits l) (d_digits r) rscale = Inr d" "plain d" "d_dscale d = rscale"
      "dec_val d = (if sign = SDB_DECIMAL_NEG then - 1 else 1) * (dval (d_digits l) (d_weight l) * dval (d_digits r) (d_weight r))"
    using mul_digits_spec [OF ok assms(3,4,5) sgn v] by blast
  ultimately show ?thesis unfolding result_of_def by (intro exI [of _ d]) simp
qed

lemma stripped_shown:
  assumes "canonical d" "stripped (d_digits d)" "shown d" "d_digits d \<noteq> []"
  shows "4 * (int (length (d_digits d)) - d_weight d - 1) \<le> d_dscale d + 3"
proof -
  obtain k where "d_dscale d \<ge> 0" "dval (d_digits d) (d_weight d) = of_int k * 10 powi (- d_dscale d)" using assms(3) by (auto simp: shown_def)
  then show ?thesis using assms by (intro shown_digits [of _ _ _ k]) (auto simp: stripped_def canonical_def)
qed

text \<open>C15: \<open>decimal_mul\<close> of two numbers in normal form, all of whose decimal places are shown, is exact: the product in normal form with the sum of the display scales,
  however long the factors are, as long as the left one has at most 21 digits to the base 10000 or the right one no digit 9999.  The 32-bit
  sums do not overflow and the estimate of the number of digits never cuts the factors.\<close>
theorem decimal_mul_exact:
  assumes "canonical l" "canonical r" and "stripped (d_digits l)" "stripped (d_digits r)" and "shown l" "shown r"
    and "mul_safe (d_digits l) (d_digits r)" and "\<forall>n. mem n"
  shows "exact (decimal_mul mem l r) (dec_val l * dec_val r) (d_dscale l + d_dscale r)"
proof -
  have sc: "d_dscale l \<ge> 0" "d_dscale r \<ge> 0" using assms(5,6) by (auto simp: shown_def)
  obtain k1 k2 where "dval (d_digits l) (d_weight l) = of_int k1 * 10 powi (- d_dscale l)" "dval (d_digits r) (d_weight r) = of_int k2 * 10 powi (- d_dscale r)"
    using assms(5,6) by (auto simp: shown_def)
  then have v: "dval (d_digits l) (d_weight l) * dval (d_digits r) (d_weight r) = of_int (k1 * k2) * 10 powi (- (d_dscale l + d_dscale r))"
    using powi10_add [of "- d_dscale l" "- d_dscale r"] by simp
  have "result_of (dec_mul mem l r (d_dscale l + d_dscale r)) (dec_val l * dec_val r) (d_dscale l + d_dscale r)"
  proof (cases "d_digits l = [] \<or> d_digits r = []")
    case True
    then have "dec_mul mem l r (d_dscale l + d_dscale r) = Inr (decimal_init\<lparr>d_dscale := d_dscale l + d_dscale r\<rparr>)" by (auto simp: dec_mul_def decimal_set_zero_def)
    moreover have "dec_val l * dec_val r = 0" using True by (auto simp: dec_val_def)
    ultimately show ?thesis by (simp add: result_of_def dec_val_def decimal_init_def)
  next
    case False
    then have "4 * (int (length (d_digits l)) - d_weight l - 1) \<le> d_dscale l + 3" "4 * (int (length (d_digits r)) - d_weight r - 1) \<le> d_dscale r + 3"
      using stripped_shown assms(1-6) by auto
    then have "int (length (d_digits l)) + int (length (d_digits r)) + 1 \<le> d_weight l + d_weight r + 5 + (d_dscale l + d_dscale r) * 4" using sc by simp
    then show ?thesis using sc by (intro dec_mul_spec [OF assms(1,2,7,8) _ v]) simp_all
  qed
  then show ?thesis using result_bounded canonical_rank [OF assms(1)] canonical_rank [OF assms(2)] by (simp add: decimal_mul_def)
qed

theorem decimal_mul_exact_witness:
  "exact (decimal_mul (\<lambda>n. True) (decimal_init\<lparr>d_digits := [2, 5000], d_dscale := 1\<rparr>) (decimal_init\<lparr>d_digits := [4], d_sign := SDB_DECIMAL_NEG\<rparr>)) (- 10) 1
   \<and> (case decimal_mul (\<lambda>n. True) (decimal_init\<lparr>d_digits := [2, 5000], d_dscale := 1\<rparr>) (decimal_init\<lparr>d_digits := [4], d_sign := SDB_DECIMAL_NEG\<rparr>) of
        Inr d \<Rightarrow> (d_sign d, d_weight d, d_digits d) | Inl _ \<Rightarrow> (0, 0, [])) = (SDB_DECIMAL_NEG, 0, [10])"
proof
  let ?l = "decimal_init\<lparr>d_digits := [2, 5000], d_dscale := 1\<rparr>" and ?r = "decimal_init\<lparr>d_digits := [4], d_sign := SDB_DECIMAL_NEG\<rparr>"
  have "shown ?l" by (auto simp: shown_def decimal_init_def power_int_minus intro!: exI [of _ 25])
  moreover have "shown ?r" by (auto simp: shown_def decimal_init_def intro!: exI [of _ 4])
  ultimately have "exact (decimal_mul (\<lambda>n. True) ?l ?r) (dec_val ?l * dec_val ?r) (d_dscale ?l + d_dscale ?r)"
    by (intro decimal_mul_exact) (auto simp: canonical_def nonspecial_def stripped_def mul_safe_def decimal_init_def)
  then show "exact (decimal_mul (\<lambda>n. True) ?l ?r) (- 10) 1" by (simp add: dec_val_def decimal_init_def power_int_minus)
  show "(case decimal_mul (\<lambda>n. True) ?l ?r of Inr d \<Rightarrow> (d_sign d, d_weight d, d_digits d) | Inl _ \<Rightarrow> (0, 0, [])) = (SDB_DECIMAL_NEG, 0, [10])" by code_simp
qed

text \<open>Without the restriction the sums do overflow: the last pass adds a carry to a cell that the bound on \<open>maxdig\<close> lets grow up to \<open>INT_MAX\<close>.  Two factors of 22 digits for which
  the result gets a negative digit.\<close>

theorem decimal_mul_overflows:
  "(case decimal_mul (\<lambda>n. True) (decimal_init\<lparr>d_digits := replicate 21 9999 @ [4790], d_weight := 21\<rparr>) (decimal_init\<lparr>d_digits := replicate 22 9999, d_weight := 21\<rparr>) of
      Inr d \<Rightarrow> d_digits d ! 22 | Inl _ \<Rightarrow> 0) = - 256"
  by code_simp

end
