(* ===== verification/Bson_DecDiv.thy ===== *)
theory Bson_DecDiv
  imports Bson_DecMul
begin

text \<open>
  Division (\<open>_decimal_div\<close>, \<open>decimal_div\<close>): long division with estimated quotient digits (Knuth, 4.3.1, algorithm D) and a short path for a divisor of
  one digit.  The quotient is the exact one, rounded or cut to the scale asked for.  Every intermediate value of the loops is below \<open>4 * 10 ^ 8\<close>, so that the 32-bit integers of the code
  do not wrap around.
\<close>

section \<open>The algorithm\<close>

fun first_digit :: "int list \<Rightarrow> int \<Rightarrow> int \<times> int" where
  "first_digit [] w = (0, 0)"
| "first_digit (x # xs) w = (if x \<noteq> 0 then (x, w) else first_digit xs (w - 1))"

definition dec_get_div_scale :: "bson_decimal \<Rightarrow> bson_decimal \<Rightarrow> int" where
  "dec_get_div_scale l r =
     (case first_digit (d_digits l) (d_weight l) of (firstdigit1, weight1) \<Rightarrow>
      case first_digit (d_digits r) (d_weight r) of (firstdigit2, weight2) \<Rightarrow>
        let qweight = (if firstdigit1 \<le> firstdigit2 then weight1 - weight2 - 1 else weight1 - weight2) in
        min (max (max (max (DECIMAL_MIN_SIG_DIGITS - qweight * DECIMAL_DEC_DIGITS) (d_dscale l)) (d_dscale r)) 0) DECIMAL_MAX_DISPLAY_SCALE)"

fun short_div :: "int \<Rightarrow> int \<Rightarrow> int list \<Rightarrow> int list" where
  "short_div divisor1 carry [] = []"
| "short_div divisor1 carry (x # xs) =
     (let c = carry * DECIMAL_NBASE + x in (c div divisor1) # short_div divisor1 (c mod divisor1) xs)"

text \<open>The loops below run from the last digit to the first; their lists are reversed.\<close>

fun scale_loop :: "int \<Rightarrow> int list \<Rightarrow> int \<Rightarrow> int \<times> int list" where
  "scale_loop d [] carry = (carry, [])"
| "scale_loop d (x # xs) carry =
     (let c = carry + x * d in case scale_loop d xs (c div DECIMAL_NBASE) of (out, ys) \<Rightarrow> (out, (c mod DECIMAL_NBASE) # ys))"

definition scale_digits :: "int \<Rightarrow> int list \<Rightarrow> int list" where
  "scale_digits d ds = rev (snd (scale_loop d (rev ds) 0))"

text \<open>The estimate is lowered while it is too large for the first two digits of the divisor.\<close>

fun adjust :: "int \<Rightarrow> int \<Rightarrow> int \<Rightarrow> int \<Rightarrow> nat \<Rightarrow> nat" where
  "adjust divisor1 divisor2 next2digits u2 0 = 0"
| "adjust divisor1 divisor2 next2digits u2 (Suc q) =
     (if divisor2 * int (Suc q) > (next2digits - int (Suc q) * divisor1) * DECIMAL_NBASE + u2 then adjust divisor1 divisor2 next2digits u2 q else Suc q)"

fun mulsub_loop :: "int \<Rightarrow> (int \<times> int) list \<Rightarrow> int \<Rightarrow> int \<Rightarrow> int list \<times> int \<times> int" where
  "mulsub_loop qhat [] carry borrow = ([], carry, borrow)"
| "mulsub_loop qhat ((v, u) # ps) carry borrow =
     (let c = carry + v * qhat; b = borrow - c mod DECIMAL_NBASE + u in
      if b < 0 then (case mulsub_loop qhat ps (c div DECIMAL_NBASE) (- 1) of (ws, out) \<Rightarrow> ((b + DECIMAL_NBASE) # ws, out))
      else (case mulsub_loop qhat ps (c div DECIMAL_NBASE) 0 of (ws, out) \<Rightarrow> (b # ws, out)))"

fun addback_loop :: "(int \<times> int) list \<Rightarrow> int \<Rightarrow> int \<times> int list" where
  "addback_loop [] carry = (carry, [])"
| "addback_loop ((v, u) # ps) carry =
     (let c = carry + u + v in
      if c \<ge> DECIMAL_NBASE then (case addback_loop ps 1 of (out, ws) \<Rightarrow> (out, (c - DECIMAL_NBASE) # ws))
      else (case addback_loop ps 0 of (out, ws) \<Rightarrow> (out, c # ws)))"

text \<open>Subtracting and, when the estimate was too large, adding back.\<close>

definition subtract :: "int list \<Rightarrow> int list \<Rightarrow> int \<Rightarrow> int \<times> int list" where
  "subtract vs w qhat =
     (case mulsub_loop qhat (zip (rev (0 # vs)) (rev w)) 0 0 of (ws, carry, borrow) \<Rightarrow>
        if borrow \<noteq> 0 then (qhat - 1, rev (snd (addback_loop (zip (rev (0 # vs)) ws) 0))) else (qhat, rev ws))"

text \<open>One digit of the quotient from the window of the dividend; \<open>vs\<close> are the digits of the divisor.\<close>

definition div_step :: "int list \<Rightarrow> int list \<Rightarrow> int \<times> int list" where
  "div_step vs w =
     (let next2digits = w ! 0 * DECIMAL_NBASE + w ! 1 in
      if next2digits = 0 then (0, w)
      else (let qhat = int (adjust (vs ! 0) (vs ! 1) next2digits (w ! 2) (nat (if w ! 0 = vs ! 0 then DECIMAL_NBASE - 1 else next2digits div vs ! 0))) in
        if qhat > 0 then subtract vs w qhat else (qhat, w)))"

fun div_loop :: "nat \<Rightarrow> nat \<Rightarrow> int list \<Rightarrow> int list \<Rightarrow> int list" where
  "div_loop 0 j vs u = []"
| "div_loop (Suc k) j vs u =
     (let n = length vs; (q, w) = div_step vs (take (Suc n) (drop j u)) in
      q # div_loop k (Suc j) vs (take j u @ w @ drop (j + Suc n) u))"

definition div_digits :: "nat \<Rightarrow> nat \<Rightarrow> int list \<Rightarrow> int list \<Rightarrow> int list" where
  "div_digits res_n div_n ls rs =
     (let dividend = 0 # ls @ replicate (div_n - length ls) 0 in
      if length rs = 1 then short_div (rs ! 0) 0 (take res_n (tl dividend))
      else if rs ! 0 < DECIMAL_HALF_NBASE
      then (let d = DECIMAL_NBASE div (rs ! 0 + 1); m = Suc (length ls) in
              div_loop res_n 0 (scale_digits d rs) (scale_digits d (take m dividend) @ drop m dividend))
      else div_loop res_n 0 rs dividend)"

definition dec_div :: "(nat \<Rightarrow> bool) \<Rightarrow> bson_decimal \<Rightarrow> bson_decimal \<Rightarrow> int \<Rightarrow> bool \<Rightarrow> bson_decimal \<Rightarrow> bson_decimal dec_res" where
  "dec_div mem l r rscale isRound result =
     (let n1 = length (d_digits l); n2 = length (d_digits r) in
      if n2 = 0 \<or> d_digits r ! 0 = 0 then Inl (Rc (- 6))
      else if n1 = 0 then Inr (decimal_set_zero\<lparr>d_dscale := rscale\<rparr>)
      else (let sign = (if d_sign l = d_sign r then SDB_DECIMAL_POS else SDB_DECIMAL_NEG);
                weight = d_weight l - d_weight r;
                n = max (weight + 1 + (rscale + DECIMAL_DEC_DIGITS - 1) div DECIMAL_DEC_DIGITS) 1;
                res_n = nat (if isRound then n + 1 else n);
                div_n = max (res_n + n2) n1
            in if \<not> mem (div_n + n2 + 2) then Inl (Rc (- 2))
               else (case dec_alloc mem (div_digits res_n div_n (d_digits l) (d_digits r)) result of
                       Inl err \<Rightarrow> Inl err
                     | Inr d \<Rightarrow>
                         (let d1 = d\<lparr>d_weight := weight, d_sign := sign\<rparr> in
                          if isRound then map_sum id dec_strip (decimal_round d1 rscale) else Inr (dec_strip (dec_trunc d1 rscale))))))"

definition decimal_div :: "(nat \<Rightarrow> bool) \<Rightarrow> bson_decimal \<Rightarrow> bson_decimal \<Rightarrow> bson_decimal \<Rightarrow> bson_decimal dec_res" where
  "decimal_div mem l r result =
     (if decimal_is_special l \<or> decimal_is_special r then Inr decimal_set_nan
      else bounded (dec_div mem l r (dec_get_div_scale l r) True result))"

section \<open>The loops\<close>

lemma div_extend:
  assumes "0 < (d::int)"
  shows "(t * P + x) div d = t div d * P + (t mod d * P + x) div d"
proof -
  have "t * P = (t div d * d + t mod d) * P" by simp
  then have "t * P + x = d * (t div d * P) + (t mod d * P + x)" by (simp only: distrib_right) (simp add: mult_ac)
  then show ?thesis using assms by (simp only: div_mult_self4)
qed

lemma div_bound: "0 < (d::int) \<Longrightarrow> t < d * m \<Longrightarrow> t div d < m"
proof (rule ccontr)
  assume a: "0 < d" "t < d * m" "\<not> t div d < m"
  then have "d * m \<le> d * (t div d)" by (intro mult_left_mono) simp_all
  also have "\<dots> \<le> t" using pos_mod_sign [OF a(1), of t] mult_div_mod_eq [of d t] by linarith
  finally show False using a(2) by simp
qed

lemma short_div_spec:
  assumes "0 < d" "d \<le> 9999"
  shows "0 \<le> c \<Longrightarrow> c < d \<Longrightarrow> dig_ok xs \<Longrightarrow> length (short_div d c xs) = length xs \<and> dig_ok (short_div d c xs)
    \<and> num (short_div d c xs) = (c * DECIMAL_NBASE ^ length xs + num xs) div d"
proof (induction xs arbitrary: c)
  case (Cons x xs)
  define t where "t = c * 10000 + x"
  have x: "0 \<le> x" "x < 10000" using Cons.prems(3) by auto
  have t: "0 \<le> t" "t < d * 10000" using x Cons.prems(1,2) by (auto simp: t_def)
  have q: "0 \<le> t div d" "t div d < 10000" using t(1) assms(1) div_bound [OF assms(1) t(2)] by (auto simp: pos_imp_zdiv_nonneg_iff)
  have IH: "length (short_div d (t mod d) xs) = length xs" "dig_ok (short_div d (t mod d) xs)" "num (short_div d (t mod d) xs) = (t mod d * DECIMAL_NBASE ^ length xs + num xs) div d"
    using Cons.IH [of "t mod d"] assms(1) Cons.prems(3) by auto
  have e: "c * DECIMAL_NBASE ^ length (x # xs) + num (x # xs) = t * DECIMAL_NBASE ^ length xs + num xs" by (simp add: t_def algebra_simps)
  have s: "short_div d c (x # xs) = t div d # short_div d (t mod d) xs" by (simp add: Let_def t_def)
  show ?case unfolding e s using IH q div_extend [OF assms(1), of t "DECIMAL_NBASE ^ length xs" "num xs"] by simp
qed simp

lemma scale_loop_spec:
  assumes "0 \<le> d"
  shows "scale_loop d xs c = (out, ys) \<Longrightarrow> dig_ok xs \<Longrightarrow> 0 \<le> c \<Longrightarrow>
    length ys = length xs \<and> dig_ok ys \<and> 0 \<le> out \<and> num (rev ys) + out * DECIMAL_NBASE ^ length xs = d * num (rev xs) + c"
proof (induction xs arbitrary: c ys out)
  case (Cons x xs)
  define t where "t = c + x * d"
  have t: "0 \<le> t" using Cons.prems(2,3) assms by (simp add: t_def)
  obtain o1 zs where r: "scale_loop d xs (t div 10000) = (o1, zs)" by (cases "scale_loop d xs (t div 10000)")
  have res: "out = o1" "ys = (t mod 10000) # zs" using Cons.prems(1) r by (auto simp: Let_def simp flip: t_def)
  have IH: "length zs = length xs" "dig_ok zs" "0 \<le> o1" "num (rev zs) + o1 * DECIMAL_NBASE ^ length xs = d * num (rev xs) + t div 10000"
    using Cons.IH [OF r] Cons.prems(2) t by (auto simp: pos_imp_zdiv_nonneg_iff)
  have "num (rev ys) + out * DECIMAL_NBASE ^ length (x # xs) = 10000 * (num (rev zs) + o1 * DECIMAL_NBASE ^ length xs) + t mod 10000"
    by (simp add: res num_append algebra_simps)
  also have "\<dots> = 10000 * (d * num (rev xs)) + t" unfolding IH(4) using mult_div_mod_eq [of 10000 t] by (simp add: algebra_simps)
  finally show ?case using IH by (simp add: res num_append t_def algebra_simps)
qed simp

lemma scale_digits_spec:
  assumes "dig_ok ds" "0 \<le> d" "d * num ds < DECIMAL_NBASE ^ length ds"
  shows "length (scale_digits d ds) = length ds" "dig_ok (scale_digits d ds)" "num (scale_digits d ds) = d * num ds"
proof -
  obtain out ys where r: "scale_loop d (rev ds) 0 = (out, ys)" by (cases "scale_loop d (rev ds) 0")
  have S: "length ys = length ds" "dig_ok ys" "0 \<le> out" "num (rev ys) + out * DECIMAL_NBASE ^ length ds = d * num ds"
    using scale_loop_spec [OF assms(2) r] assms(1) by auto
  have "out = 0" using no_carry [OF S(4) _ assms(3) S(3)] S(2) by simp
  then show "length (scale_digits d ds) = length ds" "dig_ok (scale_digits d ds)" "num (scale_digits d ds) = d * num ds"
    using S r by (auto simp: scale_digits_def)
qed

lemma adjust_spec:
  "adjust d1 d2 n2 u2 q0 \<le> q0 \<and> (int (adjust d1 d2 n2 u2 q0) * (d1 * DECIMAL_NBASE + d2) \<le> n2 * DECIMAL_NBASE + u2 \<or> adjust d1 d2 n2 u2 q0 = 0)
   \<and> (adjust d1 d2 n2 u2 q0 < q0 \<longrightarrow> n2 * DECIMAL_NBASE + u2 < (int (adjust d1 d2 n2 u2 q0) + 1) * (d1 * DECIMAL_NBASE + d2))"
proof (induction q0)
  case (Suc q)
  show ?case
  proof (cases "d2 * int (Suc q) > (n2 - int (Suc q) * d1) * DECIMAL_NBASE + u2")
    case True
    then have gt: "n2 * 10000 + u2 < (int q + 1) * (d1 * 10000 + d2)" by (simp add: algebra_simps)
    have a: "adjust d1 d2 n2 u2 (Suc q) = adjust d1 d2 n2 u2 q" using True by simp
    show ?thesis using Suc gt unfolding a by (cases "adjust d1 d2 n2 u2 q = q") auto
  next
    case False
    then have "(int q + 1) * (d1 * 10000 + d2) \<le> n2 * 10000 + u2" by (simp add: algebra_simps)
    moreover have "adjust d1 d2 n2 u2 (Suc q) = Suc q" using False by simp
    ultimately show ?thesis by (simp add: add.commute)
  qed
qed simp

lemma mulsub_loop_spec:
  assumes "0 \<le> q" "q \<le> 9999"
  shows "length vs = length us \<Longrightarrow> dig_ok vs \<Longrightarrow> dig_ok us \<Longrightarrow> 0 \<le> c \<Longrightarrow> c \<le> q \<Longrightarrow> b \<in> {0, - 1} \<Longrightarrow> mulsub_loop q (zip vs us) c b = (ws, c', b') \<Longrightarrow>
    length ws = length us \<and> dig_ok ws \<and> 0 \<le> c' \<and> c' \<le> q \<and> b' \<in> {0, - 1}
    \<and> num (rev ws) + DECIMAL_NBASE ^ length us * (b' - c') = b - c + num (rev us) - q * num (rev vs)"
proof (induction vs us arbitrary: c b ws c' b' rule: list_induct2')
  case (4 v vs u us)
  define t where "t = c + v * q"
  define s where "s = b - t mod 10000 + u"
  define x where "x = (if s < 0 then s + 10000 else s)"
  define b1 where "b1 = (if s < 0 then - 1 else 0 :: int)"
  have v: "0 \<le> v" "v \<le> 9999" "0 \<le> u" "u < 10000" using "4.prems"(2,3) by auto
  have "v * q \<le> 9999 * q" using v(2) assms(1) by (rule mult_right_mono)
  then have t: "0 \<le> t" "t \<le> 10000 * q" using v assms "4.prems"(4,5) by (auto simp: t_def)
  then have t1: "0 \<le> t div 10000" "t div 10000 \<le> q" by auto
  have x: "0 \<le> x" "x < 10000" "s = x + 10000 * b1" "b1 \<in> {0, - 1}"
    using v(3,4) "4.prems"(6) pos_mod_sign [of 10000 t] pos_mod_bound [of 10000 t] by (auto simp: x_def b1_def s_def)
  obtain zs where r: "mulsub_loop q (zip vs us) (t div 10000) b1 = (zs, c', b')" "ws = x # zs"
    using "4.prems"(7) by (auto simp: Let_def x_def b1_def s_def t_def split: if_splits prod.splits)
  have IH: "length zs = length us" "dig_ok zs" "0 \<le> c'" "c' \<le> q" "b' \<in> {0, - 1}"
      "num (rev zs) + DECIMAL_NBASE ^ length us * (b' - c') = b1 - t div 10000 + num (rev us) - q * num (rev vs)"
    using "4.IH" [OF _ _ _ t1 x(4) r(1)] "4.prems"(1-3) by auto
  have "num (rev ws) + DECIMAL_NBASE ^ length (u # us) * (b' - c') = 10000 * (num (rev zs) + DECIMAL_NBASE ^ length us * (b' - c')) + x"
    by (simp add: r(2) num_append algebra_simps)
  also have "\<dots> = 10000 * (num (rev us) - q * num (rev vs)) + (x + 10000 * b1) - 10000 * (t div 10000)" unfolding IH(6) by (simp add: algebra_simps)
  also have "x + 10000 * b1 = b - t mod 10000 + u" using x(3) by (simp add: s_def)
  finally have "num (rev ws) + DECIMAL_NBASE ^ length (u # us) * (b' - c') = 10000 * (num (rev us) - q * num (rev vs)) + b + u - t"
    using mult_div_mod_eq [of 10000 t] by linarith
  then show ?case using IH x r(2) by (simp add: num_append t_def algebra_simps)
qed auto

lemma addback_loop_spec:
  "length vs = length us \<Longrightarrow> dig_ok vs \<Longrightarrow> dig_ok us \<Longrightarrow> c \<in> {0, 1} \<Longrightarrow> addback_loop (zip vs us) c = (out, ws) \<Longrightarrow>
    length ws = length us \<and> dig_ok ws \<and> out \<in> {0, 1} \<and> num (rev ws) + out * DECIMAL_NBASE ^ length us = c + num (rev us) + num (rev vs)"
proof (induction vs us arbitrary: c ws out rule: list_induct2')
  case (4 v vs u us)
  define s where "s = c + u + v"
  define x where "x = (if s \<ge> 10000 then s - 10000 else s)"
  define c1 where "c1 = (if s \<ge> 10000 then 1 else 0 :: int)"
  have x: "0 \<le> x" "x < 10000" "s = x + 10000 * c1" "c1 \<in> {0, 1}" using "4.prems"(2-4) by (auto simp: x_def c1_def s_def)
  obtain zs where r: "addback_loop (zip vs us) c1 = (out, zs)" "ws = x # zs"
    using "4.prems"(5) by (auto simp: Let_def x_def c1_def s_def split: if_splits prod.splits)
  have IH: "length zs = length us" "dig_ok zs" "out \<in> {0, 1}" "num (rev zs) + out * DECIMAL_NBASE ^ length us = c1 + num (rev us) + num (rev vs)"
    using "4.IH" [OF _ _ _ x(4) r(1)] "4.prems"(1-3) by auto
  have "num (rev ws) + out * DECIMAL_NBASE ^ length (u # us) = 10000 * (num (rev zs) + out * DECIMAL_NBASE ^ length us) + x" by (simp add: r(2) num_append algebra_simps)
  also have "\<dots> = 10000 * (num (rev us) + num (rev vs)) + s" unfolding IH(4) x(3) by (simp add: algebra_simps)
  finally show ?case using IH x r(2) by (simp add: num_append s_def algebra_simps)
qed auto

text \<open>The carry of the product out of the top digit.\<close>

lemma mulsub_carry:
  "length vs = length us \<Longrightarrow> mulsub_loop q (zip vs us) c b = (ws, c', b') \<Longrightarrow> c' = (c + q * num (rev vs)) div DECIMAL_NBASE ^ length vs"
proof (induction vs us arbitrary: c b ws c' b' rule: list_induct2')
  case (4 v vs u us)
  define t where "t = c + v * q"
  obtain zs b1 where r: "mulsub_loop q (zip vs us) (t div 10000) b1 = (zs, c', b')"
    using "4.prems"(2) by (auto simp: Let_def t_def split: if_splits prod.splits)
  have "c + q * num (rev (v # vs)) = t + 10000 * (q * num (rev vs))" by (simp add: num_append t_def algebra_simps)
  then have "(c + q * num (rev (v # vs))) div (10000 * 10000 ^ length vs) = (t + 10000 * (q * num (rev vs))) div 10000 div 10000 ^ length vs" by (simp add: zdiv_zmult2_eq)
  also have "(t + 10000 * (q * num (rev vs))) div 10000 = t div 10000 + q * num (rev vs)" by simp
  finally show ?case using "4.IH" [OF _ r] "4.prems"(1) by simp
qed auto

section \<open>One digit of the quotient\<close>

lemma small_multiple: "0 < (P::int) \<Longrightarrow> - P < P * z \<Longrightarrow> P * z < P \<Longrightarrow> z = 0"
proof (rule ccontr)
  assume a: "0 < P" "- P < P * z" "P * z < P" "z \<noteq> 0"
  then have "1 \<le> z \<or> z \<le> - 1" by linarith
  then have "P * 1 \<le> P * z \<or> P * z \<le> P * (- 1)" using mult_left_mono [of 1 z P] mult_left_mono [of z "- 1" P] a(1) by linarith
  then show False using a(2,3) by linarith
qed

lemma div_range: "0 < (v::int) \<Longrightarrow> W div v * v \<le> W \<and> W < (W div v + 1) * v"
proof -
  assume "0 < v"
  then have "0 \<le> W mod v" "W mod v < v" by auto
  then show ?thesis using div_mult_mod_eq [of W v] unfolding distrib_right mult_1 by linarith
qed

text \<open>The two leading digits of the divisor and the three of the window, and what is behind them.\<close>

lemma num_split: "k \<le> length ds \<Longrightarrow> num ds = num (take k ds) * DECIMAL_NBASE ^ (length ds - k) + num (drop k ds)"
  using num_append [of "take k ds" "drop k ds"] by simp

lemma num_take2: "2 \<le> length ds \<Longrightarrow> num (take 2 ds) = ds ! 0 * DECIMAL_NBASE + ds ! 1"
  by (cases ds; cases "tl ds") auto

lemma num_take3: "3 \<le> length ds \<Longrightarrow> num (take 3 ds) = (ds ! 0 * DECIMAL_NBASE + ds ! 1) * DECIMAL_NBASE + ds ! 2"
  by (cases ds; cases "tl ds"; cases "tl (tl ds)") (auto simp: numeral_3_eq_3)

lemma num_first: "ds \<noteq> [] \<Longrightarrow> num ds = ds ! 0 * DECIMAL_NBASE ^ (length ds - 1) + num (tl ds)"
  by (cases ds) auto

lemma num_ge_first:
  assumes "dig_ok ds" "ds \<noteq> []" "0 < ds ! 0"
  shows "DECIMAL_NBASE ^ (length ds - 1) \<le> num ds"
proof -
  have "1 * DECIMAL_NBASE ^ (length ds - 1) \<le> ds ! 0 * DECIMAL_NBASE ^ (length ds - 1)" using assms(3) by (intro mult_right_mono) simp_all
  moreover have "0 \<le> num (tl ds)" using num_bound [of "tl ds"] assms(1,2) by (cases ds) auto
  ultimately show ?thesis using num_first [OF assms(2)] by linarith
qed

lemma num_pos: "dig_ok ds \<Longrightarrow> ds \<noteq> [] \<Longrightarrow> 0 < ds ! 0 \<Longrightarrow> 0 < num ds"
  using num_ge_first [of ds] zero_less_power [of "10000::int" "length ds - 1"] by linarith

lemma leading_part:
  assumes "0 < (P::int)" "W = U * P + wl" "wl < P" "v = V * P + vl" "0 \<le> vl" "0 \<le> q" "q * v \<le> W"
  shows "q * V \<le> U"
proof -
  have "q * V * P \<le> q * v" using assms(5,6) by (simp add: assms(4) distrib_left mult.assoc)
  also have "\<dots> < (U + 1) * P" using assms(2,3,7) by (simp add: distrib_right)
  finally show ?thesis using assms(1) by (simp add: mult_less_cancel_right_pos)
qed

text \<open>The estimate from the leading digits is the quotient or one more.\<close>

lemma estimate:
  assumes P: "0 < (P::int)" and W: "W = U * P + wl" "0 \<le> wl" "wl < P" and v: "v = V * P + vl" "0 \<le> vl" "vl < P" "DECIMAL_NBASE \<le> V"
    and q: "q = W div v" "0 \<le> q" "q \<le> int q0" and qh: "qh \<le> q0" "int qh \<le> 9999" "int qh * V \<le> U \<or> qh = 0" "qh < q0 \<longrightarrow> U < (int qh + 1) * V"
  shows "q \<le> int qh" "int qh \<le> q + 1"
proof -
  have "10000 * P \<le> V * P" using v(4) P by (intro mult_right_mono) simp_all
  then have v0: "0 < v" "9999 * P < v" using P v(1,2) by linarith+
  have qv: "q * v \<le> W" using div_range [OF v0(1)] by (simp add: q(1))
  have "q * V \<le> U" by (rule leading_part [OF P W(1,3) v(1,2) q(2) qv])
  then show "q \<le> int qh"
  proof (cases "qh < q0")
    case True
    then have "q * V < (int qh + 1) * V" using \<open>q * V \<le> U\<close> qh(4) by linarith
    then show ?thesis using v(4) by (simp add: mult_less_cancel_right_pos)
  qed (use q(3) qh(1) in linarith)
  show "int qh \<le> q + 1"
  proof (cases "qh = 0")
    case False
    have "int qh * v = int qh * V * P + int qh * vl" by (simp add: v(1) distrib_left mult.assoc)
    moreover have "int qh * V * P \<le> U * P" using False qh(3) P by (intro mult_right_mono) auto
    moreover have "int qh * vl \<le> 9999 * P" using qh(2) v(2,3) by (intro mult_mono) auto
    ultimately have "(int qh - 1) * v < W" using W(1,2) v0(2) by (simp add: left_diff_distrib)
    also have "W < (q + 1) * v" using div_range [OF v0(1)] by (simp add: q(1))
    finally show ?thesis using v0(1) by (simp add: mult_less_cancel_right_pos)
  qed (use q(2) in simp)
qed

lemma subtract_spec:
  assumes vs: "dig_ok vs" "0 < num vs" and w: "dig_ok w" "length w = Suc (length vs)" and q: "q = num w div num vs" "q \<le> h" "h \<le> q + 1" "0 \<le> q" "0 \<le> h" "h \<le> 9999"
  shows "\<exists>w'. subtract vs w h = (q, w') \<and> length w' = length w \<and> dig_ok w' \<and> num w' = num w mod num vs"
proof -
  define B where "B = DECIMAL_NBASE ^ length w"
  obtain ws c b where r: "mulsub_loop h (zip (rev (0 # vs)) (rev w)) 0 0 = (ws, c, b)" by (cases "mulsub_loop h (zip (rev (0 # vs)) (rev w)) 0 0")
  have S: "length ws = length w" "dig_ok ws" "b \<in> {0, - 1}" "num (rev ws) + B * (b - c) = num w - h * num vs"
    using mulsub_loop_spec [OF q(5,6) _ _ _ _ _ _ r] vs w q(5) by (auto simp: B_def simp del: power_Suc)
  have B: "0 < B" by (simp add: B_def)
  have nv: "num vs < 10000 ^ length vs" using num_bound [OF vs(1)] by simp
  have "h * num vs < 10000 * 10000 ^ length vs" using nv q(5,6) vs(2) by (intro mult_strict_mono) auto
  then have "c = 0" using mulsub_carry [OF _ r] w(2) vs(2) q(5) by (simp add: div_pos_pos_trivial)
  moreover have nvB: "num vs < B" using nv w(2) zero_less_power [of "10000::int" "length vs"] unfolding B_def w(2) power_Suc by linarith
  ultimately have S4: "num (rev ws) + B * b = num w mod num vs + (q - h) * num vs" using S(4) div_mult_mod_eq [of "num w" "num vs"] by (simp add: q(1) left_diff_distrib)
  have m: "0 \<le> num w mod num vs" "num w mod num vs < num vs" using vs(2) by auto
  have ws: "0 \<le> num (rev ws)" "num (rev ws) < B" using num_bound [of "rev ws"] S(1,2) by (auto simp: B_def)
  show ?thesis
  proof (cases "h = q")
    case True
    then have "num (rev ws) + B * b = num w mod num vs" using S4 by simp
    then have "b = 0" using small_multiple [OF B, of b] ws m nvB by linarith
    then show ?thesis using r S S4 True by (simp add: subtract_def)
  next
    case False
    then have h: "h = q + 1" using q(2,3) by simp
    then have e: "num (rev ws) + B * b = num w mod num vs - num vs" using S4 by simp
    then have b: "b = - 1" using S(3) ws m by auto
    obtain out zs where a: "addback_loop (zip (rev (0 # vs)) ws) 0 = (out, zs)" by (cases "addback_loop (zip (rev (0 # vs)) ws) 0")
    have A: "length zs = length w" "dig_ok zs" "num (rev zs) + out * B = num (rev ws) + num vs"
      using addback_loop_spec [OF _ _ _ _ a] vs w S by (auto simp: B_def simp del: power_Suc)
    then have z: "num (rev zs) + B * (out - 1) = num w mod num vs" using e b by (simp add: algebra_simps)
    moreover have "0 \<le> num (rev zs)" "num (rev zs) < B" using num_bound [of "rev zs"] A by (auto simp: B_def)
    ultimately have "out - 1 = 0" using small_multiple [OF B, of "out - 1"] m nvB by linarith
    then show ?thesis using r a A z b h by (simp add: subtract_def)
  qed
qed

lemma first_digits:
  assumes vs: "dig_ok vs" "2 \<le> length vs" "0 < vs ! 0" and w: "dig_ok w" "length w = Suc (length vs)" "num w < num vs * DECIMAL_NBASE"
  shows "w ! 0 \<le> vs ! 0"
proof -
  define P where "P = DECIMAL_NBASE ^ length vs"
  have P: "P = 10000 * DECIMAL_NBASE ^ (length vs - 1)" "0 < P" using vs(2) by (auto simp: P_def simp flip: power_Suc)
  have "0 \<le> num (tl w)" using num_bound [of "tl w"] w(1) by (cases w) auto
  then have "w ! 0 * P \<le> num w" using num_first [of w] w(2) by (force simp: P_def)
  also have "\<dots> < num vs * 10000" using w(3) .
  also have "num vs * 10000 < (vs ! 0 + 1) * P"
  proof -
    have "num (tl vs) < DECIMAL_NBASE ^ (length vs - 1)" using num_bound [of "tl vs"] vs(1,2) by (cases vs) auto
    then show ?thesis using num_first [of vs] vs(2) unfolding P(1) by (force simp: algebra_simps)
  qed
  finally show ?thesis using P(2) by (simp add: mult_less_cancel_right_pos)
qed

lemma div_step_spec:
  assumes vs: "dig_ok vs" "2 \<le> length vs" "0 < vs ! 0" and w: "dig_ok w" "length w = Suc (length vs)" "num w < num vs * DECIMAL_NBASE"
  shows "\<exists>w'. div_step vs w = (num w div num vs, w') \<and> length w' = length w \<and> dig_ok w' \<and> num w' = num w mod num vs"
proof -
  define P where "P = DECIMAL_NBASE ^ (length vs - 2)"
  define n2 where "n2 = w ! 0 * DECIMAL_NBASE + w ! 1"
  define U where "U = n2 * DECIMAL_NBASE + w ! 2"
  define V where "V = vs ! 0 * DECIMAL_NBASE + vs ! 1"
  define q where "q = num w div num vs"
  define q0 where "q0 = nat (if w ! 0 = vs ! 0 then DECIMAL_NBASE - 1 else n2 div vs ! 0)"
  define h where "h = adjust (vs ! 0) (vs ! 1) n2 (w ! 2) q0"
  have P: "0 < P" by (simp add: P_def)
  have vs0: "vs \<noteq> []" using vs(2) by auto
  have dw: "0 \<le> w ! 0" "0 \<le> w ! 1" "w ! 1 < 10000" "0 \<le> w ! 2" "w ! 2 < 10000" and dv: "0 \<le> vs ! 1" "vs ! 0 < 10000" 
    using dig_ok_nth [OF w(1), of 0] dig_ok_nth [OF w(1), of 1] dig_ok_nth [OF w(1), of 2] dig_ok_nth [OF vs(1), of 0] dig_ok_nth [OF vs(1), of 1] vs(2) w(2) vs0 by auto
  have W: "num w = U * P + num (drop 3 w)" "0 \<le> num (drop 3 w)" "num (drop 3 w) < P"
    using num_split [of 3 w] num_take3 [of w] num_bound [OF dig_ok_drop [OF w(1), of 3]] w(2) vs(2) by (auto simp: U_def n2_def P_def)
  have v: "num vs = V * P + num (drop 2 vs)" "0 \<le> num (drop 2 vs)" "num (drop 2 vs) < P" "10000 \<le> V"
    using num_split [of 2 vs] num_take2 [of vs] num_bound [OF dig_ok_drop [OF vs(1), of 2]] vs(2,3) dv by (auto simp: V_def P_def)
  have v0: "0 < num vs" using v(1,2,4) P by (simp add: add_pos_nonneg)
  have qr: "0 \<le> q" "q \<le> 9999" using div_bound [OF v0 w(3)] num_bound [OF w(1)] v0 by (auto simp: q_def pos_imp_zdiv_nonneg_iff)
  have "q * num vs \<le> num w" using div_range [OF v0] by (simp add: q_def)
  then have qV: "q * V \<le> U" by (rule leading_part [OF P W(1,3) v(1,2) qr(1)])
  show ?thesis
  proof (cases "n2 = 0")
    case True
    then have "U < 10000" using dw by (simp add: U_def)
    then have "V * q < V" "0 \<le> V * q" using qV v(4) qr(1) by (simp_all only: mult.commute [of V q]) simp_all
    then have "q = 0" using v(4) small_multiple [of V q] by linarith
    then have z: "num w div num vs = 0" by (simp add: q_def)
    then have "num w mod num vs = num w" using div_mult_mod_eq [of "num w" "num vs"] by simp
    then show ?thesis using True z w(1) by (simp add: div_step_def n2_def Let_def)
  next
    case False
    have q0: "int q0 = (if w ! 0 = vs ! 0 then DECIMAL_NBASE - 1 else n2 div vs ! 0)" using dw vs(3) by (simp add: q0_def n2_def pos_imp_zdiv_nonneg_iff)
    have "q * vs ! 0 * DECIMAL_NBASE \<le> q * V" using qr(1) dv(1) by (simp add: V_def distrib_left mult.assoc)
    then have "q * vs ! 0 * DECIMAL_NBASE < (n2 + 1) * DECIMAL_NBASE" using qV dw(5) by (simp add: U_def)
    then have "q * vs ! 0 \<le> n2" by simp
    then have "q \<le> n2 div vs ! 0" using vs(3) by (metis mult.commute nonzero_mult_div_cancel_left order_less_irrefl zdiv_mono1)
    then have qq0: "q \<le> int q0" using qr(2) q0 by simp
    have "n2 div vs ! 0 < 10000" if "w ! 0 < vs ! 0" using that dw by (intro div_bound [OF vs(3)]) (simp add: n2_def)
    then have q09: "int q0 \<le> 9999" using first_digits [OF vs w] q0 by auto
    have A: "h \<le> q0" "int h * V \<le> U \<or> h = 0" "h < q0 \<longrightarrow> U < (int h + 1) * V" using adjust_spec [of "vs ! 0" "vs ! 1" n2 "w ! 2" q0] by (auto simp: h_def U_def V_def)
    have h9: "int h \<le> 9999" using A(1) q09 by simp
    have est: "q \<le> int h" "int h \<le> q + 1" using estimate [OF P W v q_def qr(1) qq0 A(1) h9 A(2,3)] by auto
    have step: "div_step vs w = (if int h > 0 then subtract vs w (int h) else (int h, w))" using False by (simp add: div_step_def n2_def q0_def h_def Let_def)
    show ?thesis
    proof (cases "h = 0")
      case True
      then have z: "num w div num vs = 0" using est qr(1) by (simp add: q_def)
      then have "num w mod num vs = num w" using div_mult_mod_eq [of "num w" "num vs"] by simp
      then show ?thesis using True z w(1) step by simp
    next
      case False
      then show ?thesis using subtract_spec [OF vs(1) v0 w(1,2) refl, of "int h"] est qr h9 step by (simp add: q_def)
    qed
  qed
qed

section \<open>The whole quotient\<close>

lemma tl_num:
  assumes "dig_ok w" "w \<noteq> []" "num w < DECIMAL_NBASE ^ (length w - 1)"
  shows "num (tl w) = num w" "dig_ok (tl w)"
proof -
  obtain x xs where w: "w = x # xs" using assms(2) by (cases w) auto
  have "num w = x * 10000 ^ length xs + num xs" "0 \<le> num xs" "0 \<le> x" using num_bound [of xs] assms(1) by (auto simp: w)
  then have "10000 ^ length xs * x < 10000 ^ length xs" "0 \<le> 10000 ^ length xs * x" using assms(3) by (simp_all only: w mult.commute [of x] list.size add_0_right add_Suc_right diff_Suc_1) simp_all
  then have "x = 0" using small_multiple [of "10000 ^ length xs" x] zero_less_power [of "10000::int" "length xs"] by linarith
  then show "num (tl w) = num w" "dig_ok (tl w)" using assms(1) by (auto simp: w)
qed

lemma div_loop_spec:
  assumes vs: "dig_ok vs" "2 \<le> length vs" "0 < vs ! 0"
  shows "dig_ok u \<Longrightarrow> j + k + length vs \<le> length u \<Longrightarrow> num (take (length vs) (drop j u)) < num vs \<Longrightarrow>
    length (div_loop k j vs u) = k \<and> dig_ok (div_loop k j vs u) \<and> num (div_loop k j vs u) = num (take (length vs + k) (drop j u)) div num vs"
proof (induction k arbitrary: j u)
  case 0
  then show ?case using num_bound [OF dig_ok_take [OF dig_ok_drop [OF "0.prems"(1)]], of "length vs" j] by (simp add: div_pos_pos_trivial)
next
  case (Suc k)
  define n where "n = length vs"
  define w where "w = take (Suc n) (drop j u)"
  define T where "T = take k (drop (j + Suc n) u)"
  have len: "length w = Suc n" "j + n < length u" using Suc.prems(2) by (auto simp: w_def n_def)
  have w: "w = take n (drop j u) @ [u ! (j + n)]" using len by (simp add: w_def take_Suc_conv_app_nth)
  have x: "0 \<le> u ! (j + n)" "u ! (j + n) < 10000" using dig_ok_nth [OF Suc.prems(1) len(2)] by auto
  have okw: "dig_ok w" unfolding w_def by (intro dig_ok_take dig_ok_drop Suc.prems(1))
  have W: "num w < num vs * 10000" using Suc.prems(3) x by (simp add: w num_append flip: n_def)
  obtain w' where s: "div_step vs w = (num w div num vs, w')" "length w' = Suc n" "dig_ok w'" "num w' = num w mod num vs"
    using div_step_spec [OF vs okw _ W] len(1) n_def by auto
  have v0: "0 < num vs" by (rule num_pos [OF vs(1) _ vs(3)]) (use vs(2) in auto)
  have qd: "0 \<le> num w div num vs" "num w div num vs < 10000" using div_bound [OF v0 W] num_bound [OF okw] v0 by (auto simp: pos_imp_zdiv_nonneg_iff)
  have less: "num w' < num vs" using s(4) v0 by simp
  then have "num w' < DECIMAL_NBASE ^ n" using num_bound [OF vs(1)] by (simp add: n_def)
  then have t: "num (tl w') = num w'" "dig_ok (tl w')" using tl_num [OF s(3)] s(2) by (metis diff_Suc_1 length_0_conv nat.distinct(1))+
  define u' where "u' = take j u @ w' @ drop (j + Suc n) u"
  have d1: "drop (Suc j) u' = tl w' @ drop (j + Suc n) u" using len s(2) by (cases w') (auto simp: u'_def)
  have lu: "length u' = length u" using len s(2) by (simp add: u'_def)
  have okT: "dig_ok T" unfolding T_def by (intro dig_ok_take dig_ok_drop Suc.prems(1))
  have IH: "length (div_loop k (Suc j) vs u') = k" "dig_ok (div_loop k (Suc j) vs u')" "num (div_loop k (Suc j) vs u') = num (take (n + k) (drop (Suc j) u')) div num vs"
    using Suc.IH [of u' "Suc j"] Suc.prems(1,2) lu d1 s(2,3) t less dig_ok_take dig_ok_drop by (auto simp: n_def u'_def)
  have lT: "length T = k" using Suc.prems(2) by (simp add: T_def n_def)
  have e1: "take (n + k) (drop (Suc j) u') = tl w' @ T" using s(2) by (simp add: d1 T_def)
  have e2: "take (n + Suc k) (drop j u) = w @ T" using take_add [of "Suc n" k "drop j u"] by (simp add: w_def T_def add.commute)
  have "div_loop (Suc k) j vs u = (num w div num vs) # div_loop k (Suc j) vs u'" using s(1) by (simp add: Let_def u'_def n_def w_def)
  then show ?case using IH qd lT t(1) s(4) div_extend [OF v0, of "num w" "DECIMAL_NBASE ^ k" "num T"] unfolding n_def [symmetric] e1 e2 by (simp add: num_append)
qed

lemma num_take: "dig_ok u \<Longrightarrow> m \<le> length u \<Longrightarrow> num (take m u) = num u div DECIMAL_NBASE ^ (length u - m)"
  using num_split [of m u] num_bound [OF dig_ok_drop, of u m] by (simp add: div_pos_pos_trivial)

lemma long_div:
  assumes vs: "dig_ok vs" "2 \<le> length vs" "0 < vs ! 0" and u: "dig_ok u" "k + length vs \<le> length u" "num u < num vs * DECIMAL_NBASE ^ (length u - length vs)"
  shows "length (div_loop k 0 vs u) = k" "dig_ok (div_loop k 0 vs u)" "num (div_loop k 0 vs u) = num u div (num vs * DECIMAL_NBASE ^ (length u - length vs - k))"
proof -
  let ?n = "length vs"
  have "num (take ?n u) < num vs" using u(2,3) by (simp add: num_take [OF u(1)] div_bound mult.commute)
  then have S: "length (div_loop k 0 vs u) = k" "dig_ok (div_loop k 0 vs u)" "num (div_loop k 0 vs u) = num (take (?n + k) u) div num vs"
    using div_loop_spec [OF vs u(1), of 0 k] u(2) by auto
  then show "length (div_loop k 0 vs u) = k" "dig_ok (div_loop k 0 vs u)" by auto
  have "num (take (?n + k) u) div num vs = num u div (DECIMAL_NBASE ^ (length u - (?n + k)) * num vs)"
    using u(2) num_bound [OF vs(1)] by (simp add: num_take [OF u(1)] zdiv_zmult2_eq)
  then show "num (div_loop k 0 vs u) = num u div (num vs * DECIMAL_NBASE ^ (length u - ?n - k))" using S(3) by (simp add: mult.commute)
qed

lemma num_zeros [simp]: "num (replicate k 0) = 0" "dig_ok (replicate k 0)"
  by (induction k) auto

lemma first_nonzero:
  assumes "dig_ok ds" "ds \<noteq> []" "DECIMAL_NBASE ^ (length ds - 1) \<le> num ds"
  shows "0 < ds ! 0"
proof (rule ccontr)
  assume "\<not> 0 < ds ! 0"
  then have z: "ds ! 0 = 0" using dig_ok_nth [OF assms(1), of 0] assms(2) by auto
  have "num (tl ds) < DECIMAL_NBASE ^ (length ds - 1)" using num_bound [of "tl ds"] assms(1,2) by (cases ds) auto
  then show False using assms(3) num_first [OF assms(2)] z by simp
qed

lemma scale_bound:
  assumes "dig_ok rs" "rs \<noteq> []" "0 < rs ! 0" "d = DECIMAL_NBASE div (rs ! 0 + 1)"
  shows "d * num rs < DECIMAL_NBASE ^ length rs"
proof -
  define P where "P = DECIMAL_NBASE ^ (length rs - 1)"
  have "num (tl rs) < P" using num_bound [of "tl rs"] assms(1,2) by (cases rs) (auto simp: P_def)
  then have "num rs < (rs ! 0 + 1) * P" using num_first [OF assms(2)] by (simp add: P_def algebra_simps)
  moreover have "0 \<le> d" using assms(3,4) by (simp add: pos_imp_zdiv_nonneg_iff)
  ultimately have le: "d * num rs \<le> d * ((rs ! 0 + 1) * P)" and less: "d \<noteq> 0 \<Longrightarrow> d * num rs < d * ((rs ! 0 + 1) * P)" by (auto intro: mult_left_mono)
  have "(d * (rs ! 0 + 1)) * P \<le> DECIMAL_NBASE * P" using div_range [of "rs ! 0 + 1" DECIMAL_NBASE] assms(3,4) by (intro mult_right_mono) (auto simp: P_def)
  moreover have "DECIMAL_NBASE * P = DECIMAL_NBASE ^ length rs" "0 < P" using assms(2) by (cases rs; simp add: P_def)+
  ultimately show ?thesis using less le by (cases "d = 0") (auto simp: mult.assoc)
qed

lemma div_digits_spec:
  assumes ls: "dig_ok ls" and rs: "dig_ok rs" "rs \<noteq> []" "0 < rs ! 0" and n: "k + length rs \<le> m" "length ls \<le> m"
  shows "length (div_digits k m ls rs) = k \<and> dig_ok (div_digits k m ls rs)
    \<and> num (div_digits k m ls rs) = num ls * DECIMAL_NBASE ^ (m - length ls) div (num rs * DECIMAL_NBASE ^ (m + 1 - length rs - k))"
proof -
  let ?n = "length rs"
  define x where "x = ls @ replicate (m - length ls) 0"
  have x: "length x = m" "dig_ok x" "num x = num ls * DECIMAL_NBASE ^ (m - length ls)" using n(2) ls by (auto simp: x_def num_append)
  have xm: "0 \<le> num x" "num x < DECIMAL_NBASE ^ m" using num_bound [OF x(2)] x(1) by auto
  have v: "DECIMAL_NBASE ^ (?n - 1) \<le> num rs" "0 < num rs" using num_ge_first [OF rs] num_pos [OF rs] by auto
  have "m = (?n - 1) + (m + 1 - ?n)" using n(1) rs(2) by (cases rs) auto
  then have "num x < DECIMAL_NBASE ^ (?n - 1) * DECIMAL_NBASE ^ (m + 1 - ?n)" using xm(2) by (simp flip: power_add)
  also have "\<dots> \<le> num rs * DECIMAL_NBASE ^ (m + 1 - ?n)" using v(1) by (intro mult_right_mono) simp_all
  finally have small: "num x < num rs * DECIMAL_NBASE ^ (m + 1 - ?n)" .
  show ?thesis
  proof (cases "?n = 1")
    case True
    then obtain r where r: "rs = [r]" by (cases rs) auto
    have r9: "0 < r" "r \<le> 9999" using rs r by auto
    have "div_digits k m ls rs = short_div r 0 (take k x)" by (simp add: div_digits_def r Let_def x_def)
    moreover have "num (take k x) = num x div DECIMAL_NBASE ^ (m - k)" using num_take [OF x(2)] x(1) n(1) by simp
    moreover have "dig_ok (take k x)" using x(2) by (rule dig_ok_take)
    ultimately show ?thesis using short_div_spec [OF r9, of 0 "take k x"] r9 x n(1) by (simp add: r zdiv_zmult2_eq mult.commute [of r])
  next
    case False
    then have n2: "2 \<le> ?n" using rs(2) by (cases rs; cases "tl rs") auto
    show ?thesis
    proof (cases "rs ! 0 < DECIMAL_HALF_NBASE")
      case False
      then have "div_digits k m ls rs = div_loop k 0 rs (0 # x)" using n2 by (simp add: div_digits_def Let_def x_def)
      then show ?thesis using long_div [OF rs(1) n2 rs(3), of "0 # x" k] x n(1) small by (simp add: Suc_diff_le)
    next
      case True
      define d where "d = DECIMAL_NBASE div (rs ! 0 + 1)"
      define u where "u = scale_digits d (0 # ls) @ replicate (m - length ls) 0"
      have d: "0 < d" "d \<le> 5000" using True rs(3) zdiv_mono2 [of 10000 2 "rs ! 0 + 1"] by (auto simp: d_def pos_imp_zdiv_pos_iff)
      have "d * num (0 # ls) < 10000 * 10000 ^ length ls" using num_bound [OF ls] d by (intro mult_strict_mono) auto
      then have U: "length (scale_digits d (0 # ls)) = Suc (length ls)" "dig_ok (scale_digits d (0 # ls))" "num (scale_digits d (0 # ls)) = d * num ls"
        using scale_digits_spec [of "0 # ls" d] ls d by auto
      have u: "length u = Suc m" "dig_ok u" "num u = d * num x" using U n(2) by (auto simp: u_def num_append x(3))
      have V: "length (scale_digits d rs) = ?n" "dig_ok (scale_digits d rs)" "num (scale_digits d rs) = d * num rs"
        using scale_digits_spec [OF rs(1) _ scale_bound [OF rs d_def]] d by auto
      have ne: "scale_digits d rs \<noteq> []" using V(1) rs(2) by (metis length_0_conv)
      have "DECIMAL_NBASE ^ (?n - 1) \<le> 1 * num rs" using v(1) by simp
      also have "\<dots> \<le> d * num rs" using d(1) v(2) by (intro mult_right_mono) simp_all
      finally have V0: "0 < scale_digits d rs ! 0" using first_nonzero [OF V(2) ne] by (simp add: V)
      have e: "div_digits k m ls rs = div_loop k 0 (scale_digits d rs) u" using n2 True by (simp add: div_digits_def Let_def u_def d_def)
      have "d * num x < d * (num rs * DECIMAL_NBASE ^ (m + 1 - ?n))" using small d(1) by (intro mult_strict_left_mono)
      then have "num u < num (scale_digits d rs) * DECIMAL_NBASE ^ (length u - length (scale_digits d rs))" by (simp add: u V mult.assoc)
      then show ?thesis using long_div [OF V(2) _ V0 u(2), of k] n(1) n2 d(1) unfolding e by (simp add: u V x(3) mult.assoc Suc_diff_le)
    qed
  qed
qed

section \<open>Rounding the quotient\<close>

lemma floor_floor:
  assumes "0 < (P::int)"
  shows "\<lfloor>(of_int (\<lfloor>w\<rfloor> + c) :: rat) / of_int P\<rfloor> = \<lfloor>(w + of_int c) / of_int P\<rfloor>"
proof -
  define k where "k = \<lfloor>(w + of_int c) / of_int P\<rfloor>"
  have "of_int k \<le> (w + of_int c) / of_int P" "(w + of_int c) / of_int P < of_int k + 1" unfolding k_def by linarith+
  then have b: "of_int (k * P) \<le> w + of_int c" "w + of_int c < of_int ((k + 1) * P)" using assms by (simp_all add: field_simps)
  have "k * P - c \<le> \<lfloor>w\<rfloor>" "\<lfloor>w\<rfloor> < (k + 1) * P - c" unfolding le_floor_iff floor_less_iff using b by (simp_all add: algebra_simps)
  then have "k * P \<le> \<lfloor>w\<rfloor> + c" "\<lfloor>w\<rfloor> + c < (k + 1) * P" by linarith+
  then have "(of_int (k * P) :: rat) \<le> of_int (\<lfloor>w\<rfloor> + c)" "(of_int (\<lfloor>w\<rfloor> + c) :: rat) < of_int ((k + 1) * P)" by (simp_all only: of_int_le_iff of_int_less_iff)
  then have "of_int k \<le> (of_int (\<lfloor>w\<rfloor> + c) :: rat) / of_int P" "(of_int (\<lfloor>w\<rfloor> + c) :: rat) / of_int P < of_int k + 1" using assms by (simp_all add: field_simps)
  then show ?thesis unfolding k_def [symmetric] by (rule floor_unique)
qed

text \<open>Rounding a number that was cut at a later decimal place is rounding the number.\<close>

lemma round_cut:
  assumes "0 < p"
  shows "\<lfloor>(of_int \<lfloor>z * 10 ^ p\<rfloor> :: rat) / 10 ^ p + 1 / 2\<rfloor> = \<lfloor>(z::rat) + 1 / 2\<rfloor>"
proof -
  have P: "(10::int) ^ p = 2 * (5 * 10 ^ (p - 1))" using assms by (cases p) auto
  have half: "(of_int (5 * 10 ^ (p - 1)) :: rat) / of_int (10 ^ p) = 1 / 2" unfolding P by simp
  have "of_int \<lfloor>z * 10 ^ p\<rfloor> / 10 ^ p + 1 / 2 = (of_int (\<lfloor>z * 10 ^ p\<rfloor> + 5 * 10 ^ (p - 1)) :: rat) / of_int (10 ^ p)" unfolding half [symmetric] by (simp add: add_divide_distrib)
  also have "\<lfloor>\<dots>\<rfloor> = \<lfloor>(z * 10 ^ p + of_int (5 * 10 ^ (p - 1))) / of_int (10 ^ p)\<rfloor>" by (rule floor_floor) simp
  also have "(z * 10 ^ p + of_int (5 * 10 ^ (p - 1))) / of_int (10 ^ p) = z + 1 / 2" unfolding half [symmetric] by (simp add: add_divide_distrib)
  finally show "\<lfloor>(of_int \<lfloor>z * 10 ^ p\<rfloor> :: rat) / 10 ^ p + 1 / 2\<rfloor> = \<lfloor>z + 1 / 2\<rfloor>" .
qed

lemma trunc_cut: "\<lfloor>(of_int \<lfloor>z * 10 ^ k\<rfloor> :: rat) / 10 ^ k\<rfloor> = \<lfloor>(z::rat)\<rfloor>"
  using floor_floor [of "10 ^ k" "z * 10 ^ k" 0] by simp

lemma powi_quot: "(10000::rat) powi a * 10000 powi e / 10000 powi b = 10000 powi (a + e - b)"
  by (simp add: power_int_add power_int_diff)

lemma quotient_value:
  assumes "dig_ok ls" "dig_ok rs" "rs \<noteq> []" "0 < rs ! 0" "k + length rs \<le> m" "length ls \<le> m"
  shows "num (div_digits k m ls rs) = \<lfloor>dval ls w1 / dval rs w2 * 10000 powi (int k - 1 - (w1 - w2))\<rfloor>"
proof -
  let ?M = "m - length ls" and ?K = "m + 1 - length rs - k"
  have r: "0 < num rs" using num_pos assms by simp
  have "(w1 + 1 - int (length ls)) + (int k - 1 - (w1 - w2)) - (w2 + 1 - int (length rs)) = int ?M - int ?K" using assms(5,6) by simp
  then have "(10000::rat) powi (w1 + 1 - int (length ls)) * 10000 powi (int k - 1 - (w1 - w2)) / 10000 powi (w2 + 1 - int (length rs)) = 10000 powi (int ?M - int ?K)"
    by (simp only: powi_quot)
  also have "\<dots> = 10000 ^ ?M / 10000 ^ ?K" by (subst power_int_diff) simp_all
  finally have E: "(10000::rat) powi (w1 + 1 - int (length ls)) * 10000 powi (int k - 1 - (w1 - w2)) / 10000 powi (w2 + 1 - int (length rs)) = 10000 ^ ?M / 10000 ^ ?K" .
  have "dval ls w1 / dval rs w2 * 10000 powi (int k - 1 - (w1 - w2)) = of_int (num ls) / of_int (num rs) *
      (10000 powi (w1 + 1 - int (length ls)) * 10000 powi (int k - 1 - (w1 - w2)) / 10000 powi (w2 + 1 - int (length rs)))"
    unfolding dval_num by simp
  also have "\<dots> = of_int (num ls) / of_int (num rs) * (10000 ^ ?M / 10000 ^ ?K)" by (simp only: E)
  also have "\<dots> = of_int (num ls * 10000 ^ ?M) / of_int (num rs * 10000 ^ ?K)" by simp
  finally show ?thesis using div_digits_spec [OF assms] by (simp only: floor_divide_of_int_eq)
qed

definition round_at :: "int \<Rightarrow> rat \<Rightarrow> rat" where
  "round_at s x = sgn x * (of_int \<lfloor>\<bar>x\<bar> * 10 powi s + 1 / 2\<rfloor> * 10 powi (- s))"

definition trunc_at :: "int \<Rightarrow> rat \<Rightarrow> rat" where
  "trunc_at s x = sgn x * (of_int \<lfloor>\<bar>x\<bar> * 10 powi s\<rfloor> * 10 powi (- s))"

text \<open>The digits of the quotient, and what is left of them in units of the last place asked for.\<close>

lemma quotient_digits:
  assumes "canonical l" "canonical r" "d_digits r \<noteq> []" and k: "k + length (d_digits r) \<le> m" "length (d_digits l) \<le> m" and w: "w = d_weight l - d_weight r"
    and x: "x = dval (d_digits l) (d_weight l) / dval (d_digits r) (d_weight r)" and p: "4 * (int k - 1 - w) - s = int p"
  shows "dig_ok (div_digits k m (d_digits l) (d_digits r))"
    "dval (div_digits k m (d_digits l) (d_digits r)) w * 10 powi s = of_int \<lfloor>(x * 10 powi s) * 10 ^ p\<rfloor> / 10 ^ p"
proof -
  let ?Q = "div_digits k m (d_digits l) (d_digits r)"
  have ok: "dig_ok (d_digits l)" "dig_ok (d_digits r)" "0 < d_digits r ! 0" using assms(1-3) dig_ok_nth [of "d_digits r" 0] by (auto simp: canonical_def hd_conv_nth)
  note Q = div_digits_spec [OF ok(1,2) assms(3) ok(3) k]
  show "dig_ok ?Q" using Q by simp
  have e: "(10::rat) powi s * 10 ^ p = 10000 powi (int k - 1 - w)" unfolding powi_ten using p powi10_add [of s "int p"] by (simp only: power_int_of_nat) (metis add.commute diff_add_cancel)
  have one: "(10::rat) powi (- int p) = 1 / 10 ^ p" by (simp add: power_int_minus divide_inverse)
  have "4 * (w + 1 - int k) + s = - int p" using p by simp
  then have c: "(10000::rat) powi (w + 1 - int k) * 10 powi s = 1 / 10 ^ p" unfolding powi_ten one [symmetric] by (simp only: powi10_add [symmetric])
  have "dval ?Q w = of_int (num ?Q) * 10000 powi (w + 1 - int k)" using Q by (simp add: dval_num)
  then have "dval ?Q w * 10 powi s = of_int (num ?Q) * (10000 powi (w + 1 - int k) * 10 powi s)" by simp
  also have "\<dots> = of_int (num ?Q) / 10 ^ p" unfolding c by simp
  also have "num ?Q = \<lfloor>x * 10000 powi (int k - 1 - w)\<rfloor>" using quotient_value [OF ok(1,2) assms(3) ok(3) k] by (simp add: x w)
  finally show "dval ?Q w * 10 powi s = of_int \<lfloor>(x * 10 powi s) * 10 ^ p\<rfloor> / 10 ^ p" by (simp only: e mult.assoc)
qed

lemma sign_quotient:
  assumes "canonical l" "canonical r" "d_digits l \<noteq> []" "d_digits r \<noteq> []" and s: "s = (if d_sign l = d_sign r then SDB_DECIMAL_POS else SDB_DECIMAL_NEG)"
  shows "sgn (dec_val l / dec_val r) = (if s = SDB_DECIMAL_NEG then - 1 else 1)" "\<bar>dec_val l / dec_val r\<bar> = dval (d_digits l) (d_weight l) / dval (d_digits r) (d_weight r)"
  using canonical_pos [OF assms(1,3)] canonical_pos [OF assms(2,4)] assms(1,2) by (auto simp: s dec_val_def canonical_def nonspecial_def sgn_divide abs_divide)

lemma stripped_result:
  assumes "d_isOwn d" "dig_ok (d_digits d)" "nonspecial d" "d_dscale d = s" "dval (d_digits d) (d_weight d) = v" "d_sign d = sg \<or> d_digits d = []"
  shows "result_of (Inr (dec_strip d)) ((if sg = SDB_DECIMAL_NEG then - 1 else 1) * v) s"
proof -
  have "d_digits (dec_strip d) = [] \<longrightarrow> d_weight (dec_strip d) = 0" using assms(1) by (simp add: dec_strip_def Let_def split: prod.splits)
  moreover have "dec_val d = (if sg = SDB_DECIMAL_NEG then - 1 else 1) * v" using assms(5,6) by (auto simp: dec_val_def)
  ultimately show ?thesis using dec_strip_spec [OF assms(1,3,2)] assms(1,4) by (auto simp: result_of_def plain_def)
qed

lemma dec_div_spec:
  assumes "canonical l" "canonical r" "d_digits r \<noteq> []" "\<forall>n. mem n" "0 \<le> s"
  shows "result_of (dec_div mem l r s rnd result) ((if rnd then round_at s else trunc_at s) (dec_val l / dec_val r)) s"
proof (cases "d_digits l = []")
  case True
  then have "dec_div mem l r s rnd result = Inr (decimal_init\<lparr>d_dscale := s\<rparr>)" using assms(2,3) by (auto simp: dec_div_def decimal_set_zero_def canonical_def hd_conv_nth)
  moreover have "dec_val l = 0" using True by (simp add: dec_val_def)
  ultimately show ?thesis by (simp add: result_of_def dec_val_def decimal_init_def round_at_def trunc_at_def)
next
  case False
  define w where "w = d_weight l - d_weight r"
  define n where "n = max (w + 1 + (s + 4 - 1) div 4) 1"
  define k where "k = nat (if rnd then n + 1 else n)"
  define m where "m = max (k + length (d_digits r)) (length (d_digits l))"
  define sg where "sg = (if d_sign l = d_sign r then SDB_DECIMAL_POS else SDB_DECIMAL_NEG)"
  define x where "x = dval (d_digits l) (d_weight l) / dval (d_digits r) (d_weight r)"
  define p where "p = nat (4 * (int k - 1 - w) - s)"
  define d where "d = result\<lparr>d_isOwn := True, d_front := [0], d_digits := div_digits k m (d_digits l) (d_digits r), d_weight := w, d_sign := sg\<rparr>"
  have "1 \<le> n" by (simp add: n_def)
  then have k: "int k = (if rnd then n + 1 else n)" by (simp add: k_def)
  define t where "t = (s + 4 - 1) div 4"
  have "s \<le> 4 * t" by (simp add: t_def)
  moreover have "w + 1 + t \<le> n" unfolding n_def t_def by (rule max.cobounded1)
  ultimately have "s \<le> 4 * (n - w - 1)" by presburger
  then have p: "4 * (int k - 1 - w) - s = int p" "rnd \<Longrightarrow> 0 < p" by (auto simp: p_def k)
  note Q = quotient_digits [OF assms(1-3) _ _ w_def x_def p(1), of m]
  have ok: "dig_ok (d_digits d)" "dval (d_digits d) (d_weight d) * 10 powi s = of_int \<lfloor>(x * 10 powi s) * 10 ^ p\<rfloor> / 10 ^ p" using Q by (auto simp: d_def m_def)
  have sgs: "sg = SDB_DECIMAL_POS \<or> sg = SDB_DECIMAL_NEG" "nonspecial d" by (auto simp: sg_def d_def nonspecial_def)
  have e: "dec_div mem l r s rnd result = (if rnd then map_sum id dec_strip (decimal_round d s) else Inr (dec_strip (dec_trunc d s)))"
    using False assms(2,3,4) by (auto simp: dec_div_def Let_def dec_alloc_def d_def w_def n_def k_def m_def sg_def canonical_def hd_conv_nth)
  note S = sign_quotient [OF assms(1,2) False assms(3) sg_def]
  show ?thesis
  proof (cases rnd)
    case True
    have "d_isOwn d" "can_round d" by (auto simp: d_def can_round_def spare_def)
    then obtain d' where r: "decimal_round d s = Inr d'" "rounded d s \<lfloor>x * 10 powi s + 1 / 2\<rfloor> d'" using round_spec [OF _ ok(1) _ assms(5)] ok(2) round_cut [OF p(2) [OF True]] by metis
    have "result_of (Inr (dec_strip d')) ((if sg = SDB_DECIMAL_NEG then - 1 else 1) * (of_int \<lfloor>x * 10 powi s + 1 / 2\<rfloor> * 10 powi (- s))) s"
      by (rule stripped_result) (use r(2) sgs in \<open>auto simp: rounded_def nonspecial_def d_def\<close>)
    then show ?thesis using e r(1) True S by (simp add: round_at_def x_def)
  next
    case False
    define d' where "d' = dec_trunc d s"
    have "d_isOwn d" by (simp add: d_def)
    note T = dec_trunc_spec [OF this ok(1), of s, unfolded ok(2) trunc_cut, folded d'_def]
    have "result_of (Inr (dec_strip d')) ((if sg = SDB_DECIMAL_NEG then - 1 else 1) * (of_int \<lfloor>x * 10 powi s\<rfloor> * 10 powi (- s))) s"
      by (rule stripped_result) (use T sgs in \<open>auto simp: nonspecial_def d_def\<close>)
    then show ?thesis using e False S by (simp add: trunc_at_def x_def d'_def)
  qed
qed

section \<open>The scale of the quotient\<close>

lemma round_at_error: "\<bar>round_at s x - x\<bar> \<le> 10 powi (- s) / 2"
proof -
  define y where "y = \<bar>x\<bar> * 10 powi s"
  have one: "(10::rat) powi s * 10 powi (- s) = 1" using powi10_add [of s "- s"] by simp
  then have x: "\<bar>x\<bar> = y * 10 powi (- s)" by (simp add: y_def mult.assoc)
  have "\<bar>of_int \<lfloor>y + 1 / 2\<rfloor> - y\<bar> \<le> 1 / 2" by linarith
  then have "\<bar>of_int \<lfloor>y + 1 / 2\<rfloor> - y\<bar> * 10 powi (- s) \<le> 1 / 2 * 10 powi (- s)" by (intro mult_right_mono) simp_all
  then have "\<bar>of_int \<lfloor>y + 1 / 2\<rfloor> * 10 powi (- s) - \<bar>x\<bar>\<bar> \<le> 10 powi (- s) / 2" unfolding x by (simp add: abs_mult flip: left_diff_distrib)
  then show ?thesis unfolding round_at_def y_def [symmetric] by (cases x "0::rat" rule: linorder_cases) (auto simp: y_def abs_if split: if_splits)
qed

lemma first_digit_canonical: "canonical d \<Longrightarrow> d_digits d \<noteq> [] \<Longrightarrow> first_digit (d_digits d) (d_weight d) = (hd (d_digits d), d_weight d)"
  by (cases "d_digits d") (auto simp: canonical_def)

definition qweight_of :: "bson_decimal \<Rightarrow> bson_decimal \<Rightarrow> int" where
  "qweight_of l r = (if hd (d_digits l) \<le> hd (d_digits r) then d_weight l - d_weight r - 1 else d_weight l - d_weight r)"

text \<open>The estimated weight of the quotient is not too large.\<close>

lemma quotient_weight:
  assumes "canonical l" "canonical r" "d_digits l \<noteq> []" "d_digits r \<noteq> []"
  shows "10000 powi qweight_of l r \<le> dval (d_digits l) (d_weight l) / dval (d_digits r) (d_weight r)"
proof -
  let ?L = "dval (d_digits l) (d_weight l)" and ?R = "dval (d_digits r) (d_weight r)"
  obtain a as where l: "d_digits l = a # as" using assms(3) by (cases "d_digits l") auto
  obtain b bs where r: "d_digits r = b # bs" using assms(4) by (cases "d_digits r") auto
  have ok: "dig_ok (a # as)" "a \<noteq> 0" "dig_ok (b # bs)" using assms by (auto simp: canonical_def l r)
  have "10000 powi qweight_of l r * ?R \<le> ?L"
  proof (cases "a \<le> b")
    case True
    have "10000 powi (d_weight l - d_weight r - 1) * ?R \<le> 10000 powi (d_weight l - d_weight r - 1) * 10000 powi (d_weight r + 1)"
      using dval_bound(2) [OF ok(3), of "d_weight r"] by (intro mult_left_mono) (auto simp: r simp del: dval.simps)
    also have "\<dots> = 10000 powi d_weight l" by (simp flip: power_int_add)
    also have "\<dots> \<le> ?L" unfolding l by (rule dval_first [OF ok(1,2)])
    finally show ?thesis using True by (simp add: qweight_of_def l r del: dval.simps)
  next
    case False
    have "?R \<le> of_int (b + 1) * 10000 powi d_weight r" using dval_bound(2) [of bs "d_weight r - 1"] ok(3) by (simp add: r distrib_right)
    then have "10000 powi (d_weight l - d_weight r) * ?R \<le> 10000 powi (d_weight l - d_weight r) * (of_int (b + 1) * 10000 powi d_weight r)" by (intro mult_left_mono) simp_all
    also have "\<dots> = of_int (b + 1) * (10000 powi (d_weight l - d_weight r) * 10000 powi d_weight r)" by simp
    also have "\<dots> = of_int (b + 1) * 10000 powi d_weight l" by (simp flip: power_int_add)
    also have "\<dots> \<le> of_int a * 10000 powi d_weight l" using False by (intro mult_right_mono) (simp_all only: of_int_le_iff, simp_all)
    also have "\<dots> \<le> ?L" using dval_bound(1) [of as "d_weight l - 1"] ok(1) by (simp add: l)
    finally show ?thesis using False by (simp add: qweight_of_def l r del: dval.simps)
  qed
  then show ?thesis using canonical_pos [OF assms(2,4)] by (simp add: pos_le_divide_eq)
qed

lemma div_scale_eq:
  assumes "canonical l" "canonical r" "d_digits l \<noteq> []" "d_digits r \<noteq> []"
  shows "dec_get_div_scale l r = min (max (max (max (DECIMAL_MIN_SIG_DIGITS - qweight_of l r * DECIMAL_DEC_DIGITS) (d_dscale l)) (d_dscale r)) 0) DECIMAL_MAX_DISPLAY_SCALE"
  by (simp only: dec_get_div_scale_def qweight_of_def Let_def prod.case first_digit_canonical [OF assms(1,3)] first_digit_canonical [OF assms(2,4)])

lemma capped: "min (max (max (max a b) c) d) e < e \<Longrightarrow> a \<le> min (max (max (max a b) c) d) (e::int)"
  by linarith

lemma quotient_accuracy:
  assumes "canonical l" "canonical r" "d_digits r \<noteq> []" "s = dec_get_div_scale l r" "s < DECIMAL_MAX_DISPLAY_SCALE" and x: "x = dec_val l / dec_val r"
  shows "\<bar>round_at s x - x\<bar> * (2 * 10 ^ 16) \<le> \<bar>x\<bar>"
proof (cases "d_digits l = []")
  case True
  then show ?thesis by (simp add: x dec_val_def round_at_def)
next
  case False
  let ?q = "qweight_of l r"
  have "DECIMAL_MIN_SIG_DIGITS - ?q * DECIMAL_DEC_DIGITS \<le> s"
    using capped [of "DECIMAL_MIN_SIG_DIGITS - ?q * DECIMAL_DEC_DIGITS"] assms(5) unfolding assms(4) div_scale_eq [OF assms(1,2) False assms(3)] by blast
  then have "(10::rat) powi (- s) \<le> 10 powi (4 * ?q - 16)" by (intro power_int_increasing) auto
  also have "\<dots> = 10000 powi ?q / 10 ^ 16" unfolding powi_ten by (subst power_int_diff) simp_all
  finally have "10 powi (- s) * 10 ^ 16 \<le> (10000::rat) powi ?q" by (simp add: field_simps)
  also have "\<dots> \<le> \<bar>x\<bar>" using quotient_weight [OF assms(1,2) False assms(3)] sign_quotient(2) [OF assms(1,2) False assms(3) refl] by (simp add: x)
  finally have "10 powi (- s) * 10 ^ 16 \<le> \<bar>x\<bar>" .
  moreover have "\<bar>round_at s x - x\<bar> * (2 * 10 ^ 16) \<le> 10 powi (- s) / 2 * (2 * 10 ^ 16)" using round_at_error by (intro mult_right_mono) simp_all
  ultimately show ?thesis by simp
qed

lemma div_scale_range: "0 \<le> dec_get_div_scale l r" "dec_get_div_scale l r \<le> DECIMAL_MAX_DISPLAY_SCALE"
proof -
  obtain a where a: "dec_get_div_scale l r = min (max a 0) DECIMAL_MAX_DISPLAY_SCALE" unfolding dec_get_div_scale_def Let_def case_prod_unfold by blast
  show "0 \<le> dec_get_div_scale l r" "dec_get_div_scale l r \<le> DECIMAL_MAX_DISPLAY_SCALE" unfolding a by linarith+
qed

text \<open>C10: \<open>decimal_div\<close> by 0 fails with -6.  Otherwise the quotient is correctly rounded: the exact quotient, rounded half up in magnitude at the scale \<open>_decimal_get_div_scale\<close> chooses,
  in normal form, unless it is out of bounds.  That scale leaves a relative error of at most half a unit of the 16th significant place, unless it is capped at 1000.\<close>
theorem decimal_div_rounded:
  assumes "canonical l" "canonical r" and "\<forall>n. mem n"
  shows "if d_digits r = [] then decimal_div mem l r result = Inl (Rc (- 6))
    else exact (decimal_div mem l r result) (round_at (dec_get_div_scale l r) (dec_val l / dec_val r)) (dec_get_div_scale l r)
      \<and> (dec_get_div_scale l r < DECIMAL_MAX_DISPLAY_SCALE \<longrightarrow>
           \<bar>round_at (dec_get_div_scale l r) (dec_val l / dec_val r) - dec_val l / dec_val r\<bar> * (2 * 10 ^ 16) \<le> \<bar>dec_val l / dec_val r\<bar>)"
proof (cases "d_digits r = []")
  case True
  then show ?thesis using canonical_rank [OF assms(1)] canonical_rank [OF assms(2)] by (simp add: decimal_div_def dec_div_def bounded_def)
next
  case False
  have "decimal_div mem l r result = bounded (dec_div mem l r (dec_get_div_scale l r) True result)" using canonical_rank [OF assms(1)] canonical_rank [OF assms(2)] by (simp add: decimal_div_def)
  then show ?thesis using False result_bounded [OF dec_div_spec [OF assms(1,2) False assms(3) div_scale_range(1), of l r True result]] quotient_accuracy [OF assms(1,2) False refl _ refl] by simp
qed

theorem decimal_div_rounded_witness:
  "exact (decimal_div (\<lambda>n. True) const_one (decimal_init\<lparr>d_digits := [3]\<rparr>) decimal_init) (round_at 20 (1 / 3)) 20 \<and> \<bar>round_at 20 (1 / 3) - 1 / 3\<bar> * (2 * 10 ^ 16) \<le> 1 / 3
   \<and> (case decimal_div (\<lambda>n. True) (decimal_init\<lparr>d_digits := [2]\<rparr>) (decimal_init\<lparr>d_digits := [3, 2500]\<rparr>) decimal_init of Inr d \<Rightarrow> (d_weight d, d_digits d) | Inl _ \<Rightarrow> (0, []))
      = (- 1, [6153, 8461, 5384, 6153, 8462])"
proof (intro conjI)
  let ?r = "decimal_init\<lparr>d_digits := [3]\<rparr>"
  have c: "canonical const_one" "canonical ?r" by (auto simp: canonical_def nonspecial_def const_one_def decimal_init_def)
  have s: "dec_get_div_scale const_one ?r = 20" by code_simp
  have v: "dec_val const_one / dec_val ?r = 1 / 3" by (simp add: dec_val_def const_one_def decimal_init_def)
  note D = decimal_div_rounded [OF c, of "\<lambda>n. True" decimal_init, unfolded s v]
  show "exact (decimal_div (\<lambda>n. True) const_one ?r decimal_init) (round_at 20 (1 / 3)) 20" using D by (simp add: decimal_init_def)
  show "\<bar>round_at 20 (1 / 3) - 1 / 3\<bar> * (2 * 10 ^ 16) \<le> 1 / 3" using D by (simp add: decimal_init_def)
  show "(case decimal_div (\<lambda>n. True) (decimal_init\<lparr>d_digits := [2]\<rparr>) (decimal_init\<lparr>d_digits := [3, 2500]\<rparr>) decimal_init of Inr d \<Rightarrow> (d_weight d, d_digits d) | Inl _ \<Rightarrow> (0, []))
      = (- 1, [6153, 8461, 5384, 6153, 8462])" by code_simp
qed

end
