(* ===== verification/Bson_DecInt.thy ===== *)
theory Bson_DecInt
  imports Bson_DecDiv
begin

text \<open>
  The whole numbers next to a decimal (\<open>decimal_ceil\<close>, \<open>decimal_floor\<close>), the remainder of a division (\<open>decimal_mod\<close>) and the conversions from and to 64-bit and
  32-bit integers.
\<close>

section \<open>Ceiling, floor and remainder\<close>

definition decimal_ceil :: "(nat \<Rightarrow> bool) \<Rightarrow> bson_decimal \<Rightarrow> bson_decimal dec_res" where
  "decimal_ceil mem d =
     (if decimal_is_special d then Inr decimal_set_nan
      else (case decimal_copy mem d of
              Inl err \<Rightarrow> Inl err
            | Inr t0 \<Rightarrow>
                (let tmp = dec_trunc t0 0 in
                 case (if d_sign d = SDB_DECIMAL_POS \<and> decimal_cmp d tmp \<noteq> 0 then decimal_add mem tmp const_one else Inr tmp) of
                   Inl err \<Rightarrow> Inl err
                 | Inr t \<Rightarrow> decimal_copy mem t)))"

definition decimal_floor :: "(nat \<Rightarrow> bool) \<Rightarrow> bson_decimal \<Rightarrow> bson_decimal dec_res" where
  "decimal_floor mem d =
     (if decimal_is_special d then Inr decimal_set_nan
      else (case decimal_copy mem d of
              Inl err \<Rightarrow> Inl err
            | Inr t0 \<Rightarrow>
                (let tmp = dec_trunc t0 0 in
                 case (if d_sign d = SDB_DECIMAL_NEG \<and> decimal_cmp d tmp \<noteq> 0 then decimal_sub mem tmp const_one else Inr tmp) of
                   Inl err \<Rightarrow> Inl err
                 | Inr t \<Rightarrow> bounded (decimal_copy mem t))))"

definition decimal_mod :: "(nat \<Rightarrow> bool) \<Rightarrow> bson_decimal \<Rightarrow> bson_decimal \<Rightarrow> bson_decimal dec_res" where
  "decimal_mod mem l r =
     (if decimal_is_special l \<or> decimal_is_special r then Inr decimal_set_nan
      else (case dec_div mem l r 0 False decimal_init of
              Inl err \<Rightarrow> Inl err
            | Inr q \<Rightarrow> (case dec_mul mem r q (d_dscale r) of Inl err \<Rightarrow> Inl err | Inr tmp \<Rightarrow> dec_sub mem l tmp)))"

text \<open>The decimal without its places behind the point, in a buffer of its own.\<close>

lemma whole_part:
  assumes c: "canonical d" and w: "d_digits d = [] \<longrightarrow> d_weight d = 0"
  defines "t \<equiv> dec_trunc (d\<lparr>d_isOwn := True, d_front := [0]\<rparr>) 0"
  shows "canonical t" "dec_val t = trunc_at 0 (dec_val d)" "d_dscale t = 0" "d_digits t = [] \<longrightarrow> d_weight t = 0"
proof -
  let ?d = "d\<lparr>d_isOwn := True, d_front := [0]\<rparr>"
  have ok: "dig_ok (d_digits ?d)" using c by (simp add: canonical_def)
  note T = dec_trunc_spec [OF _ ok, of 0, folded t_def, simplified]
  have ns: "nonspecial t" using T c by (auto simp: canonical_def nonspecial_def)
  have hd: "d_digits t \<noteq> [] \<longrightarrow> hd (d_digits t) \<noteq> 0" and w0: "d_digits t = [] \<longrightarrow> d_weight t = 0"
    using c w by (auto simp: t_def dec_trunc_def canonical_def Let_def)
  show "canonical t" "d_dscale t = 0" "d_digits t = [] \<longrightarrow> d_weight t = 0" using T ns hd w0 by (auto simp: canonical_def)
  have "0 \<le> dval (d_digits d) (d_weight d)" using dval_bound(1) c by (simp add: canonical_def)
  moreover have "d_digits d \<noteq> [] \<longrightarrow> 0 < dval (d_digits d) (d_weight d)" using canonical_pos [OF c] by simp
  ultimately show "dec_val t = trunc_at 0 (dec_val d)" using T c by (cases "d_digits d = []") (auto simp: dec_val_def trunc_at_def canonical_def nonspecial_def sgn_if)
qed

lemma trunc_ceil: "0 \<le> x \<Longrightarrow> (of_int \<lceil>x\<rceil> :: rat) = (if trunc_at 0 x = x then trunc_at 0 x else trunc_at 0 x + 1)" "x \<le> 0 \<Longrightarrow> of_int \<lceil>x\<rceil> = trunc_at 0 x"
  "x \<le> 0 \<Longrightarrow> (of_int \<lfloor>x\<rfloor> :: rat) = (if trunc_at 0 x = x then trunc_at 0 x else trunc_at 0 x - 1)" "0 \<le> x \<Longrightarrow> of_int \<lfloor>x\<rfloor> = trunc_at 0 x"
proof -
  have a: "trunc_at 0 x = of_int \<lfloor>x\<rfloor>" if "0 \<le> x" for x using that by (cases "x = 0") (auto simp: trunc_at_def)
  have b: "trunc_at 0 x = of_int \<lceil>x\<rceil>" if "x \<le> 0" for x using that by (cases "x = 0") (auto simp: trunc_at_def ceiling_def)
  have c: "(of_int \<lceil>x\<rceil> :: rat) = (if of_int \<lfloor>x\<rfloor> = x then of_int \<lfloor>x\<rfloor> else of_int \<lfloor>x\<rfloor> + 1)" by (metis ceiling_altdef of_int_1 of_int_add)
  have e: "of_int \<lceil>x\<rceil> = x \<longleftrightarrow> of_int \<lfloor>x\<rfloor> = x" by (metis ceiling_of_int floor_of_int)
  show "0 \<le> x \<Longrightarrow> (of_int \<lceil>x\<rceil> :: rat) = (if trunc_at 0 x = x then trunc_at 0 x else trunc_at 0 x + 1)" unfolding c by (simp add: a)
  show "x \<le> 0 \<Longrightarrow> of_int \<lceil>x\<rceil> = trunc_at 0 x" "0 \<le> x \<Longrightarrow> of_int \<lfloor>x\<rfloor> = trunc_at 0 x" using a b by simp_all
  show "x \<le> 0 \<Longrightarrow> (of_int \<lfloor>x\<rfloor> :: rat) = (if trunc_at 0 x = x then trunc_at 0 x else trunc_at 0 x - 1)" using c e b by simp
qed

lemma sign_val: "canonical d \<Longrightarrow> (d_sign d = SDB_DECIMAL_POS \<longrightarrow> 0 \<le> dec_val d) \<and> (d_sign d = SDB_DECIMAL_NEG \<longrightarrow> dec_val d \<le> 0) \<and> (d_sign d = SDB_DECIMAL_POS \<or> d_sign d = SDB_DECIMAL_NEG)"
  using dval_bound(1) [of "d_digits d" "d_weight d"] by (auto simp: dec_val_def canonical_def nonspecial_def)

lemma cmp_eq: "canonical l \<Longrightarrow> canonical r \<Longrightarrow> decimal_cmp l r = 0 \<longleftrightarrow> dec_val l = dec_val r"
  using cmp_canonical by (simp add: cmp3_def)

lemma canonical_one: "canonical const_one" "dec_val const_one = 1" "d_dscale const_one = 0"
  by (auto simp: canonical_def nonspecial_def const_one_def decimal_init_def dec_val_def)

lemma copy_val: "dec_val (d\<lparr>d_isOwn := True, d_front := [0]\<rparr>) = dec_val d" "canonical (d\<lparr>d_isOwn := True, d_front := [0]\<rparr>) = canonical d"
  by (auto simp: dec_val_def canonical_def nonspecial_def)

definition whole :: "bson_decimal dec_res \<Rightarrow> int \<Rightarrow> bool" where
  "whole res k \<longleftrightarrow> (\<exists>d. res = Inr d \<and> canonical d \<and> dec_val d = of_int k \<and> d_dscale d = 0)"

lemma whole_copy: "whole (Inr d) k \<Longrightarrow> \<forall>n. mem n \<Longrightarrow> whole (decimal_copy mem d) k"
  by (auto simp: whole_def decimal_copy_def copy_val)

lemma trunc_abs: "\<bar>trunc_at 0 x\<bar> \<le> \<bar>x\<bar>"
proof (cases "0 \<le> x")
  case True
  then have "(0::rat) \<le> of_int \<lfloor>x\<rfloor>" "of_int \<lfloor>x\<rfloor> \<le> x" by auto
  then show ?thesis using trunc_ceil(4) [OF True] True by linarith
next
  case False
  then have "of_int \<lceil>x\<rceil> \<le> (0::rat)" "x \<le> of_int \<lceil>x\<rceil>" by auto
  then show ?thesis using trunc_ceil(2) [of x] False by linarith
qed

lemma val_nil: "d_digits d = [] \<Longrightarrow> dec_val d = 0"
  by (simp add: dec_val_def)

lemma in_bounds:
  assumes "canonical d" "\<bar>dec_val d\<bar> < dec_limit" "d_dscale d = 0" "d_digits d = [] \<longrightarrow> d_weight d = 0"
  shows "\<not> dec_is_out_of_bound d"
proof (cases "d_digits d = []")
  case False
  then have "32768 \<le> d_weight d \<longleftrightarrow> dec_limit \<le> \<bar>dec_val d\<bar>" unfolding dec_limit_def by (rule weight_val [OF assms(1)])
  then show ?thesis using assms(2,3) by (simp add: dec_is_out_of_bound_def)
qed (use assms in \<open>auto simp: dec_is_out_of_bound_def\<close>)

lemma exact_inside: "exact res v 0 \<Longrightarrow> \<bar>v\<bar> < dec_limit \<Longrightarrow> \<exists>d. res = Inr d \<and> canonical d \<and> dec_val d = v \<and> d_dscale d = 0"
  by (auto simp: exact_def)

lemma add_one:
  assumes "canonical t" "d_dscale t = 0" "\<forall>n. mem n" "\<bar>dec_val t\<bar> + 1 < dec_limit"
  shows "\<exists>d. decimal_add mem t const_one = Inr d \<and> canonical d \<and> dec_val d = dec_val t + 1 \<and> d_dscale d = 0"
    "\<exists>d. decimal_sub mem t const_one = Inr d \<and> canonical d \<and> dec_val d = dec_val t - 1 \<and> d_dscale d = 0"
proof -
  have "exact (decimal_add mem t const_one) (dec_val t + 1) 0" "exact (decimal_sub mem t const_one) (dec_val t - 1) 0"
    using exact_result [OF dec_add_spec [OF assms(1) canonical_one(1) assms(3)]] exact_result [OF dec_sub_spec [OF assms(1) canonical_one(1) assms(3)]]
      canonical_rank [OF assms(1)] canonical_rank [OF canonical_one(1)] canonical_one(2,3) assms(2) by (simp_all add: decimal_add_def decimal_sub_def)
  then show "\<exists>d. decimal_add mem t const_one = Inr d \<and> canonical d \<and> dec_val d = dec_val t + 1 \<and> d_dscale d = 0"
    "\<exists>d. decimal_sub mem t const_one = Inr d \<and> canonical d \<and> dec_val d = dec_val t - 1 \<and> d_dscale d = 0"
    using assms(4) by (auto intro!: exact_inside)
qed

text \<open>\<open>decimal_ceil\<close> and \<open>decimal_floor\<close> of a number that is not within 1 of the largest magnitude give the whole numbers next above and below it, with display scale 0.\<close>
theorem decimal_ceil_floor:
  assumes c: "canonical d" and w: "d_digits d = [] \<longrightarrow> d_weight d = 0" and lim: "\<bar>dec_val d\<bar> + 1 < dec_limit" and mem: "\<forall>n. mem n"
  shows "whole (decimal_ceil mem d) \<lceil>dec_val d\<rceil> \<and> whole (decimal_floor mem d) \<lfloor>dec_val d\<rfloor>"
proof
  define t where "t = dec_trunc (d\<lparr>d_isOwn := True, d_front := [0]\<rparr>) 0"
  note T = whole_part [OF c w, folded t_def]
  have cp: "decimal_copy mem d = Inr (d\<lparr>d_isOwn := True, d_front := [0]\<rparr>)" using mem by (simp add: decimal_copy_def)
  have ns: "\<not> decimal_is_special d" using canonical_rank [OF c] by simp
  have lt: "\<bar>dec_val t\<bar> + 1 < dec_limit" using trunc_abs [of "dec_val d"] lim T(2) by simp
  have eq: "decimal_cmp d t = 0 \<longleftrightarrow> trunc_at 0 (dec_val d) = dec_val d" using cmp_eq [OF c T(1)] T(2) by auto
  obtain u where u: "decimal_add mem t const_one = Inr u" "canonical u" "dec_val u = dec_val t + 1" "d_dscale u = 0" using add_one(1) [OF T(1,3) mem lt] by blast
  obtain v where v: "decimal_sub mem t const_one = Inr v" "canonical v" "dec_val v = dec_val t - 1" "d_dscale v = 0" using add_one(2) [OF T(1,3) mem lt] by blast
  show "whole (decimal_ceil mem d) \<lceil>dec_val d\<rceil>"
  proof (cases "d_sign d = SDB_DECIMAL_POS \<and> decimal_cmp d t \<noteq> 0")
    case True
    then have "decimal_ceil mem d = decimal_copy mem u" using u(1) ns by (simp add: decimal_ceil_def cp Let_def flip: t_def)
    moreover have "whole (Inr u) \<lceil>dec_val d\<rceil>" using True u T(2) sign_val [OF c] trunc_ceil(1) [of "dec_val d"] eq by (simp add: whole_def)
    ultimately show ?thesis using whole_copy mem by simp
  next
    case False
    then have "decimal_ceil mem d = decimal_copy mem t" using ns by (auto simp: decimal_ceil_def cp Let_def simp flip: t_def)
    moreover have "whole (Inr t) \<lceil>dec_val d\<rceil>" using False T sign_val [OF c] trunc_ceil(1,2) [of "dec_val d"] eq by (auto simp: whole_def)
    ultimately show ?thesis using whole_copy mem by simp
  qed
  show "whole (decimal_floor mem d) \<lfloor>dec_val d\<rfloor>"
  proof (cases "d_sign d = SDB_DECIMAL_NEG \<and> decimal_cmp d t \<noteq> 0")
    case True
    have x: "dec_val d \<le> 0" using sign_val [OF c] True by simp
    then have "of_int \<lceil>dec_val d\<rceil> \<le> (0::rat)" by simp
    then have neg: "dec_val t \<le> 0" using T(2) trunc_ceil(2) [OF x] by linarith
    then have "d_digits v \<noteq> []" using v(3) val_nil [of v] by linarith
    moreover have "\<bar>dec_val v\<bar> < dec_limit" using lt v(3) by linarith
    ultimately have "\<not> dec_is_out_of_bound (v\<lparr>d_isOwn := True, d_front := [0]\<rparr>)" using in_bounds [OF v(2)] v(4) by (simp add: dec_is_out_of_bound_def)
    then have "decimal_floor mem d = decimal_copy mem v" using True v(1) ns mem by (simp add: decimal_floor_def cp Let_def bounded_def decimal_copy_def flip: t_def)
    moreover have "whole (Inr v) \<lfloor>dec_val d\<rfloor>" using True v T(2) sign_val [OF c] trunc_ceil(3) [of "dec_val d"] eq by (simp add: whole_def)
    ultimately show ?thesis using whole_copy mem by simp
  next
    case False
    have "\<not> dec_is_out_of_bound (t\<lparr>d_isOwn := True, d_front := [0]\<rparr>)" using in_bounds [OF T(1) _ T(3,4)] lt by (simp add: dec_is_out_of_bound_def)
    then have "decimal_floor mem d = decimal_copy mem t" using False ns mem by (auto simp: decimal_floor_def cp Let_def bounded_def decimal_copy_def simp flip: t_def)
    moreover have "whole (Inr t) \<lfloor>dec_val d\<rfloor>" using False T sign_val [OF c] trunc_ceil(3,4) [of "dec_val d"] eq by (auto simp: whole_def)
    ultimately show ?thesis using whole_copy mem by simp
  qed
qed

theorem decimal_ceil_floor_witness:
  "whole (decimal_ceil (\<lambda>n. True) (decimal_init\<lparr>d_digits := [2, 5000], d_sign := SDB_DECIMAL_NEG\<rparr>)) (- 2)
   \<and> whole (decimal_floor (\<lambda>n. True) (decimal_init\<lparr>d_digits := [2, 5000], d_sign := SDB_DECIMAL_NEG\<rparr>)) (- 3)"
proof -
  let ?d = "decimal_init\<lparr>d_digits := [2, 5000], d_sign := SDB_DECIMAL_NEG\<rparr>"
  have c: "canonical ?d" and w: "d_digits ?d = [] \<longrightarrow> d_weight ?d = 0" and v: "dec_val ?d = - (5 / 2)" by (auto simp: canonical_def nonspecial_def decimal_init_def dec_val_def power_int_minus)
  have "(10000::rat) powi 1 \<le> 10000 powi DECIMAL_MAX_WEIGHT" by (rule power_int_increasing) simp_all
  then have "\<bar>dec_val ?d\<bar> + 1 < dec_limit" unfolding dec_limit_def v by (simp only: power_int_1_right)
  then have "whole (decimal_ceil (\<lambda>n. True) ?d) \<lceil>dec_val ?d\<rceil> \<and> whole (decimal_floor (\<lambda>n. True) ?d) \<lfloor>dec_val ?d\<rfloor>" by (intro decimal_ceil_floor [OF c w]) simp_all
  moreover have "\<lceil>- (5 / 2) :: rat\<rceil> = - 2" "\<lfloor>- (5 / 2) :: rat\<rfloor> = - 3" by (auto intro: ceiling_unique floor_unique)
  ultimately show ?thesis unfolding v by simp
qed

lemma result_canonical:
  assumes "result_of res v s"
  shows "\<exists>d. res = Inr d \<and> canonical d \<and> stripped (d_digits d) \<and> (d_digits d = [] \<longrightarrow> d_weight d = 0) \<and> dec_val d = v \<and> d_dscale d = s"
proof -
  have zero: "canonical (decimal_init\<lparr>d_dscale := s\<rparr>) \<and> stripped (d_digits (decimal_init\<lparr>d_dscale := s\<rparr>)) \<and> d_weight (decimal_init\<lparr>d_dscale := s\<rparr>) = 0" for s
    by (simp add: canonical_def nonspecial_def stripped_def decimal_init_def)
  obtain d where d: "res = Inr d" "plain d \<or> d = decimal_init\<lparr>d_dscale := s\<rparr>" "dec_val d = v" "d_dscale d = s" using assms by (auto simp: result_of_def)
  have "canonical d \<and> stripped (d_digits d) \<and> (d_digits d = [] \<longrightarrow> d_weight d = 0)" using d(2) by (elim disjE) (simp add: plain_def, simp only: zero simp_thms)
  then show ?thesis using d by auto
qed

lemma abs_val: "canonical d \<Longrightarrow> \<bar>dec_val d\<bar> = dval (d_digits d) (d_weight d)"
  using dval_bound(1) [of "d_digits d" "d_weight d"] by (auto simp: dec_val_def canonical_def)

lemma trunc_rest:
  assumes "y \<noteq> 0"
  shows "\<bar>x - trunc_at 0 (x / y) * y\<bar> < \<bar>y\<bar>" "x - trunc_at 0 (x / y) * y = 0 \<or> sgn (x - trunc_at 0 (x / y) * y) = sgn x"
proof -
  define q where "q = x / y"
  have x: "x = q * y" using assms by (simp add: q_def)
  define f where "f = q - trunc_at 0 q"
  have f: "\<bar>f\<bar> < 1 \<and> (f = 0 \<or> sgn f = sgn q)"
  proof (cases "0 \<le> q")
    case True
    then have "trunc_at 0 q = of_int \<lfloor>q\<rfloor>" using trunc_ceil(4) by simp
    moreover have "of_int \<lfloor>q\<rfloor> \<le> q" "q < of_int \<lfloor>q\<rfloor> + 1" by linarith+
    moreover have "(0::rat) \<le> of_int \<lfloor>q\<rfloor>" using True by simp
    ultimately show ?thesis unfolding f_def sgn_if by (auto simp: abs_if; linarith)
  next
    case False
    then have "trunc_at 0 q = of_int \<lceil>q\<rceil>" using trunc_ceil(2) [of q] by simp
    moreover have "q \<le> of_int \<lceil>q\<rceil>" "of_int \<lceil>q\<rceil> < q + 1" by linarith+
    moreover have "of_int \<lceil>q\<rceil> \<le> (0::rat)" using False by simp
    ultimately show ?thesis using False unfolding f_def sgn_if by (auto simp: abs_if; linarith)
  qed
  have e: "x - trunc_at 0 (x / y) * y = f * y" by (simp add: f_def left_diff_distrib flip: q_def x)
  show "\<bar>x - trunc_at 0 (x / y) * y\<bar> < \<bar>y\<bar>" unfolding e abs_mult using f assms by simp
  show "x - trunc_at 0 (x / y) * y = 0 \<or> sgn (x - trunc_at 0 (x / y) * y) = sgn x" unfolding e using f by (auto simp: x sgn_mult)
qed

text \<open>The whole quotient times the divisor is exact.\<close>

lemma mod_product:
  assumes c: "canonical r" "stripped (d_digits r)" "shown r" "length (d_digits r) \<le> 21" "d_digits r \<noteq> []" "\<forall>n. mem n"
    and q: "canonical q" "stripped (d_digits q)" "d_digits q = [] \<longrightarrow> d_weight q = 0" "dec_val q = of_int k"
  shows "result_of (dec_mul mem r q (d_dscale r)) (dec_val r * dec_val q) (d_dscale r)"
proof -
  obtain j where s: "0 \<le> d_dscale r" "dval (d_digits r) (d_weight r) = of_int j * 10 powi (- d_dscale r)" using c(3) by (auto simp: shown_def)
  have qv: "dval (d_digits q) (d_weight q) = of_int \<bar>k\<bar>" using abs_val [OF q(1)] q(4) by simp
  then have "dval (d_digits r) (d_weight r) * dval (d_digits q) (d_weight q) = of_int (j * \<bar>k\<bar>) * 10 powi (- d_dscale r)" using s(2) by simp
  moreover have "int (length (d_digits q)) \<le> d_weight q + 1"
  proof (cases "d_digits q = []")
    case False
    then have "4 * (int (length (d_digits q)) - d_weight q - 1) \<le> 0 + 3" using qv q(1,2) by (intro shown_digits [where s = 0 and k = "\<bar>k\<bar>"]) (auto simp: canonical_def stripped_def)
    then show ?thesis by simp
  qed (use q(3) in simp)
  moreover have "4 * (int (length (d_digits r)) - d_weight r - 1) \<le> d_dscale r + 3" by (rule stripped_shown [OF c(1-3,5)])
  ultimately show ?thesis using s(1) c(4) by (intro dec_mul_spec [OF c(1) q(1) _ c(6) s(1), where k = "j * \<bar>k\<bar>"]) (auto simp: mul_safe_def)
qed

text \<open>C18: \<open>decimal_mod\<close> of a number by a divisor in normal form of at most 21 digits to the base 10000, all of whose places are shown, is exact: the dividend less the whole part of
  the quotient times the divisor.  It is smaller than the divisor in magnitude and has the sign of the dividend or is 0.\<close>
theorem decimal_mod_exact:
  assumes "canonical l" "canonical r" and "d_digits r \<noteq> []" "stripped (d_digits r)" "shown r" "length (d_digits r) \<le> 21" and "\<forall>n. mem n"
  shows "\<exists>m. result_of (decimal_mod mem l r) m (max (d_dscale l) (d_dscale r)) \<and> m = dec_val l - trunc_at 0 (dec_val l / dec_val r) * dec_val r
    \<and> \<bar>m\<bar> < \<bar>dec_val r\<bar> \<and> (m = 0 \<or> sgn m = sgn (dec_val l))"
proof -
  let ?x = "dec_val l / dec_val r"
  have "result_of (dec_div mem l r 0 False decimal_init) (trunc_at 0 ?x) 0" using dec_div_spec [OF assms(1-3,7), of 0 False] by simp
  then obtain q where q: "dec_div mem l r 0 False decimal_init = Inr q" "canonical q" "stripped (d_digits q)" "d_digits q = [] \<longrightarrow> d_weight q = 0" "dec_val q = trunc_at 0 ?x"
    using result_canonical by blast
  have "dec_val q = of_int (if 0 \<le> ?x then \<lfloor>?x\<rfloor> else \<lceil>?x\<rceil>)" using q(5) trunc_ceil(2,4) [of ?x] by auto
  from mod_product [OF assms(2,4-6,3,7) q(2-4) this] obtain p where p: "dec_mul mem r q (d_dscale r) = Inr p" "canonical p" "dec_val p = dec_val r * dec_val q" "d_dscale p = d_dscale r"
    using result_canonical by blast
  have "result_of (decimal_mod mem l r) (dec_val l - trunc_at 0 ?x * dec_val r) (max (d_dscale l) (d_dscale r))"
    using dec_sub_spec [OF assms(1) p(2) assms(7)] canonical_rank [OF assms(1)] canonical_rank [OF assms(2)] by (simp add: decimal_mod_def q p mult.commute)
  moreover have "dec_val r \<noteq> 0" using canonical_pos [OF assms(2,3)] by (simp add: dec_val_def)
  ultimately show ?thesis using trunc_rest [of "dec_val r" "dec_val l"] by blast
qed

theorem decimal_mod_exact_witness:
  "result_of (decimal_mod (\<lambda>n. True) (decimal_init\<lparr>d_digits := [7], d_sign := SDB_DECIMAL_NEG\<rparr>) (decimal_init\<lparr>d_digits := [2, 5000], d_dscale := 1\<rparr>)) (- 2) 1"
proof -
  let ?l = "decimal_init\<lparr>d_digits := [7], d_sign := SDB_DECIMAL_NEG\<rparr>" and ?r = "decimal_init\<lparr>d_digits := [2, 5000], d_dscale := 1\<rparr>"
  have "shown ?r" by (auto simp: shown_def decimal_init_def power_int_minus intro!: exI [of _ 25])
  then obtain m where m: "result_of (decimal_mod (\<lambda>n. True) ?l ?r) m (max (d_dscale ?l) (d_dscale ?r))" "m = dec_val ?l - trunc_at 0 (dec_val ?l / dec_val ?r) * dec_val ?r"
    using decimal_mod_exact [of ?l ?r "\<lambda>n. True"] by (auto simp: canonical_def nonspecial_def stripped_def decimal_init_def)
  have v: "dec_val ?l = - 7" "dec_val ?r = 5 / 2" by (simp_all add: dec_val_def decimal_init_def power_int_minus)
  have "trunc_at 0 (- 7 / (5 / 2)) = - 2" using floor_unique [of 2 "14 / 5 :: rat"] by (simp add: trunc_at_def)
  then have "m = - 2" unfolding m(2) v by simp
  moreover have "max (d_dscale ?l) (d_dscale ?r) = 1" by (simp add: decimal_init_def)
  ultimately show ?thesis using m(1) by simp
qed

section \<open>Conversions from and to integers\<close>

definition s64 :: "int \<Rightarrow> int" where
  "s64 i = (i + 2 ^ 63) mod 2 ^ 64 - 2 ^ 63"

text \<open>The digits of an unsigned integer, the last one first written.\<close>

function long_loop :: "int \<Rightarrow> int list \<Rightarrow> int list" where
  "long_loop uval acc =
     (let newuval = uval div DECIMAL_NBASE; ds = (uval - newuval * DECIMAL_NBASE) # acc in
      if newuval > 0 then long_loop newuval ds else ds)"
  by auto
termination
  by (relation "measure (\<lambda>(u, _). nat u)") auto

declare long_loop.simps [simp del]

text \<open>\<open>fresh\<close> is what the new buffer holds before it is written.\<close>

definition decimal_from_long :: "(nat \<Rightarrow> bool) \<Rightarrow> (nat \<Rightarrow> int) \<Rightarrow> int \<Rightarrow> bson_decimal \<Rightarrow> bson_decimal dec_res" where
  "decimal_from_long mem fresh v d =
     (case dec_alloc mem (map fresh [0..<5]) d of
        Inl err \<Rightarrow> Inl err
      | Inr d0 \<Rightarrow>
          (let uval = (if v < 0 then (- v) mod 2 ^ 64 else v);
               d1 = d0\<lparr>d_sign := (if v < 0 then SDB_DECIMAL_NEG else SDB_DECIMAL_POS), d_dscale := 0\<rparr>
           in if v = 0 then Inr (d1\<lparr>d_digits := [], d_weight := 0\<rparr>)
              else (let ds = long_loop uval [] in
                if length ds > length (d_digits d1) then Inl OutOfBuffer
                else dec_apply_typmod (d1\<lparr>d_front := rev (take (length (d_digits d1) - length ds) (d_digits d1)) @ d_front d1, d_digits := ds, d_weight := int (length ds) - 1\<rparr>) (d_typemod d))))"

definition decimal_from_int :: "(nat \<Rightarrow> bool) \<Rightarrow> (nat \<Rightarrow> int) \<Rightarrow> int \<Rightarrow> bson_decimal \<Rightarrow> bson_decimal dec_res" where
  "decimal_from_int mem fresh v d = decimal_from_long mem fresh v d"

text \<open>Division of C rounds towards 0.  The accumulator of the loop below wraps around.\<close>

definition quot :: "int \<Rightarrow> int \<Rightarrow> int" where
  "quot a b = (if a < 0 then - ((- a) div b) else a div b)"

fun to_long_loop :: "nat \<Rightarrow> bool \<Rightarrow> int list \<Rightarrow> int \<Rightarrow> int option" where
  "to_long_loop 0 neg ds oldval = Some oldval"
| "to_long_loop (Suc n) neg ds oldval =
     (let v1 = s64 (oldval * DECIMAL_NBASE); v = (case ds of [] \<Rightarrow> v1 | x # _ \<Rightarrow> s64 (v1 + x)) in
      if quot v DECIMAL_NBASE \<noteq> oldval \<and> (\<not> neg \<or> s64 (- v) \<noteq> v \<or> v = 0 \<or> oldval < 0) then None
      else to_long_loop n neg (case ds of [] \<Rightarrow> [] | _ # rest \<Rightarrow> rest) v)"

text \<open>An error is answered by 0.\<close>

definition decimal_to_long :: "(nat \<Rightarrow> bool) \<Rightarrow> bson_decimal \<Rightarrow> int" where
  "decimal_to_long mem d =
     (if decimal_is_special d then 0
      else (case decimal_copy mem d of
              Inl _ \<Rightarrow> 0
            | Inr t \<Rightarrow>
                (case decimal_round t 0 of
                   Inl _ \<Rightarrow> 0
                 | Inr t1 \<Rightarrow>
                     (let r = dec_strip t1; ds = d_digits r; weight = d_weight r; neg = (d_sign r = SDB_DECIMAL_NEG) in
                      if ds = [] then 0
                      else if weight < 0 \<or> int (length ds) > weight + 1 then 0
                      else (case to_long_loop (nat weight) neg (tl ds) (hd ds) of
                              None \<Rightarrow> 0
                            | Some v \<Rightarrow> if neg then s64 (- v) else v)))))"

definition decimal_to_int :: "(nat \<Rightarrow> bool) \<Rightarrow> bson_decimal \<Rightarrow> int" where
  "decimal_to_int mem d = s32 (decimal_to_long mem d)"

lemma s64_id: "- (2 ^ 63) \<le> i \<Longrightarrow> i < 2 ^ 63 \<Longrightarrow> s64 i = i"
  by (simp add: s64_def)

lemma s64_add: "s64 (s64 a + b) = s64 (a + b)"
proof -
  have "(s64 a + b + 2 ^ 63) mod 2 ^ 64 = ((a + 2 ^ 63) mod 2 ^ 64 + b) mod 2 ^ 64" by (simp add: s64_def)
  also have "\<dots> = (a + b + 2 ^ 63) mod 2 ^ 64" unfolding mod_add_left_eq by (simp add: algebra_simps)
  finally show ?thesis by (simp add: s64_def)
qed

lemma long_loop_spec:
  "0 \<le> u \<Longrightarrow> \<exists>ds. long_loop u acc = ds @ acc \<and> dig_ok ds \<and> num ds = u \<and> ds \<noteq> [] \<and> (0 < u \<longrightarrow> hd ds \<noteq> 0)"
proof (induction u acc rule: long_loop.induct)
  case (1 u acc)
  define q where "q = u div 10000"
  define x where "x = u - q * 10000"
  have x: "0 \<le> x" "x < 10000" "u = q * 10000 + x" by (auto simp: x_def q_def)
  have q0: "0 \<le> q" using "1.prems" by (simp add: q_def)
  show ?case
  proof (cases "q > 0")
    case True
    then have "\<exists>ds. long_loop q (x # acc) = ds @ x # acc \<and> dig_ok ds \<and> num ds = q \<and> ds \<noteq> [] \<and> (0 < q \<longrightarrow> hd ds \<noteq> 0)"
      using "1.IH" [OF q_def refl, folded q_def x_def, OF True q0] by simp
    then obtain ds where ds: "long_loop q (x # acc) = ds @ x # acc" "dig_ok ds" "num ds = q" "ds \<noteq> []" "hd ds \<noteq> 0" using True by blast
    have "long_loop u acc = (ds @ [x]) @ acc" using True ds(1) by (subst long_loop.simps) (simp add: Let_def flip: q_def x_def)
    then show ?thesis using ds x by (intro exI [of _ "ds @ [x]"]) (simp add: num_append)
  next
    case False
    then have "q = 0" using q0 by simp
    then have "long_loop u acc = [x] @ acc" by (subst long_loop.simps) (simp add: Let_def x_def flip: q_def)
    then show ?thesis using x \<open>q = 0\<close> by (intro exI [of _ "[x]"]) simp
  qed
qed

lemma long_digits:
  assumes "0 < u" "u < 2 ^ 64"
  shows "dig_ok (long_loop u [])" "num (long_loop u []) = u" "long_loop u [] \<noteq> []" "hd (long_loop u []) \<noteq> 0" "length (long_loop u []) \<le> 5"
proof -
  obtain ds where ds: "long_loop u [] = ds" "dig_ok ds" "num ds = u" "ds \<noteq> []" "hd ds \<noteq> 0" using long_loop_spec [of u "[]"] assms(1) by auto
  then show "dig_ok (long_loop u [])" "num (long_loop u []) = u" "long_loop u [] \<noteq> []" "hd (long_loop u []) \<noteq> 0" by auto
  have "0 < ds ! 0" using ds dig_ok_nth [OF ds(2), of 0] by (auto simp: hd_conv_nth)
  then have "DECIMAL_NBASE ^ (length ds - 1) \<le> num ds" by (rule num_ge_first [OF ds(2,4)])
  also have "\<dots> < DECIMAL_NBASE ^ 5" using assms(2) ds(3) by simp
  finally have "length ds - 1 < 5" by (simp only: power_strict_increasing_iff)
  then show "length (long_loop u []) \<le> 5" using ds(1) by simp
qed

lemma quot_step: "0 \<le> v \<Longrightarrow> 0 \<le> x \<Longrightarrow> x < 10000 \<Longrightarrow> quot (v * 10000 + x) 10000 = v"
  by (simp add: quot_def)

lemma to_long_loop_spec:
  assumes "dig_ok ds" "length ds \<le> n" "0 \<le> v" "v < 2 ^ 63" and N: "N = v * DECIMAL_NBASE ^ n + num ds * DECIMAL_NBASE ^ (n - length ds)" "N < 2 ^ 63 \<or> N = 2 ^ 63 \<and> neg"
  shows "to_long_loop n neg ds v = Some (if N < 2 ^ 63 then N else - (2 ^ 63))"
  using assms
proof (induction n arbitrary: ds v)
  case (Suc n)
  define x where "x = (case ds of [] \<Rightarrow> 0 | x # _ \<Rightarrow> x)"
  define rest where "rest = (case ds of [] \<Rightarrow> [] | _ # r \<Rightarrow> r)"
  define T where "T = v * 10000 + x"
  have x: "0 \<le> x" "x < 10000" and ok: "dig_ok rest" "length rest \<le> n" using Suc.prems(1,2) by (auto simp: x_def rest_def split: list.splits)
  have NT: "N = T * 10000 ^ n + num rest * 10000 ^ (n - length rest)"
    using Suc.prems(2,5) by (cases ds) (auto simp: T_def x_def rest_def algebra_simps simp flip: power_add)
  have T0: "0 \<le> T" using x Suc.prems(3) by (simp add: T_def)
  have r0: "0 \<le> num rest * 10000 ^ (n - length rest)" using num_bound [OF ok(1)] by simp
  have "T * 1 \<le> T * 10000 ^ n" using T0 by (intro mult_left_mono) simp_all
  then have TN: "T \<le> N" using NT r0 by linarith
  have val: "(case ds of [] \<Rightarrow> s64 (v * 10000) | x # _ \<Rightarrow> s64 (s64 (v * 10000) + x)) = s64 T" by (cases ds) (auto simp: T_def x_def s64_add)
  have step: "to_long_loop (Suc n) neg ds v = (if quot (s64 T) 10000 \<noteq> v \<and> (\<not> neg \<or> s64 (- s64 T) \<noteq> s64 T \<or> s64 T = 0 \<or> v < 0) then None else to_long_loop n neg rest (s64 T))"
    by (simp add: Let_def val rest_def)
  show ?case
  proof (cases "T < 2 ^ 63")
    case True
    then have "s64 T = T" using T0 by (intro s64_id) simp_all
    moreover have "quot T 10000 = v" using quot_step [OF Suc.prems(3) x] by (simp add: T_def)
    ultimately show ?thesis using Suc.IH [OF ok T0 True NT Suc.prems(6)] step by simp
  next
    case False
    then have N: "N = 2 ^ 63" "T = 2 ^ 63" "neg" using Suc.prems(6) TN by auto
    have "n = 0"
    proof (rule ccontr)
      assume "n \<noteq> 0"
      then have "(2 ^ 63 :: int) * 10000 ^ 1 \<le> 2 ^ 63 * 10000 ^ n" by (intro mult_left_mono power_increasing) simp_all
      then show False using NT N r0 by simp
    qed
    moreover have "s64 (2 ^ 63) = - (2 ^ 63)" by (simp add: s64_def)
    ultimately show ?thesis using step N Suc.prems(3) by simp
  qed
qed simp

text \<open>A decimal rounded to a whole number, half up in magnitude.\<close>

definition nearest :: "rat \<Rightarrow> int" where
  "nearest x = (if x < 0 then - \<lfloor>\<bar>x\<bar> + 1 / 2\<rfloor> else \<lfloor>\<bar>x\<bar> + 1 / 2\<rfloor>)"

lemma whole_digits:
  assumes "canonical r" "stripped (d_digits r)" "d_digits r \<noteq> []" "dval (d_digits r) (d_weight r) = of_int R"
  shows "int (length (d_digits r)) \<le> d_weight r + 1" "num (d_digits r) * DECIMAL_NBASE ^ nat (d_weight r + 1 - int (length (d_digits r))) = R"
proof -
  have "4 * (int (length (d_digits r)) - d_weight r - 1) \<le> 0 + 3" using assms by (intro shown_digits [where s = 0 and k = R]) (auto simp: canonical_def stripped_def)
  then show le: "int (length (d_digits r)) \<le> d_weight r + 1" by simp
  have "(10000::rat) powi (d_weight r + 1 - int (length (d_digits r))) = 10000 ^ nat (d_weight r + 1 - int (length (d_digits r)))" using le by (simp add: power_int_def)
  then have "(of_int (num (d_digits r) * 10000 ^ nat (d_weight r + 1 - int (length (d_digits r)))) :: rat) = of_int R" using assms(4) by (simp add: dval_num)
  then show "num (d_digits r) * DECIMAL_NBASE ^ nat (d_weight r + 1 - int (length (d_digits r))) = R" by (simp only: of_int_eq_iff)
qed

lemma rounded_copy:
  assumes c: "canonical d" and mem: "\<forall>n. mem n"
  shows "\<exists>r t. decimal_copy mem d = Inr t \<and> (\<exists>t1. decimal_round t 0 = Inr t1 \<and> r = dec_strip t1) \<and> canonical r \<and> stripped (d_digits r)
    \<and> dval (d_digits r) (d_weight r) = of_int \<lfloor>\<bar>dec_val d\<bar> + 1 / 2\<rfloor> \<and> (d_digits r \<noteq> [] \<longrightarrow> d_sign r = d_sign d)"
proof -
  define t where "t = d\<lparr>d_isOwn := True, d_front := [0]\<rparr>"
  have t: "decimal_copy mem d = Inr t" "d_isOwn t" "can_round t" "dig_ok (d_digits t)" using mem c by (auto simp: decimal_copy_def t_def can_round_def spare_def canonical_def)
  obtain t1 where r: "decimal_round t 0 = Inr t1" "rounded t 0 \<lfloor>dval (d_digits t) (d_weight t) + 1 / 2\<rfloor> t1" using round_spec [OF t(2,4,3), of 0] by auto
  have t1: "d_isOwn t1" "nonspecial t1" "dig_ok (d_digits t1)" using r(2) c by (auto simp: rounded_def t_def canonical_def nonspecial_def)
  note S = dec_strip_spec [OF t1]
  have v: "dval (d_digits t1) (d_weight t1) = of_int \<lfloor>\<bar>dec_val d\<bar> + 1 / 2\<rfloor>" using r(2) abs_val [OF c] by (simp add: rounded_def t_def)
  have "\<bar>dec_val (dec_strip t1)\<bar> = \<bar>dec_val t1\<bar>" using S by simp
  also have "\<bar>dec_val t1\<bar> = dval (d_digits t1) (d_weight t1)" using dval_bound(1) [OF t1(3)] by (simp add: dec_val_def)
  finally have "dval (d_digits (dec_strip t1)) (d_weight (dec_strip t1)) = of_int \<lfloor>\<bar>dec_val d\<bar> + 1 / 2\<rfloor>" using abs_val [of "dec_strip t1"] S v by simp
  moreover have "d_digits (dec_strip t1) \<noteq> [] \<longrightarrow> d_digits t1 \<noteq> []" using t1(1) by (auto simp: dec_strip_def Let_def strip_trailing_def split: prod.splits)
  then have "d_digits (dec_strip t1) \<noteq> [] \<longrightarrow> d_sign (dec_strip t1) = d_sign d" using S r(2) by (auto simp: rounded_def t_def)
  ultimately show ?thesis using t(1) r(1) S by blast
qed

lemma to_long_spec:
  assumes c: "canonical d" and mem: "\<forall>n. mem n" and range: "- (2 ^ 63) \<le> nearest (dec_val d)" "nearest (dec_val d) < 2 ^ 63"
  shows "decimal_to_long mem d = nearest (dec_val d)"
proof -
  define R where "R = \<lfloor>\<bar>dec_val d\<bar> + 1 / 2\<rfloor>"
  obtain r t t1 where r: "decimal_copy mem d = Inr t" "decimal_round t 0 = Inr t1" "r = dec_strip t1" "canonical r" "stripped (d_digits r)" "dval (d_digits r) (d_weight r) = of_int R"
      "d_digits r \<noteq> [] \<longrightarrow> d_sign r = d_sign d"
    using rounded_copy [OF c mem] unfolding R_def by blast
  have near: "nearest (dec_val d) = (if dec_val d < 0 then - R else R)" by (simp add: nearest_def R_def)
  have ns: "\<not> decimal_is_special d" using canonical_rank [OF c] by simp
  show ?thesis
  proof (cases "d_digits r = []")
    case True
    then have "R = 0" using r(6) by simp
    then show ?thesis using near ns r(1-3) True by (simp add: decimal_to_long_def Let_def)
  next
    case False
    then obtain x xs where ds: "d_digits r = x # xs" by (cases "d_digits r") auto
    note W = whole_digits [OF r(4,5) False r(6)]
    have ok: "0 \<le> x" "x < 10000" "dig_ok xs" using r(4) ds by (auto simp: canonical_def)
    have w: "0 \<le> d_weight r" "length xs \<le> nat (d_weight r)" "nat (d_weight r + 1 - int (length (d_digits r))) = nat (d_weight r) - length xs" using W(1) ds by auto
    have "R = x * 10000 ^ nat (d_weight r) + num xs * 10000 ^ (nat (d_weight r) - length xs)"
      using W(2) w(2) unfolding w(3) by (simp add: ds distrib_right mult.assoc flip: power_add)
    moreover have pos: "0 < R" using canonical_pos [OF r(4) False] r(6) by simp
    have neg: "d_sign r = SDB_DECIMAL_NEG \<longleftrightarrow> dec_val d < 0"
    proof -
      have "dec_val d \<noteq> 0" using pos by (auto simp: R_def)
      then show ?thesis using sign_val [OF c] r(7) False by auto
    qed
    ultimately have "to_long_loop (nat (d_weight r)) (d_sign r = SDB_DECIMAL_NEG) xs x = Some (if R < 2 ^ 63 then R else - (2 ^ 63))"
      using ok range near by (intro to_long_loop_spec [OF ok(3) w(2) ok(1)]) auto
    moreover have "s64 (2 ^ 63) = - (2 ^ 63)" "R < 2 ^ 63 \<Longrightarrow> s64 (- R) = - R" using pos by (auto simp: s64_def intro!: s64_id [unfolded s64_def])
    ultimately show ?thesis using ns r(1,2) W(1) w(1) near neg range ds by (cases "dec_val d < 0"; cases "R < 2 ^ 63") (simp_all add: decimal_to_long_def Let_def flip: r(3))
  qed
qed

text \<open>The number of decimal places before the point is larger than \<open>M\<close> exactly for numbers of at least \<open>10 ^ M\<close>.\<close>

lemma digit_width:
  assumes "0 < (x::int)" "x < 10000" and k: "k = (if x < 10 then 3 else if x < 100 then 2 else if x < 1000 then 1 else 0 :: int)"
  shows "10 ^ nat (3 - k) \<le> x" "x < 10 ^ nat (4 - k)"
  using assms by (auto simp: k)

lemma powi_nat: "0 \<le> k \<Longrightarrow> (10::rat) powi k = of_int (10 ^ nat k)"
  by (simp add: power_int_def)

lemma over_digits_spec:
  assumes c: "canonical d" and ne: "d_digits d \<noteq> []"
  shows "over_digits d M \<longleftrightarrow> 10 powi M \<le> dval (d_digits d) (d_weight d)"
proof -
  obtain x xs where ds: "d_digits d = x # xs" using ne by (cases "d_digits d") auto
  define k where "k = (if x < 10 then 3 else if x < 100 then 2 else if x < 1000 then 1 else 0 :: int)"
  define dd where "dd = (d_weight d + 1) * 4 - k"
  have x: "0 < x" "x < 10000" "dig_ok (x # xs)" "x \<noteq> 0" using c ds by (auto simp: canonical_def)
  have k: "0 \<le> k" "k \<le> 3" by (auto simp: k_def)
  have p: "(10::rat) powi (3 - k) = of_int (10 ^ nat (3 - k))" "(10::rat) powi (4 - k) = of_int (10 ^ nat (4 - k))" using k by (simp_all only: powi_nat)
  have "(10::rat) powi (3 - k) \<le> of_int x" unfolding p of_int_le_iff using digit_width(1) [OF x(1,2) k_def] .
  then have "10 powi (3 - k) * 10 powi (4 * d_weight d) \<le> of_int x * (10::rat) powi (4 * d_weight d)" by (intro mult_right_mono) simp_all
  moreover have e: "dd - 1 = (3 - k) + 4 * d_weight d" "dd = (4 - k) + 4 * d_weight d" by (simp_all add: dd_def)
  moreover have "0 \<le> dval xs (d_weight d - 1)" using dval_bound(1) [of xs] x(3) by simp
  ultimately have lo: "10 powi (dd - 1) \<le> dval (d_digits d) (d_weight d)" unfolding ds e(1) powi10_add dval.simps powi_ten by linarith
  have "of_int (x + 1) \<le> (10::rat) powi (4 - k)" using digit_width(2) [OF x(1,2) k_def] unfolding p of_int_le_iff by simp
  then have "of_int (x + 1) * (10::rat) powi (4 * d_weight d) \<le> 10 powi (4 - k) * 10 powi (4 * d_weight d)" by (intro mult_right_mono) simp_all
  moreover have "dval xs (d_weight d - 1) < 10 powi (4 * d_weight d)" using dval_bound(2) [of xs "d_weight d - 1"] x(3) by (simp add: powi_ten)
  ultimately have hi: "dval (d_digits d) (d_weight d) < 10 powi dd" unfolding ds e(2) powi10_add by (simp add: powi_ten distrib_right)
  have "over_digits d M \<longleftrightarrow> dd > M" using x(4) k by (auto simp: over_digits_def ds Let_def dd_def k_def)
  also have "\<dots> \<longleftrightarrow> 10 powi M \<le> dval (d_digits d) (d_weight d)"
  proof
    assume "dd > M"
    then have "(10::rat) powi M \<le> 10 powi (dd - 1)" by (intro power_int_increasing) simp_all
    then show "10 powi M \<le> dval (d_digits d) (d_weight d)" using lo by simp
  next
    assume "10 powi M \<le> dval (d_digits d) (d_weight d)"
    then have "(10::rat) powi M < 10 powi dd" using hi by simp
    then show "dd > M" using power_int_increasing [of dd M "10::rat"] by linarith
  qed
  finally show ?thesis .
qed

lemma round_noop:
  assumes "d_isOwn d" "0 \<le> s" "int (length (d_digits d)) = d_weight d + 1"
  shows "decimal_round d s = Inr (d\<lparr>d_dscale := s\<rparr>)"
proof -
  define n where "n = (4 * int (length (d_digits d)) + s + 4 - 1) div 4"
  have n: "int (length (d_digits d)) \<le> n" "n = int (length (d_digits d)) \<Longrightarrow> s = 0" using assms(2) by (auto simp: n_def)
  then have C: "\<not> (nat n < length (d_digits d) \<or> nat n = length (d_digits d) \<and> (4 * int (length (d_digits d)) + s) mod 4 > 0)" by auto
  have E: "(d_weight d + 1) * 4 + s = 4 * int (length (d_digits d)) + s" and P: "\<not> 4 * int (length (d_digits d)) + s < 0" using assms(2,3) by auto
  show ?thesis by (simp only: decimal_round_def Let_def E n_def [symmetric] if_not_P [OF P] if_not_P [OF C] assms(1) not_True_eq_False if_False)
qed

definition fits :: "int \<Rightarrow> int \<Rightarrow> bool" where
  "fits typmod v \<longleftrightarrow> typmod = - 1 \<or> \<bar>of_int v :: rat\<bar> < 10 powi (typmod_precision typmod - typmod_scale typmod)"

lemma typmod_scale_nonneg: "0 \<le> typmod_scale t"
  by (simp add: typmod_scale_def)

text \<open>The decimal that is built before the precision is applied.\<close>

lemma long_decimal:
  assumes "v \<noteq> 0" "- (2 ^ 63) \<le> v" "v < 2 ^ 63" and u: "u = (if v < 0 then (- v) mod 2 ^ 64 else v)"
    and d: "d = d0\<lparr>d_isOwn := True, d_sign := (if v < 0 then SDB_DECIMAL_NEG else SDB_DECIMAL_POS), d_dscale := 0, d_front := f, d_digits := long_loop u [], d_weight := int (length (long_loop u [])) - 1\<rparr>"
  shows "canonical d" "dec_val d = of_int v" "d_digits d \<noteq> []" "int (length (d_digits d)) = d_weight d + 1" "length (long_loop u []) \<le> 5" "dval (d_digits d) (d_weight d) = \<bar>of_int v\<bar>"
proof -
  have ua: "u = \<bar>v\<bar>" using assms(2,3) by (auto simp: u)
  have u0: "0 < \<bar>v\<bar>" "\<bar>v\<bar> < 2 ^ 64" using assms(1-3) by auto
  note L = long_digits [of u, unfolded ua, OF u0, folded ua]
  show c: "canonical d" using L by (auto simp: d canonical_def nonspecial_def)
  show "d_digits d \<noteq> []" "int (length (d_digits d)) = d_weight d + 1" "length (long_loop u []) \<le> 5" using L by (auto simp: d)
  show a: "dval (d_digits d) (d_weight d) = \<bar>of_int v\<bar>" using L(2) by (simp add: d dval_num ua)
  show "dec_val d = of_int v" unfolding dec_val_def a by (simp add: d)
qed

text \<open>C17: \<open>decimal_from_long\<close> gives every 64-bit integer exactly, with the display scale of the precision the decimal has, and fails with -10 exactly when the integer has more places
  than that precision allows.  \<open>decimal_to_long\<close> gives it back.\<close>
theorem decimal_long_roundtrip:
  assumes "- (2 ^ 63) \<le> v" "v < 2 ^ 63" and "\<forall>n. mem n"
  shows "if fits (d_typemod d0) v \<or> v = 0
    then (\<exists>d. decimal_from_long mem fresh v d0 = Inr d \<and> canonical d \<and> dec_val d = of_int v
            \<and> d_dscale d = (if d_typemod d0 = - 1 \<or> v = 0 then 0 else typmod_scale (d_typemod d0)) \<and> decimal_to_long mem d = v)
    else decimal_from_long mem fresh v d0 = Inl (Rc (- 10))"
proof -
  have bk: "decimal_to_long mem d = v" if "canonical d" "dec_val d = of_int v" for d
  proof -
    have h: "\<lfloor>\<bar>of_int v :: rat\<bar> + 1 / 2\<rfloor> = \<bar>v\<bar>" by (rule floor_unique) auto
    have "nearest (dec_val d) = v" unfolding nearest_def that(2) h by auto
    then show ?thesis using to_long_spec [OF that(1) assms(3)] assms(1,2) by simp
  qed
  show ?thesis
  proof (cases "v = 0")
    case True
    have "decimal_from_long mem fresh v d0 = Inr (d0\<lparr>d_isOwn := True, d_front := [0], d_sign := SDB_DECIMAL_POS, d_dscale := 0, d_digits := [], d_weight := 0\<rparr>)" (is "_ = Inr ?z")
      using assms(3) True by (simp add: decimal_from_long_def dec_alloc_def Let_def)
    moreover have "canonical ?z" "dec_val ?z = of_int v" using True by (auto simp: canonical_def nonspecial_def dec_val_def)
    ultimately show ?thesis using bk True by simp
  next
    case False
    define u where "u = (if v < 0 then (- v) mod 2 ^ 64 else v)"
    define f where "f = rev (take (5 - length (long_loop u [])) (map fresh [0..<5])) @ [0]"
    define d where "d = d0\<lparr>d_isOwn := True, d_sign := (if v < 0 then SDB_DECIMAL_NEG else SDB_DECIMAL_POS), d_dscale := 0, d_front := f, d_digits := long_loop u [], d_weight := int (length (long_loop u [])) - 1\<rparr>"
    note L = long_decimal [OF False assms(1,2) u_def d_def]
    have fl: "decimal_from_long mem fresh v d0 = dec_apply_typmod d (d_typemod d0)"
      using assms(3) False L(5) by (simp add: decimal_from_long_def dec_alloc_def Let_def d_def f_def u_def)
    show ?thesis
    proof (cases "d_typemod d0 = - 1")
      case True
      then have "decimal_from_long mem fresh v d0 = Inr d" "d_dscale d = 0" using fl by (auto simp: dec_apply_typmod_def d_def)
      then show ?thesis using True L(1,2) bk by (simp add: fits_def)
    next
      case nt: False
      define s where "s = typmod_scale (d_typemod d0)"
      let ?d = "d\<lparr>d_dscale := s\<rparr>"
      have "decimal_round d s = Inr ?d" using L(4) typmod_scale_nonneg by (intro round_noop) (auto simp: d_def s_def)
      moreover have c: "canonical ?d" "d_digits ?d \<noteq> []" "dec_val ?d = of_int v" using L(1-3) by (auto simp: canonical_def nonspecial_def dec_val_def)
      moreover have "over_digits ?d M \<longleftrightarrow> 10 powi M \<le> \<bar>of_int v :: rat\<bar>" for M using over_digits_spec [OF c(1,2)] L(6) by simp
      ultimately show ?thesis using nt fl bk [OF c(1,3)] False by (auto simp: dec_apply_typmod_def fits_def s_def)
    qed
  qed
qed

theorem decimal_long_roundtrip_witness:
  "\<exists>d. decimal_from_long (\<lambda>n. True) (\<lambda>i. 7) (- 9223372036854775808) decimal_init = Inr d \<and> decimal_to_long (\<lambda>n. True) d = - 9223372036854775808"
  using decimal_long_roundtrip [of "- 9223372036854775808" "\<lambda>n. True" decimal_init "\<lambda>i. 7"] by (auto simp: fits_def decimal_init_def)

text \<open>Every conversion of a decimal whose nearest integer fits into 64 bits is that integer; the others are meant to be answered by 0.  But a negative magnitude of \<open>2 ^ 63 + 2 ^ 64\<close>
  wraps around to the one value that the test for an overflow accepts.\<close>

theorem to_long_accepts_overflow:
  "decimal_to_long (\<lambda>n. True) (decimal_init\<lparr>d_digits := [2767, 116, 1105, 6432, 7424], d_weight := 4, d_sign := SDB_DECIMAL_NEG\<rparr>) = - 9223372036854775808"
  by code_simp

end
