(* ===== verification/Bson_DecStr.thy ===== *)
theory Bson_DecStr
  imports Bson_DecInt
begin

text \<open>
  Decimals as text: \<open>decimal_to_str\<close> with the size it asks for (\<open>_decimal_sprint_len\<close>) and \<open>decimal_from_str\<close>.  What is written fits into that size, a numeral with sign, point and exponent
  is read as the number it denotes, and a decimal that is written is read back unchanged.
\<close>

section \<open>Writing\<close>

definition dec_sprint_len :: "int \<Rightarrow> int \<Rightarrow> int \<Rightarrow> int" where
  "dec_sprint_len sign weight scale =
     (if sign = SDB_DECIMAL_SPECIAL_SIGN \<and> scale \<in> {0, 1, 2} then 3 + 1
      else (let tmpSize = (weight + 1) * DECIMAL_DEC_DIGITS in (if tmpSize \<le> 0 then 1 else tmpSize) + scale + DECIMAL_DEC_DIGITS + 2))"

definition dc :: "int \<Rightarrow> char" where
  "dc n = char_of (nat (n + 48))"

text \<open>The four decimal places of a digit; leading zeros are left out unless \<open>putit\<close> is set.\<close>

definition put_digit :: "bool \<Rightarrow> int \<Rightarrow> string" where
  "put_digit putit dig =
     (let d1 = dig div 1000; dig1 = dig - d1 * 1000; p1 = (putit \<or> d1 > 0);
          d2 = dig1 div 100; dig2 = dig1 - d2 * 100; p2 = (p1 \<or> d2 > 0);
          d3 = dig2 div 10; dig3 = dig2 - d3 * 10; p3 = (p2 \<or> d3 > 0)
      in (if p1 then [dc d1] else []) @ (if p2 then [dc d2] else []) @ (if p3 then [dc d3] else []) @ [dc dig3])"

definition int_part :: "bson_decimal \<Rightarrow> string" where
  "int_part d = (if d_weight d < 0 then [dc 0] else concat (map (\<lambda>j. put_digit (j > 0) (cell (d_digits d) (int j))) [0..<nat (d_weight d + 1)]))"

text \<open>Whole digits behind the point, at least as many places as are shown.\<close>

definition frac_part :: "bson_decimal \<Rightarrow> string" where
  "frac_part d = concat (map (\<lambda>j. put_digit True (cell (d_digits d) (d_weight d + 1 + int j))) [0..<nat ((d_dscale d + 3) div 4)])"

text \<open>The text and the number of bytes of the buffer that were written, the final 0 included.\<close>

definition decimal_to_str :: "bson_decimal \<Rightarrow> int \<Rightarrow> (string \<times> nat) dec_res" where
  "decimal_to_str d value_size =
     (if dec_sprint_len (d_sign d) (d_weight d) (d_dscale d) > value_size then Inl (Rc (- 6))
      else if decimal_is_nan d then Inr (''NaN'', 4)
      else if decimal_is_min d then Inr (''MIN'', 4)
      else if decimal_is_max d then Inr (''MAX'', 4)
      else (let front = (if d_sign d = SDB_DECIMAL_NEG then ''-'' else []) @ int_part d in
        if d_dscale d > 0
        then (let s = front @ ''.'' @ take (nat (d_dscale d)) (frac_part d) in Inr (s, max (length front + 1 + length (frac_part d)) (length s + 1)))
        else Inr (front, length front + 1)))"

section \<open>Reading\<close>

definition is_digit :: "char \<Rightarrow> bool" where
  "is_digit c \<longleftrightarrow> 48 \<le> (of_char c :: nat) \<and> (of_char c :: nat) \<le> 57"

definition digit_val :: "char \<Rightarrow> int" where
  "digit_val c = int (of_char c :: nat) - 48"

definition either :: "char \<Rightarrow> char \<Rightarrow> char \<Rightarrow> bool" where
  "either c a b \<longleftrightarrow> c = a \<or> c = b"

definition special_str :: "string \<Rightarrow> bson_decimal option" where
  "special_str cp =
     (if length cp = 3 \<and> either (cp ! 0) CHR ''n'' CHR ''N'' \<and> either (cp ! 1) CHR ''a'' CHR ''A'' \<and> either (cp ! 2) CHR ''n'' CHR ''N'' then Some decimal_set_nan
      else if length cp = 3 \<and> either (cp ! 0) CHR ''m'' CHR ''M'' \<and> either (cp ! 1) CHR ''i'' CHR ''I'' \<and> either (cp ! 2) CHR ''n'' CHR ''N'' then Some decimal_set_min
      else if length cp = 3 \<and> either (cp ! 0) CHR ''m'' CHR ''M'' \<and> either (cp ! 1) CHR ''a'' CHR ''A'' \<and> either (cp ! 2) CHR ''x'' CHR ''X'' then Some decimal_set_max
      else if length cp = 3 \<and> either (cp ! 0) CHR ''i'' CHR ''I'' \<and> either (cp ! 1) CHR ''n'' CHR ''N'' \<and> either (cp ! 2) CHR ''f'' CHR ''F'' then Some decimal_set_max
      else if length cp = 4 \<and> cp ! 0 = CHR ''-'' \<and> either (cp ! 1) CHR ''i'' CHR ''I'' \<and> either (cp ! 2) CHR ''n'' CHR ''N'' \<and> either (cp ! 3) CHR ''f'' CHR ''F'' then Some decimal_set_min
      else None)"

text \<open>The digits up to the first other character, the last one first, with the number of places before and behind the point.\<close>

fun scan :: "string \<Rightarrow> bool \<Rightarrow> int list \<Rightarrow> int \<Rightarrow> int \<Rightarrow> (string \<times> int list \<times> int \<times> int) dec_res" where
  "scan [] have_dp ds dweight dscale = Inr ([], ds, dweight, dscale)"
| "scan (c # cp) have_dp ds dweight dscale =
     (if is_digit c
      then (if \<not> have_dp
            then (if dweight + 1 > DECIMAL_MAX_DWEIGHT + DECIMAL_MAX_PRECISION then Inl (Rc (- 6)) else scan cp have_dp (digit_val c # ds) (dweight + 1) dscale)
            else (if dscale + 1 > DECIMAL_MAX_DSCALE + DECIMAL_MAX_PRECISION then Inl (Rc (- 6)) else scan cp have_dp (digit_val c # ds) dweight (dscale + 1)))
      else if c = CHR ''.'' then (if have_dp then Inl (Rc (- 6)) else scan cp True ds dweight dscale)
      else Inr (c # cp, ds, dweight, dscale))"

text \<open>\<open>strtoll\<close> to the base 10: white space, a sign and digits; nothing when there is no digit.\<close>

definition is_space :: "char \<Rightarrow> bool" where
  "is_space c \<longleftrightarrow> (of_char c :: nat) = 32 \<or> 9 \<le> (of_char c :: nat) \<and> (of_char c :: nat) \<le> 13"

definition strtoll :: "string \<Rightarrow> (int \<times> string) option" where
  "strtoll cp =
     (let s = dropWhile is_space cp;
          neg = (s \<noteq> [] \<and> hd s = CHR ''-'');
          t = (if s \<noteq> [] \<and> either (hd s) CHR ''-'' CHR ''+'' then tl s else s);
          ds = takeWhile is_digit t;
          v = fold (\<lambda>c a. a * 10 + digit_val c) ds 0
      in if ds = [] then None
         else Some (if neg then max (- v) (- (2 ^ 63)) else min v (2 ^ 63 - 1), dropWhile is_digit t))"

definition read_exponent :: "string \<Rightarrow> int \<Rightarrow> int \<Rightarrow> (string \<times> int \<times> int) dec_res" where
  "read_exponent cp dweight dscale =
     (if cp \<noteq> [] \<and> either (hd cp) CHR ''e'' CHR ''E''
      then (case strtoll (tl cp) of
              None \<Rightarrow> Inl (Rc (- 6))
            | Some (e, rest) \<Rightarrow>
                if e > DECIMAL_MAX_PRECISION \<or> e < - DECIMAL_MAX_PRECISION then Inl (Rc (- 6))
                else Inr (rest, dweight + e, if dscale - e < 0 then 0 else dscale - e))
      else Inr (cp, dweight, dscale))"

fun pack :: "nat \<Rightarrow> int list \<Rightarrow> int list" where
  "pack (Suc n) (a # b # c # d # xs) = (((a * 10 + b) * 10 + c) * 10 + d) # pack n xs"
| "pack n xs = []"

text \<open>The decimal from its decimal places; \<open>ds\<close> lies in a buffer with four zeros in front and three behind.\<close>

definition build :: "(nat \<Rightarrow> bool) \<Rightarrow> int \<Rightarrow> int list \<Rightarrow> int \<Rightarrow> int \<Rightarrow> bson_decimal \<Rightarrow> bson_decimal dec_res" where
  "build mem sign ds dweight dscale d =
     (let weight = (if dweight \<ge> 0 then (dweight + 1 + DECIMAL_DEC_DIGITS - 1) div DECIMAL_DEC_DIGITS - 1 else - ((- dweight - 1) div DECIMAL_DEC_DIGITS + 1));
          offset = (weight + 1) * DECIMAL_DEC_DIGITS - (dweight + 1);
          ndigits = nat ((int (length ds) + offset + DECIMAL_DEC_DIGITS - 1) div DECIMAL_DEC_DIGITS)
      in case dec_alloc mem (pack ndigits (drop (nat (DECIMAL_DEC_DIGITS - offset)) (replicate 4 0 @ ds @ replicate 3 0))) d of
           Inl err \<Rightarrow> Inl err
         | Inr d0 \<Rightarrow> bounded (dec_apply_typmod (dec_strip (d0\<lparr>d_sign := sign, d_weight := weight, d_dscale := dscale\<rparr>)) (d_typemod d)))"

text \<open>The buffer for the decimal places is used without a test that it could be allocated.\<close>

definition decimal_from_str :: "(nat \<Rightarrow> bool) \<Rightarrow> string \<Rightarrow> bson_decimal \<Rightarrow> bson_decimal dec_res" where
  "decimal_from_str mem value d =
     (case special_str value of
        Some s \<Rightarrow> Inr s
      | None \<Rightarrow>
          (let sign = (if value \<noteq> [] \<and> hd value = CHR ''-'' then SDB_DECIMAL_NEG else SDB_DECIMAL_POS);
               cp1 = (if value \<noteq> [] \<and> either (hd value) CHR ''+'' CHR ''-'' then tl value else value);
               have_dp = (cp1 \<noteq> [] \<and> hd cp1 = CHR ''.'');
               cp = (if have_dp then tl cp1 else cp1)
           in if cp = [] \<or> \<not> is_digit (hd cp) then Inl (Rc (- 6))
              else if \<not> mem (length cp + 8) then Inl OutOfBuffer
              else (case scan cp have_dp [] (- 1) 0 of
                      Inl err \<Rightarrow> Inl err
                    | Inr (cp2, rds, dweight0, dscale0) \<Rightarrow>
                        (case read_exponent cp2 dweight0 dscale0 of
                           Inl err \<Rightarrow> Inl err
                         | Inr (rest, dweight, dscale) \<Rightarrow>
                             if dweight \<ge> DECIMAL_MAX_DWEIGHT \<or> dscale > DECIMAL_MAX_DSCALE then Inl (Rc (- 6))
                             else if rest \<noteq> [] then Inl (Rc (- 6))
                             else build mem sign (rev rds) dweight dscale d))))"

section \<open>Decimal places\<close>

definition places :: "int list \<Rightarrow> bool" where
  "places ds \<longleftrightarrow> (\<forall>x\<in>set ds. 0 \<le> x \<and> x \<le> 9)"

lemma places_simps [simp]: "places []" "places (x # xs) \<longleftrightarrow> 0 \<le> x \<and> x \<le> 9 \<and> places xs" "places (xs @ ys) \<longleftrightarrow> places xs \<and> places ys" "places (replicate k 0)"
  by (auto simp: places_def)

lemma places_take: "places ds \<Longrightarrow> places (take n ds)" and places_drop: "places ds \<Longrightarrow> places (drop n ds)"
  by (auto simp: places_def dest: in_set_takeD in_set_dropD)

fun num10 :: "int list \<Rightarrow> int" where
  "num10 [] = 0"
| "num10 (x # xs) = x * 10 ^ length xs + num10 xs"

lemma num10_append: "num10 (xs @ ys) = num10 xs * 10 ^ length ys + num10 ys"
  by (induction xs) (simp_all add: power_add algebra_simps)

lemma num10_zeros [simp]: "num10 (replicate k 0) = 0"
  by (induction k) auto

lemma num10_bound: "places ds \<Longrightarrow> 0 \<le> num10 ds \<and> num10 ds < 10 ^ length ds"
proof (induction ds)
  case (Cons x xs)
  then have "num10 xs < 10 ^ length xs" "0 \<le> num10 xs" "0 \<le> x" "x \<le> 9" by auto
  moreover have "x * 10 ^ length xs \<le> 9 * 10 ^ length xs" using \<open>x \<le> 9\<close> by (rule mult_right_mono) simp
  moreover have "0 \<le> x * 10 ^ length xs" using \<open>0 \<le> x\<close> by simp
  ultimately show ?case unfolding num10.simps list.size power_Suc add_Suc_right add_0_right by linarith
qed simp

lemma pack_spec: "4 * n \<le> length xs \<Longrightarrow> places xs \<Longrightarrow> length (pack n xs) = n \<and> dig_ok (pack n xs) \<and> num (pack n xs) = num10 (take (4 * n) xs)"
proof (induction n arbitrary: xs)
  case (Suc n)
  obtain a b c d ys where xs: "xs = a # b # c # d # ys" using Suc.prems(1) by (cases xs; cases "tl xs"; cases "tl (tl xs)"; cases "tl (tl (tl xs))") auto
  have IH: "length (pack n ys) = n" "dig_ok (pack n ys)" "num (pack n ys) = num10 (take (4 * n) ys)" using Suc.IH [of ys] Suc.prems by (auto simp: xs)
  have l: "length (take (4 * n) ys) = 4 * n" using Suc.prems(1) by (simp add: xs)
  have p: "(10::int) ^ (4 * n) = 10000 ^ n" by (simp add: power_mult)
  have t: "take (4 * Suc n) xs = [a, b, c, d] @ take (4 * n) ys" by (simp add: xs eval_nat_numeral)
  have "num10 ([a, b, c, d] @ take (4 * n) ys) = (((a * 10 + b) * 10 + c) * 10 + d) * 10000 ^ n + num10 (take (4 * n) ys)"
    unfolding num10_append l p by simp
  then show ?case unfolding t using IH Suc.prems(2) by (simp add: xs)
qed simp

lemma dc_digit: "0 \<le> n \<Longrightarrow> n \<le> 9 \<Longrightarrow> is_digit (dc n) \<and> digit_val (dc n) = n"
  by (auto simp: is_digit_def digit_val_def dc_def of_char_of)

lemma put_digit_spec:
  assumes "0 \<le> x" "x < 10000"
  shows "\<exists>D. put_digit p x = map dc D \<and> places D \<and> num10 D = x \<and> D \<noteq> [] \<and> length D \<le> 4 \<and> (p \<longrightarrow> length D = 4)"
proof -
  define d1 where "d1 = x div 1000"
  define x1 where "x1 = x - d1 * 1000"
  define d2 where "d2 = x1 div 100"
  define x2 where "x2 = x1 - d2 * 100"
  define d3 where "d3 = x2 div 10"
  define x3 where "x3 = x2 - d3 * 10"
  have b: "0 \<le> d1" "d1 \<le> 9" "0 \<le> x1" "x1 < 1000" using assms by (auto simp: d1_def x1_def)
  then have c: "0 \<le> d2" "d2 \<le> 9" "0 \<le> x2" "x2 < 100" by (auto simp: d2_def x2_def)
  then have d: "0 \<le> d3" "d3 \<le> 9" "0 \<le> x3" "x3 \<le> 9" by (auto simp: d3_def x3_def)
  have x: "x = d1 * 1000 + d2 * 100 + d3 * 10 + x3" by (simp add: x1_def x2_def x3_def)
  define D where "D = (if p \<or> d1 > 0 then [d1] else []) @ (if p \<or> d1 > 0 \<or> d2 > 0 then [d2] else []) @ (if p \<or> d1 > 0 \<or> d2 > 0 \<or> d3 > 0 then [d3] else []) @ [x3]"
  have "put_digit p x = map dc D" by (simp add: put_digit_def Let_def D_def d1_def x1_def d2_def x2_def d3_def x3_def)
  moreover have "places D" "num10 D = x" "D \<noteq> []" "length D \<le> 4" "p \<longrightarrow> length D = 4" using b c d x by (auto simp: D_def)
  ultimately show ?thesis by blast
qed

section \<open>The text of a decimal\<close>

lemma num_cells: "num (map (\<lambda>j. cell ds (a + int j)) [0..<k]) = win ds (a + int k) k"
  by (induction k) (simp_all add: num_append)

lemma cells_ok: "dig_ok ds \<Longrightarrow> dig_ok (map (\<lambda>j. cell ds (a + int j)) [0..<k])"
  using cell_ok [of ds] by (auto simp: dig_ok_def)

text \<open>A run of digits, written out with all their places.\<close>

lemma put_digits:
  "dig_ok cs \<Longrightarrow> \<exists>D. concat (map (put_digit True) cs) = map dc D \<and> places D \<and> num10 D = num cs \<and> length D = 4 * length cs"
proof (induction cs)
  case (Cons x xs)
  obtain D where D: "concat (map (put_digit True) xs) = map dc D" "places D" "num10 D = num xs" "length D = 4 * length xs" using Cons by auto
  obtain E where E: "put_digit True x = map dc E" "places E" "num10 E = x" "length E = 4" using put_digit_spec [of x True] Cons.prems by auto
  have "num10 (E @ D) = num (x # xs)" using D E by (simp add: num10_append power_mult)
  then show ?case using D E by (intro exI [of _ "E @ D"]) auto
qed (auto intro: exI [of _ "[]"])

lemma upt_head: "0 < n \<Longrightarrow> [0..<n] = 0 # map Suc [0..<n - 1]"
  by (cases n) (simp_all add: upt_conv_Cons map_Suc_upt)

lemma int_part_spec:
  assumes "dig_ok (d_digits d)"
  shows "\<exists>D. int_part d = map dc D \<and> places D \<and> D \<noteq> [] \<and> num10 D = win (d_digits d) (d_weight d + 1) (nat (d_weight d + 1)) \<and> int (length D) \<le> max 1 (4 * (d_weight d + 1))"
proof (cases "d_weight d < 0")
  case True
  then show ?thesis by (intro exI [of _ "[0]"]) (simp add: int_part_def)
next
  case False
  let ?c = "\<lambda>j. cell (d_digits d) (int j)" and ?n = "nat (d_weight d + 1)"
  have n: "0 < ?n" "int ?n = d_weight d + 1" using False by auto
  define xs where "xs = map (\<lambda>j. ?c (Suc j)) [0..<?n - 1]"
  have all: "map ?c [0..<?n] = ?c 0 # xs" using n by (simp add: upt_head xs_def)
  have ok: "dig_ok (?c 0 # xs)" using cells_ok [OF assms, of 0 ?n] all by simp
  obtain E where E: "put_digit False (?c 0) = map dc E" "places E" "num10 E = ?c 0" "E \<noteq> []" "length E \<le> 4" using put_digit_spec [of "?c 0" False] ok by auto
  obtain D where D: "concat (map (put_digit True) xs) = map dc D" "places D" "num10 D = num xs" "length D = 4 * length xs" using put_digits [of xs] ok by auto
  have "int_part d = put_digit False (?c 0) @ concat (map (put_digit True) xs)" using False n by (simp add: int_part_def upt_head xs_def comp_def)
  then have "int_part d = map dc (E @ D)" using D E by simp
  moreover have "num10 (E @ D) = num (?c 0 # xs)" using D E by (simp add: num10_append power_mult)
  moreover have "num (?c 0 # xs) = win (d_digits d) (d_weight d + 1) ?n" using num_cells [of "d_digits d" 0 ?n] all n by simp
  moreover have "int (length (E @ D)) \<le> 4 * (d_weight d + 1)" using D(4) E(5) n by (simp add: xs_def)
  ultimately show ?thesis using D(2) E(2,4) by (intro exI [of _ "E @ D"]) simp
qed

lemma win_extend: "win ds (i + int c) (k + c) = win ds i k * DECIMAL_NBASE ^ c + win ds (i + int c) c"
  by (induction c) (simp_all add: algebra_simps)

lemma frac_part_spec:
  assumes "dig_ok (d_digits d)" and c: "c = nat ((d_dscale d + 3) div 4)"
  shows "\<exists>D. frac_part d = map dc D \<and> places D \<and> num10 D = win (d_digits d) (d_weight d + 1 + int c) c \<and> length D = 4 * c"
proof -
  let ?cs = "map (\<lambda>j. cell (d_digits d) (d_weight d + 1 + int j)) [0..<c]"
  have "frac_part d = concat (map (put_digit True) ?cs)" by (simp add: frac_part_def c comp_def)
  then show ?thesis using put_digits [OF cells_ok [OF assms(1), of "d_weight d + 1" c]] num_cells [of "d_digits d" "d_weight d + 1" c] by simp
qed

text \<open>The places that are shown make the number in units of the last of them.\<close>

lemma printed:
  assumes c: "canonical d" "stripped (d_digits d)" "d_digits d = [] \<longrightarrow> d_weight d = 0" and s: "0 \<le> d_dscale d" and v: "dval (d_digits d) (d_weight d) = of_int k * 10 powi (- d_dscale d)"
  shows "\<exists>D1 D2. int_part d = map dc D1 \<and> take (nat (d_dscale d)) (frac_part d) = map dc D2 \<and> places D1 \<and> places D2 \<and> D1 \<noteq> [] \<and> int (length D1) \<le> max 1 (4 * (d_weight d + 1))
    \<and> length D2 = nat (d_dscale d) \<and> num10 (D1 @ D2) = k"
proof -
  define n where "n = nat ((d_dscale d + 3) div 4)"
  define s where "s = nat (d_dscale d)"
  let ?ds = "d_digits d" and ?w = "d_weight d"
  have ok: "dig_ok ?ds" using c(1) by (simp add: canonical_def)
  obtain D where D: "int_part d = map dc D" "places D" "D \<noteq> []" "num10 D = win ?ds (?w + 1) (nat (?w + 1))" "int (length D) \<le> max 1 (4 * (?w + 1))" using int_part_spec [OF ok] by blast
  obtain F where F: "frac_part d = map dc F" "places F" "num10 F = win ?ds (?w + 1 + int n) n" "length F = 4 * n" using frac_part_spec [OF ok n_def] by blast
  have sn: "s \<le> 4 * n" "int s = d_dscale d" using assms(4) by (auto simp: s_def n_def)
  have len: "int (length ?ds) \<le> ?w + 1 + int n"
  proof (cases "?ds = []")
    case False
    have "shown d" using assms(4,5) by (auto simp: shown_def)
    then have "4 * (int (length ?ds) - ?w - 1) \<le> d_dscale d + 3" using stripped_shown [OF c(1,2) _ False] by simp
    moreover have "int n = (d_dscale d + 3) div 4" using assms(4) by (simp add: n_def)
    ultimately show ?thesis by presburger
  qed (use c(3) in simp)
  have "num10 (D @ F) = win ?ds (?w + 1 + int n) (nat (?w + 1) + n)" using D(4) F(3,4) win_extend [of ?ds "?w + 1" n "nat (?w + 1)"] by (simp add: num10_append power_mult)
  also have "\<dots> = num ?ds * DECIMAL_NBASE ^ nat (?w + 1 + int n - int (length ?ds))" using len by (intro win_all) auto
  finally have K: "num10 (D @ F) = num ?ds * DECIMAL_NBASE ^ nat (?w + 1 + int n - int (length ?ds))" .
  have e: "?w + 1 + int n = int n + ?w + 1" by simp
  then have "of_int (num10 (D @ F)) * (10000::rat) powi (- int n) = of_int k * 10 powi (- int s)" using scaled_val [of ?ds "int n" ?w] len [unfolded e] v sn(2) unfolding K [unfolded e] by simp
  then have A: "of_int (num10 (D @ F)) * ((10000::rat) powi (- int n) * 10000 powi int n) = of_int k * (10 powi (- int s) * 10000 powi int n)" by (simp only: mult.assoc [symmetric])
  have B: "(10000::rat) powi (- int n) * 10000 powi int n = 1" using powi_add [of "- int n" "int n"] by simp
  have C: "(10::rat) powi (- int s) * 10000 powi int n = 10 ^ (4 * n - s)"
  proof -
    have "- int s + 4 * int n = int (4 * n - s)" using sn(1) by simp
    then show ?thesis unfolding powi_ten using powi10_add [of "- int s" "4 * int n"] by (metis power_int_of_nat)
  qed
  have "(of_int (num10 (D @ F)) :: rat) = of_int (k * 10 ^ (4 * n - s))" using A unfolding B C by simp
  then have KF: "num10 (D @ F) = k * 10 ^ (4 * n - s)" by (simp only: of_int_eq_iff)
  define P where "P = (10::int) ^ (4 * n - s)"
  have "D @ F = (D @ take s F) @ drop s F" by simp
  then have "num10 (D @ F) = num10 (D @ take s F) * P + num10 (drop s F)" using num10_append [of "D @ take s F" "drop s F"] F(4) by (simp only: P_def length_drop)
  moreover have "0 \<le> num10 (drop s F)" "num10 (drop s F) < P" using num10_bound [OF places_drop [OF F(2), of s]] F(4) by (auto simp: P_def)
  ultimately have "num10 (D @ take s F) = k" using KF by (metis P_def div_mult_self3 div_pos_pos_trivial add.commute add_0 div_mult_self_is_m less_irrefl nonzero_mult_div_cancel_right order_le_less_trans)
  then show ?thesis using D F sn(1) places_take [OF F(2), of s] by (intro exI [of _ D] exI [of _ "take s F"]) (simp add: take_map s_def [symmetric])
qed

text \<open>C19: When the buffer has the size \<open>decimal_to_str_get_len\<close> asks for, \<open>decimal_to_str\<close> succeeds and never writes behind it, the places behind the point that are written and cut off
  again and the final 0 included.\<close>
theorem decimal_to_str_fits:
  assumes "dig_ok (d_digits d)" and "0 \<le> d_dscale d" and "value_size = dec_sprint_len (d_sign d) (d_weight d) (d_dscale d)"
  shows "\<exists>s n. decimal_to_str d value_size = Inr (s, n) \<and> length s < n \<and> int n \<le> value_size"
proof -
  obtain D where D: "int_part d = map dc D" "int (length D) \<le> max 1 (4 * (d_weight d + 1))" using int_part_spec [OF assms(1)] by blast
  obtain F where F: "frac_part d = map dc F" "length F = 4 * nat ((d_dscale d + 3) div 4)" using frac_part_spec [OF assms(1) refl] by blast
  have "4 * ((d_dscale d + 3) div 4) \<le> d_dscale d + 3" by presburger
  then have f: "int (length F) \<le> d_dscale d + 3" using F(2) assms(2) by simp
  show ?thesis
  proof (cases "decimal_is_nan d \<or> decimal_is_min d \<or> decimal_is_max d")
    case True
    then show ?thesis by (auto simp: decimal_to_str_def assms(3) dec_sprint_len_def decimal_is_nan_def decimal_is_min_def decimal_is_max_def decimal_is_special_def)
  next
    case False
    define sg where "sg = (if d_sign d = SDB_DECIMAL_NEG then ''-'' else [])"
    have "length sg \<le> 1" by (simp add: sg_def)
    moreover have "max 1 (4 * (d_weight d + 1)) + d_dscale d + 6 \<le> value_size"
      using False assms(2) by (auto simp: assms(3) dec_sprint_len_def Let_def decimal_is_nan_def decimal_is_min_def decimal_is_max_def decimal_is_special_def)
    ultimately show ?thesis using False D f assms(2) F(1) unfolding decimal_to_str_def assms(3) [symmetric] sg_def [symmetric] by (simp add: Let_def) (auto simp: max_def)
  qed
qed

theorem decimal_to_str_fits_witness:
  "\<exists>s n. decimal_to_str (decimal_init\<lparr>d_digits := [12, 5000], d_dscale := 1, d_sign := SDB_DECIMAL_NEG\<rparr>) 11 = Inr (s, n) \<and> length s < n \<and> int n \<le> 11 \<and> s = ''-12.5'' \<and> n = 8"
proof -
  let ?d = "decimal_init\<lparr>d_digits := [12, 5000], d_dscale := 1, d_sign := SDB_DECIMAL_NEG\<rparr>"
  have "\<exists>s n. decimal_to_str ?d 11 = Inr (s, n) \<and> length s < n \<and> int n \<le> 11" by (rule decimal_to_str_fits) (simp_all add: decimal_init_def dec_sprint_len_def)
  moreover have "decimal_to_str ?d 11 = Inr (''-12.5'', 8)" by code_simp
  ultimately show ?thesis by auto
qed

section \<open>The number that is read\<close>

lemma scan_digits:
  "places D \<Longrightarrow> (\<not> dp \<longrightarrow> w + int (length D) \<le> 132072) \<Longrightarrow> (dp \<longrightarrow> s + int (length D) \<le> 17383) \<Longrightarrow>
    scan (map dc D @ rest) dp acc w s = scan rest dp (rev D @ acc) (if dp then w else w + int (length D)) (if dp then s + int (length D) else s)"
proof (induction D arbitrary: acc w s)
  case (Cons x D)
  then show ?case using dc_digit [of x] Cons.IH [of "w + 1" s "x # acc"] Cons.IH [of w "s + 1" "x # acc"] by (cases dp) (auto simp: algebra_simps)
qed simp

lemma weight_offset:
  fixes dweight :: int
  assumes w: "weight = (if dweight \<ge> 0 then (dweight + 1 + 4 - 1) div 4 - 1 else - ((- dweight - 1) div 4 + 1))"
  shows "dweight + 1 \<le> (weight + 1) * 4" "(weight + 1) * 4 \<le> dweight + 4"
  using w by (auto split: if_splits)

lemma drop_zeros: "i \<le> 4 \<Longrightarrow> drop (4 - i) (replicate 4 0 @ ds) = replicate i (0::int) @ ds"
  by simp

lemma build_digits:
  assumes p: "places ds" and o: "0 \<le> off" "off \<le> 3" and n: "n = nat ((int (length ds) + off + 4 - 1) div 4)"
  defines "Q \<equiv> pack n (drop (nat (4 - off)) (replicate 4 0 @ ds @ replicate 3 0))"
  shows "dig_ok Q" "length Q = n" "num Q * 10 ^ nat (int (length ds) + off) = num10 ds * 10 ^ (4 * n)"
proof -
  let ?o = "nat off"
  define xs where "xs = replicate ?o (0::int) @ ds @ replicate 3 0"
  have dz: "drop (nat (4 - off)) (replicate 4 0 @ ds @ replicate 3 0) = xs"
  proof -
    have "nat (4 - off) = 4 - ?o" using o by simp
    then show ?thesis using drop_zeros [of ?o "ds @ replicate 3 0"] o by (simp add: xs_def)
  qed
  define r where "r = 4 * n - (length ds + ?o)"
  have "int (length ds) + off \<le> 4 * int n" "4 * int n \<le> int (length ds) + off + 3" using o(1) unfolding n by (simp_all, presburger+)
  then have r: "4 * n = length ds + ?o + r" "r \<le> 3" using o by (auto simp: r_def)
  have t: "take (4 * n) xs = replicate ?o 0 @ ds @ replicate r 0" using r by (simp add: xs_def min_def)
  have "places xs" "4 * n \<le> length xs" using p r by (auto simp: xs_def)
  from pack_spec [OF this(2,1)] have P: "length Q = n" "dig_ok Q" "num Q = num10 (take (4 * n) xs)" unfolding Q_def dz by auto
  then show "dig_ok Q" "length Q = n" by auto
  have "nat (int (length ds) + off) = length ds + ?o" using o by simp
  moreover have "num Q = num10 ds * 10 ^ r" unfolding P(3) t by (simp add: num10_append)
  ultimately show "num Q * 10 ^ nat (int (length ds) + off) = num10 ds * 10 ^ (4 * n)" unfolding r(1) by (simp add: power_add)
qed

lemma build_spec:
  assumes p: "places ds" and lim: "dweight < DECIMAL_MAX_DWEIGHT" "dscale \<le> DECIMAL_MAX_DSCALE" and t: "d_typemod d = - 1" and mem: "\<forall>n. mem n" and sg: "sign = SDB_DECIMAL_POS \<or> sign = SDB_DECIMAL_NEG"
  shows "\<exists>d'. build mem sign ds dweight dscale d = Inr d' \<and> canonical d' \<and> stripped (d_digits d') \<and> d_dscale d' = dscale
    \<and> dec_val d' = (if sign = SDB_DECIMAL_NEG then - 1 else 1) * (of_int (num10 ds) * 10 powi (dweight + 1 - int (length ds)))"
proof -
  define weight where "weight = (if dweight \<ge> 0 then (dweight + 1 + 4 - 1) div 4 - 1 else - ((- dweight - 1) div 4 + 1))"
  define off where "off = (weight + 1) * 4 - (dweight + 1)"
  define n where "n = nat ((int (length ds) + off + 4 - 1) div 4)"
  define Q where "Q = pack n (drop (nat (4 - off)) (replicate 4 0 @ ds @ replicate 3 0))"
  have o: "0 \<le> off" "off \<le> 3" using weight_offset [OF weight_def] by (auto simp: off_def)
  note B = build_digits [OF p o n_def, folded Q_def]
  define d1 where "d1 = d\<lparr>d_isOwn := True, d_front := [0], d_digits := Q, d_sign := sign, d_weight := weight, d_dscale := dscale\<rparr>"
  have own: "d_isOwn d1" "nonspecial d1" "dig_ok (d_digits d1)" using B(1) sg by (auto simp: d1_def nonspecial_def)
  note S = dec_strip_spec [OF own]
  have "(weight + 1) * 4 \<le> 131075" using weight_offset(2) [OF weight_def] lim(1) by simp
  then have "\<not> dec_is_out_of_bound (dec_strip d1)" using S lim(2) by (auto simp: dec_is_out_of_bound_def d1_def)
  then have b: "build mem sign ds dweight dscale d = Inr (dec_strip d1)"
    using mem t unfolding build_def Let_def weight_def [symmetric] off_def [symmetric] n_def [symmetric] Q_def [symmetric]
    by (simp add: dec_alloc_def dec_apply_typmod_def bounded_def d1_def)
  have "dval Q weight = of_int (num10 ds) * 10 powi (dweight + 1 - int (length ds))"
  proof -
    let ?L = "nat (int (length ds) + off)"
    have "(of_int (num Q * 10 ^ ?L) :: rat) = of_int (num10 ds * 10 ^ (4 * n))" by (simp only: B(3))
    then have "(of_int (num Q) :: rat) * 10 ^ ?L = of_int (num10 ds) * 10 ^ (4 * n)" by (simp only: of_int_mult of_int_power of_int_numeral)
    then have "(of_int (num Q) :: rat) * 10 powi (int (length ds) + off) = of_int (num10 ds) * 10 powi (4 * int n)" using o by (simp add: power_int_def nat_mult_distrib)
    then have A: "of_int (num Q) * ((10::rat) powi (int (length ds) + off) * 10 powi (dweight + 1 - int (length ds) - 4 * int n)) = of_int (num10 ds) * (10 powi (4 * int n) * 10 powi (dweight + 1 - int (length ds) - 4 * int n))"
      by (simp only: mult.assoc [symmetric])
    have e: "int (length ds) + off + (dweight + 1 - int (length ds) - 4 * int n) = 4 * (weight + 1 - int n)" "4 * int n + (dweight + 1 - int (length ds) - 4 * int n) = dweight + 1 - int (length ds)"
      by (simp_all add: off_def)
    show ?thesis unfolding dval_num B(2) powi_ten using A unfolding powi10_add [symmetric] e by simp
  qed
  then have "dec_val d1 = (if sign = SDB_DECIMAL_NEG then - 1 else 1) * (of_int (num10 ds) * 10 powi (dweight + 1 - int (length ds)))" by (simp add: dec_val_def d1_def)
  then show ?thesis using b S by (auto simp: d1_def)
qed

section \<open>Numerals\<close>

text \<open>The text of an exponent: nothing, or \<open>e\<close> with an optional sign and digits.\<close>

definition exponent_str :: "string \<Rightarrow> int \<Rightarrow> bool" where
  "exponent_str tail e \<longleftrightarrow> tail = [] \<and> e = 0
     \<or> (\<exists>c esg E. either c CHR ''e'' CHR ''E'' \<and> tail = c # esg @ map dc E \<and> places E \<and> E \<noteq> [] \<and> (esg = ''-'' \<and> e = - num10 E \<or> (esg = [] \<or> esg = ''+'') \<and> e = num10 E))"

lemma fold_digits: "places E \<Longrightarrow> fold (\<lambda>c a. a * 10 + digit_val c) (map dc E) a = a * 10 ^ length E + num10 E"
  by (induction E arbitrary: a) (simp_all add: dc_digit algebra_simps)

lemma takeWhile_digits: "places E \<Longrightarrow> takeWhile is_digit (map dc E) = map dc E" "places E \<Longrightarrow> dropWhile is_digit (map dc E) = []"
  using dc_digit by (auto simp: places_def takeWhile_eq_all_conv dropWhile_eq_Nil_conv)

lemma dc_code: "0 \<le> n \<Longrightarrow> n \<le> 9 \<Longrightarrow> (of_char (dc n) :: nat) = nat n + 48"
  by (simp add: dc_def of_char_of nat_add_distrib)

lemma dc_other: "0 \<le> n \<Longrightarrow> n \<le> 9 \<Longrightarrow> \<not> is_space (dc n) \<and> dc n \<noteq> CHR ''-'' \<and> dc n \<noteq> CHR ''+'' \<and> dc n \<noteq> CHR ''.'' \<and> \<not> either (dc n) CHR ''n'' CHR ''N'' \<and> \<not> either (dc n) CHR ''m'' CHR ''M'' \<and> \<not> either (dc n) CHR ''i'' CHR ''I''"
  using dc_code [of n] by (auto simp: is_space_def either_def)

lemma strtoll_digits:
  assumes "places E" "E \<noteq> []" "num10 E \<le> 1000" "sg = ''-'' \<or> sg = [] \<or> sg = ''+''"
  shows "strtoll (sg @ map dc E) = Some (if sg = ''-'' then - num10 E else num10 E, [])"
proof -
  obtain x xs where E: "E = x # xs" using assms(2) by (cases E) auto
  have x: "\<not> is_space (dc x)" "dc x \<noteq> CHR ''-''" "dc x \<noteq> CHR ''+''" using dc_other [of x] assms(1) E by auto
  have s: "\<not> is_space CHR ''-''" "\<not> is_space CHR ''+''" by (simp_all add: is_space_def)
  have b: "0 \<le> num10 E" using num10_bound [OF assms(1)] by simp
  have t: "takeWhile is_digit (map dc E) = map dc E" "dropWhile is_digit (map dc E) = []" "fold (\<lambda>c a. a * 10 + digit_val c) (map dc E) 0 = num10 E"
    using takeWhile_digits [OF assms(1)] fold_digits [OF assms(1), of 0] by auto
  have dw: "dropWhile is_space (sg @ map dc E) = sg @ map dc E" using assms(4) x s by (auto simp: E)
  have h: "sg @ map dc E \<noteq> []" "hd (sg @ map dc E) = CHR ''-'' \<longleftrightarrow> sg = ''-''" "(if either (hd (sg @ map dc E)) CHR ''-'' CHR ''+'' then tl (sg @ map dc E) else sg @ map dc E) = map dc E"
    using assms(4) x by (auto simp: E either_def)
  show ?thesis unfolding strtoll_def Let_def dw using h(1) b assms(2,3) by (simp only: h t simp_thms if_True) auto
qed

lemma read_exponent_spec:
  assumes "exponent_str tail e" "\<bar>e\<bar> \<le> 1000"
  shows "read_exponent tail w s = Inr ([], w + e, if s - e < 0 then 0 else s - e) \<or> tail = [] \<and> read_exponent tail w s = Inr ([], w, s)"
  using assms unfolding exponent_str_def
proof (elim disjE exE conjE)
  fix c esg E
  assume a: "either c CHR ''e'' CHR ''E''" "tail = c # esg @ map dc E" "places E" "E \<noteq> []" "esg = ''-''" "e = - num10 E" "\<bar>e\<bar> \<le> 1000"
  then show ?thesis using strtoll_digits [OF a(3,4), of esg] num10_bound [OF a(3)] by (simp add: read_exponent_def)
next
  fix c esg E
  assume a: "either c CHR ''e'' CHR ''E''" "tail = c # esg @ map dc E" "places E" "E \<noteq> []" "esg = []" "e = num10 E" "\<bar>e\<bar> \<le> 1000"
  then show ?thesis using strtoll_digits [OF a(3,4), of esg] num10_bound [OF a(3)] by (simp add: read_exponent_def)
next
  fix c esg E
  assume a: "either c CHR ''e'' CHR ''E''" "tail = c # esg @ map dc E" "places E" "E \<noteq> []" "esg = ''+''" "e = num10 E" "\<bar>e\<bar> \<le> 1000"
  then show ?thesis using strtoll_digits [OF a(3,4), of esg] num10_bound [OF a(3)] by (simp add: read_exponent_def)
qed (simp add: read_exponent_def)

definition numeral_str :: "int list \<Rightarrow> bool \<Rightarrow> int list \<Rightarrow> string \<Rightarrow> string" where
  "numeral_str D1 dp D2 tail = map dc D1 @ (if dp then ''.'' else []) @ map dc D2 @ tail"

definition numeral_ok :: "int list \<Rightarrow> bool \<Rightarrow> int list \<Rightarrow> bool" where
  "numeral_ok D1 dp D2 \<longleftrightarrow> places D1 \<and> places D2 \<and> D1 @ D2 \<noteq> [] \<and> (D1 = [] \<longrightarrow> dp) \<and> (\<not> dp \<longrightarrow> D2 = [])"

lemma scan_tail: "exponent_str tail e \<Longrightarrow> scan tail dp ds w s = Inr (tail, ds, w, s)"
  by (auto simp: exponent_str_def either_def is_digit_def)

lemma scan_numeral:
  assumes ok: "numeral_ok D1 dp D2" "exponent_str tail e" and lim: "int (length D1) \<le> 132072" "int (length D2) \<le> 17383"
  shows "scan (if D1 = [] then map dc D2 @ tail else numeral_str D1 dp D2 tail) (D1 = []) [] (- 1) 0 = Inr (tail, rev (D1 @ D2), int (length D1) - 1, int (length D2))"
proof -
  have p: "places D1" "places D2" using ok(1) by (auto simp: numeral_ok_def)
  have dot: "\<not> is_digit CHR ''.''" by (simp add: is_digit_def)
  have two: "scan (map dc D2 @ tail) True acc w 0 = Inr (tail, rev D2 @ acc, w, int (length D2))" for acc w
    using scan_digits [OF p(2), of True w 0 tail acc] lim(2) scan_tail [OF ok(2)] by simp
  show ?thesis
  proof (cases "D1 = []")
    case False
    have "scan (numeral_str D1 dp D2 tail) False [] (- 1) 0 = scan ((if dp then ''.'' else []) @ map dc D2 @ tail) False (rev D1) (int (length D1) - 1) 0"
      unfolding numeral_str_def using scan_digits [OF p(1), of False "- 1" 0 _ "[]"] lim(1) by simp
    then show ?thesis using False two dot scan_tail [OF ok(2)] ok(1) by (cases dp) (auto simp: numeral_ok_def)
  qed (use two in simp)
qed

lemma numeral_head:
  assumes ok: "numeral_ok D1 dp D2" "exponent_str tail e"
  shows "numeral_str D1 dp D2 tail \<noteq> []" "hd (numeral_str D1 dp D2 tail) = CHR ''.'' \<longleftrightarrow> D1 = []"
    "D1 \<noteq> [] \<Longrightarrow> \<exists>x. hd (numeral_str D1 dp D2 tail) = dc x \<and> 0 \<le> x \<and> x \<le> 9" "D1 = [] \<Longrightarrow> tl (numeral_str D1 dp D2 tail) = map dc D2 @ tail \<and> (\<exists>x xs. D2 = x # xs \<and> 0 \<le> x \<and> x \<le> 9)"
proof -
  show "numeral_str D1 dp D2 tail \<noteq> []" using ok(1) by (auto simp: numeral_str_def numeral_ok_def)
  have a: "\<exists>x. hd (numeral_str D1 dp D2 tail) = dc x \<and> 0 \<le> x \<and> x \<le> 9" if "D1 \<noteq> []"
    using that ok(1) by (cases D1) (auto simp: numeral_str_def numeral_ok_def)
  then show "D1 \<noteq> [] \<Longrightarrow> \<exists>x. hd (numeral_str D1 dp D2 tail) = dc x \<and> 0 \<le> x \<and> x \<le> 9" .
  show "D1 = [] \<Longrightarrow> tl (numeral_str D1 dp D2 tail) = map dc D2 @ tail \<and> (\<exists>x xs. D2 = x # xs \<and> 0 \<le> x \<and> x \<le> 9)"
    using ok(1) by (cases D2) (auto simp: numeral_str_def numeral_ok_def)
  show "hd (numeral_str D1 dp D2 tail) = CHR ''.'' \<longleftrightarrow> D1 = []"
  proof (cases "D1 = []")
    case False
    then show ?thesis using a dc_other by metis
  qed (use ok(1) in \<open>simp add: numeral_str_def numeral_ok_def\<close>)
qed

lemma special_none:
  assumes "r \<noteq> []" "\<not> either (hd r) CHR ''n'' CHR ''N''" "\<not> either (hd r) CHR ''m'' CHR ''M''" "\<not> either (hd r) CHR ''i'' CHR ''I''" "hd r \<noteq> CHR ''-''" "sg = [] \<or> sg = ''-'' \<or> sg = ''+''"
  shows "special_str (sg @ r) = None"
  using assms(6)
proof (elim disjE)
  assume "sg = []"
  then have "(sg @ r) ! 0 = hd r" using assms(1) by (simp add: hd_conv_nth)
  then show ?thesis using assms(2-5) unfolding special_str_def by simp
next
  assume "sg = ''-''"
  then have "(sg @ r) ! 0 = CHR ''-''" "(sg @ r) ! 1 = hd r" using assms(1) by (simp_all add: hd_conv_nth)
  then show ?thesis using assms(4) unfolding special_str_def by (simp add: either_def)
next
  assume "sg = ''+''"
  then show ?thesis unfolding special_str_def by (simp add: either_def)
qed

lemma from_str_value:
  assumes ok: "numeral_ok D1 dp D2" "exponent_str tail e" and sg: "sg = [] \<or> sg = ''-'' \<or> sg = ''+''" and e: "\<bar>e\<bar> \<le> DECIMAL_MAX_PRECISION"
    and lim: "int (length D1) - 1 + e < DECIMAL_MAX_DWEIGHT" "int (length D1) \<le> DECIMAL_MAX_DWEIGHT + DECIMAL_MAX_PRECISION" "int (length D2) - e \<le> DECIMAL_MAX_DSCALE" "int (length D2) \<le> DECIMAL_MAX_DSCALE + DECIMAL_MAX_PRECISION"
    and t: "d_typemod d = - 1" and mem: "\<forall>n. mem n"
  shows "\<exists>d'. decimal_from_str mem (sg @ numeral_str D1 dp D2 tail) d = Inr d' \<and> canonical d' \<and> stripped (d_digits d') \<and> d_dscale d' = max 0 (int (length D2) - e)
    \<and> dec_val d' = (if sg = ''-'' then - 1 else 1) * (of_int (num10 (D1 @ D2)) * 10 powi (e - int (length D2)))"
proof -
  let ?r = "numeral_str D1 dp D2 tail"
  define cp where "cp = (if D1 = [] then map dc D2 @ tail else ?r)"
  define sign where "sign = (if sg = ''-'' then SDB_DECIMAL_NEG else SDB_DECIMAL_POS)"
  note H = numeral_head [OF ok]
  have hd: "\<not> either (hd ?r) CHR ''n'' CHR ''N''" "\<not> either (hd ?r) CHR ''m'' CHR ''M''" "\<not> either (hd ?r) CHR ''i'' CHR ''I''" "hd ?r \<noteq> CHR ''-''" "hd ?r \<noteq> CHR ''+''"
  proof -
    consider x where "hd ?r = dc x" "0 \<le> x" "x \<le> 9" | "hd ?r = CHR ''.''" using H(2,3) by blast
    then have "\<not> either (hd ?r) CHR ''n'' CHR ''N'' \<and> \<not> either (hd ?r) CHR ''m'' CHR ''M'' \<and> \<not> either (hd ?r) CHR ''i'' CHR ''I'' \<and> hd ?r \<noteq> CHR ''-'' \<and> hd ?r \<noteq> CHR ''+''"
    proof cases
      case (1 x)
      then show ?thesis using dc_other [OF 1(2,3)] by simp
    qed (simp add: either_def)
    then show "\<not> either (hd ?r) CHR ''n'' CHR ''N''" "\<not> either (hd ?r) CHR ''m'' CHR ''M''" "\<not> either (hd ?r) CHR ''i'' CHR ''I''" "hd ?r \<noteq> CHR ''-''" "hd ?r \<noteq> CHR ''+''" by auto
  qed
  have none: "special_str (sg @ ?r) = None" by (rule special_none [OF H(1) hd(1-4) sg])
  have sgn: "sg @ ?r \<noteq> []" "hd (sg @ ?r) = CHR ''-'' \<longleftrightarrow> sg = ''-''" "(if either (hd (sg @ ?r)) CHR ''+'' CHR ''-'' then tl (sg @ ?r) else sg @ ?r) = ?r"
    using sg H(1) hd(4,5) by (auto simp: either_def)
  have cp: "(if D1 = [] then tl ?r else ?r) = cp" using H(4) by (simp add: cp_def)
  have dig: "cp \<noteq> []" "is_digit (hd cp)" using H(1,3,4) dc_digit by (auto simp: cp_def)
  have sc: "scan cp (D1 = []) [] (- 1) 0 = Inr (tail, rev (D1 @ D2), int (length D1) - 1, int (length D2))" unfolding cp_def using lim(2,4) by (intro scan_numeral [OF ok]) simp_all
  have ex: "read_exponent tail (int (length D1) - 1) (int (length D2)) = Inr ([], int (length D1) - 1 + e, max 0 (int (length D2) - e))"
    using read_exponent_spec [OF ok(2) e, of "int (length D1) - 1" "int (length D2)"] ok(2) by (auto simp: exponent_str_def max_def)
  have s: "\<not> 16383 < max 0 (int (length D2) - e)" using lim(3) by simp
  have "decimal_from_str mem (sg @ ?r) d = build mem sign (D1 @ D2) (int (length D1) - 1 + e) (max 0 (int (length D2) - e)) d"
    unfolding decimal_from_str_def none option.case Let_def
    using sgn(1) dig mem lim(1,3) by (simp only: sgn H(1,2) cp sc ex sum.case prod.case sign_def simp_thms if_False rev_rev_ident) (simp add: s)
  moreover have "places (D1 @ D2)" using ok(1) by (simp add: numeral_ok_def)
  moreover have "int (length D1) - 1 + e + 1 - int (length (D1 @ D2)) = e - int (length D2)" by simp
  ultimately show ?thesis
    using build_spec [of "D1 @ D2" "int (length D1) - 1 + e" "max 0 (int (length D2) - e)" d mem sign] lim(1,3) t mem by (auto simp: sign_def)
qed

text \<open>C16: \<open>decimal_from_str\<close>, into a target without declared precision, reads every numeral - a sign, places before and behind the point, an exponent of at most 1000 in magnitude - whose number of places is within the limits as
  exactly the number it denotes, in normal form, with the places behind the point as its display scale.\<close>
theorem decimal_from_str_value:
  assumes "numeral_ok D1 dp D2" "exponent_str tail e" and "sg = [] \<or> sg = ''-'' \<or> sg = ''+''" and "\<bar>e\<bar> \<le> DECIMAL_MAX_PRECISION"
    and "int (length D1) + e \<le> DECIMAL_MAX_DWEIGHT" "int (length D1) \<le> DECIMAL_MAX_DWEIGHT" "int (length D2) - e \<le> DECIMAL_MAX_DSCALE" "int (length D2) \<le> DECIMAL_MAX_DSCALE"
    and "d_typemod d = - 1" and "\<forall>n. mem n"
  shows "\<exists>d'. decimal_from_str mem (sg @ numeral_str D1 dp D2 tail) d = Inr d' \<and> canonical d' \<and> stripped (d_digits d') \<and> d_dscale d' = max 0 (int (length D2) - e)
    \<and> dec_val d' = (if sg = ''-'' then - 1 else 1) * (of_int (num10 (D1 @ D2)) * 10 powi (e - int (length D2)))"
  using assms by (intro from_str_value) auto

theorem decimal_from_str_value_witness:
  "\<exists>d'. decimal_from_str (\<lambda>n. True) ''-12.50e1'' decimal_init = Inr d' \<and> dec_val d' = - 125 \<and> d_dscale d' = 1"
proof -
  have dcs: "dc 0 = CHR ''0''" "dc 1 = CHR ''1''" "dc 2 = CHR ''2''" "dc 5 = CHR ''5''" by code_simp+
  have "exponent_str ''e1'' 1" unfolding exponent_str_def by (rule disjI2, intro exI [of _ "CHR ''e''"] exI [of _ "[]"] exI [of _ "[1]"]) (simp add: either_def dcs)
  moreover have "''-12.50e1'' = ''-'' @ numeral_str [1, 2] True [5, 0] ''e1''" by (simp add: numeral_str_def dcs)
  moreover have "(10::rat) powi (1 - int (length [5::int, 0])) = 1 / 10" by (simp add: power_int_minus)
  ultimately show ?thesis using decimal_from_str_value [of "[1, 2]" True "[5, 0]" "''e1''" 1 "''-''" decimal_init "\<lambda>n. True"] by (auto simp: numeral_ok_def decimal_init_def)
qed

text \<open>C11: Every decimal in normal form within the bounds, all of whose places are shown, is read back from its text by \<open>decimal_from_str\<close> into a target without declared precision: the same number with the same display
  scale.  The special values are read back as themselves.\<close>
theorem decimal_str_roundtrip:
  assumes "canonical d \<and> stripped (d_digits d) \<and> (d_digits d = [] \<longrightarrow> d_weight d = 0) \<and> shown d \<and> \<not> dec_is_out_of_bound d \<or> decimal_is_nan d \<or> decimal_is_min d \<or> decimal_is_max d"
    and "dec_sprint_len (d_sign d) (d_weight d) (d_dscale d) \<le> value_size" and "d_typemod d0 = - 1" and "\<forall>n. mem n"
  shows "\<exists>s n d'. decimal_to_str d value_size = Inr (s, n) \<and> decimal_from_str mem s d0 = Inr d' \<and> decimal_cmp d d' = 0
    \<and> (canonical d \<longrightarrow> dec_val d' = dec_val d \<and> d_dscale d' = d_dscale d)"
proof (cases "canonical d \<and> stripped (d_digits d) \<and> (d_digits d = [] \<longrightarrow> d_weight d = 0) \<and> shown d \<and> \<not> dec_is_out_of_bound d")
  case True
  then have c: "canonical d" "stripped (d_digits d)" "d_digits d = [] \<longrightarrow> d_weight d = 0" "d_weight d < 32768" "d_dscale d \<le> 16383" by (auto simp: dec_is_out_of_bound_def)
  obtain k where k: "0 \<le> d_dscale d" "dval (d_digits d) (d_weight d) = of_int k * 10 powi (- d_dscale d)" using True by (auto simp: shown_def)
  obtain D1 D2 where D: "int_part d = map dc D1" "take (nat (d_dscale d)) (frac_part d) = map dc D2" "places D1" "places D2" "D1 \<noteq> []" "int (length D1) \<le> max 1 (4 * (d_weight d + 1))"
      "length D2 = nat (d_dscale d)" "num10 (D1 @ D2) = k"
    using printed [OF c(1-3) k] by blast
  define sg where "sg = (if d_sign d = SDB_DECIMAL_NEG then ''-'' else [])"
  define s where "s = sg @ numeral_str D1 (d_dscale d > 0) D2 []"
  have ns: "\<not> decimal_is_nan d" "\<not> decimal_is_min d" "\<not> decimal_is_max d" using canonical_rank [OF c(1)] by auto
  have str: "\<exists>n. decimal_to_str d value_size = Inr (s, n)"
  proof (cases "d_dscale d > 0")
    case False
    then have "D2 = []" using D(7) by simp
    then show ?thesis using False assms(2) ns D(1) by (simp add: decimal_to_str_def Let_def s_def numeral_str_def sg_def)
  qed (use assms(2) ns D(1,2) in \<open>simp add: decimal_to_str_def Let_def s_def numeral_str_def sg_def\<close>)
  have ok: "numeral_ok D1 (d_dscale d > 0) D2" "exponent_str [] 0" using D(3-5,7) by (auto simp: numeral_ok_def exponent_str_def)
  have "sg = [] \<or> sg = ''-'' \<or> sg = ''+''" by (simp add: sg_def)
  moreover have "int (length D1) \<le> 131072" using D(6) c(4) by (auto simp: max_def split: if_splits)
  ultimately obtain d' where d': "decimal_from_str mem s d0 = Inr d'" "canonical d'" "d_dscale d' = max 0 (int (length D2))"
      "dec_val d' = (if sg = ''-'' then - 1 else 1) * (of_int (num10 (D1 @ D2)) * 10 powi (- int (length D2)))"
    using from_str_value [OF ok, of sg d0 mem] D(7) c(5) k(1) assms(3,4) by (auto simp: s_def)
  have "dec_val d' = dec_val d" using d'(4) D(7,8) k by (simp add: dec_val_def sg_def)
  moreover have "d_dscale d' = d_dscale d" using d'(3) D(7) k(1) by simp
  ultimately show ?thesis using str d'(1) cmp_eq [OF c(1) d'(2)] by auto
next
  case False
  then consider "decimal_is_nan d" | "decimal_is_min d" | "decimal_is_max d" using assms(1) by blast
  then show ?thesis
    using assms(2) by cases (auto simp: decimal_to_str_def decimal_from_str_def special_str_def either_def decimal_cmp_def decimal_set_nan_def decimal_set_min_def decimal_set_max_def
      decimal_is_nan_def decimal_is_min_def decimal_is_max_def decimal_is_special_def canonical_def nonspecial_def)
qed

theorem decimal_str_roundtrip_witness:
  "\<exists>s n d'. decimal_to_str (decimal_init\<lparr>d_digits := [12, 5000], d_dscale := 1, d_sign := SDB_DECIMAL_NEG\<rparr>) 11 = Inr (s, n) \<and> decimal_from_str (\<lambda>n. True) s decimal_init = Inr d'
     \<and> dec_val d' = - (25 / 2)"
proof -
  let ?d = "decimal_init\<lparr>d_digits := [12, 5000], d_dscale := 1, d_sign := SDB_DECIMAL_NEG\<rparr>"
  have "shown ?d" by (auto simp: shown_def decimal_init_def power_int_minus intro!: exI [of _ 125])
  then have "canonical ?d \<and> stripped (d_digits ?d) \<and> (d_digits ?d = [] \<longrightarrow> d_weight ?d = 0) \<and> shown ?d \<and> \<not> dec_is_out_of_bound ?d"
    by (auto simp: canonical_def nonspecial_def stripped_def dec_is_out_of_bound_def decimal_init_def)
  moreover have "dec_val ?d = - (25 / 2)" by (simp add: dec_val_def decimal_init_def power_int_minus)
  moreover have "dec_sprint_len (d_sign ?d) (d_weight ?d) (d_dscale ?d) \<le> 11" by (simp add: dec_sprint_len_def decimal_init_def)
  ultimately show ?thesis using decimal_str_roundtrip [of ?d 11 decimal_init "\<lambda>n. True"] by (auto simp: decimal_init_def)
qed

text \<open>Rounding to the scale of a precision happens behind the stripping: a number that is rounded to 0 keeps a digit 0, and \<open>decimal_cmp\<close> does not find it equal to 0.\<close>

theorem rounded_to_zero_differs:
  "(case decimal_from_str (\<lambda>n. True) ''0.04'' (decimal_init\<lparr>d_typemod := 0x50001\<rparr>) of Inr d \<Rightarrow> (d_digits d, decimal_cmp decimal_init d) | Inl _ \<Rightarrow> ([], 0)) = ([0], - 1)"
  by code_simp

end
