(* ===== verification/Spec2Isabelle.thy ===== *)
theory Spec2Isabelle
  imports Dms_Alloc Dms_Open Pmd_Stop Pmd_Controller Bson_DecStr
begin

text \<open>
  A verification library for NOVA, a document store in C++ (sources under \<open>src/src\<close>).  A program built on it is a set of control blocks that run in engine dispatchable units
  (EDUs, one thread each) and keep BSON records in storage units, one memory-mapped file each.  The library models the storage engine (\<open>dms\<close>), the file mapping under
  it (\<open>oss/ossMmap\<close>), the BSON reading it relies on, the process model that runs the EDUs and the control blocks (\<open>pmd\<close>), and the arithmetic of BSON decimals (\<open>bson/common_decimal.c\<close>).

  \<^bold>\<open>The storage engine.\<close>  A storage unit (\<open>_dmsBlockData\<close>) is a header, a bitmap of pages (the space management extent), a table of metadata blocks (one per collection) and
  segments of data pages.  A collection owns extents, runs of pages in one segment; an extent holds records, chained in the order of insertion, and free cells, kept in 20
  lists by size.  From the bottom:
  \<^item> \<open>Nova_Prelude\<close>: return codes, casts to fixed widths, sizing helpers of \<open>ossUtil\<close>.
  \<^item> \<open>Dms_SME\<close>, \<open>Dms_SegmentSpace\<close>, \<open>Dms_SMEMgr\<close>: the bitmap, the list of free runs of one segment, and the page allocator over all segments (\<open>dmsSMEMgr.cpp\<close>).  \<open>Dms_SMEMgr_Spec\<close> states
    the allocator as a state machine and a set of free pages: reserve and release act on the set as they should, the counter of free pages counts the clear bits in every reachable
    state, and \<open>init\<close> rebuilds the lists from the bitmap.  The locale \<open>page_allocator\<close> is the interface the rest relies on.
  \<^item> \<open>Dms_Types\<close>, \<open>Dms_Names\<close>, \<open>Dms_Record\<close>, \<open>Dms_Extent\<close>: record ids, name checks, and the byte layouts of record and extent headers, with round trips between setters and getters.
  \<^item> \<open>Dms_DirtyList\<close>, \<open>Dms_MBContext\<close>, \<open>Oss_Mmap\<close>: the list of changed segments, the latch of a metadata block with pausing and resuming, and the mapped file.
  \<^item> \<open>Dms_BlockState\<close>: the state of a unit and a small state-and-error monad for the handlers; \<open>yields\<close> is its weakest-precondition style rule, \<open>core\<close> the part of the state that the flushing
    bookkeeping does not touch.  \<open>Dms_FreeList\<close>, \<open>Dms_Space\<close>, \<open>Dms_Insert\<close>, \<open>Dms_Header\<close>, \<open>Dms_Catalog\<close>, \<open>Dms_Open\<close>, \<open>Dms_Scanner\<close>: the handlers of \<open>dmsBlockData.cpp\<close> and \<open>dmsScanner.cpp\<close>, whole, in the
    order of the code: free lists, growing the file and allocating extents, inserting and fetching, the header and the creation of a unit, collections, opening and closing, scanning.
  \<^item> \<open>Bson_Obj\<close>, \<open>Dms_Prepare\<close>: reading BSON objects by bytes and what \<open>_prepareInsertData\<close> stores for them.
  \<^item> \<open>Dms_Frame\<close>: what each handler leaves alone, proved once for every view of the unit with the right properties (locales \<open>file_view\<close>, \<open>space_view\<close>, \<open>record_view\<close>, \<open>unit_view\<close>).
  \<^item> \<open>Dms_ExtentChain\<close>, \<open>Dms_FreeStore\<close>, \<open>Dms_FreeSearch\<close>, \<open>Dms_Pages\<close>: the representation invariants of the extent list, the free lists and the pages, and the operations on them as operations on the
    list of extents and the map of free cells (locale \<open>free_store\<close>).
  \<^item> \<open>Dms_Collection\<close>, \<open>Dms_Growth\<close>, \<open>Dms_Alloc\<close>: a collection as a whole.  Inserting stores the object in a new record behind the others and keeps every other record; when no free cell fits, a new
    extent is allocated, linked and cut into cells, so that an insertion succeeds as long as the operating system does and the unit may grow.

  \<^bold>\<open>The process model.\<close>
  \<^item> \<open>Nova_Containers\<close>: \<open>std::map\<close> and \<open>std::multimap\<close> as sorted lists (locale \<open>key_map\<close>).
  \<^item> \<open>Pmd_EDU\<close>, \<open>Pmd_EDUMem\<close>: the control block of an EDU (\<open>pmdEDU.cpp\<close>) with its event queue, control flags and buffer cache, over a heap that records which blocks are live.  In every run no
    block is freed twice and the size counters are exact (the counter of all buffers as long as none reaches 2 GB; \<open>large_buffer_miscounted\<close> shows what happens then); \<open>clear\<close> frees everything; waiting for one type of event loses none of the others.
  \<^item> \<open>Pmd_EPFactory\<close>, \<open>Pmd_EDUMgr\<close>: the register of entry points and the EDU manager (\<open>pmdEDUMgr.cpp\<close>): the tables of running and idle EDUs, the pool, the system EDUs.  Control blocks are
    objects in a store and the tables hold addresses; a method that takes the latch several times is one function per critical section and their composition.
  \<^item> \<open>Pmd_EDUMgrInv\<close>, \<open>Pmd_EDUSafe\<close>: the step relation of all threads (starters, EDU threads, callers) at the grain of the critical sections, with the deletion of a block and the end of its thread as
    steps behind them; its invariant, and what follows: typed tables, no use of a deleted control block, protected system EDUs, what a start from the pool does, and the monitor that refills the
    pool.  Steps are labelled with the fault they are, if any; the properties are about runs without faults (\<open>eduReach\<close>).  \<open>thread_fault_dangles\<close> and \<open>call_fault_dangles\<close> are runs with a fault
    after which a deleted block is still in a table or in the hands of \<open>startEDU\<close>.
  \<^item> \<open>Pmd_Stop\<close>: stopping: the loops of \<open>destroyAll\<close> end within a bounded time, and after a normal stop no EDU is in the tables, and its threads have at most to delete their blocks and to exit.
  \<^item> \<open>Pmd_Container\<close>: the container of the control blocks (\<open>pmdContainer.cpp\<close>).  Its sort by dependencies succeeds exactly when there is an order, and yields one; the loops that initialise,
    activate, deactivate and finalise the control blocks along it.
  \<^item> \<open>Pmd_Controller\<close>: factory, interfaces and controller (\<open>pmdCBFactory.cpp\<close>, \<open>pmdIFAdapter.cpp\<close>, \<open>pmdController.cpp\<close>).  Whatever fails while a node starts, what was started is stopped
    exactly once, in the opposite order.

  \<^bold>\<open>Decimals.\<close>  A decimal is a sign, a weight and digits to the base 10000 in a buffer with spare cells in front.
  \<^item> \<open>Bson_Decimal\<close>: the record, special values, stripping, truncation, rounding, precision, comparison, addition and subtraction.  \<open>Bson_DecVal\<close> gives a decimal its rational value
    (\<open>dec_val\<close>) and shows that \<open>decimal_cmp\<close> compares values.
  \<^item> \<open>Bson_DecAdd\<close>, \<open>Bson_DecRound\<close>, \<open>Bson_DecMul\<close>, \<open>Bson_DecDiv\<close>, \<open>Bson_DecInt\<close>: sums, differences, products and remainders are exact, rounding is half up, quotients are correctly rounded with
    at least 16 significant places, and 64-bit integers survive the conversion and back.  Products are exact as long as the 32-bit sums of \<open>_decimal_mul\<close> cannot overflow (\<open>mul_safe\<close>);
    \<open>decimal_mul_overflows\<close> is a product where they do.
  \<^item> \<open>Bson_DecStr\<close>: the text of a decimal fits into the buffer it asks for and is read back unchanged; every numeral is read as the number it denotes.

  \<^bold>\<open>How the model corresponds to the code.\<close>  Structs and classes are records with the members' names, enumerations are datatypes, one definition per function, named as in the code (a
  suffix or prefix where two classes share a name).  Return codes are integers, \<open>SDB_OK\<close> is 0; exceptions and assertions are branches.  Integers are words, or numbers with the
  wrap-around written out by \<open>u16\<close>, \<open>u32\<close> and \<open>s32\<close>.  What the operating system answers (addresses, mapped files, thread ids, the time, failures) is an argument of the definition.  Logging, tracing
  and counters for monitoring are left out.

  \<^bold>\<open>Bounds and fuel.\<close>  Loops are recursive functions with a termination proof.  Three take fuel: the BSON loops, because nothing in the code keeps the iteration inside an object (more fuel
  than bytes is enough for a well-formed one); the search of free pages, where two rounds are enough because a segment is added after the first; and the retry of the record allocation,
  where two are enough for the same reason.  The sort of the control blocks counts its rounds as the code does, up to \<open>PMD_CB_MAX + 1\<close>.  The theorems state that the result is reached with that fuel.  The step relation of the EDU manager assumes that fewer than \<open>2 ^ 64\<close> EDUs are
  created.

  \<^bold>\<open>Not modelled.\<close>  The network layer and the script engine are event loops and bindings of libraries that are not part of the sources; messages, logging and the operating system
  wrappers have no state of their own; the BSON builders and printing are outside the storage path; the conversions of decimals from and to floating point, JSON text and
  the stored form are left out, as are NULL arguments; the daemon, the options, the programs, tests and third-party code are glue.  The
  deletion and the update of records do not exist in the sources.  Failing allocations inside the C++ containers (exceptions thrown by an insertion into a map) are not modelled, except as a thread that throws.  Handlers of a storage unit are run by one session at a time.  The join of the monitor thread takes time that is not counted.
\<close>

end
